(* ===== verification/Prelude.thy ===== *)
theory Prelude
  imports Main "HOL-Library.Multiset" "HOL-Library.Word"
begin

text \<open>
  What the component theories share. A Go function that can panic returns a value of
  type \<open>'a run\<close>; a Go error result is a value of a sum or option type of the component.
  Go's fixed-width integers are machine words (\<open>uint8\<close> to \<open>uint64\<close>) or integers with the
  two's complement wrap-around written out (\<open>wrap64\<close>, for \<open>int64\<close>). The iteration order of
  a Go map is unspecified: an operation that ranges over a map takes the order as a
  parameter, and \<open>iteration_order\<close> states all the language promises about it.
\<close>

named_theorems run_simps \<open>equations of the panic type\<close>
named_theorems inv_intros \<open>preservation of a component's invariant, one rule per operation\<close>

section \<open>Panics\<close>

datatype 'a run = Ret 'a | Panic string

fun run_bind :: "'a run \<Rightarrow> ('a \<Rightarrow> 'b run) \<Rightarrow> 'b run" where
  "run_bind (Ret x) f = f x"
| "run_bind (Panic m) f = Panic m"

fun run_map :: "('a \<Rightarrow> 'b) \<Rightarrow> 'a run \<Rightarrow> 'b run" where
  "run_map f (Ret x) = Ret (f x)"
| "run_map f (Panic m) = Panic m"

fun panics :: "'a run \<Rightarrow> bool" where
  "panics (Ret x) = False"
| "panics (Panic m) = True"

lemma run_bind_Ret [run_simps]: "run_bind m f = Ret y \<longleftrightarrow> (\<exists>x. m = Ret x \<and> f x = Ret y)"
  by (cases m) auto

lemma run_bind_Panic [run_simps]:
  "run_bind m f = Panic e \<longleftrightarrow> m = Panic e \<or> (\<exists>x. m = Ret x \<and> f x = Panic e)"
  by (cases m) auto

lemma run_map_Ret [run_simps]: "run_map f m = Ret y \<longleftrightarrow> (\<exists>x. m = Ret x \<and> y = f x)"
  by (cases m) auto

lemma panics_iff: "panics m \<longleftrightarrow> (\<exists>e. m = Panic e)"
  by (cases m) auto

lemma not_panics_iff: "\<not> panics m \<longleftrightarrow> (\<exists>x. m = Ret x)"
  by (cases m) auto

section \<open>Integers\<close>

definition wrap64 :: "int \<Rightarrow> int" where
  "wrap64 i = (i + 2 ^ 63) mod 2 ^ 64 - 2 ^ 63"

definition MinInt64 :: int where
  "MinInt64 = - (2 ^ 63)"

definition MaxInt64 :: int where
  "MaxInt64 = 2 ^ 63 - 1"

definition is_int64 :: "int \<Rightarrow> bool" where
  "is_int64 i \<longleftrightarrow> MinInt64 \<le> i \<and> i \<le> MaxInt64"

lemma wrap64_id: "is_int64 i \<Longrightarrow> wrap64 i = i"
  by (simp add: wrap64_def is_int64_def MinInt64_def MaxInt64_def)

lemma is_int64_wrap64: "is_int64 (wrap64 i)"
proof -
  have "0 \<le> (i + 2 ^ 63) mod 2 ^ 64" and "(i + 2 ^ 63) mod 2 ^ 64 < (2::int) ^ 64"
    by simp_all
  then show ?thesis
    unfolding wrap64_def is_int64_def MinInt64_def MaxInt64_def by simp
qed

section \<open>Decimal digits, as \<open>%d\<close> and \<open>%v\<close> print them\<close>

definition digit_char :: "nat \<Rightarrow> char" where
  "digit_char d = ''0123456789'' ! (d mod 10)"

fun string_of_nat :: "nat \<Rightarrow> string" where
  "string_of_nat n =
     (if n < 10 then [digit_char n] else string_of_nat (n div 10) @ [digit_char (n mod 10)])"

declare string_of_nat.simps [simp del]

lemma string_of_nat_small: "n < 10 \<Longrightarrow> string_of_nat n = [digit_char n]"
  by (subst string_of_nat.simps) simp

definition string_of_int :: "int \<Rightarrow> string" where
  "string_of_int i = (if i < 0 then ''-'' @ string_of_nat (nat (- i)) else string_of_nat (nat i))"

section \<open>Lists\<close>

lemma image_disjointI: "(\<And>x y. x \<in> A \<Longrightarrow> y \<in> B \<Longrightarrow> f x \<noteq> f y) \<Longrightarrow> f ` A \<inter> f ` B = {}"
  by blast

text \<open>The order in which a loop meets the entries of a Go map: some permutation of them.\<close>

definition iteration_order :: "('a list \<Rightarrow> 'a list) \<Rightarrow> bool" where
  "iteration_order ord \<longleftrightarrow> (\<forall>xs. mset (ord xs) = mset xs)"

lemma iteration_order_set: "iteration_order ord \<Longrightarrow> set (ord xs) = set xs"
  unfolding iteration_order_def by (metis set_mset_mset)

lemma iteration_order_length: "iteration_order ord \<Longrightarrow> length (ord xs) = length xs"
  unfolding iteration_order_def by (metis size_mset)

lemma iteration_order_distinct: "iteration_order ord \<Longrightarrow> distinct (ord xs) = distinct xs"
  unfolding iteration_order_def by (metis mset_eq_imp_distinct_iff)

lemma iteration_order_id: "iteration_order (\<lambda>xs. xs)"
  by (simp add: iteration_order_def)

lemma iteration_order_rev: "iteration_order rev"
  by (simp add: iteration_order_def)

lemma rev_take_pred [simp]: "rev (take (length xs - Suc 0) xs) = tl (rev xs)"
  by (cases xs rule: rev_cases) simp_all

lemma rev_take_Cons [simp]: "rev (take (length xs) (x # xs)) = tl (rev xs @ [x])"
  using rev_take_pred [of "x # xs"] by simp

text \<open>Insertion into a Go map kept as an association list of its entries, newest value last.\<close>

fun assoc_put :: "'k \<Rightarrow> 'v \<Rightarrow> ('k \<times> 'v) list \<Rightarrow> ('k \<times> 'v) list" where
  "assoc_put k v [] = [(k, v)]"
| "assoc_put k v ((k', v') # m) = (if k = k' then (k, v) # m else (k', v') # assoc_put k v m)"

definition assoc_del :: "'k \<Rightarrow> ('k \<times> 'v) list \<Rightarrow> ('k \<times> 'v) list" where
  "assoc_del k m = filter (\<lambda>e. fst e \<noteq> k) m"

lemma map_of_assoc_put [simp]: "map_of (assoc_put k v m) = (map_of m)(k \<mapsto> v)"
  by (induction k v m rule: assoc_put.induct) auto

lemma set_keys_assoc_put [simp]: "fst ` set (assoc_put k v m) = insert k (fst ` set m)"
  by (induction k v m rule: assoc_put.induct) auto

lemma set_assoc_put_entries: "set (assoc_put k v m) \<subseteq> insert (k, v) (set m)"
  by (induction k v m rule: assoc_put.induct) auto

lemma distinct_assoc_put [simp]:
  "distinct (map fst m) \<Longrightarrow> distinct (map fst (assoc_put k v m))"
proof (induction k v m rule: assoc_put.induct)
  case (2 k v k' v' m)
  have "fst ` set (assoc_put k v m) = insert k (fst ` set m)" by simp
  with 2 show ?case by (auto simp flip: set_map)
qed simp

lemma map_of_assoc_del [simp]: "map_of (assoc_del k m) = (map_of m)(k := None)"
  by (induction m) (auto simp: assoc_del_def fun_eq_iff)

lemma set_keys_assoc_del [simp]: "fst ` set (assoc_del k m) = fst ` set m - {k}"
  by (auto simp: assoc_del_def)

lemma distinct_assoc_del [simp]:
  "distinct (map fst m) \<Longrightarrow> distinct (map fst (assoc_del k m))"
  by (simp add: assoc_del_def distinct_map_filter)

end
