(* ===== verification/StartStop.thy ===== *)
theory StartStop
  imports Prelude
begin

text \<open>
  \<open>core/utils/utils.go\<close>, \<open>StartStopOnce\<close>: the life cycle every service embeds. The state is
  an atomic integer; \<open>StartOnce\<close> moves it with a compare-and-swap outside the lock and runs
  its function under the lock, \<open>StopOnce\<close> does both under the lock. The first half models
  the operations run to completion, the second half the same operations broken up at the
  points where another goroutine may run.
\<close>

section \<open>States\<close>

datatype StartStopOnceState =
    StartStopOnce_Unstarted
  | StartStopOnce_Started
  | StartStopOnce_Starting
  | StartStopOnce_StartFailed
  | StartStopOnce_Stopping
  | StartStopOnce_Stopped
  | StartStopOnce_StopFailed

fun sso_String :: "StartStopOnceState \<Rightarrow> string" where
  "sso_String StartStopOnce_Unstarted = ''Unstarted''"
| "sso_String StartStopOnce_Started = ''Started''"
| "sso_String StartStopOnce_Starting = ''Starting''"
| "sso_String StartStopOnce_StartFailed = ''StartFailed''"
| "sso_String StartStopOnce_Stopping = ''Stopping''"
| "sso_String StartStopOnce_Stopped = ''Stopped''"
| "sso_String StartStopOnce_StopFailed = ''StopFailed''"

definition cas :: "StartStopOnceState \<Rightarrow> StartStopOnceState \<Rightarrow> StartStopOnceState
    \<Rightarrow> bool \<times> StartStopOnceState" where
  "cas old new st = (if st = old then (True, new) else (False, st))"

text \<open>The errors the operations return; \<open>FnError\<close> is the error of the function they run.\<close>

datatype 'e sso_error =
    AlreadyStartedOnce string StartStopOnceState
  | ErrAlreadyStopped string
  | ErrCannotStopUnstarted string
  | CannotBeStopped string StartStopOnceState
  | FnError 'e

datatype errNotStarted = ErrNotStarted StartStopOnceState

definition errNotStarted_Error :: "errNotStarted \<Rightarrow> string" where
  "errNotStarted_Error e =
     (case e of ErrNotStarted st \<Rightarrow>
        ''service is '' @ [CHR 0x22] @ sso_String st @ [CHR 0x22] @ '', not started'')"

section \<open>The operations run to completion\<close>

text \<open>
  The function is a state transformer of the service's own state that may fail. The service's
  state is paired with the life-cycle state.
\<close>

definition StartOnce :: "string \<Rightarrow> ('s \<Rightarrow> 'e option \<times> 's) \<Rightarrow> StartStopOnceState \<times> 's
    \<Rightarrow> ('e sso_error option \<times> StartStopOnceState \<times> 's) run" where
  "StartOnce name fn once =
     (let (st, s) = once; (success, st1) = cas StartStopOnce_Unstarted StartStopOnce_Starting st
      in if \<not> success then Ret (Some (AlreadyStartedOnce name st1), st1, s)
         else
           (let (err, s1) = fn s;
                (success, st2) =
                  (if err = None then cas StartStopOnce_Starting StartStopOnce_Started st1
                   else cas StartStopOnce_Starting StartStopOnce_StartFailed st1)
            in if \<not> success
               then Panic (name @ '' entered unreachable state, unable to set state to started'')
               else Ret (map_option FnError err, st2, s1)))"

definition StopOnce :: "string \<Rightarrow> ('s \<Rightarrow> 'e option \<times> 's) \<Rightarrow> StartStopOnceState \<times> 's
    \<Rightarrow> ('e sso_error option \<times> StartStopOnceState \<times> 's) run" where
  "StopOnce name fn once =
     (let (st, s) = once; (success, st1) = cas StartStopOnce_Started StartStopOnce_Stopping st
      in if \<not> success
         then
           (case st1 of
              StartStopOnce_Stopped \<Rightarrow> Ret (Some (ErrAlreadyStopped name), st1, s)
            | StartStopOnce_Unstarted \<Rightarrow> Ret (Some (ErrCannotStopUnstarted name), st1, s)
            | _ \<Rightarrow> Ret (Some (CannotBeStopped name st1), st1, s))
         else
           (let (err, s1) = fn s;
                (success, st2) =
                  (if err = None then cas StartStopOnce_Stopping StartStopOnce_Stopped st1
                   else cas StartStopOnce_Stopping StartStopOnce_StopFailed st1)
            in if \<not> success
               then Panic (name @ '' entered unreachable state, unable to set state to stopped'')
               else Ret (map_option FnError err, st2, s1)))"

definition IfStarted :: "('s \<Rightarrow> 's) \<Rightarrow> StartStopOnceState \<times> 's \<Rightarrow> bool \<times> 's" where
  "IfStarted f once =
     (let (st, s) = once in if st = StartStopOnce_Started then (True, f s) else (False, s))"

definition IfNotStopped :: "('s \<Rightarrow> 's) \<Rightarrow> StartStopOnceState \<times> 's \<Rightarrow> bool \<times> 's" where
  "IfNotStopped f once =
     (let (st, s) = once in if st = StartStopOnce_Stopped then (False, s) else (True, f s))"

definition sso_Ready :: "StartStopOnceState \<Rightarrow> errNotStarted option" where
  "sso_Ready st = (if st = StartStopOnce_Started then None else Some (ErrNotStarted st))"

definition sso_Healthy :: "StartStopOnceState \<Rightarrow> errNotStarted option" where
  "sso_Healthy st = (if st = StartStopOnce_Started then None else Some (ErrNotStarted st))"

definition EnsureClosed :: "('c \<Rightarrow> 'e sso_error option \<times> 'c) \<Rightarrow> 'c \<Rightarrow> 'e sso_error option \<times> 'c" where
  "EnsureClosed close c =
     (let (err, c1) = close c
      in case err of
           Some (ErrAlreadyStopped _) \<Rightarrow> (None, c1)
         | Some (ErrCannotStopUnstarted _) \<Rightarrow> (None, c1)
         | _ \<Rightarrow> (err, c1))"

lemmas sso_op_defs = StartOnce_def StopOnce_def IfStarted_def IfNotStopped_def cas_def

lemma StartOnce_Ret: "\<exists>r. StartOnce name fn once = Ret r"
  by (cases once) (auto simp: sso_op_defs Let_def split: prod.splits)

lemma StopOnce_Ret: "\<exists>r. StopOnce name fn once = Ret r"
  by (cases once)
    (auto simp: sso_op_defs Let_def split: prod.splits StartStopOnceState.splits)

section \<open>The operations interleaved\<close>

text \<open>
  Goroutines are numbered. \<open>StartWantLock\<close> is a \<open>StartOnce\<close> call between its successful
  compare-and-swap and \<open>once.Lock()\<close>, \<open>StartInFn\<close> one that runs its function,
  \<open>StopHasLock\<close> a \<open>StopOnce\<close> call that holds the lock, \<open>StopInFn\<close> one that runs its function.
\<close>

datatype sso_pc = Idle | StartWantLock | StartInFn | StopHasLock | StopInFn

record sso_sys =
  once_state :: StartStopOnceState
  once_lock :: "nat option"
  sso_pcs :: "nat \<Rightarrow> sso_pc"
  start_runs :: nat
  stop_runs :: nat
  sso_panicked :: bool

definition sso_init :: sso_sys where
  "sso_init = \<lparr>once_state = StartStopOnce_Unstarted, once_lock = None, sso_pcs = (\<lambda>_. Idle),
     start_runs = 0, stop_runs = 0, sso_panicked = False\<rparr>"

inductive sso_step :: "sso_sys \<Rightarrow> sso_sys \<Rightarrow> bool" where
  start_cas: "sso_pcs s i = Idle \<Longrightarrow> cas StartStopOnce_Unstarted StartStopOnce_Starting (once_state s) = (True, st)
     \<Longrightarrow> sso_step s (s\<lparr>once_state := st, sso_pcs := (sso_pcs s)(i := StartWantLock)\<rparr>)"
| start_lock: "sso_pcs s i = StartWantLock \<Longrightarrow> once_lock s = None
     \<Longrightarrow> sso_step s (s\<lparr>once_lock := Some i, sso_pcs := (sso_pcs s)(i := StartInFn),
                      start_runs := Suc (start_runs s)\<rparr>)"
| start_done: "sso_pcs s i = StartInFn
     \<Longrightarrow> cas StartStopOnce_Starting
           (if ok then StartStopOnce_Started else StartStopOnce_StartFailed) (once_state s) = (success, st)
     \<Longrightarrow> sso_step s (s\<lparr>once_state := st, once_lock := None, sso_pcs := (sso_pcs s)(i := Idle),
                      sso_panicked := sso_panicked s \<or> \<not> success\<rparr>)"
| stop_lock: "sso_pcs s i = Idle \<Longrightarrow> once_lock s = None
     \<Longrightarrow> sso_step s (s\<lparr>once_lock := Some i, sso_pcs := (sso_pcs s)(i := StopHasLock)\<rparr>)"
| stop_refused: "sso_pcs s i = StopHasLock
     \<Longrightarrow> cas StartStopOnce_Started StartStopOnce_Stopping (once_state s) = (False, st)
     \<Longrightarrow> sso_step s (s\<lparr>once_lock := None, sso_pcs := (sso_pcs s)(i := Idle)\<rparr>)"
| stop_cas: "sso_pcs s i = StopHasLock
     \<Longrightarrow> cas StartStopOnce_Started StartStopOnce_Stopping (once_state s) = (True, st)
     \<Longrightarrow> sso_step s (s\<lparr>once_state := st, sso_pcs := (sso_pcs s)(i := StopInFn),
                      stop_runs := Suc (stop_runs s)\<rparr>)"
| stop_done: "sso_pcs s i = StopInFn
     \<Longrightarrow> cas StartStopOnce_Stopping
           (if ok then StartStopOnce_Stopped else StartStopOnce_StopFailed) (once_state s) = (success, st)
     \<Longrightarrow> sso_step s (s\<lparr>once_state := st, once_lock := None, sso_pcs := (sso_pcs s)(i := Idle),
                      sso_panicked := sso_panicked s \<or> \<not> success\<rparr>)"

inductive sso_reachable :: "sso_sys \<Rightarrow> bool" where
  sso_start: "sso_reachable sso_init"
| sso_more: "sso_reachable s \<Longrightarrow> sso_step s t \<Longrightarrow> sso_reachable t"

text \<open>
  The invariant says who holds the lock, where the goroutines can be in each state of the
  machine, that one call at most is starting, and how often the two functions have run.
\<close>

fun in_section :: "sso_pc \<Rightarrow> bool" where
  "in_section Idle = False"
| "in_section StartWantLock = False"
| "in_section StartInFn = True"
| "in_section StopHasLock = True"
| "in_section StopInFn = True"

fun in_start :: "sso_pc \<Rightarrow> bool" where
  "in_start Idle = False"
| "in_start StartWantLock = True"
| "in_start StartInFn = True"
| "in_start StopHasLock = False"
| "in_start StopInFn = False"

definition started_ever :: "StartStopOnceState \<Rightarrow> bool" where
  "started_ever st \<longleftrightarrow> st \<noteq> StartStopOnce_Unstarted \<and> st \<noteq> StartStopOnce_Starting"

definition stopped_ever :: "StartStopOnceState \<Rightarrow> bool" where
  "stopped_ever st \<longleftrightarrow> st = StartStopOnce_Stopping \<or> st = StartStopOnce_Stopped \<or> st = StartStopOnce_StopFailed"

definition lock_held :: "sso_sys \<Rightarrow> bool" where
  "lock_held s \<longleftrightarrow> (\<forall>i. in_section (sso_pcs s i) = (once_lock s = Some i))"

fun phase_ok :: "sso_sys \<Rightarrow> sso_pc \<Rightarrow> bool" where
  "phase_ok s Idle = True"
| "phase_ok s StartWantLock = (once_state s = StartStopOnce_Starting \<and> start_runs s = 0)"
| "phase_ok s StartInFn = (once_state s = StartStopOnce_Starting \<and> start_runs s = 1)"
| "phase_ok s StopHasLock = True"
| "phase_ok s StopInFn = (once_state s = StartStopOnce_Stopping)"

definition one_starter :: "sso_sys \<Rightarrow> bool" where
  "one_starter s \<longleftrightarrow> (\<forall>i j. in_start (sso_pcs s i) \<longrightarrow> in_start (sso_pcs s j) \<longrightarrow> i = j)"

definition runs_ok :: "sso_sys \<Rightarrow> bool" where
  "runs_ok s \<longleftrightarrow> start_runs s \<le> 1
     \<and> (once_state s = StartStopOnce_Unstarted \<longrightarrow> start_runs s = 0)
     \<and> (started_ever (once_state s) \<longrightarrow> start_runs s = 1)
     \<and> stop_runs s = (if stopped_ever (once_state s) then 1 else 0)"

definition sso_inv :: "sso_sys \<Rightarrow> bool" where
  "sso_inv s \<longleftrightarrow> lock_held s \<and> (\<forall>i. phase_ok s (sso_pcs s i)) \<and> one_starter s
     \<and> runs_ok s \<and> \<not> sso_panicked s"

lemmas runs_defs = runs_ok_def started_ever_def stopped_ever_def cas_def

lemma sso_inv_init: "sso_inv sso_init"
  by (simp add: sso_inv_def lock_held_def one_starter_def sso_init_def runs_defs)

lemma lock_heldD: "lock_held s \<Longrightarrow> sso_pcs s i = p \<Longrightarrow> in_section p = (once_lock s = Some i)"
  by (auto simp: lock_held_def)

lemma sso_invD:
  assumes "sso_inv s"
  shows "sso_pcs s i = p \<Longrightarrow> phase_ok s p"
    and "sso_pcs s i = p \<Longrightarrow> in_section p = (once_lock s = Some i)"
    and "runs_ok s" and "\<not> sso_panicked s"
  using assms by (auto simp: sso_inv_def dest: lock_heldD)

lemma in_start_phase: "in_start p \<Longrightarrow> phase_ok s p \<Longrightarrow> once_state s = StartStopOnce_Starting"
  by (cases p) auto

text \<open>
  One goroutine moves: the others keep their program counters, and for each of them its phase
  constrains the old state and must hold in the new one.
\<close>

lemma sso_step_lock:
  assumes "sso_step s t" and "sso_inv s"
  shows "lock_held t"
proof -
  have lk: "in_section (sso_pcs s j) = (once_lock s = Some j)" for j
    using sso_invD(2) [OF assms(2)] by blast
  from assms(1) show ?thesis
  proof cases
  case (start_cas i st)
  with lk [of i] show ?thesis by (auto simp: lock_held_def lk)
next
  case (start_lock i)
  with lk [of i] show ?thesis by (auto simp: lock_held_def lk)
next
  case (start_done i ok success st)
  with lk [of i] show ?thesis by (auto simp: lock_held_def lk)
next
  case (stop_lock i)
  with lk [of i] show ?thesis by (auto simp: lock_held_def lk)
next
  case (stop_refused i st)
  with lk [of i] show ?thesis by (auto simp: lock_held_def lk)
next
  case (stop_cas i st)
  with lk [of i] show ?thesis by (auto simp: lock_held_def lk)
next
  case (stop_done i ok success st)
  with lk [of i] show ?thesis by (auto simp: lock_held_def lk)
  qed
qed

lemma sso_step_phase:
  assumes "sso_step s t" and "sso_inv s"
  shows "phase_ok t (sso_pcs t j)"
proof -
  note D = sso_invD [OF assms(2)]
  have one: "\<And>i. in_start (sso_pcs s i) \<Longrightarrow> in_start (sso_pcs s j) \<Longrightarrow> i = j"
    using assms(2) by (auto simp: sso_inv_def one_starter_def)
  from assms(1) show ?thesis
  proof cases
  case (start_cas i st)
  with D(1) [of i] D(1) [of j] D(2) [of i] D(2) [of j] D(3) one [of i] show ?thesis
    by (cases "sso_pcs s j") (auto simp: runs_defs split: if_splits)
next
  case (start_lock i)
  with D(1) [of i] D(1) [of j] D(2) [of i] D(2) [of j] D(3) one [of i] show ?thesis
    by (cases "sso_pcs s j") (auto simp: runs_defs split: if_splits)
next
  case (start_done i ok success st)
  with D(1) [of i] D(1) [of j] D(2) [of i] D(2) [of j] D(3) one [of i] show ?thesis
    by (cases "sso_pcs s j") (auto simp: runs_defs split: if_splits)
next
  case (stop_lock i)
  with D(1) [of i] D(1) [of j] D(2) [of i] D(2) [of j] D(3) one [of i] show ?thesis
    by (cases "sso_pcs s j") (auto simp: runs_defs split: if_splits)
next
  case (stop_refused i st)
  with D(1) [of i] D(1) [of j] D(2) [of i] D(2) [of j] D(3) one [of i] show ?thesis
    by (cases "sso_pcs s j") (auto simp: runs_defs split: if_splits)
next
  case (stop_cas i st)
  with D(1) [of i] D(1) [of j] D(2) [of i] D(2) [of j] D(3) one [of i] show ?thesis
    by (cases "sso_pcs s j") (auto simp: runs_defs split: if_splits)
next
  case (stop_done i ok success st)
  with D(1) [of i] D(1) [of j] D(2) [of i] D(2) [of j] D(3) one [of i] show ?thesis
    by (cases "sso_pcs s j") (auto simp: runs_defs split: if_splits)
  qed
qed

lemma sso_step_one:
  assumes "sso_step s t" and "sso_inv s"
  shows "one_starter t"
proof -
  note D = sso_invD [OF assms(2)]
  have one: "one_starter s" using assms(2) by (simp add: sso_inv_def)
  have none: "once_state s = StartStopOnce_Unstarted \<Longrightarrow> \<not> in_start (sso_pcs s j)" for j
    using in_start_phase [of "sso_pcs s j" s] D(1) by auto
  from assms(1) show ?thesis
  proof cases
    case (start_cas i st)
    with none show ?thesis by (auto simp: one_starter_def cas_def split: if_splits)
  next
    case (start_lock i)
    then have "in_start (sso_pcs s i)" by simp
    with one start_lock show ?thesis by (auto simp: one_starter_def)
  qed (use one in \<open>auto simp: one_starter_def\<close>)
qed

lemma sso_step_runs:
  assumes "sso_step s t" and "sso_inv s"
  shows "runs_ok t \<and> \<not> sso_panicked t"
  using assms(1)
proof cases
  case (start_cas i st)
  with sso_invD(1) [OF assms(2), of i] sso_invD(3,4) [OF assms(2)] show ?thesis
    by (auto simp: runs_defs split: if_splits)
next
  case (start_lock i)
  with sso_invD(1) [OF assms(2), of i] sso_invD(3,4) [OF assms(2)] show ?thesis
    by (auto simp: runs_defs split: if_splits)
next
  case (start_done i ok success st)
  with sso_invD(1) [OF assms(2), of i] sso_invD(3,4) [OF assms(2)] show ?thesis
    by (auto simp: runs_defs split: if_splits)
next
  case (stop_lock i)
  with sso_invD(1) [OF assms(2), of i] sso_invD(3,4) [OF assms(2)] show ?thesis
    by (auto simp: runs_defs split: if_splits)
next
  case (stop_refused i st)
  with sso_invD(1) [OF assms(2), of i] sso_invD(3,4) [OF assms(2)] show ?thesis
    by (auto simp: runs_defs split: if_splits)
next
  case (stop_cas i st)
  with sso_invD(1) [OF assms(2), of i] sso_invD(3,4) [OF assms(2)] show ?thesis
    by (auto simp: runs_defs split: if_splits)
next
  case (stop_done i ok success st)
  with sso_invD(1) [OF assms(2), of i] sso_invD(3,4) [OF assms(2)] show ?thesis
    by (auto simp: runs_defs split: if_splits)
qed

lemma sso_step_inv [inv_intros]: "sso_step s t \<Longrightarrow> sso_inv s \<Longrightarrow> sso_inv t"
  using sso_step_lock sso_step_phase sso_step_one sso_step_runs
  by (simp add: sso_inv_def)

lemma sso_reachable_inv: "sso_reachable s \<Longrightarrow> sso_inv s"
  by (induction rule: sso_reachable.induct) (auto intro: sso_inv_init sso_step_inv)

text \<open>C26: However \<open>StartOnce\<close> and \<open>StopOnce\<close> calls interleave, the start function and the stop
  function each run at most once, the stop function only after the start function has run, at
  most one function runs at a time, and the unreachable states are never entered.\<close>

theorem start_stop_once:
  assumes "sso_reachable s"
  shows "start_runs s \<le> 1 \<and> stop_runs s \<le> start_runs s \<and> \<not> sso_panicked s
     \<and> card {i. sso_pcs s i = StartInFn \<or> sso_pcs s i = StopInFn} \<le> 1"
proof -
  note inv = sso_reachable_inv [OF assms]
  have "in_section (sso_pcs s i) \<Longrightarrow> once_lock s = Some i" for i
    using sso_invD(2) [OF inv, of i] by auto
  then have "{i. sso_pcs s i = StartInFn \<or> sso_pcs s i = StopInFn} \<subseteq> set_option (once_lock s)"
    by fastforce
  moreover have "finite (set_option (once_lock s))" "card (set_option (once_lock s)) \<le> 1"
    by (cases "once_lock s"; simp)+
  ultimately have "card {i. sso_pcs s i = StartInFn \<or> sso_pcs s i = StopInFn} \<le> 1"
    by (meson card_mono le_trans)
  then show ?thesis
    using sso_invD(3,4) [OF inv] by (auto simp: runs_ok_def started_ever_def stopped_ever_def)
qed

theorem start_stop_once_witness:
  "\<exists>s. sso_reachable s \<and> sso_pcs s 3 = StartInFn \<and> start_runs s = 1 \<and> stop_runs s \<le> start_runs s"
proof -
  let ?s1 = "sso_init\<lparr>once_state := StartStopOnce_Starting, sso_pcs := (sso_pcs sso_init)(3 := StartWantLock)\<rparr>"
  let ?s2 = "?s1\<lparr>once_lock := Some 3, sso_pcs := (sso_pcs ?s1)(3 := StartInFn), start_runs := 1\<rparr>"
  have "sso_step sso_init ?s1"
    using start_cas [of sso_init 3] by (simp add: sso_init_def cas_def)
  moreover have "sso_step ?s1 ?s2"
    using start_lock [of ?s1 3] by (simp add: sso_init_def)
  ultimately have "sso_reachable ?s2" using sso_start sso_more by blast
  from start_stop_once [OF this] this show ?thesis by (auto intro!: exI [of _ ?s2])
qed

end
