(* ===== verification/NodeFSM.thy ===== *)
theory NodeFSM
  imports StartStop
begin

text \<open>
  \<open>core/chains/evm/client/node_fsm.go\<close> and the connection handling of \<open>node.go\<close>: the state of
  one RPC node, the guarded transitions between its states and the operations that dial,
  verify, disconnect and close it. Logging and Prometheus counters are left out; what a remote
  endpoint answers is an argument of the operation that asks it. A goroutine that a
  transition spawns is appended to \<open>spawned\<close>.
\<close>

section \<open>States\<close>

datatype NodeState =
    NodeStateUndialed
  | NodeStateDialed
  | NodeStateInvalidChainID
  | NodeStateAlive
  | NodeStateUnreachable
  | NodeStateOutOfSync
  | NodeStateClosed

fun NodeState_String :: "NodeState \<Rightarrow> string" where
  "NodeState_String NodeStateUndialed = ''Undialed''"
| "NodeState_String NodeStateDialed = ''Dialed''"
| "NodeState_String NodeStateInvalidChainID = ''InvalidChainID''"
| "NodeState_String NodeStateAlive = ''Alive''"
| "NodeState_String NodeStateUnreachable = ''Unreachable''"
| "NodeState_String NodeStateOutOfSync = ''OutOfSync''"
| "NodeState_String NodeStateClosed = ''Closed''"

definition allNodeStates :: "NodeState list" where
  "allNodeStates = [NodeStateUndialed, NodeStateDialed, NodeStateInvalidChainID, NodeStateAlive,
     NodeStateUnreachable, NodeStateOutOfSync, NodeStateClosed]"

fun NodeState_number :: "NodeState \<Rightarrow> nat" where
  "NodeState_number NodeStateUndialed = 0"
| "NodeState_number NodeStateDialed = 1"
| "NodeState_number NodeStateInvalidChainID = 2"
| "NodeState_number NodeStateAlive = 3"
| "NodeState_number NodeStateUnreachable = 4"
| "NodeState_number NodeStateOutOfSync = 5"
| "NodeState_number NodeStateClosed = 6"

text \<open>The states are ordered as the integers they are in the code; \<open>init\<close> lists them all in that order.\<close>

instantiation NodeState :: linorder
begin

definition less_eq_NodeState :: "NodeState \<Rightarrow> NodeState \<Rightarrow> bool" where
  "less_eq_NodeState a b \<longleftrightarrow> NodeState_number a \<le> NodeState_number b"

definition less_NodeState :: "NodeState \<Rightarrow> NodeState \<Rightarrow> bool" where
  "less_NodeState a b \<longleftrightarrow> NodeState_number a < NodeState_number b"

instance
proof
  fix a b :: NodeState
  show "a \<le> b \<Longrightarrow> b \<le> a \<Longrightarrow> a = b"
    by (cases a; cases b) (simp_all add: less_eq_NodeState_def)
qed (auto simp: less_eq_NodeState_def less_NodeState_def)

end

lemma allNodeStates_all: "sorted allNodeStates" "distinct allNodeStates" "set allNodeStates = UNIV"
proof -
  show "sorted allNodeStates" "distinct allNodeStates"
    by (simp_all add: allNodeStates_def less_eq_NodeState_def)
  show "set allNodeStates = UNIV"
    by (auto simp: allNodeStates_def) (metis NodeState.exhaust)
qed

definition NodeState_GoString :: "NodeState \<Rightarrow> string" where
  "NodeState_GoString n =
     ''NodeState'' @ NodeState_String n @ ''('' @ string_of_nat (NodeState_number n) @ '')''"

section \<open>The node\<close>

text \<open>The monitoring goroutines; \<open>OutOfSyncLoop\<close> carries the block number it is stuck at.\<close>

datatype node_loop = AliveLoop | OutOfSyncLoop int | UnreachableLoop | InvalidChainIDLoop

datatype rpc_conn = ConnOpen | ConnClosed

record node =
  name :: string
  chainID :: int
  state :: NodeState
  latestReceivedBlockNumber :: int
  subs :: "nat list"
  unsubscribed :: "nat list"
  chStopInFlight :: nat
  nodeCtxDone :: bool
  ws_rpc :: "rpc_conn option"
  has_http :: bool
  http_dialed :: bool
  spawned :: "node_loop list"

definition NewNode :: "string \<Rightarrow> int \<Rightarrow> bool \<Rightarrow> node" where
  "NewNode nm cid http =
     \<lparr>name = nm, chainID = cid, state = NodeStateUndialed, latestReceivedBlockNumber = -1,
      subs = [], unsubscribed = [], chStopInFlight = 0, nodeCtxDone = False, ws_rpc = None,
      has_http = http, http_dialed = False, spawned = []\<rparr>"

definition StateAndLatestBlockNumber :: "node \<Rightarrow> NodeState \<times> int" where
  "StateAndLatestBlockNumber n = (state n, latestReceivedBlockNumber n)"

definition setState :: "NodeState \<Rightarrow> node \<Rightarrow> node" where
  "setState s n = n\<lparr>state := s\<rparr>"

definition setLatestReceivedBlockNumber :: "int \<Rightarrow> node \<Rightarrow> node" where
  "setLatestReceivedBlockNumber number n = n\<lparr>latestReceivedBlockNumber := number\<rparr>"

section \<open>Connections\<close>

definition ws_close :: "node \<Rightarrow> node" where
  "ws_close n = (if ws_rpc n \<noteq> None then n\<lparr>ws_rpc := Some ConnClosed\<rparr> else n)"

text \<open>
  \<open>chStopInFlight\<close> counts the channels made so far: the call closes the current one, which
  cancels every request that waits on it, and makes the next.
\<close>

definition cancelInflightRequests :: "node \<Rightarrow> node" where
  "cancelInflightRequests n = n\<lparr>chStopInFlight := Suc (chStopInFlight n)\<rparr>"

definition registerSub :: "nat \<Rightarrow> node \<Rightarrow> node" where
  "registerSub sub n = n\<lparr>subs := subs n @ [sub]\<rparr>"

definition unsubscribeAll :: "node \<Rightarrow> node" where
  "unsubscribeAll n = n\<lparr>unsubscribed := unsubscribed n @ subs n, subs := []\<rparr>"

definition disconnectAll :: "node \<Rightarrow> node" where
  "disconnectAll n = unsubscribeAll (cancelInflightRequests (ws_close n))"

text \<open>\<open>dial\<close>: the two flags say whether the websocket and the HTTP endpoint could be dialled.\<close>

definition dial :: "bool \<Rightarrow> bool \<Rightarrow> node \<Rightarrow> bool \<times> node" where
  "dial ws_ok http_ok n =
     (if \<not> ws_ok then (False, n)
      else if has_http n \<and> \<not> http_ok then (False, n)
      else
        (let n1 = n\<lparr>ws_rpc := Some ConnOpen\<rparr>
         in (True, if has_http n1 then n1\<lparr>http_dialed := True\<rparr> else n1)))"

datatype verify_error = ErrInvalidChainID | ErrChainIDCall

text \<open>
  \<open>verify\<close>: each endpoint answers with its chain ID, or the call fails (\<open>None\<close>). The result is
  no error (\<open>None\<close>), an error, or a panic when the node is in a state that cannot be verified.
\<close>

definition verify :: "int option \<Rightarrow> int option \<Rightarrow> node \<Rightarrow> verify_error option run" where
  "verify ws_answer http_answer n =
     (if state n \<noteq> NodeStateDialed \<and> state n \<noteq> NodeStateOutOfSync
         \<and> state n \<noteq> NodeStateInvalidChainID
      then Panic (''cannot verify node in state '' @ NodeState_String (state n))
      else
        (case ws_answer of
           None \<Rightarrow> Ret (Some ErrChainIDCall)
         | Some c \<Rightarrow>
             if c \<noteq> chainID n then Ret (Some ErrInvalidChainID)
             else if has_http n
             then (case http_answer of
                     None \<Rightarrow> Ret (Some ErrChainIDCall)
                   | Some c' \<Rightarrow> if c' \<noteq> chainID n then Ret (Some ErrInvalidChainID) else Ret None)
             else Ret None))"

text \<open>The body of \<open>Close\<close>, which \<open>StopOnce\<close> runs at most once.\<close>

definition node_Close :: "node \<Rightarrow> node" where
  "node_Close n =
     (let n1 = n\<lparr>nodeCtxDone := True\<rparr>;
          n2 = cancelInflightRequests n1;
          n3 = n2\<lparr>state := NodeStateClosed\<rparr>
      in ws_close n3)"

section \<open>Calls on a live node\<close>

datatype call_error = ErrNodeNotAlive NodeState | ErrRPC

definition makeLiveQueryCtx :: "node \<Rightarrow> call_error + nat" where
  "makeLiveQueryCtx n =
     (if state n \<noteq> NodeStateAlive then Inl (ErrNodeNotAlive (state n)) else Inr (chStopInFlight n))"

definition CallContext :: "bool \<Rightarrow> node \<Rightarrow> call_error option" where
  "CallContext rpc_ok n =
     (case makeLiveQueryCtx n of
        Inl e \<Rightarrow> Some e
      | Inr _ \<Rightarrow> if rpc_ok then None else Some ErrRPC)"

definition EthSubscribe :: "bool \<Rightarrow> nat \<Rightarrow> node \<Rightarrow> call_error option \<times> node" where
  "EthSubscribe rpc_ok sub n =
     (case makeLiveQueryCtx n of
        Inl e \<Rightarrow> (Some e, n)
      | Inr _ \<Rightarrow> if rpc_ok then (None, registerSub sub n) else (Some ErrRPC, n))"

section \<open>Transitions\<close>

definition cannot_transition :: "NodeState \<Rightarrow> NodeState \<Rightarrow> string" where
  "cannot_transition a b =
     ''cannot transition from '' @ NodeState_GoString a @ '' to '' @ NodeState_GoString b"

definition transitionToAlive :: "(node \<Rightarrow> node) \<Rightarrow> node \<Rightarrow> node run" where
  "transitionToAlive fn n =
     (if state n = NodeStateClosed then Ret n
      else if state n = NodeStateDialed \<or> state n = NodeStateInvalidChainID
      then Ret (fn (n\<lparr>state := NodeStateAlive\<rparr>))
      else Panic (cannot_transition (state n) NodeStateAlive))"

definition transitionToInSync :: "(node \<Rightarrow> node) \<Rightarrow> node \<Rightarrow> node run" where
  "transitionToInSync fn n =
     (if state n = NodeStateClosed then Ret n
      else if state n = NodeStateOutOfSync
      then Ret (fn (n\<lparr>state := NodeStateAlive\<rparr>))
      else Panic (cannot_transition (state n) NodeStateAlive))"

definition transitionToOutOfSync :: "(node \<Rightarrow> node) \<Rightarrow> node \<Rightarrow> node run" where
  "transitionToOutOfSync fn n =
     (if state n = NodeStateClosed then Ret n
      else if state n = NodeStateAlive
      then Ret (fn ((disconnectAll n)\<lparr>state := NodeStateOutOfSync\<rparr>))
      else Panic (cannot_transition (state n) NodeStateOutOfSync))"

definition transitionToUnreachable :: "(node \<Rightarrow> node) \<Rightarrow> node \<Rightarrow> node run" where
  "transitionToUnreachable fn n =
     (if state n = NodeStateClosed then Ret n
      else if state n = NodeStateUndialed \<or> state n = NodeStateDialed \<or> state n = NodeStateAlive
        \<or> state n = NodeStateOutOfSync \<or> state n = NodeStateInvalidChainID
      then Ret (fn ((disconnectAll n)\<lparr>state := NodeStateUnreachable\<rparr>))
      else Panic (cannot_transition (state n) NodeStateUnreachable))"

definition transitionToInvalidChainID :: "(node \<Rightarrow> node) \<Rightarrow> node \<Rightarrow> node run" where
  "transitionToInvalidChainID fn n =
     (if state n = NodeStateClosed then Ret n
      else if state n = NodeStateDialed \<or> state n = NodeStateOutOfSync
      then Ret (fn ((disconnectAll n)\<lparr>state := NodeStateInvalidChainID\<rparr>))
      else Panic (cannot_transition (state n) NodeStateInvalidChainID))"

definition go_loop :: "node_loop \<Rightarrow> node \<Rightarrow> node" where
  "go_loop l n = n\<lparr>spawned := spawned n @ [l]\<rparr>"

definition declareAlive :: "node \<Rightarrow> node run" where
  "declareAlive n = transitionToAlive (go_loop AliveLoop) n"

definition declareInSync :: "node \<Rightarrow> node run" where
  "declareInSync n = transitionToInSync (go_loop AliveLoop) n"

definition declareOutOfSync :: "int \<Rightarrow> node \<Rightarrow> node run" where
  "declareOutOfSync latest n = transitionToOutOfSync (go_loop (OutOfSyncLoop latest)) n"

definition declareUnreachable :: "node \<Rightarrow> node run" where
  "declareUnreachable n = transitionToUnreachable (go_loop UnreachableLoop) n"

definition declareInvalidChainID :: "node \<Rightarrow> node run" where
  "declareInvalidChainID n = transitionToInvalidChainID (go_loop InvalidChainIDLoop) n"

lemmas transition_defs = transitionToAlive_def transitionToInSync_def transitionToOutOfSync_def
  transitionToUnreachable_def transitionToInvalidChainID_def

lemmas declare_defs = declareAlive_def declareInSync_def declareOutOfSync_def
  declareUnreachable_def declareInvalidChainID_def

lemmas conn_defs = disconnectAll_def unsubscribeAll_def cancelInflightRequests_def ws_close_def
  go_loop_def

text \<open>What a spawned loop expects of the state when it starts.\<close>

fun loop_state :: "node_loop \<Rightarrow> NodeState" where
  "loop_state AliveLoop = NodeStateAlive"
| "loop_state (OutOfSyncLoop k) = NodeStateOutOfSync"
| "loop_state UnreachableLoop = NodeStateUnreachable"
| "loop_state InvalidChainIDLoop = NodeStateInvalidChainID"

lemma state_disconnectAll [simp]: "state (disconnectAll n) = state n"
  by (simp add: conn_defs)

lemma spawned_disconnectAll [simp]: "spawned (disconnectAll n) = spawned n"
  by (simp add: conn_defs)

lemma state_go_loop [simp]: "state (go_loop l n) = state n"
  by (simp add: go_loop_def)

section \<open>Starting\<close>

text \<open>\<open>Start\<close> runs under the life-cycle lock: no \<open>Close\<close> can come between its steps.\<close>

definition node_start :: "bool \<Rightarrow> bool \<Rightarrow> int option \<Rightarrow> int option \<Rightarrow> node \<Rightarrow> node run" where
  "node_start ws_ok http_ok ws_answer http_answer n =
     (if state n \<noteq> NodeStateUndialed
      then Panic (''cannot dial node with state '' @ NodeState_String (state n))
      else
        (let (ok, n1) = dial ws_ok http_ok n
         in if \<not> ok then declareUnreachable n1
            else
              (let n2 = setState NodeStateDialed n1
               in run_bind (verify ws_answer http_answer n2)
                    (\<lambda>err. case err of
                       Some ErrInvalidChainID \<Rightarrow> declareInvalidChainID n2
                     | Some ErrChainIDCall \<Rightarrow> declareUnreachable n2
                     | None \<Rightarrow> declareAlive n2))))"

lemma state_dial [simp]: "state (snd (dial w h n)) = state n"
  by (simp add: dial_def Let_def)

lemma spawned_dial [simp]: "spawned (snd (dial w h n)) = spawned n"
  by (simp add: dial_def Let_def)

lemma verify_no_panic:
  "state n = NodeStateDialed \<or> state n = NodeStateOutOfSync \<or> state n = NodeStateInvalidChainID
   \<Longrightarrow> \<exists>r. verify w h n = Ret r"
  by (auto simp: verify_def split: option.splits)

text \<open>A node is started in one of three states, with the loop of that state and no other.\<close>

lemma node_start_loop:
  assumes "state n = NodeStateUndialed" and "spawned n = []"
  shows "\<exists>n' l. node_start w h wa ha n = Ret n' \<and> spawned n' = [l] \<and> loop_state l = state n'
     \<and> l \<in> {AliveLoop, UnreachableLoop, InvalidChainIDLoop}"
proof -
  obtain ok n1 where d: "dial w h n = (ok, n1)" by (cases "dial w h n")
  from d assms have n1: "state n1 = NodeStateUndialed" "spawned n1 = []"
    using state_dial [of w h n] spawned_dial [of w h n] by simp_all
  show ?thesis
  proof (cases ok)
    case False
    with d n1 assms show ?thesis
      by (simp add: node_start_def declare_defs transition_defs go_loop_def)
  next
    case True
    let ?n2 = "setState NodeStateDialed n1"
    obtain r where "verify wa ha ?n2 = Ret r"
      using verify_no_panic [of ?n2] by (auto simp: setState_def)
    with True d n1 assms show ?thesis
      by (cases r; cases "the r")
        (auto simp: node_start_def declare_defs transition_defs go_loop_def setState_def)
  qed
qed

section \<open>Properties\<close>

definition transition_of :: "node_loop \<Rightarrow> NodeState list" where
  "transition_of l =
     (case l of
        AliveLoop \<Rightarrow> [NodeStateDialed, NodeStateInvalidChainID]
      | OutOfSyncLoop k \<Rightarrow> [NodeStateAlive]
      | UnreachableLoop \<Rightarrow> [NodeStateUndialed, NodeStateDialed, NodeStateAlive, NodeStateOutOfSync,
                            NodeStateInvalidChainID]
      | InvalidChainIDLoop \<Rightarrow> [NodeStateDialed, NodeStateOutOfSync])"

definition declare_loop :: "node_loop \<Rightarrow> node \<Rightarrow> node run" where
  "declare_loop l n =
     (case l of
        AliveLoop \<Rightarrow> declareAlive n
      | OutOfSyncLoop k \<Rightarrow> declareOutOfSync k n
      | UnreachableLoop \<Rightarrow> declareUnreachable n
      | InvalidChainIDLoop \<Rightarrow> declareInvalidChainID n)"

text \<open>A declaration leaves a closed node as it is; from a state of its table it moves the node to
  its own state, starts the loop of that state and nothing else, and, unless the node comes alive,
  closes the websocket, cancels the requests in flight and drops every subscription; from any other
  state it panics.\<close>

theorem declare_outcome:
  "declare_loop l n =
     (if state n = NodeStateClosed then Ret n
      else if state n \<in> set (transition_of l)
      then Ret ((if l = AliveLoop then n else disconnectAll n)
                \<lparr>state := loop_state l, spawned := spawned n @ [l]\<rparr>)
      else Panic (cannot_transition (state n) (loop_state l)))
   \<and> (subs (disconnectAll n) = []
        \<and> unsubscribed (disconnectAll n) = unsubscribed n @ subs n
        \<and> chStopInFlight (disconnectAll n) = Suc (chStopInFlight n)
        \<and> ws_rpc (disconnectAll n) \<noteq> Some ConnOpen)"
proof -
  have "declare_loop l n =
     (if state n = NodeStateClosed then Ret n
      else if state n \<in> set (transition_of l)
      then Ret ((if l = AliveLoop then n else disconnectAll n)
                \<lparr>state := loop_state l, spawned := spawned n @ [l]\<rparr>)
      else Panic (cannot_transition (state n) (loop_state l)))"
    by (cases l) (simp_all add: declare_loop_def transition_of_def declare_defs transition_defs go_loop_def)
  then show ?thesis by (cases l) (simp_all add: conn_defs)
qed

text \<open>Starting a node never panics, and the state it ends in is told by what the endpoints
  answered: unreachable when a dial or a chain-ID call failed, invalid when a chain ID differs (the
  websocket's being asked first), alive when every endpoint answered with the node's chain ID.\<close>

theorem start_outcome:
  assumes "state n = NodeStateUndialed"
  shows "\<exists>n'. node_start ws_ok http_ok ws http n = Ret n' \<and> state n' =
     (if \<not> ws_ok \<or> has_http n \<and> \<not> http_ok \<or> ws = None then NodeStateUnreachable
      else if ws \<noteq> Some (chainID n) then NodeStateInvalidChainID
      else if has_http n \<and> http = None then NodeStateUnreachable
      else if has_http n \<and> http \<noteq> Some (chainID n) then NodeStateInvalidChainID
      else NodeStateAlive)"
proof -
  obtain ok n1 where d: "dial ws_ok http_ok n = (ok, n1)" by (cases "dial ws_ok http_ok n")
  then have ok: "ok \<longleftrightarrow> ws_ok \<and> (has_http n \<longrightarrow> http_ok)"
    and n1: "state n1 = NodeStateUndialed" "has_http n1 = has_http n" "chainID n1 = chainID n"
    using assms by (auto simp: dial_def Let_def split: if_splits)
  show ?thesis
  proof (cases ok)
    case False
    with d ok n1 assms show ?thesis
      by (auto simp: node_start_def declare_defs transition_defs)
  next
    case True
    let ?n2 = "setState NodeStateDialed n1"
    have n2: "state ?n2 = NodeStateDialed" "has_http ?n2 = has_http n" "chainID ?n2 = chainID n"
      using n1 by (simp_all add: setState_def)
    have v: "verify ws http ?n2 =
        Ret (if ws = None then Some ErrChainIDCall
             else if ws \<noteq> Some (chainID n) then Some ErrInvalidChainID
             else if has_http n \<and> http = None then Some ErrChainIDCall
             else if has_http n \<and> http \<noteq> Some (chainID n) then Some ErrInvalidChainID else None)"
      by (simp add: verify_def n2 split: option.split)
    have "node_start ws_ok http_ok ws http n =
        (case verify ws http ?n2 of
           Ret (Some ErrInvalidChainID) \<Rightarrow> declareInvalidChainID ?n2
         | Ret (Some ErrChainIDCall) \<Rightarrow> declareUnreachable ?n2
         | Ret None \<Rightarrow> declareAlive ?n2
         | Panic m \<Rightarrow> Panic m)"
      using True d assms
      by (simp add: node_start_def split: run.split option.split verify_error.split)
    moreover have "\<exists>m. declareInvalidChainID ?n2 = Ret m \<and> state m = NodeStateInvalidChainID"
      "\<exists>m. declareUnreachable ?n2 = Ret m \<and> state m = NodeStateUnreachable"
      "\<exists>m. declareAlive ?n2 = Ret m \<and> state m = NodeStateAlive"
      using n2(1) by (simp_all add: declare_defs transition_defs)
    ultimately show ?thesis using True ok by (auto simp: v)
  qed
qed

theorem start_outcome_witness:
  "\<exists>n'. node_start True True (Some 1) (Some 5) (NewNode ''n'' 1 True) = Ret n'
      \<and> state n' = NodeStateInvalidChainID"
  using start_outcome [of "NewNode ''n'' 1 True" True True "Some 1" "Some 5"]
  by (simp add: NewNode_def)

text \<open>No call reaches the endpoint of a node that is not alive: the call and the subscription
  fail with the state of the node, and the node is unchanged; closing a node refuses every later call.\<close>

theorem calls_need_alive:
  "(CallContext rpc_ok n = Some (ErrNodeNotAlive st) \<longleftrightarrow> state n = st \<and> st \<noteq> NodeStateAlive)
   \<and> (EthSubscribe rpc_ok sub n = (Some (ErrNodeNotAlive st), n) \<longleftrightarrow> state n = st \<and> st \<noteq> NodeStateAlive)
   \<and> CallContext rpc_ok (node_Close n) = Some (ErrNodeNotAlive NodeStateClosed)"
  by (auto simp: CallContext_def EthSubscribe_def makeLiveQueryCtx_def node_Close_def conn_defs Let_def)

end
