(* ===== verification/NodeLifecycle.thy ===== *)
theory NodeLifecycle
  imports NodeFSM
begin

text \<open>
  \<open>core/chains/evm/client/node_lifecycle.go\<close>: the four monitoring loops of an RPC node, one per
  state. A goroutine is a program counter; \<open>lc_step\<close> runs it to its next interleaving point,
  where another goroutine (here: \<open>Close\<close>) may come in. What the loop waits for, and what the
  endpoints answer, is the event. Durations are nanoseconds; time itself is not modelled: a
  timer may fire whenever the loop waits for it.
\<close>

section \<open>Configuration and intervals\<close>

record NodeConfig =
  NodeNoNewHeadsThreshold :: int
  NodePollFailureThreshold :: "32 word"
  NodePollInterval :: int

text \<open>\<open>rnd m\<close> stands for \<open>mrand.Intn(m)\<close>, which panics unless \<open>m\<close> is positive.\<close>

definition Intn :: "(int \<Rightarrow> int) \<Rightarrow> int \<Rightarrow> int run" where
  "Intn rnd m = (if m \<le> 0 then Panic ''invalid argument to Intn'' else Ret (rnd m))"

definition go_quot :: "int \<Rightarrow> int \<Rightarrow> int" where
  "go_quot a b = sgn a * sgn b * (\<bar>a\<bar> div \<bar>b\<bar>)"

definition WithJitter :: "(int \<Rightarrow> int) \<Rightarrow> int \<Rightarrow> int run" where
  "WithJitter rnd d =
     (if d = 0 then Ret 0
      else run_bind (Intn rnd (go_quot d 5))
        (\<lambda>jitter. Ret (d + (jitter - go_quot jitter 2))))"

definition queryTimeout :: int where
  "queryTimeout = 10 * 10 ^ 9"

definition zombieNodeCheckInterval :: "(int \<Rightarrow> int) \<Rightarrow> NodeConfig \<Rightarrow> int run" where
  "zombieNodeCheckInterval rnd cfg =
     (let interval = NodeNoNewHeadsThreshold cfg;
          interval = (if interval \<le> 0 \<or> interval > queryTimeout then queryTimeout else interval)
      in WithJitter rnd interval)"

text \<open>What \<open>Intn\<close> promises: a value below its argument.\<close>

definition rnd_ok :: "(int \<Rightarrow> int) \<Rightarrow> bool" where
  "rnd_ok rnd \<longleftrightarrow> (\<forall>m > 0. 0 \<le> rnd m \<and> rnd m < m)"

definition cfg_ok :: "NodeConfig \<Rightarrow> bool" where
  "cfg_ok cfg \<longleftrightarrow> NodeNoNewHeadsThreshold cfg \<le> 0 \<or> 5 \<le> NodeNoNewHeadsThreshold cfg"

lemma go_quot_pos: "0 \<le> a \<Longrightarrow> 0 < b \<Longrightarrow> go_quot a b = a div b"
  by (cases "a = 0") (simp_all add: go_quot_def)

lemma WithJitter_pos:
  assumes "5 \<le> d" and "rnd_ok rnd"
  shows "\<exists>r. WithJitter rnd d = Ret r \<and> d \<le> r \<and> r \<le> d + d div 10"
proof -
  let ?j = "rnd (d div 5)"
  have pos: "0 < d div 5" using assms(1) by linarith
  have j: "0 \<le> ?j" "?j < d div 5" using assms(2) pos by (auto simp: rnd_ok_def)
  have "WithJitter rnd d = Ret (d + (?j - ?j div 2))"
    using assms(1) pos j(1) by (simp add: WithJitter_def Intn_def go_quot_pos)
  moreover have "?j - ?j div 2 \<le> d div 10" using j by linarith
  moreover have "0 \<le> ?j - ?j div 2" using j by linarith
  ultimately show ?thesis by auto
qed

lemma zombie_Ret: "cfg_ok cfg \<Longrightarrow> \<exists>r. zombieNodeCheckInterval rnd cfg = Ret r"
  by (auto simp: zombieNodeCheckInterval_def cfg_ok_def WithJitter_def Intn_def go_quot_pos
      queryTimeout_def Let_def)

section \<open>Program counters and events\<close>

datatype lc_decl =
  DAlive | DInSync | DOutOfSync int | DUnreachable | DInvalidChainID

datatype lc_pc =
    AliveEntry
  | AliveSubscribe
  | AliveSelect "32 word" int
  | OosEntry int
  | OosDial int
  | OosVerify int
  | OosSubscribe int
  | OosSelect int
  | UnrEntry
  | UnrSelect
  | UnrSetDialed
  | UnrVerify
  | InvEntry
  | InvSelect
  | InvVerify
  | Declaring lc_decl

fun lc_entry :: "node_loop \<Rightarrow> lc_pc" where
  "lc_entry AliveLoop = AliveEntry"
| "lc_entry (OutOfSyncLoop k) = OosEntry k"
| "lc_entry UnreachableLoop = UnrEntry"
| "lc_entry InvalidChainIDLoop = InvEntry"

text \<open>
  \<open>EvDone\<close>: the node's context is done. \<open>EvTimer\<close>: the out-of-sync ticker or a backoff timer
  fires; like \<open>EvPoll\<close> it carries what \<open>nLiveNodes\<close> answers (\<open>None\<close>: the field is nil).
  \<open>EvGo\<close>: a step that waits for nothing.
\<close>

datatype lc_event =
    EvGo
  | EvDone
  | EvPoll bool "nat option"
  | EvHead int
  | EvHeadClosed
  | EvSubErr
  | EvTimer "nat option"
  | EvDial bool bool
  | EvVerify "int option" "int option"
  | EvSubscribe bool nat

fun declare_node :: "lc_decl \<Rightarrow> node \<Rightarrow> node run" where
  "declare_node DAlive n = declareAlive n"
| "declare_node DInSync n = declareInSync n"
| "declare_node (DOutOfSync k) n = declareOutOfSync k n"
| "declare_node DUnreachable n = declareUnreachable n"
| "declare_node DInvalidChainID n = declareInvalidChainID n"

section \<open>The loops\<close>

text \<open>
  A step yields the next program counter (\<open>None\<close>: the goroutine has returned) and the node, or
  a panic; \<open>None\<close> as a whole means that the goroutine does not wait for this event.
\<close>

type_synonym lc_result = "(lc_pc option \<times> node) run option"

definition goto :: "lc_pc \<Rightarrow> node \<Rightarrow> lc_result" where
  "goto p n = Some (Ret (Some p, n))"

definition exit_loop :: "node \<Rightarrow> lc_result" where
  "exit_loop n = Some (Ret (None, n))"

definition sanity :: "NodeState \<Rightarrow> string \<Rightarrow> lc_pc \<Rightarrow> node \<Rightarrow> lc_result" where
  "sanity expected what p n =
     (if state n = expected then goto p n
      else if state n = NodeStateClosed then exit_loop n
      else Some (Panic (what @ '' state, got: '' @ NodeState_String (state n))))"

definition fewer_live :: "nat option \<Rightarrow> nat \<Rightarrow> bool" where
  "fewer_live live k = (case live of None \<Rightarrow> False | Some m \<Rightarrow> m < k)"

definition poll_count :: "bool \<Rightarrow> 32 word \<Rightarrow> node \<Rightarrow> 32 word" where
  "poll_count rpc_ok pollFailures n =
     (if CallContext rpc_ok n \<noteq> None
      then (if pollFailures < - 1 then pollFailures + 1 else pollFailures)
      else 0)"

definition on_go :: "lc_event \<Rightarrow> lc_result \<Rightarrow> lc_result" where
  "on_go ev r = (if ev = EvGo then r else None)"

definition on_done :: "node \<Rightarrow> lc_result" where
  "on_done n = (if nodeCtxDone n then exit_loop n else None)"

fun alive_subscribe :: "NodeConfig \<Rightarrow> lc_event \<Rightarrow> node \<Rightarrow> lc_result" where
  "alive_subscribe cfg EvGo n =
     (if NodeNoNewHeadsThreshold cfg > 0 then None
      else goto (AliveSelect 0 (snd (StateAndLatestBlockNumber n))) n)"
| "alive_subscribe cfg (EvSubscribe ok sub) n =
     (if NodeNoNewHeadsThreshold cfg > 0
      then
        (case EthSubscribe ok sub n of
           (Some _, n1) \<Rightarrow> goto (Declaring DUnreachable) n1
         | (None, n1) \<Rightarrow> goto (AliveSelect 0 (snd (StateAndLatestBlockNumber n1))) n1)
      else None)"
| "alive_subscribe cfg ev n = None"

fun alive_select :: "(int \<Rightarrow> int) \<Rightarrow> NodeConfig \<Rightarrow> lc_event \<Rightarrow> 32 word \<Rightarrow> int \<Rightarrow> node \<Rightarrow> lc_result" where
  "alive_select rnd cfg EvDone fails highest n = on_done n"
| "alive_select rnd cfg (EvPoll rpc_ok live) fails highest n =
     (if NodePollInterval cfg > 0
      then
        (let fails' = poll_count rpc_ok fails n
         in if NodePollFailureThreshold cfg > 0 \<and> fails' \<ge> NodePollFailureThreshold cfg
            then (if fewer_live live 2 then goto (AliveSelect fails' highest) n
                  else goto (Declaring DUnreachable) n)
            else goto (AliveSelect fails' highest) n)
      else None)"
| "alive_select rnd cfg EvHeadClosed fails highest n =
     (if NodeNoNewHeadsThreshold cfg > 0 then goto (Declaring DUnreachable) n else None)"
| "alive_select rnd cfg (EvHead number) fails highest n =
     (if NodeNoNewHeadsThreshold cfg > 0
      then goto (AliveSelect fails (if number > highest then number else highest))
             (setLatestReceivedBlockNumber number n)
      else None)"
| "alive_select rnd cfg EvSubErr fails highest n =
     (if NodeNoNewHeadsThreshold cfg > 0 then goto (Declaring DUnreachable) n else None)"
| "alive_select rnd cfg (EvTimer live) fails highest n =
     (if NodeNoNewHeadsThreshold cfg > 0
      then
        (if fewer_live live 2
         then Some (run_map (\<lambda>_. (Some (AliveSelect fails highest), n)) (zombieNodeCheckInterval rnd cfg))
         else goto (Declaring (DOutOfSync highest)) n)
      else None)"
| "alive_select rnd cfg ev fails highest n = None"

fun outOfSync_dial :: "lc_event \<Rightarrow> int \<Rightarrow> node \<Rightarrow> lc_result" where
  "outOfSync_dial (EvDial ws_ok http_ok) stuck n =
     (case dial ws_ok http_ok n of
        (False, n1) \<Rightarrow> goto (Declaring DUnreachable) n1
      | (True, n1) \<Rightarrow> goto (OosVerify stuck) n1)"
| "outOfSync_dial ev stuck n = None"

fun outOfSync_verify :: "lc_event \<Rightarrow> int \<Rightarrow> node \<Rightarrow> lc_result" where
  "outOfSync_verify (EvVerify ws http) stuck n =
     Some (run_map
       (\<lambda>err. (Some (if err \<noteq> None then Declaring DInvalidChainID else OosSubscribe stuck), n))
       (verify ws http n))"
| "outOfSync_verify ev stuck n = None"

text \<open>A raw call to the endpoint: the state of the node is not checked.\<close>

fun outOfSync_subscribe :: "lc_event \<Rightarrow> int \<Rightarrow> node \<Rightarrow> lc_result" where
  "outOfSync_subscribe (EvSubscribe ok sub) stuck n =
     (if \<not> ok then goto (Declaring DUnreachable) n else goto (OosSelect stuck) n)"
| "outOfSync_subscribe ev stuck n = None"

fun outOfSync_event :: "lc_event \<Rightarrow> int \<Rightarrow> node \<Rightarrow> lc_result" where
  "outOfSync_event EvDone stuck n = on_done n"
| "outOfSync_event EvHeadClosed stuck n = goto (Declaring DUnreachable) n"
| "outOfSync_event (EvHead number) stuck n =
     (if number > stuck then goto (Declaring DInSync) n else goto (OosSelect stuck) n)"
| "outOfSync_event (EvTimer live) stuck n =
     (if fewer_live live 1 then goto (Declaring DInSync) n else goto (OosSelect stuck) n)"
| "outOfSync_event EvSubErr stuck n = goto (Declaring DUnreachable) n"
| "outOfSync_event ev stuck n = None"

text \<open>Each turn of the loop computes the interval of the timer it waits for.\<close>

definition outOfSync_select :: "(int \<Rightarrow> int) \<Rightarrow> NodeConfig \<Rightarrow> lc_event \<Rightarrow> int \<Rightarrow> node \<Rightarrow> lc_result" where
  "outOfSync_select rnd cfg ev stuck n =
     (case zombieNodeCheckInterval rnd cfg of
        Panic m \<Rightarrow> Some (Panic m)
      | Ret interval \<Rightarrow> outOfSync_event ev stuck n)"

fun unreachable_select :: "lc_event \<Rightarrow> node \<Rightarrow> lc_result" where
  "unreachable_select EvDone n = on_done n"
| "unreachable_select (EvDial ws_ok http_ok) n =
     (case dial ws_ok http_ok n of
        (False, n1) \<Rightarrow> goto UnrSelect n1
      | (True, n1) \<Rightarrow> goto UnrSetDialed n1)"
| "unreachable_select ev n = None"

fun unreachable_verify :: "lc_event \<Rightarrow> node \<Rightarrow> lc_result" where
  "unreachable_verify (EvVerify ws http) n =
     Some (run_map
       (\<lambda>err. (Some (Declaring
          (case err of
             Some ErrInvalidChainID \<Rightarrow> DInvalidChainID
           | Some ErrChainIDCall \<Rightarrow> DUnreachable
           | None \<Rightarrow> DAlive)), n))
       (verify ws http n))"
| "unreachable_verify ev n = None"

fun invalidChainID_select :: "lc_event \<Rightarrow> node \<Rightarrow> lc_result" where
  "invalidChainID_select EvDone n = on_done n"
| "invalidChainID_select (EvTimer live) n = goto InvVerify n"
| "invalidChainID_select ev n = None"

fun invalidChainID_verify :: "lc_event \<Rightarrow> node \<Rightarrow> lc_result" where
  "invalidChainID_verify (EvVerify ws http) n =
     Some (run_map
       (\<lambda>err. (Some (case err of
             Some ErrInvalidChainID \<Rightarrow> InvSelect
           | Some ErrChainIDCall \<Rightarrow> Declaring DUnreachable
           | None \<Rightarrow> Declaring DAlive), n))
       (verify ws http n))"
| "invalidChainID_verify ev n = None"

fun lc_step :: "(int \<Rightarrow> int) \<Rightarrow> NodeConfig \<Rightarrow> lc_event \<Rightarrow> lc_pc \<Rightarrow> node \<Rightarrow> lc_result" where
  "lc_step rnd cfg ev AliveEntry n =
     on_go ev (sanity NodeStateAlive ''aliveLoop can only run for node in Alive'' AliveSubscribe n)"
| "lc_step rnd cfg ev AliveSubscribe n = alive_subscribe cfg ev n"
| "lc_step rnd cfg ev (AliveSelect fails highest) n = alive_select rnd cfg ev fails highest n"
| "lc_step rnd cfg ev (OosEntry stuck) n =
     on_go ev (sanity NodeStateOutOfSync ''outOfSyncLoop can only run for node in OutOfSync''
       (OosDial stuck) n)"
| "lc_step rnd cfg ev (OosDial stuck) n = outOfSync_dial ev stuck n"
| "lc_step rnd cfg ev (OosVerify stuck) n = outOfSync_verify ev stuck n"
| "lc_step rnd cfg ev (OosSubscribe stuck) n = outOfSync_subscribe ev stuck n"
| "lc_step rnd cfg ev (OosSelect stuck) n = outOfSync_select rnd cfg ev stuck n"
| "lc_step rnd cfg ev UnrEntry n =
     on_go ev (sanity NodeStateUnreachable ''unreachableLoop can only run for node in Unreachable''
       UnrSelect n)"
| "lc_step rnd cfg ev UnrSelect n = unreachable_select ev n"
| "lc_step rnd cfg ev UnrSetDialed n = on_go ev (goto UnrVerify (setState NodeStateDialed n))"
| "lc_step rnd cfg ev UnrVerify n = unreachable_verify ev n"
| "lc_step rnd cfg ev InvEntry n =
     on_go ev (sanity NodeStateInvalidChainID
       ''invalidChainIDLoop can only run for node in InvalidChainID'' InvSelect n)"
| "lc_step rnd cfg ev InvSelect n = invalidChainID_select ev n"
| "lc_step rnd cfg ev InvVerify n = invalidChainID_verify ev n"
| "lc_step rnd cfg ev (Declaring d) n =
     on_go ev (Some (run_map (\<lambda>n1. (None, n1)) (declare_node d n)))"

section \<open>The node with its goroutines and a \<open>Close\<close> at any moment\<close>

text \<open>
  \<open>routines\<close> are the goroutines that run. A spawned goroutine joins them when it is scheduled.
  \<open>StopOnce\<close> lets the body of \<open>Close\<close> run at most once.
\<close>

record lc_sys =
  sys_node :: node
  routines :: "lc_pc list"
  close_called :: bool
  lc_panic :: "string option"

definition lc_init :: "node \<Rightarrow> lc_sys" where
  "lc_init n = \<lparr>sys_node = n, routines = [], close_called = False, lc_panic = None\<rparr>"

fun lc_next :: "lc_pc option \<Rightarrow> lc_pc list" where
  "lc_next None = []"
| "lc_next (Some p) = [p]"

inductive lc_sys_step :: "(int \<Rightarrow> int) \<Rightarrow> NodeConfig \<Rightarrow> lc_sys \<Rightarrow> lc_sys \<Rightarrow> bool"
  for rnd :: "int \<Rightarrow> int" and cfg :: NodeConfig where
  lc_schedule: "spawned (sys_node s) = l # ls
     \<Longrightarrow> lc_sys_step rnd cfg s
           (s\<lparr>sys_node := (sys_node s)\<lparr>spawned := ls\<rparr>, routines := routines s @ [lc_entry l]\<rparr>)"
| lc_runs: "routines s = ps @ p # qs \<Longrightarrow> lc_step rnd cfg ev p (sys_node s) = Some (Ret (next, n))
     \<Longrightarrow> lc_sys_step rnd cfg s (s\<lparr>sys_node := n, routines := ps @ lc_next next @ qs\<rparr>)"
| lc_panics: "routines s = ps @ p # qs \<Longrightarrow> lc_step rnd cfg ev p (sys_node s) = Some (Panic m)
     \<Longrightarrow> lc_sys_step rnd cfg s (s\<lparr>routines := ps @ qs, lc_panic := Some m\<rparr>)"
| lc_close: "\<not> close_called s
     \<Longrightarrow> lc_sys_step rnd cfg s (s\<lparr>sys_node := node_Close (sys_node s), close_called := True\<rparr>)"

inductive lc_reachable :: "(int \<Rightarrow> int) \<Rightarrow> NodeConfig \<Rightarrow> lc_sys \<Rightarrow> bool"
  for rnd :: "int \<Rightarrow> int" and cfg :: NodeConfig where
  lc_started: "node_start w h wa ha (NewNode nm cid http) = Ret n \<Longrightarrow> lc_reachable rnd cfg (lc_init n)"
| lc_more: "lc_reachable rnd cfg s \<Longrightarrow> lc_sys_step rnd cfg s t \<Longrightarrow> lc_reachable rnd cfg t"


lemmas lc_step_defs = goto_def exit_loop_def on_go_def on_done_def sanity_def

inductive_cases lc_sys_stepE: "lc_sys_step rnd cfg s t"

section \<open>One goroutine at most\<close>

lemma declare_count:
  "declare_node d n = Ret n' \<Longrightarrow> length (spawned n') \<le> Suc (length (spawned n))"
  by (cases d) (auto simp: declare_defs transition_defs go_loop_def split: if_splits)

text \<open>A step hands over to at most one goroutine: itself or the one it spawns.\<close>

definition hands_over :: "node \<Rightarrow> lc_result \<Rightarrow> bool" where
  "hands_over n r \<longleftrightarrow> (\<forall>next n'. r = Some (Ret (next, n')) \<longrightarrow>
     length (lc_next next) + length (spawned n') \<le> Suc (length (spawned n)))"

named_theorems hand_over_rules

lemma hands_over_simps [hand_over_rules, simp]:
  "hands_over n None"
  "hands_over n (Some (Panic m))"
  "spawned n' = spawned n \<Longrightarrow> hands_over n (goto p n')"
  "hands_over n (exit_loop n)"
  "hands_over n (Some (run_map (\<lambda>x. (Some (f x), n)) r))"
  by (auto simp: hands_over_def lc_step_defs run_simps)

lemma hands_over_parts [hand_over_rules, simp]:
  "hands_over n r \<Longrightarrow> hands_over n (on_go ev r)"
  "hands_over n (on_done n)"
  "hands_over n (sanity st what p n)"
  by (auto simp: hands_over_def lc_step_defs split: if_splits)

lemma spawned_EthSubscribe [simp]: "spawned (snd (EthSubscribe ok sub n)) = spawned n"
  by (simp add: EthSubscribe_def registerSub_def split: sum.splits)

lemma spawned_setters [simp]:
  "spawned (setState st n) = spawned n"
  "spawned (setLatestReceivedBlockNumber k n) = spawned n"
  by (simp_all add: setState_def setLatestReceivedBlockNumber_def)

lemma dial_keeps:
  "dial w h n = (b, n1) \<Longrightarrow> state n1 = state n \<and> spawned n1 = spawned n \<and> nodeCtxDone n1 = nodeCtxDone n"
  by (auto simp: dial_def Let_def split: if_splits)

lemma EthSubscribe_keeps:
  "EthSubscribe ok sub n = (e, n1)
   \<Longrightarrow> state n1 = state n \<and> spawned n1 = spawned n \<and> nodeCtxDone n1 = nodeCtxDone n"
  by (auto simp: EthSubscribe_def registerSub_def split: sum.splits if_splits)

lemma hands_over_alive:
  "hands_over n (alive_subscribe cfg ev n)" "hands_over n (alive_select rnd cfg ev f h n)"
  by (cases ev; auto simp: Let_def dest: EthSubscribe_keeps split: prod.split option.split)+

lemma hands_over_oos:
  "hands_over n (outOfSync_dial ev k n)" "hands_over n (outOfSync_verify ev k n)"
  "hands_over n (outOfSync_subscribe ev k n)" "hands_over n (outOfSync_select rnd cfg ev k n)"
  by (cases ev; auto simp: outOfSync_select_def dest: dial_keeps split: prod.split bool.split run.split)+

lemma hands_over_rest:
  "hands_over n (unreachable_select ev n)" "hands_over n (unreachable_verify ev n)"
  "hands_over n (invalidChainID_select ev n)" "hands_over n (invalidChainID_verify ev n)"
  by (cases ev; auto dest: dial_keeps split: prod.split bool.split)+

lemma lc_step_hands_over: "hands_over n (lc_step rnd cfg ev p n)"
proof (cases p)
  case (Declaring d)
  then show ?thesis
    by (auto simp: hands_over_def on_go_def run_simps dest: declare_count split: if_splits)
qed (simp_all add: hands_over_alive hands_over_oos hands_over_rest)

lemma lc_step_count:
  "lc_step rnd cfg ev p n = Some (Ret (next, n'))
   \<Longrightarrow> length (lc_next next) + length (spawned n') \<le> Suc (length (spawned n))"
  using lc_step_hands_over [of n rnd cfg ev p] by (simp add: hands_over_def)

definition at_most_one_loop :: "lc_sys \<Rightarrow> bool" where
  "at_most_one_loop s \<longleftrightarrow> length (routines s) + length (spawned (sys_node s)) \<le> 1"

lemma spawned_node_Close [simp]: "spawned (node_Close n) = spawned n"
  by (simp add: node_Close_def conn_defs Let_def)

lemma at_most_one_step [inv_intros]:
  assumes "lc_sys_step rnd cfg s t" and "at_most_one_loop s"
  shows "at_most_one_loop t"
  using assms(1)
proof cases
  case (lc_runs ps p qs ev "next" n)
  then show ?thesis
    using assms(2) lc_step_count [of rnd cfg ev p "sys_node s" "next" n] by (simp add: at_most_one_loop_def)
qed (use assms(2) in \<open>auto simp: at_most_one_loop_def\<close>)

section \<open>Without \<open>Close\<close>\<close>

fun can_declare :: "lc_decl \<Rightarrow> NodeState \<Rightarrow> bool" where
  "can_declare DAlive st = (st = NodeStateDialed \<or> st = NodeStateInvalidChainID)"
| "can_declare DInSync st = (st = NodeStateOutOfSync)"
| "can_declare (DOutOfSync k) st = (st = NodeStateAlive)"
| "can_declare DUnreachable st = (st \<noteq> NodeStateUnreachable \<and> st \<noteq> NodeStateClosed)"
| "can_declare DInvalidChainID st = (st = NodeStateDialed \<or> st = NodeStateOutOfSync)"

fun pc_ok :: "lc_pc \<Rightarrow> NodeState \<Rightarrow> bool" where
  "pc_ok AliveEntry st = (st = NodeStateAlive)"
| "pc_ok AliveSubscribe st = (st = NodeStateAlive)"
| "pc_ok (AliveSelect f h) st = (st = NodeStateAlive)"
| "pc_ok (OosEntry k) st = (st = NodeStateOutOfSync)"
| "pc_ok (OosDial k) st = (st = NodeStateOutOfSync)"
| "pc_ok (OosVerify k) st = (st = NodeStateOutOfSync)"
| "pc_ok (OosSubscribe k) st = (st = NodeStateOutOfSync)"
| "pc_ok (OosSelect k) st = (st = NodeStateOutOfSync)"
| "pc_ok UnrEntry st = (st = NodeStateUnreachable)"
| "pc_ok UnrSelect st = (st = NodeStateUnreachable)"
| "pc_ok UnrSetDialed st = (st = NodeStateUnreachable)"
| "pc_ok UnrVerify st = (st = NodeStateDialed)"
| "pc_ok InvEntry st = (st = NodeStateInvalidChainID)"
| "pc_ok InvSelect st = (st = NodeStateInvalidChainID)"
| "pc_ok InvVerify st = (st = NodeStateInvalidChainID)"
| "pc_ok (Declaring d) st = can_declare d st"

lemma pc_ok_not_closed: "pc_ok p st \<Longrightarrow> st \<noteq> NodeStateClosed"
proof (cases p)
  case (Declaring d)
  then show "pc_ok p st \<Longrightarrow> st \<noteq> NodeStateClosed" by (cases d) auto
qed auto

lemma pc_ok_entry: "pc_ok (lc_entry l) (loop_state l)"
  by (cases l) simp_all

text \<open>What a step of an undisturbed goroutine yields: it goes on, or it has handed over.\<close>

definition undisturbed :: "lc_result \<Rightarrow> bool" where
  "undisturbed r \<longleftrightarrow> (case r of
       None \<Rightarrow> True
     | Some (Panic m) \<Rightarrow> False
     | Some (Ret (Some p, n)) \<Rightarrow> pc_ok p (state n) \<and> spawned n = [] \<and> \<not> nodeCtxDone n
     | Some (Ret (None, n)) \<Rightarrow> \<not> nodeCtxDone n \<and> (\<exists>l. spawned n = [l] \<and> loop_state l = state n))"

lemma undisturbed_simps [simp]:
  "undisturbed None"
  "undisturbed (goto p n) \<longleftrightarrow> pc_ok p (state n) \<and> spawned n = [] \<and> \<not> nodeCtxDone n"
  "undisturbed (Some (Ret (Some p, n))) \<longleftrightarrow> pc_ok p (state n) \<and> spawned n = [] \<and> \<not> nodeCtxDone n"
  "\<not> nodeCtxDone n \<Longrightarrow> undisturbed (on_done n)"
  by (simp_all add: undisturbed_def lc_step_defs)

lemma setters_state [simp]:
  "state (setState st n) = st"
  "state (setLatestReceivedBlockNumber k n) = state n"
  "nodeCtxDone (setState st n) = nodeCtxDone n"
  "nodeCtxDone (setLatestReceivedBlockNumber k n) = nodeCtxDone n"
  by (simp_all add: setState_def setLatestReceivedBlockNumber_def)

lemma verify_cases:
  assumes "state n = NodeStateDialed \<or> state n = NodeStateOutOfSync \<or> state n = NodeStateInvalidChainID"
  shows "verify w h n = Ret None \<or> verify w h n = Ret (Some ErrInvalidChainID)
    \<or> verify w h n = Ret (Some ErrChainIDCall)"
  using assms by (auto simp: verify_def split: option.splits)

lemma declare_ctx: "declare_node d n = Ret n' \<Longrightarrow> nodeCtxDone n' = nodeCtxDone n"
  by (cases d) (auto simp: declare_defs transition_defs conn_defs split: if_splits)

lemma node_start_ctx:
  assumes "node_start w h wa ha n = Ret n'"
  shows "nodeCtxDone n' = nodeCtxDone n"
proof -
  obtain ok n1 where d: "dial w h n = (ok, n1)" by (cases "dial w h n")
  let ?n2 = "setState NodeStateDialed n1"
  note D = declare_ctx [of DAlive] declare_ctx [of DUnreachable] declare_ctx [of DInvalidChainID]
    dial_keeps [OF d]
  show ?thesis
  proof (cases ok)
    case False
    then show ?thesis using assms d D by (auto simp: node_start_def split: if_splits)
  next
    case True
    then show ?thesis
      using assms d D verify_cases [of ?n2 wa ha]
      by (auto simp: node_start_def Let_def split: if_splits)
  qed
qed

lemma declare_ok:
  assumes "can_declare d (state n)" "spawned n = []" "\<not> nodeCtxDone n"
  shows "undisturbed (Some (run_map (\<lambda>n1. (None, n1)) (declare_node d n)))"
  using assms
  by (cases d; cases "state n")
    (auto simp: undisturbed_def declare_defs transition_defs conn_defs)

lemma alive_ok:
  assumes "state n = NodeStateAlive" "spawned n = []" "\<not> nodeCtxDone n" "cfg_ok cfg"
  shows "undisturbed (alive_subscribe cfg ev n)" "undisturbed (alive_select rnd cfg ev f h n)"
proof -
  show "undisturbed (alive_subscribe cfg ev n)"
    using assms by (cases ev) (auto dest: EthSubscribe_keeps split: prod.splits option.splits)
  obtain r where "zombieNodeCheckInterval rnd cfg = Ret r"
    using zombie_Ret [OF assms(4)] by blast
  then show "undisturbed (alive_select rnd cfg ev f h n)"
    using assms by (cases ev) (auto simp: Let_def)
qed

lemma oos_ok:
  assumes "state n = NodeStateOutOfSync" "spawned n = []" "\<not> nodeCtxDone n" "cfg_ok cfg"
  shows "undisturbed (outOfSync_dial ev k n)" "undisturbed (outOfSync_verify ev k n)"
    "undisturbed (outOfSync_subscribe ev k n)" "undisturbed (outOfSync_select rnd cfg ev k n)"
proof -
  show "undisturbed (outOfSync_dial ev k n)"
    using assms by (cases ev) (auto dest: dial_keeps split: prod.splits bool.splits)
  show "undisturbed (outOfSync_verify ev k n)"
  proof (cases ev)
    case (EvVerify w h)
    with assms verify_cases [of n w h] show ?thesis by auto
  qed simp_all
  show "undisturbed (outOfSync_subscribe ev k n)" using assms by (cases ev) auto
  obtain r where "zombieNodeCheckInterval rnd cfg = Ret r"
    using zombie_Ret [OF assms(4)] by blast
  then show "undisturbed (outOfSync_select rnd cfg ev k n)"
    using assms by (cases ev) (auto simp: outOfSync_select_def)
qed

lemma unreachable_ok:
  assumes "spawned n = []" "\<not> nodeCtxDone n"
  shows "state n = NodeStateUnreachable \<Longrightarrow> undisturbed (unreachable_select ev n)"
    and "state n = NodeStateDialed \<Longrightarrow> undisturbed (unreachable_verify ev n)"
proof -
  show "undisturbed (unreachable_select ev n)" if "state n = NodeStateUnreachable"
    using assms that by (cases ev) (auto dest: dial_keeps split: prod.splits bool.splits)
  show "undisturbed (unreachable_verify ev n)" if st: "state n = NodeStateDialed"
  proof (cases ev)
    case (EvVerify w h)
    with assms st verify_cases [of n w h] show ?thesis by auto
  qed simp_all
qed

lemma invalid_ok:
  assumes "state n = NodeStateInvalidChainID" "spawned n = []" "\<not> nodeCtxDone n"
  shows "undisturbed (invalidChainID_select ev n)" "undisturbed (invalidChainID_verify ev n)"
proof -
  show "undisturbed (invalidChainID_select ev n)" using assms by (cases ev) auto
  show "undisturbed (invalidChainID_verify ev n)"
  proof (cases ev)
    case (EvVerify w h)
    with assms verify_cases [of n w h] show ?thesis by auto
  qed simp_all
qed

lemma lc_step_undisturbed:
  assumes "pc_ok p (state n)" "spawned n = []" "\<not> nodeCtxDone n" "cfg_ok cfg"
  shows "undisturbed (lc_step rnd cfg ev p n)"
  using assms
  by (cases p)
    (auto simp: on_go_def sanity_def alive_ok oos_ok unreachable_ok invalid_ok declare_ok)

definition lc_inv :: "lc_sys \<Rightarrow> bool" where
  "lc_inv s \<longleftrightarrow> lc_panic s = None \<and> \<not> nodeCtxDone (sys_node s)
     \<and> (\<exists>p. routines s = [p] \<and> spawned (sys_node s) = [] \<and> pc_ok p (state (sys_node s))
        \<or> (\<exists>l. routines s = [] \<and> spawned (sys_node s) = [l] \<and> loop_state l = state (sys_node s)))"

lemma lc_inv_step [inv_intros]:
  assumes step: "lc_sys_step rnd cfg s t" and inv: "lc_inv s" and ok: "cfg_ok cfg"
    and nc: "\<not> close_called t"
  shows "lc_inv t"
  using step
proof cases
  case (lc_schedule l ls)
  then show ?thesis using inv pc_ok_entry [of l] by (auto simp: lc_inv_def)
next
  case (lc_runs ps p qs ev "next" n)
  with inv have p: "ps = []" "qs = []" "pc_ok p (state (sys_node s))" "spawned (sys_node s) = []"
      "\<not> nodeCtxDone (sys_node s)" and "lc_panic s = None"
    by (auto simp: lc_inv_def append_eq_Cons_conv)
  moreover from lc_step_undisturbed [OF p(3,4,5) ok, of rnd ev] lc_runs
  have "undisturbed (Some (Ret (next, n)))" by simp
  ultimately show ?thesis using lc_runs
    by (cases "next") (auto simp: lc_inv_def undisturbed_def)
next
  case (lc_panics ps p qs ev m)
  with inv have p: "pc_ok p (state (sys_node s))" "spawned (sys_node s) = []"
      "\<not> nodeCtxDone (sys_node s)"
    by (auto simp: lc_inv_def append_eq_Cons_conv)
  from lc_step_undisturbed [OF p ok, of rnd ev] lc_panics show ?thesis
    by (simp add: undisturbed_def)
next
  case lc_close
  then show ?thesis using nc by simp
qed

section \<open>A goroutine over a sequence of events\<close>

fun lc_events :: "(int \<Rightarrow> int) \<Rightarrow> NodeConfig \<Rightarrow> lc_event list \<Rightarrow> lc_pc \<Rightarrow> node \<Rightarrow> lc_result" where
  "lc_events rnd cfg [] p n = goto p n"
| "lc_events rnd cfg (e # es) p n =
     (case lc_step rnd cfg e p n of
        Some (Ret (Some p', n')) \<Rightarrow> lc_events rnd cfg es p' n'
      | r \<Rightarrow> (if es = [] then r else None))"

lemma lc_events_goto [simp]:
  "lc_step rnd cfg e p n = goto p' n' \<Longrightarrow> lc_events rnd cfg (e # es) p n = lc_events rnd cfg es p' n'"
  by (simp add: goto_def)

declare lc_events.simps(2) [simp del]

definition polls_enabled :: "NodeConfig \<Rightarrow> bool" where
  "polls_enabled cfg \<longleftrightarrow> NodePollInterval cfg > 0 \<and> NodePollFailureThreshold cfg > 0"

lemma poll_count_failed:
  assumes "k < unat (t :: 32 word)"
  shows "poll_count False (of_nat k) n = of_nat (Suc k)"
proof -
  have lt: "k < 2 ^ 32 - 1" using assms unsigned_less [of t, where ?'a = nat] by simp
  then have "unat (of_nat k :: 32 word) < unat (- 1 :: 32 word)"
    by (simp add: unsigned_of_nat take_bit_nat_eq_self unsigned_minus_1_eq_mask mask_eq_exp_minus_1)
  then have "(of_nat k :: 32 word) < - 1" by (simp add: word_less_nat_alt)
  then show ?thesis
    by (auto simp: poll_count_def CallContext_def add.commute split: sum.splits)
qed

lemma le_of_nat_word:
  "k < 2 ^ 32 \<Longrightarrow> (t :: 32 word) \<le> of_nat k \<longleftrightarrow> unat t \<le> k"
  by (simp add: word_le_nat_alt unsigned_of_nat take_bit_nat_eq_self)

lemma failed_poll:
  assumes "k < unat (NodePollFailureThreshold cfg)" "polls_enabled cfg" "\<not> fewer_live live 2"
  shows "lc_step rnd cfg (EvPoll False live) (AliveSelect (of_nat k) h) n =
    goto (if Suc k = unat (NodePollFailureThreshold cfg) then Declaring DUnreachable
          else AliveSelect (of_nat (Suc k)) h) n"
proof -
  have "Suc k < 2 ^ 32" using assms(1) unsigned_less [of "NodePollFailureThreshold cfg", where ?'a = nat] by simp
  then have "(NodePollFailureThreshold cfg \<le> of_nat (Suc k))
      = (unat (NodePollFailureThreshold cfg) \<le> Suc k)"
    by (rule le_of_nat_word)
  with assms show ?thesis
    by (simp add: Let_def poll_count_failed polls_enabled_def del: of_nat_Suc)
qed

lemma failed_polls:
  assumes "k + m \<le> unat (NodePollFailureThreshold cfg)" "k < unat (NodePollFailureThreshold cfg)"
    and "polls_enabled cfg" "\<not> fewer_live live 2"
  shows "lc_events rnd cfg (replicate m (EvPoll False live)) (AliveSelect (of_nat k) h) n =
    goto (if k + m = unat (NodePollFailureThreshold cfg) then Declaring DUnreachable
          else AliveSelect (of_nat (k + m)) h) n"
  using assms
proof (induction m arbitrary: k)
  case 0
  then show ?case by simp
next
  case (Suc m)
  show ?case
  proof (cases "Suc k = unat (NodePollFailureThreshold cfg)")
    case True
    with Suc.prems have "m = 0" by simp
    with True failed_poll [OF Suc.prems(2,3,4), of rnd h n] show ?thesis
      by (simp del: lc_step.simps)
  next
    case False
    with Suc.prems have "Suc k < unat (NodePollFailureThreshold cfg)"
      "Suc k + m \<le> unat (NodePollFailureThreshold cfg)" by simp_all
    with Suc.IH [of "Suc k"] False failed_poll [OF Suc.prems(2,3,4), of rnd h n] Suc.prems
    show ?thesis by (simp del: lc_step.simps of_nat_Suc of_nat_add)
  qed
qed

section \<open>Schedules\<close>

text \<open>A schedule, for running the system on concrete inputs.\<close>

datatype lc_move = MSchedule | MRun lc_event | MClose

fun lc_do :: "(int \<Rightarrow> int) \<Rightarrow> NodeConfig \<Rightarrow> lc_move \<Rightarrow> lc_sys \<Rightarrow> lc_sys option" where
  "lc_do rnd cfg MSchedule s =
     (case spawned (sys_node s) of
        l # ls \<Rightarrow> Some (s\<lparr>sys_node := (sys_node s)\<lparr>spawned := ls\<rparr>, routines := routines s @ [lc_entry l]\<rparr>)
      | [] \<Rightarrow> None)"
| "lc_do rnd cfg (MRun ev) s =
     (case routines s of
        p # qs \<Rightarrow>
          (case lc_step rnd cfg ev p (sys_node s) of
             Some (Ret (next, n)) \<Rightarrow> Some (s\<lparr>sys_node := n, routines := lc_next next @ qs\<rparr>)
           | Some (Panic m) \<Rightarrow> Some (s\<lparr>routines := qs, lc_panic := Some m\<rparr>)
           | None \<Rightarrow> None)
      | [] \<Rightarrow> None)"
| "lc_do rnd cfg MClose s =
     (if close_called s then None
      else Some (s\<lparr>sys_node := node_Close (sys_node s), close_called := True\<rparr>))"

fun lc_schedule_run :: "(int \<Rightarrow> int) \<Rightarrow> NodeConfig \<Rightarrow> lc_move list \<Rightarrow> lc_sys \<Rightarrow> lc_sys option" where
  "lc_schedule_run rnd cfg [] s = Some s"
| "lc_schedule_run rnd cfg (m # ms) s =
     (case lc_do rnd cfg m s of None \<Rightarrow> None | Some t \<Rightarrow> lc_schedule_run rnd cfg ms t)"

lemma lc_do_step: "lc_do rnd cfg m s = Some t \<Longrightarrow> lc_sys_step rnd cfg s t"
proof (cases m)
  case MSchedule
  then show "lc_do rnd cfg m s = Some t \<Longrightarrow> lc_sys_step rnd cfg s t"
    by (auto split: list.splits intro: lc_sys_step.lc_schedule)
next
  case (MRun ev)
  assume "lc_do rnd cfg m s = Some t"
  with MRun obtain p qs where r: "routines s = p # qs" by (auto split: list.splits)
  from lc_sys_step.lc_runs [where ps = "[]", OF _ , of s p qs rnd cfg ev]
       lc_sys_step.lc_panics [where ps = "[]", OF _ , of s p qs rnd cfg ev]
  show "lc_sys_step rnd cfg s t"
    using \<open>lc_do rnd cfg m s = Some t\<close> MRun r by (auto split: option.splits run.splits)
next
  case MClose
  then show "lc_do rnd cfg m s = Some t \<Longrightarrow> lc_sys_step rnd cfg s t"
    by (auto split: if_splits intro: lc_sys_step.lc_close)
qed

lemma lc_schedule_run_reachable:
  "lc_schedule_run rnd cfg ms s = Some t \<Longrightarrow> lc_reachable rnd cfg s \<Longrightarrow> lc_reachable rnd cfg t"
  by (induction ms arbitrary: s) (auto split: option.splits dest!: lc_do_step dest: lc_more)

text \<open>A node whose first dial fails.\<close>

definition some_cfg :: NodeConfig where
  "some_cfg = \<lparr>NodeNoNewHeadsThreshold = 30, NodePollFailureThreshold = 5, NodePollInterval = 10\<rparr>"

definition unreachable_at_start :: lc_sys where
  "unreachable_at_start =
     (case node_start False False None None (NewNode ''a'' 1 False) of
        Ret n \<Rightarrow> lc_init n | Panic m \<Rightarrow> lc_init (NewNode ''a'' 1 False))"

lemma unreachable_at_start_eval:
  "unreachable_at_start = lc_init
     ((NewNode ''a'' 1 False)\<lparr>chStopInFlight := 1, state := NodeStateUnreachable, spawned := [UnreachableLoop]\<rparr>)"
  by (simp add: unreachable_at_start_def node_start_def NewNode_def dial_def declare_defs
      transition_defs conn_defs)

lemma unreachable_at_start_reachable: "lc_reachable rnd cfg unreachable_at_start"
proof -
  have "node_start False False None None (NewNode ''a'' 1 False) =
    Ret ((NewNode ''a'' 1 False)\<lparr>chStopInFlight := 1, state := NodeStateUnreachable, spawned := [UnreachableLoop]\<rparr>)"
    by (simp add: node_start_def NewNode_def dial_def declare_defs transition_defs conn_defs)
  from lc_started [OF this] show ?thesis by (simp add: unreachable_at_start_eval)
qed

section \<open>Properties\<close>

text \<open>C18: Whatever \<open>Close\<close> and the loops do, and in whatever order, at most one monitoring
  goroutine of a node runs or waits to run.\<close>

theorem lifecycle_one_loop:
  assumes "lc_reachable rnd cfg s"
  shows "length (routines s) + length (spawned (sys_node s)) \<le> 1"
proof -
  have "at_most_one_loop s"
    using assms
  proof (induction rule: lc_reachable.induct)
    case (lc_started w h wa ha nm cid http n)
    then show ?case
      using node_start_loop [of "NewNode nm cid http" w h wa ha]
      by (auto simp: at_most_one_loop_def lc_init_def NewNode_def)
  qed (rule at_most_one_step)
  then show ?thesis by (simp add: at_most_one_loop_def)
qed

text \<open>C17: Until \<open>Close\<close> is called no loop panics, no illegal transition is attempted, and the
  one goroutine there is belongs to the state the node is in. The configured durations
  are such that \<open>WithJitter\<close> does not panic (not 1 to 4 ns).\<close>

theorem lifecycle_no_panic:
  assumes "lc_reachable rnd cfg s" and "cfg_ok cfg" and "\<not> close_called s"
  shows "lc_panic s = None \<and> state (sys_node s) \<noteq> NodeStateClosed \<and>
    (case routines s @ map lc_entry (spawned (sys_node s)) of
       [p] \<Rightarrow> pc_ok p (state (sys_node s)) | _ \<Rightarrow> False)"
proof -
  have "\<not> close_called s \<longrightarrow> lc_inv s"
    using assms(1)
  proof (induction rule: lc_reachable.induct)
    case (lc_started w h wa ha nm cid http n)
    then obtain l where "spawned n = [l]" "loop_state l = state n"
      using node_start_loop [of "NewNode nm cid http" w h wa ha] by (auto simp: NewNode_def)
    moreover have "\<not> nodeCtxDone n"
      using node_start_ctx [OF lc_started] by (simp add: NewNode_def)
    ultimately show ?case by (simp add: lc_inv_def lc_init_def)
  next
    case (lc_more s t)
    moreover have "\<not> close_called t \<Longrightarrow> \<not> close_called s"
      using lc_more.hyps(2) by cases auto
    ultimately show ?case using lc_inv_step assms(2) by blast
  qed
  with assms(3) have inv: "lc_inv s" by simp
  then obtain p where p: "routines s @ map lc_entry (spawned (sys_node s)) = [p]"
      "pc_ok p (state (sys_node s))" and "lc_panic s = None"
    using pc_ok_entry by (auto simp: lc_inv_def) metis
  moreover from p(2) have "state (sys_node s) \<noteq> NodeStateClosed"
    by (rule pc_ok_not_closed)
  ultimately show ?thesis by simp
qed

theorem lifecycle_no_panic_witness:
  "\<exists>s. lc_schedule_run (\<lambda>_. 0) some_cfg [MSchedule, MRun EvGo, MRun (EvDial True True), MRun EvGo,
        MRun (EvVerify (Some 1) (Some 1)), MRun EvGo, MSchedule] unreachable_at_start = Some s
     \<and> lc_reachable (\<lambda>_. 0) some_cfg s \<and> routines s = [AliveEntry] \<and> lc_panic s = None
     \<and> state (sys_node s) = NodeStateAlive"
proof -
  obtain s where s: "lc_schedule_run (\<lambda>_. 0) some_cfg [MSchedule, MRun EvGo, MRun (EvDial True True), MRun EvGo,
        MRun (EvVerify (Some 1) (Some 1)), MRun EvGo, MSchedule] unreachable_at_start = Some s"
      "routines s = [AliveEntry]" "\<not> close_called s"
    by (simp add: unreachable_at_start_eval lc_init_def NewNode_def lc_step_defs dial_def
        conn_defs Let_def setState_def verify_def declare_defs transition_defs)
  have r: "lc_reachable (\<lambda>_. 0) some_cfg s"
    by (rule lc_schedule_run_reachable [OF s(1) unreachable_at_start_reachable])
  have "cfg_ok some_cfg" by (simp add: cfg_ok_def some_cfg_def)
  from lifecycle_no_panic [OF r this s(3)] s(2)
  have "lc_panic s = None" "state (sys_node s) = NodeStateAlive" by (auto split: list.splits)
  with s r show ?thesis by blast
qed

theorem lifecycle_one_loop_witness:
  "\<exists>s. lc_reachable (\<lambda>_. 0) some_cfg s \<and> routines s = [UnrEntry]
     \<and> length (routines s) + length (spawned (sys_node s)) \<le> 1"
proof -
  obtain s where s: "lc_schedule_run (\<lambda>_. 0) some_cfg [MSchedule] (unreachable_at_start) = Some s"
      and r: "routines s = [UnrEntry]"
    by (simp add: unreachable_at_start_eval lc_init_def)
  have "lc_reachable (\<lambda>_. 0) some_cfg s"
    by (rule lc_schedule_run_reachable [OF s unreachable_at_start_reachable])
  with lifecycle_one_loop [OF this] r show ?thesis by blast
qed

text \<open>With polling and its threshold enabled, a live loop that sees one good poll and then
  failed polls only counts them, and declares the node unreachable at exactly the threshold
  (more than one node being alive).\<close>

theorem poll_threshold:
  assumes "polls_enabled cfg" and "\<not> fewer_live live 2" and "state n = NodeStateAlive"
    and "m \<le> unat (NodePollFailureThreshold cfg)"
  shows "lc_events rnd cfg (EvPoll True live # replicate m (EvPoll False live)) (AliveSelect f h) n =
    goto (if m = unat (NodePollFailureThreshold cfg) then Declaring DUnreachable
          else AliveSelect (of_nat m) h) n"
proof -
  have "0 < unat (NodePollFailureThreshold cfg)"
    using assms(1) by (simp add: polls_enabled_def word_greater_zero_iff unat_gt_0)
  moreover have "lc_step rnd cfg (EvPoll True live) (AliveSelect f h) n = goto (AliveSelect 0 h) n"
    using assms by (auto simp: polls_enabled_def Let_def poll_count_def CallContext_def
        makeLiveQueryCtx_def fewer_live_def)
  ultimately show ?thesis
    using failed_polls [of 0 m cfg live rnd h n] assms by (simp del: lc_step.simps)
qed

theorem poll_threshold_witness:
  "let cfg = \<lparr>NodeNoNewHeadsThreshold = 0, NodePollFailureThreshold = 3, NodePollInterval = 10\<rparr>;
       n = (NewNode ''a'' 1 False)\<lparr>state := NodeStateAlive\<rparr>
   in lc_events (\<lambda>_. 0) cfg (EvPoll True None # replicate 3 (EvPoll False None)) (AliveSelect 2 7) n
        = goto (Declaring DUnreachable) n"
  using poll_threshold [of "\<lparr>NodeNoNewHeadsThreshold = 0, NodePollFailureThreshold = 3,
      NodePollInterval = 10\<rparr>" None "(NewNode ''a'' 1 False)\<lparr>state := NodeStateAlive\<rparr>" 3 "\<lambda>_. 0" 2 7]
  by (simp add: polls_enabled_def fewer_live_def)

text \<open>The last live node is never taken out of the pool by failed polls or by a stalled head:
  with fewer than two live nodes the alive loop stays in its select, and with no live node a
  quiet out-of-sync node is put back.\<close>

theorem last_live_node_kept:
  assumes "fewer_live live 2" and "cfg_ok cfg"
  shows "lc_step rnd cfg (EvPoll ok live) (AliveSelect f h) n \<in>
           {None} \<union> {goto (AliveSelect f' h) n |f'. True}
     \<and> lc_step rnd cfg (EvTimer live) (AliveSelect f h) n \<in> {None, goto (AliveSelect f h) n}
     \<and> lc_step rnd cfg (EvTimer (Some 0)) (OosSelect k) n = goto (Declaring DInSync) n"
proof -
  obtain r where "zombieNodeCheckInterval rnd cfg = Ret r" using zombie_Ret [OF assms(2)] by blast
  then show ?thesis
    using assms(1) by (auto simp: Let_def goto_def outOfSync_select_def fewer_live_def)
qed

theorem last_live_node_kept_witness:
  "lc_step (\<lambda>_. 0) \<lparr>NodeNoNewHeadsThreshold = 30, NodePollFailureThreshold = 1, NodePollInterval = 10\<rparr>
     (EvTimer (Some 1)) (AliveSelect 0 5) (NewNode ''a'' 1 False)
   = goto (AliveSelect 0 5) (NewNode ''a'' 1 False)"
  using last_live_node_kept [of "Some 1" "\<lparr>NodeNoNewHeadsThreshold = 30,
      NodePollFailureThreshold = 1, NodePollInterval = 10\<rparr>" "\<lambda>_. 0" True 0 5 "NewNode ''a'' 1 False" 0]
  by (auto simp: fewer_live_def cfg_ok_def goto_def zombieNodeCheckInterval_def WithJitter_def
      Intn_def go_quot_def queryTimeout_def)

text \<open>\<open>Close\<close> races with the loops. If it runs between the redial of an unreachable node and
  \<open>setState(NodeStateDialed)\<close>, the node ends \<open>Unreachable\<close> instead of \<open>Closed\<close>; if it runs right
  after \<open>setState\<close>, \<open>verify\<close> panics in state \<open>Closed\<close>.\<close>

theorem close_race:
  "\<exists>s t. lc_reachable rnd cfg s \<and> close_called s \<and> routines s = [UnrSelect]
       \<and> state (sys_node s) = NodeStateUnreachable \<and> nodeCtxDone (sys_node s)
     \<and> lc_reachable rnd cfg t \<and> close_called t \<and> lc_panic t = Some ''cannot verify node in state Closed''"
proof -
  let ?redial = "[MSchedule, MRun EvGo, MRun (EvDial True True)]"
  let ?run = "\<lambda>ms. lc_schedule_run rnd cfg (?redial @ ms) unreachable_at_start"
  note E = unreachable_at_start_eval lc_init_def NewNode_def lc_step_defs dial_def node_Close_def
    conn_defs Let_def setState_def verify_def declare_defs transition_defs
  obtain s where s: "?run [MClose, MRun EvGo, MRun (EvVerify None None), MRun EvGo, MSchedule, MRun EvGo] = Some s"
      "close_called s" "routines s = [UnrSelect]" "state (sys_node s) = NodeStateUnreachable"
      "nodeCtxDone (sys_node s)"
    by (simp add: E)
  obtain t where t: "?run [MRun EvGo, MClose, MRun (EvVerify None None)] = Some t"
      "close_called t" "lc_panic t = Some ''cannot verify node in state Closed''"
    by (simp add: E)
  show ?thesis
    using s t lc_schedule_run_reachable unreachable_at_start_reachable by blast
qed

text \<open>\<open>WithJitter\<close> lengthens a duration by up to a tenth and never shortens it; below five
  nanoseconds it panics.\<close>

theorem jitter_never_shortens:
  assumes "rnd_ok rnd"
  shows "(5 \<le> d \<longrightarrow> (\<exists>r. WithJitter rnd d = Ret r \<and> d \<le> r \<and> r \<le> d + d div 10))
     \<and> (0 < d \<and> d < 5 \<longrightarrow> panics (WithJitter rnd d))"
  using WithJitter_pos [OF _ assms] by (auto simp: WithJitter_def Intn_def go_quot_pos)

theorem jitter_never_shortens_witness:
  "WithJitter (\<lambda>m. m - 1) 100 = Ret 110 \<and> panics (WithJitter (\<lambda>m. m - 1) 4)"
proof -
  have "rnd_ok (\<lambda>m. m - 1)" by (simp add: rnd_ok_def)
  from jitter_never_shortens [OF this, of 4] show ?thesis
    by (simp add: WithJitter_def Intn_def go_quot_def)
qed

text \<open>The transition to \<open>InvalidChainID\<close> closes the websocket client and the loop that follows
  never redials. If a closed client answers no call, the loop's first check fails, and the node
  becomes unreachable: it is never re-checked twice, and never goes straight back to alive.\<close>

theorem invalid_chain_never_rechecked:
  assumes "declareInvalidChainID n = Ret n1" and "state n \<noteq> NodeStateClosed" and "ws_rpc n \<noteq> None"
    and "\<And>w h. answers n1 = (w, h) \<Longrightarrow> ws_rpc n1 = Some ConnClosed \<Longrightarrow> w = None"
  shows "ws_rpc n1 = Some ConnClosed \<and> spawned n1 = spawned n @ [InvalidChainIDLoop]
     \<and> lc_events rnd cfg [EvGo, EvTimer live, case_prod EvVerify (answers n1)] InvEntry n1
         = goto (Declaring DUnreachable) n1"
proof -
  have st: "state n1 = NodeStateInvalidChainID" and ws: "ws_rpc n1 = Some ConnClosed"
    and sp: "spawned n1 = spawned n @ [InvalidChainIDLoop]"
    using assms(1,2,3) by (auto simp: declare_defs transition_defs conn_defs split: if_splits)
  obtain w h where wh: "answers n1 = (w, h)" by (cases "answers n1")
  with assms(4) ws have "w = None" by blast
  with st ws sp wh show ?thesis
    by (simp add: lc_events.simps lc_step_defs verify_def)
qed

theorem invalid_chain_never_rechecked_witness:
  "let n = (NewNode ''a'' 1 True)\<lparr>state := NodeStateDialed, ws_rpc := Some ConnOpen\<rparr>;
       n1 = (case declareInvalidChainID n of Ret m \<Rightarrow> m | Panic _ \<Rightarrow> n)
   in lc_events (\<lambda>_. 0) some_cfg [EvGo, EvTimer None, EvVerify None (Some 1)] InvEntry n1
        = goto (Declaring DUnreachable) n1"
proof -
  let ?n = "(NewNode ''a'' 1 True)\<lparr>state := NodeStateDialed, ws_rpc := Some ConnOpen\<rparr>"
  let ?ans = "\<lambda>n :: node. (if ws_rpc n = Some ConnClosed then None else Some (1 :: int), Some (1 :: int))"
  obtain n1 where n1: "declareInvalidChainID ?n = Ret n1" "ws_rpc n1 = Some ConnClosed"
    by (simp add: declare_defs transition_defs conn_defs)
  from invalid_chain_never_rechecked [OF n1(1), of ?ans "\<lambda>_. 0" some_cfg None] n1 show ?thesis
    by (simp add: NewNode_def)
qed

end
