(* ===== verification/Mailbox.thy ===== *)
theory Mailbox
  imports Prelude
begin

text \<open>
  \<open>core/utils/mailbox.go\<close>: the bounded queue between the head tracker, the head and log
  broadcasters and the gas estimator. The newest item is at the front of \<open>queue\<close>; the notify
  channel has one slot, so it is a flag. The interface the clients rely on is the locale
  \<open>mailbox_spec\<close>, interpreted on the model at the end.
\<close>

record 'a Mailbox =
  chNotify :: bool
  queue :: "'a list"
  capacity :: nat

definition NewMailbox :: "nat \<Rightarrow> 'a Mailbox" where
  "NewMailbox cap = \<lparr>chNotify = False, queue = [], capacity = cap\<rparr>"

definition NewHighCapacityMailbox :: "'a Mailbox" where
  "NewHighCapacityMailbox = NewMailbox 100000"

text \<open>A receive on \<open>Notify()\<close>: possible when the slot is full, and it empties the slot.\<close>

definition receive_notify :: "'a Mailbox \<Rightarrow> 'a Mailbox option" where
  "receive_notify m = (if chNotify m then Some (m\<lparr>chNotify := False\<rparr>) else None)"

definition Deliver :: "'a Mailbox \<Rightarrow> 'a \<Rightarrow> bool \<times> 'a Mailbox" where
  "Deliver m x =
     (let q = x # queue m;
          wasOverCapacity = (length q > capacity m \<and> capacity m > 0);
          q' = (if wasOverCapacity then take (length q - 1) q else q)
      in (wasOverCapacity, m\<lparr>queue := q', chNotify := True\<rparr>))"

definition Retrieve :: "'a Mailbox \<Rightarrow> 'a option \<times> 'a Mailbox" where
  "Retrieve m =
     (if length (queue m) = 0 then (None, m)
      else (Some (queue m ! (length (queue m) - 1)),
            m\<lparr>queue := take (length (queue m) - 1) (queue m)\<rparr>))"

definition RetrieveAll :: "'a Mailbox \<Rightarrow> 'a list \<times> 'a Mailbox" where
  "RetrieveAll m = (rev (queue m), m\<lparr>queue := []\<rparr>)"

definition RetrieveLatestAndClear :: "'a Mailbox \<Rightarrow> 'a option \<times> 'a Mailbox" where
  "RetrieveLatestAndClear m =
     (if length (queue m) = 0 then (None, m) else (Some (queue m ! 0), m\<lparr>queue := []\<rparr>))"

text \<open>The items waiting, oldest first.\<close>

definition waiting :: "'a Mailbox \<Rightarrow> 'a list" where
  "waiting m = rev (queue m)"

fun deliver_all :: "'a Mailbox \<Rightarrow> 'a list \<Rightarrow> 'a Mailbox" where
  "deliver_all m [] = m"
| "deliver_all m (x # xs) = deliver_all (snd (Deliver m x)) xs"

text \<open>The receiving loops call \<open>Retrieve\<close> until it finds nothing.\<close>

function drain :: "'a Mailbox \<Rightarrow> 'a list" where
  "drain m = (case Retrieve m of (None, _) \<Rightarrow> [] | (Some x, m') \<Rightarrow> x # drain m')"
  by pat_completeness auto
termination
  by (relation "measure (\<lambda>m. length (queue m))") (auto simp: Retrieve_def split: if_splits)

declare drain.simps [simp del]

section \<open>The interface\<close>

locale mailbox_spec =
  fixes deliver :: "'m \<Rightarrow> 'a \<Rightarrow> bool \<times> 'm"
    and retrieve :: "'m \<Rightarrow> 'a option \<times> 'm"
    and latest :: "'m \<Rightarrow> 'a option \<times> 'm"
    and items :: "'m \<Rightarrow> 'a list"
    and limit :: "'m \<Rightarrow> nat"
  assumes deliver_flag:
      "fst (deliver m x) \<longleftrightarrow> limit m > 0 \<and> length (items m) \<ge> limit m"
    and deliver_items:
      "items (snd (deliver m x)) = (if fst (deliver m x) then tl (items m @ [x]) else items m @ [x])"
    and deliver_limit: "limit (snd (deliver m x)) = limit m"
    and retrieve_item: "fst (retrieve m) = (if items m = [] then None else Some (hd (items m)))"
    and retrieve_items: "items (snd (retrieve m)) = tl (items m)"
    and latest_item: "fst (latest m) = (if items m = [] then None else Some (last (items m)))"
    and latest_items: "items (snd (latest m)) = []"
begin

definition send :: "'m \<Rightarrow> 'a list \<Rightarrow> 'm" where
  "send = foldl (\<lambda>m x. snd (deliver m x))"

lemma send_Nil [simp]: "send m [] = m"
  by (simp add: send_def)

lemma send_Cons [simp]: "send m (x # xs) = send (snd (deliver m x)) xs"
  by (simp add: send_def)

lemma send_limit [simp]: "limit (send m xs) = limit m"
  by (induction xs arbitrary: m) (simp_all add: deliver_limit)

lemma bounded_deliver:
  "0 < limit m \<Longrightarrow> length (items m) \<le> limit m \<Longrightarrow> length (items (snd (deliver m x))) \<le> limit m"
  using deliver_flag [of m x] by (auto simp: deliver_items)

text \<open>A full mailbox forgets its oldest items: the last \<open>limit\<close> items sent remain, in order.\<close>

lemma items_send:
  "0 < limit m \<Longrightarrow> length (items m) \<le> limit m \<Longrightarrow>
     items (send m xs) = drop (length (items m @ xs) - limit m) (items m @ xs)"
proof (induction xs arbitrary: m)
  case Nil
  then show ?case by simp
next
  case (Cons x xs)
  let ?m = "snd (deliver m x)"
  have "items (send ?m xs) = drop (length (items ?m @ xs) - limit m) (items ?m @ xs)"
    using Cons.IH [of ?m] bounded_deliver [of m x] Cons.prems by (simp add: deliver_limit)
  also have "\<dots> = drop (length (items m @ x # xs) - limit m) (items m @ x # xs)"
    using deliver_flag [of m x] Cons.prems
    by (cases "items m") (auto simp: deliver_items drop_Cons' Suc_diff_le)
  finally show ?case by simp
qed

lemma items_send_unbounded: "limit m = 0 \<Longrightarrow> items (send m xs) = items m @ xs"
  by (induction xs arbitrary: m) (simp_all add: deliver_items deliver_limit deliver_flag)

lemma items_send_last:
  assumes "xs \<noteq> []" and "0 < limit m \<Longrightarrow> length (items m) \<le> limit m"
  shows "items (send m xs) \<noteq> [] \<and> last (items (send m xs)) = last xs"
proof (cases "limit m = 0")
  case True
  with assms(1) show ?thesis by (simp add: items_send_unbounded)
next
  case False
  with assms have eq: "items (send m xs) = drop (length (items m @ xs) - limit m) (items m @ xs)"
    by (simp add: items_send)
  have "length (items m @ xs) - limit m < length (items m @ xs)"
    using assms(1) False by (cases xs) simp_all
  with assms(1) show ?thesis by (simp add: eq last_drop del: drop_append length_append)
qed

lemma latest_send:
  "xs \<noteq> [] \<Longrightarrow> (0 < limit m \<Longrightarrow> length (items m) \<le> limit m) \<Longrightarrow>
     fst (latest (send m xs)) = Some (last xs)"
  using items_send_last by (simp add: latest_item)

end

section \<open>The model provides it\<close>

interpretation mb: mailbox_spec Deliver Retrieve RetrieveLatestAndClear waiting capacity
  by unfold_locales
    (auto simp: Deliver_def Retrieve_def RetrieveLatestAndClear_def waiting_def Let_def
      hd_conv_nth last_conv_nth rev_nth)

lemma deliver_all_send: "deliver_all m xs = mb.send m xs"
  by (induction xs arbitrary: m) simp_all

lemma NewMailbox_empty [simp]: "waiting (NewMailbox cap) = []" "capacity (NewMailbox cap) = cap"
  by (simp_all add: waiting_def NewMailbox_def)

lemma drain_waiting: "drain m = waiting m"
proof (induction "length (waiting m)" arbitrary: m)
  case 0
  then show ?case by (simp add: drain.simps [of m] Retrieve_def waiting_def)
next
  case (Suc n)
  obtain r m' where r: "Retrieve m = (r, m')" by (cases "Retrieve m")
  with mb.retrieve_item [of m] mb.retrieve_items [of m] Suc.hyps(2)
  have "r = Some (hd (waiting m))" and w: "waiting m' = tl (waiting m)" and "waiting m \<noteq> []"
    by (auto split: if_splits)
  with r Suc show ?case by (simp add: drain.simps [of m])
qed

text \<open>A mailbox of capacity \<open>cap\<close> hands out the last \<open>cap\<close> items delivered, oldest first; one
  with capacity 0 hands out all of them.\<close>

theorem mailbox_keeps_newest:
  "drain (deliver_all (NewMailbox cap) xs) = (if cap = 0 then xs else drop (length xs - cap) xs)"
  using mb.items_send [of "NewMailbox cap" xs] mb.items_send_unbounded [of "NewMailbox cap" xs]
  by (simp add: drain_waiting deliver_all_send)

text \<open>\<open>Deliver\<close> reports an overflow exactly when it drops the oldest item, the newest item
  delivered is always the one \<open>RetrieveLatestAndClear\<close> returns, and the receiver is notified.\<close>

theorem mailbox_latest:
  "fst (RetrieveLatestAndClear (snd (Deliver (deliver_all (NewMailbox cap) xs) x))) = Some x
   \<and> chNotify (snd (Deliver m x))
   \<and> (fst (Deliver (deliver_all (NewMailbox cap) xs) x) \<longleftrightarrow> 0 < cap \<and> cap \<le> length xs)"
proof -
  let ?m = "deliver_all (NewMailbox cap) xs"
  have len: "0 < cap \<Longrightarrow> length (waiting ?m) = min cap (length xs)"
    using mb.items_send [of "NewMailbox cap" xs] by (simp add: deliver_all_send)
  have "snd (Deliver ?m x) = mb.send ?m [x]" by simp
  then have "fst (RetrieveLatestAndClear (snd (Deliver ?m x))) = Some x"
    using mb.latest_send [of "[x]" ?m] len by (simp add: deliver_all_send)
  moreover have "fst (Deliver ?m x) \<longleftrightarrow> 0 < cap \<and> cap \<le> length xs"
    using mb.deliver_flag [of ?m x] len by (auto simp: deliver_all_send)
  moreover have "chNotify (snd (Deliver m x))" by (simp add: Deliver_def Let_def)
  ultimately show ?thesis by blast
qed

end
