(* ===== verification/Pool.thy ===== *)
theory Pool
  imports NodeFSM
begin

text \<open>
  \<open>core/chains/evm/client/pool.go\<close> with its two node selectors and the \<open>MultiStart\<close> and
  \<open>MultiClose\<close> of \<open>core/services/multi.go\<close> that it starts and closes its nodes with. A node is
  a number (the identity of its pointer); what \<open>StateAndLatestBlockNumber\<close> answers for each node
  at the moment of a call is the argument \<open>view\<close>. The contract of a selector is the locale
  \<open>node_selector\<close>, interpreted on both selectors and on the choice between them.
\<close>

type_synonym node_view = "nat \<Rightarrow> NodeState \<times> int"

section \<open>Starting and closing several services\<close>

text \<open>The calls made, in order, and the services that \<open>MultiStart\<close> has started.\<close>

datatype svc_op = SvcStart nat | SvcClose nat

record MultiStart =
  ms_started :: "nat list"
  ms_ops :: "svc_op list"

definition MultiStart_Close :: "MultiStart \<Rightarrow> MultiStart" where
  "MultiStart_Close m = m\<lparr>ms_ops := ms_ops m @ map SvcClose (rev (ms_started m))\<rparr>"

definition MultiStart_start :: "(nat \<Rightarrow> bool) \<Rightarrow> nat \<Rightarrow> MultiStart \<Rightarrow> bool \<times> MultiStart" where
  "MultiStart_start start_ok s m =
     (let m1 = m\<lparr>ms_ops := ms_ops m @ [SvcStart s]\<rparr>
      in if \<not> start_ok s then (False, MultiStart_Close m1)
         else (True, m1\<lparr>ms_started := ms_started m1 @ [s]\<rparr>))"

fun MultiStart_Start :: "(nat \<Rightarrow> bool) \<Rightarrow> nat list \<Rightarrow> MultiStart \<Rightarrow> bool \<times> MultiStart" where
  "MultiStart_Start start_ok [] m = (True, m)"
| "MultiStart_Start start_ok (s # ss) m =
     (case MultiStart_start start_ok s m of
        (False, m1) \<Rightarrow> (False, m1)
      | (True, m1) \<Rightarrow> MultiStart_Start start_ok ss m1)"

text \<open>\<open>MultiClose\<close> closes concurrently and keeps every error; the errors come in any order.\<close>

definition MultiClose_Close :: "(nat \<Rightarrow> 'e option) \<Rightarrow> nat list \<Rightarrow> 'e multiset \<times> nat multiset" where
  "MultiClose_Close close_err mc =
     (mset (List.map_filter close_err mc), mset mc)"

text \<open>The services running after a sequence of calls.\<close>

fun running_after :: "svc_op list \<Rightarrow> (nat \<Rightarrow> bool) \<Rightarrow> nat set \<Rightarrow> nat set" where
  "running_after [] ok r = r"
| "running_after (SvcStart s # ops) ok r = running_after ops ok (if ok s then insert s r else r)"
| "running_after (SvcClose s # ops) ok r = running_after ops ok (r - {s})"

section \<open>Selectors\<close>

record highestHeadNodeSelector =
  hh_nodes :: "nat list"
  lastBestNode :: "nat option"

definition NewHighestHeadNodeSelector :: "nat list \<Rightarrow> highestHeadNodeSelector" where
  "NewHighestHeadNodeSelector ns = \<lparr>hh_nodes = ns, lastBestNode = None\<rparr>"

fun hh_loop :: "node_view \<Rightarrow> nat option \<Rightarrow> nat list \<Rightarrow> nat option \<times> int \<Rightarrow> nat option \<times> int" where
  "hh_loop view skip [] best = best"
| "hh_loop view skip (n # ns) (node, highest) =
     (if Some n = skip then hh_loop view skip ns (node, highest)
      else
        (let (st, latest) = view n
         in hh_loop view skip ns
              (if st = NodeStateAlive \<and> latest > highest then (Some n, latest) else (node, highest))))"

definition hh_Select :: "node_view \<Rightarrow> highestHeadNodeSelector
    \<Rightarrow> nat option \<times> highestHeadNodeSelector" where
  "hh_Select view s =
     (let start =
            (case lastBestNode s of
               None \<Rightarrow> (None, MinInt64)
             | Some b \<Rightarrow>
                 (let (st, latest) = view b
                  in if st = NodeStateAlive then (Some b, latest) else (None, MinInt64)));
          (node, _) = hh_loop view (lastBestNode s) (hh_nodes s) start
      in (node, s\<lparr>lastBestNode := node\<rparr>))"

record roundRobinSelector =
  rr_nodes :: "nat list"
  roundRobinCount :: "32 word"

definition NewRoundRobinSelector :: "nat list \<Rightarrow> roundRobinSelector" where
  "NewRoundRobinSelector ns = \<lparr>rr_nodes = ns, roundRobinCount = 0\<rparr>"

definition live_nodes :: "node_view \<Rightarrow> nat list \<Rightarrow> nat list" where
  "live_nodes view ns = filter (\<lambda>n. fst (view n) = NodeStateAlive) ns"

definition rr_Select :: "node_view \<Rightarrow> roundRobinSelector \<Rightarrow> nat option \<times> roundRobinSelector" where
  "rr_Select view s =
     (let liveNodes = live_nodes view (rr_nodes s); nNodes = length liveNodes
      in if nNodes = 0 then (None, s)
         else
           (let c = roundRobinCount s + 1; count = c - 1; idx = unat (count mod of_nat nNodes)
            in (Some (liveNodes ! idx), s\<lparr>roundRobinCount := c\<rparr>)))"

datatype NodeSelector =
    HighestHead highestHeadNodeSelector
  | RoundRobin roundRobinSelector

fun selector_Select :: "node_view \<Rightarrow> NodeSelector \<Rightarrow> nat option \<times> NodeSelector" where
  "selector_Select view (HighestHead s) = (let (n, s') = hh_Select view s in (n, HighestHead s'))"
| "selector_Select view (RoundRobin s) = (let (n, s') = rr_Select view s in (n, RoundRobin s'))"

fun selector_Name :: "NodeSelector \<Rightarrow> string" where
  "selector_Name (HighestHead s) = ''HighestHead''"
| "selector_Name (RoundRobin s) = ''RoundRobin''"

section \<open>The contract of a selector\<close>

definition view_ok :: "node_view \<Rightarrow> bool" where
  "view_ok view \<longleftrightarrow> (\<forall>n. MinInt64 < snd (view n))"

locale node_selector =
  fixes select :: "node_view \<Rightarrow> 's \<Rightarrow> nat option \<times> 's"
    and pool_nodes :: "'s \<Rightarrow> nat list"
    and ok :: "'s \<Rightarrow> bool"
  assumes select_ok: "ok s \<Longrightarrow> ok (snd (select view s))"
    and select_nodes: "pool_nodes (snd (select view s)) = pool_nodes s"
    and select_live: "ok s \<Longrightarrow> fst (select view s) = Some n
          \<Longrightarrow> n \<in> set (pool_nodes s) \<and> fst (view n) = NodeStateAlive"
    and select_none: "ok s \<Longrightarrow> view_ok view \<Longrightarrow> fst (select view s) = None
          \<Longrightarrow> live_nodes view (pool_nodes s) = []"
begin

fun select_all :: "node_view list \<Rightarrow> 's \<Rightarrow> nat option list \<times> 's" where
  "select_all [] s = ([], s)"
| "select_all (v # vs) s =
     (let (n, s1) = select v s; (ns, s2) = select_all vs s1 in (n # ns, s2))"

lemma select_all_nodes: "pool_nodes (snd (select_all vs s)) = pool_nodes s"
  using select_nodes by (induction vs arbitrary: s) (auto simp: split_beta Let_def)

lemma select_all_ok: "ok s \<Longrightarrow> ok (snd (select_all vs s))"
  using select_ok by (induction vs arbitrary: s) (auto simp: split_beta Let_def)

text \<open>However the nodes come and go, each call answers for the nodes as they are then.\<close>

lemma select_all_sound:
  "ok s \<Longrightarrow> list_all view_ok vs \<Longrightarrow>
     list_all2 (\<lambda>v r. case r of
         Some n \<Rightarrow> n \<in> set (live_nodes v (pool_nodes s))
       | None \<Rightarrow> live_nodes v (pool_nodes s) = []) vs (fst (select_all vs s))"
proof (induction vs arbitrary: s)
  case Nil
  then show ?case by simp
next
  case (Cons v vs)
  let ?r = "fst (select v s)" and ?s1 = "snd (select v s)"
  have "case ?r of Some n \<Rightarrow> n \<in> set (live_nodes v (pool_nodes s))
      | None \<Rightarrow> live_nodes v (pool_nodes s) = []"
    using Cons.prems select_live [of s v] select_none [of s v]
    by (auto simp: live_nodes_def split: option.split)
  moreover have "list_all2 (\<lambda>v r. case r of Some n \<Rightarrow> n \<in> set (live_nodes v (pool_nodes s))
      | None \<Rightarrow> live_nodes v (pool_nodes s) = []) vs (fst (select_all vs ?s1))"
    using Cons.IH [of ?s1] Cons.prems select_ok [of s v] by (simp add: select_nodes)
  ultimately show ?case by (simp add: split_beta Let_def)
qed

end

section \<open>The selectors fulfil it\<close>

text \<open>What the loop of the highest-head selector keeps of its candidate.\<close>

lemma hh_loop_candidate:
  assumes "hh_loop view skip ns (node, h) = (r, h')"
    and "\<And>b. node = Some b \<Longrightarrow> fst (view b) = NodeStateAlive \<and> snd (view b) = h"
  shows "(r = node \<and> h' = h \<or> h < h' \<and> r \<noteq> None)
     \<and> (\<forall>b. r = Some b \<longrightarrow> (b \<in> set ns \<or> node = Some b) \<and> fst (view b) = NodeStateAlive \<and> snd (view b) = h')
     \<and> (\<forall>n\<in>set ns. Some n \<noteq> skip \<longrightarrow> fst (view n) = NodeStateAlive \<longrightarrow> snd (view n) \<le> h')"
  using assms
proof (induction ns arbitrary: node h)
  case Nil
  then show ?case by auto
next
  case (Cons n ns)
  show ?case
  proof (cases "Some n \<noteq> skip \<and> fst (view n) = NodeStateAlive \<and> snd (view n) > h")
    case True
    then have "hh_loop view skip ns (Some n, snd (view n)) = (r, h')"
      using Cons.prems(1) by (auto simp: split_beta)
    then have IH: "hh_loop view skip ns (Some n, snd (view n)) = (r, h')" .
    have c: "Some n = Some b \<Longrightarrow> fst (view b) = NodeStateAlive \<and> snd (view b) = snd (view n)" for b
      using True by simp
    from Cons.IH [OF IH c] True show ?thesis by auto
  next
    case False
    then have "hh_loop view skip ns (node, h) = (r, h')"
      using Cons.prems(1) by (auto simp: split_beta split: if_splits)
    from Cons.IH [OF this Cons.prems(2)] False show ?thesis by auto
  qed
qed

definition hh_ok :: "highestHeadNodeSelector \<Rightarrow> bool" where
  "hh_ok s \<longleftrightarrow> (case lastBestNode s of None \<Rightarrow> True | Some b \<Rightarrow> b \<in> set (hh_nodes s))"

definition hh_start :: "node_view \<Rightarrow> highestHeadNodeSelector \<Rightarrow> nat option \<times> int" where
  "hh_start view s =
     (case lastBestNode s of
        Some b \<Rightarrow> if fst (view b) = NodeStateAlive then (Some b, snd (view b)) else (None, MinInt64)
      | None \<Rightarrow> (None, MinInt64))"

lemma hh_Select_loop:
  "hh_Select view s =
     (fst (hh_loop view (lastBestNode s) (hh_nodes s) (hh_start view s)),
      s\<lparr>lastBestNode := fst (hh_loop view (lastBestNode s) (hh_nodes s) (hh_start view s))\<rparr>)"
  by (auto simp: hh_Select_def hh_start_def Let_def split_beta split: option.split)

lemma hh_start_cases:
  assumes "hh_start view s = (node, h)"
  shows "\<And>b. node = Some b \<Longrightarrow> lastBestNode s = Some b \<and> fst (view b) = NodeStateAlive \<and> snd (view b) = h"
    and "node = None \<Longrightarrow> h = MinInt64 \<and> (\<forall>b. lastBestNode s = Some b \<longrightarrow> fst (view b) \<noteq> NodeStateAlive)"
  using assms by (auto simp: hh_start_def split: option.splits if_splits)

lemma hh_Select_best:
  assumes "hh_ok s"
  shows "fst (hh_Select view s) = Some b \<Longrightarrow> b \<in> set (hh_nodes s) \<and> fst (view b) = NodeStateAlive
       \<and> (\<forall>n\<in>set (hh_nodes s). fst (view n) = NodeStateAlive \<longrightarrow> snd (view n) \<le> snd (view b))
       \<and> (\<forall>c. lastBestNode s = Some c \<longrightarrow> fst (view c) = NodeStateAlive \<longrightarrow> c \<noteq> b
            \<longrightarrow> snd (view c) < snd (view b))"
    and "view_ok view \<Longrightarrow> fst (hh_Select view s) = None \<Longrightarrow> live_nodes view (hh_nodes s) = []"
proof -
  obtain node h where st: "hh_start view s = (node, h)" by (cases "hh_start view s")
  obtain r h' where lp: "hh_loop view (lastBestNode s) (hh_nodes s) (node, h) = (r, h')"
    by (cases "hh_loop view (lastBestNode s) (hh_nodes s) (node, h)")
  have r: "fst (hh_Select view s) = r" by (simp add: hh_Select_loop st lp)
  note S = hh_start_cases [OF st]
  have c: "node = Some b \<Longrightarrow> fst (view b) = NodeStateAlive \<and> snd (view b) = h" for b
    using S(1) by simp
  note L = hh_loop_candidate [OF lp c]
  have L': "r = node \<and> h' = h \<or> h < h' \<and> r \<noteq> None"
    "\<And>b. r = Some b \<Longrightarrow> (b \<in> set (hh_nodes s) \<or> node = Some b) \<and> fst (view b) = NodeStateAlive \<and> snd (view b) = h'"
    "\<And>n. n \<in> set (hh_nodes s) \<Longrightarrow> Some n \<noteq> lastBestNode s \<Longrightarrow> fst (view n) = NodeStateAlive \<Longrightarrow> snd (view n) \<le> h'"
    using L by simp_all
  have last: "lastBestNode s = Some c \<Longrightarrow> fst (view c) = NodeStateAlive \<Longrightarrow> node = Some c \<and> snd (view c) = h" for c
    using st by (auto simp: hh_start_def split: option.splits if_splits)
  show "b \<in> set (hh_nodes s) \<and> fst (view b) = NodeStateAlive
       \<and> (\<forall>n\<in>set (hh_nodes s). fst (view n) = NodeStateAlive \<longrightarrow> snd (view n) \<le> snd (view b))
       \<and> (\<forall>c. lastBestNode s = Some c \<longrightarrow> fst (view c) = NodeStateAlive \<longrightarrow> c \<noteq> b
            \<longrightarrow> snd (view c) < snd (view b))"
    if "fst (hh_Select view s) = Some b"
  proof -
    have rb: "r = Some b" using that r by simp
    have alive: "fst (view b) = NodeStateAlive" "snd (view b) = h'" using L'(2) [OF rb] by simp_all
    have "b \<in> set (hh_nodes s)"
      using L'(2) [OF rb] S(1) [of b] assms by (auto simp: hh_ok_def)
    moreover have "snd (view n) \<le> h'" if "n \<in> set (hh_nodes s)" "fst (view n) = NodeStateAlive" for n
      using L'(1) L'(3) [of n] last [of n] that by (cases "Some n = lastBestNode s") auto
    moreover have "snd (view c) < h'"
      if "lastBestNode s = Some c" "fst (view c) = NodeStateAlive" "c \<noteq> b" for c
      using last [OF that(1,2)] L'(1) rb that(3) by auto
    ultimately show ?thesis using alive by blast
  qed
  show "live_nodes view (hh_nodes s) = []" if v: "view_ok view" and n: "fst (hh_Select view s) = None"
  proof -
    have "r = None" using n r by simp
    with L'(1) have "node = None" "h' = h" by auto
    with S(2) have h: "h' = MinInt64"
      and dead: "\<And>b. lastBestNode s = Some b \<Longrightarrow> fst (view b) \<noteq> NodeStateAlive" by auto
    have "fst (view n) \<noteq> NodeStateAlive" if "n \<in> set (hh_nodes s)" for n
    proof -
      have "MinInt64 < snd (view n)" using v by (simp add: view_ok_def)
      then show ?thesis
        using L'(3) [OF that] dead [of n] h by (cases "Some n = lastBestNode s") auto
    qed
    then show ?thesis by (simp add: live_nodes_def filter_empty_conv)
  qed
qed

interpretation hh: node_selector hh_Select hh_nodes hh_ok
proof unfold_locales
  fix s view n
  show "hh_ok s \<Longrightarrow> hh_ok (snd (hh_Select view s))"
    using hh_Select_best(1) [of s view]
    by (cases "fst (hh_Select view s)") (auto simp: hh_Select_loop hh_ok_def)
  show "hh_nodes (snd (hh_Select view s)) = hh_nodes s" by (simp add: hh_Select_loop)
  show "hh_ok s \<Longrightarrow> fst (hh_Select view s) = Some n
      \<Longrightarrow> n \<in> set (hh_nodes s) \<and> fst (view n) = NodeStateAlive"
    using hh_Select_best(1) by blast
  show "hh_ok s \<Longrightarrow> view_ok view \<Longrightarrow> fst (hh_Select view s) = None
      \<Longrightarrow> live_nodes view (hh_nodes s) = []"
    by (rule hh_Select_best(2))
qed

definition rr_ok :: "roundRobinSelector \<Rightarrow> bool" where
  "rr_ok s \<longleftrightarrow> length (rr_nodes s) < 2 ^ 32"

lemma rr_index:
  assumes "0 < k" "k < 2 ^ 32"
  shows "unat ((c :: 32 word) mod of_nat k) = unat c mod k"
  using assms by (simp add: unat_mod_distrib unsigned_of_nat take_bit_nat_eq_self)

lemma rr_Select_some:
  assumes "rr_ok s" "live_nodes view (rr_nodes s) \<noteq> []"
  shows "fst (rr_Select view s) =
    Some (live_nodes view (rr_nodes s) ! (unat (roundRobinCount s) mod length (live_nodes view (rr_nodes s))))"
proof -
  have "length (live_nodes view (rr_nodes s)) < 2 ^ 32"
    using assms(1) le_less_trans [OF length_filter_le] by (simp add: live_nodes_def rr_ok_def)
  with assms(2) show ?thesis by (simp add: rr_Select_def Let_def rr_index)
qed

interpretation rr: node_selector rr_Select rr_nodes rr_ok
proof unfold_locales
  fix s view n
  show "rr_ok s \<Longrightarrow> rr_ok (snd (rr_Select view s))" by (simp add: rr_Select_def rr_ok_def Let_def)
  show "rr_nodes (snd (rr_Select view s)) = rr_nodes s" by (simp add: rr_Select_def Let_def)
  show "n \<in> set (rr_nodes s) \<and> fst (view n) = NodeStateAlive"
    if "rr_ok s" "fst (rr_Select view s) = Some n"
  proof -
    let ?l = "live_nodes view (rr_nodes s)"
    have ne: "?l \<noteq> []" using that(2) by (auto simp: rr_Select_def Let_def)
    with that rr_Select_some have "n = ?l ! (unat (roundRobinCount s) mod length ?l)" by simp
    with ne have "n \<in> set ?l" by simp
    then show ?thesis by (simp add: live_nodes_def)
  qed
  show "fst (rr_Select view s) = None \<Longrightarrow> live_nodes view (rr_nodes s) = []"
    by (simp add: rr_Select_def Let_def split: if_splits)
qed

fun selector_nodes :: "NodeSelector \<Rightarrow> nat list" where
  "selector_nodes (HighestHead s) = hh_nodes s"
| "selector_nodes (RoundRobin s) = rr_nodes s"

fun selector_ok :: "NodeSelector \<Rightarrow> bool" where
  "selector_ok (HighestHead s) = hh_ok s"
| "selector_ok (RoundRobin s) = rr_ok s"

interpretation sel: node_selector selector_Select selector_nodes selector_ok
proof unfold_locales
  fix s :: NodeSelector and view n
  show "selector_ok s \<Longrightarrow> selector_ok (snd (selector_Select view s))"
    by (cases s) (simp_all add: split_beta hh.select_ok rr.select_ok)
  show "selector_nodes (snd (selector_Select view s)) = selector_nodes s"
    by (cases s) (simp_all add: split_beta hh.select_nodes rr.select_nodes)
  show "selector_ok s \<Longrightarrow> fst (selector_Select view s) = Some n
      \<Longrightarrow> n \<in> set (selector_nodes s) \<and> fst (view n) = NodeStateAlive"
    using hh.select_live rr.select_live by (cases s) (simp_all add: split_beta)
  show "selector_ok s \<Longrightarrow> view_ok view \<Longrightarrow> fst (selector_Select view s) = None
      \<Longrightarrow> live_nodes view (selector_nodes s) = []"
    using hh.select_none rr.select_none by (cases s) (simp_all add: split_beta)
qed

section \<open>The pool\<close>

record Pool =
  nodes :: "(nat \<times> int) list"
  sendonlys :: "(nat \<times> int) list"
  pool_chainID :: int
  nodeSelector :: NodeSelector

definition NewPool :: "string \<Rightarrow> int \<Rightarrow> (nat \<times> int) list \<Rightarrow> (nat \<times> int) list \<Rightarrow> int option \<Rightarrow> Pool run" where
  "NewPool mode threshold ns so cid =
     (case cid of
        None \<Rightarrow> Panic ''chainID is required''
      | Some c \<Rightarrow>
          run_map
            (\<lambda>sel.
               (let sel = (if threshold = 0 \<and> mode = ''HighestHead''
                           then RoundRobin (NewRoundRobinSelector (map fst ns)) else sel)
                in \<lparr>nodes = ns, sendonlys = so, pool_chainID = c, nodeSelector = sel\<rparr>))
            (if mode = ''HighestHead'' then Ret (HighestHead (NewHighestHeadNodeSelector (map fst ns)))
             else if mode = ''RoundRobin'' then Ret (RoundRobin (NewRoundRobinSelector (map fst ns)))
             else Panic (''unsupported NodeSelectionMode: '' @ mode)))"

text \<open>
  The service state of the pool: what its \<open>MultiStart\<close> did, the nodes that were given
  \<open>nLiveNodes\<close>, whether the reporting loop runs and the services its \<open>Close\<close> has closed.
\<close>

record pool_svc =
  ms :: MultiStart
  aware :: "nat list"
  run_loop :: bool
  closed_svcs :: "nat multiset"

definition pool_svc0 :: pool_svc where
  "pool_svc0 = \<lparr>ms = \<lparr>ms_started = [], ms_ops = []\<rparr>, aware = [], run_loop = False, closed_svcs = {#}\<rparr>"

datatype dial_error = NoNodes | NodeChainMismatch nat | SendOnlyChainMismatch nat | StartError nat | CloseErrors nat

fun dial_nodes :: "(nat \<Rightarrow> bool) \<Rightarrow> int \<Rightarrow> (nat \<times> int) list \<Rightarrow> pool_svc \<Rightarrow> dial_error option \<times> pool_svc" where
  "dial_nodes start_ok cid [] v = (None, v)"
| "dial_nodes start_ok cid ((n, c) # ns) v =
     (if c \<noteq> cid then (Some (NodeChainMismatch n), v)
      else
        (let v1 = v\<lparr>aware := aware v @ [n]\<rparr>
         in case MultiStart_Start start_ok [n] (ms v1) of
              (False, m) \<Rightarrow> (Some (StartError n), v1\<lparr>ms := m\<rparr>)
            | (True, m) \<Rightarrow> dial_nodes start_ok cid ns (v1\<lparr>ms := m\<rparr>)))"

fun dial_sendonlys :: "(nat \<Rightarrow> bool) \<Rightarrow> int \<Rightarrow> (nat \<times> int) list \<Rightarrow> pool_svc \<Rightarrow> dial_error option \<times> pool_svc" where
  "dial_sendonlys start_ok cid [] v = (None, v)"
| "dial_sendonlys start_ok cid ((n, c) # ns) v =
     (if c \<noteq> cid then (Some (SendOnlyChainMismatch n), v)
      else
        (case MultiStart_Start start_ok [n] (ms v) of
           (False, m) \<Rightarrow> (Some (StartError n), v\<lparr>ms := m\<rparr>)
         | (True, m) \<Rightarrow> dial_sendonlys start_ok cid ns (v\<lparr>ms := m\<rparr>)))"

definition pool_dial :: "(nat \<Rightarrow> bool) \<Rightarrow> Pool \<Rightarrow> pool_svc \<Rightarrow> dial_error option \<times> pool_svc" where
  "pool_dial start_ok p v =
     (if length (nodes p) = 0 then (Some NoNodes, v)
      else
        (case dial_nodes start_ok (pool_chainID p) (nodes p) v of
           (Some e, v1) \<Rightarrow> (Some e, v1)
         | (None, v1) \<Rightarrow>
             (case dial_sendonlys start_ok (pool_chainID p) (sendonlys p) v1 of
                (Some e, v2) \<Rightarrow> (Some e, v2)
              | (None, v2) \<Rightarrow> (None, v2\<lparr>run_loop := True\<rparr>))))"

definition pool_Dial :: "(nat \<Rightarrow> bool) \<Rightarrow> Pool \<Rightarrow> StartStopOnceState \<times> pool_svc
    \<Rightarrow> (dial_error sso_error option \<times> StartStopOnceState \<times> pool_svc) run" where
  "pool_Dial start_ok p = StartOnce ''Pool'' (pool_dial start_ok p)"

definition pool_Close :: "(nat \<Rightarrow> nat option) \<Rightarrow> Pool \<Rightarrow> StartStopOnceState \<times> pool_svc
    \<Rightarrow> (dial_error sso_error option \<times> StartStopOnceState \<times> pool_svc) run" where
  "pool_Close close_err p = StopOnce ''Pool''
     (\<lambda>v. let mc = map fst (nodes p) @ map fst (sendonlys p);
              (errs, closed) = MultiClose_Close close_err mc
          in (if errs = {#} then None else Some (CloseErrors (size errs)),
              v\<lparr>run_loop := False, closed_svcs := closed\<rparr>))"

definition nLiveNodes :: "node_view \<Rightarrow> Pool \<Rightarrow> nat" where
  "nLiveNodes view p = foldl (\<lambda>c (n, _). if fst (view n) = NodeStateAlive then c + 1 else c) 0 (nodes p)"

datatype pool_alarm = PoolOK | SomeDead nat nat | AllDead nat

definition report :: "node_view \<Rightarrow> Pool \<Rightarrow> (NodeState \<times> nat) list \<times> pool_alarm" where
  "report view p =
     (let states = map (\<lambda>(n, _). fst (view n)) (nodes p);
          total = length states;
          dead = length (filter (\<lambda>st. st \<noteq> NodeStateAlive) states)
      in (map (\<lambda>st. (st, length (filter (\<lambda>st'. st' = st) states))) allNodeStates,
          if total = dead then AllDead total
          else if dead > 0 then SomeDead (total - dead) total
          else PoolOK))"

text \<open>The node a call goes to; without a live one it is an \<open>erroringNode\<close>, which fails every call.\<close>

datatype pool_target = LiveNode nat | erroringNode string

definition selectNode :: "node_view \<Rightarrow> Pool \<Rightarrow> pool_target \<times> Pool" where
  "selectNode view p =
     (let (n, sel) = selector_Select view (nodeSelector p); p1 = p\<lparr>nodeSelector := sel\<rparr>
      in case n of
           None \<Rightarrow> (erroringNode (''no live nodes available for chain '' @ string_of_int (pool_chainID p)), p1)
         | Some n \<Rightarrow> (LiveNode n, p1))"

definition target_call :: "(nat \<Rightarrow> string option) \<Rightarrow> pool_target \<Rightarrow> string option" where
  "target_call call t = (case t of LiveNode n \<Rightarrow> call n | erroringNode msg \<Rightarrow> Some msg)"

definition pool_CallContext :: "node_view \<Rightarrow> (nat \<Rightarrow> string option) \<Rightarrow> Pool \<Rightarrow> string option \<times> Pool" where
  "pool_CallContext view call p = (let (t, p1) = selectNode view p in (target_call call t, p1))"

definition secondaries :: "pool_target \<Rightarrow> Pool \<Rightarrow> nat list" where
  "secondaries main p = filter (\<lambda>n. LiveNode n \<noteq> main) (map fst (nodes p) @ map fst (sendonlys p))"

text \<open>The calls made in parallel, whose results are ignored, and the result of the main one.\<close>

definition BatchCallContextAll :: "node_view \<Rightarrow> (nat \<Rightarrow> string option) \<Rightarrow> Pool
    \<Rightarrow> nat list \<times> string option \<times> Pool" where
  "BatchCallContextAll view call p =
     (let (main, p1) = selectNode view p in (secondaries main p1, target_call call main, p1))"

fun spawn_sends :: "nat list \<Rightarrow> StartStopOnceState \<Rightarrow> nat list \<Rightarrow> nat list" where
  "spawn_sends [] st sent = sent"
| "spawn_sends (n # ns) st sent =
     (let (ok, sent1) = IfNotStopped (\<lambda>xs. xs @ [n]) (st, sent) in spawn_sends ns st sent1)"

definition SendTransaction :: "node_view \<Rightarrow> (nat \<Rightarrow> string option) \<Rightarrow> StartStopOnceState \<Rightarrow> Pool
    \<Rightarrow> nat list \<times> string option \<times> Pool" where
  "SendTransaction view send st p =
     (let (main, p1) = selectNode view p
      in (spawn_sends (secondaries main p1) st [], target_call send main, p1))"

section \<open>Lemmas\<close>

lemma NewPool_selector:
  assumes "NewPool mode threshold ns so cid = Ret p" and "length ns < 2 ^ 32"
  shows "selector_ok (nodeSelector p) \<and> selector_nodes (nodeSelector p) = map fst ns"
  using assms
  by (auto simp: NewPool_def run_simps NewHighestHeadNodeSelector_def NewRoundRobinSelector_def
      hh_ok_def rr_ok_def Let_def split: option.splits if_splits)

text \<open>Between the calls of \<open>MultiStart\<close> everything started runs, and nothing else.\<close>

definition ms_inv :: "(nat \<Rightarrow> bool) \<Rightarrow> pool_svc \<Rightarrow> bool" where
  "ms_inv ok v \<longleftrightarrow> running_after (ms_ops (ms v)) ok {} = set (ms_started (ms v))"

lemma running_after_append [simp]:
  "running_after (xs @ ys) ok r = running_after ys ok (running_after xs ok r)"
  by (induction xs ok r rule: running_after.induct) simp_all

lemma running_after_closes: "running_after (map SvcClose ns) ok r = r - set ns"
  by (induction ns arbitrary: r) auto

lemma MultiStart_Start_single:
  "MultiStart_Start ok [n] m =
     (if ok n then (True, m\<lparr>ms_started := ms_started m @ [n], ms_ops := ms_ops m @ [SvcStart n]\<rparr>)
      else (False, m\<lparr>ms_ops := ms_ops m @ SvcStart n # map SvcClose (rev (ms_started m))\<rparr>))"
  by (simp add: MultiStart_start_def MultiStart_Close_def Let_def)

declare MultiStart_Start.simps [simp del]
declare MultiStart_Start_single [simp]

definition dial_post :: "(nat \<Rightarrow> bool) \<Rightarrow> int \<Rightarrow> (nat \<times> int) list \<Rightarrow> pool_svc \<Rightarrow> dial_error option \<Rightarrow> pool_svc \<Rightarrow> bool" where
  "dial_post ok cid ns v e v' \<longleftrightarrow>
     (case e of
        None \<Rightarrow> (\<forall>(n, c)\<in>set ns. c = cid \<and> ok n)
           \<and> ms_started (ms v') = ms_started (ms v) @ map fst ns \<and> ms_inv ok v'
      | Some (StartError n) \<Rightarrow> running_after (ms_ops (ms v')) ok {} = {} \<and> n \<in> fst ` set ns \<and> \<not> ok n
      | Some e \<Rightarrow> ms_inv ok v' \<and> (\<exists>(n, c)\<in>set ns. c \<noteq> cid \<and> (e = NodeChainMismatch n \<or> e = SendOnlyChainMismatch n)))"

lemma ms_inv_started:
  "ms_inv ok v \<Longrightarrow> ok n \<Longrightarrow> ms_inv ok (v\<lparr>ms := (ms v)\<lparr>ms_started := ms_started (ms v) @ [n],
      ms_ops := ms_ops (ms v) @ [SvcStart n]\<rparr>\<rparr>)"
  by (auto simp: ms_inv_def)

lemma ms_inv_more [simp]: "ms_inv ok (v\<lparr>aware := a\<rparr>) = ms_inv ok v" "ms_inv ok (v\<lparr>run_loop := b\<rparr>) = ms_inv ok v"
  by (simp_all add: ms_inv_def)

lemma dial_nodes_post:
  "dial_nodes ok cid ns v = (e, v') \<Longrightarrow> ms_inv ok v \<Longrightarrow> dial_post ok cid ns v e v'"
proof (induction ok cid ns v rule: dial_nodes.induct)
  case (1 ok cid v)
  then show ?case by (simp add: dial_post_def)
next
  case (2 ok cid n c ns v)
  show ?case
  proof (cases "c = cid \<and> ok n")
    case True
    let ?m = "(ms v)\<lparr>ms_started := ms_started (ms v) @ [n], ms_ops := ms_ops (ms v) @ [SvcStart n]\<rparr>"
    let ?v = "v\<lparr>aware := aware v @ [n], ms := ?m\<rparr>"
    have "ms_inv ok ?v" using 2(3) True by (auto simp: ms_inv_def)
    moreover have "dial_nodes ok cid ns ?v = (e, v')" using 2(2) True by (simp add: Let_def)
    ultimately have "dial_post ok cid ns ?v e v'" using 2(1) True by simp
    with True show ?thesis
      by (auto simp: dial_post_def split: option.splits dial_error.splits)
  next
    case False
    with 2(2,3) show ?thesis
      by (auto simp: dial_post_def ms_inv_def running_after_closes Let_def split: if_splits)
  qed
qed

lemma dial_sendonlys_post:
  "dial_sendonlys ok cid ns v = (e, v') \<Longrightarrow> ms_inv ok v \<Longrightarrow> dial_post ok cid ns v e v'"
proof (induction ok cid ns v rule: dial_sendonlys.induct)
  case (1 ok cid v)
  then show ?case by (simp add: dial_post_def)
next
  case (2 ok cid n c ns v)
  show ?case
  proof (cases "c = cid \<and> ok n")
    case True
    let ?v = "v\<lparr>ms := (ms v)\<lparr>ms_started := ms_started (ms v) @ [n], ms_ops := ms_ops (ms v) @ [SvcStart n]\<rparr>\<rparr>"
    have "dial_sendonlys ok cid ns ?v = (e, v')" using 2(2) True by simp
    then have "dial_post ok cid ns ?v e v'" using 2(1,3) True ms_inv_started by simp
    with True show ?thesis
      by (auto simp: dial_post_def split: option.splits dial_error.splits)
  next
    case False
    with 2(2,3) show ?thesis
      by (auto simp: dial_post_def ms_inv_def running_after_closes Let_def split: if_splits)
  qed
qed

lemma rr_count [simp]:
  "live_nodes view (rr_nodes s) \<noteq> [] \<Longrightarrow> roundRobinCount (snd (rr_Select view s)) = roundRobinCount s + 1"
  by (simp add: rr_Select_def Let_def)

lemma rr_round:
  assumes "rr_ok s" "live_nodes view (rr_nodes s) = live" "live \<noteq> []"
    and "unat (roundRobinCount s) + m \<le> 2 ^ 32"
  shows "fst (rr.select_all (replicate m view) s) =
    map (\<lambda>i. Some (live ! ((unat (roundRobinCount s) + i) mod length live))) [0..<m]"
  using assms
proof (induction m arbitrary: s)
  case 0
  then show ?case by simp
next
  case (Suc m)
  let ?s1 = "snd (rr_Select view s)"
  have c: "m > 0 \<Longrightarrow> unat (roundRobinCount ?s1) = Suc (unat (roundRobinCount s))"
    using Suc.prems by (simp add: unat_word_ariths(1))
  have "fst (rr.select_all (replicate m view) ?s1) =
    map (\<lambda>i. Some (live ! ((unat (roundRobinCount s) + Suc i) mod length live))) [0..<m]"
  proof (cases "m = 0")
    case False
    with Suc.IH [of ?s1] Suc.prems c rr.select_nodes [of view s] rr.select_ok [of s view]
    show ?thesis by simp
  qed simp
  moreover have "[0..<Suc m] = 0 # map Suc [0..<m]" by (simp only: upt_conv_Cons map_Suc_upt)
  ultimately show ?case
    using rr_Select_some [of s view] Suc.prems by (simp add: split_beta Let_def del: upt_Suc)
qed

lemma spawn_sends_eq: "spawn_sends ns st sent = (if st = StartStopOnce_Stopped then sent else sent @ ns)"
  by (cases "st = StartStopOnce_Stopped"; induction ns arbitrary: sent) (simp_all add: IfNotStopped_def)

section \<open>Properties\<close>

text \<open>Whatever the selection mode, and however the states and heads of the nodes change between
  calls, each call selects a node that is alive at that moment, and none only if none is.\<close>

theorem pool_selects_live:
  assumes "NewPool mode threshold ns so cid = Ret p" and "length ns < 2 ^ 32" and "list_all view_ok vs"
  shows "list_all2 (\<lambda>v r. case r of
            Some n \<Rightarrow> n \<in> set (live_nodes v (map fst ns))
          | None \<Rightarrow> live_nodes v (map fst ns) = []) vs (fst (sel.select_all vs (nodeSelector p)))"
  using sel.select_all_sound [of "nodeSelector p" vs] NewPool_selector [OF assms(1,2)] assms(3) by simp

definition two_nodes :: "(nat \<times> int) list" where
  "two_nodes = [(1, 5), (2, 5)]"

definition two_views :: "node_view list" where
  "two_views = [\<lambda>n. (NodeStateAlive, int n), \<lambda>n. if n = 2 then (NodeStateUnreachable, 9) else (NodeStateAlive, 1),
     \<lambda>n. (NodeStateOutOfSync, 3)]"

theorem pool_selects_live_witness:
  "\<exists>p. NewPool ''HighestHead'' 30 two_nodes [] (Some 5) = Ret p
     \<and> fst (sel.select_all two_views (nodeSelector p)) = [Some 2, Some 1, None]
     \<and> list_all2 (\<lambda>v r. case r of Some n \<Rightarrow> n \<in> set (live_nodes v (map fst two_nodes))
          | None \<Rightarrow> live_nodes v (map fst two_nodes) = []) two_views [Some 2, Some 1, None]"
proof -
  obtain p where p: "NewPool ''HighestHead'' 30 two_nodes [] (Some 5) = Ret p"
      and s: "nodeSelector p = HighestHead (NewHighestHeadNodeSelector [1, 2])"
    by (simp add: NewPool_def two_nodes_def)
  have r: "fst (sel.select_all two_views (nodeSelector p)) = [Some 2, Some 1, None]"
    by (simp add: s two_views_def NewHighestHeadNodeSelector_def hh_Select_def MinInt64_def)
  have "list_all view_ok two_views" by (simp add: two_views_def view_ok_def MinInt64_def)
  with pool_selects_live [OF p, of two_views] p r show ?thesis by (auto simp: two_nodes_def)
qed

text \<open>The highest-head selector picks a live node with the highest head, and leaves a live node
  it picked before only for one with a strictly higher head.\<close>

theorem highest_head_best:
  assumes "hh_ok s" and "fst (hh_Select view s) = Some b"
  shows "b \<in> set (live_nodes view (hh_nodes s))
     \<and> list_all (\<lambda>n. snd (view n) \<le> snd (view b)) (live_nodes view (hh_nodes s))
     \<and> (case lastBestNode s of None \<Rightarrow> True | Some c \<Rightarrow>
          c = b \<or> fst (view c) \<noteq> NodeStateAlive \<or> snd (view c) < snd (view b))"
  using hh_Select_best(1) [OF assms]
  by (auto simp: live_nodes_def list_all_iff split: option.split)

theorem highest_head_best_witness:
  "fst (hh_Select (\<lambda>n. (NodeStateAlive, 4)) \<lparr>hh_nodes = [1, 2, 3], lastBestNode = Some 2\<rparr>) = Some 2
   \<and> 2 \<in> set (live_nodes (\<lambda>n. (NodeStateAlive, 4)) [1, 2, 3])"
proof -
  have r: "fst (hh_Select (\<lambda>n. (NodeStateAlive, 4)) \<lparr>hh_nodes = [1, 2, 3], lastBestNode = Some 2\<rparr>) = Some 2"
    by (simp add: hh_Select_def)
  from highest_head_best [OF _ r] r show ?thesis by (simp add: hh_ok_def)
qed

text \<open>While the live nodes stay the same, the round-robin selector takes them in turn: the i-th
  call from a count \<open>c\<close> takes the live node number \<open>c + i\<close> modulo their number (as long as the
  32-bit counter does not wrap).\<close>

theorem round_robin_turns:
  assumes "rr_ok s" and "live_nodes view (rr_nodes s) \<noteq> []"
    and "unat (roundRobinCount s) + m \<le> 2 ^ 32"
  shows "fst (rr.select_all (replicate m view) s) =
    map (\<lambda>i. Some (live_nodes view (rr_nodes s) !
          ((unat (roundRobinCount s) + i) mod length (live_nodes view (rr_nodes s))))) [0..<m]"
  using rr_round [OF assms(1) refl assms(2,3)] .

theorem round_robin_turns_witness:
  "fst (rr.select_all (replicate 4 (\<lambda>n. (NodeStateAlive, 0))) (NewRoundRobinSelector [7, 8, 9]))
     = [Some 7, Some 8, Some 9, Some 7]"
  using round_robin_turns [of "NewRoundRobinSelector [7, 8, 9]" "\<lambda>n. (NodeStateAlive, 0)" 4]
  by (simp add: NewRoundRobinSelector_def rr_ok_def live_nodes_def upt_rec)

text \<open>\<open>Dial\<close> on a fresh pool succeeds only if there is a node and every node and send-only node
  has the chain ID of the pool and starts; then all of them run, in order, with the reporting loop.
  If one fails to start, everything started before it has been closed again.\<close>

theorem pool_dial_outcome:
  assumes "pool_Dial ok p (StartStopOnce_Unstarted, pool_svc0) = Ret (e, st, v)"
  shows "(case e of
      None \<Rightarrow> st = StartStopOnce_Started \<and> nodes p \<noteq> [] \<and> run_loop v
        \<and> list_all (\<lambda>(n, c). c = pool_chainID p \<and> ok n) (nodes p @ sendonlys p)
        \<and> ms_started (ms v) = map fst (nodes p @ sendonlys p)
        \<and> running_after (ms_ops (ms v)) ok {} = set (map fst (nodes p @ sendonlys p))
    | Some (FnError (StartError n)) \<Rightarrow> st = StartStopOnce_StartFailed
        \<and> running_after (ms_ops (ms v)) ok {} = {} \<and> \<not> ok n
    | _ \<Rightarrow> st = StartStopOnce_StartFailed)"
proof -
  obtain e' v' where f: "pool_dial ok p pool_svc0 = (e', v')" by (cases "pool_dial ok p pool_svc0")
  have ev: "e = map_option FnError e'" "v = v'"
    and st: "st = (if e' = None then StartStopOnce_Started else StartStopOnce_StartFailed)"
    using assms f by (auto simp: pool_Dial_def StartOnce_def cas_def Let_def split: if_splits)
  have inv0: "ms_inv ok pool_svc0" by (simp add: ms_inv_def pool_svc0_def)
  obtain e1 v1 where d1: "dial_nodes ok (pool_chainID p) (nodes p) pool_svc0 = (e1, v1)"
    by (cases "dial_nodes ok (pool_chainID p) (nodes p) pool_svc0")
  obtain e2 v2 where d2: "dial_sendonlys ok (pool_chainID p) (sendonlys p) v1 = (e2, v2)"
    by (cases "dial_sendonlys ok (pool_chainID p) (sendonlys p) v1")
  note P1 = dial_nodes_post [OF d1 inv0]
  show ?thesis
  proof (cases "nodes p = [] \<or> e1 \<noteq> None")
    case True
    then have "e' = Some NoNodes \<or> e' = e1 \<and> v' = v1 \<and> e1 \<noteq> None"
      using f d1 by (cases "nodes p = []") (auto simp: pool_dial_def)
    with P1 st ev show ?thesis
      by (auto simp: dial_post_def split: dial_error.splits option.splits)
  next
    case False
    with P1 have P1': "dial_post ok (pool_chainID p) (nodes p) pool_svc0 None v1" by simp
    then have "ms_inv ok v1" by (simp add: dial_post_def)
    note P2 = dial_sendonlys_post [OF d2 this]
    have "e' = e2 \<and> v' = (if e2 = None then v2\<lparr>run_loop := True\<rparr> else v2)"
      using f d1 d2 False by (auto simp: pool_dial_def split: option.splits)
    with P1' P2 st ev False show ?thesis
      by (cases e2)
        (auto simp: dial_post_def ms_inv_def list_all_iff pool_svc0_def split: dial_error.splits)
  qed
qed

theorem pool_dial_outcome_witness:
  "\<exists>p st v. NewPool ''RoundRobin'' 30 two_nodes [(3, 5)] (Some 5) = Ret p
     \<and> pool_Dial (\<lambda>n. n \<noteq> 3) p (StartStopOnce_Unstarted, pool_svc0) = Ret (Some (FnError (StartError 3)), st, v)
     \<and> ms_ops (ms v) = [SvcStart 1, SvcStart 2, SvcStart 3, SvcClose 2, SvcClose 1]
     \<and> running_after (ms_ops (ms v)) (\<lambda>n. n \<noteq> 3) {} = {}"
proof -
  obtain p where p: "NewPool ''RoundRobin'' 30 two_nodes [(3, 5)] (Some 5) = Ret p"
      "nodes p = [(1, 5), (2, 5)]" "sendonlys p = [(3, 5)]" "pool_chainID p = 5"
    by (simp add: NewPool_def two_nodes_def)
  obtain st v where d: "pool_Dial (\<lambda>n. n \<noteq> 3) p (StartStopOnce_Unstarted, pool_svc0)
        = Ret (Some (FnError (StartError 3)), st, v)"
      and o: "ms_ops (ms v) = [SvcStart 1, SvcStart 2, SvcStart 3, SvcClose 2, SvcClose 1]"
    by (simp add: pool_Dial_def StartOnce_def cas_def pool_dial_def p pool_svc0_def)
  from pool_dial_outcome [OF d] p d o show ?thesis by auto
qed

text \<open>If the chain ID of a later node does not match, \<open>Dial\<close> fails without closing the nodes it
  has started, and since the start has failed, \<open>Close\<close> refuses to close them: they stay running.\<close>

theorem pool_dial_mismatch_leaks:
  assumes "nodes p = (n1, pool_chainID p) # (n2, c2) # rest" and "c2 \<noteq> pool_chainID p" and "ok n1"
  shows "\<exists>v. pool_Dial ok p (StartStopOnce_Unstarted, pool_svc0)
           = Ret (Some (FnError (NodeChainMismatch n2)), StartStopOnce_StartFailed, v)
       \<and> running_after (ms_ops (ms v)) ok {} = {n1}
       \<and> pool_Close close_err p (StartStopOnce_StartFailed, v)
           = Ret (Some (CannotBeStopped ''Pool'' StartStopOnce_StartFailed), StartStopOnce_StartFailed, v)"
  using assms
  by (simp add: pool_Dial_def pool_Close_def StartOnce_def StopOnce_def cas_def pool_dial_def
      pool_svc0_def Let_def)

theorem pool_dial_mismatch_leaks_witness:
  "\<exists>p v. NewPool ''RoundRobin'' 30 [(1, 5), (2, 6)] [] (Some 5) = Ret p
     \<and> pool_Dial (\<lambda>n. True) p (StartStopOnce_Unstarted, pool_svc0)
         = Ret (Some (FnError (NodeChainMismatch 2)), StartStopOnce_StartFailed, v)
     \<and> running_after (ms_ops (ms v)) (\<lambda>n. True) {} = {1}"
proof -
  obtain p where p: "NewPool ''RoundRobin'' 30 [(1, 5), (2, 6)] [] (Some 5) = Ret p"
      "nodes p = [(1, 5), (2, 6)]" "pool_chainID p = 5"
    by (simp add: NewPool_def)
  with pool_dial_mismatch_leaks [of p 1 2 6 "[]" "\<lambda>_. True" "\<lambda>_. None"] show ?thesis by auto
qed

text \<open>A transaction goes to the selected node, whose answer is the result, and once to every other
  node and send-only node, unless the pool is stopped; without a live node it goes to all of them and
  the result is an error.\<close>

theorem send_transaction_broadcast:
  assumes "distinct (map fst (nodes p @ sendonlys p))" and "selector_ok (nodeSelector p)"
    and "selector_nodes (nodeSelector p) = map fst (nodes p)"
    and "SendTransaction view send st p = (sent, result, p1)"
  shows "distinct sent
    \<and> (case fst (selectNode view p) of
         LiveNode n \<Rightarrow> n \<in> set (live_nodes view (map fst (nodes p))) \<and> result = send n
            \<and> set sent = (if st = StartStopOnce_Stopped then {} else set (map fst (nodes p @ sendonlys p)) - {n})
       | erroringNode msg \<Rightarrow> result = Some msg
            \<and> sent = (if st = StartStopOnce_Stopped then [] else map fst (nodes p @ sendonlys p)))"
proof -
  obtain r s' where s: "selector_Select view (nodeSelector p) = (r, s')"
    by (cases "selector_Select view (nodeSelector p)")
  have live: "n \<in> set (live_nodes view (map fst (nodes p)))" if "r = Some n" for n
    using sel.select_live [OF assms(2), of view n] assms(3) s that by (auto simp: live_nodes_def)
  define a where "a = map fst (nodes p @ sendonlys p)"
  have p1: "secondaries m (p\<lparr>nodeSelector := s'\<rparr>) = filter (\<lambda>n. LiveNode n \<noteq> m) a" for m
    by (simp add: secondaries_def a_def)
  have "distinct a" using assms(1) by (simp add: a_def)
  then show ?thesis
    using assms(4) s live p1 unfolding a_def [symmetric]
    by (cases r) (auto simp: SendTransaction_def selectNode_def spawn_sends_eq target_call_def Let_def)
qed

theorem send_transaction_broadcast_witness:
  "\<exists>p p1. NewPool ''RoundRobin'' 30 two_nodes [(3, 5)] (Some 5) = Ret p
     \<and> SendTransaction (\<lambda>n. (NodeStateAlive, 0)) (\<lambda>n. None) StartStopOnce_Started p = ([2, 3], None, p1)
     \<and> distinct [2, 3 :: nat]"
proof -
  obtain p where p: "NewPool ''RoundRobin'' 30 two_nodes [(3, 5)] (Some 5) = Ret p"
      "nodes p = [(1, 5), (2, 5)]" "sendonlys p = [(3, 5)]"
      "nodeSelector p = RoundRobin (NewRoundRobinSelector [1, 2])"
    by (simp add: NewPool_def two_nodes_def)
  obtain p1 where r: "SendTransaction (\<lambda>n. (NodeStateAlive, 0)) (\<lambda>n. None) StartStopOnce_Started p = ([2, 3], None, p1)"
    by (simp add: SendTransaction_def selectNode_def secondaries_def p NewRoundRobinSelector_def
        rr_Select_def live_nodes_def spawn_sends_eq target_call_def Let_def del: spawn_sends.simps)
  from send_transaction_broadcast [OF _ _ _ r] p r show ?thesis
    by (auto simp: NewRoundRobinSelector_def rr_ok_def)
qed

text \<open>The report agrees with \<open>nLiveNodes\<close>: the per-state counts add up to the number of nodes,
  and it raises the alarm that no node is available exactly when \<open>nLiveNodes\<close> is 0.\<close>

theorem report_counts:
  "sum_list (map snd (fst (report view p))) = length (nodes p)
   \<and> (snd (report view p) = AllDead (length (nodes p)) \<longleftrightarrow> nLiveNodes view p = 0)"
proof -
  have live: "foldl (\<lambda>c (n, _). if fst (view n) = NodeStateAlive then c + 1 else c) k ns
      = k + length (filter (\<lambda>(n, _). fst (view n) = NodeStateAlive) ns)" for k and ns :: "(nat \<times> int) list"
    by (induction ns arbitrary: k) auto
  have counts: "sum_list (map (\<lambda>st. length (filter (\<lambda>st'. st' = st) sts)) allNodeStates) = length sts" for sts
  proof (induction sts)
    case (Cons a sts)
    have "sum_list (map (\<lambda>st. length (filter (\<lambda>st'. st' = st) (a # sts))) allNodeStates)
        = sum_list (map (\<lambda>st. (if st = a then 1 else 0) + length (filter (\<lambda>st'. st' = st) sts)) allNodeStates)"
      by (intro arg_cong [where f = sum_list] map_cong) auto
    moreover have "sum_list (map (\<lambda>st. if st = a then 1 else (0 :: nat)) allNodeStates) = 1"
    proof -
      have "finite (UNIV :: NodeState set)" using allNodeStates_all(3) by (metis finite_set)
      then show ?thesis using allNodeStates_all(2,3) by (simp add: sum_list_distinct_conv_sum_set)
    qed
    ultimately show ?case using Cons by (simp add: sum_list_addf)
  qed simp
  define sts where "sts = map (\<lambda>(n, _). fst (view n)) (nodes p)"
  have "nLiveNodes view p = length (filter (\<lambda>st. st = NodeStateAlive) sts)"
    unfolding nLiveNodes_def live by (simp add: sts_def filter_map comp_def case_prod_unfold)
  moreover have "length (filter (\<lambda>st. st = NodeStateAlive) sts)
      + length (filter (\<lambda>st. st \<noteq> NodeStateAlive) sts) = length sts"
    by (rule sum_length_filter_compl)
  moreover have "report view p =
     (map (\<lambda>st. (st, length (filter (\<lambda>st'. st' = st) sts))) allNodeStates,
      if length sts = length (filter (\<lambda>st. st \<noteq> NodeStateAlive) sts) then AllDead (length sts)
      else if length (filter (\<lambda>st. st \<noteq> NodeStateAlive) sts) > 0
      then SomeDead (length sts - length (filter (\<lambda>st. st \<noteq> NodeStateAlive) sts)) (length sts) else PoolOK)"
    by (simp add: report_def Let_def flip: sts_def)
  moreover have "length sts = length (nodes p)" by (simp add: sts_def)
  moreover define a d where "a = length (filter (\<lambda>st. st = NodeStateAlive) sts)"
    and "d = length (filter (\<lambda>st. st \<noteq> NodeStateAlive) sts)"
  ultimately have "nLiveNodes view p = a" "a + d = length (nodes p)"
    "snd (report view p) = (if length (nodes p) = d then AllDead (length (nodes p))
       else if d > 0 then SomeDead (length (nodes p) - d) (length (nodes p)) else PoolOK)"
    "map snd (fst (report view p)) = map (\<lambda>st. length (filter (\<lambda>st'. st' = st) sts)) allNodeStates"
    "length sts = length (nodes p)"
    by simp_all
  then show ?thesis using counts [of sts] by auto
qed

end
