(* ===== verification/Gas.thy ===== *)
theory Gas
  imports Prelude
begin

text \<open>
  The gas estimators' shared part: the amounts of \<open>core/assets/wei.go\<close> (unbounded integers, so
  \<open>int\<close>; a nil pointer is \<open>None\<close>), \<open>core/chains/evm/gas/models.go\<close> (bumping and capping) and
  \<open>fixed_price_estimator.go\<close>. Gas limits are 32-bit words, the bump percentage a 16-bit word. The
  product of a gas limit and the configured multiplier is computed by the decimal package and is
  part of the configuration. Log lines are left out.
\<close>

section \<open>Amounts\<close>

definition MaxWei :: "int \<Rightarrow> int \<Rightarrow> int" where
  "MaxWei w x = (if w \<ge> x then w else x)"

definition WeiMax :: "int \<Rightarrow> int \<Rightarrow> int" where
  "WeiMax x y = (if x \<ge> y then x else y)"

definition WeiMin :: "int \<Rightarrow> int \<Rightarrow> int" where
  "WeiMin x y = (if x \<le> y then x else y)"

definition wei_Sub :: "int \<Rightarrow> int \<Rightarrow> int" where
  "wei_Sub w y = w - y"

definition wei_Add :: "int \<Rightarrow> int \<Rightarrow> int" where
  "wei_Add w y = w + y"

definition wei_IsNegative :: "int \<Rightarrow> bool" where
  "wei_IsNegative w \<longleftrightarrow> w < 0"

text \<open>The sum is computed in \<open>uint16\<close> before it is widened.\<close>

definition AddPercentage :: "int \<Rightarrow> 16 word \<Rightarrow> int" where
  "AddPercentage w percentage = (w * uint (100 + percentage)) div 100"

lemmas wei_defs = MaxWei_def WeiMax_def WeiMin_def wei_Sub_def wei_Add_def wei_IsNegative_def

lemma uint_add_100:
  assumes "uint (p :: 16 word) \<le> 65435"
  shows "uint (100 + p) = 100 + uint p"
proof -
  have "0 \<le> uint p" by simp
  with assms have "(100 + uint p) mod 65536 = 100 + uint p" by (intro mod_pos_pos_trivial) simp_all
  then show ?thesis by (simp add: uint_word_ariths)
qed

lemma AddPercentage_exact:
  "uint p \<le> 65435 \<Longrightarrow> AddPercentage w p = (w * (100 + uint p)) div 100"
  by (simp add: AddPercentage_def uint_add_100)

lemma AddPercentage_ge:
  assumes "uint p \<le> 65435" "0 \<le> w"
  shows "w \<le> AddPercentage w p"
proof -
  have "w * 100 div 100 \<le> w * (100 + uint p) div 100"
    using assms(2) by (intro zdiv_mono1 mult_left_mono) simp_all
  then show ?thesis using assms by (simp add: AddPercentage_exact)
qed

section \<open>Configuration and errors\<close>

record Config =
  BlockHistoryEstimatorBatchSize :: nat
  BlockHistoryEstimatorBlockDelay :: nat
  BlockHistoryEstimatorBlockHistorySize :: nat
  BlockHistoryEstimatorCheckInclusionPercentile :: nat
  BlockHistoryEstimatorCheckInclusionBlocks :: nat
  BlockHistoryEstimatorEIP1559FeeCapBufferBlocks :: nat
  BlockHistoryEstimatorTransactionPercentile :: nat
  ChainTypeIsXDai :: bool
  EvmEIP1559DynamicFees :: bool
  EvmGasBumpPercent :: "16 word"
  EvmGasBumpThreshold :: nat
  EvmGasBumpWei :: int
  EvmGasFeeCapDefault :: int
  EvmGasLimitMax :: "32 word"
  GasLimitTimesMultiplier :: "int \<Rightarrow> int"
  EvmGasPriceDefault :: int
  EvmGasTipCapDefault :: "int option"
  EvmGasTipCapMinimum :: int
  EvmMaxGasPriceWei :: int
  EvmMinGasPriceWei :: int
  GasEstimatorMode :: string

datatype gas_error =
    ErrBumpGasExceedsLimit
  | ErrBump
  | ErrConnectivity
  | ErrNoSuitableTransactions
  | ErrEstimatorNotStarted
  | ErrNoEstimateYet
  | ErrEIP1559Disabled
  | ErrNoBaseFee
  | ErrNoTipCapDefault
  | ErrNotSupported
  | ErrEstimatorStopped
  | ErrContext
  | ErrGasPriceNotSet
  | ErrGasPriceTooHigh
  | ErrGasLimitTooHigh
  | ErrBroadcastBeforeNil
  | ErrUnknownTxType
  | ErrFetch

definition IsBumpErr :: "gas_error option \<Rightarrow> bool" where
  "IsBumpErr err \<longleftrightarrow> err = Some ErrBumpGasExceedsLimit \<or> err = Some ErrBump"

datatype Estimator =
    ArbitrumEstimator
  | BlockHistoryEstimator
  | FixedPriceEstimator
  | L2SuggestedPriceEstimator

definition NewEstimator :: "Config \<Rightarrow> Estimator" where
  "NewEstimator cfg =
     (let s = GasEstimatorMode cfg
      in if s = ''Arbitrum'' then ArbitrumEstimator
         else if s = ''BlockHistory'' then BlockHistoryEstimator
         else if s = ''FixedPrice'' then FixedPriceEstimator
         else if s = ''Optimism2'' \<or> s = ''L2Suggested'' then L2SuggestedPriceEstimator
         else FixedPriceEstimator)"

record DynamicFee =
  FeeCap :: int
  TipCap :: int

definition applyMultiplier :: "Config \<Rightarrow> 32 word \<Rightarrow> 32 word" where
  "applyMultiplier cfg gasLimit = word_of_int (GasLimitTimesMultiplier cfg (uint gasLimit))"

section \<open>Capping and bumping\<close>

definition getMaxGasPrice :: "int \<Rightarrow> Config \<Rightarrow> int" where
  "getMaxGasPrice userSpecifiedMax cfg = WeiMin (EvmMaxGasPriceWei cfg) userSpecifiedMax"

definition capGasPrice :: "int \<Rightarrow> int \<Rightarrow> Config \<Rightarrow> int" where
  "capGasPrice calculatedGasPrice userSpecifiedMax cfg =
     WeiMin calculatedGasPrice (getMaxGasPrice userSpecifiedMax cfg)"

text \<open>The price comes back with the error, if there is one.\<close>

definition bumpGasPrice :: "Config \<Rightarrow> int option \<Rightarrow> int \<Rightarrow> int \<Rightarrow> int \<times> gas_error option" where
  "bumpGasPrice cfg currentGasPrice originalGasPrice maxGasPriceWei =
     (let maxGasPrice = getMaxGasPrice maxGasPriceWei cfg;
          bumpedGasPrice = MaxWei (AddPercentage originalGasPrice (EvmGasBumpPercent cfg))
                                  (wei_Add originalGasPrice (EvmGasBumpWei cfg));
          bumpedGasPrice =
            (case currentGasPrice of
               None \<Rightarrow> bumpedGasPrice
             | Some current \<Rightarrow>
                 if current > maxGasPrice then bumpedGasPrice
                 else if bumpedGasPrice < current then current
                 else bumpedGasPrice)
      in if bumpedGasPrice > maxGasPrice then (maxGasPrice, Some ErrBumpGasExceedsLimit)
         else if bumpedGasPrice = originalGasPrice then (bumpedGasPrice, Some ErrBump)
         else (bumpedGasPrice, None))"

definition BumpLegacyGasPriceOnly :: "Config \<Rightarrow> int option \<Rightarrow> int \<Rightarrow> 32 word \<Rightarrow> int
    \<Rightarrow> gas_error + int \<times> 32 word" where
  "BumpLegacyGasPriceOnly cfg currentGasPrice originalGasPrice originalGasLimit maxGasPriceWei =
     (case bumpGasPrice cfg currentGasPrice originalGasPrice maxGasPriceWei of
        (_, Some err) \<Rightarrow> Inl err
      | (gasPrice, None) \<Rightarrow> Inr (gasPrice, applyMultiplier cfg originalGasLimit))"

subsection \<open>The fee cap\<close>

text \<open>
  \<open>calcFeeCap\<close> works on a \<open>big.Float\<close>: \<open>SetInt\<close> gives it the precision of the integer, at
  least 64 bits, and every product by 1.125 is rounded to that precision, to the nearest and ties
  to even. A magnitude \<open>n / 2^k\<close> is the pair \<open>(n, k)\<close>.
\<close>

fun bit_length :: "nat \<Rightarrow> nat" where
  "bit_length n = (if n = 0 then 0 else Suc (bit_length (n div 2)))"

declare bit_length.simps [simp del]

definition round_even :: "nat \<Rightarrow> nat \<Rightarrow> nat" where
  "round_even n d =
     (let q = n div 2 ^ d; r = n mod 2 ^ d
      in if 2 * r > 2 ^ d \<or> 2 * r = 2 ^ d \<and> odd q then q + 1 else q)"

definition float_round :: "nat \<Rightarrow> nat \<times> nat \<Rightarrow> nat \<times> nat" where
  "float_round prec v =
     (let (n, k) = v; d = bit_length n - prec
      in (round_even n d * 2 ^ (d - k), k - d))"

definition mul_1125 :: "nat \<Rightarrow> nat \<times> nat \<Rightarrow> nat \<times> nat" where
  "mul_1125 prec v = (let (n, k) = v in float_round prec (n * 9, k + 3))"

definition maxBaseFee :: "nat \<Rightarrow> nat \<Rightarrow> nat" where
  "maxBaseFee bufferBlocks baseFee =
     (let prec = max (bit_length baseFee) 64;
          (n, k) = (mul_1125 prec ^^ bufferBlocks) (baseFee, 0)
      in n div 2 ^ k)"

definition calcFeeCap :: "int \<Rightarrow> Config \<Rightarrow> int \<Rightarrow> int \<Rightarrow> int" where
  "calcFeeCap latestAvailableBaseFeePerGas cfg tipCap maxGasPriceWei =
     (let bufferBlocks = BlockHistoryEstimatorEIP1559FeeCapBufferBlocks cfg;
          baseFeeInt = sgn latestAvailableBaseFeePerGas
                       * int (maxBaseFee bufferBlocks (nat \<bar>latestAvailableBaseFeePerGas\<bar>));
          feeCap = baseFeeInt + tipCap
      in if feeCap > maxGasPriceWei then maxGasPriceWei else feeCap)"

text \<open>A nil \<open>EvmGasTipCapDefault\<close> makes the comparison in \<open>MaxWei\<close> panic.\<close>

definition bumpDynamicFee :: "Config \<Rightarrow> int option \<Rightarrow> int option \<Rightarrow> DynamicFee \<Rightarrow> int
    \<Rightarrow> (gas_error + DynamicFee) run" where
  "bumpDynamicFee cfg currentTipCap currentBaseFee originalFee maxGasPriceWei =
     (case EvmGasTipCapDefault cfg of
        None \<Rightarrow> Panic ''nil pointer dereference''
      | Some tipCapDefault \<Rightarrow>
        (let maxGasPrice = getMaxGasPrice maxGasPriceWei cfg;
             baselineTipCap = MaxWei (TipCap originalFee) tipCapDefault;
             bumpedTipCap = MaxWei (AddPercentage baselineTipCap (EvmGasBumpPercent cfg))
                                   (wei_Add baselineTipCap (EvmGasBumpWei cfg));
             bumpedTipCap =
               (case currentTipCap of
                  None \<Rightarrow> bumpedTipCap
                | Some current \<Rightarrow>
                    if current > maxGasPrice then bumpedTipCap
                    else if bumpedTipCap < current then current
                    else bumpedTipCap)
         in if bumpedTipCap > maxGasPrice then Ret (Inl ErrBumpGasExceedsLimit)
            else if bumpedTipCap \<le> TipCap originalFee then Ret (Inl ErrBump)
            else
              (let bumpedFeeCap = MaxWei (AddPercentage (FeeCap originalFee) (EvmGasBumpPercent cfg))
                                         (wei_Add (FeeCap originalFee) (EvmGasBumpWei cfg));
                   bumpedFeeCap =
                     (case currentBaseFee of
                        None \<Rightarrow> bumpedFeeCap
                      | Some base \<Rightarrow>
                          if base > maxGasPrice then bumpedFeeCap
                          else WeiMax bumpedFeeCap (calcFeeCap base cfg bumpedTipCap maxGasPrice))
               in if bumpedFeeCap > maxGasPrice then Ret (Inl ErrBumpGasExceedsLimit)
                  else Ret (Inr \<lparr>FeeCap = bumpedFeeCap, TipCap = bumpedTipCap\<rparr>))))"

definition BumpDynamicFeeOnly :: "Config \<Rightarrow> int option \<Rightarrow> int option \<Rightarrow> DynamicFee \<Rightarrow> 32 word \<Rightarrow> int
    \<Rightarrow> (gas_error + DynamicFee \<times> 32 word) run" where
  "BumpDynamicFeeOnly cfg currentTipCap currentBaseFee originalFee originalGasLimit maxGasPriceWei =
     run_map (\<lambda>r. case r of
          Inl err \<Rightarrow> Inl err
        | Inr bumped \<Rightarrow> Inr (bumped, applyMultiplier cfg originalGasLimit))
       (bumpDynamicFee cfg currentTipCap currentBaseFee originalFee maxGasPriceWei)"

section \<open>The fixed-price estimator\<close>

definition fixed_GetLegacyGas :: "Config \<Rightarrow> 32 word \<Rightarrow> int \<Rightarrow> int \<times> 32 word" where
  "fixed_GetLegacyGas cfg gasLimit maxGasPriceWei =
     (capGasPrice (EvmGasPriceDefault cfg) maxGasPriceWei cfg, applyMultiplier cfg gasLimit)"

definition fixed_BumpLegacyGas :: "Config \<Rightarrow> int \<Rightarrow> 32 word \<Rightarrow> int \<Rightarrow> gas_error + int \<times> 32 word" where
  "fixed_BumpLegacyGas cfg originalGasPrice originalGasLimit maxGasPriceWei =
     BumpLegacyGasPriceOnly cfg (Some (EvmGasPriceDefault cfg)) originalGasPrice originalGasLimit maxGasPriceWei"

definition fixed_GetDynamicFee :: "Config \<Rightarrow> 32 word \<Rightarrow> int \<Rightarrow> gas_error + DynamicFee \<times> 32 word" where
  "fixed_GetDynamicFee cfg originalGasLimit maxGasPriceWei =
     (case EvmGasTipCapDefault cfg of
        None \<Rightarrow> Inl ErrNoTipCapDefault
      | Some gasTipCap \<Rightarrow>
          (let feeCap = (if EvmGasBumpThreshold cfg = 0 then getMaxGasPrice maxGasPriceWei cfg
                         else EvmGasFeeCapDefault cfg)
           in Inr (\<lparr>FeeCap = feeCap, TipCap = gasTipCap\<rparr>, applyMultiplier cfg originalGasLimit)))"

definition fixed_BumpDynamicFee :: "Config \<Rightarrow> DynamicFee \<Rightarrow> 32 word \<Rightarrow> int
    \<Rightarrow> (gas_error + DynamicFee \<times> 32 word) run" where
  "fixed_BumpDynamicFee cfg originalFee originalGasLimit maxGasPriceWei =
     BumpDynamicFeeOnly cfg (EvmGasTipCapDefault cfg) None originalFee originalGasLimit maxGasPriceWei"

section \<open>Lemmas on the fee cap\<close>

lemma bit_length_0 [simp]: "bit_length 0 = 0"
  by (subst bit_length.simps) simp

lemma bit_length_bounds: "0 < n \<Longrightarrow> 2 ^ (bit_length n - 1) \<le> n \<and> n < 2 ^ bit_length n"
proof (induction n rule: bit_length.induct)
  case (1 n)
  have bl: "bit_length n = Suc (bit_length (n div 2))" using 1(2) by (subst bit_length.simps) simp
  show ?case
  proof (cases "n div 2 = 0")
    case True
    then show ?thesis using 1(2) bl by (cases "n = 1") auto
  next
    case False
    then have IH: "2 ^ (bit_length (n div 2) - 1) \<le> n div 2" "n div 2 < 2 ^ bit_length (n div 2)"
      using 1 by auto
    have "bit_length (n div 2) \<noteq> 0" using False by (subst bit_length.simps) simp
    then obtain j where j: "bit_length (n div 2) = Suc j" by (cases "bit_length (n div 2)") auto
    with IH bl show ?thesis by auto
  qed
qed

lemma bit_length_le:
  assumes "n < 2 ^ p" shows "bit_length n \<le> p"
proof (cases "n = 0")
  case False
  show ?thesis
  proof (rule ccontr)
    assume "\<not> bit_length n \<le> p"
    then have "(2::nat) ^ p \<le> 2 ^ (bit_length n - 1)" by (intro power_increasing) auto
    with bit_length_bounds [of n] assms False show False by linarith
  qed
qed simp

lemma round_even_0 [simp]: "round_even n 0 = n"
  by (simp add: round_even_def)

text \<open>Rounding loses at most half a unit in the last place.\<close>

lemma round_even_ge: "n \<le> round_even n d * 2 ^ d + 2 ^ d div 2"
proof -
  define q r where "q = n div 2 ^ d" and "r = n mod 2 ^ d"
  have n: "n = q * 2 ^ d + r" and r: "r < 2 ^ d"
    unfolding q_def r_def by (simp_all add: div_mult_mod_eq)
  have e: "round_even n d = (if 2 * r > 2 ^ d \<or> 2 * r = 2 ^ d \<and> odd q then q + 1 else q)"
    by (simp add: round_even_def Let_def q_def r_def)
  show ?thesis
  proof (cases "2 * r > 2 ^ d \<or> 2 * r = 2 ^ d \<and> odd q")
    case True
    then have "round_even n d * 2 ^ d = q * 2 ^ d + 2 ^ d" by (simp add: e)
    then show ?thesis using n r by linarith
  next
    case False
    then have "round_even n d * 2 ^ d = q * 2 ^ d" "2 * r \<le> 2 ^ d" by (auto simp: e)
    then show ?thesis using n by linarith
  qed
qed

lemma rescale:
  assumes "8 * n \<le> R * 2 ^ d"
  shows "n * 2 ^ (k + 3 - d) \<le> R * 2 ^ (d - (k + 3)) * (2 :: nat) ^ k"
proof (cases "d \<le> k + 3")
  case True
  then obtain j where j: "k + 3 = d + j" using le_Suc_ex by blast
  have "n * 2 ^ j * 2 ^ d = n * 2 ^ (k + 3)" by (simp add: j power_add mult.commute mult.left_commute)
  also have "\<dots> = 8 * n * 2 ^ k" by (simp add: power_add)
  also have "\<dots> \<le> R * 2 ^ d * 2 ^ k" using assms by (rule mult_le_mono1)
  also have "\<dots> = R * 2 ^ k * 2 ^ d" by simp
  finally have "n * 2 ^ j \<le> R * 2 ^ k" by simp
  then show ?thesis by (simp add: j)
next
  case False
  then obtain e where e: "d = k + 3 + e" using le_Suc_ex [of "k + 3" d] by auto
  have "R * 2 ^ d = 8 * (R * 2 ^ e * 2 ^ k)" by (simp add: e power_add)
  then have "8 * n \<le> 8 * (R * 2 ^ e * 2 ^ k)" using assms by (simp only:)
  then have "n \<le> R * 2 ^ e * 2 ^ k" by linarith
  then show ?thesis by (simp add: e)
qed

lemma mul_1125_ge:
  assumes "mul_1125 prec (n, k) = (n', k')" "64 \<le> prec"
  shows "n * 2 ^ k' \<le> n' * 2 ^ k"
proof -
  let ?d = "bit_length (n * 9) - prec"
  have n': "n' = round_even (n * 9) ?d * 2 ^ (?d - (k + 3))" and k': "k' = k + 3 - ?d"
    using assms(1) by (auto simp: mul_1125_def float_round_def Let_def)
  have half: "9 * (2 ^ ?d div 2) \<le> 9 * n"
  proof (cases "?d = 0")
    case False
    then have pos: "0 < n * 9" by (cases "n = 0") auto
    have "2 ^ ?d div 2 = (2::nat) ^ (?d - 1)" using False by (cases ?d) auto
    moreover have "(2::nat) ^ (?d - 1) * 16 \<le> 2 ^ (bit_length (n * 9) - 1)"
    proof -
      have "(2::nat) ^ (?d - 1) * 16 = 2 ^ (?d - 1 + 4)" by (simp add: power_add)
      also have "\<dots> \<le> 2 ^ (bit_length (n * 9) - 1)"
        using False assms(2) by (intro power_increasing) auto
      finally show ?thesis .
    qed
    ultimately show ?thesis using bit_length_bounds [OF pos] by linarith
  qed simp
  have "n * 9 \<le> round_even (n * 9) ?d * 2 ^ ?d + 2 ^ ?d div 2" by (rule round_even_ge)
  with half have r: "8 * n \<le> round_even (n * 9) ?d * 2 ^ ?d" by linarith
  then show ?thesis using rescale [OF r, of k] by (simp add: n' k')
qed

lemma mul_1125_iter_ge:
  assumes "64 \<le> prec"
  shows "base * 2 ^ snd ((mul_1125 prec ^^ b) (base, 0)) \<le> fst ((mul_1125 prec ^^ b) (base, 0))"
proof (induction b)
  case 0
  show ?case by simp
next
  case (Suc b)
  obtain n k where nk: "(mul_1125 prec ^^ b) (base, 0) = (n, k)" by (cases "(mul_1125 prec ^^ b) (base, 0)")
  obtain n' k' where nk': "mul_1125 prec (n, k) = (n', k')" by (cases "mul_1125 prec (n, k)")
  have "base * 2 ^ k \<le> n" using Suc nk by simp
  then have "base * 2 ^ k * 2 ^ k' \<le> n * 2 ^ k'" by (rule mult_le_mono1)
  also have "\<dots> \<le> n' * 2 ^ k" by (rule mul_1125_ge [OF nk' assms])
  finally have "base * 2 ^ k' * 2 ^ k \<le> n' * 2 ^ k" by (simp add: mult.assoc mult.commute)
  then have "base * 2 ^ k' \<le> n'" by simp
  then show ?case by (simp add: nk nk')
qed

lemma maxBaseFee_ge: "base \<le> maxBaseFee b base"
proof -
  let ?p = "max (bit_length base) 64"
  obtain n k where nk: "(mul_1125 ?p ^^ b) (base, 0) = (n, k)" by (cases "(mul_1125 ?p ^^ b) (base, 0)")
  then have "base * 2 ^ k \<le> n" using mul_1125_iter_ge [of ?p base b] by simp
  then have "base * 2 ^ k div 2 ^ k \<le> n div 2 ^ k" by (rule div_le_mono)
  then show ?thesis using nk by (simp add: maxBaseFee_def)
qed

text \<open>As long as the product fits in the precision it is exact.\<close>

lemma mul_1125_exact: "n * 9 < 2 ^ prec \<Longrightarrow> mul_1125 prec (n, k) = (n * 9, k + 3)"
  using bit_length_le [of "n * 9" prec] by (simp add: mul_1125_def float_round_def Let_def)

lemma maxBaseFee_exact:
  assumes "base * 9 ^ b < 2 ^ 64"
  shows "maxBaseFee b base = base * 9 ^ b div 8 ^ b"
proof -
  let ?p = "max (bit_length base) 64"
  have "j \<le> b \<Longrightarrow> (mul_1125 ?p ^^ j) (base, 0) = (base * 9 ^ j, 3 * j)" for j
  proof (induction j)
    case 0
    show ?case by simp
  next
    case (Suc j)
    have "base * 9 ^ Suc j \<le> base * 9 ^ b" using Suc.prems by (intro mult_left_mono power_increasing) auto
    also have "\<dots> < 2 ^ ?p" using assms by (rule less_le_trans) (intro power_increasing, auto)
    finally have "base * 9 ^ j * 9 < 2 ^ ?p" by (simp add: algebra_simps)
    from mul_1125_exact [OF this] Suc show ?case by (simp add: algebra_simps)
  qed
  from this [of b] show ?thesis by (simp add: maxBaseFee_def power_mult)
qed

lemma calcFeeCap_le: "calcFeeCap base cfg tip m \<le> m"
  by (simp add: calcFeeCap_def Let_def)

lemma calcFeeCap_ge:
  assumes "0 \<le> base" shows "min m (base + tip) \<le> calcFeeCap base cfg tip m"
proof -
  have "base \<le> sgn base * int (maxBaseFee b (nat \<bar>base\<bar>))" for b
    using maxBaseFee_ge [of "nat base" b] assms by (cases "base = 0") auto
  then show ?thesis by (simp add: calcFeeCap_def Let_def min_def) (smt (verit))
qed

section \<open>Properties\<close>

definition cfg0 :: Config where
  "cfg0 = \<lparr>BlockHistoryEstimatorBatchSize = 0, BlockHistoryEstimatorBlockDelay = 1,
     BlockHistoryEstimatorBlockHistorySize = 2, BlockHistoryEstimatorCheckInclusionPercentile = 90,
     BlockHistoryEstimatorCheckInclusionBlocks = 1, BlockHistoryEstimatorEIP1559FeeCapBufferBlocks = 2,
     BlockHistoryEstimatorTransactionPercentile = 60, ChainTypeIsXDai = False, EvmEIP1559DynamicFees = True,
     EvmGasBumpPercent = 20, EvmGasBumpThreshold = 3, EvmGasBumpWei = 5, EvmGasFeeCapDefault = 900,
     EvmGasLimitMax = 500000, GasLimitTimesMultiplier = (\<lambda>l. l), EvmGasPriceDefault = 50,
     EvmGasTipCapDefault = Some 10, EvmGasTipCapMinimum = 1, EvmMaxGasPriceWei = 1000,
     EvmMinGasPriceWei = 2, GasEstimatorMode = ''BlockHistory''\<rparr>"

text \<open>C34: A successful bump of a legacy gas price is at least the percentage bump and at least the
  fixed bump of the original price, at least the market price the caller passes (if that is within
  the maximum), strictly above the original, and never above the lower of the two maxima; if the
  bump has to exceed that maximum it is refused. The amounts are not negative
  and the percentage is at most 65435, so that \<open>100 + percentage\<close> does not wrap.\<close>

theorem bump_gas_price_bounds:
  assumes "0 \<le> original" and "0 \<le> EvmGasBumpWei cfg" and "uint (EvmGasBumpPercent cfg) \<le> 65435"
    and "bumpGasPrice cfg current original userMax = (p, err)"
  shows "case err of
      None \<Rightarrow> original < p \<and> original * (100 + uint (EvmGasBumpPercent cfg)) div 100 \<le> p
        \<and> original + EvmGasBumpWei cfg \<le> p \<and> p \<le> EvmMaxGasPriceWei cfg \<and> p \<le> userMax
        \<and> (case current of None \<Rightarrow> True | Some c \<Rightarrow> c \<le> p \<or> c > getMaxGasPrice userMax cfg)
    | Some e \<Rightarrow> IsBumpErr (Some e) \<and> p \<le> EvmMaxGasPriceWei cfg \<and> p \<le> userMax
        \<and> (e = ErrBump \<longrightarrow> p = original)"
  using assms AddPercentage_ge [OF assms(3,1)]
  by (auto simp: bumpGasPrice_def wei_defs getMaxGasPrice_def AddPercentage_exact IsBumpErr_def Let_def
      split: option.splits if_splits)

theorem bump_gas_price_bounds_witness:
  "bumpGasPrice cfg0 (Some 70) 100 800 = (120, None) \<and> (100 :: int) < 120"
proof -
  have r: "bumpGasPrice cfg0 (Some 70) 100 800 = (120, None)"
    by (simp add: bumpGasPrice_def cfg0_def wei_defs getMaxGasPrice_def AddPercentage_def)
  from bump_gas_price_bounds [OF _ _ _ r] r show ?thesis by (simp add: cfg0_def)
qed

text \<open>C35: A successful bump of a dynamic fee raises the tip cap strictly and both caps by at least the
  percentage, and stays within both maxima. With a base fee within the maximum, the fee cap also
  covers that base fee plus the new tip (or is the maximum), so the tip cap never exceeds it. The
  amounts are not negative and the percentage is at most 65435.\<close>

theorem bump_dynamic_fee_bounds:
  assumes "0 \<le> FeeCap orig" and "0 \<le> TipCap orig" and "0 \<le> EvmGasBumpWei cfg"
    and "uint (EvmGasBumpPercent cfg) \<le> 65435"
    and "bumpDynamicFee cfg currentTip base orig userMax = Ret (Inr fee)"
  shows "TipCap orig < TipCap fee \<and> FeeCap orig \<le> FeeCap fee
     \<and> FeeCap orig * (100 + uint (EvmGasBumpPercent cfg)) div 100 \<le> FeeCap fee
     \<and> TipCap orig * (100 + uint (EvmGasBumpPercent cfg)) div 100 \<le> TipCap fee
     \<and> TipCap fee \<le> getMaxGasPrice userMax cfg \<and> FeeCap fee \<le> getMaxGasPrice userMax cfg
     \<and> (case base of
          None \<Rightarrow> True
        | Some b \<Rightarrow> b < 0 \<or> b > getMaxGasPrice userMax cfg
            \<or> TipCap fee \<le> FeeCap fee \<and> min (getMaxGasPrice userMax cfg) (b + TipCap fee) \<le> FeeCap fee)"
proof -
  let ?m = "getMaxGasPrice userMax cfg" and ?pc = "EvmGasBumpPercent cfg"
  from assms(5) obtain d where d: "EvmGasTipCapDefault cfg = Some d"
    by (auto simp: bumpDynamicFee_def split: option.splits)
  define bt where "bt = MaxWei (AddPercentage (MaxWei (TipCap orig) d) ?pc)
    (wei_Add (MaxWei (TipCap orig) d) (EvmGasBumpWei cfg))"
  define tip where "tip = (case currentTip of None \<Rightarrow> bt
    | Some c \<Rightarrow> if c > ?m then bt else if bt < c then c else bt)"
  define bf where "bf = MaxWei (AddPercentage (FeeCap orig) ?pc) (wei_Add (FeeCap orig) (EvmGasBumpWei cfg))"
  define cap where "cap = (case base of None \<Rightarrow> bf
    | Some b \<Rightarrow> if b > ?m then bf else WeiMax bf (calcFeeCap b cfg tip ?m))"
  have "bumpDynamicFee cfg currentTip base orig userMax =
      (if tip > ?m then Ret (Inl ErrBumpGasExceedsLimit)
       else if tip \<le> TipCap orig then Ret (Inl ErrBump)
       else if cap > ?m then Ret (Inl ErrBumpGasExceedsLimit)
       else Ret (Inr \<lparr>FeeCap = cap, TipCap = tip\<rparr>))"
    unfolding bumpDynamicFee_def d cap_def tip_def bt_def bf_def by (simp only: option.case Let_def)
  with assms(5) have fee: "FeeCap fee = cap" "TipCap fee = tip"
    and b: "TipCap orig < tip" "tip \<le> ?m" "cap \<le> ?m"
    by (auto split: if_splits)
  have "TipCap orig * (100 + uint ?pc) \<le> MaxWei (TipCap orig) d * (100 + uint ?pc)"
    by (rule mult_right_mono) (simp_all add: MaxWei_def)
  then have "TipCap orig * (100 + uint ?pc) div 100 \<le> AddPercentage (MaxWei (TipCap orig) d) ?pc"
    unfolding AddPercentage_exact [OF assms(4)] by (rule zdiv_mono1) simp
  then have tip1: "TipCap orig * (100 + uint ?pc) div 100 \<le> tip"
    by (auto simp: tip_def bt_def MaxWei_def split: option.split)
  have bf1: "FeeCap orig * (100 + uint ?pc) div 100 \<le> bf" "FeeCap orig \<le> bf"
    using AddPercentage_ge [OF assms(4,1)] by (auto simp: bf_def MaxWei_def AddPercentage_exact [OF assms(4)])
  moreover have "bf \<le> cap" by (auto simp: cap_def WeiMax_def split: option.split)
  moreover have "tip \<le> cap \<and> min ?m (bs + tip) \<le> cap" if "base = Some bs" "0 \<le> bs" "bs \<le> ?m" for bs
    using that calcFeeCap_ge [of bs ?m tip cfg] b by (auto simp: cap_def WeiMax_def min_def split: if_splits)
  ultimately show ?thesis using fee b tip1 by (auto split: option.split)
qed

theorem bump_dynamic_fee_bounds_witness:
  "bumpDynamicFee cfg0 (Some 30) (Some 64) \<lparr>FeeCap = 60, TipCap = 20\<rparr> 500
     = Ret (Inr \<lparr>FeeCap = 111, TipCap = 30\<rparr>) \<and> (30 :: int) \<le> 111"
proof -
  have b64: "maxBaseFee 2 64 = 81" using maxBaseFee_exact [of 64 2] by simp
  have r: "bumpDynamicFee cfg0 (Some 30) (Some 64) \<lparr>FeeCap = 60, TipCap = 20\<rparr> 500
     = Ret (Inr \<lparr>FeeCap = 111, TipCap = 30\<rparr>)"
    by (simp add: bumpDynamicFee_def cfg0_def wei_defs getMaxGasPrice_def AddPercentage_def calcFeeCap_def b64)
  from bump_dynamic_fee_bounds [OF _ _ _ _ r] r show ?thesis by (simp add: cfg0_def getMaxGasPrice_def WeiMin_def)
qed

text \<open>\<open>calcFeeCap\<close> never exceeds the maximum and always covers the current base fee plus the tip
  (or is the maximum); while the product stays below 2^64 it is exactly the base fee times 1.125 per
  buffered block, rounded down, plus the tip.\<close>

theorem fee_cap_covers:
  assumes "0 \<le> base"
  shows "calcFeeCap base cfg tip m \<le> m \<and> min m (base + tip) \<le> calcFeeCap base cfg tip m
     \<and> (base * 9 ^ BlockHistoryEstimatorEIP1559FeeCapBufferBlocks cfg \<ge> 2 ^ 64
        \<or> calcFeeCap base cfg tip m =
            min m (base * 9 ^ BlockHistoryEstimatorEIP1559FeeCapBufferBlocks cfg
                    div 8 ^ BlockHistoryEstimatorEIP1559FeeCapBufferBlocks cfg + tip))"
proof -
  let ?b = "BlockHistoryEstimatorEIP1559FeeCapBufferBlocks cfg"
  obtain n where n: "base = int n" using assms nonneg_int_cases by blast
  have "calcFeeCap base cfg tip m = min m (base * 9 ^ ?b div 8 ^ ?b + tip)" if lt: "base * 9 ^ ?b < 2 ^ 64"
  proof -
    have "int (n * 9 ^ ?b) < int (2 ^ 64)" using lt n by simp
    then have "n * 9 ^ ?b < 2 ^ 64" by (simp only: of_nat_less_iff)
    then have "sgn base * int (maxBaseFee ?b n) = base * 9 ^ ?b div 8 ^ ?b"
      using n by (cases "n = 0") (simp_all add: maxBaseFee_exact zdiv_int maxBaseFee_ge)
    then show ?thesis using n by (simp add: calcFeeCap_def min_def Let_def)
  qed
  then show ?thesis using calcFeeCap_le calcFeeCap_ge [OF assms] by force
qed

theorem fee_cap_covers_witness:
  "calcFeeCap 64 cfg0 10 1000 = 91 \<and> calcFeeCap 64 cfg0 10 80 \<le> 80"
  using fee_cap_covers [of 64 cfg0 10 1000] fee_cap_covers [of 64 cfg0 10 80] by (simp add: cfg0_def)

text \<open>\<open>AddPercentage\<close> multiplies by \<open>100 + percentage\<close> only while that sum fits in 16 bits: from
  65436 on it wraps around, and a bump of a positive amount lowers it.\<close>

theorem add_percentage_wraps:
  "(uint p \<le> 65435 \<longrightarrow> AddPercentage w p = w * (100 + uint p) div 100)
   \<and> (65436 \<le> uint p \<and> 0 < w \<longrightarrow> AddPercentage w p = w * (uint p - 65436) div 100 \<and> AddPercentage w p < w)"
proof -
  have "AddPercentage w p = w * (uint p - 65436) div 100 \<and> AddPercentage w p < w"
    if "65436 \<le> uint p" "0 < w"
  proof -
    have lt: "uint p < 65536" using uint_lt2p [of p] by simp
    have "uint (100 + p) = (100 + uint p) mod 65536" by (simp add: uint_word_ariths)
    also have "\<dots> = (100 + uint p - 65536) mod 65536" by (rule minus_mod_self2 [symmetric])
    also have "\<dots> = uint p - 65436" using that(1) lt by (subst mod_pos_pos_trivial) simp_all
    finally have e: "AddPercentage w p = w * (uint p - 65436) div 100" by (simp add: AddPercentage_def)
    have "w * (uint p - 65436) < w * 100" using that(2) lt by (intro mult_strict_left_mono) simp_all
    then have "w * (uint p - 65436) div 100 < w" by (simp add: div_less_iff_less_mult)
    with e show ?thesis by simp
  qed
  then show ?thesis using AddPercentage_exact by blast
qed

theorem add_percentage_wraps_witness: "AddPercentage 1000 65535 = 990 \<and> AddPercentage 1000 20 = 1200"
  using add_percentage_wraps [of 65535 1000] add_percentage_wraps [of 20 1000] by simp

text \<open>The fixed-price estimator keeps its legacy price within both maxima, but when bumping is
  enabled it returns the configured fee cap whatever maximum the caller asks for.\<close>

theorem fixed_price_caps:
  "fst (fixed_GetLegacyGas cfg limit userMax) \<le> userMax
   \<and> fst (fixed_GetLegacyGas cfg limit userMax) \<le> EvmMaxGasPriceWei cfg
   \<and> (EvmGasBumpThreshold cfg = 0 \<or> EvmGasTipCapDefault cfg = None
      \<or> (\<exists>fee. fixed_GetDynamicFee cfg limit userMax = Inr (fee, applyMultiplier cfg limit)
            \<and> FeeCap fee = EvmGasFeeCapDefault cfg))"
  by (cases "EvmGasTipCapDefault cfg")
    (simp_all add: fixed_GetLegacyGas_def fixed_GetDynamicFee_def capGasPrice_def getMaxGasPrice_def wei_defs)

end
