(* ===== verification/Heads.thy ===== *)
theory Heads
  imports Prelude
begin

text \<open>
  \<open>Head\<close> of \<open>core/chains/evm/types/models.go\<close> and the in-memory collection of heads of
  \<open>core/chains/evm/headtracker/heads.go\<close>. Hashes are numbers, 0 being the zero hash. \<open>AddHeads\<close>
  copies every head into a fresh map and links the copies: the pointers of one such generation are
  the hashes of its map, and a pointer to a head with its chain is a generation with a hash. The
  loops that follow \<open>Parent\<close> do not end on a cycle, so they are partial functions whose value is
  \<open>None\<close> when they run forever.
\<close>

section \<open>Heads and their chains\<close>

record Head =
  Hash :: nat
  Number :: int
  ParentHash :: nat
  EVMChainID :: "int option"
  BaseFee :: "int option"

definition NewHead :: "int \<Rightarrow> nat \<Rightarrow> nat \<Rightarrow> int option \<Rightarrow> Head" where
  "NewHead number blockHash parentHash cid =
     \<lparr>Hash = blockHash, Number = wrap64 number, ParentHash = parentHash, EVMChainID = cid, BaseFee = None\<rparr>"

text \<open>A generation: the copies by hash, and the \<open>Parent\<close> field of each.\<close>

record generation =
  copy :: "nat \<Rightarrow> Head option"
  Parent :: "nat \<Rightarrow> nat option"

record head_ptr =
  gen :: generation
  ref :: nat

definition deref :: "head_ptr \<Rightarrow> Head" where
  "deref p = the (copy (gen p) (ref p))"

partial_function (option) EarliestInChain :: "(nat \<Rightarrow> nat option) \<Rightarrow> nat \<Rightarrow> nat option" where
  "EarliestInChain par h = (case par h of Some p \<Rightarrow> EarliestInChain par p | None \<Rightarrow> Some h)"

partial_function (option) IsInChain :: "(nat \<Rightarrow> nat option) \<Rightarrow> nat \<Rightarrow> nat \<Rightarrow> bool option" where
  "IsInChain par h blockHash =
     (if h = blockHash then Some True
      else (case par h of Some p \<Rightarrow> IsInChain par p blockHash | None \<Rightarrow> Some False))"

partial_function (option) HashAtHeight ::
    "(nat \<Rightarrow> int) \<Rightarrow> (nat \<Rightarrow> nat option) \<Rightarrow> nat \<Rightarrow> int \<Rightarrow> nat option" where
  "HashAtHeight num par h blockNum =
     (if num h = blockNum then Some h
      else (case par h of Some p \<Rightarrow> HashAtHeight num par p blockNum | None \<Rightarrow> Some 0))"

partial_function (option) chain_length_loop ::
    "(nat \<Rightarrow> nat option) \<Rightarrow> nat \<Rightarrow> 32 word \<Rightarrow> 32 word run option" where
  "chain_length_loop par h l =
     (case par h of
        Some p \<Rightarrow> if h = p then Some (Panic ''circular reference detected'') else chain_length_loop par p (l + 1)
      | None \<Rightarrow> Some (Ret l))"

definition ChainLength :: "(nat \<Rightarrow> nat option) \<Rightarrow> nat option \<Rightarrow> 32 word run option" where
  "ChainLength par h = (case h of None \<Rightarrow> Some (Ret 0) | Some h \<Rightarrow> chain_length_loop par h 1)"

text \<open>A statement after a call that may not return, or panic.\<close>

fun loop_bind :: "'a run option \<Rightarrow> ('a \<Rightarrow> 'b run option) \<Rightarrow> 'b run option" where
  "loop_bind None f = None"
| "loop_bind (Some (Panic e)) f = Some (Panic e)"
| "loop_bind (Some (Ret x)) f = f x"

partial_function (option) chain_hashes_loop ::
    "(nat \<Rightarrow> nat option) \<Rightarrow> nat \<Rightarrow> nat list \<Rightarrow> nat list run option" where
  "chain_hashes_loop par h hashes =
     (case par h of
        Some p \<Rightarrow> if h = p then Some (Panic ''circular reference detected'')
                  else chain_hashes_loop par p (hashes @ [h])
      | None \<Rightarrow> Some (Ret (hashes @ [h])))"

definition ChainHashes :: "(nat \<Rightarrow> nat option) \<Rightarrow> nat \<Rightarrow> nat list run option" where
  "ChainHashes par h = chain_hashes_loop par h []"

definition ToInt :: "Head option \<Rightarrow> int option" where
  "ToInt h = (case h of None \<Rightarrow> None | Some h \<Rightarrow> Some (Number h))"

definition GreaterThan :: "Head option \<Rightarrow> Head option \<Rightarrow> bool" where
  "GreaterThan h r =
     (case h of None \<Rightarrow> False
      | Some h \<Rightarrow> (case r of None \<Rightarrow> True | Some r \<Rightarrow> Number h > Number r))"

definition NextInt :: "Head option \<Rightarrow> int option" where
  "NextInt h = (case ToInt h of None \<Rightarrow> None | Some n \<Rightarrow> Some (n + 1))"

section \<open>The collection\<close>

record heads =
  head_list :: "Head list"
  head_gen :: generation

definition NewHeads :: heads where
  "NewHeads = \<lparr>head_list = [], head_gen = \<lparr>copy = (\<lambda>_. None), Parent = (\<lambda>_. None)\<rparr>\<rparr>"

definition LatestHead :: "heads \<Rightarrow> head_ptr option" where
  "LatestHead h =
     (if length (head_list h) = 0 then None
      else Some \<lparr>gen = head_gen h, ref = Hash (head_list h ! 0)\<rparr>)"

definition HeadByHash :: "heads \<Rightarrow> nat \<Rightarrow> head_ptr option" where
  "HeadByHash h hash =
     (case find (\<lambda>x. Hash x = hash) (head_list h) of
        None \<Rightarrow> None
      | Some x \<Rightarrow> Some \<lparr>gen = head_gen h, ref = Hash x\<rparr>)"

definition Count :: "heads \<Rightarrow> nat" where
  "Count h = length (head_list h)"

fun heads_map :: "Head list \<Rightarrow> (nat \<times> Head) list \<Rightarrow> (nat \<times> Head) list" where
  "heads_map [] m = m"
| "heads_map (h # hs) m =
     (if Hash h = ParentHash h then heads_map hs m else heads_map hs (assoc_put (Hash h) h m))"

fun assign_parents :: "(nat \<times> Head) list \<Rightarrow> Head list \<Rightarrow> (nat \<Rightarrow> nat option) \<Rightarrow> (nat \<Rightarrow> nat option)" where
  "assign_parents m [] par = par"
| "assign_parents m (h # hs) par =
     assign_parents m hs
       (if map_of m (ParentHash h) \<noteq> None then par(Hash h \<mapsto> ParentHash h) else par)"

definition AddHeads :: "((nat \<times> Head) list \<Rightarrow> (nat \<times> Head) list) \<Rightarrow> nat \<Rightarrow> Head list \<Rightarrow> heads \<Rightarrow> heads" where
  "AddHeads ord historyDepth newHeads h =
     (let headsMap = heads_map (head_list h @ newHeads) [];
          hs = sort_key (\<lambda>x. - Number x) (map snd (ord headsMap));
          hs = (if length hs > historyDepth then take historyDepth hs else hs);
          par = assign_parents headsMap (take (length hs - 1) hs) (\<lambda>_. None)
      in \<lparr>head_list = hs, head_gen = \<lparr>copy = map_of headsMap, Parent = par\<rparr>\<rparr>)"

section \<open>Following parents\<close>

text \<open>The links descend if every parent has a lower rank.\<close>

definition descending :: "(nat \<Rightarrow> nat) \<Rightarrow> (nat \<Rightarrow> nat option) \<Rightarrow> bool" where
  "descending rank par \<longleftrightarrow> (\<forall>h p. par h = Some p \<longrightarrow> rank p < rank h)"

text \<open>The chain of a head as a list, when it ends.\<close>

inductive chain_of :: "(nat \<Rightarrow> nat option) \<Rightarrow> nat \<Rightarrow> nat list \<Rightarrow> bool" for par :: "nat \<Rightarrow> nat option" where
  chain_end: "par h = None \<Longrightarrow> chain_of par h [h]"
| chain_more: "par h = Some p \<Longrightarrow> chain_of par p hs \<Longrightarrow> chain_of par h (h # hs)"

inductive_cases chain_ofE: "chain_of par h hs"

lemma chain_of_exists:
  assumes "descending rank par" shows "\<exists>hs. chain_of par h hs"
proof (induction "rank h" arbitrary: h rule: less_induct)
  case less
  show ?case
  proof (cases "par h")
    case None
    then show ?thesis by (blast intro: chain_end)
  next
    case (Some p)
    with assms have "rank p < rank h" by (simp add: descending_def)
    with less Some show ?thesis by (blast intro: chain_more)
  qed
qed

lemma chain_of_ranks:
  "chain_of par h hs \<Longrightarrow> descending rank par \<Longrightarrow> hs \<noteq> [] \<and> hd hs = h \<and> sorted_wrt (\<lambda>a b. rank b < rank a) hs"
proof (induction rule: chain_of.induct)
  case (chain_end h)
  then show ?case by simp
next
  case (chain_more h p hs)
  then have lt: "rank p < rank h" by (simp add: descending_def)
  from chain_more have IH: "hs \<noteq> []" "hd hs = p" "sorted_wrt (\<lambda>a b. rank b < rank a) hs" by simp_all
  have "rank x < rank h" if "x \<in> set hs" for x
    using that IH lt by (cases hs) auto
  with IH show ?case by simp
qed

lemma descending_distinct: "sorted_wrt (\<lambda>a b. (rank b :: nat) < rank a) hs \<Longrightarrow> distinct hs"
  by (induction hs) auto

lemma chain_of_distinct: "chain_of par h hs \<Longrightarrow> descending rank par \<Longrightarrow> distinct hs"
  using chain_of_ranks descending_distinct by blast

lemma EarliestInChain_chain: "chain_of par h hs \<Longrightarrow> EarliestInChain par h = Some (last hs)"
proof (induction rule: chain_of.induct)
  case (chain_more h p hs)
  then show ?case by (subst EarliestInChain.simps) (auto elim: chain_ofE)
qed (simp add: EarliestInChain.simps)

lemma IsInChain_chain: "chain_of par h hs \<Longrightarrow> IsInChain par h b = Some (b \<in> set hs)"
  by (induction rule: chain_of.induct) (subst IsInChain.simps; auto)+

lemma HashAtHeight_chain:
  "chain_of par h hs \<Longrightarrow> HashAtHeight num par h n = Some (case find (\<lambda>x. num x = n) hs of None \<Rightarrow> 0 | Some x \<Rightarrow> x)"
  by (induction rule: chain_of.induct) (subst HashAtHeight.simps; auto)+

lemma chain_length_chain:
  "chain_of par h hs \<Longrightarrow> descending rank par \<Longrightarrow> chain_length_loop par h l = Some (Ret (l + of_nat (length hs) - 1))"
proof (induction arbitrary: l rule: chain_of.induct)
  case (chain_more h p hs)
  then have "h \<noteq> p" by (auto simp: descending_def)
  with chain_more show ?case by (subst chain_length_loop.simps) (simp add: algebra_simps)
qed (simp add: chain_length_loop.simps)

lemma chain_hashes_chain:
  "chain_of par h hs \<Longrightarrow> descending rank par \<Longrightarrow> chain_hashes_loop par h acc = Some (Ret (acc @ hs))"
proof (induction arbitrary: acc rule: chain_of.induct)
  case (chain_more h p hs)
  then have "h \<noteq> p" by (auto simp: descending_def)
  with chain_more show ?case by (subst chain_hashes_loop.simps) simp
qed (simp add: chain_hashes_loop.simps)

section \<open>What \<open>AddHeads\<close> keeps\<close>

definition proper :: "Head \<Rightarrow> bool" where
  "proper h \<longleftrightarrow> Hash h \<noteq> ParentHash h"

definition map_ok :: "(nat \<times> Head) list \<Rightarrow> bool" where
  "map_ok m \<longleftrightarrow> distinct (map fst m) \<and> (\<forall>(k, v)\<in>set m. Hash v = k \<and> proper v)"

lemma heads_map_ok: "map_ok m \<Longrightarrow> map_ok (heads_map hs m)"
proof (induction hs m rule: heads_map.induct)
  case (2 h hs m)
  have "map_ok (assoc_put (Hash h) h m)" if "Hash h \<noteq> ParentHash h"
    using 2(3) that set_assoc_put_entries [of "Hash h" h m] by (auto simp: map_ok_def proper_def)
  with 2 show ?case by auto
qed simp

lemma heads_map_lookup:
  "map_of (heads_map hs m) k =
     (case find (\<lambda>x. Hash x = k \<and> proper x) (rev hs) of Some x \<Rightarrow> Some x | None \<Rightarrow> map_of m k)"
proof (induction hs m rule: heads_map.induct)
  case (1 m)
  then show ?case by simp
next
  case (2 h hs m)
  have "find P (xs @ ys) = (case find P xs of None \<Rightarrow> find P ys | Some x \<Rightarrow> Some x)" for P and xs ys :: "Head list"
    by (induction xs) auto
  with 2 show ?case by (auto simp: proper_def split: option.split)
qed

lemma heads_map_keys:
  "fst ` set (heads_map hs m) = fst ` set m \<union> Hash ` {x \<in> set hs. proper x}"
  by (induction hs m rule: heads_map.induct) (auto simp: proper_def)

text \<open>The map a call builds, and its heads in the order of the collection.\<close>

abbreviation added_map :: "heads \<Rightarrow> Head list \<Rightarrow> (nat \<times> Head) list" where
  "added_map h newHeads \<equiv> heads_map (head_list h @ newHeads) []"

definition sorted_heads :: "((nat \<times> Head) list \<Rightarrow> (nat \<times> Head) list) \<Rightarrow> (nat \<times> Head) list \<Rightarrow> Head list" where
  "sorted_heads ord m = sort_key (\<lambda>x. - Number x) (map snd (ord m))"

lemma head_list_AddHeads:
  "head_list (AddHeads ord d new h) = take d (sorted_heads ord (added_map h new))"
  by (simp add: AddHeads_def sorted_heads_def Let_def)

lemma map_ok_Nil [simp]: "map_ok []"
  by (simp add: map_ok_def)

lemma map_ok_hash: "map_ok m \<Longrightarrow> map (\<lambda>e. Hash (snd e)) m = map fst m"
  by (auto simp: map_ok_def)

lemma sorted_heads_facts:
  assumes "iteration_order ord" "map_ok m"
  shows "set (sorted_heads ord m) = snd ` set m"
    and "length (sorted_heads ord m) = length m"
    and "distinct (map Hash (sorted_heads ord m))"
    and "sorted_wrt (\<lambda>a b. Number b \<le> Number a) (sorted_heads ord m)"
proof -
  have sm: "set (ord m) = set m" by (rule iteration_order_set [OF assms(1)])
  then show "set (sorted_heads ord m) = snd ` set m" by (simp add: sorted_heads_def)
  show "length (sorted_heads ord m) = length m"
    by (simp add: sorted_heads_def iteration_order_length [OF assms(1)])
  have "mset (ord m) = mset m" using assms(1) by (simp add: iteration_order_def)
  then have "mset (map (\<lambda>e. Hash (snd e)) (ord m)) = mset (map (\<lambda>e. Hash (snd e)) m)" by simp
  also have "\<dots> = mset (map fst m)" by (simp only: map_ok_hash [OF assms(2)])
  finally have "distinct (map (\<lambda>e. Hash (snd e)) (ord m))"
    using assms(2) by (metis map_ok_def mset_eq_imp_distinct_iff)
  moreover have "mset (map Hash (sorted_heads ord m)) = mset (map (\<lambda>e. Hash (snd e)) (ord m))"
    by (simp add: sorted_heads_def multiset.map_comp comp_def)
  ultimately show "distinct (map Hash (sorted_heads ord m))" by (metis mset_eq_imp_distinct_iff)
  have "sorted (map (\<lambda>x. - Number x) (sorted_heads ord m))" by (simp add: sorted_heads_def)
  then show "sorted_wrt (\<lambda>a b. Number b \<le> Number a) (sorted_heads ord m)" by (simp add: sorted_map)
qed

lemma assign_parents_sound:
  "assign_parents m hs par k = Some p
   \<Longrightarrow> par k = Some p \<or> (\<exists>h\<in>set hs. Hash h = k \<and> p = ParentHash h \<and> map_of m p \<noteq> None)"
  by (induction m hs par rule: assign_parents.induct) (auto split: if_splits)

lemma assign_parents_other: "k \<notin> Hash ` set hs \<Longrightarrow> assign_parents m hs par k = par k"
  by (induction m hs par rule: assign_parents.induct) auto

lemma assign_parents_complete:
  "distinct (map Hash hs) \<Longrightarrow> h \<in> set hs \<Longrightarrow> map_of m (ParentHash h) \<noteq> None
   \<Longrightarrow> assign_parents m hs par (Hash h) = Some (ParentHash h)"
proof (induction m hs par rule: assign_parents.induct)
  case (2 m x hs par)
  then show ?case by (cases "h = x") (auto simp: assign_parents_other)
qed simp

lemma parents_AddHeads:
  assumes "Parent (head_gen (AddHeads ord d new h)) k = Some p"
  shows "\<exists>x\<in>set (head_list (AddHeads ord d new h)). Hash x = k \<and> p = ParentHash x
     \<and> map_of (added_map h new) p \<noteq> None"
proof -
  let ?hs = "take d (sorted_heads ord (added_map h new))"
  have "assign_parents (added_map h new) (take (length ?hs - 1) ?hs) (\<lambda>_. None) k = Some p"
    using assms by (simp add: AddHeads_def sorted_heads_def Let_def split: if_splits)
  from assign_parents_sound [OF this] obtain x where "x \<in> set (take (length ?hs - 1) ?hs)"
      and x: "Hash x = k" "p = ParentHash x" "map_of (added_map h new) p \<noteq> None" by blast
  then have "x \<in> set ?hs" by (blast dest: in_set_takeD)
  with x show ?thesis by (auto simp: head_list_AddHeads)
qed

lemma copy_AddHeads [simp]: "copy (head_gen (AddHeads ord d new h)) = map_of (added_map h new)"
  by (simp add: AddHeads_def Let_def)

lemma map_ok_lookup: "map_ok m \<Longrightarrow> map_of m k = Some v \<Longrightarrow> Hash v = k \<and> proper v"
  by (auto simp: map_ok_def dest!: map_of_SomeD)

lemma map_ok_mem: "map_ok m \<Longrightarrow> x \<in> snd ` set m \<Longrightarrow> map_of m (Hash x) = Some x"
  by (auto simp: map_ok_def)

lemma kept_lookup:
  assumes "iteration_order ord" "x \<in> set (head_list (AddHeads ord d new h))"
  shows "map_of (added_map h new) (Hash x) = Some x"
proof -
  have ok: "map_ok (added_map h new)" by (simp add: heads_map_ok)
  have "x \<in> set (sorted_heads ord (added_map h new))"
    using assms(2) by (auto simp: head_list_AddHeads dest: in_set_takeD)
  then have "x \<in> snd ` set (added_map h new)" by (simp add: sorted_heads_facts(1) [OF assms(1) ok])
  with ok show ?thesis by (rule map_ok_mem)
qed

lemma find_SomeD: "find P xs = Some x \<Longrightarrow> x \<in> set xs \<and> P x"
  by (induction xs) (auto split: if_splits)

lemma lookup_mem: "map_of (added_map h new) k = Some v \<Longrightarrow> v \<in> set (head_list h @ new) \<and> Hash v = k \<and> proper v"
  by (auto simp: heads_map_lookup dest!: find_SomeD split: option.splits)

text \<open>Block numbers grow from parent to child, as they do on any chain.\<close>

definition numbers_descend :: "Head list \<Rightarrow> bool" where
  "numbers_descend hs \<longleftrightarrow> (\<forall>a\<in>set hs. \<forall>b\<in>set hs. ParentHash a = Hash b \<longrightarrow> Number b < Number a)"

definition rank_above :: "int \<Rightarrow> (nat \<Rightarrow> Head option) \<Rightarrow> nat \<Rightarrow> nat" where
  "rank_above low cp h = (case cp h of None \<Rightarrow> 0 | Some x \<Rightarrow> nat (Number x - low))"

lemma AddHeads_descending:
  assumes "iteration_order ord" "numbers_descend (head_list h @ new)"
  shows "\<exists>rank. descending rank (Parent (head_gen (AddHeads ord d new h)))"
proof -
  let ?all = "set (head_list h @ new)" and ?m = "added_map h new"
  define low where "low = Min (Number ` ?all)"
  have low: "\<forall>x\<in>?all. low \<le> Number x" by (simp add: low_def)
  have "descending (rank_above low (map_of ?m)) (Parent (head_gen (AddHeads ord d new h)))"
    unfolding descending_def
  proof (intro allI impI)
    fix k p assume "Parent (head_gen (AddHeads ord d new h)) k = Some p"
    from parents_AddHeads [OF this] obtain x y where x: "x \<in> set (head_list (AddHeads ord d new h))"
        "Hash x = k" "p = ParentHash x" and y: "map_of ?m p = Some y" by auto
    have kx: "map_of ?m k = Some x" using kept_lookup [OF assms(1) x(1)] x(2) by simp
    have "x \<in> ?all" "y \<in> ?all" "Hash y = p" using lookup_mem kx y by blast+
    then have "Number y < Number x" "low \<le> Number y" using assms(2) x(3) low by (auto simp: numbers_descend_def)
    then show "rank_above low (map_of ?m) p < rank_above low (map_of ?m) k"
      using kx y by (simp add: rank_above_def)
  qed
  then show ?thesis by blast
qed

section \<open>Properties\<close>

text \<open>\<open>AddHeads\<close> keeps at most \<open>historyDepth\<close> heads, one per hash, ordered from the highest
  number down, and drops none that is higher than one it keeps; only a head that names itself as its
  parent is refused, and for a hash given twice the later head wins.\<close>

theorem add_heads_keeps_highest:
  assumes "iteration_order ord"
  shows "let h' = AddHeads ord d new h; all = filter proper (head_list h @ new)
     in length (head_list h') = min d (card (Hash ` set all))
      \<and> distinct (map Hash (head_list h'))
      \<and> sorted_wrt (\<lambda>a b. Number b \<le> Number a) (head_list h')
      \<and> list_all (\<lambda>x. find (\<lambda>y. Hash y = Hash x) (rev all) = Some x) (head_list h')
      \<and> list_all (\<lambda>x. Hash x \<in> Hash ` set (head_list h')
           \<or> list_all (\<lambda>y. \<exists>x'. find (\<lambda>z. Hash z = Hash x) (rev all) = Some x' \<and> Number x' \<le> Number y) (head_list h')) all"
proof -
  let ?m = "added_map h new" and ?all = "filter proper (head_list h @ new)"
  let ?s = "sorted_heads ord ?m"
  have ok: "map_ok ?m" by (simp add: heads_map_ok)
  note F = sorted_heads_facts [OF assms ok]
  have fnd: "find (\<lambda>x. Hash x = k \<and> proper x) (rev xs) = find (\<lambda>x. Hash x = k) (rev (filter proper xs))" for k xs
  proof -
    have "find P (filter Q ys) = find (\<lambda>x. P x \<and> Q x) ys" for P Q and ys :: "Head list"
      by (induction ys) auto
    then show ?thesis by (simp add: rev_filter)
  qed
  have lookup: "map_of ?m k = find (\<lambda>x. Hash x = k) (rev ?all)" for k
    unfolding heads_map_lookup fnd by (simp split: option.split)
  have "fst ` set ?m = Hash ` set ?all" by (auto simp: heads_map_keys)
  moreover have "card (fst ` set ?m) = length ?m"
    using ok distinct_card [of "map fst ?m"] by (simp add: map_ok_def)
  ultimately have len: "length (take d ?s) = min d (card (Hash ` set ?all))" using F(2) by simp
  have kept: "find (\<lambda>y. Hash y = Hash x) (rev ?all) = Some x" if "x \<in> set ?s" for x
    using that F(1) map_ok_mem [OF ok] lookup by metis
  have low: "Hash x \<in> Hash ` set (take d ?s)
       \<or> (\<forall>y\<in>set (take d ?s). \<exists>x'. find (\<lambda>z. Hash z = Hash x) (rev ?all) = Some x' \<and> Number x' \<le> Number y)"
    if x: "x \<in> set ?all" for x
  proof -
    from x have "Hash x \<in> fst ` set ?m" by (auto simp: heads_map_keys)
    then obtain x' where x': "map_of ?m (Hash x) = Some x'" by (metis image_iff map_of_eq_None_iff option.exhaust)
    then have hx: "Hash x' = Hash x" using map_ok_lookup [OF ok] by blast
    have "x' \<in> set ?s" using x' F(1) by (force dest: map_of_SomeD)
    then have "x' \<in> set (take d ?s) \<or> x' \<in> set (drop d ?s)"
      by (metis UnE append_take_drop_id set_append)
    then show ?thesis
    proof
      assume "x' \<in> set (take d ?s)"
      then show ?thesis using hx by (metis image_eqI)
    next
      assume dr: "x' \<in> set (drop d ?s)"
      have "Number x' \<le> Number y" if "y \<in> set (take d ?s)" for y
        using F(4) that dr by (metis append_take_drop_id sorted_wrt_append)
      then show ?thesis using x' lookup by metis
    qed
  qed
  show ?thesis
    unfolding Let_def head_list_AddHeads list_all_iff
    using len F(3,4) kept low
    by (auto simp: sorted_wrt_take take_map [symmetric] dest: in_set_takeD simp del: filter_append)
qed

definition fork :: "Head list" where
  "fork = [\<lparr>Hash = 11, Number = 1, ParentHash = 10, EVMChainID = None, BaseFee = None\<rparr>,
           \<lparr>Hash = 12, Number = 2, ParentHash = 11, EVMChainID = None, BaseFee = None\<rparr>,
           \<lparr>Hash = 13, Number = 3, ParentHash = 12, EVMChainID = None, BaseFee = None\<rparr>,
           \<lparr>Hash = 23, Number = 3, ParentHash = 12, EVMChainID = None, BaseFee = None\<rparr>]"

lemma AddHeads_fork:
  "map Hash (head_list (AddHeads (\<lambda>m. m) 3 fork NewHeads)) = [13, 23, 12]"
  by (simp add: fork_def AddHeads_def NewHeads_def)

theorem add_heads_keeps_highest_witness:
  "length (head_list (AddHeads (\<lambda>m. m) 3 fork NewHeads)) = 3
   \<and> map Hash (head_list (AddHeads (\<lambda>m. m) 3 fork NewHeads)) = [13, 23, 12]
   \<and> distinct (map Hash (head_list (AddHeads (\<lambda>m. m) 3 fork NewHeads)))"
proof -
  have "card (Hash ` set (filter proper (head_list NewHeads @ fork))) = 4"
    by (simp add: fork_def NewHeads_def proper_def)
  with add_heads_keeps_highest [OF iteration_order_id, of 3 fork NewHeads] AddHeads_fork
  show ?thesis by (simp add: Let_def)
qed

text \<open>As long as block numbers grow from parent to child, every pointer that the collection
  hands out has a finite chain: \<open>ChainHashes\<close> returns it, without repetition, starting at the head
  and going from each head to its parent hash, \<open>ChainLength\<close> returns its length, and
  \<open>EarliestInChain\<close> and \<open>IsInChain\<close> agree with it.\<close>

theorem chains_finite:
  assumes "iteration_order ord" and "numbers_descend (head_list h @ new)"
    and "HeadByHash (AddHeads ord d new h) hash = Some p"
  shows "\<exists>hs. ChainHashes (Parent (gen p)) (ref p) = Some (Ret hs) \<and> hd hs = hash \<and> distinct hs
     \<and> ChainLength (Parent (gen p)) (Some (ref p)) = Some (Ret (of_nat (length hs)))
     \<and> EarliestInChain (Parent (gen p)) (ref p) = Some (last hs)
     \<and> (\<forall>b. IsInChain (Parent (gen p)) (ref p) b = Some (b \<in> set hs))
     \<and> successively (\<lambda>a b. \<exists>x. copy (gen p) a = Some x \<and> ParentHash x = b \<and> copy (gen p) b \<noteq> None) hs"
proof -
  let ?h = "AddHeads ord d new h" and ?par = "Parent (head_gen (AddHeads ord d new h))"
  from assms(3) have p: "gen p = head_gen ?h" "ref p = hash"
    by (auto simp: HeadByHash_def find_Some_iff split: option.splits)
  obtain rank where rank: "descending rank ?par" using AddHeads_descending [OF assms(1,2)] by blast
  obtain hs where hs: "chain_of ?par hash hs" using chain_of_exists [OF rank] by blast
  have "successively (\<lambda>a b. \<exists>x. copy (head_gen ?h) a = Some x \<and> ParentHash x = b \<and> copy (head_gen ?h) b \<noteq> None) hs"
    using hs
  proof (induction rule: chain_of.induct)
    case (chain_more k q hs)
    from parents_AddHeads [OF chain_more(1)] obtain x where
        "x \<in> set (head_list ?h)" "Hash x = k" "q = ParentHash x" "map_of (added_map h new) q \<noteq> None" by auto
    moreover have "hs \<noteq> []" "hd hs = q" using chain_of_ranks [OF chain_more(2) rank] by simp_all
    ultimately show ?case using chain_more(3) kept_lookup [OF assms(1)]
      by (cases hs) auto
  qed simp
  then show ?thesis
    using hs chain_hashes_chain [OF hs rank] chain_length_chain [OF hs rank] EarliestInChain_chain [OF hs]
      IsInChain_chain [OF hs] chain_of_ranks [OF hs rank] chain_of_distinct [OF hs rank]
    by (auto simp: p ChainHashes_def ChainLength_def)
qed

theorem chains_finite_witness:
  "\<exists>p hs. HeadByHash (AddHeads (\<lambda>m. m) 3 fork NewHeads) 13 = Some p
     \<and> ChainHashes (Parent (gen p)) (ref p) = Some (Ret hs) \<and> hs = [13, 12]
     \<and> ChainLength (Parent (gen p)) (Some (ref p)) = Some (Ret 2)"
proof -
  have nd: "numbers_descend (head_list NewHeads @ fork)"
    by (simp add: numbers_descend_def fork_def NewHeads_def)
  obtain p where p: "HeadByHash (AddHeads (\<lambda>m. m) 3 fork NewHeads) 13 = Some p"
      "Parent (gen p) = (\<lambda>_. None)(13 \<mapsto> 12, 23 \<mapsto> 12)" "ref p = 13"
    by (simp add: HeadByHash_def AddHeads_def NewHeads_def fork_def)
  obtain hs where hs: "ChainHashes (Parent (gen p)) (ref p) = Some (Ret hs)"
      "ChainLength (Parent (gen p)) (Some (ref p)) = Some (Ret (of_nat (length hs)))"
    using chains_finite [OF iteration_order_id nd p(1)] by blast
  have "hs = [13, 12]"
    using hs(1) by (simp add: p ChainHashes_def chain_hashes_loop.simps)
  with p hs show ?thesis by auto
qed

lemma two_cycle_diverges:
  assumes "par a = Some b" "par b = Some a" "a \<noteq> b"
  shows "chain_length_loop par a l = None" "EarliestInChain par a = None"
proof -
  have "par' = par \<longrightarrow> h \<noteq> a \<and> h \<noteq> b" if "chain_length_loop par' h l = Some x" for par' h l x
    by (rule chain_length_loop.raw_induct [where P = "\<lambda>par' h l x. par' = par \<longrightarrow> h \<noteq> a \<and> h \<noteq> b", OF _ that])
      (use assms in \<open>fastforce split: if_splits option.splits\<close>)
  then show "chain_length_loop par a l = None" by (metis option.exhaust)
  have "par' = par \<longrightarrow> h \<noteq> a \<and> h \<noteq> b" if "EarliestInChain par' h = Some x" for par' h x
    by (rule EarliestInChain.raw_induct [where P = "\<lambda>par' h x. par' = par \<longrightarrow> h \<noteq> a \<and> h \<noteq> b", OF _ that])
      (use assms in fastforce)
  then show "EarliestInChain par a = None" by (metis option.exhaust)
qed

text \<open>The collection refuses a head that is its own parent, but not two heads that are each
  other's parent: once a third, lower head is in, the chain of either never ends, and \<open>ChainLength\<close>
  and \<open>EarliestInChain\<close> do not return.\<close>

theorem mutual_parents_diverge:
  assumes "iteration_order ord" and "3 \<le> d" and "distinct [Hash a, Hash b, Hash c]" and "proper c"
    and "ParentHash a = Hash b" and "ParentHash b = Hash a" and "Number c < Number a" and "Number c < Number b"
  shows "\<exists>p. HeadByHash (AddHeads ord d [a, b, c] NewHeads) (Hash a) = Some p
     \<and> ChainLength (Parent (gen p)) (Some (ref p)) = None \<and> EarliestInChain (Parent (gen p)) (ref p) = None"
proof -
  let ?m = "added_map NewHeads [a, b, c]" and ?h = "AddHeads ord d [a, b, c] NewHeads"
  have m: "?m = [(Hash a, a), (Hash b, b), (Hash c, c)]"
    using assms by (auto simp: NewHeads_def proper_def)
  have ok: "map_ok ?m" by (simp add: heads_map_ok)
  let ?s = "sorted_heads ord ?m"
  note F = sorted_heads_facts [OF assms(1) ok]
  have set_s: "set ?s = {a, b, c}" and len: "length ?s = 3" using F(1,2) unfolding m by auto
  then obtain x y z where s: "?s = [x, y, z]"
    by (auto simp: numeral_3_eq_3 length_Suc_conv)
  have "z = c"
  proof -
    have "c \<in> set ?s" "z \<in> set ?s" using set_s s by auto
    then have "z = a \<or> z = b \<or> z = c" "Number z \<le> Number c" using F(4) set_s unfolding s by auto
    then show ?thesis using assms(7,8) by auto
  qed
  moreover have "distinct (map Hash ?s)" by (rule F(3))
  ultimately have "set [x, y] = {a, b}" using set_s assms(3) unfolding s by auto
  moreover have par: "Parent (head_gen ?h) = assign_parents ?m [x, y] (\<lambda>_. None)"
    using assms(2) s len by (simp add: AddHeads_def Let_def flip: sorted_heads_def)
  ultimately have "Parent (head_gen ?h) (Hash a) = Some (Hash b)" "Parent (head_gen ?h) (Hash b) = Some (Hash a)"
    using assign_parents_complete [of "[x, y]" a ?m "\<lambda>_. None"] assign_parents_complete [of "[x, y]" b ?m "\<lambda>_. None"]
      assms(3,5,6) F(3) m s by auto
  moreover have "HeadByHash ?h (Hash a) = Some \<lparr>gen = head_gen ?h, ref = Hash a\<rparr>"
  proof -
    have "a \<in> set (head_list ?h)" using set_s assms(2) len by (simp add: head_list_AddHeads)
    then obtain q where "find (\<lambda>x. Hash x = Hash a) (head_list ?h) = Some q"
      by (cases "find (\<lambda>x. Hash x = Hash a) (head_list ?h)") (auto simp: find_None_iff)
    with find_SomeD [OF this] show ?thesis by (simp add: HeadByHash_def)
  qed
  ultimately show ?thesis
    using two_cycle_diverges [of "Parent (head_gen ?h)" "Hash a" "Hash b"] assms(3)
    by (simp add: ChainLength_def)
qed

theorem mutual_parents_diverge_witness:
  "let a = \<lparr>Hash = 1, Number = 6, ParentHash = 2, EVMChainID = None, BaseFee = None\<rparr>;
       b = \<lparr>Hash = 2, Number = 5, ParentHash = 1, EVMChainID = None, BaseFee = None\<rparr>;
       c = \<lparr>Hash = 3, Number = 4, ParentHash = 9, EVMChainID = None, BaseFee = None\<rparr>
   in \<exists>p. HeadByHash (AddHeads rev 10 [a, b, c] NewHeads) 1 = Some p
        \<and> ChainLength (Parent (gen p)) (Some (ref p)) = None"
  using mutual_parents_diverge [OF iteration_order_rev, of 10
      "\<lparr>Hash = 1, Number = 6, ParentHash = 2, EVMChainID = None, BaseFee = None\<rparr>"
      "\<lparr>Hash = 2, Number = 5, ParentHash = 1, EVMChainID = None, BaseFee = None\<rparr>"
      "\<lparr>Hash = 3, Number = 4, ParentHash = 9, EVMChainID = None, BaseFee = None\<rparr>"]
  by (auto simp: proper_def)

end
