(* ===== verification/BlockHistory.thy ===== *)
theory BlockHistory
  imports Gas Heads Mailbox StartStop
begin

text \<open>
  \<open>core/chains/evm/gas/block_history_estimator.go\<close> and \<open>chain_specific.go\<close>: the estimator that
  keeps the last blocks of the chain and prices transactions at a percentile of what they paid.
  The answers of the Ethereum client are arguments. Metrics and log lines are left out. A function
  that follows a head's parents yields an option, \<open>None\<close> meaning that it does not return.
\<close>

section \<open>Blocks and transactions\<close>

record Transaction =
  GasPrice :: "int option"
  GasLimit :: "32 word"
  Type :: nat
  MaxFeePerGas :: "int option"
  MaxPriorityFeePerGas :: "int option"

record Block =
  block_Number :: int
  block_Hash :: nat
  BaseFeePerGas :: "int option"
  Transactions :: "Transaction list"

definition chainSpecificIsUsable :: "Config \<Rightarrow> Transaction \<Rightarrow> bool" where
  "chainSpecificIsUsable cfg tx =
     (if ChainTypeIsXDai cfg
      then (case GasPrice tx of Some gp \<Rightarrow> \<not> gp < EvmMinGasPriceWei cfg | None \<Rightarrow> True)
      else True)"

definition isUsable :: "Config \<Rightarrow> Transaction \<Rightarrow> bool" where
  "isUsable cfg tx =
     (if GasLimit tx = 0 then False
      else if GasPrice tx = None \<and> Type tx = 0 then False
      else chainSpecificIsUsable cfg tx)"

definition EffectiveGasPrice :: "Block \<Rightarrow> Transaction \<Rightarrow> int option" where
  "EffectiveGasPrice block tx =
     (if Type tx = 0 \<or> Type tx = 1 then GasPrice tx
      else if Type tx = 2 then
        (case (BaseFeePerGas block, MaxPriorityFeePerGas tx, MaxFeePerGas tx) of
           (Some base, Some prio, Some maxFee) \<Rightarrow>
             if maxFee < base then None
             else if maxFee < prio then None
             else
               (case GasPrice tx of
                  Some gp \<Rightarrow> Some gp
                | None \<Rightarrow>
                    (let maxFeeMinusBaseFee = wei_Sub maxFee base;
                         priorityFeePerGas = (if maxFeeMinusBaseFee < prio then maxFeeMinusBaseFee else prio)
                     in Some (wei_Add priorityFeePerGas base)))
         | _ \<Rightarrow> GasPrice tx)
      else None)"

definition EffectiveTipCap :: "Block \<Rightarrow> Transaction \<Rightarrow> int option" where
  "EffectiveTipCap block tx =
     (if Type tx = 2 then MaxPriorityFeePerGas tx
      else if Type tx = 0 \<or> Type tx = 1 then
        (case GasPrice tx of
           None \<Rightarrow> None
         | Some gp \<Rightarrow>
             (case BaseFeePerGas block of
                None \<Rightarrow> None
              | Some base \<Rightarrow>
                  (let effectiveTipCap = wei_Sub gp base
                   in if wei_IsNegative effectiveTipCap then None else Some effectiveTipCap)))
      else None)"

text \<open>The loop over the transactions of a block; \<open>verifyBlock\<close> only logs.\<close>

fun prices_of_txs :: "Config \<Rightarrow> bool \<Rightarrow> Block \<Rightarrow> Transaction list \<Rightarrow> int list \<times> int list \<Rightarrow> int list \<times> int list" where
  "prices_of_txs cfg eip1559 block [] acc = acc"
| "prices_of_txs cfg eip1559 block (tx # txs) (gasPrices, tipCaps) =
     prices_of_txs cfg eip1559 block txs
       (if isUsable cfg tx
        then
          (case EffectiveGasPrice block tx of
             None \<Rightarrow> (gasPrices, tipCaps)
           | Some gp \<Rightarrow>
               (gasPrices @ [gp],
                if eip1559
                then (case EffectiveTipCap block tx of None \<Rightarrow> tipCaps | Some tc \<Rightarrow> tipCaps @ [tc])
                else tipCaps))
        else (gasPrices, tipCaps))"

fun getPercentilePricesFromBlocks :: "Config \<Rightarrow> bool \<Rightarrow> Block list \<Rightarrow> int list \<times> int list \<Rightarrow> int list \<times> int list" where
  "getPercentilePricesFromBlocks cfg eip1559 [] acc = acc"
| "getPercentilePricesFromBlocks cfg eip1559 (b # bs) acc =
     getPercentilePricesFromBlocks cfg eip1559 bs (prices_of_txs cfg eip1559 b (Transactions b) acc)"

definition index :: "'a list \<Rightarrow> nat \<Rightarrow> 'a run" where
  "index xs i = (if i < length xs then Ret (xs ! i) else Panic ''index out of range'')"

definition percentile_of :: "int list \<Rightarrow> nat \<Rightarrow> int run" where
  "percentile_of xs percentile = index (sort xs) (((length xs - 1) * percentile) div 100)"

definition calculatePercentilePrices :: "Config \<Rightarrow> Block list \<Rightarrow> nat \<Rightarrow> bool
    \<Rightarrow> (gas_error + int \<times> int option) run" where
  "calculatePercentilePrices cfg blocks percentile eip1559 =
     (let (gasPrices, tipCaps) = getPercentilePricesFromBlocks cfg eip1559 blocks ([], [])
      in if length gasPrices = 0 then Ret (Inl ErrNoSuitableTransactions)
         else
           run_bind (percentile_of gasPrices percentile)
             (\<lambda>gasPrice.
                if \<not> eip1559 then Ret (Inr (gasPrice, None))
                else if length tipCaps = 0 then Ret (Inl ErrNoSuitableTransactions)
                else run_map (\<lambda>tipCap. Inr (gasPrice, Some tipCap)) (percentile_of tipCaps percentile)))"

section \<open>The estimator\<close>

record BHE =
  blocks :: "Block list"
  history_size :: nat
  mb :: "head_ptr Mailbox"
  gasPrice :: "int option"
  tipCap :: "int option"
  latest :: "head_ptr option"
  initialFetch :: bool

definition NewBlockHistoryEstimator :: "Config \<Rightarrow> BHE" where
  "NewBlockHistoryEstimator cfg =
     \<lparr>blocks = [],
      history_size = max (BlockHistoryEstimatorBlockHistorySize cfg) (BlockHistoryEstimatorCheckInclusionBlocks cfg),
      mb = NewMailbox 1, gasPrice = None, tipCap = None, latest = None, initialFetch = False\<rparr>"

definition setLatest :: "head_ptr \<Rightarrow> BHE \<Rightarrow> BHE" where
  "setLatest head b = b\<lparr>latest := Some head\<rparr>"

definition OnNewLongestChain :: "head_ptr \<Rightarrow> BHE \<Rightarrow> BHE" where
  "OnNewLongestChain head b = (let b1 = setLatest head b in b1\<lparr>mb := snd (Deliver (mb b1) head)\<rparr>)"

definition getCurrentBaseFee :: "BHE \<Rightarrow> int option" where
  "getCurrentBaseFee b = (case latest b of None \<Rightarrow> None | Some h \<Rightarrow> BaseFee (deref h))"

definition getCurrentBlockNum :: "BHE \<Rightarrow> int option" where
  "getCurrentBlockNum b = (case latest b of None \<Rightarrow> None | Some h \<Rightarrow> Some (Number (deref h)))"

definition setPercentileTipCap :: "Config \<Rightarrow> int \<Rightarrow> BHE \<Rightarrow> BHE" where
  "setPercentileTipCap cfg tip b =
     (let max = EvmMaxGasPriceWei cfg; min = EvmGasTipCapMinimum cfg
      in if tip > max then b\<lparr>tipCap := Some max\<rparr>
         else if tip < min then b\<lparr>tipCap := Some min\<rparr>
         else b\<lparr>tipCap := Some tip\<rparr>)"

definition setPercentileGasPrice :: "Config \<Rightarrow> int \<Rightarrow> BHE \<Rightarrow> BHE" where
  "setPercentileGasPrice cfg price b =
     (let max = EvmMaxGasPriceWei cfg; min = EvmMinGasPriceWei cfg
      in if price > max then b\<lparr>gasPrice := Some max\<rparr>
         else if price < min then b\<lparr>gasPrice := Some min\<rparr>
         else b\<lparr>gasPrice := Some price\<rparr>)"

definition Recalculate :: "Config \<Rightarrow> BHE \<Rightarrow> BHE run" where
  "Recalculate cfg b =
     (let percentile = BlockHistoryEstimatorTransactionPercentile cfg; blockHistory = blocks b
      in if length blockHistory = 0 then Ret b
         else
           (let l = min (length blockHistory) (BlockHistoryEstimatorBlockHistorySize cfg);
                eip1559 = EvmEIP1559DynamicFees cfg
            in run_map
                 (\<lambda>r. case r of
                    Inl err \<Rightarrow> b
                  | Inr (percentileGasPrice, percentileTipCap) \<Rightarrow>
                      (let b1 = setPercentileGasPrice cfg percentileGasPrice b
                       in if eip1559 then setPercentileTipCap cfg (the percentileTipCap) b1 else b1))
                 (calculatePercentilePrices cfg (take l blockHistory) percentile eip1559)))"

section \<open>Fetching blocks\<close>

text \<open>What a request of a batch came back with, and what a batch call came back with.\<close>

datatype fetch_result = Fetched Block | FetchedOther | FetchedNil | MissingBlock | RequestError

datatype batch_answer = BatchDone "fetch_result list" | BatchDeadline | BatchError

definition head_number :: "head_ptr \<Rightarrow> nat \<Rightarrow> int" where
  "head_number p h = Number (the (copy (gen p) h))"

text \<open>The blocks of the history that the new chain does not contradict.\<close>

fun keep_blocks :: "head_ptr \<Rightarrow> Block list \<Rightarrow> (int \<times> Block) list \<Rightarrow> (int \<times> Block) list option" where
  "keep_blocks head [] m = Some m"
| "keep_blocks head (b # bs) m =
     (case EarliestInChain (Parent (gen head)) (ref head) of
        None \<Rightarrow> None
      | Some e \<Rightarrow>
          if block_Number b < head_number head e then keep_blocks head bs (assoc_put (block_Number b) b m)
          else
            (case IsInChain (Parent (gen head)) (ref head) (block_Hash b) of
               None \<Rightarrow> None
             | Some True \<Rightarrow> keep_blocks head bs (assoc_put (block_Number b) b m)
             | Some False \<Rightarrow> keep_blocks head bs m))"

function batch_loop :: "(int list \<Rightarrow> batch_answer) \<Rightarrow> nat \<Rightarrow> int list \<Rightarrow> fetch_result list option" where
  "batch_loop call batchSize reqs =
     (if reqs = [] \<or> batchSize = 0 then Some []
      else
        (case call (take batchSize reqs) of
           BatchDeadline \<Rightarrow> Some (replicate (length reqs) RequestError)
         | BatchError \<Rightarrow> None
         | BatchDone rs \<Rightarrow> map_option (\<lambda>more. rs @ more) (batch_loop call batchSize (drop batchSize reqs))))"
  by pat_completeness auto
termination
  by (relation "measure (\<lambda>(call, n, reqs). length reqs)") auto

declare batch_loop.simps [simp del]

definition batchFetch :: "Config \<Rightarrow> (int list \<Rightarrow> batch_answer) \<Rightarrow> int list \<Rightarrow> fetch_result list option" where
  "batchFetch cfg call reqs =
     (let batchSize = BlockHistoryEstimatorBatchSize cfg;
          batchSize = (if batchSize = 0 then length reqs else batchSize)
      in batch_loop call batchSize reqs)"

fun add_fetched :: "fetch_result list \<Rightarrow> (int \<times> Block) list \<Rightarrow> (int \<times> Block) list option" where
  "add_fetched [] m = Some m"
| "add_fetched (MissingBlock # rs) m = add_fetched rs m"
| "add_fetched (RequestError # rs) m = add_fetched rs m"
| "add_fetched (FetchedOther # rs) m = None"
| "add_fetched (FetchedNil # rs) m = None"
| "add_fetched (Fetched b # rs) m =
     (if block_Hash b = 0 then add_fetched rs m else add_fetched rs (assoc_put (block_Number b) b m))"

definition new_history :: "((int \<times> Block) list \<Rightarrow> (int \<times> Block) list) \<Rightarrow> nat \<Rightarrow> (int \<times> Block) list \<Rightarrow> Block list" where
  "new_history ord historySize m =
     (let newBlockHistory = sort_key block_Number (map snd (ord m))
      in drop (length newBlockHistory - historySize) newBlockHistory)"

definition FetchBlocks :: "((int \<times> Block) list \<Rightarrow> (int \<times> Block) list) \<Rightarrow> Config \<Rightarrow> (int list \<Rightarrow> batch_answer)
    \<Rightarrow> head_ptr \<Rightarrow> BHE \<Rightarrow> (gas_error option \<times> BHE) option" where
  "FetchBlocks ord cfg call head b =
     (let blockDelay = int (BlockHistoryEstimatorBlockDelay cfg);
          historySize = history_size b;
          highestBlockToFetch = Number (deref head) - blockDelay;
          lowestBlockToFetch = max 0 (Number (deref head) - int historySize - blockDelay + 1)
      in if historySize \<le> 0 then Some (Some ErrFetch, b)
         else if highestBlockToFetch < 0 then Some (Some ErrFetch, b)
         else
           (case keep_blocks head (blocks b) [] of
              None \<Rightarrow> None
            | Some m \<Rightarrow>
                (let reqs = filter (\<lambda>i. map_of m i = None) (rev [lowestBlockToFetch..highestBlockToFetch])
                 in case batchFetch cfg call reqs of
                      None \<Rightarrow> Some (Some ErrFetch, b)
                    | Some results \<Rightarrow>
                        (case add_fetched results m of
                           None \<Rightarrow> Some (Some ErrFetch, b)
                         | Some m1 \<Rightarrow> Some (None, b\<lparr>blocks := new_history ord historySize m1\<rparr>)))))"

definition FetchBlocksAndRecalculate :: "((int \<times> Block) list \<Rightarrow> (int \<times> Block) list) \<Rightarrow> Config
    \<Rightarrow> (int list \<Rightarrow> batch_answer) \<Rightarrow> head_ptr \<Rightarrow> BHE \<Rightarrow> BHE run option" where
  "FetchBlocksAndRecalculate ord cfg call head b =
     (case FetchBlocks ord cfg call head b of
        None \<Rightarrow> None
      | Some (Some err, b1) \<Rightarrow> Some (Ret b1)
      | Some (None, b1) \<Rightarrow> Some (Recalculate cfg (b1\<lparr>initialFetch := True\<rparr>)))"

text \<open>One turn of \<open>runLoop\<close> after a notification.\<close>

definition run_turn :: "((int \<times> Block) list \<Rightarrow> (int \<times> Block) list) \<Rightarrow> Config
    \<Rightarrow> (int list \<Rightarrow> batch_answer) \<Rightarrow> BHE \<Rightarrow> BHE run option" where
  "run_turn ord cfg call b =
     (case Retrieve (mb b) of
        (None, m) \<Rightarrow> Some (Ret (b\<lparr>mb := m\<rparr>))
      | (Some head, m) \<Rightarrow> FetchBlocksAndRecalculate ord cfg call head (b\<lparr>mb := m\<rparr>))"

text \<open>The function that \<open>Start\<close> runs once: the head it asks for may fail, be nil or be there.\<close>

datatype start_error = ErrHistorySizeZero | ErrStartContext

definition bhe_start :: "((int \<times> Block) list \<Rightarrow> (int \<times> Block) list) \<Rightarrow> Config
    \<Rightarrow> (int list \<Rightarrow> batch_answer) \<Rightarrow> head_ptr option option \<Rightarrow> bool \<Rightarrow> BHE
    \<Rightarrow> (start_error option \<times> BHE) run option" where
  "bhe_start ord cfg call head ctx_done b =
     (if BlockHistoryEstimatorBlockHistorySize cfg = 0 then Some (Ret (Some ErrHistorySizeZero, b))
      else
        map_option (run_map (\<lambda>b1. (if ctx_done then Some ErrStartContext else None, b1)))
          (case head of
             Some (Some h) \<Rightarrow> FetchBlocksAndRecalculate ord cfg call h (setLatest h b)
           | _ \<Rightarrow> Some (Ret b)))"

section \<open>Estimates\<close>

definition bhe_GetLegacyGas :: "Config \<Rightarrow> 32 word \<Rightarrow> int \<Rightarrow> StartStopOnceState \<times> BHE \<Rightarrow> gas_error + int \<times> 32 word" where
  "bhe_GetLegacyGas cfg gasLimit maxGasPriceWei once =
     (let (ok, _) = IfStarted (\<lambda>b. b) once; b = snd once
      in if \<not> ok then Inl ErrEstimatorNotStarted
         else
           (case gasPrice b of
              None \<Rightarrow>
                if \<not> initialFetch b then Inl ErrNoEstimateYet
                else Inr (capGasPrice (EvmGasPriceDefault cfg) maxGasPriceWei cfg, applyMultiplier cfg gasLimit)
            | Some gp \<Rightarrow> Inr (capGasPrice gp maxGasPriceWei cfg, applyMultiplier cfg gasLimit)))"

text \<open>A tip cap default of nil is passed on, and dereferenced by \<open>calcFeeCap\<close>.\<close>

definition bhe_GetDynamicFee :: "Config \<Rightarrow> 32 word \<Rightarrow> int \<Rightarrow> StartStopOnceState \<times> BHE
    \<Rightarrow> (gas_error + (int \<times> int option) \<times> 32 word) run" where
  "bhe_GetDynamicFee cfg gasLimit maxGasPriceWei once =
     (let (ok, _) = IfStarted (\<lambda>b. b) once; b = snd once
      in if \<not> EvmEIP1559DynamicFees cfg then Ret (Inl ErrEIP1559Disabled)
         else if \<not> ok then Ret (Inl ErrEstimatorNotStarted)
         else if tipCap b = None \<and> \<not> initialFetch b then Ret (Inl ErrNoEstimateYet)
         else
           (let tip = (if tipCap b = None then EvmGasTipCapDefault cfg else tipCap b);
                maxGasPrice = getMaxGasPrice maxGasPriceWei cfg
            in if EvmGasBumpThreshold cfg = 0 then Ret (Inr ((maxGasPrice, tip), applyMultiplier cfg gasLimit))
               else
                 (case getCurrentBaseFee b of
                    None \<Rightarrow> Ret (Inl ErrNoBaseFee)
                  | Some base \<Rightarrow>
                      (case tip of
                         None \<Rightarrow> Panic ''nil pointer dereference''
                       | Some t \<Rightarrow>
                           Ret (Inr ((calcFeeCap base cfg t maxGasPrice, Some t), applyMultiplier cfg gasLimit))))))"

subsection \<open>Bumping, with the connectivity check\<close>

record PriorAttempt =
  GetGasPrice :: int
  attempt_fee :: DynamicFee
  GetBroadcastBeforeBlockNum :: "int option"
  GetTxType :: nat

text \<open>From the block at the given index down, as long as they are not older than the broadcast.\<close>

fun inclusion_blocks :: "Block list \<Rightarrow> int \<Rightarrow> nat \<Rightarrow> Block list" where
  "inclusion_blocks blockHistory broadcastBefore 0 = []"
| "inclusion_blocks blockHistory broadcastBefore (Suc i) =
     (let block = blockHistory ! i
      in if block_Number block \<ge> broadcastBefore
         then block # inclusion_blocks blockHistory broadcastBefore i else [])"

fun sufficient_fee_cap :: "DynamicFee \<Rightarrow> Block list \<Rightarrow> bool run" where
  "sufficient_fee_cap fee [] = Ret True"
| "sufficient_fee_cap fee (b # bs) =
     (case BaseFeePerGas b of
        None \<Rightarrow> Panic ''nil pointer dereference''
      | Some base \<Rightarrow>
          if FeeCap fee < wei_Add (TipCap fee) base then Ret False else sufficient_fee_cap fee bs)"

text \<open>The check of one attempt: an error, the end of the whole check, or the next attempt.\<close>

datatype attempt_check = CheckFails gas_error | CheckEnds | CheckNext

definition check_attempt :: "Config \<Rightarrow> int \<Rightarrow> Block list \<Rightarrow> PriorAttempt \<Rightarrow> attempt_check run" where
  "check_attempt cfg latestBlockNum blockHistory a =
     (let l = BlockHistoryEstimatorCheckInclusionBlocks cfg;
          percentile = BlockHistoryEstimatorCheckInclusionPercentile cfg
      in case GetBroadcastBeforeBlockNum a of
           None \<Rightarrow> Ret (CheckFails ErrBroadcastBeforeNil)
         | Some broadcastBefore \<Rightarrow>
             if latestBlockNum - broadcastBefore < int l then Ret CheckNext
             else
               (let bs = inclusion_blocks blockHistory broadcastBefore l
                in if GetTxType a \<noteq> 0 \<and> GetTxType a \<noteq> 1 \<and> GetTxType a \<noteq> 2 then Ret (CheckFails ErrUnknownTxType)
                   else
                     (let eip1559 = (GetTxType a = 2)
                      in run_bind (calculatePercentilePrices cfg bs percentile eip1559)
                           (\<lambda>r. case r of
                              Inl err \<Rightarrow> Ret CheckEnds
                            | Inr (price, tip) \<Rightarrow>
                                if eip1559
                                then run_map
                                       (\<lambda>sufficientFeeCap.
                                          if sufficientFeeCap \<and> TipCap (attempt_fee a) > the tip
                                          then CheckFails ErrConnectivity else CheckNext)
                                       (sufficient_fee_cap (attempt_fee a) bs)
                                else Ret (if GetGasPrice a > price then CheckFails ErrConnectivity
                                          else CheckNext)))))"

fun check_attempts :: "Config \<Rightarrow> int \<Rightarrow> Block list \<Rightarrow> PriorAttempt list \<Rightarrow> gas_error option run" where
  "check_attempts cfg latestBlockNum blockHistory [] = Ret None"
| "check_attempts cfg latestBlockNum blockHistory (a # as) =
     run_bind (check_attempt cfg latestBlockNum blockHistory a)
       (\<lambda>r. case r of
          CheckFails e \<Rightarrow> Ret (Some e)
        | CheckEnds \<Rightarrow> Ret None
        | CheckNext \<Rightarrow> check_attempts cfg latestBlockNum blockHistory as)"

definition checkConnectivity :: "Config \<Rightarrow> PriorAttempt list \<Rightarrow> BHE \<Rightarrow> gas_error option run" where
  "checkConnectivity cfg attempts b =
     (case getCurrentBlockNum b of
        None \<Rightarrow> Ret None
      | Some latestBlockNum \<Rightarrow>
          if length (blocks b) < BlockHistoryEstimatorCheckInclusionBlocks cfg then Ret None
          else check_attempts cfg latestBlockNum (blocks b) attempts)"

definition bhe_BumpLegacyGas :: "Config \<Rightarrow> int \<Rightarrow> 32 word \<Rightarrow> int \<Rightarrow> PriorAttempt list \<Rightarrow> BHE
    \<Rightarrow> (gas_error + int \<times> 32 word) run" where
  "bhe_BumpLegacyGas cfg original gasLimit maxGasPriceWei attempts b =
     run_bind (if BlockHistoryEstimatorCheckInclusionBlocks cfg > 0 then checkConnectivity cfg attempts b
               else Ret None)
       (\<lambda>err. case err of
          Some e \<Rightarrow> Ret (Inl e)
        | None \<Rightarrow> Ret (BumpLegacyGasPriceOnly cfg (gasPrice b) original gasLimit maxGasPriceWei))"

definition bhe_BumpDynamicFee :: "Config \<Rightarrow> DynamicFee \<Rightarrow> 32 word \<Rightarrow> int \<Rightarrow> PriorAttempt list \<Rightarrow> BHE
    \<Rightarrow> (gas_error + DynamicFee \<times> 32 word) run" where
  "bhe_BumpDynamicFee cfg original gasLimit maxGasPriceWei attempts b =
     run_bind (if BlockHistoryEstimatorCheckInclusionBlocks cfg > 0 then checkConnectivity cfg attempts b
               else Ret None)
       (\<lambda>err. case err of
          Some e \<Rightarrow> Ret (Inl e)
        | None \<Rightarrow> BumpDynamicFeeOnly cfg (tipCap b) (getCurrentBaseFee b) original gasLimit maxGasPriceWei)"

section \<open>Lemmas\<close>

definition blocks_by_number :: "(int \<times> Block) list \<Rightarrow> bool" where
  "blocks_by_number m \<longleftrightarrow> distinct (map fst m) \<and> list_all (\<lambda>(k, v). block_Number v = k) m"

lemma blocks_by_number_put: "blocks_by_number m \<Longrightarrow> blocks_by_number (assoc_put (block_Number b) b m)"
  using set_assoc_put_entries [of "block_Number b" b m] by (auto simp: blocks_by_number_def list_all_iff)

lemma blocks_by_number_Nil [simp]: "blocks_by_number []"
  by (simp add: blocks_by_number_def)

lemma keep_blocks_by_number: "keep_blocks head bs m = Some m' \<Longrightarrow> blocks_by_number m \<Longrightarrow> blocks_by_number m'"
  by (induction head bs m rule: keep_blocks.induct)
    (auto simp: blocks_by_number_put split: option.splits bool.splits if_splits)

lemma add_fetched_by_number: "add_fetched rs m = Some m' \<Longrightarrow> blocks_by_number m \<Longrightarrow> blocks_by_number m'"
  by (induction rs m rule: add_fetched.induct) (auto simp: blocks_by_number_put split: if_splits)

lemma blocks_by_number_fst: "blocks_by_number m \<Longrightarrow> map (\<lambda>e. block_Number (snd e)) m = map fst m"
  by (auto simp: blocks_by_number_def list_all_iff)

lemma new_history_facts:
  assumes "iteration_order ord" "blocks_by_number m"
  shows "sorted_wrt (\<lambda>a b. block_Number a < block_Number b) (new_history ord n m)"
    and "length (new_history ord n m) = min n (length m)"
    and "set (new_history ord n m) \<subseteq> snd ` set m"
proof -
  let ?s = "sort_key block_Number (map snd (ord m))"
  have "mset (map (\<lambda>e. block_Number (snd e)) (ord m)) = mset (map (\<lambda>e. block_Number (snd e)) m)"
    using assms(1) by (simp add: iteration_order_def)
  also have "\<dots> = mset (map fst m)" by (simp only: blocks_by_number_fst [OF assms(2)])
  finally have "distinct (map (\<lambda>e. block_Number (snd e)) (ord m))"
    using assms(2) by (metis blocks_by_number_def mset_eq_imp_distinct_iff)
  moreover have "mset (map block_Number ?s) = mset (map (\<lambda>e. block_Number (snd e)) (ord m))"
    by (simp add: multiset.map_comp comp_def)
  ultimately have "distinct (map block_Number ?s)" by (metis mset_eq_imp_distinct_iff)
  moreover have "sorted (map block_Number ?s)" by simp
  ultimately have "sorted_wrt (<) (map block_Number ?s)" by (simp add: strict_sorted_iff)
  then have "sorted_wrt (\<lambda>a b. block_Number a < block_Number b) ?s" by (simp add: sorted_wrt_map)
  then show "sorted_wrt (\<lambda>a b. block_Number a < block_Number b) (new_history ord n m)"
    by (simp add: new_history_def sorted_wrt_drop Let_def)
  show "length (new_history ord n m) = min n (length m)"
    by (simp add: new_history_def iteration_order_length [OF assms(1)] Let_def min_def)
  show "set (new_history ord n m) \<subseteq> snd ` set m"
    using iteration_order_set [OF assms(1), of m] by (auto simp: new_history_def Let_def dest: in_set_dropD)
qed

lemma length_filter_mset: "mset xs = mset ys \<Longrightarrow> length (filter P xs) = length (filter P ys)"
  by (metis mset_filter size_mset)

lemma percentile_of_rank:
  assumes "xs \<noteq> []" "p \<le> 100"
  shows "\<exists>q. percentile_of xs p = Ret q \<and> q \<in> set xs
     \<and> ((length xs - 1) * p) div 100 < length (filter (\<lambda>x. x \<le> q) xs)
     \<and> length xs - ((length xs - 1) * p) div 100 \<le> length (filter (\<lambda>x. q \<le> x) xs)"
proof -
  let ?s = "sort xs" and ?i = "((length xs - 1) * p) div 100"
  have "(length xs - 1) * p \<le> (length xs - 1) * 100" using assms(2) by simp
  then have "?i \<le> length xs - 1" by (metis div_le_mono div_mult_self_is_m zero_less_numeral)
  then have i: "?i < length xs" using assms(1) by (cases xs) auto
  define q where "q = ?s ! ?i"
  have "\<forall>x\<in>set (take (Suc ?i) ?s). x \<le> q"
    using i by (auto simp: q_def in_set_conv_nth intro!: sorted_nth_mono)
  then have "filter (\<lambda>x. x \<le> q) (take (Suc ?i) ?s) = take (Suc ?i) ?s" by (rule filter_True)
  then have a: "Suc ?i \<le> length (filter (\<lambda>x. x \<le> q) ?s)"
    using i by (metis append_take_drop_id filter_append le_add1 length_append length_sort length_take less_eq_Suc_le min.absorb2)
  have "\<forall>x\<in>set (drop ?i ?s). q \<le> x"
    using i by (auto simp: q_def in_set_conv_nth intro!: sorted_nth_mono)
  then have "filter (\<lambda>x. q \<le> x) (drop ?i ?s) = drop ?i ?s" by (rule filter_True)
  then have b: "length xs - ?i \<le> length (filter (\<lambda>x. q \<le> x) ?s)"
    by (metis append_take_drop_id filter_append le_add2 length_append length_drop length_sort)
  have "q \<in> set xs" using i by (metis length_sort nth_mem q_def set_sort)
  moreover have "length (filter P ?s) = length (filter P xs)" for P
    by (rule length_filter_mset) simp
  ultimately show ?thesis
    using a b i by (auto simp: percentile_of_def index_def q_def)
qed

lemma percentile_of_Ret: "xs \<noteq> [] \<Longrightarrow> p \<le> 100 \<Longrightarrow> \<exists>q. percentile_of xs p = Ret q"
  using percentile_of_rank by blast

lemma calculate_Ret:
  assumes "p \<le> 100"
  shows "\<exists>r. calculatePercentilePrices cfg bs p e = Ret r
     \<and> (case r of Inl err \<Rightarrow> err = ErrNoSuitableTransactions | Inr (g, t) \<Rightarrow> (t = None) = (\<not> e))"
proof -
  obtain gs ts where g: "getPercentilePricesFromBlocks cfg e bs ([], []) = (gs, ts)"
    by (cases "getPercentilePricesFromBlocks cfg e bs ([], [])")
  show ?thesis
  proof (cases "gs = []")
    case False
    then obtain q where q: "percentile_of gs p = Ret q" using percentile_of_Ret assms by blast
    show ?thesis
    proof (cases "ts = []")
      case False
      then obtain t where "percentile_of ts p = Ret t" using percentile_of_Ret assms by blast
      with q \<open>gs \<noteq> []\<close> False g show ?thesis by (cases e) (simp_all add: calculatePercentilePrices_def)
    qed (use q \<open>gs \<noteq> []\<close> g in \<open>cases e; simp add: calculatePercentilePrices_def\<close>)
  qed (use g in \<open>simp add: calculatePercentilePrices_def\<close>)
qed

lemma calculate_gas_price:
  assumes "calculatePercentilePrices cfg bs p e = Ret (Inr (price, tip))"
  shows "percentile_of (fst (getPercentilePricesFromBlocks cfg e bs ([], []))) p = Ret price"
    and "e \<Longrightarrow> \<exists>t. tip = Some t \<and> percentile_of (snd (getPercentilePricesFromBlocks cfg e bs ([], []))) p = Ret t"
  using assms
  by (auto simp: calculatePercentilePrices_def run_simps split: prod.splits if_splits)

lemma inclusion_blocks_young:
  "list_all (\<lambda>b. broadcastBefore \<le> block_Number b) (inclusion_blocks h broadcastBefore l)"
  by (induction l) (simp_all add: Let_def)

lemma check_attempts_cases:
  assumes "check_attempts cfg num h as = Ret (Some e)"
  shows "\<exists>a\<in>set as. check_attempt cfg num h a = Ret (CheckFails e)"
  using assms
proof (induction as)
  case (Cons a as)
  then obtain r where "check_attempt cfg num h a = Ret r" by (auto simp: run_simps)
  with Cons show ?case by (cases r) auto
qed simp

lemma check_attempt_fails:
  assumes "check_attempt cfg n h a = Ret (CheckFails ErrConnectivity)" and "GetBroadcastBeforeBlockNum a = Some bb"
  shows "\<exists>price tip. int (BlockHistoryEstimatorCheckInclusionBlocks cfg) \<le> n - bb
      \<and> calculatePercentilePrices cfg (inclusion_blocks h bb (BlockHistoryEstimatorCheckInclusionBlocks cfg))
           (BlockHistoryEstimatorCheckInclusionPercentile cfg) (GetTxType a = 2) = Ret (Inr (price, tip))
      \<and> (if GetTxType a = 2 then TipCap (attempt_fee a) > the tip else GetGasPrice a > price)"
proof (cases "calculatePercentilePrices cfg (inclusion_blocks h bb (BlockHistoryEstimatorCheckInclusionBlocks cfg))
           (BlockHistoryEstimatorCheckInclusionPercentile cfg) (GetTxType a = 2)")
  case (Ret r)
  show ?thesis
  proof (cases r)
    case (Inl e)
    with assms Ret show ?thesis by (simp add: check_attempt_def Let_def split: if_splits)
  next
    case (Inr pt)
    obtain price tip where "pt = (price, tip)" by (cases pt)
    with assms Ret Inr show ?thesis
      by (cases "sufficient_fee_cap (attempt_fee a) (inclusion_blocks h bb (BlockHistoryEstimatorCheckInclusionBlocks cfg))")
        (auto simp: check_attempt_def Let_def split: if_splits)
  qed
next
  case (Panic m)
  with assms show ?thesis by (simp add: check_attempt_def Let_def split: if_splits)
qed

section \<open>Properties\<close>

text \<open>C30: After a successful fetch the history is strictly ascending by block number and no longer
  than the configured size, whatever order Go's map iteration takes.\<close>

theorem history_ascending:
  assumes "iteration_order ord" and "FetchBlocks ord cfg call head b = Some (None, b')"
  shows "sorted_wrt (\<lambda>x y. block_Number x < block_Number y) (blocks b') \<and> length (blocks b') \<le> history_size b
     \<and> history_size b' = history_size b \<and> history_size b > 0"
proof -
  from assms(2) obtain m rs m' where m: "keep_blocks head (blocks b) [] = Some m" "add_fetched rs m = Some m'"
      and b': "b' = b\<lparr>blocks := new_history ord (history_size b) m'\<rparr>" and pos: "history_size b > 0"
    by (auto simp: FetchBlocks_def Let_def split: option.splits if_splits)
  have "blocks_by_number m'"
    using keep_blocks_by_number [OF m(1)] add_fetched_by_number [OF m(2)] by simp
  from new_history_facts [OF assms(1) this, of "history_size b"] b' pos show ?thesis by simp
qed

definition blk :: "int \<Rightarrow> int list \<Rightarrow> Block" where
  "blk n prices = \<lparr>block_Number = n, block_Hash = nat (100 + n), BaseFeePerGas = Some 10,
     Transactions = map (\<lambda>p. \<lparr>GasPrice = Some p, GasLimit = 21000, Type = 0, MaxFeePerGas = None,
       MaxPriorityFeePerGas = None\<rparr>) prices\<rparr>"

definition head10 :: head_ptr where
  "head10 = \<lparr>gen = \<lparr>copy = (\<lambda>h. if h = 110 then Some \<lparr>Hash = 110, Number = 10, ParentHash = 109, EVMChainID = None,
     BaseFee = Some 10\<rparr> else None), Parent = (\<lambda>_. None)\<rparr>, ref = 110\<rparr>"

theorem history_ascending_witness:
  "\<exists>b'. FetchBlocks rev cfg0 (\<lambda>ns. BatchDone (map (\<lambda>n. Fetched (blk n [])) ns)) head10
          (NewBlockHistoryEstimator cfg0) = Some (None, b')
     \<and> blocks b' = [blk 8 [], blk 9 []] \<and> length (blocks b') \<le> history_size (NewBlockHistoryEstimator cfg0)"
proof -
  have up: "[8..9] = [8, 9 :: int]" by (simp add: upto.simps)
  obtain b' where b': "FetchBlocks rev cfg0 (\<lambda>ns. BatchDone (map (\<lambda>n. Fetched (blk n [])) ns)) head10
          (NewBlockHistoryEstimator cfg0) = Some (None, b')" "blocks b' = [blk 8 [], blk 9 []]"
    by (simp add: FetchBlocks_def NewBlockHistoryEstimator_def cfg0_def head10_def deref_def up batchFetch_def
        batch_loop.simps blk_def new_history_def)
  from history_ascending [OF iteration_order_rev b'(1)] b' show ?thesis by blast
qed

text \<open>For a percentile of at most 100 no index runs out of range, and the estimated gas price is a
  price that was paid, with more than the percentile's share of the sampled prices at or below it and
  the rest at or above it.\<close>

theorem percentile_price:
  assumes "p \<le> 100" and "calculatePercentilePrices cfg bs p eip1559 = r"
  shows "\<not> panics r \<and> (case r of
       Ret (Inr (price, tip)) \<Rightarrow>
         (let paid = fst (getPercentilePricesFromBlocks cfg eip1559 bs ([], []))
          in price \<in> set paid
             \<and> ((length paid - 1) * p) div 100 < length (filter (\<lambda>x. x \<le> price) paid)
             \<and> length paid - ((length paid - 1) * p) div 100 \<le> length (filter (\<lambda>x. price \<le> x) paid))
     | Ret (Inl err) \<Rightarrow> err = ErrNoSuitableTransactions
     | Panic m \<Rightarrow> False)"
proof -
  obtain x where x: "r = Ret x" and c: "case x of Inl err \<Rightarrow> err = ErrNoSuitableTransactions | Inr (g, t) \<Rightarrow> (t = None) = (\<not> eip1559)"
    using calculate_Ret [OF assms(1), of cfg bs eip1559] assms(2) by auto
  show ?thesis
  proof (cases x)
    case (Inl err)
    then show ?thesis using x c by simp
  next
    case (Inr y)
    obtain price tip where y: "y = (price, tip)" by (cases y)
    let ?paid = "fst (getPercentilePricesFromBlocks cfg eip1559 bs ([], []))"
    have q: "percentile_of ?paid p = Ret price"
      using calculate_gas_price(1) assms(2) x Inr y by simp
    then have "?paid \<noteq> []" by (auto simp: percentile_of_def index_def split: if_splits)
    from percentile_of_rank [OF this assms(1)] q x Inr y show ?thesis by (simp add: Let_def)
  qed
qed

theorem percentile_price_witness:
  "calculatePercentilePrices cfg0 [blk 1 [30, 10], blk 2 [20]] 60 False = Ret (Inr (20, None))
   \<and> \<not> panics (calculatePercentilePrices cfg0 [blk 1 [30, 10], blk 2 [20]] 60 False)"
proof -
  have "calculatePercentilePrices cfg0 [blk 1 [30, 10], blk 2 [20]] 60 False = Ret (Inr (20, None))"
    by (simp add: calculatePercentilePrices_def blk_def isUsable_def chainSpecificIsUsable_def cfg0_def
        EffectiveGasPrice_def percentile_of_def index_def)
  then show ?thesis using percentile_price [OF _ refl, of 60 cfg0 "[blk 1 [30, 10], blk 2 [20]]" False] by simp
qed

text \<open>\<open>Recalculate\<close> never panics for a percentile of at most 100, and leaves the gas price either as
  it was or within the configured minimum and maximum.\<close>

theorem recalculate_within_bounds:
  assumes "BlockHistoryEstimatorTransactionPercentile cfg \<le> 100" and "EvmMinGasPriceWei cfg \<le> EvmMaxGasPriceWei cfg"
  shows "\<exists>b'. Recalculate cfg b = Ret b' \<and> blocks b' = blocks b
     \<and> (gasPrice b' = gasPrice b
        \<or> (case gasPrice b' of None \<Rightarrow> False
            | Some p \<Rightarrow> EvmMinGasPriceWei cfg \<le> p \<and> p \<le> EvmMaxGasPriceWei cfg))"
proof (cases "blocks b = []")
  case True
  then show ?thesis by (simp add: Recalculate_def)
next
  case False
  let ?bs = "take (min (length (blocks b)) (BlockHistoryEstimatorBlockHistorySize cfg)) (blocks b)"
  obtain r where r: "calculatePercentilePrices cfg ?bs (BlockHistoryEstimatorTransactionPercentile cfg)
      (EvmEIP1559DynamicFees cfg) = Ret r"
    using calculate_Ret [OF assms(1)] by blast
  show ?thesis
  proof (cases r)
    case (Inl e)
    then show ?thesis using False r by (simp add: Recalculate_def Let_def)
  next
    case (Inr y)
    then show ?thesis using False r assms(2)
      by (cases y) (simp add: Recalculate_def setPercentileGasPrice_def setPercentileTipCap_def Let_def)
  qed
qed

theorem recalculate_within_bounds_witness:
  "\<exists>b'. Recalculate (cfg0\<lparr>EvmEIP1559DynamicFees := False\<rparr>) ((NewBlockHistoryEstimator cfg0)\<lparr>blocks := [blk 1 [5000]]\<rparr>) = Ret b'
     \<and> gasPrice b' = Some 1000"
proof -
  let ?c = "cfg0\<lparr>EvmEIP1559DynamicFees := False\<rparr>" and ?b = "(NewBlockHistoryEstimator cfg0)\<lparr>blocks := [blk 1 [5000]]\<rparr>"
  obtain b' where b': "Recalculate ?c ?b = Ret b'"
    using recalculate_within_bounds [of ?c ?b] by (auto simp: cfg0_def)
  moreover have "run_map gasPrice (Recalculate ?c ?b) = Ret (Some 1000)"
    by (simp add: Recalculate_def calculatePercentilePrices_def blk_def isUsable_def chainSpecificIsUsable_def
        cfg0_def EffectiveGasPrice_def percentile_of_def index_def setPercentileGasPrice_def)
  ultimately show ?thesis by simp
qed

text \<open>The history is ascending, yet \<open>Recalculate\<close> takes its first blocks: when it holds more than
  \<open>BlockHistorySize\<close> blocks (the inclusion check may need more), only the oldest of them are priced,
  and the newest have no influence.\<close>

theorem recalculate_ignores_newest:
  assumes "length old = BlockHistoryEstimatorBlockHistorySize cfg" and "old \<noteq> []"
  shows "run_map (\<lambda>b'. (gasPrice b', tipCap b')) (Recalculate cfg (b\<lparr>blocks := old @ newer\<rparr>))
       = run_map (\<lambda>b'. (gasPrice b', tipCap b')) (Recalculate cfg (b\<lparr>blocks := old\<rparr>))"
proof -
  obtain r where r: "calculatePercentilePrices cfg old (BlockHistoryEstimatorTransactionPercentile cfg)
      (EvmEIP1559DynamicFees cfg) = r" by simp
  have b1: "run_map (\<lambda>b'. (gasPrice b', tipCap b')) (Recalculate cfg (b\<lparr>blocks := bs\<rparr>))
     = run_map (\<lambda>x. case x of
           Inl err \<Rightarrow> (gasPrice b, tipCap b)
         | Inr (p, t) \<Rightarrow> (let b1 = setPercentileGasPrice cfg p b;
              b2 = (if EvmEIP1559DynamicFees cfg then setPercentileTipCap cfg (the t) b1 else b1)
            in (gasPrice b2, tipCap b2))) r"
    if "bs \<noteq> []" "take (min (length bs) (BlockHistoryEstimatorBlockHistorySize cfg)) bs = old" for bs
    using that r
    by (cases r) (auto simp: Recalculate_def setPercentileGasPrice_def setPercentileTipCap_def Let_def split: sum.splits)
  show ?thesis using b1 [of "old @ newer"] b1 [of old] assms by simp
qed

theorem recalculate_ignores_newest_witness:
  "run_map gasPrice (Recalculate (cfg0\<lparr>EvmEIP1559DynamicFees := False, BlockHistoryEstimatorBlockHistorySize := 1\<rparr>)
     ((NewBlockHistoryEstimator cfg0)\<lparr>blocks := [blk 1 [50], blk 2 [900]]\<rparr>)) = Ret (Some 50)"
proof -
  let ?c = "cfg0\<lparr>EvmEIP1559DynamicFees := False, BlockHistoryEstimatorBlockHistorySize := 1\<rparr>"
  let ?b = "NewBlockHistoryEstimator cfg0"
  have "run_map gasPrice (Recalculate ?c (?b\<lparr>blocks := [blk 1 [50]]\<rparr>)) = Ret (Some 50)"
    by (simp add: Recalculate_def calculatePercentilePrices_def blk_def isUsable_def chainSpecificIsUsable_def
        cfg0_def EffectiveGasPrice_def percentile_of_def index_def setPercentileGasPrice_def)
  moreover have m: "run_map gasPrice m = run_map fst (run_map (\<lambda>b'. (gasPrice b', tipCap b')) m)" for m
    by (cases m) simp_all
  moreover have "run_map (\<lambda>b'. (gasPrice b', tipCap b')) (Recalculate ?c (?b\<lparr>blocks := [blk 1 [50]] @ [blk 2 [900]]\<rparr>))
      = run_map (\<lambda>b'. (gasPrice b', tipCap b')) (Recalculate ?c (?b\<lparr>blocks := [blk 1 [50]]\<rparr>))"
    by (rule recalculate_ignores_newest) (simp_all add: cfg0_def)
  ultimately show ?thesis by (simp only: m append.simps)
qed

text \<open>The connectivity check reports an attempt only if it has been pending for the configured
  number of blocks and was priced strictly above the percentile of the checked blocks, all of them
  at or after its broadcast.\<close>

theorem connectivity_sound:
  assumes "checkConnectivity cfg attempts b = Ret (Some ErrConnectivity)"
  shows "\<exists>a\<in>set attempts. \<exists>bb n bs price tip.
      GetBroadcastBeforeBlockNum a = Some bb \<and> getCurrentBlockNum b = Some n
      \<and> int (BlockHistoryEstimatorCheckInclusionBlocks cfg) \<le> n - bb
      \<and> bs = inclusion_blocks (blocks b) bb (BlockHistoryEstimatorCheckInclusionBlocks cfg)
      \<and> list_all (\<lambda>x. bb \<le> block_Number x) bs
      \<and> calculatePercentilePrices cfg bs (BlockHistoryEstimatorCheckInclusionPercentile cfg) (GetTxType a = 2)
          = Ret (Inr (price, tip))
      \<and> (if GetTxType a = 2 then TipCap (attempt_fee a) > the tip else GetGasPrice a > price)"
proof -
  from assms obtain n a where n: "getCurrentBlockNum b = Some n" and a: "a \<in> set attempts"
      "check_attempt cfg n (blocks b) a = Ret (CheckFails ErrConnectivity)"
    by (auto simp: checkConnectivity_def dest!: check_attempts_cases split: option.splits if_splits)
  then obtain bb where bb: "GetBroadcastBeforeBlockNum a = Some bb"
    by (cases "GetBroadcastBeforeBlockNum a") (auto simp: check_attempt_def Let_def)
  let ?bs = "inclusion_blocks (blocks b) bb (BlockHistoryEstimatorCheckInclusionBlocks cfg)"
  from check_attempt_fails [OF a(2) bb] n a bb inclusion_blocks_young show ?thesis by blast
qed

definition attempt0 :: "int \<Rightarrow> int \<Rightarrow> PriorAttempt" where
  "attempt0 price bb = \<lparr>GetGasPrice = price, attempt_fee = \<lparr>FeeCap = 0, TipCap = 0\<rparr>,
     GetBroadcastBeforeBlockNum = Some bb, GetTxType = 0\<rparr>"

theorem connectivity_sound_witness:
  "checkConnectivity cfg0 [attempt0 100 7] ((NewBlockHistoryEstimator cfg0)\<lparr>blocks := [blk 8 [50]], latest := Some head10\<rparr>)
     = Ret (Some ErrConnectivity)
   \<and> (\<exists>a\<in>set [attempt0 100 7]. GetGasPrice a > 50)"
proof -
  let ?b = "(NewBlockHistoryEstimator cfg0)\<lparr>blocks := [blk 8 [50]], latest := Some head10\<rparr>"
  have r: "checkConnectivity cfg0 [attempt0 100 7] ?b = Ret (Some ErrConnectivity)"
    by (simp add: checkConnectivity_def getCurrentBlockNum_def head10_def deref_def check_attempt_def attempt0_def
        cfg0_def calculatePercentilePrices_def blk_def isUsable_def chainSpecificIsUsable_def
        EffectiveGasPrice_def percentile_of_def index_def)
  from connectivity_sound [OF r] r show ?thesis by (auto simp: attempt0_def)
qed

text \<open>The check counts its blocks from the old end of the history. An attempt broadcast after the
  block with index \<open>CheckInclusionBlocks - 1\<close> finds no block to compare with, and the whole check
  passes, however many blocks it has been pending.\<close>

theorem connectivity_check_skipped:
  assumes "GetBroadcastBeforeBlockNum a = Some bb" and "BlockHistoryEstimatorCheckInclusionBlocks cfg = Suc i"
    and "block_Number (blocks b ! i) < bb" and "GetTxType a \<le> 2"
  shows "checkConnectivity cfg [a] b = Ret None"
proof -
  have "calculatePercentilePrices cfg [] p e = Ret (Inl ErrNoSuitableTransactions)" for p e
    by (simp add: calculatePercentilePrices_def)
  then show ?thesis
    using assms by (auto simp: checkConnectivity_def check_attempt_def Let_def split: option.split)
qed

theorem connectivity_check_skipped_witness:
  "checkConnectivity cfg0 [attempt0 100 9]
     ((NewBlockHistoryEstimator cfg0)\<lparr>blocks := [blk 8 [50], blk 9 [50], blk 10 [50]], latest := Some head10\<rparr>) = Ret None
   \<and> int (BlockHistoryEstimatorCheckInclusionBlocks cfg0) \<le> 10 - 9"
  using connectivity_check_skipped [of "attempt0 100 9" 9 cfg0 0
      "(NewBlockHistoryEstimator cfg0)\<lparr>blocks := [blk 8 [50], blk 9 [50], blk 10 [50]], latest := Some head10\<rparr>"]
  by (simp add: attempt0_def cfg0_def blk_def)

text \<open>\<open>GetDynamicFee\<close> caps the fee cap at the caller's maximum but not the tip cap: for a maximum
  below the estimated tip cap it returns a fee whose tip cap exceeds its fee cap.\<close>

theorem dynamic_fee_tip_above_cap:
  assumes "EvmEIP1559DynamicFees cfg" and "tipCap b = Some t" and "getCurrentBaseFee b = Some base"
    and "userMax < t"
  shows "\<exists>cap. bhe_GetDynamicFee cfg limit userMax (StartStopOnce_Started, b)
           = Ret (Inr ((cap, Some t), applyMultiplier cfg limit)) \<and> cap \<le> userMax \<and> cap < t"
proof -
  have m: "getMaxGasPrice userMax cfg \<le> userMax" by (simp add: getMaxGasPrice_def WeiMin_def)
  have "calcFeeCap base cfg t (getMaxGasPrice userMax cfg) \<le> userMax"
    using calcFeeCap_le m by (rule order_trans)
  with m assms show ?thesis by (auto simp: bhe_GetDynamicFee_def IfStarted_def Let_def)
qed

theorem dynamic_fee_tip_above_cap_witness:
  "\<exists>cap. bhe_GetDynamicFee cfg0 21000 40
       (StartStopOnce_Started, (NewBlockHistoryEstimator cfg0)\<lparr>tipCap := Some 50, latest := Some head10\<rparr>)
     = Ret (Inr ((cap, Some 50), applyMultiplier cfg0 21000)) \<and> cap < 50"
  using dynamic_fee_tip_above_cap [of cfg0 "(NewBlockHistoryEstimator cfg0)\<lparr>tipCap := Some 50, latest := Some head10\<rparr>"
      50 10 40 21000]
  by (auto simp: cfg0_def getCurrentBaseFee_def head10_def deref_def)

end
