(* ===== verification/Estimators.thy ===== *)
theory Estimators
  imports BlockHistory
begin

text \<open>
  The layer-2 estimators (\<open>core/chains/evm/gas/l2_suggested_estimator.go\<close> and
  \<open>arbitrum_estimator.go\<close>) and what all estimators promise for legacy prices: the locale
  \<open>legacy_estimator\<close>, whose client is a transaction sender that bumps a price again and again,
  interpreted on every estimator. Waiting in a \<open>select\<close> is the argument that says which case came.
\<close>

section \<open>The layer-2 suggested price\<close>

record L2Suggested =
  l2GasPrice :: "int option"

definition NewL2SuggestedPriceEstimator :: L2Suggested where
  "NewL2SuggestedPriceEstimator = \<lparr>l2GasPrice = None\<rparr>"

text \<open>\<open>None\<close>: the call of \<open>eth_gasPrice\<close> failed.\<close>

definition refreshPrice :: "int option \<Rightarrow> L2Suggested \<Rightarrow> L2Suggested" where
  "refreshPrice answer est = (case answer of None \<Rightarrow> est | Some res \<Rightarrow> est\<lparr>l2GasPrice := Some res\<rparr>)"

text \<open>
  What the two \<open>select\<close> statements of a forced refetch can end with: the loop took the request
  and refreshed the price, the estimator was stopped, or the caller's context was done.
\<close>

datatype 'a refetch = Refetched 'a | RefetchStopped | RefetchContextDone

definition l2_GetLegacyGas :: "bool \<Rightarrow> int option refetch \<Rightarrow> 32 word \<Rightarrow> int
    \<Rightarrow> StartStopOnceState \<times> L2Suggested \<Rightarrow> (gas_error + int \<times> 32 word) \<times> L2Suggested" where
  "l2_GetLegacyGas force refetch l2GasLimit maxGasPriceWei once =
     (let body = (\<lambda>(err :: gas_error option, est).
            (case (if force
                   then (case refetch of
                           Refetched answer \<Rightarrow> (None, refreshPrice answer est)
                         | RefetchStopped \<Rightarrow> (Some ErrEstimatorStopped, est)
                         | RefetchContextDone \<Rightarrow> (Some ErrContext, est))
                   else (None, est)) of
               (Some e, o1) \<Rightarrow> (Some e, o1)
             | (None, o1) \<Rightarrow> (if l2GasPrice o1 = None then Some ErrGasPriceNotSet else None, o1)));
          (ok, err, o1) = IfStarted body (fst once, None, snd once)
      in if \<not> ok then (Inl ErrEstimatorNotStarted, o1)
         else
           (case err of
              Some e \<Rightarrow> (Inl e, o1)
            | None \<Rightarrow>
                (case l2GasPrice o1 of
                   None \<Rightarrow> (Inl ErrGasPriceNotSet, o1)
                 | Some gp \<Rightarrow>
                     if gp > maxGasPriceWei then (Inl ErrGasPriceTooHigh, o1)
                     else (Inr (gp, l2GasLimit), o1))))"

definition l2_BumpLegacyGas :: "int \<Rightarrow> 32 word \<Rightarrow> int \<Rightarrow> gas_error + int \<times> 32 word" where
  "l2_BumpLegacyGas original gasLimit maxGasPriceWei = Inl ErrNotSupported"

definition l2_GetDynamicFee :: "32 word \<Rightarrow> int \<Rightarrow> gas_error + DynamicFee \<times> 32 word" where
  "l2_GetDynamicFee gasLimit maxGasPriceWei = Inl ErrNotSupported"

definition l2_BumpDynamicFee :: "DynamicFee \<Rightarrow> 32 word \<Rightarrow> int \<Rightarrow> gas_error + DynamicFee \<times> 32 word" where
  "l2_BumpDynamicFee original gasLimit maxGasPriceWei = Inl ErrNotSupported"

section \<open>Arbitrum\<close>

record Arbitrum =
  arb_l2 :: "StartStopOnceState \<times> L2Suggested"
  perL2Tx :: "32 word"
  perL1CalldataUnit :: "32 word"

definition SetBytes :: "nat list \<Rightarrow> nat" where
  "SetBytes = foldl (\<lambda>a byte. a * 256 + byte) 0"

datatype arb_call_error = ArbCallFailed | ArbReturnLength nat | ArbNotUint64 | ArbNotUint32

text \<open>The answer of the contract call: its bytes, or \<open>None\<close> for an error.\<close>

definition callGetPricesInArbGas :: "nat list option \<Rightarrow> arb_call_error + 32 word \<times> 32 word" where
  "callGetPricesInArbGas answer =
     (case answer of
        None \<Rightarrow> Inl ArbCallFailed
      | Some b \<Rightarrow>
          if length b \<noteq> 3 * 32 then Inl (ArbReturnLength (length b))
          else
            (let bPerL2Tx = SetBytes (take 32 b); bPerL1CalldataUnit = SetBytes (take 32 (drop 32 b))
             in if \<not> bPerL2Tx < 2 ^ 64 \<or> \<not> bPerL1CalldataUnit < 2 ^ 64 then Inl ArbNotUint64
                else if bPerL2Tx > 2 ^ 32 - 1 \<or> bPerL1CalldataUnit > 2 ^ 32 - 1 then Inl ArbNotUint32
                else Inr (of_nat bPerL2Tx, of_nat bPerL1CalldataUnit)))"

definition refreshPricesInArbGas :: "nat list option \<Rightarrow> Arbitrum \<Rightarrow> Arbitrum" where
  "refreshPricesInArbGas answer a =
     (case callGetPricesInArbGas answer of
        Inl err \<Rightarrow> a
      | Inr (tx, unit) \<Rightarrow> a\<lparr>perL2Tx := tx, perL1CalldataUnit := unit\<rparr>)"

definition arb_limit :: "nat \<Rightarrow> 32 word \<Rightarrow> Arbitrum \<Rightarrow> 32 word" where
  "arb_limit calldata_len l2GasLimit a = l2GasLimit + perL2Tx a + of_nat calldata_len * perL1CalldataUnit a"

definition arb_GetLegacyGas :: "Config \<Rightarrow> bool \<Rightarrow> int option refetch \<Rightarrow> nat list option refetch \<Rightarrow> nat
    \<Rightarrow> 32 word \<Rightarrow> int \<Rightarrow> StartStopOnceState \<times> Arbitrum \<Rightarrow> (gas_error + int \<times> 32 word) \<times> Arbitrum" where
  "arb_GetLegacyGas cfg force l2_refetch refetch calldata_len l2GasLimit maxGasPriceWei once =
     (let (price, o1) = l2_GetLegacyGas force l2_refetch l2GasLimit maxGasPriceWei (arb_l2 (snd once));
          a = (snd once)\<lparr>arb_l2 := (fst (arb_l2 (snd once)), o1)\<rparr>
      in case price of
           Inl e \<Rightarrow> (Inl e, a)
         | Inr (gp, _) \<Rightarrow>
             (let body = (\<lambda>(err :: gas_error option, a).
                    if force
                    then (case refetch of
                            Refetched answer \<Rightarrow> (None, refreshPricesInArbGas answer a)
                          | RefetchStopped \<Rightarrow> (Some ErrEstimatorStopped, a)
                          | RefetchContextDone \<Rightarrow> (Some ErrContext, a))
                    else (None, a));
                  (ok, err, a1) = IfStarted body (fst once, None, a)
              in if \<not> ok then (Inl ErrEstimatorNotStarted, a1)
                 else
                   (case err of
                      Some e \<Rightarrow> (Inl e, a1)
                    | None \<Rightarrow>
                        (let chainSpecificGasLimit = arb_limit calldata_len l2GasLimit a1
                         in if chainSpecificGasLimit > EvmGasLimitMax cfg then (Inl ErrGasLimitTooHigh, a1)
                            else (Inr (gp, chainSpecificGasLimit), a1)))))"

section \<open>What the sender relies on\<close>

locale legacy_estimator =
  fixes get_legacy :: "'s \<Rightarrow> 32 word \<Rightarrow> int \<Rightarrow> (gas_error + int \<times> 32 word) run"
    and bump_legacy :: "'s \<Rightarrow> int \<Rightarrow> 32 word \<Rightarrow> int \<Rightarrow> (gas_error + int \<times> 32 word) run"
    and good :: "'s \<Rightarrow> bool"
  assumes get_capped: "get_legacy s l m = Ret (Inr (p, l')) \<Longrightarrow> p \<le> m"
    and get_nonneg: "good s \<Longrightarrow> 0 \<le> m \<Longrightarrow> get_legacy s l m = Ret (Inr (p, l')) \<Longrightarrow> 0 \<le> p"
    and bump_capped: "bump_legacy s q l m = Ret (Inr (p, l')) \<Longrightarrow> p \<le> m"
    and bump_raises: "good s \<Longrightarrow> 0 \<le> q \<Longrightarrow> bump_legacy s q l m = Ret (Inr (p, l')) \<Longrightarrow> q < p"
begin

text \<open>The prices of a first attempt and its successive bumps, the estimator being in the given state
  each time, until one is refused.\<close>

fun bumps :: "'s list \<Rightarrow> int \<Rightarrow> 32 word \<Rightarrow> int \<Rightarrow> int list" where
  "bumps [] q l m = []"
| "bumps (s # ss) q l m =
     (case bump_legacy s q l m of Ret (Inr (p, _)) \<Rightarrow> p # bumps ss p l m | _ \<Rightarrow> [])"

fun attempts :: "'s list \<Rightarrow> 32 word \<Rightarrow> int \<Rightarrow> int list" where
  "attempts [] l m = []"
| "attempts (s # ss) l m =
     (case get_legacy s l m of Ret (Inr (p, _)) \<Rightarrow> p # bumps ss p l m | _ \<Rightarrow> [])"

lemma bumps_ladder:
  "list_all good ss \<Longrightarrow> 0 \<le> q \<Longrightarrow> sorted_wrt (<) (q # bumps ss q l m) \<and> list_all (\<lambda>p. p \<le> m) (bumps ss q l m)"
proof (induction ss arbitrary: q)
  case (Cons s ss)
  show ?case
  proof (cases "\<exists>p l'. bump_legacy s q l m = Ret (Inr (p, l'))")
    case True
    then obtain p l' where b: "bump_legacy s q l m = Ret (Inr (p, l'))" by blast
    have "q < p" "p \<le> m" using bump_raises [OF _ Cons.prems(2) b] bump_capped [OF b] Cons.prems(1) by simp_all
    moreover from this have "sorted_wrt (<) (p # bumps ss p l m) \<and> list_all (\<lambda>p. p \<le> m) (bumps ss p l m)"
      using Cons.IH [of p] Cons.prems by simp
    moreover have "bumps (s # ss) q l m = p # bumps ss p l m" using b by simp
    ultimately show ?thesis by (auto intro: less_trans)
  next
    case False
    then have "bumps (s # ss) q l m = []" by (auto split: run.split sum.split)
    then show ?thesis by simp
  qed
qed simp

lemma attempts_ladder:
  "list_all good ss \<Longrightarrow> 0 \<le> m \<Longrightarrow>
     sorted_wrt (<) (attempts ss l m) \<and> list_all (\<lambda>p. 0 \<le> p \<and> p \<le> m) (attempts ss l m)"
proof (cases ss)
  case (Cons s rest)
  assume good: "list_all good ss" and m: "0 \<le> m"
  show ?thesis
  proof (cases "\<exists>p l'. get_legacy s l m = Ret (Inr (p, l'))")
    case True
    then obtain p l' where g: "get_legacy s l m = Ret (Inr (p, l'))" by blast
    have p: "0 \<le> p" "p \<le> m" using get_nonneg [OF _ m g] get_capped [OF g] good Cons by simp_all
    with bumps_ladder [of rest p l m] good Cons g show ?thesis
      by (auto simp: list_all_iff)
  next
    case False
    then have "attempts ss l m = []" using Cons by (auto split: run.split sum.split)
    then show ?thesis by simp
  qed
qed simp

end

section \<open>The estimators provide it\<close>

definition good_config :: "Config \<Rightarrow> bool" where
  "good_config cfg \<longleftrightarrow> 0 \<le> EvmGasBumpWei cfg \<and> uint (EvmGasBumpPercent cfg) \<le> 65435
     \<and> 0 \<le> EvmGasPriceDefault cfg \<and> 0 \<le> EvmMaxGasPriceWei cfg"

lemma capGasPrice_bounds: "capGasPrice p m cfg \<le> m"
  "0 \<le> p \<Longrightarrow> 0 \<le> m \<Longrightarrow> 0 \<le> EvmMaxGasPriceWei cfg \<Longrightarrow> 0 \<le> capGasPrice p m cfg"
  by (simp_all add: capGasPrice_def getMaxGasPrice_def WeiMin_def)

lemma bumpGasPrice_ok:
  assumes "bumpGasPrice cfg c q m = (p, None)"
  shows "p \<le> m" "good_config cfg \<Longrightarrow> 0 \<le> q \<Longrightarrow> q < p"
proof -
  show "p \<le> m" using assms
    by (auto simp: bumpGasPrice_def getMaxGasPrice_def WeiMin_def Let_def split: if_splits option.splits)
  assume "good_config cfg" "0 \<le> q"
  then have "q \<le> AddPercentage q (EvmGasBumpPercent cfg)"
    using AddPercentage_ge by (simp add: good_config_def)
  then show "q < p" using assms
    by (auto simp: bumpGasPrice_def MaxWei_def Let_def split: if_splits option.splits)
qed

lemma BumpLegacyGasPriceOnly_ok:
  assumes "BumpLegacyGasPriceOnly cfg c q l m = Inr (p, l')"
  shows "p \<le> m" "good_config cfg \<Longrightarrow> 0 \<le> q \<Longrightarrow> q < p"
proof -
  have "bumpGasPrice cfg c q m = (p, None)"
    using assms by (auto simp: BumpLegacyGasPriceOnly_def split: prod.splits option.splits)
  from bumpGasPrice_ok [OF this] show "p \<le> m" "good_config cfg \<Longrightarrow> 0 \<le> q \<Longrightarrow> q < p" by blast+
qed

definition fixed_get :: "Config \<Rightarrow> 32 word \<Rightarrow> int \<Rightarrow> (gas_error + int \<times> 32 word) run" where
  "fixed_get cfg l m = Ret (Inr (fixed_GetLegacyGas cfg l m))"

definition fixed_bump :: "Config \<Rightarrow> int \<Rightarrow> 32 word \<Rightarrow> int \<Rightarrow> (gas_error + int \<times> 32 word) run" where
  "fixed_bump cfg q l m = Ret (fixed_BumpLegacyGas cfg q l m)"

interpretation fixed: legacy_estimator fixed_get fixed_bump good_config
proof unfold_locales
  fix cfg l m p l' q
  show "fixed_get cfg l m = Ret (Inr (p, l')) \<Longrightarrow> p \<le> m"
    using capGasPrice_bounds by (auto simp: fixed_get_def fixed_GetLegacyGas_def)
  show "good_config cfg \<Longrightarrow> 0 \<le> m \<Longrightarrow> fixed_get cfg l m = Ret (Inr (p, l')) \<Longrightarrow> 0 \<le> p"
    using capGasPrice_bounds by (auto simp: fixed_get_def fixed_GetLegacyGas_def good_config_def)
  show "fixed_bump cfg q l m = Ret (Inr (p, l')) \<Longrightarrow> p \<le> m"
    using BumpLegacyGasPriceOnly_ok(1) by (simp add: fixed_bump_def fixed_BumpLegacyGas_def)
  show "good_config cfg \<Longrightarrow> 0 \<le> q \<Longrightarrow> fixed_bump cfg q l m = Ret (Inr (p, l')) \<Longrightarrow> q < p"
    using BumpLegacyGasPriceOnly_ok(2) by (simp add: fixed_bump_def fixed_BumpLegacyGas_def)
qed

text \<open>The block-history estimator, with its configuration and the prior attempts of the call.\<close>

type_synonym bhe_call = "Config \<times> PriorAttempt list \<times> StartStopOnceState \<times> BHE"

definition bhe_get :: "bhe_call \<Rightarrow> 32 word \<Rightarrow> int \<Rightarrow> (gas_error + int \<times> 32 word) run" where
  "bhe_get s l m = (case s of (cfg, as, once) \<Rightarrow> Ret (bhe_GetLegacyGas cfg l m once))"

definition bhe_bump :: "bhe_call \<Rightarrow> int \<Rightarrow> 32 word \<Rightarrow> int \<Rightarrow> (gas_error + int \<times> 32 word) run" where
  "bhe_bump s q l m = (case s of (cfg, as, once) \<Rightarrow> bhe_BumpLegacyGas cfg q l m as (snd once))"

definition bhe_good :: "bhe_call \<Rightarrow> bool" where
  "bhe_good s = (case s of (cfg, as, once) \<Rightarrow>
     good_config cfg \<and> (case gasPrice (snd once) of None \<Rightarrow> True | Some p \<Rightarrow> 0 \<le> p))"

interpretation bhe: legacy_estimator bhe_get bhe_bump bhe_good
proof unfold_locales
  fix s :: bhe_call and l m p l' q
  obtain cfg as st b where s: "s = (cfg, as, st, b)" by (cases s) auto
  show "bhe_get s l m = Ret (Inr (p, l')) \<Longrightarrow> p \<le> m"
    using capGasPrice_bounds(1)
    by (auto simp: s bhe_get_def bhe_GetLegacyGas_def Let_def split: prod.splits if_splits option.splits)
  show "bhe_good s \<Longrightarrow> 0 \<le> m \<Longrightarrow> bhe_get s l m = Ret (Inr (p, l')) \<Longrightarrow> 0 \<le> p"
    using capGasPrice_bounds(2)
    by (auto simp: s bhe_get_def bhe_good_def good_config_def bhe_GetLegacyGas_def Let_def
        split: prod.splits if_splits option.splits)
  have bump: "bhe_bump s q l m = Ret (Inr (p, l'))
      \<Longrightarrow> BumpLegacyGasPriceOnly cfg (gasPrice b) q l m = Inr (p, l')"
    by (auto simp: s bhe_bump_def bhe_BumpLegacyGas_def run_simps split: option.splits if_splits)
  show "bhe_bump s q l m = Ret (Inr (p, l')) \<Longrightarrow> p \<le> m"
    using BumpLegacyGasPriceOnly_ok(1) bump by blast
  show "bhe_good s \<Longrightarrow> 0 \<le> q \<Longrightarrow> bhe_bump s q l m = Ret (Inr (p, l')) \<Longrightarrow> q < p"
    using BumpLegacyGasPriceOnly_ok(2) bump by (auto simp: s bhe_good_def)
qed

text \<open>The layer-2 estimator, with the answers a call meets.\<close>

type_synonym l2_call = "bool \<times> int option refetch \<times> StartStopOnceState \<times> L2Suggested"

definition l2_get :: "l2_call \<Rightarrow> 32 word \<Rightarrow> int \<Rightarrow> (gas_error + int \<times> 32 word) run" where
  "l2_get s l m = (case s of (force, refetch, once) \<Rightarrow> Ret (fst (l2_GetLegacyGas force refetch l m once)))"

definition l2_bump :: "l2_call \<Rightarrow> int \<Rightarrow> 32 word \<Rightarrow> int \<Rightarrow> (gas_error + int \<times> 32 word) run" where
  "l2_bump s q l m = Ret (l2_BumpLegacyGas q l m)"

fun nonneg :: "int option \<Rightarrow> bool" where
  "nonneg None = True"
| "nonneg (Some p) = (0 \<le> p)"

definition l2_good :: "l2_call \<Rightarrow> bool" where
  "l2_good s = (case s of (force, refetch, once) \<Rightarrow>
     nonneg (l2GasPrice (snd once)) \<and> (case refetch of Refetched a \<Rightarrow> nonneg a | _ \<Rightarrow> True))"

lemma l2_GetLegacyGas_price:
  assumes "l2_GetLegacyGas force refetch l m once = (Inr (p, l'), o1)"
  shows "p \<le> m \<and> l' = l \<and> l2GasPrice o1 = Some p
     \<and> (p \<in> set_option (l2GasPrice (snd once)) \<or> (\<exists>a. refetch = Refetched (Some a) \<and> p = a))"
  using assms
  by (cases once; cases "fst once = StartStopOnce_Started"; cases refetch)
    (auto simp: l2_GetLegacyGas_def IfStarted_def refreshPrice_def Let_def split: option.splits if_splits)

interpretation l2: legacy_estimator l2_get l2_bump l2_good
proof unfold_locales
  fix s :: l2_call and l m p l' q
  obtain force refetch once where s: "s = (force, refetch, once)" by (cases s) auto
  have get: "l2_get s l m = Ret (Inr (p, l')) \<Longrightarrow> \<exists>o1. l2_GetLegacyGas force refetch l m once = (Inr (p, l'), o1)"
    by (simp add: s l2_get_def prod_eq_iff)
  show "l2_get s l m = Ret (Inr (p, l')) \<Longrightarrow> p \<le> m"
    using get l2_GetLegacyGas_price by blast
  show "l2_good s \<Longrightarrow> 0 \<le> m \<Longrightarrow> l2_get s l m = Ret (Inr (p, l')) \<Longrightarrow> 0 \<le> p"
  proof -
    assume g: "l2_good s" and "l2_get s l m = Ret (Inr (p, l'))"
    then obtain o1 where "l2_GetLegacyGas force refetch l m once = (Inr (p, l'), o1)" using get by blast
    from l2_GetLegacyGas_price [OF this] g show "0 \<le> p"
      by (auto simp: s l2_good_def)
  qed
  show "l2_bump s q l m = Ret (Inr (p, l')) \<Longrightarrow> p \<le> m" by (simp add: l2_bump_def l2_BumpLegacyGas_def)
  show "l2_bump s q l m = Ret (Inr (p, l')) \<Longrightarrow> q < p" by (simp add: l2_bump_def l2_BumpLegacyGas_def)
qed

section \<open>Properties\<close>

text \<open>The prices a sender gets from the block-history estimator for one transaction, the estimator
  being in the given state at each call: the first estimate, then bumps until one is refused.\<close>

fun bhe_bumps :: "bhe_call list \<Rightarrow> int \<Rightarrow> 32 word \<Rightarrow> int \<Rightarrow> int list" where
  "bhe_bumps [] price limit maxPrice = []"
| "bhe_bumps ((cfg, as, st, b) # calls) price limit maxPrice =
     (case bhe_BumpLegacyGas cfg price limit maxPrice as b of
        Ret (Inr (p, _)) \<Rightarrow> p # bhe_bumps calls p limit maxPrice
      | _ \<Rightarrow> [])"

fun bhe_attempts :: "bhe_call list \<Rightarrow> 32 word \<Rightarrow> int \<Rightarrow> int list" where
  "bhe_attempts [] limit maxPrice = []"
| "bhe_attempts ((cfg, as, st, b) # calls) limit maxPrice =
     (case bhe_GetLegacyGas cfg limit maxPrice (st, b) of
        Inr (p, _) \<Rightarrow> p # bhe_bumps calls p limit maxPrice
      | _ \<Rightarrow> [])"

lemma bhe_calls:
  "bhe_bump (cfg, as, st, b) q l m = bhe_BumpLegacyGas cfg q l m as b"
  "bhe_get (cfg, as, st, b) l m = Ret (bhe_GetLegacyGas cfg l m (st, b))"
  by (simp_all add: bhe_bump_def bhe_get_def)

lemma bhe_bumps_eq: "bhe_bumps calls q l m = bhe.bumps calls q l m"
  by (induction calls q l m rule: bhe_bumps.induct) (auto simp: bhe_calls split: run.splits sum.splits)

lemma bhe_attempts_eq: "bhe_attempts calls l m = bhe.attempts calls l m"
  by (cases "(calls, l, m)" rule: bhe_attempts.cases) (auto simp: bhe_calls bhe_bumps_eq split: sum.splits)

text \<open>Whichever blocks arrive between the attempts, the prices that the block-history estimator
  gives for a transaction, first estimate and successive bumps, are strictly increasing, not negative
  and never above the caller's maximum.\<close>

theorem block_history_attempts:
  assumes "list_all bhe_good calls" and "0 \<le> maxPrice"
  shows "sorted_wrt (<) (bhe_attempts calls limit maxPrice)
     \<and> list_all (\<lambda>p. 0 \<le> p \<and> p \<le> maxPrice) (bhe_attempts calls limit maxPrice)"
  unfolding bhe_attempts_eq by (rule bhe.attempts_ladder [OF assms])

theorem block_history_attempts_witness:
  "let cfg = cfg0\<lparr>BlockHistoryEstimatorCheckInclusionBlocks := 0\<rparr>;
       b = (NewBlockHistoryEstimator cfg)\<lparr>gasPrice := Some 60\<rparr>; call = (cfg, [], StartStopOnce_Started, b)
   in bhe_attempts [call, call, call] 21000 80 = [60, 72]
      \<and> sorted_wrt (<) (bhe_attempts [call, call, call] 21000 80)"
proof -
  let ?cfg = "cfg0\<lparr>BlockHistoryEstimatorCheckInclusionBlocks := 0\<rparr>"
  let ?c = "(?cfg, [], StartStopOnce_Started, (NewBlockHistoryEstimator ?cfg)\<lparr>gasPrice := Some 60\<rparr>)"
  have "bhe_attempts [?c, ?c, ?c] 21000 80 = [60, 72]"
    by (simp add: bhe_GetLegacyGas_def IfStarted_def bhe_BumpLegacyGas_def
        BumpLegacyGasPriceOnly_def bumpGasPrice_def cfg0_def capGasPrice_def getMaxGasPrice_def wei_defs
        AddPercentage_def NewBlockHistoryEstimator_def)
  moreover have "list_all bhe_good [?c, ?c, ?c]"
    by (simp add: bhe_good_def good_config_def cfg0_def)
  ultimately show ?thesis using block_history_attempts [of "[?c, ?c, ?c]" 80 21000] by simp
qed

lemma unat_of_nat32: "unat (of_nat n :: 32 word) = n mod 2 ^ 32"
  by (simp add: unsigned_of_nat take_bit_eq_mod)

text \<open>The Arbitrum estimator's gas limit is the original limit plus the per-transaction gas plus the
  call data length times the per-byte gas, modulo 2^32. The check against the maximum comes after the
  wrap-around: a sum beyond 32 bits can pass it, with a limit below what is needed.\<close>

theorem arbitrum_limit_wraps:
  assumes "arb_GetLegacyGas cfg False r1 r2 n limit maxPrice (st, a) = (Inr (price, l), a')"
  shows "price \<le> maxPrice \<and> l \<le> EvmGasLimitMax cfg
     \<and> unat l = (unat limit + unat (perL2Tx a) + n * unat (perL1CalldataUnit a)) mod 2 ^ 32
     \<and> (unat limit + unat (perL2Tx a) + n * unat (perL1CalldataUnit a) < 2 ^ 32
        \<or> unat l < unat limit + unat (perL2Tx a) + n * unat (perL1CalldataUnit a))"
proof -
  obtain price' o1 where l2: "l2_GetLegacyGas False r1 limit maxPrice (arb_l2 a) = (price', o1)"
    by (cases "l2_GetLegacyGas False r1 limit maxPrice (arb_l2 a)")
  have p: "\<exists>x. price' = Inr (price, x)" and l: "l = arb_limit n limit a" and m: "l \<le> EvmGasLimitMax cfg"
    using assms l2
    by (auto simp: arb_GetLegacyGas_def IfStarted_def arb_limit_def Let_def split: sum.splits if_splits)
  let ?s = "unat limit + unat (perL2Tx a) + n * unat (perL1CalldataUnit a)"
  have "of_nat ?s = l"
    by (simp add: l arb_limit_def)
  then have u: "unat l = ?s mod 2 ^ 32"
    using unat_of_nat32 [of ?s] by simp
  have "?s < 2 ^ 32 \<or> unat l < ?s"
    using u unsigned_less [of l, where ?'a = nat] by (cases "?s < 2 ^ 32") auto
  with p l2 u m l2_GetLegacyGas_price [of False r1 limit maxPrice "arb_l2 a" price _ o1] show ?thesis by auto
qed

theorem arbitrum_limit_wraps_witness:
  "let a = \<lparr>arb_l2 = (StartStopOnce_Started, \<lparr>l2GasPrice = Some 7\<rparr>), perL2Tx = 4294967290, perL1CalldataUnit = 1\<rparr>
   in fst (arb_GetLegacyGas cfg0 False RefetchStopped RefetchStopped 100 6 50 (StartStopOnce_Started, a))
        = Inr (7, 100) \<and> (100 :: nat) < 6 + 4294967290 + 100"
proof -
  let ?a = "\<lparr>arb_l2 = (StartStopOnce_Started, \<lparr>l2GasPrice = Some 7\<rparr>), perL2Tx = 4294967290, perL1CalldataUnit = 1\<rparr>"
  obtain a' where r: "arb_GetLegacyGas cfg0 False RefetchStopped RefetchStopped 100 6 50 (StartStopOnce_Started, ?a)
      = (Inr (7, 100), a')"
    by (simp add: arb_GetLegacyGas_def l2_GetLegacyGas_def IfStarted_def arb_limit_def cfg0_def)
  from arbitrum_limit_wraps [OF r] r show ?thesis by simp
qed

text \<open>The return value of the contract call: unsigned integers as big-endian words of 32 bytes.\<close>

fun be_bytes :: "nat \<Rightarrow> nat \<Rightarrow> nat list" where
  "be_bytes 0 n = []"
| "be_bytes (Suc k) n = be_bytes k (n div 256) @ [n mod 256]"

lemma length_be_bytes [simp]: "length (be_bytes k n) = k"
  by (induction k arbitrary: n) simp_all

lemma SetBytes_be_bytes: "SetBytes (be_bytes k n) = n mod 256 ^ k"
proof (induction k arbitrary: n)
  case 0
  show ?case by (simp add: SetBytes_def)
next
  case (Suc k)
  have "SetBytes (be_bytes (Suc k) n) = SetBytes (be_bytes k (n div 256)) * 256 + n mod 256"
    by (simp add: SetBytes_def)
  also have "\<dots> = n mod (256 * 256 ^ k)" by (simp add: Suc mod_mult2_eq mult.commute)
  finally show ?case by simp
qed

text \<open>The prices in Arbitrum gas are decoded from the contract's return value without loss: for the
  encoding of three integers, the first two are taken exactly if both fit in 32 bits, and otherwise
  the cached prices stay as they were.\<close>

theorem arbitrum_prices_decoded:
  assumes "x < 2 ^ 256" and "y < 2 ^ 256"
  shows "refreshPricesInArbGas (Some (be_bytes 32 x @ be_bytes 32 y @ be_bytes 32 z)) a =
    (if x < 2 ^ 32 \<and> y < 2 ^ 32 then a\<lparr>perL2Tx := of_nat x, perL1CalldataUnit := of_nat y\<rparr> else a)"
proof -
  have "(256 :: nat) ^ 32 = 2 ^ 256" by simp
  then have "SetBytes (be_bytes 32 x) = x" "SetBytes (be_bytes 32 y) = y"
    using assms by (simp_all only: SetBytes_be_bytes mod_less)
  then show ?thesis
    by (auto simp: refreshPricesInArbGas_def callGetPricesInArbGas_def Let_def)
qed

theorem arbitrum_prices_decoded_witness:
  "refreshPricesInArbGas (Some (be_bytes 32 1000 @ be_bytes 32 16 @ be_bytes 32 0))
     \<lparr>arb_l2 = (StartStopOnce_Started, NewL2SuggestedPriceEstimator), perL2Tx = 0, perL1CalldataUnit = 0\<rparr>
   = \<lparr>arb_l2 = (StartStopOnce_Started, NewL2SuggestedPriceEstimator), perL2Tx = 1000, perL1CalldataUnit = 16\<rparr>"
  by (subst arbitrum_prices_decoded) simp_all

end
