(* ===== verification/SendErrors.thy ===== *)
theory SendErrors
  imports StartStop "HOL-Library.Char_ord"
begin

text \<open>
  \<open>core/chains/evm/client/errors.go\<close>: the classification of the errors Ethereum clients answer a
  transaction with. The regular expressions are data, matched as Go's \<open>MatchString\<close> does, anywhere
  in the text (the texts are ASCII, where a character is a byte). What \<open>errors.Cause(e).Error()\<close> answers is the parameter \<open>cause\<close>. At the end the
  send-only node of \<open>send_only_node.go\<close>.
\<close>

section \<open>Regular expressions\<close>

text \<open>
  The constructs the patterns use: a literal, a literal in any case, one character of a class, one or
  more, exactly n, the two anchors, sequence and alternative.
\<close>

datatype regex =
    Lit string
  | LitI string
  | Class "char \<Rightarrow> bool"
  | Many "char \<Rightarrow> bool"
  | Times nat "char \<Rightarrow> bool"
  | Bol
  | Eol
  | Seq regex regex
  | Alt regex regex

definition lower :: "char \<Rightarrow> char" where
  "lower c = (if CHR ''A'' \<le> c \<and> c \<le> CHR ''Z'' then char_of (of_char c + (32 :: nat)) else c)"

text \<open>
  A match at a position: whether it is the start of the text, and the rest of the text; the result
  lists every position at which a match can end.
\<close>

fun ends :: "regex \<Rightarrow> bool \<times> string \<Rightarrow> (bool \<times> string) list" where
  "ends (Lit l) p = (if take (length l) (snd p) = l then [(fst p \<and> l = [], drop (length l) (snd p))] else [])"
| "ends (LitI l) p =
     (if map lower (take (length l) (snd p)) = map lower l then [(fst p \<and> l = [], drop (length l) (snd p))] else [])"
| "ends (Class P) p = (case snd p of c # cs \<Rightarrow> if P c then [(False, cs)] else [] | [] \<Rightarrow> [])"
| "ends (Many P) p =
     map (\<lambda>k. (False, drop k (snd p))) (filter (\<lambda>k. 0 < k) [0..<Suc (length (takeWhile P (snd p)))])"
| "ends (Times n P) p =
     (if n \<le> length (snd p) \<and> list_all P (take n (snd p)) then [(fst p \<and> n = 0, drop n (snd p))] else [])"
| "ends Bol p = (if fst p then [p] else [])"
| "ends Eol p = (if snd p = [] then [p] else [])"
| "ends (Seq r s) p = concat (map (ends s) (ends r p))"
| "ends (Alt r s) p = ends r p @ ends s p"

definition MatchString :: "regex \<Rightarrow> string \<Rightarrow> bool" where
  "MatchString r s \<longleftrightarrow> list_ex (\<lambda>k. ends r (k = 0, drop k s) \<noteq> []) [0..<Suc (length s)]"

fun alts :: "regex list \<Rightarrow> regex" where
  "alts [r] = r"
| "alts (r # rs) = Alt r (alts rs)"
| "alts [] = Seq Eol (Times 1 (\<lambda>_. True))"

fun seqs :: "regex list \<Rightarrow> regex" where
  "seqs [] = Lit []"
| "seqs (r # rs) = Seq r (seqs rs)"

text \<open>A pattern in which every dot is the metacharacter, as the patterns for Parity are written.\<close>

definition any_char :: "char \<Rightarrow> bool" where
  "any_char c \<longleftrightarrow> c \<noteq> CHR 0x0A"

definition dots :: "string \<Rightarrow> regex" where
  "dots s = seqs (map (\<lambda>c. if c = CHR ''.'' then Class any_char else Lit [c]) s)"

text \<open>\<open>(: |^)\<close>, and a group between it and the end of the text.\<close>

definition start_sep :: regex where
  "start_sep = Alt (Lit '': '') Bol"

definition msg_end :: "string list \<Rightarrow> regex" where
  "msg_end ms = Seq start_sep (Seq (alts (map Lit ms)) Eol)"

definition msg_sep :: "string list \<Rightarrow> regex" where
  "msg_sep ms = Seq start_sep (Seq (alts (map Lit ms)) (Alt (Lit '':'') Eol))"

definition digit :: "char \<Rightarrow> bool" where
  "digit c \<longleftrightarrow> CHR ''0'' \<le> c \<and> c \<le> CHR ''9''"

definition decimal :: "char \<Rightarrow> bool" where
  "decimal c \<longleftrightarrow> digit c \<or> c = CHR ''.''"

definition alpha :: "char \<Rightarrow> bool" where
  "alpha c \<longleftrightarrow> CHR ''a'' \<le> lower c \<and> lower c \<le> CHR ''z''"

definition hexdigit :: "char \<Rightarrow> bool" where
  "hexdigit c \<longleftrightarrow> digit c \<or> CHR ''a'' \<le> lower c \<and> lower c \<le> CHR ''f''"

section \<open>The patterns\<close>

datatype error_type =
    NonceTooLow
  | ReplacementTransactionUnderpriced
  | LimitReached
  | TransactionAlreadyInMempool
  | TerminallyUnderpriced
  | InsufficientEth
  | TxFeeExceedsCap
  | L2FeeTooLow
  | L2FeeTooHigh
  | L2Full
  | TransactionAlreadyMined
  | Fatal

type_synonym ClientErrors = "(error_type \<times> regex) list"

definition parity :: ClientErrors where
  "parity =
    [(NonceTooLow, Seq Bol (dots ''Transaction nonce is too low. Try incrementing the nonce.'')),
     (ReplacementTransactionUnderpriced,
        Seq Bol (seqs [Lit ''Transaction gas price '', Many any_char,
          dots ''is too low. There is another transaction with same nonce in the queue''])),
     (LimitReached, dots ''There are too many transactions in the queue. Your transaction was dropped due to limit. Try increasing the fee.''),
     (TransactionAlreadyInMempool, dots ''Transaction with the same hash was already imported.''),
     (TerminallyUnderpriced,
        Seq Bol (dots (''Transaction gas price is too low. It does not satisfy your node'' @ [CHR 0x27] @ ''s minimal gas price''))),
     (InsufficientEth,
        Seq Bol (Alt (dots ''Insufficient funds. The account you tried to send transaction from does not have enough funds.'')
                     (dots ''Insufficient balance for transaction.''))),
     (Fatal,
        alts [Seq Bol (dots ''Transaction gas is too low. There is not enough gas to cover minimal cost of the transaction''),
              Seq Bol (dots ''Transaction cost exceeds current gas limit. Limit:''),
              Seq Bol (Lit ''Invalid signature''),
              dots ''Recipient is banned in local queue.'',
              Lit ''Supplied gas is beyond limit'',
              Lit ''Sender is banned in local queue'',
              Lit ''Code is banned in local queue'',
              Lit ''Transaction is not permitted'',
              Lit ''Transaction is too big, see chain specification for the limit'',
              Seq Bol (Lit ''Invalid RLP data'')])]"

definition geth_fatal_messages :: "string list" where
  "geth_fatal_messages = [''exceeds block gas limit'', ''invalid sender'', ''negative value'', ''oversized data'',
     ''gas uint64 overflow'', ''intrinsic gas too low'', ''nonce too high'']"

definition insufficient_messages :: "string list" where
  "insufficient_messages = [''insufficient funds for transfer'', ''insufficient funds for gas * price + value'',
     ''insufficient balance for transfer'']"

definition tx_fee_exceeds :: regex where
  "tx_fee_exceeds = Seq start_sep (seqs [Lit ''tx fee ('', Many decimal, Lit '' '', Many alpha,
     Lit '') exceeds the configured cap ('', Many decimal, Lit '' '', Many alpha, Lit '')'', Eol])"

definition geth :: ClientErrors where
  "geth =
    [(NonceTooLow, msg_end [''nonce too low'']),
     (ReplacementTransactionUnderpriced, msg_end [''replacement transaction underpriced'']),
     (TransactionAlreadyInMempool, Seq start_sep (Alt (LitI ''known transaction'') (LitI ''already known''))),
     (TerminallyUnderpriced, msg_end [''transaction underpriced'']),
     (InsufficientEth, msg_end insufficient_messages),
     (TxFeeExceedsCap, tx_fee_exceeds),
     (Fatal, msg_end geth_fatal_messages)]"

definition whole :: "string list \<Rightarrow> regex" where
  "whole ms = Seq Bol (Seq (alts (map Lit ms)) Eol)"

definition besu :: ClientErrors where
  "besu =
    [(NonceTooLow, whole [''Nonce too low'']),
     (ReplacementTransactionUnderpriced, whole [''Replacement transaction underpriced'']),
     (TransactionAlreadyInMempool, whole [''Known transaction'']),
     (TerminallyUnderpriced, whole [''Gas price below configured minimum gas price'']),
     (InsufficientEth, whole [''Upfront cost exceeds account balance'']),
     (TxFeeExceedsCap, whole [''Transaction fee cap exceeded'']),
     (Fatal, whole [''Intrinsic gas exceeds gas limit'', ''Transaction gas limit exceeds block gas limit'', ''Invalid signature''])]"

definition erigon :: ClientErrors where
  "erigon =
    [(NonceTooLow, msg_end [''nonce too low'']),
     (ReplacementTransactionUnderpriced, msg_end [''replacement transaction underpriced'']),
     (TransactionAlreadyInMempool, Seq start_sep (Alt (Lit ''block already known'') (Lit ''already known''))),
     (TerminallyUnderpriced, msg_end [''transaction underpriced'']),
     (InsufficientEth, msg_end insufficient_messages),
     (TxFeeExceedsCap, tx_fee_exceeds),
     (Fatal, msg_end geth_fatal_messages)]"

definition arbitrum :: ClientErrors where
  "arbitrum =
    [(NonceTooLow, Alt (msg_end [''invalid transaction nonce'']) (msg_sep [''nonce too low''])),
     (TerminallyUnderpriced, msg_end [''gas price too low'']),
     (InsufficientEth, Seq start_sep (Alt (Lit ''not enough funds for gas'') (Lit ''insufficient funds for gas * price + value''))),
     (Fatal, Alt (msg_end [''invalid message format'', ''forbidden sender address''])
                 (msg_sep [''nonce too high'', ''execution reverted''])),
     (L2FeeTooLow, msg_sep [''max fee per gas less than block base fee'']),
     (L2Full, msg_sep [''queue full'', ''sequencer pending tx pool full, please try again''])]"

text \<open>The dots in \<open>tx.gasLimit\<close> and \<open>tx.gasPrice\<close> are metacharacters here too.\<close>

definition optimism :: ClientErrors where
  "optimism =
    [(L2FeeTooLow, Seq start_sep (seqs [Lit ''fee too low: '', Many digit, dots '', use at least tx.gasLimit = '', Many digit,
        dots '' and tx.gasPrice = '', Many digit, Eol])),
     (L2FeeTooHigh, Seq start_sep (seqs [Lit ''fee too high: '', Many digit, Lit '', use less than '', Many digit, Lit '' * '',
        Many decimal, Eol]))]"

definition metis_client :: ClientErrors where
  "metis_client =
    [(L2FeeTooLow, Seq start_sep (seqs [Lit ''gas price too low: '', Many digit, dots '' wei, use at least tx.gasPrice = '',
        Many digit, Lit '' wei'', Eol]))]"

definition substrate :: ClientErrors where
  "substrate =
    [(NonceTooLow, msg_end [''Pool(Stale)'']),
     (TransactionAlreadyInMempool, msg_end [''Pool(AlreadyImported)''])]"

definition avalanche :: ClientErrors where
  "avalanche =
    [(NonceTooLow, Seq start_sep (seqs [Lit ''nonce too low: address 0x'', Times 40 hexdigit, Lit '' current nonce ('', Many digit,
        Lit '') > tx nonce ('', Many digit, Lit '')'', Eol]))]"

definition nethermind :: ClientErrors where
  "nethermind =
    [(NonceTooLow, msg_end [''OldNonce'']),
     (TerminallyUnderpriced, msg_end [''FeeTooLow'', ''FeeTooLowToCompete'']),
     (TransactionAlreadyInMempool, msg_end [''AlreadyKnown'', ''OwnNonceAlreadyUsed'']),
     (InsufficientEth, msg_end [''InsufficientFunds'']),
     (Fatal, msg_end [''SenderIsContract'', ''Invalid'', ''Int256Overflow'', ''FailedToResolveSender'', ''GasLimitExceeded''])]"

definition harmony :: ClientErrors where
  "harmony =
    [(TransactionAlreadyMined, msg_end [''transaction already finalized'']),
     (Fatal, msg_end [''invalid shard'', ''staking message does not match directive message'',
        [CHR 0x60] @ ''from'' @ [CHR 0x60] @ '' address of transaction in blacklist'',
        [CHR 0x60] @ ''to'' @ [CHR 0x60] @ '' address of transaction in blacklist''])]"

definition clients :: "ClientErrors list" where
  "clients = [parity, geth, arbitrum, optimism, metis_client, substrate, avalanche, nethermind, harmony, besu, erigon]"

section \<open>Send errors\<close>

record 'e SendError =
  is_fatal :: bool
  err :: "'e option"

fun any_client :: "error_type \<Rightarrow> string \<Rightarrow> ClientErrors list \<Rightarrow> bool" where
  "any_client errorType str [] = False"
| "any_client errorType str (client # cs) =
     (case map_of client errorType of
        None \<Rightarrow> any_client errorType str cs
      | Some r \<Rightarrow> if MatchString r str then True else any_client errorType str cs)"

definition CauseStr :: "('e \<Rightarrow> string) \<Rightarrow> 'e SendError \<Rightarrow> string" where
  "CauseStr cause s = (case err s of Some e \<Rightarrow> cause e | None \<Rightarrow> [])"

definition is_error :: "('e \<Rightarrow> string) \<Rightarrow> 'e SendError option \<Rightarrow> error_type \<Rightarrow> bool" where
  "is_error cause s errorType =
     (case s of
        None \<Rightarrow> False
      | Some se \<Rightarrow> if err se = None then False else any_client errorType (CauseStr cause se) clients)"

definition SendError_Fatal :: "'e SendError option \<Rightarrow> bool" where
  "SendError_Fatal s = (case s of None \<Rightarrow> False | Some se \<Rightarrow> is_fatal se)"

definition IsNonceTooLowError :: "('e \<Rightarrow> string) \<Rightarrow> 'e SendError option \<Rightarrow> bool" where
  "IsNonceTooLowError cause s = is_error cause s NonceTooLow"

definition IsReplacementUnderpriced :: "('e \<Rightarrow> string) \<Rightarrow> 'e SendError option \<Rightarrow> bool" where
  "IsReplacementUnderpriced cause s = is_error cause s ReplacementTransactionUnderpriced"

definition IsTransactionAlreadyMined :: "('e \<Rightarrow> string) \<Rightarrow> 'e SendError option \<Rightarrow> bool" where
  "IsTransactionAlreadyMined cause s = is_error cause s TransactionAlreadyMined"

definition IsTransactionAlreadyInMempool :: "('e \<Rightarrow> string) \<Rightarrow> 'e SendError option \<Rightarrow> bool" where
  "IsTransactionAlreadyInMempool cause s = is_error cause s TransactionAlreadyInMempool"

definition IsTerminallyUnderpriced :: "('e \<Rightarrow> string) \<Rightarrow> 'e SendError option \<Rightarrow> bool" where
  "IsTerminallyUnderpriced cause s = is_error cause s TerminallyUnderpriced"

definition IsTemporarilyUnderpriced :: "('e \<Rightarrow> string) \<Rightarrow> 'e SendError option \<Rightarrow> bool" where
  "IsTemporarilyUnderpriced cause s = is_error cause s LimitReached"

definition IsInsufficientEth :: "('e \<Rightarrow> string) \<Rightarrow> 'e SendError option \<Rightarrow> bool" where
  "IsInsufficientEth cause s = is_error cause s InsufficientEth"

definition IsTxFeeExceedsCap :: "('e \<Rightarrow> string) \<Rightarrow> 'e SendError option \<Rightarrow> bool" where
  "IsTxFeeExceedsCap cause s = is_error cause s TxFeeExceedsCap"

definition SendError_L2FeeTooLow :: "('e \<Rightarrow> string) \<Rightarrow> 'e SendError option \<Rightarrow> bool" where
  "SendError_L2FeeTooLow cause s = is_error cause s L2FeeTooLow"

definition IsL2FeeTooHigh :: "('e \<Rightarrow> string) \<Rightarrow> 'e SendError option \<Rightarrow> bool" where
  "IsL2FeeTooHigh cause s = is_error cause s L2FeeTooHigh"

definition IsL2Full :: "('e \<Rightarrow> string) \<Rightarrow> 'e SendError option \<Rightarrow> bool" where
  "IsL2Full cause s = is_error cause s L2Full"

definition isFatalSendError :: "('e \<Rightarrow> string) \<Rightarrow> 'e option \<Rightarrow> bool" where
  "isFatalSendError cause e = (case e of None \<Rightarrow> False | Some x \<Rightarrow> any_client Fatal (cause x) clients)"

text \<open>\<open>withStack\<close> is \<open>errors.WithStack\<close>.\<close>

definition NewFatalSendError :: "('e \<Rightarrow> 'e) \<Rightarrow> 'e option \<Rightarrow> 'e SendError option" where
  "NewFatalSendError withStack e =
     (case e of None \<Rightarrow> None | Some x \<Rightarrow> Some \<lparr>is_fatal = True, err = Some (withStack x)\<rparr>)"

definition NewSendError :: "('e \<Rightarrow> string) \<Rightarrow> ('e \<Rightarrow> 'e) \<Rightarrow> 'e option \<Rightarrow> 'e SendError option" where
  "NewSendError cause withStack e =
     (case e of
        None \<Rightarrow> None
      | Some x \<Rightarrow> Some \<lparr>is_fatal = isFatalSendError cause (Some x), err = Some (withStack x)\<rparr>)"

section \<open>The send-only node\<close>

record sendOnlyNode =
  so_chainID :: int
  dialed :: bool
  has_sender :: bool
  so_stopped :: bool

datatype sendonly_error = ErrDialSecondary | ErrSendOnlyChainID int

definition NewSendOnlyNode :: "int \<Rightarrow> sendOnlyNode" where
  "NewSendOnlyNode cid = \<lparr>so_chainID = cid, dialed = False, has_sender = False, so_stopped = False\<rparr>"

definition SetEthClient :: "sendOnlyNode \<Rightarrow> sendOnlyNode run" where
  "SetEthClient s =
     (if has_sender s then Panic ''sendOnlyNode.SetEthClient should only be called once!''
      else Ret (s\<lparr>has_sender := True\<rparr>))"

text \<open>The chain ID the endpoint answers with; a failed call and the value 0 are errors.\<close>

definition getChainID :: "int option \<Rightarrow> int option" where
  "getChainID answer = (case answer of None \<Rightarrow> None | Some c \<Rightarrow> if c = 0 then None else Some c)"

definition sendonly_start :: "bool \<Rightarrow> int option \<Rightarrow> sendOnlyNode \<Rightarrow> (sendonly_error option \<times> sendOnlyNode) run" where
  "sendonly_start dial_ok answer s =
     (if dialed s then Panic ''evmclient.Client.Dial(...) should only be called once during the node's lifetime.''
      else if \<not> dial_ok then Ret (Some ErrDialSecondary, s)
      else
        run_map
          (\<lambda>s1. case getChainID answer of
             None \<Rightarrow> (None, s1)
           | Some c \<Rightarrow> if c \<noteq> so_chainID s1 then (Some (ErrSendOnlyChainID c), s1) else (None, s1))
          (SetEthClient (s\<lparr>dialed := True\<rparr>)))"

definition sendonly_close :: "sendOnlyNode \<Rightarrow> sendonly_error option \<times> sendOnlyNode" where
  "sendonly_close s = (None, s\<lparr>so_stopped := True\<rparr>)"

section \<open>What the patterns match\<close>

lemma ends_Lit [simp]:
  "q \<in> set (ends (Lit l) p) \<longleftrightarrow> snd p = l @ snd q \<and> fst q = (fst p \<and> l = [])"
  by (cases q) (auto simp: append_eq_conv_conj, (metis append_take_drop_id)+)

lemma ends_alts [simp]:
  "q \<in> set (ends (alts (map Lit (m # ms))) p) \<longleftrightarrow>
     (\<exists>l\<in>set (m # ms). snd p = l @ snd q \<and> fst q = (fst p \<and> l = []))"
proof (induction ms arbitrary: m)
  case Nil
  show ?case by (simp del: ends.simps)
next
  case (Cons n ms)
  have "alts (map Lit (m # n # ms)) = Alt (Lit m) (alts (map Lit (n # ms)))" by simp
  then show ?case using Cons.IH[of n] by (simp del: ends.simps(1) alts.simps)
qed

lemma ends_sep:
  "l \<noteq> [] \<Longrightarrow> q \<in> set (ends (Alt (Lit l) Bol) p) \<longleftrightarrow> snd p = l @ snd q \<and> \<not> fst q \<or> fst p \<and> q = p"
  by (simp only: ends.simps(9) set_append Un_iff ends_Lit ends.simps(6)) auto

lemma sep_then:
  assumes "l \<noteq> []"
  shows "(\<exists>x\<in>set (ends (Alt (Lit l) Bol) p). P (snd x)) \<longleftrightarrow> (\<exists>r. snd p = l @ r \<and> P r) \<or> fst p \<and> P (snd p)"
  unfolding Bex_def ends_sep[OF assms]
proof (intro iffI; (elim disjE exE conjE)?)
  fix r assume "snd p = l @ r" "P r"
  then show "\<exists>x. (snd p = l @ snd x \<and> \<not> fst x \<or> fst p \<and> x = p) \<and> P (snd x)"
    by (intro exI[of _ "(False, r)"]) simp
next
  assume "fst p" "P (snd p)"
  then show "\<exists>x. (snd p = l @ snd x \<and> \<not> fst x \<or> fst p \<and> x = p) \<and> P (snd x)"
    by (intro exI[of _ p]) simp
qed auto

lemma start_sep_then:
  "(\<exists>x\<in>set (ends start_sep p). P (snd x)) \<longleftrightarrow> (\<exists>r. snd p = '': '' @ r \<and> P r) \<or> fst p \<and> P (snd p)"
  unfolding start_sep_def by (rule sep_then [of "'': ''" p P]) simp

lemma ends_Seq_ne: "ends (Seq r s) p \<noteq> [] \<longleftrightarrow> (\<exists>x\<in>set (ends r p). ends s x \<noteq> [])"
  by auto

lemma ends_Eol_after: "ends (Seq r Eol) p \<noteq> [] \<longleftrightarrow> (\<exists>b. (b, []) \<in> set (ends r p))"
  unfolding ends_Seq_ne by (auto simp: Bex_def split: if_splits)

lemma MatchString_iff: "MatchString r s \<longleftrightarrow> (\<exists>pre rest. s = pre @ rest \<and> ends r (pre = [], rest) \<noteq> [])"
proof -
  have "(\<exists>k\<le>length s. ends r (k = 0, drop k s) \<noteq> []) \<longleftrightarrow> (\<exists>pre rest. s = pre @ rest \<and> ends r (pre = [], rest) \<noteq> [])"
  proof
    assume "\<exists>k\<le>length s. ends r (k = 0, drop k s) \<noteq> []"
    then obtain k where "k \<le> length s" "ends r (k = 0, drop k s) \<noteq> []" by blast
    then have "s = take k s @ drop k s \<and> ends r (take k s = [], drop k s) \<noteq> []"
      by (cases "s = []") auto
    then show "\<exists>pre rest. s = pre @ rest \<and> ends r (pre = [], rest) \<noteq> []" by blast
  next
    assume "\<exists>pre rest. s = pre @ rest \<and> ends r (pre = [], rest) \<noteq> []"
    then obtain pre rest where "s = pre @ rest" "ends r (pre = [], rest) \<noteq> []" by blast
    then show "\<exists>k\<le>length s. ends r (k = 0, drop k s) \<noteq> []"
      by (intro exI[of _ "length pre"]) auto
  qed
  then show ?thesis
    by (auto simp: MatchString_def list_ex_iff less_Suc_eq_le simp del: upt_Suc)
qed

lemma ends_msg_end:
  "ends (msg_end (m # ms)) p \<noteq> [] \<longleftrightarrow> (\<exists>l\<in>set (m # ms). snd p = '': '' @ l \<or> fst p \<and> snd p = l)"
proof -
  have "ends (Seq (alts (map Lit (m # ms))) Eol) x \<noteq> [] \<longleftrightarrow> snd x \<in> set (m # ms)" for x
    unfolding ends_Eol_after ends_alts by (auto simp del: list.set)
  then have "ends (msg_end (m # ms)) p \<noteq> [] \<longleftrightarrow> (\<exists>x\<in>set (ends start_sep p). snd x \<in> set (m # ms))"
    unfolding msg_end_def ends_Seq_ne[of start_sep] by blast
  also have "... \<longleftrightarrow> (\<exists>l\<in>set (m # ms). snd p = '': '' @ l \<or> fst p \<and> snd p = l)"
    unfolding start_sep_then [of p "\<lambda>r. r \<in> set (m # ms)"] by blast
  finally show ?thesis .
qed

lemma MatchString_msg_end:
  "MatchString (msg_end (m # ms)) s \<longleftrightarrow> (\<exists>l\<in>set (m # ms). s = l \<or> (\<exists>p. s = p @ '': '' @ l))"
  unfolding MatchString_iff ends_msg_end fst_conv snd_conv by (metis append_Nil)

section \<open>Classification\<close>

lemma any_client_iff:
  "any_client t s cs \<longleftrightarrow> (\<exists>client\<in>set cs. \<exists>r. map_of client t = Some r \<and> MatchString r s)"
  by (induction cs) (auto split: option.splits)

lemma any_clientI: "client \<in> set cs \<Longrightarrow> map_of client t = Some r \<Longrightarrow> MatchString r s \<Longrightarrow> any_client t s cs"
  by (auto simp: any_client_iff)

lemma is_error_Some:
  "is_error cause (Some \<lparr>is_fatal = b, err = Some e\<rparr>) t = any_client t (cause e) clients"
  by (simp add: is_error_def CauseStr_def)

lemmas SendError_defs = NewSendError_def NewFatalSendError_def SendError_Fatal_def isFatalSendError_def is_error_Some

lemma geth_in_clients: "geth \<in> set clients"
  by (simp add: clients_def)

definition geth_texts :: "(error_type \<times> string list) list" where
  "geth_texts =
    [(NonceTooLow, [''nonce too low'']),
     (ReplacementTransactionUnderpriced, [''replacement transaction underpriced'']),
     (TerminallyUnderpriced, [''transaction underpriced'']),
     (InsufficientEth, insufficient_messages),
     (Fatal, geth_fatal_messages)]"

lemma geth_texts_patterns:
  assumes "(t, ms) \<in> set geth_texts"
  shows "map_of geth t = Some (msg_end ms) \<and> ms \<noteq> []"
  using assms
  by (auto simp: geth_texts_def geth_def insufficient_messages_def geth_fatal_messages_def)

text \<open>a client's message that ends the cause of an error, alone or wrapped in any text that ends
  in a colon and a space, is classified as the geth table says: wrapping an error never hides its
  class. \<close>

theorem geth_errors_survive_wrapping:
  assumes "(t, ms) \<in> set geth_texts" "m \<in> set ms" "cause e = m \<or> cause e = p @ '': '' @ m"
  shows "is_error cause (Some \<lparr>is_fatal = b, err = Some e\<rparr>) t"
proof -
  obtain l ls where ms: "ms = l # ls" and r: "map_of geth t = Some (msg_end ms)"
    using geth_texts_patterns[OF assms(1)] by (cases ms) auto
  have "MatchString (msg_end (l # ls)) (cause e)"
    unfolding MatchString_msg_end using assms(2,3) ms by blast
  then show ?thesis
    unfolding is_error_Some using any_clientI[OF geth_in_clients r] ms by blast
qed

theorem geth_errors_survive_wrapping_witness:
  "is_error (\<lambda>e. ''rpc: nonce too low'') (Some \<lparr>is_fatal = False, err = Some ()\<rparr>) NonceTooLow"
  by (rule geth_errors_survive_wrapping [where ms = "[''nonce too low'']" and m = "''nonce too low''" and p = "''rpc''"])
    (simp_all add: geth_texts_def)

text \<open>An error counts as "already mined" exactly when its cause is Harmony's message, or ends in it
  after a colon and a space; no other client's message does.\<close>

theorem already_mined_exact:
  "IsTransactionAlreadyMined cause (Some \<lparr>is_fatal = b, err = Some e\<rparr>) \<longleftrightarrow>
     cause e = ''transaction already finalized'' \<or> (\<exists>p. cause e = p @ '': '' @ ''transaction already finalized'')"
proof -
  have "any_client TransactionAlreadyMined (cause e) clients =
      MatchString (msg_end [''transaction already finalized'']) (cause e)"
    by (simp add: clients_def parity_def geth_def arbitrum_def optimism_def metis_client_def substrate_def
        avalanche_def nethermind_def harmony_def besu_def erigon_def)
  then show ?thesis
    unfolding IsTransactionAlreadyMined_def is_error_Some MatchString_msg_end by simp
qed

text \<open>The flag \<open>NewSendError\<close> stores agrees with what \<open>is(Fatal)\<close> answers later, since wrapping does
  not change the cause; \<open>NewFatalSendError\<close> is fatal for every error, and neither makes an error of nil.\<close>

theorem fatal_flag_agrees:
  assumes "\<And>x. cause (withStack x) = cause x"
  shows "SendError_Fatal (NewSendError cause withStack e) = is_error cause (NewSendError cause withStack e) Fatal
    \<and> SendError_Fatal (NewFatalSendError withStack e) = (e \<noteq> None)
    \<and> NewSendError cause withStack None = None"
  by (cases e; simp add: SendError_defs assms is_error_def CauseStr_def)+

theorem fatal_flag_agrees_witness:
  "SendError_Fatal (NewSendError (\<lambda>x. x) (\<lambda>x. x) (Some ''nonce too high''))
     = is_error (\<lambda>x. x) (NewSendError (\<lambda>x. x) (\<lambda>x. x) (Some ''nonce too high'')) Fatal"
  by (rule fatal_flag_agrees [THEN conjunct1]) simp

section \<open>Starting a send-only node\<close>

text \<open>Starting a new send-only node never panics. It fails when the dial fails or when the endpoint
  answers with another chain ID; an endpoint that answers nothing, or zero, is taken unverified. Once
  dialled, a second call of \<open>start\<close> panics.\<close>

theorem sendonly_start_outcome:
  "sendonly_start dial_ok answer (NewSendOnlyNode cid) =
     Ret (if \<not> dial_ok then (Some ErrDialSecondary, NewSendOnlyNode cid)
          else ((case answer of
                   Some c \<Rightarrow> if c \<noteq> 0 \<and> c \<noteq> cid then Some (ErrSendOnlyChainID c) else None
                 | None \<Rightarrow> None),
                (NewSendOnlyNode cid)\<lparr>dialed := True, has_sender := True\<rparr>))
   \<and> (\<exists>msg. sendonly_start dial_ok' answer' ((NewSendOnlyNode cid)\<lparr>dialed := True, has_sender := True\<rparr>) = Panic msg)"
  by (auto simp: sendonly_start_def NewSendOnlyNode_def SetEthClient_def getChainID_def split: option.splits)

end
