(* ===== verification/HeadTracker.thy ===== *)
theory HeadTracker
  imports Heads Mailbox
begin

text \<open>
  \<open>core/chains/evm/headtracker\<close>: the table of heads (\<open>orm.go\<close>), the saver that keeps table and
  collection together (\<open>head_saver.go\<close>) and the tracker (\<open>head_tracker.go\<close>). Whether a database
  call succeeds, whether the context is done and what the RPC node answers are arguments. A value of
  type \<open>'a run option\<close> is \<open>None\<close> when the call never returns, because a loop over parents does not
  end. The last section is the tracker as a system in which the listener, the backfill and the
  broadcast loop interleave.
\<close>

section \<open>The table of heads\<close>

text \<open>The rows of one chain in the order of their id.\<close>

record head_row =
  row_head :: Head
  created_at :: int

type_synonym head_table = "head_row list"

definition row_number :: "head_row \<Rightarrow> int" where
  "row_number r = Number (row_head r)"

definition IdempotentInsertHead :: "Head \<Rightarrow> int \<Rightarrow> head_table \<Rightarrow> head_table" where
  "IdempotentInsertHead head now t =
     (if list_ex (\<lambda>r. Hash (row_head r) = Hash head) t then t
      else t @ [\<lparr>row_head = head, created_at = now\<rparr>])"

text \<open>The minimum over no rows is null, and no number is less than null.\<close>

definition TrimOldHeads :: "nat \<Rightarrow> head_table \<Rightarrow> head_table" where
  "TrimOldHeads n t =
     (let numbers = take n (rev (sort (map row_number t)))
      in if numbers = [] then t else filter (\<lambda>r. \<not> row_number r < Min (set numbers)) t)"

definition latest_first :: "head_table \<Rightarrow> head_table" where
  "latest_first t = sort_key (\<lambda>r. - row_number r) (sort_key (\<lambda>r. - created_at r) (rev t))"

definition orm_LatestHead :: "head_table \<Rightarrow> Head option" where
  "orm_LatestHead t = (case latest_first t of [] \<Rightarrow> None | r # _ \<Rightarrow> Some (row_head r))"

definition LatestHeads :: "nat \<Rightarrow> head_table \<Rightarrow> Head list" where
  "LatestHeads limit t = map row_head (take limit (latest_first t))"

definition orm_HeadByHash :: "nat \<Rightarrow> head_table \<Rightarrow> Head option" where
  "orm_HeadByHash h t = map_option row_head (find (\<lambda>r. Hash (row_head r) = h) t)"

section \<open>The saver\<close>

type_synonym map_order = "(nat \<times> Head) list \<Rightarrow> (nat \<times> Head) list"

record tracker_cfg =
  EvmHeadTrackerHistoryDepth :: nat
  EvmFinalityDepth :: nat
  sampling :: bool

record headSaver =
  table :: head_table
  hs_heads :: heads

text \<open>The outcome of the two statements of a save, and the time of insertion.\<close>

record db_outcome =
  insert_ok :: bool
  trim_ok :: bool
  db_now :: int

datatype head_error =
    ErrInsertHead
  | ErrTrimHeads
  | ErrLatestHeads
  | ErrFetchHead
  | ErrNilHead
  | FetchAndSaveFailed head_error
  | FailedToSave head_error
  | ErrChainNil
  | InitialHead head_error

definition NewHeadSaver :: "head_table \<Rightarrow> headSaver" where
  "NewHeadSaver t = \<lparr>table = t, hs_heads = NewHeads\<rparr>"

definition Save :: "map_order \<Rightarrow> tracker_cfg \<Rightarrow> db_outcome \<Rightarrow> Head \<Rightarrow> headSaver \<Rightarrow> head_error option \<times> headSaver" where
  "Save ord cfg db head hs =
     (if \<not> insert_ok db then (Some ErrInsertHead, hs)
      else
        (let historyDepth = EvmHeadTrackerHistoryDepth cfg;
             t = IdempotentInsertHead head (db_now db) (table hs);
             hs1 = \<lparr>table = t, hs_heads = AddHeads ord historyDepth [head] (hs_heads hs)\<rparr>
         in if \<not> trim_ok db then (Some ErrTrimHeads, hs1)
            else (None, hs1\<lparr>table := TrimOldHeads historyDepth t\<rparr>)))"

definition LoadFromDB :: "map_order \<Rightarrow> tracker_cfg \<Rightarrow> bool \<Rightarrow> headSaver \<Rightarrow> (head_error + head_ptr option) \<times> headSaver" where
  "LoadFromDB ord cfg select_ok hs =
     (if \<not> select_ok then (Inl ErrLatestHeads, hs)
      else
        (let historyDepth = EvmHeadTrackerHistoryDepth cfg;
             h = AddHeads ord historyDepth (LatestHeads historyDepth (table hs)) (hs_heads hs)
         in (Inr (LatestHead h), hs\<lparr>hs_heads := h\<rparr>)))"

definition LatestHeadFromDB :: "headSaver \<Rightarrow> Head option" where
  "LatestHeadFromDB hs = orm_LatestHead (table hs)"

text \<open>\<open>LatestChain\<close> measures the chain for a log line: it returns only if the measuring does.\<close>

definition LatestChain :: "headSaver \<Rightarrow> head_ptr option run option" where
  "LatestChain hs =
     (case LatestHead (hs_heads hs) of
        None \<Rightarrow> Some (Ret None)
      | Some p \<Rightarrow> loop_bind (ChainLength (Parent (gen p)) (Some (ref p))) (\<lambda>_. Some (Ret (Some p))))"

definition Chain :: "headSaver \<Rightarrow> nat \<Rightarrow> head_ptr option" where
  "Chain hs h = HeadByHash (hs_heads hs) h"

section \<open>The tracker\<close>

record headTracker =
  saver :: headSaver
  backfillMB :: "head_ptr Mailbox"
  broadcastMB :: "head_ptr Mailbox"

definition HeadsBufferSize :: nat where
  "HeadsBufferSize = 10"

definition NewHeadTracker :: "headSaver \<Rightarrow> headTracker" where
  "NewHeadTracker hs =
     \<lparr>saver = hs, backfillMB = NewMailbox 1, broadcastMB = NewMailbox HeadsBufferSize\<rparr>"

text \<open>
  \<open>handleNewHead\<close> in its three parts: it reads the latest head, saves the new one, and then, unless
  the context is done or the save failed, delivers the head if it is higher than the one read.
\<close>

definition is_higher :: "Head \<Rightarrow> head_ptr option \<Rightarrow> bool" where
  "is_higher head prevHead = (case prevHead of None \<Rightarrow> True | Some p \<Rightarrow> Number head > Number (deref p))"

definition handle_deliver :: "Head \<Rightarrow> head_ptr option \<Rightarrow> headTracker \<Rightarrow> head_error option \<times> headTracker" where
  "handle_deliver head prevHead ht =
     (if is_higher head prevHead
      then
        (case Chain (saver ht) (Hash head) of
           None \<Rightarrow> (Some ErrChainNil, ht)
         | Some headWithChain \<Rightarrow>
             (None, ht\<lparr>backfillMB := snd (Deliver (backfillMB ht) headWithChain),
                       broadcastMB := snd (Deliver (broadcastMB ht) headWithChain)\<rparr>))
      else (None, ht))"

definition handleNewHead :: "map_order \<Rightarrow> tracker_cfg \<Rightarrow> db_outcome \<Rightarrow> bool \<Rightarrow> Head \<Rightarrow> headTracker
    \<Rightarrow> (head_error option \<times> headTracker) run option" where
  "handleNewHead ord cfg db ctx_done head ht =
     loop_bind (LatestChain (saver ht))
       (\<lambda>prevHead.
          let (err, hs) = Save ord cfg db head (saver ht); ht1 = ht\<lparr>saver := hs\<rparr>
          in if ctx_done then Some (Ret (None, ht1))
             else case err of
                    Some e \<Rightarrow> Some (Ret (Some (FailedToSave e), ht1))
                  | None \<Rightarrow> Some (Ret (handle_deliver head prevHead ht1)))"

text \<open>
  The function \<open>Start\<close> runs once: the result says whether the three loops were started. The initial
  head is what \<open>HeadByNumber(ctx, nil)\<close> answers; \<open>err_is_ctx\<close> says whether that call, when it fails,
  fails with the error of the context.
\<close>

definition tracker_start :: "map_order \<Rightarrow> tracker_cfg \<Rightarrow> bool \<Rightarrow> db_outcome \<Rightarrow> bool \<Rightarrow> bool \<Rightarrow> head_error + Head option
    \<Rightarrow> headTracker \<Rightarrow> (head_error option \<times> bool \<times> headTracker) run option" where
  "tracker_start ord cfg select_ok db err_is_ctx ctx_done answer ht =
     (case LoadFromDB ord cfg select_ok (saver ht) of
        (Inl e, hs) \<Rightarrow> Some (Ret (Some e, False, ht\<lparr>saver := hs\<rparr>))
      | (Inr latestChain, hs) \<Rightarrow>
          (let ht1 = ht\<lparr>saver := hs\<rparr>
           in case answer of
                Inl e \<Rightarrow> if err_is_ctx then Some (Ret (None, False, ht1)) else Some (Ret (None, True, ht1))
              | Inr None \<Rightarrow> Some (Ret (None, True, ht1))
              | Inr (Some head) \<Rightarrow>
                  loop_bind (handleNewHead ord cfg db ctx_done head ht1)
                    (\<lambda>(err, ht2). case err of
                       Some e \<Rightarrow> Some (Ret (Some (InitialHead e), False, ht2))
                     | None \<Rightarrow> Some (Ret (None, True, ht2)))))"

subsection \<open>Backfilling\<close>

text \<open>What the outside answers while the head at a height is fetched and saved.\<close>

record fetch_env =
  HeadByNumber :: "int \<Rightarrow> head_error + Head option"
  fetch_db :: "int \<Rightarrow> db_outcome"
  fetch_ctx_done :: "int \<Rightarrow> bool"

definition fetchAndSaveHead :: "map_order \<Rightarrow> tracker_cfg \<Rightarrow> fetch_env \<Rightarrow> int \<Rightarrow> headSaver \<Rightarrow> (head_error + Head) \<times> headSaver" where
  "fetchAndSaveHead ord cfg env n hs =
     (case HeadByNumber env n of
        Inl e \<Rightarrow> (Inl e, hs)
      | Inr None \<Rightarrow> (Inl ErrNilHead, hs)
      | Inr (Some head) \<Rightarrow>
          (case Save ord cfg (fetch_db env n) head hs of
             (Some e, hs1) \<Rightarrow> (Inl e, hs1)
           | (None, hs1) \<Rightarrow> (Inr head, hs1)))"

text \<open>The number of iterations left, and the height of the next.\<close>

fun backfill_loop :: "map_order \<Rightarrow> tracker_cfg \<Rightarrow> fetch_env \<Rightarrow> nat \<Rightarrow> int \<Rightarrow> Head \<Rightarrow> headSaver
    \<Rightarrow> head_error option \<times> headSaver" where
  "backfill_loop ord cfg env 0 i head hs = (None, hs)"
| "backfill_loop ord cfg env (Suc k) i head hs =
     (case Chain hs (ParentHash head) of
        Some existingHead \<Rightarrow> backfill_loop ord cfg env k (i - 1) (deref existingHead) hs
      | None \<Rightarrow>
          (let (r, hs1) = fetchAndSaveHead ord cfg env i hs
           in if fetch_ctx_done env i
              then ((case r of Inl e \<Rightarrow> Some e | Inr _ \<Rightarrow> None), hs1)
              else case r of
                     Inl e \<Rightarrow> (Some (FetchAndSaveFailed e), hs1)
                   | Inr h \<Rightarrow> backfill_loop ord cfg env k (i - 1) h hs1))"

definition backfill :: "map_order \<Rightarrow> tracker_cfg \<Rightarrow> fetch_env \<Rightarrow> Head \<Rightarrow> int \<Rightarrow> headSaver \<Rightarrow> head_error option \<times> headSaver" where
  "backfill ord cfg env head baseHeight hs =
     (if Number head \<le> baseHeight then (None, hs)
      else backfill_loop ord cfg env (nat (Number head - baseHeight)) (Number head - 1) head hs)"

definition Backfill :: "map_order \<Rightarrow> tracker_cfg \<Rightarrow> fetch_env \<Rightarrow> head_ptr \<Rightarrow> nat \<Rightarrow> headSaver
    \<Rightarrow> (head_error option \<times> headSaver) run option" where
  "Backfill ord cfg env headWithChain depth hs =
     loop_bind (ChainLength (Parent (gen headWithChain)) (Some (ref headWithChain)))
       (\<lambda>l. if unat l \<ge> depth then Some (Ret (None, hs))
            else
              (let baseHeight = max 0 (Number (deref headWithChain) - (int depth - 1))
               in case EarliestInChain (Parent (gen headWithChain)) (ref headWithChain) of
                    None \<Rightarrow> None
                  | Some e \<Rightarrow> Some (Ret (backfill ord cfg env (deref (headWithChain\<lparr>ref := e\<rparr>)) baseHeight hs))))"

text \<open>One turn of \<open>backfillLoop\<close> after \<open>Retrieve\<close>.\<close>

definition backfill_turn :: "map_order \<Rightarrow> tracker_cfg \<Rightarrow> fetch_env \<Rightarrow> headTracker \<Rightarrow> headTracker run option" where
  "backfill_turn ord cfg env ht =
     (case Retrieve (backfillMB ht) of
        (None, m) \<Rightarrow> Some (Ret (ht\<lparr>backfillMB := m\<rparr>))
      | (Some head, m) \<Rightarrow>
          loop_bind (Backfill ord cfg env head (EvmFinalityDepth cfg) (saver ht))
            (\<lambda>(err, hs). Some (Ret (ht\<lparr>saver := hs, backfillMB := m\<rparr>))))"

text \<open>
  One turn of \<open>broadcastLoop\<close>: with sampling it takes the newest head and drops the others, without
  it the oldest. The result is what it gives to the broadcaster.
\<close>

definition broadcast_turn :: "tracker_cfg \<Rightarrow> headTracker \<Rightarrow> head_ptr option \<times> headTracker" where
  "broadcast_turn cfg ht =
     (let (item, m) = (if sampling cfg then RetrieveLatestAndClear (broadcastMB ht) else Retrieve (broadcastMB ht))
      in (item, ht\<lparr>broadcastMB := m\<rparr>))"

section \<open>The collection under the saver\<close>

text \<open>The hash of a block determines its number.\<close>

definition agrees :: "(nat \<Rightarrow> int) \<Rightarrow> Head list \<Rightarrow> bool" where
  "agrees num hs \<longleftrightarrow> (\<forall>x\<in>set hs. Number x = num (Hash x))"

definition heads_inv :: "(nat \<Rightarrow> int) \<Rightarrow> heads \<Rightarrow> bool" where
  "heads_inv num h \<longleftrightarrow>
     agrees num (head_list h) \<and> list_all proper (head_list h)
     \<and> (\<forall>x\<in>set (head_list h). copy (head_gen h) (Hash x) = Some x)
     \<and> sorted_wrt (\<lambda>a b. Number b \<le> Number a) (head_list h)"

text \<open>The highest number in the collection, or \<open>None\<close>.\<close>

definition top :: "heads \<Rightarrow> int option" where
  "top h = (case head_list h of [] \<Rightarrow> None | x # _ \<Rightarrow> Some (Number x))"

fun below :: "int \<Rightarrow> int option \<Rightarrow> bool" where
  "below n None = False"
| "below n (Some m) = (n \<le> m)"

lemma heads_inv_NewHeads [simp]: "heads_inv num NewHeads"
  by (simp add: heads_inv_def NewHeads_def agrees_def)

lemma AddHeads_members:
  assumes "iteration_order ord" "x \<in> set (head_list (AddHeads ord d new h))"
  shows "x \<in> set (head_list h @ new) \<and> proper x"
  using lookup_mem [OF kept_lookup [OF assms]] by simp

lemma AddHeads_sorted:
  assumes "iteration_order ord"
  shows "sorted_wrt (\<lambda>a b. Number b \<le> Number a) (head_list (AddHeads ord d new h))"
proof -
  have "map_ok (added_map h new)" by (simp add: heads_map_ok)
  from sorted_heads_facts(4) [OF assms this] show ?thesis
    by (simp add: head_list_AddHeads sorted_wrt_take)
qed

lemma heads_inv_AddHeads:
  assumes "iteration_order ord" "heads_inv num h" "agrees num new"
  shows "heads_inv num (AddHeads ord d new h)"
  using assms AddHeads_members [OF assms(1)] kept_lookup [OF assms(1)] AddHeads_sorted [OF assms(1)]
  unfolding heads_inv_def agrees_def list_all_iff by (metis Un_iff copy_AddHeads set_append)

text \<open>The top never goes down, and covers every head that was offered.\<close>

lemma AddHeads_top:
  assumes "iteration_order ord" "0 < d" "heads_inv num h" "agrees num new"
    and "x \<in> set (head_list h @ new)" "proper x"
  shows "below (Number x) (top (AddHeads ord d new h))"
proof -
  let ?m = "added_map h new"
  have ok: "map_ok ?m" by (simp add: heads_map_ok)
  have "Hash x \<in> fst ` set ?m" using assms(5,6) by (auto simp: heads_map_keys)
  then obtain y where y: "map_of ?m (Hash x) = Some y" by (metis domD dom_map_of_conv_image_fst)
  from lookup_mem [OF this] have ym: "y \<in> set (head_list h @ new)" "Hash y = Hash x" by auto
  then have num: "Number y = Number x"
    using assms(3,4,5) unfolding heads_inv_def agrees_def by (metis Un_iff set_append)
  have "y \<in> set (sorted_heads ord ?m)"
    unfolding sorted_heads_facts(1) [OF assms(1) ok] using map_of_SomeD [OF y] by force
  moreover obtain z zs where s: "sorted_heads ord ?m = z # zs" using calculation by (cases "sorted_heads ord ?m") auto
  ultimately have "Number y \<le> Number z"
    using sorted_heads_facts(4) [OF assms(1) ok] by auto
  moreover have "top (AddHeads ord d new h) = Some (Number z)"
    using assms(2) s by (cases d) (auto simp: top_def head_list_AddHeads)
  ultimately show ?thesis using num by simp
qed

lemma AddHeads_top_mono:
  assumes "iteration_order ord" "0 < d" "heads_inv num h" "agrees num new" "below n (top h)"
  shows "below n (top (AddHeads ord d new h))"
proof (cases "head_list h")
  case (Cons x xs)
  then have "below (Number x) (top (AddHeads ord d new h))"
    using assms(3) by (intro AddHeads_top [OF assms(1-4)]) (auto simp: heads_inv_def)
  with Cons assms(5) show ?thesis by (cases "top (AddHeads ord d new h)") (auto simp: top_def)
qed (use assms(5) in \<open>simp add: top_def\<close>)

lemma top_member:
  assumes "heads_inv num h" "x \<in> set (head_list h)"
  shows "below (Number x) (top h)"
  using assms by (cases "head_list h") (auto simp: heads_inv_def top_def)

lemma HeadByHash_deref:
  assumes "heads_inv num h" "HeadByHash h k = Some p"
  shows "deref p \<in> set (head_list h) \<and> Hash (deref p) = k \<and> ref p = k \<and> gen p = head_gen h
     \<and> Number (deref p) = num k"
proof -
  from assms(2) obtain x where x: "find (\<lambda>x. Hash x = k) (head_list h) = Some x"
      "p = \<lparr>gen = head_gen h, ref = Hash x\<rparr>"
    by (auto simp: HeadByHash_def split: option.splits)
  with find_SomeD [OF x(1)] assms(1) show ?thesis
    by (auto simp: heads_inv_def agrees_def deref_def)
qed

lemma LatestHead_top:
  assumes "heads_inv num h"
  shows "case LatestHead h of None \<Rightarrow> top h = None | Some p \<Rightarrow> top h = Some (Number (deref p))"
  using assms by (cases "head_list h") (auto simp: LatestHead_def top_def heads_inv_def deref_def)

lemma HeadByHash_SomeD:
  assumes "HeadByHash h k = Some p"
  shows "\<exists>x\<in>set (head_list h). Hash x = k \<and> p = \<lparr>gen = head_gen h, ref = k\<rparr>"
proof (cases "find (\<lambda>x. Hash x = k) (head_list h)")
  case (Some x)
  with find_SomeD [OF Some] assms show ?thesis by (auto simp: HeadByHash_def)
qed (use assms in \<open>simp add: HeadByHash_def\<close>)

lemma HeadByHash_mem: "(HeadByHash h k \<noteq> None) \<longleftrightarrow> k \<in> Hash ` set (head_list h)"
proof (cases "find (\<lambda>x. Hash x = k) (head_list h)")
  case None
  then have "\<forall>x\<in>set (head_list h). Hash x \<noteq> k" by (simp add: find_None_iff)
  with None show ?thesis by (auto simp: HeadByHash_def)
next
  case (Some x)
  with find_SomeD [OF Some] show ?thesis by (auto simp: HeadByHash_def)
qed

section \<open>The tracker with its goroutines\<close>

text \<open>
  The listener runs \<open>handleNewHead\<close> part by part; between the parts the backfill loop may fetch and
  save heads and the broadcast loop may give heads to the broadcaster. A save is one step: it changes
  the collection once, under its lock, and no step reads the table. \<open>num\<close> is the number of the
  block with a given hash; every head that comes in has it.
\<close>

datatype listener_pc =
    Listening
  | HeadRead Head "head_ptr option"
  | HeadSaved Head "head_ptr option"

record tracker_sys =
  tracker :: headTracker
  listener :: listener_pc
  given :: "head_ptr list"

inductive tracker_step :: "map_order \<Rightarrow> tracker_cfg \<Rightarrow> (nat \<Rightarrow> int) \<Rightarrow> tracker_sys \<Rightarrow> tracker_sys \<Rightarrow> bool"
  for ord cfg num where
  receive: "\<lbrakk>listener s = Listening; Number head = num (Hash head); LatestChain (saver (tracker s)) = Some (Ret prev)\<rbrakk>
     \<Longrightarrow> tracker_step ord cfg num s (s\<lparr>listener := HeadRead head prev\<rparr>)"
| save: "\<lbrakk>listener s = HeadRead head prev; Save ord cfg db head (saver (tracker s)) = (None, hs)\<rbrakk>
     \<Longrightarrow> tracker_step ord cfg num s (s\<lparr>tracker := (tracker s)\<lparr>saver := hs\<rparr>, listener := HeadSaved head prev\<rparr>)"
| give_up: "\<lbrakk>listener s = HeadRead head prev; Save ord cfg db head (saver (tracker s)) = (err, hs)\<rbrakk>
     \<Longrightarrow> tracker_step ord cfg num s (s\<lparr>tracker := (tracker s)\<lparr>saver := hs\<rparr>, listener := Listening\<rparr>)"
| deliver: "\<lbrakk>listener s = HeadSaved head prev; handle_deliver head prev (tracker s) = (err, t)\<rbrakk>
     \<Longrightarrow> tracker_step ord cfg num s (s\<lparr>tracker := t, listener := Listening\<rparr>)"
| fetch: "\<lbrakk>case HeadByNumber env n of Inr (Some head) \<Rightarrow> Number head = num (Hash head) | _ \<Rightarrow> True;
      fetchAndSaveHead ord cfg env n (saver (tracker s)) = (r, hs)\<rbrakk>
     \<Longrightarrow> tracker_step ord cfg num s (s\<lparr>tracker := (tracker s)\<lparr>saver := hs\<rparr>\<rparr>)"
| backfill_take: "Retrieve (backfillMB (tracker s)) = (item, m)
     \<Longrightarrow> tracker_step ord cfg num s (s\<lparr>tracker := (tracker s)\<lparr>backfillMB := m\<rparr>\<rparr>)"
| broadcast: "broadcast_turn cfg (tracker s) = (item, t)
     \<Longrightarrow> tracker_step ord cfg num s
          (s\<lparr>tracker := t, given := given s @ (case item of None \<Rightarrow> [] | Some p \<Rightarrow> [p])\<rparr>)"

definition start_state :: "headSaver \<Rightarrow> tracker_sys" where
  "start_state hs = \<lparr>tracker = NewHeadTracker hs, listener = Listening, given = []\<rparr>"

abbreviation tracker_reachable :: "map_order \<Rightarrow> tracker_cfg \<Rightarrow> (nat \<Rightarrow> int) \<Rightarrow> headSaver \<Rightarrow> tracker_sys \<Rightarrow> bool" where
  "tracker_reachable ord cfg num hs s \<equiv> (tracker_step ord cfg num)\<^sup>*\<^sup>* (start_state hs) s"

text \<open>The numbers of the heads given to the broadcaster, and of those still waiting for it.\<close>

definition numbers :: "head_ptr list \<Rightarrow> int list" where
  "numbers ps = map (\<lambda>p. Number (deref p)) ps"

definition pipeline :: "tracker_sys \<Rightarrow> int list" where
  "pipeline s = numbers (given s) @ numbers (waiting (broadcastMB (tracker s)))"

definition top_of :: "head_ptr option \<Rightarrow> int option" where
  "top_of p = map_option (\<lambda>p. Number (deref p)) p"

definition pc_ok :: "(nat \<Rightarrow> int) \<Rightarrow> int list \<Rightarrow> listener_pc \<Rightarrow> bool" where
  "pc_ok num ns pc =
     (case pc of
        Listening \<Rightarrow> True
      | HeadRead head prev \<Rightarrow> Number head = num (Hash head) \<and> (\<forall>n\<in>set ns. below n (top_of prev))
      | HeadSaved head prev \<Rightarrow> Number head = num (Hash head) \<and> (\<forall>n\<in>set ns. below n (top_of prev)))"

definition tracker_inv :: "(nat \<Rightarrow> int) \<Rightarrow> tracker_sys \<Rightarrow> bool" where
  "tracker_inv num s \<longleftrightarrow>
     heads_inv num (hs_heads (saver (tracker s)))
     \<and> sorted_wrt (<) (pipeline s)
     \<and> (\<forall>n\<in>set (pipeline s). below n (top (hs_heads (saver (tracker s)))))
     \<and> pc_ok num (pipeline s) (listener s)"

text \<open>Every save keeps the collection and lowers nothing.\<close>

lemma Save_heads:
  assumes "iteration_order ord" "0 < EvmHeadTrackerHistoryDepth cfg" "heads_inv num (hs_heads hs)"
    and "Number head = num (Hash head)" "Save ord cfg db head hs = (err, hs')"
  shows "heads_inv num (hs_heads hs')"
    and "below n (top (hs_heads hs)) \<Longrightarrow> below n (top (hs_heads hs'))"
proof -
  have a: "agrees num [head]" using assms(4) by (simp add: agrees_def)
  have hs': "hs_heads hs' = hs_heads hs \<or> hs_heads hs' = AddHeads ord (EvmHeadTrackerHistoryDepth cfg) [head] (hs_heads hs)"
    using assms(5) by (auto simp: Save_def Let_def split: if_splits)
  then show "heads_inv num (hs_heads hs')"
    using heads_inv_AddHeads [OF assms(1,3) a] assms(3) by metis
  show "below n (top (hs_heads hs'))" if "below n (top (hs_heads hs))"
    using hs' that AddHeads_top_mono [OF assms(1,2,3) a] by metis
qed

lemma fetch_heads:
  assumes "iteration_order ord" "0 < EvmHeadTrackerHistoryDepth cfg" "heads_inv num (hs_heads hs)"
    and "case HeadByNumber env i of Inr (Some head) \<Rightarrow> Number head = num (Hash head) | _ \<Rightarrow> True"
    and "fetchAndSaveHead ord cfg env i hs = (r, hs')"
  shows "heads_inv num (hs_heads hs')"
    and "below n (top (hs_heads hs)) \<Longrightarrow> below n (top (hs_heads hs'))"
  using assms(3-5) Save_heads [OF assms(1,2,3), where db = "fetch_db env i"]
  by (auto simp: fetchAndSaveHead_def split: sum.splits option.splits prod.splits)

lemma pipeline_update:
  "pipeline (s\<lparr>tracker := t, listener := l\<rparr>) = numbers (given s) @ numbers (waiting (broadcastMB t))"
  by (simp add: pipeline_def)

lemma numbers_append [simp]: "numbers (xs @ ys) = numbers xs @ numbers ys"
  by (simp add: numbers_def)

lemma sorted_append_above:
  "sorted_wrt (<) (xs :: int list) \<Longrightarrow> \<forall>n\<in>set xs. n < m \<Longrightarrow> sorted_wrt (<) (xs @ [m])"
  by (simp add: sorted_wrt_append)

lemma waiting_Deliver:
  "waiting (snd (Deliver m x)) = waiting m @ [x] \<or> waiting (snd (Deliver m x)) = tl (waiting m @ [x])"
  by (simp add: mb.deliver_items)

text \<open>Dropping a waiting head keeps the order; the new one is above all that came before.\<close>

lemma pipeline_Deliver:
  assumes "sorted_wrt (<) (numbers g @ numbers (waiting m))"
    and "\<forall>n\<in>set (numbers g @ numbers (waiting m)). n < Number (deref x)"
  shows "sorted_wrt (<) (numbers g @ numbers (waiting (snd (Deliver m x))))"
    and "set (numbers g @ numbers (waiting (snd (Deliver m x)))) \<subseteq> insert (Number (deref x)) (set (numbers g @ numbers (waiting m)))"
proof -
  have s: "sorted_wrt (<) (numbers g @ numbers (waiting m @ [x]))"
    using sorted_append_above [OF assms] by (simp add: numbers_def)
  show "sorted_wrt (<) (numbers g @ numbers (waiting (snd (Deliver m x))))"
    using waiting_Deliver [of m x] s
    by (cases "waiting m") (auto simp: numbers_def sorted_wrt_append)
  show "set (numbers g @ numbers (waiting (snd (Deliver m x)))) \<subseteq> insert (Number (deref x)) (set (numbers g @ numbers (waiting m)))"
    using waiting_Deliver [of m x]
    by (cases "waiting m") (auto simp: numbers_def)
qed

lemma handle_deliver_pipeline:
  assumes "handle_deliver head prev t = (err, t')" "heads_inv num (hs_heads (saver t))"
    and "Number head = num (Hash head)" "sorted_wrt (<) (numbers g @ numbers (waiting (broadcastMB t)))"
    and "\<forall>n\<in>set (numbers g @ numbers (waiting (broadcastMB t))). below n (top_of prev) \<and> below n (top (hs_heads (saver t)))"
  shows "saver t' = saver t \<and> sorted_wrt (<) (numbers g @ numbers (waiting (broadcastMB t')))
     \<and> (\<forall>n\<in>set (numbers g @ numbers (waiting (broadcastMB t'))). below n (top (hs_heads (saver t))))"
proof (cases "is_higher head prev \<and> Chain (saver t) (Hash head) \<noteq> None")
  case True
  then obtain p where p: "HeadByHash (hs_heads (saver t)) (Hash head) = Some p" by (auto simp: Chain_def)
  note d = HeadByHash_deref [OF assms(2) p]
  then have num: "Number (deref p) = Number head" using assms(3) by simp
  have lt: "\<forall>n\<in>set (numbers g @ numbers (waiting (broadcastMB t))). n < Number (deref p)"
  proof
    fix n assume "n \<in> set (numbers g @ numbers (waiting (broadcastMB t)))"
    with assms(5) have "below n (top_of prev)" by blast
    with True num show "n < Number (deref p)" by (cases prev) (auto simp: is_higher_def top_of_def)
  qed
  have "below (Number (deref p)) (top (hs_heads (saver t)))" using d top_member [OF assms(2)] by blast
  with pipeline_Deliver [OF assms(4) lt] True p assms(1,5) show ?thesis
    by (auto simp: handle_deliver_def Chain_def simp del: set_append)
next
  case False
  with assms show ?thesis by (auto simp: handle_deliver_def split: option.splits if_splits)
qed

lemma broadcast_pipeline:
  assumes "broadcast_turn cfg t = (item, t')" "sorted_wrt (<) (numbers g @ numbers (waiting (broadcastMB t)))"
  shows "saver t' = saver t
     \<and> sorted_wrt (<) (numbers (g @ (case item of None \<Rightarrow> [] | Some p \<Rightarrow> [p])) @ numbers (waiting (broadcastMB t')))
     \<and> set (numbers (g @ (case item of None \<Rightarrow> [] | Some p \<Rightarrow> [p])) @ numbers (waiting (broadcastMB t')))
         \<subseteq> set (numbers g @ numbers (waiting (broadcastMB t)))"
proof -
  let ?m = "broadcastMB t"
  have item: "item = (if waiting ?m = [] then None else Some ((if sampling cfg then last else hd) (waiting ?m)))"
    and w: "waiting (broadcastMB t') = (if sampling cfg then [] else tl (waiting ?m))" and "saver t' = saver t"
    using assms(1) mb.latest_item [of ?m] mb.latest_items [of ?m] mb.retrieve_item [of ?m] mb.retrieve_items [of ?m]
    by (auto simp: broadcast_turn_def split: prod.splits if_splits)
  show ?thesis
  proof (cases "sampling cfg")
    case True
    with assms(2) item w \<open>saver t' = saver t\<close> show ?thesis
      by (cases "waiting ?m" rule: rev_cases) (auto simp: numbers_def sorted_wrt_append)
  next
    case False
    with assms(2) item w \<open>saver t' = saver t\<close> show ?thesis
      by (cases "waiting ?m") (auto simp: numbers_def sorted_wrt_append)
  qed
qed

lemma pc_ok_mono: "pc_ok num ns pc \<Longrightarrow> set ms \<subseteq> set ns \<Longrightarrow> pc_ok num ms pc"
  by (auto simp: pc_ok_def split: listener_pc.splits)

lemma tracker_inv_step [inv_intros]:
  assumes "tracker_step ord cfg num s s'" "tracker_inv num s"
    and "iteration_order ord" "0 < EvmHeadTrackerHistoryDepth cfg"
  shows "tracker_inv num s'"
  using assms(1)
proof cases
  case (receive head prev)
  have h: "heads_inv num (hs_heads (saver (tracker s)))" using assms(2) by (simp add: tracker_inv_def)
  have "prev = LatestHead (hs_heads (saver (tracker s)))"
    using receive(4) by (auto simp: LatestChain_def split: option.splits elim: loop_bind.elims)
  with LatestHead_top [OF h] have "top_of prev = top (hs_heads (saver (tracker s)))"
    by (auto simp: top_of_def split: option.splits)
  with assms(2) receive show ?thesis by (auto simp: tracker_inv_def pc_ok_def pipeline_def)
next
  case (save head prev db hs)
  with assms(2) have h: "heads_inv num (hs_heads (saver (tracker s)))" "Number head = num (Hash head)"
    by (auto simp: tracker_inv_def pc_ok_def)
  note S = Save_heads [OF assms(3,4) h save(3)]
  from S assms(2) save show ?thesis by (auto simp: tracker_inv_def pc_ok_def pipeline_def)
next
  case (give_up head prev db err hs)
  with assms(2) have h: "heads_inv num (hs_heads (saver (tracker s)))" "Number head = num (Hash head)"
    by (auto simp: tracker_inv_def pc_ok_def)
  note S = Save_heads [OF assms(3,4) h give_up(3)]
  from S assms(2) give_up show ?thesis by (auto simp: tracker_inv_def pc_ok_def pipeline_def)
next
  case (deliver head prev err t)
  with assms(2) have h: "heads_inv num (hs_heads (saver (tracker s)))" "Number head = num (Hash head)"
    by (auto simp: tracker_inv_def pc_ok_def)
  from handle_deliver_pipeline [OF deliver(3) h, of "given s"] assms(2) deliver h(1) show ?thesis
    by (auto simp: tracker_inv_def pc_ok_def pipeline_def simp del: set_append)
next
  case (fetch env n r hs)
  then have h: "heads_inv num (hs_heads (saver (tracker s)))" using assms(2) by (simp add: tracker_inv_def)
  note F = fetch_heads [OF assms(3,4) h fetch(2,3)]
  from F assms(2) fetch show ?thesis by (auto simp: tracker_inv_def pipeline_def)
next
  case (backfill_take item m)
  with assms(2) show ?thesis by (simp add: tracker_inv_def pipeline_def)
next
  case (broadcast item t)
  from assms(2) have "sorted_wrt (<) (numbers (given s) @ numbers (waiting (broadcastMB (tracker s))))"
    by (simp add: tracker_inv_def pipeline_def)
  from broadcast_pipeline [OF broadcast(2) this] assms(2) broadcast(1) show ?thesis
    by (auto simp: tracker_inv_def pipeline_def simp del: set_append intro: pc_ok_mono)
qed

lemma tracker_inv_start: "heads_inv num (hs_heads hs) \<Longrightarrow> tracker_inv num (start_state hs)"
  by (simp add: tracker_inv_def start_state_def NewHeadTracker_def pipeline_def numbers_def pc_ok_def)

lemma tracker_inv_reachable:
  assumes "tracker_reachable ord cfg num hs s" "heads_inv num (hs_heads hs)"
    and "iteration_order ord" "0 < EvmHeadTrackerHistoryDepth cfg"
  shows "tracker_inv num s"
  using assms(1) by (induction rule: rtranclp_induct) (auto intro: tracker_inv_start tracker_inv_step assms)

section \<open>The table\<close>

lemma descending_prefix:
  "sorted_wrt (\<lambda>a b. (b :: int) \<le> a) D \<Longrightarrow> i < length D \<Longrightarrow> (x < D ! i) = (i < length (filter (\<lambda>y. x < y) D))"
proof (induction D arbitrary: i)
  case (Cons d D)
  show ?case
  proof (cases "x < d")
    case True
    with Cons show ?thesis by (cases i) auto
  next
    case False
    with Cons.prems(1) have "filter (\<lambda>y. x < y) (d # D) = []" by (auto simp: filter_empty_conv)
    moreover have "(d # D) ! i \<le> d" using Cons.prems by (cases i) auto
    ultimately show ?thesis using False by auto
  qed
qed simp

lemma Min_descending:
  assumes "sorted_wrt (\<lambda>a b. (b :: int) \<le> a) D" "D \<noteq> []"
  shows "Min (set D) = D ! (length D - 1)"
proof (rule Min_eqI)
  fix y assume "y \<in> set D"
  then obtain i where "i < length D" "D ! i = y" by (auto simp: in_set_conv_nth)
  then show "D ! (length D - 1) \<le> y"
    using sorted_wrt_nth_less [OF assms(1), of i "length D - 1"] by (cases "i = length D - 1") auto
qed (use assms(2) in auto)

lemma sort_Nil_iff [simp]: "sort (xs :: int list) = [] \<longleftrightarrow> xs = []"
  by (metis length_0_conv length_sort)

lemma trim_threshold:
  assumes "0 < n" "r \<in> set t"
  shows "(row_number r < Min (set (take n (rev (sort (map row_number t))))))
       = (n \<le> length (filter (\<lambda>x. row_number r < row_number x) t))"
proof -
  let ?D = "rev (sort (map row_number t))" and ?c = "length (filter (\<lambda>x. row_number r < row_number x) t)"
  let ?m = "min n (length t)"
  have D: "sorted_wrt (\<lambda>a b. b \<le> a) ?D" by (simp add: sorted_wrt_rev)
  have ne: "take n ?D \<noteq> []" using assms by auto
  have "Min (set (take n ?D)) = take n ?D ! (?m - 1)"
    using Min_descending [OF sorted_wrt_take [OF D] ne] by (simp add: min.commute)
  also have "\<dots> = ?D ! (?m - 1)" using assms by (intro nth_take) (cases n; auto)
  finally have "(row_number r < Min (set (take n ?D))) = (?m - 1 < length (filter (\<lambda>y. row_number r < y) ?D))"
    using descending_prefix [OF D, of "?m - 1" "row_number r"] assms by (cases t) auto
  moreover have "length (filter (\<lambda>y. row_number r < y) ?D) = ?c"
  proof -
    have "mset (filter (\<lambda>y. row_number r < y) ?D) = mset (filter (\<lambda>y. row_number r < y) (map row_number t))"
      by (simp only: mset_filter mset_rev mset_sort)
    from mset_eq_length [OF this] show ?thesis by (simp only: filter_map length_map comp_def)
  qed
  moreover have "?c < length t" using assms(2) by (simp add: length_filter_less)
  ultimately show ?thesis using assms by (auto simp: min_def)
qed

text \<open>Trimming to \<open>n \<ge> 1\<close> deletes exactly the rows that have \<open>n\<close> or more rows above them: the highest
  rows stay, with all rows at the height of the last of them.\<close>

theorem trim_deletes_exactly:
  assumes "0 < n"
  shows "TrimOldHeads n t = filter (\<lambda>r. length (filter (\<lambda>x. row_number r < row_number x) t) < n) t"
proof (cases "t = []")
  case False
  with assms have ne: "take n (rev (sort (map row_number t))) \<noteq> []" by auto
  show ?thesis
    unfolding TrimOldHeads_def Let_def if_not_P [OF ne]
    by (rule filter_cong) (simp_all only: trim_threshold [OF assms] not_le)
qed (simp add: TrimOldHeads_def)

definition row :: "nat \<Rightarrow> int \<Rightarrow> head_row" where
  "row h n = \<lparr>row_head = \<lparr>Hash = h, Number = n, ParentHash = 0, EVMChainID = None, BaseFee = None\<rparr>, created_at = 0\<rparr>"

theorem trim_deletes_exactly_witness:
  "TrimOldHeads 3 [row 1 4, row 2 5, row 3 5, row 4 5] = [row 2 5, row 3 5, row 4 5]"
  by (subst trim_deletes_exactly) (simp_all add: row_def row_number_def)

section \<open>What the tracker promises\<close>

lemma latest_first_set: "set (latest_first t) = set t"
  by (simp add: latest_first_def)

lemma LoadFromDB_inv:
  assumes "iteration_order ord" "list_all (\<lambda>r. row_number r = num (Hash (row_head r))) t"
    and "LoadFromDB ord cfg select_ok (NewHeadSaver t) = (r, hs)"
  shows "heads_inv num (hs_heads hs)"
proof -
  have "agrees num (LatestHeads d t)" for d
    using assms(2) latest_first_set [of t]
    by (auto simp: agrees_def LatestHeads_def list_all_iff row_number_def dest: in_set_takeD)
  with assms show ?thesis
    by (auto simp: LoadFromDB_def NewHeadSaver_def Let_def split: if_splits intro!: heads_inv_AddHeads)
qed

text \<open>C12: Whatever the order in which heads arrive, are fetched and saved, and however the broadcast
  loop is delayed, the heads given to the broadcaster have strictly increasing numbers: duplicates and
  heads that arrive late are never announced.\<close>

theorem broadcast_increasing:
  assumes "iteration_order ord" "0 < EvmHeadTrackerHistoryDepth cfg"
    and "list_all (\<lambda>r. row_number r = num (Hash (row_head r))) t"
    and "LoadFromDB ord cfg True (NewHeadSaver t) = (r, hs)"
    and "tracker_reachable ord cfg num hs s"
  shows "sorted_wrt (<) (map (\<lambda>p. Number (deref p)) (given s))"
proof -
  have "tracker_inv num s"
    by (rule tracker_inv_reachable [OF assms(5) LoadFromDB_inv [OF assms(1,3,4)] assms(1,2)])
  then show ?thesis by (simp add: tracker_inv_def pipeline_def numbers_def sorted_wrt_append)
qed

text \<open>Without interleaving, the three steps of the listener are \<open>handleNewHead\<close>.\<close>

lemma handleNewHead_steps:
  assumes "handleNewHead ord cfg db False head (tracker s) = Some (Ret (None, t))"
    and "listener s = Listening" "Number head = num (Hash head)"
  shows "(tracker_step ord cfg num)\<^sup>*\<^sup>* s (s\<lparr>tracker := t\<rparr>)"
proof -
  obtain prev where prev: "LatestChain (saver (tracker s)) = Some (Ret prev)"
    using assms(1) by (auto simp: handleNewHead_def elim!: loop_bind.elims)
  obtain err hs where sv: "Save ord cfg db head (saver (tracker s)) = (err, hs)" by fastforce
  with assms(1) prev have err: "err = None" and d: "handle_deliver head prev ((tracker s)\<lparr>saver := hs\<rparr>) = (None, t)"
    by (auto simp: handleNewHead_def Let_def split: option.splits)
  let ?s1 = "s\<lparr>listener := HeadRead head prev\<rparr>"
  let ?s2 = "?s1\<lparr>tracker := (tracker s)\<lparr>saver := hs\<rparr>, listener := HeadSaved head prev\<rparr>"
  have "tracker_step ord cfg num s ?s1" using tracker_step.receive assms(2,3) prev by blast
  moreover have "tracker_step ord cfg num ?s1 ?s2"
    using tracker_step.save [of ?s1 head prev ord cfg db hs num] sv err by simp
  moreover have "tracker_step ord cfg num ?s2 (?s2\<lparr>tracker := t, listener := Listening\<rparr>)"
    by (rule tracker_step.deliver [of _ head prev]) (use d in simp_all)
  moreover have "?s2\<lparr>tracker := t, listener := Listening\<rparr> = s\<lparr>tracker := t\<rparr>" using assms(2) by simp
  ultimately show ?thesis by (metis converse_rtranclp_into_rtranclp rtranclp.rtrancl_refl)
qed

definition tcfg :: tracker_cfg where
  "tcfg = \<lparr>EvmHeadTrackerHistoryDepth = 10, EvmFinalityDepth = 2, sampling = False\<rparr>"

definition db_fine :: db_outcome where
  "db_fine = \<lparr>insert_ok = True, trim_ok = True, db_now = 0\<rparr>"

definition block :: "nat \<Rightarrow> int \<Rightarrow> nat \<Rightarrow> Head" where
  "block h n par = \<lparr>Hash = h, Number = n, ParentHash = par, EVMChainID = None, BaseFee = None\<rparr>"

lemma block_fields [simp]: "Hash (block h n par) = h" "Number (block h n par) = n" "ParentHash (block h n par) = par"
  by (simp_all add: block_def)

lemmas tracker_eval = tcfg_def db_fine_def block_def NewHeadTracker_def NewHeadSaver_def NewHeads_def
  handleNewHead_def handle_deliver_def is_higher_def LatestChain_def LatestHead_def ChainLength_def Chain_def
  chain_length_loop.simps Save_def AddHeads_def IdempotentInsertHead_def TrimOldHeads_def row_number_def
  HeadByHash_def Deliver_def NewMailbox_def HeadsBufferSize_def deref_def

definition empty_saver :: headSaver where
  "empty_saver = NewHeadSaver []"

lemma LoadFromDB_empty:
  "LoadFromDB (\<lambda>m. m) tcfg True (NewHeadSaver []) = (Inr None, empty_saver)"
  by (simp add: LoadFromDB_def LatestHeads_def latest_first_def empty_saver_def LatestHead_def tracker_eval)

lemma two_heads_run:
  "\<exists>t1 t2 p q t3 t4. handleNewHead (\<lambda>m. m) tcfg db_fine False (block 1 5 9) (NewHeadTracker empty_saver) = Some (Ret (None, t1))
     \<and> handleNewHead (\<lambda>m. m) tcfg db_fine False (block 2 6 1) t1 = Some (Ret (None, t2))
     \<and> broadcast_turn tcfg t2 = (Some p, t3) \<and> broadcast_turn tcfg t3 = (Some q, t4)
     \<and> Number (deref p) = 5 \<and> Number (deref q) = 6"
  by (simp add: empty_saver_def tracker_eval broadcast_turn_def Retrieve_def)

lemma broadcast_reaches:
  "broadcast_turn cfg (tracker s) = (Some p, t)
   \<Longrightarrow> (tracker_step ord cfg num)\<^sup>*\<^sup>* s (s\<lparr>tracker := t, given := given s @ [p]\<rparr>)"
  using tracker_step.broadcast [of cfg s "Some p" t ord num] by simp

definition num56 :: "nat \<Rightarrow> int" where
  "num56 h = (if h = 1 then 5 else 6)"

lemma two_heads_reachable:
  "\<exists>s p q. tracker_reachable (\<lambda>m. m) tcfg num56 empty_saver s \<and> given s = [p, q]
     \<and> Number (deref p) = 5 \<and> Number (deref q) = 6"
proof -
  let ?step = "(tracker_step (\<lambda>m. m) tcfg num56)\<^sup>*\<^sup>*" and ?s = "start_state empty_saver"
  obtain t1 t2 p q t3 t4 where
      1: "handleNewHead (\<lambda>m. m) tcfg db_fine False (block 1 5 9) (NewHeadTracker empty_saver) = Some (Ret (None, t1))"
    and 2: "handleNewHead (\<lambda>m. m) tcfg db_fine False (block 2 6 1) t1 = Some (Ret (None, t2))"
    and 3: "broadcast_turn tcfg t2 = (Some p, t3)" "broadcast_turn tcfg t3 = (Some q, t4)"
    and 4: "Number (deref p) = 5" "Number (deref q) = 6"
    using two_heads_run by blast
  have "?step ?s (?s\<lparr>tracker := t1\<rparr>)"
    by (rule handleNewHead_steps [where db = db_fine and head = "block 1 5 9"]) (use 1 in \<open>simp_all add: start_state_def num56_def\<close>)
  moreover have "?step (?s\<lparr>tracker := t1\<rparr>) (?s\<lparr>tracker := t1\<rparr>\<lparr>tracker := t2\<rparr>)"
    by (rule handleNewHead_steps [where db = db_fine and head = "block 2 6 1"]) (use 2 in \<open>simp_all add: start_state_def num56_def\<close>)
  moreover have "?step (?s\<lparr>tracker := t2\<rparr>) (?s\<lparr>tracker := t3, given := [p]\<rparr>)"
    using broadcast_reaches [of tcfg "?s\<lparr>tracker := t2\<rparr>" p t3] 3 by (simp add: start_state_def)
  moreover have "?step (?s\<lparr>tracker := t3, given := [p]\<rparr>) (?s\<lparr>tracker := t4, given := [p, q]\<rparr>)"
    using broadcast_reaches [of tcfg "?s\<lparr>tracker := t3, given := [p]\<rparr>" q t4] 3 by (simp add: start_state_def)
  ultimately have r: "?step ?s (?s\<lparr>tracker := t4, given := [p, q]\<rparr>)" by (auto dest: rtranclp_trans)
  with 4 show ?thesis by (intro exI [of _ "?s\<lparr>tracker := t4, given := [p, q]\<rparr>"]) simp
qed

theorem broadcast_increasing_witness:
  "\<exists>s. tracker_reachable (\<lambda>m. m) tcfg num56 empty_saver s \<and> map (\<lambda>p. Number (deref p)) (given s) = [5, 6]
     \<and> sorted_wrt (<) (map (\<lambda>p. Number (deref p)) (given s))"
proof -
  obtain s p q where s: "tracker_reachable (\<lambda>m. m) tcfg num56 empty_saver s" "given s = [p, q]"
      "Number (deref p) = 5" "Number (deref q) = 6"
    using two_heads_reachable by blast
  have "sorted_wrt (<) (map (\<lambda>p. Number (deref p)) (given s))"
    by (rule broadcast_increasing [OF iteration_order_id _ _ LoadFromDB_empty s(1)]) (simp_all add: tcfg_def)
  with s show ?thesis by auto
qed

text \<open>A save whose trim fails has already put the head into the collection: \<open>handleNewHead\<close> returns
  an error and announces nothing, and when the same head comes again it is taken for a known one and
  again not announced.\<close>

theorem trim_failure_loses_head:
  assumes "iteration_order ord" "0 < EvmHeadTrackerHistoryDepth cfg" "heads_inv num (hs_heads (saver ht))"
    and "Number head = num (Hash head)" "proper head" "numbers_descend (head_list (hs_heads (saver ht)) @ [head])"
    and "insert_ok db" "\<not> trim_ok db" "LatestChain (saver ht) = Some (Ret prev)"
  shows "\<exists>ht'. handleNewHead ord cfg db False head ht = Some (Ret (Some (FailedToSave ErrTrimHeads), ht'))
     \<and> broadcastMB ht' = broadcastMB ht \<and> backfillMB ht' = backfillMB ht
     \<and> (insert_ok db' \<longrightarrow> trim_ok db' \<longrightarrow>
          (\<exists>ht''. handleNewHead ord cfg db' False head ht' = Some (Ret (None, ht''))
             \<and> broadcastMB ht'' = broadcastMB ht \<and> backfillMB ht'' = backfillMB ht))"
proof -
  let ?h = "AddHeads ord (EvmHeadTrackerHistoryDepth cfg) [head] (hs_heads (saver ht))"
  let ?hs = "\<lparr>table = IdempotentInsertHead head (db_now db) (table (saver ht)), hs_heads = ?h\<rparr>"
  have inv: "heads_inv num ?h" and top: "below (Number head) (top ?h)"
    using heads_inv_AddHeads [OF assms(1,3)] AddHeads_top [OF assms(1,2,3), of "[head]" head] assms(4,5)
    by (simp_all add: agrees_def)
  from top obtain p where p: "LatestHead ?h = Some p" "Number head \<le> Number (deref p)"
    using LatestHead_top [OF inv] by (cases "LatestHead ?h") auto
  obtain rank where "descending rank (Parent (head_gen ?h))" using AddHeads_descending [OF assms(1,6)] by blast
  moreover have "gen p = head_gen ?h" using p(1) by (auto simp: LatestHead_def split: if_splits)
  ultimately have "\<exists>l. ChainLength (Parent (gen p)) (Some (ref p)) = Some (Ret l)"
    using chain_of_exists [of rank _ "ref p"] chain_length_chain [of _ "ref p" _ rank] by (metis ChainLength_def option.case(2))
  then have latest: "LatestChain ?hs = Some (Ret (Some p))" using p(1) by (auto simp: LatestChain_def)
  have sv: "Save ord cfg db head (saver ht) = (Some ErrTrimHeads, ?hs)"
    using assms(7,8) by (simp add: Save_def Let_def)
  have "handleNewHead ord cfg db False head ht = Some (Ret (Some (FailedToSave ErrTrimHeads), ht\<lparr>saver := ?hs\<rparr>))"
    using assms(9) sv by (simp add: handleNewHead_def)
  moreover have "\<exists>ht''. handleNewHead ord cfg db' False head (ht\<lparr>saver := ?hs\<rparr>) = Some (Ret (None, ht''))
      \<and> broadcastMB ht'' = broadcastMB ht \<and> backfillMB ht'' = backfillMB ht" if "insert_ok db'" "trim_ok db'"
    using latest p(2) that by (simp add: handleNewHead_def Save_def Let_def handle_deliver_def is_higher_def)
  ultimately show ?thesis by (intro exI [of _ "ht\<lparr>saver := ?hs\<rparr>"]) simp
qed

theorem trim_failure_loses_head_witness:
  "\<exists>ht'. handleNewHead (\<lambda>m. m) tcfg (db_fine\<lparr>trim_ok := False\<rparr>) False (block 1 5 9) (NewHeadTracker empty_saver)
        = Some (Ret (Some (FailedToSave ErrTrimHeads), ht'))
     \<and> (\<exists>ht''. handleNewHead (\<lambda>m. m) tcfg db_fine False (block 1 5 9) ht' = Some (Ret (None, ht''))
          \<and> broadcastMB ht'' = NewMailbox HeadsBufferSize)"
proof -
  have e: "hs_heads (saver (NewHeadTracker empty_saver)) = NewHeads"
    by (simp add: NewHeadTracker_def empty_saver_def NewHeadSaver_def)
  have h: "heads_inv num56 (hs_heads (saver (NewHeadTracker empty_saver)))" "proper (block 1 5 9)"
      "numbers_descend (head_list (hs_heads (saver (NewHeadTracker empty_saver))) @ [block 1 5 9])"
      "LatestChain (saver (NewHeadTracker empty_saver)) = Some (Ret None)"
      "Number (block 1 5 9) = num56 (Hash (block 1 5 9))"
    unfolding LatestChain_def e
    by (simp_all add: proper_def numbers_descend_def LatestHead_def num56_def) (simp_all add: NewHeads_def)
  have "0 < EvmHeadTrackerHistoryDepth tcfg" "insert_ok (db_fine\<lparr>trim_ok := False\<rparr>)"
      "\<not> trim_ok (db_fine\<lparr>trim_ok := False\<rparr>)" "insert_ok db_fine" "trim_ok db_fine"
      "broadcastMB (NewHeadTracker empty_saver) = NewMailbox HeadsBufferSize"
    by (simp_all add: tcfg_def db_fine_def NewHeadTracker_def)
  with trim_failure_loses_head [OF iteration_order_id this(1) h(1,5,2,3) this(2,3) h(4), of db_fine]
  show ?thesis by metis
qed

section \<open>Backfilling a chain\<close>

text \<open>The blocks of one chain from height 0 to \<open>n\<close>, by height.\<close>

definition canonical :: "(int \<Rightarrow> Head) \<Rightarrow> int \<Rightarrow> bool" where
  "canonical blk n \<longleftrightarrow>
     (\<forall>i\<in>{0..n}. Number (blk i) = i \<and> ParentHash (blk i) \<noteq> Hash (blk i))
     \<and> (\<forall>i\<in>{1..n}. ParentHash (blk i) = Hash (blk (i - 1)))
     \<and> inj_on (\<lambda>i. Hash (blk i)) {0..n}"

definition canon_inv :: "(int \<Rightarrow> Head) \<Rightarrow> int \<Rightarrow> heads \<Rightarrow> bool" where
  "canon_inv blk n h \<longleftrightarrow> set (head_list h) \<subseteq> blk ` {0..n}
     \<and> (\<forall>x\<in>set (head_list h). copy (head_gen h) (Hash x) = Some x)
     \<and> (\<forall>x\<in>set (head_list h). \<forall>y\<in>set (head_list h).
          ParentHash x = Hash y \<longrightarrow> Number y < Number x \<longrightarrow> Parent (head_gen h) (Hash x) = Some (Hash y))"

lemma canonical_number: "canonical blk n \<Longrightarrow> 0 \<le> i \<Longrightarrow> i \<le> n \<Longrightarrow> Number (blk i) = i \<and> proper (blk i)"
  unfolding canonical_def proper_def by (metis atLeastAtMost_iff)

lemma canonical_parent: "canonical blk n \<Longrightarrow> 0 < i \<Longrightarrow> i \<le> n \<Longrightarrow> ParentHash (blk i) = Hash (blk (i - 1))"
  by (auto simp: canonical_def)

lemma canonical_hash:
  "canonical blk n \<Longrightarrow> x \<in> blk ` {0..n} \<Longrightarrow> 0 \<le> i \<Longrightarrow> i \<le> n \<Longrightarrow> Hash x = Hash (blk i) \<Longrightarrow> x = blk i"
  unfolding canonical_def inj_on_def by (metis atLeastAtMost_iff imageE)

lemma AddHeads_linked:
  assumes "iteration_order ord" "x \<in> set (head_list (AddHeads ord d new h))"
    and "y \<in> set (head_list (AddHeads ord d new h))" "ParentHash x = Hash y" "Number y < Number x"
  shows "Parent (head_gen (AddHeads ord d new h)) (Hash x) = Some (Hash y)"
proof -
  let ?m = "added_map h new" and ?hs = "take d (sorted_heads ord (added_map h new))"
  have ok: "map_ok ?m" by (simp add: heads_map_ok)
  have hs: "head_list (AddHeads ord d new h) = ?hs" by (rule head_list_AddHeads)
  have dist: "distinct (map Hash ?hs)"
    using sorted_heads_facts(3) [OF assms(1) ok] by (simp add: take_map [symmetric])
  have sorted: "sorted_wrt (\<lambda>a b. Number b \<le> Number a) ?hs"
    using AddHeads_sorted [OF assms(1), of d new h] hs by simp
  have "x \<noteq> last ?hs"
  proof
    assume "x = last ?hs"
    moreover have "?hs = butlast ?hs @ [last ?hs]" using assms(2) hs by (auto intro: append_butlast_last_id [symmetric])
    ultimately have "\<forall>z\<in>set (butlast ?hs). Number x \<le> Number z" "set ?hs = insert x (set (butlast ?hs))"
      using sorted by (metis in_set_conv_decomp sorted_wrt_append list.set_intros(1), metis set_append Un_insert_right sup_bot_right list.simps(15) empty_set)
    then show False using assms(3,5) hs by auto
  qed
  then have "x \<in> set (butlast ?hs)"
    using assms(2) hs by (metis append_butlast_last_id in_set_conv_decomp_first insertE list.set(2) list.set(1) Un_iff empty_iff set_append empty_set)
  moreover have "distinct (map Hash (butlast ?hs))" using dist by (metis distinct_butlast map_butlast)
  moreover have "map_of ?m (ParentHash x) \<noteq> None" using kept_lookup [OF assms(1,3)] assms(4) by simp
  moreover have "Parent (head_gen (AddHeads ord d new h)) = assign_parents ?m (butlast ?hs) (\<lambda>_. None)"
    by (auto simp: AddHeads_def sorted_heads_def Let_def butlast_conv_take min_def)
  ultimately show ?thesis using assign_parents_complete [of "butlast ?hs" x ?m] assms(4) by metis
qed

lemma canon_inv_AddHeads:
  assumes "iteration_order ord" "canon_inv blk n h" "set new \<subseteq> blk ` {0..n}"
  shows "canon_inv blk n (AddHeads ord d new h)"
  unfolding canon_inv_def
proof (intro conjI ballI impI subsetI)
  fix x assume x: "x \<in> set (head_list (AddHeads ord d new h))"
  show "x \<in> blk ` {0..n}"
    using AddHeads_members [OF assms(1) x] assms(2,3) unfolding canon_inv_def by auto
  show "copy (head_gen (AddHeads ord d new h)) (Hash x) = Some x"
    using kept_lookup [OF assms(1) x] by simp
  fix y assume "y \<in> set (head_list (AddHeads ord d new h))" "ParentHash x = Hash y" "Number y < Number x"
  with AddHeads_linked [OF assms(1) x]
  show "Parent (head_gen (AddHeads ord d new h)) (Hash x) = Some (Hash y)" by blast
qed

text \<open>Of the heads of one chain, none at height \<open>b\<close> or above is pushed out of a collection with room for
  \<open>n - b + 1\<close> heads.\<close>

lemma AddHeads_keeps:
  assumes "iteration_order ord" "canonical blk n" "set (head_list h @ new) \<subseteq> blk ` {0..n}"
    and "0 \<le> j" "j \<le> n" "n - j < int d" "blk j \<in> set (head_list h @ new)"
  shows "blk j \<in> set (head_list (AddHeads ord d new h))"
proof (rule ccontr)
  assume not: "blk j \<notin> set (head_list (AddHeads ord d new h))"
  let ?m = "added_map h new" and ?S = "sorted_heads ord (added_map h new)"
  have ok: "map_ok ?m" by (simp add: heads_map_ok)
  note F = sorted_heads_facts [OF assms(1) ok]
  have S: "?S = take d ?S @ drop d ?S" by simp
  have sub: "set ?S \<subseteq> blk ` {0..n}"
  proof
    fix x assume "x \<in> set ?S"
    then have "x \<in> snd ` set ?m" by (simp only: F(1))
    then have "map_of ?m (Hash x) = Some x" by (rule map_ok_mem [OF ok])
    from lookup_mem [OF this] assms(3) show "x \<in> blk ` {0..n}" by blast
  qed
  have "Hash (blk j) \<in> fst ` set ?m"
    using assms(7) canonical_number [OF assms(2,4,5)] by (auto simp: heads_map_keys)
  then obtain x where x: "map_of ?m (Hash (blk j)) = Some x" by (metis domD dom_map_of_conv_image_fst)
  then have "x \<in> blk ` {0..n}" "Hash x = Hash (blk j)" using lookup_mem [OF x] assms(3) by auto
  then have "x = blk j" using canonical_hash assms(2,4,5) by blast
  with map_of_SomeD [OF x] have "blk j \<in> set ?S" unfolding F(1) by force
  with not have d: "blk j \<in> set (drop d ?S)" by (metis S Un_iff head_list_AddHeads set_append)
  then have len: "d < length ?S" by (metis drop_eq_Nil2 empty_iff list.set(1) not_le)
  have above: "\<forall>y\<in>set (take d ?S). j \<le> Number y"
  proof
    fix y assume "y \<in> set (take d ?S)"
    with d F(4) S have "Number (blk j) \<le> Number y" by (metis sorted_wrt_append)
    then show "j \<le> Number y" using canonical_number [OF assms(2,4,5)] by simp
  qed
  have "set (take d ?S) \<subseteq> blk ` {j + 1..n}"
  proof
    fix y assume y: "y \<in> set (take d ?S)"
    with sub obtain k where k: "y = blk k" "0 \<le> k" "k \<le> n" by (auto dest: in_set_takeD)
    have "j \<le> k" using bspec [OF above y] k(1) canonical_number [OF assms(2) k(2,3)] by simp
    moreover have "y \<noteq> blk j"
      using y d F(3) S by (metis disjoint_iff distinct_append distinct_map)
    ultimately show "y \<in> blk ` {j + 1..n}" using k by (cases "k = j") auto
  qed
  then have "card (set (take d ?S)) \<le> card {j + 1..n}"
    by (meson card_image_le card_mono finite_atLeastAtMost_int finite_imageI order_trans)
  moreover have "distinct (take d ?S)" using F(3) by (simp add: distinct_map)
  then have "card (set (take d ?S)) = d" using len by (simp add: distinct_card)
  ultimately show False using assms(5,6) by simp
qed

lemma ancestors_in_chain:
  assumes "canonical blk n" "canon_inv blk n h" "0 \<le> b" "\<forall>j\<in>{b..n}. blk j \<in> set (head_list h)"
    and "b \<le> j" "j \<le> i" "i \<le> n"
  shows "IsInChain (Parent (head_gen h)) (Hash (blk i)) (Hash (blk j)) = Some True"
  using assms(6,7)
proof (induction i rule: int_ge_induct)
  case base
  show ?case by (subst IsInChain.simps) simp
next
  case (step i)
  have "blk (i + 1) \<in> set (head_list h)" "blk i \<in> set (head_list h)"
    using assms(4) step(1,3) assms(5) by auto
  moreover have "ParentHash (blk (i + 1)) = Hash (blk i)"
    using canonical_parent [OF assms(1), of "i + 1"] step assms(3,5) by simp
  moreover have "Number (blk i) < Number (blk (i + 1))"
    using canonical_number [OF assms(1)] step assms(3,5) by simp
  ultimately have "Parent (head_gen h) (Hash (blk (i + 1))) = Some (Hash (blk i))"
    using assms(2) by (simp add: canon_inv_def)
  then show ?case using step by (subst IsInChain.simps) simp
qed

definition answers :: "(int \<Rightarrow> Head) \<Rightarrow> int \<Rightarrow> int \<Rightarrow> fetch_env \<Rightarrow> bool" where
  "answers blk b n env \<longleftrightarrow>
     (\<forall>j\<in>{b..n}. HeadByNumber env j = Inr (Some (blk j)) \<and> insert_ok (fetch_db env j) \<and> trim_ok (fetch_db env j)
        \<and> \<not> fetch_ctx_done env j)"

lemma fetch_canonical:
  assumes "answers blk b n env" "b \<le> i" "i \<le> n"
  shows "\<exists>t. fetchAndSaveHead ord cfg env i hs =
     (Inr (blk i), \<lparr>table = t, hs_heads = AddHeads ord (EvmHeadTrackerHistoryDepth cfg) [blk i] (hs_heads hs)\<rparr>)"
  using assms by (simp add: answers_def fetchAndSaveHead_def Save_def Let_def)

lemma backfill_loop_canonical:
  assumes "iteration_order ord" "canonical blk n" "answers blk b n env" "0 \<le> b"
    and "n - b < int (EvmHeadTrackerHistoryDepth cfg)"
  shows "int k = i - b + 1 \<Longrightarrow> i < n \<Longrightarrow> canon_inv blk n (hs_heads hs)
     \<Longrightarrow> \<forall>j\<in>{i + 1..n}. blk j \<in> set (head_list (hs_heads hs))
     \<Longrightarrow> \<exists>hs'. backfill_loop ord cfg env k i (blk (i + 1)) hs = (None, hs') \<and> canon_inv blk n (hs_heads hs')
          \<and> (\<forall>j\<in>{b..n}. blk j \<in> set (head_list (hs_heads hs')))"
proof (induction k arbitrary: i hs)
  case 0
  then show ?case by auto
next
  case (Suc k)
  then have i: "b \<le> i" "i < n" by auto
  have ph: "ParentHash (blk (i + 1)) = Hash (blk i)"
    using canonical_parent [OF assms(2), of "i + 1"] i assms(4) by simp
  show ?case
  proof (cases "HeadByHash (hs_heads hs) (Hash (blk i))")
    case None
    obtain t where fetched: "fetchAndSaveHead ord cfg env i hs =
        (Inr (blk i), \<lparr>table = t, hs_heads = AddHeads ord (EvmHeadTrackerHistoryDepth cfg) [blk i] (hs_heads hs)\<rparr>)"
      using fetch_canonical [OF assms(3)] i by (meson less_imp_le)
    let ?h = "AddHeads ord (EvmHeadTrackerHistoryDepth cfg) [blk i] (hs_heads hs)"
    have sub: "set (head_list (hs_heads hs) @ [blk i]) \<subseteq> blk ` {0..n}"
      using Suc.prems(3) i assms(4) by (auto simp: canon_inv_def)
    have "canon_inv blk n ?h" using canon_inv_AddHeads [OF assms(1) Suc.prems(3)] sub by simp
    moreover have "blk j \<in> set (head_list ?h)" if "j \<in> {i..n}" for j
      by (rule AddHeads_keeps [OF assms(1,2) sub])
        (use that i Suc.prems(4) assms(4,5) in \<open>auto simp: le_less\<close>)
    moreover have "\<not> fetch_ctx_done env i" using assms(3) i by (simp add: answers_def)
    ultimately show ?thesis
      using Suc.IH [of "i - 1" "\<lparr>table = t, hs_heads = ?h\<rparr>"] Suc.prems(1) i None fetched ph
      by (simp add: Chain_def)
  next
    case (Some p)
    obtain x where x: "x \<in> set (head_list (hs_heads hs))" "Hash x = Hash (blk i)"
        "p = \<lparr>gen = head_gen (hs_heads hs), ref = Hash (blk i)\<rparr>"
      using HeadByHash_SomeD [OF Some] by blast
    moreover have "x \<in> blk ` {0..n}" "0 \<le> i" "i \<le> n"
      using x(1) Suc.prems(3) i assms(4) unfolding canon_inv_def by auto
    ultimately have xi: "x = blk i" using canonical_hash [OF assms(2)] by blast
    have "copy (head_gen (hs_heads hs)) (Hash x) = Some x" using x(1) Suc.prems(3) unfolding canon_inv_def by blast
    then have "deref p = blk i" using x(3) xi by (simp add: deref_def)
    moreover have "blk j \<in> set (head_list (hs_heads hs))" if "j \<in> {i..n}" for j
    proof (cases "j = i")
      case False
      with that Suc.prems(4) show ?thesis by auto
    qed (use x(1) xi in simp)
    ultimately show ?thesis
      using Suc.IH [of "i - 1" hs] Suc.prems(1,3) i Some ph by (simp add: Chain_def)
  qed
qed

text \<open>C16: When the node answers with the blocks of one chain, nothing else is in the collection and the
  database works, a backfill from a head down to a height \<open>b\<close> that the history has room for succeeds,
  and the chain of the highest head then holds every block down to \<open>b\<close>.\<close>

theorem backfill_completes:
  assumes "iteration_order ord" "canonical blk n" "canon_inv blk n (hs_heads hs)" "answers blk b n env"
    and "0 \<le> b" "b \<le> m" "m \<le> n" "\<forall>j\<in>{m..n}. blk j \<in> set (head_list (hs_heads hs))"
    and "n - b < int (EvmHeadTrackerHistoryDepth cfg)"
  shows "\<exists>hs' p. backfill ord cfg env (blk m) b hs = (None, hs') \<and> Chain hs' (Hash (blk n)) = Some p
     \<and> (\<forall>j. b \<le> j \<longrightarrow> j \<le> n \<longrightarrow> IsInChain (Parent (gen p)) (ref p) (Hash (blk j)) = Some True)"
proof -
  have num: "Number (blk m) = m" using canonical_number [OF assms(2)] assms(5-7) by simp
  have "\<exists>hs'. backfill ord cfg env (blk m) b hs = (None, hs') \<and> canon_inv blk n (hs_heads hs')
     \<and> (\<forall>j\<in>{b..n}. blk j \<in> set (head_list (hs_heads hs')))"
  proof (cases "m = b")
    case True
    with assms num show ?thesis by (simp add: backfill_def)
  next
    case False
    then show ?thesis
      using backfill_loop_canonical [OF assms(1,2,4,5,9), of "nat (m - b)" "m - 1" hs] assms num
      by (simp add: backfill_def)
  qed
  then obtain hs' where hs': "backfill ord cfg env (blk m) b hs = (None, hs')" "canon_inv blk n (hs_heads hs')"
      "\<forall>j\<in>{b..n}. blk j \<in> set (head_list (hs_heads hs'))" by blast
  then have "blk n \<in> set (head_list (hs_heads hs'))" using assms(6,7) by simp
  then have "Hash (blk n) \<in> Hash ` set (head_list (hs_heads hs'))" by (rule imageI)
  then obtain p where p: "HeadByHash (hs_heads hs') (Hash (blk n)) = Some p" by (metis HeadByHash_mem not_None_eq)
  then have "gen p = head_gen (hs_heads hs')" "ref p = Hash (blk n)"
    using HeadByHash_SomeD [OF p] by auto
  with ancestors_in_chain [OF assms(2) hs'(2) assms(5) hs'(3)] p hs'(1) show ?thesis
    by (auto simp: Chain_def)
qed

definition blk3 :: "int \<Rightarrow> Head" where
  "blk3 i = block (nat i + 1) i (nat i)"

definition saver3 :: headSaver where
  "saver3 = \<lparr>table = [], hs_heads = AddHeads (\<lambda>m. m) 10 [blk3 3] NewHeads\<rparr>"

definition env3 :: fetch_env where
  "env3 = \<lparr>HeadByNumber = (\<lambda>i. Inr (Some (blk3 i))), fetch_db = (\<lambda>_. db_fine), fetch_ctx_done = (\<lambda>_. False)\<rparr>"

lemma canonical3: "canonical blk3 3"
  by (auto simp: canonical_def blk3_def inj_on_def)

lemma canon_inv3: "canon_inv blk3 3 (hs_heads saver3)"
proof -
  have "canon_inv blk3 3 NewHeads" by (simp add: canon_inv_def NewHeads_def)
  then show ?thesis unfolding saver3_def by (auto intro: canon_inv_AddHeads iteration_order_id)
qed

lemma member3: "\<forall>j\<in>{3..3}. blk3 j \<in> set (head_list (hs_heads saver3))"
  by (simp add: saver3_def head_list_AddHeads sorted_heads_def blk3_def NewHeads_def)

theorem backfill_completes_witness:
  "\<exists>hs' p. backfill (\<lambda>m. m) tcfg env3 (blk3 3) 1 saver3 = (None, hs') \<and> Chain hs' 4 = Some p
     \<and> IsInChain (Parent (gen p)) (ref p) 2 = Some True"
proof -
  have "answers blk3 1 3 env3" by (simp add: answers_def env3_def db_fine_def)
  from backfill_completes [OF iteration_order_id canonical3 canon_inv3 this, of 3 tcfg] member3
  obtain hs' p where "backfill (\<lambda>m. m) tcfg env3 (blk3 3) 1 saver3 = (None, hs')" "Chain hs' (Hash (blk3 3)) = Some p"
      "IsInChain (Parent (gen p)) (ref p) (Hash (blk3 1)) = Some True"
    by (auto simp: tcfg_def)
  then show ?thesis by (auto simp: blk3_def numeral_2_eq_2)
qed

text \<open>\<open>Start\<close> returns an error exactly when the heads cannot be loaded or the initial head cannot be
  handled; it starts its loops when it returns no error, except in one case: when the context ends
  during the request for the initial head it returns no error and starts nothing.\<close>

theorem tracker_start_outcome:
  assumes "tracker_start ord cfg select_ok db err_is_ctx ctx_done answer ht = Some (Ret (err, loops, ht'))"
  shows "(err = None \<longleftrightarrow> select_ok \<and>
            (case answer of
               Inr (Some head) \<Rightarrow>
                 (\<exists>ht2. handleNewHead ord cfg db ctx_done head (ht\<lparr>saver := snd (LoadFromDB ord cfg True (saver ht))\<rparr>)
                    = Some (Ret (None, ht2)))
             | _ \<Rightarrow> True))
       \<and> (loops \<longleftrightarrow> err = None \<and> \<not> (err_is_ctx \<and> (case answer of Inl e \<Rightarrow> True | Inr _ \<Rightarrow> False)))"
proof (cases select_ok)
  case True
  obtain latest hs where l: "LoadFromDB ord cfg True (saver ht) = (Inr latest, hs)"
    by (simp add: LoadFromDB_def Let_def)
  show ?thesis
  proof (cases "\<exists>head. answer = Inr (Some head)")
    case False
    with assms True l show ?thesis
      by (auto simp: tracker_start_def Let_def split: sum.splits option.splits if_splits)
  next
    case h: True
    then obtain head where "answer = Inr (Some head)" by blast
    moreover from this assms True l
    obtain e ht2 where "handleNewHead ord cfg db ctx_done head (ht\<lparr>saver := hs\<rparr>) = Some (Ret (e, ht2))"
      by (auto simp: tracker_start_def Let_def elim!: loop_bind.elims)
    ultimately show ?thesis using assms True l
      by (cases e) (auto simp: tracker_start_def Let_def)
  qed
next
  case False
  with assms show ?thesis by (auto simp: tracker_start_def LoadFromDB_def)
qed

theorem tracker_start_outcome_witness:
  "\<exists>loops ht'. tracker_start (\<lambda>m. m) tcfg True db_fine True False (Inl ErrFetchHead) (NewHeadTracker empty_saver)
     = Some (Ret (None, loops, ht')) \<and> \<not> loops"
proof -
  obtain err loops ht' where
      1: "tracker_start (\<lambda>m. m) tcfg True db_fine True False (Inl ErrFetchHead) (NewHeadTracker empty_saver)
        = Some (Ret (err, loops, ht'))"
    by (auto simp: tracker_start_def LoadFromDB_def Let_def)
  from tracker_start_outcome [OF this] 1 show ?thesis by auto
qed

end
