(* ===== verification/HeadBroadcaster.thy ===== *)
theory HeadBroadcaster
  imports Heads Mailbox "HOL-Library.Sublist"
begin

text \<open>
  The two ends of the head pipeline: \<open>core/chains/evm/headtracker/head_broadcaster.go\<close>, which calls
  the subscribers, and \<open>head_listener.go\<close>, which keeps a subscription to new heads alive. In the
  first, subscribing, announcing and the loop that runs the callbacks interleave; in the second the
  cases of the \<open>select\<close> statements come as events.
\<close>

section \<open>The broadcaster\<close>

record ('t, 'h) headBroadcaster =
  callbacks :: "(nat \<times> 't) list"
  mailbox :: "'h Mailbox"
  hb_latest :: "'h option"
  lastCallbackID :: nat

definition NewHeadBroadcaster :: "('t, 'h) headBroadcaster" where
  "NewHeadBroadcaster = \<lparr>callbacks = [], mailbox = NewMailbox 1, hb_latest = None, lastCallbackID = 0\<rparr>"

definition callback_values :: "((nat \<times> 't) list \<Rightarrow> (nat \<times> 't) list) \<Rightarrow> (nat \<times> 't) list \<Rightarrow> 't list" where
  "callback_values ord cbs = map snd (ord cbs)"

definition BroadcastNewLongestChain :: "'h \<Rightarrow> ('t, 'h) headBroadcaster \<Rightarrow> ('t, 'h) headBroadcaster" where
  "BroadcastNewLongestChain head hb = hb\<lparr>mailbox := snd (Deliver (mailbox hb) head)\<rparr>"

text \<open>The current chain, the ID that the function \<open>unsubscribe\<close> deletes, and the new state.\<close>

definition Subscribe :: "'t \<Rightarrow> ('t, 'h) headBroadcaster \<Rightarrow> ('h option \<times> nat) \<times> ('t, 'h) headBroadcaster" where
  "Subscribe callback hb =
     (let callbackID = lastCallbackID hb + 1
      in ((hb_latest hb, callbackID),
          hb\<lparr>lastCallbackID := callbackID, callbacks := assoc_put callbackID callback (callbacks hb)\<rparr>))"

definition unsubscribe :: "nat \<Rightarrow> ('t, 'h) headBroadcaster \<Rightarrow> ('t, 'h) headBroadcaster" where
  "unsubscribe callbackID hb = hb\<lparr>callbacks := assoc_del callbackID (callbacks hb)\<rparr>"

text \<open>\<open>executeCallbacks\<close> in three parts: the head is retrieved; under the mutex the callbacks are copied and the head
  becomes the latest; then one goroutine for each of the copied callbacks calls it, in any order.\<close>

definition retrieve_head :: "('t, 'h) headBroadcaster \<Rightarrow> 'h option \<times> ('t, 'h) headBroadcaster" where
  "retrieve_head hb = (case Retrieve (mailbox hb) of (r, m) \<Rightarrow> (r, hb\<lparr>mailbox := m\<rparr>))"

definition copy_callbacks :: "((nat \<times> 't) list \<Rightarrow> (nat \<times> 't) list) \<Rightarrow> 'h \<Rightarrow> ('t, 'h) headBroadcaster
    \<Rightarrow> 't list \<times> ('t, 'h) headBroadcaster" where
  "copy_callbacks ord head hb = (callback_values ord (callbacks hb), hb\<lparr>hb_latest := Some head\<rparr>)"

definition broadcaster_close :: "('t, 'h) headBroadcaster \<Rightarrow> ('t, 'h) headBroadcaster" where
  "broadcaster_close hb = hb\<lparr>callbacks := []\<rparr>"

subsection \<open>Interleaved\<close>

text \<open>
  The loop \<open>run\<close> takes the notification (\<open>Wake\<close>), retrieves the head (\<open>Fetch\<close>), copies the callbacks
  (\<open>CopyCallbacks\<close>), has each of them called (\<open>CallBack k\<close>, the \<open>k\<close>-th of those not called yet), and goes back to its
  \<open>select\<close> once all calls have been made (\<open>Join\<close>); anything may happen in between, subscribing and unsubscribing too.
  \<open>calls\<close> records every call of a callback, in order, \<open>heads_run\<close> the heads that callbacks were copied for.
\<close>

datatype ('t, 'h) hb_op = Announce 'h | Wake | Fetch | CopyCallbacks | CallBack nat | Join | Sub 't | Unsub nat

datatype ('t, 'h) hb_pc = AtSelect | Notified | Fetched 'h | Calling 'h "'t list"

record ('t, 'h) hb_sys =
  hb :: "('t, 'h) headBroadcaster"
  hb_at :: "('t, 'h) hb_pc"
  calls :: "('t \<times> 'h) list"
  heads_run :: "'h list"

definition hb_init :: "('t, 'h) hb_sys" where
  "hb_init = \<lparr>hb = NewHeadBroadcaster, hb_at = AtSelect, calls = [], heads_run = []\<rparr>"

definition run_wake :: "('t, 'h) hb_sys \<Rightarrow> ('t, 'h) hb_sys" where
  "run_wake s =
     (if hb_at s \<noteq> AtSelect then s
      else case receive_notify (mailbox (hb s)) of
             None \<Rightarrow> s
           | Some m \<Rightarrow> s\<lparr>hb := (hb s)\<lparr>mailbox := m\<rparr>, hb_at := Notified\<rparr>)"

definition run_fetch :: "('t, 'h) hb_sys \<Rightarrow> ('t, 'h) hb_sys" where
  "run_fetch s =
     (if hb_at s \<noteq> Notified then s
      else case retrieve_head (hb s) of
             (None, b) \<Rightarrow> s\<lparr>hb := b, hb_at := AtSelect\<rparr>
           | (Some head, b) \<Rightarrow> s\<lparr>hb := b, hb_at := Fetched head\<rparr>)"

definition run_copy :: "((nat \<times> 't) list \<Rightarrow> (nat \<times> 't) list) \<Rightarrow> ('t, 'h) hb_sys \<Rightarrow> ('t, 'h) hb_sys" where
  "run_copy ord s =
     (case hb_at s of
        Fetched head \<Rightarrow> (case copy_callbacks ord head (hb s) of
          (cs, b) \<Rightarrow> s\<lparr>hb := b, hb_at := Calling head cs, heads_run := heads_run s @ [head]\<rparr>)
      | _ \<Rightarrow> s)"

definition run_call :: "nat \<Rightarrow> ('t, 'h) hb_sys \<Rightarrow> ('t, 'h) hb_sys" where
  "run_call k s =
     (case hb_at s of
        Calling head cs \<Rightarrow>
          if k < length cs
          then s\<lparr>hb_at := Calling head (take k cs @ drop (Suc k) cs), calls := calls s @ [(cs ! k, head)]\<rparr>
          else s
      | _ \<Rightarrow> s)"

definition run_join :: "('t, 'h) hb_sys \<Rightarrow> ('t, 'h) hb_sys" where
  "run_join s = (case hb_at s of Calling head [] \<Rightarrow> s\<lparr>hb_at := AtSelect\<rparr> | _ \<Rightarrow> s)"

fun hb_step :: "((nat \<times> 't) list \<Rightarrow> (nat \<times> 't) list) \<Rightarrow> ('t, 'h) hb_op \<Rightarrow> ('t, 'h) hb_sys \<Rightarrow> ('t, 'h) hb_sys" where
  "hb_step ord (Announce h) s = s\<lparr>hb := BroadcastNewLongestChain h (hb s)\<rparr>"
| "hb_step ord Wake s = run_wake s"
| "hb_step ord Fetch s = run_fetch s"
| "hb_step ord CopyCallbacks s = run_copy ord s"
| "hb_step ord (CallBack k) s = run_call k s"
| "hb_step ord Join s = run_join s"
| "hb_step ord (Sub t) s = s\<lparr>hb := snd (Subscribe t (hb s))\<rparr>"
| "hb_step ord (Unsub i) s = s\<lparr>hb := unsubscribe i (hb s)\<rparr>"

fun hb_run :: "((nat \<times> 't) list \<Rightarrow> (nat \<times> 't) list) \<Rightarrow> ('t, 'h) hb_op list \<Rightarrow> ('t, 'h) hb_sys \<Rightarrow> ('t, 'h) hb_sys" where
  "hb_run ord [] s = s"
| "hb_run ord (x # xs) s = hb_run ord xs (hb_step ord x s)"

fun announced :: "('t, 'h) hb_op list \<Rightarrow> 'h list" where
  "announced [] = []"
| "announced (Announce h # xs) = h # announced xs"
| "announced (_ # xs) = announced xs"

lemma hb_run_append: "hb_run ord (xs @ ys) s = hb_run ord ys (hb_run ord xs s)"
  by (induction xs arbitrary: s) simp_all

text \<open>The head that the loop holds; the newest head: in the mailbox, else in hand, else what was run last.\<close>

definition in_hand :: "('t, 'h) hb_sys \<Rightarrow> 'h list" where
  "in_hand s = (case hb_at s of Fetched h \<Rightarrow> [h] | _ \<Rightarrow> [])"

definition newest :: "('t, 'h) hb_sys \<Rightarrow> 'h option" where
  "newest s = (case queue (mailbox (hb s)) of h # _ \<Rightarrow> Some h
     | [] \<Rightarrow> (case hb_at s of Fetched h \<Rightarrow> Some h | _ \<Rightarrow> hb_latest (hb s)))"

definition hb_inv :: "('t, 'h) hb_sys \<Rightarrow> bool" where
  "hb_inv s \<longleftrightarrow> capacity (mailbox (hb s)) = 1 \<and> length (queue (mailbox (hb s))) \<le> 1
     \<and> (queue (mailbox (hb s)) \<noteq> [] \<longrightarrow> chNotify (mailbox (hb s)) \<or> hb_at s = Notified)
     \<and> distinct (map fst (callbacks (hb s)))
     \<and> (\<forall>i\<in>fst ` set (callbacks (hb s)). i \<le> lastCallbackID (hb s))
     \<and> hb_latest (hb s) = (if heads_run s = [] then None else Some (last (heads_run s)))"

lemmas hb_parts = run_wake_def run_fetch_def retrieve_head_def run_copy_def copy_callbacks_def run_call_def run_join_def
lemmas hb_defs = hb_inv_def hb_parts Subscribe_def unsubscribe_def
  BroadcastNewLongestChain_def Retrieve_def receive_notify_def Deliver_def newest_def

lemma hb_inv_init [simp]: "hb_inv hb_init"
  by (simp add: hb_inv_def hb_init_def NewHeadBroadcaster_def NewMailbox_def)

lemma hb_inv_step: "hb_inv s \<Longrightarrow> hb_inv (hb_step ord x s)"
  by (cases x; cases "queue (mailbox (hb s))"; cases "hb_at s") (auto simp: hb_defs Let_def split: list.splits)

lemma hb_inv_run: "hb_inv s \<Longrightarrow> hb_inv (hb_run ord xs s)"
  by (induction xs arbitrary: s) (simp_all add: hb_inv_step)

lemma newest_step:
  "hb_inv s \<Longrightarrow> newest (hb_step ord x s) = (case x of Announce h \<Rightarrow> Some h | _ \<Rightarrow> newest s)"
  by (cases x; cases "queue (mailbox (hb s))"; cases "hb_at s") (auto simp: hb_defs Let_def split: list.splits)

lemma newest_run:
  "hb_inv s \<Longrightarrow> newest (hb_run ord xs s) = (if announced xs = [] then newest s else Some (last (announced xs)))"
proof (induction xs arbitrary: s)
  case (Cons x xs)
  from Cons.IH [OF hb_inv_step [OF Cons.prems]] newest_step [OF Cons.prems] show ?case
    by (cases x) (simp_all del: hb_step.simps)
qed simp

lemma newest_init: "newest hb_init = None"
  by (simp add: newest_def hb_init_def NewHeadBroadcaster_def NewMailbox_def)

text \<open>What the loop does when it is left alone: to the end of the turn it is in, and one more.\<close>

definition turn :: "nat \<Rightarrow> ('t, 'h) hb_op list" where
  "turn n = [Fetch, CopyCallbacks] @ replicate n (CallBack 0) @ [Join]"

lemma run_calls:
  "hb_at s = Calling head cs \<Longrightarrow>
   hb_run ord (replicate (length cs) (CallBack 0)) s = s\<lparr>hb_at := Calling head [], calls := calls s @ map (\<lambda>c. (c, head)) cs\<rparr>"
  by (induction cs arbitrary: s) (simp_all add: run_call_def)

lemma announced_turn: "announced (turn n :: ('t, 'h) hb_op list) = []"
proof -
  have "announced (replicate n (CallBack 0) @ xs) = announced xs" for xs :: "('t, 'h) hb_op list"
    by (induction n) simp_all
  then show ?thesis by (simp add: turn_def)
qed

lemma finish_turn:
  "\<exists>n. hb_at (hb_run ord (turn n) s) = AtSelect"
proof -
  let ?s = "hb_run ord [Fetch, CopyCallbacks] s"
  show ?thesis
  proof (cases "hb_at ?s")
    case (Calling head cs)
    then have "hb_at (hb_run ord (turn (length cs)) s) = AtSelect"
      unfolding turn_def hb_run_append run_calls [OF Calling] by (simp add: run_join_def)
    then show ?thesis ..
  next
    case AtSelect
    then have "hb_at (hb_run ord (turn 0) s) = AtSelect" unfolding turn_def hb_run_append by (simp add: run_join_def)
    then show ?thesis ..
  qed (cases "hb_at s"; auto simp: hb_parts split: option.splits prod.splits)+
qed

lemma turn_from_select:
  "hb_inv s \<Longrightarrow> hb_at s = AtSelect \<Longrightarrow> hb_latest (hb (hb_run ord [Wake, Fetch, CopyCallbacks] s)) = newest s"
  by (cases "queue (mailbox (hb s))"; cases "chNotify (mailbox (hb s))") (auto simp: hb_defs Let_def)

text \<open>The entries of one callback, its calls, and those of the head in progress that are still to be made.\<close>

definition entries_of :: "'t \<Rightarrow> ('t, 'h) hb_sys \<Rightarrow> (nat \<times> 't) list" where
  "entries_of t s = filter (\<lambda>e. snd e = t) (callbacks (hb s))"

definition calls_of :: "'t \<Rightarrow> ('t, 'h) hb_sys \<Rightarrow> 'h list" where
  "calls_of t s = map snd (filter (\<lambda>c. fst c = t) (calls s))"

definition in_flight :: "'t \<Rightarrow> ('t, 'h) hb_sys \<Rightarrow> 'h list" where
  "in_flight t s = (case hb_at s of Calling head cs \<Rightarrow> replicate (length (filter (\<lambda>c. c = t) cs)) head | _ \<Rightarrow> [])"

lemma entries_init [simp]: "entries_of t hb_init = []" "calls_of t hb_init = []" "in_flight t hb_init = []"
  by (simp_all add: entries_of_def calls_of_def in_flight_def hb_init_def NewHeadBroadcaster_def)

lemma assoc_put_new: "k \<notin> fst ` set m \<Longrightarrow> assoc_put k v m = m @ [(k, v)]"
  by (induction k v m rule: assoc_put.induct) auto

lemma callback_values_count:
  assumes "iteration_order ord"
  shows "length (filter (\<lambda>c. c = t) (callback_values ord cbs)) = length (filter (\<lambda>e. snd e = t) cbs)"
proof -
  have "mset (filter (\<lambda>e. snd e = t) (ord cbs)) = mset (filter (\<lambda>e. snd e = t) cbs)"
    using assms by (simp add: iteration_order_def)
  from mset_eq_length [OF this] show ?thesis by (simp add: callback_values_def filter_map comp_def)
qed

lemma concat_map_replicate_one: "concat (map (replicate (Suc 0)) xs) = xs"
  by (induction xs) simp_all

lemma concat_map_replicate_none: "concat (map (replicate 0) xs) = []"
  by (induction xs) simp_all

lemma count_without:
  "k < length cs \<Longrightarrow> length (filter P cs) = (if P (cs ! k) then 1 else 0) + length (filter P (take k cs @ drop (Suc k) cs))"
  by (subst (1) id_take_nth_drop [of k cs]) simp_all

text \<open>One step adds to the calls of a callback, made and in flight, one for each entry and each head that is copied for.\<close>

lemma calls_step:
  assumes "iteration_order ord"
  shows "calls_of t (hb_step ord x s) @ in_flight t (hb_step ord x s) = calls_of t s @ in_flight t s
       @ concat (map (replicate (length (entries_of t s))) (drop (length (heads_run s)) (heads_run (hb_step ord x s))))
     \<and> (\<exists>hs. heads_run (hb_step ord x s) = heads_run s @ hs)"
proof (cases x)
  case (CallBack k)
  show ?thesis
  proof (cases "hb_at s")
    case (Calling head cs)
    show ?thesis
    proof (cases "k < length cs")
      case True
      have "replicate (length (filter (\<lambda>c. c = t) cs)) head
          = (if cs ! k = t then [head] else []) @ replicate (length (filter (\<lambda>c. c = t) (take k cs @ drop (Suc k) cs))) head"
        unfolding count_without [OF True, of "\<lambda>c. c = t"] by simp
      then show ?thesis using True Calling \<open>x = CallBack k\<close> by (simp add: run_call_def calls_of_def in_flight_def)
    qed (use Calling \<open>x = CallBack k\<close> in \<open>simp add: run_call_def calls_of_def in_flight_def\<close>)
  qed (use CallBack in \<open>simp_all add: run_call_def calls_of_def in_flight_def\<close>)
qed (cases "hb_at s"; use callback_values_count [OF assms, of t "callbacks (hb s)"] in
    \<open>auto simp: calls_of_def in_flight_def entries_of_def hb_parts split: option.splits prod.splits list.splits\<close>)+

lemma entries_step:
  assumes "hb_inv s" "x \<noteq> Sub t" "\<forall>e\<in>set (entries_of t s). x \<noteq> Unsub (fst e)"
  shows "entries_of t (hb_step ord x s) = entries_of t s"
proof (cases x)
  case (Unsub i)
  then have "filter (\<lambda>e. snd e = t \<and> fst e \<noteq> i) (callbacks (hb s)) = filter (\<lambda>e. snd e = t) (callbacks (hb s))"
    using assms(3) by (intro filter_cong) (auto simp: entries_of_def)
  with Unsub show ?thesis by (simp add: entries_of_def unsubscribe_def assoc_del_def conj_commute)
next
  case (Sub u)
  with assms have "lastCallbackID (hb s) + 1 \<notin> fst ` set (callbacks (hb s))" by (force simp: hb_inv_def)
  with Sub assms(2) show ?thesis by (simp add: entries_of_def Subscribe_def Let_def assoc_put_new)
qed (cases "hb_at s"; auto simp: entries_of_def BroadcastNewLongestChain_def hb_parts
    split: option.splits prod.splits list.splits)+

lemma entries_Unsub: "entries_of t (hb_step ord (Unsub i) s) = filter (\<lambda>e. fst e \<noteq> i) (entries_of t s)"
  by (simp add: entries_of_def unsubscribe_def assoc_del_def conj_commute)

text \<open>While nobody subscribes or removes the callback, it is called once per entry for every head run.\<close>

lemma calls_run:
  assumes "iteration_order ord"
  shows "hb_inv s \<Longrightarrow> Sub t \<notin> set xs \<Longrightarrow> \<forall>e\<in>set (entries_of t s). Unsub (fst e) \<notin> set xs
     \<Longrightarrow> entries_of t (hb_run ord xs s) = entries_of t s
       \<and> calls_of t (hb_run ord xs s) @ in_flight t (hb_run ord xs s) = calls_of t s @ in_flight t s
           @ concat (map (replicate (length (entries_of t s))) (drop (length (heads_run s)) (heads_run (hb_run ord xs s))))
       \<and> (\<exists>hs. heads_run (hb_run ord xs s) = heads_run s @ hs)"
proof (induction xs arbitrary: s)
  case (Cons x xs)
  have e: "entries_of t (hb_step ord x s) = entries_of t s"
    using Cons.prems by (intro entries_step) auto
  obtain hs where hs: "heads_run (hb_step ord x s) = heads_run s @ hs"
      "calls_of t (hb_step ord x s) @ in_flight t (hb_step ord x s)
        = calls_of t s @ in_flight t s @ concat (map (replicate (length (entries_of t s))) hs)"
    using calls_step [OF assms, of t x s] by auto
  have "Sub t \<notin> set xs" "\<forall>e\<in>set (entries_of t (hb_step ord x s)). Unsub (fst e) \<notin> set xs"
    using Cons.prems(2,3) e by auto
  note IH = Cons.IH [OF hb_inv_step [OF Cons.prems(1)] this, unfolded e hs append_assoc [symmetric]]
  then obtain hs' where "heads_run (hb_run ord xs (hb_step ord x s)) = (heads_run s @ hs) @ hs'" by auto
  with IH hs(2) show ?case by simp
qed simp

lemma flight_step:
  assumes "iteration_order ord"
  shows "length (in_flight t (hb_step ord x s)) \<le> max (length (in_flight t s)) (length (entries_of t s))"
proof (cases x)
  case (CallBack k)
  show ?thesis
  proof (cases "hb_at s")
    case (Calling head cs)
    show ?thesis
      using count_without [of k cs "\<lambda>c. c = t"] Calling CallBack by (simp add: run_call_def in_flight_def le_max_iff_disj)
  qed (use CallBack in \<open>simp_all add: run_call_def in_flight_def\<close>)
qed (cases "hb_at s"; use callback_values_count [OF assms, of t "callbacks (hb s)"] in
    \<open>auto simp: in_flight_def entries_of_def hb_parts le_max_iff_disj split: option.splits prod.splits list.splits\<close>)+

lemma flight_run:
  assumes "iteration_order ord"
  shows "hb_inv s \<Longrightarrow> Sub t \<notin> set xs \<Longrightarrow> \<forall>e\<in>set (entries_of t s). Unsub (fst e) \<notin> set xs
     \<Longrightarrow> length (in_flight t (hb_run ord xs s)) \<le> max (length (in_flight t s)) (length (entries_of t s))"
proof (induction xs arbitrary: s)
  case (Cons x xs)
  have e: "entries_of t (hb_step ord x s) = entries_of t s"
    using Cons.prems by (intro entries_step) auto
  have "length (in_flight t (hb_run ord xs (hb_step ord x s)))
      \<le> max (length (in_flight t (hb_step ord x s))) (length (entries_of t (hb_step ord x s)))"
    using Cons.prems(2,3) e by (intro Cons.IH hb_inv_step [OF Cons.prems(1)]) auto
  then show ?case using flight_step [OF assms, of t x s] e by simp
qed simp

text \<open>C27: of the heads that callbacks are run for, a subscriber misses none and is given none twice. \<open>Subscribe\<close> returns the last head that callbacks were
  run for before. From then until its removal the calls that have been made, in order, together with at most one
  that is still to be made in the turn of the loop in progress, are exactly the heads for which the loop has copied
  the callbacks since. After its removal no later head reaches it; only the call of a copy made before, if there is
  one, may still come.\<close>

theorem subscriber_sees_every_head:
  assumes "iteration_order ord" "Sub t \<notin> set xs" "Sub t \<notin> set ys" "Sub t \<notin> set zs"
    and "Subscribe t (hb (hb_run ord xs hb_init)) = ((current, i), b)" "Unsub i \<notin> set ys"
  shows "let s = hb_run ord xs hb_init; s1 = hb_run ord ys (s\<lparr>hb := b\<rparr>); s2 = hb_run ord zs (hb_step ord (Unsub i) s1)
     in current = (if heads_run s = [] then None else Some (last (heads_run s)))
      \<and> calls_of t s1 @ in_flight t s1 = drop (length (heads_run s)) (heads_run s1) \<and> length (in_flight t s1) \<le> 1
      \<and> calls_of t s2 @ in_flight t s2 = drop (length (heads_run s)) (heads_run s1) \<and> length (in_flight t s2) \<le> 1"
proof -
  let ?s = "hb_run ord xs hb_init"
  let ?subbed = "?s\<lparr>hb := b\<rparr>" and ?s1 = "hb_run ord ys (?s\<lparr>hb := b\<rparr>)"
  let ?u = "hb_step ord (Unsub i) ?s1"
  have inv: "hb_inv ?s" by (rule hb_inv_run) simp
  from calls_run [OF assms(1) hb_inv_init assms(2)]
  have before: "entries_of t ?s = []" "calls_of t ?s = []" "in_flight t ?s = []" by (simp_all add: concat_map_replicate_none)
  have i: "i = lastCallbackID (hb ?s) + 1" and cur: "current = hb_latest (hb ?s)"
      and b: "?subbed = hb_step ord (Sub t) ?s"
    using assms(5) by (auto simp: Subscribe_def Let_def)
  then have "i \<notin> fst ` set (callbacks (hb ?s))" using inv by (force simp: hb_inv_def)
  then have e1: "entries_of t ?subbed = [(i, t)]"
    using before(1) assms(5) by (auto simp: entries_of_def Subscribe_def Let_def assoc_put_new)
  have inv0: "hb_inv ?subbed" using b hb_inv_step [OF inv, of ord "Sub t"] by (simp del: hb_step.simps)
  have r0: "heads_run ?subbed = heads_run ?s" "calls_of t ?subbed = []" "in_flight t ?subbed = []"
    using before(2,3) by (simp_all add: calls_of_def in_flight_def)
  note R = calls_run [OF assms(1) inv0 assms(3)]
  have R1: "entries_of t ?s1 = [(i, t)]" "calls_of t ?s1 @ in_flight t ?s1 = drop (length (heads_run ?s)) (heads_run ?s1)"
    using R e1 r0 assms(6) by (simp_all add: concat_map_replicate_one)
  have F1: "length (in_flight t ?s1) \<le> 1"
    using flight_run [OF assms(1) inv0 assms(3)] e1 r0(3) assms(6) by simp
  have inv1: "hb_inv ?u" by (rule hb_inv_step [OF hb_inv_run [OF inv0]])
  have u: "entries_of t ?u = []" "calls_of t ?u = calls_of t ?s1" "in_flight t ?u = in_flight t ?s1"
    using R1(1) unfolding entries_Unsub by (simp_all add: calls_of_def in_flight_def)
  from calls_run [OF assms(1) inv1 assms(4)] u
  have "calls_of t (hb_run ord zs ?u) @ in_flight t (hb_run ord zs ?u) = calls_of t ?s1 @ in_flight t ?s1"
    by (simp del: hb_step.simps)
  moreover have "length (in_flight t (hb_run ord zs ?u)) \<le> 1"
    using flight_run [OF assms(1) inv1 assms(4)] u F1 by (simp del: hb_step.simps)
  moreover have "current = (if heads_run ?s = [] then None else Some (last (heads_run ?s)))"
    using cur inv by (simp add: hb_inv_def)
  ultimately show ?thesis using R1(2) F1 by (simp add: Let_def del: hb_step.simps)
qed

definition example_turn :: "nat list \<Rightarrow> ('t, 'h) hb_op list" where
  "example_turn ks = [Wake, Fetch, CopyCallbacks] @ map CallBack ks @ [Join]"

lemmas hb_eval = example_turn_def Subscribe_def hb_parts hb_init_def NewHeadBroadcaster_def
  NewMailbox_def BroadcastNewLongestChain_def Deliver_def Retrieve_def receive_notify_def callback_values_def

theorem subscriber_sees_every_head_witness:
  "let s = hb_run rev ([Announce (5 :: nat)] @ example_turn []) hb_init;
       s1 = hb_run rev ([Announce 2] @ example_turn [0] @ [Sub ''b'', Announce 3, Announce 4, Wake, Fetch, CopyCallbacks, CallBack 0])
              (s\<lparr>hb := snd (Subscribe ''a'' (hb s))\<rparr>)
   in calls_of ''a'' s1 @ in_flight ''a'' s1 = [2, 4] \<and> calls_of ''a'' s1 = [2]"
proof -
  let ?xs = "[Announce 5] @ example_turn [] :: (string, nat) hb_op list"
    and ?ys = "[Announce 2] @ example_turn [0] @ [Sub ''b'', Announce 3, Announce 4, Wake, Fetch, CopyCallbacks, CallBack 0]
      :: (string, nat) hb_op list"
  let ?s = "hb_run rev ?xs hb_init"
  let ?s1 = "hb_run rev ?ys (?s\<lparr>hb := snd (Subscribe ''a'' (hb ?s))\<rparr>)"
  obtain b where b: "Subscribe ''a'' (hb ?s) = ((Some 5, 1), b)" by (simp add: hb_eval)
  from subscriber_sees_every_head [OF iteration_order_rev _ _ _ b, of ?ys "[]"]
  have "calls_of ''a'' (hb_run rev ?ys (?s\<lparr>hb := b\<rparr>)) @ in_flight ''a'' (hb_run rev ?ys (?s\<lparr>hb := b\<rparr>))
      = drop (length (heads_run ?s)) (heads_run (hb_run rev ?ys (?s\<lparr>hb := b\<rparr>)))"
    by (simp add: Let_def example_turn_def del: hb_run.simps hb_step.simps)
  moreover have "b = snd (Subscribe ''a'' (hb ?s))" using b by simp
  moreover have "drop (length (heads_run ?s)) (heads_run ?s1) = [2, 4]" "calls_of ''a'' ?s1 = [2]"
    by (simp_all add: hb_eval calls_of_def)
  ultimately show ?thesis by (simp add: Let_def del: hb_run.simps hb_step.simps)
qed

text \<open>No announcement is lost for want of a notification: whatever has happened, once the loop has
  finished what it is doing and taken one more turn, the head run last is the one announced last.\<close>

theorem newest_head_is_run:
  "\<exists>n. hb_latest (hb (hb_run ord (xs @ turn n @ [Wake, Fetch, CopyCallbacks]) hb_init))
     = (if announced xs = [] then None else Some (last (announced xs)))"
proof -
  let ?s = "hb_run ord xs hb_init"
  obtain n where n: "hb_at (hb_run ord (turn n) ?s) = AtSelect" using finish_turn by blast
  have inv: "hb_inv (hb_run ord (turn n) ?s)" by (intro hb_inv_run) simp
  have "newest (hb_run ord (turn n) ?s) = newest ?s"
    by (simp only: newest_run [OF hb_inv_run [OF hb_inv_init]] announced_turn if_True simp_thms)
  then show ?thesis
    using turn_from_select [OF inv n] newest_run [OF hb_inv_init, of ord xs]
    by (intro exI [of _ n]) (simp only: hb_run_append newest_init)
qed

subsection \<open>What a subscriber sees of the announcements\<close>

text \<open>The heads run, the one in hand, and then those waiting, are some of the announcements in their order.\<close>

lemma subseq_tl: "subseq (xs @ tl ys) (xs @ ys)"
proof -
  have "subseq (tl ys) ys" by (rule suffix_imp_subseq) (rule suffix_tl)
  then show ?thesis by (simp add: subseq_append')
qed

definition in_order :: "('t, 'h) hb_sys \<Rightarrow> 'h list" where
  "in_order s = heads_run s @ in_hand s @ waiting (mailbox (hb s))"

lemma runs_are_announced_step:
  "subseq (in_order s) as \<Longrightarrow> subseq (in_order (hb_step ord x s)) (as @ announced [x])"
proof (cases x)
  case (Announce h)
  assume "subseq (in_order s) as"
  then have sub: "subseq ((heads_run s @ in_hand s) @ waiting (mailbox (hb s)) @ [h]) (as @ [h])"
    using list_emb_append_mono [of "(=)" "in_order s" as "[h]" "[h]"] by (simp add: in_order_def)
  let ?w = "waiting (snd (Deliver (mailbox (hb s)) h))"
  have "?w = waiting (mailbox (hb s)) @ [h] \<or> ?w = tl (waiting (mailbox (hb s)) @ [h])"
    by (simp add: mb.deliver_items)
  then have "subseq ((heads_run s @ in_hand s) @ ?w) (as @ [h])"
    using sub subseq_order.order_trans [OF subseq_tl sub] by metis
  then show ?thesis using Announce by (simp add: BroadcastNewLongestChain_def in_order_def in_hand_def)
next
  case Wake
  assume "subseq (in_order s) as"
  with Wake show ?thesis by (auto simp: run_wake_def receive_notify_def waiting_def in_order_def in_hand_def split: option.splits)
next
  case Fetch
  assume "subseq (in_order s) as"
  moreover have "in_order (hb_step ord Fetch s) = in_order s"
    using mb.retrieve_item [of "mailbox (hb s)"] mb.retrieve_items [of "mailbox (hb s)"]
    by (cases "waiting (mailbox (hb s))"; cases "hb_at s")
      (auto simp: run_fetch_def retrieve_head_def in_order_def in_hand_def split: option.splits prod.splits)
  ultimately show ?thesis using Fetch by simp
qed (cases "hb_at s"; auto simp: in_order_def in_hand_def hb_parts Subscribe_def unsubscribe_def Let_def split: list.splits)+

lemma announced_append [simp]: "announced (xs @ ys) = announced xs @ announced ys"
  by (induction xs rule: announced.induct) simp_all

lemma runs_are_announced:
  "subseq (in_order s) as \<Longrightarrow> subseq (in_order (hb_run ord xs s)) (as @ announced xs)"
proof (induction xs arbitrary: s as)
  case (Cons x xs)
  from Cons.IH [OF runs_are_announced_step [OF Cons.prems]] show ?case
    using announced_append [of "[x]" xs] by (simp del: announced_append)
qed simp

text \<open>A callback subscribed once at most has one entry at most.\<close>

lemma calls_in_runs_step:
  assumes "iteration_order ord" "hb_inv s" "subseq (calls_of t s @ in_flight t s) (heads_run s)"
    and "length (entries_of t s) + (if x = Sub t then 1 else 0) \<le> 1"
  shows "subseq (calls_of t (hb_step ord x s) @ in_flight t (hb_step ord x s)) (heads_run (hb_step ord x s))
     \<and> length (entries_of t (hb_step ord x s)) \<le> length (entries_of t s) + (if x = Sub t then 1 else 0)"
proof -
  obtain hs where hs: "heads_run (hb_step ord x s) = heads_run s @ hs"
      "calls_of t (hb_step ord x s) @ in_flight t (hb_step ord x s)
        = (calls_of t s @ in_flight t s) @ concat (map (replicate (length (entries_of t s))) hs)"
    using calls_step [OF assms(1), of t x s] by auto
  have "subseq (concat (map (replicate (length (entries_of t s))) hs)) hs"
  proof (cases "length (entries_of t s) = 0")
    case False
    with assms(4) have "length (entries_of t s) = Suc 0" by (auto simp: le_Suc_eq split: if_splits)
    then show ?thesis by (simp add: concat_map_replicate_one)
  next
    case True
    then have "concat (map (replicate (length (entries_of t s))) hs) = []" by simp
    then show ?thesis by (simp only: list_emb_Nil)
  qed
  then have "subseq (calls_of t (hb_step ord x s) @ in_flight t (hb_step ord x s)) (heads_run (hb_step ord x s))"
    unfolding hs using assms(3) by (intro list_emb_append_mono)
  moreover have "length (entries_of t (hb_step ord x s)) \<le> length (entries_of t s) + (if x = Sub t then 1 else 0)"
  proof (cases "x = Sub t")
    case True
    have "lastCallbackID (hb s) + 1 \<notin> fst ` set (callbacks (hb s))" using assms(2) by (force simp: hb_inv_def)
    with True show ?thesis by (simp add: entries_of_def Subscribe_def Let_def assoc_put_new)
  next
    case no: False
    show ?thesis
    proof (cases "\<exists>i. x = Unsub i")
      case True
      then show ?thesis by (auto simp: entries_Unsub simp del: hb_step.simps)
    next
      case False
      with entries_step [OF assms(2) no] show ?thesis by auto
    qed
  qed
  ultimately show ?thesis by blast
qed

lemma calls_in_runs:
  assumes "iteration_order ord"
  shows "hb_inv s \<Longrightarrow> subseq (calls_of t s @ in_flight t s) (heads_run s)
     \<Longrightarrow> length (entries_of t s) + length (filter (\<lambda>x. x = Sub t) xs) \<le> 1
     \<Longrightarrow> subseq (calls_of t (hb_run ord xs s) @ in_flight t (hb_run ord xs s)) (heads_run (hb_run ord xs s))"
proof (induction xs arbitrary: s)
  case (Cons x xs)
  have "length (entries_of t s) + (if x = Sub t then 1 else 0) \<le> 1"
    using Cons.prems(3) by (auto split: if_splits)
  note S = calls_in_runs_step [OF assms Cons.prems(1,2) this]
  with Cons.prems(3) have "length (entries_of t (hb_step ord x s)) + length (filter (\<lambda>x. x = Sub t) xs) \<le> 1"
    by (auto split: if_splits)
  with Cons.IH [OF hb_inv_step [OF Cons.prems(1)]] S show ?case by simp
qed simp

lemma init_lists [simp]:
  "heads_run hb_init = []" "in_order hb_init = []" "calls hb_init = []"
  by (simp_all add: hb_init_def NewHeadBroadcaster_def NewMailbox_def waiting_def in_order_def in_hand_def)

text \<open>A callback is called with some of the announced heads, in the order of the announcements.\<close>

lemma calls_are_announced:
  assumes "iteration_order ord" "length (filter (\<lambda>x. x = Sub t) xs) \<le> 1"
  shows "subseq (map snd (filter (\<lambda>c. fst c = t) (calls (hb_run ord xs hb_init)))) (announced xs)"
proof -
  let ?s = "hb_run ord xs hb_init"
  have "subseq (calls_of t ?s) (calls_of t ?s @ in_flight t ?s)" by (rule prefix_imp_subseq) simp
  also have "subseq (calls_of t ?s @ in_flight t ?s) (heads_run ?s)"
    using assms(2) by (intro calls_in_runs [OF assms(1)]) simp_all
  also have "subseq (heads_run ?s) (in_order ?s)"
    unfolding in_order_def by (rule prefix_imp_subseq) simp
  also have "subseq (in_order ?s) (announced xs)" using runs_are_announced [of hb_init "[]" ord xs] by simp
  finally show ?thesis by (simp add: calls_of_def)
qed

section \<open>The listener\<close>

text \<open>
  The listener is subscribing (waiting for the back-off timer), receiving, or done. The events are the
  cases of its \<open>select\<close> statements; \<open>Header\<close> also says whether the context is done after the handler
  has run, \<open>Subscribed\<close> whether the call succeeded. \<open>NoHeadsAlarm\<close> comes only if the threshold is
  positive. An event whose case is not waited for leaves the state as it is.
\<close>

record headListener =
  headSubscription :: bool
  connected :: bool
  receivingHeads :: bool

datatype listen_pc = Subscribing | Receiving | ListenerDone | ListenerPanicked

datatype listener_event =
    ChStop
  | Subscribed bool
  | Header "Head option" bool
  | HeadersClosed
  | SubscriptionErr bool
  | NoHeadsAlarm

definition NewHeadListener :: headListener where
  "NewHeadListener = \<lparr>headSubscription = False, connected = False, receivingHeads = False\<rparr>"

definition subscribeToHead :: "bool \<Rightarrow> headListener \<Rightarrow> bool \<times> headListener" where
  "subscribeToHead ok hl =
     (if \<not> ok then (False, hl\<lparr>headSubscription := False\<rparr>)
      else (True, hl\<lparr>headSubscription := True, connected := True\<rparr>))"

definition listener_unsubscribe :: "headListener \<Rightarrow> headListener" where
  "listener_unsubscribe hl =
     (if headSubscription hl then hl\<lparr>connected := False, headSubscription := False\<rparr> else hl)"

text \<open>How one case of the loop in \<open>receiveHeaders\<close> leaves it: not, with nil, with an error, or in a panic.\<close>

datatype receive_outcome = GoOn | ReturnNil | ReturnErr | ReceivePanics

definition receive_case :: "int \<Rightarrow> (Head \<Rightarrow> 's \<Rightarrow> bool \<times> 's) \<Rightarrow> listener_event \<Rightarrow> headListener \<times> 's
    \<Rightarrow> receive_outcome \<times> headListener \<times> 's" where
  "receive_case chainID handle ev st =
     (let (hl, s) = st; received = hl\<lparr>receivingHeads := True\<rparr>
      in case ev of
           ChStop \<Rightarrow> (ReturnNil, hl, s)
         | HeadersClosed \<Rightarrow> (ReturnErr, received, s)
         | Header None _ \<Rightarrow> (GoOn, received, s)
         | Header (Some head) ctx_done \<Rightarrow>
             if EVMChainID head \<noteq> Some chainID then (ReceivePanics, received, s)
             else
               (let (failed, s1) = handle head s
                in if ctx_done then (ReturnNil, received, s1)
                   else if failed then (ReturnErr, received, s1) else (GoOn, received, s1))
         | SubscriptionErr _ \<Rightarrow> (ReturnErr, hl, s)
         | NoHeadsAlarm \<Rightarrow> (GoOn, hl\<lparr>receivingHeads := False\<rparr>, s)
         | Subscribed _ \<Rightarrow> (GoOn, hl, s))"

text \<open>One case of the loop in \<open>subscribe\<close>, which unsubscribes at its head: stopped, or one attempt.\<close>

definition subscribe_case :: "listener_event \<Rightarrow> headListener \<Rightarrow> listen_pc \<times> headListener" where
  "subscribe_case ev hl =
     (case ev of
        ChStop \<Rightarrow> (ListenerDone, listener_unsubscribe hl)
      | Subscribed ok \<Rightarrow>
          (case subscribeToHead ok (listener_unsubscribe hl) of
             (True, hl1) \<Rightarrow> (Receiving, hl1)
           | (False, hl1) \<Rightarrow> (Subscribing, hl1))
      | _ \<Rightarrow> (Subscribing, hl))"

text \<open>
  \<open>ListenForNewHeads\<close> around both: an error leads to \<open>subscribe\<close>, which unsubscribes first; every way
  out of the function runs the deferred \<open>unsubscribe\<close>, a panic too.
\<close>

fun listener_step :: "int \<Rightarrow> (Head \<Rightarrow> 's \<Rightarrow> bool \<times> 's) \<Rightarrow> listener_event \<Rightarrow> listen_pc \<times> headListener \<times> 's
    \<Rightarrow> listen_pc \<times> headListener \<times> 's" where
  "listener_step chainID handle ev (Subscribing, hl, s) =
     (let (pc, hl1) = subscribe_case ev hl in (pc, hl1, s))"
| "listener_step chainID handle ev (Receiving, hl, s) =
     (case receive_case chainID handle ev (hl, s) of
        (GoOn, hl1, s1) \<Rightarrow> (Receiving, hl1, s1)
      | (ReturnNil, hl1, s1) \<Rightarrow> (ListenerDone, listener_unsubscribe hl1, s1)
      | (ReturnErr, hl1, s1) \<Rightarrow> (Subscribing, listener_unsubscribe hl1, s1)
      | (ReceivePanics, hl1, s1) \<Rightarrow> (ListenerPanicked, listener_unsubscribe hl1, s1))"
| "listener_step chainID handle ev (pc, hl, s) = (pc, hl, s)"

fun listen :: "int \<Rightarrow> (Head \<Rightarrow> 's \<Rightarrow> bool \<times> 's) \<Rightarrow> listener_event list \<Rightarrow> listen_pc \<times> headListener \<times> 's
    \<Rightarrow> listen_pc \<times> headListener \<times> 's" where
  "listen chainID handle [] st = st"
| "listen chainID handle (ev # evs) st = listen chainID handle evs (listener_step chainID handle ev st)"

text \<open>\<open>Healthy\<close> of the tracker asks the listener.\<close>

definition tracker_Healthy :: "headListener \<Rightarrow> bool" where
  "tracker_Healthy hl = (receivingHeads hl \<and> connected hl)"

definition listener_inv :: "listen_pc \<times> headListener \<times> 's \<Rightarrow> bool" where
  "listener_inv st = (case st of (pc, hl, s) \<Rightarrow> connected hl = headSubscription hl \<and> headSubscription hl = (pc = Receiving))"

lemma listener_inv_step: "listener_inv st \<Longrightarrow> listener_inv (listener_step chainID handle ev st)"
  by (cases "(chainID, handle, ev, st)" rule: listener_step.cases)
    (auto simp: listener_inv_def listener_unsubscribe_def subscribeToHead_def subscribe_case_def receive_case_def Let_def
      split: listener_event.splits option.splits prod.splits receive_outcome.splits if_splits)

lemma listener_inv_listen: "listener_inv st \<Longrightarrow> listener_inv (listen chainID handle evs st)"
  by (induction evs arbitrary: st) (simp_all add: listener_inv_step)

text \<open>Whatever the subscription and the handler do, the listener reports a connection exactly while it
  holds a subscription and waits for heads; a stop ends it in every state, without a connection.\<close>

theorem listener_connected:
  "case listen chainID handle evs (Subscribing, NewHeadListener, s) of (pc, hl, s') \<Rightarrow>
     (connected hl \<longleftrightarrow> pc = Receiving) \<and> (headSubscription hl \<longleftrightarrow> pc = Receiving)
     \<and> (case listener_step chainID handle ChStop (pc, hl, s') of (pc', hl', s'') \<Rightarrow>
          pc' \<in> {ListenerDone, ListenerPanicked} \<and> \<not> connected hl' \<and> s'' = s')"
proof -
  have "listener_inv (Subscribing, NewHeadListener, s)" by (simp add: listener_inv_def NewHeadListener_def)
  then have "listener_inv (listen chainID handle evs (Subscribing, NewHeadListener, s))"
    by (rule listener_inv_listen)
  moreover obtain pc hl s' where l: "listen chainID handle evs (Subscribing, NewHeadListener, s) = (pc, hl, s')"
    by (rule prod_cases3)
  ultimately show ?thesis
    by (cases pc) (auto simp: listener_inv_def listener_unsubscribe_def subscribe_case_def receive_case_def)
qed

text \<open>The flag \<open>receivingHeads\<close> is set before the listener looks at whether the channel is open: a
  subscription that closes its channel at once, followed by another that never sends anything, makes
  the tracker healthy although no head has ever arrived.\<close>

theorem healthy_without_heads:
  "case listen chainID handle [Subscribed True, HeadersClosed, Subscribed True] (Subscribing, NewHeadListener, s) of
     (pc, hl, s') \<Rightarrow> pc = Receiving \<and> tracker_Healthy hl \<and> s' = s"
  by (simp add: NewHeadListener_def subscribeToHead_def listener_unsubscribe_def subscribe_case_def receive_case_def tracker_Healthy_def)

end
