(* ===== verification/LogPool.thy ===== *)
theory LogPool
  imports Prelude
begin

text \<open>
  The log pool of \<open>core/chains/evm/log/pool.go\<close>: the logs received and not yet old enough to be
  dropped, by block hash, transaction index and log index, with the hashes known for each block
  number and a min-heap of block numbers. The pairing heap is a package of its own: the operations
  take it as an argument, and the locale \<open>min_heap\<close> states what its documentation promises. The
  outer maps are never ranged over and are maps; the inner ones are association lists met in an
  order that \<open>pool_orders\<close> leaves open. Block numbers are \<open>uint64\<close> words; \<open>int64\<close> of a word is
  \<open>sint\<close>. Loops are \<open>None\<close> when they never end, as \<open>send_loop\<close> does up to the largest \<open>int64\<close>.
\<close>

section \<open>Data\<close>

record Log =
  LogAddress :: nat
  LogTopics :: "nat list"
  LogData :: nat
  LogBlockNumber :: "64 word"
  LogTxIndex :: nat
  LogBlockHash :: nat
  LogIndex :: nat
  LogRemoved :: bool

definition log_key :: "Log \<Rightarrow> nat \<times> nat \<times> nat" where
  "log_key l = (LogBlockHash l, LogTxIndex l, LogIndex l)"

text \<open>\<open>Uint64\<close> as an item of the heap.\<close>

definition Uint64_Compare :: "64 word \<Rightarrow> 64 word \<Rightarrow> int" where
  "Uint64_Compare a1 a2 = (if a1 > a2 then 1 else if a1 < a2 then -1 else 0)"

record 'h heap_ops =
  heap_New :: 'h
  heap_FindMin :: "'h \<Rightarrow> 64 word option"
  heap_Insert :: "64 word \<Rightarrow> 'h \<Rightarrow> 'h"
  heap_DeleteMin :: "'h \<Rightarrow> 64 word option \<times> 'h"

type_synonym tx_logs = "(nat \<times> (nat \<times> Log) list) list"

record 'h logPool =
  hashesByBlockNumbers :: "64 word \<Rightarrow> nat list option"
  logsByBlockHash :: "nat \<Rightarrow> tx_logs option"
  pool_heap :: 'h

record logsOnBlock =
  BlockNumber :: "64 word"
  Logs :: "Log list"

record pool_orders =
  hash_order :: "nat list \<Rightarrow> nat list"
  tx_order :: "tx_logs \<Rightarrow> tx_logs"
  log_order :: "(nat \<times> Log) list \<Rightarrow> (nat \<times> Log) list"

definition pool_orders_ok :: "pool_orders \<Rightarrow> bool" where
  "pool_orders_ok ords \<longleftrightarrow>
     iteration_order (hash_order ords) \<and> iteration_order (tx_order ords) \<and> iteration_order (log_order ords)"

definition newLogPool :: "'h heap_ops \<Rightarrow> 'h logPool" where
  "newLogPool H = \<lparr>hashesByBlockNumbers = Map.empty, logsByBlockHash = Map.empty, pool_heap = heap_New H\<rparr>"

section \<open>Operations\<close>

definition map_get :: "'v \<Rightarrow> ('k \<Rightarrow> 'v option) \<Rightarrow> 'k \<Rightarrow> 'v" where
  "map_get zero m k = (case m k of None \<Rightarrow> zero | Some v \<Rightarrow> v)"

definition addLog :: "'h heap_ops \<Rightarrow> Log \<Rightarrow> 'h logPool \<Rightarrow> bool \<times> 'h logPool" where
  "addLog H l p =
     (let hashes = map_get [] (hashesByBlockNumbers p) (LogBlockNumber l);
          txs = map_get [] (logsByBlockHash p) (LogBlockHash l);
          ls = map_get [] (map_of txs) (LogTxIndex l);
          mn = heap_FindMin H (pool_heap p)
      in (case mn of None \<Rightarrow> True | Some m \<Rightarrow> LogBlockNumber l < m,
          p\<lparr>hashesByBlockNumbers :=
               (hashesByBlockNumbers p)(LogBlockNumber l \<mapsto> List.insert (LogBlockHash l) hashes),
            logsByBlockHash :=
               (logsByBlockHash p)
                 (LogBlockHash l \<mapsto> assoc_put (LogTxIndex l) (assoc_put (LogIndex l) l ls) txs),
            pool_heap := heap_Insert H (LogBlockNumber l) (pool_heap p)\<rparr>))"

definition flatten_logs :: "pool_orders \<Rightarrow> tx_logs \<Rightarrow> Log list" where
  "flatten_logs ords txs = concat (map (\<lambda>(t, ls). map snd (log_order ords ls)) (tx_order ords txs))"

definition newLogsOnBlock :: "pool_orders \<Rightarrow> 64 word \<Rightarrow> tx_logs \<Rightarrow> logsOnBlock" where
  "newLogsOnBlock ords num logsMap = \<lparr>BlockNumber = num, Logs = flatten_logs ords logsMap\<rparr>"

fun collect_hashes ::
    "pool_orders \<Rightarrow> 64 word \<Rightarrow> nat list \<Rightarrow> 'h logPool \<Rightarrow> logsOnBlock list \<Rightarrow> 'h logPool \<times> logsOnBlock list" where
  "collect_hashes ords blockNum [] p logs = (p, logs)"
| "collect_hashes ords blockNum (hash # hs) p logs =
     collect_hashes ords blockNum hs
       (p\<lparr>hashesByBlockNumbers := (hashesByBlockNumbers p)
            (blockNum := map_option (removeAll hash) (hashesByBlockNumbers p blockNum)),
          logsByBlockHash := (logsByBlockHash p)(hash := None)\<rparr>)
       (logs @ [newLogsOnBlock ords blockNum (map_get [] (logsByBlockHash p) hash)])"

partial_function (option) delete_all_loop ::
    "'h heap_ops \<Rightarrow> pool_orders \<Rightarrow> 'h logPool \<Rightarrow> logsOnBlock list \<Rightarrow> int \<Rightarrow> int
      \<Rightarrow> (logsOnBlock list \<times> int \<times> int \<times> 'h logPool) option" where
  "delete_all_loop H ords p logs lowest highest =
     (case heap_DeleteMin H (pool_heap p) of
        (None, h) \<Rightarrow> Some (logs, lowest, highest, p\<lparr>pool_heap := h\<rparr>)
      | (Some blockNum, h) \<Rightarrow>
          (case hashesByBlockNumbers p blockNum of
             None \<Rightarrow> delete_all_loop H ords (p\<lparr>pool_heap := h\<rparr>) logs lowest highest
           | Some hashes \<Rightarrow>
               (case collect_hashes ords blockNum (hash_order ords hashes) (p\<lparr>pool_heap := h\<rparr>) logs of
                  (q, logs1) \<Rightarrow>
                    delete_all_loop H ords
                      (q\<lparr>hashesByBlockNumbers := (hashesByBlockNumbers q)(blockNum := None)\<rparr>) logs1
                      (if sint blockNum < lowest then sint blockNum else lowest)
                      (if sint blockNum > highest then sint blockNum else highest))))"

definition getAndDeleteAll ::
    "'h heap_ops \<Rightarrow> pool_orders \<Rightarrow> 'h logPool \<Rightarrow> (logsOnBlock list \<times> int \<times> int \<times> 'h logPool) option" where
  "getAndDeleteAll H ords p = delete_all_loop H ords p [] MaxInt64 0"

definition logs_at_height :: "pool_orders \<Rightarrow> 'h logPool \<Rightarrow> int \<Rightarrow> logsOnBlock list" where
  "logs_at_height ords p num =
     map (\<lambda>hash. newLogsOnBlock ords (word_of_int num) (map_get [] (logsByBlockHash p) hash))
       (hash_order ords (map_get [] (hashesByBlockNumbers p) (word_of_int num)))"

text \<open>The loop over block numbers, with the \<open>int64\<close> counter as it wraps around.\<close>

partial_function (option) send_loop ::
    "pool_orders \<Rightarrow> 'h logPool \<Rightarrow> int \<Rightarrow> int \<Rightarrow> logsOnBlock list \<Rightarrow> logsOnBlock list option" where
  "send_loop ords p latestBlockNum num logsToReturn =
     (if num \<le> latestBlockNum
      then send_loop ords p latestBlockNum (wrap64 (num + 1)) (logsToReturn @ logs_at_height ords p num)
      else Some logsToReturn)"

definition getLogsToSend ::
    "'h heap_ops \<Rightarrow> pool_orders \<Rightarrow> int \<Rightarrow> 'h logPool \<Rightarrow> (logsOnBlock list \<times> int) option" where
  "getLogsToSend H ords latestBlockNum p =
     (case heap_FindMin H (pool_heap p) of
        None \<Rightarrow> Some ([], 0)
      | Some m \<Rightarrow> map_option (\<lambda>logs. (logs, sint m)) (send_loop ords p latestBlockNum (sint m) []))"

fun delete_hashes :: "nat list \<Rightarrow> 'h logPool \<Rightarrow> 'h logPool" where
  "delete_hashes [] p = p"
| "delete_hashes (hash # hs) p =
     delete_hashes hs (p\<lparr>logsByBlockHash := (logsByBlockHash p)(hash := None)\<rparr>)"

partial_function (option) deleteOlderLogs ::
    "'h heap_ops \<Rightarrow> pool_orders \<Rightarrow> int \<Rightarrow> 'h logPool \<Rightarrow> (int option \<times> 'h logPool) option" where
  "deleteOlderLogs H ords keptDepth p =
     (case heap_FindMin H (pool_heap p) of
        None \<Rightarrow> Some (None, p)
      | Some blockNum \<Rightarrow>
          if sint blockNum \<ge> keptDepth then Some (Some (sint blockNum), p)
          else (let q = delete_hashes (hash_order ords (map_get [] (hashesByBlockNumbers p) blockNum))
                          (p\<lparr>pool_heap := snd (heap_DeleteMin H (pool_heap p))\<rparr>)
                in deleteOlderLogs H ords keptDepth
                     (q\<lparr>hashesByBlockNumbers := (hashesByBlockNumbers q)(blockNum := None)\<rparr>)))"

definition removeBlock :: "nat \<Rightarrow> 64 word \<Rightarrow> 'h logPool \<Rightarrow> 'h logPool" where
  "removeBlock hash number p =
     (let hashes = map_option (removeAll hash) (hashesByBlockNumbers p number)
      in p\<lparr>logsByBlockHash := (logsByBlockHash p)(hash := None),
           hashesByBlockNumbers := (hashesByBlockNumbers p)
             (number := (if hashes = Some [] then None else hashes))\<rparr>)"

definition getNumLogsForBlock :: "nat \<Rightarrow> 'h logPool \<Rightarrow> nat" where
  "getNumLogsForBlock bh p =
     sum_list (map (\<lambda>(t, ls). length ls) (map_get [] (logsByBlockHash p) bh))"

section \<open>The send loop\<close>

lemma send_loop_interval:
  "latest < MaxInt64 \<Longrightarrow> MinInt64 \<le> num \<Longrightarrow>
   send_loop ords p latest num acc = Some (acc @ concat (map (logs_at_height ords p) [num..latest]))"
proof (induction "nat (latest + 1 - num)" arbitrary: num acc)
  case 0
  then show ?case by (subst send_loop.simps) simp
next
  case (Suc n)
  then have le: "num \<le> latest" and next_num: "wrap64 (num + 1) = num + 1" by (simp_all add: wrap64_id is_int64_def)
  have "send_loop ords p latest (num + 1) (acc @ logs_at_height ords p num)
      = Some ((acc @ logs_at_height ords p num) @ concat (map (logs_at_height ords p) [num + 1..latest]))"
    using Suc by (intro Suc.hyps(1)) auto
  then show ?case using le by (subst send_loop.simps) (simp add: next_num upto_rec1 [of num])
qed

text \<open>Up to the largest \<open>int64\<close> the loop never ends: every number is at most that.\<close>

lemma send_loop_forever:
  assumes "is_int64 num"
  shows "send_loop ords p MaxInt64 num acc = None"
proof -
  have "latest = MaxInt64 \<longrightarrow> \<not> is_int64 n" if "send_loop o' p' latest n a = Some x" for o' p' latest n a x
  proof (rule send_loop.raw_induct [where P = "\<lambda>o' p' latest n a x. latest = MaxInt64 \<longrightarrow> \<not> is_int64 n", OF _ that], goal_cases)
    case (1 send o' p' latest n a x)
    show "latest = MaxInt64 \<longrightarrow> \<not> is_int64 n"
    proof (intro impI notI)
      assume l: "latest = MaxInt64" and n: "is_int64 n"
      then have "send o' p' latest (wrap64 (n + 1)) (a @ logs_at_height o' p' n) = Some x"
        using 1(2) by (simp add: is_int64_def)
      from 1(1) [OF this] show False using l is_int64_wrap64 by simp
    qed
  qed
  then show ?thesis using assms by (cases "send_loop ords p MaxInt64 num acc") blast+
qed

lemma getLogsToSend_forever:
  "heap_FindMin H (pool_heap p) \<noteq> None \<Longrightarrow> getLogsToSend H ords MaxInt64 p = None"
proof -
  have "is_int64 (sint (m :: 64 word))" for m
    using sint_ge [of m] sint_lt [of m] by (simp add: is_int64_def MinInt64_def MaxInt64_def)
  then show "heap_FindMin H (pool_heap p) \<noteq> None \<Longrightarrow> getLogsToSend H ords MaxInt64 p = None"
    by (auto simp: getLogsToSend_def send_loop_forever)
qed

section \<open>What the heap promises\<close>

locale min_heap =
  fixes H :: "'h heap_ops" and elems :: "'h \<Rightarrow> 64 word multiset"
  assumes elems_New: "elems (heap_New H) = {#}"
    and FindMin_None: "heap_FindMin H h = None \<longleftrightarrow> elems h = {#}"
    and FindMin_in: "heap_FindMin H h = Some m \<Longrightarrow> m \<in># elems h"
    and FindMin_least: "heap_FindMin H h = Some m \<Longrightarrow> x \<in># elems h \<Longrightarrow> Uint64_Compare m x \<noteq> 1"
    and elems_Insert: "elems (heap_Insert H x h) = add_mset x (elems h)"
    and DeleteMin_fst: "fst (heap_DeleteMin H h) = heap_FindMin H h"
    and DeleteMin_None: "heap_FindMin H h = None \<Longrightarrow> elems (snd (heap_DeleteMin H h)) = {#}"
    and DeleteMin_Some: "heap_FindMin H h = Some m \<Longrightarrow> elems (snd (heap_DeleteMin H h)) = elems h - {#m#}"

section \<open>The pool as a map, and its invariant\<close>

text \<open>What the pool promises: a map from log keys to logs.\<close>

definition block_logs :: "tx_logs \<Rightarrow> nat \<Rightarrow> nat \<Rightarrow> Log option" where
  "block_logs txs t i = map_of (map_get [] (map_of txs) t) i"

definition block_txs :: "'h logPool \<Rightarrow> nat \<Rightarrow> tx_logs" where
  "block_txs p h = map_get [] (logsByBlockHash p) h"

definition pool_contents :: "'h logPool \<Rightarrow> nat \<times> nat \<times> nat \<Rightarrow> Log option" where
  "pool_contents p = (\<lambda>(h, t, i). block_logs (block_txs p h) t i)"

definition txs_ok :: "nat \<Rightarrow> 64 word \<Rightarrow> tx_logs \<Rightarrow> bool" where
  "txs_ok h n txs \<longleftrightarrow> distinct (map fst txs) \<and>
     (\<forall>(t, ls)\<in>set txs. distinct (map fst ls) \<and>
        (\<forall>(i, l)\<in>set ls. log_key l = (h, t, i) \<and> LogBlockNumber l = n))"

definition hashes_at :: "'h logPool \<Rightarrow> 64 word \<Rightarrow> nat list" where
  "hashes_at p n = map_get [] (hashesByBlockNumbers p) n"

definition pool_inv :: "('h \<Rightarrow> 64 word multiset) \<Rightarrow> (nat \<Rightarrow> 64 word) \<Rightarrow> 'h logPool \<Rightarrow> bool" where
  "pool_inv elems num_of p \<longleftrightarrow>
     (\<forall>n. hashesByBlockNumbers p n \<noteq> Some []) \<and> (\<forall>n. distinct (hashes_at p n)) \<and>
     (\<forall>n h. h \<in> set (hashes_at p n) \<longleftrightarrow> num_of h = n \<and> logsByBlockHash p h \<noteq> None) \<and>
     (\<forall>n. hashes_at p n \<noteq> [] \<longrightarrow> n \<in># elems (pool_heap p)) \<and>
     (\<forall>h. txs_ok h (num_of h) (block_txs p h)) \<and>
     (\<forall>n\<in>#elems (pool_heap p). 0 \<le> sint n)"

lemma map_get_simps [simp]:
  "m k = None \<Longrightarrow> map_get z m k = z" "m k = Some v \<Longrightarrow> map_get z m k = v"
  by (simp_all add: map_get_def)

lemma map_get_upd [simp]:
  "map_get z (m(k \<mapsto> v)) k' = (if k = k' then v else map_get z m k')"
  "map_get z (m(k := None)) k' = (if k = k' then z else map_get z m k')"
  by (simp_all add: map_get_def)

lemma map_get_empty [simp]: "map_get z Map.empty k = z"
  by (simp add: map_get_def)

lemma txs_ok_Nil [simp]: "txs_ok h n []"
  by (simp add: txs_ok_def)

lemma block_logs_Nil [simp]: "block_logs [] t i = None"
  by (simp add: block_logs_def)

lemma assoc_put_entry: "e \<in> set (assoc_put k v m) \<Longrightarrow> distinct (map fst m) \<Longrightarrow> e = (k, v) \<or> (fst e \<noteq> k \<and> e \<in> set m)"
proof (induction k v m rule: assoc_put.induct)
  case (2 k v k' v' m)
  then show ?case by (cases e) (auto split: if_splits simp: image_iff)
qed simp

lemma block_logs_Some:
  "block_logs txs t i = Some l \<longleftrightarrow> (\<exists>ls. map_of txs t = Some ls \<and> map_of ls i = Some l)"
  by (simp add: block_logs_def map_get_def split: option.splits)

lemma block_logs_put:
  "block_logs (assoc_put t (assoc_put i l (map_get [] (map_of txs) t)) txs) t' i' =
     (if (t', i') = (t, i) then Some l else block_logs txs t' i')"
  by (simp add: block_logs_def)

lemma txs_ok_put:
  assumes "txs_ok h n txs" and "log_key l = (h, t, i)" and "LogBlockNumber l = n"
  shows "txs_ok h n (assoc_put t (assoc_put i l (map_get [] (map_of txs) t)) txs)"
proof -
  let ?ls = "map_get [] (map_of txs) t"
  have ls: "distinct (map fst ?ls) \<and> (\<forall>(j, l)\<in>set ?ls. log_key l = (h, t, j) \<and> LogBlockNumber l = n)"
  proof (cases "map_of txs t")
    case (Some ls)
    then have "(t, ls) \<in> set txs" by (rule map_of_SomeD)
    with assms(1) Some show ?thesis by (auto simp: txs_ok_def)
  qed simp
  have put: "\<forall>(j, l)\<in>set (assoc_put i l ?ls). log_key l = (h, t, j) \<and> LogBlockNumber l = n"
    using ls assms(2,3) assoc_put_entry [of _ i l ?ls] by fastforce
  show ?thesis
    using assms(1) ls put assoc_put_entry [of _ t "assoc_put i l ?ls" txs]
    unfolding txs_ok_def by fastforce
qed

lemma flatten_logs_set:
  assumes "txs_ok h n txs" and "pool_orders_ok ords"
  shows "set (flatten_logs ords txs) = {l. \<exists>t i. block_logs txs t i = Some l}"
proof -
  have sets: "set (tx_order ords xs) = set xs" "set (log_order ords ys) = set ys" for xs ys
    using assms(2) by (simp_all add: pool_orders_ok_def iteration_order_set)
  have "set (flatten_logs ords txs) = {l. \<exists>t ls i. (t, ls) \<in> set txs \<and> (i, l) \<in> set ls}"
    by (force simp: flatten_logs_def sets)
  also have "\<dots> = {l. \<exists>t ls i. map_of txs t = Some ls \<and> map_of ls i = Some l}"
    using assms(1) unfolding txs_ok_def by (fastforce simp: map_of_eq_Some_iff)
  also have "\<dots> = {l. \<exists>t i. block_logs txs t i = Some l}"
    by (auto simp: block_logs_Some)
  finally show ?thesis .
qed

lemma flatten_logs_distinct:
  assumes ok: "txs_ok h n txs" and ords: "pool_orders_ok ords"
  shows "distinct (map log_key (flatten_logs ords txs))"
proof -
  have sets: "set (tx_order ords txs) = set txs" "distinct (map fst (tx_order ords txs))"
    "set (log_order ords ys) = set ys" "distinct (map fst ys) \<Longrightarrow> distinct (map fst (log_order ords ys))" for ys
    using ords ok iteration_order_distinct [of "tx_order ords"]
      unfolding pool_orders_ok_def txs_ok_def iteration_order_def
    by (metis mset_eq_setD mset_eq_imp_distinct_iff mset_map)+
  have "distinct (map log_key (concat (map (\<lambda>(t, ls). map snd (log_order ords ls)) xs)))"
    if "distinct (map fst xs)" and "set xs \<subseteq> set txs" for xs
    using that
  proof (induction xs)
    case (Cons x xs)
    obtain t ls where x: "x = (t, ls)" by fastforce
    have ls: "distinct (map fst ls)" "\<forall>(i, l)\<in>set ls. log_key l = (h, t, i)"
      using ok Cons.prems x by (auto simp: txs_ok_def)
    have keys: "map log_key (map snd (log_order ords ls)) = map (\<lambda>i. (h, t, i)) (map fst (log_order ords ls))"
      using ls(2) sets(3) by fastforce
    then have 1: "distinct (map log_key (map snd (log_order ords ls)))"
      using sets(4) [OF ls(1)] by (simp add: distinct_map inj_on_def)
    have notin: "(h, t, i) \<notin> log_key ` set (concat (map (\<lambda>(t, ls). map snd (log_order ords ls)) xs))" for i
    proof
      assume "(h, t, i) \<in> log_key ` set (concat (map (\<lambda>(t, ls). map snd (log_order ords ls)) xs))"
      then obtain t' ls' j l where e: "(t', ls') \<in> set xs" "(j, l) \<in> set ls'" "(h, t, i) = log_key l"
        using sets(3) by fastforce
      then have "log_key l = (h, t', j)" using ok Cons.prems unfolding txs_ok_def by fastforce
      moreover have "t' \<noteq> t" using e(1) Cons.prems x by force
      ultimately show False using e(3) by simp
    qed
    have img: "log_key ` set (map snd (log_order ords ls)) = (\<lambda>i. (h, t, i)) ` fst ` set (log_order ords ls)"
      using arg_cong [OF keys, of set] unfolding set_map .
    have "log_key ` set (map snd (log_order ords ls))
        \<inter> log_key ` set (concat (map (\<lambda>(t, ls). map snd (log_order ords ls)) xs)) = {}"
      unfolding img using notin by (metis (no_types, lifting) disjoint_iff imageE)
    with 1 show ?case using Cons by (simp add: x del: set_concat map_map)
  qed simp
  then show ?thesis using sets by (simp add: flatten_logs_def)
qed

subsection \<open>Consequences of the invariant\<close>

lemma sint_nonneg:
  fixes x :: "'a::len word"
  assumes "0 \<le> sint x" shows "sint x = uint x"
proof -
  have top: "\<not> bit x (LENGTH('a) - Suc 0)"
    using assms by (simp add: bit_last_iff)
  have "take_bit (LENGTH('a) - Suc 0) (uint x) = uint x"
  proof (rule bit_eqI)
    fix n show "bit (take_bit (LENGTH('a) - Suc 0) (uint x)) n \<longleftrightarrow> bit (uint x) n"
      using top bit_imp_le_length [of x n] 
      by (cases "n = LENGTH('a) - Suc 0") (auto simp: bit_take_bit_iff bit_uint_iff)
  qed
  with top show ?thesis
  by (simp add: sint_uint signed_take_bit_eq_if_positive bit_uint_iff)
qed

lemma sint_mono: "0 \<le> sint x \<Longrightarrow> 0 \<le> sint y \<Longrightarrow> sint x \<le> sint y \<longleftrightarrow> x \<le> (y :: 'a::len word)"
  by (simp add: sint_nonneg word_le_def)

lemma sint_mono_less: "0 \<le> sint x \<Longrightarrow> 0 \<le> sint y \<Longrightarrow> sint x < sint y \<longleftrightarrow> x < (y :: 'a::len word)"
  by (simp add: sint_nonneg word_less_def)

lemma Uint64_Compare_le: "Uint64_Compare m x \<noteq> 1 \<longleftrightarrow> m \<le> x"
  by (auto simp: Uint64_Compare_def)

lemma pool_inv_facts:
  assumes "pool_inv elems num_of p"
  shows "hashesByBlockNumbers p n \<noteq> Some []" "distinct (hashes_at p n)"
    "h \<in> set (hashes_at p n) \<longleftrightarrow> num_of h = n \<and> logsByBlockHash p h \<noteq> None"
    "h \<in> set (hashes_at p n) \<Longrightarrow> n \<in># elems (pool_heap p)"
    "txs_ok h (num_of h) (block_txs p h)" "n \<in># elems (pool_heap p) \<Longrightarrow> 0 \<le> sint n"
  using assms unfolding pool_inv_def by (blast | force)+

lemma pool_invI:
  assumes "\<And>n. hashesByBlockNumbers p n \<noteq> Some []" "\<And>n. distinct (hashes_at p n)"
    "\<And>h n. h \<in> set (hashes_at p n) \<longleftrightarrow> num_of h = n \<and> logsByBlockHash p h \<noteq> None"
    "\<And>n h. h \<in> set (hashes_at p n) \<Longrightarrow> n \<in># elems (pool_heap p)"
    "\<And>h. txs_ok h (num_of h) (block_txs p h)" "\<And>n. n \<in># elems (pool_heap p) \<Longrightarrow> 0 \<le> sint n"
  shows "pool_inv elems num_of p"
  using assms unfolding pool_inv_def by (metis list.set_intros(1) neq_Nil_conv)

lemma block_logs_ok:
  assumes "txs_ok h n txs" and "block_logs txs t i = Some l"
  shows "log_key l = (h, t, i)" "LogBlockNumber l = n"
  using assms by (auto simp: txs_ok_def block_logs_Some dest!: map_of_SomeD)

lemma pool_contents_ok:
  assumes inv: "pool_inv elems num_of p" and l: "pool_contents p k = Some l"
  shows "log_key l = k" "LogBlockNumber l = num_of (fst k)" "fst k \<in> set (hashes_at p (num_of (fst k)))"
    "LogBlockNumber l \<in># elems (pool_heap p)" "0 \<le> sint (LogBlockNumber l)"
proof -
  obtain h t i where k: "k = (h, t, i)" by (cases k) auto
  have bl: "block_logs (block_txs p h) t i = Some l"
    using l k by (simp add: pool_contents_def)
  show "log_key l = k" and num: "LogBlockNumber l = num_of (fst k)"
    using block_logs_ok [OF pool_inv_facts(5) [OF inv] bl] k by simp_all
  have "logsByBlockHash p h \<noteq> None"
    using bl by (cases "logsByBlockHash p h") (auto simp: block_txs_def)
  then show h: "fst k \<in> set (hashes_at p (num_of (fst k)))"
    using pool_inv_facts(3) [OF inv] k by simp
  show "LogBlockNumber l \<in># elems (pool_heap p)" "0 \<le> sint (LogBlockNumber l)"
    using pool_inv_facts(4,6) [OF inv] h num by metis+
qed

text \<open>A log is in the pool exactly if its block is filed and the log is among the block's logs.\<close>

lemma pool_contents_iff:
  assumes "pool_inv elems num_of p" and "pool_orders_ok ords"
  shows "l \<in> set (flatten_logs ords (block_txs p h)) \<longleftrightarrow>
    (\<exists>k. fst k = h \<and> pool_contents p k = Some l)"
  using flatten_logs_set [OF pool_inv_facts(5) [OF assms(1)] assms(2), of h]
  by (auto simp: pool_contents_def)

lemma contents_drop:
  "pool_contents (p\<lparr>logsByBlockHash := (logsByBlockHash p)(h := None)\<rparr>)
     = pool_contents p |` {k. fst k \<noteq> h}"
  by (auto simp: pool_contents_def block_txs_def restrict_map_def fun_eq_iff)

definition batch_of :: "pool_orders \<Rightarrow> (nat \<Rightarrow> 64 word) \<Rightarrow> 'h logPool \<Rightarrow> nat list \<Rightarrow> logsOnBlock list" where
  "batch_of ords num_of p hs = map (\<lambda>h. newLogsOnBlock ords (num_of h) (block_txs p h)) hs"

section \<open>The contract of the pool\<close>

text \<open>
  The operations of \<open>iLogPool\<close> as the broadcaster calls them, and what each does to the map of
  logs the pool stands for. \<open>op_ok\<close> is the fact about the chain the pool relies on: a block hash
  has one block number, below \<open>2 ^ 63\<close>, and the height of a head is less than the largest \<open>int64\<close>.
\<close>

datatype pool_op = AddLog Log | RemoveBlock nat "64 word" | DeleteOlder int | SendUpTo int | DeleteAll

fun pool_exec :: "'h heap_ops \<Rightarrow> pool_orders \<Rightarrow> pool_op \<Rightarrow> 'h logPool \<Rightarrow> ('h logPool \<times> logsOnBlock list) option" where
  "pool_exec H ords (AddLog l) p = Some (snd (addLog H l p), [])"
| "pool_exec H ords (RemoveBlock h n) p = Some (removeBlock h n p, [])"
| "pool_exec H ords (DeleteOlder d) p =
     (case deleteOlderLogs H ords d p of None \<Rightarrow> None | Some (r, q) \<Rightarrow> Some (q, []))"
| "pool_exec H ords (SendUpTo n) p = map_option (\<lambda>(logs, lo). (p, logs)) (getLogsToSend H ords n p)"
| "pool_exec H ords DeleteAll p =
     (case getAndDeleteAll H ords p of None \<Rightarrow> None | Some (logs, lo, hi, q) \<Rightarrow> Some (q, logs))"

fun run_pool :: "'h heap_ops \<Rightarrow> pool_orders \<Rightarrow> pool_op list \<Rightarrow> 'h logPool \<Rightarrow> ('h logPool \<times> logsOnBlock list list) option" where
  "run_pool H ords [] p = Some (p, [])"
| "run_pool H ords (x # xs) p =
     (case pool_exec H ords x p of
        None \<Rightarrow> None
      | Some (q, out) \<Rightarrow> map_option (\<lambda>(r, outs). (r, out # outs)) (run_pool H ords xs q))"

fun op_ok :: "(nat \<Rightarrow> 64 word) \<Rightarrow> pool_op \<Rightarrow> bool" where
  "op_ok num_of (AddLog l) \<longleftrightarrow> num_of (LogBlockHash l) = LogBlockNumber l \<and> 0 \<le> sint (LogBlockNumber l)"
| "op_ok num_of (RemoveBlock h n) \<longleftrightarrow> num_of h = n"
| "op_ok num_of (SendUpTo n) \<longleftrightarrow> n < MaxInt64"
| "op_ok num_of _ \<longleftrightarrow> True"

type_synonym log_map = "nat \<times> nat \<times> nat \<Rightarrow> Log option"

definition drop_logs :: "(Log \<Rightarrow> bool) \<Rightarrow> log_map \<Rightarrow> log_map" where
  "drop_logs P m = (\<lambda>k. case m k of None \<Rightarrow> None | Some l \<Rightarrow> if P l then None else Some l)"

fun spec_exec :: "pool_op \<Rightarrow> log_map \<Rightarrow> log_map" where
  "spec_exec (AddLog l) m = m(log_key l \<mapsto> l)"
| "spec_exec (RemoveBlock h n) m = drop_logs (\<lambda>l. LogBlockHash l = h) m"
| "spec_exec (DeleteOlder d) m = drop_logs (\<lambda>l. sint (LogBlockNumber l) < d) m"
| "spec_exec (SendUpTo n) m = m"
| "spec_exec DeleteAll m = Map.empty"

fun spec_out :: "pool_op \<Rightarrow> log_map \<Rightarrow> Log set" where
  "spec_out (SendUpTo n) m = {l \<in> ran m. sint (LogBlockNumber l) \<le> n}"
| "spec_out DeleteAll m = ran m"
| "spec_out _ m = {}"

fun spec_outs :: "pool_op list \<Rightarrow> log_map \<Rightarrow> Log set list" where
  "spec_outs [] m = []"
| "spec_outs (x # xs) m = spec_out x m # spec_outs xs (spec_exec x m)"

definition delivers :: "logsOnBlock list \<Rightarrow> Log set \<Rightarrow> bool" where
  "delivers out S \<longleftrightarrow> set (concat (map Logs out)) = S \<and> distinct (map log_key (concat (map Logs out)))"

lemma restrict_drop_logs:
  assumes "\<And>k l. pool_contents p k = Some l \<Longrightarrow> k \<in> S \<longleftrightarrow> \<not> P l"
  shows "pool_contents p |` S = drop_logs P (pool_contents p)"
  using assms by (auto simp: drop_logs_def restrict_map_def fun_eq_iff split: option.splits)

section \<open>Each operation, given the heap's contract\<close>

context min_heap
begin

lemma FindMin_cases:
  obtains "heap_FindMin H h = None" and "elems h = {#}"
  | m where "heap_FindMin H h = Some m" and "m \<in># elems h" and "\<And>x. x \<in># elems h \<Longrightarrow> m \<le> x"
  using FindMin_None [of h] FindMin_in [of h] FindMin_least [of h] Uint64_Compare_le
  by (cases "heap_FindMin H h") auto

lemma newLogPool_inv [inv_intros]: "pool_inv elems num_of (newLogPool H)"
  by (rule pool_invI) (simp_all add: newLogPool_def elems_New hashes_at_def block_txs_def)

lemma newLogPool_contents [simp]: "pool_contents (newLogPool H) = Map.empty"
  by (simp add: pool_contents_def block_txs_def newLogPool_def fun_eq_iff)

lemma addLog_heap: "elems (pool_heap (snd (addLog H l p))) = add_mset (LogBlockNumber l) (elems (pool_heap p))"
  by (simp add: addLog_def Let_def elems_Insert)

lemma addLog_result: "fst (addLog H l p) \<longleftrightarrow> (\<forall>n\<in>#elems (pool_heap p). LogBlockNumber l < n)"
proof (cases rule: FindMin_cases [of "pool_heap p"])
  case (2 m)
  then show ?thesis by (auto simp: addLog_def Let_def intro: order.strict_trans2)
qed (simp add: addLog_def Let_def)

lemma addLog_contents:
  "pool_contents (snd (addLog H l p)) = (pool_contents p)(log_key l \<mapsto> l)"
  by (auto simp: pool_contents_def block_txs_def addLog_def Let_def fun_eq_iff block_logs_put log_key_def)

lemma addLog_hashes:
  "hashes_at (snd (addLog H l p)) n =
     (if n = LogBlockNumber l then List.insert (LogBlockHash l) (hashes_at p n) else hashes_at p n)"
  by (simp add: hashes_at_def addLog_def Let_def)

lemma List_insert_not_Nil: "List.insert x xs \<noteq> []"
  by (simp add: List.insert_def) auto

lemma addLog_inv [inv_intros]:
  assumes inv: "pool_inv elems num_of p" and num: "num_of (LogBlockHash l) = LogBlockNumber l"
    and pos: "0 \<le> sint (LogBlockNumber l)"
  shows "pool_inv elems num_of (snd (addLog H l p))"
proof (rule pool_invI)
  let ?q = "snd (addLog H l p)"
  note facts = pool_inv_facts [OF inv]
  show "hashesByBlockNumbers ?q n \<noteq> Some []" for n
    using facts(1) [of n] by (simp add: addLog_def Let_def List_insert_not_Nil)
  show "distinct (hashes_at ?q n)" for n
    using facts(2) [of n] by (auto simp: addLog_hashes)
  show "h \<in> set (hashes_at ?q n) \<longleftrightarrow> num_of h = n \<and> logsByBlockHash ?q h \<noteq> None" for h n
    unfolding addLog_hashes using facts(3) [of h n] num by (auto simp: addLog_def Let_def)
  show "n \<in># elems (pool_heap ?q)" if "h \<in> set (hashes_at ?q n)" for h n
    using that facts(4) [of h n] unfolding addLog_hashes addLog_heap by (auto split: if_splits)
  show "0 \<le> sint n" if "n \<in># elems (pool_heap ?q)" for n
    using that facts(6) [of n] pos unfolding addLog_heap by auto
  have "txs_ok (LogBlockHash l) (num_of (LogBlockHash l)) (block_txs ?q (LogBlockHash l))"
    using txs_ok_put [OF facts(5) [of "LogBlockHash l"], of l "LogTxIndex l" "LogIndex l"] num
    by (simp add: block_txs_def addLog_def Let_def log_key_def)
  moreover have "block_txs ?q h = block_txs p h" if "h \<noteq> LogBlockHash l" for h
    using that by (simp add: block_txs_def addLog_def Let_def)
  ultimately show "txs_ok h (num_of h) (block_txs ?q h)" for h
    using facts(5) [of h] by (cases "h = LogBlockHash l") simp_all
qed

lemma removeBlock_contents:
  "pool_contents (removeBlock hash number p) = pool_contents p |` {k. fst k \<noteq> hash}"
  unfolding contents_drop [symmetric] by (simp add: removeBlock_def Let_def pool_contents_def block_txs_def)

lemma removeBlock_hashes:
  "hashes_at (removeBlock hash number p) n =
     (if n = number then removeAll hash (hashes_at p n) else hashes_at p n)"
  by (cases "hashesByBlockNumbers p number") (auto simp: hashes_at_def removeBlock_def Let_def map_get_def)

lemma removeBlock_inv [inv_intros]:
  assumes inv: "pool_inv elems num_of p" and num: "num_of hash = number"
  shows "pool_inv elems num_of (removeBlock hash number p)"
proof (rule pool_invI)
  let ?q = "removeBlock hash number p"
  note facts = pool_inv_facts [OF inv]
  have heap [simp]: "pool_heap ?q = pool_heap p" by (simp add: removeBlock_def Let_def)
  show "hashesByBlockNumbers ?q n \<noteq> Some []" for n
    using facts(1) [of n] by (simp add: removeBlock_def Let_def)
  show "distinct (hashes_at ?q n)" for n
    using facts(2) [of n] by (auto simp: removeBlock_hashes distinct_removeAll)
  show "h \<in> set (hashes_at ?q n) \<longleftrightarrow> num_of h = n \<and> logsByBlockHash ?q h \<noteq> None" for h n
    unfolding removeBlock_hashes using facts(3) [of h n] num by (auto simp: removeBlock_def Let_def)
  show "n \<in># elems (pool_heap ?q)" if "h \<in> set (hashes_at ?q n)" for h n
    using that facts(4) [of h n] unfolding removeBlock_hashes heap by (auto split: if_splits)
  show "0 \<le> sint n" if "n \<in># elems (pool_heap ?q)" for n
    using that facts(6) [of n] by simp
  show "txs_ok h (num_of h) (block_txs ?q h)" for h
    using facts(5) [of h] by (simp add: block_txs_def removeBlock_def Let_def)
qed

text \<open>Dropping every block of one number.\<close>

lemma drop_number:
  assumes inv: "pool_inv elems num_of p"
    and hashes: "hashesByBlockNumbers q = (hashesByBlockNumbers p)(n := None)"
    and logs: "logsByBlockHash q = (\<lambda>h. if h \<in> set (hashes_at p n) then None else logsByBlockHash p h)"
    and heap: "elems (pool_heap q) = elems (pool_heap p) - {#n#}"
  shows "pool_inv elems num_of q"
    and "pool_contents q = pool_contents p |` {k. num_of (fst k) \<noteq> n}"
    and "logsByBlockHash q = (\<lambda>h. if num_of h = n then None else logsByBlockHash p h)"
proof -
  note facts = pool_inv_facts [OF inv]
  show logs': "logsByBlockHash q = (\<lambda>h. if num_of h = n then None else logsByBlockHash p h)"
    unfolding logs using facts(3) by (auto simp: fun_eq_iff)
  have at: "hashes_at q m = (if m = n then [] else hashes_at p m)" for m
    by (simp add: hashes_at_def hashes)
  show "pool_inv elems num_of q"
  proof (rule pool_invI)
    show "hashesByBlockNumbers q m \<noteq> Some []" for m
      using facts(1) [of m] by (simp add: hashes)
    show "distinct (hashes_at q m)" for m
      using facts(2) [of m] by (simp add: at)
    show "h \<in> set (hashes_at q m) \<longleftrightarrow> num_of h = m \<and> logsByBlockHash q h \<noteq> None" for h m
      using facts(3) [of h m] by (auto simp: at logs')
    show "m \<in># elems (pool_heap q)" if "h \<in> set (hashes_at q m)" for h m
      using that facts(4) [of h m] by (auto simp: at heap in_diff_count split: if_splits)
    show "0 \<le> sint m" if "m \<in># elems (pool_heap q)" for m
      using that facts(6) [of m] unfolding heap by (blast dest: in_diffD)
    show "txs_ok h (num_of h) (block_txs q h)" for h
      using facts(5) [of h] by (simp add: block_txs_def logs' map_get_def)
  qed
  show "pool_contents q = pool_contents p |` {k. num_of (fst k) \<noteq> n}"
    by (auto simp: pool_contents_def block_txs_def logs' restrict_map_def fun_eq_iff map_get_def)
qed

lemma delete_hashes_fields [simp]:
  "logsByBlockHash (delete_hashes hs p) = (\<lambda>h. if h \<in> set hs then None else logsByBlockHash p h)"
  "hashesByBlockNumbers (delete_hashes hs p) = hashesByBlockNumbers p"
  "pool_heap (delete_hashes hs p) = pool_heap p"
  by (induction hs p rule: delete_hashes.induct) (auto simp: fun_eq_iff)

lemma deleteOlderLogs_correct:
  assumes "pool_inv elems num_of p" and ords: "pool_orders_ok ords"
  shows "\<exists>r q. deleteOlderLogs H ords keptDepth p = Some (r, q) \<and> pool_inv elems num_of q
    \<and> pool_contents q = pool_contents p |` {k. keptDepth \<le> sint (num_of (fst k))}
    \<and> elems (pool_heap q) = filter_mset (\<lambda>n. keptDepth \<le> sint n) (elems (pool_heap p))
    \<and> r = map_option sint (heap_FindMin H (pool_heap q))"
  using assms(1)
proof (induction "size (elems (pool_heap p))" arbitrary: p rule: less_induct)
  case less
  note facts = pool_inv_facts [OF less.prems]
  show ?case
  proof (cases rule: FindMin_cases [of "pool_heap p"])
    case 1
    have "pool_contents p k = None" for k
      using pool_contents_ok(4) [OF less.prems, of k] 1 by (cases "pool_contents p k") auto
    then have "pool_contents p = pool_contents p |` {k. keptDepth \<le> sint (num_of (fst k))}"
      by (auto simp: restrict_map_def fun_eq_iff)
    with 1 less.prems show ?thesis by (subst deleteOlderLogs.simps) simp
  next
    case (2 n)
    have least: "sint n \<le> sint x" if "x \<in># elems (pool_heap p)" for x
      using 2(3) [OF that] sint_mono [OF facts(6) [OF 2(2)] facts(6) [OF that]] by simp
    show ?thesis
    proof (cases "keptDepth \<le> sint n")
      case True
      have all: "keptDepth \<le> sint x" if "x \<in># elems (pool_heap p)" for x
        using least [OF that] True by simp
      have "pool_contents p k = None" if "\<not> keptDepth \<le> sint (num_of (fst k))" for k
        using pool_contents_ok(2,4) [OF less.prems, of k] all that by (cases "pool_contents p k") auto
      then have "pool_contents p = pool_contents p |` {k. keptDepth \<le> sint (num_of (fst k))}"
        by (auto simp: restrict_map_def fun_eq_iff)
      moreover have "filter_mset (\<lambda>n. keptDepth \<le> sint n) (elems (pool_heap p)) = elems (pool_heap p)"
        using all by (simp add: filter_mset_eq_conv)
      ultimately show ?thesis using True 2 less.prems by (subst deleteOlderLogs.simps) simp
    next
      case False
      define q where "q = (delete_hashes (hash_order ords (map_get [] (hashesByBlockNumbers p) n))
            (p\<lparr>pool_heap := snd (heap_DeleteMin H (pool_heap p))\<rparr>))
          \<lparr>hashesByBlockNumbers := (hashesByBlockNumbers p)(n := None)\<rparr>"
      have step: "deleteOlderLogs H ords keptDepth p = deleteOlderLogs H ords keptDepth q"
        using 2(1) False by (subst deleteOlderLogs.simps) (simp add: q_def Let_def)
      have heap: "elems (pool_heap q) = elems (pool_heap p) - {#n#}"
        using DeleteMin_Some [OF 2(1)] by (simp add: q_def)
      have q: "hashesByBlockNumbers q = (hashesByBlockNumbers p)(n := None)"
        "logsByBlockHash q = (\<lambda>h. if h \<in> set (hashes_at p n) then None else logsByBlockHash p h)"
        using ords by (auto simp: q_def hashes_at_def pool_orders_ok_def iteration_order_set)
      note dropped = drop_number [OF less.prems q heap]
      have "size (elems (pool_heap q)) < size (elems (pool_heap p))"
        using 2(2) unfolding heap by (simp add: size_Diff1_less)
      from less.hyps [OF this dropped(1)] obtain r t where
        t: "deleteOlderLogs H ords keptDepth q = Some (r, t)" "pool_inv elems num_of t"
          "pool_contents t = pool_contents q |` {k. keptDepth \<le> sint (num_of (fst k))}"
          "elems (pool_heap t) = filter_mset (\<lambda>n. keptDepth \<le> sint n) (elems (pool_heap q))"
          "r = map_option sint (heap_FindMin H (pool_heap t))" by blast
      have "pool_contents t = pool_contents p |` {k. keptDepth \<le> sint (num_of (fst k))}"
        unfolding t(3) dropped(2) using False by (auto simp: restrict_map_def fun_eq_iff)
      moreover have "elems (pool_heap t) = filter_mset (\<lambda>n. keptDepth \<le> sint n) (elems (pool_heap p))"
        unfolding t(4) heap using False by simp
      ultimately show ?thesis using step t(1,2,5) by auto
    qed
  qed
qed

text \<open>What \<open>getLogsToSend\<close> and \<open>getAndDeleteAll\<close> return: the logs of some blocks, each once.\<close>

lemma batch_set:
  assumes "pool_inv elems num_of p" and "pool_orders_ok ords"
  shows "set (concat (map Logs (batch_of ords num_of p hs)))
     = {l. \<exists>k. fst k \<in> set hs \<and> pool_contents p k = Some l}"
  by (auto simp: batch_of_def newLogsOnBlock_def pool_contents_iff [OF assms]) blast

lemma batch_distinct:
  assumes "pool_inv elems num_of p" and "pool_orders_ok ords" and "distinct hs"
  shows "distinct (map log_key (concat (map Logs (batch_of ords num_of p hs))))"
  using assms(3)
proof (induction hs)
  case (Cons h hs)
  have split: "concat (map Logs (batch_of ords num_of p (h # hs)))
      = flatten_logs ords (block_txs p h) @ concat (map Logs (batch_of ords num_of p hs))"
    by (simp add: batch_of_def newLogsOnBlock_def)
  have "distinct (map log_key (flatten_logs ords (block_txs p h)))"
    by (rule flatten_logs_distinct [OF pool_inv_facts(5) [OF assms(1)] assms(2)])
  moreover have "log_key l \<noteq> log_key l'"
    if "l \<in> set (flatten_logs ords (block_txs p h))"
      and "l' \<in> set (concat (map Logs (batch_of ords num_of p hs)))" for l l'
    using that Cons.prems unfolding batch_set [OF assms(1,2)] pool_contents_iff [OF assms(1,2)]
    using pool_contents_ok(1) [OF assms(1)] by fastforce
  then have "log_key ` set (flatten_logs ords (block_txs p h))
      \<inter> log_key ` set (concat (map Logs (batch_of ords num_of p hs))) = {}"
    by (rule image_disjointI)
  ultimately show ?case using Cons unfolding split by (simp del: set_concat)
qed (simp add: batch_of_def)

lemma getLogsToSend_batch:
  assumes inv: "pool_inv elems num_of p" and ords: "pool_orders_ok ords"
    and ends: "latest < MaxInt64 \<or> heap_FindMin H (pool_heap p) = None"
  obtains hs lo where "getLogsToSend H ords latest p = Some (batch_of ords num_of p hs, lo)" and "distinct hs"
    and "set hs = {h. logsByBlockHash p h \<noteq> None \<and> sint (num_of h) \<le> latest}"
    and "sorted (map (\<lambda>h. sint (num_of h)) hs)"
    and "\<And>m. heap_FindMin H (pool_heap p) = Some m \<Longrightarrow> lo = sint m"
proof (cases rule: FindMin_cases [of "pool_heap p"])
  case 1
  note facts = pool_inv_facts [OF inv]
  have "logsByBlockHash p h = None" for h
    using facts(3) [of h "num_of h"] facts(4) [of h "num_of h"] 1(2) by auto
  with 1 show ?thesis by (intro that [of "[]" 0]) (simp_all add: getLogsToSend_def batch_of_def)
next
  case (2 m)
  then have latest: "latest < MaxInt64" using ends by simp
  note facts = pool_inv_facts [OF inv]
  define at where "at num = hash_order ords (hashes_at p (word_of_int num))" for num :: int
  have at_set: "set (at num) = set (hashes_at p (word_of_int num))"
    and at_distinct: "distinct (at num)" for num
    using ords facts(2) by (simp_all add: at_def pool_orders_ok_def iteration_order_set iteration_order_distinct)
  have m: "0 \<le> sint m" using facts(6) [OF 2(2)] .
  have num: "sint (num_of h) = num" if "h \<in> set (at num)" and "0 \<le> num" and "num \<le> latest" for h num
  proof -
    have "num_of h = word_of_int num" using that(1) facts(3) [of h "word_of_int num"] by (simp add: at_set)
    moreover have "num < 2 ^ 63" using that(3) latest by (simp add: MaxInt64_def)
    ultimately show ?thesis using that(2)
      by (simp add: sint_sbintrunc' signed_take_bit_int_eq_self)
  qed
  show ?thesis
  proof (rule that [of "concat (map at [sint m..latest])" "sint m"])
    have "logs_at_height ords p = (\<lambda>num. batch_of ords num_of p (at num))"
      using facts(3) at_set
      by (auto simp: fun_eq_iff logs_at_height_def batch_of_def at_def block_txs_def simp flip: hashes_at_def)
    moreover have "batch_of ords num_of p (concat (map f xs)) = concat (map (\<lambda>x. batch_of ords num_of p (f x)) xs)"
      for f :: "int \<Rightarrow> nat list" and xs by (induction xs) (simp_all add: batch_of_def)
    ultimately have "concat (map (logs_at_height ords p) [sint m..latest])
        = batch_of ords num_of p (concat (map at [sint m..latest]))" by simp
    moreover have "MinInt64 \<le> sint m" using m by (simp add: MinInt64_def)
    then have "send_loop ords p latest (sint m) []
        = Some ([] @ concat (map (logs_at_height ords p) [sint m..latest]))"
      by (rule send_loop_interval [OF latest])
    ultimately show "getLogsToSend H ords latest p = Some (batch_of ords num_of p (concat (map at [sint m..latest])), sint m)"
      using 2(1) by (simp add: getLogsToSend_def)
    show "sint m = sint m'" if "heap_FindMin H (pool_heap p) = Some m'" for m' using that 2(1) by simp
    have "distinct (concat (map at xs)) \<and> sorted (map (\<lambda>h. sint (num_of h)) (concat (map at xs)))"
      if "distinct xs" "sorted xs" "set xs \<subseteq> {0..latest}" for xs
      using that
    proof (induction xs)
      case (Cons x xs)
      have same: "sint (num_of h) = x" if "h \<in> set (at x)" for h
        using num [OF that] Cons.prems by simp
      have above: "x < sint (num_of h)" if h: "h \<in> set (concat (map at xs))" for h
      proof -
        obtain y where "y \<in> set xs" "h \<in> set (at y)" using h by auto
        moreover from this have "x < y" "0 \<le> y" "y \<le> latest" using Cons.prems by (auto simp: order_less_le)
        ultimately show ?thesis using num [of h y] by simp
      qed
      have "map (\<lambda>h. sint (num_of h)) (at x) = map (\<lambda>_. x) (at x)"
        using same by simp
      then have "sorted (map (\<lambda>h. sint (num_of h)) (at x))"
        by (simp only: map_replicate_const sorted_replicate)
      moreover have "set (at x) \<inter> set (concat (map at xs)) = {}"
        using same above by (metis disjoint_iff order_less_irrefl)
      ultimately show ?case using Cons at_distinct [of x] same above
        by (simp add: sorted_append order_less_imp_le del: set_concat)
    qed simp
    then show "distinct (concat (map at [sint m..latest]))"
      "sorted (map (\<lambda>h. sint (num_of h)) (concat (map at [sint m..latest])))"
      using m by simp_all
    show "set (concat (map at [sint m..latest])) = {h. logsByBlockHash p h \<noteq> None \<and> sint (num_of h) \<le> latest}"
    proof (intro set_eqI iffI)
      fix h assume "h \<in> set (concat (map at [sint m..latest]))"
      then obtain x where "sint m \<le> x" "x \<le> latest" "h \<in> set (at x)" by auto
      then show "h \<in> {h. logsByBlockHash p h \<noteq> None \<and> sint (num_of h) \<le> latest}"
        using num [of h x] m facts(3) [of h "word_of_int x"] by (simp add: at_set)
    next
      fix h assume "h \<in> {h. logsByBlockHash p h \<noteq> None \<and> sint (num_of h) \<le> latest}"
      then have h: "h \<in> set (hashes_at p (num_of h))" "sint (num_of h) \<le> latest"
        using facts(3) [of h "num_of h"] by simp_all
      have "sint m \<le> sint (num_of h)"
        using sint_mono [OF m facts(6)] 2(3) facts(4) [OF h(1)] by blast
      moreover have "h \<in> set (at (sint (num_of h)))" using h(1) by (simp add: at_set)
      ultimately show "h \<in> set (concat (map at [sint m..latest]))" using h(2) by fastforce
    qed
  qed
qed

lemma collect_hashes_fields:
  assumes "distinct hs"
  shows "\<exists>q. collect_hashes ords n hs p acc = (q, acc @ map (\<lambda>h. newLogsOnBlock ords n (block_txs p h)) hs)
    \<and> logsByBlockHash q = (\<lambda>h. if h \<in> set hs then None else logsByBlockHash p h)
    \<and> (\<forall>m. m \<noteq> n \<longrightarrow> hashesByBlockNumbers q m = hashesByBlockNumbers p m)
    \<and> pool_heap q = pool_heap p"
  using assms
proof (induction hs arbitrary: p acc)
  case (Cons h hs)
  let ?p = "p\<lparr>hashesByBlockNumbers := (hashesByBlockNumbers p)(n := map_option (removeAll h) (hashesByBlockNumbers p n)),
      logsByBlockHash := (logsByBlockHash p)(h := None)\<rparr>"
  have "map (\<lambda>h. newLogsOnBlock ords n (block_txs ?p h)) hs = map (\<lambda>h. newLogsOnBlock ords n (block_txs p h)) hs"
    using Cons.prems by (auto simp: block_txs_def)
  moreover have "distinct hs" using Cons.prems by simp
  ultimately show ?case
    using Cons.IH [of ?p "acc @ [newLogsOnBlock ords n (block_txs p h)]"]
    by (auto simp: fun_eq_iff block_txs_def)
qed simp

lemma delete_all_loop_correct:
  assumes "pool_inv elems num_of p" and ords: "pool_orders_ok ords"
  shows "\<exists>hs lo hi q. delete_all_loop H ords p acc lo0 hi0 = Some (acc @ batch_of ords num_of p hs, lo, hi, q)
    \<and> distinct hs \<and> set hs = {h. logsByBlockHash p h \<noteq> None}
    \<and> lo \<le> lo0 \<and> hi0 \<le> hi \<and> (\<forall>h\<in>set hs. lo \<le> sint (num_of h) \<and> sint (num_of h) \<le> hi)
    \<and> pool_inv elems num_of q \<and> pool_contents q = Map.empty \<and> elems (pool_heap q) = {#}"
  using assms(1)
proof (induction "size (elems (pool_heap p))" arbitrary: p acc lo0 hi0 rule: less_induct)
  case less
  note facts = pool_inv_facts [OF less.prems]
  show ?case
  proof (cases rule: FindMin_cases [of "pool_heap p"])
    case 1
    have none: "logsByBlockHash p h = None" for h
      using facts(3) [of h "num_of h"] facts(4) [of h "num_of h"] 1(2) by auto
    obtain h' where h': "heap_DeleteMin H (pool_heap p) = (None, h')" "elems h' = {#}"
      using DeleteMin_fst [of "pool_heap p"] DeleteMin_None [OF 1(1)] 1(1) by (metis eq_fst_iff snd_conv)
    have "pool_inv elems num_of (p\<lparr>pool_heap := h'\<rparr>)"
      using less.prems 1(2) h'(2) none by (simp add: pool_inv_def hashes_at_def block_txs_def)
    moreover have "pool_contents (p\<lparr>pool_heap := h'\<rparr>) = Map.empty"
      by (simp add: pool_contents_def block_txs_def none fun_eq_iff)
    ultimately show ?thesis
      using h' by (subst delete_all_loop.simps) (auto simp: batch_of_def none intro!: exI [of _ "[]"])
  next
    case (2 n)
    obtain h' where h': "heap_DeleteMin H (pool_heap p) = (Some n, h')" "elems h' = elems (pool_heap p) - {#n#}"
      using DeleteMin_fst [of "pool_heap p"] DeleteMin_Some [OF 2(1)] 2(1) by (metis eq_fst_iff snd_conv)
    define hs1 where "hs1 = hash_order ords (hashes_at p n)"
    have hs1: "distinct hs1" "set hs1 = set (hashes_at p n)"
      using ords facts(2) by (simp_all add: hs1_def pool_orders_ok_def iteration_order_set iteration_order_distinct)
    define logs1 where "logs1 = acc @ map (\<lambda>h. newLogsOnBlock ords n (block_txs p h)) hs1"
    have "block_txs (p\<lparr>pool_heap := h'\<rparr>) = block_txs p"
      by (simp add: block_txs_def fun_eq_iff)
    with collect_hashes_fields [OF hs1(1), of ords n "p\<lparr>pool_heap := h'\<rparr>" acc]
    obtain q1 where q1: "collect_hashes ords n hs1 (p\<lparr>pool_heap := h'\<rparr>) acc = (q1, logs1)"
      and c: "logsByBlockHash q1 = (\<lambda>h. if h \<in> set hs1 then None else logsByBlockHash p h)"
        "\<forall>m. m \<noteq> n \<longrightarrow> hashesByBlockNumbers q1 m = hashesByBlockNumbers p m" "pool_heap q1 = h'"
      by (auto simp: logs1_def cong: if_cong)
    define q where "q = q1\<lparr>hashesByBlockNumbers := (hashesByBlockNumbers q1)(n := None)\<rparr>"
    have q: "hashesByBlockNumbers q = (hashesByBlockNumbers p)(n := None)"
      "logsByBlockHash q = (\<lambda>h. if h \<in> set (hashes_at p n) then None else logsByBlockHash p h)"
      "elems (pool_heap q) = elems (pool_heap p) - {#n#}"
      using c h'(2) hs1(2) by (auto simp: q_def fun_eq_iff)
    note dropped = drop_number [OF less.prems q]
    define lo1 where "lo1 = (if hashesByBlockNumbers p n = None then lo0 else min (sint n) lo0)"
    define hi1 where "hi1 = (if hashesByBlockNumbers p n = None then hi0 else max (sint n) hi0)"
    have logs1: "logs1 = acc @ batch_of ords num_of p hs1"
      using facts(3) hs1(2) by (auto simp: batch_of_def logs1_def)
    have step: "delete_all_loop H ords p acc lo0 hi0 = delete_all_loop H ords q logs1 lo1 hi1"
    proof (cases "hashesByBlockNumbers p n")
      case None
      then have e: "hs1 = []" using hs1(2) by (auto simp: hashes_at_def)
      with q1 None have "q = p\<lparr>pool_heap := h'\<rparr>" "logs1 = acc"
        by (auto simp: q_def fun_upd_idem)
      with None h'(1) show ?thesis by (subst delete_all_loop.simps) (simp add: lo1_def hi1_def)
    next
      case (Some hashes)
      then have "hash_order ords hashes = hs1" by (simp add: hs1_def hashes_at_def)
      with Some h'(1) q1 show ?thesis
        by (subst delete_all_loop.simps) (simp add: q_def lo1_def hi1_def min_def max_def not_le not_less)
    qed
    have "size (elems (pool_heap q)) < size (elems (pool_heap p))"
      using 2(2) unfolding q(3) by (simp add: size_Diff1_less)
    from less.hyps [OF this dropped(1), of logs1 lo1 hi1] obtain hs lo hi t where
      t: "delete_all_loop H ords q logs1 lo1 hi1 = Some (logs1 @ batch_of ords num_of q hs, lo, hi, t)"
        "distinct hs" "set hs = {h. logsByBlockHash q h \<noteq> None}" "lo \<le> lo1" "hi1 \<le> hi"
        "\<forall>h\<in>set hs. lo \<le> sint (num_of h) \<and> sint (num_of h) \<le> hi"
        "pool_inv elems num_of t" "pool_contents t = Map.empty" "elems (pool_heap t) = {#}"
      by blast
    have "batch_of ords num_of q hs = batch_of ords num_of p hs"
      using t(3) by (auto simp: batch_of_def block_txs_def q(2) map_get_def)
    then have "delete_all_loop H ords p acc lo0 hi0
        = Some (acc @ batch_of ords num_of p (hs1 @ hs), lo, hi, t)"
      using t(1) step logs1 by (simp add: batch_of_def)
    moreover have "set hs1 = {h. num_of h = n \<and> logsByBlockHash p h \<noteq> None}"
      using facts(3) by (auto simp: hs1(2))
    then have "distinct (hs1 @ hs)" "set (hs1 @ hs) = {h. logsByBlockHash p h \<noteq> None}"
      using t(2,3) hs1(1) by (auto simp: dropped(3) split: if_splits)
    moreover have "lo1 \<le> lo0" "hi0 \<le> hi1" by (simp_all add: lo1_def hi1_def)
    moreover have "lo1 \<le> sint n \<and> sint n \<le> hi1" if "h \<in> set hs1" for h
      using that hs1(2) by (auto simp: lo1_def hi1_def hashes_at_def)
    then have "\<forall>h\<in>set (hs1 @ hs). lo \<le> sint (num_of h) \<and> sint (num_of h) \<le> hi"
      using t(4,5,6) facts(3) hs1(2) by fastforce
    ultimately show ?thesis using t(4,5,7,8,9)
      by (intro exI [of _ "hs1 @ hs"] exI [of _ lo] exI [of _ hi] exI [of _ t]) simp
  qed
qed

lemma batch_delivers:
  assumes inv: "pool_inv elems num_of p" and ords: "pool_orders_ok ords" and "distinct hs"
    and "\<And>k l. pool_contents p k = Some l \<Longrightarrow> fst k \<in> set hs \<longleftrightarrow> Q l"
  shows "delivers (batch_of ords num_of p hs) {l \<in> ran (pool_contents p). Q l}"
  using batch_set [OF inv ords, of hs] batch_distinct [OF inv ords assms(3)] assms(4)
  unfolding delivers_def ran_def by blast

lemma pool_exec_refines:
  assumes inv: "pool_inv elems num_of p" and ords: "pool_orders_ok ords" and ok: "op_ok num_of x"
  shows "\<exists>q out. pool_exec H ords x p = Some (q, out) \<and> pool_inv elems num_of q
    \<and> pool_contents q = spec_exec x (pool_contents p) \<and> delivers out (spec_out x (pool_contents p))"
proof (cases x)
  case (AddLog l)
  then show ?thesis using addLog_inv [OF inv, of l] ok by (simp add: addLog_contents delivers_def)
next
  case (RemoveBlock h n)
  have "pool_contents p |` {k. fst k \<noteq> h} = drop_logs (\<lambda>l. LogBlockHash l = h) (pool_contents p)"
    using pool_contents_ok(1) [OF inv] by (intro restrict_drop_logs) (force simp: log_key_def)
  with RemoveBlock show ?thesis
    using removeBlock_inv [OF inv, of h n] ok by (simp add: removeBlock_contents delivers_def)
next
  case (DeleteOlder d)
  have "pool_contents p |` {k. d \<le> sint (num_of (fst k))} = drop_logs (\<lambda>l. sint (LogBlockNumber l) < d) (pool_contents p)"
    using pool_contents_ok(2) [OF inv] by (intro restrict_drop_logs) force
  with DeleteOlder show ?thesis
    using deleteOlderLogs_correct [OF inv ords, of d] by (auto simp: delivers_def)
next
  case (SendUpTo n)
  then have "n < MaxInt64 \<or> heap_FindMin H (pool_heap p) = None" using ok by simp
  then obtain hs lo where hs: "getLogsToSend H ords n p = Some (batch_of ords num_of p hs, lo)" "distinct hs"
    "set hs = {h. logsByBlockHash p h \<noteq> None \<and> sint (num_of h) \<le> n}"
    "sorted (map (\<lambda>h. sint (num_of h)) hs)"
    by (rule getLogsToSend_batch [OF inv ords])
  have "fst k \<in> set hs \<longleftrightarrow> sint (LogBlockNumber l) \<le> n" if "pool_contents p k = Some l" for k l
    using pool_contents_ok(2,3) [OF inv that] pool_inv_facts(3) [OF inv] hs(3) by simp
  from batch_delivers [OF inv ords hs(2) this] show ?thesis using SendUpTo hs(1) inv by simp
next
  case DeleteAll
  obtain hs lo hi q where hs: "getAndDeleteAll H ords p = Some (batch_of ords num_of p hs, lo, hi, q)" "distinct hs"
    "set hs = {h. logsByBlockHash p h \<noteq> None}" "pool_inv elems num_of q" "pool_contents q = Map.empty"
    using delete_all_loop_correct [OF inv ords, of "[]" MaxInt64 0] by (auto simp: getAndDeleteAll_def)
  have "fst k \<in> set hs \<longleftrightarrow> True" if "pool_contents p k = Some l" for k l
    using pool_contents_ok(3) [OF inv that] pool_inv_facts(3) [OF inv] hs(3) by simp
  from batch_delivers [OF inv ords hs(2) this] show ?thesis using DeleteAll hs by simp
qed

lemma run_pool_refines:
  assumes ords: "pool_orders_ok ords"
  shows "pool_inv elems num_of p \<Longrightarrow> list_all (op_ok num_of) xs \<Longrightarrow>
    \<exists>q outs. run_pool H ords xs p = Some (q, outs) \<and> pool_inv elems num_of q
      \<and> pool_contents q = foldl (\<lambda>m x. spec_exec x m) (pool_contents p) xs
      \<and> list_all2 delivers outs (spec_outs xs (pool_contents p))"
proof (induction xs arbitrary: p)
  case (Cons x xs)
  obtain q out where q: "pool_exec H ords x p = Some (q, out)" "pool_inv elems num_of q"
    "pool_contents q = spec_exec x (pool_contents p)" "delivers out (spec_out x (pool_contents p))"
    using pool_exec_refines [OF Cons.prems(1) ords, of x] Cons.prems(2) by auto
  with Cons.IH [OF q(2)] Cons.prems(2) show ?case by auto
qed simp

end

section \<open>A heap for the examples\<close>

definition list_heap :: "64 word list heap_ops" where
  "list_heap = \<lparr>heap_New = [],
     heap_FindMin = (\<lambda>xs. if xs = [] then None else Some (foldr min xs (last xs))),
     heap_Insert = (#),
     heap_DeleteMin = (\<lambda>xs. if xs = [] then (None, [])
        else (Some (foldr min xs (last xs)), remove1 (foldr min xs (last xs)) xs))\<rparr>"

lemma foldr_min_in: "foldr min xs a \<in> insert (a :: 'a::linorder) (set xs)"
  by (induction xs) (auto simp: min_def)

lemma foldr_min_le: "x \<in> insert a (set xs) \<Longrightarrow> foldr min xs a \<le> (x :: 'a::linorder)"
  by (induction xs) (auto simp: min_le_iff_disj)

lemma foldr_min_last: "xs \<noteq> [] \<Longrightarrow> foldr min xs (last xs) \<in> set (xs :: 'a::linorder list)"
  using foldr_min_in [of xs "last xs"] by auto

interpretation list_heap: min_heap list_heap mset
proof unfold_locales
  fix h :: "64 word list" and m x assume "heap_FindMin list_heap h = Some m" and "x \<in># mset h"
  then show "Uint64_Compare m x \<noteq> 1"
    using foldr_min_le [of x "last h" h] by (auto simp: list_heap_def Uint64_Compare_le split: if_splits)
qed (auto simp: list_heap_def foldr_min_last split: if_splits)

section \<open>Properties\<close>

text \<open>C24: the log pool refines a map from log keys to logs. Whatever sequence of operations is run
  on a new pool, with any heap that meets its contract and in any iteration order of Go's maps, as long as
  each block hash has one number below \<open>2 ^ 63\<close> and no logs are asked for up to the largest \<open>int64\<close>, every
  operation returns, the pool stands for the map that the same operations on a map give, and each
  batch handed out holds exactly the logs the map promises (those up to the given height, or all),
  each of them once.\<close>

theorem pool_refines_map:
  assumes "min_heap H elems" and "pool_orders_ok ords" and "list_all (op_ok num_of) xs"
  shows "\<exists>q outs. run_pool H ords xs (newLogPool H) = Some (q, outs)
    \<and> pool_contents q = foldl (\<lambda>m x. spec_exec x m) Map.empty xs
    \<and> list_all2 delivers outs (spec_outs xs Map.empty)"
  using min_heap.run_pool_refines [OF assms(1,2) min_heap.newLogPool_inv [OF assms(1)] assms(3)]
  by (simp add: min_heap.newLogPool_contents [OF assms(1)]) blast

text \<open>The bound on the height is needed: with the largest \<open>int64\<close> the counter of the loop wraps around.\<close>

theorem send_up_to_max_never_returns:
  "heap_FindMin H (pool_heap p) \<noteq> None \<Longrightarrow> pool_exec H ords (SendUpTo MaxInt64) p = None"
  by (simp add: getLogsToSend_forever)

definition example_log :: Log where
  "example_log = \<lparr>LogAddress = 1, LogTopics = [7], LogData = 0, LogBlockNumber = 5, LogTxIndex = 0,
     LogBlockHash = 50, LogIndex = 2, LogRemoved = False\<rparr>"

lemma example_log_simps [simp]:
  "LogBlockNumber example_log = 5" "LogBlockHash example_log = 50" "log_key example_log = (50, 0, 2)"
  by (simp_all add: example_log_def log_key_def)

theorem pool_refines_map_witness:
  "\<exists>q outs. run_pool list_heap \<lparr>hash_order = rev, tx_order = rev, log_order = \<lambda>xs. xs\<rparr>
       [AddLog example_log, SendUpTo 5, DeleteOlder 6, DeleteAll] (newLogPool list_heap) = Some (q, outs)
    \<and> pool_contents q = Map.empty
    \<and> list_all2 delivers outs [{}, {example_log}, {}, {}]"
proof -
  let ?xs = "[AddLog example_log, SendUpTo 5, DeleteOlder 6, DeleteAll]"
  have "pool_orders_ok \<lparr>hash_order = rev, tx_order = rev, log_order = \<lambda>xs. xs\<rparr>"
    by (simp add: pool_orders_ok_def iteration_order_def)
  moreover have "list_all (op_ok (\<lambda>_. 5)) ?xs"
    by (simp add: is_int64_def MinInt64_def MaxInt64_def)
  moreover have "drop_logs (\<lambda>l. sint (LogBlockNumber l) < 6) [(50, 0, 2) \<mapsto> example_log] = Map.empty"
    by (simp add: drop_logs_def fun_eq_iff)
  then have "foldl (\<lambda>m x. spec_exec x m) Map.empty ?xs = Map.empty"
    and "spec_outs ?xs Map.empty = [{}, {example_log}, {}, {}]"
    by auto
  ultimately show ?thesis
    using pool_refines_map [OF list_heap.min_heap_axioms, of
        "\<lparr>hash_order = rev, tx_order = rev, log_order = \<lambda>xs. xs\<rparr>" "\<lambda>_. 5" ?xs] by simp
qed

end
