(* ===== verification/LogRegistrations.thy ===== *)
theory LogRegistrations
  imports LogPool Heads
begin

text \<open>
  The registrations of the log broadcaster, \<open>core/chains/evm/log/registrations.go\<close>, with the
  listener options and the subscriber of \<open>broadcaster.go\<close>, the broadcast of \<open>models.go\<close> and the
  broadcast keys of \<open>orm.go\<close>. Subscribers are pointers: numbers, with \<open>subs\<close> giving what each
  points to (nothing changes a subscriber after \<open>Register\<close> has built it). Go maps that are ranged
  over or whose length is taken are association lists with distinct keys; the order in which a loop
  meets them is an argument. A failed sanity check ends in \<open>logger.Panicw\<close> and is a value \<open>Panic\<close>.
\<close>

section \<open>Data\<close>

type_synonym topic_filters = "nat list list"

record subscriber =
  JobID :: int
  Contract :: nat
  LogsWithTopics :: "(nat \<times> topic_filters) list"
  ParseLog :: "Log \<Rightarrow> nat option"
  MinIncomingConfirmations :: "32 word"
  hasReplayStartedCallback :: bool

type_synonym sub_map = "(nat \<times> topic_filters) list"

record handler =
  lookupSubs :: "(nat \<times> (nat \<times> sub_map) list) list"

record registrations =
  registeredSubs :: "nat list"
  jobIDAddrs :: "int \<Rightarrow> nat list option"
  handlersByConfs :: "(32 word \<times> handler) list"
  highestNumConfirmations :: "32 word"

definition newRegistrations :: registrations where
  "newRegistrations =
     \<lparr>registeredSubs = [], jobIDAddrs = Map.empty, handlersByConfs = [], highestNumConfirmations = 0\<rparr>"

definition newHandler :: handler where
  "newHandler = \<lparr>lookupSubs = []\<rparr>"

record LogBroadcastAsKey =
  key_BlockHash :: nat
  key_LogIndex :: nat
  key_JobId :: int

definition NewLogBroadcastAsKey :: "Log \<Rightarrow> int \<Rightarrow> LogBroadcastAsKey" where
  "NewLogBroadcastAsKey l jobID = \<lparr>key_BlockHash = LogBlockHash l, key_LogIndex = LogIndex l, key_JobId = jobID\<rparr>"

record broadcast =
  latestBlockNumber :: "64 word"
  latestBlockHash :: nat
  decodedLog :: nat
  rawLog :: Log
  jobID :: int

section \<open>A handler: the subscribers at one number of confirmations\<close>

definition lookup_topic :: "handler \<Rightarrow> nat \<Rightarrow> nat \<Rightarrow> sub_map option" where
  "lookup_topic h addr topic = map_of (map_get [] (map_of (lookupSubs h)) addr) topic"

fun handler_add_topics ::
    "nat \<Rightarrow> nat \<Rightarrow> handler list \<Rightarrow> (nat \<times> topic_filters) list \<Rightarrow> handler \<Rightarrow> bool \<Rightarrow> handler \<times> bool" where
  "handler_add_topics sub addr greaterConfs [] h needsResubscribe = (h, needsResubscribe)"
| "handler_add_topics sub addr greaterConfs ((topic, filters) # rest) h needsResubscribe =
     (let topics = map_get [] (map_of (lookupSubs h)) addr;
          needs = (if map_of topics topic = None \<and> \<not> needsResubscribe
                   then (if \<exists>g\<in>set greaterConfs. lookup_topic g addr topic \<noteq> None then needsResubscribe else True)
                   else needsResubscribe);
          subs = map_get [] (map_of topics) topic
      in handler_add_topics sub addr greaterConfs rest
           (h\<lparr>lookupSubs := assoc_put addr (assoc_put topic (assoc_put sub filters subs) topics) (lookupSubs h)\<rparr>)
           needs)"

definition handler_addSubscriber ::
    "((nat \<times> topic_filters) list \<Rightarrow> (nat \<times> topic_filters) list) \<Rightarrow> (nat \<Rightarrow> subscriber) \<Rightarrow> nat \<Rightarrow> handler list
      \<Rightarrow> handler \<Rightarrow> (handler \<times> bool) run" where
  "handler_addSubscriber ord subs sub greaterConfs h =
     (let addr = Contract (subs sub)
      in if MinIncomingConfirmations (subs sub) \<le> 0
         then Panic ''LogBroadcaster requires that MinIncomingConfirmations must be at least 1''
         else Ret (handler_add_topics sub addr greaterConfs (ord (LogsWithTopics (subs sub)))
                (if map_of (lookupSubs h) addr = None
                 then h\<lparr>lookupSubs := assoc_put addr [] (lookupSubs h)\<rparr> else h) False))"

fun handler_remove_topics ::
    "nat \<Rightarrow> nat \<Rightarrow> 32 word \<Rightarrow> (32 word \<times> handler) list \<Rightarrow> nat list \<Rightarrow> handler \<Rightarrow> bool
      \<Rightarrow> (handler \<times> bool) run" where
  "handler_remove_topics sub addr confs allHandlers [] h needsResubscribe = Ret (h, needsResubscribe)"
| "handler_remove_topics sub addr confs allHandlers (topic # rest) h needsResubscribe =
     (case map_of (lookupSubs h) addr of
        None \<Rightarrow> Panic ''AssumptionViolation: expected lookupSubs to contain addr''
      | Some addrTopics \<Rightarrow>
          (case map_of addrTopics topic of
             None \<Rightarrow> Panic ''AssumptionViolation: expected addrTopics to contain topic''
           | Some topicMap \<Rightarrow>
               if map_of topicMap sub = None
               then Panic ''AssumptionViolation: expected topicMap to contain subscriber''
               else (let topicMap' = assoc_del sub topicMap;
                         needs = (if topicMap' = [] \<and> \<not> needsResubscribe
                                  then (if \<exists>(c, g)\<in>set allHandlers. c \<noteq> confs \<and> lookup_topic g addr topic \<noteq> None
                                        then needsResubscribe else True)
                                  else needsResubscribe);
                         addrTopics' = (if topicMap' = [] then assoc_del topic addrTopics
                                        else assoc_put topic topicMap' addrTopics);
                         lookup' = (if addrTopics' = [] then assoc_del addr (lookupSubs h)
                                    else assoc_put addr addrTopics' (lookupSubs h))
                     in handler_remove_topics sub addr confs allHandlers rest (h\<lparr>lookupSubs := lookup'\<rparr>) needs)))"

definition handler_removeSubscriber ::
    "((nat \<times> topic_filters) list \<Rightarrow> (nat \<times> topic_filters) list) \<Rightarrow> (nat \<Rightarrow> subscriber) \<Rightarrow> nat
      \<Rightarrow> (32 word \<times> handler) list \<Rightarrow> handler \<Rightarrow> (handler \<times> bool) run" where
  "handler_removeSubscriber ord subs sub allHandlers h =
     handler_remove_topics sub (Contract (subs sub)) (MinIncomingConfirmations (subs sub)) allHandlers
       (map fst (ord (LogsWithTopics (subs sub)))) h False"

definition handler_addressesAndTopics :: "handler \<Rightarrow> nat list \<times> nat list" where
  "handler_addressesAndTopics h =
     (map fst (lookupSubs h), concat (map (\<lambda>(addr, topics). map fst topics) (lookupSubs h)))"

definition handler_isAddressRegistered :: "nat \<Rightarrow> handler \<Rightarrow> bool" where
  "handler_isAddressRegistered addr h \<longleftrightarrow> map_of (lookupSubs h) addr \<noteq> None"

section \<open>The registrations\<close>

definition checkAddSubscriber :: "(nat \<Rightarrow> subscriber) \<Rightarrow> nat \<Rightarrow> registrations \<Rightarrow> string option \<times> registrations" where
  "checkAddSubscriber subs sub r =
     (let job = JobID (subs sub); addr = Contract (subs sub) in
      if MinIncomingConfirmations (subs sub) \<le> 0
      then (Some ''LogBroadcaster requires that MinIncomingConfirmations must be at least 1'', r)
      else if sub \<in> set (registeredSubs r) then (Some ''Cannot add subscriber: already added'', r)
      else (let r1 = r\<lparr>registeredSubs := registeredSubs r @ [sub]\<rparr>;
                addrs = map_get [] (jobIDAddrs r1) job;
                r2 = (if jobIDAddrs r1 job = None then r1\<lparr>jobIDAddrs := (jobIDAddrs r1)(job \<mapsto> [])\<rparr> else r1)
            in if addr \<in> set addrs
               then (Some ''Cannot add subscriber: only one subscription is allowed per jobID/contract address'', r2)
               else (None, r2\<lparr>jobIDAddrs := (jobIDAddrs r2)(job \<mapsto> addrs @ [addr])\<rparr>)))"

definition handlersWithGreaterConfs :: "32 word \<Rightarrow> registrations \<Rightarrow> handler list" where
  "handlersWithGreaterConfs confs r = map snd (filter (\<lambda>(hConfs, h). hConfs > confs) (handlersByConfs r))"

definition addSubscriber ::
    "((nat \<times> topic_filters) list \<Rightarrow> (nat \<times> topic_filters) list) \<Rightarrow> (nat \<Rightarrow> subscriber) \<Rightarrow> nat
      \<Rightarrow> registrations \<Rightarrow> (registrations \<times> bool) run" where
  "addSubscriber ord subs sub r =
     (case checkAddSubscriber subs sub r of
        (Some err, r1) \<Rightarrow> Panic err
      | (None, r1) \<Rightarrow>
          (let confs = MinIncomingConfirmations (subs sub);
               r2 = (if map_of (handlersByConfs r1) confs = None
                     then r1\<lparr>handlersByConfs := assoc_put confs newHandler (handlersByConfs r1)\<rparr> else r1);
               h = the (map_of (handlersByConfs r2) confs)
           in run_map (\<lambda>(h', needsResubscribe).
                let r3 = r2\<lparr>handlersByConfs := assoc_put confs h' (handlersByConfs r2)\<rparr>
                in (if confs > highestNumConfirmations r3 then r3\<lparr>highestNumConfirmations := confs\<rparr> else r3,
                    needsResubscribe))
              (handler_addSubscriber ord subs sub (handlersWithGreaterConfs confs r2) h)))"

definition checkRemoveSubscriber :: "(nat \<Rightarrow> subscriber) \<Rightarrow> nat \<Rightarrow> registrations \<Rightarrow> string option \<times> registrations" where
  "checkRemoveSubscriber subs sub r =
     (let job = JobID (subs sub); addr = Contract (subs sub) in
      if sub \<notin> set (registeredSubs r) then (Some ''Cannot remove subscriber: not registered'', r)
      else (let r1 = r\<lparr>registeredSubs := removeAll sub (registeredSubs r)\<rparr> in
        case jobIDAddrs r1 job of
          None \<Rightarrow> (Some ''Cannot remove subscriber: jobIDAddrs was missing job ID'', r1)
        | Some addrs \<Rightarrow>
            if addr \<notin> set addrs then (Some ''Cannot remove subscriber: jobIDAddrs was missing address'', r1)
            else (None, r1\<lparr>jobIDAddrs := (jobIDAddrs r1)
                    (job := (if removeAll addr addrs = [] then None else Some (removeAll addr addrs)))\<rparr>)))"

definition resetHighestNumConfirmationsValue :: "registrations \<Rightarrow> registrations" where
  "resetHighestNumConfirmationsValue r =
     r\<lparr>highestNumConfirmations := foldl (\<lambda>highest (c, h). if c > highest then c else highest) 0 (handlersByConfs r)\<rparr>"

definition removeSubscriber ::
    "((nat \<times> topic_filters) list \<Rightarrow> (nat \<times> topic_filters) list) \<Rightarrow> (nat \<Rightarrow> subscriber) \<Rightarrow> nat
      \<Rightarrow> registrations \<Rightarrow> (registrations \<times> bool) run" where
  "removeSubscriber ord subs sub r =
     (case checkRemoveSubscriber subs sub r of
        (Some err, r1) \<Rightarrow> Panic err
      | (None, r1) \<Rightarrow>
          (let confs = MinIncomingConfirmations (subs sub) in
           case map_of (handlersByConfs r1) confs of
             None \<Rightarrow> Ret (r1, False)
           | Some h \<Rightarrow>
               run_map (\<lambda>(h', needsResubscribe).
                 let r2 = r1\<lparr>handlersByConfs := assoc_put confs h' (handlersByConfs r1)\<rparr>
                 in (if lookupSubs h' = []
                     then resetHighestNumConfirmationsValue
                            (r2\<lparr>handlersByConfs := assoc_del confs (handlersByConfs r2)\<rparr>)
                     else r2, needsResubscribe))
                 (handler_removeSubscriber ord subs sub (handlersByConfs r1) h)))"

definition addressesAndTopics :: "registrations \<Rightarrow> nat list \<times> nat list" where
  "addressesAndTopics r =
     (concat (map (\<lambda>(c, h). fst (handler_addressesAndTopics h)) (handlersByConfs r)),
      concat (map (\<lambda>(c, h). snd (handler_addressesAndTopics h)) (handlersByConfs r)))"

definition isAddressRegistered :: "nat \<Rightarrow> registrations \<Rightarrow> bool" where
  "isAddressRegistered addr r \<longleftrightarrow> (\<exists>(c, h)\<in>set (handlersByConfs r). handler_isAddressRegistered addr h)"

section \<open>Sending logs\<close>

fun filtersContainValues :: "nat list \<Rightarrow> topic_filters \<Rightarrow> bool" where
  "filtersContainValues (v # vs) (fs # filters) =
     (if fs = [] \<or> v \<in> set fs then filtersContainValues vs filters else False)"
| "filtersContainValues _ _ = True"

text \<open>\<open>create\<close> is \<open>CreateBroadcast\<close> of the ORM on a database state: whether it succeeded, and the
  state after it. The handlers of one log run in goroutines that are all awaited; the result lists the
  calls of \<open>HandleLog\<close>.\<close>

type_synonym 'db creator = "nat \<Rightarrow> 64 word \<Rightarrow> nat \<Rightarrow> int \<Rightarrow> 'db \<Rightarrow> bool \<times> 'db"

fun send_to_subs ::
    "(nat \<Rightarrow> subscriber) \<Rightarrow> Log \<Rightarrow> Head \<Rightarrow> (LogBroadcastAsKey \<Rightarrow> bool option) \<Rightarrow> 'db creator
      \<Rightarrow> sub_map \<Rightarrow> 'db \<Rightarrow> (nat \<times> broadcast) list \<times> 'db" where
  "send_to_subs subs l latestHead broadcasts create [] db = ([], db)"
| "send_to_subs subs l latestHead broadcasts create ((sub, filters) # rest) db =
     (let job = JobID (subs sub);
          existing = broadcasts (NewLogBroadcastAsKey l job);
          skip = send_to_subs subs l latestHead broadcasts create rest db
      in if existing = Some True then skip
         else if filters \<noteq> [] \<and> length (LogTopics l) > 1 \<and> \<not> filtersContainValues (tl (LogTopics l)) filters then skip
         else (case ParseLog (subs sub) l of
            None \<Rightarrow> skip
          | Some decoded \<Rightarrow>
              (let (ok, db1) = (if existing = None
                                then create (LogBlockHash l) (LogBlockNumber l) (LogIndex l) job db else (True, db))
               in if \<not> ok then send_to_subs subs l latestHead broadcasts create rest db1
                  else (let (sent, db2) = send_to_subs subs l latestHead broadcasts create rest db1
                        in ((sub, \<lparr>latestBlockNumber = word_of_int (Number latestHead),
                                   latestBlockHash = Hash latestHead, decodedLog = decoded,
                                   rawLog = l, jobID = job\<rparr>) # sent, db2)))))"

definition handler_sendLog ::
    "(sub_map \<Rightarrow> sub_map) \<Rightarrow> (nat \<Rightarrow> subscriber) \<Rightarrow> Log \<Rightarrow> Head \<Rightarrow> (LogBroadcastAsKey \<Rightarrow> bool option)
      \<Rightarrow> 'db creator \<Rightarrow> handler \<Rightarrow> 'db \<Rightarrow> ((nat \<times> broadcast) list \<times> 'db) run" where
  "handler_sendLog ord subs l latestHead broadcasts create h db =
     (case LogTopics l of
        [] \<Rightarrow> Panic ''index out of range [0] with length 0''
      | topic # _ \<Rightarrow>
          Ret (send_to_subs subs l latestHead broadcasts create
                 (ord (map_get [] (lookup_topic h (LogAddress l)) topic)) db))"

fun send_each_log ::
    "(Log \<Rightarrow> 'db \<Rightarrow> ((nat \<times> broadcast) list \<times> 'db) run) \<Rightarrow> Log list \<Rightarrow> 'db
      \<Rightarrow> ((nat \<times> broadcast) list \<times> 'db) run" where
  "send_each_log f [] db = Ret ([], db)"
| "send_each_log f (l # ls) db =
     run_bind (f l db) (\<lambda>(sent, db1). run_map (\<lambda>(sent', db2). (sent @ sent', db2)) (send_each_log f ls db1))"

definition isOldEnough :: "32 word \<Rightarrow> 64 word \<Rightarrow> 64 word \<Rightarrow> bool" where
  "isOldEnough numConfirmations blockNumber latest \<longleftrightarrow>
     \<not> (numConfirmations \<noteq> 0 \<and> latest < ucast numConfirmations)
     \<and> (numConfirmations = 0 \<or> blockNumber + ucast numConfirmations - 1 \<le> latest)"

fun send_to_handlers ::
    "(handler \<Rightarrow> Log \<Rightarrow> 'db \<Rightarrow> ((nat \<times> broadcast) list \<times> 'db) run) \<Rightarrow> 64 word \<Rightarrow> logsOnBlock
      \<Rightarrow> (32 word \<times> handler) list \<Rightarrow> 'db \<Rightarrow> ((nat \<times> broadcast) list \<times> 'db) run" where
  "send_to_handlers f latest b [] db = Ret ([], db)"
| "send_to_handlers f latest b ((confs, h) # hs) db =
     run_bind (if isOldEnough confs (BlockNumber b) latest then send_each_log (f h) (Logs b) db else Ret ([], db))
       (\<lambda>(sent, db1). run_map (\<lambda>(sent', db2). (sent @ sent', db2)) (send_to_handlers f latest b hs db1))"

fun send_blocks ::
    "(handler \<Rightarrow> Log \<Rightarrow> 'db \<Rightarrow> ((nat \<times> broadcast) list \<times> 'db) run) \<Rightarrow> 64 word
      \<Rightarrow> (32 word \<times> handler) list \<Rightarrow> logsOnBlock list \<Rightarrow> 'db \<Rightarrow> ((nat \<times> broadcast) list \<times> 'db) run" where
  "send_blocks f latest handlers [] db = Ret ([], db)"
| "send_blocks f latest handlers (b # bs) db =
     run_bind (send_to_handlers f latest b handlers db)
       (\<lambda>(sent, db1). run_map (\<lambda>(sent', db2). (sent @ sent', db2)) (send_blocks f latest handlers bs db1))"

record LogBroadcast =
  lb_BlockHash :: nat
  lb_Consumed :: bool
  lb_LogIndex :: nat
  lb_JobID :: int

definition AsKey :: "LogBroadcast \<Rightarrow> LogBroadcastAsKey" where
  "AsKey b = \<lparr>key_BlockHash = lb_BlockHash b, key_LogIndex = lb_LogIndex b, key_JobId = lb_JobID b\<rparr>"

definition sendLogs ::
    "((32 word \<times> handler) list \<Rightarrow> (32 word \<times> handler) list) \<Rightarrow> (sub_map \<Rightarrow> sub_map) \<Rightarrow> (nat \<Rightarrow> subscriber)
      \<Rightarrow> logsOnBlock list \<Rightarrow> Head \<Rightarrow> LogBroadcast list \<Rightarrow> 'db creator \<Rightarrow> registrations \<Rightarrow> 'db
      \<Rightarrow> ((nat \<times> broadcast) list \<times> 'db) run" where
  "sendLogs ordH ordS subs logsToSend latestHead broadcasts create r db =
     (let broadcastsExisting = foldl (\<lambda>m b. m(AsKey b \<mapsto> lb_Consumed b)) Map.empty broadcasts
      in send_blocks (\<lambda>h l. handler_sendLog ordS subs l latestHead broadcastsExisting create h)
           (word_of_int (Number latestHead)) (ordH (handlersByConfs r)) logsToSend db)"

section \<open>A handler as a table of filters\<close>

definition sub_get :: "handler \<Rightarrow> nat \<Rightarrow> nat \<Rightarrow> nat \<Rightarrow> topic_filters option" where
  "sub_get h a t s = (case lookup_topic h a t of None \<Rightarrow> None | Some m \<Rightarrow> map_of m s)"

definition topics_wf :: "(nat \<times> sub_map) list \<Rightarrow> bool" where
  "topics_wf ts \<longleftrightarrow> distinct (map fst ts) \<and> (\<forall>t m. map_of ts t = Some m \<longrightarrow> distinct (map fst m) \<and> m \<noteq> [])"

definition handler_wf :: "handler \<Rightarrow> bool" where
  "handler_wf h \<longleftrightarrow> distinct (map fst (lookupSubs h)) \<and>
     (\<forall>a ts. map_of (lookupSubs h) a = Some ts \<longrightarrow> topics_wf ts)"

definition handler_full :: "handler \<Rightarrow> bool" where
  "handler_full h \<longleftrightarrow> (\<forall>a. map_of (lookupSubs h) a \<noteq> Some [])"

lemma topics_wf_Nil [simp]: "topics_wf []"
  by (simp add: topics_wf_def)

lemma handler_wf_topics [simp]: "handler_wf h \<Longrightarrow> topics_wf (map_get [] (map_of (lookupSubs h)) a)"
  by (cases "map_of (lookupSubs h) a") (auto simp: handler_wf_def)

lemma map_of_not_Nil: "m \<noteq> [] \<Longrightarrow> \<exists>k v. map_of m k = Some v"
  by (cases m) auto

lemma assoc_put_not_Nil [simp]: "assoc_put k v m \<noteq> []"
  by (induction k v m rule: assoc_put.induct) auto

lemma assoc_del_Nil_iff: "assoc_del k m = [] \<longleftrightarrow> (\<forall>k'. k' \<noteq> k \<longrightarrow> map_of m k' = None)"
proof
  assume "assoc_del k m = []"
  then have "map_of (assoc_del k m) k' = None" for k' by simp
  then show "\<forall>k'. k' \<noteq> k \<longrightarrow> map_of m k' = None" by (metis fun_upd_other map_of_assoc_del)
next
  assume "\<forall>k'. k' \<noteq> k \<longrightarrow> map_of m k' = None"
  then have "map_of (assoc_del k m) k' = None" for k' by simp
  then show "assoc_del k m = []" using map_of_not_Nil by (metis option.distinct(1))
qed

lemma topics_wf_put: "topics_wf ts \<Longrightarrow> distinct (map fst m) \<Longrightarrow> m \<noteq> [] \<Longrightarrow> topics_wf (assoc_put t m ts)"
  by (simp add: topics_wf_def)

lemma topics_wf_del: "topics_wf ts \<Longrightarrow> topics_wf (assoc_del t ts)"
  by (simp add: topics_wf_def)

lemma handler_wf_put:
  "handler_wf h \<Longrightarrow> topics_wf ts \<Longrightarrow> handler_wf (h\<lparr>lookupSubs := assoc_put a ts (lookupSubs h)\<rparr>)"
  by (simp add: handler_wf_def)

lemma handler_wf_del: "handler_wf h \<Longrightarrow> handler_wf (h\<lparr>lookupSubs := assoc_del a (lookupSubs h)\<rparr>)"
  by (simp add: handler_wf_def)

lemma topics_wf_subs: "topics_wf ts \<Longrightarrow> distinct (map fst (map_get [] (map_of ts) t))"
  by (cases "map_of ts t") (auto simp: topics_wf_def)

lemma lookup_topic_iff:
  assumes "handler_wf h"
  shows "lookup_topic h a t \<noteq> None \<longleftrightarrow> (\<exists>s. sub_get h a t s \<noteq> None)"
proof (cases "lookup_topic h a t")
  case (Some m)
  then have "m \<noteq> []"
    using handler_wf_topics [OF assms, of a] by (auto simp: lookup_topic_def topics_wf_def)
  with Some show ?thesis using map_of_not_Nil [of m] by (auto simp: sub_get_def)
qed (simp add: sub_get_def)

lemma lookup_topic_put:
  "lookup_topic (h\<lparr>lookupSubs := assoc_put a (assoc_put t m (map_get [] (map_of (lookupSubs h)) a)) (lookupSubs h)\<rparr>) a' t'
     = (if (a', t') = (a, t) then Some m else lookup_topic h a' t')"
  by (simp add: lookup_topic_def)

lemma handler_add_topics_correct:
  assumes "handler_add_topics sub addr greaterConfs topics h needs = (h', needs')"
    and "handler_wf h" and "distinct (map fst topics)"
  shows "handler_wf h' \<and>
    (\<forall>a t s. sub_get h' a t s =
       (if a = addr \<and> s = sub \<and> map_of topics t \<noteq> None then map_of topics t else sub_get h a t s)) \<and>
    (needs' \<longleftrightarrow> needs \<or> (\<exists>t. map_of topics t \<noteq> None \<and> lookup_topic h addr t = None
        \<and> (\<forall>g\<in>set greaterConfs. lookup_topic g addr t = None))) \<and>
    (topics = [] \<longrightarrow> h' = h) \<and>
    (\<forall>a. a \<noteq> addr \<longrightarrow> map_of (lookupSubs h') a = map_of (lookupSubs h) a) \<and>
    (topics \<noteq> [] \<longrightarrow> map_of (lookupSubs h') addr \<noteq> Some [])"
  using assms
proof (induction sub addr greaterConfs topics h needs rule: handler_add_topics.induct)
  case (2 sub addr gs topic filters rest h needs)
  let ?ts = "map_get [] (map_of (lookupSubs h)) addr"
  let ?m = "assoc_put sub filters (map_get [] (map_of ?ts) topic)"
  let ?h = "h\<lparr>lookupSubs := assoc_put addr (assoc_put topic ?m ?ts) (lookupSubs h)\<rparr>"
  let ?needs = "if map_of ?ts topic = None \<and> \<not> needs
    then (if \<exists>g\<in>set gs. lookup_topic g addr topic \<noteq> None then needs else True) else needs"
  have step: "handler_add_topics sub addr gs rest ?h ?needs = (h', needs')"
    using "2.prems"(1) by (simp add: Let_def)
  have wf: "handler_wf ?h"
    using "2.prems"(2) by (intro handler_wf_put topics_wf_put) (simp_all add: topics_wf_subs)
  have rest: "distinct (map fst rest)" "map_of rest topic = None"
    using "2.prems"(3) by (auto simp: map_of_eq_None_iff)
  note IH = "2.IH" [OF refl refl refl step wf rest(1)]
  have get: "sub_get ?h a t s = (if (a, t, s) = (addr, topic, sub) then Some filters else sub_get h a t s)" for a t s
    unfolding sub_get_def lookup_topic_put
    by (auto simp: lookup_topic_def map_get_def split: option.splits)
  have topic: "lookup_topic ?h addr t = None \<longleftrightarrow> t \<noteq> topic \<and> lookup_topic h addr t = None" for t
    unfolding lookup_topic_put by simp
  have ts: "map_of ?ts topic = lookup_topic h addr topic" by (simp add: lookup_topic_def)
  have needs: "needs' \<longleftrightarrow> needs \<or> (\<exists>t. map_of ((topic, filters) # rest) t \<noteq> None \<and> lookup_topic h addr t = None
        \<and> (\<forall>g\<in>set gs. lookup_topic g addr t = None))"
    using IH rest(2) unfolding topic ts by (auto split: if_splits)
  have get': "sub_get h' a t s = (if a = addr \<and> s = sub \<and> map_of ((topic, filters) # rest) t \<noteq> None
      then map_of ((topic, filters) # rest) t else sub_get h a t s)" for a t s
    using IH rest(2) unfolding get by auto
  have full: "map_of (lookupSubs h') addr \<noteq> Some []"
    using IH by (cases "rest = []") auto
  have other: "map_of (lookupSubs h') a = map_of (lookupSubs h) a" if "a \<noteq> addr" for a
    using IH that by simp
  have "handler_wf h'" using IH by (rule conjunct1)
  with needs get' full other show ?case by (simp del: map_of.simps not_None_eq)
qed simp

lemma sub_get_alt:
  "sub_get h a t s = map_of (map_get [] (map_of (map_get [] (map_of (lookupSubs h)) a)) t) s"
  by (simp add: sub_get_def lookup_topic_def map_get_def split: option.splits)

lemma map_get_prune:
  "map_get [] (map_of (if v = [] then assoc_del k m else assoc_put k v m)) k' =
     (if k' = k then v else map_get [] (map_of m) k')"
  by (simp add: map_get_def)

lemma remove_one:
  assumes wf: "handler_wf h" and full: "handler_full h"
    and ts: "map_of (lookupSubs h) addr = Some ts" and m: "map_of ts topic = Some m"
    and m': "m' = assoc_del sub m"
    and ts': "ts' = (if m' = [] then assoc_del topic ts else assoc_put topic m' ts)"
    and h1: "h1 = h\<lparr>lookupSubs := (if ts' = [] then assoc_del addr (lookupSubs h) else assoc_put addr ts' (lookupSubs h))\<rparr>"
  shows "handler_wf h1" "handler_full h1"
    "sub_get h1 a t s = (if (a, t, s) = (addr, topic, sub) then None else sub_get h a t s)"
proof -
  have "topics_wf ts" using wf ts by (auto simp: handler_wf_def)
  moreover from this have "distinct (map fst m')" using m unfolding m' topics_wf_def by simp
  ultimately have "topics_wf ts'"
    unfolding ts' by (cases "m' = []") (simp_all add: topics_wf_del topics_wf_put)
  then show "handler_wf h1"
    unfolding h1 using wf by (auto intro: handler_wf_put handler_wf_del)
  show "handler_full h1"
    unfolding h1 handler_full_def using full by (auto simp: handler_full_def)
  have outer: "map_get [] (map_of (lookupSubs h1)) a' = (if a' = addr then ts' else map_get [] (map_of (lookupSubs h)) a')" for a'
    using map_get_prune [of ts' addr "lookupSubs h" a'] by (simp add: h1)
  have inner: "map_get [] (map_of ts') t' = (if t' = topic then m' else map_get [] (map_of ts) t')" for t'
    unfolding ts' by (rule map_get_prune)
  show "sub_get h1 a t s = (if (a, t, s) = (addr, topic, sub) then None else sub_get h a t s)"
    unfolding sub_get_alt outer
    by (cases "a = addr"; cases "t = topic"; cases "s = sub") (simp_all add: inner ts m m')
qed

lemma handler_remove_topics_correct:
  assumes "handler_wf h" and "handler_full h" and "distinct topics"
    and "\<And>t. t \<in> set topics \<Longrightarrow> sub_get h addr t sub \<noteq> None"
  shows "\<exists>h' needs'. handler_remove_topics sub addr confs allHandlers topics h needs = Ret (h', needs')
    \<and> handler_wf h' \<and> handler_full h'
    \<and> (\<forall>a t s. sub_get h' a t s = (if a = addr \<and> s = sub \<and> t \<in> set topics then None else sub_get h a t s))
    \<and> (needs' \<longleftrightarrow> needs \<or> (\<exists>t\<in>set topics. (\<forall>s. s \<noteq> sub \<longrightarrow> sub_get h addr t s = None)
          \<and> (\<forall>(c, g)\<in>set allHandlers. c \<noteq> confs \<longrightarrow> lookup_topic g addr t = None)))"
  using assms
proof (induction topics arbitrary: h needs)
  case (Cons topic rest)
  obtain f where "sub_get h addr topic sub = Some f" using Cons.prems(4) [of topic] by auto
  then obtain ts m where ts: "map_of (lookupSubs h) addr = Some ts" and m: "map_of ts topic = Some m"
    and f: "map_of m sub = Some f"
    by (auto simp: sub_get_def lookup_topic_def map_get_def split: option.splits)
  define m' where "m' = assoc_del sub m"
  define ts' where "ts' = (if m' = [] then assoc_del topic ts else assoc_put topic m' ts)"
  define h1 where "h1 = h\<lparr>lookupSubs := (if ts' = [] then assoc_del addr (lookupSubs h) else assoc_put addr ts' (lookupSubs h))\<rparr>"
  define needs1 where "needs1 = (if m' = [] \<and> \<not> needs
    then (if \<exists>(c, g)\<in>set allHandlers. c \<noteq> confs \<and> lookup_topic g addr topic \<noteq> None then needs else True) else needs)"
  note one = remove_one [OF Cons.prems(1,2) ts m m'_def ts'_def h1_def]
  have step: "handler_remove_topics sub addr confs allHandlers (topic # rest) h needs
      = handler_remove_topics sub addr confs allHandlers rest h1 needs1"
    using ts m f unfolding h1_def ts'_def m'_def needs1_def by (simp add: Let_def)
  have sub: "sub_get h1 addr t sub \<noteq> None" if "t \<in> set rest" for t
    using that Cons.prems(3,4) unfolding one(3) by auto
  have others: "(\<forall>s. s \<noteq> sub \<longrightarrow> sub_get h1 addr t s = None) \<longleftrightarrow> (\<forall>s. s \<noteq> sub \<longrightarrow> sub_get h addr t s = None)" for t
    unfolding one(3) by auto
  have "m' = [] \<longleftrightarrow> (\<forall>s. s \<noteq> sub \<longrightarrow> sub_get h addr topic s = None)"
    unfolding m'_def assoc_del_Nil_iff by (simp add: sub_get_alt ts m)
  then have needs1: "needs1 \<longleftrightarrow> needs \<or> ((\<forall>s. s \<noteq> sub \<longrightarrow> sub_get h addr topic s = None)
      \<and> (\<forall>(c, g)\<in>set allHandlers. c \<noteq> confs \<longrightarrow> lookup_topic g addr topic = None))"
    unfolding needs1_def by (cases needs) (auto simp: case_prod_beta)
  have "distinct rest" using Cons.prems(3) by simp
  from Cons.IH [OF one(1,2) this sub] obtain h' needs' where
    IH: "handler_remove_topics sub addr confs allHandlers rest h1 needs1 = Ret (h', needs')"
      "handler_wf h'" "handler_full h'"
      "\<And>a t s. sub_get h' a t s = (if a = addr \<and> s = sub \<and> t \<in> set rest then None else sub_get h1 a t s)"
      "needs' \<longleftrightarrow> needs1 \<or> (\<exists>t\<in>set rest. (\<forall>s. s \<noteq> sub \<longrightarrow> sub_get h1 addr t s = None)
          \<and> (\<forall>(c, g)\<in>set allHandlers. c \<noteq> confs \<longrightarrow> lookup_topic g addr t = None))"
    by blast
  have "needs' \<longleftrightarrow> needs \<or> (\<exists>t\<in>set (topic # rest). (\<forall>s. s \<noteq> sub \<longrightarrow> sub_get h addr t s = None)
          \<and> (\<forall>(c, g)\<in>set allHandlers. c \<noteq> confs \<longrightarrow> lookup_topic g addr t = None))"
    unfolding IH(5) needs1 others by (simp add: disj_assoc)
  moreover have "sub_get h' a t s = (if a = addr \<and> s = sub \<and> t \<in> set (topic # rest) then None else sub_get h a t s)" for a t s
    unfolding IH(4) one(3) by auto
  ultimately show ?case unfolding step IH(1) using IH(2,3) by blast
qed simp

section \<open>The registrations as a set of subscribers\<close>

definition reg_get :: "registrations \<Rightarrow> 32 word \<Rightarrow> nat \<Rightarrow> nat \<Rightarrow> nat \<Rightarrow> topic_filters option" where
  "reg_get r c a t s = (case map_of (handlersByConfs r) c of None \<Rightarrow> None | Some h \<Rightarrow> sub_get h a t s)"

text \<open>The filters a set of subscribers asks for.\<close>

definition sub_ok :: "subscriber \<Rightarrow> bool" where
  "sub_ok s \<longleftrightarrow> MinIncomingConfirmations s \<noteq> 0 \<and> LogsWithTopics s \<noteq> [] \<and> distinct (map fst (LogsWithTopics s))"

definition wanted :: "(nat \<Rightarrow> subscriber) \<Rightarrow> nat set \<Rightarrow> 32 word \<Rightarrow> nat \<Rightarrow> nat \<Rightarrow> nat \<Rightarrow> topic_filters option" where
  "wanted subs S c a t s =
     (if s \<in> S \<and> MinIncomingConfirmations (subs s) = c \<and> Contract (subs s) = a
      then map_of (LogsWithTopics (subs s)) t else None)"

definition reg_inv :: "(nat \<Rightarrow> subscriber) \<Rightarrow> registrations \<Rightarrow> bool" where
  "reg_inv subs r \<longleftrightarrow>
     distinct (registeredSubs r) \<and> (\<forall>s\<in>set (registeredSubs r). sub_ok (subs s)) \<and>
     inj_on (\<lambda>s. (JobID (subs s), Contract (subs s))) (set (registeredSubs r)) \<and>
     (\<forall>j a. a \<in> set (map_get [] (jobIDAddrs r) j) \<longleftrightarrow>
        (\<exists>s\<in>set (registeredSubs r). JobID (subs s) = j \<and> Contract (subs s) = a)) \<and>
     distinct (map fst (handlersByConfs r)) \<and>
     (\<forall>c h. map_of (handlersByConfs r) c = Some h \<longrightarrow> handler_wf h \<and> handler_full h \<and> lookupSubs h \<noteq> []) \<and>
     reg_get r = wanted subs (set (registeredSubs r)) \<and>
     highestNumConfirmations r = Max (insert 0 (fst ` set (handlersByConfs r)))"

lemma map_of_order:
  assumes "mset ys = mset xs" and "distinct (map fst xs)"
  shows "map_of ys = map_of xs" "distinct (map fst ys)" "ys = [] \<longleftrightarrow> xs = []"
proof -
  have "set ys = set xs" using assms(1) by (metis set_mset_mset)
  moreover show d: "distinct (map fst ys)"
    using assms by (metis mset_eq_imp_distinct_iff mset_map)
  ultimately show "map_of ys = map_of xs"
    using map_of_inject_set [OF d assms(2)] by simp
  show "ys = [] \<longleftrightarrow> xs = []" using assms(1) by (metis mset_zero_iff)
qed

lemma reg_inv_handler:
  assumes "reg_inv subs r" and "map_of (handlersByConfs r) c = Some h"
  shows "handler_wf h" "handler_full h" "lookupSubs h \<noteq> []"
    "sub_get h a t s = wanted subs (set (registeredSubs r)) c a t s"
proof -
  have "reg_get r c a t s = wanted subs (set (registeredSubs r)) c a t s" and
    h: "handler_wf h" "handler_full h" "lookupSubs h \<noteq> []"
    using assms unfolding reg_inv_def by (simp_all add: fun_eq_iff)
  then show "handler_wf h" "handler_full h" "lookupSubs h \<noteq> []"
    "sub_get h a t s = wanted subs (set (registeredSubs r)) c a t s"
    using assms(2) by (simp_all add: reg_get_def)
qed

lemma reg_inv_no_handler:
  assumes "reg_inv subs r" and "map_of (handlersByConfs r) c = None"
  shows "wanted subs (set (registeredSubs r)) c a t s = None"
proof -
  have "reg_get r c a t s = wanted subs (set (registeredSubs r)) c a t s"
    using assms unfolding reg_inv_def by (simp add: fun_eq_iff)
  with assms(2) show ?thesis by (simp add: reg_get_def)
qed

lemma reg_inv_lookup_topic:
  assumes "reg_inv subs r" and "map_of (handlersByConfs r) c = Some h"
  shows "lookup_topic h a t = None \<longleftrightarrow> (\<forall>s. wanted subs (set (registeredSubs r)) c a t s = None)"
  using lookup_topic_iff [OF reg_inv_handler(1) [OF assms], of a t] reg_inv_handler(4) [OF assms] by auto

lemma handlers_set_iff:
  assumes "reg_inv subs r"
  shows "(c, h) \<in> set (handlersByConfs r) \<longleftrightarrow> map_of (handlersByConfs r) c = Some h"
  using assms by (simp add: reg_inv_def map_of_eq_Some_iff)

lemma newRegistrations_inv [inv_intros]: "reg_inv subs newRegistrations"
  by (simp add: reg_inv_def newRegistrations_def reg_get_def wanted_def fun_eq_iff)

lemma sub_get_ensure:
  "sub_get (if map_of (lookupSubs h) addr = None then h\<lparr>lookupSubs := assoc_put addr [] (lookupSubs h)\<rparr> else h) a t s
     = sub_get h a t s"
  "lookup_topic (if map_of (lookupSubs h) addr = None then h\<lparr>lookupSubs := assoc_put addr [] (lookupSubs h)\<rparr> else h) a t
     = lookup_topic h a t"
  by (simp_all add: sub_get_alt lookup_topic_def map_get_def)

lemma handler_addSubscriber_correct:
  assumes ok: "sub_ok (subs sub)" and ord: "iteration_order ord" and wf: "handler_wf h" and full: "handler_full h"
  shows "\<exists>h' needs. handler_addSubscriber ord subs sub gs h = Ret (h', needs)
    \<and> handler_wf h' \<and> handler_full h' \<and> lookupSubs h' \<noteq> []
    \<and> (\<forall>a t s. sub_get h' a t s =
         (if a = Contract (subs sub) \<and> s = sub \<and> map_of (LogsWithTopics (subs sub)) t \<noteq> None
          then map_of (LogsWithTopics (subs sub)) t else sub_get h a t s))
    \<and> (needs \<longleftrightarrow> (\<exists>t. map_of (LogsWithTopics (subs sub)) t \<noteq> None \<and> lookup_topic h (Contract (subs sub)) t = None
          \<and> (\<forall>g\<in>set gs. lookup_topic g (Contract (subs sub)) t = None)))"
proof -
  define addr where "addr = Contract (subs sub)"
  define topics where "topics = ord (LogsWithTopics (subs sub))"
  define h0 where "h0 = (if map_of (lookupSubs h) addr = None then h\<lparr>lookupSubs := assoc_put addr [] (lookupSubs h)\<rparr> else h)"
  have ord': "mset (ord (LogsWithTopics (subs sub))) = mset (LogsWithTopics (subs sub))"
    using ord by (simp add: iteration_order_def)
  have topics: "map_of topics = map_of (LogsWithTopics (subs sub))" "distinct (map fst topics)" "topics \<noteq> []"
    using map_of_order [OF ord'] ok by (simp_all add: topics_def sub_ok_def)
  have wf0: "handler_wf h0" using wf by (simp add: h0_def handler_wf_put)
  obtain h' needs where add: "handler_add_topics sub addr gs topics h0 False = (h', needs)" by fastforce
  note c = handler_add_topics_correct [OF add wf0 topics(2)]
  have "handler_addSubscriber ord subs sub gs h = Ret (h', needs)"
    using ok add unfolding handler_addSubscriber_def Let_def sub_ok_def h0_def addr_def topics_def by simp
  moreover have full': "handler_full h'"
    unfolding handler_full_def
  proof
    fix a show "map_of (lookupSubs h') a \<noteq> Some []"
    proof (cases "a = addr")
      case False
      then have "map_of (lookupSubs h') a = map_of (lookupSubs h) a"
        using c by (simp add: h0_def)
      with full show ?thesis by (simp add: handler_full_def)
    qed (use c topics(3) in simp)
  qed
  moreover have get: "sub_get h' a t s =
         (if a = addr \<and> s = sub \<and> map_of topics t \<noteq> None then map_of topics t else sub_get h a t s)" for a t s
    using c unfolding h0_def sub_get_ensure by blast
  moreover have "lookupSubs h' \<noteq> []"
  proof
    assume e: "lookupSubs h' = []"
    obtain t f where "map_of topics t = Some f" using map_of_not_Nil [OF topics(3)] by blast
    then show False using get [of addr t sub] e by (simp add: sub_get_alt)
  qed
  moreover have "needs \<longleftrightarrow> (\<exists>t. map_of topics t \<noteq> None \<and> lookup_topic h addr t = None
          \<and> (\<forall>g\<in>set gs. lookup_topic g addr t = None))"
    using c unfolding h0_def sub_get_ensure by blast
  moreover have "handler_wf h'" using c by (rule conjunct1)
  ultimately show ?thesis unfolding topics(1) addr_def by blast
qed

lemma registered_apart:
  assumes "reg_inv subs r" and "s \<notin> set (registeredSubs r)"
    and "\<not> (\<exists>s'\<in>set (registeredSubs r). JobID (subs s') = JobID (subs s) \<and> Contract (subs s') = Contract (subs s))"
  shows "checkAddSubscriber subs s r = (if MinIncomingConfirmations (subs s) = 0
      then (Some ''LogBroadcaster requires that MinIncomingConfirmations must be at least 1'', r)
      else (None, r\<lparr>registeredSubs := registeredSubs r @ [s],
              jobIDAddrs := (jobIDAddrs r)(JobID (subs s) \<mapsto>
                map_get [] (jobIDAddrs r) (JobID (subs s)) @ [Contract (subs s)])\<rparr>))"
proof -
  have "Contract (subs s) \<notin> set (map_get [] (jobIDAddrs r) (JobID (subs s)))"
    using assms(1,3) unfolding reg_inv_def by blast
  then show ?thesis using assms(2) by (simp add: checkAddSubscriber_def Let_def)
qed

lemma wanted_insert:
  "wanted subs (insert s0 S) c a t s =
     (if s = s0 \<and> MinIncomingConfirmations (subs s0) = c \<and> Contract (subs s0) = a
      then map_of (LogsWithTopics (subs s0)) t else wanted subs S c a t s)"
  by (auto simp: wanted_def)

lemma greater_lookup:
  assumes "distinct (map fst (handlersByConfs r))"
  shows "(\<forall>g\<in>set (handlersWithGreaterConfs confs r). lookup_topic g a t = None) \<longleftrightarrow>
    (\<forall>c h. c > confs \<longrightarrow> map_of (handlersByConfs r) c = Some h \<longrightarrow> lookup_topic h a t = None)"
  using assms by (auto simp: handlersWithGreaterConfs_def)

text \<open>Adding a subscriber: the table of filters gains exactly its filters, and a new subscription to
  the node is asked for exactly if some topic of it has no subscriber at as many confirmations.\<close>

lemma addSubscriber_correct:
  assumes inv: "reg_inv subs r" and ok: "sub_ok (subs sub)" and ord: "iteration_order ord"
    and new: "sub \<notin> set (registeredSubs r)"
      "\<not> (\<exists>s\<in>set (registeredSubs r). JobID (subs s) = JobID (subs sub) \<and> Contract (subs s) = Contract (subs sub))"
  shows "\<exists>r' needs. addSubscriber ord subs sub r = Ret (r', needs) \<and> reg_inv subs r'
    \<and> set (registeredSubs r') = insert sub (set (registeredSubs r))
    \<and> (needs \<longleftrightarrow> (\<exists>t. map_of (LogsWithTopics (subs sub)) t \<noteq> None \<and>
         (\<forall>s\<in>set (registeredSubs r). Contract (subs s) = Contract (subs sub)
            \<and> MinIncomingConfirmations (subs s) \<ge> MinIncomingConfirmations (subs sub)
            \<longrightarrow> map_of (LogsWithTopics (subs s)) t = None)))"
proof -
  define confs where "confs = MinIncomingConfirmations (subs sub)"
  define addr where "addr = Contract (subs sub)"
  define r1 where "r1 = r\<lparr>registeredSubs := registeredSubs r @ [sub],
      jobIDAddrs := (jobIDAddrs r)(JobID (subs sub) \<mapsto> map_get [] (jobIDAddrs r) (JobID (subs sub)) @ [addr])\<rparr>"
  have check: "checkAddSubscriber subs sub r = (None, r1)"
    using registered_apart [OF inv new] ok by (simp add: sub_ok_def r1_def addr_def)
  define h where "h = (case map_of (handlersByConfs r) confs of None \<Rightarrow> newHandler | Some h \<Rightarrow> h)"
  define r2 where "r2 = (if map_of (handlersByConfs r1) confs = None
      then r1\<lparr>handlersByConfs := assoc_put confs newHandler (handlersByConfs r1)\<rparr> else r1)"
  have h: "the (map_of (handlersByConfs r2) confs) = h"
    by (auto simp: h_def r2_def r1_def split: option.splits)
  have dist: "distinct (map fst (handlersByConfs r))" using inv by (simp add: reg_inv_def)
  have wf: "handler_wf h" "handler_full h"
    using reg_inv_handler(1,2) [OF inv, of confs]
    by (auto simp: h_def newHandler_def handler_wf_def handler_full_def split: option.splits)
  let ?R = "set (registeredSubs r)"
  have get: "sub_get h a t s = wanted subs ?R confs a t s" for a t s
    using reg_inv_handler(4) [OF inv, of confs] reg_inv_no_handler [OF inv, of confs]
    by (auto simp: h_def newHandler_def sub_get_alt split: option.splits)
  obtain h' needs where add: "handler_addSubscriber ord subs sub (handlersWithGreaterConfs confs r2) h = Ret (h', needs)"
    and h': "handler_wf h'" "handler_full h'" "lookupSubs h' \<noteq> []"
      "\<And>a t s. sub_get h' a t s = (if a = addr \<and> s = sub \<and> map_of (LogsWithTopics (subs sub)) t \<noteq> None
          then map_of (LogsWithTopics (subs sub)) t else sub_get h a t s)"
    and needs: "needs \<longleftrightarrow> (\<exists>t. map_of (LogsWithTopics (subs sub)) t \<noteq> None \<and> lookup_topic h addr t = None
          \<and> (\<forall>g\<in>set (handlersWithGreaterConfs confs r2). lookup_topic g addr t = None))"
    using handler_addSubscriber_correct [where subs = subs, OF ok ord wf] unfolding addr_def by blast
  define r' where "r' = (let r3 = r2\<lparr>handlersByConfs := assoc_put confs h' (handlersByConfs r2)\<rparr>
      in if confs > highestNumConfirmations r3 then r3\<lparr>highestNumConfirmations := confs\<rparr> else r3)"
  have run: "addSubscriber ord subs sub r = Ret (r', needs)"
    using add unfolding addSubscriber_def check r'_def
    by (simp add: Let_def h flip: confs_def r2_def)
  have r': "registeredSubs r' = registeredSubs r @ [sub]" "jobIDAddrs r' = jobIDAddrs r1"
    "map_of (handlersByConfs r') = (map_of (handlersByConfs r))(confs \<mapsto> h')"
    "distinct (map fst (handlersByConfs r'))"
    "fst ` set (handlersByConfs r') = insert confs (fst ` set (handlersByConfs r))"
    "highestNumConfirmations r' = max confs (highestNumConfirmations r)"
    using dist by (auto simp: r'_def r2_def r1_def Let_def max_def)
  have not_in: "wanted subs ?R c a t sub = None" for c a t using new(1) by (simp add: wanted_def)
  have "reg_get r' c a t s = wanted subs (insert sub ?R) c a t s" for c a t s
  proof (cases "c = confs")
    case True
    have "reg_get r' c a t s = sub_get h' a t s" by (simp add: reg_get_def r'(3) True)
    also have "\<dots> = wanted subs (insert sub ?R) c a t s"
      unfolding h'(4) get wanted_insert using True not_in by (auto simp: confs_def addr_def)
    finally show ?thesis .
  next
    case False
    have "reg_get r' c a t s = reg_get r c a t s" by (simp add: reg_get_def r'(3) False)
    also have "\<dots> = wanted subs ?R c a t s" using inv by (simp add: reg_inv_def)
    finally show ?thesis using False by (simp add: wanted_insert confs_def)
  qed
  then have table: "reg_get r' = wanted subs (insert sub ?R)" by (simp add: fun_eq_iff)
  have addrs: "a \<in> set (map_get [] (jobIDAddrs r') j) \<longleftrightarrow>
      (\<exists>s\<in>insert sub ?R. JobID (subs s) = j \<and> Contract (subs s) = a)" for j a
    using inv unfolding reg_inv_def r'(2) r1_def addr_def by auto
  have hs: "\<forall>c h. map_of (handlersByConfs r') c = Some h \<longrightarrow> handler_wf h \<and> handler_full h \<and> lookupSubs h \<noteq> []"
    using h' reg_inv_handler(1,2,3) [OF inv] unfolding r'(3) by simp
  have "highestNumConfirmations r' = Max (insert 0 (fst ` set (handlersByConfs r')))"
    using inv unfolding r'(5,6) reg_inv_def by (simp add: insert_commute [of 0])
  moreover have "inj_on (\<lambda>s. (JobID (subs s), Contract (subs s))) (insert sub ?R)"
    using inv new unfolding reg_inv_def inj_on_insert by auto
  ultimately have "reg_inv subs r'"
    using inv ok new(1) table addrs hs r'(4) unfolding reg_inv_def r'(1) by simp
  moreover have "lookup_topic h addr t = None \<longleftrightarrow> (\<forall>s. wanted subs ?R confs addr t s = None)" for t
    using lookup_topic_iff [OF wf(1), of addr t] get by auto
  moreover have "(\<forall>g\<in>set (handlersWithGreaterConfs confs r2). lookup_topic g addr t = None) \<longleftrightarrow>
      (\<forall>c s. c > confs \<longrightarrow> wanted subs ?R c addr t s = None)" for t
  proof -
    have "distinct (map fst (handlersByConfs r2))" using dist by (simp add: r2_def r1_def)
    moreover have "map_of (handlersByConfs r2) c = map_of (handlersByConfs r) c" if "c > confs" for c
      using that by (auto simp: r2_def r1_def)
    ultimately have "(\<forall>g\<in>set (handlersWithGreaterConfs confs r2). lookup_topic g addr t = None) \<longleftrightarrow>
        (\<forall>c h. c > confs \<longrightarrow> map_of (handlersByConfs r) c = Some h \<longrightarrow> lookup_topic h addr t = None)"
      by (simp add: greater_lookup)
    also have "\<dots> \<longleftrightarrow> (\<forall>c s. c > confs \<longrightarrow> wanted subs ?R c addr t s = None)"
      using reg_inv_lookup_topic [OF inv] reg_inv_no_handler [OF inv]
      by (metis option.exhaust)
    finally show ?thesis .
  qed
  ultimately have "needs \<longleftrightarrow> (\<exists>t. map_of (LogsWithTopics (subs sub)) t \<noteq> None \<and>
      (\<forall>c s. c \<ge> confs \<longrightarrow> wanted subs ?R c addr t s = None))"
    unfolding needs by (auto simp: order_le_less)
  also have "\<dots> \<longleftrightarrow> (\<exists>t. map_of (LogsWithTopics (subs sub)) t \<noteq> None \<and>
         (\<forall>s\<in>?R. Contract (subs s) = addr \<and> MinIncomingConfirmations (subs s) \<ge> confs
            \<longrightarrow> map_of (LogsWithTopics (subs s)) t = None))"
    by (simp add: wanted_def confs_def addr_def) blast
  finally show ?thesis using run \<open>reg_inv subs r'\<close> by (simp add: r'(1) confs_def addr_def)
qed

lemma foldl_highest:
  "foldl (\<lambda>highest (c, h). if c > highest then c else highest) a xs = Max (insert a (fst ` set xs))"
  for a :: "'a::linorder"
proof -
  have "foldl (\<lambda>highest (c, h). if c > highest then c else highest) a xs = fold max (map fst xs) a"
    by (induction xs arbitrary: a) (auto simp: max_def)
  then show ?thesis using Max.set_eq_fold [of a "map fst xs"] by simp
qed

lemma handler_removeSubscriber_correct:
  assumes ok: "sub_ok (subs sub)" and ord: "iteration_order ord" and wf: "handler_wf h" and full: "handler_full h"
    and here: "\<And>t. map_of (LogsWithTopics (subs sub)) t \<noteq> None \<Longrightarrow> sub_get h (Contract (subs sub)) t sub \<noteq> None"
  shows "\<exists>h' needs. handler_removeSubscriber ord subs sub allHandlers h = Ret (h', needs)
    \<and> handler_wf h' \<and> handler_full h'
    \<and> (\<forall>a t s. sub_get h' a t s =
         (if a = Contract (subs sub) \<and> s = sub \<and> map_of (LogsWithTopics (subs sub)) t \<noteq> None
          then None else sub_get h a t s))
    \<and> (needs \<longleftrightarrow> (\<exists>t. map_of (LogsWithTopics (subs sub)) t \<noteq> None
          \<and> (\<forall>s. s \<noteq> sub \<longrightarrow> sub_get h (Contract (subs sub)) t s = None)
          \<and> (\<forall>(c, g)\<in>set allHandlers. c \<noteq> MinIncomingConfirmations (subs sub)
                \<longrightarrow> lookup_topic g (Contract (subs sub)) t = None)))"
proof -
  define topics where "topics = map fst (ord (LogsWithTopics (subs sub)))"
  have ord': "mset (ord (LogsWithTopics (subs sub))) = mset (LogsWithTopics (subs sub))"
    using ord by (simp add: iteration_order_def)
  have "distinct (map fst (LogsWithTopics (subs sub)))" using ok by (simp add: sub_ok_def)
  note perm = map_of_order [OF ord' this]
  have dist: "distinct topics" using perm(2) by (simp add: topics_def)
  have mem: "t \<in> set topics \<longleftrightarrow> map_of (LogsWithTopics (subs sub)) t \<noteq> None" for t
    unfolding topics_def perm(1) [symmetric] set_map map_of_eq_None_iff by blast
  have here': "sub_get h (Contract (subs sub)) t sub \<noteq> None" if "t \<in> set topics" for t
    using that unfolding mem by (rule here)
  show ?thesis
    using handler_remove_topics_correct [OF wf full dist here',
        of "MinIncomingConfirmations (subs sub)" allHandlers False]
    unfolding handler_removeSubscriber_def topics_def [symmetric] Bex_def mem by (simp only: simp_thms)
qed

lemma reg_get_lookup:
  assumes "reg_inv subs r" and "sub \<in> set (registeredSubs r)"
  obtains h where "map_of (handlersByConfs r) (MinIncomingConfirmations (subs sub)) = Some h"
proof -
  have "sub_ok (subs sub)" using assms by (simp add: reg_inv_def)
  then obtain t f where "map_of (LogsWithTopics (subs sub)) t = Some f"
    using map_of_not_Nil unfolding sub_ok_def by metis
  then have "wanted subs (set (registeredSubs r)) (MinIncomingConfirmations (subs sub)) (Contract (subs sub)) t sub = Some f"
    using assms(2) by (simp add: wanted_def)
  then show ?thesis
    using reg_inv_no_handler [OF assms(1)] that by (metis option.distinct(1) option.exhaust)
qed

lemma wanted_remove:
  "wanted subs (S - {s0}) c a t s = (if s = s0 then None else wanted subs S c a t s)"
  by (simp add: wanted_def)

lemma registered_checkRemove:
  assumes "reg_inv subs r" and "s \<in> set (registeredSubs r)"
  obtains r1 where "checkRemoveSubscriber subs s r = (None, r1)"
    "registeredSubs r1 = removeAll s (registeredSubs r)" "handlersByConfs r1 = handlersByConfs r"
    "highestNumConfirmations r1 = highestNumConfirmations r"
    "\<forall>j. set (map_get [] (jobIDAddrs r1) j) =
       set (map_get [] (jobIDAddrs r) j) - (if j = JobID (subs s) then {Contract (subs s)} else {})"
proof -
  have mem: "Contract (subs s) \<in> set (map_get [] (jobIDAddrs r) (JobID (subs s)))"
    using assms unfolding reg_inv_def by blast
  then obtain addrs where addrs: "jobIDAddrs r (JobID (subs s)) = Some addrs" "Contract (subs s) \<in> set addrs"
    by (cases "jobIDAddrs r (JobID (subs s))") auto
  have single: "removeAll (Contract (subs s)) addrs = [] \<Longrightarrow> set addrs \<subseteq> {Contract (subs s)}"
    by (metis Diff_eq_empty_iff set_removeAll set_empty)
  show ?thesis
    by (rule that [of "r\<lparr>registeredSubs := removeAll s (registeredSubs r),
          jobIDAddrs := (jobIDAddrs r)(JobID (subs s) := (if removeAll (Contract (subs s)) addrs = [] then None
              else Some (removeAll (Contract (subs s)) addrs)))\<rparr>"])
      (use assms(2) addrs single in \<open>auto simp: checkRemoveSubscriber_def Let_def map_get_def\<close>)
qed

text \<open>Removing a subscriber: the table loses exactly its filters, and a new subscription to the node
  is asked for exactly if some topic of it has no subscriber left.\<close>

lemma removeSubscriber_correct:
  assumes inv: "reg_inv subs r" and sub: "sub \<in> set (registeredSubs r)" and ord: "iteration_order ord"
  shows "\<exists>r' needs. removeSubscriber ord subs sub r = Ret (r', needs) \<and> reg_inv subs r'
    \<and> set (registeredSubs r') = set (registeredSubs r) - {sub}
    \<and> (needs \<longleftrightarrow> (\<exists>t. map_of (LogsWithTopics (subs sub)) t \<noteq> None \<and>
         (\<forall>s\<in>set (registeredSubs r). s \<noteq> sub \<and> Contract (subs s) = Contract (subs sub)
            \<longrightarrow> map_of (LogsWithTopics (subs s)) t = None)))"
proof -
  define confs where "confs = MinIncomingConfirmations (subs sub)"
  define addr where "addr = Contract (subs sub)"
  let ?R = "set (registeredSubs r)"
  have ok: "sub_ok (subs sub)" using inv sub by (simp add: reg_inv_def)
  obtain r1 where r1: "checkRemoveSubscriber subs sub r = (None, r1)"
    "registeredSubs r1 = removeAll sub (registeredSubs r)" "handlersByConfs r1 = handlersByConfs r"
    "highestNumConfirmations r1 = highestNumConfirmations r"
    "\<forall>j. set (map_get [] (jobIDAddrs r1) j) =
       set (map_get [] (jobIDAddrs r) j) - (if j = JobID (subs sub) then {Contract (subs sub)} else {})"
    by (rule registered_checkRemove [OF inv sub])
  obtain h where h: "map_of (handlersByConfs r) confs = Some h"
    using reg_get_lookup [OF inv sub] unfolding confs_def by blast
  note wf = reg_inv_handler [OF inv h]
  have dist: "distinct (map fst (handlersByConfs r))" using inv by (simp add: reg_inv_def)
  have here: "sub_get h (Contract (subs sub)) t sub \<noteq> None" if "map_of (LogsWithTopics (subs sub)) t \<noteq> None" for t
    using that sub unfolding wf(4) by (simp add: wanted_def confs_def)
  obtain h' needs where run: "handler_removeSubscriber ord subs sub (handlersByConfs r) h = Ret (h', needs)"
    and h': "handler_wf h'" "handler_full h'"
      "\<And>a t s. sub_get h' a t s = (if a = addr \<and> s = sub \<and> map_of (LogsWithTopics (subs sub)) t \<noteq> None
          then None else sub_get h a t s)"
    and needs: "needs \<longleftrightarrow> (\<exists>t. map_of (LogsWithTopics (subs sub)) t \<noteq> None
          \<and> (\<forall>s. s \<noteq> sub \<longrightarrow> sub_get h addr t s = None)
          \<and> (\<forall>(c, g)\<in>set (handlersByConfs r). c \<noteq> confs \<longrightarrow> lookup_topic g addr t = None))"
    using handler_removeSubscriber_correct [where subs = subs, OF ok ord wf(1,2) here]
    unfolding addr_def confs_def by blast
  define r2 where "r2 = r1\<lparr>handlersByConfs := assoc_put confs h' (handlersByConfs r)\<rparr>"
  define r' where "r' = (if lookupSubs h' = []
      then resetHighestNumConfirmationsValue (r2\<lparr>handlersByConfs := assoc_del confs (handlersByConfs r2)\<rparr>) else r2)"
  have step: "removeSubscriber ord subs sub r = Ret (r', needs)"
    using run h unfolding removeSubscriber_def r1(1) r'_def r2_def confs_def
    by (simp add: r1(3) Let_def)
  have r': "registeredSubs r' = removeAll sub (registeredSubs r)" "jobIDAddrs r' = jobIDAddrs r1"
    "map_of (handlersByConfs r') = (map_of (handlersByConfs r))(confs := (if lookupSubs h' = [] then None else Some h'))"
    "distinct (map fst (handlersByConfs r'))"
    using dist by (auto simp: r'_def r2_def r1 resetHighestNumConfirmationsValue_def)
  have high: "highestNumConfirmations r' = Max (insert 0 (fst ` set (handlersByConfs r')))"
  proof (cases "lookupSubs h' = []")
    case False
    have "confs \<in> fst ` set (handlersByConfs r)" using h by (force dest: map_of_SomeD)
    then have "fst ` set (handlersByConfs r') = fst ` set (handlersByConfs r)"
      using False by (auto simp: r'_def r2_def)
    moreover have "highestNumConfirmations r' = highestNumConfirmations r"
      using False by (simp add: r'_def r2_def r1)
    ultimately show ?thesis using inv by (simp add: reg_inv_def)
  qed (simp add: r'_def resetHighestNumConfirmationsValue_def foldl_highest)
  have get': "sub_get h' a t s = wanted subs (?R - {sub}) confs a t s" for a t s
    unfolding h'(3) wf(4) wanted_remove by (auto simp: wanted_def addr_def)
  have empty: "lookupSubs h' = [] \<Longrightarrow> sub_get h' a t s = None" for a t s
    by (simp add: sub_get_alt)
  have "reg_get r' c a t s = wanted subs (?R - {sub}) c a t s" for c a t s
  proof (cases "c = confs")
    case True
    then show ?thesis using empty [of a t s] get' [of a t s] by (simp add: reg_get_def r'(3))
  next
    case False
    then have "reg_get r' c a t s = wanted subs ?R c a t s"
      using inv by (simp add: reg_get_def r'(3) reg_inv_def fun_eq_iff)
    with False show ?thesis by (auto simp: wanted_def confs_def)
  qed
  then have table: "reg_get r' = wanted subs (?R - {sub})" by (simp add: fun_eq_iff)
  have inj: "inj_on (\<lambda>s. (JobID (subs s), Contract (subs s))) ?R" using inv by (simp add: reg_inv_def)
  have addrs: "a \<in> set (map_get [] (jobIDAddrs r') j) \<longleftrightarrow>
      (\<exists>s\<in>?R - {sub}. JobID (subs s) = j \<and> Contract (subs s) = a)" for j a
  proof -
    have "a \<in> set (map_get [] (jobIDAddrs r) j) \<longleftrightarrow> (\<exists>s\<in>?R. JobID (subs s) = j \<and> Contract (subs s) = a)"
      using inv by (simp add: reg_inv_def)
    then show ?thesis using inj sub unfolding r'(2) r1(5) [rule_format] inj_on_def by auto
  qed
  have hs: "\<forall>c h. map_of (handlersByConfs r') c = Some h \<longrightarrow> handler_wf h \<and> handler_full h \<and> lookupSubs h \<noteq> []"
    using h'(1,2) reg_inv_handler(1,2,3) [OF inv] unfolding r'(3) by simp
  have inv': "reg_inv subs r'"
    using inv high r'(4) table addrs hs inj_on_subset [OF inj, of "?R - {sub}"]
    unfolding reg_inv_def r'(1) set_removeAll by (simp add: distinct_removeAll)
  have "(\<forall>(c, g)\<in>set (handlersByConfs r). c \<noteq> confs \<longrightarrow> lookup_topic g addr t = None) \<longleftrightarrow>
      (\<forall>c s. c \<noteq> confs \<longrightarrow> wanted subs ?R c addr t s = None)" for t
  proof -
    have "(\<forall>(c, g)\<in>set (handlersByConfs r). c \<noteq> confs \<longrightarrow> lookup_topic g addr t = None) \<longleftrightarrow>
      (\<forall>c g. map_of (handlersByConfs r) c = Some g \<longrightarrow> c \<noteq> confs \<longrightarrow> lookup_topic g addr t = None)"
      using handlers_set_iff [OF inv] by blast
    also have "\<dots> \<longleftrightarrow> (\<forall>c s. c \<noteq> confs \<longrightarrow> wanted subs ?R c addr t s = None)"
      using reg_inv_lookup_topic [OF inv] reg_inv_no_handler [OF inv] by (metis option.exhaust)
    finally show ?thesis .
  qed
  then have "needs \<longleftrightarrow> (\<exists>t. map_of (LogsWithTopics (subs sub)) t \<noteq> None
      \<and> (\<forall>s. s \<noteq> sub \<longrightarrow> wanted subs ?R confs addr t s = None)
      \<and> (\<forall>c s. c \<noteq> confs \<longrightarrow> wanted subs ?R c addr t s = None))"
    unfolding needs wf(4) by simp
  moreover have "(\<forall>s. s \<noteq> sub \<longrightarrow> wanted subs ?R confs addr t s = None)
      \<and> (\<forall>c s. c \<noteq> confs \<longrightarrow> wanted subs ?R c addr t s = None) \<longleftrightarrow>
      (\<forall>s\<in>?R. s \<noteq> sub \<and> Contract (subs s) = addr \<longrightarrow> map_of (LogsWithTopics (subs s)) t = None)" for t
    by (auto simp: wanted_def confs_def addr_def)
  ultimately have "needs \<longleftrightarrow> (\<exists>t. map_of (LogsWithTopics (subs sub)) t \<noteq> None \<and>
      (\<forall>s\<in>?R. s \<noteq> sub \<and> Contract (subs s) = addr \<longrightarrow> map_of (LogsWithTopics (subs s)) t = None))"
    by simp
  then show ?thesis using step inv' by (simp add: r'(1) addr_def)
qed

section \<open>What the broadcaster reads off the registrations\<close>

lemma lookup_addr_iff:
  assumes "handler_wf h" and "handler_full h"
  shows "map_of (lookupSubs h) a \<noteq> None \<longleftrightarrow> (\<exists>t s. sub_get h a t s \<noteq> None)"
proof (cases "map_of (lookupSubs h) a")
  case (Some ts)
  then have "topics_wf ts" and "ts \<noteq> []"
    using assms by (auto simp: handler_wf_def handler_full_def)
  then obtain t m where m: "map_of ts t = Some m" "m \<noteq> []"
    using map_of_not_Nil [of ts] unfolding topics_wf_def by blast
  obtain s f where "map_of m s = Some f" using map_of_not_Nil [OF m(2)] by blast
  with Some m(1) have "sub_get h a t s \<noteq> None" by (simp add: sub_get_alt)
  with Some show ?thesis by (metis option.distinct(1))
qed (simp add: sub_get_alt)

lemma lookup_topic_addr: "lookup_topic h a t \<noteq> None \<longleftrightarrow>
    (\<exists>ts. map_of (lookupSubs h) a = Some ts \<and> map_of ts t \<noteq> None)"
  by (cases "map_of (lookupSubs h) a") (simp_all add: lookup_topic_def)

lemma wanted_Some:
  "wanted subs S c a t s = Some f \<longleftrightarrow> s \<in> S \<and> MinIncomingConfirmations (subs s) = c \<and> Contract (subs s) = a
     \<and> map_of (LogsWithTopics (subs s)) t = Some f"
  by (auto simp: wanted_def)

lemma reg_inv_keys:
  assumes inv: "reg_inv subs r"
  shows "fst ` set (handlersByConfs r) = (\<lambda>s. MinIncomingConfirmations (subs s)) ` set (registeredSubs r)"
proof (intro set_eqI iffI)
  fix c assume "c \<in> fst ` set (handlersByConfs r)"
  then obtain h where h: "map_of (handlersByConfs r) c = Some h"
    using handlers_set_iff [OF inv] by force
  then obtain a where "map_of (lookupSubs h) a \<noteq> None"
    using map_of_not_Nil [OF reg_inv_handler(3) [OF inv h]] by auto
  then obtain t s where "sub_get h a t s \<noteq> None"
    using lookup_addr_iff [OF reg_inv_handler(1,2) [OF inv h]] by blast
  then show "c \<in> (\<lambda>s. MinIncomingConfirmations (subs s)) ` set (registeredSubs r)"
    unfolding reg_inv_handler(4) [OF inv h] by (auto simp: wanted_Some)
next
  fix c assume "c \<in> (\<lambda>s. MinIncomingConfirmations (subs s)) ` set (registeredSubs r)"
  then obtain s where "s \<in> set (registeredSubs r)" "c = MinIncomingConfirmations (subs s)" by auto
  then obtain h where "map_of (handlersByConfs r) c = Some h" using reg_get_lookup [OF inv] by metis
  then show "c \<in> fst ` set (handlersByConfs r)" using handlers_set_iff [OF inv] by force
qed

lemma highestNumConfirmations_correct:
  assumes "reg_inv subs r"
  shows "highestNumConfirmations r = Max (insert 0 ((\<lambda>s. MinIncomingConfirmations (subs s)) ` set (registeredSubs r)))"
  using assms reg_inv_keys [OF assms] by (simp add: reg_inv_def)

lemma sub_topic_exists:
  assumes "reg_inv subs r" and "s \<in> set (registeredSubs r)"
  shows "\<exists>t f. map_of (LogsWithTopics (subs s)) t = Some f"
  using assms map_of_not_Nil unfolding reg_inv_def sub_ok_def by metis

lemma handler_address:
  assumes inv: "reg_inv subs r" and h: "map_of (handlersByConfs r) c = Some h"
  shows "map_of (lookupSubs h) a \<noteq> None \<longleftrightarrow>
    (\<exists>s\<in>set (registeredSubs r). MinIncomingConfirmations (subs s) = c \<and> Contract (subs s) = a)"
proof -
  have "map_of (lookupSubs h) a \<noteq> None \<longleftrightarrow> (\<exists>t s f. wanted subs (set (registeredSubs r)) c a t s = Some f)"
    using lookup_addr_iff [OF reg_inv_handler(1,2) [OF inv h]] reg_inv_handler(4) [OF inv h] by auto
  then show ?thesis unfolding wanted_Some using sub_topic_exists [OF inv] by blast
qed

lemma isAddressRegistered_correct:
  assumes inv: "reg_inv subs r"
  shows "isAddressRegistered addr r \<longleftrightarrow> (\<exists>s\<in>set (registeredSubs r). Contract (subs s) = addr)"
proof -
  have "isAddressRegistered addr r \<longleftrightarrow> (\<exists>c h. map_of (handlersByConfs r) c = Some h \<and> map_of (lookupSubs h) addr \<noteq> None)"
    using handlers_set_iff [OF inv] by (auto simp: isAddressRegistered_def handler_isAddressRegistered_def)
  then show ?thesis
    using handler_address [OF inv] reg_get_lookup [OF inv] by metis
qed

lemma addressesAndTopics_correct:
  assumes inv: "reg_inv subs r"
  shows "set (fst (addressesAndTopics r)) = (\<lambda>s. Contract (subs s)) ` set (registeredSubs r)"
    and "set (snd (addressesAndTopics r)) = (\<Union>s\<in>set (registeredSubs r). fst ` set (LogsWithTopics (subs s)))"
proof -
  have keys: "a \<in> fst ` set m \<longleftrightarrow> map_of m a \<noteq> None" for a :: 'k and m :: "('k \<times> 'v) list"
    by (simp add: map_of_eq_None_iff)
  have "a \<in> set (fst (addressesAndTopics r)) \<longleftrightarrow> isAddressRegistered a r" for a
    by (force simp: addressesAndTopics_def handler_addressesAndTopics_def isAddressRegistered_def
        handler_isAddressRegistered_def map_of_eq_None_iff)
  then show "set (fst (addressesAndTopics r)) = (\<lambda>s. Contract (subs s)) ` set (registeredSubs r)"
    using isAddressRegistered_correct [OF inv] by auto
  have "t \<in> set (snd (addressesAndTopics r)) \<longleftrightarrow>
      (\<exists>s\<in>set (registeredSubs r). t \<in> fst ` set (LogsWithTopics (subs s)))" for t
  proof -
    have "t \<in> set (snd (addressesAndTopics r)) \<longleftrightarrow>
        (\<exists>c h a ts. (c, h) \<in> set (handlersByConfs r) \<and> (a, ts) \<in> set (lookupSubs h) \<and> t \<in> fst ` set ts)"
      by (force simp: addressesAndTopics_def handler_addressesAndTopics_def)
    also have "\<dots> \<longleftrightarrow> (\<exists>c h a ts. map_of (handlersByConfs r) c = Some h \<and> map_of (lookupSubs h) a = Some ts
        \<and> map_of ts t \<noteq> None)"
      using reg_inv_handler(1) [OF inv] unfolding handler_wf_def keys handlers_set_iff [OF inv]
      by (metis map_of_SomeD map_of_eq_Some_iff)
    also have "\<dots> \<longleftrightarrow> (\<exists>c h a. map_of (handlersByConfs r) c = Some h \<and> lookup_topic h a t \<noteq> None)"
      unfolding lookup_topic_addr by blast
    also have "\<dots> \<longleftrightarrow> (\<exists>c a s f. wanted subs (set (registeredSubs r)) c a t s = Some f)"
      using reg_inv_lookup_topic [OF inv] reg_inv_no_handler [OF inv] by (metis not_None_eq)
    also have "\<dots> \<longleftrightarrow> (\<exists>s\<in>set (registeredSubs r). t \<in> fst ` set (LogsWithTopics (subs s)))"
      unfolding wanted_Some keys by auto
    finally show ?thesis .
  qed
  then show "set (snd (addressesAndTopics r)) = (\<Union>s\<in>set (registeredSubs r). fst ` set (LogsWithTopics (subs s)))"
    by blast
qed

section \<open>The contract of the registrations\<close>

text \<open>Subscribing and unsubscribing, as operations on the set of subscribers. A sequence is legal if
  every subscriber is added while absent, is the only one of its job and contract, and is removed
  while present.\<close>

datatype reg_op = Subscribe nat | Unsubscribe nat

fun reg_exec ::
    "((nat \<times> topic_filters) list \<Rightarrow> (nat \<times> topic_filters) list) \<Rightarrow> (nat \<Rightarrow> subscriber) \<Rightarrow> reg_op
      \<Rightarrow> registrations \<Rightarrow> (registrations \<times> bool) run" where
  "reg_exec ord subs (Subscribe s) r = addSubscriber ord subs s r"
| "reg_exec ord subs (Unsubscribe s) r = removeSubscriber ord subs s r"

fun run_regs ::
    "((nat \<times> topic_filters) list \<Rightarrow> (nat \<times> topic_filters) list) \<Rightarrow> (nat \<Rightarrow> subscriber) \<Rightarrow> reg_op list
      \<Rightarrow> registrations \<Rightarrow> (registrations \<times> bool list) run" where
  "run_regs ord subs [] r = Ret (r, [])"
| "run_regs ord subs (x # xs) r =
     run_bind (reg_exec ord subs x r) (\<lambda>(r1, n). run_map (\<lambda>(r2, ns). (r2, n # ns)) (run_regs ord subs xs r1))"

fun subs_after :: "reg_op \<Rightarrow> nat set \<Rightarrow> nat set" where
  "subs_after (Subscribe s) S = insert s S"
| "subs_after (Unsubscribe s) S = S - {s}"

fun legal_op :: "(nat \<Rightarrow> subscriber) \<Rightarrow> reg_op \<Rightarrow> nat set \<Rightarrow> bool" where
  "legal_op subs (Subscribe s) S \<longleftrightarrow> sub_ok (subs s) \<and> s \<notin> S
     \<and> \<not> (\<exists>s'\<in>S. JobID (subs s') = JobID (subs s) \<and> Contract (subs s') = Contract (subs s))"
| "legal_op subs (Unsubscribe s) S \<longleftrightarrow> s \<in> S"

fun legal_ops :: "(nat \<Rightarrow> subscriber) \<Rightarrow> reg_op list \<Rightarrow> nat set \<Rightarrow> bool" where
  "legal_ops subs [] S \<longleftrightarrow> True"
| "legal_ops subs (x # xs) S \<longleftrightarrow> legal_op subs x S \<and> legal_ops subs xs (subs_after x S)"

fun resubscribes :: "(nat \<Rightarrow> subscriber) \<Rightarrow> reg_op \<Rightarrow> nat set \<Rightarrow> bool" where
  "resubscribes subs (Subscribe sub) S \<longleftrightarrow>
     (\<exists>t. map_of (LogsWithTopics (subs sub)) t \<noteq> None \<and>
        (\<forall>s\<in>S. Contract (subs s) = Contract (subs sub)
            \<and> MinIncomingConfirmations (subs s) \<ge> MinIncomingConfirmations (subs sub)
            \<longrightarrow> map_of (LogsWithTopics (subs s)) t = None))"
| "resubscribes subs (Unsubscribe sub) S \<longleftrightarrow>
     (\<exists>t. map_of (LogsWithTopics (subs sub)) t \<noteq> None \<and>
        (\<forall>s\<in>S. s \<noteq> sub \<and> Contract (subs s) = Contract (subs sub) \<longrightarrow> map_of (LogsWithTopics (subs s)) t = None))"

fun resubscribe_flags :: "(nat \<Rightarrow> subscriber) \<Rightarrow> reg_op list \<Rightarrow> nat set \<Rightarrow> bool list" where
  "resubscribe_flags subs [] S = []"
| "resubscribe_flags subs (x # xs) S = resubscribes subs x S # resubscribe_flags subs xs (subs_after x S)"

lemma reg_exec_correct:
  assumes "reg_inv subs r" and "iteration_order ord" and "legal_op subs x (set (registeredSubs r))"
  shows "\<exists>r'. reg_exec ord subs x r = Ret (r', resubscribes subs x (set (registeredSubs r))) \<and> reg_inv subs r'
    \<and> set (registeredSubs r') = subs_after x (set (registeredSubs r))"
proof (cases x)
  case (Subscribe s)
  then show ?thesis
    using addSubscriber_correct [OF assms(1) _ assms(2), of s] assms(3) by (simp del: not_None_eq)
next
  case (Unsubscribe s)
  then show ?thesis
    using removeSubscriber_correct [OF assms(1) _ assms(2), of s] assms(3) by (simp del: not_None_eq)
qed

lemma run_regs_correct:
  assumes ord: "iteration_order ord"
  shows "reg_inv subs r \<Longrightarrow> legal_ops subs xs (set (registeredSubs r)) \<Longrightarrow>
    \<exists>r'. run_regs ord subs xs r = Ret (r', resubscribe_flags subs xs (set (registeredSubs r))) \<and> reg_inv subs r'
      \<and> set (registeredSubs r') = foldl (\<lambda>S x. subs_after x S) (set (registeredSubs r)) xs"
proof (induction xs arbitrary: r)
  case (Cons x xs)
  obtain r1 where r1: "reg_exec ord subs x r = Ret (r1, resubscribes subs x (set (registeredSubs r)))"
    "reg_inv subs r1" "set (registeredSubs r1) = subs_after x (set (registeredSubs r))"
    using reg_exec_correct [OF Cons.prems(1) ord] Cons.prems(2) by auto
  with Cons.IH [OF r1(2)] Cons.prems(2) show ?case by (auto simp: run_simps)
qed simp

section \<open>Sending\<close>

definition broadcast_of :: "(nat \<Rightarrow> subscriber) \<Rightarrow> Head \<Rightarrow> Log \<Rightarrow> nat \<Rightarrow> broadcast" where
  "broadcast_of subs latestHead l s =
     \<lparr>latestBlockNumber = word_of_int (Number latestHead), latestBlockHash = Hash latestHead,
      decodedLog = the (ParseLog (subs s) l), rawLog = l, jobID = JobID (subs s)\<rparr>"

definition should_send ::
    "(nat \<Rightarrow> subscriber) \<Rightarrow> (LogBroadcastAsKey \<Rightarrow> bool option) \<Rightarrow> Log \<Rightarrow> nat \<Rightarrow> topic_filters \<Rightarrow> bool" where
  "should_send subs broadcasts l s filters \<longleftrightarrow>
     broadcasts (NewLogBroadcastAsKey l (JobID (subs s))) \<noteq> Some True
     \<and> (filters = [] \<or> length (LogTopics l) \<le> 1 \<or> filtersContainValues (tl (LogTopics l)) filters)
     \<and> ParseLog (subs s) l \<noteq> None"

definition created ::
    "(nat \<Rightarrow> subscriber) \<Rightarrow> Log \<Rightarrow> (LogBroadcastAsKey \<Rightarrow> bool option) \<Rightarrow> 'db creator \<Rightarrow> nat \<Rightarrow> 'db \<Rightarrow> bool \<times> 'db" where
  "created subs l broadcasts create s db =
     (if broadcasts (NewLogBroadcastAsKey l (JobID (subs s))) = None
      then create (LogBlockHash l) (LogBlockNumber l) (LogIndex l) (JobID (subs s)) db else (True, db))"

lemma send_to_subs_Cons:
  "send_to_subs subs l head broadcasts create ((s, f) # rest) db =
     (if should_send subs broadcasts l s f
      then (let (sent, db2) = send_to_subs subs l head broadcasts create rest (snd (created subs l broadcasts create s db))
            in (if fst (created subs l broadcasts create s db) then (s, broadcast_of subs head l s) # sent else sent, db2))
      else send_to_subs subs l head broadcasts create rest db)"
proof (cases "ParseLog (subs s) l")
  case (Some d)
  obtain ok db1 where c: "created subs l broadcasts create s db = (ok, db1)" by fastforce
  show ?thesis
    using Some c
    by (simp add: Let_def should_send_def broadcast_of_def created_def not_le split: prod.splits)
qed (simp add: Let_def should_send_def)

declare send_to_subs.simps(2) [simp del]

lemma send_to_subs_sound:
  "(s, b) \<in> set (fst (send_to_subs subs l head broadcasts create m db)) \<Longrightarrow>
     b = broadcast_of subs head l s \<and> (\<exists>f. (s, f) \<in> set m \<and> should_send subs broadcasts l s f)"
proof (induction m arbitrary: db)
  case (Cons x m)
  obtain s' f' where x: "x = (s', f')" by fastforce
  from Cons.prems have "(s, b) = (s', broadcast_of subs head l s') \<and> should_send subs broadcasts l s' f'
      \<or> (\<exists>db. (s, b) \<in> set (fst (send_to_subs subs l head broadcasts create m db)))"
    unfolding x send_to_subs_Cons by (auto simp: case_prod_beta split: if_splits)
  then show ?case using Cons.IH x by auto
qed simp

lemma send_to_subs_complete:
  assumes "\<And>h n i j db. fst (create h n i j db)"
  shows "(s, f) \<in> set m \<Longrightarrow> should_send subs broadcasts l s f \<Longrightarrow>
     (s, broadcast_of subs head l s) \<in> set (fst (send_to_subs subs l head broadcasts create m db))"
proof (induction m arbitrary: db)
  case (Cons x m)
  obtain s' f' where x: "x = (s', f')" by fastforce
  have "fst (created subs l broadcasts create s' db)" by (simp add: created_def assms)
  with Cons x show ?case unfolding x send_to_subs_Cons by (auto simp: case_prod_beta)
qed simp

text \<open>Bounds on what a loop of sends delivers: every call returns, delivering at least \<open>L\<close> and at
  most \<open>T\<close>.\<close>

definition sends_within :: "('a list \<times> 'db) run \<Rightarrow> 'a set \<Rightarrow> 'a set \<Rightarrow> bool" where
  "sends_within m L T \<longleftrightarrow> (\<exists>sent db. m = Ret (sent, db) \<and> L \<subseteq> set sent \<and> set sent \<subseteq> T)"

lemma sends_within_seq:
  assumes "sends_within m L T" and "\<And>db. sends_within (f db) L' T'"
  shows "sends_within (run_bind m (\<lambda>(sent, db). run_map (\<lambda>(sent', db'). (sent @ sent', db')) (f db)))
           (L \<union> L') (T \<union> T')"
proof -
  obtain sent db where m: "m = Ret (sent, db)" "L \<subseteq> set sent" "set sent \<subseteq> T"
    using assms(1) unfolding sends_within_def by blast
  obtain sent' db' where "f db = Ret (sent', db')" "L' \<subseteq> set sent'" "set sent' \<subseteq> T'"
    using assms(2) [of db] unfolding sends_within_def by blast
  with m show ?thesis by (auto simp: sends_within_def)
qed

lemma sends_within_Nil: "sends_within (Ret ([], db)) {} {}"
  by (simp add: sends_within_def)

lemma send_each_log_within:
  assumes "\<And>l db. l \<in> set ls \<Longrightarrow> sends_within (f l db) (L l) (T l)"
  shows "sends_within (send_each_log f ls db) (\<Union>l\<in>set ls. L l) (\<Union>l\<in>set ls. T l)"
  using assms
proof (induction ls arbitrary: db)
  case (Cons l ls)
  show ?case
    using sends_within_seq [OF Cons.prems [of l db] Cons.IH] Cons.prems by simp
qed (simp add: sends_within_Nil)

definition old_enough_union ::
    "(32 word \<times> handler) list \<Rightarrow> 64 word \<Rightarrow> logsOnBlock \<Rightarrow> (32 word \<Rightarrow> handler \<Rightarrow> Log \<Rightarrow> 'a set) \<Rightarrow> 'a set" where
  "old_enough_union hs latest b T =
     (\<Union>(c, h)\<in>set hs. if isOldEnough c (BlockNumber b) latest then \<Union>l\<in>set (Logs b). T c h l else {})"

lemma send_to_handlers_within:
  assumes "\<And>c h l db. (c, h) \<in> set hs \<Longrightarrow> isOldEnough c (BlockNumber b) latest \<Longrightarrow> l \<in> set (Logs b) \<Longrightarrow>
      sends_within (f h l db) (L c h l) (T c h l)"
  shows "sends_within (send_to_handlers f latest b hs db) (old_enough_union hs latest b L) (old_enough_union hs latest b T)"
  using assms
proof (induction hs arbitrary: db)
  case (Cons x hs)
  obtain c h where x: "x = (c, h)" by fastforce
  have one: "sends_within (if isOldEnough c (BlockNumber b) latest then send_each_log (f h) (Logs b) db else Ret ([], db))
      (if isOldEnough c (BlockNumber b) latest then \<Union>l\<in>set (Logs b). L c h l else {})
      (if isOldEnough c (BlockNumber b) latest then \<Union>l\<in>set (Logs b). T c h l else {})"
  proof (cases "isOldEnough c (BlockNumber b) latest")
    case True
    then have "sends_within (f h l db) (L c h l) (T c h l)" if "l \<in> set (Logs b)" for l db
      using that x by (intro Cons.prems) simp_all
    then show ?thesis using send_each_log_within [of "Logs b" "f h" "L c h" "T c h" db] True by simp
  qed (simp add: sends_within_Nil)
  have "sends_within (send_to_handlers f latest b hs db) (old_enough_union hs latest b L) (old_enough_union hs latest b T)"
    for db by (rule Cons.IH) (rule Cons.prems; simp)
  from sends_within_seq [OF one this] show ?case unfolding x by (simp add: old_enough_union_def)
qed (simp add: sends_within_Nil old_enough_union_def)

lemma send_blocks_within:
  assumes "\<And>b c h l db. b \<in> set bs \<Longrightarrow> (c, h) \<in> set hs \<Longrightarrow> isOldEnough c (BlockNumber b) latest \<Longrightarrow>
      l \<in> set (Logs b) \<Longrightarrow> sends_within (f h l db) (L c h l) (T c h l)"
  shows "sends_within (send_blocks f latest hs bs db)
    (\<Union>b\<in>set bs. old_enough_union hs latest b L) (\<Union>b\<in>set bs. old_enough_union hs latest b T)"
  using assms
proof (induction bs arbitrary: db)
  case (Cons b bs)
  have one: "sends_within (send_to_handlers f latest b hs db) (old_enough_union hs latest b L) (old_enough_union hs latest b T)"
    by (rule send_to_handlers_within) (rule Cons.prems; simp)
  have "sends_within (send_blocks f latest hs bs db)
    (\<Union>b\<in>set bs. old_enough_union hs latest b L) (\<Union>b\<in>set bs. old_enough_union hs latest b T)" for db
    by (rule Cons.IH) (rule Cons.prems; simp)
  from sends_within_seq [OF one this] show ?case by simp
qed (simp add: sends_within_Nil)

definition existing_broadcasts :: "LogBroadcast list \<Rightarrow> LogBroadcastAsKey \<Rightarrow> bool option" where
  "existing_broadcasts bs = foldl (\<lambda>m b. m(AsKey b \<mapsto> lb_Consumed b)) Map.empty bs"

text \<open>What must reach the listeners: each log of each batch, for each subscriber of its contract and
  first topic that asks for no more confirmations than the block has, has not consumed the log, and
  whose filters and parser accept it.\<close>

definition due ::
    "(nat \<Rightarrow> subscriber) \<Rightarrow> nat set \<Rightarrow> logsOnBlock list \<Rightarrow> Head \<Rightarrow> LogBroadcast list \<Rightarrow> (nat \<times> broadcast) set" where
  "due subs S bs head broadcasts =
     {(s, broadcast_of subs head l s) | s l b f. b \<in> set bs \<and> l \<in> set (Logs b) \<and> s \<in> S
        \<and> Contract (subs s) = LogAddress l
        \<and> isOldEnough (MinIncomingConfirmations (subs s)) (BlockNumber b) (word_of_int (Number head))
        \<and> map_of (LogsWithTopics (subs s)) (hd (LogTopics l)) = Some f
        \<and> should_send subs (existing_broadcasts broadcasts) l s f}"

definition handler_due ::
    "(nat \<Rightarrow> subscriber) \<Rightarrow> nat set \<Rightarrow> Head \<Rightarrow> LogBroadcast list \<Rightarrow> 32 word \<Rightarrow> Log \<Rightarrow> (nat \<times> broadcast) set" where
  "handler_due subs S head broadcasts c l =
     {(s, broadcast_of subs head l s) | s f. s \<in> S \<and> MinIncomingConfirmations (subs s) = c
        \<and> Contract (subs s) = LogAddress l \<and> map_of (LogsWithTopics (subs s)) (hd (LogTopics l)) = Some f
        \<and> should_send subs (existing_broadcasts broadcasts) l s f}"

definition always_creates :: "'db creator \<Rightarrow> bool" where
  "always_creates create \<longleftrightarrow> (\<forall>a n i j db. fst (create a n i j db))"

lemma handler_sendLog_within:
  assumes inv: "reg_inv subs r" and h: "map_of (handlersByConfs r) c = Some h"
    and ord: "iteration_order ord" and l: "LogTopics l \<noteq> []"
  shows "sends_within (handler_sendLog ord subs l head (existing_broadcasts broadcasts) create h db)
    (if always_creates create then handler_due subs (set (registeredSubs r)) head broadcasts c l else {})
    (handler_due subs (set (registeredSubs r)) head broadcasts c l)"
proof -
  let ?ex = "existing_broadcasts broadcasts" and ?T = "handler_due subs (set (registeredSubs r)) head broadcasts c l"
  obtain topic rest where topics: "LogTopics l = topic # rest" using l by (cases "LogTopics l") auto
  define m where "m = ord (map_get [] (lookup_topic h (LogAddress l)) topic)"
  have "distinct (map fst (map_get [] (lookup_topic h (LogAddress l)) topic))"
    using topics_wf_subs [OF handler_wf_topics [OF reg_inv_handler(1) [OF inv h]], of "LogAddress l" topic]
    by (simp add: lookup_topic_def map_get_def)
  then have "(s, f) \<in> set m \<longleftrightarrow> sub_get h (LogAddress l) topic s = Some f" for s f
    using ord by (simp add: m_def iteration_order_set sub_get_alt lookup_topic_def map_get_def)
  then have m: "(s, f) \<in> set m \<longleftrightarrow> s \<in> set (registeredSubs r) \<and> MinIncomingConfirmations (subs s) = c
      \<and> Contract (subs s) = LogAddress l \<and> map_of (LogsWithTopics (subs s)) topic = Some f" for s f
    unfolding reg_inv_handler(4) [OF inv h] wanted_Some .
  obtain sent db' where sent: "send_to_subs subs l head ?ex create m db = (sent, db')" by fastforce
  have run: "handler_sendLog ord subs l head ?ex create h db = Ret (sent, db')"
    using sent by (simp add: handler_sendLog_def topics m_def)
  have "set sent \<subseteq> ?T"
    using send_to_subs_sound [of _ _ subs l head ?ex create m db] sent m topics
    by (fastforce simp: handler_due_def)
  moreover have "?T \<subseteq> set sent" if "always_creates create"
    using send_to_subs_complete [of create _ _ m subs ?ex l head db] that sent m topics
    by (fastforce simp: handler_due_def always_creates_def)
  ultimately show ?thesis unfolding run sends_within_def by auto
qed

lemma due_union:
  assumes inv: "reg_inv subs r" and ord: "iteration_order ord"
  shows "(\<Union>b\<in>set bs. old_enough_union (ord (handlersByConfs r)) (word_of_int (Number head)) b
           (\<lambda>c h. handler_due subs (set (registeredSubs r)) head broadcasts c))
         = due subs (set (registeredSubs r)) bs head broadcasts" (is "?U = ?D")
proof
  show "?U \<subseteq> ?D"
    by (fastforce simp: old_enough_union_def handler_due_def due_def split: if_splits)
  show "?D \<subseteq> ?U"
  proof
    fix x assume "x \<in> ?D"
    then obtain s l b f where x: "x = (s, broadcast_of subs head l s)" "b \<in> set bs" "l \<in> set (Logs b)"
      "s \<in> set (registeredSubs r)" "Contract (subs s) = LogAddress l"
      "isOldEnough (MinIncomingConfirmations (subs s)) (BlockNumber b) (word_of_int (Number head))"
      "map_of (LogsWithTopics (subs s)) (hd (LogTopics l)) = Some f"
      "should_send subs (existing_broadcasts broadcasts) l s f"
      unfolding due_def by blast
    obtain h where "map_of (handlersByConfs r) (MinIncomingConfirmations (subs s)) = Some h"
      by (rule reg_get_lookup [OF inv x(4)])
    then have h: "(MinIncomingConfirmations (subs s), h) \<in> set (ord (handlersByConfs r))"
      using handlers_set_iff [OF inv] iteration_order_set [OF ord] by blast
    have "x \<in> handler_due subs (set (registeredSubs r)) head broadcasts (MinIncomingConfirmations (subs s)) l"
      using x unfolding handler_due_def by blast
    with h x(2,3,6) show "x \<in> ?U" unfolding old_enough_union_def by fastforce
  qed
qed

lemma sendLogs_within:
  assumes inv: "reg_inv subs r" and ords: "iteration_order ordH" "iteration_order ordS"
    and topics: "\<And>b l. b \<in> set bs \<Longrightarrow> l \<in> set (Logs b) \<Longrightarrow> LogTopics l \<noteq> []"
  shows "sends_within (sendLogs ordH ordS subs bs head broadcasts create r db)
    (if always_creates create then due subs (set (registeredSubs r)) bs head broadcasts else {})
    (due subs (set (registeredSubs r)) bs head broadcasts)"
proof -
  let ?T = "\<lambda>c h. handler_due subs (set (registeredSubs r)) head broadcasts c"
  let ?L = "\<lambda>c h l. if always_creates create then handler_due subs (set (registeredSubs r)) head broadcasts c l else {}"
  have "sends_within (handler_sendLog ordS subs l head (existing_broadcasts broadcasts) create h db) (?L c h l) (?T c h l)"
    if "b \<in> set bs" "(c, h) \<in> set (ordH (handlersByConfs r))" "l \<in> set (Logs b)" for b c h l db
    using that topics handlers_set_iff [OF inv] iteration_order_set [OF ords(1)]
    by (intro handler_sendLog_within [OF inv _ ords(2)]) auto
  then have "sends_within (send_blocks (\<lambda>h l. handler_sendLog ordS subs l head (existing_broadcasts broadcasts) create h)
        (word_of_int (Number head)) (ordH (handlersByConfs r)) bs db)
      (\<Union>b\<in>set bs. old_enough_union (ordH (handlersByConfs r)) (word_of_int (Number head)) b ?L)
      (\<Union>b\<in>set bs. old_enough_union (ordH (handlersByConfs r)) (word_of_int (Number head)) b ?T)"
    by (rule send_blocks_within)
  moreover have "(\<Union>b\<in>set bs. old_enough_union (ordH (handlersByConfs r)) (word_of_int (Number head)) b ?L)
      = (if always_creates create then due subs (set (registeredSubs r)) bs head broadcasts else {})"
  proof (cases "always_creates create")
    case True
    with due_union [OF inv ords(1)] show ?thesis by simp
  qed (auto simp: old_enough_union_def split: if_splits)
  ultimately show ?thesis
    unfolding sendLogs_def Let_def due_union [OF inv ords(1)] existing_broadcasts_def [symmetric] by simp
qed

section \<open>What a send does to the database\<close>

definition run_keeps :: "('db \<Rightarrow> bool) \<Rightarrow> ('db \<Rightarrow> ('a \<times> 'db) run) \<Rightarrow> bool" where
  "run_keeps P g \<longleftrightarrow> (\<forall>db sent db'. P db \<longrightarrow> g db = Ret (sent, db') \<longrightarrow> P db')"

lemma run_keeps_seq:
  assumes "run_keeps P g" and "run_keeps P g'"
  shows "run_keeps P (\<lambda>db. run_bind (g db) (\<lambda>(sent, db1). run_map (\<lambda>(sent', db2). (sent @ sent', db2)) (g' db1)))"
  unfolding run_keeps_def
proof (intro allI impI)
  fix db sent db' assume P: "P db"
    and eq: "run_bind (g db) (\<lambda>(sent, db1). run_map (\<lambda>(sent', db2). (sent @ sent', db2)) (g' db1)) = Ret (sent, db')"
  then obtain s1 db1 where g: "g db = Ret (s1, db1)" by (cases "g db") auto
  with eq obtain s2 where "g' db1 = Ret (s2, db')" by (cases "g' db1") auto
  moreover have "P db1" using assms(1) P g unfolding run_keeps_def by blast
  ultimately show "P db'" using assms(2) unfolding run_keeps_def by blast
qed

lemma run_keeps_Ret: "run_keeps P (\<lambda>db. Ret (x, db))"
  by (simp add: run_keeps_def)

lemma run_keeps_if: "run_keeps P g \<Longrightarrow> run_keeps P g' \<Longrightarrow> run_keeps P (\<lambda>db. if c then g db else g' db)"
  by (cases c) simp_all

lemma send_to_subs_keeps:
  assumes "\<And>j db. P db \<Longrightarrow> P (snd (create (LogBlockHash l) (LogBlockNumber l) (LogIndex l) j db))"
  shows "P db \<Longrightarrow> P (snd (send_to_subs subs l head broadcasts create m db))"
proof (induction m arbitrary: db)
  case (Cons x m)
  obtain s f where x: "x = (s, f)" by fastforce
  have "P (snd (created subs l broadcasts create s db))"
    using assms [OF Cons.prems] Cons.prems by (simp add: created_def)
  from Cons.IH [OF this] Cons.IH [OF Cons.prems] show ?case
    unfolding x send_to_subs_Cons Let_def case_prod_beta by simp
qed simp

lemma sendLogs_keeps:
  assumes "\<And>l j db. l \<in> set (concat (map Logs bs)) \<Longrightarrow> P db \<Longrightarrow>
      P (snd (create (LogBlockHash l) (LogBlockNumber l) (LogIndex l) j db))"
    and "P db" and "sendLogs ordH ordS subs bs head broadcasts create r db = Ret (sent, db')"
  shows "P db'"
proof -
  let ?f = "\<lambda>h l. handler_sendLog ordS subs l head (existing_broadcasts broadcasts) create h"
  have one: "run_keeps P (?f h l)" if "l \<in> set (concat (map Logs bs))" for h l
    using send_to_subs_keeps [of P create l] assms(1) [OF that]
    unfolding run_keeps_def handler_sendLog_def by (auto split: list.splits) (metis snd_conv)
  have logs: "run_keeps P (send_each_log (?f h) ls)" if "set ls \<subseteq> set (concat (map Logs bs))" for h ls
    using that
  proof (induction ls)
    case (Cons l ls)
    then show ?case using run_keeps_seq [OF one [of l h]] by simp
  qed (simp add: run_keeps_Ret fun_eq_iff run_keeps_def)
  have handlers: "run_keeps P (send_to_handlers ?f latest b hs)" if "b \<in> set bs" for b latest hs
  proof (induction hs)
    case (Cons x hs)
    obtain c h where x: "x = (c, h)" by fastforce
    have "run_keeps P (\<lambda>db. if isOldEnough c (BlockNumber b) latest then send_each_log (?f h) (Logs b) db else Ret ([], db))"
      using that by (intro run_keeps_if run_keeps_Ret logs) auto
    from run_keeps_seq [OF this Cons] show ?case by (simp add: x)
  qed (simp add: run_keeps_def)
  have "run_keeps P (send_blocks ?f latest hs cs)" if "set cs \<subseteq> set bs" for latest hs cs
    using that
  proof (induction cs)
    case (Cons c cs)
    then show ?case using run_keeps_seq [OF handlers [of c latest hs]] by simp
  qed (simp add: run_keeps_def)
  then show ?thesis
    using assms(2,3) unfolding sendLogs_def Let_def existing_broadcasts_def [symmetric] run_keeps_def by blast
qed

section \<open>A database that accepts every new broadcast\<close>

text \<open>\<open>ks\<close> gives the broadcast keys a database state holds. A send that starts from a state holding
  none of the keys \<open>K\<close> delivers exactly \<open>T\<close> and adds no key outside \<open>K\<close>.\<close>

definition sends_all ::
    "('db \<Rightarrow> LogBroadcastAsKey set) \<Rightarrow> ('db \<Rightarrow> ('a list \<times> 'db) run) \<Rightarrow> 'a set \<Rightarrow> LogBroadcastAsKey set \<Rightarrow> bool" where
  "sends_all ks g T K \<longleftrightarrow> (\<forall>db. K \<inter> ks db = {} \<longrightarrow>
     (\<exists>sent db'. g db = Ret (sent, db') \<and> set sent = T \<and> ks db' \<subseteq> ks db \<union> K))"

definition accepts :: "('db \<Rightarrow> LogBroadcastAsKey set) \<Rightarrow> (nat \<Rightarrow> 64 word) \<Rightarrow> 'db creator \<Rightarrow> bool" where
  "accepts ks num_of create \<longleftrightarrow> (\<forall>h i j db. \<lparr>key_BlockHash = h, key_LogIndex = i, key_JobId = j\<rparr> \<notin> ks db \<longrightarrow>
     fst (create h (num_of h) i j db)
     \<and> ks (snd (create h (num_of h) i j db)) \<subseteq> insert \<lparr>key_BlockHash = h, key_LogIndex = i, key_JobId = j\<rparr> (ks db))"

lemma sends_all_seq:
  assumes "sends_all ks g T K" and "sends_all ks g' T' K'" and "K \<inter> K' = {}"
  shows "sends_all ks (\<lambda>db. run_bind (g db) (\<lambda>(sent, db1). run_map (\<lambda>(sent', db2). (sent @ sent', db2)) (g' db1)))
           (T \<union> T') (K \<union> K')"
  unfolding sends_all_def
proof (intro allI impI)
  fix db assume free: "(K \<union> K') \<inter> ks db = {}"
  then have "K \<inter> ks db = {}" by blast
  then obtain sent db1 where 1: "g db = Ret (sent, db1)" "set sent = T" "ks db1 \<subseteq> ks db \<union> K"
    using assms(1) unfolding sends_all_def by blast
  have "K' \<inter> ks db1 = {}" using free 1(3) assms(3) by blast
  then obtain sent' db2 where 2: "g' db1 = Ret (sent', db2)" "set sent' = T'" "ks db2 \<subseteq> ks db1 \<union> K'"
    using assms(2) unfolding sends_all_def by blast
  show "\<exists>sent db'. run_bind (g db) (\<lambda>(sent, db1). run_map (\<lambda>(sent', db2). (sent @ sent', db2)) (g' db1)) = Ret (sent, db')
      \<and> set sent = T \<union> T' \<and> ks db' \<subseteq> ks db \<union> (K \<union> K')"
    using 1 2 by auto
qed

lemma sends_all_Nil: "sends_all ks (\<lambda>db. Ret ([], db)) {} {}"
  by (simp add: sends_all_def)

lemma send_to_subs_all:
  assumes create: "accepts ks num_of create" and num: "num_of (LogBlockHash l) = LogBlockNumber l"
    and "distinct (map (\<lambda>(s, f). JobID (subs s)) m)"
  shows "sends_all ks (\<lambda>db. Ret (send_to_subs subs l head broadcasts create m db))
    {(s, broadcast_of subs head l s) | s f. (s, f) \<in> set m \<and> should_send subs broadcasts l s f}
    {k. \<exists>(s, f)\<in>set m. k = NewLogBroadcastAsKey l (JobID (subs s)) \<and> should_send subs broadcasts l s f \<and> broadcasts k = None}"
  using assms(3)
proof (induction m)
  case Nil
  then show ?case by (simp add: sends_all_def)
next
  case (Cons x m)
  obtain s f where x: "x = (s, f)" by fastforce
  let ?key = "NewLogBroadcastAsKey l (JobID (subs s))"
  let ?T = "{(s, broadcast_of subs head l s) | s f. (s, f) \<in> set m \<and> should_send subs broadcasts l s f}"
  let ?K = "{k. \<exists>(s, f)\<in>set m. k = NewLogBroadcastAsKey l (JobID (subs s)) \<and> should_send subs broadcasts l s f \<and> broadcasts k = None}"
  have IH: "sends_all ks (\<lambda>db. Ret (send_to_subs subs l head broadcasts create m db)) ?T ?K"
    using Cons by simp
  show ?case
  proof (cases "should_send subs broadcasts l s f")
    case False
    then have "{(s, broadcast_of subs head l s) | s f. (s, f) \<in> set (x # m) \<and> should_send subs broadcasts l s f} = ?T"
      and "{k. \<exists>(s, f)\<in>set (x # m). k = NewLogBroadcastAsKey l (JobID (subs s)) \<and> should_send subs broadcasts l s f
        \<and> broadcasts k = None} = ?K"
      using x by auto
    moreover have "send_to_subs subs l head broadcasts create (x # m) db = send_to_subs subs l head broadcasts create m db" for db
      unfolding x send_to_subs_Cons using False by simp
    ultimately show ?thesis using IH by (simp only:)
  next
    case True
    have "?key \<notin> ?K" using Cons.prems x by (force simp: NewLogBroadcastAsKey_def)
    moreover have "sends_all ks (\<lambda>db. Ret (if fst (created subs l broadcasts create s db) then [(s, broadcast_of subs head l s)] else [],
          snd (created subs l broadcasts create s db)))
        {(s, broadcast_of subs head l s)} (if broadcasts ?key = None then {?key} else {})"
    proof -
      have new: "fst (create (LogBlockHash l) (LogBlockNumber l) (LogIndex l) (JobID (subs s)) db)
          \<and> ks (snd (create (LogBlockHash l) (LogBlockNumber l) (LogIndex l) (JobID (subs s)) db)) \<subseteq> insert ?key (ks db)"
        if "?key \<notin> ks db" for db
        using create that num unfolding accepts_def NewLogBroadcastAsKey_def by metis
      then show ?thesis by (auto simp: sends_all_def created_def)
    qed
    ultimately have "sends_all ks (\<lambda>db. run_bind (Ret (if fst (created subs l broadcasts create s db) then [(s, broadcast_of subs head l s)] else [],
          snd (created subs l broadcasts create s db))) (\<lambda>(sent, db1). run_map (\<lambda>(sent', db2). (sent @ sent', db2))
            (Ret (send_to_subs subs l head broadcasts create m db1))))
        ({(s, broadcast_of subs head l s)} \<union> ?T) ((if broadcasts ?key = None then {?key} else {}) \<union> ?K)"
      by (intro sends_all_seq IH) auto
    moreover have "{(s, broadcast_of subs head l s)} \<union> ?T =
        {(s, broadcast_of subs head l s) | s f. (s, f) \<in> set (x # m) \<and> should_send subs broadcasts l s f}"
      using True x by auto
    moreover have "(if broadcasts ?key = None then {?key} else {}) \<union> ?K = {k. \<exists>(s, f)\<in>set (x # m).
        k = NewLogBroadcastAsKey l (JobID (subs s)) \<and> should_send subs broadcasts l s f \<and> broadcasts k = None}"
      using True x by auto
    moreover have "run_bind (Ret (if fst (created subs l broadcasts create s db) then [(s, broadcast_of subs head l s)] else [],
          snd (created subs l broadcasts create s db))) (\<lambda>(sent, db1). run_map (\<lambda>(sent', db2). (sent @ sent', db2))
            (Ret (send_to_subs subs l head broadcasts create m db1)))
        = Ret (send_to_subs subs l head broadcasts create (x # m) db)" for db
      unfolding x send_to_subs_Cons using True by (simp add: case_prod_beta)
    ultimately show ?thesis by simp
  qed
qed

lemma send_each_log_all:
  assumes "\<And>l. l \<in> set ls \<Longrightarrow> sends_all ks (f l) (T l) (K l)" and "distinct ls"
    and "\<And>l l'. l \<in> set ls \<Longrightarrow> l' \<in> set ls \<Longrightarrow> l \<noteq> l' \<Longrightarrow> K l \<inter> K l' = {}"
  shows "sends_all ks (send_each_log f ls) (\<Union>l\<in>set ls. T l) (\<Union>l\<in>set ls. K l)"
  using assms
proof (induction ls)
  case Nil
  have "send_each_log f [] = (\<lambda>db. Ret ([], db))" by (simp add: fun_eq_iff)
  then show ?case by (simp add: sends_all_Nil)
next
  case (Cons l ls)
  have "K l \<inter> (\<Union>l\<in>set ls. K l) = {}" using Cons.prems(2,3) by fastforce
  from sends_all_seq [OF Cons.prems(1) [of l] Cons.IH this] Cons.prems
  have "sends_all ks (\<lambda>db. send_each_log f (l # ls) db) (T l \<union> (\<Union>l\<in>set ls. T l)) (K l \<union> (\<Union>l\<in>set ls. K l))"
    by simp
  then show ?case by simp
qed

lemma old_enough_union_Cons:
  "old_enough_union ((c, h) # hs) latest b T =
     (if isOldEnough c (BlockNumber b) latest then \<Union>l\<in>set (Logs b). T c h l else {}) \<union> old_enough_union hs latest b T"
  by (simp add: old_enough_union_def)

lemma old_enough_unionE:
  assumes "x \<in> old_enough_union hs latest b T"
  obtains c h l where "(c, h) \<in> set hs" "l \<in> set (Logs b)" "x \<in> T c h l"
  using assms by (auto simp: old_enough_union_def split: if_splits)

lemma send_to_handlers_all:
  assumes "\<And>c h l. (c, h) \<in> set hs \<Longrightarrow> l \<in> set (Logs b) \<Longrightarrow> sends_all ks (f h l) (T c h l) (K c h l)"
    and "distinct hs" and "distinct (Logs b)"
    and "\<And>c h l c' h' l'. (c, h) \<in> set hs \<Longrightarrow> l \<in> set (Logs b) \<Longrightarrow> (c', h') \<in> set hs \<Longrightarrow> l' \<in> set (Logs b) \<Longrightarrow>
      (c, h, l) \<noteq> (c', h', l') \<Longrightarrow> K c h l \<inter> K c' h' l' = {}"
  shows "sends_all ks (send_to_handlers f latest b hs) (old_enough_union hs latest b T) (old_enough_union hs latest b K)"
  using assms(1,2,4)
proof (induction hs)
  case Nil
  have "send_to_handlers f latest b [] = (\<lambda>db. Ret ([], db))" by (simp add: fun_eq_iff)
  then show ?case by (simp add: sends_all_Nil old_enough_union_def)
next
  case (Cons x hs)
  obtain c h where x: "x = (c, h)" by fastforce
  have "sends_all ks (send_each_log (f h) (Logs b)) (\<Union>l\<in>set (Logs b). T c h l) (\<Union>l\<in>set (Logs b). K c h l)"
  proof (rule send_each_log_all [OF _ assms(3)])
    show "sends_all ks (f h l) (T c h l) (K c h l)" if "l \<in> set (Logs b)" for l
      using Cons.prems(1) [of c h l] that x by simp
    show "K c h l \<inter> K c h l' = {}" if "l \<in> set (Logs b)" "l' \<in> set (Logs b)" "l \<noteq> l'" for l l'
      using Cons.prems(3) [of c h l c h l'] that x by simp
  qed
  then have one: "sends_all ks (\<lambda>db. if isOldEnough c (BlockNumber b) latest then send_each_log (f h) (Logs b) db else Ret ([], db))
      (if isOldEnough c (BlockNumber b) latest then \<Union>l\<in>set (Logs b). T c h l else {})
      (if isOldEnough c (BlockNumber b) latest then \<Union>l\<in>set (Logs b). K c h l else {})"
    by (simp add: sends_all_Nil)
  have IH: "sends_all ks (send_to_handlers f latest b hs) (old_enough_union hs latest b T) (old_enough_union hs latest b K)"
    by (rule Cons.IH) (use Cons.prems in simp_all)
  have "(if isOldEnough c (BlockNumber b) latest then \<Union>l\<in>set (Logs b). K c h l else {}) \<inter> old_enough_union hs latest b K = {}"
  proof (rule equals0I)
    fix k assume k: "k \<in> (if isOldEnough c (BlockNumber b) latest then \<Union>l\<in>set (Logs b). K c h l else {})
        \<inter> old_enough_union hs latest b K"
    then obtain l where l: "l \<in> set (Logs b)" "k \<in> K c h l" by (auto split: if_splits)
    from k have "k \<in> old_enough_union hs latest b K" by blast
    then obtain c' h' l' where l': "(c', h') \<in> set hs" "l' \<in> set (Logs b)" "k \<in> K c' h' l'"
      by (rule old_enough_unionE)
    have "(c, h) \<noteq> (c', h')" using l'(1) Cons.prems(2) x by auto
    then show False using Cons.prems(3) [of c h l c' h' l'] l l' x by auto
  qed
  from sends_all_seq [OF one IH this] show ?case unfolding x old_enough_union_Cons by simp
qed

lemma send_blocks_all:
  assumes "\<And>b c h l. b \<in> set bs \<Longrightarrow> (c, h) \<in> set hs \<Longrightarrow> l \<in> set (Logs b) \<Longrightarrow> sends_all ks (f h l) (T c h l) (K c h l)"
    and "distinct hs" and "distinct (concat (map Logs bs))"
    and "\<And>b b' c h l c' h' l'. b \<in> set bs \<Longrightarrow> b' \<in> set bs \<Longrightarrow> (c, h) \<in> set hs \<Longrightarrow> l \<in> set (Logs b) \<Longrightarrow>
      (c', h') \<in> set hs \<Longrightarrow> l' \<in> set (Logs b') \<Longrightarrow> (c, h, l) \<noteq> (c', h', l') \<Longrightarrow> K c h l \<inter> K c' h' l' = {}"
  shows "sends_all ks (send_blocks f latest hs bs)
    (\<Union>b\<in>set bs. old_enough_union hs latest b T) (\<Union>b\<in>set bs. old_enough_union hs latest b K)"
  using assms(1,3,4)
proof (induction bs)
  case Nil
  have "send_blocks f latest hs [] = (\<lambda>db. Ret ([], db))" by (simp add: fun_eq_iff)
  then show ?case by (simp add: sends_all_Nil)
next
  case (Cons b bs)
  have one: "sends_all ks (send_to_handlers f latest b hs) (old_enough_union hs latest b T) (old_enough_union hs latest b K)"
  proof (rule send_to_handlers_all [OF _ assms(2)])
    show "distinct (Logs b)" using Cons.prems(2) by simp
    show "sends_all ks (f h l) (T c h l) (K c h l)" if "(c, h) \<in> set hs" "l \<in> set (Logs b)" for c h l
      using Cons.prems(1) [of b c h l] that by simp
    show "K c h l \<inter> K c' h' l' = {}"
      if "(c, h) \<in> set hs" "l \<in> set (Logs b)" "(c', h') \<in> set hs" "l' \<in> set (Logs b)" "(c, h, l) \<noteq> (c', h', l')" for c h l c' h' l'
      using Cons.prems(3) [of b b c h l c' h' l'] that by simp
  qed
  have IH: "sends_all ks (send_blocks f latest hs bs)
      (\<Union>b\<in>set bs. old_enough_union hs latest b T) (\<Union>b\<in>set bs. old_enough_union hs latest b K)"
  proof (rule Cons.IH)
    show "distinct (concat (map Logs bs))" using Cons.prems(2) by simp
    show "sends_all ks (f h l) (T c h l) (K c h l)" if "b' \<in> set bs" "(c, h) \<in> set hs" "l \<in> set (Logs b')" for b' c h l
      using Cons.prems(1) [of b' c h l] that by simp
    show "K c h l \<inter> K c' h' l' = {}"
      if "b1 \<in> set bs" "b2 \<in> set bs" "(c, h) \<in> set hs" "l \<in> set (Logs b1)" "(c', h') \<in> set hs" "l' \<in> set (Logs b2)"
        "(c, h, l) \<noteq> (c', h', l')" for b1 b2 c h l c' h' l'
      using Cons.prems(3) [of b1 b2 c h l c' h' l'] that by simp
  qed
  have "old_enough_union hs latest b K \<inter> (\<Union>b\<in>set bs. old_enough_union hs latest b K) = {}"
  proof (rule equals0I)
    fix k assume k: "k \<in> old_enough_union hs latest b K \<inter> (\<Union>b\<in>set bs. old_enough_union hs latest b K)"
    then have "k \<in> old_enough_union hs latest b K" by blast
    then obtain c h l where l: "(c, h) \<in> set hs" "l \<in> set (Logs b)" "k \<in> K c h l" by (rule old_enough_unionE)
    from k obtain b' where b': "b' \<in> set bs" "k \<in> old_enough_union hs latest b' K" by blast
    from b'(2) obtain c' h' l' where l': "(c', h') \<in> set hs" "l' \<in> set (Logs b')" "k \<in> K c' h' l'"
      by (rule old_enough_unionE)
    have "l \<noteq> l'" using l(2) l'(2) b'(1) Cons.prems(2) by auto
    then show False using Cons.prems(3) [of b b' c h l c' h' l'] l l' b'(1) by auto
  qed
  from sends_all_seq [OF one IH this] show ?case by simp
qed

definition creation_keys ::
    "(nat \<Rightarrow> subscriber) \<Rightarrow> nat set \<Rightarrow> LogBroadcast list \<Rightarrow> 32 word \<Rightarrow> Log \<Rightarrow> LogBroadcastAsKey set" where
  "creation_keys subs S broadcasts c l =
     {NewLogBroadcastAsKey l (JobID (subs s)) | s. s \<in> S \<and> MinIncomingConfirmations (subs s) = c
        \<and> Contract (subs s) = LogAddress l
        \<and> existing_broadcasts broadcasts (NewLogBroadcastAsKey l (JobID (subs s))) = None}"

lemma sends_all_weaken: "sends_all ks g T K \<Longrightarrow> K \<subseteq> K' \<Longrightarrow> sends_all ks g T K'"
  unfolding sends_all_def by blast

lemma handler_sendLog_all:
  assumes inv: "reg_inv subs r" and h: "map_of (handlersByConfs r) c = Some h"
    and ord: "iteration_order ord" and l: "LogTopics l \<noteq> []"
    and create: "accepts ks num_of create" and num: "num_of (LogBlockHash l) = LogBlockNumber l"
  shows "sends_all ks (handler_sendLog ord subs l head (existing_broadcasts broadcasts) create h)
    (handler_due subs (set (registeredSubs r)) head broadcasts c l)
    (creation_keys subs (set (registeredSubs r)) broadcasts c l)"
proof -
  let ?ex = "existing_broadcasts broadcasts" and ?R = "set (registeredSubs r)"
  obtain topic rest where topics: "LogTopics l = topic # rest" using l by (cases "LogTopics l") auto
  define m where "m = ord (map_get [] (lookup_topic h (LogAddress l)) topic)"
  have dist: "distinct (map fst (map_get [] (lookup_topic h (LogAddress l)) topic))"
    using topics_wf_subs [OF handler_wf_topics [OF reg_inv_handler(1) [OF inv h]], of "LogAddress l" topic]
    by (simp add: lookup_topic_def map_get_def)
  then have "(s, f) \<in> set m \<longleftrightarrow> sub_get h (LogAddress l) topic s = Some f" for s f
    using ord by (simp add: m_def iteration_order_set sub_get_alt lookup_topic_def map_get_def)
  then have m: "(s, f) \<in> set m \<longleftrightarrow> s \<in> ?R \<and> MinIncomingConfirmations (subs s) = c
      \<and> Contract (subs s) = LogAddress l \<and> map_of (LogsWithTopics (subs s)) topic = Some f" for s f
    unfolding reg_inv_handler(4) [OF inv h] wanted_Some .
  have "distinct (map fst m)"
    using map_of_order(2) [OF _ dist] ord by (simp add: m_def iteration_order_def)
  moreover have "inj_on (\<lambda>s. JobID (subs s)) (fst ` set m)"
  proof (rule inj_onI)
    fix s s' assume "s \<in> fst ` set m" "s' \<in> fst ` set m" and job: "JobID (subs s) = JobID (subs s')"
    then have "s \<in> ?R" "s' \<in> ?R" "Contract (subs s) = Contract (subs s')" using m by auto
    with job inv show "s = s'" unfolding reg_inv_def inj_on_def by auto
  qed
  ultimately have "distinct (map (\<lambda>s. JobID (subs s)) (map fst m))"
    by (simp add: distinct_map del: map_map)
  then have jobs: "distinct (map (\<lambda>(s, f). JobID (subs s)) m)"
    by (simp add: comp_def case_prod_beta')
  have run: "handler_sendLog ord subs l head ?ex create h = (\<lambda>db. Ret (send_to_subs subs l head ?ex create m db))"
    by (simp add: handler_sendLog_def topics m_def fun_eq_iff)
  have T: "handler_due subs ?R head broadcasts c l
      = {(s, broadcast_of subs head l s) | s f. (s, f) \<in> set m \<and> should_send subs ?ex l s f}"
    unfolding m handler_due_def by (auto simp: topics)
  have K: "{k. \<exists>(s, f)\<in>set m. k = NewLogBroadcastAsKey l (JobID (subs s)) \<and> should_send subs ?ex l s f \<and> ?ex k = None}
      \<subseteq> creation_keys subs ?R broadcasts c l"
    using m by (auto simp: creation_keys_def)
  show ?thesis
    unfolding run T by (rule sends_all_weaken [OF send_to_subs_all [OF create num jobs] K])
qed

lemma sendLogs_all:
  assumes inv: "reg_inv subs r" and ords: "iteration_order ordH" "iteration_order ordS"
    and topics: "\<And>l. l \<in> set (concat (map Logs bs)) \<Longrightarrow> LogTopics l \<noteq> [] \<and> num_of (LogBlockHash l) = LogBlockNumber l"
    and create: "accepts ks num_of create" and dist: "distinct (concat (map Logs bs))"
    and index: "\<And>l l'. l \<in> set (concat (map Logs bs)) \<Longrightarrow> l' \<in> set (concat (map Logs bs)) \<Longrightarrow>
      LogBlockHash l = LogBlockHash l' \<Longrightarrow> LogIndex l = LogIndex l' \<Longrightarrow> l = l'"
    and fresh: "\<And>l s. l \<in> set (concat (map Logs bs)) \<Longrightarrow> NewLogBroadcastAsKey l (JobID (subs s)) \<in> ks db \<Longrightarrow>
      existing_broadcasts broadcasts (NewLogBroadcastAsKey l (JobID (subs s))) \<noteq> None"
  shows "\<exists>sent db'. sendLogs ordH ordS subs bs head broadcasts create r db = Ret (sent, db')
    \<and> set sent = due subs (set (registeredSubs r)) bs head broadcasts"
proof -
  let ?R = "set (registeredSubs r)"
  let ?T = "\<lambda>c (h :: handler). handler_due subs ?R head broadcasts c"
  let ?K = "\<lambda>c (h :: handler). creation_keys subs ?R broadcasts c"
  have hs: "distinct (ordH (handlersByConfs r))" "\<And>c h. (c, h) \<in> set (ordH (handlersByConfs r)) \<longleftrightarrow> map_of (handlersByConfs r) c = Some h"
    using inv handlers_set_iff [OF inv] ords(1)
    by (auto simp: iteration_order_distinct iteration_order_set reg_inv_def distinct_map)
  have disj: "?K c h l \<inter> ?K c' h' l' = {}"
    if "(c, h) \<in> set (ordH (handlersByConfs r))" "(c', h') \<in> set (ordH (handlersByConfs r))"
      "l \<in> set (concat (map Logs bs))" "l' \<in> set (concat (map Logs bs))" "(c, h, l) \<noteq> (c', h', l')" for c h l c' h' l'
  proof (rule equals0I)
    fix k assume "k \<in> ?K c h l \<inter> ?K c' h' l'"
    then obtain s s' where s: "s \<in> ?R" "s' \<in> ?R" "MinIncomingConfirmations (subs s) = c"
      "MinIncomingConfirmations (subs s') = c'" "Contract (subs s) = LogAddress l" "Contract (subs s') = LogAddress l'"
      "NewLogBroadcastAsKey l (JobID (subs s)) = NewLogBroadcastAsKey l' (JobID (subs s'))"
      unfolding creation_keys_def by blast
    then have "l = l'" using index [OF that(3,4)] by (simp add: NewLogBroadcastAsKey_def)
    moreover from this s have "s = s'"
      using inv unfolding reg_inv_def inj_on_def by (auto simp: NewLogBroadcastAsKey_def)
    ultimately show False using that(1,2,5) s(3,4) hs(2) by auto
  qed
  have "sends_all ks (send_blocks (\<lambda>h l. handler_sendLog ordS subs l head (existing_broadcasts broadcasts) create h)
        (word_of_int (Number head)) (ordH (handlersByConfs r)) bs)
      (\<Union>b\<in>set bs. old_enough_union (ordH (handlersByConfs r)) (word_of_int (Number head)) b ?T)
      (\<Union>b\<in>set bs. old_enough_union (ordH (handlersByConfs r)) (word_of_int (Number head)) b ?K)"
  proof (rule send_blocks_all [OF _ hs(1) dist])
    fix b c h l assume l: "b \<in> set bs" "(c, h) \<in> set (ordH (handlersByConfs r))" "l \<in> set (Logs b)"
    then have "l \<in> set (concat (map Logs bs))" by auto
    with l show "sends_all ks (handler_sendLog ordS subs l head (existing_broadcasts broadcasts) create h) (?T c h l) (?K c h l)"
      using topics hs(2) by (intro handler_sendLog_all [OF inv _ ords(2) _ create]) auto
  next
    fix b b' c h l c' h' l'
    assume "b \<in> set bs" "b' \<in> set bs" "(c, h) \<in> set (ordH (handlersByConfs r))" "l \<in> set (Logs b)"
      "(c', h') \<in> set (ordH (handlersByConfs r))" "l' \<in> set (Logs b')" "(c, h, l) \<noteq> (c', h', l')"
    then show "?K c h l \<inter> ?K c' h' l' = {}" by (intro disj) auto
  qed
  moreover have "(\<Union>b\<in>set bs. old_enough_union (ordH (handlersByConfs r)) (word_of_int (Number head)) b ?K) \<inter> ks db = {}"
  proof (rule equals0I)
    fix k assume k: "k \<in> (\<Union>b\<in>set bs. old_enough_union (ordH (handlersByConfs r)) (word_of_int (Number head)) b ?K) \<inter> ks db"
    then obtain b where "b \<in> set bs" "k \<in> old_enough_union (ordH (handlersByConfs r)) (word_of_int (Number head)) b ?K" by blast
    then obtain c h l where "b \<in> set bs" "l \<in> set (Logs b)" "k \<in> ?K c h l" using old_enough_unionE by metis
    then obtain s where "l \<in> set (concat (map Logs bs))" "k = NewLogBroadcastAsKey l (JobID (subs s))"
      "existing_broadcasts broadcasts k = None"
      unfolding creation_keys_def by auto
    then show False using fresh k by blast
  qed
  ultimately show ?thesis
    unfolding sends_all_def due_union [OF inv ords(1)] sendLogs_def Let_def existing_broadcasts_def [symmetric] by blast
qed

lemma isOldEnough_iff:
  assumes "c \<noteq> 0" and "uint n + uint c < 2 ^ 64"
  shows "isOldEnough c n latest \<longleftrightarrow> uint c \<le> uint latest \<and> uint n + uint c - 1 \<le> uint latest"
proof -
  have c: "uint (ucast c :: 64 word) = uint c"
    using uint_bounded [of c] by (simp add: unsigned_ucast_eq take_bit_int_eq_self)
  have pos: "0 < uint c" using assms(1) by (simp add: word_less_def order_less_le uint_0_iff)
  have "uint (n + ucast c) = uint n + uint c"
    using assms(2) by (simp add: uint_plus_if' c)
  moreover have "1 \<le> uint n + uint c" using pos uint_ge_0 [of n] by linarith
  ultimately have "uint (n + ucast c - 1) = uint n + uint c - 1" by (simp add: uint_sub_if')
  then show ?thesis using assms(1) by (auto simp: isOldEnough_def word_less_def word_le_def c)
qed

lemma filtersContainValues_iff:
  "filtersContainValues vs fs \<longleftrightarrow>
     (\<forall>i < min (length vs) (length fs). fs ! i = [] \<or> vs ! i \<in> set (fs ! i))"
proof (induction vs fs rule: filtersContainValues.induct)
  case (1 v vs f fs)
  then show ?case by (auto simp: less_Suc_eq_0_disj)
qed auto

section \<open>Properties\<close>

text \<open>C11: the registrations refine a set of subscribers. Whatever legal sequence of subscriptions and
  unsubscriptions is run, none of the sanity checks panics, a new subscription to the node is asked
  for exactly when some topic of the subscriber was not covered by the others (at as many
  confirmations, when it is added), and the addresses, topics and highest number of confirmations
  the broadcaster reads are those of the set.\<close>

theorem registrations_refine_set:
  assumes "iteration_order ord" and "legal_ops subs xs {}"
  shows "\<exists>r S. run_regs ord subs xs newRegistrations = Ret (r, resubscribe_flags subs xs {})
    \<and> S = foldl (\<lambda>S x. subs_after x S) {} xs \<and> set (registeredSubs r) = S
    \<and> set (fst (addressesAndTopics r)) = (\<lambda>s. Contract (subs s)) ` S
    \<and> set (snd (addressesAndTopics r)) = (\<Union>s\<in>S. fst ` set (LogsWithTopics (subs s)))
    \<and> (\<forall>a. isAddressRegistered a r \<longleftrightarrow> (\<exists>s\<in>S. Contract (subs s) = a))
    \<and> highestNumConfirmations r = Max (insert 0 ((\<lambda>s. MinIncomingConfirmations (subs s)) ` S))"
proof -
  have "set (registeredSubs newRegistrations) = {}" by (simp add: newRegistrations_def)
  then obtain r where r: "run_regs ord subs xs newRegistrations = Ret (r, resubscribe_flags subs xs {})"
    "reg_inv subs r" "set (registeredSubs r) = foldl (\<lambda>S x. subs_after x S) {} xs"
    using run_regs_correct [OF assms(1) newRegistrations_inv, of subs xs] assms(2) by auto
  show ?thesis
    using r(1,3) addressesAndTopics_correct [OF r(2)] isAddressRegistered_correct [OF r(2)]
      highestNumConfirmations_correct [OF r(2)] by auto
qed

definition example_subs :: "nat \<Rightarrow> subscriber" where
  "example_subs s = \<lparr>JobID = int s, Contract = 1, LogsWithTopics = [(7, [])], ParseLog = (\<lambda>l. Some 0),
     MinIncomingConfirmations = (if s = 0 then 3 else 1), hasReplayStartedCallback = False\<rparr>"

text \<open>The second subscriber asks for fewer confirmations than the first, so it needs no new
  subscription; when the first leaves, the second still covers the topic.\<close>

theorem registrations_refine_set_witness:
  "\<exists>r. run_regs rev example_subs [Subscribe 0, Subscribe 1, Unsubscribe 0] newRegistrations
       = Ret (r, [True, False, False]) \<and> set (registeredSubs r) = {1} \<and> highestNumConfirmations r = 1"
proof -
  have legal: "legal_ops example_subs [Subscribe 0, Subscribe 1, Unsubscribe 0] {}"
    by (simp add: sub_ok_def example_subs_def)
  have flags: "resubscribe_flags example_subs [Subscribe 0, Subscribe 1, Unsubscribe 0] {} = [True, False, False]"
    by (auto simp: example_subs_def)
  have "foldl (\<lambda>S x. subs_after x S) {} [Subscribe 0, Subscribe 1, Unsubscribe 0] = {1}" by auto
  then show ?thesis
    using registrations_refine_set [OF iteration_order_rev legal] unfolding flags
    by (auto simp: example_subs_def)
qed

text \<open>\<open>sendLogs\<close> delivers what is due. For registrations any legal sequence of operations built,
  it never panics on logs that have a topic, sends nothing that is not due, and sends everything
  that is due unless the database refuses a broadcast; in particular a log reaches no listener
  before its block has the confirmations the listener asked for, and none that consumed it.\<close>

theorem send_logs_exact:
  assumes "reg_inv subs r" and "iteration_order ordH" and "iteration_order ordS"
    and "\<forall>b\<in>set bs. \<forall>l\<in>set (Logs b). LogTopics l \<noteq> []"
  shows "\<exists>sent db'. sendLogs ordH ordS subs bs head broadcasts create r db = Ret (sent, db')
    \<and> set sent \<subseteq> due subs (set (registeredSubs r)) bs head broadcasts
    \<and> (always_creates create \<longrightarrow> set sent = due subs (set (registeredSubs r)) bs head broadcasts)"
  using sendLogs_within [OF assms(1-3), of bs head broadcasts create db] assms(4)
  unfolding sends_within_def by (auto split: if_splits)

lemma example_registered:
  "\<exists>r. reg_inv example_subs r \<and> set (registeredSubs r) = {0}"
  using reg_exec_correct [OF newRegistrations_inv iteration_order_id, of example_subs "Subscribe 0"]
  by (auto simp: newRegistrations_def sub_ok_def example_subs_def)

theorem send_logs_exact_witness:
  "\<exists>r sent db'. sendLogs rev rev example_subs [\<lparr>BlockNumber = 5, Logs = [example_log]\<rparr>]
       (NewHead 7 70 60 None) [] (\<lambda>a n i j db. (True, db)) r (0 :: nat) = Ret (sent, db') \<and> fst ` set sent = {0}"
proof -
  obtain r where r: "reg_inv example_subs r" "set (registeredSubs r) = {0}" using example_registered by blast
  have "fst ` due example_subs {0} [\<lparr>BlockNumber = 5, Logs = [example_log]\<rparr>] (NewHead 7 70 60 None) [] = {0}"
    by (auto simp: due_def example_subs_def example_log_def isOldEnough_def NewHead_def wrap64_def
        should_send_def existing_broadcasts_def image_iff)
  moreover have "always_creates (\<lambda>a n i j (db :: nat). (True, db))" by (simp add: always_creates_def)
  moreover have "\<forall>b\<in>set [\<lparr>BlockNumber = 5, Logs = [example_log]\<rparr>]. \<forall>l\<in>set (Logs b). LogTopics l \<noteq> []"
    by (simp add: example_log_def)
  ultimately show ?thesis
    using send_logs_exact [OF r(1) iteration_order_rev iteration_order_rev,
        of "[\<lparr>BlockNumber = 5, Logs = [example_log]\<rparr>]" "NewHead 7 70 60 None" "[]" "\<lambda>a n i j db. (True, db)" "0 :: nat"]
    unfolding r(2) by metis
qed

text \<open>the age test of \<open>sendLogs\<close>. For a listener that asks for \<open>c\<close> confirmations and a block
  number whose sum with \<open>c\<close> fits in 64 bits, a block is old enough exactly if the chain has at least
  \<open>c\<close> blocks and the block has at least \<open>c\<close> confirmations, itself included.\<close>

theorem old_enough_bound:
  assumes "c \<noteq> 0" and "uint n + uint c < 2 ^ 64"
  shows "isOldEnough c n latest \<longleftrightarrow> uint c \<le> uint latest \<and> uint c \<le> uint latest - uint n + 1"
  using isOldEnough_iff [OF assms, of latest] by auto

theorem old_enough_bound_witness: "isOldEnough 3 5 7 \<and> \<not> isOldEnough 3 6 7"
  using old_enough_bound [of 3 5 7] old_enough_bound [of 3 6 7] by simp

end
