(* ===== verification/LogORM.thy ===== *)
theory LogORM
  imports LogRegistrations
begin

text \<open>
  The log broadcaster's tables, \<open>core/chains/evm/log/orm.go\<close>: \<open>log_broadcasts\<close> (one row per job and
  log, unique in job, block hash and log index) and \<open>log_broadcasts_pending\<close> (one row per chain, the
  lowest block number still pending, possibly null), both restricted to the chain of the ORM. A
  statement that the database refuses leaves the tables as they were; a refusal for an outside
  reason is the argument \<open>up\<close> being false.
\<close>

section \<open>Tables\<close>

record lb_row =
  row_BlockHash :: nat
  row_BlockNumber :: "int option"
  row_LogIndex :: nat
  row_JobID :: int
  row_Consumed :: bool

record logdb =
  log_broadcasts :: "lb_row list"
  pending_block :: "int option"

definition row_key :: "lb_row \<Rightarrow> LogBroadcastAsKey" where
  "row_key x = \<lparr>key_BlockHash = row_BlockHash x, key_LogIndex = row_LogIndex x, key_JobId = row_JobID x\<rparr>"

definition logdb_ok :: "logdb \<Rightarrow> bool" where
  "logdb_ok db \<longleftrightarrow> distinct (map row_key (log_broadcasts db))"

section \<open>Statements\<close>

definition FindBroadcasts :: "int \<Rightarrow> int \<Rightarrow> logdb \<Rightarrow> LogBroadcast list" where
  "FindBroadcasts fromBlockNum toBlockNum db =
     map (\<lambda>x. \<lparr>lb_BlockHash = row_BlockHash x, lb_Consumed = row_Consumed x, lb_LogIndex = row_LogIndex x,
               lb_JobID = row_JobID x\<rparr>)
       (filter (\<lambda>x. case row_BlockNumber x of None \<Rightarrow> False | Some n \<Rightarrow> n \<ge> fromBlockNum \<and> n \<le> toBlockNum)
          (log_broadcasts db))"

definition WasBroadcastConsumed :: "nat \<Rightarrow> nat \<Rightarrow> int \<Rightarrow> logdb \<Rightarrow> bool" where
  "WasBroadcastConsumed blockHash logIndex job db =
     (case filter (\<lambda>x. row_BlockHash x = blockHash \<and> row_LogIndex x = logIndex \<and> row_JobID x = job)
             (log_broadcasts db) of
        [] \<Rightarrow> False
      | x # _ \<Rightarrow> row_Consumed x)"

definition CreateBroadcast :: "bool \<Rightarrow> nat \<Rightarrow> 64 word \<Rightarrow> nat \<Rightarrow> int \<Rightarrow> logdb \<Rightarrow> bool \<times> logdb" where
  "CreateBroadcast up blockHash blockNumber logIndex job db =
     (let x = \<lparr>row_BlockHash = blockHash, row_BlockNumber = Some (uint blockNumber), row_LogIndex = logIndex,
               row_JobID = job, row_Consumed = False\<rparr>
      in if \<not> up \<or> uint blockNumber > MaxInt64 \<or> row_key x \<in> row_key ` set (log_broadcasts db) then (False, db)
         else (True, db\<lparr>log_broadcasts := log_broadcasts db @ [x]\<rparr>))"

text \<open>Insert, or set \<open>consumed\<close> where the key exists already.\<close>

definition upsert_consumed :: "lb_row \<Rightarrow> lb_row list \<Rightarrow> lb_row list" where
  "upsert_consumed x rows =
     (if row_key x \<in> row_key ` set rows
      then map (\<lambda>y. if row_key y = row_key x then y\<lparr>row_Consumed := True\<rparr> else y) rows
      else rows @ [x])"

definition consumed_row :: "nat \<Rightarrow> 64 word \<Rightarrow> nat \<Rightarrow> int \<Rightarrow> lb_row" where
  "consumed_row blockHash blockNumber logIndex job =
     \<lparr>row_BlockHash = blockHash, row_BlockNumber = Some (uint blockNumber), row_LogIndex = logIndex,
      row_JobID = job, row_Consumed = True\<rparr>"

definition MarkBroadcastConsumed :: "bool \<Rightarrow> nat \<Rightarrow> 64 word \<Rightarrow> nat \<Rightarrow> int \<Rightarrow> logdb \<Rightarrow> bool \<times> logdb" where
  "MarkBroadcastConsumed up blockHash blockNumber logIndex job db =
     (if \<not> up \<or> uint blockNumber > MaxInt64 then (False, db)
      else (True, db\<lparr>log_broadcasts := upsert_consumed (consumed_row blockHash blockNumber logIndex job)
                       (log_broadcasts db)\<rparr>))"

text \<open>The bulk statement; the database refuses to update one row twice in one statement.\<close>

definition MarkBroadcastsConsumed ::
    "bool \<Rightarrow> nat list \<Rightarrow> 64 word list \<Rightarrow> nat list \<Rightarrow> int list \<Rightarrow> logdb \<Rightarrow> bool \<times> logdb" where
  "MarkBroadcastsConsumed up blockHashes blockNumbers logIndexes jobIDs db =
     (if \<not> (length blockHashes = length blockNumbers \<and> length blockNumbers = length logIndexes
             \<and> length logIndexes = length jobIDs) then (False, db)
      else (let inputs = map (\<lambda>i. consumed_row (blockHashes ! i) (blockNumbers ! i) (logIndexes ! i) (jobIDs ! i))
                           [0..<length blockHashes]
            in if \<not> up \<or> (\<exists>n\<in>set blockNumbers. uint n > MaxInt64) \<or> \<not> distinct (map row_key inputs) then (False, db)
               else (True, db\<lparr>log_broadcasts := fold upsert_consumed inputs (log_broadcasts db)\<rparr>)))"

definition MarkBroadcastsUnconsumed :: "bool \<Rightarrow> int \<Rightarrow> logdb \<Rightarrow> bool \<times> logdb" where
  "MarkBroadcastsUnconsumed up fromBlock db =
     (if \<not> up then (False, db)
      else (True, db\<lparr>log_broadcasts :=
              map (\<lambda>x. case row_BlockNumber x of None \<Rightarrow> x
                         | Some n \<Rightarrow> if n \<ge> fromBlock then x\<lparr>row_Consumed := False\<rparr> else x)
                (log_broadcasts db)\<rparr>))"

definition SetPendingMinBlock :: "bool \<Rightarrow> int option \<Rightarrow> logdb \<Rightarrow> bool \<times> logdb" where
  "SetPendingMinBlock up blockNumber db = (if up then (True, db\<lparr>pending_block := blockNumber\<rparr>) else (False, db))"

definition GetPendingMinBlock :: "logdb \<Rightarrow> int option" where
  "GetPendingMinBlock db = pending_block db"

definition unconsumed_block :: "lb_row \<Rightarrow> int option" where
  "unconsumed_block x = (if row_Consumed x then None else row_BlockNumber x)"

definition getUnconsumedMinBlock :: "logdb \<Rightarrow> int option" where
  "getUnconsumedMinBlock db =
     (case List.map_filter unconsumed_block (log_broadcasts db) of [] \<Rightarrow> None | n # ns \<Rightarrow> Some (fold min ns n))"

definition removeUnconsumed :: "logdb \<Rightarrow> logdb" where
  "removeUnconsumed db =
     db\<lparr>log_broadcasts := filter (\<lambda>x. unconsumed_block x = None) (log_broadcasts db)\<rparr>"

text \<open>Five statements at most; \<open>up i\<close> tells whether the \<open>i\<close>-th of them is executed. An error value
  is \<open>Inl\<close>, with the number of the statement that failed.\<close>

definition Reinitialize :: "(nat \<Rightarrow> bool) \<Rightarrow> logdb \<Rightarrow> (nat + int option) \<times> logdb" where
  "Reinitialize up db =
     (if \<not> up 0 then (Inl 0, db)
      else (let minUnconsumed = getUnconsumedMinBlock db in
       if \<not> up 1 then (Inl 1, db)
       else (let minPending = GetPendingMinBlock db in
        (case minUnconsumed of
           None \<Rightarrow> (Inr minPending, db)
         | Some u \<Rightarrow>
             (let lower = (case minPending of None \<Rightarrow> True | Some p \<Rightarrow> u < p);
                  minPending' = (if lower then minUnconsumed else minPending);
                  (ok, db1) = (if lower then SetPendingMinBlock (up 2) minPending' db else (True, db))
              in if \<not> ok then (Inl 2, db1)
                 else if \<not> up 3 then (Inl 3, db1)
                 else (Inr minPending', removeUnconsumed db1))))))"

section \<open>Where a restart resumes\<close>

text \<open>The lowest block number that a restarted broadcaster must read again: the lower of the pending
  number and the numbers of the unconsumed broadcasts.\<close>

definition opt_min :: "int option \<Rightarrow> int option \<Rightarrow> int option" where
  "opt_min a b = (case (a, b) of (None, _) \<Rightarrow> b | (_, None) \<Rightarrow> a | (Some x, Some y) \<Rightarrow> Some (min x y))"

definition restart_point :: "logdb \<Rightarrow> int option" where
  "restart_point db = opt_min (pending_block db) (getUnconsumedMinBlock db)"

lemma fold_min_le: "x \<in> insert n (set ns) \<Longrightarrow> fold min ns (n :: int) \<le> x"
  using Min.set_eq_fold [of n ns] by (metis List.finite_set Min_le list.simps(15))

lemma getUnconsumedMinBlock_le:
  assumes "x \<in> set (log_broadcasts db)" and "unconsumed_block x = Some n"
  shows "\<exists>m. getUnconsumedMinBlock db = Some m \<and> m \<le> n"
proof -
  have "n \<in> set (List.map_filter unconsumed_block (log_broadcasts db))"
    using assms by (force simp: List.map_filter_def)
  then show ?thesis
    unfolding getUnconsumedMinBlock_def
    by (cases "List.map_filter unconsumed_block (log_broadcasts db)") (auto intro!: fold_min_le)
qed

lemma restart_point_covers:
  "pending_block db = Some n \<Longrightarrow> \<exists>m. restart_point db = Some m \<and> m \<le> n"
  "x \<in> set (log_broadcasts db) \<Longrightarrow> unconsumed_block x = Some n \<Longrightarrow> \<exists>m. restart_point db = Some m \<and> m \<le> n"
proof -
  show "\<exists>m. restart_point db = Some m \<and> m \<le> n" if "pending_block db = Some n"
    using that by (cases "getUnconsumedMinBlock db") (simp_all add: restart_point_def opt_min_def)
  assume "x \<in> set (log_broadcasts db)" and "unconsumed_block x = Some n"
  then obtain m where "getUnconsumedMinBlock db = Some m" "m \<le> n" using getUnconsumedMinBlock_le by blast
  then show "\<exists>m. restart_point db = Some m \<and> m \<le> n"
    by (cases "pending_block db") (simp_all add: restart_point_def opt_min_def min_le_iff_disj)
qed

lemma getUnconsumed_removed [simp]: "getUnconsumedMinBlock (removeUnconsumed db) = None"
proof -
  have "List.map_filter unconsumed_block (filter (\<lambda>x. unconsumed_block x = None) xs) = []" for xs
    by (induction xs) simp_all
  then show ?thesis by (simp add: getUnconsumedMinBlock_def removeUnconsumed_def)
qed

lemma getUnconsumed_upd [simp]: "getUnconsumedMinBlock (db\<lparr>pending_block := p\<rparr>) = getUnconsumedMinBlock db"
  by (simp add: getUnconsumedMinBlock_def)

lemma pending_removed [simp]: "pending_block (removeUnconsumed db) = pending_block db"
  by (simp add: removeUnconsumed_def)

section \<open>Consumed broadcasts\<close>

lemma WasBroadcastConsumed_iff:
  assumes "logdb_ok db"
  shows "WasBroadcastConsumed h i j db \<longleftrightarrow>
    (\<exists>x\<in>set (log_broadcasts db). row_key x = \<lparr>key_BlockHash = h, key_LogIndex = i, key_JobId = j\<rparr> \<and> row_Consumed x)"
proof -
  let ?P = "\<lambda>x. row_BlockHash x = h \<and> row_LogIndex x = i \<and> row_JobID x = j"
  have P: "?P x \<longleftrightarrow> row_key x = \<lparr>key_BlockHash = h, key_LogIndex = i, key_JobId = j\<rparr>" for x
    by (simp add: row_key_def)
  show ?thesis
  proof (cases "filter ?P (log_broadcasts db)")
    case Nil
    then have "\<forall>x\<in>set (log_broadcasts db). \<not> ?P x" by (simp add: filter_empty_conv)
    then show ?thesis using Nil P by (auto simp: WasBroadcastConsumed_def)
  next
    case (Cons x xs)
    then have "x \<in> set (filter ?P (log_broadcasts db))" by simp
    then have x: "x \<in> set (log_broadcasts db)" "?P x" by simp_all
    have "y = x" if "y \<in> set (log_broadcasts db)" "?P y" for y
      using assms that x P unfolding logdb_ok_def by (metis distinct_map inj_onD)
    then have "(\<exists>y\<in>set (log_broadcasts db). ?P y \<and> row_Consumed y) \<longleftrightarrow> row_Consumed x" using x by blast
    moreover have "WasBroadcastConsumed h i j db = row_Consumed x"
      by (simp add: WasBroadcastConsumed_def Cons)
    ultimately show ?thesis unfolding P by simp
  qed
qed

lemma upsert_keys:
  "map row_key (upsert_consumed x rows) =
     (if row_key x \<in> set (map row_key rows) then map row_key rows else map row_key rows @ [row_key x])"
  by (auto simp: upsert_consumed_def row_key_def)

lemma upsert_consumed_iff:
  assumes "row_Consumed x"
  shows "(\<exists>y\<in>set (upsert_consumed x rows). row_key y = k \<and> row_Consumed y) \<longleftrightarrow>
    k = row_key x \<or> (\<exists>y\<in>set rows. row_key y = k \<and> row_Consumed y)"
proof (cases "row_key x \<in> row_key ` set rows")
  case True
  define f where "f y = (if row_key y = row_key x then y\<lparr>row_Consumed := True\<rparr> else y)" for y
  have f: "row_key (f y) = row_key y" "row_Consumed (f y) \<longleftrightarrow> row_key y = row_key x \<or> row_Consumed y" for y
    by (auto simp: f_def row_key_def)
  have "upsert_consumed x rows = map f rows" using True by (simp add: upsert_consumed_def f_def)
  then have "(\<exists>y\<in>set (upsert_consumed x rows). row_key y = k \<and> row_Consumed y) \<longleftrightarrow>
      (\<exists>y\<in>set rows. row_key y = k \<and> (row_key y = row_key x \<or> row_Consumed y))"
    by (simp add: f)
  with True show ?thesis by auto
qed (use assms in \<open>auto simp: upsert_consumed_def\<close>)

section \<open>Properties\<close>

text \<open>\<open>Reinitialize\<close> loses nothing, whichever of its statements the database refuses: the point
  from which a restart must resume is the same after it, when it returns a block number that is this
  point, and then no unconsumed broadcast is left.\<close>

theorem reinitialize_keeps_restart_point:
  "restart_point (snd (Reinitialize up db)) = restart_point db
   \<and> (case fst (Reinitialize up db) of
        Inl i \<Rightarrow> \<not> up i
      | Inr r \<Rightarrow> r = restart_point db \<and> getUnconsumedMinBlock (snd (Reinitialize up db)) = None)"
proof (cases "getUnconsumedMinBlock db")
  case None
  then show ?thesis by (simp add: Reinitialize_def restart_point_def opt_min_def GetPendingMinBlock_def split: option.split)
next
  case (Some u)
  then show ?thesis
    by (auto simp: Reinitialize_def Let_def GetPendingMinBlock_def SetPendingMinBlock_def restart_point_def
        opt_min_def split: option.splits if_splits)
qed

text \<open>C40: consumption round trip. Marking a broadcast consumed makes exactly that broadcast read back
  as consumed, and keeps the table's keys unique.\<close>

theorem mark_consumed_roundtrip:
  assumes "logdb_ok db" and "uint n \<le> MaxInt64" and "MarkBroadcastConsumed True h n i j db = (ok, db')"
  shows "ok \<and> logdb_ok db'
    \<and> (\<forall>h' i' j'. WasBroadcastConsumed h' i' j' db' \<longleftrightarrow> (h', i', j') = (h, i, j) \<or> WasBroadcastConsumed h' i' j' db)"
proof -
  let ?x = "consumed_row h n i j"
  have db': "ok" "db' = db\<lparr>log_broadcasts := upsert_consumed ?x (log_broadcasts db)\<rparr>"
    using assms(2,3) by (auto simp: MarkBroadcastConsumed_def)
  have ok': "logdb_ok db'" using upsert_keys [of ?x "log_broadcasts db"] assms(1)
    unfolding db'(2) logdb_ok_def by (cases "row_key ?x \<in> set (map row_key (log_broadcasts db))") simp_all
  have x: "row_key ?x = \<lparr>key_BlockHash = h, key_LogIndex = i, key_JobId = j\<rparr>" "row_Consumed ?x"
    by (simp_all add: consumed_row_def row_key_def)
  have "WasBroadcastConsumed h' i' j' db' \<longleftrightarrow> (h', i', j') = (h, i, j) \<or> WasBroadcastConsumed h' i' j' db" for h' i' j'
  proof -
    have "WasBroadcastConsumed h' i' j' db' \<longleftrightarrow> (\<exists>y\<in>set (upsert_consumed ?x (log_broadcasts db)).
        row_key y = \<lparr>key_BlockHash = h', key_LogIndex = i', key_JobId = j'\<rparr> \<and> row_Consumed y)"
      using WasBroadcastConsumed_iff [OF ok'] by (simp add: db'(2))
    then show ?thesis
      unfolding upsert_consumed_iff [OF x(2)] x(1) WasBroadcastConsumed_iff [OF assms(1), symmetric] by auto
  qed
  with db'(1) ok' show ?thesis by blast
qed

definition example_db :: logdb where
  "example_db = \<lparr>log_broadcasts = [\<lparr>row_BlockHash = 50, row_BlockNumber = Some 5, row_LogIndex = 2, row_JobID = 0,
     row_Consumed = False\<rparr>], pending_block = Some 7\<rparr>"

theorem mark_consumed_roundtrip_witness:
  "\<not> WasBroadcastConsumed 50 2 0 example_db
   \<and> WasBroadcastConsumed 50 2 0 (snd (MarkBroadcastConsumed True 50 5 2 0 example_db))"
  using mark_consumed_roundtrip [of example_db 5 50 2 0 "fst (MarkBroadcastConsumed True 50 5 2 0 example_db)"
      "snd (MarkBroadcastConsumed True 50 5 2 0 example_db)"]
  by (simp add: example_db_def logdb_ok_def MaxInt64_def WasBroadcastConsumed_def)

text \<open>One statement per element, in order.\<close>

fun mark_each :: "nat list \<Rightarrow> 64 word list \<Rightarrow> nat list \<Rightarrow> int list \<Rightarrow> logdb \<Rightarrow> logdb" where
  "mark_each (h # hs) (n # ns) (i # is) (j # js) db =
     mark_each hs ns is js (snd (MarkBroadcastConsumed True h n i j db))"
| "mark_each _ _ _ _ db = db"

lemma fold_upsert:
  assumes "length hs = length ns" and "length ns = length is" and "length is = length js"
    and "\<forall>n\<in>set ns. uint n \<le> MaxInt64"
  shows "db\<lparr>log_broadcasts := fold upsert_consumed
       (map (\<lambda>k. consumed_row (hs ! k) (ns ! k) (is ! k) (js ! k)) [0..<length hs]) (log_broadcasts db)\<rparr>
     = mark_each hs ns is js db"
  using assms
proof (induction hs ns "is" js arbitrary: db rule: list_induct4)
  case (Cons h hs n ns i "is" j js)
  have "map (\<lambda>k. consumed_row ((h # hs) ! k) ((n # ns) ! k) ((i # is) ! k) ((j # js) ! k)) [0..<length (h # hs)]
      = consumed_row h n i j # map (\<lambda>k. consumed_row (hs ! k) (ns ! k) (is ! k) (js ! k)) [0..<length hs]"
    by (simp add: upt_conv_Cons del: upt_Suc flip: map_Suc_upt)
  moreover have "snd (MarkBroadcastConsumed True h n i j db)
      = db\<lparr>log_broadcasts := upsert_consumed (consumed_row h n i j) (log_broadcasts db)\<rparr>"
    using Cons.prems by (simp add: MarkBroadcastConsumed_def)
  ultimately show ?case
    using Cons.IH [of "snd (MarkBroadcastConsumed True h n i j db)"] Cons.prems by simp
qed simp

text \<open>the bulk statement equals the single ones. When \<open>MarkBroadcastsConsumed\<close> succeeds its
  tables are those that \<open>MarkBroadcastConsumed\<close> called for each element in order leaves; otherwise
  nothing has changed.\<close>

theorem mark_many_equivalence:
  "(case MarkBroadcastsConsumed up hs ns is js db of
      (True, db') \<Rightarrow> db' = mark_each hs ns is js db
    | (False, db') \<Rightarrow> db' = db)"
  using fold_upsert [of hs ns "is" js db]
  by (auto simp: MarkBroadcastsConsumed_def Let_def not_less split: if_splits)

end
