(* ===== verification/LogBroadcaster.thy ===== *)
theory LogBroadcaster
  imports LogORM Mailbox Heads
begin

text \<open>
  The log broadcaster, \<open>core/chains/evm/log/broadcaster.go\<close>, and its backfill,
  \<open>eth_subscriber.go\<close>: the handlers of the event loop as functions on the broadcaster's state, the
  loop's \<open>select\<close> with the calls of its clients as the step relation \<open>lb_step\<close>. A handler's
  database calls succeed or not as its \<open>bool\<close> arguments say. What a handler hands to listeners is
  part of its result; \<open>None\<close> stands for a loop that does not end (over the parents of a head, or over block
  numbers up to the largest \<open>int64\<close>) and \<open>Panic\<close> for a panic.
\<close>

section \<open>State\<close>

record lb_config =
  EvmFinalityDepth :: "32 word"
  BlockBackfillDepth :: "64 word"
  BlockBackfillSkip :: bool
  EvmLogBackfillBatchSize :: "32 word"

datatype subscriberStatus = subscriberStatusSubscribe | subscriberStatusUnsubscribe

type_synonym status_change = "subscriberStatus \<times> nat"

record 'h broadcaster =
  lb_pool :: "'h logPool"
  lb_regs :: registrations
  lb_db :: logdb
  lb_subs :: "nat \<Rightarrow> subscriber"
  lb_next :: nat
  backfillBlockNumber :: "int option"
  lastSeenHeadNumber :: int
  changeSubscriberStatus :: "status_change Mailbox"
  newHeads :: "head_ptr Mailbox"
  replayChannel :: "(int \<times> bool) option"

text \<open>The heap, and the orders in which the ranges over maps meet their entries.\<close>

record 'h lb_env =
  env_heap :: "'h heap_ops"
  env_pool_orders :: pool_orders
  env_topics_order :: "(nat \<times> topic_filters) list \<Rightarrow> (nat \<times> topic_filters) list"
  env_handlers_order :: "(32 word \<times> handler) list \<Rightarrow> (32 word \<times> handler) list"
  env_subs_order :: "sub_map \<Rightarrow> sub_map"

definition NewBroadcaster :: "'h lb_env \<Rightarrow> logdb \<Rightarrow> 'h broadcaster" where
  "NewBroadcaster E db =
     \<lparr>lb_pool = newLogPool (env_heap E), lb_regs = newRegistrations, lb_db = db,
      lb_subs = (\<lambda>_. undefined), lb_next = 0, backfillBlockNumber = None, lastSeenHeadNumber = 0,
      changeSubscriberStatus = NewMailbox 100000, newHeads = NewMailbox 1, replayChannel = None\<rparr>"

section \<open>Calls of the clients\<close>

text \<open>\<open>Register\<close> allocates a subscriber and queues it; its result is the pointer that the returned
  \<open>unsubscribe\<close> function closes over.\<close>

definition Register :: "bool \<Rightarrow> subscriber \<Rightarrow> 'h broadcaster \<Rightarrow> (nat \<times> 'h broadcaster) run" where
  "Register stopped opts b =
     (if stopped then Panic ''Register cannot be called on a stopped log broadcaster''
      else if LogsWithTopics opts = [] then Panic ''Must supply at least 1 LogsWithTopics element to Register''
      else (let opts' = (if MinIncomingConfirmations opts \<le> 0 then opts\<lparr>MinIncomingConfirmations := 1\<rparr> else opts);
                sub = lb_next b;
                (wasOverCapacity, m) = Deliver (changeSubscriberStatus b) (subscriberStatusSubscribe, sub)
            in if wasOverCapacity then Panic ''LogBroadcaster subscribe: cannot subscribe''
               else Ret (sub, b\<lparr>lb_subs := (lb_subs b)(sub := opts'), lb_next := sub + 1,
                               changeSubscriberStatus := m\<rparr>)))"

definition unsubscribe :: "nat \<Rightarrow> 'h broadcaster \<Rightarrow> 'h broadcaster run" where
  "unsubscribe sub b =
     (case Deliver (changeSubscriberStatus b) (subscriberStatusUnsubscribe, sub) of
        (True, m) \<Rightarrow> Panic ''LogBroadcaster unsubscribe: cannot unsubscribe''
      | (False, m) \<Rightarrow> Ret (b\<lparr>changeSubscriberStatus := m\<rparr>))"

definition OnNewLongestChain :: "head_ptr \<Rightarrow> 'h broadcaster \<Rightarrow> 'h broadcaster" where
  "OnNewLongestChain head b = b\<lparr>newHeads := snd (Deliver (newHeads b) head)\<rparr>"

definition ReplayFromBlock :: "int \<Rightarrow> bool \<Rightarrow> 'h broadcaster \<Rightarrow> 'h broadcaster" where
  "ReplayFromBlock number forceBroadcast b =
     (case replayChannel b of
        None \<Rightarrow> b\<lparr>replayChannel := Some (number, forceBroadcast)\<rparr>
      | Some _ \<Rightarrow> b)"

definition lb_WasAlreadyConsumed :: "broadcast \<Rightarrow> 'h broadcaster \<Rightarrow> bool" where
  "lb_WasAlreadyConsumed lb b =
     WasBroadcastConsumed (LogBlockHash (rawLog lb)) (LogIndex (rawLog lb)) (jobID lb) (lb_db b)"

definition lb_MarkConsumed :: "bool \<Rightarrow> broadcast \<Rightarrow> 'h broadcaster \<Rightarrow> bool \<times> 'h broadcaster" where
  "lb_MarkConsumed up lb b =
     (let (ok, db) = MarkBroadcastConsumed up (LogBlockHash (rawLog lb)) (LogBlockNumber (rawLog lb))
                       (LogIndex (rawLog lb)) (jobID lb) (lb_db b)
      in (ok, b\<lparr>lb_db := db\<rparr>))"

definition lb_MarkManyConsumed :: "bool \<Rightarrow> broadcast list \<Rightarrow> 'h broadcaster \<Rightarrow> bool \<times> 'h broadcaster" where
  "lb_MarkManyConsumed up lbs b =
     (let (ok, db) = MarkBroadcastsConsumed up (map (\<lambda>x. LogBlockHash (rawLog x)) lbs)
                       (map (\<lambda>x. LogBlockNumber (rawLog x)) lbs) (map (\<lambda>x. LogIndex (rawLog x)) lbs)
                       (map jobID lbs) (lb_db b)
      in (ok, b\<lparr>lb_db := db\<rparr>))"

section \<open>Handlers of the event loop\<close>

definition invalidatePool :: "'h lb_env \<Rightarrow> 'h broadcaster \<Rightarrow> int \<times> 'h broadcaster" where
  "invalidatePool E b =
     (case heap_FindMin (env_heap E) (pool_heap (lb_pool b)) of
        None \<Rightarrow> (-1, b)
      | Some m \<Rightarrow> (sint m, b\<lparr>lb_pool := newLogPool (env_heap E), backfillBlockNumber := Some (sint m)\<rparr>))"

text \<open>The result lists the subscribers whose \<open>ReplayStartedCallback\<close> is called.\<close>

definition onReplayRequest :: "'h lb_env \<Rightarrow> bool \<Rightarrow> int \<times> bool \<Rightarrow> 'h broadcaster \<Rightarrow> nat list \<times> 'h broadcaster" where
  "onReplayRequest E up req b =
     (let called = filter (\<lambda>s. hasReplayStartedCallback (lb_subs b s)) (registeredSubs (lb_regs b));
          b1 = (snd (invalidatePool E b))\<lparr>backfillBlockNumber := Some (fst req)\<rparr>
      in (called,
          if snd req then b1\<lparr>lb_db := snd (MarkBroadcastsUnconsumed up (fst req) (lb_db b1))\<rparr> else b1))"

definition onNewLog :: "'h lb_env \<Rightarrow> bool \<Rightarrow> Log \<Rightarrow> 'h broadcaster \<Rightarrow> 'h broadcaster" where
  "onNewLog E up l b =
     (if LogRemoved l then b\<lparr>lb_pool := removeBlock (LogBlockHash l) (LogBlockNumber l) (lb_pool b)\<rparr>
      else if \<not> isAddressRegistered (LogAddress l) (lb_regs b) then b
      else (let (newMin, p) = addLog (env_heap E) l (lb_pool b); b1 = b\<lparr>lb_pool := p\<rparr>
            in if newMin then b1\<lparr>lb_db := snd (SetPendingMinBlock up (Some (sint (LogBlockNumber l))) (lb_db b1))\<rparr>
               else b1))"

function latest_head :: "head_ptr Mailbox \<Rightarrow> head_ptr option \<Rightarrow> head_ptr option \<times> head_ptr Mailbox" where
  "latest_head m latest =
     (case RetrieveLatestAndClear m of
        (None, m') \<Rightarrow> (latest, m')
      | (Some head, m') \<Rightarrow> latest_head m' (Some head))"
  by pat_completeness auto
termination
  by (relation "measure (\<lambda>(m, l). length (queue m))") (auto simp: RetrieveLatestAndClear_def split: if_splits)

declare latest_head.simps [simp del]

definition keptDepth :: "lb_config \<Rightarrow> registrations \<Rightarrow> int \<Rightarrow> int" where
  "keptDepth cfg r latestBlockNum =
     (let keptLogsDepth = (if highestNumConfirmations r > EvmFinalityDepth cfg then highestNumConfirmations r
                           else EvmFinalityDepth cfg);
          kept = wrap64 (latestBlockNum - uint keptLogsDepth)
      in if kept < 0 then 0 else kept)"

definition send_to_listeners ::
    "'h lb_env \<Rightarrow> bool \<Rightarrow> Head \<Rightarrow> logsOnBlock list \<Rightarrow> LogBroadcast list \<Rightarrow> 'h broadcaster
      \<Rightarrow> ((nat \<times> broadcast) list \<times> 'h broadcaster) run" where
  "send_to_listeners E createUp head logs broadcasts b =
     run_map (\<lambda>(sent, db). (sent, b\<lparr>lb_db := db\<rparr>))
       (sendLogs (env_handlers_order E) (env_subs_order E) (lb_subs b) logs head broadcasts
          (CreateBroadcast createUp) (lb_regs b) (lb_db b))"

text \<open>The length of the head's chain is computed for a log line, so the handler does not get past
  a chain that never ends.\<close>

definition onNewHeads ::
    "'h lb_env \<Rightarrow> lb_config \<Rightarrow> bool \<Rightarrow> bool \<Rightarrow> bool \<Rightarrow> 'h broadcaster
      \<Rightarrow> ((nat \<times> broadcast) list \<times> 'h broadcaster) run option" where
  "onNewHeads E cfg findOk createUp setUp b =
     (case latest_head (newHeads b) None of
        (None, m) \<Rightarrow> Some (Ret ([], b\<lparr>newHeads := m\<rparr>))
      | (Some latestHead, m) \<Rightarrow>
          loop_bind (ChainLength (Parent (gen latestHead)) (Some (ref latestHead))) (\<lambda>_.
          (let head = deref latestHead; b1 = b\<lparr>newHeads := m, lastSeenHeadNumber := Number head\<rparr> in
           if highestNumConfirmations (lb_regs b1) = 0 then
             (case getAndDeleteAll (env_heap E) (env_pool_orders E) (lb_pool b1) of
                None \<Rightarrow> None
              | Some (logs, lowest, highest, p) \<Rightarrow>
                  (let b2 = b1\<lparr>lb_pool := p\<rparr> in
                   if logs = [] \<or> \<not> findOk then Some (Ret ([], b2))
                   else Some (run_map (\<lambda>(sent, b3). (sent, b3\<lparr>lb_db := snd (SetPendingMinBlock setUp None (lb_db b3))\<rparr>))
                     (send_to_listeners E createUp head logs (FindBroadcasts lowest highest (lb_db b2)) b2))))
           else
             (case getLogsToSend (env_heap E) (env_pool_orders E) (Number head) (lb_pool b1) of
                None \<Rightarrow> None
              | Some (logs, minBlockNum) \<Rightarrow>
                  if logs \<noteq> [] \<and> \<not> findOk then Some (Ret ([], b1))
                  else (case deleteOlderLogs (env_heap E) (env_pool_orders E)
                               (keptDepth cfg (lb_regs b1) (Number head)) (lb_pool b1) of
                          None \<Rightarrow> None
                        | Some (newMin, p) \<Rightarrow>
                            Some (run_map (\<lambda>(sent, b2).
                                (sent, b2\<lparr>lb_pool := p, lb_db := snd (SetPendingMinBlock setUp newMin (lb_db b2))\<rparr>))
                              (if logs = [] then Ret ([], b1)
                               else send_to_listeners E createUp head logs
                                      (FindBroadcasts minBlockNum (Number head) (lb_db b1)) b1)))))))"

function onChangeSubscriberStatus :: "'h lb_env \<Rightarrow> bool \<Rightarrow> 'h broadcaster \<Rightarrow> (bool \<times> 'h broadcaster) run" where
  "onChangeSubscriberStatus E needsResubscribe b =
     (case Retrieve (changeSubscriberStatus b) of
        (None, m) \<Rightarrow> Ret (needsResubscribe, b\<lparr>changeSubscriberStatus := m\<rparr>)
      | (Some (newStatus, sub), m) \<Rightarrow>
          (case (if newStatus = subscriberStatusSubscribe
                 then addSubscriber (env_topics_order E) (lb_subs b) sub (lb_regs b)
                 else removeSubscriber (env_topics_order E) (lb_subs b) sub (lb_regs b)) of
             Panic e \<Rightarrow> Panic e
           | Ret (r, needsResub) \<Rightarrow>
               onChangeSubscriberStatus E (if needsResub then True else needsResubscribe)
                 (b\<lparr>changeSubscriberStatus := m, lb_regs := r\<rparr>)))"
  by pat_completeness auto
termination
  by (relation "measure (\<lambda>(E, n, b). length (queue (changeSubscriberStatus b)))")
    (auto simp: Retrieve_def split: if_splits)

declare onChangeSubscriberStatus.simps [simp del]

section \<open>Backfilling\<close>

definition initial_backfill :: "lb_config \<Rightarrow> Head option \<Rightarrow> registrations \<Rightarrow> int option" where
  "initial_backfill cfg highestSavedHead r =
     (case highestSavedHead of
        None \<Rightarrow> None
      | Some head \<Rightarrow>
          if BlockBackfillSkip cfg then None
          else (let from = wrap64 (wrap64 (Number head - uint (highestNumConfirmations r)) - sint (BlockBackfillDepth cfg))
                in Some (if from < 0 then 0 else from)))"

text \<open>The start of \<open>startResubscribeLoop\<close>, with the result of \<open>reinitialize\<close>.\<close>

definition resubscribe_start :: "lb_config \<Rightarrow> Head option \<Rightarrow> int option \<Rightarrow> 'h broadcaster \<Rightarrow> 'h broadcaster" where
  "resubscribe_start cfg highestSavedHead backfillStart b =
     (let b1 = (case initial_backfill cfg highestSavedHead (lb_regs b) of
                  None \<Rightarrow> b | Some from \<Rightarrow> b\<lparr>backfillBlockNumber := Some from\<rparr>)
      in (case backfillStart of
            None \<Rightarrow> b1
          | Some start \<Rightarrow>
              (case backfillBlockNumber b1 of
                 None \<Rightarrow> b1\<lparr>backfillBlockNumber := Some start\<rparr>
               | Some n \<Rightarrow> if start < n then b1\<lparr>backfillBlockNumber := Some start\<rparr> else b1)))"

definition backfill_from :: "lb_config \<Rightarrow> int option \<Rightarrow> int \<Rightarrow> int" where
  "backfill_from cfg fromBlockOverride latestHeight =
     (let latest = (word_of_int latestHeight :: 64 word);
          fromBlock = latest - BlockBackfillDepth cfg;
          fromBlock = (if fromBlock > latest then 0 else fromBlock);
          fromBlock = (case fromBlockOverride of None \<Rightarrow> fromBlock | Some n \<Rightarrow> word_of_int n)
      in sint fromBlock)"

text \<open>The loop over batches. \<open>fetch from to\<close> is \<open>fetchLogBatch\<close>: the logs of a range of blocks, or
  \<open>None\<close> when its retries ran out; the result is then \<open>Some None\<close>.\<close>

partial_function (option) fetch_batches ::
    "(int \<Rightarrow> int \<Rightarrow> Log list option) \<Rightarrow> int \<Rightarrow> int \<Rightarrow> int \<Rightarrow> Log list \<Rightarrow> Log list option option" where
  "fetch_batches fetch batchSize latestHeight from logs =
     (if \<not> from \<le> latestHeight then Some (Some logs)
      else (let to = wrap64 (from + batchSize - 1); to = (if to > latestHeight then latestHeight else to)
            in case fetch from to of
                 None \<Rightarrow> Some None
               | Some batchLogs \<Rightarrow>
                   fetch_batches fetch batchSize latestHeight (wrap64 (from + batchSize)) (logs @ batchLogs)))"

text \<open>\<open>backfillLogs\<close>: attempt \<open>k\<close> asks for the latest block unless it is known and then for the
  batches. \<open>latestBlock k\<close> and \<open>fetch k\<close> are what the node answers at attempt \<open>k\<close>. After the
  fourth attempt the result is no channel at all (\<open>Some None\<close>).\<close>

function backfill_attempts ::
    "lb_config \<Rightarrow> (nat \<Rightarrow> int option) \<Rightarrow> (nat \<Rightarrow> int \<Rightarrow> int \<Rightarrow> Log list option) \<Rightarrow> int option \<Rightarrow> nat \<Rightarrow> int
      \<Rightarrow> Log list option option" where
  "backfill_attempts cfg latestBlock fetch fromBlockOverride retryCount latestHeight =
     (if retryCount > 3 then Some None
      else (case (if latestHeight < 0 then latestBlock retryCount else Some latestHeight) of
              None \<Rightarrow> backfill_attempts cfg latestBlock fetch fromBlockOverride (retryCount + 1) latestHeight
            | Some height \<Rightarrow>
                (case fetch_batches (fetch retryCount) (uint (EvmLogBackfillBatchSize cfg)) height
                        (backfill_from cfg fromBlockOverride height) [] of
                   None \<Rightarrow> None
                 | Some (Some logs) \<Rightarrow> Some (Some logs)
                 | Some None \<Rightarrow> backfill_attempts cfg latestBlock fetch fromBlockOverride (retryCount + 1) height)))"
  by pat_completeness auto
termination
  by (relation "measure (\<lambda>(c, l, f, n, k, h). 4 - k)") auto

declare backfill_attempts.simps [simp del]

definition backfillLogs ::
    "lb_config \<Rightarrow> (nat \<Rightarrow> int option) \<Rightarrow> (nat \<Rightarrow> int \<Rightarrow> int \<Rightarrow> Log list option) \<Rightarrow> int option \<Rightarrow> nat list
      \<Rightarrow> Log list option option" where
  "backfillLogs cfg latestBlock fetch fromBlockOverride addresses =
     (if addresses = [] then Some (Some [])
      else backfill_attempts cfg latestBlock fetch fromBlockOverride 0 (-1))"

text \<open>One turn of the resubscribe loop up to the event loop: the backfilled logs that go into the
  channel, and the state in which the event loop starts.\<close>

definition resubscribe_turn ::
    "lb_config \<Rightarrow> (nat \<Rightarrow> int option) \<Rightarrow> (nat \<Rightarrow> int \<Rightarrow> int \<Rightarrow> Log list option) \<Rightarrow> 'h broadcaster
      \<Rightarrow> (Log list option \<times> 'h broadcaster) option" where
  "resubscribe_turn cfg latestBlock fetch b =
     map_option (\<lambda>backfilled. (backfilled, b\<lparr>backfillBlockNumber := None\<rparr>))
       (backfillLogs cfg latestBlock fetch (backfillBlockNumber b) (fst (addressesAndTopics (lb_regs b))))"

section \<open>The event loop and its clients\<close>

fun change_op :: "status_change \<Rightarrow> reg_op" where
  "change_op (subscriberStatusSubscribe, s) = Subscribe s"
| "change_op (subscriberStatusUnsubscribe, s) = Unsubscribe s"

fun op_sub :: "reg_op \<Rightarrow> nat" where
  "op_sub (Subscribe s) = s"
| "op_sub (Unsubscribe s) = s"

text \<open>The changes still queued, and the subscribers there are once they are carried out.\<close>

definition queued :: "'h broadcaster \<Rightarrow> reg_op list" where
  "queued b = map change_op (waiting (changeSubscriberStatus b))"

definition live :: "'h broadcaster \<Rightarrow> nat set" where
  "live b = foldl (\<lambda>S x. subs_after x S) (set (registeredSubs (lb_regs b))) (queued b)"

text \<open>What the chain guarantees of a log the node sends: it has a topic, the hash of its block fixes
  the block's number, and the index of the log in its block fixes its transaction.\<close>

definition log_ok :: "(nat \<Rightarrow> 64 word) \<Rightarrow> (nat \<Rightarrow> nat \<Rightarrow> nat) \<Rightarrow> Log \<Rightarrow> bool" where
  "log_ok num_of tx_of l \<longleftrightarrow> LogTopics l \<noteq> [] \<and> num_of (LogBlockHash l) = LogBlockNumber l
     \<and> tx_of (LogBlockHash l) (LogIndex l) = LogTxIndex l"

text \<open>The heap meets its contract, loops over maps meet every entry once, and block numbers fit
  in \<open>int64\<close>.\<close>

definition env_ok :: "'h lb_env \<Rightarrow> ('h \<Rightarrow> 64 word multiset) \<Rightarrow> (nat \<Rightarrow> 64 word) \<Rightarrow> bool" where
  "env_ok E elems num_of \<longleftrightarrow> min_heap (env_heap E) elems \<and> pool_orders_ok (env_pool_orders E)
     \<and> iteration_order (env_topics_order E) \<and> iteration_order (env_handlers_order E)
     \<and> iteration_order (env_subs_order E) \<and> (\<forall>h. 0 \<le> sint (num_of h))"

text \<open>One step of the event loop or of a client. With \<open>dbUp\<close> no statement that sets the pending
  block number is refused; the other statements may be refused at any time. A client registers a
  job's listener on a contract only while the job has no other on it, and unsubscribes a listener
  once.\<close>

inductive lb_step ::
    "'h lb_env \<Rightarrow> lb_config \<Rightarrow> (nat \<Rightarrow> 64 word) \<Rightarrow> (nat \<Rightarrow> nat \<Rightarrow> nat) \<Rightarrow> bool \<Rightarrow> 'h broadcaster \<Rightarrow> 'h broadcaster \<Rightarrow> bool"
  for E cfg num_of tx_of dbUp where
  step_register: "distinct (map fst (LogsWithTopics opts)) \<Longrightarrow>
      \<forall>s\<in>live b. \<not> (JobID (lb_subs b s) = JobID opts \<and> Contract (lb_subs b s) = Contract opts) \<Longrightarrow>
      Register False opts b = Ret (sub, b') \<Longrightarrow> lb_step E cfg num_of tx_of dbUp b b'"
| step_unsubscribe: "sub \<in> live b \<Longrightarrow> unsubscribe sub b = Ret b' \<Longrightarrow> lb_step E cfg num_of tx_of dbUp b b'"
| step_head: "copy (gen p) (ref p) = Some head \<Longrightarrow> is_int64 (Number head) \<Longrightarrow>
      lb_step E cfg num_of tx_of dbUp b (OnNewLongestChain p b)"
| step_replay_request: "lb_step E cfg num_of tx_of dbUp b (ReplayFromBlock n force b)"
| step_consumed: "num_of (LogBlockHash (rawLog lb)) = LogBlockNumber (rawLog lb) \<Longrightarrow>
      lb_step E cfg num_of tx_of dbUp b (snd (lb_MarkConsumed up lb b))"
| step_consumed_many: "\<forall>lb\<in>set lbs. num_of (LogBlockHash (rawLog lb)) = LogBlockNumber (rawLog lb) \<Longrightarrow>
      lb_step E cfg num_of tx_of dbUp b (snd (lb_MarkManyConsumed up lbs b))"
| step_log: "log_ok num_of tx_of l \<Longrightarrow> (dbUp \<longrightarrow> up) \<Longrightarrow> lb_step E cfg num_of tx_of dbUp b (onNewLog E up l b)"
| step_new_heads: "(dbUp \<longrightarrow> setUp) \<Longrightarrow> onNewHeads E cfg findOk createUp setUp b = Some (Ret (sent, b')) \<Longrightarrow>
      lb_step E cfg num_of tx_of dbUp b b'"
| step_changes: "onChangeSubscriberStatus E False b = Ret (needs, b') \<Longrightarrow> lb_step E cfg num_of tx_of dbUp b b'"
| step_connection_lost: "lb_step E cfg num_of tx_of dbUp b (snd (invalidatePool E b))"
| step_replay: "replayChannel b = Some req \<Longrightarrow>
      lb_step E cfg num_of tx_of dbUp b (snd (onReplayRequest E up req (b\<lparr>replayChannel := None\<rparr>)))"

definition db_inv :: "(nat \<Rightarrow> 64 word) \<Rightarrow> logdb \<Rightarrow> bool" where
  "db_inv num_of db \<longleftrightarrow> logdb_ok db \<and>
     (\<forall>x\<in>set (log_broadcasts db). row_BlockNumber x = Some (uint (num_of (row_BlockHash x))))"

text \<open>The pending block number in the database lies at or below every block number the heap holds.\<close>

definition pending_covers :: "('h \<Rightarrow> 64 word multiset) \<Rightarrow> 'h broadcaster \<Rightarrow> bool" where
  "pending_covers elems b \<longleftrightarrow> (\<forall>n\<in>#elems (pool_heap (lb_pool b)). \<exists>m. pending_block (lb_db b) = Some m \<and> m \<le> sint n)"

definition lb_inv ::
    "('h \<Rightarrow> 64 word multiset) \<Rightarrow> (nat \<Rightarrow> 64 word) \<Rightarrow> (nat \<Rightarrow> nat \<Rightarrow> nat) \<Rightarrow> bool \<Rightarrow> 'h broadcaster \<Rightarrow> bool" where
  "lb_inv elems num_of tx_of dbUp b \<longleftrightarrow>
     pool_inv elems num_of (lb_pool b) \<and> (\<forall>l\<in>ran (pool_contents (lb_pool b)). log_ok num_of tx_of l)
     \<and> reg_inv (lb_subs b) (lb_regs b)
     \<and> legal_ops (lb_subs b) (queued b) (set (registeredSubs (lb_regs b)))
     \<and> (\<forall>s\<in>set (registeredSubs (lb_regs b)) \<union> op_sub ` set (queued b). s < lb_next b)
     \<and> (\<forall>p\<in>set (queue (newHeads b)). is_int64 (Number (deref p)))
     \<and> db_inv num_of (lb_db b) \<and> (dbUp \<longrightarrow> pending_covers elems b)"

section \<open>Each handler keeps the invariant\<close>

lemma reg_inv_cong:
  assumes "\<And>s. s \<in> set (registeredSubs r) \<Longrightarrow> subs s = subs' s"
  shows "reg_inv subs r = reg_inv subs' r"
proof -
  have "wanted subs (set (registeredSubs r)) = wanted subs' (set (registeredSubs r))"
    using assms by (auto simp: wanted_def fun_eq_iff)
  moreover have "inj_on (\<lambda>s. (JobID (subs s), Contract (subs s))) (set (registeredSubs r))
      = inj_on (\<lambda>s. (JobID (subs' s), Contract (subs' s))) (set (registeredSubs r))"
    using assms by (intro inj_on_cong) simp
  ultimately show ?thesis using assms unfolding reg_inv_def by (simp cong: ball_cong bex_cong)
qed

lemma legal_op_cong:
  assumes "\<And>s. s \<in> insert (op_sub x) S \<Longrightarrow> subs s = subs' s"
  shows "legal_op subs x S = legal_op subs' x S"
  using assms by (cases x) auto

lemma legal_ops_cong:
  "(\<And>s. s \<in> op_sub ` set xs \<union> S \<Longrightarrow> subs s = subs' s) \<Longrightarrow> legal_ops subs xs S = legal_ops subs' xs S"
proof (induction xs arbitrary: S)
  case (Cons x xs)
  have "legal_op subs x S = legal_op subs' x S" by (rule legal_op_cong) (use Cons.prems in auto)
  moreover have "legal_ops subs xs (subs_after x S) = legal_ops subs' xs (subs_after x S)"
    by (rule Cons.IH) (use Cons.prems in \<open>cases x; auto\<close>)
  ultimately show ?case by simp
qed simp

lemma legal_ops_snoc:
  "legal_ops subs (xs @ [x]) S \<longleftrightarrow> legal_ops subs xs S \<and> legal_op subs x (foldl (\<lambda>S x. subs_after x S) S xs)"
  by (induction xs arbitrary: S) auto

lemma foldl_subs_after_subset:
  "foldl (\<lambda>S x. subs_after x S) S xs \<subseteq> S \<union> op_sub ` set xs"
proof (induction xs arbitrary: S)
  case (Cons x xs)
  have "subs_after x S \<subseteq> insert (op_sub x) S" by (cases x) auto
  with Cons [of "subs_after x S"] show ?case by auto
qed simp

lemma deliver_ok:
  assumes "Deliver m x = (False, m')"
  shows "waiting m' = waiting m @ [x]"
  using mb.deliver_items [of m x] assms by simp

lemma deliver_heads:
  "set (queue (snd (Deliver m x))) \<subseteq> insert x (set (queue m))"
  by (auto simp: Deliver_def Let_def dest: in_set_takeD)

lemma Register_inv:
  assumes inv: "lb_inv elems num_of tx_of dbUp b" and d: "distinct (map fst (LogsWithTopics opts))"
    and new: "\<forall>s\<in>live b. \<not> (JobID (lb_subs b s) = JobID opts \<and> Contract (lb_subs b s) = Contract opts)"
    and reg: "Register False opts b = Ret (sub, b')"
  shows "lb_inv elems num_of tx_of dbUp b'"
proof -
  define opts' where "opts' = (if MinIncomingConfirmations opts \<le> 0 then opts\<lparr>MinIncomingConfirmations := 1\<rparr> else opts)"
  obtain m where m: "Deliver (changeSubscriberStatus b) (subscriberStatusSubscribe, lb_next b) = (False, m)"
    and b': "b' = b\<lparr>lb_subs := (lb_subs b)(lb_next b := opts'), lb_next := lb_next b + 1, changeSubscriberStatus := m\<rparr>"
    and topics: "LogsWithTopics opts \<noteq> []"
    using reg by (auto simp: Register_def Let_def opts'_def split: prod.splits if_splits)
  let ?R = "set (registeredSubs (lb_regs b))" and ?subs = "(lb_subs b)(lb_next b := opts')"
  have bound: "s < lb_next b" if "s \<in> ?R \<union> op_sub ` set (queued b)" for s
    using inv that by (simp add: lb_inv_def)
  have q: "queued b' = queued b @ [Subscribe (lb_next b)]"
    using deliver_ok [OF m] by (simp add: b' queued_def)
  have live: "live b \<subseteq> ?R \<union> op_sub ` set (queued b)"
    unfolding live_def by (rule foldl_subs_after_subset)
  have fresh: "lb_next b \<notin> live b" using live bound by blast
  have "legal_op ?subs (Subscribe (lb_next b)) (live b)"
    using new fresh d topics by (auto simp: sub_ok_def opts'_def)
  moreover have same: "?subs s = lb_subs b s" if "s \<in> op_sub ` set (queued b) \<union> ?R" for s
    using bound [of s] that by auto
  then have "legal_ops ?subs (queued b) ?R"
    using inv legal_ops_cong [of "queued b" ?R ?subs "lb_subs b"] unfolding lb_inv_def by blast
  ultimately have "legal_ops ?subs (queued b') ?R"
    unfolding q legal_ops_snoc live_def by blast
  moreover have "reg_inv ?subs (lb_regs b)"
    using inv same reg_inv_cong [of "lb_regs b" ?subs "lb_subs b"] unfolding lb_inv_def by blast
  ultimately show ?thesis
    using inv bound q by (auto simp: lb_inv_def b' queued_def pending_covers_def less_Suc_eq)
qed

lemma unsubscribe_inv:
  assumes inv: "lb_inv elems num_of tx_of dbUp b" and sub: "sub \<in> live b" and run: "unsubscribe sub b = Ret b'"
  shows "lb_inv elems num_of tx_of dbUp b'"
proof -
  obtain m where m: "Deliver (changeSubscriberStatus b) (subscriberStatusUnsubscribe, sub) = (False, m)"
    and b': "b' = b\<lparr>changeSubscriberStatus := m\<rparr>"
    using run by (auto simp: unsubscribe_def split: prod.splits bool.splits)
  have q: "queued b' = queued b @ [Unsubscribe sub]"
    using deliver_ok [OF m] by (simp add: b' queued_def)
  have "sub \<in> set (registeredSubs (lb_regs b)) \<union> op_sub ` set (queued b)"
    using sub foldl_subs_after_subset unfolding live_def by blast
  then show ?thesis
    using inv sub unfolding lb_inv_def q by (auto simp: b' legal_ops_snoc live_def pending_covers_def)
qed

lemma lb_inv_upd:
  assumes inv: "lb_inv elems num_of tx_of dbUp b"
    and same: "lb_regs b' = lb_regs b" "lb_subs b' = lb_subs b" "lb_next b' = lb_next b"
      "changeSubscriberStatus b' = changeSubscriberStatus b"
    and heads: "set (queue (newHeads b')) \<subseteq> {p. is_int64 (Number (deref p))}"
    and pool: "pool_inv elems num_of (lb_pool b')" "\<forall>l\<in>ran (pool_contents (lb_pool b')). log_ok num_of tx_of l"
    and db: "db_inv num_of (lb_db b')" "dbUp \<Longrightarrow> pending_covers elems b'"
  shows "lb_inv elems num_of tx_of dbUp b'"
proof -
  have "queued b' = queued b" using same by (simp add: queued_def)
  then show ?thesis using assms unfolding lb_inv_def by auto
qed

lemma lb_inv_facts:
  assumes "lb_inv elems num_of tx_of dbUp b"
  shows "pool_inv elems num_of (lb_pool b)" "\<forall>l\<in>ran (pool_contents (lb_pool b)). log_ok num_of tx_of l"
    "reg_inv (lb_subs b) (lb_regs b)" "legal_ops (lb_subs b) (queued b) (set (registeredSubs (lb_regs b)))"
    "db_inv num_of (lb_db b)" "dbUp \<Longrightarrow> pending_covers elems b"
    "set (queue (newHeads b)) \<subseteq> {p. is_int64 (Number (deref p))}"
  using assms unfolding lb_inv_def by auto

lemma OnNewLongestChain_inv:
  assumes "lb_inv elems num_of tx_of dbUp b" and "is_int64 (Number (deref p))"
  shows "lb_inv elems num_of tx_of dbUp (OnNewLongestChain p b)"
  using assms(2) deliver_heads [of "newHeads b" p] lb_inv_facts [OF assms(1)]
  by (intro lb_inv_upd [OF assms(1)]) (auto simp: OnNewLongestChain_def pending_covers_def)

lemma ReplayFromBlock_inv:
  assumes "lb_inv elems num_of tx_of dbUp b"
  shows "lb_inv elems num_of tx_of dbUp (ReplayFromBlock n force b)"
  using lb_inv_facts [OF assms]
  by (intro lb_inv_upd [OF assms]) (auto simp: ReplayFromBlock_def pending_covers_def split: option.split)

subsection \<open>Database statements\<close>

lemma upsert_consumed_ok:
  assumes "distinct (map row_key rows)" and "\<forall>y\<in>set rows. row_BlockNumber y = Some (uint (num_of (row_BlockHash y)))"
    and "row_BlockNumber x = Some (uint (num_of (row_BlockHash x)))"
  shows "distinct (map row_key (upsert_consumed x rows))
    \<and> (\<forall>y\<in>set (upsert_consumed x rows). row_BlockNumber y = Some (uint (num_of (row_BlockHash y))))"
  using assms upsert_keys [of x rows] by (auto simp: upsert_consumed_def)

lemma MarkBroadcastConsumed_db:
  assumes "db_inv num_of db" and "num_of h = n"
  shows "db_inv num_of (snd (MarkBroadcastConsumed up h n i j db))"
  using assms upsert_consumed_ok [of "log_broadcasts db" num_of "consumed_row h n i j"]
  by (simp add: MarkBroadcastConsumed_def db_inv_def logdb_ok_def consumed_row_def)

lemma fold_upsert_ok:
  assumes "\<forall>x\<in>set xs. row_BlockNumber x = Some (uint (num_of (row_BlockHash x)))"
  shows "distinct (map row_key rows) \<Longrightarrow> \<forall>y\<in>set rows. row_BlockNumber y = Some (uint (num_of (row_BlockHash y))) \<Longrightarrow>
    distinct (map row_key (fold upsert_consumed xs rows))
    \<and> (\<forall>y\<in>set (fold upsert_consumed xs rows). row_BlockNumber y = Some (uint (num_of (row_BlockHash y))))"
  using assms
proof (induction xs arbitrary: rows)
  case (Cons x xs)
  have "distinct (map row_key (upsert_consumed x rows))
      \<and> (\<forall>y\<in>set (upsert_consumed x rows). row_BlockNumber y = Some (uint (num_of (row_BlockHash y))))"
    using upsert_consumed_ok [OF Cons.prems(1,2), of x] Cons.prems(3) by simp
  then show ?case using Cons.IH [of "upsert_consumed x rows"] Cons.prems(3) by simp
qed simp

lemma MarkBroadcastsConsumed_db:
  assumes "db_inv num_of db" and "\<forall>i < length hs. num_of (hs ! i) = ns ! i"
  shows "db_inv num_of (snd (MarkBroadcastsConsumed up hs ns is js db))"
proof -
  let ?xs = "map (\<lambda>i. consumed_row (hs ! i) (ns ! i) (is ! i) (js ! i)) [0..<length hs]"
  have "\<forall>x\<in>set ?xs. row_BlockNumber x = Some (uint (num_of (row_BlockHash x)))"
    using assms(2) by (auto simp: consumed_row_def)
  from fold_upsert_ok [OF this, of "log_broadcasts db"] assms(1)
  have "db_inv num_of (db\<lparr>log_broadcasts := fold upsert_consumed ?xs (log_broadcasts db)\<rparr>)"
    by (simp add: db_inv_def logdb_ok_def)
  moreover have "snd (MarkBroadcastsConsumed up hs ns is js db)
      \<in> {db, db\<lparr>log_broadcasts := fold upsert_consumed ?xs (log_broadcasts db)\<rparr>}"
    unfolding MarkBroadcastsConsumed_def Let_def by (simp split: if_split)
  ultimately show ?thesis using assms(1) by auto
qed

lemma CreateBroadcast_db:
  assumes "db_inv num_of db" and "num_of h = n"
  shows "db_inv num_of (snd (CreateBroadcast up h n i j db))"
  using assms by (auto simp: CreateBroadcast_def db_inv_def logdb_ok_def Let_def)

lemma MarkBroadcastsUnconsumed_db:
  assumes "db_inv num_of db"
  shows "db_inv num_of (snd (MarkBroadcastsUnconsumed up n db))"
proof -
  define f :: "lb_row \<Rightarrow> lb_row" where "f x = (case row_BlockNumber x of None \<Rightarrow> x
      | Some m \<Rightarrow> if m \<ge> n then x\<lparr>row_Consumed := False\<rparr> else x)" for x
  have f: "row_key (f x) = row_key x" "row_BlockNumber (f x) = row_BlockNumber x" "row_BlockHash (f x) = row_BlockHash x" for x
    by (simp_all add: f_def row_key_def split: option.split)
  have "map row_key (map f xs) = map row_key xs" for xs using f(1) by simp
  then show ?thesis
    using assms f(2,3) unfolding MarkBroadcastsUnconsumed_def f_def [symmetric]
    by (auto simp: db_inv_def logdb_ok_def simp del: map_map)
qed

lemma SetPendingMinBlock_db [simp]:
  "db_inv num_of (snd (SetPendingMinBlock up n db)) = db_inv num_of db"
  "log_broadcasts (snd (SetPendingMinBlock up n db)) = log_broadcasts db"
  "pending_block (snd (SetPendingMinBlock up n db)) = (if up then n else pending_block db)"
  by (simp_all add: SetPendingMinBlock_def db_inv_def logdb_ok_def)

lemma db_pending [simp]:
  "pending_block (snd (MarkBroadcastConsumed up h n i j db)) = pending_block db"
  "pending_block (snd (MarkBroadcastsConsumed up hs ns is js db)) = pending_block db"
  "pending_block (snd (CreateBroadcast up h n i j db)) = pending_block db"
  "pending_block (snd (MarkBroadcastsUnconsumed up m db)) = pending_block db"
  by (simp_all add: MarkBroadcastConsumed_def MarkBroadcastsConsumed_def CreateBroadcast_def MarkBroadcastsUnconsumed_def Let_def)

lemma lb_MarkConsumed_inv:
  assumes "lb_inv elems num_of tx_of dbUp b" and "num_of (LogBlockHash (rawLog lb)) = LogBlockNumber (rawLog lb)"
  shows "lb_inv elems num_of tx_of dbUp (snd (lb_MarkConsumed up lb b))"
proof -
  have eq: "snd (lb_MarkConsumed up lb b) = b\<lparr>lb_db := snd (MarkBroadcastConsumed up (LogBlockHash (rawLog lb))
      (LogBlockNumber (rawLog lb)) (LogIndex (rawLog lb)) (jobID lb) (lb_db b))\<rparr>"
    by (simp add: lb_MarkConsumed_def case_prod_beta)
  show ?thesis
    using lb_inv_facts [OF assms(1)] assms(2) MarkBroadcastConsumed_db
    unfolding eq by (intro lb_inv_upd [OF assms(1)]) (auto simp: pending_covers_def)
qed

lemma lb_MarkManyConsumed_inv:
  assumes "lb_inv elems num_of tx_of dbUp b"
    and "\<forall>lb\<in>set lbs. num_of (LogBlockHash (rawLog lb)) = LogBlockNumber (rawLog lb)"
  shows "lb_inv elems num_of tx_of dbUp (snd (lb_MarkManyConsumed up lbs b))"
proof -
  have eq: "snd (lb_MarkManyConsumed up lbs b) = b\<lparr>lb_db := snd (MarkBroadcastsConsumed up
      (map (\<lambda>x. LogBlockHash (rawLog x)) lbs) (map (\<lambda>x. LogBlockNumber (rawLog x)) lbs)
      (map (\<lambda>x. LogIndex (rawLog x)) lbs) (map jobID lbs) (lb_db b))\<rparr>"
    by (simp add: lb_MarkManyConsumed_def case_prod_beta)
  have "\<forall>i < length (map (\<lambda>x. LogBlockHash (rawLog x)) lbs).
      num_of (map (\<lambda>x. LogBlockHash (rawLog x)) lbs ! i) = map (\<lambda>x. LogBlockNumber (rawLog x)) lbs ! i"
    using assms(2) by simp
  with lb_inv_facts [OF assms(1)] MarkBroadcastsConsumed_db show ?thesis
    unfolding eq by (intro lb_inv_upd [OF assms(1)]) (auto simp: pending_covers_def simp del: length_map)
qed

subsection \<open>The pool\<close>

lemma pending_covers_pool:
  "pending_covers elems b \<Longrightarrow> elems (pool_heap (lb_pool b')) \<subseteq># elems (pool_heap (lb_pool b)) \<Longrightarrow>
     pending_block (lb_db b') = pending_block (lb_db b) \<Longrightarrow> pending_covers elems b'"
  unfolding pending_covers_def by (simp add: mset_subset_eqD)

context min_heap
begin

lemma newPool_heap [simp]: "elems (pool_heap (newLogPool H)) = {#}"
  by (simp add: newLogPool_def elems_New)

lemma newPool_ran [simp]: "ran (pool_contents (newLogPool H)) = {}"
  by simp

lemma invalidatePool_inv:
  assumes "lb_inv elems num_of tx_of dbUp b" and "env_heap E = H"
  shows "lb_inv elems num_of tx_of dbUp (snd (invalidatePool E b))"
proof (cases "heap_FindMin H (pool_heap (lb_pool b))")
  case (Some m)
  then have eq: "snd (invalidatePool E b) = b\<lparr>lb_pool := newLogPool H, backfillBlockNumber := Some (sint m)\<rparr>"
    by (simp add: invalidatePool_def assms(2))
  show ?thesis
    using lb_inv_facts [OF assms(1)] newLogPool_inv
    unfolding eq by (intro lb_inv_upd [OF assms(1)]) (simp_all add: pending_covers_def)
qed (use assms in \<open>simp add: invalidatePool_def\<close>)

lemma onReplayRequest_inv:
  assumes "lb_inv elems num_of tx_of dbUp b" and "env_heap E = H"
  shows "lb_inv elems num_of tx_of dbUp (snd (onReplayRequest E up req b))"
proof -
  let ?b = "snd (invalidatePool E b)"
  note inv = invalidatePool_inv [OF assms]
  show ?thesis
    using lb_inv_facts [OF inv] MarkBroadcastsUnconsumed_db
    by (intro lb_inv_upd [OF inv]) (auto simp: onReplayRequest_def Let_def pending_covers_def)
qed

lemma onNewLog_inv:
  assumes inv: "lb_inv elems num_of tx_of dbUp b" and E: "env_heap E = H" and l: "log_ok num_of tx_of l"
    and pos: "0 \<le> sint (num_of (LogBlockHash l))" and up: "dbUp \<Longrightarrow> up"
  shows "lb_inv elems num_of tx_of dbUp (onNewLog E up l b)"
proof -
  note facts = lb_inv_facts [OF inv]
  have num: "num_of (LogBlockHash l) = LogBlockNumber l" using l by (simp add: log_ok_def)
  consider "LogRemoved l" | "\<not> LogRemoved l" "\<not> isAddressRegistered (LogAddress l) (lb_regs b)"
    | "\<not> LogRemoved l" "isAddressRegistered (LogAddress l) (lb_regs b)" by blast
  then show ?thesis
  proof cases
    case 1
    have "ran (pool_contents (removeBlock (LogBlockHash l) (LogBlockNumber l) (lb_pool b))) \<subseteq> ran (pool_contents (lb_pool b))"
      by (auto simp: removeBlock_contents ran_def restrict_map_def split: if_splits)
    moreover have "pool_heap (removeBlock (LogBlockHash l) (LogBlockNumber l) (lb_pool b)) = pool_heap (lb_pool b)"
      by (simp add: removeBlock_def Let_def)
    ultimately show ?thesis
      using facts removeBlock_inv [OF facts(1) num] 1
      by (intro lb_inv_upd [OF inv]) (auto simp: onNewLog_def pending_covers_def)
  next
    case 2
    with inv show ?thesis by (simp add: onNewLog_def)
  next
    case 3
    let ?p = "snd (addLog H l (lb_pool b))" and ?new = "fst (addLog H l (lb_pool b))"
    have eq: "onNewLog E up l b = (if ?new then b\<lparr>lb_pool := ?p, lb_db := snd (SetPendingMinBlock up (Some (sint (LogBlockNumber l))) (lb_db b))\<rparr>
        else b\<lparr>lb_pool := ?p\<rparr>)"
      using 3 by (simp add: onNewLog_def E case_prod_beta Let_def)
    have p: "pool_inv elems num_of ?p" using addLog_inv [OF facts(1) num] pos num by simp
    have logs: "\<forall>l'\<in>ran (pool_contents ?p). log_ok num_of tx_of l'"
      using facts(2) l by (auto simp: addLog_contents ran_def split: if_splits)
    have "pending_covers elems (onNewLog E up l b)" if d: dbUp
    proof (cases ?new)
      case True
      have "sint (LogBlockNumber l) \<le> sint n" if "n \<in># elems (pool_heap (lb_pool b))" for n
        using True that sint_mono [of "LogBlockNumber l" n] pos num pool_inv_facts(6) [OF facts(1) that]
        by (auto simp: addLog_result)
      then show ?thesis using True up [OF d] unfolding eq by (auto simp: pending_covers_def addLog_heap)
    next
      case False
      then obtain n where n: "n \<in># elems (pool_heap (lb_pool b))" "n \<le> LogBlockNumber l"
        by (auto simp: addLog_result not_less)
      then have "sint n \<le> sint (LogBlockNumber l)"
        using sint_mono [of n "LogBlockNumber l"] pos num pool_inv_facts(6) [OF facts(1) n(1)] by simp
      moreover obtain m where "pending_block (lb_db b) = Some m" "m \<le> sint n"
        using facts(6) [OF d] n(1) unfolding pending_covers_def by blast
      ultimately show ?thesis using False facts(6) [OF d] unfolding eq by (auto simp: pending_covers_def addLog_heap)
    qed
    with facts p logs show ?thesis
      by (intro lb_inv_upd [OF inv]) (simp_all add: eq)
  qed
qed

end

section \<open>The handlers that drain a mailbox\<close>

lemma latest_head_eq:
  "latest_head m latest = (if queue m = [] then (latest, m) else (Some (hd (queue m)), m\<lparr>queue := []\<rparr>))"
  by (subst latest_head.simps; subst latest_head.simps)
    (auto simp: RetrieveLatestAndClear_def hd_conv_nth)

lemma onChangeSubscriberStatus_Nil:
  "queue (changeSubscriberStatus b) = [] \<Longrightarrow> onChangeSubscriberStatus E needs b = Ret (needs, b)"
  by (subst onChangeSubscriberStatus.simps) (simp add: Retrieve_def)

lemma onChangeSubscriberStatus_snoc:
  assumes "queue (changeSubscriberStatus b) = xs @ [x]"
  shows "onChangeSubscriberStatus E needs b =
     run_bind (reg_exec (env_topics_order E) (lb_subs b) (change_op x) (lb_regs b))
       (\<lambda>(r, n). onChangeSubscriberStatus E (n \<or> needs)
          (b\<lparr>changeSubscriberStatus := (changeSubscriberStatus b)\<lparr>queue := xs\<rparr>, lb_regs := r\<rparr>))"
proof -
  obtain c s where x: "x = (c, s)" by (cases x)
  have "Retrieve (changeSubscriberStatus b) = (Some (c, s), (changeSubscriberStatus b)\<lparr>queue := xs\<rparr>)"
    using assms by (simp add: Retrieve_def x nth_append)
  then show ?thesis
    by (subst onChangeSubscriberStatus.simps) (cases c; simp add: x split: run.split)
qed

text \<open>The changes queued are carried out in the order of their arrival, and a new subscription to
  the node is asked for if one of them needs it.\<close>

lemma onChangeSubscriberStatus_run:
  "onChangeSubscriberStatus E needs b =
     run_map (\<lambda>(r, flags). (needs \<or> True \<in> set flags,
         b\<lparr>changeSubscriberStatus := (changeSubscriberStatus b)\<lparr>queue := []\<rparr>, lb_regs := r\<rparr>))
       (run_regs (env_topics_order E) (lb_subs b) (queued b) (lb_regs b))"
proof (induction "queue (changeSubscriberStatus b)" arbitrary: b needs rule: rev_induct)
  case Nil
  then have q: "queue (changeSubscriberStatus b) = []" by simp
  then have "(changeSubscriberStatus b)\<lparr>queue := []\<rparr> = changeSubscriberStatus b" by simp
  then show ?case using onChangeSubscriberStatus_Nil [OF q, of E needs]
    by (simp add: queued_def waiting_def q)
next
  case (snoc x xs)
  then have q: "queue (changeSubscriberStatus b) = xs @ [x]" by simp
  define ch where "ch r = b\<lparr>changeSubscriberStatus := (changeSubscriberStatus b)\<lparr>queue := xs\<rparr>, lb_regs := r\<rparr>" for r
  have IH: "onChangeSubscriberStatus E n (ch r) = run_map (\<lambda>(r', flags). (n \<or> True \<in> set flags,
         (ch r)\<lparr>changeSubscriberStatus := (changeSubscriberStatus (ch r))\<lparr>queue := []\<rparr>, lb_regs := r'\<rparr>))
       (run_regs (env_topics_order E) (lb_subs (ch r)) (queued (ch r)) (lb_regs (ch r)))" for n r
    by (rule snoc.hyps(1)) (simp add: ch_def)
  have b: "queued b = change_op x # queued (ch r)" "lb_regs (ch r) = r" "lb_subs (ch r) = lb_subs b"
    "(ch r)\<lparr>changeSubscriberStatus := (changeSubscriberStatus (ch r))\<lparr>queue := []\<rparr>, lb_regs := r'\<rparr>
      = b\<lparr>changeSubscriberStatus := (changeSubscriberStatus b)\<lparr>queue := []\<rparr>, lb_regs := r'\<rparr>" for r r'
    by (simp_all add: queued_def waiting_def q ch_def)
  have step: "onChangeSubscriberStatus E needs b =
     run_bind (reg_exec (env_topics_order E) (lb_subs b) (change_op x) (lb_regs b))
       (\<lambda>(r, n). onChangeSubscriberStatus E (n \<or> needs) (ch r))"
    unfolding ch_def by (rule onChangeSubscriberStatus_snoc [OF q])
  show ?case
  proof (cases "reg_exec (env_topics_order E) (lb_subs b) (change_op x) (lb_regs b)")
    case (Ret y)
    obtain r n where y: "y = (r, n)" by (cases y)
    show ?thesis
      unfolding step Ret y run_bind.simps prod.case IH b(2-4) b(1) [of r] run_regs.simps
      by (cases "run_regs (env_topics_order E) (lb_subs b) (queued (ch r)) r") auto
  next
    case (Panic e)
    then show ?thesis unfolding step b(1) [of undefined] by simp
  qed
qed

lemma onChangeSubscriberStatus_inv:
  assumes inv: "lb_inv elems num_of tx_of dbUp b" and ord: "iteration_order (env_topics_order E)"
  shows "\<exists>needs b'. onChangeSubscriberStatus E False b = Ret (needs, b') \<and> lb_inv elems num_of tx_of dbUp b'
    \<and> set (registeredSubs (lb_regs b')) = live b \<and> queued b' = []
    \<and> (needs \<longleftrightarrow> True \<in> set (resubscribe_flags (lb_subs b) (queued b) (set (registeredSubs (lb_regs b)))))"
proof -
  note facts = lb_inv_facts [OF inv]
  let ?S = "set (registeredSubs (lb_regs b))"
  obtain r where r: "run_regs (env_topics_order E) (lb_subs b) (queued b) (lb_regs b)
      = Ret (r, resubscribe_flags (lb_subs b) (queued b) ?S)"
    "reg_inv (lb_subs b) r" "set (registeredSubs r) = live b"
    using run_regs_correct [OF ord facts(3,4)] unfolding live_def by blast
  let ?b = "b\<lparr>changeSubscriberStatus := (changeSubscriberStatus b)\<lparr>queue := []\<rparr>, lb_regs := r\<rparr>"
  have q: "queued ?b = []" by (simp add: queued_def waiting_def)
  have "live b \<subseteq> ?S \<union> op_sub ` set (queued b)"
    unfolding live_def by (rule foldl_subs_after_subset)
  then have "lb_inv elems num_of tx_of dbUp ?b"
    using inv r(2,3) unfolding lb_inv_def q by (auto simp: pending_covers_def)
  then show ?thesis
    unfolding onChangeSubscriberStatus_run r(1) using r(3) q by simp
qed

lemma send_to_listeners_ok:
  assumes regs: "reg_inv (lb_subs b) (lb_regs b)" and db: "db_inv num_of (lb_db b)"
    and ords: "iteration_order (env_handlers_order E)" "iteration_order (env_subs_order E)"
    and logs: "\<forall>l\<in>set (concat (map Logs logs)). log_ok num_of tx_of l"
  shows "\<exists>sent db'. send_to_listeners E createUp head logs broadcasts b = Ret (sent, b\<lparr>lb_db := db'\<rparr>)
    \<and> db_inv num_of db' \<and> pending_block db' = pending_block (lb_db b)"
proof -
  have topics: "\<And>x l. x \<in> set logs \<Longrightarrow> l \<in> set (Logs x) \<Longrightarrow> LogTopics l \<noteq> []"
    using logs by (auto simp: log_ok_def)
  obtain sent db' where s: "sendLogs (env_handlers_order E) (env_subs_order E) (lb_subs b) logs head broadcasts
      (CreateBroadcast createUp) (lb_regs b) (lb_db b) = Ret (sent, db')"
    using sendLogs_within [OF regs ords, where bs = logs and head = head and broadcasts = broadcasts
        and create = "CreateBroadcast createUp" and db = "lb_db b"] topics
    unfolding sends_within_def by blast
  have "db_inv num_of db' \<and> pending_block db' = pending_block (lb_db b)"
  proof (rule sendLogs_keeps [OF _ _ s, where P = "\<lambda>d. db_inv num_of d \<and> pending_block d = pending_block (lb_db b)"])
    fix l j d assume "l \<in> set (concat (map Logs logs))" "db_inv num_of d \<and> pending_block d = pending_block (lb_db b)"
    then show "db_inv num_of (snd (CreateBroadcast createUp (LogBlockHash l) (LogBlockNumber l) (LogIndex l) j d))
        \<and> pending_block (snd (CreateBroadcast createUp (LogBlockHash l) (LogBlockNumber l) (LogIndex l) j d)) = pending_block (lb_db b)"
      using logs by (intro conjI CreateBroadcast_db) (auto simp: log_ok_def)
  qed (use db in simp)
  then show ?thesis using s by (auto simp: send_to_listeners_def)
qed

lemma ran_restrict_subset: "ran (pool_contents p |` S) \<subseteq> ran (pool_contents p)"
  by (auto simp: ran_def restrict_map_def split: if_splits)

lemma batch_logs:
  assumes "min_heap H elems" and "pool_inv elems num_of p" and "pool_orders_ok ords"
  shows "set (concat (map Logs (batch_of ords num_of p hs))) \<subseteq> ran (pool_contents p)"
  using min_heap.batch_set [OF assms] by (auto simp: ran_def)

lemma covers_FindMin:
  assumes heap: "min_heap H elems" and inv: "pool_inv elems num_of (lb_pool b)"
    and pending: "pending_block (lb_db b) = map_option sint (heap_FindMin H (pool_heap (lb_pool b)))"
  shows "pending_covers elems b"
  unfolding pending_covers_def
proof
  fix n assume n: "n \<in># elems (pool_heap (lb_pool b))"
  show "\<exists>m. pending_block (lb_db b) = Some m \<and> m \<le> sint n"
  proof (cases rule: min_heap.FindMin_cases [OF heap, of "pool_heap (lb_pool b)"])
    case (2 m)
    then show ?thesis
      using n pending sint_mono [of m n] pool_inv_facts(6) [OF inv] by simp
  qed (use n in simp)
qed

text \<open>When \<open>onNewHeads\<close> returns for a waiting head: the chain behind the head ends, and the loop over
  block numbers does, because it does not run up to the largest \<open>int64\<close> or is not entered.\<close>

definition head_ends :: "'h lb_env \<Rightarrow> head_ptr \<Rightarrow> 'h broadcaster \<Rightarrow> bool" where
  "head_ends E p b \<longleftrightarrow> (\<exists>n. ChainLength (Parent (gen p)) (Some (ref p)) = Some (Ret n))
     \<and> (Number (deref p) < MaxInt64 \<or> highestNumConfirmations (lb_regs b) = 0
         \<or> heap_FindMin (env_heap E) (pool_heap (lb_pool b)) = None)"

lemma onNewHeads_ends:
  assumes inv: "lb_inv elems num_of tx_of dbUp b" and env: "env_ok E elems num_of" and up: "dbUp \<Longrightarrow> setUp"
    and Cons: "queue (newHeads b) = p # rest" and ends: "head_ends E p b"
  shows "\<exists>sent b'. onNewHeads E cfg findOk createUp setUp b = Some (Ret (sent, b')) \<and> lb_inv elems num_of tx_of dbUp b'"
proof -
  note facts = lb_inv_facts [OF inv]
  have heap: "min_heap (env_heap E) elems" and pords: "pool_orders_ok (env_pool_orders E)"
    and ords: "iteration_order (env_handlers_order E)" "iteration_order (env_subs_order E)"
    using env by (simp_all add: env_ok_def)
  note delete_all_loop_correct = min_heap.delete_all_loop_correct [OF heap]
    and getLogsToSend_batch = min_heap.getLogsToSend_batch [OF heap]
    and deleteOlderLogs_correct = min_heap.deleteOlderLogs_correct [OF heap]
    and FindMin_cases = min_heap.FindMin_cases [OF heap]
  let ?p = "lb_pool b" and ?O = "env_pool_orders E"
  define head where "head = deref p"
  obtain n where chain: "ChainLength (Parent (gen p)) (Some (ref p)) = Some (Ret n)"
    using ends by (auto simp: head_ends_def)
  define b1 where "b1 = b\<lparr>newHeads := (newHeads b)\<lparr>queue := []\<rparr>, lastSeenHeadNumber := Number head\<rparr>"
  have b1: "lb_regs b1 = lb_regs b" "lb_pool b1 = ?p" "lb_db b1 = lb_db b" "lb_subs b1 = lb_subs b"
    by (simp_all add: b1_def)
  have inv1: "lb_inv elems num_of tx_of dbUp b1"
    using facts by (intro lb_inv_upd [OF inv]) (auto simp: b1_def pending_covers_def)
  note facts1 = lb_inv_facts [OF inv1]
  have latest: "latest_head (newHeads b) None = (Some p, (newHeads b)\<lparr>queue := []\<rparr>)"
    by (simp add: latest_head_eq Cons)
  have batch_ok: "\<forall>l\<in>set (concat (map Logs (batch_of ?O num_of ?p hs))). log_ok num_of tx_of l" for hs
    using facts(2) batch_logs [OF heap facts(1) pords] by blast
  show ?thesis
  proof (cases "highestNumConfirmations (lb_regs b) = 0")
    case True
    obtain hs lo hi q where all: "getAndDeleteAll (env_heap E) ?O ?p = Some (batch_of ?O num_of ?p hs, lo, hi, q)"
      "pool_inv elems num_of q" "pool_contents q = Map.empty" "elems (pool_heap q) = {#}"
      using delete_all_loop_correct [OF facts(1) pords, of "[]" MaxInt64 0] by (auto simp: getAndDeleteAll_def)
    define b2 where "b2 = b1\<lparr>lb_pool := q\<rparr>"
    have inv2: "lb_inv elems num_of tx_of dbUp (b2\<lparr>lb_db := d\<rparr>)" if "db_inv num_of d" for d
      using facts1 all that by (intro lb_inv_upd [OF inv1]) (auto simp: b2_def pending_covers_def)
    have "lb_inv elems num_of tx_of dbUp b2" using inv2 [of "lb_db b2"] facts1(5) by (simp add: b2_def)
    note facts2 = lb_inv_facts [OF this]
    obtain sent db' where send: "send_to_listeners E createUp head (batch_of ?O num_of ?p hs)
        (FindBroadcasts lo hi (lb_db b2)) b2 = Ret (sent, b2\<lparr>lb_db := db'\<rparr>)" "db_inv num_of db'"
      using send_to_listeners_ok [OF facts2(3,5) ords batch_ok] by blast
    have run: "onNewHeads E cfg findOk createUp setUp b =
        (if batch_of ?O num_of ?p hs = [] \<or> \<not> findOk then Some (Ret ([], b2))
         else Some (Ret (sent, b2\<lparr>lb_db := snd (SetPendingMinBlock setUp None db')\<rparr>)))"
      using True all(1) send(1)
      by (simp add: onNewHeads_def latest chain head_def [symmetric] b1_def [symmetric] b1 b2_def [symmetric] Let_def)
    show ?thesis unfolding run using inv2 [of "lb_db b2"] inv2 [of "snd (SetPendingMinBlock setUp None db')"] send(2) facts2(5)
      by simp
  next
    case False
    then have "Number head < MaxInt64 \<or> heap_FindMin (env_heap E) (pool_heap ?p) = None"
      using ends by (simp add: head_ends_def head_def)
    then obtain hs lo where send: "getLogsToSend (env_heap E) ?O (Number head) ?p = Some (batch_of ?O num_of ?p hs, lo)"
      by (rule getLogsToSend_batch [OF facts(1) pords])
    obtain r q where del: "deleteOlderLogs (env_heap E) ?O (keptDepth cfg (lb_regs b) (Number head)) ?p = Some (r, q)"
      "pool_inv elems num_of q" "ran (pool_contents q) \<subseteq> ran (pool_contents ?p)"
      "r = map_option sint (heap_FindMin (env_heap E) (pool_heap q))"
      using deleteOlderLogs_correct [OF facts(1) pords, of "keptDepth cfg (lb_regs b) (Number head)"]
        ran_restrict_subset [of "lb_pool b"] by metis
    obtain sent db' where sent: "send_to_listeners E createUp head (batch_of ?O num_of ?p hs)
        (FindBroadcasts lo (Number head) (lb_db b1)) b1 = Ret (sent, b1\<lparr>lb_db := db'\<rparr>)" "db_inv num_of db'"
      using send_to_listeners_ok [OF facts1(3,5) ords batch_ok] by blast
    define fin where "fin d = b1\<lparr>lb_db := snd (SetPendingMinBlock setUp r d), lb_pool := q\<rparr>" for d
    have fin: "lb_inv elems num_of tx_of dbUp (fin d)" if "db_inv num_of d" for d
    proof (rule lb_inv_upd [OF inv1])
      show "pending_covers elems (fin d)" if dbUp
        using up [OF that] del(2,4) by (intro covers_FindMin [OF heap]) (simp_all add: fin_def)
    qed (use facts1 facts(2) del that in \<open>auto simp: fin_def\<close>)
    have "fin (lb_db b) = b1\<lparr>lb_pool := q, lb_db := snd (SetPendingMinBlock setUp r (lb_db b1))\<rparr>"
      "fin db' = b1\<lparr>lb_db := db', lb_pool := q, lb_db := snd (SetPendingMinBlock setUp r db')\<rparr>"
      by (simp_all add: fin_def b1)
    then have run: "onNewHeads E cfg findOk createUp setUp b =
        (if batch_of ?O num_of ?p hs \<noteq> [] \<and> \<not> findOk then Some (Ret ([], b1))
         else if batch_of ?O num_of ?p hs = [] then Some (Ret ([], fin (lb_db b)))
         else Some (Ret (sent, fin db')))"
      using False send del(1) sent(1)
      by (simp add: onNewHeads_def latest chain head_def [symmetric] b1_def [symmetric] b1 Let_def)
    show ?thesis unfolding run using inv1 fin facts(5) sent(2) by simp
  qed
qed

text \<open>Otherwise it never returns, unless it panics with \<open>ChainLength\<close>.\<close>

lemma onNewHeads_stuck:
  assumes inv: "lb_inv elems num_of tx_of dbUp b" and Cons: "queue (newHeads b) = p # rest" and stuck: "\<not> head_ends E p b"
  shows "onNewHeads E cfg findOk createUp setUp b = None
     \<or> (\<exists>e. ChainLength (Parent (gen p)) (Some (ref p)) = Some (Panic e)
            \<and> onNewHeads E cfg findOk createUp setUp b = Some (Panic e))"
proof -
  have latest: "latest_head (newHeads b) None = (Some p, (newHeads b)\<lparr>queue := []\<rparr>)"
    by (simp add: latest_head_eq Cons)
  have int: "is_int64 (Number (deref p))" using lb_inv_facts(7) [OF inv] Cons by simp
  consider "ChainLength (Parent (gen p)) (Some (ref p)) = None"
    | e where "ChainLength (Parent (gen p)) (Some (ref p)) = Some (Panic e)"
    | n where "ChainLength (Parent (gen p)) (Some (ref p)) = Some (Ret n)"
    by (metis option.exhaust run.exhaust)
  then show ?thesis
  proof cases
    case (3 n)
    with stuck int have max: "Number (deref p) = MaxInt64" and regs: "highestNumConfirmations (lb_regs b) \<noteq> 0"
      and "heap_FindMin (env_heap E) (pool_heap (lb_pool b)) \<noteq> None"
      by (auto simp: head_ends_def is_int64_def)
    from getLogsToSend_forever [OF this(3)] max regs show ?thesis
      by (simp add: onNewHeads_def latest 3 Let_def)
  qed (simp_all add: onNewHeads_def latest)
qed

lemma onNewHeads_inv:
  assumes inv: "lb_inv elems num_of tx_of dbUp b" and env: "env_ok E elems num_of" and up: "dbUp \<Longrightarrow> setUp"
    and run: "onNewHeads E cfg findOk createUp setUp b = Some (Ret (sent, b'))"
  shows "lb_inv elems num_of tx_of dbUp b'"
proof (cases "queue (newHeads b)")
  case Nil
  then have "(newHeads b)\<lparr>queue := []\<rparr> = newHeads b" by simp
  with inv run Nil show ?thesis by (simp add: onNewHeads_def latest_head_eq)
next
  case (Cons p rest)
  from onNewHeads_stuck [OF inv Cons, of E cfg findOk createUp setUp] run have "head_ends E p b" by auto
  from onNewHeads_ends [OF inv env up Cons this, of cfg findOk createUp] run show ?thesis by auto
qed

lemma onNewHeads_returns:
  assumes inv: "lb_inv elems num_of tx_of dbUp b" and env: "env_ok E elems num_of" and up: "dbUp \<Longrightarrow> setUp"
  shows "(\<exists>sent b'. onNewHeads E cfg findOk createUp setUp b = Some (Ret (sent, b')))
    \<longleftrightarrow> (case queue (newHeads b) of [] \<Rightarrow> True | p # rest \<Rightarrow> head_ends E p b)"
proof (cases "queue (newHeads b)")
  case Nil
  then show ?thesis by (simp add: onNewHeads_def latest_head_eq)
next
  case (Cons p rest)
  show ?thesis
    using onNewHeads_ends [OF inv env up Cons, of cfg findOk createUp]
      onNewHeads_stuck [OF inv Cons, of E cfg findOk createUp setUp] unfolding Cons list.case
    by (cases "head_ends E p b") auto
qed

section \<open>Reachable states\<close>

lemma NewBroadcaster_inv:
  assumes env: "env_ok E elems num_of" and db: "db_inv num_of db"
  shows "lb_inv elems num_of tx_of dbUp (NewBroadcaster E db)"
proof -
  have heap: "min_heap (env_heap E) elems" using env by (simp add: env_ok_def)
  note newLogPool_inv = min_heap.newLogPool_inv [OF heap]
    and newPool_heap = min_heap.newPool_heap [OF heap] and newPool_ran = min_heap.newPool_ran [OF heap]
  show ?thesis
    using newLogPool_inv newRegistrations_inv db
    by (simp add: newPool_heap newPool_ran lb_inv_def NewBroadcaster_def queued_def waiting_def NewMailbox_def pending_covers_def newRegistrations_def)
qed

lemma lb_step_inv:
  assumes "lb_step E cfg num_of tx_of dbUp b b'" and env: "env_ok E elems num_of" and inv: "lb_inv elems num_of tx_of dbUp b"
  shows "lb_inv elems num_of tx_of dbUp b'"
proof -
  have heap: "min_heap (env_heap E) elems" using env by (simp add: env_ok_def)
  note onReplayRequest_inv = min_heap.onReplayRequest_inv [OF heap]
    and onNewLog_inv = min_heap.onNewLog_inv [OF heap] and invalidatePool_inv = min_heap.invalidatePool_inv [OF heap]
  have ord: "iteration_order (env_topics_order E)" and pos: "\<And>h. 0 \<le> sint (num_of h)"
    using env by (simp_all add: env_ok_def)
  show ?thesis
    using assms(1)
  proof cases
    case (step_register opts sub)
    then show ?thesis using Register_inv [OF inv] by blast
  next
    case (step_unsubscribe sub)
    then show ?thesis using unsubscribe_inv [OF inv] by blast
  next
    case (step_new_heads setUp findOk createUp sent)
    then show ?thesis
      using onNewHeads_inv [OF inv env _ step_new_heads(2)] by auto
  next
    case (step_head p head)
    then show ?thesis using OnNewLongestChain_inv [OF inv, of p] by (simp add: deref_def)
  next
    case (step_changes needs)
    then show ?thesis using onChangeSubscriberStatus_inv [OF inv ord] by auto
  next
    case (step_replay req up)
    have "lb_inv elems num_of tx_of dbUp (b\<lparr>replayChannel := None\<rparr>)"
      using lb_inv_facts [OF inv] by (intro lb_inv_upd [OF inv]) (auto simp: pending_covers_def)
    then show ?thesis unfolding step_replay(1) by (rule onReplayRequest_inv) simp
  next
    case (step_log l up)
    then show ?thesis using onNewLog_inv [OF inv refl _ pos] by blast
  qed (use inv in \<open>auto intro: ReplayFromBlock_inv lb_MarkConsumed_inv lb_MarkManyConsumed_inv invalidatePool_inv\<close>)
qed

definition lb_reachable ::
    "'h lb_env \<Rightarrow> lb_config \<Rightarrow> (nat \<Rightarrow> 64 word) \<Rightarrow> (nat \<Rightarrow> nat \<Rightarrow> nat) \<Rightarrow> bool \<Rightarrow> 'h broadcaster \<Rightarrow> bool" where
  "lb_reachable E cfg num_of tx_of dbUp b \<longleftrightarrow>
     (\<exists>db. db_inv num_of db \<and> (lb_step E cfg num_of tx_of dbUp)\<^sup>*\<^sup>* (NewBroadcaster E db) b)"

lemma lb_reachable_inv:
  assumes "env_ok E elems num_of" and "lb_reachable E cfg num_of tx_of dbUp b"
  shows "lb_inv elems num_of tx_of dbUp b"
proof -
  obtain db where db: "db_inv num_of db" and "(lb_step E cfg num_of tx_of dbUp)\<^sup>*\<^sup>* (NewBroadcaster E db) b"
    using assms(2) unfolding lb_reachable_def by blast
  from this(2) show ?thesis
    by (induction rule: rtranclp_induct) (auto intro: NewBroadcaster_inv [OF assms(1) db] lb_step_inv [OF _ assms(1)])
qed

section \<open>What a new head delivers\<close>

text \<open>Every log in the pool up to the head, for every registered listener that wants it, that has the
  confirmations the listener asked for, and whose broadcast the listener's job has not consumed.\<close>

definition head_due :: "Head \<Rightarrow> 'h broadcaster \<Rightarrow> (nat \<times> broadcast) set" where
  "head_due head b =
     {(s, broadcast_of (lb_subs b) head l s) | s l f. l \<in> ran (pool_contents (lb_pool b))
        \<and> sint (LogBlockNumber l) \<le> Number head \<and> s \<in> set (registeredSubs (lb_regs b))
        \<and> Contract (lb_subs b s) = LogAddress l
        \<and> isOldEnough (MinIncomingConfirmations (lb_subs b s)) (LogBlockNumber l) (word_of_int (Number head))
        \<and> map_of (LogsWithTopics (lb_subs b s)) (hd (LogTopics l)) = Some f
        \<and> (f = [] \<or> length (LogTopics l) \<le> 1 \<or> filtersContainValues (tl (LogTopics l)) f)
        \<and> ParseLog (lb_subs b s) l \<noteq> None
        \<and> \<not> WasBroadcastConsumed (LogBlockHash l) (LogIndex l) (JobID (lb_subs b s)) (lb_db b)}"

lemma existing_broadcasts_map_of:
  "existing_broadcasts bs = map_of (rev (map (\<lambda>b. (AsKey b, lb_Consumed b)) bs))"
  unfolding existing_broadcasts_def by (induction bs rule: rev_induct) simp_all

lemma existing_found:
  assumes "logdb_ok db"
  shows "existing_broadcasts (FindBroadcasts lo hi db) k = Some c \<longleftrightarrow>
    (\<exists>x\<in>set (log_broadcasts db). row_key x = k \<and> row_Consumed x = c
       \<and> (\<exists>n. row_BlockNumber x = Some n \<and> lo \<le> n \<and> n \<le> hi))"
proof -
  let ?P = "\<lambda>x. case row_BlockNumber x of None \<Rightarrow> False | Some n \<Rightarrow> n \<ge> lo \<and> n \<le> hi"
  have "map (\<lambda>b. (AsKey b, lb_Consumed b)) (FindBroadcasts lo hi db)
      = map (\<lambda>x. (row_key x, row_Consumed x)) (filter ?P (log_broadcasts db))"
    by (simp add: FindBroadcasts_def AsKey_def row_key_def)
  moreover have "distinct (map row_key (filter ?P (log_broadcasts db)))"
    using assms by (simp add: logdb_ok_def distinct_map_filter)
  ultimately have "existing_broadcasts (FindBroadcasts lo hi db) k = Some c \<longleftrightarrow>
      (k, c) \<in> set (map (\<lambda>x. (row_key x, row_Consumed x)) (filter ?P (log_broadcasts db)))"
    unfolding existing_broadcasts_map_of by (subst map_of_eq_Some_iff) (simp_all add: comp_def flip: rev_map)
  then show ?thesis by (auto split: option.splits)
qed

text \<open>For a log whose block number lies in the range asked for, the rows found are those the table
  has for it.\<close>

lemma existing_key:
  assumes db: "db_inv num_of db" and num: "num_of (LogBlockHash l) = LogBlockNumber l" and pos: "0 \<le> sint (LogBlockNumber l)"
    and range: "lo \<le> sint (LogBlockNumber l)" "sint (LogBlockNumber l) \<le> hi"
  shows "existing_broadcasts (FindBroadcasts lo hi db) (NewLogBroadcastAsKey l j) = Some True \<longleftrightarrow>
      WasBroadcastConsumed (LogBlockHash l) (LogIndex l) j db"
    and "existing_broadcasts (FindBroadcasts lo hi db) (NewLogBroadcastAsKey l j) = None \<longleftrightarrow>
      NewLogBroadcastAsKey l j \<notin> row_key ` set (log_broadcasts db)"
proof -
  have ok: "logdb_ok db" using db by (simp add: db_inv_def)
  have row: "\<exists>n. row_BlockNumber x = Some n \<and> lo \<le> n \<and> n \<le> hi"
    if "x \<in> set (log_broadcasts db)" "row_key x = NewLogBroadcastAsKey l j" for x
  proof -
    have "row_BlockHash x = LogBlockHash l" using that(2) by (simp add: row_key_def NewLogBroadcastAsKey_def)
    then have "row_BlockNumber x = Some (sint (LogBlockNumber l))"
      using db that(1) num sint_nonneg [OF pos] by (auto simp: db_inv_def)
    with range show ?thesis by simp
  qed
  note found = existing_found [OF ok, of lo hi "NewLogBroadcastAsKey l j"]
  show "existing_broadcasts (FindBroadcasts lo hi db) (NewLogBroadcastAsKey l j) = Some True \<longleftrightarrow>
      WasBroadcastConsumed (LogBlockHash l) (LogIndex l) j db"
    unfolding found WasBroadcastConsumed_iff [OF ok] using row by (auto simp: NewLogBroadcastAsKey_def)
  have "existing_broadcasts (FindBroadcasts lo hi db) (NewLogBroadcastAsKey l j) \<noteq> None \<longleftrightarrow>
      NewLogBroadcastAsKey l j \<in> row_key ` set (log_broadcasts db)"
    unfolding not_None_eq found using row by (force simp: image_iff)
  then show "existing_broadcasts (FindBroadcasts lo hi db) (NewLogBroadcastAsKey l j) = None \<longleftrightarrow>
      NewLogBroadcastAsKey l j \<notin> row_key ` set (log_broadcasts db)" by blast
qed

lemma CreateBroadcast_accepts:
  assumes "\<And>h. 0 \<le> sint (num_of h)"
  shows "accepts (\<lambda>db. row_key ` set (log_broadcasts db)) num_of (CreateBroadcast True)"
proof -
  have "\<not> MaxInt64 < uint (num_of h)" for h
    using sint_nonneg [OF assms, of h] sint_lt [of "num_of h"] by (simp add: MaxInt64_def)
  then show ?thesis
    by (auto simp: accepts_def CreateBroadcast_def row_key_def Let_def)
qed

lemma batch_member:
  assumes heap: "min_heap H elems" and inv: "pool_inv elems num_of p" and ords: "pool_orders_ok ords"
    and hs: "set hs = {h. logsByBlockHash p h \<noteq> None \<and> sint (num_of h) \<le> n}"
  shows "(\<exists>x\<in>set (batch_of ords num_of p hs). l \<in> set (Logs x) \<and> BlockNumber x = m) \<longleftrightarrow>
    l \<in> ran (pool_contents p) \<and> sint (LogBlockNumber l) \<le> n \<and> m = LogBlockNumber l"
proof -
  have mem: "l \<in> set (flatten_logs ords (block_txs p h)) \<longleftrightarrow> (\<exists>k. fst k = h \<and> pool_contents p k = Some l)" for h
    by (rule pool_contents_iff [OF inv ords])
  have "fst k \<in> set hs \<and> num_of (fst k) = m \<longleftrightarrow> sint (LogBlockNumber l) \<le> n \<and> m = LogBlockNumber l"
    if "pool_contents p k = Some l" for k
    using pool_contents_ok(2,3) [OF inv that] pool_inv_facts(3) [OF inv] hs by auto
  then have "(\<exists>h\<in>set hs. l \<in> set (flatten_logs ords (block_txs p h)) \<and> num_of h = m) \<longleftrightarrow>
      (\<exists>k. pool_contents p k = Some l) \<and> sint (LogBlockNumber l) \<le> n \<and> m = LogBlockNumber l"
    unfolding mem by blast
  then show ?thesis by (auto simp: batch_of_def newLogsOnBlock_def ran_def)
qed

lemma due_head_due:
  assumes inv: "lb_inv elems num_of tx_of dbUp b" and heap: "min_heap H elems" and ords: "pool_orders_ok ords"
    and hs: "set hs = {h. logsByBlockHash (lb_pool b) h \<noteq> None \<and> sint (num_of h) \<le> Number head}"
    and lo: "\<And>l. l \<in> ran (pool_contents (lb_pool b)) \<Longrightarrow> lo \<le> sint (LogBlockNumber l)"
  shows "due (lb_subs b) (set (registeredSubs (lb_regs b))) (batch_of ords num_of (lb_pool b) hs) head
      (FindBroadcasts lo (Number head) (lb_db b)) = head_due head b"
proof -
  note facts = lb_inv_facts [OF inv]
  let ?ex = "existing_broadcasts (FindBroadcasts lo (Number head) (lb_db b))"
  have send: "should_send (lb_subs b) ?ex l s f \<longleftrightarrow>
      (f = [] \<or> length (LogTopics l) \<le> 1 \<or> filtersContainValues (tl (LogTopics l)) f) \<and> ParseLog (lb_subs b s) l \<noteq> None
      \<and> \<not> WasBroadcastConsumed (LogBlockHash l) (LogIndex l) (JobID (lb_subs b s)) (lb_db b)"
    if l: "l \<in> ran (pool_contents (lb_pool b))" and le: "sint (LogBlockNumber l) \<le> Number head" for l s f
  proof -
    obtain k where k: "pool_contents (lb_pool b) k = Some l" using l unfolding ran_def by blast
    have "num_of (LogBlockHash l) = LogBlockNumber l" using facts(2) l by (auto simp: log_ok_def)
    from existing_key(1) [OF facts(5) this pool_contents_ok(5) [OF facts(1) k] lo [OF l] le]
    show ?thesis unfolding should_send_def by blast
  qed
  let ?Q = "\<lambda>s l m f. s \<in> set (registeredSubs (lb_regs b)) \<and> Contract (lb_subs b s) = LogAddress l
      \<and> isOldEnough (MinIncomingConfirmations (lb_subs b s)) m (word_of_int (Number head))
      \<and> map_of (LogsWithTopics (lb_subs b s)) (hd (LogTopics l)) = Some f \<and> should_send (lb_subs b) ?ex l s f"
  have "due (lb_subs b) (set (registeredSubs (lb_regs b))) (batch_of ords num_of (lb_pool b) hs) head
      (FindBroadcasts lo (Number head) (lb_db b))
    = {(s, broadcast_of (lb_subs b) head l s) | s l m f.
        (\<exists>x\<in>set (batch_of ords num_of (lb_pool b) hs). l \<in> set (Logs x) \<and> BlockNumber x = m) \<and> ?Q s l m f}"
    unfolding due_def by blast
  also have "\<dots> = {(s, broadcast_of (lb_subs b) head l s) | s l f. \<exists>m.
        (l \<in> ran (pool_contents (lb_pool b)) \<and> sint (LogBlockNumber l) \<le> Number head \<and> m = LogBlockNumber l)
        \<and> ?Q s l m f}"
    unfolding batch_member [OF heap facts(1) ords hs] by (rule Collect_cong) iprover
  also have "\<dots> = head_due head b"
    unfolding head_due_def
  proof (intro Collect_cong arg_cong [where f = Ex] ext conj_cong refl)
    fix s l f
    show "(\<exists>m. (l \<in> ran (pool_contents (lb_pool b)) \<and> sint (LogBlockNumber l) \<le> Number head \<and> m = LogBlockNumber l) \<and> ?Q s l m f)
      \<longleftrightarrow> l \<in> ran (pool_contents (lb_pool b)) \<and> sint (LogBlockNumber l) \<le> Number head \<and> s \<in> set (registeredSubs (lb_regs b))
        \<and> Contract (lb_subs b s) = LogAddress l
        \<and> isOldEnough (MinIncomingConfirmations (lb_subs b s)) (LogBlockNumber l) (word_of_int (Number head))
        \<and> map_of (LogsWithTopics (lb_subs b s)) (hd (LogTopics l)) = Some f
        \<and> (f = [] \<or> length (LogTopics l) \<le> 1 \<or> filtersContainValues (tl (LogTopics l)) f)
        \<and> ParseLog (lb_subs b s) l \<noteq> None
        \<and> \<not> WasBroadcastConsumed (LogBlockHash l) (LogIndex l) (JobID (lb_subs b s)) (lb_db b)"
      using send [of l s f] by iprover
  qed
  finally show ?thesis .
qed

text \<open>Whatever is handed to a listener has a row in the table before: it was found there, or was
  inserted.\<close>

definition broadcast_key :: "nat \<times> broadcast \<Rightarrow> LogBroadcastAsKey" where
  "broadcast_key x = NewLogBroadcastAsKey (rawLog (snd x)) (jobID (snd x))"

definition records ::
    "(LogBroadcastAsKey \<Rightarrow> bool option) \<Rightarrow> ('db \<Rightarrow> LogBroadcastAsKey set)
      \<Rightarrow> ('db \<Rightarrow> ((nat \<times> broadcast) list \<times> 'db) run) \<Rightarrow> bool" where
  "records found ks g \<longleftrightarrow> (\<forall>db sent db'. g db = Ret (sent, db') \<longrightarrow>
     ks db \<subseteq> ks db' \<and> (\<forall>x\<in>set sent. found (broadcast_key x) = None \<longrightarrow> broadcast_key x \<in> ks db'))"

definition stores :: "('db \<Rightarrow> LogBroadcastAsKey set) \<Rightarrow> 'db creator \<Rightarrow> bool" where
  "stores ks create \<longleftrightarrow> (\<forall>h n i j db. ks db \<subseteq> ks (snd (create h n i j db)) \<and>
     (fst (create h n i j db) \<longrightarrow>
        \<lparr>key_BlockHash = h, key_LogIndex = i, key_JobId = j\<rparr> \<in> ks (snd (create h n i j db))))"

lemma records_Nil: "records found ks (\<lambda>db. Ret ([], db))"
  by (simp add: records_def)

lemma records_seq:
  assumes "records found ks g" and "records found ks g'"
  shows "records found ks (\<lambda>db. run_bind (g db) (\<lambda>(sent, db1). run_map (\<lambda>(sent', db2). (sent @ sent', db2)) (g' db1)))"
  unfolding records_def
proof (intro allI impI)
  fix db sent db'
  assume "run_bind (g db) (\<lambda>(sent, db1). run_map (\<lambda>(sent', db2). (sent @ sent', db2)) (g' db1)) = Ret (sent, db')"
  then obtain s1 db1 s2 where run: "g db = Ret (s1, db1)" "g' db1 = Ret (s2, db')" "sent = s1 @ s2"
    by (auto simp: run_simps)
  have "ks db \<subseteq> ks db1" "\<forall>x\<in>set s1. found (broadcast_key x) = None \<longrightarrow> broadcast_key x \<in> ks db1"
    "ks db1 \<subseteq> ks db'" "\<forall>x\<in>set s2. found (broadcast_key x) = None \<longrightarrow> broadcast_key x \<in> ks db'"
    using assms run(1,2) unfolding records_def by blast+
  then show "ks db \<subseteq> ks db' \<and> (\<forall>x\<in>set sent. found (broadcast_key x) = None \<longrightarrow> broadcast_key x \<in> ks db')"
    unfolding run(3) by auto
qed

lemma records_if: "records found ks g \<Longrightarrow> records found ks g' \<Longrightarrow> records found ks (\<lambda>db. if c then g db else g' db)"
  by (cases c) simp_all

lemma send_to_subs_records:
  assumes "stores ks create"
  shows "records found ks (\<lambda>db. Ret (send_to_subs subs l head found create m db))"
proof (induction m)
  case Nil
  show ?case by (simp add: records_Nil)
next
  case (Cons e m)
  obtain s f where e: "e = (s, f)" by (cases e)
  have IH: "ks d \<subseteq> ks (snd (send_to_subs subs l head found create m d))"
    "x \<in> set (fst (send_to_subs subs l head found create m d)) \<Longrightarrow> found (broadcast_key x) = None \<Longrightarrow>
      broadcast_key x \<in> ks (snd (send_to_subs subs l head found create m d))" for d x
    using Cons.IH unfolding records_def by (metis prod.collapse)+
  have made: "ks d \<subseteq> ks (snd (created subs l found create s d))"
    "fst (created subs l found create s d) \<Longrightarrow> found (broadcast_key (s, broadcast_of subs head l s)) = None \<Longrightarrow>
      broadcast_key (s, broadcast_of subs head l s) \<in> ks (snd (created subs l found create s d))" for d
    using assms by (auto simp: stores_def created_def broadcast_key_def broadcast_of_def NewLogBroadcastAsKey_def)
  let ?d = "\<lambda>d. snd (created subs l found create s d)"
  show ?case
    unfolding records_def run.inject e
  proof (intro allI impI)
    fix db sent db' assume run: "send_to_subs subs l head found create ((s, f) # m) db = (sent, db')"
    show "ks db \<subseteq> ks db' \<and> (\<forall>x\<in>set sent. found (broadcast_key x) = None \<longrightarrow> broadcast_key x \<in> ks db')"
    proof (cases "should_send subs found l s f")
      case True
      then have db': "db' = snd (send_to_subs subs l head found create m (?d db))"
        and sent: "sent = (if fst (created subs l found create s db)
            then (s, broadcast_of subs head l s) # fst (send_to_subs subs l head found create m (?d db))
            else fst (send_to_subs subs l head found create m (?d db)))"
        using run by (auto simp: send_to_subs_Cons case_prod_beta)
      show ?thesis using IH(1) [of "?d db"] IH(2) [of _ "?d db"] made [of db] unfolding db' sent by (auto split: if_splits)
    next
      case False
      then have "send_to_subs subs l head found create m db = (sent, db')"
        using run by (simp add: send_to_subs_Cons)
      then show ?thesis using IH(1) [of db] IH(2) [of _ db] by auto
    qed
  qed
qed

lemma send_each_log_records:
  "(\<And>l. records found ks (f l)) \<Longrightarrow> records found ks (send_each_log f ls)"
proof (induction ls)
  case (Cons l ls)
  have "send_each_log f (l # ls)
      = (\<lambda>db. run_bind (f l db) (\<lambda>(sent, db1). run_map (\<lambda>(sent', db2). (sent @ sent', db2)) (send_each_log f ls db1)))"
    by (rule ext) simp
  then show ?case using records_seq [OF Cons.prems Cons.IH [OF Cons.prems]] by simp
qed (simp add: records_def)

lemma send_to_handlers_records:
  "(\<And>h l. records found ks (f h l)) \<Longrightarrow> records found ks (send_to_handlers f latest b hs)"
proof (induction hs)
  case (Cons ch hs)
  obtain c h where ch: "ch = (c, h)" by (cases ch)
  let ?g = "\<lambda>db. if isOldEnough c (BlockNumber b) latest then send_each_log (f h) (Logs b) db else Ret ([], db)"
  have "send_to_handlers f latest b (ch # hs)
      = (\<lambda>db. run_bind (?g db) (\<lambda>(sent, db1). run_map (\<lambda>(sent', db2). (sent @ sent', db2)) (send_to_handlers f latest b hs db1)))"
    by (rule ext) (simp add: ch)
  moreover have "records found ks ?g"
    by (rule records_if [OF send_each_log_records records_Nil]) (rule Cons.prems)
  ultimately show ?case using records_seq [OF _ Cons.IH [OF Cons.prems], of ?g] by simp
qed (simp add: records_def)

lemma send_blocks_records:
  "(\<And>h l. records found ks (f h l)) \<Longrightarrow> records found ks (send_blocks f latest hs bs)"
proof (induction bs)
  case (Cons b bs)
  have "send_blocks f latest hs (b # bs) = (\<lambda>db. run_bind (send_to_handlers f latest b hs db)
      (\<lambda>(sent, db1). run_map (\<lambda>(sent', db2). (sent @ sent', db2)) (send_blocks f latest hs bs db1)))"
    by (rule ext) simp
  then show ?case
    using records_seq [OF send_to_handlers_records [OF Cons.prems] Cons.IH [OF Cons.prems]] by simp
qed (simp add: records_def)

lemma sendLogs_records:
  assumes "stores ks create" and "sendLogs ordH ordS subs bs head broadcasts create r db = Ret (sent, db')"
  shows "ks db \<subseteq> ks db'"
    and "x \<in> set sent \<Longrightarrow> existing_broadcasts broadcasts (broadcast_key x) = None \<Longrightarrow> broadcast_key x \<in> ks db'"
proof -
  have "records (existing_broadcasts broadcasts) ks
      (handler_sendLog ordS subs l head (existing_broadcasts broadcasts) create h)" for h l
  proof (cases "LogTopics l")
    case (Cons t ts)
    show ?thesis
      using send_to_subs_records [OF assms(1), of "existing_broadcasts broadcasts" subs l head]
      by (simp add: handler_sendLog_def [abs_def] Cons)
  qed (simp add: handler_sendLog_def records_def)
  then have "records (existing_broadcasts broadcasts) ks (sendLogs ordH ordS subs bs head broadcasts create r)"
    unfolding sendLogs_def [abs_def] Let_def existing_broadcasts_def [symmetric] by (rule send_blocks_records)
  then show "ks db \<subseteq> ks db'"
    and "x \<in> set sent \<Longrightarrow> existing_broadcasts broadcasts (broadcast_key x) = None \<Longrightarrow> broadcast_key x \<in> ks db'"
    using assms(2) unfolding records_def by blast+
qed

lemma CreateBroadcast_stores: "stores (\<lambda>db. row_key ` set (log_broadcasts db)) (CreateBroadcast up)"
  by (auto simp: stores_def CreateBroadcast_def row_key_def Let_def)

lemma send_to_listeners_delivers:
  assumes inv: "lb_inv elems num_of tx_of dbUp b" and env: "env_ok E elems num_of" and dist: "distinct hs"
    and hs: "set hs = {h. logsByBlockHash (lb_pool b) h \<noteq> None \<and> sint (num_of h) \<le> Number head}"
    and lo: "\<And>l. l \<in> ran (pool_contents (lb_pool b)) \<Longrightarrow> lo \<le> sint (LogBlockNumber l)"
    and run: "send_to_listeners E createUp head (batch_of (env_pool_orders E) num_of (lb_pool b) hs)
      (FindBroadcasts lo (Number head) (lb_db b)) b = Ret (sent, b')"
  shows "set sent \<subseteq> head_due head b" and "createUp \<Longrightarrow> set sent = head_due head b"
    and "\<forall>x\<in>set sent. broadcast_key x \<in> row_key ` set (log_broadcasts (lb_db b'))"
proof -
  note facts = lb_inv_facts [OF inv]
  let ?bs = "batch_of (env_pool_orders E) num_of (lb_pool b) hs" and ?brs = "FindBroadcasts lo (Number head) (lb_db b)"
    and ?ks = "\<lambda>db. row_key ` set (log_broadcasts db)"
  have heap: "min_heap (env_heap E) elems" and pords: "pool_orders_ok (env_pool_orders E)"
    and ords: "iteration_order (env_handlers_order E)" "iteration_order (env_subs_order E)"
    and pos: "\<And>h. 0 \<le> sint (num_of h)"
    using env by (simp_all add: env_ok_def)
  obtain db' where send: "sendLogs (env_handlers_order E) (env_subs_order E) (lb_subs b) ?bs head ?brs
      (CreateBroadcast createUp) (lb_regs b) (lb_db b) = Ret (sent, db')" and b': "lb_db b' = db'"
    using run by (auto simp: send_to_listeners_def run_simps)
  have due: "due (lb_subs b) (set (registeredSubs (lb_regs b))) ?bs head ?brs = head_due head b"
    by (rule due_head_due [OF inv heap pords hs lo])
  have inpool: "l \<in> ran (pool_contents (lb_pool b)) \<and> sint (LogBlockNumber l) \<le> Number head"
    if "l \<in> set (concat (map Logs ?bs))" for l
    using batch_member [OF heap facts(1) pords hs, of l] that by auto
  then have lok: "log_ok num_of tx_of l" if "l \<in> set (concat (map Logs ?bs))" for l
    using facts(2) that by blast
  have fresh: "existing_broadcasts ?brs (NewLogBroadcastAsKey l j) = None \<longleftrightarrow> NewLogBroadcastAsKey l j \<notin> ?ks (lb_db b)"
    if "l \<in> ran (pool_contents (lb_pool b))" "sint (LogBlockNumber l) \<le> Number head" for l j
  proof -
    have num: "num_of (LogBlockHash l) = LogBlockNumber l" using facts(2) that(1) by (auto simp: log_ok_def)
    with pos [of "LogBlockHash l"] have "0 \<le> sint (LogBlockNumber l)" by simp
    from existing_key(2) [OF facts(5) num this lo [OF that(1)] that(2)] show ?thesis .
  qed
  have topics: "\<And>x l. x \<in> set ?bs \<Longrightarrow> l \<in> set (Logs x) \<Longrightarrow> LogTopics l \<noteq> []"
    using lok by (fastforce simp: log_ok_def)
  have "sends_within (Ret (sent, db')) {} (head_due head b)"
    using sendLogs_within [OF facts(3) ords, where bs = ?bs and head = head and broadcasts = ?brs
        and create = "CreateBroadcast createUp" and db = "lb_db b"] topics
    unfolding send due sends_within_def by blast
  then show within: "set sent \<subseteq> head_due head b" by (simp add: sends_within_def)
  show "set sent = head_due head b" if createUp
  proof -
    have dlogs: "distinct (map log_key (concat (map Logs ?bs)))"
      by (rule min_heap.batch_distinct [OF heap facts(1) pords dist])
    have "\<exists>sent db'. sendLogs (env_handlers_order E) (env_subs_order E) (lb_subs b) ?bs head ?brs
        (CreateBroadcast True) (lb_regs b) (lb_db b) = Ret (sent, db')
      \<and> set sent = due (lb_subs b) (set (registeredSubs (lb_regs b))) ?bs head ?brs"
    proof (rule sendLogs_all [OF facts(3) ords _ CreateBroadcast_accepts [OF pos]])
      show "distinct (concat (map Logs ?bs))" using dlogs by (simp add: distinct_map)
      show "LogTopics l \<noteq> [] \<and> num_of (LogBlockHash l) = LogBlockNumber l" if "l \<in> set (concat (map Logs ?bs))" for l
        using lok [OF that] by (simp add: log_ok_def)
      show "l = l'" if "l \<in> set (concat (map Logs ?bs))" "l' \<in> set (concat (map Logs ?bs))"
        "LogBlockHash l = LogBlockHash l'" "LogIndex l = LogIndex l'" for l l'
      proof -
        have "log_key l = log_key l'"
          using lok [OF that(1)] lok [OF that(2)] that(3,4) by (simp add: log_ok_def log_key_def)
        then show ?thesis using dlogs that(1,2) by (auto simp only: distinct_map dest: inj_onD)
      qed
      show "existing_broadcasts ?brs (NewLogBroadcastAsKey l (JobID (lb_subs b s))) \<noteq> None"
        if "l \<in> set (concat (map Logs ?bs))" "NewLogBroadcastAsKey l (JobID (lb_subs b s)) \<in> ?ks (lb_db b)" for l s
        using fresh inpool [OF that(1)] that(2) by blast
    qed
    then show ?thesis using send due that by simp
  qed
  show "\<forall>x\<in>set sent. broadcast_key x \<in> ?ks (lb_db b')"
  proof
    fix x assume x: "x \<in> set sent"
    then obtain l j where l: "broadcast_key x = NewLogBroadcastAsKey l j" "l \<in> ran (pool_contents (lb_pool b))"
      "sint (LogBlockNumber l) \<le> Number head"
      using within by (fastforce simp: head_due_def broadcast_key_def broadcast_of_def)
    show "broadcast_key x \<in> ?ks (lb_db b')"
    proof (cases "broadcast_key x \<in> ?ks (lb_db b)")
      case True
      then show ?thesis
        using subsetD [OF sendLogs_records(1) [OF CreateBroadcast_stores send]] by (simp add: b')
    next
      case False
      then have "existing_broadcasts ?brs (broadcast_key x) = None"
        using fresh [OF l(2,3), of j] by (simp add: l(1))
      from sendLogs_records(2) [OF CreateBroadcast_stores send x this] show ?thesis by (simp add: b')
    qed
  qed
qed

lemma onNewHeads_delivers:
  assumes inv: "lb_inv elems num_of tx_of dbUp b" and env: "env_ok E elems num_of"
    and queue: "queue (newHeads b) = p # rest" and head_def: "head = deref p"
    and run: "onNewHeads E cfg findOk createUp setUp b = Some (Ret (sent, b'))"
  shows "set sent \<subseteq> head_due head b" and "findOk \<Longrightarrow> createUp \<Longrightarrow> set sent = head_due head b"
    and "\<forall>x\<in>set sent. broadcast_key x \<in> row_key ` set (log_broadcasts (lb_db b'))"
proof -
  note facts = lb_inv_facts [OF inv]
  have heap: "min_heap (env_heap E) elems" and pords: "pool_orders_ok (env_pool_orders E)"
    and ords: "iteration_order (env_handlers_order E)" "iteration_order (env_subs_order E)"
    using env by (simp_all add: env_ok_def)
  note delete_all_loop_correct = min_heap.delete_all_loop_correct [OF heap]
    and getLogsToSend_batch = min_heap.getLogsToSend_batch [OF heap]
    and deleteOlderLogs_correct = min_heap.deleteOlderLogs_correct [OF heap]
    and FindMin_cases = min_heap.FindMin_cases [OF heap]
  let ?p = "lb_pool b" and ?O = "env_pool_orders E"
  define b1 where "b1 = b\<lparr>newHeads := (newHeads b)\<lparr>queue := []\<rparr>, lastSeenHeadNumber := Number head\<rparr>"
  have b1: "lb_regs b1 = lb_regs b" "lb_pool b1 = ?p" "lb_db b1 = lb_db b" "lb_subs b1 = lb_subs b"
    by (simp_all add: b1_def)
  have inv1: "lb_inv elems num_of tx_of dbUp b1"
    using facts by (intro lb_inv_upd [OF inv]) (auto simp: b1_def pending_covers_def)
  have due1: "head_due head b1 = head_due head b" by (simp add: head_due_def b1)
  have "head_ends E p b" using onNewHeads_stuck [OF inv queue, of E cfg findOk createUp setUp] run by auto
  then obtain n where chain: "ChainLength (Parent (gen p)) (Some (ref p)) = Some (Ret n)"
    and ends: "Number head < MaxInt64 \<or> highestNumConfirmations (lb_regs b) = 0
       \<or> heap_FindMin (env_heap E) (pool_heap ?p) = None"
    by (auto simp: head_ends_def head_def)
  have latest: "latest_head (newHeads b) None = (Some p, (newHeads b)\<lparr>queue := []\<rparr>)"
    by (simp add: latest_head_eq queue)
  have "set sent \<subseteq> head_due head b \<and> (findOk \<longrightarrow> createUp \<longrightarrow> set sent = head_due head b)
      \<and> (\<forall>x\<in>set sent. broadcast_key x \<in> row_key ` set (log_broadcasts (lb_db b')))"
  proof (cases "highestNumConfirmations (lb_regs b) = 0")
    case True
    have none: "registeredSubs (lb_regs b) = []"
    proof (rule ccontr)
      assume "registeredSubs (lb_regs b) \<noteq> []"
      then obtain s where s: "s \<in> set (registeredSubs (lb_regs b))" by (meson hd_in_set)
      then have "MinIncomingConfirmations (lb_subs b s) \<le> highestNumConfirmations (lb_regs b)"
        unfolding highestNumConfirmations_correct [OF facts(3)] by simp
      moreover have "MinIncomingConfirmations (lb_subs b s) \<noteq> 0"
        using facts(3) s by (auto simp: reg_inv_def sub_ok_def)
      ultimately show False using True by (simp add: word_le_0_iff)
    qed
    obtain hs lo hi q where all: "getAndDeleteAll (env_heap E) ?O ?p = Some (batch_of ?O num_of ?p hs, lo, hi, q)"
      using delete_all_loop_correct [OF facts(1) pords, of "[]" MaxInt64 0] by (auto simp: getAndDeleteAll_def)
    define b2 where "b2 = b1\<lparr>lb_pool := q\<rparr>"
    have b2: "lb_subs b2 = lb_subs b" "lb_regs b2 = lb_regs b" by (simp_all add: b2_def b1)
    have logs: "\<And>x l. x \<in> set (batch_of ?O num_of ?p hs) \<Longrightarrow> l \<in> set (Logs x) \<Longrightarrow> LogTopics l \<noteq> []"
      using facts(2) batch_logs [OF heap facts(1) pords, of hs] by (fastforce simp: log_ok_def)
    have empty: "t = []" if "send_to_listeners E createUp head (batch_of ?O num_of ?p hs) brs b2 = Ret (t, b3)" for brs t b3
      using sendLogs_within [OF facts(3) ords, where bs = "batch_of ?O num_of ?p hs" and head = head and broadcasts = brs
          and create = "CreateBroadcast createUp" and db = "lb_db b2"] logs that
      by (auto simp: sends_within_def send_to_listeners_def run_simps none due_def b2)
    have "sent = []"
      using run True all empty
      by (simp add: onNewHeads_def latest chain head_def [symmetric] b1_def [symmetric] b1 b2_def [symmetric] Let_def split: if_splits)
        (force simp: run_simps)+
    moreover have "head_due head b = {}" by (simp add: head_due_def none)
    ultimately show ?thesis by simp
  next
    case False
    then have "Number head < MaxInt64 \<or> heap_FindMin (env_heap E) (pool_heap ?p) = None" using ends by simp
    then obtain hs lo where send: "getLogsToSend (env_heap E) ?O (Number head) ?p = Some (batch_of ?O num_of ?p hs, lo)"
      and hs: "distinct hs" "set hs = {h. logsByBlockHash ?p h \<noteq> None \<and> sint (num_of h) \<le> Number head}"
      and min: "\<And>m. heap_FindMin (env_heap E) (pool_heap ?p) = Some m \<Longrightarrow> lo = sint m"
      by (rule getLogsToSend_batch [OF facts(1) pords]) blast
    have lo: "lo \<le> sint (LogBlockNumber l)" if l: "l \<in> ran (pool_contents ?p)" for l
    proof -
      obtain k where k: "pool_contents ?p k = Some l" using l unfolding ran_def by blast
      note mem = pool_contents_ok(4,5) [OF facts(1) k]
      show ?thesis
      proof (cases rule: FindMin_cases [of "pool_heap ?p"])
        case (2 m)
        then have "m \<le> LogBlockNumber l" "lo = sint m" using mem(1) min by simp_all
        then show ?thesis using sint_mono [OF pool_inv_facts(6) [OF facts(1) 2(2)] mem(2)] by simp
      qed (use mem in simp)
    qed
    obtain r q where del: "deleteOlderLogs (env_heap E) ?O (keptDepth cfg (lb_regs b) (Number head)) ?p = Some (r, q)"
      using deleteOlderLogs_correct [OF facts(1) pords, of "keptDepth cfg (lb_regs b) (Number head)"] by auto
    show ?thesis
    proof (cases "batch_of ?O num_of ?p hs = []")
      case True
      then have "sent = []" using run False send del
        by (simp add: onNewHeads_def latest chain head_def [symmetric] b1_def [symmetric] b1 Let_def)
      moreover have "head_due head b = {}"
        using due_head_due [OF inv heap pords hs(2) lo] unfolding True due_def by simp
      ultimately show ?thesis by simp
    next
      case nonempty: False
      show ?thesis
      proof (cases findOk)
        case True
        have "run_map (\<lambda>(sent, b2). (sent, b2\<lparr>lb_pool := q, lb_db := snd (SetPendingMinBlock setUp r (lb_db b2))\<rparr>))
            (send_to_listeners E createUp head (batch_of ?O num_of ?p hs) (FindBroadcasts lo (Number head) (lb_db b1)) b1)
          = Ret (sent, b')"
          using run False send del nonempty True
          by (simp add: onNewHeads_def latest chain head_def [symmetric] b1_def [symmetric] b1 Let_def)
        then obtain b2 where b2: "send_to_listeners E createUp head (batch_of ?O num_of (lb_pool b1) hs)
            (FindBroadcasts lo (Number head) (lb_db b1)) b1 = Ret (sent, b2)" "log_broadcasts (lb_db b') = log_broadcasts (lb_db b2)"
          by (auto simp: run_simps b1)
        have hs1: "set hs = {h. logsByBlockHash (lb_pool b1) h \<noteq> None \<and> sint (num_of h) \<le> Number head}"
          and lo1: "\<And>l. l \<in> ran (pool_contents (lb_pool b1)) \<Longrightarrow> lo \<le> sint (LogBlockNumber l)"
          using hs(2) lo by (simp_all add: b1)
        show ?thesis
          using send_to_listeners_delivers [OF inv1 env hs(1) hs1 lo1 b2(1)] unfolding due1 b2(2) by blast
      next
        case False
        then have "sent = []" using run \<open>highestNumConfirmations (lb_regs b) \<noteq> 0\<close> send nonempty
          by (simp add: onNewHeads_def latest chain head_def [symmetric] b1_def [symmetric] b1 Let_def)
        with False show ?thesis by simp
      qed
    qed
  qed
  then show "set sent \<subseteq> head_due head b" and "findOk \<Longrightarrow> createUp \<Longrightarrow> set sent = head_due head b"
    and "\<forall>x\<in>set sent. broadcast_key x \<in> row_key ` set (log_broadcasts (lb_db b'))" by blast+
qed

section \<open>Restarts\<close>

lemma unconsumed_row:
  assumes "db_inv num_of db" and "\<And>h. 0 \<le> sint (num_of h)" and "x \<in> set (log_broadcasts db)" and "\<not> row_Consumed x"
  shows "unconsumed_block x = Some (sint (num_of (row_BlockHash x)))"
  using assms(1,3,4) sint_nonneg [OF assms(2)] by (auto simp: db_inv_def unconsumed_block_def)

lemma resubscribe_start_le:
  assumes "backfillStart = Some m"
  shows "\<exists>n. backfillBlockNumber (resubscribe_start cfg highestSavedHead backfillStart b) = Some n \<and> n \<le> m"
  using assms by (auto simp: resubscribe_start_def Let_def split: option.splits)

section \<open>Batches\<close>

lemma fetch_batches_step:
  assumes "0 < batchSize" and "latest + batchSize \<le> MaxInt64" and "MinInt64 \<le> from" and "from \<le> latest"
  shows "fetch_batches fetch batchSize latest from logs =
     (case fetch from (min (from + batchSize - 1) latest) of
        None \<Rightarrow> Some None
      | Some batchLogs \<Rightarrow> fetch_batches fetch batchSize latest (from + batchSize) (logs @ batchLogs))"
proof -
  have "wrap64 (from + batchSize) = from + batchSize" "wrap64 (from + batchSize - 1) = from + batchSize - 1"
    using assms by (intro wrap64_id; simp add: is_int64_def MinInt64_def MaxInt64_def)+
  then show ?thesis
    using assms(4) by (subst fetch_batches.simps) (simp add: Let_def min_def not_le split: option.split)
qed

lemma fetch_batches_done: "latest < from \<Longrightarrow> fetch_batches fetch batchSize latest from logs = Some (Some logs)"
  by (subst fetch_batches.simps) simp

lemma fetch_batches_returns:
  assumes "0 < batchSize" and "latest + batchSize \<le> MaxInt64" and "MinInt64 \<le> from"
  shows "fetch_batches fetch batchSize latest from logs \<noteq> None"
  using assms(3)
proof (induction "nat (latest + 1 - from)" arbitrary: "from" logs rule: less_induct)
  case less
  show ?case
  proof (cases "from \<le> latest")
    case True
    have "fetch_batches fetch batchSize latest (from + batchSize) logs' \<noteq> None" for logs'
      using less.prems assms(1) True by (intro less.hyps) simp_all
    then show ?thesis
      by (simp add: fetch_batches_step [OF assms(1,2) less.prems True] split: option.split del: not_None_eq)
  qed (simp add: fetch_batches_done)
qed

lemma fetch_batches_range:
  assumes "0 < batchSize" and "latest + batchSize \<le> MaxInt64" and "MinInt64 \<le> from"
    and answers: "\<And>x y. fetch x y = Some (concat (map logs_of [x..y]))"
  shows "fetch_batches fetch batchSize latest from logs = Some (Some (logs @ concat (map logs_of [from..latest])))"
  using assms(3)
proof (induction "nat (latest + 1 - from)" arbitrary: "from" logs rule: less_induct)
  case less
  show ?case
  proof (cases "from \<le> latest")
    case True
    let ?to = "min (from + batchSize - 1) latest"
    have "[from..latest] = [from..?to] @ [from + batchSize..latest]"
    proof (cases "from + batchSize - 1 \<le> latest")
      case le: True
      have "[from..latest] = [from..from + batchSize - 1] @ [from + batchSize - 1 + 1..latest]"
        by (rule upto_split2) (use assms(1) le in simp_all)
      with le show ?thesis by simp
    qed simp
    moreover have "fetch_batches fetch batchSize latest (from + batchSize) (logs @ concat (map logs_of [from..?to]))
        = Some (Some ((logs @ concat (map logs_of [from..?to])) @ concat (map logs_of [from + batchSize..latest])))"
      using less.prems assms(1) True by (intro less.hyps) simp_all
    ultimately show ?thesis
      by (simp add: fetch_batches_step [OF assms(1,2) less.prems True] answers)
  qed (simp add: fetch_batches_done)
qed

text \<open>With a batch size of zero the loop asks for the same empty range for ever.\<close>

lemma fetch_batches_zero_fails:
  "fetch_batches fetch batchSize latest from logs = Some r \<Longrightarrow>
     batchSize = 0 \<longrightarrow> from \<le> latest \<longrightarrow> is_int64 from \<longrightarrow> (\<exists>x y. fetch x y = None)"
  by (erule fetch_batches.raw_induct [rotated])
    (auto simp: wrap64_id Let_def split: if_splits option.splits)

lemma fetch_batches_zero:
  assumes "from \<le> latest" and "is_int64 from" and "\<And>x y. fetch x y \<noteq> None"
  shows "fetch_batches fetch 0 latest from logs = None"
proof (rule ccontr)
  assume "fetch_batches fetch 0 latest from logs \<noteq> None"
  then obtain r where "fetch_batches fetch 0 latest from logs = Some r" by blast
  from fetch_batches_zero_fails [OF this] assms show False by blast
qed

lemma MinInt64_le_sint: "MinInt64 \<le> sint (w :: 64 word)"
  using sint_ge [of w] by (simp add: MinInt64_def)

lemma backfill_attempts_skip:
  assumes "\<forall>j<k. latestBlock j = None" and "k \<le> 4"
  shows "backfill_attempts cfg latestBlock fetch ov 0 (-1) = backfill_attempts cfg latestBlock fetch ov k (-1)"
  using assms
proof (induction k)
  case (Suc k)
  then have "backfill_attempts cfg latestBlock fetch ov k (-1) = backfill_attempts cfg latestBlock fetch ov (Suc k) (-1)"
    by (subst backfill_attempts.simps) simp
  with Suc show ?case by simp
qed simp

lemma backfill_attempts_over: "backfill_attempts cfg latestBlock fetch ov 4 h = Some None"
  by (subst backfill_attempts.simps) simp

section \<open>An example run\<close>

definition example_env :: "64 word list lb_env" where
  "example_env = \<lparr>env_heap = list_heap, env_pool_orders = \<lparr>hash_order = rev, tx_order = rev, log_order = rev\<rparr>,
     env_topics_order = rev, env_handlers_order = rev, env_subs_order = rev\<rparr>"

definition example_config :: lb_config where
  "example_config = \<lparr>EvmFinalityDepth = 50, BlockBackfillDepth = 10, BlockBackfillSkip = False, EvmLogBackfillBatchSize = 10\<rparr>"

definition empty_db :: logdb where
  "empty_db = \<lparr>log_broadcasts = [], pending_block = None\<rparr>"

lemma example_env_ok: "env_ok example_env mset (\<lambda>_. 5)"
  by (simp add: env_ok_def example_env_def list_heap.min_heap_axioms pool_orders_ok_def iteration_order_def)

definition example_head :: head_ptr where
  "example_head = \<lparr>gen = \<lparr>copy = [70 \<mapsto> NewHead 7 70 60 None], Parent = (\<lambda>_. None)\<rparr>, ref = 70\<rparr>"

lemma deref_example_head: "deref example_head = NewHead 7 70 60 None"
  by (simp add: deref_def example_head_def)

lemma example_head_ends: "head_ends E example_head b"
proof -
  have "ChainLength (Parent (gen example_head)) (Some (ref example_head)) = Some (Ret 1)"
    by (simp add: ChainLength_def chain_length_loop.simps example_head_def)
  then show ?thesis by (simp add: head_ends_def deref_example_head NewHead_def wrap64_def MaxInt64_def)
qed

text \<open>A listener subscribes, a log it wants arrives, and then a head.\<close>

lemma example_run:
  obtains b where "lb_reachable example_env example_config (\<lambda>_. 5) (\<lambda>_ _. 0) True b"
    and "queue (newHeads b) = [example_head]" and "set (registeredSubs (lb_regs b)) = {0}"
    and "lb_subs b 0 = example_subs 1" and "ran (pool_contents (lb_pool b)) = {example_log}"
    and "log_broadcasts (lb_db b) = []"
proof -
  let ?step = "lb_step example_env example_config (\<lambda>_. 5) (\<lambda>_ _. 0) True"
  note env = example_env_ok
  have db: "db_inv (\<lambda>_. 5) empty_db" by (simp add: db_inv_def logdb_ok_def empty_db_def)
  define b0 where "b0 = NewBroadcaster example_env empty_db"
  have inv0: "lb_inv mset (\<lambda>_. 5) (\<lambda>_ _. 0) True b0" unfolding b0_def by (rule NewBroadcaster_inv [OF env db])
  define b1 where "b1 = b0\<lparr>lb_subs := (lb_subs b0)(0 := example_subs 1), lb_next := 1,
      changeSubscriberStatus := snd (Deliver (changeSubscriberStatus b0) (subscriberStatusSubscribe, 0))\<rparr>"
  have reg: "Register False (example_subs 1) b0 = Ret (0, b1)"
    by (simp add: Register_def b0_def b1_def NewBroadcaster_def example_subs_def Deliver_def NewMailbox_def)
  have "live b0 = {}" by (simp add: live_def queued_def waiting_def b0_def NewBroadcaster_def NewMailbox_def newRegistrations_def)
  then have s1: "?step b0 b1"
    by (intro step_register [OF _ _ reg]) (simp_all add: example_subs_def)
  have inv1: "lb_inv mset (\<lambda>_. 5) (\<lambda>_ _. 0) True b1" by (rule lb_step_inv [OF s1 env inv0])
  have live1: "live b1 = {0}"
    by (simp add: live_def queued_def waiting_def b1_def b0_def NewBroadcaster_def NewMailbox_def newRegistrations_def Deliver_def)
  obtain needs b2 where b2: "onChangeSubscriberStatus example_env False b1 = Ret (needs, b2)"
    "set (registeredSubs (lb_regs b2)) = {0}"
    using onChangeSubscriberStatus_inv [OF inv1, of example_env] live1 by (auto simp: example_env_def iteration_order_rev)
  have s2: "?step b1 b2" by (rule step_changes [OF b2(1)])
  have same: "lb_subs b2 = lb_subs b1" "lb_pool b2 = newLogPool list_heap" "lb_db b2 = empty_db" "newHeads b2 = NewMailbox 1"
    using b2(1) unfolding onChangeSubscriberStatus_run
    by (auto simp: run_simps b1_def b0_def NewBroadcaster_def example_env_def)
  have inv2: "lb_inv mset (\<lambda>_. 5) (\<lambda>_ _. 0) True b2" by (rule lb_step_inv [OF s2 env inv1])
  have "LogAddress example_log = Contract (lb_subs b2 0)" by (simp add: same b1_def example_log_def example_subs_def)
  then have addr: "isAddressRegistered (LogAddress example_log) (lb_regs b2)"
    unfolding isAddressRegistered_correct [OF lb_inv_facts(3) [OF inv2]] b2(2) by simp
  define b3 where "b3 = onNewLog example_env True example_log b2"
  have s3: "?step b2 b3" unfolding b3_def
    by (rule step_log) (simp_all add: log_ok_def example_log_def)
  have log3: "ran (pool_contents (lb_pool b3)) = {example_log}" "log_broadcasts (lb_db b3) = []"
    "lb_regs b3 = lb_regs b2" "lb_subs b3 = lb_subs b2" "newHeads b3 = NewMailbox 1"
    using addr same(4) by (auto simp: b3_def onNewLog_def same case_prod_beta Let_def list_heap.addLog_contents
        example_env_def empty_db_def SetPendingMinBlock_def, auto simp: example_log_def)
  define b4 where "b4 = OnNewLongestChain example_head b3"
  have s4: "?step b3 b4" unfolding b4_def
    by (rule step_head [where head = "NewHead 7 70 60 None"]) (simp_all add: example_head_def NewHead_def is_int64_wrap64)
  have "?step\<^sup>*\<^sup>* b0 b4" using s1 s2 s3 s4 by (meson rtranclp.rtrancl_into_rtrancl rtranclp.rtrancl_refl)
  then have "lb_reachable example_env example_config (\<lambda>_. 5) (\<lambda>_ _. 0) True b4"
    unfolding lb_reachable_def b0_def using db by blast
  then show ?thesis
    using log3 b2(2) same(1)
    by (intro that [of b4]) (simp_all add: b4_def OnNewLongestChain_def NewMailbox_def Deliver_def b1_def)
qed

section \<open>Properties\<close>

text \<open>C25: when the event loop's handlers return. In every state reachable from a new broadcaster, and
  whatever statements the database refuses, \<open>onNewHeads\<close> returns exactly if no head waits, or the chain
  behind the newest waiting head ends (its length is computed for a log line) and its number is below the
  largest \<open>int64\<close> or the loop over block numbers is not entered, because the pool's heap is empty or no
  listener is registered; if it panics, it does so in \<open>ChainLength\<close>. \<open>onChangeSubscriberStatus\<close>
  always returns and meets no failed sanity check: it carries out every queued change, leaving
  exactly the listeners that subscribed and did not unsubscribe, and asks for a new subscription
  exactly if one of the changes needs it.\<close>

theorem event_loop_handlers_return:
  assumes "env_ok E elems num_of" and "lb_reachable E cfg num_of tx_of dbUp b"
  shows "((\<exists>sent b'. onNewHeads E cfg findOk createUp (setUp \<or> dbUp) b = Some (Ret (sent, b')))
        \<longleftrightarrow> (case queue (newHeads b) of
              [] \<Rightarrow> True
            | p # rest \<Rightarrow> (\<exists>n. ChainLength (Parent (gen p)) (Some (ref p)) = Some (Ret n))
                \<and> (Number (deref p) < MaxInt64 \<or> highestNumConfirmations (lb_regs b) = 0
                   \<or> heap_FindMin (env_heap E) (pool_heap (lb_pool b)) = None)))
    \<and> (\<forall>e. onNewHeads E cfg findOk createUp (setUp \<or> dbUp) b = Some (Panic e)
          \<longrightarrow> (\<exists>p rest. queue (newHeads b) = p # rest \<and> ChainLength (Parent (gen p)) (Some (ref p)) = Some (Panic e)))
    \<and> (\<exists>b'. onChangeSubscriberStatus E False b
           = Ret (True \<in> set (resubscribe_flags (lb_subs b) (queued b) (set (registeredSubs (lb_regs b)))), b')
         \<and> set (registeredSubs (lb_regs b')) = live b \<and> queued b' = [])"
proof -
  note inv = lb_reachable_inv [OF assms]
  have ord: "iteration_order (env_topics_order E)" using assms(1) by (simp add: env_ok_def)
  have up: "dbUp \<Longrightarrow> setUp \<or> dbUp" by blast
  note returns = onNewHeads_returns [OF inv assms(1) up, of cfg findOk createUp]
  have panic: "\<exists>p rest. queue (newHeads b) = p # rest \<and> ChainLength (Parent (gen p)) (Some (ref p)) = Some (Panic e)"
    if run: "onNewHeads E cfg findOk createUp (setUp \<or> dbUp) b = Some (Panic e)" for e
  proof (cases "queue (newHeads b)")
    case Nil
    with run show ?thesis by (simp add: onNewHeads_def latest_head_eq)
  next
    case (Cons p rest)
    with returns run have "\<not> head_ends E p b" by simp
    from onNewHeads_stuck [OF inv Cons this, of cfg findOk createUp "setUp \<or> dbUp"] run Cons show ?thesis by auto
  qed
  show ?thesis
  proof (intro conjI allI impI)
    show "\<exists>b'. onChangeSubscriberStatus E False b
           = Ret (True \<in> set (resubscribe_flags (lb_subs b) (queued b) (set (registeredSubs (lb_regs b)))), b')
         \<and> set (registeredSubs (lb_regs b')) = live b \<and> queued b' = []"
      using onChangeSubscriberStatus_inv [OF inv ord] by auto
  qed (use returns panic in \<open>auto simp: head_ends_def split: list.splits\<close>)
qed

theorem event_loop_handlers_return_witness:
  "\<exists>b. queue (newHeads b) = [example_head]
     \<and> (\<exists>sent b'. onNewHeads example_env example_config False False True b = Some (Ret (sent, b')))"
proof -
  obtain b where b: "lb_reachable example_env example_config (\<lambda>_. 5) (\<lambda>_ _. 0) True b" "queue (newHeads b) = [example_head]"
    by (rule example_run)
  from event_loop_handlers_return [OF example_env_ok b(1), of False False False] b(2) example_head_ends [of example_env b]
  show ?thesis by (auto simp: head_ends_def)
qed

text \<open>C3: a new head delivers what is due. In every reachable state with a head waiting, the newest
  head hands each listener every log of the pool up to that head which the listener filters for, whose
  block has the confirmations it asked for, and which its job has not consumed, when the database
  answers, and never anything else; and each broadcast handed out has its row in the table.\<close>

theorem new_head_delivers:
  assumes "env_ok E elems num_of" and "lb_reachable E cfg num_of tx_of dbUp b"
    and "queue (newHeads b) = p # rest"
    and "onNewHeads E cfg findOk createUp setUp b = Some (Ret (sent, b'))"
  shows "set sent \<subseteq> head_due (deref p) b \<and> (findOk \<and> createUp \<longrightarrow> set sent = head_due (deref p) b)
    \<and> (\<forall>x\<in>set sent. broadcast_key x \<in> row_key ` set (log_broadcasts (lb_db b')))"
  using onNewHeads_delivers [OF lb_reachable_inv [OF assms(1,2)] assms(1,3) refl assms(4)] by blast

theorem new_head_delivers_witness:
  "\<exists>b sent b'. lb_reachable example_env example_config (\<lambda>_. 5) (\<lambda>_ _. 0) True b
     \<and> onNewHeads example_env example_config True True True b = Some (Ret (sent, b'))
     \<and> (\<lambda>(s, x). (s, rawLog x)) ` set sent = {(0, example_log)}"
proof -
  obtain b where b: "lb_reachable example_env example_config (\<lambda>_. 5) (\<lambda>_ _. 0) True b"
    "queue (newHeads b) = [example_head]" "set (registeredSubs (lb_regs b)) = {0}"
    "lb_subs b 0 = example_subs 1" "ran (pool_contents (lb_pool b)) = {example_log}" "log_broadcasts (lb_db b) = []"
    by (rule example_run)
  obtain sent b' where run: "onNewHeads example_env example_config True True True b = Some (Ret (sent, b'))"
    using onNewHeads_ends [OF lb_reachable_inv [OF example_env_ok b(1)] example_env_ok TrueI b(2) example_head_ends] by blast
  have "set sent = head_due (NewHead 7 70 60 None) b"
    using new_head_delivers [OF example_env_ok b(1,2) run] by (simp add: deref_example_head)
  also have "(\<lambda>(s, x). (s, rawLog x)) ` head_due (NewHead 7 70 60 None) b = {(0, example_log)}"
    by (auto simp: head_due_def b WasBroadcastConsumed_def example_subs_def example_log_def isOldEnough_def NewHead_def
        wrap64_def broadcast_of_def image_iff)
  finally show ?thesis using b(1) run by blast
qed

text \<open>C10: a crash loses no log. As long as no write of the pending block number is refused, a node
  restarted from the database of any reachable state backfills from a block at or below the block of
  every log that was in the pool, and of every broadcast that was recorded and not consumed.\<close>

theorem restart_backfills_pending:
  assumes "env_ok E elems num_of" and "lb_reachable E cfg num_of tx_of True b"
    and "start = resubscribe_start cfg' highestSavedHead (restart_point (lb_db b)) b0"
  shows "(\<forall>l\<in>ran (pool_contents (lb_pool b)).
        \<exists>n. backfillBlockNumber start = Some n \<and> n \<le> sint (LogBlockNumber l))
    \<and> (\<forall>x\<in>set (log_broadcasts (lb_db b)). \<not> row_Consumed x \<longrightarrow>
        (\<exists>n. backfillBlockNumber start = Some n \<and> n \<le> sint (num_of (row_BlockHash x))))"
proof -
  note facts = lb_inv_facts [OF lb_reachable_inv [OF assms(1,2)]]
  have start: "\<exists>n. backfillBlockNumber start = Some n \<and> n \<le> i"
    if r: "\<exists>m. restart_point (lb_db b) = Some m \<and> m \<le> i" for i
    using r resubscribe_start_le [of "restart_point (lb_db b)" _ cfg' highestSavedHead b0] assms(3) order_trans by blast
  show ?thesis
  proof (intro conjI ballI impI start)
    fix l assume "l \<in> ran (pool_contents (lb_pool b))"
    then obtain k where "pool_contents (lb_pool b) k = Some l" unfolding ran_def by blast
    from pool_contents_ok(4) [OF facts(1) this] facts(6)
    obtain m where "pending_block (lb_db b) = Some m" "m \<le> sint (LogBlockNumber l)"
      unfolding pending_covers_def by blast
    with restart_point_covers(1) [OF this(1)] show "\<exists>m. restart_point (lb_db b) = Some m \<and> m \<le> sint (LogBlockNumber l)"
      using order_trans by blast
  next
    fix x assume x: "x \<in> set (log_broadcasts (lb_db b))" "\<not> row_Consumed x"
    have "0 \<le> sint (num_of h)" for h using assms(1) by (simp add: env_ok_def)
    from restart_point_covers(2) [OF x(1) unconsumed_row [OF facts(5) this x]]
    show "\<exists>m. restart_point (lb_db b) = Some m \<and> m \<le> sint (num_of (row_BlockHash x))" .
  qed
qed

theorem restart_backfills_pending_witness:
  "\<exists>b n. lb_reachable example_env example_config (\<lambda>_. 5) (\<lambda>_ _. 0) True b \<and> example_log \<in> ran (pool_contents (lb_pool b))
     \<and> backfillBlockNumber (resubscribe_start example_config None (restart_point (lb_db b))
          (NewBroadcaster example_env (lb_db b))) = Some n \<and> n \<le> 5"
proof -
  obtain b where b: "lb_reachable example_env example_config (\<lambda>_. 5) (\<lambda>_ _. 0) True b"
    "ran (pool_contents (lb_pool b)) = {example_log}"
    by (rule example_run)
  from restart_backfills_pending [OF example_env_ok b(1) refl, of example_config None "NewBroadcaster example_env (lb_db b)"]
  have "\<exists>n. backfillBlockNumber (resubscribe_start example_config None (restart_point (lb_db b))
      (NewBroadcaster example_env (lb_db b))) = Some n \<and> n \<le> sint (LogBlockNumber example_log)"
    using b(2) by blast
  with b show ?thesis by auto
qed

text \<open>C36: backfilling in batches equals one query. When the node answers, at the first attempt or
  after up to three without a header, the batches fetched are together the logs of all blocks from
  the start of the backfill to the latest block, in order and each block once. There are addresses to
  ask for, the batch size is positive, and the latest block plus the batch size does not overflow \<open>int64\<close>.\<close>

theorem backfill_batches_exact:
  assumes "addresses \<noteq> []" and "k \<le> 3" and "\<forall>j<k. latestBlock j = None" and "latestBlock k = Some height"
    and "0 < EvmLogBackfillBatchSize cfg" and "height + uint (EvmLogBackfillBatchSize cfg) \<le> MaxInt64"
    and "\<forall>x y. fetch k x y = Some (concat (map logs_of [x..y]))"
  shows "backfillLogs cfg latestBlock fetch ov addresses
    = Some (Some (concat (map logs_of [backfill_from cfg ov height..height])))"
proof -
  have batch: "0 < uint (EvmLogBackfillBatchSize cfg)" using assms(5) by (simp add: word_less_def)
  have start: "MinInt64 \<le> backfill_from cfg ov height"
    by (simp add: backfill_from_def Let_def MinInt64_le_sint)
  have "backfillLogs cfg latestBlock fetch ov addresses = backfill_attempts cfg latestBlock fetch ov k (-1)"
    using assms(1-3) by (simp add: backfillLogs_def backfill_attempts_skip [of k])
  also have "\<dots> = Some (Some (concat (map logs_of [backfill_from cfg ov height..height])))"
    using assms(2,4) fetch_batches_range [OF batch assms(6) start, of "fetch k" logs_of "[]"] assms(7)
    by (subst backfill_attempts.simps) simp
  finally show ?thesis .
qed

theorem backfill_batches_exact_witness:
  "backfillLogs example_config (\<lambda>k. if k = 1 then Some 25 else None)
     (\<lambda>k x y. Some (concat (map (\<lambda>n. [example_log\<lparr>LogBlockNumber := word_of_int n\<rparr>]) [x..y]))) (Some 3) [1]
   = Some (Some (map (\<lambda>n. example_log\<lparr>LogBlockNumber := word_of_int n\<rparr>) [3..25]))"
  using backfill_batches_exact [of "[1]" 1 "\<lambda>k. if k = 1 then Some 25 else None" 25 example_config
      "\<lambda>k x y. Some (concat (map (\<lambda>n. [example_log\<lparr>LogBlockNumber := word_of_int n\<rparr>]) [x..y]))"
      "\<lambda>n. [example_log\<lparr>LogBlockNumber := word_of_int n\<rparr>]" "Some 3"]
  by (simp add: example_config_def MaxInt64_def backfill_from_def)

text \<open>a backfill that fails four times is dropped. When the node gives no header at four
  attempts, the loop goes on without the backfilled logs and forgets the block it was to start from.\<close>

theorem backfill_dropped:
  assumes "fst (addressesAndTopics (lb_regs b)) \<noteq> []" and "\<forall>j<4. latestBlock j = None"
  shows "resubscribe_turn cfg latestBlock fetch b = Some (None, b\<lparr>backfillBlockNumber := None\<rparr>)"
  using assms backfill_attempts_skip [of 4 latestBlock cfg fetch "backfillBlockNumber b"]
  by (simp add: resubscribe_turn_def backfillLogs_def backfill_attempts_over)

theorem backfill_dropped_witness:
  "\<exists>b :: 64 word list broadcaster. backfillBlockNumber b = Some 3
     \<and> resubscribe_turn example_config (\<lambda>_. None) (\<lambda>k x y. Some []) b = Some (None, b\<lparr>backfillBlockNumber := None\<rparr>)"
proof -
  let ?b = "(NewBroadcaster example_env empty_db)\<lparr>backfillBlockNumber := Some 3,
      lb_regs := newRegistrations\<lparr>handlersByConfs := [(1, \<lparr>lookupSubs = [(1, [])]\<rparr>)]\<rparr>\<rparr>"
  have "fst (addressesAndTopics (lb_regs ?b)) \<noteq> []" by (simp add: addressesAndTopics_def handler_addressesAndTopics_def)
  from backfill_dropped [OF this, of "\<lambda>_. None" example_config "\<lambda>k x y. Some []"] show ?thesis
    by (intro exI [of _ ?b]) (simp add: newRegistrations_def)
qed

end
