(* ===== verification/TxTables.thy ===== *)
theory TxTables
  imports Prelude
begin

text \<open>
  The data model of the transaction manager, \<open>core/chains/evm/txmgr/models.go\<close>, and the tables it keeps
  in the database. The constraints are those of \<open>core/store/migrate/migrations\<close>; a statement that would
  break one of them fails and its transaction is rolled back. Other goroutines and processes use the
  same tables: before each statement or transaction of ours they may have changed them (\<open>others\<close>), and
  the database may refuse it, or commit it and lose the connection before it says so. A run without
  answers left is one that the database no longer answers, which is also what a crash leaves behind.
  Addresses, hashes and times are numbers; JSON columns are their texts.
\<close>

section \<open>Rows\<close>

datatype EthTxState =
    EthTxUnstarted
  | EthTxInProgress
  | EthTxFatalError
  | EthTxUnconfirmed
  | EthTxConfirmed
  | EthTxConfirmedMissingReceipt

datatype EthTxAttemptState =
    EthTxAttemptInProgress
  | EthTxAttemptInsufficientEth
  | EthTxAttemptBroadcast

record EthTx =
  TxID :: nat
  Nonce :: "int option"
  FromAddress :: nat
  ToAddress :: nat
  EncodedPayload :: "8 word list"
  Value :: int
  GasLimit :: "32 word"
  TxError :: "string option"
  BroadcastAt :: "int option"
  InitialBroadcastAt :: "int option"
  CreatedAt :: int
  TxState :: EthTxState
  Meta :: "string option"
  Subject :: "nat option"
  TxChainID :: int
  PipelineTaskRunID :: "nat option"
  MinConfirmations :: "32 word option"
  AccessList :: "string option"
  TransmitChecker :: "string option"

record EthTxAttempt =
  AttemptID :: nat
  EthTxID :: nat
  GasPrice :: "int option"
  GasTipCap :: "int option"
  GasFeeCap :: "int option"
  ChainSpecificGasLimit :: "32 word"
  SignedRawTx :: "8 word list"
  AttemptHash :: nat
  BroadcastBeforeBlockNum :: "int option"
  AttemptState :: EthTxAttemptState
  TxType :: nat

record EthReceipt =
  ReceiptID :: nat
  ReceiptTxHash :: nat
  ReceiptBlockHash :: nat
  ReceiptBlockNumber :: int
  TransactionIndex :: nat
  ReceiptStatus :: nat

text \<open>A row of \<open>evm_key_states\<close>.\<close>

record KeyState =
  KeyAddress :: nat
  KeyChainID :: int
  NextNonce :: int
  Disabled :: bool

record txdb =
  eth_txes :: "EthTx list"
  eth_tx_attempts :: "EthTxAttempt list"
  eth_receipts :: "EthReceipt list"
  evm_key_states :: "KeyState list"
  eth_txes_id_seq :: nat
  eth_tx_attempts_id_seq :: nat
  eth_receipts_id_seq :: nat

section \<open>Constraints\<close>

definition chk_eth_txes_fsm :: "EthTx \<Rightarrow> bool" where
  "chk_eth_txes_fsm t =
     (case TxState t of
        EthTxUnstarted \<Rightarrow>
          Nonce t = None \<and> TxError t = None \<and> BroadcastAt t = None \<and> InitialBroadcastAt t = None
      | EthTxInProgress \<Rightarrow>
          Nonce t \<noteq> None \<and> TxError t = None \<and> BroadcastAt t = None \<and> InitialBroadcastAt t = None
      | EthTxFatalError \<Rightarrow> Nonce t = None \<and> TxError t \<noteq> None
      | _ \<Rightarrow> Nonce t \<noteq> None \<and> TxError t = None \<and> BroadcastAt t \<noteq> None \<and> InitialBroadcastAt t \<noteq> None)"

definition eth_tx_ok :: "EthTx \<Rightarrow> bool" where
  "eth_tx_ok t \<longleftrightarrow> chk_eth_txes_fsm t \<and> TxError t \<noteq> Some [] \<and> (\<forall>b \<in> set_option (BroadcastAt t). 1546300800 < b)"

definition chk_eth_tx_attempts_fsm :: "EthTxAttempt \<Rightarrow> bool" where
  "chk_eth_tx_attempts_fsm a \<longleftrightarrow> AttemptState a = EthTxAttemptBroadcast \<or> BroadcastBeforeBlockNum a = None"

definition chk_legacy_or_dynamic :: "EthTxAttempt \<Rightarrow> bool" where
  "chk_legacy_or_dynamic a \<longleftrightarrow>
     TxType a = 0 \<and> GasPrice a \<noteq> None \<and> GasTipCap a = None \<and> GasFeeCap a = None
     \<or> TxType a = 2 \<and> GasPrice a = None \<and> GasTipCap a \<noteq> None \<and> GasFeeCap a \<noteq> None"

definition eth_tx_attempt_ok :: "EthTxAttempt \<Rightarrow> bool" where
  "eth_tx_attempt_ok a \<longleftrightarrow>
     chk_eth_tx_attempts_fsm a \<and> chk_legacy_or_dynamic a \<and> SignedRawTx a \<noteq> []
     \<and> ChainSpecificGasLimit a \<noteq> 0
     \<and> (\<forall>b \<in> set_option (BroadcastBeforeBlockNum a). 0 < b)
     \<and> (\<forall>tip \<in> set_option (GasTipCap a). \<forall>cap \<in> set_option (GasFeeCap a). tip \<le> cap)"

definition unique_rows :: "('r \<Rightarrow> bool) \<Rightarrow> ('r \<Rightarrow> 'k) \<Rightarrow> 'r list \<Rightarrow> bool" where
  "unique_rows P key rows \<longleftrightarrow> distinct (map key (filter P rows))"

definition eth_txes_ok :: "EthTx list \<Rightarrow> bool" where
  "eth_txes_ok ts \<longleftrightarrow>
     list_all eth_tx_ok ts
     \<and> unique_rows (\<lambda>t. True) TxID ts
     \<and> unique_rows (\<lambda>t. Nonce t \<noteq> None) (\<lambda>t. (TxChainID t, FromAddress t, Nonce t)) ts
     \<and> unique_rows (\<lambda>t. TxState t = EthTxInProgress) (\<lambda>t. (TxChainID t, FromAddress t)) ts
     \<and> unique_rows (\<lambda>t. PipelineTaskRunID t \<noteq> None) PipelineTaskRunID ts"

definition eth_tx_attempts_ok :: "EthTxAttempt list \<Rightarrow> bool" where
  "eth_tx_attempts_ok as \<longleftrightarrow>
     list_all eth_tx_attempt_ok as
     \<and> unique_rows (\<lambda>a. True) AttemptID as
     \<and> unique_rows (\<lambda>a. True) AttemptHash as
     \<and> unique_rows (\<lambda>a. AttemptState a \<noteq> EthTxAttemptBroadcast) EthTxID as
     \<and> unique_rows (\<lambda>a. GasPrice a \<noteq> None) (\<lambda>a. (EthTxID a, GasPrice a)) as"

definition eth_receipts_ok :: "EthReceipt list \<Rightarrow> bool" where
  "eth_receipts_ok rs \<longleftrightarrow>
     unique_rows (\<lambda>r. True) ReceiptID rs
     \<and> unique_rows (\<lambda>r. True) (\<lambda>r. (ReceiptTxHash r, ReceiptBlockHash r)) rs"

definition evm_key_states_ok :: "KeyState list \<Rightarrow> bool" where
  "evm_key_states_ok ks \<longleftrightarrow>
     unique_rows (\<lambda>k. True) (\<lambda>k. (KeyChainID k, KeyAddress k)) ks \<and> list_all (\<lambda>k. is_int64 (NextNonce k)) ks"

definition schema_ok :: "txdb \<Rightarrow> bool" where
  "schema_ok d \<longleftrightarrow>
     eth_txes_ok (eth_txes d) \<and> eth_tx_attempts_ok (eth_tx_attempts d)
     \<and> eth_receipts_ok (eth_receipts d) \<and> evm_key_states_ok (evm_key_states d)"

text \<open>The foreign keys.\<close>

definition fkey_key_states :: "txdb \<Rightarrow> bool" where
  "fkey_key_states d \<longleftrightarrow>
     list_all (\<lambda>t. list_ex (\<lambda>k. KeyChainID k = TxChainID t \<and> KeyAddress k = FromAddress t) (evm_key_states d))
       (eth_txes d)"

definition fkey_eth_txes :: "txdb \<Rightarrow> bool" where
  "fkey_eth_txes d \<longleftrightarrow> list_all (\<lambda>a. list_ex (\<lambda>t. TxID t = EthTxID a) (eth_txes d)) (eth_tx_attempts d)"

definition fkey_attempts :: "txdb \<Rightarrow> bool" where
  "fkey_attempts d \<longleftrightarrow>
     list_all (\<lambda>r. list_ex (\<lambda>a. AttemptHash a = ReceiptTxHash r) (eth_tx_attempts d)) (eth_receipts d)"

definition tables_ok :: "txdb \<Rightarrow> bool" where
  "tables_ok d \<longleftrightarrow> schema_ok d \<and> fkey_key_states d \<and> fkey_eth_txes d \<and> fkey_attempts d"

lemmas tables_ok_defs =
  tables_ok_def schema_ok_def eth_txes_ok_def eth_tx_attempts_ok_def eth_receipts_ok_def evm_key_states_ok_def
  fkey_key_states_def fkey_eth_txes_def fkey_attempts_def unique_rows_def eth_tx_ok_def chk_eth_txes_fsm_def
  eth_tx_attempt_ok_def chk_eth_tx_attempts_fsm_def chk_legacy_or_dynamic_def is_int64_def MinInt64_def MaxInt64_def

section \<open>Statements and transactions\<close>

datatype sql_error =
    ErrNoRows
  | FkeyEthTxes
  | ErrConstraint
  | ErrUnavailable
  | ErrAborted

text \<open>\<open>ErrAborted\<close> is an error of our own inside a transaction, which rolls it back.\<close>

text \<open>What a statement leaves, unless a constraint refuses it.\<close>

definition checked :: "txdb \<Rightarrow> sql_error + txdb" where
  "checked d =
     (if \<not> schema_ok d then Inl ErrConstraint
      else if \<not> fkey_eth_txes d then Inl FkeyEthTxes
      else if \<not> fkey_key_states d \<or> \<not> fkey_attempts d then Inl ErrConstraint
      else Inr d)"

fun try_bind :: "'e + 'a \<Rightarrow> ('a \<Rightarrow> 'e + 'b) \<Rightarrow> 'e + 'b" where
  "try_bind (Inl e) f = Inl e"
| "try_bind (Inr x) f = f x"

datatype db_answer = Commit | Refuse | CommitLost

record db_turn =
  others :: "txdb \<Rightarrow> txdb"
  answer :: db_answer

text \<open>The tables, what the database will answer, and what was handed to the node so far.\<close>

record 'tx world =
  db :: txdb
  script :: "db_turn list"
  sent :: "'tx list"

fun next_turn :: "'tx world \<Rightarrow> db_answer \<times> 'tx world" where
  "next_turn w =
     (case script w of
        [] \<Rightarrow> (Refuse, w)
      | t # ts \<Rightarrow> (answer t, w\<lparr>db := others t (db w), script := ts\<rparr>))"

definition Select :: "(txdb \<Rightarrow> 'a) \<Rightarrow> 'tx world \<Rightarrow> (sql_error + 'a) \<times> 'tx world" where
  "Select query w =
     (case next_turn w of
        (Commit, w1) \<Rightarrow> (Inr (query (db w1)), w1)
      | (_, w1) \<Rightarrow> (Inl ErrUnavailable, w1))"

definition Transaction :: "(txdb \<Rightarrow> sql_error + 'a \<times> txdb) \<Rightarrow> 'tx world \<Rightarrow> (sql_error + 'a) \<times> 'tx world" where
  "Transaction body w =
     (case next_turn w of
        (Refuse, w1) \<Rightarrow> (Inl ErrUnavailable, w1)
      | (Commit, w1) \<Rightarrow>
          (case body (db w1) of Inl e \<Rightarrow> (Inl e, w1) | Inr (x, d) \<Rightarrow> (Inr x, w1\<lparr>db := d\<rparr>))
      | (CommitLost, w1) \<Rightarrow>
          (case body (db w1) of Inl e \<Rightarrow> (Inl e, w1) | Inr (x, d) \<Rightarrow> (Inl ErrUnavailable, w1\<lparr>db := d\<rparr>)))"

definition update_where :: "('r \<Rightarrow> bool) \<Rightarrow> ('r \<Rightarrow> 'r) \<Rightarrow> 'r list \<Rightarrow> 'r list" where
  "update_where P f rows = map (\<lambda>r. if P r then f r else r) rows"

definition update_txes :: "(EthTx \<Rightarrow> bool) \<Rightarrow> (EthTx \<Rightarrow> EthTx) \<Rightarrow> txdb \<Rightarrow> txdb" where
  "update_txes P f d = d\<lparr>eth_txes := update_where P f (eth_txes d)\<rparr>"

definition update_attempts :: "(EthTxAttempt \<Rightarrow> bool) \<Rightarrow> (EthTxAttempt \<Rightarrow> EthTxAttempt) \<Rightarrow> txdb \<Rightarrow> txdb" where
  "update_attempts P f d = d\<lparr>eth_tx_attempts := update_where P f (eth_tx_attempts d)\<rparr>"

text \<open>Deletions follow the foreign keys, which cascade.\<close>

definition delete_attempts :: "(EthTxAttempt \<Rightarrow> bool) \<Rightarrow> txdb \<Rightarrow> txdb" where
  "delete_attempts P d =
     d\<lparr>eth_tx_attempts := filter (\<lambda>a. \<not> P a) (eth_tx_attempts d),
       eth_receipts :=
         filter (\<lambda>r. \<not> list_ex (\<lambda>a. P a \<and> AttemptHash a = ReceiptTxHash r) (eth_tx_attempts d)) (eth_receipts d)\<rparr>"

definition delete_txes :: "(EthTx \<Rightarrow> bool) \<Rightarrow> txdb \<Rightarrow> txdb" where
  "delete_txes P d =
     (delete_attempts (\<lambda>a. list_ex (\<lambda>t. P t \<and> TxID t = EthTxID a) (eth_txes d)) d)
       \<lparr>eth_txes := filter (\<lambda>t. \<not> P t) (eth_txes d)\<rparr>"

definition find_tx :: "nat \<Rightarrow> txdb \<Rightarrow> EthTx option" where
  "find_tx i d = find (\<lambda>t. TxID t = i) (eth_txes d)"

text \<open>\<open>insertIntoEthTxAttemptsQuery\<close>: the row with the next number of the sequence.\<close>

definition insert_attempt :: "EthTxAttempt \<Rightarrow> txdb \<Rightarrow> sql_error + EthTxAttempt \<times> txdb" where
  "insert_attempt a d =
     (let row = a\<lparr>AttemptID := eth_tx_attempts_id_seq d\<rparr>
      in try_bind
           (checked (d\<lparr>eth_tx_attempts := eth_tx_attempts d @ [row],
                       eth_tx_attempts_id_seq := Suc (eth_tx_attempts_id_seq d)\<rparr>))
           (\<lambda>d1. Inr (row, d1)))"

text \<open>\<open>ORDER BY gas_price DESC, gas_tip_cap DESC\<close>: a null is the greatest value.\<close>

definition desc_key :: "int option \<Rightarrow> bool \<times> int" where
  "desc_key v = (case v of None \<Rightarrow> (False, 0) | Some p \<Rightarrow> (True, - p))"

definition pair_le :: "bool \<times> int \<Rightarrow> bool \<times> int \<Rightarrow> bool" where
  "pair_le x y \<longleftrightarrow> fst x < fst y \<or> fst x = fst y \<and> snd x \<le> snd y"

definition price_before :: "EthTxAttempt \<Rightarrow> EthTxAttempt \<Rightarrow> bool" where
  "price_before a b \<longleftrightarrow>
     (if desc_key (GasPrice a) = desc_key (GasPrice b)
      then pair_le (desc_key (GasTipCap a)) (desc_key (GasTipCap b))
      else pair_le (desc_key (GasPrice a)) (desc_key (GasPrice b)))"

fun insert_by :: "('a \<Rightarrow> 'a \<Rightarrow> bool) \<Rightarrow> 'a \<Rightarrow> 'a list \<Rightarrow> 'a list" where
  "insert_by le x [] = [x]"
| "insert_by le x (y # ys) = (if le x y then x # y # ys else y # insert_by le x ys)"

definition sort_by :: "('a \<Rightarrow> 'a \<Rightarrow> bool) \<Rightarrow> 'a list \<Rightarrow> 'a list" where
  "sort_by le xs = foldr (insert_by le) xs []"

text \<open>\<open>loadEthTxAttempts\<close> and \<open>loadEthTxesAttempts\<close> for one transaction.\<close>

definition loadEthTxAttempts :: "nat \<Rightarrow> txdb \<Rightarrow> EthTxAttempt list" where
  "loadEthTxAttempts i d = sort_by price_before (filter (\<lambda>a. EthTxID a = i) (eth_tx_attempts d))"

section \<open>Facts about the tables\<close>

lemma try_bind_Inr: "try_bind m f = Inr y \<longleftrightarrow> (\<exists>x. m = Inr x \<and> f x = Inr y)"
  by (cases m) auto

lemma checked_Inr: "checked d = Inr d' \<longleftrightarrow> d' = d \<and> tables_ok d"
  by (auto simp: checked_def tables_ok_def)

lemma sort_by_mset [simp]: "mset (sort_by le xs) = mset xs"
proof -
  have ins: "mset (insert_by le x ys) = add_mset x (mset ys)" for x :: 'a and ys
    by (induction ys) auto
  show ?thesis unfolding sort_by_def by (induction xs) (auto simp: ins)
qed

lemma sort_by_set [simp]: "set (sort_by le xs) = set xs"
  by (metis sort_by_mset set_mset_mset)

lemma sort_by_length [simp]: "length (sort_by le xs) = length xs"
  by (metis sort_by_mset size_mset)

lemma sort_by_singleton [simp]: "sort_by le [x] = [x]"
  by (simp add: sort_by_def)

lemma insert_by_sorted:
  assumes "\<And>x y. le x y \<or> le y x" "\<And>x y z. le x y \<Longrightarrow> le y z \<Longrightarrow> le x z" "sorted_wrt le ys"
  shows "sorted_wrt le (insert_by le x ys)"
  using assms(3)
proof (induction ys)
  case (Cons y ys)
  have "set (insert_by le x ys) = insert x (set ys)" for x
    by (induction ys) auto
  then show ?case using Cons assms(1,2) by auto
qed simp

lemma sort_by_sorted:
  assumes "\<And>x y. le x y \<or> le y x" "\<And>x y z. le x y \<Longrightarrow> le y z \<Longrightarrow> le x z"
  shows "sorted_wrt le (sort_by le xs)"
  unfolding sort_by_def by (induction xs) (auto intro: insert_by_sorted [OF assms])

lemma set_update_where [simp]: "set (update_where P f rows) = (\<lambda>r. if P r then f r else r) ` set rows"
  by (simp add: update_where_def)

lemma update_where_filter:
  "(\<And>r. r \<in> set rows \<Longrightarrow> Q (if P r then f r else r) = Q r) \<Longrightarrow>
     filter Q (update_where P f rows) = update_where P f (filter Q rows)"
  unfolding update_where_def by (induction rows) auto

lemma update_where_none: "(\<And>r. r \<in> set rows \<Longrightarrow> \<not> P r) \<Longrightarrow> update_where P f rows = rows"
  unfolding update_where_def by (induction rows) auto

lemma unique_rowsD:
  "unique_rows P key rows \<Longrightarrow> r \<in> set rows \<Longrightarrow> s \<in> set rows \<Longrightarrow> P r \<Longrightarrow> P s \<Longrightarrow> key r = key s \<Longrightarrow> r = s"
  unfolding unique_rows_def distinct_map by (auto dest: inj_onD)

lemma find_tx_Some: "find_tx i d = Some t \<Longrightarrow> t \<in> set (eth_txes d) \<and> TxID t = i"
  unfolding find_tx_def by (auto simp: find_Some_iff)

lemma find_tx_None: "find_tx i d = None \<longleftrightarrow> (\<forall>t\<in>set (eth_txes d). TxID t \<noteq> i)"
  unfolding find_tx_def by (auto simp: find_None_iff)

lemma tables_ok_unique:
  assumes "tables_ok d"
  shows "t \<in> set (eth_txes d) \<Longrightarrow> u \<in> set (eth_txes d) \<Longrightarrow> TxID t = TxID u \<Longrightarrow> t = u"
    and "t \<in> set (eth_txes d) \<Longrightarrow> u \<in> set (eth_txes d) \<Longrightarrow> TxState t = EthTxInProgress
      \<Longrightarrow> TxState u = EthTxInProgress \<Longrightarrow> TxChainID t = TxChainID u \<Longrightarrow> FromAddress t = FromAddress u \<Longrightarrow> t = u"
    and "a \<in> set (eth_tx_attempts d) \<Longrightarrow> b \<in> set (eth_tx_attempts d) \<Longrightarrow> AttemptID a = AttemptID b \<Longrightarrow> a = b"
    and "t \<in> set (eth_txes d) \<Longrightarrow> eth_tx_ok t"
    and "a \<in> set (eth_tx_attempts d) \<Longrightarrow> eth_tx_attempt_ok a"
    and "a \<in> set (eth_tx_attempts d) \<Longrightarrow> \<exists>t\<in>set (eth_txes d). TxID t = EthTxID a"
proof -
  have T: "eth_txes_ok (eth_txes d)" and A: "eth_tx_attempts_ok (eth_tx_attempts d)" and F: "fkey_eth_txes d"
    using assms by (simp_all add: tables_ok_def schema_ok_def)
  note uT = T [unfolded eth_txes_ok_def] note uA = A [unfolded eth_tx_attempts_ok_def]
  show "t \<in> set (eth_txes d) \<Longrightarrow> u \<in> set (eth_txes d) \<Longrightarrow> TxID t = TxID u \<Longrightarrow> t = u"
    using uT unique_rowsD [of "\<lambda>t. True" TxID] by blast
  show "t \<in> set (eth_txes d) \<Longrightarrow> u \<in> set (eth_txes d) \<Longrightarrow> TxState t = EthTxInProgress
      \<Longrightarrow> TxState u = EthTxInProgress \<Longrightarrow> TxChainID t = TxChainID u \<Longrightarrow> FromAddress t = FromAddress u \<Longrightarrow> t = u"
    using uT unique_rowsD [of "\<lambda>t. TxState t = EthTxInProgress" "\<lambda>t. (TxChainID t, FromAddress t)"] by auto
  show "a \<in> set (eth_tx_attempts d) \<Longrightarrow> b \<in> set (eth_tx_attempts d) \<Longrightarrow> AttemptID a = AttemptID b \<Longrightarrow> a = b"
    using uA unique_rowsD [of "\<lambda>t. True" AttemptID] by blast
  show "t \<in> set (eth_txes d) \<Longrightarrow> eth_tx_ok t" using uT by (simp add: list_all_iff)
  show "a \<in> set (eth_tx_attempts d) \<Longrightarrow> eth_tx_attempt_ok a" using uA by (simp add: list_all_iff)
  show "a \<in> set (eth_tx_attempts d) \<Longrightarrow> \<exists>t\<in>set (eth_txes d). TxID t = EthTxID a"
    using F by (auto simp: fkey_eth_txes_def list_all_iff list_ex_iff)
qed

lemma insert_attempt_Inr:
  "insert_attempt a d = Inr (row, d') \<longleftrightarrow>
     row = a\<lparr>AttemptID := eth_tx_attempts_id_seq d\<rparr>
     \<and> d' = d\<lparr>eth_tx_attempts := eth_tx_attempts d @ [row], eth_tx_attempts_id_seq := Suc (eth_tx_attempts_id_seq d)\<rparr>
     \<and> tables_ok d'"
  unfolding insert_attempt_def Let_def try_bind_Inr checked_Inr by auto

section \<open>Working on the tables beside others\<close>

text \<open>
  One user of the tables: an invariant of them, and what the others may change (\<open>frame\<close>). A world is
  guarded when the invariant holds and every turn of the others keeps it and stays within the frame.
\<close>

locale table_user =
  fixes inv :: "txdb \<Rightarrow> bool"
    and frame :: "txdb \<Rightarrow> txdb \<Rightarrow> bool"
  assumes frame_refl: "inv d \<Longrightarrow> frame d d"
begin

definition guarded :: "'tx world \<Rightarrow> bool" where
  "guarded w \<longleftrightarrow> inv (db w) \<and> (\<forall>t\<in>set (script w). \<forall>d. inv d \<longrightarrow> inv (others t d) \<and> frame d (others t d))"

definition stable :: "(txdb \<Rightarrow> bool) \<Rightarrow> bool" where
  "stable P \<longleftrightarrow> (\<forall>d d'. inv d \<longrightarrow> inv d' \<longrightarrow> frame d d' \<longrightarrow> P d \<longrightarrow> P d')"

lemma alone_guarded: "inv (db w) \<Longrightarrow> (\<And>t. t \<in> set (script w) \<Longrightarrow> others t = id) \<Longrightarrow> guarded w"
  unfolding guarded_def using frame_refl by simp

lemma next_turn_guarded:
  assumes "guarded w" "stable P" "P (db w)" "next_turn w = (ans, w1)"
  shows "guarded w1 \<and> P (db w1) \<and> sent w1 = sent w"
proof (cases "script w")
  case Nil
  then show ?thesis using assms by auto
next
  case (Cons t ts)
  have step: "inv (others t (db w)) \<and> frame (db w) (others t (db w))"
    using assms(1) Cons by (simp add: guarded_def)
  have w1: "w1 = w\<lparr>db := others t (db w), script := ts\<rparr>" using assms(4) Cons by simp
  have "guarded w1" using assms(1) step Cons by (simp add: guarded_def w1)
  moreover have "P (others t (db w))" using assms(1,2,3) step unfolding stable_def guarded_def by blast
  ultimately show ?thesis by (simp add: w1)
qed

text \<open>The rule of a read.\<close>

lemma Select_guarded:
  assumes "guarded w" "stable P" "P (db w)" "Select query w = (res, w1)"
  shows "guarded w1 \<and> P (db w1) \<and> sent w1 = sent w \<and> (\<forall>x. res = Inr x \<longrightarrow> x = query (db w1))"
proof -
  obtain ans w' where n: "next_turn w = (ans, w')" by (cases "next_turn w")
  have "w1 = w'" "res = Inr (query (db w')) \<or> res = Inl ErrUnavailable"
    using assms(4) n by (auto simp: Select_def split: db_answer.splits)
  then show ?thesis using next_turn_guarded [OF assms(1-3) n] by auto
qed

text \<open>The rule of a transaction: its body is run on tables in which what we know still holds.\<close>

lemma Transaction_guarded:
  assumes "guarded w" "stable P" "P (db w)"
    and body: "\<And>d x d'. inv d \<Longrightarrow> P d \<Longrightarrow> body d = Inr (x, d') \<Longrightarrow> inv d' \<and> Q x d'"
    and "Transaction body w = (res, w1)"
  shows "guarded w1 \<and> sent w1 = sent w \<and>
    (case res of Inr x \<Rightarrow> Q x (db w1) | Inl e \<Rightarrow> P (db w1) \<or> e = ErrUnavailable \<and> (\<exists>x. Q x (db w1)))"
proof -
  obtain ans w' where n: "next_turn w = (ans, w')" by (cases "next_turn w")
  have g: "guarded w'" and p: "P (db w')" and s: "sent w' = sent w"
    using next_turn_guarded [OF assms(1-3) n] by auto
  show ?thesis
  proof (cases "body (db w')")
    case (Inl e)
    then have "w1 = w'" "\<exists>e. res = Inl e"
      using assms(5) n by (auto simp: Transaction_def split: db_answer.splits)
    then show ?thesis using g p s by auto
  next
    case (Inr y)
    obtain x d' where y: "y = (x, d')" by (cases y)
    have q: "inv d' \<and> Q x d'" using body [of "db w'"] g p Inr y by (auto simp: guarded_def)
    have "guarded (w'\<lparr>db := d'\<rparr>)" using g q by (simp add: guarded_def)
    then show ?thesis
      using assms(5) n Inr y g p q s by (cases ans) (auto simp: Transaction_def)
  qed
qed

end

end
