(* ===== verification/TxAttempts.thy ===== *)
theory TxAttempts
  imports TxTables Gas SendErrors
begin

text \<open>
  What \<open>core/chains/evm/txmgr\<close> puts between a row and the node: \<open>attempts.go\<close> (the sanity checks on prices
  and the construction of attempts), \<open>transmitchecker.go\<close>, \<open>sendTransaction\<close> of \<open>txmgr.go\<close>, the maximum
  price of a key (\<open>config.go\<close>), and the key store's nonces (\<open>services/keystore\<close>). Signing, the RLP codec,
  JSON and the RPC client are other packages: they are the fields of \<open>env\<close>, and the answers of a \<open>round\<close>.
\<close>

section \<open>Configuration, environment, errors\<close>

record TxmConfig = Config +
  KeySpecific :: "nat \<Rightarrow> int option"
  EvmMaxInFlightTransactions :: nat
  EvmMaxQueuedTransactions :: nat
  EvmUseForwarders :: bool
  ChainTypeIsL2 :: bool
  EvmFinalityDepth :: nat
  EvmGasBumpTxDepth :: nat
  EvmRPCDefaultBatchSize :: nat
  EvmGasLimitDefault :: "32 word"

text \<open>A maximum of its own for a key counts when it is set, not zero, and below the chain's.\<close>

definition KeySpecificMaxGasPriceWei :: "TxmConfig \<Rightarrow> nat \<Rightarrow> int" where
  "KeySpecificMaxGasPriceWei cfg addr =
     (case KeySpecific cfg addr of
        None \<Rightarrow> EvmMaxGasPriceWei cfg
      | Some keySpecific \<Rightarrow>
          if keySpecific \<noteq> 0 \<and> keySpecific < EvmMaxGasPriceWei cfg then keySpecific else EvmMaxGasPriceWei cfg)"

datatype EthTransaction =
    LegacyTx "64 word" nat int "64 word" int "8 word list"
  | DynamicFeeTx int "64 word" int int "64 word" nat int "8 word list" "string option"

fun tx_nonce :: "EthTransaction \<Rightarrow> 64 word" where
  "tx_nonce (LegacyTx n to v g p d) = n"
| "tx_nonce (DynamicFeeTx c n tip cap g to v d al) = n"

text \<open>The most a transaction can pay for a unit of gas.\<close>

fun tx_max_price :: "EthTransaction \<Rightarrow> int" where
  "tx_max_price (LegacyTx n to v g p d) = p"
| "tx_max_price (DynamicFeeTx c n tip cap g to v d al) = cap"

datatype TransmitCheckerType =
    TransmitCheckerTypeSimulate
  | TransmitCheckerTypeVRFV1
  | TransmitCheckerTypeVRFV2
  | NoCheckerType
  | UnknownCheckerType string

record TransmitCheckerSpec =
  CheckerType :: TransmitCheckerType
  VRFCoordinatorAddress :: "nat option"
  VRFRequestBlockNumber :: "int option"

text \<open>Of the metadata, what the checkers, the forwarder and the resumption of task runs read.\<close>

record EthTxMeta =
  MetaRequestID :: "nat option"
  MetaFailOnRevert :: bool
  MetaFwdrDestAddress :: "nat option"

datatype 'e tx_error =
    InvariantViolation string
  | SqlErr sql_error
  | ErrEthTxRemoved
  | KeyStoreErr string
  | GasErr gas_error
  | InvalidGas string
  | SignErr
  | CheckerErr string
  | SendErr "'e SendError"
  | NodeErr
  | NonceOverflow
  | BumpCeiling
  | L2Only
  | ResumeErr

record 'e env =
  SignTx :: "nat \<Rightarrow> EthTransaction \<Rightarrow> int \<Rightarrow> (nat \<times> 8 word list) option"
  DecodeRLP :: "8 word list \<Rightarrow> 'e + EthTransaction"
  Cause :: "'e \<Rightarrow> string"
  WithStack :: "'e \<Rightarrow> 'e"
  IsDeadlineExceeded :: "'e \<Rightarrow> bool"
  ParseChecker :: "string \<Rightarrow> TransmitCheckerSpec option"
  ParseMeta :: "string \<Rightarrow> EthTxMeta option"
  NewVRFCoordinator :: "nat \<Rightarrow> bool"
  HasResumeCallback :: bool
  ContextDone :: "nat \<Rightarrow> bool"

section \<open>Attempts\<close>

definition Max256BitUInt :: int where
  "Max256BitUInt = 2 ^ 256"

definition validateLegacyGas :: "TxmConfig \<Rightarrow> int option \<Rightarrow> EthTx \<Rightarrow> string option run" where
  "validateLegacyGas cfg gasPrice etx =
     (case gasPrice of
        None \<Rightarrow> Panic ''gas price missing''
      | Some p \<Rightarrow>
          if p > KeySpecificMaxGasPriceWei cfg (FromAddress etx) then Ret (Some ''gas price above max'')
          else if p < EvmMinGasPriceWei cfg then Ret (Some ''gas price below min'')
          else Ret None)"

definition validateDynamicFeeGas :: "TxmConfig \<Rightarrow> int option \<Rightarrow> int option \<Rightarrow> EthTx \<Rightarrow> string option run" where
  "validateDynamicFeeGas cfg gasTipCap gasFeeCap etx =
     (case gasTipCap of
        None \<Rightarrow> Panic ''gas tip cap missing''
      | Some tip \<Rightarrow>
          (case gasFeeCap of
             None \<Rightarrow> Panic ''gas fee cap missing''
           | Some cap \<Rightarrow>
               if cap > Max256BitUInt then Ret (Some ''impossibly large fee cap'')
               else if tip > Max256BitUInt then Ret (Some ''impossibly large tip cap'')
               else if cap < tip then Ret (Some ''fee cap below tip cap'')
               else if cap > KeySpecificMaxGasPriceWei cfg (FromAddress etx) then Ret (Some ''fee cap above max'')
               else if tip < EvmGasTipCapMinimum cfg then Ret (Some ''tip cap below min'')
               else Ret None))"

definition newLegacyTransaction ::
    "int \<Rightarrow> nat \<Rightarrow> int \<Rightarrow> 32 word \<Rightarrow> int \<Rightarrow> 8 word list \<Rightarrow> EthTransaction" where
  "newLegacyTransaction nonce to value gasLimit gasPrice data =
     LegacyTx (word_of_int nonce) to value (ucast gasLimit) gasPrice data"

definition newDynamicFeeTransaction ::
    "int \<Rightarrow> nat \<Rightarrow> int \<Rightarrow> 32 word \<Rightarrow> int \<Rightarrow> int \<Rightarrow> int \<Rightarrow> 8 word list \<Rightarrow> string option \<Rightarrow> EthTransaction" where
  "newDynamicFeeTransaction nonce to value gasLimit cid gasTipCap gasFeeCap data accessList =
     DynamicFeeTx cid (word_of_int nonce) gasTipCap gasFeeCap (ucast gasLimit) to value data accessList"

definition newSignedAttempt ::
    "'e env \<Rightarrow> int \<Rightarrow> EthTx \<Rightarrow> EthTransaction \<Rightarrow> 'e tx_error + EthTxAttempt" where
  "newSignedAttempt env cid etx tx =
     (case SignTx env (FromAddress etx) tx cid of
        None \<Rightarrow> Inl SignErr
      | Some (h, raw) \<Rightarrow>
          Inr \<lparr>AttemptID = 0, EthTxID = TxID etx, GasPrice = None, GasTipCap = None, GasFeeCap = None,
               ChainSpecificGasLimit = 0, SignedRawTx = raw, AttemptHash = h, BroadcastBeforeBlockNum = None,
               AttemptState = EthTxAttemptInProgress, TxType = 0\<rparr>)"

definition NewLegacyAttempt ::
    "'e env \<Rightarrow> TxmConfig \<Rightarrow> int \<Rightarrow> EthTx \<Rightarrow> int option \<Rightarrow> 32 word \<Rightarrow> ('e tx_error + EthTxAttempt) run" where
  "NewLegacyAttempt env cfg cid etx gasPrice gasLimit =
     run_bind (validateLegacyGas cfg gasPrice etx) (\<lambda>invalid.
       case invalid of
         Some m \<Rightarrow> Ret (Inl (InvalidGas m))
       | None \<Rightarrow>
           (case Nonce etx of
              None \<Rightarrow> Panic ''nil nonce''
            | Some nonce \<Rightarrow>
                Ret (try_bind
                  (newSignedAttempt env cid etx
                     (newLegacyTransaction nonce (ToAddress etx) (Value etx) gasLimit (the gasPrice) (EncodedPayload etx)))
                  (\<lambda>a. Inr (a\<lparr>GasPrice := gasPrice, TxType := 0, ChainSpecificGasLimit := gasLimit\<rparr>)))))"

definition NewDynamicFeeAttempt ::
    "'e env \<Rightarrow> TxmConfig \<Rightarrow> int \<Rightarrow> EthTx \<Rightarrow> int option \<Rightarrow> int option \<Rightarrow> 32 word \<Rightarrow> ('e tx_error + EthTxAttempt) run" where
  "NewDynamicFeeAttempt env cfg cid etx tipCap feeCap gasLimit =
     run_bind (validateDynamicFeeGas cfg tipCap feeCap etx) (\<lambda>invalid.
       case invalid of
         Some m \<Rightarrow> Ret (Inl (InvalidGas m))
       | None \<Rightarrow>
           (case Nonce etx of
              None \<Rightarrow> Panic ''nil nonce''
            | Some nonce \<Rightarrow>
                Ret (try_bind
                  (newSignedAttempt env cid etx
                     (newDynamicFeeTransaction nonce (ToAddress etx) (Value etx) gasLimit cid (the tipCap) (the feeCap)
                        (EncodedPayload etx) (AccessList etx)))
                  (\<lambda>a. Inr (a\<lparr>GasTipCap := tipCap, GasFeeCap := feeCap, ChainSpecificGasLimit := gasLimit, TxType := 2\<rparr>)))))"

section \<open>Transmit checkers\<close>

datatype TransmitChecker =
    NoChecker
  | SimulateChecker
  | VRFV1Checker nat
  | VRFV2Checker nat "int option"

datatype call_answer = CallOk | CallRPCError | CallFailed

datatype resume_answer = ResumeOk | ResumeNoRows | ResumeFailed

text \<open>What the node, the contracts, the estimator and the callback answer in one round of sending.\<close>

record 'e round =
  CallContext :: call_answer
  Callbacks :: "nat \<Rightarrow> nat \<Rightarrow> bool option"
  HeaderByNumber :: "int option"
  GetCommitment :: "nat \<Rightarrow> nat \<Rightarrow> int \<Rightarrow> bool option"
  SendTransaction :: "EthTransaction \<Rightarrow> 'e option"
  PendingNonceAt :: "64 word option"
  ResumeCallback :: resume_answer
  BumpLegacyGas :: "int \<Rightarrow> 32 word \<Rightarrow> int \<Rightarrow> gas_error + int \<times> 32 word"
  BumpDynamicFee :: "DynamicFee \<Rightarrow> 32 word \<Rightarrow> int \<Rightarrow> gas_error + DynamicFee \<times> 32 word"
  GetLegacyGas :: "8 word list \<Rightarrow> 32 word \<Rightarrow> int \<Rightarrow> gas_error + int \<times> 32 word"

definition GetChecker :: "'e env \<Rightarrow> EthTx \<Rightarrow> TransmitCheckerSpec option" where
  "GetChecker env etx =
     (case TransmitChecker etx of
        None \<Rightarrow> Some \<lparr>CheckerType = NoCheckerType, VRFCoordinatorAddress = None, VRFRequestBlockNumber = None\<rparr>
      | Some j \<Rightarrow> ParseChecker env j)"

definition GetMeta :: "'e env \<Rightarrow> EthTx \<Rightarrow> EthTxMeta option option" where
  "GetMeta env etx = (case Meta etx of None \<Rightarrow> Some None | Some j \<Rightarrow> map_option Some (ParseMeta env j))"

definition BuildChecker :: "'e env \<Rightarrow> TransmitCheckerSpec \<Rightarrow> string + TransmitChecker" where
  "BuildChecker env spec =
     (case CheckerType spec of
        TransmitCheckerTypeSimulate \<Rightarrow> Inr SimulateChecker
      | TransmitCheckerTypeVRFV1 \<Rightarrow>
          (case VRFCoordinatorAddress spec of
             None \<Rightarrow> Inl ''malformed checker''
           | Some addr \<Rightarrow>
               if \<not> NewVRFCoordinator env addr then Inl ''failed to create VRF V1 coordinator''
               else Inr (VRFV1Checker addr))
      | TransmitCheckerTypeVRFV2 \<Rightarrow>
          (case VRFCoordinatorAddress spec of
             None \<Rightarrow> Inl ''malformed checker''
           | Some addr \<Rightarrow>
               if \<not> NewVRFCoordinator env addr then Inl ''failed to create VRF V2 coordinator''
               else if VRFRequestBlockNumber spec = None then Inl ''VRFRequestBlockNumber parameter must be non-nil''
               else Inr (VRFV2Checker addr (VRFRequestBlockNumber spec)))
      | NoCheckerType \<Rightarrow> Inr NoChecker
      | UnknownCheckerType t \<Rightarrow> Inl ''unrecognized checker type'')"

text \<open>
  The error of a check, if any. \<open>RequestID\<close> is a pointer, and reading the ID of a request whose metadata
  has none panics; the test of its length comes after and is always passed.
\<close>

definition Check :: "'e env \<Rightarrow> 'e round \<Rightarrow> TransmitChecker \<Rightarrow> EthTx \<Rightarrow> string option run" where
  "Check env r checker etx =
     (case checker of
        NoChecker \<Rightarrow> Ret None
      | SimulateChecker \<Rightarrow>
          Ret (case CallContext r of
                 CallRPCError \<Rightarrow> Some ''transaction reverted during simulation''
               | CallFailed \<Rightarrow> None
               | CallOk \<Rightarrow> None)
      | VRFV1Checker addr \<Rightarrow>
          (case GetMeta env etx of
             None \<Rightarrow> Ret None
           | Some None \<Rightarrow> Ret None
           | Some (Some meta) \<Rightarrow>
               (case MetaRequestID meta of
                  None \<Rightarrow> Panic ''nil RequestID''
                | Some reqID \<Rightarrow>
                    Ret (case Callbacks r addr reqID of
                           None \<Rightarrow> None
                         | Some zero \<Rightarrow> if zero then Some ''request already fulfilled'' else None)))
      | VRFV2Checker addr requestBlock \<Rightarrow>
          (case GetMeta env etx of
             None \<Rightarrow> Ret None
           | Some None \<Rightarrow> Ret None
           | Some (Some meta) \<Rightarrow>
               (case HeaderByNumber r of
                  None \<Rightarrow> Ret None
                | Some h \<Rightarrow>
                    (case requestBlock of
                       None \<Rightarrow> Ret None
                     | Some block \<Rightarrow>
                         (case MetaRequestID meta of
                            None \<Rightarrow> Panic ''nil RequestID''
                          | Some reqID \<Rightarrow>
                              Ret (case GetCommitment r addr reqID (max (h - 5) block) of
                                     None \<Rightarrow> None
                                   | Some zero \<Rightarrow> if zero then Some ''request already fulfilled'' else None))))))"

section \<open>Sending\<close>

definition IsTimeout :: "'e env \<Rightarrow> 'e SendError option \<Rightarrow> bool" where
  "IsTimeout env s =
     (case s of
        None \<Rightarrow> False
      | Some se \<Rightarrow> (case err se of None \<Rightarrow> False | Some e \<Rightarrow> IsDeadlineExceeded env e))"

text \<open>The log of what was sent holds the row's number and the transaction.\<close>

type_synonym txworld = "(nat \<times> EthTransaction) world"

definition sendTransaction ::
    "'e env \<Rightarrow> 'e round \<Rightarrow> EthTxAttempt \<Rightarrow> txworld \<Rightarrow> 'e SendError option \<times> txworld" where
  "sendTransaction env r a w =
     (case DecodeRLP env (SignedRawTx a) of
        Inl e \<Rightarrow> (NewFatalSendError (WithStack env) (Some e), w)
      | Inr tx \<Rightarrow>
          (let sendErr = NewSendError (Cause env) (WithStack env) (SendTransaction r tx);
               w1 = w\<lparr>sent := sent w @ [(EthTxID a, tx)]\<rparr>
           in if IsTransactionAlreadyInMempool (Cause env) sendErr then (None, w1) else (sendErr, w1)))"

section \<open>Rows of a transaction\<close>

text \<open>\<open>UPDATE ... WHERE id = ... RETURNING *\<close>, which fails when there is no such row.\<close>

definition update_tx_returning :: "nat \<Rightarrow> (EthTx \<Rightarrow> EthTx) \<Rightarrow> txdb \<Rightarrow> sql_error + EthTx \<times> txdb" where
  "update_tx_returning i f d =
     (case find_tx i d of
        None \<Rightarrow> Inl ErrNoRows
      | Some t \<Rightarrow> try_bind (checked (update_txes (\<lambda>t. TxID t = i) f d)) (\<lambda>d1. Inr (f t, d1)))"

definition update_attempt_returning ::
    "nat \<Rightarrow> (EthTxAttempt \<Rightarrow> EthTxAttempt) \<Rightarrow> txdb \<Rightarrow> sql_error + EthTxAttempt \<times> txdb" where
  "update_attempt_returning i f d =
     (case find (\<lambda>a. AttemptID a = i) (eth_tx_attempts d) of
        None \<Rightarrow> Inl ErrNoRows
      | Some a \<Rightarrow> try_bind (checked (update_attempts (\<lambda>a. AttemptID a = i) f d)) (\<lambda>d1. Inr (f a, d1)))"

definition saveReplacementInProgressAttempt ::
    "EthTxAttempt \<Rightarrow> EthTxAttempt \<Rightarrow> txworld \<Rightarrow> ('e tx_error + EthTxAttempt) \<times> txworld" where
  "saveReplacementInProgressAttempt oldAttempt replacementAttempt w =
     (if AttemptState oldAttempt \<noteq> EthTxAttemptInProgress \<or> AttemptState replacementAttempt \<noteq> EthTxAttemptInProgress
      then (Inl (InvariantViolation ''expected attempts to be in_progress''), w)
      else if AttemptID oldAttempt = 0 then (Inl (InvariantViolation ''expected oldAttempt to have an ID''), w)
      else
        (case Transaction
                (\<lambda>d. try_bind (checked (delete_attempts (\<lambda>a. AttemptID a = AttemptID oldAttempt) d))
                       (insert_attempt replacementAttempt)) w of
           (Inl e, w1) \<Rightarrow> (Inl (SqlErr e), w1)
         | (Inr row, w1) \<Rightarrow> (Inr row, w1)))"

section \<open>Nonces of the key store\<close>

text \<open>What the key store holds in memory: the keys, and the state of each on each chain (disabled or not).\<close>

record keystore =
  KeyExists :: "nat \<Rightarrow> bool"
  MemState :: "nat \<Rightarrow> int \<Rightarrow> bool option"

definition mem_ok :: "keystore \<Rightarrow> nat \<Rightarrow> int \<Rightarrow> bool" where
  "mem_ok ks addr cid \<longleftrightarrow> MemState ks addr cid = Some False"

definition find_key :: "nat \<Rightarrow> int \<Rightarrow> txdb \<Rightarrow> KeyState option" where
  "find_key addr cid d = find (\<lambda>k. KeyAddress k = addr \<and> KeyChainID k = cid) (evm_key_states d)"

definition orm_getNextNonce :: "nat \<Rightarrow> int \<Rightarrow> txdb \<Rightarrow> int option" where
  "orm_getNextNonce addr cid d =
     (case find_key addr cid d of None \<Rightarrow> None | Some k \<Rightarrow> if Disabled k then None else Some (NextNonce k))"

definition GetNextNonce :: "keystore \<Rightarrow> nat \<Rightarrow> int \<Rightarrow> txworld \<Rightarrow> ('e tx_error + int) \<times> txworld" where
  "GetNextNonce ks addr cid w =
     (if \<not> KeyExists ks addr then (Inl (KeyStoreErr ''key does not exist''), w)
      else
        (case Select (orm_getNextNonce addr cid) w of
           (Inl e, w1) \<Rightarrow> (Inl (SqlErr e), w1)
         | (Inr None, w1) \<Rightarrow> (Inl (SqlErr ErrNoRows), w1)
         | (Inr (Some nonce), w1) \<Rightarrow>
             if \<not> mem_ok ks addr cid then (Inl (KeyStoreErr ''no enabled state in memory''), w1) else (Inr nonce, w1)))"

definition orm_incrementNextNonce :: "nat \<Rightarrow> int \<Rightarrow> int \<Rightarrow> txdb \<Rightarrow> sql_error + int \<times> txdb" where
  "orm_incrementNextNonce addr cid currentNonce d =
     (let hit = (\<lambda>k. KeyAddress k = addr \<and> NextNonce k = currentNonce \<and> KeyChainID k = cid \<and> \<not> Disabled k)
      in if \<not> list_ex hit (evm_key_states d) then Inl ErrNoRows
         else
           try_bind
             (checked (d\<lparr>evm_key_states :=
                 update_where hit (\<lambda>k. k\<lparr>NextNonce := NextNonce k + 1\<rparr>) (evm_key_states d)\<rparr>))
             (\<lambda>d1. Inr (currentNonce + 1, d1)))"

text \<open>Within a transaction; an error of the key store's memory makes the transaction roll back too.\<close>

definition IncrementNextNonce :: "keystore \<Rightarrow> nat \<Rightarrow> int \<Rightarrow> int \<Rightarrow> txdb \<Rightarrow> sql_error + txdb" where
  "IncrementNextNonce ks addr cid currentNonce d =
     (if \<not> KeyExists ks addr then Inl ErrAborted
      else
        try_bind (orm_incrementNextNonce addr cid currentNonce d)
          (\<lambda>(n, d1). if \<not> mem_ok ks addr cid then Inl ErrAborted else Inr d1))"

end
