(* ===== verification/TxBroadcaster.thy ===== *)
theory TxBroadcaster
  imports TxAttempts
begin

text \<open>
  \<open>eth_broadcaster.go\<close>: one address's transactions leave the queue one by one. A transaction gets the
  next nonce and an attempt and is saved as in progress, the attempt is sent, and the answer of the node
  decides whether the transaction becomes unconfirmed (and the nonce is used up), fatally errored (and
  the nonce stays), is tried again with another price, or stays in progress until the next run. The
  rounds of one call answer each pass of \<open>handleInProgressEthTx\<close>, the turns those of the loop over
  the queue; a call is \<open>Waiting\<close> when they run out.
\<close>

section \<open>Saving\<close>

definition saveFatallyErroredTransaction ::
    "'e env \<Rightarrow> 'e round \<Rightarrow> EthTx \<Rightarrow> txworld \<Rightarrow> 'e tx_error option \<times> txworld" where
  "saveFatallyErroredTransaction env r etx w =
     (if TxState etx \<noteq> EthTxInProgress
      then (Some (InvariantViolation ''can only transition to fatal_error from in_progress''), w)
      else if TxError etx = None then (Some (InvariantViolation ''expected error field to be set''), w)
      else if PipelineTaskRunID etx \<noteq> None \<and> HasResumeCallback env \<and> ResumeCallback r = ResumeFailed
      then (Some ResumeErr, w)
      else
        (case Transaction
                (\<lambda>d. update_tx_returning (TxID etx)
                       (\<lambda>t. t\<lparr>TxState := EthTxFatalError, TxError := TxError etx, BroadcastAt := None,
                             InitialBroadcastAt := None, Nonce := None\<rparr>)
                       (delete_attempts (\<lambda>a. EthTxID a = TxID etx) d)) w of
           (Inl e, w1) \<Rightarrow> (Some (SqlErr e), w1)
         | (Inr row, w1) \<Rightarrow> (None, w1)))"

definition saveAttempt ::
    "keystore \<Rightarrow> int \<Rightarrow> EthTx \<Rightarrow> EthTxAttempt \<Rightarrow> EthTxAttemptState \<Rightarrow> txworld \<Rightarrow> 'e tx_error option \<times> txworld" where
  "saveAttempt ks cid etx attempt NewAttemptState w =
     (if TxState etx \<noteq> EthTxInProgress
      then (Some (InvariantViolation ''can only transition to unconfirmed from in_progress''), w)
      else if AttemptState attempt \<noteq> EthTxAttemptInProgress
      then (Some (InvariantViolation ''attempt must be in in_progress state''), w)
      else if NewAttemptState \<noteq> EthTxAttemptBroadcast
      then (Some (InvariantViolation ''new attempt state must be broadcast''), w)
      else
        (case Transaction
                (\<lambda>d. try_bind (IncrementNextNonce ks (FromAddress etx) cid (the (Nonce etx)) d) (\<lambda>d1.
                       try_bind (update_tx_returning (TxID etx)
                           (\<lambda>t. t\<lparr>TxState := EthTxUnconfirmed, TxError := TxError etx, BroadcastAt := BroadcastAt etx,
                                 InitialBroadcastAt := InitialBroadcastAt etx\<rparr>) d1) (\<lambda>(row, d2).
                         update_attempt_returning (AttemptID attempt)
                           (\<lambda>a. a\<lparr>AttemptState := NewAttemptState\<rparr>) d2))) w of
           (Inl e, w1) \<Rightarrow> (Some (SqlErr e), w1)
         | (Inr a, w1) \<Rightarrow> (None, w1)))"

definition saveInProgressTransaction ::
    "EthTx \<Rightarrow> EthTxAttempt \<Rightarrow> txworld \<Rightarrow> ('e tx_error + EthTx \<times> EthTxAttempt) \<times> txworld" where
  "saveInProgressTransaction etx attempt w =
     (if TxState etx \<noteq> EthTxUnstarted
      then (Inl (InvariantViolation ''can only transition to in_progress from unstarted''), w)
      else if AttemptState attempt \<noteq> EthTxAttemptInProgress
      then (Inl (InvariantViolation ''attempt state must be in_progress''), w)
      else
        (case Transaction
                (\<lambda>d. try_bind (insert_attempt attempt d) (\<lambda>(a, d1).
                       try_bind (update_tx_returning (TxID etx)
                           (\<lambda>t. t\<lparr>Nonce := Nonce etx, TxState := EthTxInProgress, BroadcastAt := BroadcastAt etx,
                                 InitialBroadcastAt := InitialBroadcastAt etx\<rparr>) d1) (\<lambda>(t, d2).
                         Inr ((t, a), d2)))) w of
           (Inl FkeyEthTxes, w1) \<Rightarrow> (Inl ErrEthTxRemoved, w1)
         | (Inl e, w1) \<Rightarrow> (Inl (SqlErr e), w1)
         | (Inr p, w1) \<Rightarrow> (Inr p, w1)))"

section \<open>Trying again\<close>

text \<open>How one pass ends: with an error or none and whether to retry, in another pass, or in a panic.\<close>

datatype 'e pass =
    Finish "'e tx_error option" bool
  | Again EthTx EthTxAttempt
  | Panicking string

fun pass_run :: "'a run \<Rightarrow> ('a \<Rightarrow> 'e pass \<times> txworld) \<Rightarrow> txworld \<Rightarrow> 'e pass \<times> txworld" where
  "pass_run (Ret x) f w = f x"
| "pass_run (Panic m) f w = (Panicking m, w)"

definition again_with ::
    "EthTx \<Rightarrow> EthTxAttempt \<Rightarrow> txworld \<Rightarrow> 'e tx_error + EthTxAttempt \<Rightarrow> 'e pass \<times> txworld" where
  "again_with etx attempt w replacement =
     (case replacement of
        Inl e \<Rightarrow> (Finish (Some e) True, w)
      | Inr replacementAttempt \<Rightarrow>
          (case saveReplacementInProgressAttempt attempt replacementAttempt w of
             (Inl e, w1) \<Rightarrow> (Finish (Some e) True, w1)
           | (Inr row, w1) \<Rightarrow> (Again etx row, w1)))"

definition tryAgainWithNewLegacyGas ::
    "'e env \<Rightarrow> TxmConfig \<Rightarrow> int \<Rightarrow> EthTx \<Rightarrow> EthTxAttempt \<Rightarrow> int \<Rightarrow> 32 word \<Rightarrow> txworld \<Rightarrow> 'e pass \<times> txworld" where
  "tryAgainWithNewLegacyGas env cfg cid etx attempt newGasPrice newGasLimit w =
     pass_run (NewLegacyAttempt env cfg cid etx (Some newGasPrice) newGasLimit) (again_with etx attempt w) w"

definition tryAgainWithNewDynamicFeeGas ::
    "'e env \<Rightarrow> TxmConfig \<Rightarrow> int \<Rightarrow> EthTx \<Rightarrow> EthTxAttempt \<Rightarrow> DynamicFee \<Rightarrow> 32 word \<Rightarrow> txworld \<Rightarrow> 'e pass \<times> txworld" where
  "tryAgainWithNewDynamicFeeGas env cfg cid etx attempt fee newGasLimit w =
     pass_run (NewDynamicFeeAttempt env cfg cid etx (Some (TipCap fee)) (Some (FeeCap fee)) newGasLimit)
       (again_with etx attempt w) w"

definition tryAgainBumpingLegacyGas ::
    "'e env \<Rightarrow> TxmConfig \<Rightarrow> int \<Rightarrow> 'e round \<Rightarrow> EthTx \<Rightarrow> EthTxAttempt \<Rightarrow> txworld \<Rightarrow> 'e pass \<times> txworld" where
  "tryAgainBumpingLegacyGas env cfg cid r etx attempt w =
     (case GasPrice attempt of
        None \<Rightarrow> (Panicking ''nil gas price'', w)
      | Some price \<Rightarrow>
          (case BumpLegacyGas r price (GasLimit etx) (KeySpecificMaxGasPriceWei cfg (FromAddress etx)) of
             Inl e \<Rightarrow> (Finish (Some (GasErr e)) True, w)
           | Inr (bumpedGasPrice, bumpedGasLimit) \<Rightarrow>
               if bumpedGasPrice = price \<or> bumpedGasPrice \<ge> EvmMaxGasPriceWei cfg
               then (Finish (Some BumpCeiling) True, w)
               else tryAgainWithNewLegacyGas env cfg cid etx attempt bumpedGasPrice bumpedGasLimit w))"

definition tryAgainBumpingDynamicFeeGas ::
    "'e env \<Rightarrow> TxmConfig \<Rightarrow> int \<Rightarrow> 'e round \<Rightarrow> EthTx \<Rightarrow> EthTxAttempt \<Rightarrow> txworld \<Rightarrow> 'e pass \<times> txworld" where
  "tryAgainBumpingDynamicFeeGas env cfg cid r etx attempt w =
     (case (GasTipCap attempt, GasFeeCap attempt) of
        (Some tip, Some cap) \<Rightarrow>
          (case BumpDynamicFee r \<lparr>FeeCap = cap, TipCap = tip\<rparr> (GasLimit etx)
                  (KeySpecificMaxGasPriceWei cfg (FromAddress etx)) of
             Inl e \<Rightarrow> (Finish (Some (GasErr e)) True, w)
           | Inr (bumpedFee, bumpedGasLimit) \<Rightarrow>
               if TipCap bumpedFee = tip \<or> FeeCap bumpedFee = cap \<or> TipCap bumpedFee \<ge> EvmMaxGasPriceWei cfg
                  \<or> TipCap bumpedFee \<ge> EvmMaxGasPriceWei cfg
               then (Finish (Some BumpCeiling) True, w)
               else tryAgainWithNewDynamicFeeGas env cfg cid etx attempt bumpedFee bumpedGasLimit w)
      | _ \<Rightarrow> (Panicking ''nil fee'', w))"

definition tryAgainBumpingGas ::
    "'e env \<Rightarrow> TxmConfig \<Rightarrow> int \<Rightarrow> 'e round \<Rightarrow> EthTx \<Rightarrow> EthTxAttempt \<Rightarrow> txworld \<Rightarrow> 'e pass \<times> txworld" where
  "tryAgainBumpingGas env cfg cid r etx attempt w =
     (if TxType attempt = 0 then tryAgainBumpingLegacyGas env cfg cid r etx attempt w
      else if TxType attempt = 2 then tryAgainBumpingDynamicFeeGas env cfg cid r etx attempt w
      else (Finish (Some (InvariantViolation ''unrecognised transaction type'')) False, w))"

definition tryAgainWithNewEstimation ::
    "'e env \<Rightarrow> TxmConfig \<Rightarrow> int \<Rightarrow> 'e round \<Rightarrow> EthTx \<Rightarrow> EthTxAttempt \<Rightarrow> txworld \<Rightarrow> 'e pass \<times> txworld" where
  "tryAgainWithNewEstimation env cfg cid r etx attempt w =
     (if TxType attempt = 2
      then (Finish (Some (InvariantViolation ''re-estimation is not supported for EIP-1559 transactions'')) False, w)
      else
        (case GetLegacyGas r (EncodedPayload etx) (GasLimit etx) (KeySpecificMaxGasPriceWei cfg (FromAddress etx)) of
           Inl e \<Rightarrow> (Finish (Some (GasErr e)) True, w)
         | Inr (gasPrice, gasLimit) \<Rightarrow> tryAgainWithNewLegacyGas env cfg cid etx attempt gasPrice gasLimit w))"

section \<open>One pass over the transaction in progress\<close>

definition save_and_finish :: "keystore \<Rightarrow> int \<Rightarrow> EthTx \<Rightarrow> EthTxAttempt \<Rightarrow> txworld \<Rightarrow> 'e pass \<times> txworld" where
  "save_and_finish ks cid etx attempt w =
     (if Nonce etx = None then (Panicking ''nil nonce'', w)
      else (case saveAttempt ks cid etx attempt EthTxAttemptBroadcast w of (e, w1) \<Rightarrow> (Finish e True, w1)))"

text \<open>What follows the answer of the node. A cleared send error counts as success from there on.\<close>

definition pass_after_send ::
    "'e env \<Rightarrow> TxmConfig \<Rightarrow> keystore \<Rightarrow> int \<Rightarrow> int \<Rightarrow> 'e round \<Rightarrow> EthTx \<Rightarrow> EthTxAttempt \<Rightarrow> 'e SendError option
      \<Rightarrow> txworld \<Rightarrow> 'e pass \<times> txworld" where
  "pass_after_send env cfg ks cid initialBroadcastAt r etx0 attempt sendError0 w =
     (let etx = etx0\<lparr>InitialBroadcastAt := Some initialBroadcastAt, BroadcastAt := Some initialBroadcastAt\<rparr>;
          cause = Cause env;
          sendError =
            (if IsNonceTooLowError cause sendError0 \<or> IsTransactionAlreadyMined cause sendError0
                \<or> IsReplacementUnderpriced cause sendError0 then None else sendError0)
      in if IsTerminallyUnderpriced cause sendError then tryAgainBumpingGas env cfg cid r etx attempt w
         else if SendError_L2FeeTooLow cause sendError \<or> IsL2FeeTooHigh cause sendError \<or> IsL2Full cause sendError
         then (if ChainTypeIsL2 cfg then tryAgainWithNewEstimation env cfg cid r etx attempt w
               else (Finish (Some L2Only) False, w))
         else
           (let sendError1 = (if IsTemporarilyUnderpriced cause sendError then None else sendError)
            in if IsInsufficientEth cause sendError1 then (Finish (map_option SendErr sendError1) True, w)
               else
                 (case sendError1 of
                    None \<Rightarrow> save_and_finish ks cid etx attempt w
                  | Some se \<Rightarrow>
                      if IsTimeout env sendError1 then (Finish (Some (SendErr se)) True, w)
                      else
                        (case PendingNonceAt r of
                           None \<Rightarrow> (Finish (Some NodeErr) True, w)
                         | Some nextNonce \<Rightarrow>
                             if uint nextNonce > MaxInt64 then (Finish (Some NonceOverflow) True, w)
                             else
                               (case Nonce etx of
                                  None \<Rightarrow> (Panicking ''nil nonce'', w)
                                | Some nonce \<Rightarrow>
                                    if uint nextNonce > nonce then save_and_finish ks cid etx attempt w
                                    else (Finish (Some (SendErr se)) True, w))))))"

definition handle_pass ::
    "'e env \<Rightarrow> TxmConfig \<Rightarrow> keystore \<Rightarrow> int \<Rightarrow> int \<Rightarrow> ('e SendError \<Rightarrow> string) \<Rightarrow> 'e round \<Rightarrow> EthTx \<Rightarrow> EthTxAttempt
      \<Rightarrow> txworld \<Rightarrow> 'e pass \<times> txworld" where
  "handle_pass env cfg ks cid initialBroadcastAt errText r etx attempt w =
     (if TxState etx \<noteq> EthTxInProgress
      then (Finish (Some (InvariantViolation ''expected transaction to be in_progress'')) False, w)
      else
        (case GetChecker env etx of
           None \<Rightarrow> (Finish (Some (CheckerErr ''parsing transmit checker'')) False, w)
         | Some spec \<Rightarrow>
             (case BuildChecker env spec of
                Inl m \<Rightarrow> (Finish (Some (CheckerErr m)) False, w)
              | Inr checker \<Rightarrow>
                  pass_run (Check env r checker etx) (\<lambda>failed.
                    case failed of
                      Some m \<Rightarrow>
                        (case saveFatallyErroredTransaction env r (etx\<lparr>TxError := Some m\<rparr>) w of
                           (e, w1) \<Rightarrow> (Finish e True, w1))
                    | None \<Rightarrow>
                        (case sendTransaction env r attempt w of
                           (sendError, w1) \<Rightarrow>
                             if SendError_Fatal sendError
                             then (case saveFatallyErroredTransaction env r
                                          (etx\<lparr>TxError := map_option errText sendError\<rparr>) w1 of
                                     (e, w2) \<Rightarrow> (Finish e True, w2))
                             else pass_after_send env cfg ks cid initialBroadcastAt r etx attempt sendError w1)) w)))"

datatype 'e outcome =
    Returned "'e tx_error option" bool
  | Waiting
  | Panicked string

fun handleInProgressEthTx ::
    "'e env \<Rightarrow> TxmConfig \<Rightarrow> keystore \<Rightarrow> int \<Rightarrow> int \<Rightarrow> ('e SendError \<Rightarrow> string) \<Rightarrow> 'e round list \<Rightarrow> EthTx \<Rightarrow> EthTxAttempt
      \<Rightarrow> txworld \<Rightarrow> 'e outcome \<times> txworld" where
  "handleInProgressEthTx env cfg ks cid at errText [] etx attempt w = (Waiting, w)"
| "handleInProgressEthTx env cfg ks cid at errText (r # rs) etx attempt w =
     (case handle_pass env cfg ks cid at errText r etx attempt w of
        (Finish e retryable, w1) \<Rightarrow> (Returned e retryable, w1)
      | (Again etx1 attempt1, w1) \<Rightarrow> handleInProgressEthTx env cfg ks cid at errText rs etx1 attempt1 w1
      | (Panicking m, w1) \<Rightarrow> (Panicked m, w1))"

section \<open>The queue\<close>

text \<open>The query does not name the chain.\<close>

definition getInProgressEthTx ::
    "nat \<Rightarrow> txworld \<Rightarrow> ('e tx_error + (EthTx \<times> EthTxAttempt) option) \<times> txworld" where
  "getInProgressEthTx fromAddress w =
     (case Select (\<lambda>d. find (\<lambda>t. FromAddress t = fromAddress \<and> TxState t = EthTxInProgress) (eth_txes d)) w of
        (Inl e, w1) \<Rightarrow> (Inl (SqlErr e), w1)
      | (Inr None, w1) \<Rightarrow> (Inr None, w1)
      | (Inr (Some etx), w1) \<Rightarrow>
          (case Select (loadEthTxAttempts (TxID etx)) w1 of
             (Inl e, w2) \<Rightarrow> (Inl (SqlErr e), w2)
           | (Inr as, w2) \<Rightarrow>
               if length as \<noteq> 1 \<or> AttemptState (hd as) \<noteq> EthTxAttemptInProgress
               then (Inl (InvariantViolation ''expected exactly one unsent attempt''), w2)
               else (Inr (Some (etx, hd as)), w2)))"

definition handleAnyInProgressEthTx ::
    "'e env \<Rightarrow> TxmConfig \<Rightarrow> keystore \<Rightarrow> int \<Rightarrow> ('e SendError \<Rightarrow> string) \<Rightarrow> nat \<Rightarrow> 'e round list \<Rightarrow> txworld
      \<Rightarrow> 'e outcome \<times> txworld" where
  "handleAnyInProgressEthTx env cfg ks cid errText fromAddress rs w =
     (case getInProgressEthTx fromAddress w of
        (Inl e, w1) \<Rightarrow> (Returned (Some e) True, w1)
      | (Inr None, w1) \<Rightarrow> (Returned None False, w1)
      | (Inr (Some (etx, a)), w1) \<Rightarrow>
          (case handleInProgressEthTx env cfg ks cid (CreatedAt etx) errText rs etx a w1 of
             (Returned None retryable, w2) \<Rightarrow> (Returned None False, w2)
           | p \<Rightarrow> p))"

text \<open>\<open>ORDER BY value ASC, created_at ASC, id ASC\<close>.\<close>

definition queue_before :: "EthTx \<Rightarrow> EthTx \<Rightarrow> bool" where
  "queue_before t u \<longleftrightarrow>
     Value t < Value u
     \<or> Value t = Value u \<and> (CreatedAt t < CreatedAt u \<or> CreatedAt t = CreatedAt u \<and> TxID t \<le> TxID u)"

definition with_state :: "EthTxState \<Rightarrow> nat \<Rightarrow> int \<Rightarrow> txdb \<Rightarrow> EthTx list" where
  "with_state st fromAddress cid d =
     filter (\<lambda>t. FromAddress t = fromAddress \<and> TxState t = st \<and> TxChainID t = cid) (eth_txes d)"

definition findNextUnstartedTransactionFromAddress :: "nat \<Rightarrow> int \<Rightarrow> txdb \<Rightarrow> EthTx option" where
  "findNextUnstartedTransactionFromAddress fromAddress cid d =
     (case sort_by queue_before (with_state EthTxUnstarted fromAddress cid d) of [] \<Rightarrow> None | t # ts \<Rightarrow> Some t)"

definition countTransactionsWithState :: "nat \<Rightarrow> EthTxState \<Rightarrow> int \<Rightarrow> txdb \<Rightarrow> nat" where
  "countTransactionsWithState fromAddress st cid d = length (with_state st fromAddress cid d)"

definition nextUnstartedTransactionWithNonce ::
    "keystore \<Rightarrow> int \<Rightarrow> nat \<Rightarrow> txworld \<Rightarrow> ('e tx_error + EthTx option) \<times> txworld" where
  "nextUnstartedTransactionWithNonce ks cid fromAddress w =
     (case Select (findNextUnstartedTransactionFromAddress fromAddress cid) w of
        (Inl e, w1) \<Rightarrow> (Inl (SqlErr e), w1)
      | (Inr None, w1) \<Rightarrow> (Inr None, w1)
      | (Inr (Some etx), w1) \<Rightarrow>
          (case GetNextNonce ks (FromAddress etx) cid w1 of
             (Inl e, w2) \<Rightarrow> (Inl e, w2)
           | (Inr nonce, w2) \<Rightarrow> (Inr (Some (etx\<lparr>Nonce := Some nonce\<rparr>)), w2)))"

text \<open>What one turn of the loop meets: the estimator, the clock, and the rounds of the sending.\<close>

record 'e queue_turn =
  GetDynamicFee :: "32 word \<Rightarrow> int \<Rightarrow> gas_error + DynamicFee \<times> 32 word"
  EstimateLegacyGas :: "8 word list \<Rightarrow> 32 word \<Rightarrow> int \<Rightarrow> gas_error + int \<times> 32 word"
  Clock :: int
  Rounds :: "'e round list"

definition first_attempt ::
    "'e env \<Rightarrow> TxmConfig \<Rightarrow> int \<Rightarrow> 'e queue_turn \<Rightarrow> EthTx \<Rightarrow> ('e tx_error + EthTxAttempt) run" where
  "first_attempt env cfg cid q etx =
     (if EvmEIP1559DynamicFees cfg
      then (case GetDynamicFee q (GasLimit etx) (KeySpecificMaxGasPriceWei cfg (FromAddress etx)) of
              Inl e \<Rightarrow> Ret (Inl (GasErr e))
            | Inr (fee, gasLimit) \<Rightarrow>
                NewDynamicFeeAttempt env cfg cid etx (Some (TipCap fee)) (Some (FeeCap fee)) gasLimit)
      else (case EstimateLegacyGas q (EncodedPayload etx) (GasLimit etx)
                   (KeySpecificMaxGasPriceWei cfg (FromAddress etx)) of
              Inl e \<Rightarrow> Ret (Inl (GasErr e))
            | Inr (gasPrice, gasLimit) \<Rightarrow> NewLegacyAttempt env cfg cid etx (Some gasPrice) gasLimit))"

text \<open>The end of a turn: the call returns, or the loop goes on.\<close>

datatype 'e turn_end = Stop "'e outcome" | Next

definition in_flight_check ::
    "TxmConfig \<Rightarrow> int \<Rightarrow> nat \<Rightarrow> txworld \<Rightarrow> ('e tx_error + bool) \<times> txworld" where
  "in_flight_check cfg cid fromAddress w =
     (if EvmMaxInFlightTransactions cfg = 0 then (Inr True, w)
      else
        (case Select (countTransactionsWithState fromAddress EthTxUnconfirmed cid) w of
           (Inl e, w1) \<Rightarrow> (Inl (SqlErr e), w1)
         | (Inr nUnconfirmed, w1) \<Rightarrow>
             if nUnconfirmed \<ge> EvmMaxInFlightTransactions cfg
             then (case Select (countTransactionsWithState fromAddress EthTxUnstarted cid) w1 of
                     (Inl e, w2) \<Rightarrow> (Inl (SqlErr e), w2)
                   | (Inr nUnstarted, w2) \<Rightarrow> (Inr False, w2))
             else (Inr True, w1)))"

definition queue_step ::
    "'e env \<Rightarrow> TxmConfig \<Rightarrow> keystore \<Rightarrow> int \<Rightarrow> ('e SendError \<Rightarrow> string) \<Rightarrow> nat \<Rightarrow> 'e queue_turn \<Rightarrow> txworld
      \<Rightarrow> 'e turn_end \<times> txworld" where
  "queue_step env cfg ks cid errText fromAddress q w =
     (case in_flight_check cfg cid fromAddress w of
        (Inl e, w1) \<Rightarrow> (Stop (Returned (Some e) True), w1)
      | (Inr False, w1) \<Rightarrow> (Next, w1)
      | (Inr True, w1) \<Rightarrow>
          (case nextUnstartedTransactionWithNonce ks cid fromAddress w1 of
             (Inl e, w2) \<Rightarrow> (Stop (Returned (Some e) True), w2)
           | (Inr None, w2) \<Rightarrow> (Stop (Returned None False), w2)
           | (Inr (Some etx), w2) \<Rightarrow>
               (case first_attempt env cfg cid q etx of
                  Panic m \<Rightarrow> (Stop (Panicked m), w2)
                | Ret (Inl e) \<Rightarrow> (Stop (Returned (Some e) True), w2)
                | Ret (Inr a) \<Rightarrow>
                    (case saveInProgressTransaction etx a w2 of
                       (Inl ErrEthTxRemoved, w3) \<Rightarrow> (Next, w3)
                     | (Inl e, w3) \<Rightarrow> (Stop (Returned (Some e) True), w3)
                     | (Inr (etx1, a1), w3) \<Rightarrow>
                         (case handleInProgressEthTx env cfg ks cid (Clock q) errText (Rounds q) etx1 a1 w3 of
                            (Returned None retryable, w4) \<Rightarrow> (Next, w4)
                          | (out, w4) \<Rightarrow> (Stop out, w4))))))"

fun queue_loop ::
    "'e env \<Rightarrow> TxmConfig \<Rightarrow> keystore \<Rightarrow> int \<Rightarrow> ('e SendError \<Rightarrow> string) \<Rightarrow> nat \<Rightarrow> 'e queue_turn list \<Rightarrow> txworld
      \<Rightarrow> 'e outcome \<times> txworld" where
  "queue_loop env cfg ks cid errText fromAddress [] w = (Waiting, w)"
| "queue_loop env cfg ks cid errText fromAddress (q # qs) w =
     (case queue_step env cfg ks cid errText fromAddress q w of
        (Stop out, w1) \<Rightarrow> (out, w1)
      | (Next, w1) \<Rightarrow> queue_loop env cfg ks cid errText fromAddress qs w1)"

definition processUnstartedEthTxs ::
    "'e env \<Rightarrow> TxmConfig \<Rightarrow> keystore \<Rightarrow> int \<Rightarrow> ('e SendError \<Rightarrow> string) \<Rightarrow> nat \<Rightarrow> 'e round list \<Rightarrow> 'e queue_turn list
      \<Rightarrow> txworld \<Rightarrow> 'e outcome \<times> txworld" where
  "processUnstartedEthTxs env cfg ks cid errText fromAddress rs qs w =
     (case handleAnyInProgressEthTx env cfg ks cid errText fromAddress rs w of
        (Returned None retryable, w1) \<Rightarrow> queue_loop env cfg ks cid errText fromAddress qs w1
      | p \<Rightarrow> p)"

end
