(* ===== verification/TxNonces.thy ===== *)
theory TxNonces
  imports TxBroadcaster
begin

text \<open>
  The nonces of one key on one chain. The invariant of the tables a broadcaster relies on, what the
  others may change beside it, and the proof that every call keeps the invariant: transactions that
  have left the queue have nonces below the key's next nonce, the one in progress has exactly the next
  nonce and one attempt, and what is handed to the node carries that nonce at a price within bounds.
\<close>

section \<open>The invariant\<close>

definition key_nonce :: "nat \<Rightarrow> int \<Rightarrow> txdb \<Rightarrow> int" where
  "key_nonce a c d = (case find_key a c d of None \<Rightarrow> 0 | Some k \<Rightarrow> NextNonce k)"

definition in_progress_of :: "nat \<Rightarrow> txdb \<Rightarrow> EthTx list" where
  "in_progress_of a d = filter (\<lambda>t. FromAddress t = a \<and> TxState t = EthTxInProgress) (eth_txes d)"

definition attempts_of :: "nat \<Rightarrow> txdb \<Rightarrow> EthTxAttempt list" where
  "attempts_of i d = filter (\<lambda>x. EthTxID x = i) (eth_tx_attempts d)"

text \<open>An attempt that waits to be sent: it decodes to a transaction with the row's nonce and a price within the maximum.\<close>

definition attempt_ok :: "'e env \<Rightarrow> TxmConfig \<Rightarrow> EthTx \<Rightarrow> EthTxAttempt \<Rightarrow> bool" where
  "attempt_ok env cfg t x \<longleftrightarrow>
     AttemptState x = EthTxAttemptInProgress \<and> EthTxID x = TxID t
     \<and> (\<exists>tx. DecodeRLP env (SignedRawTx x) = Inr tx \<and> Nonce t \<noteq> None \<and> tx_nonce tx = word_of_int (the (Nonce t))
          \<and> tx_max_price tx \<le> KeySpecificMaxGasPriceWei cfg (FromAddress t))"

definition ids_ok :: "txdb \<Rightarrow> bool" where
  "ids_ok d \<longleftrightarrow>
     0 < eth_tx_attempts_id_seq d \<and> (\<forall>x\<in>set (eth_tx_attempts d). 0 < AttemptID x)
     \<and> (\<forall>t\<in>set (eth_txes d). TxID t < eth_txes_id_seq d)"

definition nonce_ok :: "int \<Rightarrow> EthTx \<Rightarrow> bool" where
  "nonce_ok N t \<longleftrightarrow>
     (case Nonce t of None \<Rightarrow> True | Some n \<Rightarrow> if TxState t = EthTxInProgress then n = N else n < N)"

definition nonces_ok :: "nat \<Rightarrow> int \<Rightarrow> txdb \<Rightarrow> bool" where
  "nonces_ok a c d \<longleftrightarrow>
     (\<forall>t\<in>set (eth_txes d). FromAddress t = a \<and> TxChainID t = c \<longrightarrow> nonce_ok (key_nonce a c d) t)"

definition sending_ok :: "'e env \<Rightarrow> TxmConfig \<Rightarrow> nat \<Rightarrow> int \<Rightarrow> txdb \<Rightarrow> bool" where
  "sending_ok env cfg a c d \<longleftrightarrow>
     (\<forall>t\<in>set (in_progress_of a d). TxChainID t = c \<and> (\<exists>x. attempts_of (TxID t) d = [x] \<and> attempt_ok env cfg t x))"

definition queue_ok :: "nat \<Rightarrow> int \<Rightarrow> txdb \<Rightarrow> bool" where
  "queue_ok a c d \<longleftrightarrow>
     (\<forall>t\<in>set (eth_txes d). FromAddress t = a \<and> TxChainID t = c \<and> TxState t = EthTxUnstarted
        \<longrightarrow> attempts_of (TxID t) d = [])"

definition eb_inv :: "'e env \<Rightarrow> TxmConfig \<Rightarrow> nat \<Rightarrow> int \<Rightarrow> txdb \<Rightarrow> bool" where
  "eb_inv env cfg a c d \<longleftrightarrow>
     tables_ok d \<and> ids_ok d \<and> nonces_ok a c d \<and> sending_ok env cfg a c d \<and> queue_ok a c d"

text \<open>
  What the others leave alone: the key's nonce, the address's transaction in progress and its attempts,
  and the rows of the key's queue, which may be removed but not changed. Numbers are not used twice.
\<close>

definition eb_frame :: "nat \<Rightarrow> int \<Rightarrow> txdb \<Rightarrow> txdb \<Rightarrow> bool" where
  "eb_frame a c d d' \<longleftrightarrow>
     key_nonce a c d' = key_nonce a c d
     \<and> in_progress_of a d' = in_progress_of a d
     \<and> (\<forall>t\<in>set (in_progress_of a d). attempts_of (TxID t) d' = attempts_of (TxID t) d)
     \<and> eth_txes_id_seq d \<le> eth_txes_id_seq d'
     \<and> (\<forall>t'\<in>set (eth_txes d'). TxID t' < eth_txes_id_seq d \<longrightarrow>
          (\<exists>t\<in>set (eth_txes d). TxID t = TxID t'
             \<and> (FromAddress t = a \<and> TxChainID t = c \<and> TxState t = EthTxUnstarted \<longrightarrow> t' = t)))"

interpretation eb: table_user "eb_inv env cfg a c" "eb_frame a c" for env cfg a c
  by unfold_locales (auto simp: eb_frame_def)

abbreviation eb_stable :: "'e env \<Rightarrow> TxmConfig \<Rightarrow> nat \<Rightarrow> int \<Rightarrow> (txdb \<Rightarrow> bool) \<Rightarrow> bool" where
  "eb_stable env cfg a c \<equiv> table_user.stable (eb_inv env cfg a c) (eb_frame a c)"

abbreviation eb_guarded :: "'e env \<Rightarrow> TxmConfig \<Rightarrow> nat \<Rightarrow> int \<Rightarrow> txworld \<Rightarrow> bool" where
  "eb_guarded env cfg a c \<equiv> table_user.guarded (eb_inv env cfg a c) (eb_frame a c)"

section \<open>A transaction leaves its slot\<close>

lemma attempts_of_mem: "x \<in> set (attempts_of i d) \<longleftrightarrow> x \<in> set (eth_tx_attempts d) \<and> EthTxID x = i"
  by (auto simp: attempts_of_def)

lemma attempts_of_update: "attempts_of i (update_txes P f d) = attempts_of i d"
  by (simp add: attempts_of_def update_txes_def)

lemma in_progress_unique:
  assumes "tables_ok d" "sending_ok env cfg a c d" "t \<in> set (in_progress_of a d)" "u \<in> set (in_progress_of a d)"
  shows "t = u"
proof -
  have "TxChainID t = c" "TxChainID u = c" using assms(2-4) by (auto simp: sending_ok_def)
  then show ?thesis using assms(3,4) tables_ok_unique(2) [OF assms(1)] by (auto simp: in_progress_of_def)
qed

text \<open>The transaction in progress becomes one that is neither in progress nor queued, and either keeps its
  nonce, which is then used up, or loses it.\<close>

lemma retire_keeps_inv:
  assumes I: "eb_inv env cfg a c d" and cur: "cur \<in> set (in_progress_of a d)"
    and txes: "eth_txes d' = update_where (\<lambda>t. TxID t = TxID cur) f (eth_txes d)"
    and f: "TxID (f cur) = TxID cur" "FromAddress (f cur) = FromAddress cur" "TxChainID (f cur) = TxChainID cur"
      "TxState (f cur) \<noteq> EthTxInProgress" "TxState (f cur) \<noteq> EthTxUnstarted"
    and ok: "tables_ok d'"
    and atts: "\<And>i. i \<noteq> TxID cur \<Longrightarrow> attempts_of i d' = attempts_of i d"
      "\<And>x. x \<in> set (eth_tx_attempts d') \<Longrightarrow> 0 < AttemptID x"
    and seqs: "eth_tx_attempts_id_seq d' = eth_tx_attempts_id_seq d" "eth_txes_id_seq d' = eth_txes_id_seq d"
    and nonce: "key_nonce a c d \<le> key_nonce a c d'"
      "\<And>n. Nonce (f cur) = Some n \<Longrightarrow> n < key_nonce a c d'"
  shows "eb_inv env cfg a c d' \<and> in_progress_of a d' = []"
proof -
  have parts: "tables_ok d" "ids_ok d" "nonces_ok a c d" "sending_ok env cfg a c d" "queue_ok a c d"
    using I by (simp_all add: eb_inv_def)
  have mem: "cur \<in> set (eth_txes d)" and st: "TxState cur = EthTxInProgress" and fa: "FromAddress cur = a"
    using cur by (simp_all add: in_progress_of_def)
  have row: "t \<in> set (eth_txes d) \<Longrightarrow> TxID t = TxID cur \<Longrightarrow> t = cur" for t
    using tables_ok_unique(1) [OF parts(1)] mem by blast
  have set': "set (eth_txes d') \<subseteq> insert (f cur) {t \<in> set (eth_txes d). TxID t \<noteq> TxID cur}"
    unfolding txes set_update_where using row by auto
  have none: "in_progress_of a d' = []"
  proof -
    have "t \<notin> set (in_progress_of a d')" for t
    proof
      assume "t \<in> set (in_progress_of a d')"
      then have t: "t \<in> set (eth_txes d')" "FromAddress t = a" "TxState t = EthTxInProgress"
        by (simp_all add: in_progress_of_def)
      then have "t \<in> set (in_progress_of a d)" "TxID t \<noteq> TxID cur"
        using set' f by (auto simp: in_progress_of_def)
      then show False using in_progress_unique [OF parts(1,4) _ cur] by blast
    qed
    then show ?thesis by (cases "in_progress_of a d'") auto
  qed
  have "ids_ok d'"
    using parts(2) set' f atts(2) seqs mem unfolding ids_ok_def by fastforce
  moreover have "nonces_ok a c d'"
  proof -
    have "nonce_ok (key_nonce a c d') t" if t: "t \<in> set (eth_txes d')" "FromAddress t = a" "TxChainID t = c" for t
    proof (cases "t = f cur")
      case True
      then show ?thesis using f nonce(2) by (auto simp: nonce_ok_def split: option.splits)
    next
      case False
      then have u: "t \<in> set (eth_txes d)" "TxID t \<noteq> TxID cur" using set' t by auto
      have "TxState t \<noteq> EthTxInProgress"
        using u t in_progress_unique [OF parts(1,4) _ cur, of t] by (auto simp: in_progress_of_def)
      moreover have "nonce_ok (key_nonce a c d) t" using parts(3) u t by (simp add: nonces_ok_def)
      ultimately show ?thesis using nonce(1) by (auto simp: nonce_ok_def split: option.splits)
    qed
    then show ?thesis by (simp add: nonces_ok_def)
  qed
  moreover have "queue_ok a c d'"
    unfolding queue_ok_def
  proof (intro ballI impI)
    fix t assume t: "t \<in> set (eth_txes d')" "FromAddress t = a \<and> TxChainID t = c \<and> TxState t = EthTxUnstarted"
    then have u: "t \<in> set (eth_txes d)" "TxID t \<noteq> TxID cur" using set' f(5) by auto
    then have "attempts_of (TxID t) d = []" using parts(5) t(2) by (simp add: queue_ok_def)
    then show "attempts_of (TxID t) d' = []" using atts(1) u(2) by simp
  qed
  ultimately show ?thesis using ok none by (simp add: eb_inv_def sending_ok_def)
qed

lemma key_nonce_cong: "evm_key_states d' = evm_key_states d \<Longrightarrow> key_nonce a c d' = key_nonce a c d"
  by (simp add: key_nonce_def find_key_def)

lemma find_key_update:
  assumes "\<And>k. KeyAddress (f k) = KeyAddress k \<and> KeyChainID (f k) = KeyChainID k"
  shows "find (\<lambda>k. KeyAddress k = a \<and> KeyChainID k = c) (update_where P f ks) =
    map_option (\<lambda>k. if P k then f k else k) (find (\<lambda>k. KeyAddress k = a \<and> KeyChainID k = c) ks)"
  using assms by (induction ks) (auto simp: update_where_def)

lemma find_key_unique:
  assumes "tables_ok d" "k \<in> set (evm_key_states d)"
  shows "find_key (KeyAddress k) (KeyChainID k) d = Some k"
proof -
  obtain k' where k': "find_key (KeyAddress k) (KeyChainID k) d = Some k'"
    using assms(2) unfolding find_key_def by (metis (mono_tags, lifting) find_None_iff2 option.exhaust)
  then have "k' \<in> set (evm_key_states d)" "KeyAddress k' = KeyAddress k" "KeyChainID k' = KeyChainID k"
    by (auto simp: find_key_def find_Some_iff)
  moreover have "unique_rows (\<lambda>k. True) (\<lambda>k. (KeyChainID k, KeyAddress k)) (evm_key_states d)"
    using assms(1) by (simp add: tables_ok_def schema_ok_def evm_key_states_ok_def)
  ultimately have "k' = k" using unique_rowsD assms(2) by fastforce
  then show ?thesis using k' by simp
qed

lemma incrementNextNonce_Inr:
  assumes "tables_ok d" "orm_incrementNextNonce a c cur d = Inr (n, d')"
  shows "key_nonce a c d = cur" "key_nonce a c d' = cur + 1" "tables_ok d'"
    "\<exists>ks. d' = d\<lparr>evm_key_states := ks\<rparr>" "(a', c') \<noteq> (a, c) \<Longrightarrow> key_nonce a' c' d' = key_nonce a' c' d"
proof -
  define hit where
    "hit = (\<lambda>k :: KeyState. KeyAddress k = a \<and> NextNonce k = cur \<and> KeyChainID k = c \<and> \<not> Disabled k)"
  define bump where "bump = (\<lambda>k :: KeyState. k\<lparr>NextNonce := NextNonce k + 1\<rparr>)"
  have ex: "list_ex hit (evm_key_states d)" and ok: "tables_ok d'"
    and d': "d' = d\<lparr>evm_key_states := update_where hit bump (evm_key_states d)\<rparr>"
    using assms(2) by (auto simp: orm_incrementNextNonce_def Let_def try_bind_Inr checked_Inr hit_def bump_def
        split: if_splits)
  have bump_fields: "KeyAddress (bump k) = KeyAddress k \<and> KeyChainID (bump k) = KeyChainID k" for k
    by (simp add: bump_def)
  obtain k where k: "k \<in> set (evm_key_states d)" "hit k" using ex by (auto simp: list_ex_iff)
  have key: "find_key a c d = Some k" using find_key_unique [OF assms(1) k(1)] k(2) by (simp add: hit_def)
  have upd: "find_key x y d' = map_option (\<lambda>k. if hit k then bump k else k) (find_key x y d)" for x y
    unfolding find_key_def d' by (simp add: find_key_update bump_fields)
  show "key_nonce a c d = cur" using key k(2) by (simp add: key_nonce_def hit_def)
  show "key_nonce a c d' = cur + 1" using upd [of a c] key k(2) by (simp add: key_nonce_def hit_def bump_def)
  show "tables_ok d'" by (rule ok)
  show "\<exists>ks. d' = d\<lparr>evm_key_states := ks\<rparr>" using d' by blast
  show "key_nonce a' c' d' = key_nonce a' c' d" if "(a', c') \<noteq> (a, c)"
  proof (cases "find_key a' c' d")
    case (Some k')
    then have "\<not> hit k'" using that by (auto simp: hit_def find_key_def find_Some_iff)
    then show ?thesis using upd [of a' c'] Some by (simp add: key_nonce_def)
  qed (simp add: upd [of a' c'] key_nonce_def)
qed

text \<open>The row of a transaction in memory whose broadcast times and error are not saved yet.\<close>

definition row_of :: "EthTx \<Rightarrow> EthTx" where
  "row_of etx = etx\<lparr>TxError := None, BroadcastAt := None, InitialBroadcastAt := None\<rparr>"

definition sending :: "nat \<Rightarrow> EthTx \<Rightarrow> EthTxAttempt \<Rightarrow> txdb \<Rightarrow> bool" where
  "sending a etx x d \<longleftrightarrow> row_of etx \<in> set (in_progress_of a d) \<and> attempts_of (TxID etx) d = [x]"

lemma row_of_simps [simp]:
  "TxID (row_of etx) = TxID etx" "Nonce (row_of etx) = Nonce etx" "TxState (row_of etx) = TxState etx"
  "FromAddress (row_of etx) = FromAddress etx" "TxChainID (row_of etx) = TxChainID etx"
  by (simp_all add: row_of_def)

lemma sending_stable: "eb_stable env cfg a c (sending a etx x)"
  unfolding eb.stable_def sending_def eb_frame_def by fastforce

lemma row_in_progress:
  assumes "tables_ok d" "t \<in> set (in_progress_of a d)"
  shows "row_of t = t"
proof -
  have "eth_tx_ok t" using tables_ok_unique(4) [OF assms(1)] assms(2) by (simp add: in_progress_of_def)
  then show ?thesis
    using assms(2) by (simp add: in_progress_of_def eth_tx_ok_def chk_eth_txes_fsm_def row_of_def)
qed

lemma sendingD:
  assumes "eb_inv env cfg a c d" "sending a etx x d"
  shows "FromAddress etx = a" "TxChainID etx = c" "TxState etx = EthTxInProgress"
    "attempt_ok env cfg etx x" "Nonce etx = Some (key_nonce a c d)" "AttemptID x > 0"
proof -
  have t: "row_of etx \<in> set (eth_txes d)" "FromAddress etx = a" "TxState etx = EthTxInProgress"
    and x: "attempts_of (TxID etx) d = [x]"
    using assms(2) by (simp_all add: sending_def in_progress_of_def)
  have s: "TxChainID etx = c" "attempt_ok env cfg (row_of etx) x"
    using assms x by (auto simp: eb_inv_def sending_ok_def sending_def)
  have "Nonce (row_of etx) \<noteq> None"
    using s(2) by (auto simp: attempt_ok_def)
  then show "Nonce etx = Some (key_nonce a c d)"
    using assms(1) t s(1) by (fastforce simp: eb_inv_def nonces_ok_def nonce_ok_def split: option.splits)
  show "FromAddress etx = a" "TxState etx = EthTxInProgress" "TxChainID etx = c" using t s by simp_all
  show "attempt_ok env cfg etx x" using s(2) by (simp add: attempt_ok_def)
  have "x \<in> set (eth_tx_attempts d)" using x attempts_of_mem [of x "TxID etx" d] by simp
  then show "AttemptID x > 0" using assms(1) by (simp add: eb_inv_def ids_ok_def)
qed

lemma update_tx_returning_Inr:
  "update_tx_returning i f d = Inr (row, d') \<longleftrightarrow>
     (\<exists>t. find_tx i d = Some t \<and> row = f t \<and> d' = update_txes (\<lambda>t. TxID t = i) f d \<and> tables_ok d')"
  unfolding update_tx_returning_def
  by (cases "find_tx i d") (auto simp: try_bind_Inr checked_Inr)

lemma update_attempt_returning_Inr:
  "update_attempt_returning i f d = Inr (row, d') \<longleftrightarrow>
     (\<exists>x. find (\<lambda>x. AttemptID x = i) (eth_tx_attempts d) = Some x \<and> row = f x
        \<and> d' = update_attempts (\<lambda>x. AttemptID x = i) f d \<and> tables_ok d')"
  unfolding update_attempt_returning_def
  by (cases "find (\<lambda>x. AttemptID x = i) (eth_tx_attempts d)") (auto simp: try_bind_Inr checked_Inr)

text \<open>\<open>saveFatallyErroredTransaction\<close>: the slot is free and the nonce is not used up.\<close>

lemma fatal_body:
  assumes "eb_inv env cfg a c d" "sending a etx x d"
    and "update_tx_returning (TxID etx)
           (\<lambda>t. t\<lparr>TxState := EthTxFatalError, TxError := e, BroadcastAt := None, InitialBroadcastAt := None, Nonce := None\<rparr>)
           (delete_attempts (\<lambda>x. EthTxID x = TxID etx) d) = Inr (row, d')"
  shows "eb_inv env cfg a c d' \<and> in_progress_of a d' = [] \<and> key_nonce a c d' = key_nonce a c d"
proof -
  define f where "f = (\<lambda>t. t\<lparr>TxState := EthTxFatalError, TxError := e, BroadcastAt := None,
    InitialBroadcastAt := None, Nonce := None\<rparr> :: EthTx)"
  have d': "d' = update_txes (\<lambda>t. TxID t = TxID etx) f (delete_attempts (\<lambda>x. EthTxID x = TxID etx) d)"
    and ok: "tables_ok d'"
    using assms(3) by (auto simp: update_tx_returning_Inr f_def)
  have key: "key_nonce a c d' = key_nonce a c d"
    by (rule key_nonce_cong) (simp add: d' update_txes_def delete_attempts_def)
  have "eb_inv env cfg a c d' \<and> in_progress_of a d' = []"
  proof (rule retire_keeps_inv [OF assms(1), where cur = "row_of etx" and f = f])
    show "row_of etx \<in> set (in_progress_of a d)" using assms(2) by (simp add: sending_def)
    show "eth_txes d' = update_where (\<lambda>t. TxID t = TxID (row_of etx)) f (eth_txes d)"
      by (simp add: d' update_txes_def delete_attempts_def)
    show "attempts_of i d' = attempts_of i d" if "i \<noteq> TxID (row_of etx)" for i
      using that by (auto simp: d' attempts_of_def update_txes_def delete_attempts_def intro!: filter_cong)
    show "0 < AttemptID y" if "y \<in> set (eth_tx_attempts d')" for y
      using that assms(1) by (simp add: d' update_txes_def delete_attempts_def eb_inv_def ids_ok_def)
  qed (simp_all add: f_def ok key, simp_all add: d' update_txes_def delete_attempts_def)
  then show ?thesis using key by simp
qed

text \<open>\<open>saveAttempt\<close>: the slot is free, the transaction has the next nonce, and the nonce is used up.\<close>

lemma saved_body:
  assumes "eb_inv env cfg a c d" "sending a etx x d"
    and "try_bind (IncrementNextNonce ks (FromAddress etx) c (the (Nonce etx)) d) (\<lambda>d1.
           try_bind (update_tx_returning (TxID etx)
               (\<lambda>t. t\<lparr>TxState := EthTxUnconfirmed, TxError := e, BroadcastAt := b, InitialBroadcastAt := ib\<rparr>) d1)
             (\<lambda>(row, d2). update_attempt_returning (AttemptID x) (\<lambda>y. y\<lparr>AttemptState := st\<rparr>) d2)) = Inr (y, d')"
  shows "eb_inv env cfg a c d' \<and> in_progress_of a d' = [] \<and> key_nonce a c d' = key_nonce a c d + 1"
proof -
  define f where "f = (\<lambda>t. t\<lparr>TxState := EthTxUnconfirmed, TxError := e, BroadcastAt := b, InitialBroadcastAt := ib\<rparr> :: EthTx)"
  define N where "N = key_nonce a c d"
  have parts: "tables_ok d" "ids_ok d" using assms(1) by (simp_all add: eb_inv_def)
  have fa: "FromAddress etx = a" and nn: "Nonce etx = Some N" using sendingD [OF assms(1,2)] by (simp_all add: N_def)
  obtain d1 where inc: "IncrementNextNonce ks a c N d = Inr d1"
    and rest: "try_bind (update_tx_returning (TxID etx) f d1)
      (\<lambda>(row, d2). update_attempt_returning (AttemptID x) (\<lambda>y. y\<lparr>AttemptState := st\<rparr>) d2) = Inr (y, d')"
    using assms(3) fa nn by (auto simp: try_bind_Inr f_def)
  obtain n where "orm_incrementNextNonce a c N d = Inr (n, d1)"
    using inc by (auto simp: IncrementNextNonce_def try_bind_Inr split: if_splits)
  note i = incrementNextNonce_Inr [OF parts(1) this]
  obtain kst where d1: "d1 = d\<lparr>evm_key_states := kst\<rparr>" using i(4) by blast
  obtain row d2 where u: "update_tx_returning (TxID etx) f d1 = Inr (row, d2)"
    and v: "update_attempt_returning (AttemptID x) (\<lambda>y. y\<lparr>AttemptState := st\<rparr>) d2 = Inr (y, d')"
    using rest by (auto simp: try_bind_Inr)
  have d2: "d2 = update_txes (\<lambda>t. TxID t = TxID etx) f d1" using u by (auto simp: update_tx_returning_Inr)
  have d': "d' = update_attempts (\<lambda>z. AttemptID z = AttemptID x) (\<lambda>y. y\<lparr>AttemptState := st\<rparr>) d2" and ok: "tables_ok d'"
    using v by (auto simp: update_attempt_returning_Inr)
  have key: "key_nonce a c d' = N + 1"
    using i(2) key_nonce_cong [of d' d1] by (simp add: d' d2 update_attempts_def update_txes_def)
  have x: "x \<in> set (eth_tx_attempts d)" "EthTxID x = TxID etx"
    using assms(2) attempts_of_mem [of x "TxID etx" d] by (simp_all add: sending_def)
  have upd: "eth_tx_attempts d' = update_where (\<lambda>z. AttemptID z = AttemptID x) (\<lambda>y. y\<lparr>AttemptState := st\<rparr>) (eth_tx_attempts d)"
    by (simp add: d' d2 d1 update_attempts_def update_txes_def)
  have "eb_inv env cfg a c d' \<and> in_progress_of a d' = []"
  proof (rule retire_keeps_inv [OF assms(1), where cur = "row_of etx" and f = f])
    show "row_of etx \<in> set (in_progress_of a d)" using assms(2) by (simp add: sending_def)
    show "eth_txes d' = update_where (\<lambda>t. TxID t = TxID (row_of etx)) f (eth_txes d)"
      by (simp add: d' d2 d1 update_txes_def update_attempts_def)
    show "attempts_of i d' = attempts_of i d" if ne: "i \<noteq> TxID (row_of etx)" for i
    proof -
      have "filter (\<lambda>z. EthTxID z = i) (eth_tx_attempts d') =
          update_where (\<lambda>z. AttemptID z = AttemptID x) (\<lambda>y. y\<lparr>AttemptState := st\<rparr>)
            (filter (\<lambda>z. EthTxID z = i) (eth_tx_attempts d))"
        unfolding upd by (rule update_where_filter) simp
      also have "... = filter (\<lambda>z. EthTxID z = i) (eth_tx_attempts d)"
      proof (rule update_where_none)
        fix z assume "z \<in> set (filter (\<lambda>z. EthTxID z = i) (eth_tx_attempts d))"
        then show "AttemptID z \<noteq> AttemptID x"
          using tables_ok_unique(3) [OF parts(1), of z x] x ne by auto
      qed
      finally show ?thesis by (simp add: attempts_of_def)
    qed
    show "0 < AttemptID z" if "z \<in> set (eth_tx_attempts d')" for z
      using that parts(2) unfolding upd set_update_where ids_ok_def by auto
  qed (simp_all add: f_def ok key nn N_def [symmetric], simp_all add: d' d2 d1 update_txes_def update_attempts_def)
  then show ?thesis using key by (simp add: N_def)
qed

section \<open>A transaction takes the slot\<close>

text \<open>A transaction read from the queue and given the next nonce: its row, if it is still there, has not changed.\<close>

definition queued :: "nat \<Rightarrow> int \<Rightarrow> EthTx \<Rightarrow> txdb \<Rightarrow> bool" where
  "queued a c etx d \<longleftrightarrow>
     in_progress_of a d = [] \<and> Nonce etx = Some (key_nonce a c d)
     \<and> FromAddress etx = a \<and> TxChainID etx = c \<and> TxState etx = EthTxUnstarted \<and> row_of etx = etx
     \<and> TxID etx < eth_txes_id_seq d
     \<and> (\<forall>t\<in>set (eth_txes d). TxID t = TxID etx \<longrightarrow> t = etx\<lparr>Nonce := None\<rparr>)"

lemma queued_stable: "eb_stable env cfg a c (queued a c etx)"
  unfolding eb.stable_def
proof (intro allI impI)
  fix d d' assume fr: "eb_frame a c d d'" and q: "queued a c etx d"
  have "t' = etx\<lparr>Nonce := None\<rparr>" if t': "t' \<in> set (eth_txes d')" "TxID t' = TxID etx" for t'
  proof -
    obtain t where t: "t \<in> set (eth_txes d)" "TxID t = TxID t'"
      and same: "FromAddress t = a \<and> TxChainID t = c \<and> TxState t = EthTxUnstarted \<longrightarrow> t' = t"
      using fr q t' unfolding eb_frame_def queued_def by metis
    have "t = etx\<lparr>Nonce := None\<rparr>" using q t t' by (simp add: queued_def)
    then show ?thesis using same q by (simp add: queued_def)
  qed
  moreover have "in_progress_of a d' = []" "key_nonce a c d' = key_nonce a c d" "eth_txes_id_seq d \<le> eth_txes_id_seq d'"
    using fr q by (auto simp: eb_frame_def queued_def)
  ultimately show "queued a c etx d'" using q by (auto simp: queued_def)
qed

lemma start_body:
  assumes I: "eb_inv env cfg a c d" and q: "queued a c etx d" and x: "attempt_ok env cfg etx x"
    and ins: "insert_attempt x d = Inr (row, d1)"
    and upd: "update_tx_returning (TxID etx)
      (\<lambda>t. t\<lparr>Nonce := Nonce etx, TxState := EthTxInProgress, BroadcastAt := BroadcastAt etx,
            InitialBroadcastAt := InitialBroadcastAt etx\<rparr>) d1 = Inr (t, d')"
  shows "eb_inv env cfg a c d' \<and> sending a t row d' \<and> key_nonce a c d' = key_nonce a c d"
proof -
  define f where "f = (\<lambda>t. t\<lparr>Nonce := Nonce etx, TxState := EthTxInProgress, BroadcastAt := BroadcastAt etx,
    InitialBroadcastAt := InitialBroadcastAt etx\<rparr> :: EthTx)"
  have parts: "tables_ok d" "ids_ok d" "nonces_ok a c d" "queue_ok a c d" using I by (simp_all add: eb_inv_def)
  have etx: "in_progress_of a d = []" "Nonce etx = Some (key_nonce a c d)" "FromAddress etx = a" "TxChainID etx = c"
    "TxState etx = EthTxUnstarted" "row_of etx = etx"
    using q by (simp_all add: queued_def)
  have row: "row = x\<lparr>AttemptID := eth_tx_attempts_id_seq d\<rparr>"
    and d1: "d1 = d\<lparr>eth_tx_attempts := eth_tx_attempts d @ [row], eth_tx_attempts_id_seq := Suc (eth_tx_attempts_id_seq d)\<rparr>"
    using ins by (simp_all add: insert_attempt_Inr)
  obtain u where u: "find_tx (TxID etx) d1 = Some u" and t: "t = f u" and ok: "tables_ok d'"
    and d': "d' = update_txes (\<lambda>t. TxID t = TxID etx) f d1"
    using upd by (auto simp: update_tx_returning_Inr f_def)
  have mem: "u \<in> set (eth_txes d)" "TxID u = TxID etx" using find_tx_Some [OF u] by (simp_all add: d1)
  have eq: "u = etx\<lparr>Nonce := None\<rparr>" using q mem by (simp add: queued_def)
  have t': "t = etx\<lparr>TxState := EthTxInProgress\<rparr>" by (simp add: t f_def eq)
  have only: "v \<in> set (eth_txes d) \<Longrightarrow> TxID v = TxID etx \<Longrightarrow> v = u" for v
    using tables_ok_unique(1) [OF parts(1)] mem by metis
  have set': "set (eth_txes d') = insert t {v \<in> set (eth_txes d). TxID v \<noteq> TxID etx}"
  proof -
    have img: "set (eth_txes d') = (\<lambda>v. if TxID v = TxID etx then f v else v) ` set (eth_txes d)"
      by (simp add: d' update_txes_def d1)
    show ?thesis
    proof (intro equalityI subsetI)
      fix v assume "v \<in> set (eth_txes d')"
      then obtain w where w: "w \<in> set (eth_txes d)" "v = (if TxID w = TxID etx then f w else w)" unfolding img by blast
      then show "v \<in> insert t {v \<in> set (eth_txes d). TxID v \<noteq> TxID etx}"
        using only [OF w(1)] by (cases "TxID w = TxID etx") (simp_all add: t)
    next
      fix v assume v: "v \<in> insert t {v \<in> set (eth_txes d). TxID v \<noteq> TxID etx}"
      show "v \<in> set (eth_txes d')"
      proof (cases "v = t")
        case True
        then show ?thesis unfolding img using mem by (intro image_eqI [of _ _ u]) (simp_all add: t)
      next
        case False
        then show ?thesis unfolding img using v by (intro image_eqI [of _ _ v]) simp_all
      qed
    qed
  qed
  have key: "key_nonce a c d' = key_nonce a c d" by (rule key_nonce_cong) (simp add: d' d1 update_txes_def)
  have att: "attempts_of i d' = (if i = TxID etx then attempts_of i d @ [row] else attempts_of i d)" for i
    using x by (simp add: d' d1 attempts_of_def update_txes_def row attempt_ok_def)
  have "FromAddress u = a" "TxChainID u = c" "TxState u = EthTxUnstarted" using etx by (simp_all add: eq)
  then have mine: "attempts_of (TxID etx) d = []"
    using parts(4) mem unfolding queue_ok_def by metis
  have okrow: "attempt_ok env cfg t row" using x by (simp add: attempt_ok_def t' row)
  have slot: "v \<in> set (in_progress_of a d') \<longleftrightarrow> v = t" for v
  proof -
    have "w \<in> set (eth_txes d) \<Longrightarrow> FromAddress w = a \<Longrightarrow> TxState w \<noteq> EthTxInProgress" for w
      using etx(1) by (auto simp: in_progress_of_def filter_empty_conv)
    then show ?thesis using etx(3) by (auto simp: in_progress_of_def set' t')
  qed
  have "ids_ok d'"
    using parts(2) q unfolding ids_ok_def set' by (auto simp: d' d1 update_txes_def row t' queued_def)
  moreover have "nonces_ok a c d'"
  proof -
    have "nonce_ok (key_nonce a c d) t" using etx(2) by (simp add: t' nonce_ok_def)
    then have "nonce_ok (key_nonce a c d) v" if "v \<in> set (eth_txes d')" "FromAddress v = a" "TxChainID v = c" for v
      using that parts(3) unfolding set' nonces_ok_def by blast
    then show ?thesis by (simp add: nonces_ok_def key)
  qed
  moreover have "sending_ok env cfg a c d'"
  proof -
    have "TxChainID t = c" "attempts_of (TxID t) d' = [row]" using etx(4) mine by (simp_all add: t' att)
    then show ?thesis using okrow unfolding sending_ok_def Ball_def slot by simp
  qed
  moreover have "queue_ok a c d'"
  proof -
    have "TxState t \<noteq> EthTxUnstarted" by (simp add: t')
    then show ?thesis using parts(4) unfolding queue_ok_def set' att by auto
  qed
  moreover have "sending a t row d'"
  proof -
    have "row_of t = t" using etx(6) by (cases etx) (simp add: t' row_of_def)
    moreover have "TxID t = TxID etx" by (simp add: t')
    ultimately show ?thesis using slot mine by (simp add: sending_def att)
  qed
  ultimately show ?thesis using ok key by (simp add: eb_inv_def)
qed

text \<open>\<open>saveReplacementInProgressAttempt\<close>: the slot keeps its transaction, with another attempt.\<close>

lemma replace_body:
  assumes I: "eb_inv env cfg a c d" and snd: "sending a etx x d" and y: "attempt_ok env cfg etx y"
    and body: "try_bind (checked (delete_attempts (\<lambda>z. AttemptID z = AttemptID x) d)) (insert_attempt y) = Inr (row, d')"
  shows "eb_inv env cfg a c d' \<and> sending a etx row d' \<and> key_nonce a c d' = key_nonce a c d"
proof -
  define d1 where "d1 = delete_attempts (\<lambda>z. AttemptID z = AttemptID x) d"
  have parts: "tables_ok d" "ids_ok d" "nonces_ok a c d" "sending_ok env cfg a c d" "queue_ok a c d"
    using I by (simp_all add: eb_inv_def)
  have x: "x \<in> set (eth_tx_attempts d)" "EthTxID x = TxID etx"
    using snd attempts_of_mem [of x "TxID etx" d] by (simp_all add: sending_def)
  have row: "row = y\<lparr>AttemptID := eth_tx_attempts_id_seq d\<rparr>" and ok: "tables_ok d'"
    and d': "d' = d1\<lparr>eth_tx_attempts := eth_tx_attempts d1 @ [row], eth_tx_attempts_id_seq := Suc (eth_tx_attempts_id_seq d)\<rparr>"
    using body by (auto simp: try_bind_Inr checked_Inr insert_attempt_Inr d1_def delete_attempts_def)
  have txes: "eth_txes d' = eth_txes d" by (simp add: d' d1_def delete_attempts_def)
  have slot: "in_progress_of a d' = in_progress_of a d" by (simp add: in_progress_of_def txes)
  have key: "key_nonce a c d' = key_nonce a c d"
    by (rule key_nonce_cong) (simp add: d' d1_def delete_attempts_def)
  have old: "attempts_of i d1 = (if i = TxID etx then [] else attempts_of i d)" for i
  proof -
    have "attempts_of i d1 = filter (\<lambda>z. AttemptID z \<noteq> AttemptID x) (attempts_of i d)"
      by (simp add: attempts_of_def d1_def delete_attempts_def conj_commute)
    moreover have "filter (\<lambda>z. AttemptID z \<noteq> AttemptID x) (attempts_of i d) = attempts_of i d" if "i \<noteq> TxID etx"
    proof (rule filter_True, rule ballI)
      fix z assume "z \<in> set (attempts_of i d)"
      then have "z \<in> set (eth_tx_attempts d)" "EthTxID z \<noteq> EthTxID x" using that x by (simp_all add: attempts_of_mem)
      then show "AttemptID z \<noteq> AttemptID x" using tables_ok_unique(3) [OF parts(1) _ x(1)] by metis
    qed
    moreover have "attempts_of (TxID etx) d = [x]" using snd by (simp add: sending_def)
    ultimately show ?thesis by simp
  qed
  have att: "attempts_of i d' = (if i = TxID etx then [row] else attempts_of i d)" for i
    using old [of i] y by (simp add: d' attempts_of_def row attempt_ok_def)
  have okrow: "attempt_ok env cfg (row_of etx) row" using y by (simp add: attempt_ok_def row)
  have "ids_ok d'"
    using parts(2) by (auto simp: ids_ok_def txes d' d1_def delete_attempts_def row)
  moreover have "nonces_ok a c d'" using parts(3) by (simp add: nonces_ok_def txes key)
  moreover have "sending_ok env cfg a c d'"
    unfolding sending_ok_def slot
  proof
    fix t assume t: "t \<in> set (in_progress_of a d)"
    then have "t = row_of etx" using in_progress_unique [OF parts(1,4)] snd by (simp add: sending_def)
    then show "TxChainID t = c \<and> (\<exists>x. attempts_of (TxID t) d' = [x] \<and> attempt_ok env cfg t x)"
      using okrow t parts(4) by (auto simp: att sending_ok_def)
  qed
  moreover have "queue_ok a c d'"
    unfolding queue_ok_def txes
  proof (intro ballI impI)
    fix t assume t: "t \<in> set (eth_txes d)" "FromAddress t = a \<and> TxChainID t = c \<and> TxState t = EthTxUnstarted"
    have "row_of etx \<in> set (eth_txes d)" "TxState etx = EthTxInProgress"
      using snd by (auto simp: sending_def in_progress_of_def)
    then have "TxID t \<noteq> TxID etx" using t tables_ok_unique(1) [OF parts(1), of t "row_of etx"] by auto
    then show "attempts_of (TxID t) d' = []" using parts(5) t by (simp add: att queue_ok_def)
  qed
  ultimately show ?thesis using ok key snd by (simp add: eb_inv_def sending_def slot att)
qed

section \<open>Attempts are within bounds\<close>

text \<open>What is signed decodes to what was handed to the key store.\<close>

definition codec_ok :: "'e env \<Rightarrow> bool" where
  "codec_ok env \<longleftrightarrow> (\<forall>addr tx c h raw. SignTx env addr tx c = Some (h, raw) \<longrightarrow> DecodeRLP env raw = Inr tx)"

lemma newSignedAttempt_ok:
  assumes "codec_ok env" "newSignedAttempt env cid etx tx = Inr y"
  shows "AttemptState y = EthTxAttemptInProgress \<and> EthTxID y = TxID etx \<and> DecodeRLP env (SignedRawTx y) = Inr tx"
  using assms by (auto simp: newSignedAttempt_def codec_ok_def split: option.splits prod.splits)

lemma NewLegacyAttempt_ok:
  assumes "codec_ok env" "NewLegacyAttempt env cfg cid etx p g = Ret (Inr x)"
  shows "attempt_ok env cfg etx x"
  using assms
  by (auto simp: NewLegacyAttempt_def validateLegacyGas_def run_simps try_bind_Inr attempt_ok_def
      newLegacyTransaction_def dest!: newSignedAttempt_ok split: option.splits if_splits)

lemma NewDynamicFeeAttempt_ok:
  assumes "codec_ok env" "NewDynamicFeeAttempt env cfg cid etx tip cap g = Ret (Inr x)"
  shows "attempt_ok env cfg etx x"
  using assms
  by (auto simp: NewDynamicFeeAttempt_def validateDynamicFeeGas_def run_simps try_bind_Inr attempt_ok_def
      newDynamicFeeTransaction_def dest!: newSignedAttempt_ok split: option.splits if_splits)

section \<open>One pass\<close>

text \<open>The errors that say the program's own rules were broken; re-estimating a dynamic fee is not among them.\<close>

definition violation :: "'e tx_error option \<Rightarrow> bool" where
  "violation e \<longleftrightarrow>
     (\<exists>m. e = Some (InvariantViolation m) \<and> m \<noteq> ''re-estimation is not supported for EIP-1559 transactions'')"

lemma violation_simps [simp]:
  "\<not> violation None" "\<not> violation (Some (SqlErr e))" "\<not> violation (Some ResumeErr)" "\<not> violation (Some NodeErr)"
  "\<not> violation (Some (SendErr se))" "\<not> violation (Some (GasErr g))" "\<not> violation (Some BumpCeiling)"
  "\<not> violation (Some NonceOverflow)" "\<not> violation (Some L2Only)" "\<not> violation (Some (CheckerErr m))"
  "\<not> violation (Some (KeyStoreErr m))" "\<not> violation (Some ErrEthTxRemoved)"
  "\<not> violation (Some (InvariantViolation ''re-estimation is not supported for EIP-1559 transactions''))"
  by (simp_all add: violation_def)

text \<open>What is sent for a transaction: its number, the key's next nonce, and a price within the maximum.\<close>

definition well_sent :: "TxmConfig \<Rightarrow> nat \<Rightarrow> int \<Rightarrow> nat \<times> EthTransaction \<Rightarrow> bool" where
  "well_sent cfg a N s \<longleftrightarrow>
     tx_nonce (snd s) = word_of_int N \<and> tx_max_price (snd s) \<le> KeySpecificMaxGasPriceWei cfg a"

definition slot :: "nat \<Rightarrow> int \<Rightarrow> int \<Rightarrow> EthTx \<Rightarrow> EthTxAttempt \<Rightarrow> txdb \<Rightarrow> bool" where
  "slot a c N etx x d \<longleftrightarrow> sending a etx x d \<and> key_nonce a c d = N"

definition free_slot :: "nat \<Rightarrow> int \<Rightarrow> int \<Rightarrow> txdb \<Rightarrow> bool" where
  "free_slot a c N d \<longleftrightarrow> in_progress_of a d = [] \<and> key_nonce a c d = N"

lemma slot_stable: "eb_stable env cfg a c (slot a c N etx x)"
  using sending_stable [of env cfg a c etx x] unfolding eb.stable_def slot_def by (auto simp: eb_frame_def)

lemma free_slot_stable: "eb_stable env cfg a c (free_slot a c N)"
  unfolding eb.stable_def free_slot_def by (auto simp: eb_frame_def)

lemma sending_fields [simp]:
  "sending a (etx\<lparr>TxError := e\<rparr>) x = sending a etx x"
  "sending a (etx\<lparr>InitialBroadcastAt := ib, BroadcastAt := b\<rparr>) x = sending a etx x"
  by (simp_all add: sending_def row_of_def fun_eq_iff)

lemma guardedD: "eb_guarded env cfg a c w \<Longrightarrow> eb_inv env cfg a c (db w)"
  by (simp add: eb.guarded_def)

lemma slotD:
  assumes "eb_guarded env cfg a c w" "slot a c N etx x (db w)"
  shows "FromAddress etx = a" "TxChainID etx = c" "TxState etx = EthTxInProgress" "attempt_ok env cfg etx x"
    "AttemptState x = EthTxAttemptInProgress" "Nonce etx = Some N" "AttemptID x > 0"
  using sendingD [OF guardedD [OF assms(1)], of etx x] assms(2) by (simp_all add: slot_def attempt_ok_def)

lemma saveFatallyErroredTransaction_ok:
  assumes g: "eb_guarded env cfg a c w" and s: "slot a c N etx x (db w)"
    and r: "saveFatallyErroredTransaction env r (etx\<lparr>TxError := Some m\<rparr>) w = (e, w1)"
  shows "eb_guarded env cfg a c w1 \<and> sent w1 = sent w \<and> \<not> violation e \<and> key_nonce a c (db w1) = N
    \<and> (e = None \<longrightarrow> free_slot a c N (db w1))"
proof (cases "PipelineTaskRunID etx \<noteq> None \<and> HasResumeCallback env \<and> ResumeCallback r = ResumeFailed")
  case True
  then show ?thesis
    using r g s slotD(3) [OF g s] by (auto simp: saveFatallyErroredTransaction_def slot_def)
next
  case False
  let ?body = "\<lambda>d. update_tx_returning (TxID etx)
    (\<lambda>t. t\<lparr>TxState := EthTxFatalError, TxError := Some m, BroadcastAt := None, InitialBroadcastAt := None, Nonce := None\<rparr>)
    (delete_attempts (\<lambda>a. EthTxID a = TxID etx) d)"
  obtain res where t: "Transaction ?body w = (res, w1)" and e: "e = (case res of Inl e \<Rightarrow> Some (SqlErr e) | Inr row \<Rightarrow> None)"
    using r False slotD(3) [OF g s]
    by (auto simp: saveFatallyErroredTransaction_def split: prod.splits sum.splits)
  have b: "eb_inv env cfg a c d' \<and> free_slot a c N d'"
    if "eb_inv env cfg a c d" "slot a c N etx x d" "?body d = Inr (row, d')" for d row d'
    using fatal_body [OF that(1) _ that(3), of x] that(2) by (simp add: slot_def free_slot_def)
  have "eb_guarded env cfg a c w1 \<and> sent w1 = sent w
    \<and> (case res of Inr row \<Rightarrow> free_slot a c N (db w1)
       | Inl e \<Rightarrow> slot a c N etx x (db w1) \<or> e = ErrUnavailable \<and> (\<exists>row :: EthTx. free_slot a c N (db w1)))"
    by (rule eb.Transaction_guarded [where Q = "\<lambda>row :: EthTx. free_slot a c N", OF g slot_stable s _ t]) (rule b)
  then show ?thesis using e by (auto simp: slot_def free_slot_def split: sum.splits)
qed

lemma saveAttempt_ok:
  assumes g: "eb_guarded env cfg a c w" and s: "slot a c N etx x (db w)"
    and r: "saveAttempt ks c etx x EthTxAttemptBroadcast w = (e, w1)"
  shows "eb_guarded env cfg a c w1 \<and> sent w1 = sent w \<and> \<not> violation e \<and> key_nonce a c (db w1) \<in> {N, N + 1}
    \<and> (e = None \<longrightarrow> free_slot a c (N + 1) (db w1))"
proof -
  let ?body = "\<lambda>d. try_bind (IncrementNextNonce ks (FromAddress etx) c (the (Nonce etx)) d) (\<lambda>d1.
    try_bind (update_tx_returning (TxID etx)
        (\<lambda>t. t\<lparr>TxState := EthTxUnconfirmed, TxError := TxError etx, BroadcastAt := BroadcastAt etx,
              InitialBroadcastAt := InitialBroadcastAt etx\<rparr>) d1) (\<lambda>(row, d2).
      update_attempt_returning (AttemptID x) (\<lambda>a. a\<lparr>AttemptState := EthTxAttemptBroadcast\<rparr>) d2))"
  obtain res where t: "Transaction ?body w = (res, w1)" and e: "e = (case res of Inl e \<Rightarrow> Some (SqlErr e) | Inr row \<Rightarrow> None)"
    using r slotD(3,5) [OF g s] by (auto simp: saveAttempt_def split: prod.splits sum.splits)
  have b: "eb_inv env cfg a c d' \<and> free_slot a c (N + 1) d'"
    if "eb_inv env cfg a c d" "slot a c N etx x d" "?body d = Inr (row, d')" for d row d'
    using saved_body [OF that(1) _ that(3)] that(2) by (simp add: slot_def free_slot_def)
  have "eb_guarded env cfg a c w1 \<and> sent w1 = sent w
    \<and> (case res of Inr row \<Rightarrow> free_slot a c (N + 1) (db w1)
       | Inl e \<Rightarrow> slot a c N etx x (db w1) \<or> e = ErrUnavailable \<and> (\<exists>row :: EthTxAttempt. free_slot a c (N + 1) (db w1)))"
    by (rule eb.Transaction_guarded [where Q = "\<lambda>row :: EthTxAttempt. free_slot a c (N + 1)", OF g slot_stable s _ t]) (rule b)
  then show ?thesis using e by (auto simp: slot_def free_slot_def split: sum.splits)
qed

lemma saveReplacementInProgressAttempt_ok:
  assumes g: "eb_guarded env cfg a c w" and s: "slot a c N etx x (db w)" and y: "attempt_ok env cfg etx y"
    and r: "saveReplacementInProgressAttempt x y w = (res, w1)"
  shows "eb_guarded env cfg a c w1 \<and> sent w1 = sent w \<and> key_nonce a c (db w1) = N
    \<and> (case res of Inl e \<Rightarrow> \<not> violation (Some e) | Inr row \<Rightarrow> slot a c N etx row (db w1))"
proof -
  let ?body = "\<lambda>d. try_bind (checked (delete_attempts (\<lambda>z. AttemptID z = AttemptID x) d)) (insert_attempt y)"
  obtain res' where t: "Transaction ?body w = (res', w1)"
    and e: "res = (case res' of Inl e \<Rightarrow> Inl (SqlErr e) | Inr row \<Rightarrow> Inr row)"
    using r slotD(5,7) [OF g s] y
    by (auto simp: saveReplacementInProgressAttempt_def attempt_ok_def split: prod.splits sum.splits)
  have b: "eb_inv env cfg a c d' \<and> slot a c N etx row d'"
    if "eb_inv env cfg a c d" "slot a c N etx x d" "?body d = Inr (row, d')" for d row d'
    using replace_body [OF that(1) _ y that(3)] that(2) by (simp add: slot_def)
  have "eb_guarded env cfg a c w1 \<and> sent w1 = sent w
    \<and> (case res' of Inr row \<Rightarrow> slot a c N etx row (db w1)
       | Inl e \<Rightarrow> slot a c N etx x (db w1) \<or> e = ErrUnavailable \<and> (\<exists>row. slot a c N etx row (db w1)))"
    by (rule eb.Transaction_guarded [where Q = "\<lambda>row. slot a c N etx row", OF g slot_stable s _ t]) (rule b)
  then show ?thesis using e by (auto simp: slot_def split: sum.splits)
qed

lemma slot_prices:
  assumes "eb_guarded env cfg a c w" "slot a c N etx x (db w)"
  shows "TxType x = 0 \<and> GasPrice x \<noteq> None \<or> TxType x = 2 \<and> GasTipCap x \<noteq> None \<and> GasFeeCap x \<noteq> None"
proof -
  have "x \<in> set (eth_tx_attempts (db w))"
    using assms(2) attempts_of_mem [of x "TxID etx" "db w"] by (simp add: slot_def sending_def)
  then have "eth_tx_attempt_ok x"
    using tables_ok_unique(5) [of "db w"] guardedD [OF assms(1)] by (simp add: eb_inv_def)
  then show ?thesis by (auto simp: eth_tx_attempt_ok_def chk_legacy_or_dynamic_def)
qed

definition pass_post ::
    "'e env \<Rightarrow> TxmConfig \<Rightarrow> nat \<Rightarrow> int \<Rightarrow> int \<Rightarrow> txworld \<Rightarrow> 'e pass \<Rightarrow> txworld \<Rightarrow> bool" where
  "pass_post env cfg a c N w p w1 \<longleftrightarrow>
     eb_guarded env cfg a c w1
     \<and> (\<exists>new. sent w1 = sent w @ new \<and> list_all (well_sent cfg a N) new)
     \<and> key_nonce a c (db w1) \<in> {N, N + 1}
     \<and> (case p of
          Again etx1 x1 \<Rightarrow> slot a c N etx1 x1 (db w1)
        | Finish e retryable \<Rightarrow> \<not> violation e \<and> (e = None \<longrightarrow> in_progress_of a (db w1) = [])
        | Panicking m \<Rightarrow> m = ''nil RequestID'')"

lemma pass_post_stay:
  assumes "eb_guarded env cfg a c w" "slot a c N etx x (db w)" "\<not> violation (Some e)"
  shows "pass_post env cfg a c N w (Finish (Some e) retryable) w"
  using assms by (auto simp: pass_post_def slot_def)

lemma again_with_ok:
  assumes g: "eb_guarded env cfg a c w" and s: "slot a c N etx x (db w)"
    and y: "\<And>y. replacement = Inr y \<Longrightarrow> attempt_ok env cfg etx y" "\<And>e. replacement = Inl e \<Longrightarrow> \<not> violation (Some e)"
    and r: "again_with etx x w replacement = (p, w1)"
  shows "pass_post env cfg a c N w p w1"
proof (cases replacement)
  case (Inl e)
  then show ?thesis using r y(2) pass_post_stay [OF g s] by (auto simp: again_with_def)
next
  case (Inr y1)
  obtain res :: "'a tx_error + EthTxAttempt" and w2 where q: "saveReplacementInProgressAttempt x y1 w = (res, w2)"
    by (cases "saveReplacementInProgressAttempt x y1 w :: ('a tx_error + EthTxAttempt) \<times> txworld")
  note ok = saveReplacementInProgressAttempt_ok [OF g s y(1) [OF Inr] q]
  show ?thesis using r Inr q ok by (auto simp: again_with_def pass_post_def split: sum.splits)
qed

lemma NewLegacyAttempt_error:
  "NewLegacyAttempt env cfg cid etx p g = Ret (Inl e) \<Longrightarrow> \<not> violation (Some e)"
  by (auto simp: NewLegacyAttempt_def run_simps newSignedAttempt_def violation_def
      split: option.splits prod.splits)

lemma NewDynamicFeeAttempt_error:
  "NewDynamicFeeAttempt env cfg cid etx p q g = Ret (Inl e) \<Longrightarrow> \<not> violation (Some e)"
  by (auto simp: NewDynamicFeeAttempt_def run_simps newSignedAttempt_def violation_def
      split: option.splits prod.splits)

lemma NewLegacyAttempt_panic:
  "NewLegacyAttempt env cfg cid etx (Some p) g = Panic m \<Longrightarrow> Nonce etx = None"
  by (auto simp: NewLegacyAttempt_def validateLegacyGas_def run_simps split: option.splits if_splits)

lemma NewDynamicFeeAttempt_panic:
  "NewDynamicFeeAttempt env cfg cid etx (Some tip) (Some cap) g = Panic m \<Longrightarrow> Nonce etx = None"
  by (auto simp: NewDynamicFeeAttempt_def validateDynamicFeeGas_def run_simps split: option.splits if_splits)

lemma tryAgainWithNewLegacyGas_ok:
  assumes c: "codec_ok env" and g: "eb_guarded env cfg a c w" and s: "slot a c N etx x (db w)"
    and r: "tryAgainWithNewLegacyGas env cfg c etx x price limit w = (p, w1)"
  shows "pass_post env cfg a c N w p w1"
proof (cases "NewLegacyAttempt env cfg c etx (Some price) limit")
  case (Ret replacement)
  then have "again_with etx x w replacement = (p, w1)" using r by (simp add: tryAgainWithNewLegacyGas_def)
  then show ?thesis
    using again_with_ok [OF g s] NewLegacyAttempt_ok [OF c] NewLegacyAttempt_error Ret by metis
next
  case (Panic m)
  then show ?thesis using NewLegacyAttempt_panic slotD(6) [OF g s] by fastforce
qed

lemma tryAgainWithNewDynamicFeeGas_ok:
  assumes c: "codec_ok env" and g: "eb_guarded env cfg a c w" and s: "slot a c N etx x (db w)"
    and r: "tryAgainWithNewDynamicFeeGas env cfg c etx x fee limit w = (p, w1)"
  shows "pass_post env cfg a c N w p w1"
proof (cases "NewDynamicFeeAttempt env cfg c etx (Some (TipCap fee)) (Some (FeeCap fee)) limit")
  case (Ret replacement)
  then have "again_with etx x w replacement = (p, w1)" using r by (simp add: tryAgainWithNewDynamicFeeGas_def)
  then show ?thesis
    using again_with_ok [OF g s] NewDynamicFeeAttempt_ok [OF c] NewDynamicFeeAttempt_error Ret by metis
next
  case (Panic m)
  then show ?thesis using NewDynamicFeeAttempt_panic slotD(6) [OF g s] by fastforce
qed

lemma tryAgainBumpingGas_ok:
  assumes c: "codec_ok env" and g: "eb_guarded env cfg a c w" and s: "slot a c N etx x (db w)"
    and r: "tryAgainBumpingGas env cfg c rd etx x w = (p, w1)"
  shows "pass_post env cfg a c N w p w1"
proof -
  note stay = pass_post_stay [OF g s]
  consider (legacy) price where "TxType x = 0" "GasPrice x = Some price"
    | (dynamic) tip cap where "TxType x = 2" "GasTipCap x = Some tip" "GasFeeCap x = Some cap"
    using slot_prices [OF g s] by blast
  then show ?thesis
  proof cases
    case legacy
    then show ?thesis
      using r stay tryAgainWithNewLegacyGas_ok [OF c g s]
      by (auto simp: tryAgainBumpingGas_def tryAgainBumpingLegacyGas_def split: sum.splits prod.splits if_splits)
  next
    case dynamic
    then show ?thesis
      using r stay tryAgainWithNewDynamicFeeGas_ok [OF c g s]
      by (auto simp: tryAgainBumpingGas_def tryAgainBumpingDynamicFeeGas_def split: sum.splits prod.splits if_splits)
  qed
qed

lemma tryAgainWithNewEstimation_ok:
  assumes c: "codec_ok env" and g: "eb_guarded env cfg a c w" and s: "slot a c N etx x (db w)"
    and r: "tryAgainWithNewEstimation env cfg c rd etx x w = (p, w1)"
  shows "pass_post env cfg a c N w p w1"
  using r pass_post_stay [OF g s] tryAgainWithNewLegacyGas_ok [OF c g s]
  by (auto simp: tryAgainWithNewEstimation_def split: sum.splits prod.splits if_splits)

lemma save_and_finish_ok:
  assumes g: "eb_guarded env cfg a c w" and s: "slot a c N etx x (db w)"
    and r: "save_and_finish ks c etx x w = (p, w1)"
  shows "pass_post env cfg a c N w p w1"
proof -
  obtain e w2 where q: "saveAttempt ks c etx x EthTxAttemptBroadcast w = (e :: 'a tx_error option, w2)"
    by (cases "saveAttempt ks c etx x EthTxAttemptBroadcast w :: 'a tx_error option \<times> txworld")
  show ?thesis
    using r q saveAttempt_ok [OF g s q] slotD(6) [OF g s]
    by (auto simp: save_and_finish_def pass_post_def free_slot_def)
qed

lemma not_is_error_None [simp]: "\<not> is_error cause None t"
  by (simp add: is_error_def)

lemmas send_error_class_defs = IsNonceTooLowError_def IsTransactionAlreadyMined_def IsReplacementUnderpriced_def
  IsTerminallyUnderpriced_def IsTemporarilyUnderpriced_def IsInsufficientEth_def IsTxFeeExceedsCap_def
  SendError_L2FeeTooLow_def IsL2FeeTooHigh_def IsL2Full_def IsTransactionAlreadyInMempool_def

lemma pass_after_send_ok:
  assumes c: "codec_ok env" and g: "eb_guarded env cfg a c w" and s: "slot a c N etx x (db w)"
    and r: "pass_after_send env cfg ks c at rd etx x se w = (p, w1)"
  shows "pass_post env cfg a c N w p w1"
proof -
  let ?etx = "etx\<lparr>InitialBroadcastAt := Some at, BroadcastAt := Some at\<rparr>"
  have s': "slot a c N ?etx x (db w)" using s by (simp add: slot_def)
  have n: "Nonce ?etx = Some N" using slotD(6) [OF g s] by simp
  note oks = pass_post_stay [OF g s'] tryAgainBumpingGas_ok [OF c g s'] tryAgainWithNewEstimation_ok [OF c g s']
    save_and_finish_ok [OF g s']
  define e1 where "e1 = (if IsNonceTooLowError (Cause env) se \<or> IsTransactionAlreadyMined (Cause env) se
    \<or> IsReplacementUnderpriced (Cause env) se then None else se)"
  define e2 where "e2 = (if IsTemporarilyUnderpriced (Cause env) e1 then None else e1)"
  note r' = r [unfolded pass_after_send_def Let_def e1_def [symmetric] e2_def [symmetric]]
  show ?thesis
  proof (cases e2)
    case None
    then show ?thesis using r' oks by (auto simp: IsInsufficientEth_def split: if_splits)
  next
    case (Some se2)
    then show ?thesis using r' n oks by (auto split: if_splits option.splits)
  qed
qed

lemma sendTransaction_ok:
  assumes g: "eb_guarded env cfg a c w" and s: "slot a c N etx x (db w)"
    and r: "sendTransaction env rd x w = (se, w1)"
  shows "eb_guarded env cfg a c w1 \<and> slot a c N etx x (db w1) \<and> db w1 = db w
    \<and> (\<exists>new. sent w1 = sent w @ new \<and> list_all (well_sent cfg a N) new)"
proof -
  obtain tx where tx: "DecodeRLP env (SignedRawTx x) = Inr tx" "tx_nonce tx = word_of_int N"
    "tx_max_price tx \<le> KeySpecificMaxGasPriceWei cfg a"
    using slotD(1,4,6) [OF g s] by (auto simp: attempt_ok_def)
  then have "w1 = w\<lparr>sent := sent w @ [(EthTxID x, tx)]\<rparr>"
    using r by (auto simp: sendTransaction_def Let_def split: if_splits)
  then show ?thesis using g s tx by (auto simp: eb.guarded_def well_sent_def)
qed

lemma pass_post_sent:
  assumes "pass_post env cfg a c N w1 p w2" "sent w1 = sent w @ new" "list_all (well_sent cfg a N) new"
  shows "pass_post env cfg a c N w p w2"
proof -
  obtain more where "sent w2 = sent w1 @ more" "list_all (well_sent cfg a N) more"
    using assms(1) by (auto simp: pass_post_def)
  then have "sent w2 = sent w @ (new @ more)" "list_all (well_sent cfg a N) (new @ more)"
    using assms(2,3) by simp_all
  then show ?thesis using assms(1) unfolding pass_post_def by blast
qed

lemma fatal_pass:
  assumes "eb_guarded env cfg a c w" "slot a c N etx x (db w)"
    "saveFatallyErroredTransaction env rd (etx\<lparr>TxError := Some m\<rparr>) w = (e, w1)"
  shows "pass_post env cfg a c N w (Finish e True) w1"
  using saveFatallyErroredTransaction_ok [OF assms] by (auto simp: pass_post_def free_slot_def)

lemma Check_panic: "Check env rd checker etx = Panic m \<Longrightarrow> m = ''nil RequestID''"
  by (auto simp: Check_def split: TransmitChecker.splits option.splits)

lemma SendError_Fatal_Some: "SendError_Fatal se \<Longrightarrow> \<exists>x. se = Some x"
  by (auto simp: SendError_Fatal_def split: option.splits)

lemma handle_pass_ok:
  assumes c: "codec_ok env" and g: "eb_guarded env cfg a c w" and s: "slot a c N etx x (db w)"
    and r: "handle_pass env cfg ks c at errText rd etx x w = (p, w1)"
  shows "pass_post env cfg a c N w p w1"
proof -
  note stay = pass_post_stay [OF g s]
  note r' = r [unfolded handle_pass_def] slotD(3) [OF g s]
  show ?thesis
  proof (cases "GetChecker env etx")
    case (Some spec)
    show ?thesis
    proof (cases "BuildChecker env spec")
      case (Inr checker)
      note r1 = r' Some Inr
      show ?thesis
      proof (cases "Check env rd checker etx")
        case (Ret failed)
        note r2 = r1 Ret
        show ?thesis
        proof (cases failed)
          case None
          obtain se w2 where q: "sendTransaction env rd x w = (se, w2)" by (cases "sendTransaction env rd x w")
          note sok = sendTransaction_ok [OF g s q]
          have "pass_post env cfg a c N w2 p w1"
          proof (cases "SendError_Fatal se")
            case True
            then obtain se' where "se = Some se'" using SendError_Fatal_Some by blast
            then show ?thesis using r2 None q True fatal_pass [of env cfg a c w2 N etx x] sok by (auto split: prod.splits)
          next
            case False
            then have "pass_after_send env cfg ks c at rd etx x se w2 = (p, w1)" using r2 None q by simp
            then show ?thesis using pass_after_send_ok [OF c] sok by blast
          qed
          then show ?thesis using sok pass_post_sent by blast
        next
          case (Some m)
          then show ?thesis using r2 fatal_pass [OF g s] by (auto split: prod.splits)
        qed
      next
        case (Panic m)
        then show ?thesis using r1 Check_panic [OF Panic] g s by (auto simp: pass_post_def slot_def)
      qed
    qed (use r' Some stay in auto)
  qed (use r' stay in auto)
qed

section \<open>A whole call\<close>

definition run_post :: "'e env \<Rightarrow> TxmConfig \<Rightarrow> nat \<Rightarrow> int \<Rightarrow> txworld \<Rightarrow> txworld \<Rightarrow> bool" where
  "run_post env cfg a c w w1 \<longleftrightarrow>
     eb_guarded env cfg a c w1
     \<and> key_nonce a c (db w) \<le> key_nonce a c (db w1)
     \<and> (\<exists>new. sent w1 = sent w @ new
          \<and> (\<forall>s\<in>set new. \<exists>n. key_nonce a c (db w) \<le> n \<and> n \<le> key_nonce a c (db w1) \<and> well_sent cfg a n s))"

definition outcome_post :: "nat \<Rightarrow> 'e outcome \<Rightarrow> txworld \<Rightarrow> bool" where
  "outcome_post a out w1 \<longleftrightarrow>
     (case out of
        Returned e retryable \<Rightarrow> \<not> violation e \<and> (e = None \<longrightarrow> in_progress_of a (db w1) = [])
      | Waiting \<Rightarrow> True
      | Panicked m \<Rightarrow> m = ''nil RequestID'')"

lemma run_post_trans:
  assumes "run_post env cfg a c w w1" "run_post env cfg a c w1 w2"
  shows "run_post env cfg a c w w2"
proof -
  obtain new where new: "sent w1 = sent w @ new" "\<forall>s\<in>set new. \<exists>n. key_nonce a c (db w) \<le> n
      \<and> n \<le> key_nonce a c (db w1) \<and> well_sent cfg a n s"
    using assms(1) by (auto simp: run_post_def)
  obtain more where more: "sent w2 = sent w1 @ more" "\<forall>s\<in>set more. \<exists>n. key_nonce a c (db w1) \<le> n
      \<and> n \<le> key_nonce a c (db w2) \<and> well_sent cfg a n s"
    using assms(2) by (auto simp: run_post_def)
  have le: "key_nonce a c (db w) \<le> key_nonce a c (db w1)" "key_nonce a c (db w1) \<le> key_nonce a c (db w2)"
    using assms by (simp_all add: run_post_def)
  have "\<forall>s\<in>set (new @ more). \<exists>n. key_nonce a c (db w) \<le> n \<and> n \<le> key_nonce a c (db w2) \<and> well_sent cfg a n s"
  proof
    fix s assume "s \<in> set (new @ more)"
    then consider "s \<in> set new" | "s \<in> set more" by auto
    then show "\<exists>n. key_nonce a c (db w) \<le> n \<and> n \<le> key_nonce a c (db w2) \<and> well_sent cfg a n s"
    proof cases
      case 1
      then obtain n where "key_nonce a c (db w) \<le> n" "n \<le> key_nonce a c (db w1)" "well_sent cfg a n s"
        using new(2) by blast
      then show ?thesis using le(2) by (intro exI [of _ n]) simp
    next
      case 2
      then obtain n where "key_nonce a c (db w1) \<le> n" "n \<le> key_nonce a c (db w2)" "well_sent cfg a n s"
        using more(2) by blast
      then show ?thesis using le(1) by (intro exI [of _ n]) simp
    qed
  qed
  moreover have "sent w2 = sent w @ (new @ more)" using new(1) more(1) by simp
  moreover have "eb_guarded env cfg a c w2" using assms(2) by (simp add: run_post_def)
  ultimately show ?thesis unfolding run_post_def using order_trans [OF le] by blast
qed

lemma run_post_read:
  "eb_guarded env cfg a c w1 \<Longrightarrow> sent w1 = sent w \<Longrightarrow> key_nonce a c (db w1) = key_nonce a c (db w)
    \<Longrightarrow> run_post env cfg a c w w1"
  by (simp add: run_post_def)

lemma pass_post_run:
  assumes "pass_post env cfg a c N w p w1" "N = key_nonce a c (db w)"
  shows "run_post env cfg a c w w1"
proof -
  obtain new where "sent w1 = sent w @ new" "list_all (well_sent cfg a N) new"
    using assms(1) by (auto simp: pass_post_def)
  moreover have "N \<le> key_nonce a c (db w1)" using assms(1) by (auto simp: pass_post_def)
  ultimately show ?thesis
    using assms by (auto simp: run_post_def pass_post_def list_all_iff)
qed

lemma handleInProgressEthTx_ok:
  assumes c: "codec_ok env"
  shows "eb_guarded env cfg a c w \<Longrightarrow> slot a c N etx x (db w)
    \<Longrightarrow> handleInProgressEthTx env cfg ks c at errText rs etx x w = (out, w1)
    \<Longrightarrow> run_post env cfg a c w w1 \<and> outcome_post a out w1"
proof (induction rs arbitrary: etx x w)
  case Nil
  then show ?case by (auto simp: run_post_read outcome_post_def)
next
  case (Cons rd rs)
  obtain p w2 where q: "handle_pass env cfg ks c at errText rd etx x w = (p, w2)"
    by (cases "handle_pass env cfg ks c at errText rd etx x w")
  note post = handle_pass_ok [OF c Cons.prems(1,2) q]
  have run: "run_post env cfg a c w w2"
    using pass_post_run [OF post] Cons.prems(2) by (simp add: slot_def)
  show ?case
  proof (cases p)
    case (Finish e retryable)
    then show ?thesis using Cons.prems(3) q post run by (auto simp: outcome_post_def pass_post_def)
  next
    case (Again etx1 x1)
    then have "handleInProgressEthTx env cfg ks c at errText rs etx1 x1 w2 = (out, w1)"
      using Cons.prems(3) q by simp
    moreover have "eb_guarded env cfg a c w2" "slot a c N etx1 x1 (db w2)"
      using post Again by (simp_all add: pass_post_def)
    ultimately show ?thesis using Cons.IH run_post_trans [OF run] by blast
  next
    case (Panicking m)
    then show ?thesis using Cons.prems(3) q post run by (auto simp: outcome_post_def pass_post_def)
  qed
qed

section \<open>The loop over the queue\<close>

lemma nonce_stable: "eb_stable env cfg a c (\<lambda>d. key_nonce a c d = N)"
  unfolding eb.stable_def by (simp add: eb_frame_def)

lemma getInProgressEthTx_ok:
  assumes g: "eb_guarded env cfg a c w"
    and r: "getInProgressEthTx a w = (res :: 'e tx_error + (EthTx \<times> EthTxAttempt) option, w1)"
  shows "eb_guarded env cfg a c w1 \<and> sent w1 = sent w \<and> key_nonce a c (db w1) = key_nonce a c (db w)
    \<and> (case res of
         Inl e \<Rightarrow> \<not> violation (Some e)
       | Inr None \<Rightarrow> in_progress_of a (db w1) = []
       | Inr (Some (etx, x)) \<Rightarrow> slot a c (key_nonce a c (db w)) etx x (db w1))"
proof -
  define query where "query = (\<lambda>d :: txdb. find (\<lambda>t. FromAddress t = a \<and> TxState t = EthTxInProgress) (eth_txes d))"
  define N where "N = key_nonce a c (db w)"
  obtain found w2 where q: "Select query w = (found, w2)" by (cases "Select query w")
  have "eb_guarded env cfg a c w2 \<and> key_nonce a c (db w2) = N \<and> sent w2 = sent w
      \<and> (\<forall>y. found = Inr y \<longrightarrow> y = query (db w2))"
    by (rule eb.Select_guarded [OF g nonce_stable _ q]) (simp add: N_def)
  then have s2: "eb_guarded env cfg a c w2" "key_nonce a c (db w2) = N" "sent w2 = sent w"
    "\<And>y. found = Inr y \<Longrightarrow> y = query (db w2)" by auto
  have r': "(case found of
      Inl e \<Rightarrow> (Inl (SqlErr e), w2)
    | Inr None \<Rightarrow> (Inr None, w2)
    | Inr (Some etx) \<Rightarrow>
        (case Select (loadEthTxAttempts (TxID etx)) w2 of
           (Inl e, w3) \<Rightarrow> (Inl (SqlErr e), w3)
         | (Inr as, w3) \<Rightarrow>
             if length as \<noteq> 1 \<or> AttemptState (hd as) \<noteq> EthTxAttemptInProgress
             then (Inl (InvariantViolation ''expected exactly one unsent attempt''), w3)
             else (Inr (Some (etx, hd as)), w3))) = (res, w1)"
    using r q by (simp add: getInProgressEthTx_def query_def)
  show ?thesis
  proof (cases found)
    case (Inl e)
    then show ?thesis using r' s2 by (auto simp: N_def)
  next
    case (Inr y)
    show ?thesis
    proof (cases y)
      case None
      then have "in_progress_of a (db w2) = []"
        using s2(4) [OF Inr] by (auto simp: query_def in_progress_of_def find_None_iff filter_empty_conv)
      then show ?thesis using r' s2 Inr None by (auto simp: N_def)
    next
      case (Some etx)
      have mem: "etx \<in> set (in_progress_of a (db w2))"
        using s2(4) [OF Inr] Some
        by (auto simp: query_def in_progress_of_def find_Some_iff dest!: sym [of "Some etx"])
      have inv: "tables_ok (db w2)" "sending_ok env cfg a c (db w2)"
        using guardedD [OF s2(1)] by (simp_all add: eb_inv_def)
      obtain x where x: "attempts_of (TxID etx) (db w2) = [x]"
        using inv(2) mem by (auto simp: sending_ok_def)
      have slot2: "slot a c N etx x (db w2)"
        using mem x s2(2) row_in_progress [OF inv(1) mem] by (simp add: slot_def sending_def)
      obtain as w3 where q3: "Select (loadEthTxAttempts (TxID etx)) w2 = (as, w3)"
        by (cases "Select (loadEthTxAttempts (TxID etx)) w2")
      have s3: "eb_guarded env cfg a c w3 \<and> slot a c N etx x (db w3) \<and> sent w3 = sent w2
          \<and> (\<forall>y. as = Inr y \<longrightarrow> y = loadEthTxAttempts (TxID etx) (db w3))"
        by (rule eb.Select_guarded [OF s2(1) slot_stable slot2 q3])
      then have "attempts_of (TxID etx) (db w3) = [x]" by (simp add: slot_def sending_def)
      then have load: "loadEthTxAttempts (TxID etx) (db w3) = [x]"
        by (simp add: loadEthTxAttempts_def attempts_of_def)
      have "AttemptState x = EthTxAttemptInProgress" using slotD(5) [OF s2(1) slot2] .
      then show ?thesis
        using r' Inr Some q3 s3 s2(3) load by (auto simp: N_def slot_def split: sum.splits)
    qed
  qed
qed

lemma handleAnyInProgressEthTx_ok:
  assumes c: "codec_ok env" and g: "eb_guarded env cfg a c w"
    and r: "handleAnyInProgressEthTx env cfg ks c errText a rs w = (out, w1)"
  shows "run_post env cfg a c w w1 \<and> outcome_post a out w1"
proof -
  obtain res :: "'a tx_error + (EthTx \<times> EthTxAttempt) option" and w2 where q: "getInProgressEthTx a w = (res, w2)"
    by (cases "getInProgressEthTx a w :: ('a tx_error + (EthTx \<times> EthTxAttempt) option) \<times> txworld")
  note ok = getInProgressEthTx_ok [OF g q]
  have run: "run_post env cfg a c w w2" using ok by (intro run_post_read) auto
  show ?thesis
  proof (cases res)
    case (Inl e)
    then show ?thesis using r q ok run by (auto simp: handleAnyInProgressEthTx_def outcome_post_def)
  next
    case (Inr found)
    show ?thesis
    proof (cases found)
      case None
      then show ?thesis using r q ok run Inr by (auto simp: handleAnyInProgressEthTx_def outcome_post_def)
    next
      case (Some p)
      obtain etx x where p: "p = (etx, x)" by (cases p)
      obtain out3 w3 where h: "handleInProgressEthTx env cfg ks c (CreatedAt etx) errText rs etx x w2 = (out3, w3)"
        by (cases "handleInProgressEthTx env cfg ks c (CreatedAt etx) errText rs etx x w2")
      have "run_post env cfg a c w2 w3 \<and> outcome_post a out3 w3"
        using handleInProgressEthTx_ok [OF c _ _ h] ok Inr Some p by auto
      then show ?thesis
        using r q Inr Some p h run_post_trans [OF run]
        by (auto simp: handleAnyInProgressEthTx_def outcome_post_def split: outcome.splits option.splits)
    qed
  qed
qed

lemma queue_row:
  assumes "eb_inv env cfg a c d" "in_progress_of a d = []"
    "findNextUnstartedTransactionFromAddress a c d = Some etx"
  shows "queued a c (etx\<lparr>Nonce := Some (key_nonce a c d)\<rparr>) d"
proof -
  have ok: "tables_ok d" "ids_ok d" using assms(1) by (simp_all add: eb_inv_def)
  obtain ts where "sort_by queue_before (with_state EthTxUnstarted a c d) = etx # ts"
    using assms(3) by (auto simp: findNextUnstartedTransactionFromAddress_def split: list.splits)
  then have "etx \<in> set (with_state EthTxUnstarted a c d)" by (metis list.set_intros(1) sort_by_set)
  then have mem: "etx \<in> set (eth_txes d)" "FromAddress etx = a" "TxChainID etx = c" "TxState etx = EthTxUnstarted"
    by (auto simp: with_state_def)
  have "eth_tx_ok etx" using tables_ok_unique(4) [OF ok(1) mem(1)] .
  then have none: "Nonce etx = None" "TxError etx = None" "BroadcastAt etx = None" "InitialBroadcastAt etx = None"
    using mem(4) by (simp_all add: eth_tx_ok_def chk_eth_txes_fsm_def)
  have "t = etx" if "t \<in> set (eth_txes d)" "TxID t = TxID etx" for t
    using tables_ok_unique(1) [OF ok(1) that(1) mem(1) that(2)] .
  then have "\<forall>t\<in>set (eth_txes d). TxID t = TxID etx \<longrightarrow> t = etx\<lparr>Nonce := None\<rparr>"
    using none(1) by (metis (full_types) EthTx.surjective EthTx.update_convs(2))
  moreover have "TxID etx < eth_txes_id_seq d" using ok(2) mem(1) by (simp add: ids_ok_def)
  ultimately show ?thesis using assms(2) mem none by (simp add: queued_def row_of_def)
qed

lemma GetNextNonce_ok:
  assumes g: "eb_guarded env cfg a c w" and s: "queued a c etx (db w)"
    and r: "GetNextNonce ks a c w = (res :: 'e tx_error + int, w1)"
  shows "eb_guarded env cfg a c w1 \<and> sent w1 = sent w \<and> queued a c etx (db w1)
    \<and> (case res of Inl e \<Rightarrow> \<not> violation (Some e) | Inr n \<Rightarrow> n = key_nonce a c (db w1))"
proof (cases "KeyExists ks a")
  case True
  obtain found w2 where q: "Select (orm_getNextNonce a c) w = (found, w2)"
    by (cases "Select (orm_getNextNonce a c) w")
  have ok: "eb_guarded env cfg a c w2 \<and> queued a c etx (db w2) \<and> sent w2 = sent w
      \<and> (\<forall>y. found = Inr y \<longrightarrow> y = orm_getNextNonce a c (db w2))"
    by (rule eb.Select_guarded [OF g queued_stable s q])
  have "n = key_nonce a c (db w2)" if "found = Inr (Some n)" for n
    using ok that by (auto simp: orm_getNextNonce_def key_nonce_def split: option.splits if_splits)
  then show ?thesis
    using r True q ok by (auto simp: GetNextNonce_def split: sum.splits option.splits if_splits)
next
  case False
  then show ?thesis using r g s by (auto simp: GetNextNonce_def)
qed

lemma queued_nonce: "queued a c etx d \<Longrightarrow> Nonce etx = Some (key_nonce a c d) \<and> FromAddress etx = a \<and> in_progress_of a d = []"
  by (simp add: queued_def)

lemma nextUnstartedTransactionWithNonce_ok:
  assumes g: "eb_guarded env cfg a c w" and s: "free_slot a c N (db w)"
    and r: "nextUnstartedTransactionWithNonce ks c a w = (res :: 'e tx_error + EthTx option, w1)"
  shows "eb_guarded env cfg a c w1 \<and> sent w1 = sent w \<and> free_slot a c N (db w1)
    \<and> (case res of Inl e \<Rightarrow> \<not> violation (Some e) | Inr None \<Rightarrow> True | Inr (Some etx) \<Rightarrow> queued a c etx (db w1))"
proof -
  obtain found w2 where q: "Select (findNextUnstartedTransactionFromAddress a c) w = (found, w2)"
    by (cases "Select (findNextUnstartedTransactionFromAddress a c) w")
  have ok: "eb_guarded env cfg a c w2 \<and> free_slot a c N (db w2) \<and> sent w2 = sent w
      \<and> (\<forall>y. found = Inr y \<longrightarrow> y = findNextUnstartedTransactionFromAddress a c (db w2))"
    by (rule eb.Select_guarded [OF g free_slot_stable s q])
  show ?thesis
  proof (cases found)
    case (Inl e)
    then show ?thesis using r q ok by (auto simp: nextUnstartedTransactionWithNonce_def)
  next
    case (Inr y)
    show ?thesis
    proof (cases y)
      case None
      then show ?thesis using r q ok Inr by (auto simp: nextUnstartedTransactionWithNonce_def)
    next
      case (Some etx)
      have inv: "eb_inv env cfg a c (db w2)" using guardedD ok by blast
      have free: "in_progress_of a (db w2) = []" "key_nonce a c (db w2) = N" using ok by (simp_all add: free_slot_def)
      have row: "queued a c (etx\<lparr>Nonce := Some N\<rparr>) (db w2)"
        using queue_row [OF inv free(1)] ok Inr Some free(2) by metis
      then have fa: "FromAddress etx = a" by (simp add: queued_def)
      obtain n :: "'e tx_error + int" and w3 where h: "GetNextNonce ks a c w2 = (n, w3)"
        by (cases "GetNextNonce ks a c w2 :: ('e tx_error + int) \<times> txworld")
      note ok3 = GetNextNonce_ok [OF conjunct1 [OF ok] row h]
      have N3: "key_nonce a c (db w3) = N" "in_progress_of a (db w3) = []"
        using ok3 queued_nonce by fastforce+
      show ?thesis
        using r q Inr Some fa h ok ok3 N3
        by (auto simp: nextUnstartedTransactionWithNonce_def free_slot_def split: sum.splits)
    qed
  qed
qed

lemma in_flight_check_ok:
  assumes g: "eb_guarded env cfg a c w" and s: "free_slot a c N (db w)"
    and r: "in_flight_check cfg c a w = (res :: 'e tx_error + bool, w1)"
  shows "eb_guarded env cfg a c w1 \<and> sent w1 = sent w \<and> free_slot a c N (db w1)
    \<and> (case res of Inl e \<Rightarrow> \<not> violation (Some e) | Inr b \<Rightarrow> True)"
proof (cases "EvmMaxInFlightTransactions cfg = 0")
  case True
  then show ?thesis using r g s by (auto simp: in_flight_check_def)
next
  case False
  obtain n w2 where q: "Select (countTransactionsWithState a EthTxUnconfirmed c) w = (n, w2)"
    by (cases "Select (countTransactionsWithState a EthTxUnconfirmed c) w")
  note ok = eb.Select_guarded [OF g free_slot_stable s q]
  obtain m w3 where q3: "Select (countTransactionsWithState a EthTxUnstarted c) w2 = (m, w3)"
    by (cases "Select (countTransactionsWithState a EthTxUnstarted c) w2")
  have ok3: "eb_guarded env cfg a c w3 \<and> free_slot a c N (db w3) \<and> sent w3 = sent w2"
    using eb.Select_guarded [OF conjunct1 [OF ok] free_slot_stable _ q3] ok by blast
  show ?thesis
    using r False q q3 ok ok3 by (auto simp: in_flight_check_def split: sum.splits if_splits)
qed

lemma first_attempt_ok:
  assumes "codec_ok env" "Nonce etx = Some n"
  shows "case first_attempt env cfg cid q etx of
    Ret (Inr x) \<Rightarrow> attempt_ok env cfg etx x | Ret (Inl e) \<Rightarrow> \<not> violation (Some e) | Panic m \<Rightarrow> False"
proof -
  have np: "NewLegacyAttempt env cfg cid etx (Some p) g \<noteq> Panic m"
    "NewDynamicFeeAttempt env cfg cid etx (Some tip) (Some cap) g \<noteq> Panic m" for p g m tip cap
    using NewLegacyAttempt_panic NewDynamicFeeAttempt_panic assms(2) by fastforce+
  show ?thesis
    using NewLegacyAttempt_ok [OF assms(1), of cfg cid etx] NewDynamicFeeAttempt_ok [OF assms(1), of cfg cid etx]
      NewLegacyAttempt_error [of env cfg cid etx] NewDynamicFeeAttempt_error [of env cfg cid etx]
    by (auto simp: first_attempt_def np split: run.splits sum.splits prod.splits)
qed

lemma saveInProgressTransaction_ok:
  assumes g: "eb_guarded env cfg a c w" and s: "queued a c etx (db w)" and x: "attempt_ok env cfg etx x"
    and N: "key_nonce a c (db w) = N"
    and r: "saveInProgressTransaction etx x w = (res :: 'e tx_error + EthTx \<times> EthTxAttempt, w1)"
  shows "eb_guarded env cfg a c w1 \<and> sent w1 = sent w \<and> key_nonce a c (db w1) = N
    \<and> (case res of
         Inr (t, row) \<Rightarrow> slot a c N t row (db w1)
       | Inl e \<Rightarrow> \<not> violation (Some e) \<and> (e = ErrEthTxRemoved \<longrightarrow> free_slot a c N (db w1)))"
proof -
  let ?body = "\<lambda>d. try_bind (insert_attempt x d) (\<lambda>(a, d1).
    try_bind (update_tx_returning (TxID etx)
        (\<lambda>t. t\<lparr>Nonce := Nonce etx, TxState := EthTxInProgress, BroadcastAt := BroadcastAt etx,
              InitialBroadcastAt := InitialBroadcastAt etx\<rparr>) d1) (\<lambda>(t, d2).
      Inr ((t, a), d2)))"
  let ?P = "\<lambda>d. queued a c etx d \<and> key_nonce a c d = N"
  have st: "eb_stable env cfg a c ?P"
    using queued_stable [of env cfg a c etx] nonce_stable [of env cfg a c N] unfolding eb.stable_def by blast
  have pre: "?P (db w)" using s N by simp
  obtain res' where t: "Transaction ?body w = (res', w1)"
    and e: "res = (case res' of Inl e \<Rightarrow> Inl (if e = FkeyEthTxes then ErrEthTxRemoved else SqlErr e) | Inr p \<Rightarrow> Inr p)"
    using r s x
    by (auto simp: saveInProgressTransaction_def queued_def attempt_ok_def split: prod.splits sum.splits sql_error.splits)
  have b: "eb_inv env cfg a c d' \<and> slot a c N (fst p) (snd p) d'"
    if di: "eb_inv env cfg a c d" and dp: "?P d" and db: "?body d = Inr (p, d')" for d p d'
  proof -
    obtain row d1 t where "insert_attempt x d = Inr (row, d1)" "p = (t, row)"
      "update_tx_returning (TxID etx) (\<lambda>t. t\<lparr>Nonce := Nonce etx, TxState := EthTxInProgress,
         BroadcastAt := BroadcastAt etx, InitialBroadcastAt := InitialBroadcastAt etx\<rparr>) d1 = Inr (t, d')"
      using db by (auto simp: try_bind_Inr)
    then show ?thesis using start_body [OF di _ x] dp by (auto simp: slot_def)
  qed
  have "eb_guarded env cfg a c w1 \<and> sent w1 = sent w
    \<and> (case res' of Inr p \<Rightarrow> slot a c N (fst p) (snd p) (db w1)
       | Inl e \<Rightarrow> ?P (db w1) \<or> e = ErrUnavailable \<and> (\<exists>p :: EthTx \<times> EthTxAttempt. slot a c N (fst p) (snd p) (db w1)))"
    by (rule eb.Transaction_guarded [where Q = "\<lambda>p. slot a c N (fst p) (snd p)", OF g st pre _ t]) (rule b)
  then show ?thesis using e queued_nonce by (auto simp: slot_def free_slot_def split: sum.splits)
qed

lemma queue_step_ok:
  assumes c: "codec_ok env" and g: "eb_guarded env cfg a c w" and free: "in_progress_of a (db w) = []"
    and r: "queue_step env cfg ks c errText a q w = (res, w1)"
  shows "run_post env cfg a c w w1
    \<and> (case res of Stop out \<Rightarrow> outcome_post a out w1 | Next \<Rightarrow> in_progress_of a (db w1) = [])"
proof -
  define N where "N = key_nonce a c (db w)"
  have s: "free_slot a c N (db w)" using free by (simp add: free_slot_def N_def)
  have read: "run_post env cfg a c w w'" if "eb_guarded env cfg a c w'" "sent w' = sent w" "key_nonce a c (db w') = N" for w'
    using run_post_read [OF that(1,2)] that(3) by (simp add: N_def)
  note r' = r [unfolded queue_step_def]
  obtain flight :: "'a tx_error + bool" and w2 where q2: "in_flight_check cfg c a w = (flight, w2)"
    by (cases "in_flight_check cfg c a w :: ('a tx_error + bool) \<times> txworld")
  note ok2 = in_flight_check_ok [OF g s q2]
  show ?thesis
  proof (cases "flight = Inr True")
    case False
    have "run_post env cfg a c w w2" using read ok2 by (simp add: free_slot_def)
    then show ?thesis
      using False r' q2 ok2 by (auto simp: outcome_post_def free_slot_def split: sum.splits bool.splits)
  next
    case True
    obtain found :: "'a tx_error + EthTx option" and w3 where q3: "nextUnstartedTransactionWithNonce ks c a w2 = (found, w3)"
      by (cases "nextUnstartedTransactionWithNonce ks c a w2 :: ('a tx_error + EthTx option) \<times> txworld")
    have ok3: "eb_guarded env cfg a c w3 \<and> sent w3 = sent w \<and> free_slot a c N (db w3)
      \<and> (case found of Inl e \<Rightarrow> \<not> violation (Some e) | Inr None \<Rightarrow> True | Inr (Some etx) \<Rightarrow> queued a c etx (db w3))"
      using nextUnstartedTransactionWithNonce_ok [OF _ _ q3, of env cfg N] ok2 by auto
    have run3: "run_post env cfg a c w w3" using read ok3 by (simp add: free_slot_def)
    note r3 = r' [unfolded q2 True, simplified, unfolded q3]
    show ?thesis
    proof (cases "\<exists>etx. found = Inr (Some etx)")
      case False
      then show ?thesis
        using r3 ok3 run3 by (auto simp: outcome_post_def free_slot_def split: sum.splits option.splits)
    next
      case True
      then obtain etx where found: "found = Inr (Some etx)" by blast
      have qd: "queued a c etx (db w3)" using ok3 found by simp
      have N3: "key_nonce a c (db w3) = N" "Nonce etx = Some N"
        using ok3 queued_nonce [OF qd] by (simp_all add: free_slot_def)
      note r4 = r3 [unfolded found, simplified]
      note fa = first_attempt_ok [OF c N3(2), of cfg c q]
      show ?thesis
      proof (cases "\<exists>x. first_attempt env cfg c q etx = Ret (Inr x)")
        case False
        then show ?thesis
          using r4 fa run3 by (auto simp: outcome_post_def split: run.splits sum.splits)
      next
        case True
        then obtain x where x: "first_attempt env cfg c q etx = Ret (Inr x)" by blast
        then have xok: "attempt_ok env cfg etx x" using fa by simp
        obtain saved :: "'a tx_error + EthTx \<times> EthTxAttempt" and w4 where q4: "saveInProgressTransaction etx x w3 = (saved, w4)"
          by (cases "saveInProgressTransaction etx x w3 :: ('a tx_error + EthTx \<times> EthTxAttempt) \<times> txworld")
        have ok4: "eb_guarded env cfg a c w4 \<and> sent w4 = sent w3 \<and> key_nonce a c (db w4) = N
          \<and> (case saved of Inr (t, row) \<Rightarrow> slot a c N t row (db w4)
             | Inl e \<Rightarrow> \<not> violation (Some e) \<and> (e = ErrEthTxRemoved \<longrightarrow> free_slot a c N (db w4)))"
          using saveInProgressTransaction_ok [OF _ qd xok N3(1) q4] ok3 by blast
        have "run_post env cfg a c w3 w4" using ok4 N3(1) by (intro run_post_read) auto
        then have run4: "run_post env cfg a c w w4" using run_post_trans [OF run3] by blast
        note r5 = r4 [unfolded x, simplified, unfolded q4, simplified]
        show ?thesis
        proof (cases saved)
          case (Inl e)
          then show ?thesis
            using r5 ok4 run4 by (cases e) (auto simp: outcome_post_def free_slot_def)
        next
          case (Inr p)
          obtain t row where p: "p = (t, row)" by (cases p)
          obtain out w5 where h: "handleInProgressEthTx env cfg ks c (Clock q) errText (Rounds q) t row w4 = (out, w5)"
            by (cases "handleInProgressEthTx env cfg ks c (Clock q) errText (Rounds q) t row w4")
          have post: "run_post env cfg a c w4 w5 \<and> outcome_post a out w5"
            using handleInProgressEthTx_ok [OF c _ _ h] ok4 Inr p by auto
          have "run_post env cfg a c w w5" using run_post_trans [OF run4] post by blast
          then show ?thesis
            using r5 Inr p h post by (auto simp: outcome_post_def split: outcome.splits option.splits)
        qed
      qed
    qed
  qed
qed

lemma queue_loop_ok:
  assumes c: "codec_ok env"
  shows "eb_guarded env cfg a c w \<Longrightarrow> in_progress_of a (db w) = []
    \<Longrightarrow> queue_loop env cfg ks c errText a qs w = (out, w1) \<Longrightarrow> run_post env cfg a c w w1 \<and> outcome_post a out w1"
proof (induction qs arbitrary: w)
  case Nil
  then show ?case by (auto simp: run_post_read outcome_post_def)
next
  case (Cons q qs)
  obtain res w2 where h: "queue_step env cfg ks c errText a q w = (res, w2)"
    by (cases "queue_step env cfg ks c errText a q w")
  note step = queue_step_ok [OF c Cons.prems(1,2) h]
  show ?case
  proof (cases res)
    case (Stop out')
    then show ?thesis using Cons.prems(3) h step by simp
  next
    case Next
    then have "queue_loop env cfg ks c errText a qs w2 = (out, w1)" using Cons.prems(3) h by simp
    moreover have "eb_guarded env cfg a c w2" "in_progress_of a (db w2) = []" using step Next by (simp_all add: run_post_def)
    ultimately have "run_post env cfg a c w2 w1 \<and> outcome_post a out w1" using Cons.IH by blast
    then show ?thesis using step run_post_trans by blast
  qed
qed

lemma processUnstartedEthTxs_ok:
  assumes c: "codec_ok env" and g: "eb_guarded env cfg a c w"
    and r: "processUnstartedEthTxs env cfg ks c errText a rs qs w = (out, w1)"
  shows "run_post env cfg a c w w1 \<and> outcome_post a out w1"
proof -
  obtain out2 w2 where h: "handleAnyInProgressEthTx env cfg ks c errText a rs w = (out2, w2)"
    by (cases "handleAnyInProgressEthTx env cfg ks c errText a rs w")
  note ok = handleAnyInProgressEthTx_ok [OF c g h]
  show ?thesis
  proof (cases "\<exists>retryable. out2 = Returned None retryable")
    case True
    then have "queue_loop env cfg ks c errText a qs w2 = (out, w1)" "in_progress_of a (db w2) = []"
      using r h ok by (auto simp: processUnstartedEthTxs_def outcome_post_def)
    moreover have "eb_guarded env cfg a c w2" using ok by (simp add: run_post_def)
    ultimately have "run_post env cfg a c w2 w1 \<and> outcome_post a out w1" using queue_loop_ok [OF c] by blast
    then show ?thesis using ok run_post_trans by blast
  next
    case False
    then show ?thesis
      using r h ok by (auto simp: processUnstartedEthTxs_def split: outcome.splits option.splits)
  qed
qed

end
