(* ===== verification/TxManager.thy ===== *)
theory TxManager
  imports TxNonces
begin

text \<open>
  \<open>txmgr.go\<close> (creation of transactions, queue capacity, ether transfers, abandonment), the queue
  strategies of \<open>strategies.go\<close>, the nonce synchronization of \<open>nonce_syncer.go\<close>, and the reaper of
  \<open>reaper.go\<close> with \<open>pg.Batch\<close>: what else writes to the tables of a key. Each keeps the invariant of
  the broadcaster of every key, and within the frame it works in.
\<close>

section \<open>Queue strategies\<close>

datatype TxStrategy =
    SendEveryStrategy
  | DropOldestStrategy nat nat

definition NewQueueingTxStrategy :: "nat \<Rightarrow> nat \<Rightarrow> TxStrategy" where
  "NewQueueingTxStrategy subject queueSize =
     (if queueSize > 0 then DropOldestStrategy subject queueSize else SendEveryStrategy)"

fun strategy_Subject :: "TxStrategy \<Rightarrow> nat option" where
  "strategy_Subject SendEveryStrategy = None"
| "strategy_Subject (DropOldestStrategy s n) = Some s"

definition unstarted_of_subject :: "nat \<Rightarrow> txdb \<Rightarrow> EthTx list" where
  "unstarted_of_subject s d = filter (\<lambda>t. TxState t = EthTxUnstarted \<and> Subject t = Some s) (eth_txes d)"

text \<open>The smallest of the first \<open>n\<close> numbers in descending order; of none it is null, and nothing is below null.\<close>

definition oldest_kept :: "nat \<Rightarrow> nat \<Rightarrow> txdb \<Rightarrow> nat option" where
  "oldest_kept s n d =
     (let ids = take n (sort_by (\<ge>) (map TxID (unstarted_of_subject s d)))
      in if ids = [] then None else Some (last ids))"

fun PruneQueue :: "TxStrategy \<Rightarrow> txdb \<Rightarrow> sql_error + nat \<times> txdb" where
  "PruneQueue SendEveryStrategy d = Inr (0, d)"
| "PruneQueue (DropOldestStrategy s n) d =
     (let doomed = (\<lambda>t. TxState t = EthTxUnstarted \<and> Subject t = Some s
                        \<and> (case oldest_kept s n d of None \<Rightarrow> False | Some m \<Rightarrow> TxID t < m))
      in try_bind (checked (delete_txes doomed d)) (\<lambda>d1. Inr (length (filter doomed (eth_txes d)), d1)))"

section \<open>New transactions\<close>

record NewTx =
  NewFromAddress :: nat
  NewToAddress :: nat
  NewEncodedPayload :: "8 word list"
  NewGasLimit :: "32 word"
  NewMeta :: "EthTxMeta option"
  ForwarderAddress :: nat
  NewMinConfirmations :: "32 word option"
  NewPipelineTaskRunID :: "nat option"
  Strategy :: TxStrategy
  NewChecker :: string

definition insert_tx :: "EthTx \<Rightarrow> txdb \<Rightarrow> sql_error + EthTx \<times> txdb" where
  "insert_tx t d =
     (let row = t\<lparr>TxID := eth_txes_id_seq d\<rparr>
      in try_bind (checked (d\<lparr>eth_txes := eth_txes d @ [row], eth_txes_id_seq := Suc (eth_txes_id_seq d)\<rparr>))
           (\<lambda>d1. Inr (row, d1)))"

definition unstarted_tx :: "nat \<Rightarrow> nat \<Rightarrow> 8 word list \<Rightarrow> int \<Rightarrow> 32 word \<Rightarrow> int \<Rightarrow> int \<Rightarrow> EthTx" where
  "unstarted_tx addr to payload value gasLimit now cid =
     \<lparr>TxID = 0, Nonce = None, FromAddress = addr, ToAddress = to, EncodedPayload = payload, Value = value,
      GasLimit = gasLimit, TxError = None, BroadcastAt = None, InitialBroadcastAt = None, CreatedAt = now,
      TxState = EthTxUnstarted, Meta = None, Subject = None, TxChainID = cid, PipelineTaskRunID = None,
      MinConfirmations = None, AccessList = None, TransmitChecker = None\<rparr>"

definition CheckEthTxQueueCapacity ::
    "nat \<Rightarrow> nat \<Rightarrow> int \<Rightarrow> txworld \<Rightarrow> 'e tx_error option \<times> txworld" where
  "CheckEthTxQueueCapacity fromAddress maxQueuedTransactions cid w =
     (if maxQueuedTransactions = 0 then (None, w)
      else
        (case Select (countTransactionsWithState fromAddress EthTxUnstarted cid) w of
           (Inl e, w1) \<Rightarrow> (Some (SqlErr e), w1)
         | (Inr nUnstarted, w1) \<Rightarrow>
             if nUnstarted \<ge> maxQueuedTransactions
             then (Some (InvariantViolation ''too many unstarted transactions in the queue''), w1) else (None, w1)))"

text \<open>
  The metadata of a forwarded transaction gets a pointer to its destination field, and the field is then
  overwritten with the forwarder, so this is what the metadata says when it is stored. A forwarder that
  fails is not used.
\<close>

definition forwarded :: "TxmConfig \<Rightarrow> (nat \<Rightarrow> 8 word list \<Rightarrow> 8 word list option) \<Rightarrow> NewTx \<Rightarrow> NewTx" where
  "forwarded cfg getForwardedPayload newTx =
     (if EvmUseForwarders cfg \<and> ForwarderAddress newTx \<noteq> 0
      then
        (case getForwardedPayload (NewToAddress newTx) (NewEncodedPayload newTx) of
           None \<Rightarrow> newTx
         | Some fwdPayload \<Rightarrow>
             let newTx1 = newTx\<lparr>NewToAddress := ForwarderAddress newTx, NewEncodedPayload := fwdPayload\<rparr>;
                 fwdrDestAddress = NewToAddress newTx1
             in newTx1\<lparr>NewMeta :=
                  (case NewMeta newTx of
                     Some m \<Rightarrow> Some (m\<lparr>MetaFwdrDestAddress := Some fwdrDestAddress\<rparr>)
                   | None \<Rightarrow> Some \<lparr>MetaRequestID = None, MetaFailOnRevert = False,
                                   MetaFwdrDestAddress = Some fwdrDestAddress\<rparr>)\<rparr>)
      else newTx)"

definition create_body ::
    "(EthTxMeta \<Rightarrow> string) \<Rightarrow> int \<Rightarrow> int \<Rightarrow> NewTx \<Rightarrow> txdb \<Rightarrow> sql_error + EthTx \<times> txdb" where
  "create_body marshal cid now newTx d =
     (case (case NewPipelineTaskRunID newTx of
              None \<Rightarrow> None
            | Some run \<Rightarrow> find (\<lambda>t. PipelineTaskRunID t = Some run \<and> TxChainID t = cid) (eth_txes d)) of
        Some etx \<Rightarrow> Inr (etx, d)
      | None \<Rightarrow>
          try_bind
            (insert_tx
              ((unstarted_tx (NewFromAddress newTx) (NewToAddress newTx) (NewEncodedPayload newTx) 0
                  (NewGasLimit newTx) now cid)
                 \<lparr>Meta := map_option marshal (NewMeta newTx), Subject := strategy_Subject (Strategy newTx),
                  MinConfirmations := NewMinConfirmations newTx, PipelineTaskRunID := NewPipelineTaskRunID newTx,
                  TransmitChecker := Some (NewChecker newTx)\<rparr>) d)
            (\<lambda>(etx, d1). try_bind (PruneQueue (Strategy newTx) d1) (\<lambda>(pruned, d2). Inr (etx, d2))))"

definition CreateEthTransaction ::
    "TxmConfig \<Rightarrow> keystore \<Rightarrow> (EthTxMeta \<Rightarrow> string) \<Rightarrow> (nat \<Rightarrow> 8 word list \<Rightarrow> 8 word list option) \<Rightarrow> int \<Rightarrow> int
      \<Rightarrow> NewTx \<Rightarrow> txworld \<Rightarrow> ('e tx_error + EthTx) \<times> txworld" where
  "CreateEthTransaction cfg ks marshal getForwardedPayload cid now newTx0 w =
     (if \<not> KeyExists ks (NewFromAddress newTx0) \<or> \<not> mem_ok ks (NewFromAddress newTx0) cid
      then (Inl (KeyStoreErr ''cannot send transaction from address on chain''), w)
      else
        (let newTx = forwarded cfg getForwardedPayload newTx0
         in case CheckEthTxQueueCapacity (NewFromAddress newTx) (EvmMaxQueuedTransactions cfg) cid w of
              (Some e, w1) \<Rightarrow> (Inl e, w1)
            | (None, w1) \<Rightarrow>
                (case Transaction (create_body marshal cid now newTx) w1 of
                   (Inl e, w2) \<Rightarrow> (Inl (SqlErr e), w2)
                 | (Inr etx, w2) \<Rightarrow> (Inr etx, w2))))"

definition SendEther :: "int \<Rightarrow> nat \<Rightarrow> nat \<Rightarrow> int \<Rightarrow> 32 word \<Rightarrow> int \<Rightarrow> txworld \<Rightarrow> ('e tx_error + EthTx) \<times> txworld" where
  "SendEther cid addr to value gasLimit now w =
     (if to = 0 then (Inl (InvariantViolation ''cannot send ether to zero address''), w)
      else
        (case Transaction (insert_tx (unstarted_tx addr to [] value gasLimit now cid)) w of
           (Inl e, w1) \<Rightarrow> (Inl (SqlErr e), w1)
         | (Inr etx, w1) \<Rightarrow> (Inr etx, w1)))"

section \<open>Abandonment\<close>

text \<open>Run by \<open>Reset\<close> while the broadcaster and the confirmer are stopped.\<close>

definition abandon_update :: "int \<Rightarrow> nat \<Rightarrow> txdb \<Rightarrow> txdb" where
  "abandon_update cid addr d =
     update_txes
       (\<lambda>t. TxState t \<in> {EthTxUnconfirmed, EthTxInProgress, EthTxUnstarted} \<and> TxChainID t = cid \<and> FromAddress t = addr)
       (\<lambda>t. t\<lparr>TxState := EthTxFatalError, Nonce := None, TxError := Some ''abandoned''\<rparr>) d"

definition abandon :: "int \<Rightarrow> nat \<Rightarrow> txworld \<Rightarrow> 'e tx_error option \<times> txworld" where
  "abandon cid addr w =
     (case Transaction (\<lambda>d. try_bind (checked (abandon_update cid addr d)) (\<lambda>d1. Inr ((), d1))) w of
        (Inl e, w1) \<Rightarrow> (Some (SqlErr e), w1)
      | (Inr u, w1) \<Rightarrow> (None, w1))"

section \<open>Nonce synchronization\<close>

definition hasInProgressTransaction :: "nat \<Rightarrow> int \<Rightarrow> txdb \<Rightarrow> bool" where
  "hasInProgressTransaction account cid d = (with_state EthTxInProgress account cid d \<noteq> [])"

definition set_next_nonce :: "nat \<Rightarrow> int \<Rightarrow> int \<Rightarrow> int \<Rightarrow> txdb \<Rightarrow> sql_error + unit \<times> txdb" where
  "set_next_nonce addr cid keyNextNonce newNextNonce d =
     (let hit = (\<lambda>k. KeyAddress k = addr \<and> NextNonce k = keyNextNonce \<and> KeyChainID k = cid)
      in try_bind
           (checked (d\<lparr>evm_key_states := update_where hit (\<lambda>k. k\<lparr>NextNonce := newNextNonce\<rparr>) (evm_key_states d)\<rparr>))
           (\<lambda>d1. if \<not> list_ex hit (evm_key_states d) then Inl ErrAborted else Inr ((), d1)))"

text \<open>\<open>localNonce\<close> is compared as an unsigned number.\<close>

definition fast_forward ::
    "int \<Rightarrow> nat \<Rightarrow> 64 word \<Rightarrow> int \<Rightarrow> bool \<Rightarrow> txworld \<Rightarrow> 'e tx_error option \<times> txworld" where
  "fast_forward cid address chainNonce keyNextNonce hasInProgress w =
     (let localNonce = (if hasInProgress then keyNextNonce + 1 else keyNextNonce)
      in if chainNonce \<le> word_of_int localNonce then (None, w)
         else
           (let newNextNonce = (if hasInProgress then chainNonce - 1 else chainNonce)
            in case Transaction (set_next_nonce address cid keyNextNonce (uint newNextNonce)) w of
                 (Inl e, w1) \<Rightarrow> (Some (SqlErr e), w1)
               | (Inr u, w1) \<Rightarrow> (None, w1)))"

text \<open>The node's answer is none when the request fails.\<close>

definition fastForwardNonceIfNecessary ::
    "keystore \<Rightarrow> int \<Rightarrow> 64 word option \<Rightarrow> nat \<Rightarrow> txworld \<Rightarrow> 'e tx_error option \<times> txworld" where
  "fastForwardNonceIfNecessary ks cid pendingNonce address w =
     (case pendingNonce of
        None \<Rightarrow> (Some NodeErr, w)
      | Some chainNonce \<Rightarrow>
          if chainNonce = 0 then (None, w)
          else
            (case GetNextNonce ks address cid w of
               (Inl e, w1) \<Rightarrow> (Some e, w1)
             | (Inr keyNextNonce, w1) \<Rightarrow>
                 (case Select (hasInProgressTransaction address cid) w1 of
                    (Inl e, w2) \<Rightarrow> (Some (SqlErr e), w2)
                  | (Inr hasInProgress, w2) \<Rightarrow>
                      fast_forward cid address chainNonce keyNextNonce hasInProgress w2)))"

section \<open>The reaper\<close>

text \<open>\<open>ORDER BY block_number ASC, id ASC\<close>.\<close>

definition receipt_before :: "EthReceipt \<Rightarrow> EthReceipt \<Rightarrow> bool" where
  "receipt_before r s \<longleftrightarrow>
     ReceiptBlockNumber r < ReceiptBlockNumber s
     \<or> ReceiptBlockNumber r = ReceiptBlockNumber s \<and> ReceiptID r \<le> ReceiptID s"

definition old_enough_receipts :: "int \<Rightarrow> nat \<Rightarrow> txdb \<Rightarrow> EthReceipt list" where
  "old_enough_receipts minBlockNumberToKeep limit d =
     take limit (sort_by receipt_before (filter (\<lambda>r. ReceiptBlockNumber r < minBlockNumberToKeep) (eth_receipts d)))"

definition reap_confirmed :: "int \<Rightarrow> int \<Rightarrow> int \<Rightarrow> nat \<Rightarrow> txdb \<Rightarrow> EthTx \<Rightarrow> bool" where
  "reap_confirmed cid minBlockNumberToKeep timeThreshold limit d t \<longleftrightarrow>
     CreatedAt t < timeThreshold \<and> TxState t = EthTxConfirmed \<and> TxChainID t = cid
     \<and> list_ex (\<lambda>r. list_ex (\<lambda>a. EthTxID a = TxID t \<and> AttemptHash a = ReceiptTxHash r) (eth_tx_attempts d))
         (old_enough_receipts minBlockNumberToKeep limit d)"

definition reap_fatal :: "int \<Rightarrow> int \<Rightarrow> EthTx \<Rightarrow> bool" where
  "reap_fatal cid timeThreshold t \<longleftrightarrow>
     CreatedAt t < timeThreshold \<and> TxState t = EthTxFatalError \<and> TxChainID t = cid"

text \<open>A statement that deletes transactions and says how many.\<close>

definition reap_stmt :: "(txdb \<Rightarrow> EthTx \<Rightarrow> bool) \<Rightarrow> txdb \<Rightarrow> sql_error + nat \<times> txdb" where
  "reap_stmt doomed d =
     try_bind (checked (delete_txes (doomed d) d)) (\<lambda>d1. Inr (length (filter (doomed d) (eth_txes d)), d1))"

lemma next_turn_script: "next_turn w = (ans, w1) \<Longrightarrow> ans = Refuse \<or> length (script w1) < length (script w)"
  by (cases "script w") auto

lemma Transaction_Inr_script: "Transaction body w = (Inr x, w1) \<Longrightarrow> length (script w1) < length (script w)"
  using next_turn_script [of w]
  by (cases "next_turn w") (fastforce simp: Transaction_def split: db_answer.splits sum.splits prod.splits)

text \<open>\<open>pg.Batch\<close> over such a statement: again while a whole batch was affected.\<close>

function Batch :: "nat \<Rightarrow> (txdb \<Rightarrow> sql_error + nat \<times> txdb) \<Rightarrow> txworld \<Rightarrow> sql_error option \<times> txworld" where
  "Batch limit stmt w =
     (case Transaction stmt w of
        (Inl e, w1) \<Rightarrow> (Some e, w1)
      | (Inr nDeleted, w1) \<Rightarrow> if nDeleted < limit then (None, w1) else Batch limit stmt w1)"
  by auto
termination
  by (relation "measure (\<lambda>(limit, stmt, w). length (script w))") (simp_all, metis Transaction_Inr_script)

declare Batch.simps [simp del]

definition ReapEthTxes ::
    "nat \<Rightarrow> TxmConfig \<Rightarrow> int \<Rightarrow> int \<Rightarrow> int \<Rightarrow> int \<Rightarrow> txworld \<Rightarrow> 'e tx_error option \<times> txworld" where
  "ReapEthTxes batchSize cfg cid threshold now headNum w =
     (if threshold = 0 then (None, w)
      else
        (let minBlockNumberToKeep = wrap64 (headNum - int (EvmFinalityDepth cfg));
             timeThreshold = now - threshold
         in case Batch batchSize (reap_stmt (reap_confirmed cid minBlockNumberToKeep timeThreshold batchSize)) w of
              (Some e, w1) \<Rightarrow> (Some (SqlErr e), w1)
            | (None, w1) \<Rightarrow>
                (case Batch batchSize (reap_stmt (\<lambda>d. reap_fatal cid timeThreshold)) w1 of
                   (Some e, w2) \<Rightarrow> (Some (SqlErr e), w2)
                 | (None, w2) \<Rightarrow> (None, w2))))"

section \<open>Beside the broadcaster\<close>

lemma insert_tx_Inr:
  "insert_tx t d = Inr (row, d') \<longleftrightarrow>
     row = t\<lparr>TxID := eth_txes_id_seq d\<rparr>
     \<and> d' = d\<lparr>eth_txes := eth_txes d @ [row], eth_txes_id_seq := Suc (eth_txes_id_seq d)\<rparr> \<and> tables_ok d'"
  unfolding insert_tx_def Let_def try_bind_Inr checked_Inr by auto

lemma attempts_of_none:
  assumes "tables_ok d" "\<And>t. t \<in> set (eth_txes d) \<Longrightarrow> TxID t \<noteq> i"
  shows "attempts_of i d = []"
proof -
  have "EthTxID x \<noteq> i" if "x \<in> set (eth_tx_attempts d)" for x
    using tables_ok_unique(6) [OF assms(1) that] assms(2) by metis
  then show ?thesis by (simp add: attempts_of_def filter_empty_conv)
qed

lemma insert_tx_ok:
  assumes I: "eb_inv env cfg a c d" and ins: "insert_tx t d = Inr (row, d')"
    and t: "TxState t = EthTxUnstarted" "Nonce t = None"
  shows "eb_inv env cfg a c d' \<and> eb_frame a c d d'"
proof -
  have parts: "tables_ok d" "ids_ok d" "nonces_ok a c d" "sending_ok env cfg a c d" "queue_ok a c d"
    using I by (simp_all add: eb_inv_def)
  have row: "row = t\<lparr>TxID := eth_txes_id_seq d\<rparr>" and ok: "tables_ok d'"
    and d': "d' = d\<lparr>eth_txes := eth_txes d @ [row], eth_txes_id_seq := Suc (eth_txes_id_seq d)\<rparr>"
    using ins unfolding insert_tx_Inr by blast+
  have key: "key_nonce a c d' = key_nonce a c d" by (rule key_nonce_cong) (simp add: d')
  have att: "attempts_of i d' = attempts_of i d" for i by (simp add: attempts_of_def d')
  have slot: "in_progress_of a d' = in_progress_of a d" by (simp add: in_progress_of_def d' row t)
  have fresh: "attempts_of (eth_txes_id_seq d) d = []"
    by (rule attempts_of_none [OF parts(1)]) (use parts(2) in \<open>auto simp: ids_ok_def\<close>)
  have "ids_ok d'" using parts(2) by (auto simp: ids_ok_def d' row less_Suc_eq)
  moreover have "nonces_ok a c d'"
  proof -
    have "nonce_ok (key_nonce a c d) row" using t by (simp add: row nonce_ok_def)
    moreover have "set (eth_txes d') = insert row (set (eth_txes d))" by (simp add: d')
    ultimately show ?thesis using parts(3) unfolding nonces_ok_def key by simp
  qed
  moreover have "sending_ok env cfg a c d'" using parts(4) by (simp add: sending_ok_def slot att)
  moreover have "queue_ok a c d'" using parts(5) fresh unfolding queue_ok_def att by (auto simp: d' row)
  moreover have "eb_frame a c d d'" by (auto simp: eb_frame_def key slot att) (auto simp: d' row)
  ultimately show ?thesis using ok by (simp add: eb_inv_def)
qed

lemma attempts_of_delete_txes:
  "attempts_of i (delete_txes P d) = (if \<exists>t\<in>set (eth_txes d). P t \<and> TxID t = i then [] else attempts_of i d)"
  by (auto simp: attempts_of_def delete_txes_def delete_attempts_def list_ex_iff filter_empty_conv intro!: filter_cong)

text \<open>Rows that are not in progress may be removed.\<close>

lemma delete_txes_ok:
  assumes I: "eb_inv env cfg a c d" and ok: "tables_ok (delete_txes P d)"
    and P: "\<And>t. t \<in> set (eth_txes d) \<Longrightarrow> P t \<Longrightarrow> TxState t \<noteq> EthTxInProgress"
  shows "eb_inv env cfg a c (delete_txes P d) \<and> eb_frame a c d (delete_txes P d)"
proof -
  define d' where "d' = delete_txes P d"
  have parts: "tables_ok d" "ids_ok d" "nonces_ok a c d" "sending_ok env cfg a c d" "queue_ok a c d"
    using I by (simp_all add: eb_inv_def)
  have txes: "eth_txes d' = filter (\<lambda>t. \<not> P t) (eth_txes d)"
    and atts: "set (eth_tx_attempts d') \<subseteq> set (eth_tx_attempts d)"
    and seqs: "eth_txes_id_seq d' = eth_txes_id_seq d" "eth_tx_attempts_id_seq d' = eth_tx_attempts_id_seq d"
    by (auto simp: d'_def delete_txes_def delete_attempts_def)
  have key: "key_nonce a c d' = key_nonce a c d"
    by (rule key_nonce_cong) (simp add: d'_def delete_txes_def delete_attempts_def)
  have slot: "in_progress_of a d' = in_progress_of a d"
    unfolding in_progress_of_def txes filter_filter using P by (intro filter_cong) auto
  have att: "attempts_of (TxID t) d' = attempts_of (TxID t) d" if "t \<in> set (eth_txes d)" "\<not> P t" for t
  proof -
    have "\<not> (\<exists>u\<in>set (eth_txes d). P u \<and> TxID u = TxID t)"
      using that tables_ok_unique(1) [OF parts(1)] by metis
    then show ?thesis unfolding d'_def attempts_of_delete_txes by (rule if_not_P)
  qed
  have att_slot: "attempts_of (TxID t) d' = attempts_of (TxID t) d" if "t \<in> set (in_progress_of a d)" for t
  proof -
    have "t \<in> set (eth_txes d)" "TxState t = EthTxInProgress" using that by (simp_all add: in_progress_of_def)
    then show ?thesis using att P by blast
  qed
  have "ids_ok d'" using parts(2) atts by (auto simp: ids_ok_def txes seqs)
  moreover have "nonces_ok a c d'" using parts(3) by (auto simp: nonces_ok_def key txes)
  moreover have "sending_ok env cfg a c d'" using parts(4) att_slot by (simp add: sending_ok_def slot)
  moreover have "queue_ok a c d'" using parts(5) att by (auto simp: queue_ok_def txes)
  moreover have "eb_frame a c d d'"
    using att_slot by (auto simp: eb_frame_def key slot seqs txes)
  ultimately show ?thesis using ok by (simp add: eb_inv_def d'_def)
qed

lemma eb_frame_trans:
  assumes "eb_frame a c d d1" "eb_frame a c d1 d2"
  shows "eb_frame a c d d2"
  unfolding eb_frame_def
proof (intro conjI ballI impI)
  fix t' assume t': "t' \<in> set (eth_txes d2)" "TxID t' < eth_txes_id_seq d"
  then have "TxID t' < eth_txes_id_seq d1" using assms(1) by (auto simp: eb_frame_def)
  then obtain t1 where t1: "t1 \<in> set (eth_txes d1)" "TxID t1 = TxID t'"
    "FromAddress t1 = a \<and> TxChainID t1 = c \<and> TxState t1 = EthTxUnstarted \<longrightarrow> t' = t1"
    using assms(2) t'(1) unfolding eb_frame_def by blast
  then obtain t where "t \<in> set (eth_txes d)" "TxID t = TxID t1"
    "FromAddress t = a \<and> TxChainID t = c \<and> TxState t = EthTxUnstarted \<longrightarrow> t1 = t"
    using assms(1) t'(2) unfolding eb_frame_def by metis
  then show "\<exists>t\<in>set (eth_txes d). TxID t = TxID t'
      \<and> (FromAddress t = a \<and> TxChainID t = c \<and> TxState t = EthTxUnstarted \<longrightarrow> t' = t)"
    using t1 by metis
qed (use assms in \<open>auto simp: eb_frame_def\<close>)

lemma PruneQueue_ok:
  assumes "eb_inv env cfg a c d" "PruneQueue st d = Inr (n, d')"
  shows "eb_inv env cfg a c d' \<and> eb_frame a c d d'"
proof (cases st)
  case SendEveryStrategy
  then show ?thesis using assms eb.frame_refl by auto
next
  case (DropOldestStrategy s m)
  define P where "P = (\<lambda>t :: EthTx. TxState t = EthTxUnstarted \<and> Subject t = Some s
    \<and> (case oldest_kept s m d of None \<Rightarrow> False | Some k \<Rightarrow> TxID t < k))"
  have "d' = delete_txes P d" "tables_ok d'"
    using assms(2) by (auto simp: DropOldestStrategy Let_def try_bind_Inr checked_Inr P_def)
  then show ?thesis using delete_txes_ok [OF assms(1), of P] by (simp add: P_def)
qed

lemma create_body_ok:
  assumes "eb_inv env cfg a c d" "create_body marshal cid now newTx d = Inr (etx, d')"
  shows "eb_inv env cfg a c d' \<and> eb_frame a c d d'"
proof (cases "case NewPipelineTaskRunID newTx of None \<Rightarrow> None
    | Some run \<Rightarrow> find (\<lambda>t. PipelineTaskRunID t = Some run \<and> TxChainID t = cid) (eth_txes d)")
  case (Some old)
  then show ?thesis using assms eb.frame_refl by (auto simp: create_body_def)
next
  case None
  then obtain t row d1 n where "insert_tx t d = Inr (row, d1)" "TxState t = EthTxUnstarted" "Nonce t = None"
    and prune: "PruneQueue (Strategy newTx) d1 = Inr (n, d')"
    using assms(2) by (auto simp: create_body_def try_bind_Inr unstarted_tx_def)
  then have 1: "eb_inv env cfg a c d1 \<and> eb_frame a c d d1" using insert_tx_ok [OF assms(1)] by blast
  then have "eb_inv env cfg a c d' \<and> eb_frame a c d1 d'" using PruneQueue_ok prune by blast
  then show ?thesis using 1 eb_frame_trans by blast
qed

lemma reap_stmt_ok:
  assumes "eb_inv env cfg a c d" "reap_stmt doomed d = Inr (n, d')"
    "\<And>d t. doomed d t \<Longrightarrow> TxState t \<in> {EthTxConfirmed, EthTxFatalError}"
  shows "eb_inv env cfg a c d' \<and> eb_frame a c d d'"
proof -
  have d': "d' = delete_txes (doomed d) d" and ok: "tables_ok d'"
    using assms(2) by (auto simp: reap_stmt_def try_bind_Inr checked_Inr)
  have "TxState t \<noteq> EthTxInProgress" if "doomed d t" for t
    using assms(3) [OF that] by auto
  then show ?thesis using delete_txes_ok [OF assms(1)] ok d' by blast
qed

lemma abandon_inv:
  assumes I: "eb_inv env cfg a c d" and ok: "tables_ok (abandon_update cid addr d)"
  shows "eb_inv env cfg a c (abandon_update cid addr d)"
proof -
  define P where "P = (\<lambda>t :: EthTx. TxState t \<in> {EthTxUnconfirmed, EthTxInProgress, EthTxUnstarted}
    \<and> TxChainID t = cid \<and> FromAddress t = addr)"
  define f where "f = (\<lambda>t :: EthTx. t\<lparr>TxState := EthTxFatalError, Nonce := None, TxError := Some ''abandoned''\<rparr>)"
  define d' where "d' = abandon_update cid addr d"
  have d': "d' = update_txes P f d" by (simp add: d'_def abandon_update_def P_def f_def)
  have parts: "ids_ok d" "nonces_ok a c d" "sending_ok env cfg a c d" "queue_ok a c d"
    using I by (simp_all add: eb_inv_def)
  have key: "key_nonce a c d' = key_nonce a c d" by (rule key_nonce_cong) (simp add: d' update_txes_def)
  have att: "attempts_of i d' = attempts_of i d" for i by (simp add: d' attempts_of_update)
  have row: "t' \<in> set (eth_txes d) \<or> (\<exists>t\<in>set (eth_txes d). t' = f t)" if "t' \<in> set (eth_txes d')" for t'
    using that by (auto simp: d' update_txes_def split: if_splits)
  have ft: "TxState (f t) = EthTxFatalError \<and> Nonce (f t) = None \<and> TxID (f t) = TxID t" for t by (simp add: f_def)
  have slot: "t \<in> set (in_progress_of a d)" if "t \<in> set (in_progress_of a d')" for t
    using that row [of t] ft by (auto simp: in_progress_of_def)
  have "ids_ok d'"
    using parts(1) ft by (auto simp: ids_ok_def d' update_txes_def)
  moreover have "nonces_ok a c d'"
    unfolding nonces_ok_def key
  proof (intro ballI impI)
    fix t' assume "t' \<in> set (eth_txes d')" "FromAddress t' = a \<and> TxChainID t' = c"
    moreover have "nonce_ok (key_nonce a c d) (f t)" for t using ft by (simp add: nonce_ok_def)
    ultimately show "nonce_ok (key_nonce a c d) t'"
      using row [of t'] parts(2) unfolding nonces_ok_def by blast
  qed
  moreover have "sending_ok env cfg a c d'" using parts(3) slot by (simp add: sending_ok_def att)
  moreover have "queue_ok a c d'"
    unfolding queue_ok_def att
  proof (intro ballI impI)
    fix t' assume "t' \<in> set (eth_txes d')" "FromAddress t' = a \<and> TxChainID t' = c \<and> TxState t' = EthTxUnstarted"
    then show "attempts_of (TxID t') d = []" using row [of t'] ft parts(4) by (auto simp: queue_ok_def)
  qed
  ultimately show ?thesis using ok by (simp add: eb_inv_def d'_def)
qed

section \<open>The newest transactions of a subject stay\<close>

lemma sort_desc: "sort_by (\<ge>) xs = rev (sort (xs :: nat list))"
proof -
  have s: "sorted_wrt (\<ge>) (sort_by (\<ge>) xs)" by (rule sort_by_sorted) auto
  have "sorted (rev (sort_by (\<ge>) xs))" using s by (simp add: sorted_wrt_rev)
  then have "rev (sort_by (\<ge>) xs) = sort xs" by (intro properties_for_sort [symmetric]) simp_all
  then show ?thesis by (metis rev_rev_ident)
qed

text \<open>The numbers of the first \<open>n\<close> in a strictly descending list: those with fewer than \<open>n\<close> greater ones.\<close>

lemma take_desc:
  assumes "sorted_wrt (>) (xs :: nat list)" "k = min n (length xs)" "0 < k"
  shows "{x \<in> set xs. last (take n xs) \<le> x} = set (take n xs)" "length (take n xs) = k"
proof -
  show "length (take n xs) = k" by (simp add: assms(2) min.commute)
  have ne: "take n xs \<noteq> []" using assms by auto
  have split: "xs = take n xs @ drop n xs" by simp
  have s: "sorted_wrt (>) (take n xs)" "\<forall>x\<in>set (take n xs). \<forall>y\<in>set (drop n xs). x > y"
    using assms(1) split by (metis sorted_wrt_append)+
  have low: "last (take n xs) \<le> x" if "x \<in> set (take n xs)" for x
  proof -
    have eq: "take n xs = butlast (take n xs) @ [last (take n xs)]" using ne by simp
    then have "sorted_wrt (>) (butlast (take n xs) @ [last (take n xs)])" using s(1) by metis
    then have "\<forall>y\<in>set (butlast (take n xs)). y > last (take n xs)" by (simp add: sorted_wrt_append)
    moreover have "x \<in> insert (last (take n xs)) (set (butlast (take n xs)))"
      using that eq by (metis list.set(2) rev.simps(2) rotate1.simps(2) set_rev set_rotate1)
    ultimately show ?thesis by auto
  qed
  have "x < last (take n xs)" if "x \<in> set (drop n xs)" for x
    using s(2) that ne by (meson last_in_set)
  then have "x \<in> set (take n xs)" if "x \<in> set xs" "last (take n xs) \<le> x" for x
    using that split by (metis Un_iff leD set_append)
  then show "{x \<in> set xs. last (take n xs) \<le> x} = set (take n xs)"
    using low set_take_subset [of n xs] by auto
qed

lemma unstarted_ids:
  assumes "tables_ok d"
  shows "distinct (map TxID (unstarted_of_subject s d))"
proof -
  have "distinct (map TxID (eth_txes d))"
    using assms by (simp add: tables_ok_def schema_ok_def eth_txes_ok_def unique_rows_def)
  then show ?thesis by (simp add: unstarted_of_subject_def distinct_map_filter)
qed

lemma unstarted_of_subject_delete:
  "unstarted_of_subject s (delete_txes P d) = filter (\<lambda>t. \<not> P t) (unstarted_of_subject s d)"
  by (simp add: unstarted_of_subject_def delete_txes_def conj_commute)

lemma oldest_kept_bound:
  assumes "tables_ok d" "0 < n" "unstarted_of_subject s d \<noteq> []"
  obtains m where "oldest_kept s n d = Some m"
    "card {i \<in> TxID ` set (unstarted_of_subject s d). m \<le> i} = min n (length (unstarted_of_subject s d))"
proof -
  define ids where "ids = map TxID (unstarted_of_subject s d)"
  define xs where "xs = sort_by (\<ge>) ids"
  have dist: "distinct ids" using unstarted_ids [OF assms(1)] by (simp add: ids_def)
  have len: "length xs = length (unstarted_of_subject s d)" by (simp add: xs_def ids_def)
  have pos: "0 < min n (length xs)" using assms(2,3) len by simp
  have dxs: "distinct xs" using dist by (simp add: xs_def sort_desc)
  have "sorted_wrt (\<ge>) xs" unfolding xs_def by (rule sort_by_sorted) auto
  then have "sorted_wrt (>) xs"
    using dxs by (induction xs) (auto, metis le_neq_implies_less)
  note t = take_desc [OF this refl pos]
  have ne: "take n xs \<noteq> []" using pos by auto
  have img: "TxID ` set (unstarted_of_subject s d) = set xs" by (simp add: xs_def ids_def)
  have "oldest_kept s n d = Some (last (take n xs))"
    using ne by (simp add: oldest_kept_def Let_def xs_def ids_def)
  moreover have "card {i \<in> TxID ` set (unstarted_of_subject s d). last (take n xs) \<le> i}
      = min n (length (unstarted_of_subject s d))"
    using t dxs unfolding img len by (simp add: distinct_card)
  ultimately show ?thesis using that by blast
qed

section \<open>Nonce synchronization\<close>

definition ns_frame :: "nat \<Rightarrow> int \<Rightarrow> txdb \<Rightarrow> txdb \<Rightarrow> bool" where
  "ns_frame a c d d' \<longleftrightarrow>
     key_nonce a c d' = key_nonce a c d \<and> with_state EthTxInProgress a c d' = with_state EthTxInProgress a c d"

interpretation ns: table_user tables_ok "ns_frame a c" for a c
  by unfold_locales (simp add: ns_frame_def)

lemma ns_stable:
  "table_user.stable tables_ok (ns_frame a c) (\<lambda>d. key_nonce a c d = N \<and> hasInProgressTransaction a c d = b)"
  unfolding ns.stable_def by (simp add: ns_frame_def hasInProgressTransaction_def)

lemma set_next_nonce_Inr:
  assumes "tables_ok d" "key_nonce a c d = N" "set_next_nonce a c N v d = Inr (u, d')"
  shows "tables_ok d' \<and> key_nonce a c d' = v \<and> with_state EthTxInProgress a c d' = with_state EthTxInProgress a c d"
proof -
  define hit where "hit = (\<lambda>k :: KeyState. KeyAddress k = a \<and> NextNonce k = N \<and> KeyChainID k = c)"
  define put where "put = (\<lambda>k :: KeyState. k\<lparr>NextNonce := v\<rparr>)"
  have ex: "list_ex hit (evm_key_states d)" and ok: "tables_ok d'"
    and d': "d' = d\<lparr>evm_key_states := update_where hit put (evm_key_states d)\<rparr>"
    using assms(3) by (auto simp: set_next_nonce_def Let_def try_bind_Inr checked_Inr hit_def put_def split: if_splits)
  have put_fields: "KeyAddress (put k) = KeyAddress k \<and> KeyChainID (put k) = KeyChainID k" for k
    by (simp add: put_def)
  obtain k where k: "k \<in> set (evm_key_states d)" "hit k" using ex by (auto simp: list_ex_iff)
  have key: "find_key a c d = Some k" using find_key_unique [OF assms(1) k(1)] k(2) by (simp add: hit_def)
  have "find_key a c d' = map_option (\<lambda>k. if hit k then put k else k) (find_key a c d)"
    unfolding find_key_def d' by (simp add: find_key_update put_fields)
  then show ?thesis using ok key k(2) by (simp add: key_nonce_def with_state_def d' put_def)
qed

lemma ns_GetNextNonce:
  assumes g: "table_user.guarded tables_ok (ns_frame a c) w"
    and p: "key_nonce a c (db w) = N" "hasInProgressTransaction a c (db w) = b"
    and r: "GetNextNonce ks a c w = (Inr n :: 'e tx_error + int, w1)"
  shows "table_user.guarded tables_ok (ns_frame a c) w1 \<and> n = N \<and> key_nonce a c (db w1) = N
    \<and> hasInProgressTransaction a c (db w1) = b"
proof -
  obtain found w2 where q: "Select (orm_getNextNonce a c) w = (found, w2)"
    by (cases "Select (orm_getNextNonce a c) w")
  have "table_user.guarded tables_ok (ns_frame a c) w2
      \<and> (key_nonce a c (db w2) = N \<and> hasInProgressTransaction a c (db w2) = b) \<and> sent w2 = sent w
      \<and> (\<forall>y. found = Inr y \<longrightarrow> y = orm_getNextNonce a c (db w2))"
    by (rule ns.Select_guarded [OF g ns_stable _ q]) (simp add: p)
  then show ?thesis
    using r q by (auto simp: GetNextNonce_def orm_getNextNonce_def key_nonce_def split: sum.splits option.splits if_splits)
qed

lemma key_nonce_bound:
  assumes "tables_ok d"
  shows "key_nonce a c d \<le> MaxInt64"
proof (cases "find_key a c d")
  case (Some k)
  then have "k \<in> set (evm_key_states d)" by (auto simp: find_key_def find_Some_iff)
  then have "is_int64 (NextNonce k)"
    using assms by (simp add: tables_ok_def schema_ok_def evm_key_states_ok_def list_all_iff)
  then show ?thesis using Some by (simp add: key_nonce_def is_int64_def)
qed (simp add: key_nonce_def MaxInt64_def)

text \<open>The next nonce after a synchronization that succeeds.\<close>

definition synced_nonce :: "64 word \<Rightarrow> int \<Rightarrow> bool \<Rightarrow> int" where
  "synced_nonce m N b = (if uint m \<le> (if b then N + 1 else N) then N else if b then uint m - 1 else uint m)"

lemma fast_forward_ok:
  assumes g: "table_user.guarded tables_ok (ns_frame a c) w" and N: "key_nonce a c (db w) = N"
    and b: "hasInProgressTransaction a c (db w) = b" and pos: "0 \<le> N" and m: "m \<noteq> 0"
    and r: "fast_forward c a m N b w = (None :: 'e tx_error option, w1)"
  shows "table_user.guarded tables_ok (ns_frame a c) w1 \<and> key_nonce a c (db w1) = synced_nonce m N b
    \<and> hasInProgressTransaction a c (db w1) = b"
proof -
  define local where "local = (if b then N + 1 else N)"
  have small: "N \<le> MaxInt64" using key_nonce_bound [of "db w" a c] g N by (simp add: ns.guarded_def)
  have uloc: "uint (word_of_int local :: 64 word) = local"
    using small pos by (simp add: local_def MaxInt64_def uint_word_of_int)
  have m1: "uint (m - 1) = uint m - 1"
  proof -
    have "uint m \<noteq> 0" using m by (simp add: uint_0_iff)
    then have "1 \<le> uint m" using uint_ge_0 [of m] by linarith
    then show ?thesis by (simp add: uint_sub_if')
  qed
  show ?thesis
  proof (cases "m \<le> word_of_int local")
    case True
    then have "uint m \<le> local" using uloc by (simp add: word_le_def)
    moreover have "w1 = w" using r True by (simp add: fast_forward_def local_def Let_def)
    ultimately show ?thesis using g N b by (simp add: local_def synced_nonce_def split: if_splits)
  next
    case False
    then have gt: "local < uint m" using uloc by (simp add: word_le_def)
    define v where "v = uint (if b then m - 1 else m)"
    let ?Q = "\<lambda>d. key_nonce a c d = v \<and> hasInProgressTransaction a c d = b"
    obtain res where t: "Transaction (set_next_nonce a c N v) w = (res, w1)" and res: "res = Inr ()"
      using r False by (auto simp: fast_forward_def local_def Let_def v_def split: prod.splits sum.splits)
    have body: "tables_ok d' \<and> ?Q d'"
      if "tables_ok d" "key_nonce a c d = N \<and> hasInProgressTransaction a c d = b"
        "set_next_nonce a c N v d = Inr (u, d')" for d u d'
      using set_next_nonce_Inr [OF that(1) _ that(3)] that(2) by (simp add: hasInProgressTransaction_def)
    have "table_user.guarded tables_ok (ns_frame a c) w1 \<and> sent w1 = sent w
      \<and> (case res of Inr u \<Rightarrow> ?Q (db w1)
         | Inl e \<Rightarrow> (key_nonce a c (db w1) = N \<and> hasInProgressTransaction a c (db w1) = b)
             \<or> e = ErrUnavailable \<and> (\<exists>u :: unit. ?Q (db w1)))"
    proof (rule ns.Transaction_guarded [where Q = "\<lambda>u :: unit. ?Q", OF g ns_stable _ _ t])
      show "key_nonce a c (db w) = N \<and> hasInProgressTransaction a c (db w) = b" using N b by simp
    qed (rule body)
    then show ?thesis using res gt m1 by (auto simp: v_def local_def synced_nonce_def split: if_splits)
  qed
qed

lemma nonce_sync_ok:
  assumes g: "table_user.guarded tables_ok (ns_frame a c) w" and pos: "0 \<le> key_nonce a c (db w)"
    and m: "m \<noteq> 0" and r: "fastForwardNonceIfNecessary ks c (Some m) a w = (None :: 'e tx_error option, w1)"
  shows "table_user.guarded tables_ok (ns_frame a c) w1
    \<and> key_nonce a c (db w1) = synced_nonce m (key_nonce a c (db w)) (hasInProgressTransaction a c (db w))
    \<and> hasInProgressTransaction a c (db w1) = hasInProgressTransaction a c (db w)"
proof -
  define N where "N = key_nonce a c (db w)"
  define b where "b = hasInProgressTransaction a c (db w)"
  obtain n w2 where q2: "GetNextNonce ks a c w = (Inr n :: 'e tx_error + int, w2)"
    and r2: "(case Select (hasInProgressTransaction a c) w2 of
        (Inl e, w2) \<Rightarrow> (Some (SqlErr e), w2)
      | (Inr hasInProgress, w2) \<Rightarrow> fast_forward c a m n hasInProgress w2) = (None :: 'e tx_error option, w1)"
    using r m by (auto simp: fastForwardNonceIfNecessary_def split: prod.splits sum.splits)
  have s2: "table_user.guarded tables_ok (ns_frame a c) w2 \<and> n = N \<and> key_nonce a c (db w2) = N
      \<and> hasInProgressTransaction a c (db w2) = b"
    by (rule ns_GetNextNonce [OF g _ _ q2]) (simp_all add: N_def b_def)
  obtain found w3 where q3: "Select (hasInProgressTransaction a c) w2 = (Inr found, w3)"
    and r3: "fast_forward c a m n found w3 = (None :: 'e tx_error option, w1)"
    using r2 by (auto split: prod.splits sum.splits)
  have "table_user.guarded tables_ok (ns_frame a c) w3
      \<and> (key_nonce a c (db w3) = N \<and> hasInProgressTransaction a c (db w3) = b) \<and> sent w3 = sent w2
      \<and> (\<forall>y. Inr found = (Inr y :: sql_error + bool) \<longrightarrow> y = hasInProgressTransaction a c (db w3))"
    by (rule ns.Select_guarded [OF conjunct1 [OF s2] ns_stable _ q3]) (simp add: s2)
  then have s3: "table_user.guarded tables_ok (ns_frame a c) w3" "key_nonce a c (db w3) = N"
    "hasInProgressTransaction a c (db w3) = b" "found = b" by auto
  have "0 \<le> N" using pos by (simp add: N_def)
  note f = fast_forward_ok [OF s3(1-3) this m r3 [unfolded s3(4) conjunct1 [OF conjunct2 [OF s2]]]]
  then show ?thesis by (simp add: N_def b_def)
qed

end
