(* ===== verification/TxConfirmer.thy ===== *)
theory TxConfirmer
  imports TxManager Heads
begin

text \<open>
  \<open>eth_confirmer.go\<close>, \<open>eth_resender.go\<close> and \<open>common.go\<close>: what happens to a transaction after it has left
  the broadcaster. On every head the confirmer dates the attempts sent before it, sends those again that
  count as confirmed without a receipt, fetches receipts, bumps or sends again what has waited too long,
  and sends again what a re-organization took out of the chain. A read-only transaction of two queries is
  two reads, as its isolation level allows. Where a query has no order, rows come in the order of the table.
\<close>

section \<open>Attempts and their transactions\<close>

text \<open>The zero value of a Go \<open>EthTx\<close>, which an attempt gets whose transaction is gone.\<close>

definition EthTx_zero :: EthTx where
  "EthTx_zero =
     \<lparr>TxID = 0, Nonce = None, FromAddress = 0, ToAddress = 0, EncodedPayload = [], Value = 0, GasLimit = 0,
      TxError = None, BroadcastAt = None, InitialBroadcastAt = None, CreatedAt = 0, TxState = EthTxUnstarted,
      Meta = None, Subject = None, TxChainID = 0, PipelineTaskRunID = None, MinConfirmations = None,
      AccessList = None, TransmitChecker = None\<rparr>"

definition loadEthTxes :: "EthTxAttempt list \<Rightarrow> txdb \<Rightarrow> (EthTxAttempt \<times> EthTx) list" where
  "loadEthTxes as d = map (\<lambda>a. (a, case find_tx (EthTxID a) d of None \<Rightarrow> EthTx_zero | Some t \<Rightarrow> t)) as"

definition loadEthTxesAttempts :: "EthTx list \<Rightarrow> txdb \<Rightarrow> (EthTx \<times> EthTxAttempt list) list" where
  "loadEthTxesAttempts ts d = map (\<lambda>t. (t, loadEthTxAttempts (TxID t) d)) ts"

text \<open>Two reads one after the other.\<close>

definition Select2 :: "(txdb \<Rightarrow> 'a) \<Rightarrow> ('a \<Rightarrow> txdb \<Rightarrow> 'b) \<Rightarrow> txworld \<Rightarrow> ('e tx_error + 'b) \<times> txworld" where
  "Select2 query1 query2 w =
     (case Select query1 w of
        (Inl e, w1) \<Rightarrow> (Inl (SqlErr e), w1)
      | (Inr x, w1) \<Rightarrow>
          (case Select (query2 x) w1 of
             (Inl e, w2) \<Rightarrow> (Inl (SqlErr e), w2)
           | (Inr y, w2) \<Rightarrow> (Inr y, w2)))"

text \<open>A statement on its own, which reports only an error.\<close>

definition Exec :: "(txdb \<Rightarrow> txdb) \<Rightarrow> txworld \<Rightarrow> 'e tx_error option \<times> txworld" where
  "Exec f w =
     (case Transaction (\<lambda>d. try_bind (checked (f d)) (\<lambda>d1. Inr ((), d1))) w of
        (Inl e, w1) \<Rightarrow> (Some (SqlErr e), w1)
      | (Inr u, w1) \<Rightarrow> (None, w1))"

definition tx_of :: "EthTxAttempt \<Rightarrow> (EthTx \<Rightarrow> bool) \<Rightarrow> txdb \<Rightarrow> bool" where
  "tx_of a P d \<longleftrightarrow> list_ex (\<lambda>t. TxID t = EthTxID a \<and> P t) (eth_txes d)"

text \<open>Ascending nonces; a null comes last.\<close>

definition nonce_le :: "int option \<Rightarrow> int option \<Rightarrow> bool" where
  "nonce_le m n = (case (m, n) of (Some i, Some j) \<Rightarrow> i \<le> j | (None, Some j) \<Rightarrow> False | (_, None) \<Rightarrow> True)"

definition by_nonce :: "EthTx \<Rightarrow> EthTx \<Rightarrow> bool" where
  "by_nonce t u \<longleftrightarrow> nonce_le (Nonce t) (Nonce u)"

definition by_id :: "EthTx \<Rightarrow> EthTx \<Rightarrow> bool" where
  "by_id t u \<longleftrightarrow> TxID t \<le> TxID u"

section \<open>Dating attempts\<close>

definition set_broadcast_before :: "int \<Rightarrow> int \<Rightarrow> txdb \<Rightarrow> txdb" where
  "set_broadcast_before cid blockNum d =
     update_attempts
       (\<lambda>a. BroadcastBeforeBlockNum a = None \<and> AttemptState a = EthTxAttemptBroadcast
            \<and> tx_of a (\<lambda>t. TxChainID t = cid) d)
       (\<lambda>a. a\<lparr>BroadcastBeforeBlockNum := Some blockNum\<rparr>) d"

definition SetBroadcastBeforeBlockNum :: "int \<Rightarrow> int \<Rightarrow> txworld \<Rightarrow> 'e tx_error option \<times> txworld" where
  "SetBroadcastBeforeBlockNum cid blockNum = Exec (set_broadcast_before cid blockNum)"

section \<open>Sending in batches\<close>

text \<open>\<open>reqs[i:j]\<close> for \<open>i\<close> in steps of the batch size; a size of 0 means one batch.\<close>

function chunks :: "nat \<Rightarrow> 'a list \<Rightarrow> 'a list list" where
  "chunks n xs =
     (if xs = [] then [] else if n = 0 then [xs] else take n xs # chunks n (drop n xs))"
  by auto
termination by (relation "measure (\<lambda>(n, xs). length xs)") auto

declare chunks.simps [simp del]

definition update_broadcast_ats :: "int \<Rightarrow> nat list \<Rightarrow> txdb \<Rightarrow> txdb" where
  "update_broadcast_ats now etxIDs =
     update_txes
       (\<lambda>t. TxID t \<in> set etxIDs \<and> (case BroadcastAt t of None \<Rightarrow> False | Some b \<Rightarrow> b < now))
       (\<lambda>t. t\<lparr>BroadcastAt := Some now\<rparr>)"

definition updateBroadcastAts :: "int \<Rightarrow> nat list \<Rightarrow> txworld \<Rightarrow> 'e tx_error option \<times> txworld" where
  "updateBroadcastAts now etxIDs = Exec (update_broadcast_ats now etxIDs)"

text \<open>What a batch of transactions, by their hashes, gets: whether the call fails, and an error for each.\<close>

type_synonym 'e batch_sender = "nat list \<Rightarrow> bool \<times> (nat \<Rightarrow> 'e option)"

definition sent_raw :: "'e env \<Rightarrow> EthTxAttempt list \<Rightarrow> (nat \<times> EthTransaction) list" where
  "sent_raw env as =
     concat (map (\<lambda>a. case DecodeRLP env (SignedRawTx a) of Inl e \<Rightarrow> [] | Inr tx \<Rightarrow> [(EthTxID a, tx)]) as)"

text \<open>
  The errors of the requests, and the error of the call. A failure ends the loop: the requests of the
  batches that follow are never sent and have no error.
\<close>

fun send_batches ::
    "'e env \<Rightarrow> 'e batch_sender \<Rightarrow> int \<Rightarrow> EthTxAttempt list list \<Rightarrow> txworld
      \<Rightarrow> ('e option list \<times> 'e tx_error option) \<times> txworld" where
  "send_batches env send now [] w = (([], None), w)"
| "send_batches env send now (as # rest) w =
     (case send (map AttemptHash as) of
        (failed, err_of) \<Rightarrow>
          let w1 = w\<lparr>sent := sent w @ sent_raw env as\<rparr>;
              errs = map (\<lambda>a. err_of (AttemptHash a)) as;
              unsent = replicate (length (concat rest)) None
          in if failed then ((errs @ unsent, Some NodeErr), w1)
             else
               (case updateBroadcastAts now (map EthTxID as) w1 of
                  (Some e, w2) \<Rightarrow> ((errs @ unsent, Some e), w2)
                | (None, w2) \<Rightarrow>
                    (case send_batches env send now rest w2 of
                       ((reqs, e), w3) \<Rightarrow> ((errs @ reqs, e), w3))))"

definition batchSendTransactions ::
    "'e env \<Rightarrow> 'e batch_sender \<Rightarrow> int \<Rightarrow> EthTxAttempt list \<Rightarrow> nat \<Rightarrow> txworld
      \<Rightarrow> ('e option list \<times> 'e tx_error option) \<times> txworld" where
  "batchSendTransactions env send now as batchSize w = send_batches env send now (chunks batchSize as) w"

section \<open>Confirmed without a receipt\<close>

text \<open>The attempt with the highest price of each, in the order of the transactions' numbers.\<close>

definition dearest_attempts :: "(EthTx \<Rightarrow> bool) \<Rightarrow> (EthTxAttempt \<Rightarrow> bool) \<Rightarrow> txdb \<Rightarrow> EthTxAttempt list" where
  "dearest_attempts P Q d =
     List.map_filter (\<lambda>t. case filter Q (loadEthTxAttempts (TxID t) d) of [] \<Rightarrow> None | a # as \<Rightarrow> Some a)
       (sort_by by_id (filter P (eth_txes d)))"

definition confirmed_missing_receipt :: "int \<Rightarrow> txdb \<Rightarrow> EthTxAttempt list" where
  "confirmed_missing_receipt cid =
     dearest_attempts (\<lambda>t. TxState t = EthTxConfirmedMissingReceipt \<and> TxChainID t = cid) (\<lambda>a. True)"

definition nonce_used :: "'e env \<Rightarrow> 'e option \<Rightarrow> bool" where
  "nonce_used env reqError =
     (case reqError of
        None \<Rightarrow> False
      | Some e \<Rightarrow>
          (let s = NewSendError (Cause env) (WithStack env) (Some e)
           in IsNonceTooLowError (Cause env) s \<or> IsTransactionAlreadyMined (Cause env) s))"

definition unconfirm_ids :: "nat list \<Rightarrow> txdb \<Rightarrow> txdb" where
  "unconfirm_ids ids = update_txes (\<lambda>t. TxID t \<in> set ids) (\<lambda>t. t\<lparr>TxState := EthTxUnconfirmed\<rparr>)"

definition CheckConfirmedMissingReceipt ::
    "'e env \<Rightarrow> TxmConfig \<Rightarrow> int \<Rightarrow> 'e batch_sender \<Rightarrow> int \<Rightarrow> txworld \<Rightarrow> 'e tx_error option \<times> txworld" where
  "CheckConfirmedMissingReceipt env cfg cid send now w =
     (case Select (confirmed_missing_receipt cid) w of
        (Inl e, w1) \<Rightarrow> (Some (SqlErr e), w1)
      | (Inr attempts, w1) \<Rightarrow>
          if attempts = [] then (None, w1)
          else
            (case batchSendTransactions env send now attempts (EvmRPCDefaultBatchSize cfg) w1 of
               ((reqs, e), w2) \<Rightarrow>
                 Exec (unconfirm_ids
                   (map (\<lambda>(req, a). EthTxID a) (filter (\<lambda>(req, a). \<not> nonce_used env req) (zip reqs attempts)))) w2))"

section \<open>Receipts\<close>

text \<open>What the node answers to a request for a receipt: an error, none yet, one that is not mined, or one.\<close>

record fetched_receipt =
  FetchedTxHash :: nat
  FetchedBlockHash :: nat
  FetchedBlockNumber :: "int option"
  FetchedTxIndex :: nat
  FetchedStatus :: nat

datatype fetched = FetchFailed | NoReceipt | UnminedReceipt | Fetched fetched_receipt

text \<open>What the node answers during one head: the mined transactions of an address, and receipts by hashes.\<close>

record receipt_source =
  NonceAt :: "nat \<Rightarrow> 64 word option"
  BatchCall :: "nat list \<Rightarrow> (nat \<Rightarrow> fetched) option"

definition before_in_fetch :: "EthTxAttempt \<times> EthTx \<Rightarrow> EthTxAttempt \<times> EthTx \<Rightarrow> bool" where
  "before_in_fetch x y \<longleftrightarrow>
     (if Nonce (snd x) = Nonce (snd y) then price_before (fst x) (fst y) else by_nonce (snd x) (snd y))"

definition requiring_receipt_fetch :: "int \<Rightarrow> txdb \<Rightarrow> EthTxAttempt list" where
  "requiring_receipt_fetch cid d =
     map fst (sort_by before_in_fetch
       (filter (\<lambda>(a, t). AttemptState a \<noteq> EthTxAttemptInsufficientEth
                   \<and> TxState t \<in> {EthTxUnconfirmed, EthTxConfirmedMissingReceipt} \<and> TxChainID t = cid)
         (loadEthTxes (eth_tx_attempts d) d)))"

definition findEthTxAttemptsRequiringReceiptFetch ::
    "int \<Rightarrow> txworld \<Rightarrow> ('e tx_error + (EthTxAttempt \<times> EthTx) list) \<times> txworld" where
  "findEthTxAttemptsRequiringReceiptFetch cid = Select2 (requiring_receipt_fetch cid) loadEthTxes"

text \<open>The loop up to the first nonce above the number of mined transactions.\<close>

fun likely_confirmed :: "64 word \<Rightarrow> (EthTxAttempt \<times> EthTx) list \<Rightarrow> (EthTxAttempt \<times> EthTx) list run" where
  "likely_confirmed mined [] = Ret []"
| "likely_confirmed mined (x # xs) =
     (case Nonce (snd x) of
        None \<Rightarrow> Panic ''nil nonce''
      | Some n \<Rightarrow> if n > sint mined then Ret [] else run_map ((#) x) (likely_confirmed mined xs))"

definition separateLikelyConfirmedAttempts ::
    "(EthTxAttempt \<times> EthTx) list \<Rightarrow> 64 word \<Rightarrow> (EthTxAttempt \<times> EthTx) list run" where
  "separateLikelyConfirmedAttempts attempts mined =
     (if attempts = [] then Ret attempts
      else if Nonce (snd (last attempts)) = None then Panic ''nil nonce''
      else likely_confirmed mined attempts)"

definition received :: "(nat \<Rightarrow> fetched) \<Rightarrow> EthTxAttempt \<Rightarrow> fetched_receipt option" where
  "received answers a =
     (case answers (AttemptHash a) of
        Fetched r \<Rightarrow>
          if FetchedTxHash r \<noteq> AttemptHash a then None else if FetchedBlockNumber r = None then None else Some r
      | _ \<Rightarrow> None)"

definition batchFetchReceipts ::
    "TxmConfig \<Rightarrow> receipt_source \<Rightarrow> EthTxAttempt list \<Rightarrow> txworld
      \<Rightarrow> ('e tx_error + fetched_receipt list) \<times> txworld" where
  "batchFetchReceipts cfg src attempts w =
     (case (if EvmUseForwarders cfg then Select (loadEthTxes attempts) w else (Inr [], w)) of
        (Inl e, w1) \<Rightarrow> (Inl (SqlErr e), w1)
      | (Inr loaded, w1) \<Rightarrow>
          (case BatchCall src (map AttemptHash attempts) of
             None \<Rightarrow> (Inl NodeErr, w1)
           | Some answers \<Rightarrow> (Inr (List.map_filter (received answers) attempts), w1)))"

text \<open>\<open>INSERT ... ON CONFLICT (tx_hash, block_hash) DO UPDATE\<close>; a new row gets the next number.\<close>

definition upsert_receipt :: "fetched_receipt \<Rightarrow> txdb \<Rightarrow> txdb" where
  "upsert_receipt r d =
     (let hit = (\<lambda>s. ReceiptTxHash s = FetchedTxHash r \<and> ReceiptBlockHash s = FetchedBlockHash r)
      in if list_ex hit (eth_receipts d)
         then d\<lparr>eth_receipts := update_where hit
                  (\<lambda>s. s\<lparr>ReceiptBlockNumber := the (FetchedBlockNumber r), TransactionIndex := FetchedTxIndex r,
                        ReceiptStatus := FetchedStatus r\<rparr>) (eth_receipts d)\<rparr>
         else d\<lparr>eth_receipts := eth_receipts d @
                  [\<lparr>ReceiptID = eth_receipts_id_seq d, ReceiptTxHash = FetchedTxHash r,
                    ReceiptBlockHash = FetchedBlockHash r, ReceiptBlockNumber = the (FetchedBlockNumber r),
                    TransactionIndex = FetchedTxIndex r, ReceiptStatus = FetchedStatus r\<rparr>],
                eth_receipts_id_seq := Suc (eth_receipts_id_seq d)\<rparr>)"

text \<open>The other parts of the statement see the attempts and transactions as they were before it.\<close>

definition save_receipts :: "int \<Rightarrow> fetched_receipt list \<Rightarrow> txdb \<Rightarrow> txdb" where
  "save_receipts cid receipts d =
     (let block_of = (\<lambda>a. map_option (\<lambda>r. the (FetchedBlockNumber r))
                            (find (\<lambda>r. FetchedTxHash r = AttemptHash a) receipts));
          confirmed = (\<lambda>t. list_ex (\<lambda>a. EthTxID a = TxID t \<and> block_of a \<noteq> None) (eth_tx_attempts d) \<and> TxChainID t = cid)
      in update_txes confirmed (\<lambda>t. t\<lparr>TxState := EthTxConfirmed\<rparr>)
           (update_attempts (\<lambda>a. block_of a \<noteq> None)
              (\<lambda>a. a\<lparr>AttemptState := EthTxAttemptBroadcast,
                    BroadcastBeforeBlockNum :=
                      (case BroadcastBeforeBlockNum a of Some b \<Rightarrow> Some b | None \<Rightarrow> block_of a)\<rparr>)
              (fold upsert_receipt receipts d)))"

definition saveFetchedReceipts :: "int \<Rightarrow> fetched_receipt list \<Rightarrow> txworld \<Rightarrow> 'e tx_error option \<times> txworld" where
  "saveFetchedReceipts cid receipts w = (if receipts = [] then (None, w) else Exec (save_receipts cid receipts) w)"

fun receipt_batches ::
    "TxmConfig \<Rightarrow> int \<Rightarrow> receipt_source \<Rightarrow> EthTxAttempt list list \<Rightarrow> txworld \<Rightarrow> 'e tx_error option \<times> txworld" where
  "receipt_batches cfg cid src [] w = (None, w)"
| "receipt_batches cfg cid src (as # rest) w =
     (case batchFetchReceipts cfg src as w of
        (Inl e, w1) \<Rightarrow> (Some e, w1)
      | (Inr receipts, w1) \<Rightarrow>
          (case saveFetchedReceipts cid receipts w1 of
             (Some e, w2) \<Rightarrow> (Some e, w2)
           | (None, w2) \<Rightarrow> receipt_batches cfg cid src rest w2))"

definition fetchAndSaveReceipts ::
    "TxmConfig \<Rightarrow> int \<Rightarrow> receipt_source \<Rightarrow> EthTxAttempt list \<Rightarrow> txworld \<Rightarrow> 'e tx_error option \<times> txworld" where
  "fetchAndSaveReceipts cfg cid src attempts w =
     receipt_batches cfg cid src (chunks (EvmRPCDefaultBatchSize cfg) attempts) w"

definition mark_missing_receipt :: "int \<Rightarrow> txdb \<Rightarrow> txdb" where
  "mark_missing_receipt cid d =
     update_txes
       (\<lambda>t. TxState t = EthTxUnconfirmed \<and> TxChainID t = cid
            \<and> list_ex (\<lambda>u. TxState u = EthTxConfirmed \<and> TxChainID u = cid \<and> FromAddress u = FromAddress t
                        \<and> (case (Nonce t, Nonce u) of (Some m, Some n) \<Rightarrow> m < n | _ \<Rightarrow> False)) (eth_txes d))
       (\<lambda>t. t\<lparr>TxState := EthTxConfirmedMissingReceipt\<rparr>) d"

definition markAllConfirmedMissingReceipt :: "int \<Rightarrow> txworld \<Rightarrow> 'e tx_error option \<times> txworld" where
  "markAllConfirmedMissingReceipt cid = Exec (mark_missing_receipt cid)"

text \<open>All attempts dated before the cutoff; \<open>max\<close> ignores those without a date, and of none it is null.\<close>

definition expired :: "int \<Rightarrow> int \<Rightarrow> txdb \<Rightarrow> EthTx \<Rightarrow> bool" where
  "expired cid cutoff d t \<longleftrightarrow>
     TxState t = EthTxConfirmedMissingReceipt \<and> TxChainID t = cid
     \<and> (let dates = List.map_filter BroadcastBeforeBlockNum (filter (\<lambda>a. EthTxID a = TxID t) (eth_tx_attempts d))
        in dates \<noteq> [] \<and> list_all (\<lambda>b. b < cutoff) dates)"

definition mark_expired :: "int \<Rightarrow> int \<Rightarrow> txdb \<Rightarrow> txdb" where
  "mark_expired cid cutoff d =
     update_txes (expired cid cutoff d)
       (\<lambda>t. t\<lparr>TxState := EthTxFatalError, Nonce := None, TxError := Some ''could not get receipt'',
             BroadcastAt := None, InitialBroadcastAt := None\<rparr>) d"

definition markOldTxesMissingReceiptAsErrored ::
    "TxmConfig \<Rightarrow> int \<Rightarrow> int \<Rightarrow> txworld \<Rightarrow> 'e tx_error option \<times> txworld" where
  "markOldTxesMissingReceiptAsErrored cfg cid blockNum w =
     (let cutoff = wrap64 (blockNum - int (EvmFinalityDepth cfg))
      in if cutoff \<le> 0 then (None, w) else Exec (mark_expired cid cutoff) w)"

text \<open>The addresses in the order in which the map is traversed; an end is an error, none, or a panic.\<close>

fun receipts_of_addresses ::
    "TxmConfig \<Rightarrow> int \<Rightarrow> receipt_source \<Rightarrow> (EthTxAttempt \<times> EthTx) list \<Rightarrow> nat list \<Rightarrow> txworld
      \<Rightarrow> 'e tx_error option run \<times> txworld" where
  "receipts_of_addresses cfg cid src attempts [] w = (Ret None, w)"
| "receipts_of_addresses cfg cid src attempts (addr # addrs) w =
     (case NonceAt src addr of
        None \<Rightarrow> (Ret (Some NodeErr), w)
      | Some mined \<Rightarrow>
          (case separateLikelyConfirmedAttempts (filter (\<lambda>(a, t). FromAddress t = addr) attempts) mined of
             Panic m \<Rightarrow> (Panic m, w)
           | Ret likely \<Rightarrow>
               (case (if likely = [] then (None, w) else fetchAndSaveReceipts cfg cid src (map fst likely) w) of
                  (Some e, w1) \<Rightarrow> (Ret (Some e), w1)
                | (None, w1) \<Rightarrow> receipts_of_addresses cfg cid src attempts addrs w1)))"

definition CheckForReceipts ::
    "(nat list \<Rightarrow> nat list) \<Rightarrow> TxmConfig \<Rightarrow> int \<Rightarrow> receipt_source \<Rightarrow> int \<Rightarrow> txworld
      \<Rightarrow> 'e tx_error option run \<times> txworld" where
  "CheckForReceipts ord cfg cid src blockNum w =
     (case findEthTxAttemptsRequiringReceiptFetch cid w of
        (Inl e, w1) \<Rightarrow> (Ret (Some e), w1)
      | (Inr attempts, w1) \<Rightarrow>
          if attempts = [] then (Ret None, w1)
          else
            (case receipts_of_addresses cfg cid src attempts
                    (ord (remdups (map (\<lambda>(a, t). FromAddress t) attempts))) w1 of
               (Ret None, w2) \<Rightarrow>
                 (case markAllConfirmedMissingReceipt cid w2 of
                    (Some e, w3) \<Rightarrow> (Ret (Some e), w3)
                  | (None, w3) \<Rightarrow>
                      (case markOldTxesMissingReceiptAsErrored cfg cid blockNum w3 of (e, w4) \<Rightarrow> (Ret e, w4)))
             | p \<Rightarrow> p))"

section \<open>Bumping\<close>

text \<open>The rounds are those of the broadcaster; the prior attempts that go to the estimator are in its answer.\<close>

definition bumpGas ::
    "'e env \<Rightarrow> TxmConfig \<Rightarrow> int \<Rightarrow> 'e round \<Rightarrow> EthTx \<Rightarrow> EthTxAttempt list \<Rightarrow> ('e tx_error + EthTxAttempt) run" where
  "bumpGas env cfg cid r etx previousAttempts =
     (let prev = hd previousAttempts; maxPrice = KeySpecificMaxGasPriceWei cfg (FromAddress etx)
      in if TxType prev = 0
         then (case GasPrice prev of
                 None \<Rightarrow> Panic ''nil gas price''
               | Some price \<Rightarrow>
                   (case BumpLegacyGas r price (GasLimit etx) maxPrice of
                      Inl e \<Rightarrow> Ret (Inl (GasErr e))
                    | Inr (bumpedGasPrice, bumpedGasLimit) \<Rightarrow>
                        NewLegacyAttempt env cfg cid etx (Some bumpedGasPrice) bumpedGasLimit))
         else if TxType prev = 2
         then (case (GasTipCap prev, GasFeeCap prev) of
                 (Some tip, Some cap) \<Rightarrow>
                   (case BumpDynamicFee r \<lparr>FeeCap = cap, TipCap = tip\<rparr> (GasLimit etx) maxPrice of
                      Inl e \<Rightarrow> Ret (Inl (GasErr e))
                    | Inr (bumpedFee, bumpedGasLimit) \<Rightarrow>
                        NewDynamicFeeAttempt env cfg cid etx (Some (TipCap bumpedFee)) (Some (FeeCap bumpedFee))
                          bumpedGasLimit)
               | _ \<Rightarrow> Panic ''nil fee'')
         else Ret (Inl (InvariantViolation ''unrecognised transaction type'')))"

definition bump_refused :: "'e tx_error \<Rightarrow> bool" where
  "bump_refused e \<longleftrightarrow> (case e of GasErr g \<Rightarrow> IsBumpErr (Some g) | _ \<Rightarrow> False)"

definition attemptForRebroadcast ::
    "'e env \<Rightarrow> TxmConfig \<Rightarrow> int \<Rightarrow> 'e round \<Rightarrow> EthTx \<Rightarrow> EthTxAttempt list \<Rightarrow> ('e tx_error + EthTxAttempt) run" where
  "attemptForRebroadcast env cfg cid r etx attempts =
     (case attempts of
        [] \<Rightarrow> Ret (Inl (InvariantViolation ''unconfirmed but no attempts''))
      | previousAttempt # as \<Rightarrow>
          if AttemptState previousAttempt = EthTxAttemptInsufficientEth
          then Ret (Inr (previousAttempt\<lparr>AttemptState := EthTxAttemptInProgress\<rparr>))
          else
            run_map
              (\<lambda>res. case res of
                 Inl e \<Rightarrow>
                   if bump_refused e
                   then Inr (previousAttempt\<lparr>BroadcastBeforeBlockNum := None, AttemptState := EthTxAttemptInProgress\<rparr>)
                   else Inl e
               | Inr a \<Rightarrow> Inr a)
              (bumpGas env cfg cid r etx attempts))"

definition saveInProgressAttempt ::
    "EthTxAttempt \<Rightarrow> txworld \<Rightarrow> ('e tx_error + EthTxAttempt) \<times> txworld" where
  "saveInProgressAttempt a w =
     (if AttemptState a \<noteq> EthTxAttemptInProgress
      then (Inl (InvariantViolation ''attempt state must be in_progress''), w)
      else if AttemptID a = 0
      then (case Transaction (insert_attempt a) w of
              (Inl e, w1) \<Rightarrow> (Inl (SqlErr e), w1)
            | (Inr row, w1) \<Rightarrow> (Inr row, w1))
      else
        (case Transaction
                (\<lambda>d. if list_ex (\<lambda>x. AttemptID x = AttemptID a) (eth_tx_attempts d)
                     then try_bind (checked (update_attempts (\<lambda>x. AttemptID x = AttemptID a)
                            (\<lambda>x. x\<lparr>AttemptState := AttemptState a,
                                  BroadcastBeforeBlockNum := BroadcastBeforeBlockNum a\<rparr>) d)) (\<lambda>d1. Inr (True, d1))
                     else Inr (False, d)) w of
           (Inl e, w1) \<Rightarrow> (Inl (SqlErr e), w1)
         | (Inr True, w1) \<Rightarrow> (Inr a, w1)
         | (Inr False, w1) \<Rightarrow> (Inl (SqlErr ErrNoRows), w1)))"

section \<open>One attempt in progress\<close>

definition attempt_new_state :: "EthTxAttemptState \<Rightarrow> int \<Rightarrow> EthTxAttempt \<Rightarrow> txdb \<Rightarrow> txdb" where
  "attempt_new_state st at a d =
     update_attempts (\<lambda>x. AttemptID x = AttemptID a) (\<lambda>x. x\<lparr>AttemptState := st\<rparr>)
       (update_txes (\<lambda>t. TxID t = EthTxID a \<and> (case BroadcastAt t of None \<Rightarrow> False | Some b \<Rightarrow> b < at))
          (\<lambda>t. t\<lparr>BroadcastAt := Some at\<rparr>) d)"

definition saveSentAttempt :: "EthTxAttempt \<Rightarrow> int \<Rightarrow> txworld \<Rightarrow> 'e tx_error option \<times> txworld" where
  "saveSentAttempt a at w =
     (if AttemptState a \<noteq> EthTxAttemptInProgress
      then (Some (InvariantViolation ''expected state to be in_progress''), w)
      else Exec (attempt_new_state EthTxAttemptBroadcast at a) w)"

definition saveInsufficientEthAttempt :: "EthTxAttempt \<Rightarrow> int \<Rightarrow> txworld \<Rightarrow> 'e tx_error option \<times> txworld" where
  "saveInsufficientEthAttempt a at w =
     (if AttemptState a \<noteq> EthTxAttemptInProgress \<and> AttemptState a \<noteq> EthTxAttemptInsufficientEth
      then (Some (InvariantViolation ''expected state to be either in_progress or insufficient_eth''), w)
      else Exec (attempt_new_state EthTxAttemptInsufficientEth at a) w)"

definition missing_receipt_state :: "int \<Rightarrow> EthTxAttempt \<Rightarrow> txdb \<Rightarrow> txdb" where
  "missing_receipt_state at a d =
     update_txes (\<lambda>t. TxID t = EthTxID a) (\<lambda>t. t\<lparr>TxState := EthTxConfirmedMissingReceipt\<rparr>)
       (attempt_new_state EthTxAttemptBroadcast at a d)"

definition saveConfirmedMissingReceiptAttempt ::
    "EthTxAttempt \<Rightarrow> int \<Rightarrow> txworld \<Rightarrow> 'e tx_error option \<times> txworld" where
  "saveConfirmedMissingReceiptAttempt a at w =
     (if AttemptState a \<noteq> EthTxAttemptInProgress
      then (Some (InvariantViolation ''expected state to be in_progress''), w)
      else Exec (missing_receipt_state at a) w)"

definition deleteInProgressAttempt :: "EthTxAttempt \<Rightarrow> txworld \<Rightarrow> 'e tx_error option \<times> txworld" where
  "deleteInProgressAttempt a w =
     (if AttemptState a \<noteq> EthTxAttemptInProgress
      then (Some (InvariantViolation ''expected attempt state to be in_progress''), w)
      else if AttemptID a = 0 then (Some (InvariantViolation ''expected attempt to have an id''), w)
      else Exec (delete_attempts (\<lambda>x. AttemptID x = AttemptID a)) w)"

definition finish_with :: "'e tx_error option \<times> txworld \<Rightarrow> 'e pass \<times> txworld" where
  "finish_with p = (case p of (e, w) \<Rightarrow> (Finish e True, w))"

text \<open>A terminally underpriced attempt is replaced, if it is the dearest one of its transaction.\<close>

definition replace_underpriced ::
    "'e env \<Rightarrow> TxmConfig \<Rightarrow> int \<Rightarrow> 'e round \<Rightarrow> EthTx \<Rightarrow> EthTxAttempt \<Rightarrow> txworld \<Rightarrow> 'e pass \<times> txworld" where
  "replace_underpriced env cfg cid r etx a w =
     (case Select (loadEthTxAttempts (TxID etx)) w of
        (Inl e, w1) \<Rightarrow> (Finish (Some (SqlErr e)) True, w1)
      | (Inr as, w1) \<Rightarrow>
          if as = [] then (Finish (Some (InvariantViolation ''expected to find at least 1 attempt'')) True, w1)
          else if AttemptID a \<noteq> AttemptID (hd as)
          then (Finish (Some (InvariantViolation ''expected highest priced attempt to be in progress'')) True, w1)
          else
            pass_run (bumpGas env cfg cid r etx as) (\<lambda>res.
              case res of
                Inl e \<Rightarrow> (Finish (Some e) True, w1)
              | Inr replacement \<Rightarrow>
                  (case saveReplacementInProgressAttempt a replacement w1 of
                     (Inl e, w2) \<Rightarrow> (Finish (Some e) True, w2)
                   | (Inr row, w2) \<Rightarrow> (Again etx row, w2))) w1)"

text \<open>A cleared send error counts as success from there on.\<close>

definition attempt_answered ::
    "'e env \<Rightarrow> int \<Rightarrow> EthTxAttempt \<Rightarrow> 'e SendError option \<Rightarrow> txworld \<Rightarrow> 'e tx_error option \<times> txworld" where
  "attempt_answered env now a sendError0 w =
     (let cause = Cause env;
          sendError = (if IsTemporarilyUnderpriced cause sendError0 then None else sendError0)
      in if IsTxFeeExceedsCap cause sendError then deleteInProgressAttempt a w
         else if SendError_Fatal sendError then deleteInProgressAttempt a w
         else if IsNonceTooLowError cause sendError \<or> IsTransactionAlreadyMined cause sendError
         then saveConfirmedMissingReceiptAttempt a now w
         else
           (let sendError1 = (if IsReplacementUnderpriced cause sendError then None else sendError)
            in if IsInsufficientEth cause sendError1 then saveInsufficientEthAttempt a now w
               else (case sendError1 of
                       None \<Rightarrow> saveSentAttempt a now w
                     | Some se \<Rightarrow> (Some (SendErr se), w))))"

definition attempt_pass ::
    "'e env \<Rightarrow> TxmConfig \<Rightarrow> int \<Rightarrow> int \<times> 'e round \<Rightarrow> EthTx \<Rightarrow> EthTxAttempt \<Rightarrow> txworld \<Rightarrow> 'e pass \<times> txworld" where
  "attempt_pass env cfg cid nr etx a w =
     (if AttemptState a \<noteq> EthTxAttemptInProgress
      then (Finish (Some (InvariantViolation ''expected eth_tx_attempt to be in_progress'')) True, w)
      else
        (case sendTransaction env (snd nr) a w of
           (sendError, w1) \<Rightarrow>
             if IsTerminallyUnderpriced (Cause env) sendError then replace_underpriced env cfg cid (snd nr) etx a w1
             else finish_with (attempt_answered env (fst nr) a sendError w1)))"

text \<open>The rounds come with the time at which each begins.\<close>

fun handleInProgressAttempt ::
    "'e env \<Rightarrow> TxmConfig \<Rightarrow> int \<Rightarrow> (int \<times> 'e round) list \<Rightarrow> EthTx \<Rightarrow> EthTxAttempt \<Rightarrow> txworld
      \<Rightarrow> 'e outcome \<times> txworld" where
  "handleInProgressAttempt env cfg cid [] etx a w = (Waiting, w)"
| "handleInProgressAttempt env cfg cid (nr # rs) etx a w =
     (case attempt_pass env cfg cid nr etx a w of
        (Finish e retryable, w1) \<Rightarrow> (Returned e retryable, w1)
      | (Again etx1 a1, w1) \<Rightarrow> handleInProgressAttempt env cfg cid rs etx1 a1 w1
      | (Panicking m, w1) \<Rightarrow> (Panicked m, w1))"

section \<open>Sending again\<close>

definition in_progress_attempts :: "nat \<Rightarrow> int \<Rightarrow> txdb \<Rightarrow> EthTxAttempt list" where
  "in_progress_attempts address cid d =
     filter (\<lambda>a. AttemptState a = EthTxAttemptInProgress
               \<and> tx_of a (\<lambda>t. TxState t \<in> {EthTxConfirmed, EthTxConfirmedMissingReceipt, EthTxUnconfirmed}
                           \<and> FromAddress t = address \<and> TxChainID t = cid) d) (eth_tx_attempts d)"

text \<open>\<open>ctx.Err() \<noteq> nil\<close>: whether the context of the call has ended when so many turns of the database are left.\<close>

definition context_done :: "'e env \<Rightarrow> txworld \<Rightarrow> bool" where
  "context_done env w = ContextDone env (length (script w))"

text \<open>The rounds of each attempt, by its number. When the context has ended, what is left is given up
  without an error.\<close>

fun handle_attempts ::
    "'e env \<Rightarrow> TxmConfig \<Rightarrow> int \<Rightarrow> (nat \<Rightarrow> (int \<times> 'e round) list) \<Rightarrow> (EthTxAttempt \<times> EthTx) list \<Rightarrow> txworld
      \<Rightarrow> 'e outcome \<times> txworld" where
  "handle_attempts env cfg cid rounds [] w = (Returned None True, w)"
| "handle_attempts env cfg cid rounds ((a, etx) # rest) w =
     (case handleInProgressAttempt env cfg cid (rounds (AttemptID a)) etx a w of
        (Returned e retryable, w1) \<Rightarrow>
          if context_done env w1 then (Returned None True, w1)
          else (case e of None \<Rightarrow> handle_attempts env cfg cid rounds rest w1 | Some e \<Rightarrow> (Returned (Some e) retryable, w1))
      | p \<Rightarrow> p)"

definition handleAnyInProgressAttempts ::
    "'e env \<Rightarrow> TxmConfig \<Rightarrow> int \<Rightarrow> (nat \<Rightarrow> (int \<times> 'e round) list) \<Rightarrow> nat \<Rightarrow> txworld \<Rightarrow> 'e outcome \<times> txworld" where
  "handleAnyInProgressAttempts env cfg cid rounds address w =
     (case Select2 (in_progress_attempts address cid) loadEthTxes w of
        (res, w1) \<Rightarrow>
          if context_done env w1 then (Returned None True, w1)
          else (case res of Inl e \<Rightarrow> (Returned (Some e) True, w1)
                | Inr attempts \<Rightarrow> handle_attempts env cfg cid rounds attempts w1))"

definition insufficient_eth_txes :: "nat \<Rightarrow> int \<Rightarrow> txdb \<Rightarrow> EthTx list" where
  "insufficient_eth_txes address cid d =
     sort_by by_nonce
       (filter (\<lambda>t. FromAddress t = address \<and> TxState t = EthTxUnconfirmed \<and> TxChainID t = cid
                  \<and> list_ex (\<lambda>a. EthTxID a = TxID t \<and> AttemptState a = EthTxAttemptInsufficientEth)
                      (eth_tx_attempts d)) (eth_txes d))"

definition FindEthTxsRequiringResubmissionDueToInsufficientEth ::
    "nat \<Rightarrow> int \<Rightarrow> txworld \<Rightarrow> ('e tx_error + (EthTx \<times> EthTxAttempt list) list) \<times> txworld" where
  "FindEthTxsRequiringResubmissionDueToInsufficientEth address cid =
     Select2 (insufficient_eth_txes address cid) loadEthTxesAttempts"

text \<open>The unconfirmed transactions of the address with the lowest nonces, on whatever chain.\<close>

definition within_depth :: "nat \<Rightarrow> nat \<Rightarrow> txdb \<Rightarrow> EthTx list" where
  "within_depth address depth d =
     take depth (sort_by by_nonce
       (filter (\<lambda>t. TxState t = EthTxUnconfirmed \<and> FromAddress t = address) (eth_txes d)))"

definition gas_bump_txes :: "nat \<Rightarrow> int \<Rightarrow> int \<Rightarrow> nat \<Rightarrow> txdb \<Rightarrow> EthTx list" where
  "gas_bump_txes address cid latestBlock depth d =
     sort_by by_nonce
       (filter (\<lambda>t. TxState t = EthTxUnconfirmed \<and> FromAddress t = address \<and> TxChainID t = cid
                  \<and> list_all (\<lambda>a. EthTxID a = TxID t \<longrightarrow>
                        AttemptState a = EthTxAttemptBroadcast
                        \<and> (case BroadcastBeforeBlockNum a of None \<Rightarrow> False | Some b \<Rightarrow> b \<le> latestBlock))
                      (eth_tx_attempts d)
                  \<and> (depth = 0 \<or> TxID t \<in> TxID ` set (within_depth address depth d))) (eth_txes d))"

definition FindEthTxsRequiringGasBump ::
    "nat \<Rightarrow> int \<Rightarrow> int \<Rightarrow> int \<Rightarrow> nat \<Rightarrow> txworld \<Rightarrow> ('e tx_error + (EthTx \<times> EthTxAttempt list) list) \<times> txworld" where
  "FindEthTxsRequiringGasBump address cid blockNum gasBumpThreshold depth w =
     (if gasBumpThreshold = 0 then (Inr [], w)
      else Select2 (gas_bump_txes address cid (wrap64 (blockNum - gasBumpThreshold)) depth) loadEthTxesAttempts w)"

definition rebroadcast_list ::
    "nat \<Rightarrow> (EthTx \<times> EthTxAttempt list) list \<Rightarrow> (EthTx \<times> EthTxAttempt list) list \<Rightarrow> (EthTx \<times> EthTxAttempt list) list" where
  "rebroadcast_list maxInFlight insufficient bumps =
     (let etxs = sort_by (\<lambda>x y. by_nonce (fst x) (fst y))
                   (insufficient @ filter (\<lambda>x. TxID (fst x) \<notin> TxID ` fst ` set insufficient) bumps)
      in if maxInFlight > 0 \<and> length etxs > maxInFlight then take maxInFlight etxs else etxs)"

definition FindEthTxsRequiringRebroadcast ::
    "'e env \<Rightarrow> TxmConfig \<Rightarrow> nat \<Rightarrow> int \<Rightarrow> int \<Rightarrow> txworld \<Rightarrow> ('e tx_error + (EthTx \<times> EthTxAttempt list) list) \<times> txworld" where
  "FindEthTxsRequiringRebroadcast env cfg address cid blockNum w =
     (case FindEthTxsRequiringResubmissionDueToInsufficientEth address cid w of
        (Inl e, w1) \<Rightarrow> (Inl e, w1)
      | (Inr insufficient, w1) \<Rightarrow>
          (case FindEthTxsRequiringGasBump address cid blockNum (int (EvmGasBumpThreshold cfg)) (EvmGasBumpTxDepth cfg) w1 of
             (res, w2) \<Rightarrow>
               if context_done env w2 then (Inr [], w2)
               else (case res of Inl e \<Rightarrow> (Inl e, w2)
                     | Inr bumps \<Rightarrow> (Inr (rebroadcast_list (EvmMaxInFlightTransactions cfg) insufficient bumps), w2))))"

text \<open>For each transaction the estimator's round of the bump and the rounds of the sending.\<close>

fun rebroadcast_each ::
    "'e env \<Rightarrow> TxmConfig \<Rightarrow> int \<Rightarrow> (nat \<Rightarrow> 'e round \<times> (int \<times> 'e round) list) \<Rightarrow> (EthTx \<times> EthTxAttempt list) list
      \<Rightarrow> txworld \<Rightarrow> 'e outcome \<times> txworld" where
  "rebroadcast_each env cfg cid rounds [] w = (Returned None True, w)"
| "rebroadcast_each env cfg cid rounds ((etx, attempts) # rest) w =
     (case attemptForRebroadcast env cfg cid (fst (rounds (TxID etx))) etx attempts of
        Panic m \<Rightarrow> (Panicked m, w)
      | Ret (Inl e) \<Rightarrow> (Returned (Some e) True, w)
      | Ret (Inr a) \<Rightarrow>
          (case saveInProgressAttempt a w of
             (Inl e, w1) \<Rightarrow> (Returned (Some e) True, w1)
           | (Inr row, w1) \<Rightarrow>
               (case handleInProgressAttempt env cfg cid (snd (rounds (TxID etx))) etx row w1 of
                  (Returned None retryable, w2) \<Rightarrow> rebroadcast_each env cfg cid rounds rest w2
                | p \<Rightarrow> p)))"

definition rebroadcastWhereNecessary ::
    "'e env \<Rightarrow> TxmConfig \<Rightarrow> int \<Rightarrow> (nat \<Rightarrow> (int \<times> 'e round) list) \<Rightarrow> (nat \<Rightarrow> 'e round \<times> (int \<times> 'e round) list)
      \<Rightarrow> int \<Rightarrow> nat \<Rightarrow> txworld \<Rightarrow> 'e outcome \<times> txworld" where
  "rebroadcastWhereNecessary env cfg cid leftovers rounds blockHeight address w =
     (case handleAnyInProgressAttempts env cfg cid leftovers address w of
        (Returned None retryable, w1) \<Rightarrow>
          (case FindEthTxsRequiringRebroadcast env cfg address cid blockHeight w1 of
             (Inl e, w2) \<Rightarrow> (Returned (Some e) True, w2)
           | (Inr etxs, w2) \<Rightarrow> rebroadcast_each env cfg cid rounds etxs w2)
      | p \<Rightarrow> p)"

section \<open>Re-organizations\<close>

text \<open>A transaction with its attempts, each with its receipts.\<close>

type_synonym tx_receipts = "EthTx \<times> (EthTxAttempt \<times> EthReceipt list) list"

definition confirmed_in_range :: "int \<Rightarrow> int \<Rightarrow> int \<Rightarrow> txdb \<Rightarrow> EthTx list" where
  "confirmed_in_range highBlockNumber lowBlockNumber cid d =
     sort_by by_nonce
       (filter (\<lambda>t. TxState t \<in> {EthTxConfirmed, EthTxConfirmedMissingReceipt} \<and> TxChainID t = cid
                  \<and> list_ex (\<lambda>a. EthTxID a = TxID t \<and> AttemptState a = EthTxAttemptBroadcast
                        \<and> list_ex (\<lambda>r. ReceiptTxHash r = AttemptHash a \<and> lowBlockNumber \<le> ReceiptBlockNumber r
                                     \<and> ReceiptBlockNumber r \<le> highBlockNumber) (eth_receipts d))
                      (eth_tx_attempts d)) (eth_txes d))"

definition loadEthTxesAttemptsReceipts :: "(EthTx \<times> EthTxAttempt list) list \<Rightarrow> txdb \<Rightarrow> tx_receipts list" where
  "loadEthTxesAttemptsReceipts ts d =
     map (\<lambda>(t, as). (t, map (\<lambda>a. (a, filter (\<lambda>r. ReceiptTxHash r = AttemptHash a) (eth_receipts d))) as)) ts"

definition findTransactionsConfirmedInBlockRange ::
    "int \<Rightarrow> int \<Rightarrow> int \<Rightarrow> txworld \<Rightarrow> ('e tx_error + tx_receipts list) \<times> txworld" where
  "findTransactionsConfirmedInBlockRange highBlockNumber lowBlockNumber cid w =
     (case Select2 (confirmed_in_range highBlockNumber lowBlockNumber cid) loadEthTxesAttempts w of
        (Inl e, w1) \<Rightarrow> (Inl e, w1)
      | (Inr etxs, w1) \<Rightarrow>
          if etxs = [] then (Inr [], w1)
          else
            (case Select (loadEthTxesAttemptsReceipts etxs) w1 of
               (Inl e, w2) \<Rightarrow> (Inl (SqlErr e), w2)
             | (Inr loaded, w2) \<Rightarrow> (Inr loaded, w2)))"

definition receipts_of :: "tx_receipts \<Rightarrow> EthReceipt list" where
  "receipts_of etx = concat (map snd (snd etx))"

text \<open>The loop along the parents; the heads of a generation by hash, with their numbers.\<close>

partial_function (option) receipt_on_chain ::
    "(nat \<Rightarrow> int) \<Rightarrow> (nat \<Rightarrow> nat option) \<Rightarrow> EthReceipt list \<Rightarrow> nat \<Rightarrow> bool option" where
  "receipt_on_chain num par rs h =
     (if list_ex (\<lambda>r. ReceiptBlockHash r = h \<and> ReceiptBlockNumber r = num h) rs then Some True
      else (case par h of Some p \<Rightarrow> receipt_on_chain num par rs p | None \<Rightarrow> Some False))"

definition block_number :: "head_ptr \<Rightarrow> nat \<Rightarrow> int" where
  "block_number p h = (case copy (gen p) h of None \<Rightarrow> 0 | Some x \<Rightarrow> Number x)"

definition hasReceiptInLongestChain :: "tx_receipts \<Rightarrow> head_ptr \<Rightarrow> bool option" where
  "hasReceiptInLongestChain etx head =
     receipt_on_chain (block_number head) (Parent (gen head)) (receipts_of etx) (ref head)"

definition delete_all_receipts :: "nat \<Rightarrow> txdb \<Rightarrow> txdb" where
  "delete_all_receipts etxID d =
     d\<lparr>eth_receipts :=
         filter (\<lambda>r. \<not> list_ex (\<lambda>a. EthTxID a = etxID \<and> AttemptHash a = ReceiptTxHash r) (eth_tx_attempts d))
           (eth_receipts d)\<rparr>"

definition unconfirmEthTx :: "EthTx \<Rightarrow> txdb \<Rightarrow> sql_error + txdb" where
  "unconfirmEthTx etx d =
     (if TxState etx \<noteq> EthTxConfirmed then Inl ErrAborted
      else checked (update_txes (\<lambda>t. TxID t = TxID etx) (\<lambda>t. t\<lparr>TxState := EthTxUnconfirmed\<rparr>) d))"

definition unbroadcastAttempt :: "EthTxAttempt \<Rightarrow> txdb \<Rightarrow> sql_error + txdb" where
  "unbroadcastAttempt a d =
     (if AttemptState a \<noteq> EthTxAttemptBroadcast then Inl ErrAborted
      else checked (update_attempts (\<lambda>x. AttemptID x = AttemptID a)
             (\<lambda>x. x\<lparr>BroadcastBeforeBlockNum := None, AttemptState := EthTxAttemptInProgress\<rparr>) d))"

definition rebroadcast_body :: "EthTx \<Rightarrow> EthTxAttempt \<Rightarrow> txdb \<Rightarrow> sql_error + unit \<times> txdb" where
  "rebroadcast_body etx a d =
     try_bind (checked (delete_all_receipts (TxID etx) d)) (\<lambda>d1.
       try_bind (unconfirmEthTx etx d1) (\<lambda>d2.
         try_bind (unbroadcastAttempt a d2) (\<lambda>d3. Inr ((), d3))))"

definition markForRebroadcast :: "tx_receipts \<Rightarrow> txworld \<Rightarrow> 'e tx_error option \<times> txworld" where
  "markForRebroadcast etx w =
     (case snd etx of
        [] \<Rightarrow> (Some (InvariantViolation ''expected eth_tx to have at least one attempt''), w)
      | (a, rs) # as \<Rightarrow>
          (case Transaction (rebroadcast_body (fst etx) a) w of
             (Inl e, w1) \<Rightarrow> (Some (SqlErr e), w1)
           | (Inr u, w1) \<Rightarrow> (None, w1)))"

text \<open>None if a loop along the parents does not end.\<close>

fun mark_reorged :: "head_ptr \<Rightarrow> tx_receipts list \<Rightarrow> txworld \<Rightarrow> ('e tx_error option \<times> txworld) option" where
  "mark_reorged head [] w = Some (None, w)"
| "mark_reorged head (etx # etxs) w =
     (case hasReceiptInLongestChain etx head of
        None \<Rightarrow> None
      | Some True \<Rightarrow> mark_reorged head etxs w
      | Some False \<Rightarrow>
          (case markForRebroadcast etx w of
             (Some e, w1) \<Rightarrow> Some (Some e, w1)
           | (None, w1) \<Rightarrow> mark_reorged head etxs w1))"

text \<open>
  The keys are handled at once in the code and one after the other here; the errors of all are returned
  together, and one that panics or still waits ends it.
\<close>

fun for_keys ::
    "(nat \<Rightarrow> txworld \<Rightarrow> 'e outcome \<times> txworld) \<Rightarrow> nat list \<Rightarrow> txworld \<Rightarrow> 'e tx_error list \<times> string option \<times> txworld" where
  "for_keys f [] w = ([], None, w)"
| "for_keys f (addr # addrs) w =
     (case f addr w of
        (Returned e retryable, w1) \<Rightarrow>
          (case for_keys f addrs w1 of (es, stop, w2) \<Rightarrow> (case e of None \<Rightarrow> es | Some e \<Rightarrow> e # es, stop, w2))
      | (Waiting, w1) \<Rightarrow> ([], Some ''waiting'', w1)
      | (Panicked m, w1) \<Rightarrow> ([], Some m, w1))"

definition EnsureConfirmedTransactionsInLongestChain ::
    "'e env \<Rightarrow> TxmConfig \<Rightarrow> int \<Rightarrow> (nat \<Rightarrow> (int \<times> 'e round) list) \<Rightarrow> nat list \<Rightarrow> head_ptr \<Rightarrow> txworld
      \<Rightarrow> ('e tx_error list \<times> string option \<times> txworld) option" where
  "EnsureConfirmedTransactionsInLongestChain env cfg cid rounds keyStates head w =
     (case EarliestInChain (Parent (gen head)) (ref head) of
        None \<Rightarrow> None
      | Some low \<Rightarrow>
          (case findTransactionsConfirmedInBlockRange (block_number head (ref head)) (block_number head low) cid w of
             (Inl e, w1) \<Rightarrow> Some ([e], None, w1)
           | (Inr etxs, w1) \<Rightarrow>
               (case mark_reorged head etxs w1 of
                  None \<Rightarrow> None
                | Some (Some e, w2) \<Rightarrow> Some ([e], None, w2)
                | Some (None, w2) \<Rightarrow>
                    Some (for_keys (handleAnyInProgressAttempts env cfg cid rounds) keyStates w2))))"

section \<open>Task runs\<close>

text \<open>
  The runs of the pipeline are in other tables: a task run is \<open>suspended\<close> or not. The callback is given
  the receipt, or the error of a transaction that reverted where the job asked for that.
\<close>

definition resumable :: "'e env \<Rightarrow> (nat \<Rightarrow> bool) \<Rightarrow> int \<Rightarrow> int \<Rightarrow> txdb \<Rightarrow> (nat \<times> EthReceipt \<times> bool) list" where
  "resumable env suspended headNum cid d =
     concat (map (\<lambda>t.
       (case (PipelineTaskRunID t, MinConfirmations t) of
          (Some run, Some confs) \<Rightarrow>
            if suspended run \<and> TxChainID t = cid
            then concat (map (\<lambda>a. map (\<lambda>r. (run, r, case GetMeta env t of Some (Some m) \<Rightarrow> MetaFailOnRevert m | _ \<Rightarrow> False))
                   (filter (\<lambda>r. ReceiptTxHash r = AttemptHash a \<and> ReceiptBlockNumber r \<le> headNum - uint confs)
                     (eth_receipts d)))
                   (filter (\<lambda>a. EthTxID a = TxID t) (eth_tx_attempts d)))
            else []
        | _ \<Rightarrow> [])) (eth_txes d))"

fun resume_each ::
    "(nat \<Rightarrow> bool) \<Rightarrow> (nat \<times> EthReceipt \<times> bool) list \<Rightarrow> (nat \<times> EthReceipt option) list \<times> 'e tx_error option" where
  "resume_each callback [] = ([], None)"
| "resume_each callback ((run, r, failOnRevert) # rest) =
     (let output = (if failOnRevert \<and> ReceiptStatus r = 0 then None else Some r)
      in if callback run
         then (case resume_each callback rest of (calls, e) \<Rightarrow> ((run, output) # calls, e))
         else ([(run, output)], Some ResumeErr))"

definition ResumePendingTaskRuns ::
    "'e env \<Rightarrow> (nat \<Rightarrow> bool) \<Rightarrow> (nat \<Rightarrow> bool) \<Rightarrow> int \<Rightarrow> int \<Rightarrow> txworld
      \<Rightarrow> ((nat \<times> EthReceipt option) list \<times> 'e tx_error option) \<times> txworld" where
  "ResumePendingTaskRuns env suspended callback headNum cid w =
     (case Select (resumable env suspended headNum cid) w of
        (Inl e, w1) \<Rightarrow> (([], Some (SqlErr e)), w1)
      | (Inr receipts, w1) \<Rightarrow> (resume_each callback receipts, w1))"

section \<open>The resender\<close>

definition requiring_resend :: "int \<Rightarrow> nat \<Rightarrow> int \<Rightarrow> txdb \<Rightarrow> EthTxAttempt list" where
  "requiring_resend olderThan maxInFlightTransactions cid d =
     (let as = dearest_attempts
                 (\<lambda>t. TxState t \<in> {EthTxUnconfirmed, EthTxConfirmedMissingReceipt} \<and> TxChainID t = cid
                      \<and> (case BroadcastAt t of None \<Rightarrow> False | Some b \<Rightarrow> b \<le> olderThan))
                 (\<lambda>a. AttemptState a \<noteq> EthTxAttemptInProgress) d
      in if maxInFlightTransactions > 0 then take maxInFlightTransactions as else as)"

definition resendUnconfirmed ::
    "'e env \<Rightarrow> TxmConfig \<Rightarrow> int \<Rightarrow> int \<Rightarrow> 'e batch_sender \<Rightarrow> int \<Rightarrow> txworld \<Rightarrow> 'e tx_error option \<times> txworld" where
  "resendUnconfirmed env cfg cid ageThreshold send now w =
     (case Select (requiring_resend (now - ageThreshold) (EvmMaxInFlightTransactions cfg) cid) w of
        (Inl e, w1) \<Rightarrow> (Some (SqlErr e), w1)
      | (Inr attempts, w1) \<Rightarrow>
          if attempts = [] then (None, w1)
          else (case batchSendTransactions env send now attempts (EvmRPCDefaultBatchSize cfg) w1 of
                  ((reqs, e), w2) \<Rightarrow> (e, w2)))"

section \<open>Emergency\<close>

definition with_nonce :: "nat \<Rightarrow> int \<Rightarrow> txdb \<Rightarrow> EthTx option" where
  "with_nonce fromAddress nonce d =
     find (\<lambda>t. FromAddress t = fromAddress \<and> Nonce t = Some nonce
             \<and> TxState t \<in> {EthTxConfirmed, EthTxConfirmedMissingReceipt, EthTxUnconfirmed}) (eth_txes d)"

definition findEthTxWithNonce :: "nat \<Rightarrow> int \<Rightarrow> txworld \<Rightarrow> ('e tx_error + EthTx option) \<times> txworld" where
  "findEthTxWithNonce fromAddress nonce w =
     (case Select (with_nonce fromAddress nonce) w of
        (Inl e, w1) \<Rightarrow> (Inl (SqlErr e), w1)
      | (Inr None, w1) \<Rightarrow> (Inr None, w1)
      | (Inr (Some t), w1) \<Rightarrow>
          (case Select (loadEthTxAttempts (TxID t)) w1 of
             (Inl e, w2) \<Rightarrow> (Inl (SqlErr e), w2)
           | (Inr as, w2) \<Rightarrow> (Inr (Some t), w2)))"

text \<open>An empty transaction goes to the address itself; the record of what was sent gives it the number 0.\<close>

definition sendEmptyTransaction ::
    "'e env \<Rightarrow> TxmConfig \<Rightarrow> int \<Rightarrow> nat \<Rightarrow> 64 word \<Rightarrow> 32 word \<Rightarrow> 64 word \<Rightarrow> txworld \<Rightarrow> txworld" where
  "sendEmptyTransaction env cfg cid fromAddress nonce overrideGasLimit gasPriceWei w =
     (let gasLimit = (if overrideGasLimit = 0 then EvmGasLimitDefault cfg else overrideGasLimit);
          tx = LegacyTx nonce fromAddress 0 (ucast gasLimit) (sint gasPriceWei) []
      in case SignTx env fromAddress tx cid of
           None \<Rightarrow> w
         | Some p \<Rightarrow> w\<lparr>sent := sent w @ [(0, tx)]\<rparr>)"

text \<open>One turn of the loop over the nonces: an error ends it, whatever becomes of the transaction does not.\<close>

definition force_one ::
    "'e env \<Rightarrow> TxmConfig \<Rightarrow> int \<Rightarrow> nat \<Rightarrow> 64 word \<Rightarrow> 32 word \<Rightarrow> 'e round \<Rightarrow> 64 word \<Rightarrow> txworld
      \<Rightarrow> 'e tx_error option run \<times> txworld" where
  "force_one env cfg cid address gasPriceWei overrideGasLimit r n w =
     (case findEthTxWithNonce address (uint n) w of
        (Inl e, w1) \<Rightarrow> (Ret (Some e), w1)
      | (Inr None, w1) \<Rightarrow> (Ret None, sendEmptyTransaction env cfg cid address n overrideGasLimit gasPriceWei w1)
      | (Inr (Some t), w1) \<Rightarrow>
          (let etx = (if overrideGasLimit \<noteq> 0 then t\<lparr>GasLimit := overrideGasLimit\<rparr> else t)
           in case NewLegacyAttempt env cfg cid etx (Some (sint gasPriceWei)) (GasLimit etx) of
                Panic m \<Rightarrow> (Panic m, w1)
              | Ret (Inl e) \<Rightarrow> (Ret None, w1)
              | Ret (Inr a) \<Rightarrow> (Ret None, snd (sendTransaction env r a w1))))"

text \<open>The loop tests \<open>n <= endingNonce\<close> on unsigned numbers; the rounds bound it here.\<close>

fun ForceRebroadcast ::
    "'e env \<Rightarrow> TxmConfig \<Rightarrow> int \<Rightarrow> nat \<Rightarrow> 64 word \<Rightarrow> 32 word \<Rightarrow> 64 word \<Rightarrow> 'e round list \<Rightarrow> 64 word \<Rightarrow> txworld
      \<Rightarrow> 'e outcome \<times> txworld" where
  "ForceRebroadcast env cfg cid address gasPriceWei overrideGasLimit endingNonce [] n w =
     (if n \<le> endingNonce then (Waiting, w) else (Returned None True, w))"
| "ForceRebroadcast env cfg cid address gasPriceWei overrideGasLimit endingNonce (r # rs) n w =
     (if n \<le> endingNonce
      then (case force_one env cfg cid address gasPriceWei overrideGasLimit r n w of
              (Panic m, w1) \<Rightarrow> (Panicked m, w1)
            | (Ret (Some e), w1) \<Rightarrow> (Returned (Some e) True, w1)
            | (Ret None, w1) \<Rightarrow>
                ForceRebroadcast env cfg cid address gasPriceWei overrideGasLimit endingNonce rs (n + 1) w1)
      else (Returned None True, w))"

section \<open>A head\<close>

text \<open>What the node and the callback answer, and the clock, during one head.\<close>

record 'e head_turn =
  MissingReceiptSender :: "'e batch_sender"
  HeadClock :: int
  ReceiptSource :: receipt_source
  AddressOrder :: "nat list \<Rightarrow> nat list"
  Leftovers :: "nat \<Rightarrow> (int \<times> 'e round) list"
  Bumps :: "nat \<Rightarrow> 'e round \<times> (int \<times> 'e round) list"
  Reorged :: "nat \<Rightarrow> (int \<times> 'e round) list"
  Suspended :: "nat \<Rightarrow> bool"
  Callback :: "nat \<Rightarrow> bool"

text \<open>The errors and the panic (if any), the callbacks made, and the world.\<close>

definition processHead ::
    "'e env \<Rightarrow> TxmConfig \<Rightarrow> int \<Rightarrow> nat list \<Rightarrow> 'e head_turn \<Rightarrow> head_ptr \<Rightarrow> txworld
      \<Rightarrow> ('e tx_error list \<times> string option \<times> (nat \<times> EthReceipt option) list \<times> txworld) option" where
  "processHead env cfg cid keyStates q head w =
     (let num = block_number head (ref head) in
      case SetBroadcastBeforeBlockNum cid num w of
        (Some e, w1) \<Rightarrow> Some ([e], None, [], w1)
      | (None, w1) \<Rightarrow>
          (case CheckConfirmedMissingReceipt env cfg cid (MissingReceiptSender q) (HeadClock q) w1 of
             (Some e, w2) \<Rightarrow> Some ([e], None, [], w2)
           | (None, w2) \<Rightarrow>
               (case CheckForReceipts (AddressOrder q) cfg cid (ReceiptSource q) num w2 of
                  (Panic m, w3) \<Rightarrow> Some ([], Some m, [], w3)
                | (Ret (Some e), w3) \<Rightarrow> Some ([e], None, [], w3)
                | (Ret None, w3) \<Rightarrow>
                    (case for_keys (rebroadcastWhereNecessary env cfg cid (Leftovers q) (Bumps q) num) keyStates w3 of
                       (es, stop, w4) \<Rightarrow>
                         if es \<noteq> [] \<or> stop \<noteq> None then Some (es, stop, [], w4)
                         else
                           (case EnsureConfirmedTransactionsInLongestChain env cfg cid (Reorged q) keyStates head w4 of
                              None \<Rightarrow> None
                            | Some (es1, stop1, w5) \<Rightarrow>
                                if es1 \<noteq> [] \<or> stop1 \<noteq> None \<or> \<not> HasResumeCallback env
                                then Some (es1, stop1, [], w5)
                                else
                                  (case ResumePendingTaskRuns env (Suspended q) (Callback q) num cid w5 of
                                     ((calls, e), w6) \<Rightarrow>
                                       Some (case e of None \<Rightarrow> [] | Some e \<Rightarrow> [e], None, calls, w6)))))))"

end
