(* ===== verification/TxConfirmed.thy ===== *)
theory TxConfirmed
  imports TxConfirmer
begin

text \<open>
  What the confirmer and the resender do to the tables, beside a broadcaster: every statement of theirs
  leaves alone the rows that the broadcaster of a key relies on and keeps its invariant, and so does
  every handler up to a whole head, whatever the node and the database answer. What a handler has read
  stays \<open>settled\<close>: the transaction has left the queue. A locale states the invariants this holds of.
\<close>

section \<open>Beside the broadcaster\<close>

definition queued_or_sending :: "EthTx \<Rightarrow> bool" where
  "queued_or_sending t \<longleftrightarrow> TxState t = EthTxUnstarted \<or> TxState t = EthTxInProgress"

text \<open>The rows a broadcaster relies on: its transaction in progress and its queue.\<close>

definition relied_on :: "nat \<Rightarrow> int \<Rightarrow> EthTx \<Rightarrow> bool" where
  "relied_on a c t \<longleftrightarrow>
     FromAddress t = a \<and> (TxState t = EthTxInProgress \<or> TxState t = EthTxUnstarted \<and> TxChainID t = c)"

lemma relied_on_attempt:
  assumes "eb_inv env cfg a c d" "t \<in> set (eth_txes d)" "relied_on a c t" "x \<in> set (eth_tx_attempts d)" "EthTxID x = TxID t"
  shows "TxState t = EthTxInProgress \<and> TxChainID t = c \<and> attempts_of (TxID t) d = [x]
    \<and> AttemptState x = EthTxAttemptInProgress"
proof -
  have x: "x \<in> set (attempts_of (TxID t) d)" using assms(4,5) by (simp add: attempts_of_def)
  have st: "TxState t = EthTxInProgress"
  proof (rule ccontr)
    assume "TxState t \<noteq> EthTxInProgress"
    then have "attempts_of (TxID t) d = []" using assms(1-3) by (auto simp: eb_inv_def queue_ok_def relied_on_def)
    then show False using x by simp
  qed
  then have "t \<in> set (in_progress_of a d)" using assms(2,3) by (simp add: in_progress_of_def relied_on_def)
  then obtain y where "TxChainID t = c" "attempts_of (TxID t) d = [y]" "attempt_ok env cfg t y"
    using assms(1) by (auto simp: eb_inv_def sending_ok_def)
  then show ?thesis using st x by (auto simp: attempt_ok_def)
qed

text \<open>A transaction, by its number, that has left the queue; what a pass over the attempts relies on.\<close>

definition left_queue :: "nat \<Rightarrow> txdb \<Rightarrow> bool" where
  "left_queue i d \<longleftrightarrow> (\<forall>t\<in>set (eth_txes d). TxID t = i \<longrightarrow> \<not> queued_or_sending t)"

definition gone :: "nat \<Rightarrow> txdb \<Rightarrow> bool" where
  "gone i d \<longleftrightarrow> i < eth_txes_id_seq d \<and> left_queue i d"

definition settled :: "EthTxAttempt \<Rightarrow> txdb \<Rightarrow> bool" where
  "settled y d \<longleftrightarrow>
     gone (EthTxID y) d \<and> AttemptID y < eth_tx_attempts_id_seq d
     \<and> (\<forall>x\<in>set (eth_tx_attempts d). AttemptID x = AttemptID y \<or> AttemptHash x = AttemptHash y
          \<longrightarrow> gone (EthTxID x) d)"

text \<open>What the confirmer's guarantee to the others and theirs to it have in common.\<close>

definition settle_frame :: "txdb \<Rightarrow> txdb \<Rightarrow> bool" where
  "settle_frame d d' \<longleftrightarrow> (\<forall>i. gone i d \<longrightarrow> gone i d') \<and> (\<forall>y. settled y d \<longrightarrow> settled y d')"

definition attempts_numbered :: "txdb \<Rightarrow> bool" where
  "attempts_numbered d \<longleftrightarrow> (\<forall>x\<in>set (eth_tx_attempts d). AttemptID x < eth_tx_attempts_id_seq d)"

definition keeps_broadcasting :: "'e env \<Rightarrow> TxmConfig \<Rightarrow> nat \<Rightarrow> int \<Rightarrow> txdb \<Rightarrow> txdb \<Rightarrow> bool" where
  "keeps_broadcasting env cfg a c d d' \<longleftrightarrow>
     eb_inv env cfg a c d' \<and> eb_frame a c d d' \<and> settle_frame d d' \<and> (attempts_numbered d \<longrightarrow> attempts_numbered d')"

definition retires :: "EthTx \<Rightarrow> EthTx \<Rightarrow> bool" where
  "retires t u \<longleftrightarrow>
     u = t \<or> \<not> queued_or_sending t \<and> \<not> queued_or_sending u \<and> TxID u = TxID t \<and> FromAddress u = FromAddress t
       \<and> TxChainID u = TxChainID t \<and> (Nonce u = None \<or> Nonce u = Nonce t)"

lemma retires_trans: "retires t u \<Longrightarrow> retires u v \<Longrightarrow> retires t v"
  by (auto simp: retires_def)

lemma retired_update:
  assumes I: "eb_inv env cfg a c d" and ok: "tables_ok d'"
    and txes: "eth_txes d' = map g (eth_txes d)" and g: "\<And>t. t \<in> set (eth_txes d) \<Longrightarrow> retires t (g t)"
    and atts: "\<And>t. t \<in> set (eth_txes d) \<Longrightarrow> relied_on a c t \<Longrightarrow> attempts_of (TxID t) d' = attempts_of (TxID t) d"
      "\<And>x. x \<in> set (eth_tx_attempts d') \<Longrightarrow> 0 < AttemptID x"
      "\<And>x'. x' \<in> set (eth_tx_attempts d') \<Longrightarrow> gone (EthTxID x') d
        \<or> (\<exists>x\<in>set (eth_tx_attempts d). AttemptID x = AttemptID x' \<and> AttemptHash x = AttemptHash x' \<and> EthTxID x = EthTxID x')"
    and seqs: "eth_tx_attempts_id_seq d \<le> eth_tx_attempts_id_seq d'" "eth_txes_id_seq d' = eth_txes_id_seq d"
    and keys: "evm_key_states d' = evm_key_states d"
    and numbered: "attempts_numbered d \<Longrightarrow> attempts_numbered d'"
  shows "keeps_broadcasting env cfg a c d d'"
proof -
  have parts: "ids_ok d" "nonces_ok a c d" "sending_ok env cfg a c d" "queue_ok a c d"
    using I by (simp_all add: eb_inv_def)
  have key: "key_nonce a c d' = key_nonce a c d" by (rule key_nonce_cong) (rule keys)
  have row: "\<exists>t\<in>set (eth_txes d). t' = g t" if "t' \<in> set (eth_txes d')" for t'
    using that unfolding txes by auto
  have same: "g t = t" if "t \<in> set (eth_txes d)" "queued_or_sending t \<or> queued_or_sending (g t)" for t
    using g that by (auto simp: retires_def)
  have was: "t' \<in> set (eth_txes d)" if "t' \<in> set (eth_txes d')" "queued_or_sending t'" for t'
    using row [OF that(1)] same that(2) by metis
  have slot: "in_progress_of a d' = in_progress_of a d"
  proof -
    have eq: "g t = t \<or> \<not> queued_or_sending t \<and> \<not> queued_or_sending (g t)" if "t \<in> set (eth_txes d)" for t
      using same that by blast
    have no: "TxState t \<noteq> EthTxInProgress" if "\<not> queued_or_sending t" for t
      using that by (simp add: queued_or_sending_def)
    have 1: "filter ((\<lambda>t. FromAddress t = a \<and> TxState t = EthTxInProgress) \<circ> g) (eth_txes d)
        = filter (\<lambda>t. FromAddress t = a \<and> TxState t = EthTxInProgress) (eth_txes d)"
      using eq no by (intro filter_cong) (fastforce simp: comp_def)+
    have "map g (in_progress_of a d) = map id (in_progress_of a d)"
      using eq no by (intro map_cong) (fastforce simp: in_progress_of_def)+
    then show ?thesis by (simp add: in_progress_of_def txes filter_map 1)
  qed
  have att: "attempts_of (TxID t) d' = attempts_of (TxID t) d" if "t \<in> set (in_progress_of a d)" for t
    using that atts(1) by (simp add: in_progress_of_def relied_on_def)
  have keeps: "TxID (g t) = TxID t \<and> FromAddress (g t) = FromAddress t \<and> TxChainID (g t) = TxChainID t"
    if "t \<in> set (eth_txes d)" for t
    using g [OF that] by (auto simp: retires_def)
  have "ids_ok d'" using parts(1) atts(2) seqs row keeps by (fastforce simp: ids_ok_def)
  moreover have "nonces_ok a c d'"
    unfolding nonces_ok_def key
  proof (intro ballI impI)
    fix t' assume t': "t' \<in> set (eth_txes d')" "FromAddress t' = a \<and> TxChainID t' = c"
    obtain t where t: "t \<in> set (eth_txes d)" "t' = g t" using row [OF t'(1)] by blast
    then have "nonce_ok (key_nonce a c d) t" using t' keeps parts(2) by (simp add: nonces_ok_def)
    then show "nonce_ok (key_nonce a c d) t'"
      using g [OF t(1)] t(2) by (auto simp: nonce_ok_def retires_def queued_or_sending_def split: option.splits)
  qed
  moreover have "sending_ok env cfg a c d'" using parts(3) att by (simp add: sending_ok_def slot)
  moreover have "queue_ok a c d'"
    unfolding queue_ok_def
  proof (intro ballI impI)
    fix t' assume t': "t' \<in> set (eth_txes d')" "FromAddress t' = a \<and> TxChainID t' = c \<and> TxState t' = EthTxUnstarted"
    then have "t' \<in> set (eth_txes d)" "relied_on a c t'" using was by (auto simp: queued_or_sending_def relied_on_def)
    then show "attempts_of (TxID t') d' = []" using parts(4) t'(2) atts(1) by (simp add: queue_ok_def)
  qed
  moreover have "eb_frame a c d d'"
    unfolding eb_frame_def key slot
  proof (intro conjI ballI impI)
    show "attempts_of (TxID t) d' = attempts_of (TxID t) d" if "t \<in> set (in_progress_of a d)" for t
      using att that .
    show "\<exists>t\<in>set (eth_txes d). TxID t = TxID t' \<and>
        (FromAddress t = a \<and> TxChainID t = c \<and> TxState t = EthTxUnstarted \<longrightarrow> t' = t)"
      if t': "t' \<in> set (eth_txes d')" for t'
    proof -
      obtain t where t: "t \<in> set (eth_txes d)" "t' = g t" using row [OF t'] by blast
      then show ?thesis
        using keeps same by (intro bexI [OF _ t(1)]) (auto simp: queued_or_sending_def)
    qed
  qed (use seqs in simp_all)
  moreover have "settle_frame d d'"
  proof -
    have left: "gone i d'" if "gone i d" for i
      unfolding gone_def left_queue_def
    proof (intro conjI ballI impI)
      fix t' assume t': "t' \<in> set (eth_txes d')" "TxID t' = i"
      obtain t where t: "t \<in> set (eth_txes d)" "t' = g t" using row [OF t'(1)] by blast
      then have "\<not> queued_or_sending t" using that t'(2) keeps by (simp add: gone_def left_queue_def)
      then show "\<not> queued_or_sending t'" using g [OF t(1)] t(2) by (auto simp: retires_def)
    qed (use that seqs in \<open>simp add: gone_def\<close>)
    show ?thesis
      unfolding settle_frame_def settled_def
      using left atts(3) seqs by (metis order_less_le_trans)
  qed
  ultimately show ?thesis using ok numbered by (simp add: eb_inv_def keeps_broadcasting_def)
qed

text \<open>The constraint on the states keeps a row of the queue from becoming one that was broadcast.\<close>

lemma broadcast_state_retired:
  assumes "eth_tx_ok t" "eth_tx_ok u" "BroadcastAt u = BroadcastAt t" "Nonce u = Nonce t"
    and "TxState u \<in> {EthTxUnconfirmed, EthTxConfirmed, EthTxConfirmedMissingReceipt}"
  shows "\<not> queued_or_sending t \<and> \<not> queued_or_sending u"
  using assms by (auto simp: eth_tx_ok_def chk_eth_txes_fsm_def queued_or_sending_def)

lemma attempts_of_keep:
  assumes "eth_tx_attempts d' = update_where P f (eth_tx_attempts d)" "\<And>x. EthTxID (f x) = EthTxID x"
    and "\<And>x. x \<in> set (eth_tx_attempts d) \<Longrightarrow> EthTxID x = i \<Longrightarrow> \<not> P x"
  shows "attempts_of i d' = attempts_of i d"
proof -
  have "filter (\<lambda>x. EthTxID x = i) (update_where P f (eth_tx_attempts d))
      = update_where P f (filter (\<lambda>x. EthTxID x = i) (eth_tx_attempts d))"
    by (rule update_where_filter) (simp add: assms(2))
  also have "... = filter (\<lambda>x. EthTxID x = i) (eth_tx_attempts d)"
    by (rule update_where_none) (use assms(3) in auto)
  finally show ?thesis by (simp add: attempts_of_def assms(1))
qed

lemma update_txes_keeps:
  assumes I: "eb_inv env cfg a c d" and ok: "tables_ok (update_txes P f d)"
    and P: "\<And>t. t \<in> set (eth_txes d) \<Longrightarrow> P t \<Longrightarrow> retires t (f t)"
  shows "keeps_broadcasting env cfg a c d (update_txes P f d)"
proof (rule retired_update [OF I ok, where g = "\<lambda>t. if P t then f t else t"])
  show "retires t (if P t then f t else t)" if "t \<in> set (eth_txes d)" for t
    using P that by (simp add: retires_def)
qed (use I in \<open>auto simp: update_txes_def update_where_def attempts_of_def eb_inv_def ids_ok_def attempts_numbered_def\<close>)

lemma update_attempts_keeps:
  assumes I: "eb_inv env cfg a c d" and ok: "tables_ok (update_attempts P f d)"
    and f: "\<And>x. EthTxID (f x) = EthTxID x" "\<And>x. AttemptID (f x) = AttemptID x" "\<And>x. AttemptHash (f x) = AttemptHash x"
    and P: "\<And>x t. x \<in> set (eth_tx_attempts d) \<Longrightarrow> P x \<Longrightarrow> t \<in> set (eth_txes d) \<Longrightarrow> EthTxID x = TxID t
      \<Longrightarrow> \<not> relied_on a c t"
  shows "keeps_broadcasting env cfg a c d (update_attempts P f d)"
proof (rule retired_update [OF I ok, where g = id])
  show "attempts_of (TxID t) (update_attempts P f d) = attempts_of (TxID t) d"
    if "t \<in> set (eth_txes d)" "relied_on a c t" for t
    by (rule attempts_of_keep [where P = P and f = f]) (use that P f in \<open>auto simp: update_attempts_def\<close>)
qed (use I f in \<open>auto simp: update_attempts_def update_where_def eb_inv_def ids_ok_def attempts_numbered_def retires_def\<close>)

lemma keeps_trans:
  "keeps_broadcasting env cfg a c d d1 \<Longrightarrow> keeps_broadcasting env cfg a c d1 d2 \<Longrightarrow> keeps_broadcasting env cfg a c d d2"
  unfolding keeps_broadcasting_def settle_frame_def using eb_frame_trans by blast

lemma set_broadcast_before_keeps:
  assumes I: "eb_inv env cfg a c d" and ok: "tables_ok (set_broadcast_before cid n d)"
  shows "keeps_broadcasting env cfg a c d (set_broadcast_before cid n d)"
  unfolding set_broadcast_before_def
proof (rule update_attempts_keeps [OF I ok [unfolded set_broadcast_before_def]])
  fix x t assume x: "x \<in> set (eth_tx_attempts d)"
    "BroadcastBeforeBlockNum x = None \<and> AttemptState x = EthTxAttemptBroadcast \<and> tx_of x (\<lambda>t. TxChainID t = cid) d"
    and t: "t \<in> set (eth_txes d)" "EthTxID x = TxID t"
  show "\<not> relied_on a c t" using relied_on_attempt [OF I t(1) _ x(1) t(2)] x(2) by auto
qed simp_all

lemma settled_not_relied_on:
  assumes "settled y d" "x \<in> set (eth_tx_attempts d)" "AttemptID x = AttemptID y" "t \<in> set (eth_txes d)" "EthTxID x = TxID t"
  shows "\<not> relied_on a c t"
  using assms unfolding settled_def gone_def left_queue_def relied_on_def queued_or_sending_def by metis

lemma eb_row_ok: "eb_inv env cfg a c d \<Longrightarrow> t \<in> set (eth_txes d) \<Longrightarrow> eth_tx_ok t"
  using tables_ok_unique(4) [of d t] by (simp add: eb_inv_def)

lemma broadcast_at_retires:
  assumes "eth_tx_ok t" "BroadcastAt t = Some b"
  shows "retires t (t\<lparr>BroadcastAt := Some at\<rparr>)"
  using assms by (auto simp: eth_tx_ok_def chk_eth_txes_fsm_def queued_or_sending_def retires_def)

lemma confirmed_state_retires:
  assumes "eth_tx_ok t" "eth_tx_ok (t\<lparr>TxState := st\<rparr>)"
    and "st \<in> {EthTxUnconfirmed, EthTxConfirmed, EthTxConfirmedMissingReceipt}"
  shows "retires t (t\<lparr>TxState := st\<rparr>)"
  using broadcast_state_retired [OF assms(1,2)] assms(3) by (simp add: retires_def)

lemma broadcast_at_keeps:
  assumes I: "eb_inv env cfg a c d"
    and ok: "tables_ok (update_txes (\<lambda>t. Q t \<and> (case BroadcastAt t of None \<Rightarrow> False | Some b \<Rightarrow> b < at)) (\<lambda>t. t\<lparr>BroadcastAt := Some at\<rparr>) d)"
  shows "keeps_broadcasting env cfg a c d
    (update_txes (\<lambda>t. Q t \<and> (case BroadcastAt t of None \<Rightarrow> False | Some b \<Rightarrow> b < at)) (\<lambda>t. t\<lparr>BroadcastAt := Some at\<rparr>) d)"
  by (rule update_txes_keeps [OF I ok]) (use broadcast_at_retires eb_row_ok [OF I] in \<open>auto split: option.splits\<close>)

text \<open>Every change to a state that a broadcast transaction has.\<close>

lemma confirmed_state_keeps:
  assumes I: "eb_inv env cfg a c d" and ok: "tables_ok (update_txes P (\<lambda>t. t\<lparr>TxState := st\<rparr>) d)"
    and st: "st \<in> {EthTxUnconfirmed, EthTxConfirmed, EthTxConfirmedMissingReceipt}"
  shows "keeps_broadcasting env cfg a c d (update_txes P (\<lambda>t. t\<lparr>TxState := st\<rparr>) d)"
proof (rule update_txes_keeps [OF I ok])
  fix t assume t: "t \<in> set (eth_txes d)" "P t"
  then have "t\<lparr>TxState := st\<rparr> \<in> set (eth_txes (update_txes P (\<lambda>t. t\<lparr>TxState := st\<rparr>) d))"
    by (force simp: update_txes_def update_where_def)
  then show "retires t (t\<lparr>TxState := st\<rparr>)"
    using confirmed_state_retires [OF eb_row_ok [OF I t(1)] _ st] tables_ok_unique(4) [OF ok] by blast
qed

lemma mark_expired_keeps:
  assumes I: "eb_inv env cfg a c d" and ok: "tables_ok (mark_expired cid cutoff d)"
  shows "keeps_broadcasting env cfg a c d (mark_expired cid cutoff d)"
  unfolding mark_expired_def
  by (rule update_txes_keeps [OF I ok [unfolded mark_expired_def]])
    (auto simp: expired_def queued_or_sending_def retires_def)

section \<open>Attempts of the confirmer\<close>

lemma attempts_of_none_hit:
  assumes "settled y d" "t \<in> set (eth_txes d)" "relied_on a c t" "x \<in> set (eth_tx_attempts d)" "EthTxID x = TxID t"
  shows "AttemptID x \<noteq> AttemptID y"
  using settled_not_relied_on [OF assms(1,4) _ assms(2,5)] assms(3) by blast

lemma attempt_new_state_keeps:
  assumes I: "eb_inv env cfg a c d" and ok: "tables_ok (attempt_new_state st at y d)"
    and y: "settled y d"
  shows "keeps_broadcasting env cfg a c d (attempt_new_state st at y d)"
proof (rule retired_update [OF I ok, where g = "\<lambda>t. if TxID t = EthTxID y \<and> (case BroadcastAt t of None \<Rightarrow> False | Some b \<Rightarrow> b < at)
      then t\<lparr>BroadcastAt := Some at\<rparr> else t"])
  show "attempts_of (TxID t) (attempt_new_state st at y d) = attempts_of (TxID t) d"
    if t: "t \<in> set (eth_txes d)" "relied_on a c t" for t
    by (rule attempts_of_keep [where P = "\<lambda>x. AttemptID x = AttemptID y" and f = "\<lambda>x. x\<lparr>AttemptState := st\<rparr>"])
      (use attempts_of_none_hit [OF y t] I in
        \<open>auto simp: attempt_new_state_def update_attempts_def update_txes_def eb_inv_def\<close>)
qed (use I eb_row_ok [OF I] broadcast_at_retires in
    \<open>auto simp: attempt_new_state_def update_attempts_def update_txes_def update_where_def eb_inv_def ids_ok_def attempts_numbered_def
      retires_def split: option.splits\<close>)

definition dated_before :: "int \<Rightarrow> EthTxAttempt \<Rightarrow> EthTx \<Rightarrow> bool" where
  "dated_before at y t \<longleftrightarrow> TxID t = EthTxID y \<and> (case BroadcastAt t of None \<Rightarrow> False | Some b \<Rightarrow> b < at)"

definition missing_receipt_row :: "int \<Rightarrow> EthTxAttempt \<Rightarrow> EthTx \<Rightarrow> EthTx" where
  "missing_receipt_row at y t =
     (let u = (if dated_before at y t then t\<lparr>BroadcastAt := Some at\<rparr> else t)
      in if TxID t = EthTxID y then u\<lparr>TxState := EthTxConfirmedMissingReceipt\<rparr> else u)"

lemma missing_receipt_state_keeps:
  assumes I: "eb_inv env cfg a c d" and ok: "tables_ok (missing_receipt_state at y d)"
    and y: "settled y d"
  shows "keeps_broadcasting env cfg a c d (missing_receipt_state at y d)"
proof (rule retired_update [OF I ok, where g = "missing_receipt_row at y"])
  show txes: "eth_txes (missing_receipt_state at y d) = map (missing_receipt_row at y) (eth_txes d)"
    by (auto simp: missing_receipt_state_def attempt_new_state_def update_attempts_def update_txes_def update_where_def
      missing_receipt_row_def dated_before_def Let_def split: option.splits)
  show "retires t (missing_receipt_row at y t)" if t: "t \<in> set (eth_txes d)" for t
  proof -
    have 1: "eth_tx_ok t" "eth_tx_ok (missing_receipt_row at y t)"
      using eb_row_ok [OF I t] tables_ok_unique(4) [OF ok] txes t by auto
    let ?u = "if dated_before at y t then t\<lparr>BroadcastAt := Some at\<rparr> else t"
    have 2: "retires t ?u"
      using broadcast_at_retires [OF 1(1)] by (auto simp: dated_before_def retires_def split: option.splits)
    have 3: "TxID t = EthTxID y \<Longrightarrow> \<not> queued_or_sending t"
    proof -
      assume e: "TxID t = EthTxID y"
      then have "TxState (missing_receipt_row at y t) = EthTxConfirmedMissingReceipt"
        by (simp add: missing_receipt_row_def)
      then show ?thesis using 1 e
        by (auto simp: missing_receipt_row_def dated_before_def queued_or_sending_def eth_tx_ok_def
          chk_eth_txes_fsm_def Let_def split: if_splits)
    qed
    show ?thesis using 2 3 by (auto simp: missing_receipt_row_def retires_def queued_or_sending_def Let_def)
  qed
  show "attempts_of (TxID t) (missing_receipt_state at y d) = attempts_of (TxID t) d"
    if t: "t \<in> set (eth_txes d)" "relied_on a c t" for t
    by (rule attempts_of_keep [where P = "\<lambda>x. AttemptID x = AttemptID y" and f = "\<lambda>x. x\<lparr>AttemptState := EthTxAttemptBroadcast\<rparr>"])
      (use attempts_of_none_hit [OF y t] I in
        \<open>auto simp: missing_receipt_state_def attempt_new_state_def update_attempts_def update_txes_def eb_inv_def\<close>)
qed (use I in \<open>auto simp: missing_receipt_state_def attempt_new_state_def update_attempts_def update_txes_def
      update_where_def eb_inv_def ids_ok_def attempts_numbered_def\<close>)

lemma delete_attempt_keeps:
  assumes I: "eb_inv env cfg a c d" and ok: "tables_ok (delete_attempts (\<lambda>x. AttemptID x = AttemptID y) d)"
    and y: "settled y d"
  shows "keeps_broadcasting env cfg a c d (delete_attempts (\<lambda>x. AttemptID x = AttemptID y) d)"
proof (rule retired_update [OF I ok, where g = id])
  show "attempts_of (TxID t) (delete_attempts (\<lambda>x. AttemptID x = AttemptID y) d) = attempts_of (TxID t) d"
    if t: "t \<in> set (eth_txes d)" "relied_on a c t" for t
    using attempts_of_none_hit [OF y t] I
    by (auto simp: attempts_of_def delete_attempts_def eb_inv_def intro!: filter_cong)
qed (use I in \<open>auto simp: delete_attempts_def retires_def eb_inv_def ids_ok_def attempts_numbered_def\<close>)

lemma insert_attempt_keeps:
  assumes I: "eb_inv env cfg a c d" and ins: "insert_attempt y d = Inr (row, d')" and y: "gone (EthTxID y) d"
  shows "keeps_broadcasting env cfg a c d d'"
proof -
  have row: "row = y\<lparr>AttemptID := eth_tx_attempts_id_seq d\<rparr>" and ok: "tables_ok d'"
    and d': "d' = d\<lparr>eth_tx_attempts := eth_tx_attempts d @ [row], eth_tx_attempts_id_seq := Suc (eth_tx_attempts_id_seq d)\<rparr>"
    using ins by (auto simp: insert_attempt_Inr)
  have "EthTxID y \<noteq> TxID t" if "t \<in> set (eth_txes d)" "relied_on a c t" for t
    using y that by (auto simp: gone_def left_queue_def relied_on_def queued_or_sending_def)
  then have "attempts_of (TxID t) d' = attempts_of (TxID t) d" if "t \<in> set (eth_txes d)" "relied_on a c t" for t
    using that by (auto simp: attempts_of_def d' row)
  then show ?thesis
    by (intro retired_update [OF I ok, where g = id])
      (use I y in \<open>auto simp: d' row retires_def eb_inv_def ids_ok_def attempts_numbered_def\<close>)
qed

section \<open>Receipts and re-organizations\<close>

text \<open>The transactions whose attempts the receipts are of have left the queue.\<close>

definition receipts_settled :: "fetched_receipt list \<Rightarrow> txdb \<Rightarrow> bool" where
  "receipts_settled receipts d \<longleftrightarrow>
     (\<forall>r\<in>set receipts. \<exists>y. settled y d \<and> AttemptHash y = FetchedTxHash r)"

lemma fold_upsert_tables:
  "eth_txes (fold upsert_receipt rs d) = eth_txes d \<and> eth_tx_attempts (fold upsert_receipt rs d) = eth_tx_attempts d
    \<and> evm_key_states (fold upsert_receipt rs d) = evm_key_states d
    \<and> eth_txes_id_seq (fold upsert_receipt rs d) = eth_txes_id_seq d
    \<and> eth_tx_attempts_id_seq (fold upsert_receipt rs d) = eth_tx_attempts_id_seq d"
  by (induction rs arbitrary: d) (simp_all add: upsert_receipt_def Let_def)

definition receipt_block :: "fetched_receipt list \<Rightarrow> EthTxAttempt \<Rightarrow> int option" where
  "receipt_block receipts a =
     map_option (\<lambda>r. the (FetchedBlockNumber r)) (find (\<lambda>r. FetchedTxHash r = AttemptHash a) receipts)"

lemma receipt_block_None: "receipt_block receipts a = None \<longleftrightarrow> AttemptHash a \<notin> FetchedTxHash ` set receipts"
  by (force simp: receipt_block_def find_None_iff)

definition received_attempt :: "fetched_receipt list \<Rightarrow> EthTxAttempt \<Rightarrow> EthTxAttempt" where
  "received_attempt receipts a =
     a\<lparr>AttemptState := EthTxAttemptBroadcast,
       BroadcastBeforeBlockNum :=
         (case BroadcastBeforeBlockNum a of Some b \<Rightarrow> Some b | None \<Rightarrow> receipt_block receipts a)\<rparr>"

definition received_tx :: "int \<Rightarrow> fetched_receipt list \<Rightarrow> txdb \<Rightarrow> EthTx \<Rightarrow> bool" where
  "received_tx cid receipts d t \<longleftrightarrow>
     list_ex (\<lambda>a. EthTxID a = TxID t \<and> receipt_block receipts a \<noteq> None) (eth_tx_attempts d) \<and> TxChainID t = cid"

lemma save_receipts_eq:
  "save_receipts cid receipts d =
     update_txes (received_tx cid receipts d) (\<lambda>t. t\<lparr>TxState := EthTxConfirmed\<rparr>)
       (update_attempts (\<lambda>a. receipt_block receipts a \<noteq> None) (received_attempt receipts)
         (fold upsert_receipt receipts d))"
  unfolding save_receipts_def Let_def receipt_block_def [abs_def] received_attempt_def [abs_def]
    received_tx_def [abs_def] ..

lemma save_receipts_keeps:
  assumes I: "eb_inv env cfg a c d" and ok: "tables_ok (save_receipts cid receipts d)"
    and r: "receipts_settled receipts d"
  shows "keeps_broadcasting env cfg a c d (save_receipts cid receipts d)"
proof (rule retired_update [OF I ok, where g = "\<lambda>t. if received_tx cid receipts d t then t\<lparr>TxState := EthTxConfirmed\<rparr> else t"])
  have left: "\<not> queued_or_sending t"
    if "x \<in> set (eth_tx_attempts d)" "receipt_block receipts x \<noteq> None" "t \<in> set (eth_txes d)" "EthTxID x = TxID t" for x t
    using that r by (auto simp: receipts_settled_def receipt_block_None settled_def gone_def left_queue_def image_iff)
  show "retires t (if received_tx cid receipts d t then t\<lparr>TxState := EthTxConfirmed\<rparr> else t)"
    if t: "t \<in> set (eth_txes d)" for t
    using left [OF _ _ t] by (auto simp: retires_def received_tx_def list_ex_iff queued_or_sending_def)
  show "attempts_of (TxID t) (save_receipts cid receipts d) = attempts_of (TxID t) d"
    if t: "t \<in> set (eth_txes d)" "relied_on a c t" for t
  proof (rule attempts_of_keep [where P = "\<lambda>x. receipt_block receipts x \<noteq> None" and f = "received_attempt receipts"])
    have "queued_or_sending t" using t(2) by (auto simp: relied_on_def queued_or_sending_def)
    then show "\<not> receipt_block receipts x \<noteq> None" if "x \<in> set (eth_tx_attempts d)" "EthTxID x = TxID t" for x
      using left [OF that(1) _ t(1) that(2)] by blast
  qed (simp_all add: save_receipts_eq update_txes_def update_attempts_def fold_upsert_tables received_attempt_def)
qed (use I in \<open>auto simp: save_receipts_eq update_txes_def update_attempts_def update_where_def fold_upsert_tables
      received_attempt_def eb_inv_def ids_ok_def attempts_numbered_def\<close>)

lemma delete_all_receipts_keeps:
  assumes I: "eb_inv env cfg a c d" and ok: "tables_ok (delete_all_receipts i d)"
  shows "keeps_broadcasting env cfg a c d (delete_all_receipts i d)"
  by (rule retired_update [OF I ok, where g = id])
    (use I in \<open>auto simp: delete_all_receipts_def retires_def attempts_of_def eb_inv_def ids_ok_def attempts_numbered_def\<close>)

lemma attempt_by_id_keeps:
  assumes I: "eb_inv env cfg a c d" and ok: "tables_ok (update_attempts (\<lambda>x. AttemptID x = AttemptID y) f d)"
    and y: "settled y d"
    and f: "\<And>x. EthTxID (f x) = EthTxID x" "\<And>x. AttemptID (f x) = AttemptID x" "\<And>x. AttemptHash (f x) = AttemptHash x"
  shows "keeps_broadcasting env cfg a c d (update_attempts (\<lambda>x. AttemptID x = AttemptID y) f d)"
  by (rule update_attempts_keeps [OF I ok f]) (use settled_not_relied_on [OF y] in auto)

lemma rebroadcast_body_keeps:
  assumes I: "eb_inv env cfg a c d" and y: "settled y d" and b: "rebroadcast_body t y d = Inr (u, d')"
  shows "keeps_broadcasting env cfg a c d d'"
proof -
  let ?d1 = "delete_all_receipts (TxID t) d"
  let ?d2 = "update_txes (\<lambda>u. TxID u = TxID t) (\<lambda>u. u\<lparr>TxState := EthTxUnconfirmed\<rparr>) ?d1"
  have ok: "tables_ok ?d1" "tables_ok ?d2" and ok3: "tables_ok d'"
    and d': "d' = update_attempts (\<lambda>x. AttemptID x = AttemptID y)
      (\<lambda>x. x\<lparr>BroadcastBeforeBlockNum := None, AttemptState := EthTxAttemptInProgress\<rparr>) ?d2"
    using b by (auto simp: rebroadcast_body_def try_bind_Inr checked_Inr unconfirmEthTx_def unbroadcastAttempt_def
      split: if_splits)
  have 1: "keeps_broadcasting env cfg a c d ?d1" by (rule delete_all_receipts_keeps [OF I ok(1)])
  then have I1: "eb_inv env cfg a c ?d1" by (simp add: keeps_broadcasting_def)
  have 2: "keeps_broadcasting env cfg a c ?d1 ?d2" by (rule confirmed_state_keeps [OF I1 ok(2)]) simp
  then have I2: "eb_inv env cfg a c ?d2" by (simp add: keeps_broadcasting_def)
  have "settled y ?d2" using 1 2 y by (simp add: keeps_broadcasting_def settle_frame_def)
  then have "keeps_broadcasting env cfg a c ?d2 d'"
    unfolding d' by (intro attempt_by_id_keeps [OF I2 ok3 [unfolded d']]) simp_all
  then show ?thesis using 1 2 keeps_trans by blast
qed

section \<open>The handlers\<close>

lemma settle_frame_refl [simp]: "settle_frame d d"
  by (simp add: settle_frame_def)

lemma settle_frame_trans: "settle_frame d d1 \<Longrightarrow> settle_frame d1 d2 \<Longrightarrow> settle_frame d d2"
  by (simp add: settle_frame_def)

lemma settled_loaded:
  assumes "eb_inv env cfg a c d" "attempts_numbered d" "x \<in> set (eth_tx_attempts d)" "left_queue (EthTxID x) d"
  shows "settled x d"
proof -
  have ok: "tables_ok d" and ids: "ids_ok d" using assms(1) by (simp_all add: eb_inv_def)
  have "EthTxID x < eth_txes_id_seq d" using tables_ok_unique(6) [OF ok assms(3)] ids by (auto simp: ids_ok_def)
  moreover have "y = x" if "y \<in> set (eth_tx_attempts d)" "AttemptID y = AttemptID x \<or> AttemptHash y = AttemptHash x" for y
  proof -
    have "unique_rows (\<lambda>a. True) AttemptHash (eth_tx_attempts d)"
      using ok by (simp add: tables_ok_def schema_ok_def eth_tx_attempts_ok_def)
    then show ?thesis
      using that assms(3) tables_ok_unique(3) [OF ok] unique_rowsD [of "\<lambda>a. True" AttemptHash] by metis
  qed
  ultimately show ?thesis using assms by (auto simp: settled_def gone_def attempts_numbered_def)
qed

lemma chunks_set: "as \<in> set (chunks n xs) \<Longrightarrow> set as \<subseteq> set xs"
proof (induction n xs rule: chunks.induct)
  case (1 n xs)
  then have "as = xs \<or> as = take n xs \<or> set as \<subseteq> set (drop n xs)"
    by (subst (asm) chunks.simps) (auto split: if_splits)
  then show ?case using set_take_subset [of n xs] set_drop_subset [of n xs] by auto
qed

lemma find_tx_unique:
  assumes "tables_ok d" "find_tx i d = Some t" "Q t"
  shows "\<forall>u\<in>set (eth_txes d). TxID u = i \<longrightarrow> Q u"
  using find_tx_Some [OF assms(2)] tables_ok_unique(1) [OF assms(1)] assms(3) by metis

lemma requiring_receipt_fetch_settled:
  assumes I: "eb_inv env cfg a c d" "attempts_numbered d" and x: "x \<in> set (requiring_receipt_fetch cid d)"
  shows "settled x d"
proof -
  let ?t = "case find_tx (EthTxID x) d of None \<Rightarrow> EthTx_zero | Some t \<Rightarrow> t"
  have x': "x \<in> set (eth_tx_attempts d)" "TxState ?t \<in> {EthTxUnconfirmed, EthTxConfirmedMissingReceipt}"
    using x by (auto simp: requiring_receipt_fetch_def loadEthTxes_def)
  then obtain t where t: "find_tx (EthTxID x) d = Some t"
    by (cases "find_tx (EthTxID x) d") (simp_all add: EthTx_zero_def)
  have "\<forall>u\<in>set (eth_txes d). TxID u = EthTxID x \<longrightarrow> \<not> queued_or_sending u"
    by (rule find_tx_unique [OF _ t]) (use I x' t in \<open>auto simp: eb_inv_def queued_or_sending_def\<close>)
  then show ?thesis using settled_loaded [OF I x'(1)] by (simp add: left_queue_def)
qed

lemma likely_confirmed_subset: "likely_confirmed mined xs = Ret ys \<Longrightarrow> set ys \<subseteq> set xs"
proof (induction xs arbitrary: ys)
  case (Cons x xs)
  then show ?case
    by (cases "likely_confirmed mined xs") (auto split: option.splits if_splits)
qed simp

lemma separateLikelyConfirmedAttempts_subset:
  "separateLikelyConfirmedAttempts xs mined = Ret ys \<Longrightarrow> set ys \<subseteq> set xs"
  using likely_confirmed_subset by (auto simp: separateLikelyConfirmedAttempts_def split: if_splits)

lemma new_attempt_tx:
  "NewLegacyAttempt env cfg cid etx p g = Ret (Inr x) \<Longrightarrow> EthTxID x = TxID etx \<and> AttemptID x = 0"
  "NewDynamicFeeAttempt env cfg cid etx tip cap g = Ret (Inr x) \<Longrightarrow> EthTxID x = TxID etx \<and> AttemptID x = 0"
  by (auto simp: NewLegacyAttempt_def NewDynamicFeeAttempt_def validateLegacyGas_def validateDynamicFeeGas_def
      run_simps try_bind_Inr newSignedAttempt_def split: option.splits if_splits prod.splits)

lemma bumpGas_tx: "bumpGas env cfg cid r etx as = Ret (Inr x) \<Longrightarrow> EthTxID x = TxID etx \<and> AttemptID x = 0"
  by (auto simp: bumpGas_def Let_def dest: new_attempt_tx split: if_splits option.splits sum.splits prod.splits)

lemma attemptForRebroadcast_tx:
  assumes "attemptForRebroadcast env cfg cid r etx as = Ret (Inr x)"
  shows "as \<noteq> [] \<and> (EthTxID x = TxID etx \<and> AttemptID x = 0
    \<or> AttemptID x = AttemptID (hd as) \<and> AttemptHash x = AttemptHash (hd as) \<and> EthTxID x = EthTxID (hd as))"
proof (cases as)
  case Nil
  then show ?thesis using assms by (simp add: attemptForRebroadcast_def)
next
  case (Cons p ps)
  show ?thesis
  proof (cases "AttemptState p = EthTxAttemptInsufficientEth")
    case False
    then obtain res where "bumpGas env cfg cid r etx as = Ret res" "case res of Inr y \<Rightarrow> y = x | Inl e \<Rightarrow>
        x = p\<lparr>BroadcastBeforeBlockNum := None, AttemptState := EthTxAttemptInProgress\<rparr>"
      using assms Cons by (cases "bumpGas env cfg cid r etx as")
        (auto simp: attemptForRebroadcast_def split: sum.splits if_splits)
    then show ?thesis using Cons by (auto split: sum.splits dest: bumpGas_tx)
  qed (use assms Cons in \<open>auto simp: attemptForRebroadcast_def\<close>)
qed

lemma loadEthTxAttempts_mem: "x \<in> set (loadEthTxAttempts i d) \<longleftrightarrow> x \<in> set (eth_tx_attempts d) \<and> EthTxID x = i"
  by (auto simp: loadEthTxAttempts_def)

lemma in_progress_attempts_settled:
  assumes I: "eb_inv env cfg a c d" "attempts_numbered d" and x: "x \<in> set (in_progress_attempts address cid d)"
  shows "settled x d"
proof -
  obtain t where t: "t \<in> set (eth_txes d)" "TxID t = EthTxID x" "\<not> queued_or_sending t" and xs: "x \<in> set (eth_tx_attempts d)"
    using x by (auto simp: in_progress_attempts_def tx_of_def list_ex_iff queued_or_sending_def)
  have "left_queue (EthTxID x) d"
    unfolding left_queue_def using tables_ok_unique(1) [of d] t I(1) by (metis eb_inv_def)
  then show ?thesis by (rule settled_loaded [OF I xs])
qed

lemma tx_gone:
  assumes "eb_inv env cfg a c d" "t \<in> set (eth_txes d)" "\<not> queued_or_sending t"
  shows "gone (TxID t) d"
proof -
  have "tables_ok d" "TxID t < eth_txes_id_seq d" using assms(1,2) by (auto simp: eb_inv_def ids_ok_def)
  then show ?thesis using tables_ok_unique(1) [of d] assms(2,3) unfolding gone_def left_queue_def by metis
qed

text \<open>An invariant that the writes of the confirmer keep.\<close>

locale confirmer_invariant =
  fixes env :: "'e env" and cfg :: TxmConfig and a :: nat and c :: int and J :: "txdb \<Rightarrow> bool"
  assumes J_inv: "J d \<Longrightarrow> eb_inv env cfg a c d \<and> attempts_numbered d"
    and J_keeps: "J d \<Longrightarrow> keeps_broadcasting env cfg a c d d' \<Longrightarrow> J d'"

sublocale confirmer_invariant \<subseteq> table_user J settle_frame
  by unfold_locales simp

context confirmer_invariant
begin

definition passes :: "txworld \<Rightarrow> txworld \<Rightarrow> bool" where
  "passes w w1 \<longleftrightarrow> guarded w1 \<and> settle_frame (db w) (db w1)"

lemma passes_refl: "guarded w \<Longrightarrow> passes w w"
  by (simp add: passes_def)

lemma passes_trans: "passes w w1 \<Longrightarrow> passes w1 w2 \<Longrightarrow> passes w w2"
  unfolding passes_def using settle_frame_trans by blast

lemma passesD: "passes w w1 \<Longrightarrow> guarded w1 \<and> J (db w1)"
  by (simp add: passes_def guarded_def)

lemma passes_settled: "passes w w1 \<Longrightarrow> settled y (db w) \<Longrightarrow> settled y (db w1)"
  and passes_gone: "passes w w1 \<Longrightarrow> gone i (db w) \<Longrightarrow> gone i (db w1)"
  by (simp_all add: passes_def settle_frame_def)

lemma frame_stable: "stable (settle_frame d)"
  unfolding stable_def using settle_frame_trans by blast

lemma Select_passes:
  assumes "guarded w" "Select query w = (res, w1)"
  shows "passes w w1 \<and> (\<forall>x. res = Inr x \<longrightarrow> x = query (db w1))"
  using Select_guarded [OF assms(1) frame_stable [of "db w"] _ assms(2)] by (simp add: passes_def)

lemma Transaction_passes:
  assumes "guarded w" "Transaction body w = (res, w1)"
    and body: "\<And>d x d'. J d \<Longrightarrow> settle_frame (db w) d \<Longrightarrow> body d = Inr (x, d')
      \<Longrightarrow> keeps_broadcasting env cfg a c d d' \<and> Q x d'"
  shows "passes w w1 \<and> (\<forall>x. res = Inr x \<longrightarrow> Q x (db w1))"
proof -
  have each: "J d' \<and> settle_frame (db w) d' \<and> Q x d'"
    if "J d" "settle_frame (db w) d" "body d = Inr (x, d')" for d x d'
    using body [OF that] J_keeps [OF that(1)] settle_frame_trans [OF that(2)] by (auto simp: keeps_broadcasting_def)
  have "guarded w1 \<and> sent w1 = sent w \<and>
      (case res of Inr x \<Rightarrow> settle_frame (db w) (db w1) \<and> Q x (db w1)
       | Inl e \<Rightarrow> settle_frame (db w) (db w1) \<or> e = ErrUnavailable \<and> (\<exists>x. settle_frame (db w) (db w1) \<and> Q x (db w1)))"
    by (rule Transaction_guarded [where P = "settle_frame (db w)" and Q = "\<lambda>x d. settle_frame (db w) d \<and> Q x d" and body = body])
      (rule assms(1), rule frame_stable, rule settle_frame_refl, erule (2) each, rule assms(2))
  then show ?thesis by (auto simp: passes_def split: sum.splits)
qed

lemma Exec_passes:
  assumes "guarded w" "Exec f w = (e, w1)"
    and body: "\<And>d. J d \<Longrightarrow> settle_frame (db w) d \<Longrightarrow> tables_ok (f d) \<Longrightarrow> keeps_broadcasting env cfg a c d (f d)"
  shows "passes w w1"
proof -
  obtain res :: "sql_error + unit"
    where t: "Transaction (\<lambda>d. try_bind (checked (f d)) (\<lambda>d1. Inr ((), d1))) w = (res, w1)"
    using assms(2) by (auto simp: Exec_def split: prod.splits sum.splits)
  then show ?thesis
    using Transaction_passes [OF assms(1) t, where Q = "\<lambda>x d. True"] body
    by (auto simp: try_bind_Inr checked_Inr)
qed

lemma sent_passes: "guarded w \<Longrightarrow> passes w (w\<lparr>sent := s\<rparr>)"
  by (simp add: passes_def guarded_def)

lemma sendTransaction_passes: "guarded w \<Longrightarrow> sendTransaction env r y w = (e, w1) \<Longrightarrow> passes w w1"
  by (auto simp: sendTransaction_def Let_def sent_passes passes_refl split: sum.splits if_splits)

lemma Select2_passes:
  assumes g: "guarded w" and s: "Select2 q1 q2 w = (res, w2)"
  shows "passes w w2 \<and> (\<forall>y. res = Inr y \<longrightarrow> (\<exists>w1. passes w w1 \<and> passes w1 w2 \<and> y = q2 (q1 (db w1)) (db w2)))"
proof -
  obtain r1 w1 where 1: "Select q1 w = (r1, w1)" by (cases "Select q1 w")
  note p1 = Select_passes [OF g 1]
  then have g1: "guarded w1" using passesD by blast
  show ?thesis
  proof (cases r1)
    case (Inl e)
    then show ?thesis using s 1 p1 by (auto simp: Select2_def)
  next
    case (Inr x)
    obtain r2 w' where 2: "Select (q2 x) w1 = (r2, w')" by (cases "Select (q2 x) w1")
    note p2 = Select_passes [OF g1 2]
    have "w' = w2" using s 1 2 Inr by (auto simp: Select2_def split: sum.splits)
    then show ?thesis using s 1 2 Inr p1 p2 passes_trans by (auto simp: Select2_def split: sum.splits)
  qed
qed

lemma SetBroadcastBeforeBlockNum_passes:
  "guarded w \<Longrightarrow> SetBroadcastBeforeBlockNum cid n w = (e, w1) \<Longrightarrow> passes w w1"
  unfolding SetBroadcastBeforeBlockNum_def
  by (erule (1) Exec_passes) (use J_inv set_broadcast_before_keeps in blast)

lemma update_broadcast_ats_passes: "guarded w \<Longrightarrow> updateBroadcastAts now ids w = (e, w1) \<Longrightarrow> passes w w1"
  unfolding updateBroadcastAts_def update_broadcast_ats_def
  by (erule (1) Exec_passes, rule broadcast_at_keeps) (use J_inv in blast)+

lemma send_batches_passes:
  "guarded w \<Longrightarrow> send_batches env send now ass w = ((reqs, e), w1) \<Longrightarrow> passes w w1"
proof (induction ass arbitrary: w reqs e w1)
  case Nil
  then show ?case by (simp add: passes_refl)
next
  case (Cons as rest)
  obtain failed err where s: "send (map AttemptHash as) = (failed, err)" by (cases "send (map AttemptHash as)")
  let ?w1 = "w\<lparr>sent := sent w @ sent_raw env as\<rparr>"
  have p: "passes w ?w1" using Cons.prems(1) by (rule sent_passes)
  then have g1: "guarded ?w1" using passesD by blast
  obtain u :: "'e tx_error option" and w2 where u: "updateBroadcastAts now (map EthTxID as) ?w1 = (u, w2)"
    by (metis prod.collapse)
  have p2: "passes w w2" using passes_trans [OF p update_broadcast_ats_passes [OF g1 u]] .
  obtain reqs' e' w3 where b: "send_batches env send now rest w2 = ((reqs', e'), w3)"
    by (metis prod.collapse)
  have "passes w2 w3" using Cons.IH [OF _ b] p2 passesD by blast
  then have p3: "passes w w3" using p2 passes_trans by blast
  have "w1 \<in> {?w1, w2, w3}"
    using Cons.prems(2) s u b by (cases failed; cases u) (simp_all add: Let_def)
  then show ?case using p p2 p3 by blast
qed

lemma batchSendTransactions_passes:
  "guarded w \<Longrightarrow> batchSendTransactions env send now as n w = ((reqs, e), w1) \<Longrightarrow> passes w w1"
  unfolding batchSendTransactions_def by (rule send_batches_passes)

lemma unconfirm_ids_passes: "guarded w \<Longrightarrow> Exec (unconfirm_ids ids) w = (e, w1) \<Longrightarrow> passes w w1"
  unfolding unconfirm_ids_def
  by (erule (1) Exec_passes, rule confirmed_state_keeps) (use J_inv in auto)

lemma CheckConfirmedMissingReceipt_passes:
  assumes g: "guarded w" and r: "CheckConfirmedMissingReceipt env cfg cid send now w = (e, w3)"
  shows "passes w w3"
proof -
  obtain r1 w1 where 1: "Select (confirmed_missing_receipt cid) w = (r1, w1)" by (metis prod.collapse)
  have p1: "passes w w1" using Select_passes [OF g 1] by blast
  show ?thesis
  proof (cases "\<exists>as. r1 = Inr as \<and> as \<noteq> []")
    case False
    then have "w3 = w1" using r 1 by (auto simp: CheckConfirmedMissingReceipt_def split: sum.splits)
    then show ?thesis using p1 by simp
  next
    case True
    then obtain as where as: "r1 = Inr as" "as \<noteq> []" by blast
    obtain reqs e2 w2 where 2: "batchSendTransactions env send now as (EvmRPCDefaultBatchSize cfg) w1 = ((reqs, e2), w2)"
      by (metis prod.collapse)
    have p2: "passes w1 w2" using batchSendTransactions_passes [OF _ 2] p1 passesD by blast
    then have "passes w2 w3"
      using unconfirm_ids_passes [of w2] r 1 2 as passesD by (auto simp: CheckConfirmedMissingReceipt_def)
    then show ?thesis using p1 p2 passes_trans by blast
  qed
qed

lemma resendUnconfirmed_passes:
  assumes g: "guarded w" and r: "resendUnconfirmed env cfg cid age send now w = (e, w2)"
  shows "passes w w2"
proof -
  obtain r1 w1 where 1: "Select (requiring_resend (now - age) (EvmMaxInFlightTransactions cfg) cid) w = (r1, w1)"
    by (metis prod.collapse)
  have p1: "passes w w1" using Select_passes [OF g 1] by blast
  show ?thesis
  proof (cases "\<exists>as. r1 = Inr as \<and> as \<noteq> []")
    case False
    then have "w2 = w1" using r 1 by (auto simp: resendUnconfirmed_def split: sum.splits)
    then show ?thesis using p1 by simp
  next
    case True
    then obtain as where as: "r1 = Inr as" "as \<noteq> []" by blast
    obtain reqs e2 w' where 2: "batchSendTransactions env send now as (EvmRPCDefaultBatchSize cfg) w1 = ((reqs, e2), w')"
      by (metis prod.collapse)
    then have "w' = w2" using r 1 as by (simp add: resendUnconfirmed_def)
    moreover have "passes w1 w'" using batchSendTransactions_passes [OF _ 2] p1 passesD by blast
    ultimately show ?thesis using p1 passes_trans by blast
  qed
qed

text \<open>Receipts: what is saved is for attempts that were loaded.\<close>

lemma received_hash: "received answers y = Some r \<Longrightarrow> FetchedTxHash r = AttemptHash y"
  by (auto simp: received_def split: fetched.splits if_splits)

lemma saveFetchedReceipts_passes:
  assumes g: "guarded w" and r: "receipts_settled receipts (db w)" and s: "saveFetchedReceipts cid receipts w = (e, w1)"
  shows "passes w w1"
proof (cases "receipts = []")
  case True
  then show ?thesis using g s passes_refl by (simp add: saveFetchedReceipts_def)
next
  case False
  have x: "Exec (save_receipts cid receipts) w = (e, w1)" using s False by (simp add: saveFetchedReceipts_def)
  have "keeps_broadcasting env cfg a c d (save_receipts cid receipts d)"
    if d: "J d" "settle_frame (db w) d" "tables_ok (save_receipts cid receipts d)" for d
  proof (rule save_receipts_keeps [OF _ d(3)])
    show "receipts_settled receipts d"
      using r d(2) unfolding receipts_settled_def settle_frame_def by blast
  qed (use J_inv d in blast)
  then show ?thesis by (rule Exec_passes [OF g x])
qed

lemma batchFetchReceipts_passes:
  assumes g: "guarded w" and as: "\<forall>y\<in>set as. settled y (db w)"
    and r: "batchFetchReceipts cfg' src as w = (res, w1)"
  shows "passes w w1 \<and> (\<forall>receipts. res = Inr receipts \<longrightarrow> receipts_settled receipts (db w1))"
proof -
  obtain r0 w0 where l: "(if EvmUseForwarders cfg' then Select (loadEthTxes as) w else (Inr [], w)) = (r0, w0)"
    by (metis prod.collapse)
  have p: "passes w w0" using l g Select_passes [OF g] passes_refl by (auto split: if_splits)
  have w0: "w0 = w1" using r l by (auto simp: batchFetchReceipts_def split: sum.splits option.splits)
  have "receipts_settled receipts (db w1)" if res: "res = Inr receipts" for receipts
    unfolding receipts_settled_def
  proof
    fix r' assume "r' \<in> set receipts"
    then obtain y answers where y: "y \<in> set as" "received answers y = Some r'"
      using r l res by (auto simp: batchFetchReceipts_def map_filter_def split: sum.splits option.splits)
    then show "\<exists>y. settled y (db w1) \<and> AttemptHash y = FetchedTxHash r'"
      using as passes_settled [OF p] received_hash w0 by metis
  qed
  then show ?thesis using p w0 by blast
qed

lemma receipt_batches_passes:
  "guarded w \<Longrightarrow> \<forall>as\<in>set ass. \<forall>y\<in>set as. settled y (db w) \<Longrightarrow> receipt_batches cfg' cid src ass w = (e :: 'e tx_error option, w1) \<Longrightarrow> passes w w1"
proof (induction ass arbitrary: w)
  case Nil
  then show ?case by (simp add: passes_refl)
next
  case (Cons as rest)
  obtain res :: "'e tx_error + fetched_receipt list" and w2 where b: "batchFetchReceipts cfg' src as w = (res, w2)" by (metis prod.collapse)
  note b' = batchFetchReceipts_passes [OF Cons.prems(1) _ b]
  then have p2: "passes w w2" using Cons.prems(2) by simp
  show ?case
  proof (cases res)
    case (Inl e')
    then show ?thesis using Cons.prems(3) b p2 by simp
  next
    case (Inr receipts)
    obtain e3 :: "'e tx_error option" and w3 where s: "saveFetchedReceipts cid receipts w2 = (e3, w3)" by (metis prod.collapse)
    have p3: "passes w w3"
      using passes_trans [OF p2 saveFetchedReceipts_passes [OF _ _ s]] b' Cons.prems(2) Inr p2 passesD by simp
    show ?thesis
    proof (cases e3)
      case None
      have "receipt_batches cfg' cid src rest w3 = (e, w1)" using Cons.prems(3) b Inr s None by simp
      then have "passes w3 w1"
        using Cons.IH [of w3] Cons.prems(2) p3 passesD passes_settled [OF p3] by auto
      then show ?thesis using p3 passes_trans by blast
    qed (use Cons.prems(3) b Inr s p3 in simp)
  qed
qed

lemma fetchAndSaveReceipts_passes:
  assumes "guarded w" "\<forall>y\<in>set as. settled y (db w)" "fetchAndSaveReceipts cfg' cid src as w = (e :: 'e tx_error option, w1)"
  shows "passes w w1"
  using receipt_batches_passes [OF assms(1) _ assms(3) [unfolded fetchAndSaveReceipts_def]] assms(2) chunks_set by blast

lemma receipts_of_addresses_passes:
  "guarded w \<Longrightarrow> \<forall>x\<in>set attempts. settled (fst x) (db w)
    \<Longrightarrow> receipts_of_addresses cfg' cid src attempts addrs w = (e :: 'e tx_error option run, w1) \<Longrightarrow> passes w w1"
proof (induction addrs arbitrary: w)
  case Nil
  then show ?case by (simp add: passes_refl)
next
  case (Cons addr addrs)
  let ?own = "filter (\<lambda>(a, t). FromAddress t = addr) attempts"
  show ?case
  proof (cases "\<exists>mined likely. NonceAt src addr = Some mined \<and> separateLikelyConfirmedAttempts ?own mined = Ret likely")
    case False
    then have "w1 = w" using Cons.prems(3) by (auto split: option.splits run.splits)
    then show ?thesis using Cons.prems(1) passes_refl by simp
  next
    case True
    then obtain mined likely where m: "NonceAt src addr = Some mined" "separateLikelyConfirmedAttempts ?own mined = Ret likely"
      by blast
    obtain e2 :: "'e tx_error option" and w2 where
      f: "(if likely = [] then (None, w) else fetchAndSaveReceipts cfg' cid src (map fst likely) w) = (e2, w2)"
      by (metis prod.collapse)
    have "\<forall>y\<in>set (map fst likely). settled y (db w)"
      using separateLikelyConfirmedAttempts_subset [OF m(2)] Cons.prems(2) by auto
    then have p: "passes w w2"
      using f fetchAndSaveReceipts_passes [OF Cons.prems(1), of "map fst likely" cfg' cid src e2 w2]
        passes_refl [OF Cons.prems(1)] by (auto split: if_splits)
    show ?thesis
    proof (cases e2)
      case None
      have "receipts_of_addresses cfg' cid src attempts addrs w2 = (e, w1)" using Cons.prems(3) m f None by simp
      then have "passes w2 w1" using Cons.IH [of w2] Cons.prems(2) p passesD passes_settled [OF p] by auto
      then show ?thesis using p passes_trans by blast
    qed (use Cons.prems(3) m f p in simp)
  qed
qed

lemma mark_missing_receipt_passes: "guarded w \<Longrightarrow> markAllConfirmedMissingReceipt cid w = (e, w1) \<Longrightarrow> passes w w1"
  unfolding markAllConfirmedMissingReceipt_def mark_missing_receipt_def
  by (erule (1) Exec_passes, rule confirmed_state_keeps) (use J_inv in auto)

lemma mark_expired_passes:
  assumes g: "guarded w" and r: "markOldTxesMissingReceiptAsErrored cfg' cid n w = (e :: 'e tx_error option, w1)"
  shows "passes w w1"
proof (cases "wrap64 (n - int (EvmFinalityDepth cfg')) \<le> 0")
  case True
  then show ?thesis using r passes_refl [OF g] by (simp add: markOldTxesMissingReceiptAsErrored_def Let_def)
next
  case False
  then have "Exec (mark_expired cid (wrap64 (n - int (EvmFinalityDepth cfg')))) w = (e, w1)"
    using r by (simp add: markOldTxesMissingReceiptAsErrored_def Let_def)
  then show ?thesis by (rule Exec_passes [OF g]) (rule mark_expired_keeps, use J_inv in blast)
qed

lemma CheckForReceipts_passes:
  assumes g: "guarded w" and r: "CheckForReceipts ord cfg' cid src n w = (e :: 'e tx_error option run, w1)"
  shows "passes w w1"
proof -
  obtain res :: "'e tx_error + (EthTxAttempt \<times> EthTx) list" and w2 where
    f: "findEthTxAttemptsRequiringReceiptFetch cid w = (res, w2)" by (metis prod.collapse)
  note s2 = Select2_passes [OF g f [unfolded findEthTxAttemptsRequiringReceiptFetch_def]]
  show ?thesis
  proof (cases "\<exists>as. res = Inr as \<and> as \<noteq> []")
    case False
    then have "w1 = w2" using r f by (auto simp: CheckForReceipts_def split: sum.splits)
    then show ?thesis using s2 by blast
  next
    case True
    then obtain as where as: "res = Inr as" "as \<noteq> []" by blast
    obtain w0 where w0: "passes w w0" "passes w0 w2" "as = loadEthTxes (requiring_receipt_fetch cid (db w0)) (db w2)"
      using s2 as(1) by blast
    have "settled (fst x) (db w2)" if "x \<in> set as" for x
    proof -
      have "fst x \<in> set (requiring_receipt_fetch cid (db w0))" using that w0(3) by (auto simp: loadEthTxes_def)
      then have "settled (fst x) (db w0)" using requiring_receipt_fetch_settled J_inv passesD [OF w0(1)] by blast
      then show ?thesis using passes_settled [OF w0(2)] by blast
    qed
    moreover obtain e3 :: "'e tx_error option run" and w3 where
      a3: "receipts_of_addresses cfg' cid src as (ord (remdups (map (\<lambda>(a, t). FromAddress t) as))) w2 = (e3, w3)"
      by (metis prod.collapse)
    ultimately have p3: "passes w w3"
      using receipts_of_addresses_passes [OF _ _ a3] s2 passesD passes_trans by blast
    show ?thesis
    proof (cases "e3 = Ret None")
      case False
      then have "w1 = w3" using r f as a3 by (auto simp: CheckForReceipts_def split: run.splits option.splits)
      then show ?thesis using p3 by simp
    next
      case True
      obtain e4 :: "'e tx_error option" and w4 where m: "markAllConfirmedMissingReceipt cid w3 = (e4, w4)"
        by (metis prod.collapse)
      have p4: "passes w w4" using passes_trans [OF p3 mark_missing_receipt_passes [OF _ m]] passesD [OF p3] by blast
      show ?thesis
      proof (cases e4)
        case (Some e')
        then show ?thesis using r f as a3 True m p4 by (simp add: CheckForReceipts_def)
      next
        case None
        obtain e5 :: "'e tx_error option" and w5 where o: "markOldTxesMissingReceiptAsErrored cfg' cid n w4 = (e5, w5)"
          by (metis prod.collapse)
        have "w1 = w5" using r f as a3 True m None o by (simp add: CheckForReceipts_def)
        moreover have "passes w4 w5" using mark_expired_passes [OF _ o] passesD [OF p4] by blast
        ultimately show ?thesis using p4 passes_trans by blast
      qed
    qed
  qed
qed

lemma inserted_settled:
  assumes d: "J d" and y: "gone (EthTxID y) d" and ins: "insert_attempt y d = Inr (row, d')"
  shows "keeps_broadcasting env cfg a c d d' \<and> settled row d'"
proof -
  have I: "eb_inv env cfg a c d" "attempts_numbered d" using J_inv [OF d] by simp_all
  have k: "keeps_broadcasting env cfg a c d d'" by (rule insert_attempt_keeps [OF I(1) ins y])
  have "row \<in> set (eth_tx_attempts d')" "EthTxID row = EthTxID y" using ins by (auto simp: insert_attempt_Inr)
  moreover have "gone (EthTxID y) d'" using k y by (simp add: keeps_broadcasting_def settle_frame_def)
  ultimately have "settled row d'"
    using settled_loaded [of env cfg a c d' row] k I(2) by (simp add: keeps_broadcasting_def gone_def)
  then show ?thesis using k by blast
qed

lemma saveInProgressAttempt_passes:
  assumes g: "guarded w" and y: "gone (EthTxID y) (db w)" "AttemptID y \<noteq> 0 \<Longrightarrow> settled y (db w)"
    and r: "saveInProgressAttempt y w = (res :: 'e tx_error + EthTxAttempt, w1)"
  shows "passes w w1 \<and> (\<forall>row. res = Inr row \<longrightarrow> settled row (db w1))"
proof (cases "AttemptState y \<noteq> EthTxAttemptInProgress")
  case True
  then show ?thesis using r passes_refl [OF g] by (auto simp: saveInProgressAttempt_def)
next
  case False
  show ?thesis
  proof (cases "AttemptID y = 0")
    case True
    obtain t w' where t: "Transaction (insert_attempt y) w = (t, w')" by (metis prod.collapse)
    have p: "passes w w' \<and> (\<forall>row. t = Inr row \<longrightarrow> settled row (db w'))"
    proof (rule Transaction_passes [OF g t])
      fix d row d' assume d: "J d" "settle_frame (db w) d" "insert_attempt y d = Inr (row, d')"
      then have "gone (EthTxID y) d" using y by (simp add: settle_frame_def)
      then show "keeps_broadcasting env cfg a c d d' \<and> settled row d'" by (rule inserted_settled [OF d(1) _ d(3)])
    qed
    then show ?thesis using r t True False by (auto simp: saveInProgressAttempt_def split: sum.splits)
  next
    case id: False
    let ?body = "\<lambda>d. if list_ex (\<lambda>x. AttemptID x = AttemptID y) (eth_tx_attempts d)
      then try_bind (checked (update_attempts (\<lambda>x. AttemptID x = AttemptID y)
             (\<lambda>x. x\<lparr>AttemptState := AttemptState y, BroadcastBeforeBlockNum := BroadcastBeforeBlockNum y\<rparr>) d))
             (\<lambda>d1. Inr (True, d1))
      else Inr (False, d)"
    obtain t w' where t: "Transaction ?body w = (t, w')" by (cases "Transaction ?body w")
    have p: "passes w w' \<and> (\<forall>x. t = Inr x \<longrightarrow> settled y (db w'))"
    proof (rule Transaction_passes [OF g t, where Q = "\<lambda>x d. settled y d"])
      fix d x d' assume d: "J d" "settle_frame (db w) d" "?body d = Inr (x, d')"
      have I: "eb_inv env cfg a c d" using J_inv [OF d(1)] by simp
      have s: "settled y d" using y id d(2) by (simp add: settle_frame_def)
      show "keeps_broadcasting env cfg a c d d' \<and> settled y d'"
      proof (cases "list_ex (\<lambda>x. AttemptID x = AttemptID y) (eth_tx_attempts d)")
        case True
        let ?f = "\<lambda>x. x\<lparr>AttemptState := AttemptState y, BroadcastBeforeBlockNum := BroadcastBeforeBlockNum y\<rparr>"
        have "d' = update_attempts (\<lambda>x. AttemptID x = AttemptID y) ?f d" "tables_ok d'"
          using d(3) by (simp_all only: True if_True try_bind_Inr checked_Inr) blast+
        then have "keeps_broadcasting env cfg a c d d'" using attempt_by_id_keeps [OF I _ s, of ?f] by simp
        then show ?thesis using s by (auto simp: keeps_broadcasting_def settle_frame_def)
      next
        case False
        then have "d' = d" using d(3) by simp
        then show ?thesis using s I eb.frame_refl [OF I] by (simp add: keeps_broadcasting_def)
      qed
    qed
    then show ?thesis using r t id False by (auto simp: saveInProgressAttempt_def split: sum.splits bool.splits)
  qed
qed

lemma saveReplacement_passes:
  assumes g: "guarded w" and y: "settled y (db w)" and n: "gone (EthTxID n) (db w)"
    and r: "saveReplacementInProgressAttempt y n w = (res :: 'e tx_error + EthTxAttempt, w1)"
  shows "passes w w1 \<and> (\<forall>row. res = Inr row \<longrightarrow> settled row (db w1))"
proof (cases "AttemptState y \<noteq> EthTxAttemptInProgress \<or> AttemptState n \<noteq> EthTxAttemptInProgress \<or> AttemptID y = 0")
  case True
  then show ?thesis using r passes_refl [OF g] by (auto simp: saveReplacementInProgressAttempt_def split: if_splits)
next
  case False
  let ?body = "\<lambda>d. try_bind (checked (delete_attempts (\<lambda>x. AttemptID x = AttemptID y) d)) (insert_attempt n)"
  obtain t w' where t: "Transaction ?body w = (t, w')" by (metis prod.collapse)
  have "passes w w' \<and> (\<forall>row. t = Inr row \<longrightarrow> settled row (db w'))"
  proof (rule Transaction_passes [OF g t])
    fix d row d' assume d: "J d" "settle_frame (db w) d" "?body d = Inr (row, d')"
    let ?d1 = "delete_attempts (\<lambda>x. AttemptID x = AttemptID y) d"
    have s: "settled y d" "gone (EthTxID n) d" using y n d(2) by (simp_all add: settle_frame_def)
    have b: "tables_ok ?d1" "insert_attempt n ?d1 = Inr (row, d')" using d(3) by (auto simp: try_bind_Inr checked_Inr)
    have k: "keeps_broadcasting env cfg a c d ?d1" by (rule delete_attempt_keeps [OF _ b(1) s(1)]) (use J_inv d in blast)
    then have "J ?d1" "gone (EthTxID n) ?d1" using J_keeps [OF d(1)] s(2) by (auto simp: keeps_broadcasting_def settle_frame_def)
    then have "keeps_broadcasting env cfg a c ?d1 d' \<and> settled row d'" using inserted_settled b(2) by blast
    then show "keeps_broadcasting env cfg a c d d' \<and> settled row d'" using k keeps_trans by blast
  qed
  then show ?thesis using r t False by (auto simp: saveReplacementInProgressAttempt_def split: sum.splits)
qed

lemma attempt_state_passes:
  assumes "guarded w" "settled y (db w)"
  shows "Exec (attempt_new_state st at y) w = (e, w1) \<Longrightarrow> passes w w1"
    and "Exec (missing_receipt_state at y) w = (e, w1) \<Longrightarrow> passes w w1"
    and "Exec (delete_attempts (\<lambda>x. AttemptID x = AttemptID y)) w = (e, w1) \<Longrightarrow> passes w w1"
proof -
  have y: "settled y d" if "settle_frame (db w) d" for d using assms(2) that by (simp add: settle_frame_def)
  show "Exec (attempt_new_state st at y) w = (e, w1) \<Longrightarrow> passes w w1"
    by (rule Exec_passes [OF assms(1)], assumption, rule attempt_new_state_keeps) (use J_inv y in auto)
  show "Exec (missing_receipt_state at y) w = (e, w1) \<Longrightarrow> passes w w1"
    by (rule Exec_passes [OF assms(1)], assumption, rule missing_receipt_state_keeps) (use J_inv y in auto)
  show "Exec (delete_attempts (\<lambda>x. AttemptID x = AttemptID y)) w = (e, w1) \<Longrightarrow> passes w w1"
    by (rule Exec_passes [OF assms(1)], assumption, rule delete_attempt_keeps) (use J_inv y in auto)
qed

lemma attempt_answered_passes:
  assumes g: "guarded w" and y: "settled y (db w)" and r: "attempt_answered env now y se w = (e :: 'e tx_error option, w1)"
  shows "passes w w1"
  using r attempt_state_passes [OF g y] passes_refl [OF g]
  by (auto simp: attempt_answered_def Let_def deleteInProgressAttempt_def saveConfirmedMissingReceiptAttempt_def
      saveInsufficientEthAttempt_def saveSentAttempt_def split: if_splits option.splits)

text \<open>A transaction with its attempts, all of which have left the queue.\<close>

definition entry_settled :: "EthTx \<times> EthTxAttempt list \<Rightarrow> txworld \<Rightarrow> bool" where
  "entry_settled x w \<longleftrightarrow> gone (TxID (fst x)) (db w) \<and> (\<forall>y\<in>set (snd x). settled y (db w))"

lemma passes_entry: "passes w w1 \<Longrightarrow> entry_settled x w \<Longrightarrow> entry_settled x w1"
  by (simp add: entry_settled_def passes_gone passes_settled)

lemma loaded_settled:
  assumes "J d" "gone i d" "x \<in> set (loadEthTxAttempts i d)"
  shows "settled x d"
  using settled_loaded [of env cfg a c d x] J_inv [OF assms(1)] assms(2,3) by (simp add: loadEthTxAttempts_mem gone_def)

lemma replace_underpriced_passes:
  assumes g: "guarded w" and y: "settled y (db w)"
    and r: "replace_underpriced env cfg cid rd etx y w = (p, w1)"
  shows "passes w w1 \<and> (\<forall>etx1 y1. p = Again etx1 y1 \<longrightarrow> settled y1 (db w1))"
proof -
  obtain sel w0 where s: "Select (loadEthTxAttempts (TxID etx)) w = (sel, w0)" by (metis prod.collapse)
  note s' = Select_passes [OF g s]
  have p0: "passes w w0" using s' by blast
  show ?thesis
  proof (cases "\<exists>as n. sel = Inr as \<and> as \<noteq> [] \<and> AttemptID y = AttemptID (hd as) \<and> bumpGas env cfg cid rd etx as = Ret (Inr n)")
    case False
    have "w1 = w0 \<and> (\<forall>etx1 y1. p \<noteq> Again etx1 y1)"
    proof (cases sel)
      case (Inr as)
      obtain res where "bumpGas env cfg cid rd etx as = Ret res \<or> (\<exists>m. bumpGas env cfg cid rd etx as = Panic m)"
        by (cases "bumpGas env cfg cid rd etx as") auto
      then show ?thesis
        using False r s Inr by (cases res) (auto simp: replace_underpriced_def split: if_splits)
    qed (use r s in \<open>auto simp: replace_underpriced_def\<close>)
    then show ?thesis using p0 by simp
  next
    case True
    then obtain as n where n: "sel = Inr as" "as \<noteq> []" "AttemptID y = AttemptID (hd as)"
      "bumpGas env cfg cid rd etx as = Ret (Inr n)" by blast
    have "hd as \<in> set (loadEthTxAttempts (TxID etx) (db w0))" using s' n(1,2) by simp
    then have h: "hd as \<in> set (eth_tx_attempts (db w0))" "EthTxID (hd as) = TxID etx" by (simp_all add: loadEthTxAttempts_mem)
    have y0: "settled y (db w0)" by (rule passes_settled [OF p0 y])
    then have "gone (TxID etx) (db w0)" using h n(3) by (auto simp: settled_def)
    then have n0: "gone (EthTxID n) (db w0)" using bumpGas_tx [OF n(4)] by simp
    obtain rep :: "'e tx_error + EthTxAttempt" and w2 where rep: "saveReplacementInProgressAttempt y n w0 = (rep, w2)"
      by (metis prod.collapse)
    have "passes w0 w2 \<and> (\<forall>row. rep = Inr row \<longrightarrow> settled row (db w2))"
      by (rule saveReplacement_passes [OF _ y0 n0 rep]) (use p0 passesD in blast)
    moreover have "w1 = w2 \<and> (case rep of Inl e \<Rightarrow> p = Finish (Some e) True | Inr row \<Rightarrow> p = Again etx row)"
      using r s n rep by (auto simp: replace_underpriced_def split: sum.splits)
    ultimately show ?thesis using p0 passes_trans by (auto split: sum.splits)
  qed
qed

lemma attempt_pass_passes:
  assumes g: "guarded w" and y: "settled y (db w)" and r: "attempt_pass env cfg cid nr etx y w = (p, w1)"
  shows "passes w w1 \<and> (\<forall>etx1 y1. p = Again etx1 y1 \<longrightarrow> settled y1 (db w1))"
proof (cases "AttemptState y \<noteq> EthTxAttemptInProgress")
  case True
  then show ?thesis using r passes_refl [OF g] by (auto simp: attempt_pass_def)
next
  case False
  obtain se w0 where s: "sendTransaction env (snd nr) y w = (se, w0)" by (metis prod.collapse)
  have p0: "passes w w0" by (rule sendTransaction_passes [OF g s])
  have g0: "guarded w0" "settled y (db w0)" using passesD [OF p0] passes_settled [OF p0 y] by simp_all
  show ?thesis
  proof (cases "IsTerminallyUnderpriced (Cause env) se")
    case True
    then have "replace_underpriced env cfg cid (snd nr) etx y w0 = (p, w1)" using r s False by (simp add: attempt_pass_def)
    then show ?thesis using replace_underpriced_passes [OF g0] p0 passes_trans by blast
  next
    case nt: False
    obtain e :: "'e tx_error option" and w2 where an: "attempt_answered env (fst nr) y se w0 = (e, w2)" by (metis prod.collapse)
    then have "p = Finish e True \<and> w1 = w2" using r s False nt by (simp add: attempt_pass_def finish_with_def)
    then show ?thesis using attempt_answered_passes [OF g0 an] p0 passes_trans by auto
  qed
qed

lemma handleInProgressAttempt_passes:
  "guarded w \<Longrightarrow> settled y (db w) \<Longrightarrow> handleInProgressAttempt env cfg cid rs etx y w = (out, w1) \<Longrightarrow> passes w w1"
proof (induction rs arbitrary: etx y w)
  case Nil
  then show ?case by (simp add: passes_refl)
next
  case (Cons nr rs)
  obtain p w0 where p: "attempt_pass env cfg cid nr etx y w = (p, w0)" by (metis prod.collapse)
  note p' = attempt_pass_passes [OF Cons.prems(1,2) p]
  show ?case
  proof (cases p)
    case (Again etx1 y1)
    then have "passes w0 w1" using Cons.IH [of w0 y1 etx1] Cons.prems(3) p p' passesD by auto
    then show ?thesis using p' passes_trans by blast
  qed (use Cons.prems(3) p p' in auto)
qed

lemma handle_attempts_passes:
  "guarded w \<Longrightarrow> \<forall>x\<in>set xs. settled (fst x) (db w) \<Longrightarrow> handle_attempts env cfg cid rounds xs w = (out, w1) \<Longrightarrow> passes w w1"
proof (induction xs arbitrary: w)
  case Nil
  then show ?case by (simp add: passes_refl)
next
  case (Cons x xs)
  obtain y etx where x: "x = (y, etx)" by (cases x)
  obtain o1 w0 where h: "handleInProgressAttempt env cfg cid (rounds (AttemptID y)) etx y w = (o1, w0)" by (metis prod.collapse)
  have p: "passes w w0" using handleInProgressAttempt_passes [OF Cons.prems(1) _ h] Cons.prems(2) x by simp
  show ?case
  proof (cases "(\<exists>b. o1 = Returned None b) \<and> \<not> context_done env w0")
    case True
    then have "passes w0 w1"
      using Cons.IH [of w0] Cons.prems x h p passesD passes_settled [OF p] by auto
    then show ?thesis using p passes_trans by blast
  next
    case False
    then have "w1 = w0" using Cons.prems(3) x h by (auto split: outcome.splits option.splits if_splits)
    then show ?thesis using p by simp
  qed
qed

lemma handleAnyInProgressAttempts_passes:
  assumes g: "guarded w" and r: "handleAnyInProgressAttempts env cfg cid rounds address w = (out, w1)"
  shows "passes w w1"
proof -
  obtain res :: "'e tx_error + (EthTxAttempt \<times> EthTx) list" and w2 where
    f: "Select2 (in_progress_attempts address cid) loadEthTxes w = (res, w2)" by (metis prod.collapse)
  note s2 = Select2_passes [OF g f]
  show ?thesis
  proof (cases "context_done env w2 \<or> (\<exists>e. res = Inl e)")
    case True
    then show ?thesis using r f s2 by (auto simp: handleAnyInProgressAttempts_def split: if_splits)
  next
    case False
    then obtain as where Inr: "res = Inr as" by (cases res) auto
    obtain w0 where w0: "passes w w0" "passes w0 w2" "as = loadEthTxes (in_progress_attempts address cid (db w0)) (db w2)"
      using s2 Inr by blast
    have "settled (fst x) (db w2)" if "x \<in> set as" for x
    proof -
      have "fst x \<in> set (in_progress_attempts address cid (db w0))" using that w0(3) by (auto simp: loadEthTxes_def)
      then have "settled (fst x) (db w0)" using in_progress_attempts_settled J_inv passesD [OF w0(1)] by blast
      then show ?thesis using passes_settled [OF w0(2)] by blast
    qed
    moreover have "handle_attempts env cfg cid rounds as w2 = (out, w1)"
      using r f Inr False by (simp add: handleAnyInProgressAttempts_def)
    ultimately show ?thesis using handle_attempts_passes s2 passesD passes_trans by blast
  qed
qed

lemma loaded_entries:
  assumes g: "guarded w" and r: "Select2 q loadEthTxesAttempts w = (res :: 'e tx_error + (EthTx \<times> EthTxAttempt list) list, w2)"
    and q: "\<And>d t. J d \<Longrightarrow> t \<in> set (q d) \<Longrightarrow> t \<in> set (eth_txes d) \<and> \<not> queued_or_sending t"
  shows "passes w w2 \<and> (\<forall>xs. res = Inr xs \<longrightarrow> (\<forall>x\<in>set xs. entry_settled x w2))"
proof -
  note s2 = Select2_passes [OF g r]
  have "entry_settled x w2" if res: "res = Inr xs" and x: "x \<in> set xs" for x xs
  proof -
    obtain w0 where w0: "passes w w0" "passes w0 w2" "xs = loadEthTxesAttempts (q (db w0)) (db w2)" using s2 res by blast
    obtain t where t: "t \<in> set (q (db w0))" "x = (t, loadEthTxAttempts (TxID t) (db w2))"
      using w0(3) x by (auto simp: loadEthTxesAttempts_def)
    have "gone (TxID t) (db w0)"
      using q [OF _ t(1)] tx_gone J_inv passesD [OF w0(1)] by blast
    then have "gone (TxID t) (db w2)" by (rule passes_gone [OF w0(2)])
    then show ?thesis using loaded_settled passesD [OF w0(2)] t(2) by (auto simp: entry_settled_def)
  qed
  then show ?thesis using s2 by blast
qed

lemma FindEthTxsRequiringRebroadcast_passes:
  assumes g: "guarded w"
    and r: "FindEthTxsRequiringRebroadcast env' cfg' address cid n w = (res :: 'e tx_error + (EthTx \<times> EthTxAttempt list) list, w2)"
  shows "passes w w2 \<and> (\<forall>xs. res = Inr xs \<longrightarrow> (\<forall>x\<in>set xs. entry_settled x w2))"
proof -
  obtain r1 :: "'e tx_error + (EthTx \<times> EthTxAttempt list) list" and w1 where
    1: "FindEthTxsRequiringResubmissionDueToInsufficientEth address cid w = (r1, w1)" by (metis prod.collapse)
  have p1: "passes w w1 \<and> (\<forall>xs. r1 = Inr xs \<longrightarrow> (\<forall>x\<in>set xs. entry_settled x w1))"
    by (rule loaded_entries [OF g 1 [unfolded FindEthTxsRequiringResubmissionDueToInsufficientEth_def]])
      (auto simp: insufficient_eth_txes_def queued_or_sending_def)
  show ?thesis
  proof (cases r1)
    case (Inl e)
    then show ?thesis using r 1 p1 by (auto simp: FindEthTxsRequiringRebroadcast_def)
  next
    case (Inr xs)
    obtain r2 :: "'e tx_error + (EthTx \<times> EthTxAttempt list) list" and w' where
      2: "FindEthTxsRequiringGasBump address cid n (int (EvmGasBumpThreshold cfg')) (EvmGasBumpTxDepth cfg') w1 = (r2, w')"
      by (metis prod.collapse)
    have g1: "guarded w1" using p1 passesD by blast
    have p2: "passes w1 w' \<and> (\<forall>xs. r2 = Inr xs \<longrightarrow> (\<forall>x\<in>set xs. entry_settled x w'))"
    proof (cases "int (EvmGasBumpThreshold cfg') = 0")
      case True
      then show ?thesis using 2 passes_refl [OF g1] by (auto simp: FindEthTxsRequiringGasBump_def)
    next
      case False
      then have "Select2 (gas_bump_txes address cid (wrap64 (n - int (EvmGasBumpThreshold cfg'))) (EvmGasBumpTxDepth cfg'))
          loadEthTxesAttempts w1 = (r2, w')" using 2 by (simp add: FindEthTxsRequiringGasBump_def)
      then show ?thesis by (rule loaded_entries [OF g1]) (auto simp: gas_bump_txes_def queued_or_sending_def)
    qed
    have w': "w' = w2" using r 1 2 Inr by (auto simp: FindEthTxsRequiringRebroadcast_def split: sum.splits if_splits)
    have "entry_settled x w2" if zs: "res = Inr zs" "x \<in> set zs" for x zs
    proof -
      have "zs \<noteq> []" using zs(2) by auto
      then obtain ys where ys: "r2 = Inr ys" "zs = rebroadcast_list (EvmMaxInFlightTransactions cfg') xs ys"
        using r 1 2 Inr zs(1) by (auto simp: FindEthTxsRequiringRebroadcast_def split: sum.splits if_splits)
      then have "x \<in> set xs \<or> x \<in> set ys"
        using zs(2) by (auto simp: rebroadcast_list_def Let_def split: if_splits dest!: in_set_takeD)
      then show ?thesis using p1 p2 Inr ys(1) w' passes_entry by blast
    qed
    then show ?thesis using p1 p2 w' passes_trans by blast
  qed
qed

lemma rebroadcast_each_passes:
  "guarded w \<Longrightarrow> \<forall>x\<in>set xs. entry_settled x w \<Longrightarrow> rebroadcast_each env cfg cid rounds xs w = (out, w1) \<Longrightarrow> passes w w1"
proof (induction xs arbitrary: w)
  case Nil
  then show ?case by (simp add: passes_refl)
next
  case (Cons x xs)
  obtain etx as where x: "x = (etx, as)" by (cases x)
  have s: "gone (TxID etx) (db w)" "\<forall>y\<in>set as. settled y (db w)"
    using Cons.prems(2) x by (simp_all add: entry_settled_def)
  let ?att = "attemptForRebroadcast env cfg cid (fst (rounds (TxID etx))) etx as"
  show ?case
  proof (cases "\<exists>y. ?att = Ret (Inr y)")
    case False
    then have "w1 = w" using Cons.prems(3) x by (auto split: run.splits sum.splits)
    then show ?thesis using passes_refl [OF Cons.prems(1)] by simp
  next
    case True
    then obtain y where y: "?att = Ret (Inr y)" by blast
    have h: "settled (hd as) (db w)" using attemptForRebroadcast_tx [OF y] s(2) by simp
    have y': "gone (EthTxID y) (db w)" "AttemptID y \<noteq> 0 \<Longrightarrow> settled y (db w)"
      using attemptForRebroadcast_tx [OF y] s(1) h by (auto simp: settled_def)
    obtain row :: "'e tx_error + EthTxAttempt" and w2 where sv: "saveInProgressAttempt y w = (row, w2)" by (metis prod.collapse)
    note sv' = saveInProgressAttempt_passes [OF Cons.prems(1) y' sv]
    show ?thesis
    proof (cases row)
      case (Inl e)
      then show ?thesis using Cons.prems(3) x y sv sv' by simp
    next
      case (Inr z)
      obtain o1 w3 where hd: "handleInProgressAttempt env cfg cid (snd (rounds (TxID etx))) etx z w2 = (o1, w3)"
        by (metis prod.collapse)
      have p3: "passes w w3"
        using handleInProgressAttempt_passes [OF _ _ hd] sv' Inr passesD passes_trans by blast
      show ?thesis
      proof (cases "\<exists>b. o1 = Returned None b")
        case True
        then have "passes w3 w1"
          using Cons.IH [of w3] Cons.prems(2,3) x y sv Inr hd p3 passesD passes_entry [OF p3] by auto
        then show ?thesis using p3 passes_trans by blast
      next
        case False
        then have "w1 = w3" using Cons.prems(3) x y sv Inr hd by (auto split: outcome.splits option.splits)
        then show ?thesis using p3 by simp
      qed
    qed
  qed
qed

lemma rebroadcastWhereNecessary_passes:
  assumes g: "guarded w" and r: "rebroadcastWhereNecessary env cfg cid leftovers rounds n address w = (out, w1)"
  shows "passes w w1"
proof -
  obtain o1 w2 where h: "handleAnyInProgressAttempts env cfg cid leftovers address w = (o1, w2)" by (metis prod.collapse)
  have p: "passes w w2" by (rule handleAnyInProgressAttempts_passes [OF g h])
  show ?thesis
  proof (cases "\<exists>b. o1 = Returned None b")
    case False
    then have "w1 = w2" using r h by (auto simp: rebroadcastWhereNecessary_def split: outcome.splits option.splits)
    then show ?thesis using p by simp
  next
    case True
    obtain res :: "'e tx_error + (EthTx \<times> EthTxAttempt list) list" and w3 where
      f: "FindEthTxsRequiringRebroadcast env cfg address cid n w2 = (res, w3)" by (metis prod.collapse)
    note f' = FindEthTxsRequiringRebroadcast_passes [OF conjunct1 [OF passesD [OF p]] f]
    show ?thesis
    proof (cases res)
      case (Inl e)
      then have "w1 = w3" using r h True f by (auto simp: rebroadcastWhereNecessary_def)
      then show ?thesis using f' p passes_trans by blast
    next
      case (Inr xs)
      then have "rebroadcast_each env cfg cid rounds xs w3 = (out, w1)"
        using r h True f by (auto simp: rebroadcastWhereNecessary_def)
      moreover have p3: "passes w2 w3" and "\<forall>x\<in>set xs. entry_settled x w3" using f' Inr by simp_all
      ultimately have "passes w3 w1" using rebroadcast_each_passes [of w3 xs] passesD [OF p3] by simp
      then show ?thesis using passes_trans [OF p passes_trans [OF p3]] by simp
    qed
  qed
qed

lemma for_keys_passes:
  assumes f: "\<And>w addr out w1. guarded w \<Longrightarrow> f addr w = (out, w1) \<Longrightarrow> passes w w1"
  shows "guarded w \<Longrightarrow> for_keys f addrs w = (es, stop, w1) \<Longrightarrow> passes w w1"
proof (induction addrs arbitrary: w es)
  case Nil
  then show ?case by (simp add: passes_refl)
next
  case (Cons addr addrs)
  obtain o1 w2 where h: "f addr w = (o1, w2)" by (metis prod.collapse)
  have p: "passes w w2" by (rule f [OF Cons.prems(1) h])
  obtain es2 stop2 w3 where k: "for_keys f addrs w2 = (es2, stop2, w3)" by (metis prod.collapse)
  show ?case
  proof (cases o1)
    case (Returned e b)
    then have "passes w2 w1" using Cons.IH [of w2] Cons.prems(2) h k p passesD by simp
    then show ?thesis using p passes_trans by blast
  qed (use Cons.prems(2) h p in simp_all)
qed

lemma findTransactionsConfirmedInBlockRange_passes:
  assumes g: "guarded w"
    and r: "findTransactionsConfirmedInBlockRange hi lo cid w = (res :: 'e tx_error + tx_receipts list, w2)"
  shows "passes w w2 \<and> (\<forall>xs. res = Inr xs \<longrightarrow> (\<forall>x\<in>set xs. \<forall>y\<in>set (map fst (snd x)). settled y (db w2)))"
proof -
  obtain r1 :: "'e tx_error + (EthTx \<times> EthTxAttempt list) list" and w1 where
    1: "Select2 (confirmed_in_range hi lo cid) loadEthTxesAttempts w = (r1, w1)" by (metis prod.collapse)
  have p1: "passes w w1 \<and> (\<forall>xs. r1 = Inr xs \<longrightarrow> (\<forall>x\<in>set xs. entry_settled x w1))"
    by (rule loaded_entries [OF g 1]) (auto simp: confirmed_in_range_def queued_or_sending_def)
  show ?thesis
  proof (cases "\<exists>xs. r1 = Inr xs \<and> xs \<noteq> []")
    case False
    then have "w2 = w1 \<and> (\<forall>xs. res = Inr xs \<longrightarrow> xs = [])"
      using r 1 by (auto simp: findTransactionsConfirmedInBlockRange_def split: sum.splits)
    then show ?thesis using p1 by auto
  next
    case True
    then obtain xs where xs: "r1 = Inr xs" "xs \<noteq> []" by blast
    obtain r2 w' where 2: "Select (loadEthTxesAttemptsReceipts xs) w1 = (r2, w')" by (metis prod.collapse)
    have g1: "guarded w1" using p1 passesD by blast
    note s2 = Select_passes [OF g1 2]
    have w': "w' = w2" using r 1 2 xs by (auto simp: findTransactionsConfirmedInBlockRange_def split: sum.splits)
    have "settled y (db w2)" if zs: "res = Inr zs" "x \<in> set zs" "y \<in> set (map fst (snd x))" for zs x y
    proof -
      have "zs = loadEthTxesAttemptsReceipts xs (db w2)"
        using r 1 2 xs zs(1) s2 w' by (auto simp: findTransactionsConfirmedInBlockRange_def split: sum.splits)
      then obtain z where "z \<in> set xs" "y \<in> set (snd z)"
        using zs(2,3) by (auto simp: loadEthTxesAttemptsReceipts_def)
      then have "settled y (db w1)" using p1 xs(1) by (auto simp: entry_settled_def)
      then show ?thesis using passes_settled s2 w' by blast
    qed
    then show ?thesis using p1 s2 w' passes_trans by blast
  qed
qed

lemma markForRebroadcast_passes:
  assumes g: "guarded w" and y: "\<forall>y\<in>set (map fst (snd x)). settled y (db w)"
    and r: "markForRebroadcast x w = (e :: 'e tx_error option, w1)"
  shows "passes w w1"
proof (cases "snd x")
  case Nil
  then show ?thesis using r passes_refl [OF g] by (simp add: markForRebroadcast_def)
next
  case (Cons z zs)
  obtain z1 rs where z: "z = (z1, rs)" by (cases z)
  obtain t w' where t: "Transaction (rebroadcast_body (fst x) z1) w = (t, w')" by (metis prod.collapse)
  have "passes w w' \<and> (\<forall>u. t = Inr u \<longrightarrow> True)"
  proof (rule Transaction_passes [OF g t, where Q = "\<lambda>u d. True"])
    fix d u d' assume d: "J d" "settle_frame (db w) d" "rebroadcast_body (fst x) z1 d = Inr (u, d')"
    have "settled z1 d" using y Cons z d(2) by (simp add: settle_frame_def)
    then show "keeps_broadcasting env cfg a c d d' \<and> True"
      using rebroadcast_body_keeps [OF _ _ d(3)] J_inv [OF d(1)] by blast
  qed
  moreover have "w' = w1" using r t Cons z by (auto simp: markForRebroadcast_def split: sum.splits)
  ultimately show ?thesis by simp
qed

lemma mark_reorged_passes:
  "guarded w \<Longrightarrow> \<forall>x\<in>set xs. \<forall>y\<in>set (map fst (snd x)). settled y (db w)
    \<Longrightarrow> mark_reorged head xs w = Some (e :: 'e tx_error option, w1) \<Longrightarrow> passes w w1"
proof (induction xs arbitrary: w)
  case Nil
  then show ?case by (simp add: passes_refl)
next
  case (Cons x xs)
  show ?case
  proof (cases "hasReceiptInLongestChain x head")
    case None
    then show ?thesis using Cons.prems(3) by simp
  next
    case (Some b)
    show ?thesis
    proof (cases b)
      case True
      then show ?thesis using Cons Some by simp
    next
      case False
      obtain e2 :: "'e tx_error option" and w2 where m: "markForRebroadcast x w = (e2, w2)" by (metis prod.collapse)
      have p: "passes w w2" using markForRebroadcast_passes [OF Cons.prems(1) _ m] Cons.prems(2) by simp
      show ?thesis
      proof (cases e2)
        case None
        have "\<forall>x\<in>set xs. \<forall>y\<in>set (map fst (snd x)). settled y (db w2)"
          using Cons.prems(2) passes_settled [OF p] by simp
        moreover have "mark_reorged head xs w2 = Some (e, w1)" using Cons.prems(3) Some False m None by simp
        ultimately have "passes w2 w1" using Cons.IH [of w2] passesD [OF p] by simp
        then show ?thesis using p passes_trans by blast
      qed (use Cons.prems(3) Some False m p in simp)
    qed
  qed
qed

lemma EnsureConfirmedTransactionsInLongestChain_passes:
  assumes g: "guarded w"
    and r: "EnsureConfirmedTransactionsInLongestChain env cfg cid rounds keys head w = Some (es, stop, w1)"
  shows "passes w w1"
proof -
  obtain low where low: "EarliestInChain (Parent (gen head)) (ref head) = Some low"
    using r by (auto simp: EnsureConfirmedTransactionsInLongestChain_def split: option.splits)
  obtain res :: "'e tx_error + tx_receipts list" and w2 where
    f: "findTransactionsConfirmedInBlockRange (block_number head (ref head)) (block_number head low) cid w = (res, w2)"
    by (metis prod.collapse)
  note f' = findTransactionsConfirmedInBlockRange_passes [OF g f]
  have p2: "passes w w2" using f' by blast
  show ?thesis
  proof (cases res)
    case (Inl e)
    then show ?thesis using r low f p2 by (simp add: EnsureConfirmedTransactionsInLongestChain_def)
  next
    case (Inr xs)
    obtain e3 :: "'e tx_error option" and w3 where m: "mark_reorged head xs w2 = Some (e3, w3)"
      using r low f Inr by (auto simp: EnsureConfirmedTransactionsInLongestChain_def split: option.splits)
    have p3: "passes w w3"
      using passes_trans [OF p2 mark_reorged_passes [OF _ _ m]] passesD [OF p2] f' Inr by simp
    show ?thesis
    proof (cases e3)
      case (Some e)
      then show ?thesis using r low f Inr m p3 by (simp add: EnsureConfirmedTransactionsInLongestChain_def)
    next
      case None
      then have k: "for_keys (handleAnyInProgressAttempts env cfg cid rounds) keys w3 = (es, stop, w1)"
        using r low f Inr m by (simp add: EnsureConfirmedTransactionsInLongestChain_def)
      have "passes w3 w1"
        by (rule for_keys_passes [OF _ _ k], erule (1) handleAnyInProgressAttempts_passes) (use passesD [OF p3] in simp)
      then show ?thesis using p3 passes_trans by blast
    qed
  qed
qed

lemma ResumePendingTaskRuns_passes:
  assumes g: "guarded w" and r: "ResumePendingTaskRuns env suspended callback n cid w = (x, w1)"
  shows "passes w w1"
proof -
  obtain res w2 where s: "Select (resumable env suspended n cid) w = (res, w2)" by (metis prod.collapse)
  then have "w1 = w2" using r by (auto simp: ResumePendingTaskRuns_def split: sum.splits)
  then show ?thesis using Select_passes [OF g s] by simp
qed

lemma processHead_passes:
  assumes g: "guarded w" and r: "processHead env cfg cid keys q head w = Some (es, stop, calls, w')"
  shows "passes w w'"
proof -
  let ?n = "block_number head (ref head)"
  obtain e1 :: "'e tx_error option" and w1 where 1: "SetBroadcastBeforeBlockNum cid ?n w = (e1, w1)" by (metis prod.collapse)
  have p1: "passes w w1" by (rule SetBroadcastBeforeBlockNum_passes [OF g 1])
  obtain e2 w2 where 2: "CheckConfirmedMissingReceipt env cfg cid (MissingReceiptSender q) (HeadClock q) w1 = (e2, w2)"
    by (metis prod.collapse)
  have p2: "passes w w2"
    using passes_trans [OF p1 CheckConfirmedMissingReceipt_passes [OF _ 2]] passesD [OF p1] by blast
  obtain r3 :: "'e tx_error option run" and w3 where
    3: "CheckForReceipts (AddressOrder q) cfg cid (ReceiptSource q) ?n w2 = (r3, w3)" by (metis prod.collapse)
  have p3: "passes w w3" using passes_trans [OF p2 CheckForReceipts_passes [OF _ 3]] passesD [OF p2] by blast
  obtain es4 stop4 w4 where
    4: "for_keys (rebroadcastWhereNecessary env cfg cid (Leftovers q) (Bumps q) ?n) keys w3 = (es4, stop4, w4)"
    by (metis prod.collapse)
  have "passes w3 w4"
    by (rule for_keys_passes [OF _ _ 4], erule (1) rebroadcastWhereNecessary_passes) (use passesD [OF p3] in simp)
  then have p4: "passes w w4" using p3 passes_trans by blast
  show ?thesis
  proof (cases "e1 = None \<and> e2 = None \<and> r3 = Ret None \<and> es4 = [] \<and> stop4 = None")
    case False
    then have "w' \<in> {w1, w2, w3, w4}"
      using r 1 2 3 4
      by (cases e1; cases e2; cases r3) (auto simp: processHead_def Let_def split: option.splits)
    then show ?thesis using p1 p2 p3 p4 by blast
  next
    case True
    obtain es5 stop5 w5 where
      5: "EnsureConfirmedTransactionsInLongestChain env cfg cid (Reorged q) keys head w4 = Some (es5, stop5, w5)"
      using r 1 2 3 4 True by (auto simp: processHead_def Let_def split: option.splits)
    have p5: "passes w w5"
      using passes_trans [OF p4 EnsureConfirmedTransactionsInLongestChain_passes [OF _ 5]] passesD [OF p4] by blast
    obtain calls6 and e6 :: "'e tx_error option" and w6 where
      6: "ResumePendingTaskRuns env (Suspended q) (Callback q) ?n cid w5 = ((calls6, e6), w6)" by (metis prod.collapse)
    have p6: "passes w w6"
      using passes_trans [OF p5 ResumePendingTaskRuns_passes [OF _ 6]] passesD [OF p5] by blast
    have "w' \<in> {w5, w6}"
      using r 1 2 3 4 5 6 True by (auto simp: processHead_def Let_def split: if_splits)
    then show ?thesis using p5 p6 by blast
  qed
qed

end

end
