(* ===== verification/TxTheorems.thy ===== *)
theory TxTheorems
  imports TxManager
begin

text \<open>
  What the transaction manager promises, on the broadcaster with everything else that writes to its
  tables: nonces are given out in order and used once, prices stay within bounds, the loop of bumps
  ends, creation is idempotent for a task run, the reaper removes only old rows; and two ways in which
  it gets stuck.
\<close>

section \<open>An example\<close>

definition ex_tx :: EthTransaction where
  "ex_tx = LegacyTx 7 6 0 21000 50 []"

definition ex_env :: "string env" where
  "ex_env =
     \<lparr>SignTx = (\<lambda>addr tx cid. if tx = ex_tx then Some (77, [1]) else None),
      DecodeRLP = (\<lambda>raw. if raw = [1] then Inr ex_tx else Inl ''bad''),
      Cause = (\<lambda>e. e), WithStack = (\<lambda>e. e), IsDeadlineExceeded = (\<lambda>e. False),
      ParseChecker = (\<lambda>j. None), ParseMeta = (\<lambda>j. None), NewVRFCoordinator = (\<lambda>a. True), HasResumeCallback = False,
      ContextDone = (\<lambda>n. False)\<rparr>"

definition ex_cfg :: TxmConfig where
  "ex_cfg =
     Config.extend (cfg0\<lparr>EvmEIP1559DynamicFees := False\<rparr>)
       \<lparr>KeySpecific = (\<lambda>a. Some 900), EvmMaxInFlightTransactions = 16, EvmMaxQueuedTransactions = 250,
        EvmUseForwarders = False, ChainTypeIsL2 = False, EvmFinalityDepth = 50, EvmGasBumpTxDepth = 10,
        EvmRPCDefaultBatchSize = 100, EvmGasLimitDefault = 500000\<rparr>"

definition ex_db :: txdb where
  "ex_db =
     \<lparr>eth_txes = [(unstarted_tx 5 6 [] 0 21000 1600000000 1)\<lparr>TxID := 1\<rparr>],
      eth_tx_attempts = [], eth_receipts = [],
      evm_key_states = [\<lparr>KeyAddress = 5, KeyChainID = 1, NextNonce = 7, Disabled = False\<rparr>],
      eth_txes_id_seq = 2, eth_tx_attempts_id_seq = 1, eth_receipts_id_seq = 1\<rparr>"

text \<open>The transaction in progress, with its attempt.\<close>

definition ex_row :: EthTx where
  "ex_row = (unstarted_tx 5 6 [] 0 21000 1600000000 1)\<lparr>TxID := 1, Nonce := Some 7, TxState := EthTxInProgress\<rparr>"

definition ex_attempt :: EthTxAttempt where
  "ex_attempt =
     \<lparr>AttemptID = 1, EthTxID = 1, GasPrice = Some 50, GasTipCap = None, GasFeeCap = None,
      ChainSpecificGasLimit = 21000, SignedRawTx = [1], AttemptHash = 77, BroadcastBeforeBlockNum = None,
      AttemptState = EthTxAttemptInProgress, TxType = 0\<rparr>"

definition ex_busy_db :: txdb where
  "ex_busy_db = ex_db\<lparr>eth_txes := [ex_row], eth_tx_attempts := [ex_attempt], eth_tx_attempts_id_seq := 2\<rparr>"

text \<open>Three queued transactions of one subject, and one of another.\<close>

definition queue_db :: txdb where
  "queue_db =
     \<lparr>eth_txes =
        [(unstarted_tx 5 6 [] 0 21000 100 1)\<lparr>TxID := 1, Subject := Some 9\<rparr>,
         (unstarted_tx 5 6 [] 0 21000 100 1)\<lparr>TxID := 2\<rparr>,
         (unstarted_tx 5 6 [] 0 21000 101 1)\<lparr>TxID := 3, Subject := Some 9\<rparr>,
         (unstarted_tx 5 6 [] 0 21000 102 1)\<lparr>TxID := 4, Subject := Some 9\<rparr>],
      eth_tx_attempts = [], eth_receipts = [],
      evm_key_states = [\<lparr>KeyAddress = 5, KeyChainID = 1, NextNonce = 7, Disabled = False\<rparr>],
      eth_txes_id_seq = 5, eth_tx_attempts_id_seq = 1, eth_receipts_id_seq = 1\<rparr>"

definition ex_world :: "txdb \<Rightarrow> nat \<Rightarrow> txworld" where
  "ex_world d n = \<lparr>db = d, script = replicate n \<lparr>others = id, answer = Commit\<rparr>, sent = []\<rparr>"

definition ex_round :: "string round" where
  "ex_round =
     \<lparr>CallContext = CallOk, Callbacks = (\<lambda>a i. None), HeaderByNumber = None, GetCommitment = (\<lambda>a i h. None),
      SendTransaction = (\<lambda>tx. None), PendingNonceAt = None, ResumeCallback = ResumeOk,
      BumpLegacyGas = fixed_BumpLegacyGas cfg0, BumpDynamicFee = (\<lambda>f g m. Inl ErrEIP1559Disabled),
      GetLegacyGas = (\<lambda>p g m. Inr (fixed_GetLegacyGas cfg0 g m))\<rparr>"

definition ex_turn :: "string queue_turn" where
  "ex_turn =
     \<lparr>GetDynamicFee = (\<lambda>g m. Inl ErrEIP1559Disabled), EstimateLegacyGas = (\<lambda>p g m. Inr (fixed_GetLegacyGas cfg0 g m)),
      Clock = 1600000100, Rounds = [ex_round]\<rparr>"

definition ex_ks :: keystore where
  "ex_ks = \<lparr>KeyExists = (\<lambda>a. a = 5), MemState = (\<lambda>a c. if a = 5 \<and> c = 1 then Some False else None)\<rparr>"

definition ex_call :: "txworld \<Rightarrow> string outcome \<times> txworld" where
  "ex_call = processUnstartedEthTxs ex_env ex_cfg ex_ks 1 (\<lambda>e. ''failed'') 5 [] [ex_turn, ex_turn]"


lemma ex_codec: "codec_ok ex_env"
  by (simp add: codec_ok_def ex_env_def)

lemma ex_key: "key_nonce 5 1 ex_db = 7" "key_nonce 5 1 (db (ex_world ex_db n)) = 7"
  by (simp_all add: key_nonce_def find_key_def ex_db_def ex_world_def)

lemma ex_key_max: "KeySpecificMaxGasPriceWei ex_cfg a = 900"
  by (simp add: KeySpecificMaxGasPriceWei_def ex_cfg_def Config.defs cfg0_def)

lemma ex_db_inv: "eb_inv env cfg 5 1 ex_db"
  by (simp add: eb_inv_def tables_ok_defs ids_ok_def nonces_ok_def sending_ok_def queue_ok_def ex_db_def
      unstarted_tx_def in_progress_of_def attempts_of_def nonce_ok_def)

lemma ex_guarded: "eb_guarded env cfg 5 1 (ex_world ex_db n)"
  by (rule eb.alone_guarded) (simp_all add: ex_world_def ex_db_inv)

lemma ex_busy_inv: "eb_inv ex_env ex_cfg 5 1 ex_busy_db"
  by (simp add: eb_inv_def tables_ok_defs ids_ok_def nonces_ok_def sending_ok_def queue_ok_def ex_busy_db_def ex_db_def
      ex_row_def ex_attempt_def unstarted_tx_def in_progress_of_def attempts_of_def nonce_ok_def attempt_ok_def
      key_nonce_def find_key_def ex_env_def ex_tx_def ex_key_max)

lemma ex_busy_guarded: "eb_guarded ex_env ex_cfg 5 1 (ex_world ex_busy_db n)"
  by (rule eb.alone_guarded) (simp_all add: ex_world_def ex_busy_inv)

lemma ex_busy_key: "key_nonce 5 1 (db (ex_world ex_busy_db n)) = 7"
  by (simp add: key_nonce_def find_key_def ex_world_def ex_busy_db_def ex_db_def)

lemma ex_call_result:
  "fst (ex_call (ex_world ex_db 12)) = Returned None False"
  "sent (snd (ex_call (ex_world ex_db 12))) = [(1, ex_tx)]"
  "key_nonce 5 1 (db (snd (ex_call (ex_world ex_db 12)))) = 8"
  by code_simp+

lemma ex_call_pair:
  "processUnstartedEthTxs ex_env ex_cfg ex_ks 1 (\<lambda>e. ''failed'') 5 [] [ex_turn, ex_turn] w
     = (fst (ex_call w), snd (ex_call w))"
  by (simp add: ex_call_def)

section \<open>Lemmas\<close>

lemma in_progress_nonce:
  assumes "eb_inv env cfg a c d" "t \<in> set (in_progress_of a d)"
  shows "Nonce t = Some (key_nonce a c d)"
proof -
  have "t \<in> set (eth_txes d)" "FromAddress t = a" "TxState t = EthTxInProgress"
    using assms(2) by (simp_all add: in_progress_of_def)
  moreover have "TxChainID t = c \<and> Nonce t \<noteq> None"
    using assms by (auto simp: eb_inv_def sending_ok_def attempt_ok_def)
  ultimately show ?thesis
    using assms(1) by (fastforce simp: eb_inv_def nonces_ok_def nonce_ok_def split: option.splits)
qed

lemma in_progress_at_most_one:
  assumes "eb_inv env cfg a c d"
  shows "length (in_progress_of a d) \<le> 1"
proof -
  have ok: "tables_ok d" "sending_ok env cfg a c d" using assms by (simp_all add: eb_inv_def)
  then have "distinct (map TxID (eth_txes d))"
    by (simp add: tables_ok_def schema_ok_def eth_txes_ok_def unique_rows_def)
  then have dist: "distinct (in_progress_of a d)"
    by (simp add: in_progress_of_def distinct_map)
  show ?thesis
  proof (cases "in_progress_of a d")
    case (Cons t ts)
    then have "u = t" if "u \<in> set ts" for u
      using in_progress_unique [OF ok, of u t] that by simp
    then show ?thesis using dist Cons by (cases ts) auto
  qed simp
qed

section \<open>A call of the broadcaster\<close>

text \<open>C4: when a call of the broadcaster ends, whatever the node and the database answered, every
  transaction of the key that is not in progress has a nonce below the key's next nonce, at most one is
  in progress and has exactly the next nonce, and the next nonce has not gone back. The invariant \<open>eb_inv\<close> holds
  before the call, whoever else writes keeps it and leaves the key and its queue in frame, and no
  transaction of the key is in progress on another chain.\<close>

theorem broadcaster_keeps_nonces:
  assumes "codec_ok env" "eb_guarded env cfg a c w"
    and "processUnstartedEthTxs env cfg ks c errText a rs qs w = (out, w1)"
  shows "nonces_ok a c (db w1) \<and> length (in_progress_of a (db w1)) \<le> 1
    \<and> (\<forall>t\<in>set (in_progress_of a (db w1)). Nonce t = Some (key_nonce a c (db w1)))
    \<and> key_nonce a c (db w) \<le> key_nonce a c (db w1)"
proof -
  have post: "run_post env cfg a c w w1" using processUnstartedEthTxs_ok [OF assms] by simp
  then have I: "eb_inv env cfg a c (db w1)" by (simp add: run_post_def guardedD)
  show ?thesis
    using post I in_progress_at_most_one [OF I] in_progress_nonce [OF I] by (auto simp: run_post_def eb_inv_def)
qed

lemma broadcaster_keeps_nonces_witness:
  "nonces_ok 5 1 (db (snd (ex_call (ex_world ex_db 12)))) \<and> key_nonce 5 1 ex_db = 7
     \<and> fst (ex_call (ex_world ex_db 12)) = Returned None False"
  using broadcaster_keeps_nonces [OF ex_codec ex_guarded [of ex_env ex_cfg 12] ex_call_pair] ex_call_result
  by (simp add: ex_key)

text \<open>C15: a call of the broadcaster leaves the tables within their constraints, with the rows of each
  state of the shape the next call expects: the transaction in progress has a single attempt, which
  waits to be sent, decodes and carries the row's nonce, and a queued one has no attempt. The
  same holds before the call, whoever else writes keeps it, and no transaction of the key is in progress on
  another chain.\<close>

theorem broadcaster_keeps_rows:
  assumes "codec_ok env" "eb_guarded env cfg a c w"
    and "processUnstartedEthTxs env cfg ks c errText a rs qs w = (out, w1)"
  shows "tables_ok (db w1)
    \<and> (\<forall>t\<in>set (in_progress_of a (db w1)).
         TxChainID t = c \<and> (\<exists>x. attempts_of (TxID t) (db w1) = [x] \<and> attempt_ok env cfg t x))
    \<and> (\<forall>t\<in>set (with_state EthTxUnstarted a c (db w1)). attempts_of (TxID t) (db w1) = [])"
proof -
  have "eb_inv env cfg a c (db w1)"
    using processUnstartedEthTxs_ok [OF assms] by (simp add: run_post_def guardedD)
  then show ?thesis by (auto simp: eb_inv_def sending_ok_def queue_ok_def with_state_def)
qed

lemma broadcaster_keeps_rows_witness:
  "tables_ok (db (snd (ex_call (ex_world ex_db 12)))) \<and> sent (snd (ex_call (ex_world ex_db 12))) = [(1, ex_tx)]"
  using broadcaster_keeps_rows [OF ex_codec ex_guarded [of ex_env ex_cfg 12] ex_call_pair] ex_call_result by simp

text \<open>C6: whatever a call of the broadcaster hands to the node carries a nonce between the key's next
  nonce before the call and the one after it, and never offers more for gas than the maximum of the key. The
  invariant holds before the call, whoever else writes keeps it, and no transaction of the key is in
  progress on another chain.\<close>

theorem sent_with_next_nonce:
  assumes "codec_ok env" "eb_guarded env cfg a c w"
    and "processUnstartedEthTxs env cfg ks c errText a rs qs w = (out, w1)"
  shows "\<exists>new. sent w1 = sent w @ new
    \<and> (\<forall>(i, tx)\<in>set new.
         (\<exists>n. key_nonce a c (db w) \<le> n \<and> n \<le> key_nonce a c (db w1) \<and> tx_nonce tx = word_of_int n)
         \<and> tx_max_price tx \<le> KeySpecificMaxGasPriceWei cfg a)"
proof -
  obtain new where new: "sent w1 = sent w @ new"
    "\<forall>s\<in>set new. \<exists>n. key_nonce a c (db w) \<le> n \<and> n \<le> key_nonce a c (db w1) \<and> well_sent cfg a n s"
    using processUnstartedEthTxs_ok [OF assms] by (auto simp: run_post_def)
  then show ?thesis by (intro exI [of _ new]) (force simp: well_sent_def)
qed

lemma sent_with_next_nonce_witness:
  "\<exists>n. 7 \<le> n \<and> n \<le> (8 :: int) \<and> tx_nonce ex_tx = word_of_int n \<and> tx_max_price ex_tx \<le> 900"
  using sent_with_next_nonce [OF ex_codec ex_guarded [of ex_env ex_cfg 12] ex_call_pair] ex_call_result
  by (auto simp: ex_key ex_key_max ex_world_def)

text \<open>a call of the broadcaster never meets a row it does not expect: none of its checks of its own
  rules fails, it panics only in a checker whose metadata has no request ID, and when it returns without
  an error no transaction of the address is in progress.\<close>

theorem broadcaster_outcomes:
  assumes "codec_ok env" "eb_guarded env cfg a c w"
    and "processUnstartedEthTxs env cfg ks c errText a rs qs w = (out, w1)"
  shows "(\<forall>m. out = Panicked m \<longrightarrow> m = ''nil RequestID'')
    \<and> (\<forall>m retryable. out = Returned (Some (InvariantViolation m)) retryable
         \<longrightarrow> m = ''re-estimation is not supported for EIP-1559 transactions'')
    \<and> (\<forall>retryable. out = Returned None retryable \<longrightarrow> in_progress_of a (db w1) = [])"
  using processUnstartedEthTxs_ok [OF assms] by (auto simp: outcome_post_def violation_def)

lemma broadcaster_outcomes_witness:
  "fst (ex_call (ex_world ex_db 12)) = Returned None False
     \<and> in_progress_of 5 (db (snd (ex_call (ex_world ex_db 12)))) = []"
  using broadcaster_outcomes [OF ex_codec ex_guarded [of ex_env ex_cfg 12] ex_call_pair] ex_call_result(1) by blast

section \<open>The loop of bumps ends\<close>

text \<open>What one bump raises: the gas price, or the tip cap.\<close>

definition bid :: "EthTxAttempt \<Rightarrow> int" where
  "bid x = (if TxType x = 0 then the (GasPrice x) else the (GasTipCap x))"

definition raises_by :: "int \<Rightarrow> 'e round \<Rightarrow> bool" where
  "raises_by k r \<longleftrightarrow>
     (\<forall>p g m q l. BumpLegacyGas r p g m = Inr (q, l) \<longrightarrow> p + k \<le> q)
     \<and> (\<forall>f g m f' l. BumpDynamicFee r f g m = Inr (f', l) \<longrightarrow> TipCap f + k \<le> TipCap f')"

lemma again_with_Again:
  "again_with etx x w repl = (Again etx1 x1, w1) \<Longrightarrow> \<exists>y i. repl = Inr y \<and> etx1 = etx \<and> x1 = y\<lparr>AttemptID := i\<rparr>"
  by (auto simp: again_with_def saveReplacementInProgressAttempt_def Transaction_def try_bind_Inr insert_attempt_Inr
      split: sum.splits prod.splits if_splits db_answer.splits)

lemma NewLegacyAttempt_price:
  "NewLegacyAttempt env cfg cid etx p g = Ret (Inr y) \<Longrightarrow> TxType y = 0 \<and> GasPrice y = p"
  by (auto simp: NewLegacyAttempt_def run_simps try_bind_Inr split: option.splits)

lemma NewDynamicFeeAttempt_price:
  "NewDynamicFeeAttempt env cfg cid etx tip cap g = Ret (Inr y) \<Longrightarrow> TxType y = 2 \<and> GasTipCap y = tip"
  by (auto simp: NewDynamicFeeAttempt_def run_simps try_bind_Inr split: option.splits)

lemma bumped_again:
  assumes "raises_by k r" "tryAgainBumpingGas env cfg cid r etx x w = (Again etx1 x1, w1)"
  shows "bid x + k \<le> bid x1 \<and> bid x1 < EvmMaxGasPriceWei cfg"
proof -
  consider "TxType x = 0" | "TxType x = 2"
    using assms(2) by (auto simp: tryAgainBumpingGas_def split: if_splits)
  then show ?thesis
  proof cases
    case 1
    obtain p where p: "GasPrice x = Some p"
      using assms(2) 1 by (auto simp: tryAgainBumpingGas_def tryAgainBumpingLegacyGas_def split: option.splits)
    obtain q l where q: "BumpLegacyGas r p (GasLimit etx) (KeySpecificMaxGasPriceWei cfg (FromAddress etx)) = Inr (q, l)"
      "q < EvmMaxGasPriceWei cfg"
      and t: "tryAgainWithNewLegacyGas env cfg cid etx x q l w = (Again etx1 x1, w1)"
      using assms(2) 1 p by (auto simp: tryAgainBumpingGas_def tryAgainBumpingLegacyGas_def
          split: sum.splits prod.splits if_splits)
    obtain y where y: "NewLegacyAttempt env cfg cid etx (Some q) l = Ret y" "again_with etx x w y = (Again etx1 x1, w1)"
      using t by (cases "NewLegacyAttempt env cfg cid etx (Some q) l") (auto simp: tryAgainWithNewLegacyGas_def)
    then obtain z i where "y = Inr z" "x1 = z\<lparr>AttemptID := i\<rparr>" using again_with_Again by blast
    then have "bid x1 = q" using NewLegacyAttempt_price [of env cfg cid etx "Some q" l z] y by (simp add: bid_def)
    moreover have "p + k \<le> q" using assms(1) q(1) unfolding raises_by_def by blast
    ultimately show ?thesis using q 1 p by (simp add: bid_def)
  next
    case 2
    obtain tip cap where p: "GasTipCap x = Some tip" "GasFeeCap x = Some cap"
      using assms(2) 2 by (auto simp: tryAgainBumpingGas_def tryAgainBumpingDynamicFeeGas_def split: option.splits)
    obtain f l where q: "BumpDynamicFee r \<lparr>FeeCap = cap, TipCap = tip\<rparr> (GasLimit etx)
          (KeySpecificMaxGasPriceWei cfg (FromAddress etx)) = Inr (f, l)" "TipCap f < EvmMaxGasPriceWei cfg"
      and t: "tryAgainWithNewDynamicFeeGas env cfg cid etx x f l w = (Again etx1 x1, w1)"
      using assms(2) 2 p by (auto simp: tryAgainBumpingGas_def tryAgainBumpingDynamicFeeGas_def
          split: sum.splits prod.splits if_splits)
    obtain y where y: "NewDynamicFeeAttempt env cfg cid etx (Some (TipCap f)) (Some (FeeCap f)) l = Ret y"
      "again_with etx x w y = (Again etx1 x1, w1)"
      using t by (cases "NewDynamicFeeAttempt env cfg cid etx (Some (TipCap f)) (Some (FeeCap f)) l")
        (auto simp: tryAgainWithNewDynamicFeeGas_def)
    then obtain z i where "y = Inr z" "x1 = z\<lparr>AttemptID := i\<rparr>" using again_with_Again by blast
    then have "bid x1 = TipCap f"
      using NewDynamicFeeAttempt_price [of env cfg cid etx _ _ l z] y by (auto simp: bid_def)
    moreover have "tip + k \<le> TipCap f" using assms(1) q(1) unfolding raises_by_def by fastforce
    ultimately show ?thesis using q 2 p by (simp add: bid_def)
  qed
qed

lemma saves_finish:
  "save_and_finish ks cid etx x w \<noteq> (Again etx1 x1, w1)"
  by (simp add: save_and_finish_def split: prod.splits)

lemma handle_pass_again:
  assumes "\<not> ChainTypeIsL2 cfg" "raises_by k r"
    and "handle_pass env cfg ks cid at errText r etx x w = (Again etx1 x1, w1)"
  shows "bid x + k \<le> bid x1 \<and> bid x1 < EvmMaxGasPriceWei cfg"
proof -
  obtain etx2 w2 where "tryAgainBumpingGas env cfg cid r etx2 x w2 = (Again etx1 x1, w1)"
  proof -
    obtain spec where s: "GetChecker env etx = Some spec" using assms(3)
      by (auto simp: handle_pass_def split: option.splits if_splits)
    obtain checker where c: "BuildChecker env spec = Inr checker" using assms(3) s
      by (auto simp: handle_pass_def split: sum.splits if_splits)
    obtain failed where f: "Check env r checker etx = Ret failed" using assms(3) s c
      by (cases "Check env r checker etx") (auto simp: handle_pass_def split: if_splits)
    obtain se w2 where se: "sendTransaction env r x w = (se, w2)" by (cases "sendTransaction env r x w")
    have "pass_after_send env cfg ks cid at r etx x se w2 = (Again etx1 x1, w1)"
      using assms(3) s c f se by (auto simp: handle_pass_def split: option.splits prod.splits if_splits)
    then have "tryAgainBumpingGas env cfg cid r
        (etx\<lparr>InitialBroadcastAt := Some at, BroadcastAt := Some at\<rparr>) x w2 = (Again etx1 x1, w1)"
      using assms(1) by (auto simp: pass_after_send_def Let_def saves_finish split: if_splits option.splits)
    then show ?thesis using that by blast
  qed
  then show ?thesis using bumped_again assms(2) by blast
qed

text \<open>C20: off layer 2, with an estimator whose bumps raise the price by at least k > 0, the loop that
  bumps an underpriced transaction and sends it again ends within (maximum - first price) / k rounds,
  with an error or a result.\<close>

theorem bump_loop_ends:
  assumes "\<not> ChainTypeIsL2 cfg" "0 < k" "\<forall>r\<in>set rs. raises_by k r" "rs \<noteq> []"
    and "EvmMaxGasPriceWei cfg - bid x \<le> k * int (length rs)"
  shows "fst (handleInProgressEthTx env cfg ks cid at errText rs etx x w) \<noteq> Waiting"
  using assms(3-5)
proof (induction rs arbitrary: etx x w)
  case (Cons r rs)
  obtain p w1 where p: "handle_pass env cfg ks cid at errText r etx x w = (p, w1)"
    by (cases "handle_pass env cfg ks cid at errText r etx x w")
  show ?case
  proof (cases p)
    case (Again etx1 x1)
    have h: "bid x + k \<le> bid x1 \<and> bid x1 < EvmMaxGasPriceWei cfg"
      by (rule handle_pass_again [OF assms(1) _ p [unfolded Again]]) (use Cons.prems(1) in simp)
    have d: "k * int (length (r # rs)) = k * int (length rs) + k" by (simp add: algebra_simps)
    have len: "EvmMaxGasPriceWei cfg - bid x1 \<le> k * int (length rs)" using h Cons.prems(3) d by linarith
    then have "rs \<noteq> []" using h by (cases rs) auto
    then show ?thesis using Cons.IH [of x1 etx1 w1] Cons.prems(1) len p Again by simp
  qed (use p in simp_all)
qed simp

lemma ex_round_raises: "raises_by 5 ex_round"
  by (auto simp: raises_by_def ex_round_def fixed_BumpLegacyGas_def BumpLegacyGasPriceOnly_def bumpGasPrice_def
      Let_def cfg0_def wei_defs split: if_splits)

lemma bump_loop_ends_witness:
  "fst (handleInProgressEthTx ex_env ex_cfg ex_ks 1 1600000100 (\<lambda>e. ''failed'') (replicate 190 ex_round)
     ex_row ex_attempt (ex_world ex_busy_db 9)) \<noteq> Waiting"
  by (rule bump_loop_ends [where k = 5])
    (simp_all add: ex_round_raises ex_cfg_def Config.defs cfg0_def bid_def ex_attempt_def)

lemma attempts_of_mem_id: "x \<in> set (attempts_of i d) \<Longrightarrow> EthTxID x = i"
  by (simp add: attempts_of_def)

text \<open>C32: when the attempt of the transaction in progress is saved as broadcast, the transaction is
  unconfirmed with its nonce and broadcast times, its only attempt is the one sent, the address has no
  transaction in progress and the key's next nonce is one more.\<close>

theorem saved_attempt_uses_nonce:
  assumes g: "eb_guarded env cfg a c w" and s: "slot a c N etx x (db w)"
    and r: "saveAttempt ks c etx x EthTxAttemptBroadcast w = (None :: 'e tx_error option, w1)"
  shows "key_nonce a c (db w1) = N + 1 \<and> in_progress_of a (db w1) = []
    \<and> attempts_of (TxID etx) (db w1) = [x\<lparr>AttemptState := EthTxAttemptBroadcast\<rparr>]
    \<and> (\<exists>t\<in>set (eth_txes (db w1)). TxID t = TxID etx \<and> TxState t = EthTxUnconfirmed \<and> Nonce t = Some N
         \<and> BroadcastAt t = BroadcastAt etx \<and> InitialBroadcastAt t = InitialBroadcastAt etx)"
proof -
  define f where "f = (\<lambda>t :: EthTx. t\<lparr>TxState := EthTxUnconfirmed, TxError := TxError etx, BroadcastAt := BroadcastAt etx,
              InitialBroadcastAt := InitialBroadcastAt etx\<rparr>)"
  define g where "g = (\<lambda>x :: EthTxAttempt. x\<lparr>AttemptState := EthTxAttemptBroadcast\<rparr>)"
  let ?body = "\<lambda>d. try_bind (IncrementNextNonce ks (FromAddress etx) c (the (Nonce etx)) d) (\<lambda>d1.
    try_bind (update_tx_returning (TxID etx) f d1) (\<lambda>(row, d2). update_attempt_returning (AttemptID x) g d2))"
  have st: "AttemptState x = EthTxAttemptInProgress" "TxState etx = EthTxInProgress"
    using slotD [OF assms(1,2)] by simp_all
  obtain row where t: "Transaction ?body w = (Inr row, w1)"
    using r st by (auto simp: saveAttempt_def f_def g_def split: prod.splits sum.splits)
  define Q where "Q = (\<lambda>(row :: EthTxAttempt) d'. in_progress_of a d' = [] \<and> key_nonce a c d' = N + 1
    \<and> attempts_of (TxID etx) d' = [g x] \<and> f (row_of etx) \<in> set (eth_txes d'))"
  have body: "eb_inv env cfg a c d' \<and> Q row d'"
    if I: "eb_inv env cfg a c d" and p: "slot a c N etx x d" and b: "?body d = Inr (row, d')" for d row d'
  proof -
    have sen: "sending a etx x d" and N: "key_nonce a c d = N" using p by (simp_all add: slot_def)
    have ok: "eb_inv env cfg a c d' \<and> in_progress_of a d' = [] \<and> key_nonce a c d' = key_nonce a c d + 1"
      by (rule saved_body [OF I sen]) (use b in \<open>simp add: f_def g_def\<close>)
    obtain n d1 where n: "orm_incrementNextNonce (FromAddress etx) c (the (Nonce etx)) d = Inr (n, d1)"
      and u: "try_bind (update_tx_returning (TxID etx) f d1)
        (\<lambda>(row, d2). update_attempt_returning (AttemptID x) g d2) = Inr (row, d')"
      using b by (auto simp: try_bind_Inr IncrementNextNonce_def split: if_splits)
    have T: "tables_ok d" using I by (simp add: eb_inv_def)
    obtain ks' where d1: "d1 = d\<lparr>evm_key_states := ks'\<rparr>" using incrementNextNonce_Inr(4) [OF T n] by blast
    have d': "eth_txes d' = update_where (\<lambda>t. TxID t = TxID etx) f (eth_txes d)"
      "eth_tx_attempts d' = update_where (\<lambda>y. AttemptID y = AttemptID x) g (eth_tx_attempts d)"
      using u d1 by (auto simp: try_bind_Inr update_tx_returning_Inr update_attempt_returning_Inr
          update_txes_def update_attempts_def)
    have x: "attempts_of (TxID etx) d = [x]" and row: "row_of etx \<in> set (eth_txes d)"
      using sen by (simp_all add: sending_def in_progress_of_def)
    have "attempts_of (TxID etx) d' = update_where (\<lambda>y. AttemptID y = AttemptID x) g (attempts_of (TxID etx) d)"
      unfolding attempts_of_def d' by (rule update_where_filter) (simp add: g_def)
    then have "attempts_of (TxID etx) d' = [g x]" using x by (simp add: update_where_def)
    moreover have "f (row_of etx) \<in> set (eth_txes d')"
      unfolding d'(1) set_update_where using row by (intro image_eqI [OF _ row]) simp
    ultimately show ?thesis using ok N by (simp add: Q_def)
  qed
  have "eb_guarded env cfg a c w1 \<and> sent w1 = sent w
    \<and> (case Inr row of Inr row \<Rightarrow> Q row (db w1)
       | Inl e \<Rightarrow> slot a c N etx x (db w1) \<or> e = ErrUnavailable \<and> (\<exists>row. Q row (db w1)))"
    by (rule eb.Transaction_guarded [where Q = Q, OF assms(1) slot_stable s _ t]) (rule body)
  then have q: "Q row (db w1)" by simp
  moreover have "Nonce etx = Some N" using slotD [OF assms(1,2)] by simp
  ultimately show ?thesis
    by (auto simp: Q_def g_def intro!: bexI [of _ "f (row_of etx)"]) (simp_all add: f_def)
qed

lemma saved_attempt_uses_nonce_witness:
  "key_nonce 5 1 (db (snd (saveAttempt ex_ks 1 (ex_row\<lparr>BroadcastAt := Some 1600000100,
       InitialBroadcastAt := Some 1600000100\<rparr>) ex_attempt EthTxAttemptBroadcast (ex_world ex_busy_db 1)
       :: string tx_error option \<times> txworld))) = 8"
proof -
  let ?etx = "ex_row\<lparr>BroadcastAt := Some 1600000100, InitialBroadcastAt := Some 1600000100\<rparr>"
  let ?r = "saveAttempt ex_ks 1 ?etx ex_attempt EthTxAttemptBroadcast (ex_world ex_busy_db 1)
    :: string tx_error option \<times> txworld"
  have "fst ?r = None" by code_simp
  then have r: "?r = (None, snd ?r)" by (metis prod.collapse)
  have "slot 5 1 7 ?etx ex_attempt (db (ex_world ex_busy_db 1))"
    by (simp add: slot_def sending_def row_of_def in_progress_of_def attempts_of_def ex_world_def ex_busy_db_def
        ex_db_def ex_row_def ex_attempt_def unstarted_tx_def key_nonce_def find_key_def)
  from saved_attempt_uses_nonce [OF ex_busy_guarded [of 1] this r] show ?thesis by simp
qed


text \<open>the queue hands out the unstarted transaction of the key on the chain that is first by value, then
  age, then number, and none only when there is none.\<close>

theorem queue_in_order:
  "(findNextUnstartedTransactionFromAddress a c d = None \<longleftrightarrow> with_state EthTxUnstarted a c d = [])
   \<and> (\<forall>t. findNextUnstartedTransactionFromAddress a c d = Some t \<longrightarrow>
        t \<in> set (with_state EthTxUnstarted a c d)
        \<and> (\<forall>u\<in>set (with_state EthTxUnstarted a c d). queue_before t u))"
proof (cases "sort_by queue_before (with_state EthTxUnstarted a c d)")
  case Nil
  then have "with_state EthTxUnstarted a c d = []" by (metis sort_by_length length_0_conv)
  then show ?thesis using Nil by (simp add: findNextUnstartedTransactionFromAddress_def)
next
  case (Cons t ts)
  have "sorted_wrt queue_before (sort_by queue_before (with_state EthTxUnstarted a c d))"
    by (rule sort_by_sorted) (auto simp: queue_before_def)
  then have "\<forall>u\<in>set (t # ts). queue_before t u" using Cons by (auto simp: queue_before_def)
  moreover have "set (with_state EthTxUnstarted a c d) = set (t # ts)" by (metis Cons sort_by_set)
  ultimately show ?thesis using Cons by (auto simp: findNextUnstartedTransactionFromAddress_def)
qed

lemma queue_in_order_witness:
  "\<exists>t. findNextUnstartedTransactionFromAddress 5 1 queue_db = Some t \<and> TxID t = 1
     \<and> (\<forall>u\<in>set (with_state EthTxUnstarted 5 1 queue_db). queue_before t u)"
proof -
  have "map_option TxID (findNextUnstartedTransactionFromAddress 5 1 queue_db) = Some 1" by code_simp
  then obtain t where "findNextUnstartedTransactionFromAddress 5 1 queue_db = Some t" "TxID t = 1" by auto
  then show ?thesis using queue_in_order [of 5 1 queue_db] by blast
qed

section \<open>Two chains\<close>

lemma Transaction_sent: "Transaction body w = (res, w1) \<Longrightarrow> sent w1 = sent w"
  by (cases "script w") (auto simp: Transaction_def split: db_answer.splits sum.splits)

lemma save_sent:
  "saveFatallyErroredTransaction env r etx w = (e, w1) \<Longrightarrow> sent w1 = sent w"
  "saveAttempt ks c etx x st w = (e, w1) \<Longrightarrow> sent w1 = sent w"
  "saveReplacementInProgressAttempt x y w = (res, w1) \<Longrightarrow> sent w1 = sent w"
  by (auto simp: saveFatallyErroredTransaction_def saveAttempt_def saveReplacementInProgressAttempt_def
      dest: Transaction_sent split: if_splits prod.splits sum.splits)

lemma save_and_finish_sent: "save_and_finish ks c etx x w = (p, w1) \<Longrightarrow> sent w1 = sent w"
  by (auto simp: save_and_finish_def dest: save_sent split: if_splits prod.splits)

lemma again_with_sent: "again_with etx x w y = (p, w1) \<Longrightarrow> sent w1 = sent w"
  by (auto simp: again_with_def dest: save_sent split: sum.splits prod.splits)

lemma retry_sent:
  "tryAgainWithNewLegacyGas env cfg c etx x q l w = (p, w1) \<Longrightarrow> sent w1 = sent w"
  "tryAgainWithNewDynamicFeeGas env cfg c etx x f l w = (p, w1) \<Longrightarrow> sent w1 = sent w"
  by (cases "NewLegacyAttempt env cfg c etx (Some q) l",
      auto simp: tryAgainWithNewLegacyGas_def dest: again_with_sent)
    (cases "NewDynamicFeeAttempt env cfg c etx (Some (TipCap f)) (Some (FeeCap f)) l",
      auto simp: tryAgainWithNewDynamicFeeGas_def dest: again_with_sent)

lemma bump_sent: "tryAgainBumpingGas env cfg c r etx x w = (p, w1) \<Longrightarrow> sent w1 = sent w"
  by (auto simp: tryAgainBumpingGas_def tryAgainBumpingLegacyGas_def tryAgainBumpingDynamicFeeGas_def
      dest: retry_sent split: if_splits option.splits sum.splits)

lemma pass_after_send_sent:
  "pass_after_send env cfg ks c at r etx x se w = (p, w1) \<Longrightarrow> sent w1 = sent w"
  by (auto simp: pass_after_send_def Let_def tryAgainWithNewEstimation_def
      dest: bump_sent retry_sent save_and_finish_sent split: if_splits option.splits sum.splits)

text \<open>the query for a transaction in progress does not name the chain: the broadcaster of any chain
  that shares an address with another hands the transaction in progress there, signed for the other
  chain, to its own node.\<close>

theorem other_chain_in_progress_sent:
  assumes "script w = replicate n \<lparr>others = id, answer = Commit\<rparr>" "2 \<le> n"
    and "find (\<lambda>t. FromAddress t = a \<and> TxState t = EthTxInProgress) (eth_txes (db w)) = Some t"
    and "loadEthTxAttempts (TxID t) (db w) = [x]" "AttemptState x = EthTxAttemptInProgress" "EthTxID x = TxID t"
    and "DecodeRLP env (SignedRawTx x) = Inr tx" "TransmitChecker t = None"
  shows "sent (snd (processUnstartedEthTxs env cfg ks c errText a [r] [] w)) = sent w @ [(TxID t, tx)]"
proof -
  obtain k where n: "n = Suc (Suc k)" using assms(2) by (metis add_2_eq_Suc le_Suc_ex)
  define w2 where "w2 = w\<lparr>script := replicate k \<lparr>others = id, answer = Commit\<rparr>\<rparr>"
  have st: "TxState t = EthTxInProgress" using assms(3) by (auto simp: find_Some_iff)
  have start: "getInProgressEthTx a w = (Inr (Some (t, x)), w2)"
    using assms(1,3-5) by (simp add: getInProgressEthTx_def Select_def n w2_def)
  have check: "GetChecker env t
      = Some \<lparr>CheckerType = NoCheckerType, VRFCoordinatorAddress = None, VRFRequestBlockNumber = None\<rparr>"
    using assms(8) by (simp add: GetChecker_def)
  obtain p w1 where p: "handle_pass env cfg ks c (CreatedAt t) errText r t x w2 = (p, w1)"
    by (cases "handle_pass env cfg ks c (CreatedAt t) errText r t x w2")
  define w3 where "w3 = w2\<lparr>sent := sent w2 @ [(TxID t, tx)]\<rparr>"
  obtain se where se: "sendTransaction env r x w2 = (se, w3)"
  proof -
    have "snd (sendTransaction env r x w2) = w3"
      using assms(6,7) by (simp add: sendTransaction_def Let_def w3_def)
    then show ?thesis using that by (metis prod.collapse)
  qed
  have "sent w1 = sent w3"
    using p st check se
    by (auto simp: handle_pass_def BuildChecker_def Check_def dest: save_sent pass_after_send_sent
        split: if_splits prod.splits)
  then have "sent w1 = sent w @ [(TxID t, tx)]" by (simp add: w3_def w2_def)
  moreover have "snd (processUnstartedEthTxs env cfg ks c errText a [r] [] w) = w1"
    by (cases p) (simp_all add: processUnstartedEthTxs_def handleAnyInProgressEthTx_def start p split: option.splits)
  ultimately show ?thesis by simp
qed

lemma other_chain_in_progress_sent_witness:
  "sent (snd (processUnstartedEthTxs ex_env ex_cfg ex_ks 2 (\<lambda>e. ''failed'') 5 [ex_round] [] (ex_world ex_busy_db 2)))
     = [(1, ex_tx)] \<and> TxChainID ex_row = 1"
proof -
  have "sent (snd (processUnstartedEthTxs ex_env ex_cfg ex_ks 2 (\<lambda>e. ''failed'') 5 [ex_round] [] (ex_world ex_busy_db 2)))
      = sent (ex_world ex_busy_db 2) @ [(TxID ex_row, ex_tx)]"
    by (rule other_chain_in_progress_sent [where n = 2 and x = ex_attempt])
      (simp_all add: ex_world_def ex_busy_db_def ex_row_def ex_attempt_def unstarted_tx_def ex_env_def
        loadEthTxAttempts_def)
  then show ?thesis by (simp add: ex_world_def ex_row_def unstarted_tx_def)
qed

section \<open>Nonce synchronization\<close>

text \<open>when synchronization succeeds for a key the node has seen, the key's next nonce, counting the
  transaction in progress if there is one, is at least the node's pending nonce; it never goes back.\<close>

theorem nonce_sync_catches_up:
  assumes g: "table_user.guarded tables_ok (ns_frame a c) w" and pos: "0 \<le> key_nonce a c (db w)"
    and m: "m \<noteq> 0" and r: "fastForwardNonceIfNecessary ks c (Some m) a w = (None :: 'e tx_error option, w1)"
  shows "uint m \<le> key_nonce a c (db w1) + (if hasInProgressTransaction a c (db w1) then 1 else 0)
    \<and> key_nonce a c (db w) \<le> key_nonce a c (db w1)"
  using nonce_sync_ok [OF assms] by (auto simp: synced_nonce_def)

lemma ex_sync:
  "fastForwardNonceIfNecessary ex_ks 1 (Some 9) 5 (ex_world ex_busy_db 3)
     = (None :: string tx_error option,
        snd (fastForwardNonceIfNecessary ex_ks 1 (Some 9) 5 (ex_world ex_busy_db 3) :: string tx_error option \<times> txworld))"
proof -
  have "fst (fastForwardNonceIfNecessary ex_ks 1 (Some 9) 5 (ex_world ex_busy_db 3)
      :: string tx_error option \<times> txworld) = None" by code_simp
  then show ?thesis by (metis prod.collapse)
qed

lemma ex_busy_sync_guarded: "table_user.guarded tables_ok (ns_frame 5 1) (ex_world ex_busy_db n)"
  by (rule ns.alone_guarded)
    (use ex_busy_inv in \<open>simp_all add: ex_world_def eb_inv_def\<close>)

lemma nonce_sync_catches_up_witness:
  "uint (9 :: 64 word) \<le> key_nonce 5 1 (db (snd (fastForwardNonceIfNecessary ex_ks 1 (Some 9) 5 (ex_world ex_busy_db 3)
     :: string tx_error option \<times> txworld))) + 1"
proof -
  have "0 \<le> key_nonce 5 1 (db (ex_world ex_busy_db 3))" by (simp add: ex_busy_key)
  from nonce_sync_catches_up [OF ex_busy_sync_guarded this _ ex_sync] show ?thesis by (simp split: if_splits)
qed

text \<open>C39: synchronization strands a transaction in progress when the node has seen two nonces more than
  the key's next nonce: the next nonce moves beyond that of the transaction, and saving the outcome of
  its attempt, which names the nonce as an optimistic lock, can no longer succeed.\<close>

theorem nonce_sync_strands_in_progress:
  assumes g: "table_user.guarded tables_ok (ns_frame a c) w" and N: "key_nonce a c (db w) = N" "0 \<le> N"
    and b: "hasInProgressTransaction a c (db w)" and m: "N + 1 < uint m"
    and r: "fastForwardNonceIfNecessary ks c (Some m) a w = (None :: 'e tx_error option, w1)"
    and etx: "FromAddress etx = a" "Nonce etx = Some N"
  shows "key_nonce a c (db w1) = uint m - 1
    \<and> fst (saveAttempt ks' c etx x st w1) \<noteq> (None :: 'e tx_error option)"
proof -
  have "m \<noteq> 0" using m N(2) by auto
  then have s: "table_user.guarded tables_ok (ns_frame a c) w1" "key_nonce a c (db w1) = uint m - 1"
    using nonce_sync_ok [OF g _ _ r] N b m by (auto simp: synced_nonce_def)
  have stable: "table_user.stable tables_ok (ns_frame a c) (\<lambda>d. key_nonce a c d = uint m - 1)"
    unfolding ns.stable_def by (simp add: ns_frame_def)
  let ?body = "\<lambda>d. try_bind (IncrementNextNonce ks' (FromAddress etx) c (the (Nonce etx)) d) (\<lambda>d1.
    try_bind (update_tx_returning (TxID etx)
        (\<lambda>t. t\<lparr>TxState := EthTxUnconfirmed, TxError := TxError etx, BroadcastAt := BroadcastAt etx,
              InitialBroadcastAt := InitialBroadcastAt etx\<rparr>) d1) (\<lambda>(row, d2).
      update_attempt_returning (AttemptID x) (\<lambda>a. a\<lparr>AttemptState := st\<rparr>) d2))"
  obtain res w2 where t: "Transaction ?body w1 = (res, w2)" by (cases "Transaction ?body w1")
  have "table_user.guarded tables_ok (ns_frame a c) w2 \<and> sent w2 = sent w1
    \<and> (case res of Inr y \<Rightarrow> False | Inl e \<Rightarrow> key_nonce a c (db w2) = uint m - 1 \<or> e = ErrUnavailable \<and> (\<exists>y :: EthTxAttempt. False))"
  proof (rule ns.Transaction_guarded [where Q = "\<lambda>y d. False", OF s(1) stable s(2) _ t])
    fix d y d' assume d: "tables_ok d" "key_nonce a c d = uint m - 1" "?body d = Inr (y, d')"
    then obtain n d1 where "orm_incrementNextNonce a c N d = Inr (n, d1)"
      using etx by (auto simp: try_bind_Inr IncrementNextNonce_def split: if_splits)
    then have "key_nonce a c d = N" by (rule incrementNextNonce_Inr(1) [OF d(1)])
    then show "tables_ok d' \<and> False" using d(2) m by simp
  qed
  then obtain e where "res = Inl e" by (cases res) auto
  then show ?thesis using s(2) t by (auto simp: saveAttempt_def)
qed

lemma nonce_sync_strands_in_progress_witness:
  "key_nonce 5 1 (db (snd (fastForwardNonceIfNecessary ex_ks 1 (Some 9) 5 (ex_world ex_busy_db 3)
     :: string tx_error option \<times> txworld))) = 8 \<and> Nonce ex_row = Some 7"
proof -
  have "hasInProgressTransaction 5 1 (db (ex_world ex_busy_db 3))"
    by (simp add: hasInProgressTransaction_def with_state_def ex_world_def ex_busy_db_def ex_row_def unstarted_tx_def)
  moreover have "key_nonce 5 1 (db (ex_world ex_busy_db 3)) = 7" by (simp add: ex_busy_key)
  moreover have "FromAddress ex_row = 5" "Nonce ex_row = Some 7" by (simp_all add: ex_row_def unstarted_tx_def)
  ultimately show ?thesis
    using nonce_sync_strands_in_progress [OF ex_busy_sync_guarded _ _ _ _ ex_sync, of 7 ex_row] by simp
qed

section \<open>Queues\<close>

text \<open>the drop-oldest strategy with queue size n > 0 keeps exactly the newest n queued transactions of
  its subject (all of them, if there are fewer), drops only older ones, reports how many, and touches
  no other transaction.\<close>

theorem drop_oldest_keeps_newest:
  assumes "tables_ok d" "0 < n" "PruneQueue (DropOldestStrategy s n) d = Inr (k, d')"
  shows "length (unstarted_of_subject s d') = min n (length (unstarted_of_subject s d))
    \<and> k + length (unstarted_of_subject s d') = length (unstarted_of_subject s d)
    \<and> (\<forall>t\<in>set (unstarted_of_subject s d').
         \<forall>u\<in>set (unstarted_of_subject s d) - set (unstarted_of_subject s d'). TxID u < TxID t)
    \<and> (\<forall>t. \<not> (TxState t = EthTxUnstarted \<and> Subject t = Some s)
         \<longrightarrow> (t \<in> set (eth_txes d') \<longleftrightarrow> t \<in> set (eth_txes d)))"
proof -
  define P where "P = (\<lambda>t :: EthTx. TxState t = EthTxUnstarted \<and> Subject t = Some s
    \<and> (case oldest_kept s n d of None \<Rightarrow> False | Some m \<Rightarrow> TxID t < m))"
  define Q where "Q = unstarted_of_subject s d"
  have d': "d' = delete_txes P d" and k: "k = length (filter P (eth_txes d))"
    using assms(3) by (auto simp: Let_def try_bind_Inr checked_Inr P_def)
  have Q': "unstarted_of_subject s d' = filter (\<lambda>t. \<not> P t) Q"
    by (simp add: d' unstarted_of_subject_delete Q_def)
  have "filter P (eth_txes d) = filter P Q"
    by (auto simp: Q_def unstarted_of_subject_def P_def intro!: filter_cong)
  then have sum: "k + length (filter (\<lambda>t. \<not> P t) Q) = length Q"
    by (simp add: k sum_length_filter_compl)
  have others: "t \<in> set (eth_txes d') \<longleftrightarrow> t \<in> set (eth_txes d)"
    if "\<not> (TxState t = EthTxUnstarted \<and> Subject t = Some s)" for t
    using that by (auto simp: d' delete_txes_def P_def)
  show ?thesis
  proof (cases "Q = []")
    case True
    then show ?thesis using Q' sum others by (simp add: Q_def)
  next
    case False
    obtain m where m: "oldest_kept s n d = Some m" "card {i \<in> TxID ` set Q. m \<le> i} = min n (length Q)"
      using oldest_kept_bound [OF assms(1,2)] False unfolding Q_def by metis
    have PQ: "P t \<longleftrightarrow> TxID t < m" if "t \<in> set Q" for t
      using that m(1) by (auto simp: P_def Q_def unstarted_of_subject_def)
    have kept: "filter (\<lambda>t. \<not> P t) Q = filter (\<lambda>t. m \<le> TxID t) Q"
      using PQ by (intro filter_cong) auto
    have "distinct (map TxID (filter (\<lambda>t. m \<le> TxID t) Q))"
      using unstarted_ids [OF assms(1), of s] by (simp add: Q_def distinct_map_filter)
    then have "length (filter (\<lambda>t. m \<le> TxID t) Q) = card (TxID ` set (filter (\<lambda>t. m \<le> TxID t) Q))"
      by (metis distinct_card length_map list.set_map)
    also have "TxID ` set (filter (\<lambda>t. m \<le> TxID t) Q) = {i \<in> TxID ` set Q. m \<le> i}" by auto
    finally have "length (filter (\<lambda>t. m \<le> TxID t) Q) = min n (length Q)" using m(2) by simp
    then show ?thesis
      using Q' sum others kept PQ by (auto simp: Q_def)
  qed
qed

lemma drop_oldest_keeps_newest_witness:
  "\<exists>k d'. PruneQueue (DropOldestStrategy 9 2) queue_db = Inr (k, d') \<and> length (unstarted_of_subject 9 d') = 2
     \<and> map TxID (eth_txes d') = [2, 3, 4]"
proof -
  have "case PruneQueue (DropOldestStrategy 9 2) queue_db of
      Inl e \<Rightarrow> False | Inr (k, d') \<Rightarrow> map TxID (eth_txes d') = [2, 3, 4]" by code_simp
  then obtain k d' where r: "PruneQueue (DropOldestStrategy 9 2) queue_db = Inr (k, d')"
    "map TxID (eth_txes d') = [2, 3, 4]"
    by (auto split: sum.splits prod.splits)
  moreover have "tables_ok queue_db" by (simp add: tables_ok_defs queue_db_def unstarted_tx_def)
  moreover have "length (unstarted_of_subject 9 queue_db) = 3"
    by (simp add: unstarted_of_subject_def queue_db_def unstarted_tx_def)
  ultimately show ?thesis using drop_oldest_keeps_newest [of queue_db 2 9 k d'] by auto
qed

text \<open>C19: what else writes to the tables of a key while the broadcaster runs, creation of transactions
  with the pruning of their queue, ether transfers and the reaper, keeps the invariant of every key's
  broadcaster and leaves alone what the broadcaster relies on; abandoning an address, for which the
  broadcaster is stopped, keeps the invariant.\<close>

theorem manager_beside_broadcaster:
  assumes I: "eb_inv env cfg a c d"
  shows "(\<forall>marshal cid now newTx etx d'. create_body marshal cid now newTx d = Inr (etx, d')
        \<longrightarrow> eb_inv env cfg a c d' \<and> eb_frame a c d d')
    \<and> (\<forall>cid addr dest v gasLimit now etx d'.
        insert_tx (unstarted_tx addr dest [] v gasLimit now cid) d = Inr (etx, d')
        \<longrightarrow> eb_inv env cfg a c d' \<and> eb_frame a c d d')
    \<and> (\<forall>cid keep threshold limit n d'. reap_stmt (reap_confirmed cid keep threshold limit) d = Inr (n, d')
        \<longrightarrow> eb_inv env cfg a c d' \<and> eb_frame a c d d')
    \<and> (\<forall>cid threshold n d'. reap_stmt (\<lambda>d. reap_fatal cid threshold) d = Inr (n, d')
        \<longrightarrow> eb_inv env cfg a c d' \<and> eb_frame a c d d')
    \<and> (\<forall>cid addr. tables_ok (abandon_update cid addr d) \<longrightarrow> eb_inv env cfg a c (abandon_update cid addr d))"
proof (intro conjI allI impI)
  fix cid addr dest v gasLimit now etx d'
  assume i: "insert_tx (unstarted_tx addr dest [] v gasLimit now cid) d = Inr (etx, d')"
  have t: "TxState (unstarted_tx addr dest [] v gasLimit now cid) = EthTxUnstarted"
    "Nonce (unstarted_tx addr dest [] v gasLimit now cid) = None" by (simp_all add: unstarted_tx_def)
  show "eb_inv env cfg a c d'" "eb_frame a c d d'" using insert_tx_ok [OF I i t] by simp_all
next
  fix cid keep threshold limit n d'
  assume "reap_stmt (reap_confirmed cid keep threshold limit) d = Inr (n, d')"
  from reap_stmt_ok [OF I this] show "eb_inv env cfg a c d'" "eb_frame a c d d'" by (auto simp: reap_confirmed_def)
next
  fix cid threshold n d'
  assume "reap_stmt (\<lambda>d. reap_fatal cid threshold) d = Inr (n, d')"
  from reap_stmt_ok [OF I this] show "eb_inv env cfg a c d'" "eb_frame a c d d'" by (auto simp: reap_fatal_def)
qed (use create_body_ok [OF I] abandon_inv [OF I] in blast)+

section \<open>Creation\<close>

text \<open>The metadata of a forwarded transaction names the forwarder, not the destination it replaced.\<close>

lemma forwarder_hides_destination:
  assumes "EvmUseForwarders cfg" "ForwarderAddress newTx \<noteq> 0"
    and "getForwardedPayload (NewToAddress newTx) (NewEncodedPayload newTx) = Some p"
  shows "map_option MetaFwdrDestAddress (NewMeta (forwarded cfg getForwardedPayload newTx))
    = Some (Some (ForwarderAddress newTx))"
  using assms by (cases "NewMeta newTx") (simp_all add: forwarded_def Let_def)

lemma PruneQueue_keeps_newest:
  assumes "PruneQueue st d = Inr (k, d')" "t \<in> set (eth_txes d)" "\<forall>u\<in>set (eth_txes d). TxID u \<le> TxID t"
  shows "t \<in> set (eth_txes d')"
proof (cases st)
  case (DropOldestStrategy s n)
  have "\<not> TxID t < m" if "oldest_kept s n d = Some m" for m
  proof -
    have "m \<in> TxID ` set (unstarted_of_subject s d)"
    proof -
      have "take n (sort_by (\<ge>) (map TxID (unstarted_of_subject s d))) \<noteq> []"
        "m = last (take n (sort_by (\<ge>) (map TxID (unstarted_of_subject s d))))"
        using that by (auto simp: oldest_kept_def Let_def split: if_splits)
      then have "m \<in> set (sort_by (\<ge>) (map TxID (unstarted_of_subject s d)))" by (metis in_set_takeD last_in_set)
      then show ?thesis by simp
    qed
    then show ?thesis using assms(3) by (auto simp: unstarted_of_subject_def)
  qed
  then show ?thesis
    using assms(1,2) by (auto simp: DropOldestStrategy Let_def try_bind_Inr checked_Inr delete_txes_def
        split: option.splits)
qed (use assms in simp)

lemma run_unique:
  assumes "tables_ok d" "t \<in> set (eth_txes d)" "u \<in> set (eth_txes d)" "PipelineTaskRunID t = Some r" "PipelineTaskRunID u = Some r"
  shows "t = u"
proof -
  have "unique_rows (\<lambda>t. PipelineTaskRunID t \<noteq> None) PipelineTaskRunID (eth_txes d)"
    using assms(1) by (simp add: tables_ok_def schema_ok_def eth_txes_ok_def)
  then show ?thesis using unique_rowsD assms(2-5) by fastforce
qed

lemma manager_beside_broadcaster_witness:
  "\<exists>etx d'. insert_tx (unstarted_tx 5 6 [] 3 21000 100 1) ex_db = Inr (etx, d') \<and> TxID etx = 2
     \<and> eb_inv ex_env ex_cfg 5 1 d' \<and> eb_frame 5 1 ex_db d'"
proof -
  have "case insert_tx (unstarted_tx 5 6 [] 3 21000 100 1) ex_db of Inl e \<Rightarrow> False | Inr (etx, d') \<Rightarrow> TxID etx = 2"
    by code_simp
  then obtain etx d' where "insert_tx (unstarted_tx 5 6 [] 3 21000 100 1) ex_db = Inr (etx, d')" "TxID etx = 2"
    by (auto split: sum.splits prod.splits)
  moreover have "eb_inv ex_env ex_cfg 5 1 d' \<and> eb_frame 5 1 ex_db d'"
    if "insert_tx (unstarted_tx 5 6 [] 3 21000 100 1) ex_db = Inr (etx, d')" for etx d'
    using conjunct1 [OF conjunct2 [OF manager_beside_broadcaster [OF ex_db_inv [of ex_env ex_cfg]]]] that by blast
  ultimately show ?thesis by blast
qed

definition ex_new :: NewTx where
  "ex_new =
     \<lparr>NewFromAddress = 5, NewToAddress = 6, NewEncodedPayload = [1, 2], NewGasLimit = 21000, NewMeta = None,
      ForwarderAddress = 0, NewMinConfirmations = None, NewPipelineTaskRunID = Some 3,
      Strategy = DropOldestStrategy 9 1, NewChecker = []\<rparr>"

lemma Transaction_alone:
  assumes "\<forall>t\<in>set (script w). others t = id" "Transaction body w = (res, w1)"
  shows "(\<forall>t\<in>set (script w1). others t = id)
    \<and> (db w1 = db w \<and> (\<forall>x. res \<noteq> Inr x) \<or> (\<exists>x. body (db w) = Inr (x, db w1)))"
  using assms by (cases "script w") (auto simp: Transaction_def split: db_answer.splits sum.splits)

lemma CheckEthTxQueueCapacity_alone:
  assumes "\<forall>t\<in>set (script w). others t = id" "CheckEthTxQueueCapacity a m cid w = (e, w1)"
  shows "db w1 = db w \<and> (\<forall>t\<in>set (script w1). others t = id)"
    and "2 \<le> length (script w) \<Longrightarrow> \<forall>t\<in>set (script w). answer t = Commit \<Longrightarrow>
      script w1 \<noteq> [] \<and> (\<forall>t\<in>set (script w1). answer t = Commit)
      \<and> e = (if 0 < m \<and> m \<le> countTransactionsWithState a EthTxUnstarted cid (db w)
             then Some (InvariantViolation ''too many unstarted transactions in the queue'') else None)"
  using assms
  by (cases "script w"; cases "script w = [] \<or> answer (hd (script w)) \<noteq> Commit";
      auto simp: CheckEthTxQueueCapacity_def Select_def split: if_splits db_answer.splits)+

lemma forwarded_same [simp]:
  "NewPipelineTaskRunID (forwarded cfg f newTx) = NewPipelineTaskRunID newTx"
  "NewFromAddress (forwarded cfg f newTx) = NewFromAddress newTx"
  by (auto simp: forwarded_def Let_def split: option.splits)

lemma create_body_stores:
  assumes "tables_ok d" "ids_ok d" "NewPipelineTaskRunID newTx = Some run" "create_body marshal cid now newTx d = Inr (etx, d1)"
  shows "etx \<in> set (eth_txes d1) \<and> PipelineTaskRunID etx = Some run \<and> TxChainID etx = cid"
proof -
  let ?hit = "\<lambda>t. PipelineTaskRunID t = Some run \<and> TxChainID t = cid"
  show ?thesis
  proof (cases "find ?hit (eth_txes d)")
    case (Some t)
    then have "etx = t" "d1 = d" using assms(3,4) by (simp_all add: create_body_def)
    then show ?thesis using Some by (auto simp: find_Some_iff)
  next
    case None
    define t0 where "t0 = (unstarted_tx (NewFromAddress newTx) (NewToAddress newTx) (NewEncodedPayload newTx) 0
        (NewGasLimit newTx) now cid)\<lparr>Meta := map_option marshal (NewMeta newTx), Subject := strategy_Subject (Strategy newTx),
          MinConfirmations := NewMinConfirmations newTx, PipelineTaskRunID := NewPipelineTaskRunID newTx,
          TransmitChecker := Some (NewChecker newTx)\<rparr>"
    obtain d' k where i: "insert_tx t0 d = Inr (etx, d')" and p: "PruneQueue (Strategy newTx) d' = Inr (k, d1)"
      using assms(3,4) None by (auto simp: create_body_def try_bind_Inr t0_def)
    have row: "etx = t0\<lparr>TxID := eth_txes_id_seq d\<rparr>" and d': "eth_txes d' = eth_txes d @ [etx]"
      using i by (auto simp: insert_tx_Inr)
    have "\<forall>u\<in>set (eth_txes d'). TxID u \<le> TxID etx"
      using assms(2) d' row by (auto simp: ids_ok_def intro: less_imp_le)
    then have "etx \<in> set (eth_txes d1)" using PruneQueue_keeps_newest [OF p] d' by simp
    then show ?thesis using row assms(3) by (simp add: t0_def unstarted_tx_def)
  qed
qed

lemma create_body_found:
  assumes "tables_ok d" "NewPipelineTaskRunID newTx = Some run"
    and "t \<in> set (eth_txes d)" "PipelineTaskRunID t = Some run" "TxChainID t = cid"
  shows "create_body marshal cid now newTx d = Inr (t, d)"
proof -
  let ?hit = "\<lambda>t. PipelineTaskRunID t = Some run \<and> TxChainID t = cid"
  obtain u where u: "find ?hit (eth_txes d) = Some u"
    using assms(3-5) by (metis (mono_tags, lifting) find_None_iff not_Some_eq)
  then have "u \<in> set (eth_txes d)" "PipelineTaskRunID u = Some run" by (auto simp: find_Some_iff)
  then have "u = t" using run_unique [OF assms(1)] assms(3,4) by blast
  then show ?thesis using u assms(2) by (simp add: create_body_def)
qed

text \<open>C33: a task run gets one transaction on the chain. With nobody else writing meanwhile, a transaction that
  \<open>CreateEthTransaction\<close> returns for a task run is stored, as the task run's, with the queue pruned or not.
  For a task run that already has a transaction it changes nothing and returns no other; if the database answers and the
  key may send, it returns that transaction, unless the queue of the address is full: then it is an error although there is
  nothing to be created, because the capacity of the queue is checked first.\<close>

theorem create_once_per_run:
  assumes alone: "\<forall>t\<in>set (script w). others t = id" and ok: "tables_ok (db w)" "ids_ok (db w)"
    and run: "NewPipelineTaskRunID newTx = Some run"
    and r: "CreateEthTransaction cfg ks marshal getForwardedPayload cid now newTx w = (res :: 'e tx_error + EthTx, w1)"
  shows "(\<forall>etx. res = Inr etx \<longrightarrow> etx \<in> set (eth_txes (db w1)) \<and> PipelineTaskRunID etx = Some run \<and> TxChainID etx = cid)
    \<and> (\<forall>t\<in>set (eth_txes (db w)). PipelineTaskRunID t = Some run \<and> TxChainID t = cid \<longrightarrow>
         db w1 = db w \<and> (\<forall>etx. res = Inr etx \<longrightarrow> etx = t)
         \<and> (KeyExists ks (NewFromAddress newTx) \<and> mem_ok ks (NewFromAddress newTx) cid
            \<and> 2 \<le> length (script w) \<and> (\<forall>t\<in>set (script w). answer t = Commit) \<longrightarrow>
              res = (if 0 < EvmMaxQueuedTransactions cfg \<and> EvmMaxQueuedTransactions cfg
                         \<le> countTransactionsWithState (NewFromAddress newTx) EthTxUnstarted cid (db w)
                     then Inl (InvariantViolation ''too many unstarted transactions in the queue'') else Inr t)))"
proof (cases "KeyExists ks (NewFromAddress newTx) \<and> mem_ok ks (NewFromAddress newTx) cid")
  case True
  let ?new = "forwarded cfg getForwardedPayload newTx"
  obtain e :: "'e tx_error option" and w2 where q: "CheckEthTxQueueCapacity (NewFromAddress newTx) (EvmMaxQueuedTransactions cfg) cid w = (e, w2)"
    by (metis prod.collapse)
  note q_alone = CheckEthTxQueueCapacity_alone [OF alone q]
  obtain tres w3 where t: "Transaction (create_body marshal cid now ?new) w2 = (tres, w3)" by (metis prod.collapse)
  have res: "(res, w1) = (case e of Some ce \<Rightarrow> (Inl ce, w2)
      | None \<Rightarrow> (case tres of Inl se \<Rightarrow> (Inl (SqlErr se), w3) | Inr etx \<Rightarrow> (Inr etx, w3)))"
    using r True q t by (auto simp: CreateEthTransaction_def Let_def split: option.splits sum.splits)
  have t_alone: "db w3 = db w \<and> (\<forall>x. tres \<noteq> Inr x) \<or> (\<exists>x. create_body marshal cid now ?new (db w) = Inr (x, db w3))"
    using Transaction_alone [OF _ t] q_alone(1) by auto
  have tres: "create_body marshal cid now ?new (db w) = Inr (x, db w3)" if "tres = Inr x" for x
    using t that q_alone(1) by (cases "script w2") (auto simp: Transaction_def split: db_answer.splits sum.splits)
  have run': "NewPipelineTaskRunID ?new = Some run" using run by simp
  have stored: "etx \<in> set (eth_txes (db w1)) \<and> PipelineTaskRunID etx = Some run \<and> TxChainID etx = cid" if "res = Inr etx" for etx
    using create_body_stores [OF ok run' tres] res that by (auto split: option.splits sum.splits)
  have found: "db w1 = db w \<and> (\<forall>etx. res = Inr etx \<longrightarrow> etx = u)
      \<and> (2 \<le> length (script w) \<and> (\<forall>t\<in>set (script w). answer t = Commit) \<longrightarrow>
              res = (if 0 < EvmMaxQueuedTransactions cfg \<and> EvmMaxQueuedTransactions cfg
                         \<le> countTransactionsWithState (NewFromAddress newTx) EthTxUnstarted cid (db w)
                     then Inl (InvariantViolation ''too many unstarted transactions in the queue'') else Inr u))"
    if u: "u \<in> set (eth_txes (db w))" "PipelineTaskRunID u = Some run" "TxChainID u = cid" for u
  proof -
    note body = create_body_found [OF ok(1) run' u, of marshal now]
    have "db w3 = db w" using t_alone body by auto
    then have "db w1 = db w" using res q_alone(1) by (auto split: option.splits sum.splits)
    moreover have "etx = u" if "res = Inr etx" for etx
      using res that tres body by (auto split: option.splits sum.splits)
    moreover have "tres = Inr u" if "script w2 \<noteq> []" "\<forall>t\<in>set (script w2). answer t = Commit"
      using t that q_alone(1) body by (cases "script w2") (auto simp: Transaction_def)
    then have "res = (if 0 < EvmMaxQueuedTransactions cfg \<and> EvmMaxQueuedTransactions cfg
                         \<le> countTransactionsWithState (NewFromAddress newTx) EthTxUnstarted cid (db w)
                     then Inl (InvariantViolation ''too many unstarted transactions in the queue'') else Inr u)"
      if "2 \<le> length (script w)" "\<forall>t\<in>set (script w). answer t = Commit"
      using res q_alone(2) [OF that] by (auto split: if_splits)
    ultimately show ?thesis by blast
  qed
  show ?thesis using stored found by blast
next
  case False
  then have "db w1 = db w" "\<forall>etx. res \<noteq> Inr etx" using r by (auto simp: CreateEthTransaction_def)
  then show ?thesis using False by blast
qed

text \<open>A task run with a transaction: asked for again, with room in the queue and without.\<close>

definition ex_run_tx :: EthTx where
  "ex_run_tx = (unstarted_tx 5 6 [] 0 21000 1600000000 1)\<lparr>TxID := 1, PipelineTaskRunID := Some 3\<rparr>"

definition ex_create :: "nat \<Rightarrow> (string tx_error + EthTx) \<times> txworld" where
  "ex_create maxQueued =
     CreateEthTransaction (ex_cfg\<lparr>EvmMaxQueuedTransactions := maxQueued\<rparr>) ex_ks (\<lambda>m. []) (\<lambda>a p. None) 1 200 ex_new
       (ex_world (ex_db\<lparr>eth_txes := [ex_run_tx]\<rparr>) 2)"

lemma create_once_per_run_witness:
  "fst (ex_create 250) = Inr ex_run_tx
   \<and> fst (ex_create 1) = Inl (InvariantViolation ''too many unstarted transactions in the queue'')
   \<and> eth_txes (db (snd (ex_create 250))) = [ex_run_tx] \<and> eth_txes (db (snd (ex_create 1))) = [ex_run_tx]"
proof -
  let ?d = "ex_db\<lparr>eth_txes := [ex_run_tx]\<rparr>"
  let ?w = "ex_world ?d 2"
  have d: "tables_ok ?d" "ids_ok ?d"
    by (simp_all add: tables_ok_defs ids_ok_def ex_db_def ex_run_tx_def unstarted_tx_def)
  have w: "\<forall>t\<in>set (script ?w). others t = id" "tables_ok (db ?w)" "ids_ok (db ?w)" "\<forall>t\<in>set (script ?w). answer t = Commit"
    "2 \<le> length (script ?w)" "ex_run_tx \<in> set (eth_txes (db ?w))" using d by (simp_all add: ex_world_def)
  have t: "PipelineTaskRunID ex_run_tx = Some 3" "TxChainID ex_run_tx = 1"
    by (simp_all add: ex_run_tx_def unstarted_tx_def)
  have new: "NewPipelineTaskRunID ex_new = Some 3" "KeyExists ex_ks (NewFromAddress ex_new)" "mem_ok ex_ks (NewFromAddress ex_new) 1"
    by (simp_all add: ex_new_def ex_ks_def mem_ok_def)
  have count: "countTransactionsWithState (NewFromAddress ex_new) EthTxUnstarted 1 (db ?w) = 1"
    by (simp add: countTransactionsWithState_def with_state_def ex_new_def ex_world_def ex_run_tx_def unstarted_tx_def)
  have call: "fst (ex_create n) = (if 0 < n \<and> n \<le> 1
        then Inl (InvariantViolation ''too many unstarted transactions in the queue'') else Inr ex_run_tx)
      \<and> db (snd (ex_create n)) = ?d" for n
  proof -
    obtain res w1 where r: "ex_create n = (res, w1)" by (metis prod.collapse)
    note c = mp [OF bspec [OF conjunct2 [OF create_once_per_run [OF w(1-3) new(1) r [unfolded ex_create_def]]] w(6)] conjI [OF t]]
    have max: "EvmMaxQueuedTransactions (ex_cfg\<lparr>EvmMaxQueuedTransactions := n\<rparr>) = n" by simp
    have "res = (if 0 < n \<and> n \<le> 1
        then Inl (InvariantViolation ''too many unstarted transactions in the queue'') else Inr ex_run_tx)"
      by (rule mp [OF conjunct2 [OF conjunct2 [OF c]], unfolded max count]) (intro conjI new w)
    moreover have "db w1 = ?d" using conjunct1 [OF c] by (simp only: ex_world_def world.simps)
    ultimately show ?thesis unfolding r by (simp only: fst_conv snd_conv simp_thms)
  qed
  have "eth_txes ?d = [ex_run_tx]" by simp
  then show ?thesis using call [of 250] call [of 1] by (simp del: One_nat_def)
qed

section \<open>Reaper\<close>

definition reapable :: "int \<Rightarrow> int \<Rightarrow> int \<Rightarrow> txdb \<Rightarrow> EthTx \<Rightarrow> bool" where
  "reapable cid keep threshold d t \<longleftrightarrow>
     TxChainID t = cid \<and> CreatedAt t < threshold
     \<and> (TxState t = EthTxFatalError
        \<or> TxState t = EthTxConfirmed
          \<and> (\<exists>x\<in>set (eth_tx_attempts d). \<exists>r\<in>set (eth_receipts d). EthTxID x = TxID t
               \<and> ReceiptTxHash r = AttemptHash x \<and> ReceiptBlockNumber r < keep))"

definition reaps_only :: "(txdb \<Rightarrow> EthTx \<Rightarrow> bool) \<Rightarrow> txdb \<Rightarrow> txdb \<Rightarrow> bool" where
  "reaps_only P d d' \<longleftrightarrow>
     set (eth_txes d') \<subseteq> set (eth_txes d) \<and> (\<forall>t\<in>set (eth_txes d) - set (eth_txes d'). P d t)
     \<and> set (eth_tx_attempts d') \<subseteq> set (eth_tx_attempts d) \<and> set (eth_receipts d') \<subseteq> set (eth_receipts d)
     \<and> evm_key_states d' = evm_key_states d"

lemma reap_stmt_only:
  assumes "reap_stmt doomed d = Inr (n, d')" "\<And>t. t \<in> set (eth_txes d) \<Longrightarrow> doomed d t \<Longrightarrow> P d t"
  shows "reaps_only P d d'"
proof -
  have "d' = delete_txes (doomed d) d" using assms(1) by (auto simp: reap_stmt_def try_bind_Inr checked_Inr)
  then show ?thesis using assms(2) by (auto simp: reaps_only_def delete_txes_def delete_attempts_def)
qed

lemma reaps_only_trans:
  assumes "reaps_only (reapable cid keep th) d d1" "reaps_only (reapable cid keep th) d1 d2"
  shows "reaps_only (reapable cid keep th) d d2"
proof -
  have sub: "set (eth_txes d1) \<subseteq> set (eth_txes d)" "set (eth_tx_attempts d1) \<subseteq> set (eth_tx_attempts d)"
    "set (eth_receipts d1) \<subseteq> set (eth_receipts d)" using assms(1) by (simp_all add: reaps_only_def)
  have "reapable cid keep th d t" if "reapable cid keep th d1 t" for t
    using that sub unfolding reapable_def by blast
  then show ?thesis using assms by (auto simp: reaps_only_def)
qed

lemma reaps_only_refl: "reaps_only P d d"
  by (simp add: reaps_only_def)

lemma Batch_only:
  assumes "\<And>d n d'. stmt d = Inr (n, d') \<Longrightarrow> reaps_only (reapable cid keep th) d d'"
  shows "Batch limit stmt w = (e, w1) \<Longrightarrow> \<forall>t\<in>set (script w). others t = id
    \<Longrightarrow> reaps_only (reapable cid keep th) (db w) (db w1) \<and> (\<forall>t\<in>set (script w1). others t = id)"
proof (induction "length (script w)" arbitrary: w rule: less_induct)
  case less
  obtain res w2 where t: "Transaction stmt w = (res, w2)" by (cases "Transaction stmt w")
  note a = Transaction_alone [OF less.prems(2) t]
  have step: "reaps_only (reapable cid keep th) (db w) (db w2)" using a assms reaps_only_refl by metis
  show ?case
  proof (cases "\<exists>n. res = Inr n \<and> \<not> n < limit")
    case True
    then have "Batch limit stmt w2 = (e, w1)" "length (script w2) < length (script w)"
      using less.prems(1) t Transaction_Inr_script by (auto simp: Batch.simps [of limit stmt w])
    then show ?thesis using less.hyps [of w2] a step reaps_only_trans by metis
  next
    case False
    then have "w1 = w2" using less.prems(1) t by (auto simp: Batch.simps [of limit stmt w] split: sum.splits if_splits)
    then show ?thesis using step a by simp
  qed
qed

text \<open>a run of the reaper deletes only transactions of its chain older than the threshold that are
  fatally errored, or confirmed with a receipt below the finality depth, and leaves the keys alone.\<close>

theorem reaper_keeps_recent:
  assumes "\<forall>t\<in>set (script w). others t = id"
    and "ReapEthTxes batchSize cfg cid threshold now headNum w = (e :: 'e tx_error option, w1)"
  shows "reaps_only (reapable cid (wrap64 (headNum - int (EvmFinalityDepth cfg))) (now - threshold)) (db w) (db w1)"
proof (cases "threshold = 0")
  case True
  then show ?thesis using assms(2) reaps_only_refl by (simp add: ReapEthTxes_def)
next
  case False
  define keep where "keep = wrap64 (headNum - int (EvmFinalityDepth cfg))"
  define th where "th = now - threshold"
  let ?P = "reapable cid keep th"
  have old: "r \<in> set (eth_receipts d) \<and> ReceiptBlockNumber r < keep" if "r \<in> set (old_enough_receipts keep n d)" for r n d
    using in_set_takeD [OF that [unfolded old_enough_receipts_def]] by auto
  have 1: "reaps_only ?P d d'" if "reap_stmt (reap_confirmed cid keep th batchSize) d = Inr (n, d')" for d n d'
    by (rule reap_stmt_only [OF that]) (auto simp: reap_confirmed_def reapable_def list_ex_iff dest!: old, metis)
  have 2: "reaps_only ?P d d'" if "reap_stmt (\<lambda>d. reap_fatal cid th) d = Inr (n, d')" for d n d'
    by (rule reap_stmt_only [OF that]) (simp add: reap_fatal_def reapable_def)
  obtain e1 w2 where b1: "Batch batchSize (reap_stmt (reap_confirmed cid keep th batchSize)) w = (e1, w2)"
    by (cases "Batch batchSize (reap_stmt (reap_confirmed cid keep th batchSize)) w")
  obtain e2 w3 where b2: "Batch batchSize (reap_stmt (\<lambda>d. reap_fatal cid th)) w2 = (e2, w3)"
    by (cases "Batch batchSize (reap_stmt (\<lambda>d. reap_fatal cid th)) w2")
  have r1: "reaps_only ?P (db w) (db w2)" "\<forall>t\<in>set (script w2). others t = id"
    using Batch_only [OF 1 b1 assms(1)] by simp_all
  then have r2: "reaps_only ?P (db w2) (db w3)" using Batch_only [OF 2 b2] by simp
  have "w1 = w2 \<or> w1 = w3"
    using assms(2) False b1 b2
    by (auto simp: ReapEthTxes_def Let_def keep_def [symmetric] th_def [symmetric] split: option.splits)
  then show ?thesis using r1(1) r2 reaps_only_trans by (auto simp: keep_def th_def)
qed

text \<open>An old fatally errored transaction and a recent one.\<close>

definition ex_reap_db :: txdb where
  "ex_reap_db = ex_db\<lparr>eth_txes :=
     [(unstarted_tx 5 6 [] 0 21000 100 1)\<lparr>TxID := 1, TxState := EthTxFatalError, TxError := Some ''e''\<rparr>,
      (unstarted_tx 5 6 [] 0 21000 190 1)\<lparr>TxID := 2, TxState := EthTxFatalError, TxError := Some ''e''\<rparr>],
     eth_txes_id_seq := 3\<rparr>"

lemma reaper_keeps_recent_witness:
  "map TxID (eth_txes (db (snd (ReapEthTxes 10 ex_cfg 1 50 200 60 (ex_world ex_reap_db 4)
       :: string tx_error option \<times> txworld)))) = [2]
     \<and> reaps_only (reapable 1 10 150) ex_reap_db
         (db (snd (ReapEthTxes 10 ex_cfg 1 50 200 60 (ex_world ex_reap_db 4) :: string tx_error option \<times> txworld)))"
proof -
  let ?r = "ReapEthTxes 10 ex_cfg 1 50 200 60 (ex_world ex_reap_db 4) :: string tx_error option \<times> txworld"
  have "?r = (fst ?r, snd ?r)" by simp
  moreover have "\<forall>t\<in>set (script (ex_world ex_reap_db 4)). others t = id" by (simp add: ex_world_def)
  ultimately have "reaps_only (reapable 1 (wrap64 (60 - int (EvmFinalityDepth ex_cfg))) (200 - 50))
      (db (ex_world ex_reap_db 4)) (db (snd ?r))"
    using reaper_keeps_recent by blast
  moreover have "map TxID (eth_txes (db (snd ?r))) = [2]" by code_simp
  moreover have "wrap64 (60 - int (EvmFinalityDepth ex_cfg)) = 10"
    by (simp add: ex_cfg_def Config.defs wrap64_def)
  ultimately show ?thesis by (simp add: ex_world_def)
qed

end
