(* ===== verification/TxConfirmerTheorems.thy ===== *)
theory TxConfirmerTheorems
  imports TxConfirmed TxTheorems
begin

text \<open>
  What the confirmer promises: it never disturbs a broadcaster, what counts as confirmed is on the chain,
  what is sent again is bounded and in order, receipts confirm; and two ways in which it goes wrong.
\<close>

declare receipt_on_chain.simps [code] EarliestInChain.simps [code]

section \<open>An example\<close>

text \<open>Two confirmed transactions of a key, the second with its receipt in a block that is not on the chain.\<close>

definition conf_tx :: "nat \<Rightarrow> int \<Rightarrow> EthTxState \<Rightarrow> EthTx" where
  "conf_tx i n st =
     (unstarted_tx 5 6 [] 0 21000 1600000000 1)
       \<lparr>TxID := i, Nonce := Some n, TxState := st, BroadcastAt := Some 1600000000,
        InitialBroadcastAt := Some 1600000000\<rparr>"

definition conf_attempt :: "nat \<Rightarrow> EthTxAttemptState \<Rightarrow> int option \<Rightarrow> EthTxAttempt" where
  "conf_attempt i st b =
     \<lparr>AttemptID = i, EthTxID = i, GasPrice = Some 50, GasTipCap = None, GasFeeCap = None,
      ChainSpecificGasLimit = 21000, SignedRawTx = [1], AttemptHash = 70 + i, BroadcastBeforeBlockNum = b,
      AttemptState = st, TxType = 0\<rparr>"

definition conf_receipt :: "nat \<Rightarrow> nat \<Rightarrow> int \<Rightarrow> EthReceipt" where
  "conf_receipt i h n =
     \<lparr>ReceiptID = i, ReceiptTxHash = 70 + i, ReceiptBlockHash = h, ReceiptBlockNumber = n, TransactionIndex = 0,
      ReceiptStatus = 1\<rparr>"

definition conf_db :: txdb where
  "conf_db =
     \<lparr>eth_txes = [conf_tx 1 5 EthTxConfirmed, conf_tx 2 6 EthTxConfirmed],
      eth_tx_attempts = [conf_attempt 1 EthTxAttemptBroadcast (Some 9), conf_attempt 2 EthTxAttemptBroadcast (Some 9)],
      eth_receipts = [conf_receipt 1 900 10, conf_receipt 2 801 9],
      evm_key_states = [\<lparr>KeyAddress = 5, KeyChainID = 1, NextNonce = 7, Disabled = False\<rparr>],
      eth_txes_id_seq = 3, eth_tx_attempts_id_seq = 3, eth_receipts_id_seq = 3\<rparr>"

definition ex_head :: head_ptr where
  "ex_head =
     \<lparr>gen = \<lparr>copy = (\<lambda>h. if h = 900 then Some (NewHead 10 900 899 None) else if h = 899 then Some (NewHead 9 899 898 None) else None),
            Parent = (\<lambda>h. if h = 900 then Some 899 else None)\<rparr>, ref = 900\<rparr>"

definition ex_head_turn :: "string head_turn" where
  "ex_head_turn =
     \<lparr>MissingReceiptSender = (\<lambda>hs. (False, \<lambda>h. None)), HeadClock = 1600000100,
      ReceiptSource = \<lparr>NonceAt = (\<lambda>a. Some 7), BatchCall = (\<lambda>hs. Some (\<lambda>h. NoReceipt))\<rparr>, AddressOrder = id,
      Leftovers = (\<lambda>i. []), Bumps = (\<lambda>i. (ex_round, [])), Reorged = (\<lambda>i. [(1600000200, ex_round)]),
      Suspended = (\<lambda>i. False), Callback = (\<lambda>i. True)\<rparr>"

lemma conf_db_inv: "eb_inv env cfg 5 1 conf_db"
  by (simp add: eb_inv_def tables_ok_defs ids_ok_def nonces_ok_def sending_ok_def queue_ok_def conf_db_def
      conf_tx_def conf_attempt_def conf_receipt_def unstarted_tx_def in_progress_of_def attempts_of_def nonce_ok_def
      key_nonce_def find_key_def)

lemma conf_db_ok: "tables_ok conf_db"
  using conf_db_inv [of ex_env ex_cfg] by (simp add: eb_inv_def)

lemma conf_db_numbered: "attempts_numbered conf_db"
  by (simp add: attempts_numbered_def conf_db_def conf_attempt_def)

definition ex_head_run :: "(string tx_error list \<times> string option \<times> (nat \<times> EthReceipt option) list \<times> txworld) option" where
  "ex_head_run = processHead ex_env ex_cfg 1 [5] ex_head_turn ex_head (ex_world conf_db 40)"

section \<open>A head, beside the broadcaster\<close>

interpretation cf: confirmer_invariant env cfg a c "\<lambda>d. eb_inv env cfg a c d \<and> attempts_numbered d" for env cfg a c
  by unfold_locales (auto simp: keeps_broadcasting_def)

interpretation cf_alone: confirmer_invariant env cfg a c
  "\<lambda>d. eb_inv env cfg a c d \<and> attempts_numbered d \<and> eb_frame a c d0 d" for env cfg a c d0
  by unfold_locales (use eb_frame_trans in \<open>auto simp: keeps_broadcasting_def\<close>)

definition head_guarded :: "'e env \<Rightarrow> TxmConfig \<Rightarrow> nat \<Rightarrow> int \<Rightarrow> txworld \<Rightarrow> bool" where
  "head_guarded env cfg a c w \<longleftrightarrow>
     eb_inv env cfg a c (db w) \<and> attempts_numbered (db w)
     \<and> (\<forall>t\<in>set (script w). \<forall>d. eb_inv env cfg a c d \<and> attempts_numbered d
          \<longrightarrow> eb_inv env cfg a c (others t d) \<and> attempts_numbered (others t d) \<and> settle_frame d (others t d))"

definition undisturbed :: "'e env \<Rightarrow> TxmConfig \<Rightarrow> nat \<Rightarrow> int \<Rightarrow> txworld \<Rightarrow> txworld \<Rightarrow> bool" where
  "undisturbed env cfg a c w w1 \<longleftrightarrow>
     head_guarded env cfg a c w1
     \<and> ((\<forall>t\<in>set (script w). others t = id) \<longrightarrow> eb_frame a c (db w) (db w1))"

lemma head_guarded_cf: "head_guarded env cfg a c w \<longleftrightarrow> table_user.guarded (\<lambda>d. eb_inv env cfg a c d \<and> attempts_numbered d) settle_frame w"
  by (auto simp: head_guarded_def cf.guarded_def)

text \<open>A run that keeps every invariant of the locale leaves the broadcaster undisturbed.\<close>

lemma undisturbedI:
  assumes "head_guarded env cfg a c w"
    and "\<And>J. confirmer_invariant env cfg a c J \<Longrightarrow> table_user.guarded J settle_frame w \<Longrightarrow> table_user.guarded J settle_frame w1"
  shows "undisturbed env cfg a c w w1"
proof -
  have "table_user.guarded (\<lambda>d. eb_inv env cfg a c d \<and> attempts_numbered d) settle_frame w1"
    using assms(2) [OF cf.confirmer_invariant_axioms] assms(1) by (simp add: head_guarded_cf)
  moreover have "eb_frame a c (db w) (db w1)" if alone: "\<forall>t\<in>set (script w). others t = id"
  proof -
    have "table_user.guarded (\<lambda>d. eb_inv env cfg a c d \<and> attempts_numbered d \<and> eb_frame a c (db w) d) settle_frame w"
      using assms(1) alone eb.frame_refl by (auto simp: head_guarded_def cf_alone.guarded_def)
    then have "table_user.guarded (\<lambda>d. eb_inv env cfg a c d \<and> attempts_numbered d \<and> eb_frame a c (db w) d) settle_frame w1"
      by (rule assms(2) [OF cf_alone.confirmer_invariant_axioms])
    then show ?thesis by (simp add: cf_alone.guarded_def)
  qed
  ultimately show ?thesis by (simp add: undisturbed_def head_guarded_cf)
qed

text \<open>C9: while the confirmer handles a head, and while the resender sends again, whatever the node and
  the database answer, the invariant of a key's broadcaster is kept; as long as nobody else writes, what
  the broadcaster relies on is left alone.\<close>

theorem confirmer_beside_broadcaster:
  assumes "head_guarded env cfg a c w"
  shows "(\<forall>cid keys q head es stop calls w1.
        processHead env cfg cid keys q head w = Some (es, stop, calls, w1) \<longrightarrow> undisturbed env cfg a c w w1)
    \<and> (\<forall>cid age send now e w1. resendUnconfirmed env cfg cid age send now w = (e, w1) \<longrightarrow> undisturbed env cfg a c w w1)"
proof (intro conjI allI impI; rule undisturbedI [OF assms])
  fix cid keys q head es stop calls w1 J
  assume h: "processHead env cfg cid keys q head w = Some (es, stop, calls, w1)"
    and J: "confirmer_invariant env cfg a c J" "table_user.guarded J settle_frame w"
  show "table_user.guarded J settle_frame w1"
    using confirmer_invariant.passesD [OF J(1) confirmer_invariant.processHead_passes [OF J h]] by blast
next
  fix cid age send now e w1 J
  assume r: "resendUnconfirmed env cfg cid age send now w = (e, w1)"
    and J: "confirmer_invariant env cfg a c J" "table_user.guarded J settle_frame w"
  show "table_user.guarded J settle_frame w1"
    using confirmer_invariant.passesD [OF J(1) confirmer_invariant.resendUnconfirmed_passes [OF J r]] by blast
qed

lemma conf_guarded: "head_guarded env cfg 5 1 (ex_world conf_db n)"
  by (simp add: head_guarded_def ex_world_def conf_db_inv conf_db_numbered)

lemma confirmer_beside_broadcaster_witness:
  "\<exists>w1. ex_head_run = Some ([], None, [], w1) \<and> map fst (sent w1) = [2]
     \<and> undisturbed ex_env ex_cfg 5 1 (ex_world conf_db 40) w1"
proof -
  have "case ex_head_run of None \<Rightarrow> False | Some (es, stop, calls, w) \<Rightarrow> es = [] \<and> stop = None \<and> calls = [] \<and> map fst (sent w) = [2]"
    by code_simp
  then obtain w1 where w1: "ex_head_run = Some ([], None, [], w1)" "map fst (sent w1) = [2]"
    by (auto split: option.splits)
  have "undisturbed ex_env ex_cfg 5 1 (ex_world conf_db 40) w1"
    using conjunct1 [OF confirmer_beside_broadcaster [OF conf_guarded [of ex_env ex_cfg 40]], rule_format,
      OF w1(1) [unfolded ex_head_run_def]] .
  then show ?thesis using w1 by (intro exI [of _ w1]) simp
qed

section \<open>Re-organizations\<close>

text \<open>A transaction that has a receipt in one of the blocks, with the number of the block.\<close>

definition on_chain :: "(nat \<Rightarrow> int) \<Rightarrow> nat list \<Rightarrow> txdb \<Rightarrow> nat \<Rightarrow> bool" where
  "on_chain num hs d i \<longleftrightarrow>
     (\<exists>x\<in>set (eth_tx_attempts d). \<exists>r\<in>set (eth_receipts d).
        EthTxID x = i \<and> ReceiptTxHash r = AttemptHash x \<and> ReceiptBlockHash r \<in> set hs
        \<and> ReceiptBlockNumber r = num (ReceiptBlockHash r))"

lemma receipt_on_chain_chain:
  "chain_of par h hs \<Longrightarrow> receipt_on_chain num par rs h
     = Some (\<exists>r\<in>set rs. ReceiptBlockHash r \<in> set hs \<and> ReceiptBlockNumber r = num (ReceiptBlockHash r))"
proof (induction rule: chain_of.induct)
  case (chain_end h)
  then show ?case by (subst receipt_on_chain.simps) (auto simp: list_ex_iff)
next
  case (chain_more h p hs)
  then show ?case by (subst receipt_on_chain.simps) (auto simp: list_ex_iff)
qed

text \<open>What the loop knows of the items it has still to look at.\<close>

definition loaded_item :: "txdb \<Rightarrow> tx_receipts \<Rightarrow> bool" where
  "loaded_item d x \<longleftrightarrow>
     (\<forall>r\<in>set (receipts_of x). r \<in> set (eth_receipts d)
        \<and> (\<exists>y\<in>set (eth_tx_attempts d). EthTxID y = TxID (fst x) \<and> AttemptHash y = ReceiptTxHash r))"

lemma attempt_hash_unique:
  assumes "tables_ok d" "x \<in> set (eth_tx_attempts d)" "y \<in> set (eth_tx_attempts d)" "AttemptHash x = AttemptHash y"
  shows "x = y"
proof -
  have "unique_rows (\<lambda>a. True) AttemptHash (eth_tx_attempts d)"
    using assms(1) by (simp add: tables_ok_def schema_ok_def eth_tx_attempts_ok_def)
  then show ?thesis using assms(2-4) unique_rowsD [of "\<lambda>a. True" AttemptHash] by metis
qed

text \<open>What taking a transaction back does to the rows of the others.\<close>

lemma rebroadcast_others:
  assumes ok: "tables_ok d" and b: "rebroadcast_body t y d = Inr (u, d')"
  shows "tables_ok d'"
    and "\<And>i. i \<noteq> TxID t \<Longrightarrow> on_chain num hs d i \<Longrightarrow> on_chain num hs d' i"
    and "\<And>x. TxID (fst x) \<noteq> TxID t \<Longrightarrow> loaded_item d x \<Longrightarrow> loaded_item d' x"
    and "\<And>v. v \<in> set (confirmed_in_range hi lo cid d') \<Longrightarrow> TxID v \<noteq> TxID t \<and> v \<in> set (confirmed_in_range hi lo cid d)"
proof -
  let ?f = "\<lambda>x. if AttemptID x = AttemptID y
    then x\<lparr>BroadcastBeforeBlockNum := None, AttemptState := EthTxAttemptInProgress\<rparr> else x"
  have txes: "eth_txes d' = map (\<lambda>u. if TxID u = TxID t then u\<lparr>TxState := EthTxUnconfirmed\<rparr> else u) (eth_txes d)"
    and atts: "eth_tx_attempts d' = map ?f (eth_tx_attempts d)"
    and recs: "eth_receipts d' = filter (\<lambda>r. \<not> (\<exists>a\<in>set (eth_tx_attempts d). EthTxID a = TxID t \<and> AttemptHash a = ReceiptTxHash r)) (eth_receipts d)"
    and ok': "tables_ok d'"
    using b by (auto simp: rebroadcast_body_def try_bind_Inr checked_Inr unconfirmEthTx_def unbroadcastAttempt_def
      update_txes_def update_attempts_def update_where_def delete_all_receipts_def list_ex_iff split: if_splits)
  show "tables_ok d'" by (rule ok')
  have kept: "r \<in> set (eth_receipts d')"
    if "r \<in> set (eth_receipts d)" "x \<in> set (eth_tx_attempts d)" "EthTxID x \<noteq> TxID t" "ReceiptTxHash r = AttemptHash x" for r x
    using that attempt_hash_unique [OF ok that(2)] unfolding recs set_filter mem_Collect_eq by metis
  have same: "EthTxID (?f x) = EthTxID x \<and> AttemptHash (?f x) = AttemptHash x" for x by simp
  show "on_chain num hs d' i" if i: "i \<noteq> TxID t" and c: "on_chain num hs d i" for i
  proof -
    obtain x r where x: "x \<in> set (eth_tx_attempts d)" "r \<in> set (eth_receipts d)" "EthTxID x = i"
      "ReceiptTxHash r = AttemptHash x" "ReceiptBlockHash r \<in> set hs" "ReceiptBlockNumber r = num (ReceiptBlockHash r)"
      using c by (auto simp: on_chain_def)
    have "r \<in> set (eth_receipts d')" using kept [OF x(2,1)] x(3,4) i by simp
    moreover have "?f x \<in> set (eth_tx_attempts d')" using x(1) by (simp add: atts)
    moreover have "EthTxID (?f x) = i \<and> ReceiptTxHash r = AttemptHash (?f x)" using same x(3,4) by simp
    ultimately show ?thesis unfolding on_chain_def using x(5,6) by blast
  qed
  show "loaded_item d' x" if x: "TxID (fst x) \<noteq> TxID t" "loaded_item d x" for x
    unfolding loaded_item_def
  proof
    fix r assume "r \<in> set (receipts_of x)"
    then obtain y' where y': "r \<in> set (eth_receipts d)" "y' \<in> set (eth_tx_attempts d)" "EthTxID y' = TxID (fst x)"
      "AttemptHash y' = ReceiptTxHash r" using x(2) unfolding loaded_item_def by blast
    have "r \<in> set (eth_receipts d')" using kept [OF y'(1,2)] y'(3,4) x(1) by simp
    moreover have "?f y' \<in> set (eth_tx_attempts d')" using y'(2) by (simp add: atts)
    ultimately show "r \<in> set (eth_receipts d') \<and> (\<exists>y\<in>set (eth_tx_attempts d'). EthTxID y = TxID (fst x) \<and> AttemptHash y = ReceiptTxHash r)"
      using y'(3,4) same [of y'] by (intro conjI bexI [of _ "?f y'"]) simp_all
  qed
  fix v assume v: "v \<in> set (confirmed_in_range hi lo cid d')"
  then have st: "v \<in> set (eth_txes d')" "TxState v \<in> {EthTxConfirmed, EthTxConfirmedMissingReceipt}"
    by (auto simp: confirmed_in_range_def)
  then have "TxID v \<noteq> TxID t \<and> v \<in> set (eth_txes d)" by (auto simp: txes split: if_splits)
  moreover have "\<exists>x\<in>set (eth_tx_attempts d). EthTxID x = TxID v \<and> AttemptState x = EthTxAttemptBroadcast
      \<and> (\<exists>r\<in>set (eth_receipts d). ReceiptTxHash r = AttemptHash x \<and> lo \<le> ReceiptBlockNumber r \<and> ReceiptBlockNumber r \<le> hi)"
    using v by (auto simp: confirmed_in_range_def list_ex_iff atts recs split: if_splits)
  ultimately show "TxID v \<noteq> TxID t \<and> v \<in> set (confirmed_in_range hi lo cid d)"
    using v by (auto simp: confirmed_in_range_def list_ex_iff)
qed

lemma hasReceipt_chain:
  assumes "chain_of (Parent (gen head)) (ref head) hs"
  shows "hasReceiptInLongestChain x head = Some (\<exists>r\<in>set (receipts_of x). ReceiptBlockHash r \<in> set hs
    \<and> ReceiptBlockNumber r = block_number head (ReceiptBlockHash r))"
  unfolding hasReceiptInLongestChain_def by (rule receipt_on_chain_chain [OF assms])

lemma mark_reorged_on_chain:
  assumes ch: "chain_of (Parent (gen head)) (ref head) hs"
  shows "mark_reorged head xs w = Some (None :: 'e tx_error option, w1) \<Longrightarrow> \<forall>t\<in>set (script w). others t = id
    \<Longrightarrow> tables_ok (db w) \<Longrightarrow> distinct (map (\<lambda>x. TxID (fst x)) xs) \<Longrightarrow> \<forall>x\<in>set xs. loaded_item (db w) x
    \<Longrightarrow> \<forall>t\<in>set (confirmed_in_range hi lo cid (db w)).
         on_chain (block_number head) hs (db w) (TxID t) \<or> TxID t \<in> (\<lambda>x. TxID (fst x)) ` set xs
    \<Longrightarrow> \<forall>t\<in>set (confirmed_in_range hi lo cid (db w1)). on_chain (block_number head) hs (db w1) (TxID t)"
proof (induction xs arbitrary: w)
  case Nil
  then show ?case by simp
next
  case (Cons x xs)
  show ?case
  proof (cases "\<exists>r\<in>set (receipts_of x). ReceiptBlockHash r \<in> set hs \<and> ReceiptBlockNumber r = block_number head (ReceiptBlockHash r)")
    case True
    then have on: "on_chain (block_number head) hs (db w) (TxID (fst x))"
      using Cons.prems(5) by (fastforce simp: loaded_item_def on_chain_def)
    have "mark_reorged head xs w = Some (None :: 'e tx_error option, w1)" using Cons.prems(1) hasReceipt_chain [OF ch, of x] True by simp
    then show ?thesis
    proof (rule Cons.IH [OF _ Cons.prems(2,3)])
      show "\<forall>t\<in>set (confirmed_in_range hi lo cid (db w)).
          on_chain (block_number head) hs (db w) (TxID t) \<or> TxID t \<in> (\<lambda>x. TxID (fst x)) ` set xs"
        using Cons.prems(6) on by auto
    qed (use Cons.prems(4,5) in simp_all)
  next
    case False
    then have "hasReceiptInLongestChain x head = Some False" using hasReceipt_chain [OF ch, of x] by auto
    then obtain w2 where m: "markForRebroadcast x w = (None :: 'e tx_error option, w2)" and rest: "mark_reorged head xs w2 = Some (None :: 'e tx_error option, w1)"
      using Cons.prems(1) by (auto split: prod.splits option.splits)
    obtain y rs zs where y: "snd x = (y, rs) # zs"
      using m by (cases "snd x") (auto simp: markForRebroadcast_def)
    obtain res w' where t: "Transaction (rebroadcast_body (fst x) y) w = (res, w')" by (metis prod.collapse)
    have w2: "w' = w2" "\<exists>u. res = Inr u" using m y t by (auto simp: markForRebroadcast_def split: sum.splits)
    have alone: "\<forall>t\<in>set (script w2). others t = id"
      and body: "\<exists>u. rebroadcast_body (fst x) y (db w) = Inr (u, db w2)"
      using Transaction_alone [OF Cons.prems(2) t] w2 by auto
    then obtain u where b: "rebroadcast_body (fst x) y (db w) = Inr (u, db w2)" by blast
    note o = rebroadcast_others [OF Cons.prems(3) b]
    show ?thesis
    proof (rule Cons.IH [OF rest alone o(1)])
      show "distinct (map (\<lambda>x. TxID (fst x)) xs)" using Cons.prems(4) by simp
      show "\<forall>x\<in>set xs. loaded_item (db w2) x"
      proof
        fix z assume "z \<in> set xs"
        then have "TxID (fst z) \<in> set (map (\<lambda>x. TxID (fst x)) xs)" "loaded_item (db w) z" using Cons.prems(5) by simp_all
        moreover have "TxID (fst x) \<notin> set (map (\<lambda>x. TxID (fst x)) xs)" using Cons.prems(4) by simp
        ultimately have "TxID (fst z) \<noteq> TxID (fst x)" "loaded_item (db w) z" by metis+
        then show "loaded_item (db w2) z" by (rule o(3))
      qed
      show "\<forall>t\<in>set (confirmed_in_range hi lo cid (db w2)).
          on_chain (block_number head) hs (db w2) (TxID t) \<or> TxID t \<in> (\<lambda>x. TxID (fst x)) ` set xs"
      proof
        fix t assume "t \<in> set (confirmed_in_range hi lo cid (db w2))"
        then have t: "TxID t \<noteq> TxID (fst x)" "t \<in> set (confirmed_in_range hi lo cid (db w))" using o(4) by blast+
        then have "on_chain (block_number head) hs (db w) (TxID t) \<or> TxID t \<in> (\<lambda>x. TxID (fst x)) ` set xs"
          using Cons.prems(6) by auto
        then show "on_chain (block_number head) hs (db w2) (TxID t) \<or> TxID t \<in> (\<lambda>x. TxID (fst x)) ` set xs"
          using o(2) [OF t(1)] by blast
      qed
    qed
  qed
qed

lemma Select_alone:
  assumes "\<forall>t\<in>set (script w). others t = id" "Select q w = (res, w1)"
  shows "(\<forall>t\<in>set (script w1). others t = id) \<and> db w1 = db w \<and> (\<forall>x. res = Inr x \<longrightarrow> x = q (db w))"
  using assms by (cases "script w") (auto simp: Select_def split: db_answer.splits)

lemma Select2_alone:
  assumes alone: "\<forall>t\<in>set (script w). others t = id" and r: "Select2 q1 q2 w = (res :: 'e tx_error + 'b, w2)"
  shows "(\<forall>t\<in>set (script w2). others t = id) \<and> db w2 = db w \<and> (\<forall>y. res = Inr y \<longrightarrow> y = q2 (q1 (db w)) (db w))"
proof -
  obtain r1 w1 where 1: "Select q1 w = (r1, w1)" by (metis prod.collapse)
  note a1 = Select_alone [OF alone 1]
  show ?thesis
  proof (cases r1)
    case (Inl e)
    then show ?thesis using r 1 a1 by (auto simp: Select2_def)
  next
    case (Inr x)
    obtain r2 w' where 2: "Select (q2 x) w1 = (r2, w')" by (metis prod.collapse)
    then show ?thesis
      using r 1 Inr a1 Select_alone [OF conjunct1 [OF a1] 2] by (auto simp: Select2_def split: sum.splits)
  qed
qed

lemma find_confirmed_alone:
  assumes alone: "\<forall>t\<in>set (script w). others t = id"
    and r: "findTransactionsConfirmedInBlockRange hi lo cid w = (Inr xs :: 'e tx_error + tx_receipts list, w1)"
  shows "(\<forall>t\<in>set (script w1). others t = id) \<and> db w1 = db w
    \<and> xs = loadEthTxesAttemptsReceipts (loadEthTxesAttempts (confirmed_in_range hi lo cid (db w)) (db w)) (db w)"
proof -
  obtain r1 :: "'e tx_error + (EthTx \<times> EthTxAttempt list) list" and w2 where
    1: "Select2 (confirmed_in_range hi lo cid) loadEthTxesAttempts w = (r1, w2)" by (metis prod.collapse)
  note a1 = Select2_alone [OF alone 1]
  obtain ys where ys: "r1 = Inr ys" using r 1 by (cases r1) (auto simp: findTransactionsConfirmedInBlockRange_def)
  show ?thesis
  proof (cases "ys = []")
    case True
    then show ?thesis
      using r 1 a1 ys by (auto simp: findTransactionsConfirmedInBlockRange_def loadEthTxesAttemptsReceipts_def)
  next
    case False
    obtain r2 w' where 2: "Select (loadEthTxesAttemptsReceipts ys) w2 = (r2, w')" by (metis prod.collapse)
    then show ?thesis
      using r 1 a1 ys False Select_alone [OF conjunct1 [OF a1] 2]
      by (auto simp: findTransactionsConfirmedInBlockRange_def split: sum.splits)
  qed
qed

lemma sort_by_map_mset: "mset (map f (sort_by le xs)) = mset (map f xs)"
  by simp

lemma confirmed_in_range_distinct:
  assumes "tables_ok d" shows "distinct (map TxID (confirmed_in_range hi lo cid d))"
proof -
  have "distinct (map TxID (eth_txes d))"
    using assms by (simp add: tables_ok_def schema_ok_def eth_txes_ok_def unique_rows_def)
  then have "distinct (map TxID (filter P (eth_txes d)))" for P by (simp add: distinct_map_filter)
  then show ?thesis
    unfolding confirmed_in_range_def using mset_eq_imp_distinct_iff [OF sort_by_map_mset] by blast
qed

text \<open>C5: after the confirmer has looked for re-organizations without an error, with nobody else writing,
  every transaction that still counts as confirmed in the range of blocks has a receipt in a block of the
  chain of the head.\<close>

theorem confirmed_are_on_chain:
  assumes "\<forall>t\<in>set (script w). others t = id" "tables_ok (db w)" "chain_of (Parent (gen head)) (ref head) hs"
    and "findTransactionsConfirmedInBlockRange hi lo cid w = (Inr etxs :: 'e tx_error + tx_receipts list, w1)"
    and "mark_reorged head etxs w1 = Some (None :: 'e tx_error option, w2)"
  shows "\<forall>t\<in>set (confirmed_in_range hi lo cid (db w2)). on_chain (block_number head) hs (db w2) (TxID t)"
proof -
  note f = find_confirmed_alone [OF assms(1,4)]
  then have w1: "db w1 = db w" by blast
  let ?ts = "confirmed_in_range hi lo cid (db w)"
  have ids: "map (\<lambda>x. TxID (fst x)) etxs = map TxID ?ts"
    using f by (auto simp: loadEthTxesAttemptsReceipts_def loadEthTxesAttempts_def comp_def)
  show ?thesis
  proof (rule mark_reorged_on_chain [OF assms(3,5)])
    show "\<forall>t\<in>set (script w1). others t = id" "tables_ok (db w1)" using f assms(2) by simp_all
    show "distinct (map (\<lambda>x. TxID (fst x)) etxs)" unfolding ids by (rule confirmed_in_range_distinct [OF assms(2)])
    have "set (map TxID ?ts) = (\<lambda>x. TxID (fst x)) ` set etxs" using arg_cong [OF ids, of set] by simp
    then show "\<forall>t\<in>set (confirmed_in_range hi lo cid (db w1)).
        on_chain (block_number head) hs (db w1) (TxID t) \<or> TxID t \<in> (\<lambda>x. TxID (fst x)) ` set etxs"
      unfolding w1 by auto
    show "\<forall>x\<in>set etxs. loaded_item (db w1) x"
      using f by (force simp: w1 loaded_item_def receipts_of_def loadEthTxesAttemptsReceipts_def
        loadEthTxesAttempts_def loadEthTxAttempts_mem)
  qed
qed

lemma ex_chain: "chain_of (Parent (gen ex_head)) (ref ex_head) [900, 899]"
  by (simp add: ex_head_def chain_of.chain_more chain_of.chain_end)

definition ex_found :: "(string tx_error + tx_receipts list) \<times> txworld" where
  "ex_found = findTransactionsConfirmedInBlockRange 10 9 1 (ex_world conf_db 9)"

lemma confirmed_are_on_chain_witness:
  "\<exists>etxs w1 w2. ex_found = (Inr etxs, w1) \<and> length etxs = 2 \<and> mark_reorged ex_head etxs w1 = Some (None :: string tx_error option, w2)
     \<and> map TxID (confirmed_in_range 10 9 1 (db w2)) = [1]
     \<and> list_all (\<lambda>t. on_chain (block_number ex_head) [900, 899] (db w2) (TxID t)) (confirmed_in_range 10 9 1 (db w2))"
proof -
  have "case ex_found of (Inl e, w1) \<Rightarrow> False | (Inr etxs, w1) \<Rightarrow> length etxs = 2 \<and>
      (case mark_reorged ex_head etxs w1 of None \<Rightarrow> False
       | Some res \<Rightarrow> Option.is_none (fst res :: string tx_error option) \<and> map TxID (confirmed_in_range 10 9 1 (db (snd res))) = [1])"
    by code_simp
  then obtain etxs w1 res where r0: "ex_found = (Inr etxs, w1)" "length etxs = 2"
    "mark_reorged ex_head etxs w1 = Some (res :: string tx_error option \<times> txworld)" "fst res = None"
    "map TxID (confirmed_in_range 10 9 1 (db (snd res))) = [1]"
    by (auto simp: Option.is_none_def split: prod.splits sum.splits option.splits)
  obtain w2 where "res = (None, w2)" using r0(4) by (cases res) simp
  then have r: "ex_found = (Inr etxs, w1)" "length etxs = 2"
    "mark_reorged ex_head etxs w1 = Some (None :: string tx_error option, w2)"
    "map TxID (confirmed_in_range 10 9 1 (db w2)) = [1]" using r0 by simp_all
  have "\<forall>t\<in>set (confirmed_in_range 10 9 1 (db w2)). on_chain (block_number ex_head) [900, 899] (db w2) (TxID t)"
    by (rule confirmed_are_on_chain [OF _ _ ex_chain r(1) [unfolded ex_found_def] r(3)])
      (simp_all add: ex_world_def conf_db_ok)
  then have "list_all (\<lambda>t. on_chain (block_number ex_head) [900, 899] (db w2) (TxID t)) (confirmed_in_range 10 9 1 (db w2))"
    by (simp only: list_all_iff)
  then show ?thesis using r by (intro exI conjI) assumption+
qed

text \<open>a transaction that counts as confirmed without a receipt, and whose old receipt is not on the chain,
  ends the search for re-organizations with an error: it is not taken back, nor is anything after it.\<close>

theorem missing_receipt_blocks_reorg:
  assumes "\<forall>t\<in>set (script w). others t = id" "hasReceiptInLongestChain x head = Some False"
    and "TxState (fst x) \<noteq> EthTxConfirmed" "snd x \<noteq> []"
  shows "\<exists>e w1. mark_reorged head (x # xs) w = Some (Some (SqlErr e :: 'e tx_error), w1) \<and> db w1 = db w"
proof -
  obtain y rs zs where y: "snd x = (y, rs) # zs" using assms(4) by (cases "snd x") auto
  obtain res w' where t: "Transaction (rebroadcast_body (fst x) y) w = (res, w')" by (metis prod.collapse)
  have no: "\<nexists>v. rebroadcast_body (fst x) y (db w) = Inr v"
    using assms(3) by (auto simp: rebroadcast_body_def try_bind_Inr unconfirmEthTx_def)
  have "db w' = db w" and fails: "\<forall>v. res \<noteq> Inr v" using Transaction_alone [OF assms(1) t] no by auto
  moreover obtain e where "res = Inl e" using fails by (cases res) auto
  ultimately show ?thesis using t y assms(2) by (simp add: markForRebroadcast_def)
qed

section \<open>What is sent again\<close>

lemma sort_by_nonce_sorted: "sorted_wrt by_nonce (sort_by by_nonce ts)"
  by (rule sort_by_sorted) (auto simp: by_nonce_def nonce_le_def split: option.splits)

definition nonce_before :: "EthTx \<times> EthTxAttempt list \<Rightarrow> EthTx \<times> EthTxAttempt list \<Rightarrow> bool" where
  "nonce_before x y \<longleftrightarrow> (\<exists>m n. Nonce (fst x) = Some m \<and> Nonce (fst y) = Some n \<and> m < n)"

definition awaited_tx :: "nat \<Rightarrow> int \<Rightarrow> txdb \<Rightarrow> EthTx \<Rightarrow> bool" where
  "awaited_tx address cid d t \<longleftrightarrow>
     t \<in> set (eth_txes d) \<and> TxState t = EthTxUnconfirmed \<and> FromAddress t = address \<and> TxChainID t = cid"

lemma awaited_tx_nonce:
  assumes "tables_ok d" "awaited_tx address cid d t" "awaited_tx address cid d u" "TxID t \<noteq> TxID u"
  shows "\<exists>m n. Nonce t = Some m \<and> Nonce u = Some n \<and> m \<noteq> n"
proof -
  have some: "Nonce v \<noteq> None" if "awaited_tx address cid d v" for v
    using tables_ok_unique(4) [OF assms(1), of v] that by (simp add: awaited_tx_def eth_tx_ok_def chk_eth_txes_fsm_def)
  have "Nonce t \<noteq> None" "Nonce u \<noteq> None" using some assms(2,3) by blast+
  moreover have "unique_rows (\<lambda>t. Nonce t \<noteq> None) (\<lambda>t. (TxChainID t, FromAddress t, Nonce t)) (eth_txes d)"
    using assms(1) by (simp add: tables_ok_def schema_ok_def eth_txes_ok_def)
  ultimately have "Nonce t \<noteq> Nonce u"
    using assms(2-4) unique_rowsD [of "\<lambda>t. Nonce t \<noteq> None" "\<lambda>t. (TxChainID t, FromAddress t, Nonce t)" "eth_txes d" t u]
    by (auto simp: awaited_tx_def)
  then show ?thesis using \<open>Nonce t \<noteq> None\<close> \<open>Nonce u \<noteq> None\<close> by auto
qed

lemma sorted_wrt_strict:
  assumes "sorted_wrt le xs" "distinct (map k xs)" "\<And>x y. x \<in> set xs \<Longrightarrow> y \<in> set xs \<Longrightarrow> le x y \<Longrightarrow> k x \<noteq> k y \<Longrightarrow> lt x y"
  shows "sorted_wrt lt xs"
  using assms
proof (induction xs)
  case (Cons x xs)
  have "lt x y" if "y \<in> set xs" for y
    using Cons.prems that by (intro Cons.prems(3)) (auto simp: image_iff)
  moreover have "sorted_wrt lt xs" using Cons by simp
  ultimately show ?case by simp
qed simp

lemma loadEthTxesAttempts_fst: "map fst (loadEthTxesAttempts ts d) = ts"
  by (simp add: loadEthTxesAttempts_def comp_def)

lemma take_lowest_nonces:
  assumes xs: "xs = (if n > 0 \<and> length es > n then take n es else es)" and strict: "sorted_wrt nonce_before es"
    and es: "\<forall>e\<in>set es. awaited_tx address cid d (fst e)" and ok: "tables_ok d"
    and t: "awaited_tx address cid d t" "TxID t \<in> TxID ` fst ` set es"
  shows "TxID t \<in> TxID ` fst ` set xs
    \<or> length xs = n \<and> (\<forall>x\<in>set xs. \<exists>k l. Nonce (fst x) = Some k \<and> Nonce t = Some l \<and> k < l)"
proof (cases "n > 0 \<and> length es > n")
  case True
  from t(2) obtain u where u: "TxID t = TxID u" "u \<in> fst ` set es" by (rule imageE)
  from u(2) obtain e where e: "u = fst e" "e \<in> set es" by (rule imageE)
  have "fst e \<in> set (eth_txes d)" "t \<in> set (eth_txes d)" using t(1) es e(2) by (auto simp: awaited_tx_def)
  from tables_ok_unique(1) [OF ok this] have te: "fst e = t" using e(1) u(1) by simp
  from True xs have take: "xs = take n es" "length xs = n" by simp_all
  show ?thesis
  proof (cases "e \<in> set (take n es)")
    case True
    then show ?thesis unfolding te [symmetric] take(1) by blast
  next
    case False
    then have "e \<in> set (drop n es)" using e(2) append_take_drop_id [of n es] by (metis Un_iff set_append)
    then have "nonce_before x e" if "x \<in> set xs" for x
      using strict that sorted_wrt_append [of nonce_before "take n es" "drop n es"] by (simp add: take(1))
    then show ?thesis unfolding te [symmetric] nonce_before_def using take(2) by blast
  qed
next
  case False
  then have "xs = es" unfolding xs by (rule if_not_P)
  then show ?thesis using t(2) by simp
qed

definition rebroadcast_due :: "TxmConfig \<Rightarrow> nat \<Rightarrow> int \<Rightarrow> int \<Rightarrow> txdb \<Rightarrow> EthTx set" where
  "rebroadcast_due cfg address cid blockNum d =
     set (insufficient_eth_txes address cid d)
     \<union> (if EvmGasBumpThreshold cfg = 0 then {}
        else set (gas_bump_txes address cid (wrap64 (blockNum - int (EvmGasBumpThreshold cfg))) (EvmGasBumpTxDepth cfg) d))"

text \<open>C21: the list of transactions that \<open>FindEthTxsRequiringRebroadcast\<close> finds for a key, with nobody else
  writing meanwhile: unconfirmed transactions of that key and chain, each once, in
  strictly ascending order of their nonces, and no more than may be in flight; every transaction that ran out
  of ether or is due for a gas bump is in it, unless the list is full and all its nonces are lower, or the context
  of the call has ended. The
  attempts left over from an earlier head, which \<open>handleAnyInProgressAttempts\<close> sends again before this list
  is made, are not part of it.\<close>

theorem rebroadcasts_bounded:
  assumes alone: "\<forall>t\<in>set (script w). others t = id" and ok: "tables_ok (db w)"
    and r: "FindEthTxsRequiringRebroadcast env cfg address cid blockNum w = (Inr xs :: 'e tx_error + (EthTx \<times> EthTxAttempt list) list, w2)"
  shows "sorted_wrt nonce_before xs \<and> (\<forall>x\<in>set xs. awaited_tx address cid (db w) (fst x))
    \<and> fst ` set xs \<subseteq> rebroadcast_due cfg address cid blockNum (db w)
    \<and> (EvmMaxInFlightTransactions cfg > 0 \<longrightarrow> length xs \<le> EvmMaxInFlightTransactions cfg)
    \<and> (\<not> context_done env w2 \<longrightarrow>
         (\<forall>t\<in>rebroadcast_due cfg address cid blockNum (db w). TxID t \<in> TxID ` fst ` set xs
            \<or> length xs = EvmMaxInFlightTransactions cfg
                \<and> (\<forall>x\<in>set xs. \<exists>m n. Nonce (fst x) = Some m \<and> Nonce t = Some n \<and> m < n)))"
proof (cases "context_done env w2 \<and> xs = []")
  case True
  then show ?thesis by simp
next
  case alive: False
  let ?d = "db w" and ?q1 = "insufficient_eth_txes address cid"
  let ?q2 = "gas_bump_txes address cid (wrap64 (blockNum - int (EvmGasBumpThreshold cfg))) (EvmGasBumpTxDepth cfg)"
  obtain r1 :: "'e tx_error + (EthTx \<times> EthTxAttempt list) list" and w1 where
    1: "FindEthTxsRequiringResubmissionDueToInsufficientEth address cid w = (r1, w1)" by (metis prod.collapse)
  note a1 = Select2_alone [OF alone 1 [unfolded FindEthTxsRequiringResubmissionDueToInsufficientEth_def]]
  obtain ys where ys: "r1 = Inr ys" using r 1 by (cases r1) (auto simp: FindEthTxsRequiringRebroadcast_def)
  obtain r2 :: "'e tx_error + (EthTx \<times> EthTxAttempt list) list" and w' where
    2: "FindEthTxsRequiringGasBump address cid blockNum (int (EvmGasBumpThreshold cfg)) (EvmGasBumpTxDepth cfg) w1 = (r2, w')"
    by (metis prod.collapse)
  obtain zs where zs: "r2 = Inr zs" "xs = rebroadcast_list (EvmMaxInFlightTransactions cfg) ys zs"
    using r 1 2 ys alive by (cases r2) (auto simp: FindEthTxsRequiringRebroadcast_def split: if_splits)
  have ys': "map fst ys = ?q1 ?d" using a1 ys by (simp add: loadEthTxesAttempts_fst)
  have zs': "map fst zs = (if EvmGasBumpThreshold cfg = 0 then [] else ?q2 ?d)"
  proof (cases "int (EvmGasBumpThreshold cfg) = 0")
    case False
    then have "Select2 ?q2 loadEthTxesAttempts w1 = (r2, w')" using 2 by (simp add: FindEthTxsRequiringGasBump_def)
    from Select2_alone [OF conjunct1 [OF a1] this] show ?thesis using zs(1) a1 False by (simp add: loadEthTxesAttempts_fst)
  qed (use 2 zs(1) in \<open>auto simp: FindEthTxsRequiringGasBump_def\<close>)
  have dt: "distinct (map TxID (filter P (eth_txes ?d)))" for P
    using ok by (simp add: tables_ok_def schema_ok_def eth_txes_ok_def unique_rows_def distinct_map_filter)
  have ds: "distinct (map TxID (sort_by by_nonce (filter P (eth_txes ?d))))" for P
    using dt mset_eq_imp_distinct_iff [OF sort_by_map_mset] by blast
  have dy: "distinct (map (TxID \<circ> fst) ys)" and dz: "distinct (map (TxID \<circ> fst) zs)"
    using ds ys' zs' by (auto simp: insufficient_eth_txes_def gas_bump_txes_def simp flip: map_map)
  have ay: "awaited_tx address cid ?d (fst x)" if "x \<in> set ys" for x
  proof -
    have "fst x \<in> set (?q1 ?d)" using that ys' by (metis imageI list.set_map)
    then show ?thesis by (auto simp: insufficient_eth_txes_def awaited_tx_def)
  qed
  have az: "awaited_tx address cid ?d (fst x)" if "x \<in> set zs" for x
  proof -
    have "fst x \<in> set (map fst zs)" using that by simp
    then have "fst x \<in> set (?q2 ?d)" unfolding zs' by (simp split: if_splits)
    then show ?thesis by (auto simp: gas_bump_txes_def awaited_tx_def)
  qed
  let ?new = "filter (\<lambda>x. TxID (fst x) \<notin> TxID ` fst ` set ys) zs"
  let ?all = "sort_by (\<lambda>x y. by_nonce (fst x) (fst y)) (ys @ ?new)"
  have all: "\<forall>x\<in>set ?all. awaited_tx address cid ?d (fst x)" using ay az by auto
  have "distinct (map (TxID \<circ> fst) (ys @ ?new))" using dy dz by (auto simp: distinct_map_filter image_iff)
  then have da: "distinct (map (TxID \<circ> fst) ?all)" using mset_eq_imp_distinct_iff [OF sort_by_map_mset] by blast
  have sa: "sorted_wrt (\<lambda>x y. by_nonce (fst x) (fst y)) ?all"
    by (rule sort_by_sorted) (auto simp: by_nonce_def nonce_le_def split: option.splits)
  have strict: "sorted_wrt nonce_before ?all"
  proof (rule sorted_wrt_strict [OF sa da])
    fix x y assume xy: "x \<in> set ?all" "y \<in> set ?all" "by_nonce (fst x) (fst y)" "(TxID \<circ> fst) x \<noteq> (TxID \<circ> fst) y"
    then have "\<exists>m n. Nonce (fst x) = Some m \<and> Nonce (fst y) = Some n \<and> m \<noteq> n"
      using awaited_tx_nonce [OF ok] all by (metis comp_apply)
    then show "nonce_before x y" using xy(3) by (auto simp: nonce_before_def by_nonce_def nonce_le_def)
  qed
  let ?due = "rebroadcast_due cfg address cid blockNum ?d" and ?max = "EvmMaxInFlightTransactions cfg"
  have due: "?due = fst ` set ys \<union> fst ` set zs"
    using arg_cong [OF ys', of set] arg_cong [OF zs', of set] by (auto simp: rebroadcast_due_def)
  have "fst ` set ?all \<subseteq> ?due" unfolding due by auto
  moreover have found: "TxID t \<in> TxID ` fst ` set ?all" if "t \<in> ?due" for t
    using that unfolding due by auto
  have xs: "xs = (if ?max > 0 \<and> length ?all > ?max then take ?max ?all else ?all)"
    using zs(2) by (simp add: rebroadcast_list_def Let_def)
  then have sub: "set xs \<subseteq> set ?all" "sorted_wrt nonce_before xs" and len: "?max > 0 \<longrightarrow> length xs \<le> ?max"
    using set_take_subset [of ?max ?all] sorted_wrt_take [OF strict, of ?max] strict by simp_all
  moreover have "TxID t \<in> TxID ` fst ` set xs
      \<or> length xs = ?max \<and> (\<forall>x\<in>set xs. \<exists>m n. Nonce (fst x) = Some m \<and> Nonce t = Some n \<and> m < n)" if t: "t \<in> ?due" for t
    by (rule take_lowest_nonces [OF xs strict all ok _ found [OF t]]) (use t ay az in \<open>auto simp: due\<close>)
  ultimately show ?thesis
    using all sub len by (meson image_mono in_mono order_trans)
qed

text \<open>Two transactions that ran out of ether when they were first sent.\<close>

definition poor_db :: txdb where
  "poor_db =
     conf_db\<lparr>eth_txes := [conf_tx 1 6 EthTxUnconfirmed, conf_tx 2 5 EthTxUnconfirmed],
       eth_tx_attempts := [conf_attempt 1 EthTxAttemptInsufficientEth None, conf_attempt 2 EthTxAttemptInsufficientEth None],
       eth_receipts := []\<rparr>"

lemma poor_db_ok: "tables_ok poor_db"
  by (simp add: tables_ok_defs poor_db_def conf_db_def conf_tx_def conf_attempt_def unstarted_tx_def)

definition ex_rebroadcasts :: "(string tx_error + (EthTx \<times> EthTxAttempt list) list) \<times> txworld" where
  "ex_rebroadcasts = FindEthTxsRequiringRebroadcast ex_env ex_cfg 5 1 10 (ex_world poor_db 9)"

lemma rebroadcasts_bounded_witness:
  "\<exists>xs w2. ex_rebroadcasts = (Inr xs, w2) \<and> map (TxID \<circ> fst) xs = [2, 1] \<and> sorted_wrt nonce_before xs \<and> length xs \<le> 16"
proof -
  have "case ex_rebroadcasts of (Inl e, w2) \<Rightarrow> False | (Inr xs, w2) \<Rightarrow> map (TxID \<circ> fst) xs = [2, 1]"
    by code_simp
  then obtain xs w2 where r: "ex_rebroadcasts = (Inr xs, w2)" "map (TxID \<circ> fst) xs = [2, 1]"
    by (auto split: prod.splits sum.splits)
  have "sorted_wrt nonce_before xs \<and> length xs \<le> 16"
    using rebroadcasts_bounded [OF _ _ r(1) [unfolded ex_rebroadcasts_def]] poor_db_ok
    by (simp add: ex_world_def ex_cfg_def Config.defs)
  then show ?thesis using r by (intro exI conjI) blast+
qed

section \<open>Confirmed without a receipt\<close>

lemma chunks_concat: "concat (chunks n xs) = xs"
proof (induction n xs rule: chunks.induct)
  case (1 n xs)
  then show ?case by (subst chunks.simps) auto
qed

text \<open>A node that does not answer.\<close>

definition dead_sender :: "'e batch_sender" where
  "dead_sender hashes = (True, \<lambda>h. None)"

lemma dead_batches:
  "send_batches env dead_sender now ass w =
     (case ass of
        [] \<Rightarrow> (([], None), w)
      | as # rest \<Rightarrow> ((replicate (length (concat ass)) None, Some NodeErr), w\<lparr>sent := sent w @ sent_raw env as\<rparr>))"
  by (cases ass) (simp_all add: dead_sender_def Let_def replicate_add map_replicate_const)

lemma zip_replicate_all: "length xs = n \<Longrightarrow> filter (\<lambda>(r, a). Q r) (zip (replicate n v) xs) = (if Q v then zip (replicate n v) xs else [])"
proof (induction xs arbitrary: n)
  case (Cons x xs)
  then show ?case by (cases n) auto
qed simp

lemma dearest_attempts_hit:
  assumes "t \<in> set (eth_txes d)" "P t" "x \<in> set (eth_tx_attempts d)" "EthTxID x = TxID t"
  shows "TxID t \<in> EthTxID ` set (dearest_attempts P (\<lambda>a. True) d)"
proof -
  have "x \<in> set (loadEthTxAttempts (TxID t) d)" using assms(3,4) by (simp add: loadEthTxAttempts_mem)
  then obtain y ys where y: "loadEthTxAttempts (TxID t) d = y # ys" by (cases "loadEthTxAttempts (TxID t) d") auto
  then have "EthTxID y = TxID t" using loadEthTxAttempts_mem [of y "TxID t" d] by simp
  moreover have "y \<in> set (dearest_attempts P (\<lambda>a. True) d)"
    unfolding dearest_attempts_def map_filter_def using assms(1,2) y by (force simp: image_iff)
  ultimately show ?thesis by (metis imageI)
qed

text \<open>when the node does not answer the first batch of the transactions that count as confirmed without a
  receipt, none of the later batches is sent, but all of them, sent or not, count as unconfirmed afterwards.\<close>

theorem unsent_unconfirmed:
  assumes alone: "\<forall>t\<in>set (script w). others t = id"
    and r: "CheckConfirmedMissingReceipt env cfg cid dead_sender now w = (None, w3)"
    and t: "t \<in> set (eth_txes (db w))" "TxState t = EthTxConfirmedMissingReceipt" "TxChainID t = cid"
    and x: "x \<in> set (eth_tx_attempts (db w))" "EthTxID x = TxID t"
  shows "\<exists>as rest. chunks (EvmRPCDefaultBatchSize cfg) (confirmed_missing_receipt cid (db w)) = as # rest
    \<and> sent w3 = sent w @ sent_raw env as \<and> t\<lparr>TxState := EthTxUnconfirmed\<rparr> \<in> set (eth_txes (db w3))"
proof -
  let ?as = "confirmed_missing_receipt cid (db w)"
  let ?n = "EvmRPCDefaultBatchSize cfg"
  have hit: "TxID t \<in> EthTxID ` set ?as"
    unfolding confirmed_missing_receipt_def by (rule dearest_attempts_hit) (use t x in auto)
  then have ne: "?as \<noteq> []" by auto
  then obtain as rest where c: "chunks ?n ?as = as # rest" by (subst (asm) chunks_concat [of ?n, symmetric]) (cases "chunks ?n ?as", auto)
  have len: "length (concat (as # rest)) = length ?as" using chunks_concat [of ?n ?as] c by simp
  obtain r1 w1 where 1: "Select (confirmed_missing_receipt cid) w = (r1, w1)" by (metis prod.collapse)
  note a1 = Select_alone [OF alone 1]
  have r1: "r1 = Inr ?as" using r 1 a1 by (cases r1) (auto simp: CheckConfirmedMissingReceipt_def)
  let ?w2 = "w1\<lparr>sent := sent w1 @ sent_raw env as\<rparr>"
  have 2: "batchSendTransactions env dead_sender now ?as ?n w1 = ((replicate (length ?as) None, Some NodeErr), ?w2)"
    unfolding batchSendTransactions_def c dead_batches using len by simp
  have ids: "map (\<lambda>(req, a). EthTxID a)
      (filter (\<lambda>(req, a). \<not> nonce_used env req) (zip (replicate (length ?as) (None :: 'a option)) ?as)) = map EthTxID ?as"
    by (simp add: zip_replicate_all nonce_used_def) (simp add: zip_replicate1 case_prod_beta comp_def)
  have e: "Exec (unconfirm_ids (map EthTxID ?as)) ?w2 = (None :: 'a tx_error option, w3)"
    using r 1 r1 2 ne ids by (simp add: CheckConfirmedMissingReceipt_def)
  obtain u w4 where tr: "Transaction (\<lambda>d. try_bind (checked (unconfirm_ids (map EthTxID ?as) d)) (\<lambda>d1. Inr ((), d1))) ?w2 = (u, w4)"
    by (metis prod.collapse)
  have w4: "w4 = w3" "u = Inr ()" using e tr by (cases u; auto simp: Exec_def)+
  have "db w3 = unconfirm_ids (map EthTxID ?as) (db w)"
    using Transaction_alone [OF _ tr] a1 w4 by (auto simp: try_bind_Inr checked_Inr)
  moreover have "sent w3 = sent w1 @ sent_raw env as" using Transaction_sent [OF tr] w4 by simp
  moreover have "sent w1 = sent w" using 1 by (cases "script w") (auto simp: Select_def split: db_answer.splits)
  ultimately show ?thesis using c t hit by (force simp: unconfirm_ids_def update_txes_def image_iff)
qed

definition missing_db :: txdb where
  "missing_db =
     conf_db\<lparr>eth_txes := [conf_tx 1 5 EthTxConfirmedMissingReceipt, conf_tx 2 6 EthTxConfirmed],
       eth_receipts := [conf_receipt 1 800 9, conf_receipt 2 801 9]\<rparr>"

lemma missing_db_ok: "tables_ok missing_db"
  by (simp add: tables_ok_defs missing_db_def conf_db_def conf_tx_def conf_attempt_def conf_receipt_def unstarted_tx_def)

definition ex_unsent :: "string tx_error option \<times> txworld" where
  "ex_unsent = CheckConfirmedMissingReceipt ex_env ex_cfg 1 dead_sender 1600000100 (ex_world missing_db 9)"

lemma unsent_unconfirmed_witness:
  "\<exists>w3. ex_unsent = (None, w3)
     \<and> (conf_tx 1 5 EthTxConfirmedMissingReceipt)\<lparr>TxState := EthTxUnconfirmed\<rparr> \<in> set (eth_txes (db w3))"
proof -
  have "Option.is_none (fst ex_unsent)" by code_simp
  then have "fst ex_unsent = None" by (simp add: Option.is_none_def)
  then obtain w3 where w3: "ex_unsent = (None, w3)" by (metis prod.collapse)
  have "\<exists>as rest. chunks (EvmRPCDefaultBatchSize ex_cfg) (confirmed_missing_receipt 1 (db (ex_world missing_db 9))) = as # rest
    \<and> sent w3 = sent (ex_world missing_db 9) @ sent_raw ex_env as
    \<and> (conf_tx 1 5 EthTxConfirmedMissingReceipt)\<lparr>TxState := EthTxUnconfirmed\<rparr> \<in> set (eth_txes (db w3))"
    by (rule unsent_unconfirmed [OF _ w3 [unfolded ex_unsent_def], where x = "conf_attempt 1 EthTxAttemptBroadcast (Some 9)"])
      (simp_all add: ex_world_def missing_db_def conf_db_def conf_tx_def conf_attempt_def unstarted_tx_def)
  then show ?thesis using w3 by blast
qed

definition ex_missing_item :: tx_receipts where
  "ex_missing_item =
     (conf_tx 1 5 EthTxConfirmedMissingReceipt, [(conf_attempt 1 EthTxAttemptBroadcast (Some 9), [conf_receipt 1 800 9])])"

lemma missing_receipt_blocks_reorg_witness:
  "\<exists>e w1. mark_reorged ex_head [ex_missing_item] (ex_world missing_db 3) = Some (Some (SqlErr e :: string tx_error), w1)
     \<and> db w1 = missing_db"
proof -
  have "hasReceiptInLongestChain ex_missing_item ex_head = Some False"
    unfolding hasReceipt_chain [OF ex_chain] by (simp add: ex_missing_item_def receipts_of_def conf_receipt_def)
  then have "\<exists>e w1. mark_reorged ex_head [ex_missing_item] (ex_world missing_db 3) = Some (Some (SqlErr e :: string tx_error), w1)
      \<and> db w1 = db (ex_world missing_db 3)"
    by (intro missing_receipt_blocks_reorg) (simp_all add: ex_world_def ex_missing_item_def conf_tx_def)
  then show ?thesis by (simp add: ex_world_def)
qed

section \<open>Receipts\<close>

definition receipt_key :: "EthReceipt \<Rightarrow> nat \<times> nat" where
  "receipt_key s = (ReceiptTxHash s, ReceiptBlockHash s)"

lemma upsert_key:
  "receipt_key ` set (eth_receipts (upsert_receipt q d))
     = insert (FetchedTxHash q, FetchedBlockHash q) (receipt_key ` set (eth_receipts d))"
proof (cases "\<exists>s\<in>set (eth_receipts d). receipt_key s = (FetchedTxHash q, FetchedBlockHash q)")
  case True
  then have hit: "list_ex (\<lambda>s. ReceiptTxHash s = FetchedTxHash q \<and> ReceiptBlockHash s = FetchedBlockHash q) (eth_receipts d)"
    by (auto simp: list_ex_iff receipt_key_def)
  have "map receipt_key (eth_receipts (upsert_receipt q d)) = map receipt_key (eth_receipts d)"
    using hit by (simp add: upsert_receipt_def update_where_def receipt_key_def)
  then have "receipt_key ` set (eth_receipts (upsert_receipt q d)) = receipt_key ` set (eth_receipts d)"
    by (metis list.set_map)
  then show ?thesis using True by (metis imageI insert_absorb)
next
  case False
  then have "\<not> list_ex (\<lambda>s. ReceiptTxHash s = FetchedTxHash q \<and> ReceiptBlockHash s = FetchedBlockHash q) (eth_receipts d)"
    by (auto simp: list_ex_iff receipt_key_def)
  then show ?thesis by (simp add: upsert_receipt_def receipt_key_def)
qed

lemma fold_upsert_keys:
  "receipt_key ` set (eth_receipts (fold upsert_receipt rs d))
     = (\<lambda>q. (FetchedTxHash q, FetchedBlockHash q)) ` set rs \<union> receipt_key ` set (eth_receipts d)"
  by (induction rs arbitrary: d) (auto simp: upsert_key)

text \<open>once receipts are saved, every transaction of the chain that one of them is for is confirmed, its attempt
  counts as sent and has a receipt row with the answer's block; the transactions of other chains, those no receipt is
  for, and every nonce stay as they are.\<close>

theorem saved_receipts_confirm:
  assumes ok: "tables_ok d" and x: "x \<in> set (eth_tx_attempts d)" "r \<in> set receipts" "FetchedTxHash r = AttemptHash x"
  shows "(\<exists>y\<in>set (eth_tx_attempts (save_receipts cid receipts d)).
        AttemptID y = AttemptID x \<and> AttemptState y = EthTxAttemptBroadcast \<and> BroadcastBeforeBlockNum y \<noteq> None)
    \<and> (\<exists>s\<in>set (eth_receipts (save_receipts cid receipts d)).
        ReceiptTxHash s = AttemptHash x \<and> ReceiptBlockHash s = FetchedBlockHash r)
    \<and> (\<forall>t\<in>set (eth_txes (save_receipts cid receipts d)). TxID t = EthTxID x \<and> TxChainID t = cid \<longrightarrow> TxState t = EthTxConfirmed)
    \<and> list_all2 (\<lambda>t u. u = (if TxChainID t = cid \<and> (\<exists>y\<in>set (eth_tx_attempts d). EthTxID y = TxID t
            \<and> AttemptHash y \<in> FetchedTxHash ` set receipts) then t\<lparr>TxState := EthTxConfirmed\<rparr> else t))
        (eth_txes d) (eth_txes (save_receipts cid receipts d))"
proof -
  have hit: "receipt_block receipts x \<noteq> None" using x by (simp add: receipt_block_None) (metis imageI)
  have "(AttemptHash x, FetchedBlockHash r) \<in> receipt_key ` set (eth_receipts (fold upsert_receipt receipts d))"
    unfolding fold_upsert_keys using x by (intro UnI1 image_eqI [of _ _ r]) simp_all
  then have "\<exists>s\<in>set (eth_receipts (fold upsert_receipt receipts d)). ReceiptTxHash s = AttemptHash x \<and> ReceiptBlockHash s = FetchedBlockHash r"
    by (auto simp: receipt_key_def)
  moreover have "\<exists>y\<in>set (eth_tx_attempts (save_receipts cid receipts d)).
      AttemptID y = AttemptID x \<and> AttemptState y = EthTxAttemptBroadcast \<and> BroadcastBeforeBlockNum y \<noteq> None"
    using x(1) hit
    by (intro bexI [of _ "received_attempt receipts x"])
      (auto simp: save_receipts_eq update_txes_def update_attempts_def fold_upsert_tables received_attempt_def split: option.splits)
  moreover define C where "C t \<longleftrightarrow> TxChainID t = cid \<and> (\<exists>y\<in>set (eth_tx_attempts d). EthTxID y = TxID t
      \<and> AttemptHash y \<in> FetchedTxHash ` set receipts)" for t :: EthTx
  have "received_tx cid receipts d t \<longleftrightarrow> C t" for t
    by (auto simp add: C_def received_tx_def list_ex_iff receipt_block_None simp del: not_None_eq)
  then have rows: "eth_txes (save_receipts cid receipts d) = map (\<lambda>t. if C t then t\<lparr>TxState := EthTxConfirmed\<rparr> else t) (eth_txes d)"
    by (simp add: save_receipts_eq update_txes_def update_attempts_def update_where_def fold_upsert_tables)
  have "TxState t = EthTxConfirmed"
    if t: "t \<in> set (eth_txes (save_receipts cid receipts d))" "TxID t = EthTxID x" "TxChainID t = cid" for t
  proof -
    obtain u where u: "t = (if C u then u\<lparr>TxState := EthTxConfirmed\<rparr> else u)"
      using t(1) unfolding rows set_map by (rule imageE)
    then have "TxID u = EthTxID x" "TxChainID u = cid" using t(2,3) by (cases "C u"; simp)+
    moreover have "AttemptHash x \<in> FetchedTxHash ` set receipts" using x(2,3) by (metis imageI)
    ultimately have "C u" unfolding C_def using x(1) by metis
    then show ?thesis using u by simp
  qed
  moreover have "list_all2 (\<lambda>t u. u = (if C t then t\<lparr>TxState := EthTxConfirmed\<rparr> else t))
      (eth_txes d) (eth_txes (save_receipts cid receipts d))"
    by (simp add: rows list_all2_map2 list_all2_same)
  moreover have "eth_receipts (save_receipts cid receipts d) = eth_receipts (fold upsert_receipt receipts d)"
    by (simp add: save_receipts_eq update_txes_def update_attempts_def)
  ultimately show ?thesis unfolding C_def by simp
qed

lemma saved_receipts_confirm_witness:
  "\<exists>y\<in>set (eth_tx_attempts (save_receipts 1 [\<lparr>FetchedTxHash = 71, FetchedBlockHash = 900, FetchedBlockNumber = Some 10,
      FetchedTxIndex = 0, FetchedStatus = 1\<rparr>] missing_db)). AttemptID y = 1 \<and> AttemptState y = EthTxAttemptBroadcast"
proof -
  let ?r = "\<lparr>FetchedTxHash = 71, FetchedBlockHash = 900, FetchedBlockNumber = Some 10, FetchedTxIndex = 0, FetchedStatus = 1\<rparr>"
  let ?x = "conf_attempt 1 EthTxAttemptBroadcast (Some 9)"
  have "?x \<in> set (eth_tx_attempts missing_db)" "?r \<in> set [?r]" "FetchedTxHash ?r = AttemptHash ?x"
    by (simp_all add: missing_db_def conf_db_def conf_attempt_def)
  note conjunct1 [OF saved_receipts_confirm [OF missing_db_ok this, where cid = 1]]
  then show ?thesis by (auto simp: conf_attempt_def)
qed

text \<open>after the statement that follows the receipts, no transaction is unconfirmed whose nonce is below that of a
  confirmed one of the same key and chain; nothing else changes.\<close>

theorem below_confirmed_is_mined:
  "(\<forall>t\<in>set (eth_txes (mark_missing_receipt cid d)). \<forall>u\<in>set (eth_txes (mark_missing_receipt cid d)). \<forall>m n.
      TxState t = EthTxUnconfirmed \<and> TxState u = EthTxConfirmed \<and> TxChainID t = cid \<and> TxChainID u = cid
      \<and> FromAddress t = FromAddress u \<and> Nonce t = Some m \<and> Nonce u = Some n \<longrightarrow> n \<le> m)
    \<and> list_all2 (\<lambda>t u. u = t \<or> TxState t = EthTxUnconfirmed \<and> TxChainID t = cid \<and> u = t\<lparr>TxState := EthTxConfirmedMissingReceipt\<rparr>)
        (eth_txes d) (eth_txes (mark_missing_receipt cid d))"
proof -
  define below where "below t \<longleftrightarrow> (\<exists>u\<in>set (eth_txes d). TxState u = EthTxConfirmed \<and> TxChainID u = cid
      \<and> FromAddress u = FromAddress t \<and> (case (Nonce t, Nonce u) of (Some m, Some n) \<Rightarrow> m < n | _ \<Rightarrow> False))" for t :: EthTx
  define row where "row t = (if TxState t = EthTxUnconfirmed \<and> TxChainID t = cid \<and> below t
      then t\<lparr>TxState := EthTxConfirmedMissingReceipt\<rparr> else t)" for t :: EthTx
  have rows: "eth_txes (mark_missing_receipt cid d) = map row (eth_txes d)"
    by (simp add: mark_missing_receipt_def update_txes_def update_where_def list_ex_iff row_def below_def)
  have same: "v = row v" if "TxState (row v) \<noteq> EthTxConfirmedMissingReceipt" for v
    using that by (cases "TxState v = EthTxUnconfirmed \<and> TxChainID v = cid \<and> below v") (auto simp: row_def)
  show ?thesis
  proof (intro conjI ballI allI impI)
    fix t u m n
    assume t: "t \<in> set (eth_txes (mark_missing_receipt cid d))" and u: "u \<in> set (eth_txes (mark_missing_receipt cid d))"
      and p: "TxState t = EthTxUnconfirmed \<and> TxState u = EthTxConfirmed \<and> TxChainID t = cid \<and> TxChainID u = cid
      \<and> FromAddress t = FromAddress u \<and> Nonce t = Some m \<and> Nonce u = Some n"
    obtain v v' where v: "v \<in> set (eth_txes d)" "t = row v" "v' \<in> set (eth_txes d)" "u = row v'"
      using t u unfolding rows by auto
    then have "t = v" "u = v'" using same [of v] same [of v'] p by simp_all
    then have "row t = t" "u \<in> set (eth_txes d)" using v by simp_all
    moreover have "TxState (row t) = EthTxConfirmedMissingReceipt" if "below t" using p that by (simp add: row_def)
    ultimately have "\<not> below t" using p by fastforce
    then show "n \<le> m" using p \<open>u \<in> set (eth_txes d)\<close> by (fastforce simp: below_def)
  next
    show "list_all2 (\<lambda>t u. u = t \<or> TxState t = EthTxUnconfirmed \<and> TxChainID t = cid
      \<and> u = t\<lparr>TxState := EthTxConfirmedMissingReceipt\<rparr>) (eth_txes d) (eth_txes (mark_missing_receipt cid d))"
      by (simp add: rows row_def list_all2_map2 list_all2_same)
  qed
qed

definition behind_db :: txdb where
  "behind_db = conf_db\<lparr>eth_txes := [conf_tx 1 5 EthTxUnconfirmed, conf_tx 2 6 EthTxConfirmed]\<rparr>"

lemma below_confirmed_is_mined_witness:
  "map TxState (eth_txes (mark_missing_receipt 1 behind_db)) = [EthTxConfirmedMissingReceipt, EthTxConfirmed]
    \<and> list_all2 (\<lambda>t u. u = t \<or> TxState t = EthTxUnconfirmed \<and> TxChainID t = 1 \<and> u = t\<lparr>TxState := EthTxConfirmedMissingReceipt\<rparr>)
        (eth_txes behind_db) (eth_txes (mark_missing_receipt 1 behind_db))"
proof
  show "map TxState (eth_txes (mark_missing_receipt 1 behind_db)) = [EthTxConfirmedMissingReceipt, EthTxConfirmed]"
    by (simp add: mark_missing_receipt_def update_txes_def update_where_def behind_db_def conf_tx_def unstarted_tx_def)
qed (rule conjunct2 [OF below_confirmed_is_mined])

end
