(* ===== verification/Pipeline.thy ===== *)
theory Pipeline
  imports Prelude
begin

text \<open>
  The task graph of a job: \<open>services/pipeline/graph.go\<close>, the types of \<open>common.go\<close> and
  \<open>task.base.go\<close>, and the variables of \<open>variables.go\<close>, \<open>keypath.go\<close> and \<open>getters.go\<close>.

  A task is a \<open>base_task\<close>; a pointer to a task is the task's id, which is its position in
  \<open>Pipeline.Tasks\<close>. The DOT parser and the topological sort (gonum) and the decoder of the
  attributes (mapstructure) are not under the repository: \<open>Parse\<close> takes them as arguments,
  and \<open>toposort_ok\<close> and \<open>decoder_ok\<close> state what their documentation promises. Go values of
  type \<open>interface{}\<close> are \<open>pval\<close>; dynamic types that the modelled code does not look into are
  \<open>OpaqueV\<close>. The theorems at the end say that the parsed graph is well linked: tasks are
  numbered so that every input has a smaller number, and outputs mirror inputs.
\<close>

section \<open>Values, results and tasks\<close>

datatype perror = ErrCancelled
  | ErrTooManyErrors string
  | ErrWrongInputCardinality
  | ErrBadInput
  | ErrParameterEmpty
  | ErrIndexOutOfRange
  | ErrKeypathNotFound string
  | ErrWrongKeypath nat
  | ErrVarsRoot
  | ErrVarsSetNested string
  | ErrRunPanicked string
  | OtherError string

datatype pval = NilV
  | StrV string
  | MapV "(string \<times> pval) list"
  | SliceV "pval list"
  | ErrV perror
  | OpaqueV string

record go_result =
  res_Value :: pval
  res_Error :: "perror option"

record run_info =
  ri_IsRetryable :: bool
  ri_IsPending :: bool

definition retryableRunInfo :: run_info where
  "retryableRunInfo = \<lparr>ri_IsRetryable = True, ri_IsPending = False\<rparr>"

definition pendingRunInfo :: run_info where
  "pendingRunInfo = \<lparr>ri_IsRetryable = False, ri_IsPending = True\<rparr>"

record task_dependency =
  td_PropagateResult :: bool
  td_InputTask :: nat

record base_task =
  bt_outputs :: "nat list"
  bt_inputs :: "task_dependency list"
  bt_id :: nat
  bt_dotID :: string
  bt_Index :: int
  bt_Timeout :: "int option"
  bt_FailEarly :: bool
  bt_Retries :: "32 word \<times> bool"
  bt_MinBackoff :: int
  bt_MaxBackoff :: int
  bt_uuid :: nat
  bt_Type :: string
  bt_Async :: string

abbreviation td_ids :: "base_task \<Rightarrow> nat list" where
  "td_ids t \<equiv> map td_InputTask (bt_inputs t)"

definition TaskTimeout :: "base_task \<Rightarrow> int \<times> bool" where
  "TaskTimeout t = (case bt_Timeout t of None \<Rightarrow> (0, False) | Some d \<Rightarrow> (d, True))"

definition TaskRetries :: "base_task \<Rightarrow> 32 word" where
  "TaskRetries t = fst (bt_Retries t)"

definition second :: int where
  "second = 1000000000"

definition TaskMinBackoff :: "base_task \<Rightarrow> int" where
  "TaskMinBackoff t = (if bt_MinBackoff t > 0 then bt_MinBackoff t else second * 5)"

definition TaskMaxBackoff :: "base_task \<Rightarrow> int" where
  "TaskMaxBackoff t = (if bt_MinBackoff t > 0 then bt_MaxBackoff t else 60 * second)"

fun checked_values :: "go_result list \<Rightarrow> pval list \<Rightarrow> nat \<Rightarrow> pval list \<times> nat" where
  "checked_values [] vals errs = (vals, errs)"
| "checked_values (input # inputs) vals errs =
     (if res_Error input \<noteq> None then checked_values inputs vals (errs + 1)
      else checked_values inputs (vals @ [res_Value input]) errs)"

definition CheckInputs ::
  "go_result list \<Rightarrow> int \<Rightarrow> int \<Rightarrow> int \<Rightarrow> perror + pval list" where
  "CheckInputs inputs minLen maxLen maxErrors =
     (if minLen \<ge> 0 \<and> int (length inputs) < minLen then Inl ErrWrongInputCardinality
      else if maxLen \<ge> 0 \<and> int (length inputs) > maxLen then Inl ErrWrongInputCardinality
      else let (vals, errs) = checked_values inputs [] 0 in
        if maxErrors \<ge> 0 \<and> int errs > maxErrors then Inl (ErrTooManyErrors '''') else Inr vals)"

section \<open>Variables\<close>

text \<open>The white space of \<open>strings.TrimSpace\<close>; strings are byte strings, and of the white space
  outside ASCII none is treated.\<close>

definition go_space :: "char \<Rightarrow> bool" where
  "go_space c \<longleftrightarrow> c \<in> set [CHR '' '', CHR 0x09, CHR 0x0A, CHR 0x0B, CHR 0x0C, CHR 0x0D]"

definition TrimSpace :: "string \<Rightarrow> string" where
  "TrimSpace s = rev (dropWhile go_space (rev (dropWhile go_space s)))"

text \<open>\<open>strings.Split\<close> on a separator of one character.\<close>

fun Split :: "string \<Rightarrow> char \<Rightarrow> string list" where
  "Split [] sep = [[]]"
| "Split (c # s) sep =
     (if c = sep then [] # Split s sep
      else case Split s sep of [] \<Rightarrow> [[c]] | p # ps \<Rightarrow> (c # p) # ps)"

definition KeypathSeparator :: char where
  "KeypathSeparator = CHR ''.''"

fun empty_part :: "nat \<Rightarrow> string list \<Rightarrow> nat option" where
  "empty_part i [] = None"
| "empty_part i (p # ps) = (if p = [] then Some i else empty_part (i + 1) ps)"

definition NewKeypathFromString :: "string \<Rightarrow> perror + string list" where
  "NewKeypathFromString s =
     (if s = [] then Inr []
      else let parts = Split s KeypathSeparator in
        case empty_part 0 parts of Some i \<Rightarrow> Inl (ErrWrongKeypath i) | None \<Rightarrow> Inr parts)"

type_synonym vars = "(string \<times> pval) list"

text \<open>\<open>strconv.ParseInt(part, 10, 64)\<close>: an optional sign and decimal digits, in range.\<close>

definition is_digit :: "char \<Rightarrow> bool" where
  "is_digit c \<longleftrightarrow> c \<in> set ''0123456789''"

definition digits_value :: "string \<Rightarrow> int" where
  "digits_value = foldl (\<lambda>n c. 10 * n + (of_char c - 48)) 0"

definition ParseInt :: "string \<Rightarrow> int option" where
  "ParseInt s =
     (let sign = (if s \<noteq> [] \<and> hd s = CHR ''-'' then -1 else 1);
          digits = (if s \<noteq> [] \<and> (hd s = CHR ''-'' \<or> hd s = CHR ''+'') then tl s else s);
          n = sign * digits_value digits
      in if digits = [] \<or> \<not> list_all is_digit digits \<or> \<not> is_int64 n then None else Some n)"

fun walk_keypath :: "pval \<Rightarrow> string list \<Rightarrow> perror + pval" where
  "walk_keypath currVal [] = Inr currVal"
| "walk_keypath currVal (part # parts) =
     (case currVal of
        MapV m \<Rightarrow> (case map_of m part of
            None \<Rightarrow> Inl (ErrKeypathNotFound part)
          | Some v \<Rightarrow> walk_keypath v parts)
      | SliceV vs \<Rightarrow> (case ParseInt part of
            None \<Rightarrow> Inl (ErrKeypathNotFound part)
          | Some idx \<Rightarrow> if idx < 0 \<or> idx > int (length vs) - 1 then Inl ErrIndexOutOfRange
              else walk_keypath (vs ! nat idx) parts)
      | _ \<Rightarrow> Inl (ErrKeypathNotFound part))"

definition Vars_Get :: "vars \<Rightarrow> string \<Rightarrow> perror + pval" where
  "Vars_Get vs keypathStr =
     (case NewKeypathFromString (TrimSpace keypathStr) of
        Inl e \<Rightarrow> Inl e
      | Inr parts \<Rightarrow> if parts = [] then Inl ErrVarsRoot else walk_keypath (MapV vs) parts)"

definition Vars_Set :: "vars \<Rightarrow> string \<Rightarrow> pval \<Rightarrow> perror + vars" where
  "Vars_Set vs dotID v =
     (let dotID = TrimSpace dotID in
      if length dotID = 0 then Inl ErrVarsRoot
      else if KeypathSeparator \<in> set dotID then Inl (ErrVarsSetNested dotID)
      else Inr (assoc_put dotID v vs))"

text \<open>\<open>NewVarsFrom\<close> of a nil map makes an empty one; \<open>Copy\<close> ranges over the map, in the
  order \<open>ord\<close> in which the run meets its entries.\<close>

definition NewVarsFrom :: "vars option \<Rightarrow> vars" where
  "NewVarsFrom m = (case m of None \<Rightarrow> [] | Some m \<Rightarrow> m)"

definition Vars_Copy :: "(vars \<Rightarrow> vars) \<Rightarrow> vars \<Rightarrow> vars" where
  "Vars_Copy ord vs = NewVarsFrom (Some (foldl (\<lambda>m (k, v). assoc_put k v m) [] (ord vs)))"

section \<open>Getters of a task's parameters\<close>

definition NonemptyString :: "string \<Rightarrow> perror + pval" where
  "NonemptyString s =
     (let trimmed = TrimSpace s in
      if length trimmed = 0 then Inl ErrParameterEmpty else Inr (StrV trimmed))"

definition Input :: "go_result list \<Rightarrow> int \<Rightarrow> perror + pval" where
  "Input inputs index =
     (if index < 0 \<or> index \<ge> int (length inputs) then Inl ErrIndexOutOfRange
      else case res_Error (inputs ! nat index) of
        Some e \<Rightarrow> Inl e | None \<Rightarrow> Inr (res_Value (inputs ! nat index)))"

definition Inputs :: "go_result list \<Rightarrow> perror + pval" where
  "Inputs inputs =
     Inr (SliceV (map (\<lambda>i. case res_Error i of Some e \<Rightarrow> ErrV e | None \<Rightarrow> res_Value i) inputs))"

definition VarExpr :: "string \<Rightarrow> vars \<Rightarrow> perror + pval" where
  "VarExpr expr vs =
     (let trimmed = TrimSpace expr in
      if length trimmed < 3 then Inl ErrParameterEmpty
      else if \<not> (length (filter (\<lambda>c. c = CHR ''$'') trimmed) = 1
                  \<and> take 2 trimmed = ''$('' \<and> last trimmed = CHR '')'')
      then Inl ErrParameterEmpty
      else let keypath = TrimSpace (drop 2 (butlast trimmed)) in
        if length keypath = 0 then Inl ErrParameterEmpty
        else case Vars_Get vs keypath of
          Inl e \<Rightarrow> Inl e
        | Inr (ErrV e) \<Rightarrow> Inl (ErrTooManyErrors ''VarExpr'')
        | Inr v \<Rightarrow> Inr v)"

section \<open>The graph\<close>

record graph_node =
  gn_ID :: int
  gn_dotID :: string
  gn_attrs :: "(string \<times> string) list"

record graph_edge =
  ge_from :: int
  ge_to :: int
  ge_isImplicit :: bool

record graph =
  g_nodes :: "graph_node list"
  g_edges :: "graph_edge list"

definition HasEdgeFromTo :: "graph_edge list \<Rightarrow> int \<Rightarrow> int \<Rightarrow> bool" where
  "HasEdgeFromTo es u v \<longleftrightarrow> (\<exists>e\<in>set es. ge_from e = u \<and> ge_to e = v)"

definition IsImplicitEdge :: "graph_edge list \<Rightarrow> int \<Rightarrow> int \<Rightarrow> bool" where
  "IsImplicitEdge es u v =
     (case find (\<lambda>e. ge_from e = u \<and> ge_to e = v) es of
        None \<Rightarrow> False | Some e \<Rightarrow> ge_isImplicit e)"

text \<open>\<open>SetAttribute\<close>: \<open>\A\s*<([^<>]+)>\s*\z\<close> is replaced by its group. \<open>\s\<close> is white space
  without the vertical tab.\<close>

definition re_space :: "char \<Rightarrow> bool" where
  "re_space c \<longleftrightarrow> c \<in> set [CHR '' '', CHR 0x09, CHR 0x0A, CHR 0x0C, CHR 0x0D]"

definition sanitize :: "string \<Rightarrow> string" where
  "sanitize s =
     (let t = rev (dropWhile re_space (rev (dropWhile re_space s))) in
      if length t \<ge> 3 \<and> hd t = CHR ''<'' \<and> last t = CHR ''>''
         \<and> list_all (\<lambda>c. c \<noteq> CHR ''<'' \<and> c \<noteq> CHR ''>'') (butlast (tl t))
      then butlast (tl t) else s)"

definition SetAttribute :: "graph_node \<Rightarrow> string \<Rightarrow> string \<Rightarrow> graph_node" where
  "SetAttribute n key v = n\<lparr>gn_attrs := assoc_put key (sanitize v) (gn_attrs n)\<rparr>"

text \<open>\<open>variableRegexp.FindAll\<close>: the groups of the leftmost matches of
  \<open>\$\(\s*([a-zA-Z0-9_\.]+)\s*\)\<close> that do not overlap. \<open>match_variable\<close> matches after the
  dollar sign and the bracket; it returns the group and the rest.\<close>

definition word_char :: "char \<Rightarrow> bool" where
  "word_char c \<longleftrightarrow> is_digit c \<or> c \<in> set ''abcdefghijklmnopqrstuvwxyzABCDEFGHIJKLMNOPQRSTUVWXYZ_.''"

definition match_variable :: "string \<Rightarrow> (string \<times> string) option" where
  "match_variable s =
     (let s1 = dropWhile re_space s; w = takeWhile word_char s1;
          s2 = dropWhile re_space (dropWhile word_char s1)
      in case s2 of
           [] \<Rightarrow> None
         | c # rest \<Rightarrow> if w \<noteq> [] \<and> c = CHR '')'' then Some (w, rest) else None)"

lemma match_variable_shorter: "match_variable s = Some (w, rest) \<Longrightarrow> length rest < length s"
proof -
  assume a: "match_variable s = Some (w, rest)"
  let ?s2 = "dropWhile re_space (dropWhile word_char (dropWhile re_space s))"
  from a obtain c where "?s2 = c # rest"
    by (auto simp: match_variable_def Let_def split: list.splits if_splits)
  moreover have "length ?s2 \<le> length s"
    by (meson le_trans length_dropWhile_le)
  ultimately show ?thesis by simp
qed

fun FindVariables :: "string \<Rightarrow> string list" where
  "FindVariables [] = []"
| "FindVariables [c] = []"
| "FindVariables (c # d # s) =
     (if c = CHR ''$'' \<and> d = CHR ''('' then
        case match_variable s of
          Some (w, rest) \<Rightarrow> if length rest < length s then w # FindVariables rest else []
        | None \<Rightarrow> FindVariables (d # s)
      else FindVariables (d # s))"

text \<open>The params of a node: the first part of each variable in its attributes.\<close>

definition node_params :: "graph_node \<Rightarrow> string list" where
  "node_params n =
     concat (map (\<lambda>(k, v). map (\<lambda>e. hd (Split e KeypathSeparator)) (FindVariables v)) (gn_attrs n))"

definition add_implicit_edge :: "graph_node \<Rightarrow> graph_edge list \<Rightarrow> graph_node \<Rightarrow> graph_edge list" where
  "add_implicit_edge graphNode es gn =
     (if gn_dotID gn \<in> set (node_params graphNode) \<and> gn_ID gn \<noteq> gn_ID graphNode
         \<and> \<not> HasEdgeFromTo es (gn_ID gn) (gn_ID graphNode)
      then es @ [\<lparr>ge_from = gn_ID gn, ge_to = gn_ID graphNode, ge_isImplicit = True\<rparr>]
      else es)"

text \<open>Both loops range over the nodes in an order the graph does not fix.\<close>

definition AddImplicitDependenciesAsEdges ::
  "(graph_node list \<Rightarrow> graph_node list) \<Rightarrow> graph \<Rightarrow> graph" where
  "AddImplicitDependenciesAsEdges ord g =
     g\<lparr>g_edges := foldl (\<lambda>es n. foldl (add_implicit_edge n) es (ord (g_nodes g)))
                    (g_edges g) (ord (g_nodes g))\<rparr>"

section \<open>Parsing\<close>

record pipeline =
  Tasks :: "base_task list"
  p_Source :: string

definition to_lower :: "char \<Rightarrow> char" where
  "to_lower c =
     (let n = of_char c :: nat in if 65 \<le> n \<and> n \<le> 90 then char_of (n + 32) else c)"

definition task_types :: "string list" where
  "task_types =
     [''panic'', ''http'', ''bridge'', ''mean'', ''median'', ''mode'', ''sum'', ''any'', ''jsonparse'',
      ''memo'', ''multiply'', ''divide'', ''vrf'', ''vrfv2'', ''estimategaslimit'', ''ethcall'',
      ''ethtx'', ''ethabiencode'', ''ethabiencode2'', ''ethabidecode'', ''ethabidecodelog'',
      ''cborparse'', ''fail'', ''merge'', ''length'', ''lessthan'', ''lowercase'', ''uppercase'',
      ''conditional'', ''hexdecode'', ''hexencode'', ''base64decode'', ''base64encode'']"

text \<open>A new task of a type, and its fields decoded from the attributes. The decoder is given;
  the fields it cannot set are the ones that Go does not export.\<close>

definition NewBaseTask :: "nat \<Rightarrow> string \<Rightarrow> string \<Rightarrow> base_task" where
  "NewBaseTask ID dotID ty =
     \<lparr>bt_outputs = [], bt_inputs = [], bt_id = ID, bt_dotID = dotID, bt_Index = 0,
      bt_Timeout = None, bt_FailEarly = False, bt_Retries = (0, False), bt_MinBackoff = 0,
      bt_MaxBackoff = 0, bt_uuid = 0, bt_Type = ty, bt_Async = ''''\<rparr>"

type_synonym decoder = "(string \<times> string) list \<Rightarrow> base_task \<Rightarrow> perror + base_task"

definition UnmarshalTaskFromMap ::
  "decoder \<Rightarrow> string \<Rightarrow> (string \<times> string) list \<Rightarrow> nat \<Rightarrow> string \<Rightarrow> perror + base_task" where
  "UnmarshalTaskFromMap decode taskType attrs ID dotID =
     (let ty = map to_lower taskType in
      if ty \<in> set task_types then decode attrs (NewBaseTask ID dotID ty)
      else Inl (OtherError ''unknown task type''))"

definition decoder_ok :: "decoder \<Rightarrow> bool" where
  "decoder_ok decode \<longleftrightarrow> (\<forall>attrs t t'. decode attrs t = Inr t' \<longrightarrow>
     bt_outputs t' = bt_outputs t \<and> bt_inputs t' = bt_inputs t \<and> bt_id t' = bt_id t
     \<and> bt_dotID t' = bt_dotID t \<and> bt_Type t' = bt_Type t)"

definition node_attr :: "graph_node \<Rightarrow> string \<Rightarrow> string" where
  "node_attr n key = (case map_of (gn_attrs n) key of None \<Rightarrow> '''' | Some v \<Rightarrow> v)"

text \<open>\<open>g.To(id)\<close>: the nodes with an edge to a node, in no fixed order.\<close>

definition g_To :: "(int list \<Rightarrow> int list) \<Rightarrow> graph_edge list \<Rightarrow> int \<Rightarrow> int list" where
  "g_To ord es v = ord (map ge_from (filter (\<lambda>e. ge_to e = v) es))"

text \<open>One input of a task: \<open>ids[\<dots>]\<close> of a node that is not in the map is 0, and a position
  past the tasks placed so far panics.\<close>

fun link_inputs ::
  "graph_edge list \<Rightarrow> int \<Rightarrow> (int \<times> nat) list \<Rightarrow> int list \<Rightarrow> base_task list \<Rightarrow> base_task
    \<Rightarrow> (base_task list \<times> base_task) run" where
  "link_inputs es v ids [] ts task = Ret (ts, task)"
| "link_inputs es v ids (u # us) ts task =
     (let pos = (case map_of ids u of None \<Rightarrow> 0 | Some i \<Rightarrow> i) in
      if pos \<ge> length ts then Panic ''index out of range''
      else let origin = ts ! pos;
               ts' = ts[pos := origin\<lparr>bt_outputs := bt_outputs origin @ [bt_id task]\<rparr>];
               task' = task\<lparr>bt_inputs := bt_inputs task
                  @ [\<lparr>td_PropagateResult = \<not> IsImplicitEdge es u v, td_InputTask = bt_id origin\<rparr>]\<rparr>
           in link_inputs es v ids us ts' task')"

fun parse_nodes ::
  "decoder \<Rightarrow> (int list \<Rightarrow> int list) \<Rightarrow> graph_edge list \<Rightarrow> nat \<Rightarrow> graph_node list
    \<Rightarrow> (int \<times> nat) list \<Rightarrow> base_task list \<Rightarrow> (perror + base_task list) run" where
  "parse_nodes decode ord es i [] ids ts = Ret (Inr ts)"
| "parse_nodes decode ord es i (node # nodes) ids ts =
     (if gn_dotID node = ''input'' then Ret (Inl (OtherError ''reserved keyword''))
      else case UnmarshalTaskFromMap decode (node_attr node ''type'') (gn_attrs node) i (gn_dotID node) of
        Inl e \<Rightarrow> Ret (Inl e)
      | Inr task \<Rightarrow>
          run_bind (link_inputs es (gn_ID node) ids (g_To ord es (gn_ID node)) ts task)
            (\<lambda>(ts', task').
               let task'' = task'\<lparr>bt_inputs := sort_key td_InputTask (bt_inputs task')\<rparr>
               in parse_nodes decode ord es (i + 1) nodes (assoc_put (gn_ID node) i ids)
                    (ts' @ [task''])))"

text \<open>\<open>Parse\<close> after the DOT source has been read into \<open>g\<close>: \<open>toposort\<close> is
  \<open>topo.SortStabilized\<close>.\<close>

definition Parse ::
  "(string \<Rightarrow> perror + graph) \<Rightarrow> (graph \<Rightarrow> graph_node list option) \<Rightarrow> decoder
    \<Rightarrow> (graph_node list \<Rightarrow> graph_node list) \<Rightarrow> (int list \<Rightarrow> int list) \<Rightarrow> string
    \<Rightarrow> (perror + pipeline) run" where
  "Parse unmarshal toposort decode ordn ordi text =
     (case unmarshal (''digraph {'' @ [CHR 0x0A] @ text @ [CHR 0x0A] @ ''}'') of
        Inl e \<Rightarrow> Ret (Inl e)
      | Inr g0 \<Rightarrow>
          let g = AddImplicitDependenciesAsEdges ordn g0 in
          case toposort g of
            None \<Rightarrow> Ret (Inl (OtherError ''Unable to topologically sort the graph, cycle detected''))
          | Some nodes \<Rightarrow>
              run_map (\<lambda>r. case r of Inl e \<Rightarrow> Inl e
                         | Inr ts \<Rightarrow> Inr \<lparr>Tasks = ts, p_Source = text\<rparr>)
                (parse_nodes decode ordi (g_edges g) 0 nodes [] []))"

section \<open>Operations of a pipeline\<close>

definition MinTimeout :: "pipeline \<Rightarrow> int \<times> bool" where
  "MinTimeout p =
     foldl (\<lambda>(minTimeout, aTimeoutSet) t.
        let (timeout, isSet) = TaskTimeout t in
        if isSet \<and> timeout < minTimeout then (timeout, True) else (minTimeout, aTimeoutSet))
      (2 ^ 63 - 1, False) (Tasks p)"

definition RequiresPreInsert :: "pipeline \<Rightarrow> bool" where
  "RequiresPreInsert p \<longleftrightarrow>
     (\<exists>t\<in>set (Tasks p). bt_Type t = ''bridge'' \<and> bt_Async t = ''true'' \<or> bt_Type t = ''ethtx'')"

definition ByDotID :: "pipeline \<Rightarrow> string \<Rightarrow> base_task option" where
  "ByDotID p dotID = find (\<lambda>t. bt_dotID t = dotID) (Tasks p)"

section \<open>Well linked pipelines\<close>

text \<open>What the rest of the package relies on.\<close>

definition well_linked :: "base_task list \<Rightarrow> bool" where
  "well_linked ts \<longleftrightarrow>
     (\<forall>i<length ts. bt_id (ts ! i) = i
        \<and> sorted (td_ids (ts ! i)) \<and> distinct (td_ids (ts ! i))
        \<and> (\<forall>j\<in>set (td_ids (ts ! i)). j < i)
        \<and> distinct (bt_outputs (ts ! i))
        \<and> set (bt_outputs (ts ! i)) = {j. j < length ts \<and> i \<in> set (td_ids (ts ! j))})"

definition forward :: "graph_edge list \<Rightarrow> graph_node list \<Rightarrow> bool" where
  "forward es ns \<longleftrightarrow> list_all (\<lambda>e. list_ex (\<lambda>k. list_ex (\<lambda>j.
     gn_ID (ns ! j) = ge_from e \<and> gn_ID (ns ! k) = ge_to e) [0..<k]) [0..<length ns]) es"

definition toposort_ok :: "(graph \<Rightarrow> graph_node list option) \<Rightarrow> bool" where
  "toposort_ok toposort \<longleftrightarrow> (\<forall>g ns. toposort g = Some ns \<longrightarrow>
     mset ns = mset (g_nodes g) \<and> forward (g_edges g) ns)"

definition graph_ok :: "graph \<Rightarrow> bool" where
  "graph_ok g \<longleftrightarrow> distinct (map gn_ID (g_nodes g)) \<and> distinct (map gn_dotID (g_nodes g))
     \<and> distinct (map (\<lambda>e. (ge_from e, ge_to e)) (g_edges g))
     \<and> (\<forall>e\<in>set (g_edges g). \<not> ge_isImplicit e
          \<and> ge_from e \<in> gn_ID ` set (g_nodes g) \<and> ge_to e \<in> gn_ID ` set (g_nodes g))"

section \<open>Implicit edges\<close>

abbreviation edge_of :: "graph_edge \<Rightarrow> int \<times> int" where
  "edge_of e \<equiv> (ge_from e, ge_to e)"

definition implicit_edge :: "graph_node \<Rightarrow> graph_node \<Rightarrow> graph_edge" where
  "implicit_edge n gn = \<lparr>ge_from = gn_ID gn, ge_to = gn_ID n, ge_isImplicit = True\<rparr>"

definition wants_edge :: "graph_edge list \<Rightarrow> graph_node \<Rightarrow> graph_node \<Rightarrow> bool" where
  "wants_edge es n gn \<longleftrightarrow> gn_dotID gn \<in> set (node_params n) \<and> gn_ID gn \<noteq> gn_ID n
     \<and> \<not> HasEdgeFromTo es (gn_ID gn) (gn_ID n)"

lemma HasEdge_iff: "HasEdgeFromTo es u v \<longleftrightarrow> (u, v) \<in> edge_of ` set es"
  by (auto simp: HasEdgeFromTo_def)

lemma add_implicit_edge_eq:
  "add_implicit_edge n es gn = (if wants_edge es n gn then es @ [implicit_edge n gn] else es)"
  by (simp add: add_implicit_edge_def wants_edge_def implicit_edge_def)

lemma edges_to_node:
  "distinct (map gn_ID gns) \<Longrightarrow>
   foldl (add_implicit_edge n) es gns = es @ map (implicit_edge n) (filter (wants_edge es n) gns)"
proof (induction gns arbitrary: es)
  case (Cons gn gns)
  have "wants_edge (es @ [implicit_edge n gn]) n g = wants_edge es n g" if "g \<in> set gns" for g
    using Cons.prems that by (force simp: wants_edge_def HasEdgeFromTo_def implicit_edge_def)
  then have "filter (wants_edge (es @ [implicit_edge n gn]) n) gns = filter (wants_edge es n) gns"
    by (intro filter_cong) auto
  with Cons show ?case by (simp add: add_implicit_edge_eq)
qed simp

lemma edges_to_nodes:
  "distinct (map gn_ID gns) \<Longrightarrow> distinct (map gn_ID ns) \<Longrightarrow>
   foldl (\<lambda>es n. foldl (add_implicit_edge n) es gns) es ns
   = es @ concat (map (\<lambda>n. map (implicit_edge n) (filter (wants_edge es n) gns)) ns)"
proof (induction ns arbitrary: es)
  case (Cons n ns)
  let ?es = "es @ map (implicit_edge n) (filter (wants_edge es n) gns)"
  have "wants_edge ?es m = wants_edge es m" if "m \<in> set ns" for m
    using Cons.prems that by (force simp: fun_eq_iff wants_edge_def HasEdgeFromTo_def implicit_edge_def)
  then have same: "map (\<lambda>n. map (implicit_edge n) (filter (wants_edge ?es n) gns)) ns
      = map (\<lambda>n. map (implicit_edge n) (filter (wants_edge es n) gns)) ns"
    by simp
  have "foldl (\<lambda>es n. foldl (add_implicit_edge n) es gns) es (n # ns)
      = foldl (\<lambda>es n. foldl (add_implicit_edge n) es gns) ?es ns"
    by (simp only: foldl_Cons edges_to_node [OF Cons.prems(1)])
  also have "\<dots> = ?es @ concat (map (\<lambda>n. map (implicit_edge n) (filter (wants_edge ?es n) gns)) ns)"
    using Cons by simp
  finally show ?case by (simp only: same) simp
qed simp

lemma implicit_edges:
  assumes "iteration_order ord" "distinct (map gn_ID (g_nodes g))"
  shows "set (g_edges (AddImplicitDependenciesAsEdges ord g))
    = set (g_edges g)
      \<union> {implicit_edge n gn | n gn. n \<in> set (g_nodes g) \<and> gn \<in> set (g_nodes g) \<and> wants_edge (g_edges g) n gn}"
proof -
  have "distinct (map gn_ID (ord (g_nodes g)))"
    using assms by (metis iteration_order_def mset_eq_imp_distinct_iff mset_map)
  note eq = edges_to_nodes [OF this this, of "g_edges g"]
  show ?thesis
    unfolding AddImplicitDependenciesAsEdges_def
    using iteration_order_set [OF assms(1), of "g_nodes g"] by (auto simp: eq)
qed

lemma distinct_edges_concat:
  assumes "distinct (map gn_ID gns)" "distinct (map gn_ID ns)"
  shows "distinct (map edge_of (concat (map (\<lambda>n. map (implicit_edge n) (filter (Q n) gns)) ns)))"
  using assms(2)
proof (induction ns)
  case (Cons n ns)
  have "distinct (map edge_of (map (implicit_edge n) (filter (Q n) gns)))"
    using assms(1) by (induction gns) (auto simp: implicit_edge_def)
  moreover have "gn_ID n \<notin> gn_ID ` set ns" using Cons.prems by simp
  then have "edge_of ` set (map (implicit_edge n) (filter (Q n) gns))
      \<inter> edge_of ` set (concat (map (\<lambda>n. map (implicit_edge n) (filter (Q n) gns)) ns)) = {}"
    by (auto simp: implicit_edge_def)
  ultimately show ?case using Cons by (simp add: image_Un image_image)
qed simp

lemma implicit_edges_distinct:
  assumes "iteration_order ord" "distinct (map gn_ID (g_nodes g))" "distinct (map edge_of (g_edges g))"
  shows "distinct (map edge_of (g_edges (AddImplicitDependenciesAsEdges ord g)))"
proof -
  have d: "distinct (map gn_ID (ord (g_nodes g)))"
    using assms by (metis iteration_order_def mset_eq_imp_distinct_iff mset_map)
  let ?new = "concat (map (\<lambda>n. map (implicit_edge n) (filter (wants_edge (g_edges g) n) (ord (g_nodes g))))
      (ord (g_nodes g)))"
  have "edge_of ` set (g_edges g) \<inter> edge_of ` set ?new = {}"
    by (force simp: wants_edge_def HasEdge_iff implicit_edge_def)
  then show ?thesis
    unfolding AddImplicitDependenciesAsEdges_def
    using edges_to_nodes [OF d d, of "g_edges g"] distinct_edges_concat [OF d d] assms(3)
    by simp
qed

section \<open>Linking\<close>

lemma link_inputs_eq:
  "\<forall>k<length ts. bt_id (ts ! k) = k \<Longrightarrow> distinct (map (\<lambda>u. the (map_of ids u)) us) \<Longrightarrow>
   \<forall>u\<in>set us. \<exists>k<length ts. map_of ids u = Some k \<Longrightarrow>
   link_inputs es v ids us ts task
   = Ret (map (\<lambda>t. if bt_id t \<in> (\<lambda>u. the (map_of ids u)) ` set us
                   then t\<lparr>bt_outputs := bt_outputs t @ [bt_id task]\<rparr> else t) ts,
          task\<lparr>bt_inputs := bt_inputs task
            @ map (\<lambda>u. \<lparr>td_PropagateResult = \<not> IsImplicitEdge es u v, td_InputTask = the (map_of ids u)\<rparr>) us\<rparr>)"
proof (induction us arbitrary: ts task)
  case (Cons u us)
  obtain k where k: "k < length ts" "map_of ids u = Some k" using Cons.prems(3) by auto
  let ?ts = "ts[k := (ts ! k)\<lparr>bt_outputs := bt_outputs (ts ! k) @ [bt_id task]\<rparr>]"
  have ids: "\<forall>j<length ?ts. bt_id (?ts ! j) = j"
    using Cons.prems(1) k(1) by (auto simp: nth_list_update)
  let ?task = "task\<lparr>bt_inputs := bt_inputs task
      @ [\<lparr>td_PropagateResult = \<not> IsImplicitEdge es u v, td_InputTask = k\<rparr>]\<rparr>"
  have step: "link_inputs es v ids (u # us) ts task = link_inputs es v ids us ?ts ?task"
    using k Cons.prems(1) by (simp add: Let_def)
  have new: "\<forall>w\<in>set us. the (map_of ids w) \<noteq> k"
    using Cons.prems(2) k by (force simp: image_iff)
  have "map (\<lambda>t. if bt_id t \<in> (\<lambda>u. the (map_of ids u)) ` set us
                   then t\<lparr>bt_outputs := bt_outputs t @ [bt_id ?task]\<rparr> else t) ?ts
      = map (\<lambda>t. if bt_id t \<in> (\<lambda>u. the (map_of ids u)) ` set (u # us)
                   then t\<lparr>bt_outputs := bt_outputs t @ [bt_id task]\<rparr> else t) ts"
    using Cons.prems(1) k new by (intro nth_equalityI) (auto simp: nth_list_update)
  then show ?case
    unfolding step by (subst Cons.IH [OF ids]) (use Cons.prems k in auto)
qed simp

text \<open>The state after \<open>i\<close> nodes: the positions \<open>pre k\<close> are the inputs of node \<open>k\<close>.\<close>

definition linked_upto ::
  "graph_edge list \<Rightarrow> graph_node list \<Rightarrow> nat \<Rightarrow> (int \<times> nat) list \<Rightarrow> base_task list \<Rightarrow> bool" where
  "linked_upto es ns i ids ts \<longleftrightarrow> length ts = i \<and> i \<le> length ns
     \<and> (\<forall>k<i. map_of ids (gn_ID (ns ! k)) = Some k
        \<and> bt_id (ts ! k) = k \<and> bt_dotID (ts ! k) = gn_dotID (ns ! k) \<and> gn_dotID (ns ! k) \<noteq> ''input''
        \<and> sorted (td_ids (ts ! k)) \<and> distinct (td_ids (ts ! k))
        \<and> set (bt_inputs (ts ! k)) = {\<lparr>td_PropagateResult = \<not> IsImplicitEdge es (gn_ID (ns ! j)) (gn_ID (ns ! k)),
              td_InputTask = j\<rparr> | j. j < length ns \<and> HasEdgeFromTo es (gn_ID (ns ! j)) (gn_ID (ns ! k))}
        \<and> distinct (bt_outputs (ts ! k))
        \<and> set (bt_outputs (ts ! k)) = {j. j < i \<and> HasEdgeFromTo es (gn_ID (ns ! k)) (gn_ID (ns ! j))})"

lemma forward_iff: "forward es ns \<longleftrightarrow> (\<forall>e\<in>set es. \<exists>j k. j < k \<and> k < length ns
     \<and> gn_ID (ns ! j) = ge_from e \<and> gn_ID (ns ! k) = ge_to e)"
  unfolding forward_def list_all_iff list_ex_iff
  by (intro ball_cong refl) (simp add: Bex_def, blast)

lemma forward_less:
  assumes "forward es ns" "distinct (map gn_ID ns)" "j < length ns" "k < length ns"
    and "HasEdgeFromTo es (gn_ID (ns ! j)) (gn_ID (ns ! k))"
  shows "j < k"
proof -
  obtain e where "e \<in> set es" "ge_from e = gn_ID (ns ! j)" "ge_to e = gn_ID (ns ! k)"
    using assms(5) by (auto simp: HasEdgeFromTo_def)
  moreover then obtain a b where ab: "a < b" "b < length ns" "gn_ID (ns ! a) = ge_from e" "gn_ID (ns ! b) = ge_to e"
    using assms(1) unfolding forward_iff by blast
  ultimately have eq: "gn_ID (ns ! a) = gn_ID (ns ! j)" "gn_ID (ns ! b) = gn_ID (ns ! k)" by simp_all
  have "a = j"
    using nth_eq_iff_index_eq [OF assms(2), of a j] ab assms(3) eq(1) by simp
  moreover have "b = k"
    using nth_eq_iff_index_eq [OF assms(2), of b k] ab assms(4) eq(2) by simp
  ultimately show ?thesis using ab(1) by simp
qed

lemma sorted_distinct_by_ids:
  "distinct (map td_InputTask xs) \<Longrightarrow>
   sorted (map td_InputTask (sort_key td_InputTask xs)) \<and> distinct (map td_InputTask (sort_key td_InputTask xs))"
  by (simp add: distinct_map)

lemma g_To_positions:
  assumes "iteration_order ord" "forward es ns" "distinct (map gn_ID ns)" "distinct (map edge_of es)" "i < length ns"
  shows "distinct (g_To ord es (gn_ID (ns ! i)))"
    and "set (g_To ord es (gn_ID (ns ! i)))
      = (\<lambda>j. gn_ID (ns ! j)) ` {j. j < length ns \<and> HasEdgeFromTo es (gn_ID (ns ! j)) (gn_ID (ns ! i))}"
proof -
  let ?fs = "filter (\<lambda>e. ge_to e = gn_ID (ns ! i)) es"
  have "distinct es" and "inj_on edge_of (set es)" using assms(4) by (simp_all add: distinct_map)
  then have "distinct (map ge_from ?fs)" by (auto simp: distinct_map inj_on_def)
  then show "distinct (g_To ord es (gn_ID (ns ! i)))"
    unfolding g_To_def by (simp add: iteration_order_distinct [OF assms(1)])
  have "\<exists>j<length ns. gn_ID (ns ! j) = ge_from e" if "e \<in> set es" for e
    using assms(2) that unfolding forward_iff by (meson less_trans)
  then show "set (g_To ord es (gn_ID (ns ! i)))
      = (\<lambda>j. gn_ID (ns ! j)) ` {j. j < length ns \<and> HasEdgeFromTo es (gn_ID (ns ! j)) (gn_ID (ns ! i))}"
    unfolding g_To_def by (force simp: iteration_order_set [OF assms(1)] HasEdgeFromTo_def)
qed

lemma UnmarshalTaskFromMap_fields:
  "decoder_ok decode \<Longrightarrow> UnmarshalTaskFromMap decode ty attrs i dotID = Inr t \<Longrightarrow>
   bt_outputs t = [] \<and> bt_inputs t = [] \<and> bt_id t = i \<and> bt_dotID t = dotID"
  unfolding UnmarshalTaskFromMap_def decoder_ok_def
  by (auto simp: Let_def NewBaseTask_def split: if_splits dest!: spec)

lemma linked_upto_step:
  assumes "linked_upto es ns i ids ts" "i < length ns"
    and "iteration_order ord" "forward es ns" "distinct (map gn_ID ns)" "distinct (map edge_of es)"
    and "bt_outputs task = []" "bt_inputs task = []" "bt_id task = i" "bt_dotID task = gn_dotID (ns ! i)"
    and "gn_dotID (ns ! i) \<noteq> ''input''"
  shows "\<exists>ts' task'. link_inputs es (gn_ID (ns ! i)) ids (g_To ord es (gn_ID (ns ! i))) ts task = Ret (ts', task')
    \<and> linked_upto es ns (i + 1) (assoc_put (gn_ID (ns ! i)) i ids)
        (ts' @ [task'\<lparr>bt_inputs := sort_key td_InputTask (bt_inputs task')\<rparr>])"
proof -
  let ?us = "g_To ord es (gn_ID (ns ! i))" and ?pos = "\<lambda>u. the (map_of ids u)"
  let ?pre = "{j. j < length ns \<and> HasEdgeFromTo es (gn_ID (ns ! j)) (gn_ID (ns ! i))}"
  have lu: "length ts = i"
    "map_of ids (gn_ID (ns ! k)) = Some k" "bt_id (ts ! k) = k" if "k < i" for k
    using assms(1) that by (auto simp: linked_upto_def)
  have len: "length ts = i" using assms(1) by (simp add: linked_upto_def)
  have pre: "j < i" if "j \<in> ?pre" for j
    using forward_less [OF assms(4,5), of j i] that assms(2) by simp
  note to = g_To_positions [OF assms(3-6,2)]
  have pos: "\<exists>k<length ts. map_of ids u = Some k \<and> u = gn_ID (ns ! k) \<and> k \<in> ?pre" if "u \<in> set ?us" for u
    using that unfolding to(2) using pre lu(2) len by auto
  have inj: "inj_on ?pos (set ?us)"
    by (rule inj_onI) (metis pos option.sel)
  have us: "?pos ` set ?us = ?pre"
    unfolding to(2) using pre lu(2) by (force simp: image_image)
  define tr where "tr t = (if bt_id t \<in> ?pre then t\<lparr>bt_outputs := bt_outputs t @ [i]\<rparr> else t)" for t :: base_task
  define new where "new = map (\<lambda>u. \<lparr>td_PropagateResult = \<not> IsImplicitEdge es u (gn_ID (ns ! i)), td_InputTask = ?pos u\<rparr>) ?us"
  have link: "link_inputs es (gn_ID (ns ! i)) ids ?us ts task = Ret (map tr ts, task\<lparr>bt_inputs := new\<rparr>)"
  proof (subst link_inputs_eq)
    show "\<forall>k<length ts. bt_id (ts ! k) = k" using lu(3) len by simp
    show "distinct (map ?pos ?us)" using inj to(1) by (simp add: distinct_map)
    show "\<forall>u\<in>set ?us. \<exists>k<length ts. map_of ids u = Some k" using pos by blast
  qed (simp add: us new_def tr_def [abs_def] assms(8,9))
  have newset: "set new = {\<lparr>td_PropagateResult = \<not> IsImplicitEdge es (gn_ID (ns ! j)) (gn_ID (ns ! i)),
              td_InputTask = j\<rparr> | j. j \<in> ?pre}"
    unfolding new_def set_map to(2) using pre lu(2) by (force simp: image_image)
  have newd: "distinct (map td_InputTask new)"
    using inj to(1) by (simp add: new_def comp_def distinct_map)
  have "linked_upto es ns (i + 1) (assoc_put (gn_ID (ns ! i)) i ids)
      (map tr ts @ [task\<lparr>bt_inputs := sort_key td_InputTask new\<rparr>])"
    unfolding linked_upto_def
  proof (intro conjI allI impI)
    fix k assume k: "k < i + 1"
    have nd: "gn_ID (ns ! k) = gn_ID (ns ! i) \<longleftrightarrow> k = i"
      using nth_eq_iff_index_eq [OF assms(5), of k i] assms(2) k by simp
    let ?t = "(map tr ts @ [task\<lparr>bt_inputs := sort_key td_InputTask new\<rparr>]) ! k"
    have at: "k = i \<Longrightarrow> ?t = task\<lparr>bt_inputs := sort_key td_InputTask new\<rparr>" "k < i \<Longrightarrow> ?t = tr (ts ! k)"
      using len by (auto simp: nth_append)
    have old: "k < i \<Longrightarrow> map_of ids (gn_ID (ns ! k)) = Some k
        \<and> bt_id (ts ! k) = k \<and> bt_dotID (ts ! k) = gn_dotID (ns ! k) \<and> gn_dotID (ns ! k) \<noteq> ''input''
        \<and> sorted (td_ids (ts ! k)) \<and> distinct (td_ids (ts ! k))
        \<and> set (bt_inputs (ts ! k)) = {\<lparr>td_PropagateResult = \<not> IsImplicitEdge es (gn_ID (ns ! j)) (gn_ID (ns ! k)),
              td_InputTask = j\<rparr> | j. j < length ns \<and> HasEdgeFromTo es (gn_ID (ns ! j)) (gn_ID (ns ! k))}
        \<and> distinct (bt_outputs (ts ! k))
        \<and> set (bt_outputs (ts ! k)) = {j. j < i \<and> HasEdgeFromTo es (gn_ID (ns ! k)) (gn_ID (ns ! j))}"
      using assms(1) by (simp add: linked_upto_def)
    have outs: "bt_outputs (tr (ts ! k)) = bt_outputs (ts ! k) @ (if k \<in> ?pre then [i] else [])" if "k < i"
      using old that by (simp add: tr_def)
    have trf: "bt_id (tr t) = bt_id t" "bt_dotID (tr t) = bt_dotID t" "bt_inputs (tr t) = bt_inputs t" for t
      by (simp_all add: tr_def)
    show "map_of (assoc_put (gn_ID (ns ! i)) i ids) (gn_ID (ns ! k)) = Some k"
      using old k nd by auto
    show "bt_id ?t = k" "bt_dotID ?t = gn_dotID (ns ! k)" "gn_dotID (ns ! k) \<noteq> ''input''"
      using at old k assms(9-11) trf by (cases "k = i"; simp)+
    show "sorted (td_ids ?t)" "distinct (td_ids ?t)"
      using at old k trf sorted_distinct_by_ids [OF newd] by (cases "k = i"; simp)+
    show "set (bt_inputs ?t) = {\<lparr>td_PropagateResult = \<not> IsImplicitEdge es (gn_ID (ns ! j)) (gn_ID (ns ! k)),
              td_InputTask = j\<rparr> | j. j < length ns \<and> HasEdgeFromTo es (gn_ID (ns ! j)) (gn_ID (ns ! k))}"
      using at old k trf newset by (cases "k = i") simp_all
    show "distinct (bt_outputs ?t)"
      using at old k outs assms(7) by (cases "k = i") auto
    have none: "\<not> HasEdgeFromTo es (gn_ID (ns ! i)) (gn_ID (ns ! j))" if "j < i + 1" for j
      using forward_less [OF assms(4,5,2), of j] that assms(2) by auto
    show "set (bt_outputs ?t) = {j. j < i + 1 \<and> HasEdgeFromTo es (gn_ID (ns ! k)) (gn_ID (ns ! j))}"
      using at old k outs assms(2,7) none by (cases "k = i") (auto simp: less_Suc_eq)
  qed (use len assms(2) in simp_all)
  then show ?thesis using link by auto
qed

lemma parse_nodes_linked:
  assumes "iteration_order ord" "forward es ns" "distinct (map gn_ID ns)" "distinct (map edge_of es)" "decoder_ok decode"
  shows "linked_upto es ns i ids ts \<Longrightarrow> drop i ns = nodes \<Longrightarrow>
    \<exists>r. parse_nodes decode ord es i nodes ids ts = Ret r
      \<and> (\<forall>ts'. r = Inr ts' \<longrightarrow> (\<exists>ids'. linked_upto es ns (length ns) ids' ts'))"
proof (induction nodes arbitrary: i ids ts)
  case Nil
  then have "i = length ns" by (simp add: linked_upto_def)
  with Nil show ?case by auto
next
  case (Cons node nodes)
  then have i: "i < length ns" by (metis drop_eq_Nil list.distinct(1) not_less)
  then have node: "node = ns ! i" "drop (i + 1) ns = nodes"
    using Cons.prems(2) by (metis Cons_nth_drop_Suc Suc_eq_plus1 list.inject)+
  show ?case
  proof (cases "gn_dotID node = ''input''")
    case False
    show ?thesis
    proof (cases "UnmarshalTaskFromMap decode (node_attr node ''type'') (gn_attrs node) i (gn_dotID node)")
      case (Inr task)
      note f = UnmarshalTaskFromMap_fields [OF assms(5) Inr]
      obtain ts' task' where l: "link_inputs es (gn_ID node) ids (g_To ord es (gn_ID node)) ts task = Ret (ts', task')"
        "linked_upto es ns (i + 1) (assoc_put (gn_ID node) i ids)
          (ts' @ [task'\<lparr>bt_inputs := sort_key td_InputTask (bt_inputs task')\<rparr>])"
        using linked_upto_step [OF Cons.prems(1) i assms(1-4), of task] f False node(1) by auto
      show ?thesis
        using Cons.IH [OF l(2) node(2)] False Inr l(1) by (simp add: Let_def)
    qed (use False in simp)
  qed simp
qed

lemma linked_well_linked:
  assumes "linked_upto es ns (length ns) ids ts" "forward es ns" "distinct (map gn_ID ns)"
  shows "well_linked ts"
proof -
  have ids: "set (td_ids (ts ! i)) = {j. j < length ns \<and> HasEdgeFromTo es (gn_ID (ns ! j)) (gn_ID (ns ! i))}"
    if "i < length ns" for i
  proof -
    have "set (bt_inputs (ts ! i)) = {\<lparr>td_PropagateResult = \<not> IsImplicitEdge es (gn_ID (ns ! j)) (gn_ID (ns ! i)),
              td_InputTask = j\<rparr> | j. j < length ns \<and> HasEdgeFromTo es (gn_ID (ns ! j)) (gn_ID (ns ! i))}"
      using assms(1) that by (simp add: linked_upto_def)
    then show ?thesis by (force simp: image_iff)
  qed
  have len: "length ts = length ns" using assms(1) by (simp add: linked_upto_def)
  show ?thesis
    unfolding well_linked_def
  proof (intro allI impI conjI ballI)
    fix i assume i: "i < length ts"
    have l: "bt_id (ts ! i) = i" "sorted (td_ids (ts ! i))" "distinct (td_ids (ts ! i))" "distinct (bt_outputs (ts ! i))"
      "set (bt_outputs (ts ! i)) = {j. j < length ns \<and> HasEdgeFromTo es (gn_ID (ns ! i)) (gn_ID (ns ! j))}"
      using assms(1) i len by (simp_all add: linked_upto_def)
    show "bt_id (ts ! i) = i" "sorted (td_ids (ts ! i))" "distinct (td_ids (ts ! i))" "distinct (bt_outputs (ts ! i))"
      by (fact l)+
    show "j < i" if "j \<in> set (td_ids (ts ! i))" for j
      using forward_less [OF assms(2,3), of j i] that ids [of i] i len by simp
    show "set (bt_outputs (ts ! i)) = {j. j < length ts \<and> i \<in> set (td_ids (ts ! j))}"
      using l(5) ids i len by auto
  qed
qed

lemma find_edge_of:
  "distinct (map edge_of es) \<Longrightarrow> e \<in> set es \<Longrightarrow>
   find (\<lambda>e'. ge_from e' = ge_from e \<and> ge_to e' = ge_to e) es = Some e"
proof (induction es)
  case (Cons a es)
  show ?case
  proof (cases "edge_of a = edge_of e")
    case True
    then have "a = e" using Cons.prems by (auto simp: image_iff)
    then show ?thesis by simp
  next
    case False
    with Cons show ?thesis by auto
  qed
qed simp

lemma IsImplicitEdge_eq:
  "distinct (map edge_of es) \<Longrightarrow> e \<in> set es \<Longrightarrow> IsImplicitEdge es (ge_from e) (ge_to e) = ge_isImplicit e"
  by (simp add: IsImplicitEdge_def find_edge_of)

section \<open>What parsing gives\<close>

definition links_graph :: "graph \<Rightarrow> graph_node list \<Rightarrow> base_task list \<Rightarrow> bool" where
  "links_graph g ns ts \<longleftrightarrow> length ts = length ns
     \<and> (\<forall>i<length ns. bt_dotID (ts ! i) = gn_dotID (ns ! i)
        \<and> set (bt_inputs (ts ! i))
          = {\<lparr>td_PropagateResult = True, td_InputTask = j\<rparr> | j. j < length ns
                \<and> HasEdgeFromTo (g_edges g) (gn_ID (ns ! j)) (gn_ID (ns ! i))}
            \<union> {\<lparr>td_PropagateResult = False, td_InputTask = j\<rparr> | j. j < length ns
                \<and> wants_edge (g_edges g) (ns ! i) (ns ! j)})"

lemma split_by_flag:
  assumes "\<And>j. j < n \<Longrightarrow> (H j \<and> I j) = W j" "\<And>j. j < n \<Longrightarrow> (H j \<and> \<not> I j) = E j"
  shows "{\<lparr>td_PropagateResult = \<not> I j, td_InputTask = j\<rparr> | j. j < n \<and> H j}
    = {\<lparr>td_PropagateResult = True, td_InputTask = j\<rparr> | j. j < n \<and> E j}
      \<union> {\<lparr>td_PropagateResult = False, td_InputTask = j\<rparr> | j. j < n \<and> W j}"
proof (intro set_eqI)
  fix x :: task_dependency
  obtain f j where x: "x = \<lparr>td_PropagateResult = f, td_InputTask = j\<rparr>" by (cases x)
  show "x \<in> {\<lparr>td_PropagateResult = \<not> I j, td_InputTask = j\<rparr> | j. j < n \<and> H j}
    \<longleftrightarrow> x \<in> {\<lparr>td_PropagateResult = True, td_InputTask = j\<rparr> | j. j < n \<and> E j}
      \<union> {\<lparr>td_PropagateResult = False, td_InputTask = j\<rparr> | j. j < n \<and> W j}"
    using assms [of j] unfolding x by (cases f) auto
qed

lemma linked_links_graph:
  assumes "graph_ok g0" "iteration_order ord" "g = AddImplicitDependenciesAsEdges ord g0"
    and "mset ns = mset (g_nodes g)" "linked_upto (g_edges g) ns (length ns) ids ts"
  shows "links_graph g0 ns ts"
proof -
  have m: "mset ns = mset (g_nodes g0)"
    using assms(3,4) by (simp add: AddImplicitDependenciesAsEdges_def)
  then have "mset (map gn_ID ns) = mset (map gn_ID (g_nodes g0))" by simp
  then have nodes: "set ns = set (g_nodes g0)" "distinct (map gn_ID ns)"
    using mset_eq_setD [OF m] assms(1) mset_eq_imp_distinct_iff unfolding graph_ok_def by blast+
  have es: "set (g_edges g) = set (g_edges g0)
      \<union> {implicit_edge n gn | n gn. n \<in> set ns \<and> gn \<in> set ns \<and> wants_edge (g_edges g0) n gn}"
    and d: "distinct (map edge_of (g_edges g))"
    using implicit_edges [OF assms(2), of g0] implicit_edges_distinct [OF assms(2), of g0] assms(1)
    unfolding assms(3) nodes(1) graph_ok_def by simp_all
  have one: "HasEdgeFromTo (g_edges g) (gn_ID m) (gn_ID n) \<and> IsImplicitEdge (g_edges g) (gn_ID m) (gn_ID n) = im
      \<longleftrightarrow> (if im then wants_edge (g_edges g0) n m else HasEdgeFromTo (g_edges g0) (gn_ID m) (gn_ID n))"
    if "m \<in> set ns" "n \<in> set ns" for m n im
  proof -
    have uniq: "m' = m" if "m' \<in> set ns" "gn_ID m' = gn_ID m" "m \<in> set ns" for m m'
      using nodes(2) that by (meson distinct_map inj_onD)
    have split: "(\<exists>e\<in>set (g_edges g). P e) \<longleftrightarrow> (\<exists>e\<in>set (g_edges g0). P e)
        \<or> (\<exists>n' m'. n' \<in> set ns \<and> m' \<in> set ns \<and> wants_edge (g_edges g0) n' m' \<and> P (implicit_edge n' m'))" for P
      unfolding es by blast
    have "HasEdgeFromTo (g_edges g) (gn_ID m) (gn_ID n) \<and> IsImplicitEdge (g_edges g) (gn_ID m) (gn_ID n) = im
        \<longleftrightarrow> (\<exists>e\<in>set (g_edges g). ge_from e = gn_ID m \<and> ge_to e = gn_ID n \<and> ge_isImplicit e = im)"
      unfolding HasEdgeFromTo_def using IsImplicitEdge_eq [OF d] by metis
    also have "\<dots> \<longleftrightarrow> (if im then wants_edge (g_edges g0) n m else HasEdgeFromTo (g_edges g0) (gn_ID m) (gn_ID n))"
    proof (cases im)
      case True
      have "(\<exists>e\<in>set (g_edges g0). ge_from e = gn_ID m \<and> ge_to e = gn_ID n \<and> ge_isImplicit e) \<longleftrightarrow> False"
        using assms(1) unfolding graph_ok_def by blast
      moreover have "(\<exists>n' m'. n' \<in> set ns \<and> m' \<in> set ns \<and> wants_edge (g_edges g0) n' m' \<and> gn_ID m' = gn_ID m \<and> gn_ID n' = gn_ID n)
          \<longleftrightarrow> wants_edge (g_edges g0) n m"
        using uniq that by metis
      ultimately show ?thesis
        using True by (simp add: split implicit_edge_def) blast
    next
      case False
      have "(\<exists>e\<in>set (g_edges g0). ge_from e = gn_ID m \<and> ge_to e = gn_ID n \<and> \<not> ge_isImplicit e)
          \<longleftrightarrow> HasEdgeFromTo (g_edges g0) (gn_ID m) (gn_ID n)"
        using assms(1) unfolding graph_ok_def HasEdgeFromTo_def by blast
      then show ?thesis using False by (simp add: split implicit_edge_def)
    qed
    finally show ?thesis .
  qed
  show ?thesis
    unfolding links_graph_def
  proof (intro conjI allI impI)
    show "length ts = length ns" using assms(5) by (simp add: linked_upto_def)
    fix i assume i: "i < length ns"
    show "bt_dotID (ts ! i) = gn_dotID (ns ! i)" using assms(5) i by (simp add: linked_upto_def)
    have "set (bt_inputs (ts ! i)) = {\<lparr>td_PropagateResult = \<not> IsImplicitEdge (g_edges g) (gn_ID (ns ! j)) (gn_ID (ns ! i)),
              td_InputTask = j\<rparr> | j. j < length ns \<and> HasEdgeFromTo (g_edges g) (gn_ID (ns ! j)) (gn_ID (ns ! i))}"
      using assms(5) i by (simp add: linked_upto_def)
    then show "set (bt_inputs (ts ! i))
          = {\<lparr>td_PropagateResult = True, td_InputTask = j\<rparr> | j. j < length ns
                \<and> HasEdgeFromTo (g_edges g0) (gn_ID (ns ! j)) (gn_ID (ns ! i))}
            \<union> {\<lparr>td_PropagateResult = False, td_InputTask = j\<rparr> | j. j < length ns
                \<and> wants_edge (g_edges g0) (ns ! i) (ns ! j)}"
      using one [of _ "ns ! i" True] one [of _ "ns ! i" False] i by (subst split_by_flag [symmetric]) auto
  qed
qed

lemma Parse_linked:
  assumes "decoder_ok decode" "toposort_ok toposort" "iteration_order ordn" "iteration_order ordi"
    and "\<forall>text g. unmarshal text = Inr g \<longrightarrow> graph_ok g"
  shows "\<exists>r. Parse unmarshal toposort decode ordn ordi src = Ret r
    \<and> (\<forall>p. r = Inr p \<longrightarrow> well_linked (Tasks p) \<and> distinct (map bt_dotID (Tasks p))
        \<and> ''input'' \<notin> bt_dotID ` set (Tasks p)
        \<and> (\<exists>text g ns. unmarshal text = Inr g \<and> mset ns = mset (g_nodes g) \<and> links_graph g ns (Tasks p)))"
proof (cases "unmarshal (''digraph {'' @ [CHR 0x0A] @ src @ [CHR 0x0A] @ ''}'')")
  case (Inl e)
  then show ?thesis by (simp add: Parse_def)
next
  case (Inr g0)
  let ?g = "AddImplicitDependenciesAsEdges ordn g0"
  have g0: "graph_ok g0" using assms(5) Inr by blast
  show ?thesis
  proof (cases "toposort ?g")
    case None
    with Inr show ?thesis by (simp add: Parse_def Let_def)
  next
    case (Some ns)
    have f: "forward (g_edges ?g) ns" and m: "mset ns = mset (g_nodes ?g)"
      using assms(2) Some unfolding toposort_ok_def by blast+
    have m0: "mset ns = mset (g_nodes g0)" using m by (simp add: AddImplicitDependenciesAsEdges_def)
    have d: "distinct (map gn_ID ns)" "distinct (map gn_dotID ns)"
      using g0 m0 unfolding graph_ok_def by (metis mset_eq_imp_distinct_iff mset_map)+
    have de: "distinct (map edge_of (g_edges ?g))"
      using implicit_edges_distinct [OF assms(3), of g0] g0 by (simp add: graph_ok_def)
    have start: "linked_upto (g_edges ?g) ns 0 [] []" by (simp add: linked_upto_def)
    obtain r where r: "parse_nodes decode ordi (g_edges ?g) 0 ns [] [] = Ret r"
      "\<forall>ts. r = Inr ts \<longrightarrow> (\<exists>ids. linked_upto (g_edges ?g) ns (length ns) ids ts)"
      using parse_nodes_linked [OF assms(4) f d(1) de assms(1) start, of ns] by auto
    have P: "Parse unmarshal toposort decode ordn ordi src
        = Ret (case r of Inl e \<Rightarrow> Inl e | Inr ts \<Rightarrow> Inr \<lparr>Tasks = ts, p_Source = src\<rparr>)"
      using Inr Some r(1) by (simp add: Parse_def Let_def)
    show ?thesis
    proof (cases r)
      case (Inr ts)
      then obtain ids where l: "linked_upto (g_edges ?g) ns (length ns) ids ts" using r(2) by blast
      have lg: "links_graph g0 ns ts" by (rule linked_links_graph [OF g0 assms(3) refl m l])
      then have "map bt_dotID ts = map gn_dotID ns"
        unfolding links_graph_def by (intro nth_equalityI) auto
      moreover have names: "length ts = length ns \<and> (\<forall>k<length ns. bt_dotID (ts ! k) \<noteq> ''input'')"
        using l by (simp add: linked_upto_def)
      then have "''input'' \<notin> bt_dotID ` set ts"
        using names by (auto simp: in_set_conv_nth)
      ultimately have "well_linked ts \<and> distinct (map bt_dotID ts) \<and> ''input'' \<notin> bt_dotID ` set ts"
        using linked_well_linked [OF l f d(1)] d(2) by simp
      moreover have "\<exists>text g ns. unmarshal text = Inr g \<and> mset ns = mset (g_nodes g) \<and> links_graph g ns ts"
        using \<open>unmarshal _ = Inr g0\<close> m0 lg by blast
      ultimately show ?thesis using P Inr by simp
    qed (use P in simp)
  qed
qed

text \<open>A job with a data source, a task that parses its answer, and a task that reads it through a
  variable only.\<close>

definition ex_graph :: graph where
  "ex_graph = \<lparr>g_nodes = [\<lparr>gn_ID = 10, gn_dotID = ''ds'', gn_attrs = [(''type'', ''HTTP'')]\<rparr>,
      \<lparr>gn_ID = 20, gn_dotID = ''parse'', gn_attrs = [(''type'', ''jsonparse'')]\<rparr>,
      \<lparr>gn_ID = 30, gn_dotID = ''out'', gn_attrs = [(''type'', ''memo''), (''value'', ''{a: $( ds.x ), b: $(parse)}'')]\<rparr>],
     g_edges = [\<lparr>ge_from = 10, ge_to = 20, ge_isImplicit = False\<rparr>, \<lparr>ge_from = 20, ge_to = 30, ge_isImplicit = False\<rparr>]\<rparr>"

definition ex_unmarshal :: "string \<Rightarrow> perror + graph" where
  "ex_unmarshal src = Inr ex_graph"

definition given_order :: "graph \<Rightarrow> graph_node list option" where
  "given_order g = (if forward (g_edges g) (g_nodes g) then Some (g_nodes g) else None)"

definition plain_decoder :: decoder where
  "plain_decoder attrs t = Inr t"

lemma given_order_ok: "toposort_ok given_order"
  by (simp add: toposort_ok_def given_order_def)

lemma plain_decoder_ok: "decoder_ok plain_decoder"
  by (simp add: decoder_ok_def plain_decoder_def)

lemma ex_graph_ok: "\<forall>text g. ex_unmarshal text = Inr g \<longrightarrow> graph_ok g"
  by (auto simp: ex_unmarshal_def graph_ok_def ex_graph_def)

definition ex_parse :: "(perror + pipeline) run" where
  "ex_parse = Parse ex_unmarshal given_order plain_decoder rev rev ''src''"

lemma ex_parse_links:
  "(case ex_parse of Ret (Inr p) \<Rightarrow> map bt_inputs (Tasks p)
      = [[], [\<lparr>td_PropagateResult = True, td_InputTask = 0\<rparr>],
         [\<lparr>td_PropagateResult = False, td_InputTask = 0\<rparr>, \<lparr>td_PropagateResult = True, td_InputTask = 1\<rparr>]]
    | _ \<Rightarrow> False)"
  by code_simp

text \<open>C22: whatever the DOT source, parsing does not panic; the pipeline it gives has its tasks numbered in an
  order in which inputs come first, outputs that mirror the inputs, distinct names, and exactly the dependencies
  of the graph: the edges of the source, whose results are handed on, and an edge for each variable of a task that
  names another task and has no edge yet, whose results are not.\<close>

theorem parse_links_the_graph:
  assumes "decoder_ok decode" "toposort_ok toposort" "iteration_order ordn" "iteration_order ordi"
    and "\<forall>text g. unmarshal text = Inr g \<longrightarrow> graph_ok g"
  shows "\<exists>r. Parse unmarshal toposort decode ordn ordi src = Ret r
    \<and> (\<forall>p. r = Inr p \<longrightarrow> well_linked (Tasks p) \<and> distinct (map bt_dotID (Tasks p))
        \<and> ''input'' \<notin> bt_dotID ` set (Tasks p)
        \<and> (\<exists>text g ns. unmarshal text = Inr g \<and> mset ns = mset (g_nodes g) \<and> links_graph g ns (Tasks p)))"
  by (rule Parse_linked [OF assms])

lemma parse_links_the_graph_witness:
  "\<exists>p. ex_parse = Ret (Inr p) \<and> well_linked (Tasks p) \<and> length (Tasks p) = 3"
proof -
  obtain p where p: "ex_parse = Ret (Inr p)" "length (map bt_inputs (Tasks p)) = 3"
    using ex_parse_links by (auto split: run.splits sum.splits simp del: length_map)
  show ?thesis
    using parse_links_the_graph [OF plain_decoder_ok given_order_ok iteration_order_rev iteration_order_rev
        ex_graph_ok, where src = "''src''"] p unfolding ex_parse_def by auto
qed

end
