(* ===== verification/Scheduler.thy ===== *)
theory Scheduler
  imports Pipeline
begin

text \<open>
  The scheduler of one run of a pipeline (\<open>services/pipeline/scheduler.go\<close>) with the goroutines
  that execute its tasks (\<open>runner.run\<close> and \<open>executeTaskRun\<close> of \<open>runner.go\<close>).

  \<open>scheduler\<close> is the struct, with the buffered channel \<open>taskCh\<close> as a queue and the goroutines that
  wait for a back-off in \<open>retrying\<close>; \<open>executing\<close> holds the task runs that the runner has taken from the
  channel. The results travel over a channel without a buffer, so a report and the body of the loop of
  \<open>Run\<close> that it meets are one event. \<open>sched_step\<close> is what one event does: which event comes next,
  what a task answers, when a timer fires and in which order reports arrive is open. A send on a
  closed channel and a failing \<open>Vars.Set\<close> are panics.
\<close>

section \<open>State\<close>

record task_run_result =
  trr_ID :: nat
  trr_Task :: base_task
  trr_Result :: go_result
  trr_Attempts :: "64 word"
  trr_CreatedAt :: int
  trr_FinishedAt :: "int option"
  trr_runInfo :: run_info

record memory_task_run =
  mtr_task :: base_task
  mtr_inputs :: "go_result list"
  mtr_vars :: vars
  mtr_attempts :: "64 word"

record retry_run =
  rt_task :: base_task
  rt_vars :: vars
  rt_attempts :: "64 word"

record scheduler =
  sc_dependencies :: "nat \<Rightarrow> 64 word"
  sc_waiting :: "64 word"
  sc_results :: "(nat \<times> task_run_result) list"
  sc_vars :: vars
  sc_pending :: bool
  sc_exiting :: bool
  sc_cancelled :: bool
  sc_taskCh :: "memory_task_run list"
  sc_closed :: bool
  sc_retrying :: "retry_run list"

record json =
  js_Val :: pval
  js_Valid :: bool

record task_run =
  tr_ID :: nat
  tr_Type :: string
  tr_PipelineRunID :: int
  tr_Output :: json
  tr_Error :: "string option"
  tr_CreatedAt :: int
  tr_FinishedAt :: "int option"
  tr_Index :: int
  tr_DotID :: string
  tr_task :: "base_task option"

text \<open>What Go leaves open: the order in which \<open>Copy\<close> meets the entries of a map, and the order that
  \<open>sort.Slice\<close>, which is not stable, leaves among inputs of the same index.\<close>

record sched_env =
  copy_order :: "vars \<Rightarrow> vars"
  input_ties :: "(int \<times> go_result) list \<Rightarrow> (int \<times> go_result) list"

definition null_zero :: "string option \<Rightarrow> bool" where
  "null_zero s \<longleftrightarrow> s = None"

definition TaskRun_IsPending :: "task_run \<Rightarrow> bool" where
  "TaskRun_IsPending r \<longleftrightarrow> tr_FinishedAt r = None \<and> \<not> js_Valid (tr_Output r) \<and> null_zero (tr_Error r)"

section \<open>A run of a task\<close>

definition result_at :: "(nat \<times> task_run_result) list \<Rightarrow> nat \<Rightarrow> go_result" where
  "result_at rs i = (case map_of rs i of
     None \<Rightarrow> \<lparr>res_Value = NilV, res_Error = None\<rparr> | Some r \<Rightarrow> trr_Result r)"

definition attempts_at :: "(nat \<times> task_run_result) list \<Rightarrow> nat \<Rightarrow> 64 word" where
  "attempts_at rs i = (case map_of rs i of None \<Rightarrow> 0 | Some r \<Rightarrow> trr_Attempts r)"

definition sorted_inputs ::
  "sched_env \<Rightarrow> pipeline \<Rightarrow> (nat \<times> task_run_result) list \<Rightarrow> base_task \<Rightarrow> go_result list" where
  "sorted_inputs env p rs task =
     (let propagated = filter td_PropagateResult (bt_inputs task) in
      if length propagated \<noteq> 0 then
        map snd (sort_key fst (input_ties env
          (map (\<lambda>i. (bt_Index (Tasks p ! td_InputTask i), result_at rs (td_InputTask i))) propagated)))
      else [])"

definition newMemoryTaskRun ::
  "sched_env \<Rightarrow> pipeline \<Rightarrow> (nat \<times> task_run_result) list \<Rightarrow> base_task \<Rightarrow> vars \<Rightarrow> memory_task_run" where
  "newMemoryTaskRun env p rs task vs =
     \<lparr>mtr_task = task, mtr_inputs = sorted_inputs env p rs task, mtr_vars = vs, mtr_attempts = 0\<rparr>"

definition send_task :: "memory_task_run \<Rightarrow> scheduler \<Rightarrow> scheduler run" where
  "send_task m s = (if sc_closed s then Panic ''send on closed channel''
     else Ret (s\<lparr>sc_taskCh := sc_taskCh s @ [m]\<rparr>))"

text \<open>\<open>Vars.Set\<close> of a result: its error if there is one, its value otherwise.\<close>

definition stored_value :: "go_result \<Rightarrow> pval" where
  "stored_value r = (case res_Error r of Some e \<Rightarrow> ErrV e | None \<Rightarrow> res_Value r)"

definition set_result :: "base_task \<Rightarrow> go_result \<Rightarrow> scheduler \<Rightarrow> scheduler run" where
  "set_result task r s = (case Vars_Set (sc_vars s) (bt_dotID task) (stored_value r) of
     Inl e \<Rightarrow> Panic ''Vars.Set error'' | Inr vs \<Rightarrow> Ret (s\<lparr>sc_vars := vs\<rparr>))"

section \<open>A new scheduler\<close>

definition no_info :: run_info where
  "no_info = \<lparr>ri_IsRetryable = False, ri_IsPending = False\<rparr>"

definition reconstruct_row :: "pipeline \<Rightarrow> scheduler \<Rightarrow> task_run \<Rightarrow> scheduler run" where
  "reconstruct_row p s r =
     (case ByDotID p (tr_DotID r) of
        None \<Rightarrow> Panic ''can't find task by dot id''
      | Some task \<Rightarrow>
          if TaskRun_IsPending r then Ret s
          else
            let result = \<lparr>res_Value = (if js_Valid (tr_Output r) then js_Val (tr_Output r) else NilV),
                  res_Error = map_option OtherError (tr_Error r)\<rparr>;
                s1 = s\<lparr>sc_results := assoc_put (bt_id task)
                  \<lparr>trr_ID = 0, trr_Task = task, trr_Result = result, trr_Attempts = 0,
                   trr_CreatedAt = tr_CreatedAt r, trr_FinishedAt = tr_FinishedAt r, trr_runInfo = no_info\<rparr>
                  (sc_results s)\<rparr>
            in run_map (\<lambda>s2. s2\<lparr>sc_dependencies :=
                    foldl (\<lambda>d i. d(i := d i - 1)) (sc_dependencies s2) (bt_outputs task)\<rparr>)
                 (set_result task result s1))"

fun reconstructResults :: "pipeline \<Rightarrow> task_run list \<Rightarrow> scheduler \<Rightarrow> scheduler run" where
  "reconstructResults p [] s = Ret s"
| "reconstructResults p (r # rs) s = run_bind (reconstruct_row p s r) (reconstructResults p rs)"

text \<open>The loop that schedules all tasks that can be done.\<close>

definition schedule_task :: "sched_env \<Rightarrow> pipeline \<Rightarrow> scheduler \<Rightarrow> base_task \<Rightarrow> scheduler run" where
  "schedule_task env p s task =
     run_map (\<lambda>s. s\<lparr>sc_waiting := sc_waiting s + 1\<rparr>)
       (send_task (newMemoryTaskRun env p (sc_results s) task (Vars_Copy (copy_order env) (sc_vars s))) s)"

fun schedule_doable :: "sched_env \<Rightarrow> pipeline \<Rightarrow> (nat \<times> base_task) list \<Rightarrow> scheduler \<Rightarrow> scheduler run" where
  "schedule_doable env p [] s = Ret s"
| "schedule_doable env p ((i, task) # ts) s =
     (if sc_dependencies s i \<noteq> 0 then schedule_doable env p ts s
      else if map_of (sc_results s) i \<noteq> None then schedule_doable env p ts s
      else run_bind (schedule_task env p s task) (schedule_doable env p ts))"

definition empty_scheduler :: "pipeline \<Rightarrow> vars \<Rightarrow> scheduler" where
  "empty_scheduler p vs =
     \<lparr>sc_dependencies = (\<lambda>i. if i < length (Tasks p) then of_nat (length (bt_inputs (Tasks p ! i))) else 0),
      sc_waiting = 0, sc_results = [], sc_vars = vs, sc_pending = False, sc_exiting = False,
      sc_cancelled = False, sc_taskCh = [], sc_closed = False, sc_retrying = []\<rparr>"

definition newScheduler :: "sched_env \<Rightarrow> pipeline \<Rightarrow> task_run list \<Rightarrow> vars \<Rightarrow> scheduler run" where
  "newScheduler env p rows vs =
     run_bind (reconstructResults p rows (empty_scheduler p vs))
       (schedule_doable env p (zip [0..<length (Tasks p)] (Tasks p)))"

section \<open>The loop\<close>

definition markRemaining :: "pipeline \<Rightarrow> perror \<Rightarrow> int \<Rightarrow> scheduler \<Rightarrow> scheduler" where
  "markRemaining p e now s =
     s\<lparr>sc_results := foldl (\<lambda>rs task. if map_of rs (bt_id task) \<noteq> None then rs
        else assoc_put (bt_id task)
          \<lparr>trr_ID = 0, trr_Task = task, trr_Result = \<lparr>res_Value = NilV, res_Error = Some e\<rparr>, trr_Attempts = 0,
           trr_CreatedAt = now, trr_FinishedAt = Some now, trr_runInfo = no_info\<rparr> rs)
        (sc_results s) (Tasks p)\<rparr>"

text \<open>The loop over the outputs of a finished task.\<close>

fun schedule_outputs :: "sched_env \<Rightarrow> pipeline \<Rightarrow> nat list \<Rightarrow> scheduler \<Rightarrow> scheduler run" where
  "schedule_outputs env p [] s = Ret s"
| "schedule_outputs env p (i # is) s =
     (let s1 = s\<lparr>sc_dependencies := (sc_dependencies s)(i := sc_dependencies s i - 1)\<rparr> in
      if sc_dependencies s1 i = 0
      then run_bind (schedule_task env p s1 (Tasks p ! i)) (schedule_outputs env p is)
      else schedule_outputs env p is s1)"

text \<open>What follows once the result is in the variables: leaving early, another attempt, or the outputs.\<close>

definition after_store :: "sched_env \<Rightarrow> pipeline \<Rightarrow> int \<Rightarrow> task_run_result \<Rightarrow> scheduler \<Rightarrow> scheduler run" where
  "after_store env p now result s =
     (let failed = (res_Error (trr_Result result) \<noteq> None);
          s1 = (if failed \<and> bt_FailEarly (trr_Task result)
                then markRemaining p ErrCancelled now (s\<lparr>sc_exiting := True, sc_cancelled := True\<rparr>) else s)
      in if sc_exiting s1 then Ret s1
         else if trr_Attempts result < ucast (TaskRetries (trr_Task result)) \<and> failed then
           Ret (s1\<lparr>sc_waiting := sc_waiting s1 + 1,
                   sc_retrying := sc_retrying s1 @ [\<lparr>rt_task = trr_Task result,
                     rt_vars = Vars_Copy (copy_order env) (sc_vars s1), rt_attempts = trr_Attempts result\<rparr>]\<rparr>)
         else schedule_outputs env p (bt_outputs (trr_Task result)) s1)"

definition receive :: "sched_env \<Rightarrow> pipeline \<Rightarrow> int \<Rightarrow> task_run_result \<Rightarrow> scheduler \<Rightarrow> scheduler run" where
  "receive env p now result0 s0 =
     (let i = bt_id (trr_Task result0);
          prev = attempts_at (sc_results s0) i;
          result = result0\<lparr>trr_Attempts := (if \<not> sc_exiting s0 then prev + 1 else prev)\<rparr>;
          s1 = s0\<lparr>sc_waiting := sc_waiting s0 - 1, sc_results := assoc_put i result (sc_results s0)\<rparr>
      in if ri_IsPending (trr_runInfo result) then Ret (s1\<lparr>sc_pending := True\<rparr>)
         else run_bind (set_result (trr_Task result) (trr_Result result) s1) (after_store env p now result))"

section \<open>Executing tasks\<close>

datatype task_outcome = Finished go_result run_info | Panicked string

text \<open>\<open>executeTaskRun\<close>, and the handler that recovers a panic of it.\<close>

fun executeTaskRun :: "memory_task_run \<Rightarrow> task_outcome \<Rightarrow> nat \<Rightarrow> int \<Rightarrow> int \<Rightarrow> task_run_result" where
  "executeTaskRun m (Finished res info) uuid start now =
     \<lparr>trr_ID = bt_uuid (mtr_task m), trr_Task = mtr_task m, trr_Result = res, trr_Attempts = 0,
      trr_CreatedAt = start, trr_FinishedAt = (if ri_IsPending info then None else Some now), trr_runInfo = info\<rparr>"
| "executeTaskRun m (Panicked v) uuid start now =
     \<lparr>trr_ID = uuid, trr_Task = mtr_task m,
      trr_Result = \<lparr>res_Value = NilV, res_Error = Some (ErrRunPanicked v)\<rparr>, trr_Attempts = 0,
      trr_CreatedAt = now, trr_FinishedAt = Some now, trr_runInfo = no_info\<rparr>"

definition cancelled_retry :: "retry_run \<Rightarrow> int \<Rightarrow> task_run_result" where
  "cancelled_retry t now =
     \<lparr>trr_ID = 0, trr_Task = rt_task t, trr_Result = \<lparr>res_Value = NilV, res_Error = Some ErrCancelled\<rparr>,
      trr_Attempts = 0, trr_CreatedAt = now, trr_FinishedAt = Some now, trr_runInfo = no_info\<rparr>"

record run_state =
  sched :: scheduler
  executing :: "memory_task_run list"

datatype sched_event =
    TakeTask
  | TaskDone nat task_outcome nat int int
  | RetryFires nat
  | RetryCancelled nat int
  | CloseTasks

definition remove_at :: "nat \<Rightarrow> 'a list \<Rightarrow> 'a list" where
  "remove_at k xs = take k xs @ drop (Suc k) xs"

text \<open>\<open>None\<close>: the event is not possible. Results are received only while \<open>waiting > 0\<close>.\<close>

fun sched_step :: "sched_env \<Rightarrow> pipeline \<Rightarrow> sched_event \<Rightarrow> run_state \<Rightarrow> run_state run option" where
  "sched_step env p TakeTask s =
     (case sc_taskCh (sched s) of
        [] \<Rightarrow> None
      | m # ms \<Rightarrow> Some (Ret \<lparr>sched = (sched s)\<lparr>sc_taskCh := ms\<rparr>, executing = executing s @ [m]\<rparr>))"
| "sched_step env p (TaskDone k outcome uuid start now) s =
     (if k < length (executing s) \<and> sc_waiting (sched s) \<noteq> 0 then
        Some (run_map (\<lambda>sc. \<lparr>sched = sc, executing = remove_at k (executing s)\<rparr>)
          (receive env p now (executeTaskRun (executing s ! k) outcome uuid start now) (sched s)))
      else None)"
| "sched_step env p (RetryFires k) s =
     (if k < length (sc_retrying (sched s)) then
        let t = sc_retrying (sched s) ! k;
            m = (newMemoryTaskRun env p (sc_results (sched s)) (rt_task t) (rt_vars t))\<lparr>mtr_attempts := rt_attempts t\<rparr>
        in Some (run_map (\<lambda>sc. s\<lparr>sched := sc\<rparr>)
          (send_task m ((sched s)\<lparr>sc_retrying := remove_at k (sc_retrying (sched s))\<rparr>)))
      else None)"
| "sched_step env p (RetryCancelled k now) s =
     (if k < length (sc_retrying (sched s)) \<and> sc_cancelled (sched s) \<and> sc_waiting (sched s) \<noteq> 0 then
        Some (run_map (\<lambda>sc. s\<lparr>sched := sc\<rparr>)
          (receive env p now (cancelled_retry (sc_retrying (sched s) ! k) now)
            ((sched s)\<lparr>sc_retrying := remove_at k (sc_retrying (sched s))\<rparr>)))
      else None)"
| "sched_step env p CloseTasks s =
     (if sc_waiting (sched s) = 0 \<and> \<not> sc_closed (sched s)
      then Some (Ret (s\<lparr>sched := (sched s)\<lparr>sc_closed := True\<rparr>\<rparr>)) else None)"

fun sched_run :: "sched_env \<Rightarrow> pipeline \<Rightarrow> sched_event list \<Rightarrow> run_state \<Rightarrow> run_state option" where
  "sched_run env p [] s = Some s"
| "sched_run env p (e # es) s =
     (case sched_step env p e s of Some (Ret t) \<Rightarrow> sched_run env p es t | _ \<Rightarrow> None)"

end
