(* ===== verification/SchedulerInv.thy ===== *)
theory SchedulerInv
  imports Scheduler
begin

text \<open>
  The invariant of the scheduler. \<open>core\<close> is its part about tasks, over the set \<open>L\<close> of tasks that are
  live (queued, executing, or waiting for another attempt), the results, the counters of
  unfinished inputs and the flag \<open>exiting\<close>; one lemma for each way the loop treats a result.
\<close>

section \<open>Machines that stop\<close>

text \<open>A machine whose events preserve an invariant and lower a weight does at most as many events as
  the weight of its start, whatever the events are.\<close>

fun machine_run :: "('e \<Rightarrow> 's \<Rightarrow> 's option) \<Rightarrow> 'e list \<Rightarrow> 's \<Rightarrow> 's option" where
  "machine_run step [] s = Some s"
| "machine_run step (e # es) s = (case step e s of None \<Rightarrow> None | Some t \<Rightarrow> machine_run step es t)"

locale stopping_machine =
  fixes step :: "'e \<Rightarrow> 's \<Rightarrow> 's option" and inv :: "'s \<Rightarrow> bool" and weight :: "'s \<Rightarrow> nat"
  assumes step_inv: "inv s \<Longrightarrow> step e s = Some t \<Longrightarrow> inv t"
    and step_weight: "inv s \<Longrightarrow> step e s = Some t \<Longrightarrow> weight t < weight s"
begin

lemma run_inv: "inv s \<Longrightarrow> machine_run step es s = Some t \<Longrightarrow> inv t"
  by (induction es arbitrary: s) (auto split: option.splits intro: step_inv)

lemma run_bounded: "inv s \<Longrightarrow> machine_run step es s = Some t \<Longrightarrow> length es + weight t \<le> weight s"
proof (induction es arbitrary: s)
  case (Cons e es)
  then obtain u where u: "step e s = Some u" "machine_run step es u = Some t" by (auto split: option.splits)
  have "length es + weight t \<le> weight u" by (rule Cons.IH [OF step_inv [OF Cons.prems(1) u(1)] u(2)])
  with step_weight [OF Cons.prems(1) u(1)] show ?case by simp
qed simp

lemma runs_to_the_end: "inv s \<Longrightarrow> \<exists>es t. machine_run step es s = Some t \<and> (\<forall>e. step e t = None)"
proof (induction "weight s" arbitrary: s rule: less_induct)
  case less
  show ?case
  proof (cases "\<exists>e t. step e s = Some t")
    case True
    then obtain e t where t: "step e s = Some t" by blast
    obtain es u where "machine_run step es t = Some u" "\<forall>e. step e u = None"
      using less.hyps [OF step_weight [OF less.prems t] step_inv [OF less.prems t]] by blast
    then show ?thesis using t by (intro exI [of _ "e # es"] exI [of _ u]) simp
  next
    case False
    then have "step e s = None" for e by (cases "step e s") auto
    then show ?thesis by (intro exI [of _ "[]"] exI [of _ s]) simp
  qed
qed

end

section \<open>Tasks\<close>

definition retries_of :: "base_task \<Rightarrow> nat" where
  "retries_of t = unat (TaskRetries t)"

definition max_attempts :: "base_task \<Rightarrow> nat" where
  "max_attempts t = max 1 (retries_of t)"

type_synonym result_map = "nat \<Rightarrow> task_run_result option"

definition is_pending :: "task_run_result \<Rightarrow> bool" where
  "is_pending r = ri_IsPending (trr_runInfo r)"

definition failed :: "task_run_result \<Rightarrow> bool" where
  "failed r \<longleftrightarrow> res_Error (trr_Result r) \<noteq> None"

definition final :: "nat set \<Rightarrow> result_map \<Rightarrow> nat \<Rightarrow> bool" where
  "final L res i \<longleftrightarrow> i \<notin> L \<and> (\<exists>r. res i = Some r \<and> \<not> is_pending r)"

text \<open>\<open>U\<close> is the set of tasks whose results a resumed run starts with.\<close>

definition going :: "base_task list \<Rightarrow> nat set \<Rightarrow> nat set \<Rightarrow> result_map \<Rightarrow> (nat \<Rightarrow> 64 word) \<Rightarrow> bool" where
  "going ts U L res deps \<longleftrightarrow>
     (\<forall>i\<in>U. res i \<noteq> None)
     \<and> (\<forall>i<length ts. unat (deps i) = card {j \<in> set (td_ids (ts ! i)). \<not> final L res j}
        \<and> (deps i = 0 \<longrightarrow> i \<in> L \<or> res i \<noteq> None)
        \<and> (i \<in> L \<or> res i \<noteq> None \<longrightarrow> (\<forall>j\<in>set (td_ids (ts ! i)). final L res j)))
     \<and> (\<forall>i r. res i = Some r \<longrightarrow> (i \<in> L \<longrightarrow> failed r \<and> i \<notin> U \<and> 0 < unat (trr_Attempts r)
             \<and> unat (trr_Attempts r) < retries_of (ts ! i))
          \<and> (i \<notin> U \<longrightarrow> 0 < unat (trr_Attempts r))
          \<and> (i \<notin> L \<and> \<not> is_pending r \<and> failed r \<and> i \<notin> U
               \<longrightarrow> retries_of (ts ! i) \<le> unat (trr_Attempts r) \<and> \<not> bt_FailEarly (ts ! i)))"

definition core :: "base_task list \<Rightarrow> nat set \<Rightarrow> nat set \<Rightarrow> result_map \<Rightarrow> (nat \<Rightarrow> 64 word) \<Rightarrow> bool \<Rightarrow> bool" where
  "core ts U L res deps ex \<longleftrightarrow>
     (\<forall>i\<in>L. i < length ts \<and> (\<forall>j\<in>set (td_ids (ts ! i)). final L res j))
     \<and> (\<forall>i r. res i = Some r \<longrightarrow> i < length ts \<and> trr_Task r = ts ! i
          \<and> unat (trr_Attempts r) \<le> max_attempts (ts ! i) \<and> (i \<in> L \<longrightarrow> \<not> is_pending r
              \<and> unat (trr_Attempts r) < max_attempts (ts ! i)))
     \<and> (if ex then (\<forall>i<length ts. res i \<noteq> None)
            \<and> (\<exists>i r. res i = Some r \<and> i \<notin> L \<and> \<not> is_pending r \<and> failed r \<and> bt_FailEarly (ts ! i))
        else going ts U L res deps)"

definition mark_res :: "base_task list \<Rightarrow> perror \<Rightarrow> int \<Rightarrow> result_map \<Rightarrow> result_map" where
  "mark_res ts e now res = (\<lambda>i. if i < length ts \<and> res i = None
     then Some \<lparr>trr_ID = 0, trr_Task = ts ! i, trr_Result = \<lparr>res_Value = NilV, res_Error = Some e\<rparr>, trr_Attempts = 0,
           trr_CreatedAt = now, trr_FinishedAt = Some now, trr_runInfo = no_info\<rparr> else res i)"

lemma final_grows:
  assumes "final L res j" "i \<in> L"
  shows "final (L - {i}) (res(i \<mapsto> r)) j" "final L (res(i \<mapsto> r)) j" "final (L - {i}) (mark_res ts e now (res(i \<mapsto> r))) j"
  using assms by (auto simp: final_def mark_res_def)

lemma coreD:
  assumes "core ts U L res deps ex"
  shows "i \<in> L \<Longrightarrow> i < length ts" "i \<in> L \<Longrightarrow> j \<in> set (td_ids (ts ! i)) \<Longrightarrow> final L res j"
    "res i = Some r \<Longrightarrow> i < length ts \<and> trr_Task r = ts ! i \<and> unat (trr_Attempts r) \<le> max_attempts (ts ! i)"
    "res i = Some r \<Longrightarrow> i \<in> L \<Longrightarrow> \<not> is_pending r \<and> unat (trr_Attempts r) < max_attempts (ts ! i)"
  using assms by (auto simp: core_def)

text \<open>No task is its own input.\<close>

lemma no_self_input: "well_linked ts \<Longrightarrow> i < length ts \<Longrightarrow> i \<notin> set (td_ids (ts ! i))"
  unfolding well_linked_def by blast

text \<open>The task finishes for now: pending, or while the run is being left.\<close>

lemma core_leave:
  assumes "core ts U L res deps ex" "well_linked ts" "i \<in> L" "trr_Task r = ts ! i"
    and "unat (trr_Attempts r) \<le> max_attempts (ts ! i)" "\<not> ex \<Longrightarrow> is_pending r \<and> 0 < unat (trr_Attempts r)"
  shows "core ts U (L - {i}) (res(i \<mapsto> r)) deps ex"
proof -
  note c = coreD [OF assms(1)]
  have i: "i < length ts" using c(1) [OF assms(3)] .
  have live: "\<forall>k\<in>L - {i}. k < length ts \<and> (\<forall>j\<in>set (td_ids (ts ! k)). final (L - {i}) (res(i \<mapsto> r)) j)"
    using c(1,2) final_grows(1) [OF _ assms(3)] by blast
  show ?thesis
  proof (cases ex)
    case True
    then show ?thesis using live assms(1,3,4,5) i unfolding core_def by auto
  next
    case False
    have nf: "final (L - {i}) (res(i \<mapsto> r)) j = final L res j" for j
      using assms(3,6) False by (auto simp: final_def)
    have "going ts U L res deps" using assms(1) False by (simp add: core_def)
    then have "going ts U (L - {i}) (res(i \<mapsto> r)) deps"
      unfolding going_def nf using assms(3,6) False c(2) by (auto; blast)
    then show ?thesis using live assms(1,3,4,5) i False unfolding core_def by auto
  qed
qed

text \<open>The task has an error and another attempt left.\<close>

lemma live_not_resumed: "going ts U L res deps \<Longrightarrow> i \<in> L \<Longrightarrow> i \<notin> U"
  unfolding going_def by (metis not_None_eq)

lemma core_retry:
  assumes "core ts U L res deps False" "i \<in> L" "trr_Task r = ts ! i" "failed r" "\<not> is_pending r"
    and "0 < unat (trr_Attempts r)" "unat (trr_Attempts r) < retries_of (ts ! i)"
  shows "core ts U L (res(i \<mapsto> r)) deps False"
proof -
  note c = coreD [OF assms(1)]
  have g: "going ts U L res deps" using assms(1) by (simp add: core_def)
  have nf: "final L (res(i \<mapsto> r)) j = final L res j" for j
    using assms(2) by (auto simp: final_def)
  have "going ts U L (res(i \<mapsto> r)) deps"
    using g live_not_resumed [OF g assms(2)] assms(2,4-7) c(2) unfolding going_def nf by (auto; blast)
  then show ?thesis
    using assms c(1,2) unfolding core_def nf by (auto simp: max_attempts_def)
qed

text \<open>The task has an error and ends the run early.\<close>

lemma core_fail:
  assumes "core ts U L res deps ex" "i \<in> L" "trr_Task r = ts ! i" "failed r" "\<not> is_pending r" "bt_FailEarly (ts ! i)"
    and "unat (trr_Attempts r) \<le> max_attempts (ts ! i)"
  shows "core ts U (L - {i}) (mark_res ts e now (res(i \<mapsto> r))) deps True"
proof -
  note c = coreD [OF assms(1)]
  have i: "i < length ts" using c(1) [OF assms(2)] .
  have "\<forall>k\<in>L - {i}. k < length ts
      \<and> (\<forall>j\<in>set (td_ids (ts ! k)). final (L - {i}) (mark_res ts e now (res(i \<mapsto> r))) j)"
    using c(1,2) final_grows(3) [OF _ assms(2)] by blast
  moreover have "\<exists>k r'. mark_res ts e now (res(i \<mapsto> r)) k = Some r' \<and> k \<notin> L - {i} \<and> \<not> is_pending r'
      \<and> failed r' \<and> bt_FailEarly (ts ! k)"
    using assms by (intro exI [of _ i] exI [of _ r]) (simp add: mark_res_def)
  moreover have "mark_res ts e now (res(i \<mapsto> r)) k \<noteq> None" if "k < length ts" for k
    using that by (simp add: mark_res_def)
  moreover have "k < length ts \<and> trr_Task r' = ts ! k \<and> unat (trr_Attempts r') \<le> max_attempts (ts ! k)
      \<and> (k \<in> L - {i} \<longrightarrow> \<not> is_pending r' \<and> unat (trr_Attempts r') < max_attempts (ts ! k))"
    if k: "mark_res ts e now (res(i \<mapsto> r)) k = Some r'" for k r'
  proof (cases "k < length ts \<and> (res(i \<mapsto> r)) k = None")
    case True
    then show ?thesis using k
      by (auto simp: mark_res_def is_pending_def no_info_def max_attempts_def)
  next
    case False
    then have "(res(i \<mapsto> r)) k = Some r'" using k by (auto simp: mark_res_def split: if_splits)
    then show ?thesis using c(3,4) [of k r'] assms i by (cases "k = i") auto
  qed
  ultimately show ?thesis unfolding core_def if_True by blast
qed

text \<open>The task is done; its outputs that waited for nothing else become live.\<close>

definition lowered :: "nat list \<Rightarrow> (nat \<Rightarrow> 64 word) \<Rightarrow> nat \<Rightarrow> 64 word" where
  "lowered os deps = (\<lambda>k. if k \<in> set os then deps k - 1 else deps k)"

lemma unat_pred: "(w :: 64 word) \<noteq> 0 \<Longrightarrow> unat (w - 1) = unat w - 1"
  by (simp add: unat_minus_one)

lemma outputs_iff: "well_linked ts \<Longrightarrow> i < length ts \<Longrightarrow>
    k \<in> set (bt_outputs (ts ! i)) \<longleftrightarrow> k < length ts \<and> i \<in> set (td_ids (ts ! k))"
  unfolding well_linked_def by blast

lemma core_done:
  assumes "core ts U L res deps False" "well_linked ts" "i \<in> L" "trr_Task r = ts ! i" "\<not> is_pending r"
    and "failed r \<Longrightarrow> retries_of (ts ! i) \<le> unat (trr_Attempts r) \<and> \<not> bt_FailEarly (ts ! i)"
    and "0 < unat (trr_Attempts r)" "unat (trr_Attempts r) \<le> max_attempts (ts ! i)"
    and deps': "deps' = lowered (bt_outputs (ts ! i)) deps"
    and new: "new = {k \<in> set (bt_outputs (ts ! i)). deps' k = 0}"
  shows "core ts U (L - {i} \<union> new) (res(i \<mapsto> r)) deps' False"
    and "\<forall>k\<in>set (bt_outputs (ts ! i)). k < length ts \<and> k \<notin> L \<and> res k = None \<and> k \<noteq> i \<and> deps k \<noteq> 0"
proof -
  note c = coreD [OF assms(1)]
  have g: "going ts U L res deps" using assms(1) by (simp add: core_def)
  have i: "i < length ts" using c(1) [OF assms(3)] .
  have ni: "\<not> final L res i" using assms(3) by (simp add: final_def)
  have out: "k < length ts \<and> k \<notin> L \<and> res k = None \<and> k \<noteq> i \<and> deps k \<noteq> 0"
    if "k \<in> set (bt_outputs (ts ! i))" for k
  proof -
    have k: "k < length ts" "i \<in> set (td_ids (ts ! k))"
      using outputs_iff [OF assms(2) i] that by blast+
    then have kn: "k \<notin> L" "res k = None" using g ni unfolding going_def by blast+
    then have "deps k \<noteq> 0" using g k(1) unfolding going_def by blast
    then show ?thesis using k kn assms(3) by blast
  qed
  then show "\<forall>k\<in>set (bt_outputs (ts ! i)). k < length ts \<and> k \<notin> L \<and> res k = None \<and> k \<noteq> i \<and> deps k \<noteq> 0"
    by blast
  let ?L = "L - {i} \<union> new" and ?res = "res(i \<mapsto> r)"
  have newout: "k \<in> new \<Longrightarrow> k < length ts \<and> k \<notin> L \<and> res k = None \<and> k \<noteq> i" for k
    using out new by blast
  have fin: "final ?L ?res j \<longleftrightarrow> final L res j \<or> j = i" for j
    using newout [of j] assms(3,5) by (auto simp: final_def)
  have cnt: "unat (deps' k) = card {j \<in> set (td_ids (ts ! k)). \<not> final ?L ?res j}" if k: "k < length ts" for k
  proof (cases "k \<in> set (bt_outputs (ts ! i))")
    case True
    then have "i \<in> set (td_ids (ts ! k))" using outputs_iff [OF assms(2) i] by blast
    then have "{j \<in> set (td_ids (ts ! k)). \<not> final ?L ?res j} = {j \<in> set (td_ids (ts ! k)). \<not> final L res j} - {i}"
      "i \<in> {j \<in> set (td_ids (ts ! k)). \<not> final L res j}"
      using fin ni by auto
    moreover have "unat (deps k) = card {j \<in> set (td_ids (ts ! k)). \<not> final L res j}"
      using g k unfolding going_def by blast
    moreover have "unat (deps' k) = unat (deps k) - 1"
      using True out unat_pred by (simp add: deps' lowered_def)
    ultimately show ?thesis by (simp add: card_Diff_singleton)
  next
    case False
    then have "i \<notin> set (td_ids (ts ! k))" using outputs_iff [OF assms(2) i] k by blast
    then have "{j \<in> set (td_ids (ts ! k)). \<not> final ?L ?res j} = {j \<in> set (td_ids (ts ! k)). \<not> final L res j}"
      using fin by auto
    then show ?thesis using False g k unfolding going_def by (simp add: deps' lowered_def)
  qed
  have ready: "\<forall>j\<in>set (td_ids (ts ! k)). final ?L ?res j" if "k \<in> new" for k
  proof -
    have "deps' k = 0" "k < length ts" using that new out by blast+
    then have "card {j \<in> set (td_ids (ts ! k)). \<not> final ?L ?res j} = 0" using cnt by (metis unat_0)
    moreover have "finite {j \<in> set (td_ids (ts ! k)). \<not> final ?L ?res j}" by simp
    ultimately have "{j \<in> set (td_ids (ts ! k)). \<not> final ?L ?res j} = {}" using card_0_eq by blast
    then show ?thesis by blast
  qed
  have ins: "k \<in> ?L \<or> ?res k \<noteq> None \<Longrightarrow> k < length ts \<Longrightarrow> \<forall>j\<in>set (td_ids (ts ! k)). final ?L ?res j" for k
    using ready [of k] g c(2) [OF assms(3)] fin unfolding going_def
    by (cases "k \<in> new"; cases "k = i") (auto; blast)+
  have zero: "k \<in> ?L \<or> ?res k \<noteq> None" if "k < length ts" "deps' k = 0" for k
  proof (cases "k \<in> set (bt_outputs (ts ! i))")
    case True
    then show ?thesis using that new by blast
  next
    case False
    then have "deps k = 0" using that by (simp add: deps' lowered_def)
    then show ?thesis using g that unfolding going_def by auto
  qed
  have "going ts U ?L ?res deps'"
    unfolding going_def
  proof (intro conjI allI impI ballI)
    show "?res k \<noteq> None" if "k \<in> U" for k using g that unfolding going_def by auto
    show "unat (deps' k) = card {j \<in> set (td_ids (ts ! k)). \<not> final ?L ?res j}" if "k < length ts" for k
      by (rule cnt [OF that])
    show "k \<in> ?L \<or> ?res k \<noteq> None" if "k < length ts" "deps' k = 0" for k by (rule zero [OF that])
    show "final ?L ?res j" if "k < length ts" "k \<in> ?L \<or> ?res k \<noteq> None" "j \<in> set (td_ids (ts ! k))" for k j
      using ins that by blast
    fix k r' assume k: "?res k = Some r'"
    have old: "k \<noteq> i \<Longrightarrow> res k = Some r'" using k by simp
    have nn: "k \<notin> new" using k newout [of k] by auto
    show "0 < unat (trr_Attempts r')" if "k \<notin> U"
      using g k that assms(7) unfolding going_def by (cases "k = i") auto
    show "failed r'" "k \<notin> U" "0 < unat (trr_Attempts r')" "unat (trr_Attempts r') < retries_of (ts ! k)" if "k \<in> ?L"
      using g old that nn unfolding going_def by auto
    show "retries_of (ts ! k) \<le> unat (trr_Attempts r')" "\<not> bt_FailEarly (ts ! k)"
      if "k \<notin> ?L \<and> \<not> is_pending r' \<and> failed r' \<and> k \<notin> U"
      using g k that assms(6) unfolding going_def by (cases "k = i"; auto)+
  qed
  moreover have "\<forall>k\<in>?L. k < length ts \<and> (\<forall>j\<in>set (td_ids (ts ! k)). final ?L ?res j)"
    using ins newout c(1) by blast
  moreover have "i \<notin> new" using newout by blast
  ultimately show "core ts U ?L ?res deps' False"
    using c(3,4) assms(4,8) i newout unfolding core_def by auto
qed

end
