(* ===== verification/SchedulerRuns.thy ===== *)
theory SchedulerRuns
  imports SchedulerInv
begin

text \<open>
  The invariant of a whole run: \<open>core\<close> for the live tasks, the counter \<open>waiting\<close>, the channel, and what the
  tasks are given to read. \<open>sched_inv\<close> has a list \<open>X\<close> of tasks whose result is in hand: empty between events,
  one task while the loop treats its result. Every event preserves it and lowers \<open>run_weight\<close>.
\<close>

section \<open>The invariant\<close>

definition task_name :: "pipeline \<Rightarrow> nat \<Rightarrow> string" where
  "task_name p i = TrimSpace (bt_dotID (Tasks p ! i))"

text \<open>The names that \<open>Vars.Set\<close> takes.\<close>

definition names_ok :: "pipeline \<Rightarrow> bool" where
  "names_ok p \<longleftrightarrow> distinct (map (task_name p) [0..<length (Tasks p)])
     \<and> (\<forall>i<length (Tasks p). task_name p i \<noteq> [] \<and> KeypathSeparator \<notin> set (task_name p i))"

definition sched_env_ok :: "sched_env \<Rightarrow> bool" where
  "sched_env_ok env \<longleftrightarrow> iteration_order (copy_order env) \<and> iteration_order (input_ties env)"

definition pipeline_ok :: "pipeline \<Rightarrow> bool" where
  "pipeline_ok p \<longleftrightarrow> well_linked (Tasks p) \<and> names_ok p \<and> length (Tasks p) < 2 ^ 64"

definition live_list :: "run_state \<Rightarrow> nat list" where
  "live_list s = map (\<lambda>m. bt_id (mtr_task m)) (sc_taskCh (sched s)) @ map (\<lambda>m. bt_id (mtr_task m)) (executing s)
     @ map (\<lambda>t. bt_id (rt_task t)) (sc_retrying (sched s))"

definition knows :: "pipeline \<Rightarrow> (nat \<times> task_run_result) list \<Rightarrow> nat \<Rightarrow> vars \<Rightarrow> bool" where
  "knows p rs i vs \<longleftrightarrow> (\<forall>j\<in>set (td_ids (Tasks p ! i)).
     map_of vs (task_name p j) = Some (stored_value (result_at rs j)))"

definition good_run :: "sched_env \<Rightarrow> pipeline \<Rightarrow> (nat \<times> task_run_result) list \<Rightarrow> memory_task_run \<Rightarrow> bool" where
  "good_run env p rs m \<longleftrightarrow> (let i = bt_id (mtr_task m) in mtr_task m = Tasks p ! i
     \<and> mtr_inputs m = sorted_inputs env p rs (Tasks p ! i) \<and> mtr_attempts m = attempts_at rs i
     \<and> knows p rs i (mtr_vars m))"

definition good_retry :: "pipeline \<Rightarrow> (nat \<times> task_run_result) list \<Rightarrow> retry_run \<Rightarrow> bool" where
  "good_retry p rs t \<longleftrightarrow> (let i = bt_id (rt_task t) in rt_task t = Tasks p ! i
     \<and> rt_attempts t = attempts_at rs i \<and> map_of rs i \<noteq> None \<and> knows p rs i (rt_vars t))"

definition sched_inv :: "sched_env \<Rightarrow> pipeline \<Rightarrow> nat set \<Rightarrow> nat list \<Rightarrow> run_state \<Rightarrow> bool" where
  "sched_inv env p U X s \<longleftrightarrow>
     (let sc = sched s; res = map_of (sc_results sc); L = set (X @ live_list s) in
      core (Tasks p) U L res (sc_dependencies sc) (sc_exiting sc)
      \<and> distinct (X @ live_list s) \<and> unat (sc_waiting sc) = length (X @ live_list s)
      \<and> (sc_closed sc \<longrightarrow> sc_waiting sc = 0) \<and> sc_cancelled sc = sc_exiting sc
      \<and> (sc_pending sc \<longleftrightarrow> (\<exists>i r. res i = Some r \<and> is_pending r))
      \<and> distinct (map fst (sc_results sc)) \<and> distinct (map fst (sc_vars sc))
      \<and> list_all (good_run env p (sc_results sc)) (sc_taskCh sc @ executing s)
      \<and> list_all (good_retry p (sc_results sc)) (sc_retrying sc)
      \<and> (\<not> sc_exiting sc \<longrightarrow> (\<forall>j. final L res j \<longrightarrow>
            map_of (sc_vars sc) (task_name p j) = Some (stored_value (result_at (sc_results sc) j)))))"

lemma sched_invI:
  assumes "L = set (X @ live_list s)" "res = map_of (sc_results (sched s))"
    and "core (Tasks p) U L res (sc_dependencies (sched s)) (sc_exiting (sched s))"
    and "distinct (X @ live_list s)" "unat (sc_waiting (sched s)) = length (X @ live_list s)"
    and "sc_closed (sched s) \<Longrightarrow> sc_waiting (sched s) = 0" "sc_cancelled (sched s) = sc_exiting (sched s)"
    and "sc_pending (sched s) \<longleftrightarrow> (\<exists>i r. res i = Some r \<and> is_pending r)"
    and "distinct (map fst (sc_results (sched s)))" "distinct (map fst (sc_vars (sched s)))"
    and "list_all (good_run env p (sc_results (sched s))) (sc_taskCh (sched s) @ executing s)"
    and "list_all (good_retry p (sc_results (sched s))) (sc_retrying (sched s))"
    and "\<And>j. \<not> sc_exiting (sched s) \<Longrightarrow> final L res j \<Longrightarrow>
      map_of (sc_vars (sched s)) (task_name p j) = Some (stored_value (result_at (sc_results (sched s)) j))"
  shows "sched_inv env p U X s"
  unfolding sched_inv_def Let_def using assms by blast

section \<open>Variables\<close>

lemma foldl_assoc_put_distinct: "distinct (map fst m0) \<Longrightarrow> distinct (map fst (foldl (\<lambda>m (k, v). assoc_put k v m) m0 xs))"
  by (induction xs arbitrary: m0) auto

lemma map_of_foldl_assoc_put:
  "distinct (map fst xs) \<Longrightarrow> map_of (foldl (\<lambda>m (k, v). assoc_put k v m) m0 xs) = map_of m0 ++ map_of xs"
proof (induction xs arbitrary: m0)
  case (Cons a xs)
  obtain k v where a: "a = (k, v)" by (cases a)
  have none: "map_of xs k = None" using Cons.prems by (auto simp: a map_of_eq_None_iff)
  have "map_of (assoc_put k v m0) ++ map_of xs = map_of m0 ++ map_of (a # xs)"
  proof
    fix x show "(map_of (assoc_put k v m0) ++ map_of xs) x = (map_of m0 ++ map_of (a # xs)) x"
      using none by (cases "x = k"; cases "map_of xs x") (simp_all add: a map_add_def)
  qed
  moreover have "map_of (foldl (\<lambda>m (k, v). assoc_put k v m) (assoc_put k v m0) xs) = map_of (assoc_put k v m0) ++ map_of xs"
    by (rule Cons.IH) (use Cons.prems in simp)
  ultimately show ?case by (simp only: a foldl_Cons prod.case)
qed simp

lemma map_of_Vars_Copy:
  assumes "sched_env_ok env" "distinct (map fst vs)"
  shows "map_of (Vars_Copy (copy_order env) vs) = map_of vs"
proof -
  have o: "iteration_order (copy_order env)" using assms(1) by (simp add: sched_env_ok_def)
  then have m: "mset (copy_order env vs) = mset vs" by (simp add: iteration_order_def)
  then have "mset (map fst (copy_order env vs)) = mset (map fst vs)" by simp
  then have d: "distinct (map fst (copy_order env vs))" using assms(2) mset_eq_imp_distinct_iff by blast
  have "map_of (copy_order env vs) = map_of vs"
    using map_of_inject_set [OF d assms(2)] mset_eq_setD [OF m] by blast
  then show ?thesis
    by (simp add: Vars_Copy_def NewVarsFrom_def map_of_foldl_assoc_put [OF d])
qed

lemma set_result_ok:
  assumes "names_ok p" "i < length (Tasks p)" "task = Tasks p ! i"
  shows "set_result task r s = Ret (s\<lparr>sc_vars := assoc_put (task_name p i) (stored_value r) (sc_vars s)\<rparr>)"
  using assms by (simp add: set_result_def Vars_Set_def names_ok_def task_name_def Let_def)

lemma task_name_inj:
  assumes "names_ok p" "i < length (Tasks p)" "j < length (Tasks p)"
  shows "task_name p i = task_name p j \<longleftrightarrow> i = j"
proof -
  have "inj_on (task_name p) {0..<length (Tasks p)}" using assms(1) by (simp add: names_ok_def distinct_map)
  then show ?thesis using assms(2,3) by (simp add: inj_on_eq_iff)
qed

section \<open>The loops of the scheduler in closed form\<close>

definition new_run :: "sched_env \<Rightarrow> pipeline \<Rightarrow> scheduler \<Rightarrow> nat \<Rightarrow> memory_task_run" where
  "new_run env p s i = newMemoryTaskRun env p (sc_results s) (Tasks p ! i) (Vars_Copy (copy_order env) (sc_vars s))"

lemma new_run_same [simp]:
  "new_run env p (s\<lparr>sc_dependencies := d\<rparr>) = new_run env p s" "new_run env p (s\<lparr>sc_taskCh := c\<rparr>) = new_run env p s"
  "new_run env p (s\<lparr>sc_waiting := w\<rparr>) = new_run env p s"
  by (simp_all add: new_run_def fun_eq_iff)

lemma schedule_outputs_eq:
  "distinct os \<Longrightarrow> \<not> sc_closed s \<Longrightarrow> schedule_outputs env p os s
    = Ret (s\<lparr>sc_dependencies := lowered os (sc_dependencies s),
             sc_taskCh := sc_taskCh s @ map (new_run env p s) (filter (\<lambda>k. sc_dependencies s k = 1) os),
             sc_waiting := sc_waiting s + of_nat (length (filter (\<lambda>k. sc_dependencies s k = 1) os))\<rparr>)"
proof (induction os arbitrary: s)
  case Nil
  then show ?case by (simp add: lowered_def)
next
  case (Cons o1 os)
  let ?d = "sc_dependencies s"
  have new: "o1 \<notin> set os" "distinct os" using Cons.prems(1) by simp_all
  then have low: "lowered os (?d(o1 := d1)) = (lowered os ?d)(o1 := d1)" for d1
    by (auto simp: lowered_def fun_eq_iff)
  have low1: "lowered (o1 # os) ?d = (lowered os ?d)(o1 := ?d o1 - 1)"
    using new by (auto simp: lowered_def fun_eq_iff)
  have fl: "filter (\<lambda>k. (?d(o1 := d1)) k = 1) os = filter (\<lambda>k. ?d k = 1) os" for d1
    using new by (intro filter_cong) auto
  show ?case
  proof (cases "?d o1 = 1")
    case True
    let ?s1 = "s\<lparr>sc_dependencies := ?d(o1 := 0), sc_taskCh := sc_taskCh s @ [new_run env p s o1],
      sc_waiting := sc_waiting s + 1\<rparr>"
    have "schedule_outputs env p (o1 # os) s = schedule_outputs env p os ?s1"
      using Cons.prems(2) True by (simp add: Let_def schedule_task_def send_task_def new_run_def)
    also have "\<dots> = Ret (?s1\<lparr>sc_dependencies := lowered os (sc_dependencies ?s1),
             sc_taskCh := sc_taskCh ?s1 @ map (new_run env p ?s1) (filter (\<lambda>k. sc_dependencies ?s1 k = 1) os),
             sc_waiting := sc_waiting ?s1 + of_nat (length (filter (\<lambda>k. sc_dependencies ?s1 k = 1) os))\<rparr>)"
      by (rule Cons.IH) (use new Cons.prems(2) in simp_all)
    finally show ?thesis
      using True by (simp add: low low1 fl add.assoc del: fun_upd_apply)
  next
    case False
    let ?s1 = "s\<lparr>sc_dependencies := ?d(o1 := ?d o1 - 1)\<rparr>"
    have "schedule_outputs env p (o1 # os) s = schedule_outputs env p os ?s1"
      using False by (simp add: Let_def)
    also have "\<dots> = Ret (?s1\<lparr>sc_dependencies := lowered os (sc_dependencies ?s1),
             sc_taskCh := sc_taskCh ?s1 @ map (new_run env p ?s1) (filter (\<lambda>k. sc_dependencies ?s1 k = 1) os),
             sc_waiting := sc_waiting ?s1 + of_nat (length (filter (\<lambda>k. sc_dependencies ?s1 k = 1) os))\<rparr>)"
      by (rule Cons.IH) (use new Cons.prems(2) in simp_all)
    finally show ?thesis
      using False by (simp add: low low1 fl del: fun_upd_apply)
  qed
qed

lemma foldl_mark:
  "map_of (foldl (\<lambda>rs task. if map_of rs (f task) \<noteq> None then rs else assoc_put (f task) (g task) rs) rs0 ts)
    = (\<lambda>i. case map_of rs0 i of Some r \<Rightarrow> Some r
        | None \<Rightarrow> (case find (\<lambda>t. f t = i) ts of None \<Rightarrow> None | Some t \<Rightarrow> Some (g t)))"
  by (induction ts arbitrary: rs0) (auto simp: fun_eq_iff split: option.splits)

lemma foldl_mark_distinct:
  "distinct (map fst rs0) \<Longrightarrow>
   distinct (map fst (foldl (\<lambda>rs task. if map_of rs (f task) \<noteq> None then rs else assoc_put (f task) (g task) rs) rs0 ts))"
  by (induction ts arbitrary: rs0) auto

lemma find_by_id:
  assumes "well_linked ts"
  shows "find (\<lambda>t. bt_id t = i) ts = (if i < length ts then Some (ts ! i) else None)"
proof (cases "i < length ts")
  case True
  have ids: "\<forall>k<length ts. bt_id (ts ! k) = k" using assms by (simp add: well_linked_def)
  have "find (\<lambda>t. bt_id t = i) ts = Some (ts ! i)"
    unfolding find_Some_iff using True ids by (intro exI [of _ i]) simp
  with True show ?thesis by simp
next
  case False
  have "\<forall>k<length ts. bt_id (ts ! k) = k" using assms by (simp add: well_linked_def)
  then show ?thesis using False by (auto simp: find_None_iff in_set_conv_nth)
qed

lemma markRemaining_results:
  "well_linked (Tasks p) \<Longrightarrow>
   map_of (sc_results (markRemaining p e now s)) = mark_res (Tasks p) e now (map_of (sc_results s))"
  unfolding markRemaining_def
  by (auto simp: foldl_mark find_by_id mark_res_def fun_eq_iff split: option.splits simp del: not_None_eq)

lemma markRemaining_distinct:
  "distinct (map fst (sc_results s)) \<Longrightarrow> distinct (map fst (sc_results (markRemaining p e now s)))"
  unfolding markRemaining_def by (simp add: foldl_mark_distinct del: not_None_eq)

lemma markRemaining_rest:
  "sc_dependencies (markRemaining p e now s) = sc_dependencies s" "sc_waiting (markRemaining p e now s) = sc_waiting s"
  "sc_vars (markRemaining p e now s) = sc_vars s" "sc_pending (markRemaining p e now s) = sc_pending s"
  "sc_exiting (markRemaining p e now s) = sc_exiting s" "sc_cancelled (markRemaining p e now s) = sc_cancelled s"
  "sc_taskCh (markRemaining p e now s) = sc_taskCh s" "sc_closed (markRemaining p e now s) = sc_closed s"
  "sc_retrying (markRemaining p e now s) = sc_retrying s"
  by (simp_all add: markRemaining_def)

section \<open>Weights\<close>

definition pot :: "base_task list \<Rightarrow> nat set \<Rightarrow> result_map \<Rightarrow> nat \<Rightarrow> nat" where
  "pot ts L res k =
     (if k \<in> L then 3 * (max_attempts (ts ! k) - (case res k of None \<Rightarrow> 0 | Some r \<Rightarrow> unat (trr_Attempts r)) - 1)
      else if res k \<noteq> None then 0 else 3 * max_attempts (ts ! k))"

definition potsum :: "base_task list \<Rightarrow> nat set \<Rightarrow> result_map \<Rightarrow> nat" where
  "potsum ts L res = sum (pot ts L res) {..<length ts}"

definition state_weight :: "pipeline \<Rightarrow> nat list \<Rightarrow> run_state \<Rightarrow> nat" where
  "state_weight p X s = potsum (Tasks p) (set (X @ live_list s)) (map_of (sc_results (sched s)))
     + 2 * length (sc_taskCh (sched s)) + length (executing s) + 3 * length (sc_retrying (sched s))
     + (if sc_closed (sched s) then 0 else 1)"

definition run_weight :: "pipeline \<Rightarrow> run_state \<Rightarrow> nat" where
  "run_weight p s = state_weight p [] s"

lemma max_attempts_pos: "0 < max_attempts t"
  by (simp add: max_attempts_def)

lemma potsum_leave: "potsum ts (L - {i}) (res(i \<mapsto> r)) \<le> potsum ts L res"
  unfolding potsum_def by (rule sum_mono) (auto simp: pot_def)

lemma potsum_mark: "potsum ts (L - {i}) (mark_res ts e now (res(i \<mapsto> r))) \<le> potsum ts L res"
  unfolding potsum_def by (rule sum_mono) (auto simp: pot_def mark_res_def split: option.splits)

lemma potsum_retry:
  assumes "i \<in> L" "i < length ts" "(case res i of None \<Rightarrow> 0 | Some r0 \<Rightarrow> unat (trr_Attempts r0)) + 1 = unat (trr_Attempts r)"
    and "unat (trr_Attempts r) < max_attempts (ts ! i)"
  shows "potsum ts L (res(i \<mapsto> r)) + 3 \<le> potsum ts L res"
proof -
  have "potsum ts L (res(i \<mapsto> r)) + 3
      = (\<Sum>k<length ts. pot ts L (res(i \<mapsto> r)) k + (if k = i then 3 else 0))"
    using assms(2) by (simp add: potsum_def sum.distrib)
  also have "\<dots> \<le> potsum ts L res"
    unfolding potsum_def
  proof (rule sum_mono)
    fix k
    show "pot ts L (res(i \<mapsto> r)) k + (if k = i then 3 else 0) \<le> pot ts L res k"
      using assms by (cases "k = i") (auto simp: pot_def split: option.splits)
  qed
  finally show ?thesis .
qed

lemma potsum_done:
  assumes "new \<subseteq> {..<length ts}" "\<forall>k\<in>new. k \<notin> L \<and> res k = None \<and> k \<noteq> i"
  shows "potsum ts (L - {i} \<union> new) (res(i \<mapsto> r)) + 3 * card new \<le> potsum ts L res"
proof -
  have "{..<length ts} \<inter> new = new" using assms(1) by blast
  then have "3 * card new = (\<Sum>k<length ts. if k \<in> new then 3 else 0)"
    by (simp add: sum.If_cases)
  then have "potsum ts (L - {i} \<union> new) (res(i \<mapsto> r)) + 3 * card new
      = (\<Sum>k<length ts. pot ts (L - {i} \<union> new) (res(i \<mapsto> r)) k + (if k \<in> new then 3 else 0))"
    by (simp add: potsum_def sum.distrib)
  also have "\<dots> \<le> potsum ts L res"
    unfolding potsum_def
  proof (rule sum_mono)
    fix k
    have "3 * (max_attempts (ts ! k) - 1) + 3 = 3 * max_attempts (ts ! k)"
      using max_attempts_pos [of "ts ! k"] by simp
    then show "pot ts (L - {i} \<union> new) (res(i \<mapsto> r)) k + (if k \<in> new then 3 else 0) \<le> pot ts L res k"
      using assms(2) by (auto simp: pot_def)
  qed
  finally show ?thesis .
qed

section \<open>What the other tasks were given stays true\<close>

definition same_below :: "pipeline \<Rightarrow> (nat \<times> task_run_result) list \<Rightarrow> (nat \<times> task_run_result) list \<Rightarrow> nat \<Rightarrow> bool" where
  "same_below p rs rs' i \<longleftrightarrow> (\<forall>j\<in>set (td_ids (Tasks p ! i)). result_at rs' j = result_at rs j)
     \<and> attempts_at rs' i = attempts_at rs i \<and> (map_of rs i \<noteq> None \<longrightarrow> map_of rs' i \<noteq> None)"

lemma sorted_inputs_cong:
  assumes "\<forall>j\<in>set (td_ids task). result_at rs' j = result_at rs j"
  shows "sorted_inputs env p rs' task = sorted_inputs env p rs task"
proof -
  have "map (\<lambda>i. (bt_Index (Tasks p ! td_InputTask i), result_at rs' (td_InputTask i))) (filter td_PropagateResult (bt_inputs task))
      = map (\<lambda>i. (bt_Index (Tasks p ! td_InputTask i), result_at rs (td_InputTask i))) (filter td_PropagateResult (bt_inputs task))"
    using assms by (intro map_cong) auto
  then show ?thesis unfolding sorted_inputs_def Let_def by (simp only:)
qed

lemma good_run_same: "same_below p rs rs' (bt_id (mtr_task m)) \<Longrightarrow> good_run env p rs m \<Longrightarrow> good_run env p rs' m"
  using sorted_inputs_cong [of "Tasks p ! bt_id (mtr_task m)" rs' rs env p]
  by (simp add: good_run_def Let_def same_below_def knows_def)

lemma good_retry_same: "same_below p rs rs' (bt_id (rt_task t)) \<Longrightarrow> good_retry p rs t \<Longrightarrow> good_retry p rs' t"
  by (simp add: good_retry_def Let_def same_below_def knows_def)

lemma same_below_put:
  assumes "i \<notin> set (td_ids (Tasks p ! k))" "k \<noteq> i" "map_of rs' = (map_of rs)(i \<mapsto> r)"
  shows "same_below p rs rs' k"
  using assms by (auto simp: same_below_def result_at_def attempts_at_def)

lemma same_below_mark:
  assumes "i \<notin> set (td_ids (Tasks p ! k))" "k \<noteq> i" "map_of rs' = mark_res (Tasks p) e now ((map_of rs)(i \<mapsto> r))"
    and "\<forall>j\<in>set (td_ids (Tasks p ! k)). map_of rs j \<noteq> None"
  shows "same_below p rs rs' k"
  unfolding same_below_def
proof (intro conjI ballI impI)
  fix j assume j: "j \<in> set (td_ids (Tasks p ! k))"
  then have "j \<noteq> i" "map_of rs j \<noteq> None" using assms(1,4) by blast+
  then show "result_at rs' j = result_at rs j" by (auto simp: result_at_def assms(3) mark_res_def)
next
  show "attempts_at rs' k = attempts_at rs k"
    using assms(2) by (auto simp: attempts_at_def assms(3) mark_res_def split: option.splits)
  show "map_of rs' k \<noteq> None" if "map_of rs k \<noteq> None"
    using assms(2) that by (auto simp: assms(3) mark_res_def)
qed

section \<open>One result\<close>

lemma retries_bound: "retries_of t < 2 ^ 32"
proof -
  have "unat (TaskRetries t) < 2 ^ LENGTH(32)" by (rule unsigned_less)
  then show ?thesis by (simp add: retries_of_def)
qed

lemma max_attempts_bound: "max_attempts t < 2 ^ 32"
  using retries_bound [of t] by (simp add: max_attempts_def)

lemma unat_next_attempt: "unat (w :: 64 word) < max_attempts t \<Longrightarrow> unat (w + 1) = unat w + 1"
  using max_attempts_bound [of t] by (simp add: unat_word_ariths)

lemma attempts_left: "(w :: 64 word) < ucast (TaskRetries t) \<longleftrightarrow> unat w < retries_of t"
proof -
  have "unat (ucast (TaskRetries t) :: 64 word) = retries_of t"
    using retries_bound [of t] by (simp add: retries_of_def unsigned_ucast_eq take_bit_nat_eq_self_iff)
  then show ?thesis by (simp add: word_less_nat_alt)
qed

text \<open>What is known while the result of task \<open>i\<close> is in hand.\<close>

lemma in_hand:
  assumes "sched_inv env p U [i] s" "pipeline_ok p"
  defines "L0 \<equiv> set (live_list s)" and "rs \<equiv> sc_results (sched s)"
  shows "core (Tasks p) U (insert i L0) (map_of rs) (sc_dependencies (sched s)) (sc_exiting (sched s))"
    and "i \<notin> L0" "i < length (Tasks p)" "bt_id (Tasks p ! i) = i" "\<not> sc_closed (sched s)"
    and "distinct (live_list s)" "unat (sc_waiting (sched s) - 1) = length (live_list s)"
    and "unat (attempts_at rs i) < max_attempts (Tasks p ! i)"
    and "k \<in> L0 \<Longrightarrow> k \<noteq> i \<and> i \<notin> set (td_ids (Tasks p ! k)) \<and> (\<forall>j\<in>set (td_ids (Tasks p ! k)). map_of rs j \<noteq> None)"
    and "list_all (good_run env p rs) (sc_taskCh (sched s) @ executing s)" "list_all (good_retry p rs) (sc_retrying (sched s))"
proof -
  show c: "core (Tasks p) U (insert i L0) (map_of rs) (sc_dependencies (sched s)) (sc_exiting (sched s))"
    using assms(1) by (simp add: sched_inv_def Let_def L0_def rs_def)
  show "i \<notin> L0" "distinct (live_list s)" "list_all (good_run env p rs) (sc_taskCh (sched s) @ executing s)"
    "list_all (good_retry p rs) (sc_retrying (sched s))"
    using assms(1) by (simp_all add: sched_inv_def Let_def L0_def rs_def)
  show i: "i < length (Tasks p)" using coreD(1) [OF c] by simp
  then show "bt_id (Tasks p ! i) = i" using assms(2) by (simp add: pipeline_ok_def well_linked_def)
  have w: "unat (sc_waiting (sched s)) = Suc (length (live_list s))"
    using assms(1) by (simp add: sched_inv_def Let_def)
  then have "sc_waiting (sched s) \<noteq> 0" by auto
  then show "unat (sc_waiting (sched s) - 1) = length (live_list s)" "\<not> sc_closed (sched s)"
    using unat_pred w assms(1) by (auto simp: sched_inv_def Let_def)
  show "unat (attempts_at rs i) < max_attempts (Tasks p ! i)"
    using coreD(4) [OF c, of i] max_attempts_pos [of "Tasks p ! i"] by (auto simp: attempts_at_def split: option.splits)
  show "k \<noteq> i \<and> i \<notin> set (td_ids (Tasks p ! k)) \<and> (\<forall>j\<in>set (td_ids (Tasks p ! k)). map_of rs j \<noteq> None)" if k: "k \<in> L0"
  proof -
    have "final (insert i L0) (map_of rs) j" if "j \<in> set (td_ids (Tasks p ! k))" for j
      using coreD(2) [OF c, of k j] k that by blast
    then show ?thesis using k \<open>i \<notin> L0\<close> by (auto simp: final_def)
  qed
qed

lemma others_stay_good:
  assumes "sched_inv env p U [i] s" "pipeline_ok p"
    and "map_of rs' = (map_of (sc_results (sched s)))(i \<mapsto> r)
      \<or> map_of rs' = mark_res (Tasks p) e now ((map_of (sc_results (sched s)))(i \<mapsto> r))"
  shows "list_all (good_run env p rs') (sc_taskCh (sched s) @ executing s)" "list_all (good_retry p rs') (sc_retrying (sched s))"
proof -
  note h = in_hand [OF assms(1,2)]
  have same: "same_below p (sc_results (sched s)) rs' k" if "k \<in> set (live_list s)" for k
    using h(9) [OF that] assms(3) same_below_put same_below_mark by metis
  show "list_all (good_run env p rs') (sc_taskCh (sched s) @ executing s)"
    unfolding list_all_iff
  proof
    fix m assume m: "m \<in> set (sc_taskCh (sched s) @ executing s)"
    then have "good_run env p (sc_results (sched s)) m" using h(10) by (simp only: list_all_iff)
    moreover have "bt_id (mtr_task m) \<in> set (live_list s)" using m by (auto simp: live_list_def)
    ultimately show "good_run env p rs' m" using good_run_same same by blast
  qed
  show "list_all (good_retry p rs') (sc_retrying (sched s))"
    unfolding list_all_iff
  proof
    fix t assume t: "t \<in> set (sc_retrying (sched s))"
    then have "good_retry p (sc_results (sched s)) t" using h(11) by (simp only: list_all_iff)
    moreover have "bt_id (rt_task t) \<in> set (live_list s)" using t by (auto simp: live_list_def)
    ultimately show "good_retry p rs' t" using good_retry_same same by blast
  qed
qed

text \<open>The variables after the result of task \<open>i\<close> is stored.\<close>

lemma stored_vars:
  assumes inv: "sched_inv env p U [i] s" and ok: "pipeline_ok p" and "\<not> sc_exiting (sched s)"
    and rs': "map_of rs' = (map_of (sc_results (sched s)))(i \<mapsto> r)"
    and j: "j = i \<or> final (insert i (set (live_list s))) (map_of (sc_results (sched s))) j"
  shows "map_of (assoc_put (task_name p i) (stored_value (trr_Result r)) (sc_vars (sched s))) (task_name p j)
    = Some (stored_value (result_at rs' j))"
proof (cases "j = i")
  case False
  then have f: "final (insert i (set (live_list s))) (map_of (sc_results (sched s))) j" using j by blast
  then obtain r' where "map_of (sc_results (sched s)) j = Some r'" by (auto simp: final_def)
  then have "j < length (Tasks p)" using coreD(3) [OF in_hand(1) [OF inv ok]] by blast
  then have "task_name p j \<noteq> task_name p i"
    using task_name_inj in_hand(3) [OF inv ok] ok False by (simp add: pipeline_ok_def)
  moreover have "map_of (sc_vars (sched s)) (task_name p j) = Some (stored_value (result_at (sc_results (sched s)) j))"
    using inv f assms(3) by (simp add: sched_inv_def Let_def)
  ultimately show ?thesis using False by (simp add: result_at_def rs')
qed (simp add: result_at_def rs')

lemma live_list_sched:
  "sc_taskCh sc' = sc_taskCh (sched s) \<Longrightarrow> sc_retrying sc' = sc_retrying (sched s) \<Longrightarrow>
   live_list (s\<lparr>sched := sc'\<rparr>) = live_list s"
  by (simp add: live_list_def)

lemma pending_put:
  assumes "core ts U L res deps ex" "i \<in> L"
  shows "(\<exists>k r'. (res(i \<mapsto> r)) k = Some r' \<and> is_pending r') \<longleftrightarrow> (\<exists>k r'. res k = Some r' \<and> is_pending r') \<or> is_pending r"
  using coreD(4) [OF assms(1) _ assms(2)] by (metis fun_upd_apply option.inject)

lemma pending_mark:
  "(\<exists>k r'. mark_res ts e now res k = Some r' \<and> is_pending r') \<longleftrightarrow> (\<exists>k r'. res k = Some r' \<and> is_pending r')"
  by (auto simp: mark_res_def is_pending_def no_info_def split: if_splits)

lemma sched_inv_parts:
  assumes "sched_inv env p U X s"
  shows "sc_cancelled (sched s) = sc_exiting (sched s)"
    "sc_pending (sched s) \<longleftrightarrow> (\<exists>i r. map_of (sc_results (sched s)) i = Some r \<and> is_pending r)"
    "distinct (map fst (sc_results (sched s)))" "distinct (map fst (sc_vars (sched s)))"
  using assms by (simp_all add: sched_inv_def Let_def)

lemma pot_hand: "state_weight p [i] s
    = potsum (Tasks p) (insert i (set (live_list s))) (map_of (sc_results (sched s)))
     + 2 * length (sc_taskCh (sched s)) + length (executing s) + 3 * length (sc_retrying (sched s))
     + (if sc_closed (sched s) then 0 else 1)"
  by (simp add: state_weight_def)

lemma leave_branch:
  assumes inv: "sched_inv env p U [i] s" and ok: "pipeline_ok p" and task: "trr_Task r = Tasks p ! i"
    and att: "unat (trr_Attempts r) \<le> max_attempts (Tasks p ! i)"
    and how: "sc_exiting (sched s) \<or> is_pending r \<and> 0 < unat (trr_Attempts r)"
    and sc': "sc_taskCh sc' = sc_taskCh (sched s)" "sc_retrying sc' = sc_retrying (sched s)"
      "sc_waiting sc' = sc_waiting (sched s) - 1" "map_of (sc_results sc') = (map_of (sc_results (sched s)))(i \<mapsto> r)"
      "distinct (map fst (sc_results sc'))" "sc_dependencies sc' = sc_dependencies (sched s)"
      "sc_exiting sc' = sc_exiting (sched s)" "sc_cancelled sc' = sc_cancelled (sched s)"
      "sc_pending sc' \<longleftrightarrow> sc_pending (sched s) \<or> is_pending r" "sc_closed sc' = sc_closed (sched s)"
      "distinct (map fst (sc_vars sc'))" "\<not> sc_exiting (sched s) \<Longrightarrow> sc_vars sc' = sc_vars (sched s)"
  shows "sched_inv env p U [] (s\<lparr>sched := sc'\<rparr>) \<and> state_weight p [] (s\<lparr>sched := sc'\<rparr>) \<le> state_weight p [i] s"
proof -
  note h = in_hand [OF inv ok]
  let ?L = "set (live_list s)" and ?res = "map_of (sc_results (sched s))"
  have Li: "insert i ?L - {i} = ?L" using h(2) by simp
  have wl: "well_linked (Tasks p)" using ok by (simp add: pipeline_ok_def)
  have how': "\<not> sc_exiting (sched s) \<Longrightarrow> is_pending r \<and> 0 < unat (trr_Attempts r)" using how by blast
  have c: "core (Tasks p) U ?L (?res(i \<mapsto> r)) (sc_dependencies (sched s)) (sc_exiting (sched s))"
    using core_leave [OF h(1) wl _ task att how'] Li by simp
  note live = live_list_sched [OF sc'(1,2)]
  note others = others_stay_good [OF inv ok, of "sc_results sc'" r] 
  have vars: "map_of (sc_vars sc') (task_name p j) = Some (stored_value (result_at (sc_results sc') j))"
    if "\<not> sc_exiting (sched s)" "final ?L (?res(i \<mapsto> r)) j" for j
  proof -
    have "j \<noteq> i" using that how by (auto simp: final_def)
    then have "final (insert i ?L) ?res j" using that by (auto simp: final_def)
    then have "map_of (sc_vars (sched s)) (task_name p j) = Some (stored_value (result_at (sc_results (sched s)) j))"
      using inv that(1) by (simp add: sched_inv_def Let_def)
    then show ?thesis using \<open>j \<noteq> i\<close> sc'(12) [OF that(1)] by (simp add: result_at_def sc'(4))
  qed
  have "sched_inv env p U [] (s\<lparr>sched := sc'\<rparr>)"
    unfolding sched_inv_def Let_def live
    using c h(5-7) sc' sched_inv_parts [OF inv] others vars pending_put [OF h(1), of i r]
    by (simp add: run_state.simps)
  moreover have "state_weight p [] (s\<lparr>sched := sc'\<rparr>) \<le> state_weight p [i] s"
    using potsum_leave [of "Tasks p" "insert i ?L" i ?res r]
    unfolding state_weight_def live by (simp add: sc' Li)
  ultimately show ?thesis ..
qed

lemma fail_branch:
  assumes inv: "sched_inv env p U [i] s" and ok: "pipeline_ok p" and task: "trr_Task r = Tasks p ! i"
    and att: "unat (trr_Attempts r) \<le> max_attempts (Tasks p ! i)"
    and how: "failed r" "\<not> is_pending r" "bt_FailEarly (Tasks p ! i)"
    and sc': "sc_taskCh sc' = sc_taskCh (sched s)" "sc_retrying sc' = sc_retrying (sched s)"
      "sc_waiting sc' = sc_waiting (sched s) - 1"
      "map_of (sc_results sc') = mark_res (Tasks p) e now ((map_of (sc_results (sched s)))(i \<mapsto> r))"
      "distinct (map fst (sc_results sc'))" "sc_dependencies sc' = sc_dependencies (sched s)"
      "sc_exiting sc'" "sc_cancelled sc'" "sc_pending sc' = sc_pending (sched s)" "sc_closed sc' = sc_closed (sched s)"
      "distinct (map fst (sc_vars sc'))"
  shows "sched_inv env p U [] (s\<lparr>sched := sc'\<rparr>) \<and> state_weight p [] (s\<lparr>sched := sc'\<rparr>) \<le> state_weight p [i] s"
proof -
  note h = in_hand [OF inv ok]
  let ?L = "set (live_list s)" and ?res = "map_of (sc_results (sched s))"
  have Li: "insert i ?L - {i} = ?L" using h(2) by simp
  have c: "core (Tasks p) U ?L (mark_res (Tasks p) e now (?res(i \<mapsto> r))) (sc_dependencies (sched s)) True"
    using core_fail [OF h(1) _ task how att] Li by simp
  note live = live_list_sched [OF sc'(1,2)]
  note others = others_stay_good [OF inv ok, of "sc_results sc'" r e now]
  have "sched_inv env p U [] (s\<lparr>sched := sc'\<rparr>)"
    unfolding sched_inv_def Let_def live
    using c h(5-7) sc' sched_inv_parts [OF inv] others pending_put [OF h(1), of i r] how(2)
      pending_mark [of "Tasks p" e now "?res(i \<mapsto> r)"]
    by (simp add: run_state.simps)
  moreover have "state_weight p [] (s\<lparr>sched := sc'\<rparr>) \<le> state_weight p [i] s"
    using potsum_mark [of "Tasks p" "insert i ?L" i e now ?res r]
    unfolding state_weight_def live by (simp add: sc' Li)
  ultimately show ?thesis ..
qed

lemma knows_inputs:
  assumes inv: "sched_inv env p U [i] s" and ok: "pipeline_ok p" and env: "sched_env_ok env" and "\<not> sc_exiting (sched s)"
    and rs': "map_of rs' = (map_of (sc_results (sched s)))(i \<mapsto> r)"
    and vs: "vs = assoc_put (task_name p i) (stored_value (trr_Result r)) (sc_vars (sched s))"
    and "\<forall>j\<in>set (td_ids (Tasks p ! k)). j = i \<or> final (insert i (set (live_list s))) (map_of (sc_results (sched s))) j"
  shows "knows p rs' k (Vars_Copy (copy_order env) vs)"
proof -
  have "distinct (map fst vs)" using sched_inv_parts(4) [OF inv] by (simp add: vs)
  then have eq: "map_of (Vars_Copy (copy_order env) vs) = map_of vs" by (rule map_of_Vars_Copy [OF env])
  show ?thesis
    unfolding knows_def eq
  proof
    fix j assume "j \<in> set (td_ids (Tasks p ! k))"
    then have "j = i \<or> final (insert i (set (live_list s))) (map_of (sc_results (sched s))) j" using assms(7) by blast
    then show "map_of vs (task_name p j) = Some (stored_value (result_at rs' j))"
      unfolding vs by (rule stored_vars [OF inv ok assms(4) rs'])
  qed
qed

lemma retry_branch:
  assumes inv: "sched_inv env p U [i] s" and ok: "pipeline_ok p" and env: "sched_env_ok env" and task: "trr_Task r = Tasks p ! i"
    and how: "failed r" "\<not> is_pending r" "\<not> sc_exiting (sched s)"
    and att: "unat (trr_Attempts r) = unat (attempts_at (sc_results (sched s)) i) + 1" "unat (trr_Attempts r) < retries_of (Tasks p ! i)"
    and vs: "vs = assoc_put (task_name p i) (stored_value (trr_Result r)) (sc_vars (sched s))"
    and rs: "rs = assoc_put i r (sc_results (sched s))"
    and sc': "sc' = (sched s)\<lparr>sc_results := rs, sc_vars := vs,
      sc_retrying := sc_retrying (sched s) @ [\<lparr>rt_task = Tasks p ! i, rt_vars = Vars_Copy (copy_order env) vs,
        rt_attempts = trr_Attempts r\<rparr>]\<rparr>"
  shows "sched_inv env p U [] (s\<lparr>sched := sc'\<rparr>) \<and> state_weight p [] (s\<lparr>sched := sc'\<rparr>) \<le> state_weight p [i] s"
proof -
  note h = in_hand [OF inv ok]
  let ?L = "set (live_list s)" and ?res = "map_of (sc_results (sched s))"
  have res': "map_of rs = ?res(i \<mapsto> r)" by (simp add: rs)
  have c: "core (Tasks p) U (insert i ?L) (?res(i \<mapsto> r)) (sc_dependencies (sched s)) False"
    using core_retry [of "Tasks p" U "insert i ?L" ?res "sc_dependencies (sched s)" i r] h(1) task how att by simp
  have live: "live_list (s\<lparr>sched := sc'\<rparr>) = live_list s @ [i]" using h(4) by (simp add: live_list_def sc')
  note others = others_stay_good [OF inv ok disjI1 [OF res']]
  have "good_retry p rs \<lparr>rt_task = Tasks p ! i, rt_vars = Vars_Copy (copy_order env) vs, rt_attempts = trr_Attempts r\<rparr>"
    using knows_inputs [OF inv ok env how(3) res' vs, of i] coreD(2) [OF h(1), of i]
    by (simp add: good_retry_def h(4) Let_def attempts_at_def res')
  then have good: "list_all (good_retry p rs) (sc_retrying sc')" "list_all (good_run env p rs) (sc_taskCh sc' @ executing s)"
    using others by (simp_all add: sc')
  have fin: "final (insert i ?L) (?res(i \<mapsto> r)) j = final (insert i ?L) ?res j" for j by (auto simp: final_def)
  have vars: "final (insert i ?L) (?res(i \<mapsto> r)) j \<longrightarrow> map_of vs (task_name p j) = Some (stored_value (result_at rs j))" for j
    unfolding fin vs using stored_vars [OF inv ok how(3) res', of j] by blast
  have d: "distinct (map fst vs)" "distinct (map fst rs)" using sched_inv_parts [OF inv] by (simp_all add: vs rs)
  have w: "unat (sc_waiting (sched s)) = Suc (length (live_list s))" using inv by (simp add: sched_inv_def Let_def)
  have parts: "sc_results sc' = rs" "sc_vars sc' = vs" "sc_exiting sc' = False" "sc_closed sc' = False"
    "sc_waiting sc' = sc_waiting (sched s)" "sc_dependencies sc' = sc_dependencies (sched s)"
    "sc_pending sc' = sc_pending (sched s)" "sc_cancelled sc' = False"
    using how(3) h(5) sched_inv_parts(1) [OF inv] by (simp_all add: sc')
  have setL: "set ([] @ live_list s @ [i]) = insert i ?L" by auto
  have pend: "sc_pending (sched s) \<longleftrightarrow> (\<exists>k r'. (?res(i \<mapsto> r)) k = Some r' \<and> is_pending r')"
    using pending_put [OF h(1), of i r] how(2) sched_inv_parts(2) [OF inv] by blast
  have "sched_inv env p U [] (s\<lparr>sched := sc'\<rparr>)"
  proof (rule sched_invI)
    show "insert i ?L = set ([] @ live_list (s\<lparr>sched := sc'\<rparr>))" using live setL by simp
    show "?res(i \<mapsto> r) = map_of (sc_results (sched (s\<lparr>sched := sc'\<rparr>)))" by (simp add: parts res')
  qed (use c good d w vars h(2,6) pend in \<open>simp_all add: parts live\<close>)
  moreover have "state_weight p [] (s\<lparr>sched := sc'\<rparr>) \<le> state_weight p [i] s"
  proof -
    have "potsum (Tasks p) (insert i ?L) (?res(i \<mapsto> r)) + 3 \<le> potsum (Tasks p) (insert i ?L) ?res"
      using potsum_retry [of i "insert i ?L" "Tasks p" ?res r] h(3) att
      by (simp add: attempts_at_def max_attempts_def split: option.splits)
    then show ?thesis unfolding state_weight_def live setL by (simp add: sc' res' h(5))
  qed
  ultimately show ?thesis ..
qed

lemma done_branch:
  assumes inv: "sched_inv env p U [i] s" and ok: "pipeline_ok p" and env: "sched_env_ok env" and task: "trr_Task r = Tasks p ! i"
    and how: "failed r \<Longrightarrow> retries_of (Tasks p ! i) \<le> unat (trr_Attempts r) \<and> \<not> bt_FailEarly (Tasks p ! i)"
      "\<not> is_pending r" "\<not> sc_exiting (sched s)"
    and att: "0 < unat (trr_Attempts r)" "unat (trr_Attempts r) \<le> max_attempts (Tasks p ! i)"
    and vs: "vs = assoc_put (task_name p i) (stored_value (trr_Result r)) (sc_vars (sched s))"
    and rs: "rs = assoc_put i r (sc_results (sched s))"
    and new: "new = filter (\<lambda>k. sc_dependencies (sched s) k = 1) (bt_outputs (Tasks p ! i))"
    and sc1: "sc1 = (sched s)\<lparr>sc_waiting := sc_waiting (sched s) - 1, sc_results := rs, sc_vars := vs\<rparr>"
    and sc': "sc' = sc1\<lparr>sc_dependencies := lowered (bt_outputs (Tasks p ! i)) (sc_dependencies (sched s)),
        sc_taskCh := sc_taskCh (sched s) @ map (new_run env p sc1) new,
        sc_waiting := sc_waiting (sched s) - 1 + of_nat (length new)\<rparr>"
  shows "sched_inv env p U [] (s\<lparr>sched := sc'\<rparr>) \<and> state_weight p [] (s\<lparr>sched := sc'\<rparr>) \<le> state_weight p [i] s"
proof -
  note h = in_hand [OF inv ok]
  let ?L = "set (live_list s)" and ?res = "map_of (sc_results (sched s))"
  let ?deps' = "lowered (bt_outputs (Tasks p ! i)) (sc_dependencies (sched s))"
  have wl: "well_linked (Tasks p)" using ok by (simp add: pipeline_ok_def)
  have res': "map_of rs = ?res(i \<mapsto> r)" by (simp add: rs)
  have c0: "core (Tasks p) U (insert i ?L) ?res (sc_dependencies (sched s)) False" using h(1) how(3) by simp
  have newset: "set new = {k \<in> set (bt_outputs (Tasks p ! i)). ?deps' k = 0}" by (auto simp: new lowered_def)
  note cd = core_done [OF c0 wl insertI1 task how(2) how(1) att refl newset]
  have Li: "insert i ?L - {i} \<union> set new = ?L \<union> set new" using h(2) by auto
  have c: "core (Tasks p) U (?L \<union> set new) (?res(i \<mapsto> r)) ?deps' False" using cd(1) unfolding Li .
  have newk: "k < length (Tasks p) \<and> k \<notin> ?L \<and> ?res k = None \<and> k \<noteq> i \<and> bt_id (Tasks p ! k) = k" if "k \<in> set new" for k
    using cd(2) that wl by (auto simp: new well_linked_def)
  have dnew: "distinct new" using wl h(3) by (simp add: new well_linked_def)
  have ids: "map (\<lambda>m. bt_id (mtr_task m)) (map (new_run env p sc1) new) = new"
    using newk by (simp add: new_run_def newMemoryTaskRun_def map_idI)
  let ?s = "s\<lparr>sched := sc'\<rparr>"
  have live: "mset (live_list ?s) = mset (live_list s @ new)"
    using ids by (simp add: live_list_def sc' sc1 comp_def)
  have setL: "set ([] @ live_list ?s) = ?L \<union> set new" using mset_eq_setD [OF live] by simp
  have dl: "distinct ([] @ live_list ?s)"
  proof -
    have "distinct (live_list s @ new)" using h(6) dnew newk by auto
    then show ?thesis using mset_eq_imp_distinct_iff [OF live] by simp
  qed
  have ll: "length ([] @ live_list ?s) = length (live_list s) + length new" using mset_eq_length [OF live] by simp
  have bound: "length (live_list s) + length new < 2 ^ 64"
  proof -
    have "set (live_list ?s) \<subseteq> {..<length (Tasks p)}" using coreD(1) [OF c] setL by auto
    then have "card (set (live_list ?s)) \<le> length (Tasks p)" by (metis card_lessThan card_mono finite_lessThan)
    then show ?thesis using dl ll ok by (simp add: distinct_card pipeline_ok_def)
  qed
  have w: "unat (sc_waiting sc') = length ([] @ live_list ?s)"
    using h(7) bound unfolding ll by (simp add: sc' unat_word_ariths unat_of_nat)
  note others = others_stay_good [OF inv ok disjI1 [OF res']]
  have fin: "final (?L \<union> set new) (?res(i \<mapsto> r)) j \<longleftrightarrow> j = i \<or> final (insert i ?L) ?res j" for j
    using newk [of j] h(2) how(2) by (auto simp: final_def)
  have "good_run env p rs (new_run env p sc1 k)" if k: "k \<in> set new" for k
  proof -
    have "\<forall>j\<in>set (td_ids (Tasks p ! k)). final (?L \<union> set new) (?res(i \<mapsto> r)) j" using coreD(2) [OF c, of k] k by blast
    then have kn: "knows p rs k (Vars_Copy (copy_order env) vs)"
      using knows_inputs [OF inv ok env how(3) res' vs, of k] fin by blast
    have "attempts_at rs k = 0" using newk [OF k] by (simp add: attempts_at_def res')
    then show ?thesis using kn newk [OF k]
      by (simp add: good_run_def new_run_def newMemoryTaskRun_def Let_def sc1)
  qed
  then have good: "list_all (good_run env p rs) (sc_taskCh sc' @ executing s)" "list_all (good_retry p rs) (sc_retrying sc')"
    using others by (auto simp: sc' sc1 list_all_iff)
  have vars: "map_of vs (task_name p j) = Some (stored_value (result_at rs j))"
    if "final (?L \<union> set new) (?res(i \<mapsto> r)) j" for j
    unfolding vs by (rule stored_vars [OF inv ok how(3) res']) (use that fin in blast)
  have d: "distinct (map fst vs)" "distinct (map fst rs)" using sched_inv_parts [OF inv] by (simp_all add: vs rs)
  have parts: "sc_results sc' = rs" "sc_vars sc' = vs" "sc_exiting sc' = False" "sc_closed sc' = False"
    "sc_dependencies sc' = ?deps'" "sc_pending sc' = sc_pending (sched s)" "sc_cancelled sc' = False"
    using how(3) h(5) sched_inv_parts(1) [OF inv] by (simp_all add: sc' sc1)
  have pend: "sc_pending (sched s) \<longleftrightarrow> (\<exists>k r'. (?res(i \<mapsto> r)) k = Some r' \<and> is_pending r')"
    using pending_put [OF h(1), of i r] how(2) sched_inv_parts(2) [OF inv] by blast
  have "sched_inv env p U [] ?s"
  proof (rule sched_invI)
    show "?L \<union> set new = set ([] @ live_list ?s)" using setL by simp
    show "?res(i \<mapsto> r) = map_of (sc_results (sched ?s))" by (simp add: parts res')
    show "distinct ([] @ live_list ?s)" by (rule dl)
    show "unat (sc_waiting (sched ?s)) = length ([] @ live_list ?s)" using w by simp
  qed (use c good d vars pend in \<open>simp_all add: parts\<close>)
  moreover have "state_weight p [] ?s \<le> state_weight p [i] s"
  proof -
    have "set new \<subseteq> {..<length (Tasks p)}" "\<forall>k\<in>set new. k \<notin> insert i ?L \<and> ?res k = None \<and> k \<noteq> i"
      using newk by auto
    note potsum_done [OF this, where r = r]
    then have "potsum (Tasks p) (?L \<union> set new) (?res(i \<mapsto> r)) + 3 * length new \<le> potsum (Tasks p) (insert i ?L) ?res"
      unfolding Li by (simp add: distinct_card dnew)
    then show ?thesis unfolding state_weight_def setL by (simp add: sc' sc1 res' h(5))
  qed
  ultimately show ?thesis ..
qed

text \<open>The loop body: the result of a task is taken from the channel. Whatever the result, no panic; the
  invariant holds again; the weight has not grown.\<close>

lemma receive_inv:
  assumes inv: "sched_inv env p U [i] s" and ok: "pipeline_ok p" and env: "sched_env_ok env" and task: "trr_Task r0 = Tasks p ! i"
  shows "\<exists>sc'. receive env p now r0 (sched s) = Ret sc' \<and> sched_inv env p U [] (s\<lparr>sched := sc'\<rparr>)
    \<and> state_weight p [] (s\<lparr>sched := sc'\<rparr>) \<le> state_weight p [i] s"
proof -
  note h = in_hand [OF inv ok]
  define r where "r = r0\<lparr>trr_Attempts := (if \<not> sc_exiting (sched s) then attempts_at (sc_results (sched s)) i + 1
      else attempts_at (sc_results (sched s)) i)\<rparr>"
  define rs where "rs = assoc_put i r (sc_results (sched s))"
  define sc1 where "sc1 = (sched s)\<lparr>sc_waiting := sc_waiting (sched s) - 1, sc_results := rs\<rparr>"
  define vs where "vs = assoc_put (task_name p i) (stored_value (trr_Result r)) (sc_vars (sched s))"
  define sc2 where "sc2 = sc1\<lparr>sc_vars := vs\<rparr>"
  have t: "trr_Task r = Tasks p ! i" using task by (simp add: r_def)
  have wl: "well_linked (Tasks p)" and nm: "names_ok p" using ok by (simp_all add: pipeline_ok_def)
  have att: "\<not> sc_exiting (sched s) \<Longrightarrow> unat (trr_Attempts r) = unat (attempts_at (sc_results (sched s)) i) + 1"
    "unat (trr_Attempts r) \<le> max_attempts (Tasks p ! i)"
    using h(8) unat_next_attempt [OF h(8)] by (simp_all add: r_def)
  have res': "map_of rs = (map_of (sc_results (sched s)))(i \<mapsto> r)" by (simp add: rs_def)
  have d: "distinct (map fst rs)" "distinct (map fst vs)" using sched_inv_parts [OF inv] by (simp_all add: rs_def vs_def)
  have start: "receive env p now r0 (sched s) = (if is_pending r then Ret (sc1\<lparr>sc_pending := True\<rparr>)
      else run_bind (set_result (Tasks p ! i) (trr_Result r) sc1) (after_store env p now r))"
    using task h(4) by (simp add: receive_def Let_def is_pending_def r_def rs_def sc1_def)
  show ?thesis
  proof (cases "is_pending r")
    case True
    have "sched_inv env p U [] (s\<lparr>sched := sc1\<lparr>sc_pending := True\<rparr>\<rparr>)
        \<and> state_weight p [] (s\<lparr>sched := sc1\<lparr>sc_pending := True\<rparr>\<rparr>) \<le> state_weight p [i] s"
      by (rule leave_branch [OF inv ok t att(2)])
        (use True att res' d sched_inv_parts [OF inv] in \<open>auto simp: sc1_def\<close>)
    then show ?thesis using True start by simp
  next
    case False
    have st: "receive env p now r0 (sched s) = after_store env p now r sc2"
      using False start set_result_ok [OF nm h(3) refl] by (simp add: sc2_def vs_def sc1_def)
    consider (early) "failed r" "bt_FailEarly (Tasks p ! i)"
      | (leaving) "\<not> (failed r \<and> bt_FailEarly (Tasks p ! i))" "sc_exiting (sched s)"
      | (again) "failed r" "\<not> bt_FailEarly (Tasks p ! i)" "\<not> sc_exiting (sched s)" "unat (trr_Attempts r) < retries_of (Tasks p ! i)"
      | (complete) "failed r \<Longrightarrow> retries_of (Tasks p ! i) \<le> unat (trr_Attempts r) \<and> \<not> bt_FailEarly (Tasks p ! i)"
          "\<not> sc_exiting (sched s)"
      by (cases "failed r"; cases "bt_FailEarly (Tasks p ! i)"; cases "sc_exiting (sched s)";
          cases "unat (trr_Attempts r) < retries_of (Tasks p ! i)") (auto simp: not_less)
    then show ?thesis
    proof cases
      case early
      let ?sc' = "markRemaining p ErrCancelled now (sc2\<lparr>sc_exiting := True, sc_cancelled := True\<rparr>)"
      have "after_store env p now r sc2 = Ret ?sc'"
        using early t by (simp add: after_store_def failed_def Let_def markRemaining_rest)
      moreover have "sched_inv env p U [] (s\<lparr>sched := ?sc'\<rparr>) \<and> state_weight p [] (s\<lparr>sched := ?sc'\<rparr>) \<le> state_weight p [i] s"
        by (rule fail_branch [OF inv ok t att(2) early(1) False early(2), of _ ErrCancelled now])
          (use d res' in \<open>simp_all add: markRemaining_rest markRemaining_results [OF wl] markRemaining_distinct sc2_def sc1_def\<close>)
      ultimately show ?thesis using st by simp
    next
      case leaving
      have "after_store env p now r sc2 = Ret sc2"
        using leaving t by (auto simp: after_store_def failed_def Let_def sc2_def sc1_def)
      moreover have "sched_inv env p U [] (s\<lparr>sched := sc2\<rparr>) \<and> state_weight p [] (s\<lparr>sched := sc2\<rparr>) \<le> state_weight p [i] s"
        by (rule leave_branch [OF inv ok t att(2)]) (use leaving False res' d in \<open>simp_all add: sc2_def sc1_def\<close>)
      ultimately show ?thesis using st by simp
    next
      case again
      let ?sc' = "(sched s)\<lparr>sc_results := rs, sc_vars := vs,
        sc_retrying := sc_retrying (sched s) @ [\<lparr>rt_task = Tasks p ! i, rt_vars = Vars_Copy (copy_order env) vs,
        rt_attempts = trr_Attempts r\<rparr>]\<rparr>"
      have "after_store env p now r sc2 = Ret ?sc'"
        using again t by (simp add: after_store_def failed_def Let_def sc2_def sc1_def attempts_left)
      moreover have "sched_inv env p U [] (s\<lparr>sched := ?sc'\<rparr>) \<and> state_weight p [] (s\<lparr>sched := ?sc'\<rparr>) \<le> state_weight p [i] s"
        by (rule retry_branch [OF inv ok env t again(1) False again(3) att(1) again(4) vs_def rs_def refl]) (rule again(3))
      ultimately show ?thesis using st by simp
    next
      case complete
      let ?os = "bt_outputs (Tasks p ! i)"
      let ?new = "filter (\<lambda>k. sc_dependencies (sched s) k = 1) ?os"
      let ?sc' = "sc2\<lparr>sc_dependencies := lowered ?os (sc_dependencies (sched s)),
        sc_taskCh := sc_taskCh (sched s) @ map (new_run env p sc2) ?new,
        sc_waiting := sc_waiting (sched s) - 1 + of_nat (length ?new)\<rparr>"
      have "distinct ?os" using wl h(3) by (simp add: well_linked_def)
      then have "schedule_outputs env p ?os sc2 = Ret ?sc'"
        using h(5) by (subst schedule_outputs_eq) (simp_all add: sc2_def sc1_def)
      moreover have "after_store env p now r sc2 = schedule_outputs env p ?os sc2"
        using complete t by (cases "failed r")
          (simp_all add: after_store_def failed_def Let_def sc2_def sc1_def attempts_left not_less)
      moreover have "sched_inv env p U [] (s\<lparr>sched := ?sc'\<rparr>) \<and> state_weight p [] (s\<lparr>sched := ?sc'\<rparr>) \<le> state_weight p [i] s"
        by (rule done_branch [OF inv ok env t complete(1) False complete(2) _ att(2) vs_def rs_def refl _ refl])
          (use att(1) [OF complete(2)] in \<open>simp_all add: sc2_def sc1_def\<close>)
      ultimately show ?thesis using st by simp
    qed
  qed
qed

section \<open>Events\<close>

lemma mset_remove_at: "k < length xs \<Longrightarrow> add_mset (xs ! k) (mset (remove_at k xs)) = mset xs"
proof -
  assume k: "k < length xs"
  have "mset xs = mset (take k xs @ xs ! k # drop (Suc k) xs)" using id_take_nth_drop [OF k] by simp
  then show ?thesis by (simp add: remove_at_def)
qed

lemma remove_at_facts:
  assumes "k < length xs"
  shows "length (remove_at k xs) + 1 = length xs" "list_all P xs \<Longrightarrow> list_all P (remove_at k xs)"
    "add_mset (f (xs ! k)) (mset (map f (remove_at k xs))) = mset (map f xs)"
proof -
  have "size (add_mset (xs ! k) (mset (remove_at k xs))) = size (mset xs)" by (simp only: mset_remove_at [OF assms])
  then show "length (remove_at k xs) + 1 = length xs" by simp
  show "list_all P xs \<Longrightarrow> list_all P (remove_at k xs)"
    by (auto simp: remove_at_def list_all_iff dest: in_set_takeD in_set_dropD)
  have "image_mset f (add_mset (xs ! k) (mset (remove_at k xs))) = image_mset f (mset xs)"
    by (simp only: mset_remove_at [OF assms])
  then show "add_mset (f (xs ! k)) (mset (map f (remove_at k xs))) = mset (map f xs)" by simp
qed

lemma sched_inv_move:
  assumes "sched_inv env p U X s" "mset (Y @ live_list t) = mset (X @ live_list s)"
    and "sc_results (sched t) = sc_results (sched s)" "sc_dependencies (sched t) = sc_dependencies (sched s)"
      "sc_exiting (sched t) = sc_exiting (sched s)" "sc_cancelled (sched t) = sc_cancelled (sched s)"
      "sc_pending (sched t) = sc_pending (sched s)" "sc_vars (sched t) = sc_vars (sched s)"
      "sc_waiting (sched t) = sc_waiting (sched s)" "sc_closed (sched t) \<Longrightarrow> sc_waiting (sched s) = 0"
    and "list_all (good_run env p (sc_results (sched s))) (sc_taskCh (sched t) @ executing t)"
      "list_all (good_retry p (sc_results (sched s))) (sc_retrying (sched t))"
  shows "sched_inv env p U Y t"
proof -
  have L: "set (Y @ live_list t) = set (X @ live_list s)" using mset_eq_setD [OF assms(2)] .
  have len: "length (Y @ live_list t) = length (X @ live_list s)" using mset_eq_length [OF assms(2)] .
  have d: "distinct (Y @ live_list t) = distinct (X @ live_list s)" using mset_eq_imp_distinct_iff [OF assms(2)] .
  show ?thesis
    using assms(1,3-) unfolding sched_inv_def Let_def L len d by auto
qed

lemma waiting_live: "sched_inv env p U X s \<Longrightarrow> unat (sc_waiting (sched s)) = length (X @ live_list s)"
  by (simp add: sched_inv_def Let_def)

lemma goods:
  assumes "sched_inv env p U [] s"
  shows "list_all (good_run env p (sc_results (sched s))) (sc_taskCh (sched s))"
    "list_all (good_run env p (sc_results (sched s))) (executing s)"
    "list_all (good_retry p (sc_results (sched s))) (sc_retrying (sched s))"
  using assms by (simp_all add: sched_inv_def Let_def)

text \<open>A task run taken out of \<open>executing\<close>, or a waiting attempt out of \<open>retrying\<close>, is in hand.\<close>

lemma hand_executing:
  assumes "sched_inv env p U [] s" "k < length (executing s)"
  defines "t \<equiv> s\<lparr>executing := remove_at k (executing s)\<rparr>" and "i \<equiv> bt_id (mtr_task (executing s ! k))"
  shows "sched_inv env p U [i] t" "state_weight p [i] t < state_weight p [] s" "mtr_task (executing s ! k) = Tasks p ! i"
proof -
  note r = remove_at_facts [OF assms(2)] and g = goods [OF assms(1)]
  have m: "mset ([i] @ live_list t) = mset ([] @ live_list s)"
    using r(3) [of "\<lambda>m. bt_id (mtr_task m)"] by (simp add: live_list_def t_def i_def)
  show "sched_inv env p U [i] t"
    by (rule sched_inv_move [OF assms(1) m])
      (use assms(1) g r(2) in \<open>auto simp: t_def sched_inv_def Let_def\<close>)
  have "set ([i] @ live_list t) = set ([] @ live_list s)" using mset_eq_setD [OF m] .
  then show "state_weight p [i] t < state_weight p [] s"
    using r(1) unfolding state_weight_def by (simp add: t_def)
  have "good_run env p (sc_results (sched s)) (executing s ! k)" using g(2) assms(2) by (simp add: list_all_length)
  then show "mtr_task (executing s ! k) = Tasks p ! i" by (simp add: good_run_def Let_def i_def)
qed

lemma hand_retrying:
  assumes "sched_inv env p U [] s" "k < length (sc_retrying (sched s))"
  defines "t \<equiv> s\<lparr>sched := (sched s)\<lparr>sc_retrying := remove_at k (sc_retrying (sched s))\<rparr>\<rparr>"
    and "i \<equiv> bt_id (rt_task (sc_retrying (sched s) ! k))"
  shows "sched_inv env p U [i] t" "state_weight p [i] t + 3 = state_weight p [] s"
    "good_retry p (sc_results (sched s)) (sc_retrying (sched s) ! k)"
proof -
  note r = remove_at_facts [OF assms(2)] and g = goods [OF assms(1)]
  have m: "mset ([i] @ live_list t) = mset ([] @ live_list s)"
    using r(3) [of "\<lambda>t. bt_id (rt_task t)"] by (simp add: live_list_def t_def i_def)
  show "sched_inv env p U [i] t"
    by (rule sched_inv_move [OF assms(1) m])
      (use assms(1) g r(2) in \<open>auto simp: t_def sched_inv_def Let_def\<close>)
  have "set ([i] @ live_list t) = set ([] @ live_list s)" using mset_eq_setD [OF m] .
  then show "state_weight p [i] t + 3 = state_weight p [] s"
    using r(1) unfolding state_weight_def by (simp add: t_def)
  show "good_retry p (sc_results (sched s)) (sc_retrying (sched s) ! k)" using g(3) assms(2) by (simp add: list_all_length)
qed

text \<open>No event of a scheduler in order panics; each keeps the invariant and lowers the weight.\<close>

lemma sched_step_inv:
  assumes inv: "sched_inv env p U [] s" and ok: "pipeline_ok p" and env: "sched_env_ok env"
    and step: "sched_step env p e s = Some x"
  shows "\<exists>t. x = Ret t \<and> sched_inv env p U [] t \<and> run_weight p t < run_weight p s"
proof (cases e)
  case TakeTask
  then obtain m ms where q: "sc_taskCh (sched s) = m # ms" using step by (auto split: list.splits)
  let ?t = "\<lparr>sched = (sched s)\<lparr>sc_taskCh := ms\<rparr>, executing = executing s @ [m]\<rparr>"
  have x: "x = Ret ?t" using step TakeTask q by simp
  have m: "mset ([] @ live_list ?t) = mset ([] @ live_list s)" by (simp add: live_list_def q)
  have "sched_inv env p U [] ?t"
    by (rule sched_inv_move [OF inv m]) (use inv goods [OF inv] q in \<open>auto simp: sched_inv_def Let_def\<close>)
  moreover have "run_weight p ?t < run_weight p s"
    using mset_eq_setD [OF m] by (simp add: run_weight_def state_weight_def q)
  ultimately show ?thesis using x by blast
next
  case (TaskDone k outcome uuid start now)
  have k: "k < length (executing s)" using step TaskDone by (simp split: if_splits)
  note hand = hand_executing [OF inv k]
  let ?t = "s\<lparr>executing := remove_at k (executing s)\<rparr>" and ?i = "bt_id (mtr_task (executing s ! k))"
  have "trr_Task (executeTaskRun (executing s ! k) outcome uuid start now) = Tasks p ! ?i"
    using hand(3) by (cases outcome) simp_all
  from receive_inv [OF hand(1) ok env this, of now] obtain sc' where
    sc': "receive env p now (executeTaskRun (executing s ! k) outcome uuid start now) (sched s) = Ret sc'"
      "sched_inv env p U [] (?t\<lparr>sched := sc'\<rparr>)" "state_weight p [] (?t\<lparr>sched := sc'\<rparr>) \<le> state_weight p [?i] ?t"
    by auto
  moreover have "x = Ret (?t\<lparr>sched := sc'\<rparr>)" using step TaskDone sc'(1) by (auto split: if_splits)
  ultimately show ?thesis using hand(2) by (auto simp: run_weight_def)
next
  case (RetryFires k)
  have k: "k < length (sc_retrying (sched s))" using step RetryFires by (simp split: if_splits)
  note hand = hand_retrying [OF inv k]
  define t where "t = sc_retrying (sched s) ! k"
  let ?s = "s\<lparr>sched := (sched s)\<lparr>sc_retrying := remove_at k (sc_retrying (sched s))\<rparr>\<rparr>"
  have g: "good_retry p (sc_results (sched s)) t" using hand(3) by (simp add: t_def)
  have open_: "\<not> sc_closed (sched s)" using in_hand(5) [OF hand(1) ok] by simp
  let ?m = "(newMemoryTaskRun env p (sc_results (sched s)) (rt_task t) (rt_vars t))\<lparr>mtr_attempts := rt_attempts t\<rparr>"
  let ?u = "?s\<lparr>sched := (sched ?s)\<lparr>sc_taskCh := sc_taskCh (sched s) @ [?m]\<rparr>\<rparr>"
  have x: "x = Ret ?u" using step RetryFires k open_ by (simp add: send_task_def t_def Let_def)
  have m: "mset ([] @ live_list ?u) = mset ([bt_id (rt_task t)] @ live_list ?s)"
    by (simp add: live_list_def newMemoryTaskRun_def t_def)
  have gm: "good_run env p (sc_results (sched s)) ?m"
    using g by (simp add: good_run_def good_retry_def newMemoryTaskRun_def Let_def)
  have "sched_inv env p U [] ?u"
    by (rule sched_inv_move [OF hand(1) [folded t_def] m])
      (use hand(1) [folded t_def] goods [OF inv] gm remove_at_facts(2) [OF k] open_ in \<open>auto simp: sched_inv_def Let_def\<close>)
  moreover have "run_weight p ?u < run_weight p s"
  proof -
    have "state_weight p [] ?u = state_weight p [bt_id (rt_task t)] ?s + 2"
      using mset_eq_setD [OF m] by (simp add: state_weight_def)
    then show ?thesis using hand(2) by (simp add: run_weight_def t_def)
  qed
  ultimately show ?thesis using x by blast
next
  case (RetryCancelled k now)
  have k: "k < length (sc_retrying (sched s))" using step RetryCancelled by (simp split: if_splits)
  note hand = hand_retrying [OF inv k]
  define t where "t = sc_retrying (sched s) ! k"
  let ?s = "s\<lparr>sched := (sched s)\<lparr>sc_retrying := remove_at k (sc_retrying (sched s))\<rparr>\<rparr>" and ?i = "bt_id (rt_task t)"
  have "trr_Task (cancelled_retry t now) = Tasks p ! ?i"
    using hand(3) by (simp add: cancelled_retry_def good_retry_def t_def Let_def)
  from receive_inv [OF hand(1) [folded t_def] ok env this, of now] obtain sc' where
    sc': "receive env p now (cancelled_retry t now) (sched ?s) = Ret sc'"
      "sched_inv env p U [] (?s\<lparr>sched := sc'\<rparr>)" "state_weight p [] (?s\<lparr>sched := sc'\<rparr>) \<le> state_weight p [?i] ?s"
    by auto
  moreover have "x = Ret (?s\<lparr>sched := sc'\<rparr>)" using step RetryCancelled sc'(1) by (auto simp: t_def split: if_splits)
  ultimately show ?thesis using hand(2) by (auto simp: run_weight_def t_def)
next
  case CloseTasks
  let ?t = "s\<lparr>sched := (sched s)\<lparr>sc_closed := True\<rparr>\<rparr>"
  have c: "sc_waiting (sched s) = 0" "\<not> sc_closed (sched s)" "x = Ret ?t"
    using step CloseTasks by (auto split: if_splits)
  have m: "mset ([] @ live_list ?t) = mset ([] @ live_list s)" by (simp add: live_list_def)
  have "sched_inv env p U [] ?t"
    by (rule sched_inv_move [OF inv m]) (use inv c goods [OF inv] in \<open>auto simp: sched_inv_def Let_def\<close>)
  moreover have "run_weight p ?t < run_weight p s"
    using mset_eq_setD [OF m] c by (simp add: run_weight_def state_weight_def)
  ultimately show ?thesis using c by blast
qed

end
