(* ===== verification/SchedulerStart.thy ===== *)
theory SchedulerStart
  imports SchedulerRuns
begin

text \<open>
  A new scheduler satisfies the invariant: for a fresh run, and for a run that is resumed with the rows of
  tasks that were finished before (\<open>reconstructResults\<close>), provided the rows name different tasks of the
  pipeline and hold, with a task, its inputs.
\<close>

definition finished_rows :: "task_run list \<Rightarrow> task_run list" where
  "finished_rows rows = filter (\<lambda>r. \<not> TaskRun_IsPending r) rows"

definition resumed :: "pipeline \<Rightarrow> task_run list \<Rightarrow> nat set" where
  "resumed p rows = {i. i < length (Tasks p) \<and> bt_dotID (Tasks p ! i) \<in> tr_DotID ` set (finished_rows rows)}"

definition rows_resumable :: "pipeline \<Rightarrow> task_run list \<Rightarrow> bool" where
  "rows_resumable p rows \<longleftrightarrow> distinct (map tr_DotID rows) \<and> set (map tr_DotID rows) \<subseteq> bt_dotID ` set (Tasks p)
     \<and> (\<forall>i\<in>resumed p rows. set (td_ids (Tasks p ! i)) \<subseteq> resumed p rows)"

definition rec_inv :: "pipeline \<Rightarrow> nat set \<Rightarrow> scheduler \<Rightarrow> bool" where
  "rec_inv p D s \<longleftrightarrow> D \<subseteq> {..<length (Tasks p)}
     \<and> (\<forall>i<length (Tasks p). unat (sc_dependencies s i) = card {j \<in> set (td_ids (Tasks p ! i)). j \<notin> D})
     \<and> dom (map_of (sc_results s)) = D
     \<and> (\<forall>i r. map_of (sc_results s) i = Some r \<longrightarrow> trr_Task r = Tasks p ! i \<and> trr_Attempts r = 0 \<and> \<not> is_pending r)
     \<and> distinct (map fst (sc_results s)) \<and> distinct (map fst (sc_vars s))
     \<and> (\<forall>j\<in>D. map_of (sc_vars s) (task_name p j) = Some (stored_value (result_at (sc_results s) j)))
     \<and> sc_waiting s = 0 \<and> sc_taskCh s = [] \<and> sc_retrying s = [] \<and> \<not> sc_closed s \<and> \<not> sc_pending s
     \<and> \<not> sc_exiting s \<and> \<not> sc_cancelled s"

lemma foldl_lower: "distinct os \<Longrightarrow> foldl (\<lambda>d i. d(i := d i - 1)) deps os = lowered os deps"
proof (induction os arbitrary: deps)
  case (Cons k os)
  then show ?case by (auto simp: lowered_def fun_eq_iff)
qed (simp add: lowered_def)

lemma ByDotID_eq:
  assumes "names_ok p" "k < length (Tasks p)" "dotID = bt_dotID (Tasks p ! k)"
  shows "ByDotID p dotID = Some (Tasks p ! k)"
proof -
  have "bt_dotID (Tasks p ! j) \<noteq> bt_dotID (Tasks p ! k)" if "j < k" for j
    using task_name_inj [OF assms(1), of j k] that assms(2) by (auto simp: task_name_def)
  then show ?thesis
    unfolding ByDotID_def assms(3) find_Some_iff using assms(2) by (intro exI [of _ k]) auto
qed

lemma rec_inv_row:
  assumes inv: "rec_inv p D s" and ok: "pipeline_ok p" and k: "k < length (Tasks p)" "k \<notin> D"
    and row: "tr_DotID r = bt_dotID (Tasks p ! k)" "\<not> TaskRun_IsPending r"
  shows "\<exists>s'. reconstruct_row p s r = Ret s' \<and> rec_inv p (insert k D) s'"
proof -
  have wl: "well_linked (Tasks p)" and nm: "names_ok p" using ok by (simp_all add: pipeline_ok_def)
  have idk: "bt_id (Tasks p ! k) = k" using wl k by (simp add: well_linked_def)
  have dos: "distinct (bt_outputs (Tasks p ! k))" using wl k by (simp add: well_linked_def)
  define result where "result = \<lparr>res_Value = (if js_Valid (tr_Output r) then js_Val (tr_Output r) else NilV),
                  res_Error = map_option OtherError (tr_Error r)\<rparr>"
  define tr where "tr = \<lparr>trr_ID = 0, trr_Task = Tasks p ! k, trr_Result = result, trr_Attempts = 0,
                   trr_CreatedAt = tr_CreatedAt r, trr_FinishedAt = tr_FinishedAt r, trr_runInfo = no_info\<rparr>"
  define s' where "s' = s\<lparr>sc_results := assoc_put k tr (sc_results s),
      sc_vars := assoc_put (task_name p k) (stored_value result) (sc_vars s),
      sc_dependencies := lowered (bt_outputs (Tasks p ! k)) (sc_dependencies s)\<rparr>"
  have "reconstruct_row p s r = Ret s'"
    using ByDotID_eq [OF nm k(1) row(1)] row(2) set_result_ok [OF nm k(1) refl] dos
    by (simp add: reconstruct_row_def Let_def idk foldl_lower s'_def tr_def result_def)
  moreover have "rec_inv p (insert k D) s'"
    unfolding rec_inv_def
  proof (intro conjI allI impI ballI)
    show "insert k D \<subseteq> {..<length (Tasks p)}" using inv k by (simp add: rec_inv_def)
    show "dom (map_of (sc_results s')) = insert k D" using inv by (simp add: rec_inv_def s'_def)
    show "distinct (map fst (sc_results s'))" "distinct (map fst (sc_vars s'))"
      using inv by (simp_all add: rec_inv_def s'_def)
    fix i :: nat
    show "unat (sc_dependencies s' i) = card {j \<in> set (td_ids (Tasks p ! i)). j \<notin> insert k D}" if i: "i < length (Tasks p)"
    proof (cases "i \<in> set (bt_outputs (Tasks p ! k))")
      case True
      then have "k \<in> set (td_ids (Tasks p ! i))" using outputs_iff [OF wl k(1)] by blast
      then have "{j \<in> set (td_ids (Tasks p ! i)). j \<notin> insert k D} = {j \<in> set (td_ids (Tasks p ! i)). j \<notin> D} - {k}"
        and inn: "k \<in> {j \<in> set (td_ids (Tasks p ! i)). j \<notin> D}"
        using k(2) by auto
      moreover have e: "unat (sc_dependencies s i) = card {j \<in> set (td_ids (Tasks p ! i)). j \<notin> D}"
        using inv i by (simp add: rec_inv_def)
      moreover have "finite {j \<in> set (td_ids (Tasks p ! i)). j \<notin> D}" by simp
      then have "card {j \<in> set (td_ids (Tasks p ! i)). j \<notin> D} \<noteq> 0" using inn card_0_eq by blast
      then have "sc_dependencies s i \<noteq> 0" using e by (metis unat_0)
      ultimately show ?thesis using unat_pred True by (simp add: s'_def lowered_def card_Diff_singleton)
    next
      case False
      then have "k \<notin> set (td_ids (Tasks p ! i))" using outputs_iff [OF wl k(1)] i by blast
      then have "{j \<in> set (td_ids (Tasks p ! i)). j \<notin> insert k D} = {j \<in> set (td_ids (Tasks p ! i)). j \<notin> D}" by auto
      then show ?thesis using inv i False by (simp add: rec_inv_def s'_def lowered_def)
    qed
    fix r' assume "map_of (sc_results s') i = Some r'"
    then show "trr_Task r' = Tasks p ! i" "trr_Attempts r' = 0" "\<not> is_pending r'"
      using inv by (auto simp: rec_inv_def s'_def tr_def is_pending_def no_info_def split: if_splits)
  next
    fix j assume j: "j \<in> insert k D"
    show "map_of (sc_vars s') (task_name p j) = Some (stored_value (result_at (sc_results s') j))"
    proof (cases "j = k")
      case False
      then have "j \<in> D" "j < length (Tasks p)" using j inv by (auto simp: rec_inv_def)
      then show ?thesis
        using inv False task_name_inj [OF nm, of j k] k(1) by (simp add: rec_inv_def s'_def result_at_def)
    qed (simp add: s'_def result_at_def tr_def)
  qed (use inv in \<open>simp_all add: rec_inv_def s'_def\<close>)
  ultimately show ?thesis by blast
qed

lemma reconstruct_inv:
  assumes ok: "pipeline_ok p"
  shows "rec_inv p D s \<Longrightarrow> distinct (map tr_DotID rows) \<Longrightarrow> set (map tr_DotID rows) \<subseteq> bt_dotID ` set (Tasks p)
    \<Longrightarrow> D \<inter> resumed p rows = {}
    \<Longrightarrow> \<exists>s'. reconstructResults p rows s = Ret s' \<and> rec_inv p (D \<union> resumed p rows) s'"
proof (induction rows arbitrary: D s)
  case Nil
  then show ?case by (simp add: resumed_def finished_rows_def)
next
  case (Cons r rows)
  have nm: "names_ok p" using ok by (simp add: pipeline_ok_def)
  obtain k where k: "k < length (Tasks p)" "tr_DotID r = bt_dotID (Tasks p ! k)"
    using Cons.prems(3) by (auto simp: in_set_conv_nth)
  have other: "k \<notin> resumed p rows"
    using Cons.prems(2) k(2) by (force simp: resumed_def finished_rows_def)
  have one: "bt_dotID (Tasks p ! i) = bt_dotID (Tasks p ! k) \<longleftrightarrow> i = k" if "i < length (Tasks p)" for i
    using task_name_inj [OF nm that k(1)] by (auto simp: task_name_def)
  show ?case
  proof (cases "TaskRun_IsPending r")
    case True
    then have "resumed p (r # rows) = resumed p rows" by (simp add: resumed_def finished_rows_def)
    then show ?thesis
      using Cons.IH [OF Cons.prems(1)] Cons.prems True ByDotID_eq [OF nm k] by (simp add: reconstruct_row_def)
  next
    case False
    then have eq: "resumed p (r # rows) = insert k (resumed p rows)"
      using one k by (auto simp: resumed_def finished_rows_def)
    then have kD: "k \<notin> D" using Cons.prems(4) by blast
    obtain s1 where s1: "reconstruct_row p s r = Ret s1" "rec_inv p (insert k D) s1"
      using rec_inv_row [OF Cons.prems(1) ok k(1) kD k(2) False] by blast
    have "insert k D \<inter> resumed p rows = {}" using Cons.prems(4) eq other by blast
    then obtain s2 where "reconstructResults p rows s1 = Ret s2" "rec_inv p (insert k D \<union> resumed p rows) s2"
      using Cons.IH [OF s1(2)] Cons.prems(2,3) by auto
    then show ?thesis using s1(1) eq by simp
  qed
qed

lemma empty_rec_inv:
  assumes "pipeline_ok p" "distinct (map fst vs)"
  shows "rec_inv p {} (empty_scheduler p vs)"
proof -
  have "unat (of_nat (length (bt_inputs (Tasks p ! i))) :: 64 word) = card (set (td_ids (Tasks p ! i)))"
    if i: "i < length (Tasks p)" for i
  proof -
    have d: "distinct (td_ids (Tasks p ! i))" "set (td_ids (Tasks p ! i)) \<subseteq> {..<i}"
      using assms(1) i by (auto simp: pipeline_ok_def well_linked_def)
    then have "card (set (td_ids (Tasks p ! i))) \<le> i" by (metis card_lessThan card_mono finite_lessThan)
    moreover have "card (set (td_ids (Tasks p ! i))) = length (bt_inputs (Tasks p ! i))"
      using distinct_card [OF d(1)] by simp
    ultimately show ?thesis using i assms(1) by (simp add: unat_of_nat pipeline_ok_def)
  qed
  then show ?thesis using assms(2) by (simp add: rec_inv_def empty_scheduler_def)
qed

lemma schedule_doable_eq:
  "\<not> sc_closed s \<Longrightarrow> schedule_doable env p (map (\<lambda>i. (i, Tasks p ! i)) is) s
    = Ret (s\<lparr>sc_taskCh := sc_taskCh s @ map (new_run env p s)
               (filter (\<lambda>i. sc_dependencies s i = 0 \<and> map_of (sc_results s) i = None) is),
             sc_waiting := sc_waiting s
               + of_nat (length (filter (\<lambda>i. sc_dependencies s i = 0 \<and> map_of (sc_results s) i = None) is))\<rparr>)"
proof (induction "is" arbitrary: s)
  case (Cons i "is")
  show ?case
  proof (cases "sc_dependencies s i = 0 \<and> map_of (sc_results s) i = None")
    case True
    let ?s1 = "s\<lparr>sc_taskCh := sc_taskCh s @ [new_run env p s i], sc_waiting := sc_waiting s + 1\<rparr>"
    have "schedule_doable env p (map (\<lambda>i. (i, Tasks p ! i)) (i # is)) s
        = schedule_doable env p (map (\<lambda>i. (i, Tasks p ! i)) is) ?s1"
      using True Cons.prems by (simp add: schedule_task_def send_task_def new_run_def)
    also have "\<dots> = Ret (?s1\<lparr>sc_taskCh := sc_taskCh ?s1 @ map (new_run env p ?s1)
               (filter (\<lambda>i. sc_dependencies ?s1 i = 0 \<and> map_of (sc_results ?s1) i = None) is),
             sc_waiting := sc_waiting ?s1
               + of_nat (length (filter (\<lambda>i. sc_dependencies ?s1 i = 0 \<and> map_of (sc_results ?s1) i = None) is))\<rparr>)"
      by (rule Cons.IH) (use Cons.prems in simp)
    finally show ?thesis using True by (simp add: add.assoc)
  next
    case False
    have "schedule_doable env p (map (\<lambda>i. (i, Tasks p ! i)) (i # is)) s
        = schedule_doable env p (map (\<lambda>i. (i, Tasks p ! i)) is) s"
      using False by (auto simp del: not_None_eq)
    then show ?thesis using False Cons by auto
  qed
qed simp

text \<open>The tasks a scheduler starts with: those without a result whose inputs all have one.\<close>

definition doable :: "pipeline \<Rightarrow> nat set \<Rightarrow> nat list" where
  "doable p D = filter (\<lambda>i. i \<notin> D \<and> set (td_ids (Tasks p ! i)) \<subseteq> D) [0..<length (Tasks p)]"

definition total_attempts :: "pipeline \<Rightarrow> nat" where
  "total_attempts p = sum_list (map max_attempts (Tasks p))"

lemma rec_inv_doable:
  assumes "rec_inv p D s"
  shows "filter (\<lambda>i. sc_dependencies s i = 0 \<and> map_of (sc_results s) i = None) [0..<length (Tasks p)] = doable p D"
  unfolding doable_def
proof (rule filter_cong [OF refl])
  fix i assume "i \<in> set [0..<length (Tasks p)]"
  then have "unat (sc_dependencies s i) = card {j \<in> set (td_ids (Tasks p ! i)). j \<notin> D}"
    using assms by (simp add: rec_inv_def)
  moreover have "finite {j \<in> set (td_ids (Tasks p ! i)). j \<notin> D}" by simp
  ultimately have "sc_dependencies s i = 0 \<longleftrightarrow> {j \<in> set (td_ids (Tasks p ! i)). j \<notin> D} = {}"
    by (metis card_0_eq unat_eq_zero)
  moreover have "map_of (sc_results s) i = None \<longleftrightarrow> i \<notin> D" using assms by (auto simp: rec_inv_def)
  ultimately show "(sc_dependencies s i = 0 \<and> map_of (sc_results s) i = None)
      = (i \<notin> D \<and> set (td_ids (Tasks p ! i)) \<subseteq> D)"
    by blast
qed

lemma start_core:
  assumes inv: "rec_inv p D s" and closed: "\<forall>i\<in>D. set (td_ids (Tasks p ! i)) \<subseteq> D"
  shows "core (Tasks p) D (set (doable p D)) (map_of (sc_results s)) (sc_dependencies s) False"
    and "final (set (doable p D)) (map_of (sc_results s)) j \<longleftrightarrow> j \<in> D"
proof -
  have dom: "map_of (sc_results s) i \<noteq> None \<longleftrightarrow> i \<in> D" for i using inv by (auto simp: rec_inv_def)
  have r: "trr_Task r = Tasks p ! i \<and> trr_Attempts r = 0 \<and> \<not> is_pending r" if "map_of (sc_results s) i = Some r" for i r
    using inv that by (simp add: rec_inv_def)
  have fin: "final (set (doable p D)) (map_of (sc_results s)) j \<longleftrightarrow> j \<in> D" for j
    unfolding final_def using dom [of j] r [of j] by (auto simp: doable_def)
  show "final (set (doable p D)) (map_of (sc_results s)) j \<longleftrightarrow> j \<in> D" by (rule fin)
  have sub: "D \<subseteq> {..<length (Tasks p)}" using inv by (simp add: rec_inv_def)
  have go: "going (Tasks p) D (set (doable p D)) (map_of (sc_results s)) (sc_dependencies s)"
    unfolding going_def fin
  proof (intro conjI allI impI ballI)
    show "map_of (sc_results s) i \<noteq> None" if "i \<in> D" for i using that dom by blast
    fix i assume i: "i < length (Tasks p)"
    show c: "unat (sc_dependencies s i) = card {j \<in> set (td_ids (Tasks p ! i)). j \<notin> D}"
      using inv i by (simp add: rec_inv_def)
    show "i \<in> set (doable p D) \<or> map_of (sc_results s) i \<noteq> None" if "sc_dependencies s i = 0"
    proof -
      have "i \<in> set (doable p D) \<longleftrightarrow> sc_dependencies s i = 0 \<and> map_of (sc_results s) i = None"
        using i unfolding rec_inv_doable [OF inv, symmetric] by simp
      then show ?thesis using that by (cases "map_of (sc_results s) i = None") simp_all
    qed
    show "j \<in> D" if "i \<in> set (doable p D) \<or> map_of (sc_results s) i \<noteq> None" "j \<in> set (td_ids (Tasks p ! i))" for j
      using that closed dom by (auto simp: doable_def simp del: not_None_eq)
  next
    fix i r' assume a: "map_of (sc_results s) i = Some r'"
    then have iD: "i \<in> D" using dom by blast
    have nl: "i \<notin> set (doable p D)" using iD by (simp add: doable_def)
    show "0 < unat (trr_Attempts r')" if "i \<notin> D" using iD that by blast
    show "failed r'" "i \<notin> D" "0 < unat (trr_Attempts r')" "unat (trr_Attempts r') < retries_of (Tasks p ! i)"
      if "i \<in> set (doable p D)" using nl that by blast+
    show "retries_of (Tasks p ! i) \<le> unat (trr_Attempts r')" "\<not> bt_FailEarly (Tasks p ! i)"
      if "i \<notin> set (doable p D) \<and> \<not> is_pending r' \<and> failed r' \<and> i \<notin> D" using iD that by blast+
  qed
  show "core (Tasks p) D (set (doable p D)) (map_of (sc_results s)) (sc_dependencies s) False"
    unfolding core_def if_False
  proof (intro conjI allI impI ballI go)
    fix i assume "i \<in> set (doable p D)"
    then show "i < length (Tasks p)" by (simp add: doable_def)
    show "final (set (doable p D)) (map_of (sc_results s)) j" if "j \<in> set (td_ids (Tasks p ! i))" for j
      unfolding fin using \<open>i \<in> set (doable p D)\<close> that by (auto simp: doable_def)
  next
    fix i r' assume a: "map_of (sc_results s) i = Some r'"
    then have iD: "i \<in> D" using dom by blast
    have nl: "i \<notin> set (doable p D)" using iD by (simp add: doable_def)
    show "i < length (Tasks p)" using iD sub by blast
    show "trr_Task r' = Tasks p ! i" "unat (trr_Attempts r') \<le> max_attempts (Tasks p ! i)" using r [OF a] by simp_all
    show "\<not> is_pending r'" "unat (trr_Attempts r') < max_attempts (Tasks p ! i)" if "i \<in> set (doable p D)"
      using nl that by blast+
  qed
qed

lemma start_weight:
  assumes "set xs \<subseteq> {..<length ts}" "distinct xs" "\<forall>i\<in>set xs. res i = None"
  shows "potsum ts (set xs) res + 2 * length xs \<le> 3 * sum_list (map max_attempts ts)"
proof -
  have "{..<length ts} \<inter> set xs = set xs" using assms(1) by blast
  then have "2 * length xs = (\<Sum>k<length ts. if k \<in> set xs then 2 else 0)"
    using assms(2) by (simp add: sum.If_cases distinct_card)
  then have "potsum ts (set xs) res + 2 * length xs = (\<Sum>k<length ts. pot ts (set xs) res k + (if k \<in> set xs then 2 else 0))"
    by (simp add: potsum_def sum.distrib)
  also have "\<dots> \<le> (\<Sum>k<length ts. 3 * max_attempts (ts ! k))"
  proof (rule sum_mono)
    fix k
    have "3 * (max_attempts (ts ! k) - 1) + 3 = 3 * max_attempts (ts ! k)"
      using max_attempts_pos [of "ts ! k"] by simp
    then show "pot ts (set xs) res k + (if k \<in> set xs then 2 else 0) \<le> 3 * max_attempts (ts ! k)"
      using assms(3) by (auto simp: pot_def)
  qed
  also have "\<dots> = 3 * sum_list (map max_attempts ts)"
    by (simp add: sum_list_sum_nth sum_distrib_left atLeast0LessThan)
  finally show ?thesis .
qed

lemma newScheduler_inv:
  assumes ok: "pipeline_ok p" and env: "sched_env_ok env" and rows: "rows_resumable p rows" and vs: "distinct (map fst vs)"
  shows "\<exists>s. newScheduler env p rows vs = Ret s \<and> sched_inv env p (resumed p rows) [] \<lparr>sched = s, executing = []\<rparr>
    \<and> run_weight p \<lparr>sched = s, executing = []\<rparr> \<le> 3 * total_attempts p + 1
    \<and> live_list \<lparr>sched = s, executing = []\<rparr> = doable p (resumed p rows)
    \<and> dom (map_of (sc_results s)) = resumed p rows \<and> \<not> sc_closed s"
proof -
  let ?D = "resumed p rows"
  obtain s0 where s0: "reconstructResults p rows (empty_scheduler p vs) = Ret s0" "rec_inv p ?D s0"
    using reconstruct_inv [OF ok empty_rec_inv [OF ok vs], of rows] rows by (auto simp: rows_resumable_def)
  have closed: "\<forall>i\<in>?D. set (td_ids (Tasks p ! i)) \<subseteq> ?D" using rows by (simp add: rows_resumable_def)
  have wl: "well_linked (Tasks p)" using ok by (simp add: pipeline_ok_def)
  let ?new = "doable p ?D"
  define s where "s = s0\<lparr>sc_taskCh := sc_taskCh s0 @ map (new_run env p s0) ?new,
      sc_waiting := sc_waiting s0 + of_nat (length ?new)\<rparr>"
  have z: "zip [0..<length (Tasks p)] (Tasks p) = map (\<lambda>i. (i, Tasks p ! i)) [0..<length (Tasks p)]"
    by (rule nth_equalityI) simp_all
  have n: "newScheduler env p rows vs = Ret s"
    using s0 schedule_doable_eq [of s0 env p "[0..<length (Tasks p)]"]
    unfolding newScheduler_def z by (simp add: rec_inv_doable [OF s0(2)] s_def rec_inv_def)
  note c = start_core [OF s0(2) closed]
  have ids: "map (\<lambda>m. bt_id (mtr_task m)) (map (new_run env p s0) ?new) = ?new"
  proof -
    have "bt_id (Tasks p ! k) = k" if "k \<in> set ?new" for k
      using wl that unfolding well_linked_def doable_def by simp
    then show ?thesis by (simp add: new_run_def newMemoryTaskRun_def map_idI)
  qed
  then have live: "live_list \<lparr>sched = s, executing = []\<rparr> = ?new"
    using s0(2) by (simp add: live_list_def s_def rec_inv_def comp_def)
  have dn: "distinct ?new" by (simp add: doable_def)
  have len: "length ?new < 2 ^ 64"
  proof -
    have "length ?new \<le> length [0..<length (Tasks p)]" unfolding doable_def by (rule length_filter_le)
    then show ?thesis using ok by (simp add: pipeline_ok_def)
  qed
  have good: "good_run env p (sc_results s0) (new_run env p s0 k)" if k: "k \<in> set ?new" for k
  proof -
    have k': "bt_id (Tasks p ! k) = k" "map_of (sc_results s0) k = None" "set (td_ids (Tasks p ! k)) \<subseteq> ?D"
      using k wl s0(2) by (auto simp: doable_def well_linked_def rec_inv_def)
    have "map_of (Vars_Copy (copy_order env) (sc_vars s0)) = map_of (sc_vars s0)"
      by (rule map_of_Vars_Copy [OF env]) (use s0(2) in \<open>simp add: rec_inv_def\<close>)
    then have "knows p (sc_results s0) k (Vars_Copy (copy_order env) (sc_vars s0))"
      unfolding knows_def using s0(2) k'(3) by (auto simp: rec_inv_def)
    then show ?thesis
      using k' by (simp add: good_run_def new_run_def newMemoryTaskRun_def Let_def attempts_at_def)
  qed
  have pend: "\<not> (\<exists>i r. map_of (sc_results s0) i = Some r \<and> is_pending r)" using s0(2) by (auto simp: rec_inv_def)
  have parts: "sc_results s = sc_results s0" "sc_dependencies s = sc_dependencies s0" "sc_vars s = sc_vars s0"
    "sc_exiting s = False" "sc_cancelled s = False" "sc_pending s = False" "sc_closed s = False"
    "sc_waiting s = of_nat (length ?new)" "sc_taskCh s = map (new_run env p s0) ?new" "sc_retrying s = []"
    using s0(2) by (simp_all add: s_def rec_inv_def)
  have "sched_inv env p ?D [] \<lparr>sched = s, executing = []\<rparr>"
  proof (rule sched_invI)
    show "set ?new = set ([] @ live_list \<lparr>sched = s, executing = []\<rparr>)" using live by simp
    show "map_of (sc_results s0) = map_of (sc_results (sched \<lparr>sched = s, executing = []\<rparr>))" by (simp add: parts)
    show "map_of (sc_vars (sched \<lparr>sched = s, executing = []\<rparr>)) (task_name p j)
        = Some (stored_value (result_at (sc_results (sched \<lparr>sched = s, executing = []\<rparr>)) j))"
      if "final (set ?new) (map_of (sc_results s0)) j" for j
      using that c(2) s0(2) by (simp add: parts rec_inv_def)
  qed (use c(1) dn len pend good s0(2) in \<open>auto simp: parts live rec_inv_def unat_of_nat list_all_iff\<close>)
  moreover have "run_weight p \<lparr>sched = s, executing = []\<rparr> \<le> 3 * total_attempts p + 1"
  proof -
    have "set ?new \<subseteq> {..<length (Tasks p)}" by (auto simp: doable_def)
    moreover have "\<forall>i\<in>set ?new. map_of (sc_results s0) i = None"
      using s0(2) unfolding rec_inv_def by (auto simp: doable_def)
    ultimately show ?thesis
      using start_weight [of ?new "Tasks p" "map_of (sc_results s0)"] dn
      unfolding run_weight_def state_weight_def append_Nil live total_attempts_def by (simp add: parts)
  qed
  moreover have "dom (map_of (sc_results s)) = ?D" using s0(2) by (simp add: parts rec_inv_def)
  ultimately show ?thesis using n live parts(7) by blast
qed

end
