(* ===== verification/SchedulerTheorems.thy ===== *)
theory SchedulerTheorems
  imports SchedulerStart "HOL-Library.Sublist"
begin

text \<open>
  What holds of the scheduler of a run: it does not panic and its channel never blocks, it comes to an end after
  a bounded number of events whatever the tasks answer, a task runs only after its inputs and sees their
  results, and at the end every task is accounted for.
\<close>

section \<open>Runs\<close>

definition ok_step :: "sched_env \<Rightarrow> pipeline \<Rightarrow> sched_event \<Rightarrow> run_state \<Rightarrow> run_state option" where
  "ok_step env p e s = (case sched_step env p e s of Some (Ret t) \<Rightarrow> Some t | _ \<Rightarrow> None)"

definition run_reaches ::
  "sched_env \<Rightarrow> pipeline \<Rightarrow> task_run list \<Rightarrow> vars \<Rightarrow> sched_event list \<Rightarrow> run_state \<Rightarrow> bool" where
  "run_reaches env p rows vs es s \<longleftrightarrow> (\<exists>s0. newScheduler env p rows vs = Ret s0
     \<and> sched_run env p es \<lparr>sched = s0, executing = []\<rparr> = Some s)"

lemma sched_run_machine: "sched_run env p es s = machine_run (ok_step env p) es s"
  by (induction es arbitrary: s) (auto simp: ok_step_def split: option.splits run.splits)

interpretation scheduling: stopping_machine "ok_step env p"
  "\<lambda>s. pipeline_ok p \<and> sched_env_ok env \<and> sched_inv env p U [] s" "run_weight p" for env p U
proof
  fix s e t
  assume a: "pipeline_ok p \<and> sched_env_ok env \<and> sched_inv env p U [] s" and "ok_step env p e s = Some t"
  then obtain x where x: "sched_step env p e s = Some x" "x = Ret t"
    by (auto simp: ok_step_def split: option.splits run.splits)
  then show "pipeline_ok p \<and> sched_env_ok env \<and> sched_inv env p U [] t" "run_weight p t < run_weight p s"
    using sched_step_inv [of env p U s e x] a by auto
qed

lemma reached:
  assumes "pipeline_ok p" "sched_env_ok env" "rows_resumable p rows" "distinct (map fst vs)" "run_reaches env p rows vs es s"
  shows "sched_inv env p (resumed p rows) [] s" "length es + run_weight p s \<le> 3 * total_attempts p + 1"
proof -
  obtain s0 where s0: "sched_inv env p (resumed p rows) [] \<lparr>sched = s0, executing = []\<rparr>"
    "run_weight p \<lparr>sched = s0, executing = []\<rparr> \<le> 3 * total_attempts p + 1"
    "machine_run (ok_step env p) es \<lparr>sched = s0, executing = []\<rparr> = Some s"
    using newScheduler_inv [OF assms(1-4)] assms(5) by (auto simp: run_reaches_def sched_run_machine)
  then show "sched_inv env p (resumed p rows) [] s"
    using scheduling.run_inv [of p env "resumed p rows", OF _ s0(3)] assms(1,2) by blast
  show "length es + run_weight p s \<le> 3 * total_attempts p + 1"
    using scheduling.run_bounded [of p env "resumed p rows", OF _ s0(3)] assms(1,2) s0(1,2) by fastforce
qed

text \<open>In any state but the last an event is possible.\<close>

lemma progress:
  assumes "sched_inv env p U [] s" "\<forall>e. sched_step env p e s = None"
  shows "sc_closed (sched s) \<and> live_list s = []"
proof -
  have w: "unat (sc_waiting (sched s)) = length (live_list s)" using waiting_live [OF assms(1)] by simp
  have ch: "sc_taskCh (sched s) = []"
    using assms(2) [rule_format, of TakeTask] by (auto split: list.splits)
  have ret: "sc_retrying (sched s) = []"
    using assms(2) [rule_format, of "RetryFires 0"] by (auto split: if_splits simp: Let_def)
  have "executing s = []"
  proof (rule ccontr)
    assume e: "executing s \<noteq> []"
    then have "sc_waiting (sched s) \<noteq> 0" using w by (auto simp: live_list_def)
    then show False using assms(2) [rule_format, of "TaskDone 0 (Panicked '''') 0 0 0"] e by (simp split: if_splits)
  qed
  then have l: "live_list s = []" using ch ret by (simp add: live_list_def)
  then have "sc_waiting (sched s) = 0" using w by (simp add: unat_eq_zero)
  then show ?thesis using l assms(2) [rule_format, of CloseTasks] by (simp split: if_splits)
qed

lemma closed_idle:
  assumes "sched_inv env p U [] s" "sc_closed (sched s)"
  shows "live_list s = []"
proof -
  have "sc_waiting (sched s) = 0" using assms by (simp add: sched_inv_def Let_def)
  then show ?thesis using waiting_live [OF assms(1)] by simp
qed

lemma inv_core:
  "sched_inv env p U [] s \<Longrightarrow> core (Tasks p) U (set (live_list s)) (map_of (sc_results (sched s)))
     (sc_dependencies (sched s)) (sc_exiting (sched s))"
  by (simp add: sched_inv_def Let_def)

text \<open>At the end of a run in which no task is pending every task has a result.\<close>

lemma idle_complete:
  assumes inv: "sched_inv env p U [] s" and ok: "pipeline_ok p" and closed: "sc_closed (sched s)"
    and "\<not> sc_pending (sched s)" and "i < length (Tasks p)"
  shows "\<exists>r. map_of (sc_results (sched s)) i = Some r"
proof (cases "sc_exiting (sched s)")
  case True
  then show ?thesis using inv_core [OF inv] assms(5) by (auto simp: core_def)
next
  case False
  let ?res = "map_of (sc_results (sched s))"
  have "set (live_list s) = {}" using closed_idle [OF inv closed] by simp
  then have going: "going (Tasks p) U {} ?res (sc_dependencies (sched s))"
    using inv_core [OF inv] False by (simp add: core_def)
  show ?thesis
    using assms(5)
  proof (induction i rule: less_induct)
    case (less i)
    have "final {} ?res j" if j: "j \<in> set (td_ids (Tasks p ! i))" for j
    proof -
      have "j < i" using ok less.prems j by (auto simp: pipeline_ok_def well_linked_def)
      then obtain r where "?res j = Some r" using less.IH [of j] less.prems by auto
      moreover then have "\<not> is_pending r" using inv assms(4) by (auto simp: sched_inv_def Let_def)
      ultimately show ?thesis by (simp add: final_def)
    qed
    then have none: "{j \<in> set (td_ids (Tasks p ! i)). \<not> final {} ?res j} = {}" by blast
    have "unat (sc_dependencies (sched s) i) = card {j \<in> set (td_ids (Tasks p ! i)). \<not> final {} ?res j}"
      using going less.prems unfolding going_def by blast
    then have "unat (sc_dependencies (sched s) i) = 0" unfolding none by simp
    then have "sc_dependencies (sched s) i = 0" by (simp add: unat_eq_zero)
    then show ?case using going less.prems unfolding going_def by auto
  qed
qed

section \<open>What a task reads\<close>

lemma Split_plain: "KeypathSeparator \<notin> set s \<Longrightarrow> Split s KeypathSeparator = [s]"
  by (induction s) auto

lemma dropWhile_idem: "dropWhile P (dropWhile P xs) = dropWhile P xs"
  by (induction xs) auto

lemma TrimSpace_idem: "TrimSpace (TrimSpace s) = TrimSpace s"
proof -
  let ?t = "dropWhile go_space s"
  let ?u = "dropWhile go_space (rev ?t)"
  have "dropWhile go_space (rev ?u) = rev ?u"
  proof (cases "rev ?u")
    case (Cons c cs)
    have "suffix ?u (rev ?t)" by (rule suffix_dropWhile)
    then have "prefix (rev ?u) ?t" by (simp add: suffix_to_prefix)
    then have "\<exists>ds. ?t = c # ds" using Cons by (auto simp: prefix_def)
    then have "\<not> go_space c" by (metis hd_dropWhile list.distinct(1) list.sel(1))
    then show ?thesis using Cons by simp
  next
    case Nil
    then show ?thesis by (simp only: dropWhile.simps)
  qed
  then show ?thesis by (simp add: TrimSpace_def dropWhile_idem)
qed

lemma Vars_Get_name:
  assumes "names_ok p" "j < length (Tasks p)" "map_of vs (task_name p j) = Some v"
  shows "Vars_Get vs (task_name p j) = Inr v"
proof -
  have n: "task_name p j \<noteq> []" "KeypathSeparator \<notin> set (task_name p j)" using assms(1,2) by (simp_all add: names_ok_def)
  have "TrimSpace (task_name p j) = task_name p j" by (simp add: task_name_def TrimSpace_idem)
  then show ?thesis
    using n assms(3) by (simp add: Vars_Get_def NewKeypathFromString_def Let_def Split_plain)
qed

lemma sorted_inputs_spec:
  assumes "sched_env_ok env"
  shows "\<exists>xs. mset xs = mset (map (\<lambda>d. (bt_Index (Tasks p ! td_InputTask d), result_at rs (td_InputTask d)))
             (filter td_PropagateResult (bt_inputs task)))
        \<and> sorted (map fst xs) \<and> sorted_inputs env p rs task = map snd xs"
proof (cases "filter td_PropagateResult (bt_inputs task) = []")
  case True
  then show ?thesis by (intro exI [of _ "[]"]) (simp add: sorted_inputs_def)
next
  case False
  let ?xs = "map (\<lambda>d. (bt_Index (Tasks p ! td_InputTask d), result_at rs (td_InputTask d))) (filter td_PropagateResult (bt_inputs task))"
  have "mset (input_ties env ?xs) = mset ?xs" using assms by (simp only: sched_env_ok_def iteration_order_def)
  then show ?thesis
    using False by (intro exI [of _ "sort_key fst (input_ties env ?xs)"]) (simp add: sorted_inputs_def Let_def)
qed

section \<open>An example\<close>

text \<open>Two sources, one of which may be tried twice, and a task that takes the results of both; its inputs are
  sorted by index, so the second source comes first.\<close>

definition ex_task :: "nat \<Rightarrow> string \<Rightarrow> int \<Rightarrow> task_dependency list \<Rightarrow> nat list \<Rightarrow> 32 word \<Rightarrow> bool \<Rightarrow> base_task" where
  "ex_task i name index ins outs retries early =
     (NewBaseTask i name ''http'')\<lparr>bt_Index := index, bt_inputs := ins, bt_outputs := outs, bt_Retries := (retries, True),
        bt_FailEarly := early\<rparr>"

definition ex_pipe :: pipeline where
  "ex_pipe = \<lparr>Tasks = [ex_task 0 ''a'' 1 [] [2] 2 False, ex_task 1 ''b'' 0 [] [2] 0 True,
      ex_task 2 ''c'' 0 [\<lparr>td_PropagateResult = True, td_InputTask = 0\<rparr>, \<lparr>td_PropagateResult = True, td_InputTask = 1\<rparr>] [] 0 False],
    p_Source = ''''\<rparr>"

definition ex_sched_env :: sched_env where
  "ex_sched_env = \<lparr>copy_order = rev, input_ties = rev\<rparr>"

definition ok_result :: "string \<Rightarrow> task_outcome" where
  "ok_result v = Finished \<lparr>res_Value = StrV v, res_Error = None\<rparr> no_info"

definition bad_result :: task_outcome where
  "bad_result = Finished \<lparr>res_Value = NilV, res_Error = Some (OtherError ''timeout'')\<rparr> no_info"

lemma ex_env_ok: "sched_env_ok ex_sched_env"
  by (simp add: sched_env_ok_def ex_sched_env_def iteration_order_rev)

lemma well_linked_code [code]:
  "well_linked ts \<longleftrightarrow> list_all (\<lambda>i. bt_id (ts ! i) = i \<and> sorted (td_ids (ts ! i)) \<and> distinct (td_ids (ts ! i))
     \<and> list_all (\<lambda>j. j < i) (td_ids (ts ! i)) \<and> distinct (bt_outputs (ts ! i))
     \<and> set (bt_outputs (ts ! i)) = set (filter (\<lambda>j. i \<in> set (td_ids (ts ! j))) [0..<length ts])) [0..<length ts]"
  by (auto simp: well_linked_def list_all_iff)

lemma ex_pipe_ok: "pipeline_ok ex_pipe"
proof -
  have "well_linked (Tasks ex_pipe)" "names_ok ex_pipe" by code_simp+
  moreover have "length (Tasks ex_pipe) < 2 ^ 64" by (simp add: ex_pipe_def)
  ultimately show ?thesis by (simp add: pipeline_ok_def)
qed

lemma no_rows: "resumed p [] = {}" "rows_resumable p []"
  by (simp_all add: resumed_def rows_resumable_def finished_rows_def)

definition ex_run :: "sched_event list \<Rightarrow> run_state option" where
  "ex_run es = (case newScheduler ex_sched_env ex_pipe [] [] of Panic m \<Rightarrow> None
     | Ret s0 \<Rightarrow> sched_run ex_sched_env ex_pipe es \<lparr>sched = s0, executing = []\<rparr>)"

lemma ex_run_reaches: "ex_run es = Some s \<longleftrightarrow> run_reaches ex_sched_env ex_pipe [] [] es s"
  by (auto simp: ex_run_def run_reaches_def split: run.splits)

definition ex_events :: "sched_event list" where
  "ex_events = [TakeTask, TakeTask, TaskDone 0 bad_result 0 1 2, TaskDone 0 (ok_result ''y'') 0 1 3, RetryFires 0,
     TakeTask, TaskDone 0 (ok_result ''x'') 0 4 5, TakeTask]"

definition ex_finish :: "sched_event list" where
  "ex_finish = [TaskDone 0 (ok_result ''z'') 0 6 7, CloseTasks]"

lemma ex_before_last:
  "case ex_run ex_events of None \<Rightarrow> False
   | Some s \<Rightarrow> map mtr_inputs (executing s)
       = [[\<lparr>res_Value = StrV ''y'', res_Error = None\<rparr>, \<lparr>res_Value = StrV ''x'', res_Error = None\<rparr>]]
     \<and> map mtr_vars (executing s) = [[(''b'', StrV ''y''), (''a'', StrV ''x'')]]"
  by code_simp

lemma ex_last:
  "case ex_run (ex_events @ ex_finish) of None \<Rightarrow> False
   | Some s \<Rightarrow> sc_closed (sched s) \<and> \<not> sc_pending (sched s) \<and> \<not> sc_exiting (sched s)
     \<and> map (\<lambda>(i, r). (i, unat (trr_Attempts r))) (sc_results (sched s)) = [(0, 2), (1, 1), (2, 1)]"
  by code_simp

lemma ex_reached: "\<exists>s. run_reaches ex_sched_env ex_pipe [] [] ex_events s \<and> length (executing s) = 1 \<and> bt_id (mtr_task (executing s ! 0)) = 2"
proof -
  have "case ex_run ex_events of None \<Rightarrow> False
     | Some s \<Rightarrow> length (executing s) = 1 \<and> bt_id (mtr_task (executing s ! 0)) = 2" by code_simp
  then show ?thesis by (auto simp: ex_run_reaches [symmetric] split: option.splits)
qed

section \<open>The theorems\<close>

lemma unset_name_panics:
  assumes "k < length (executing s)" and "sc_waiting (sched s) \<noteq> 0" and "\<not> ri_IsPending info"
    and "TrimSpace (bt_dotID (mtr_task (executing s ! k))) = [] \<or> KeypathSeparator \<in> set (TrimSpace (bt_dotID (mtr_task (executing s ! k))))"
  shows "sched_step env p (TaskDone k (Finished res info) uuid start now) s = Some (Panic ''Vars.Set error'')"
  using assms by (auto simp: receive_def set_result_def Vars_Set_def Let_def)

text \<open>C13: when the scheduler panics. If every task has a name that \<open>Vars.Set\<close> takes (not blank, without
  a dot, no two the same once trimmed; the parser does not check this), then in every state that a run can reach,
  fresh or resumed, no event panics: there is no send on the closed channel and no variable that cannot be set.
  The counter of the loop is the number of live task runs (queued, executing,
  waiting for another attempt), of which there is at most one for each task; so the channel, whose buffer has
  room for every task, never blocks, and when the loop has ended nothing is left that could report. The
  condition on names is needed: in any state of any pipeline, a result, not pending, of a task
  whose name is blank or has a dot is received with a panic.\<close>

theorem scheduler_never_panics:
  assumes "pipeline_ok p" "sched_env_ok env" "rows_resumable p rows" "distinct (map fst vs)" "run_reaches env p rows vs es s"
  shows "(\<nexists>e m. sched_step env p e s = Some (Panic m))
    \<and> distinct (live_list s) \<and> unat (sc_waiting (sched s)) = length (live_list s)
    \<and> length (sc_taskCh (sched s)) \<le> length (Tasks p)
    \<and> (sc_closed (sched s) \<longrightarrow> live_list s = [])
    \<and> (\<forall>p' s' k res info uuid start now name. k < length (executing s') \<and> sc_waiting (sched s') \<noteq> 0 \<and> \<not> ri_IsPending info
        \<and> name = TrimSpace (bt_dotID (mtr_task (executing s' ! k))) \<and> (name = [] \<or> KeypathSeparator \<in> set name)
        \<longrightarrow> sched_step env p' (TaskDone k (Finished res info) uuid start now) s' = Some (Panic ''Vars.Set error''))"
proof -
  note inv = reached(1) [OF assms]
  have "\<nexists>e m. sched_step env p e s = Some (Panic m)"
    using sched_step_inv [OF inv assms(1,2)] by fastforce
  moreover have d: "distinct (live_list s)" using inv by (simp add: sched_inv_def Let_def)
  moreover have "length (sc_taskCh (sched s)) \<le> length (Tasks p)"
  proof -
    have "set (live_list s) \<subseteq> {..<length (Tasks p)}" using coreD(1) [OF inv_core [OF inv]] by auto
    then have "card (set (live_list s)) \<le> length (Tasks p)" by (metis card_lessThan card_mono finite_lessThan)
    then have "length (live_list s) \<le> length (Tasks p)" by (simp add: distinct_card [OF d])
    then show ?thesis by (simp add: live_list_def)
  qed
  ultimately show ?thesis using waiting_live [OF inv] closed_idle [OF inv] unset_name_panics by simp
qed

lemma scheduler_never_panics_witness:
  "\<exists>s. run_reaches ex_sched_env ex_pipe [] [] ex_events s \<and> unat (sc_waiting (sched s)) = length (live_list s)
    \<and> length (sc_taskCh (sched s)) \<le> length (Tasks ex_pipe)"
proof -
  obtain s where s: "run_reaches ex_sched_env ex_pipe [] [] ex_events s" using ex_reached by blast
  show ?thesis
    using scheduler_never_panics [OF ex_pipe_ok ex_env_ok no_rows(2) _ s] s by (intro exI [of _ s]) simp
qed

text \<open>C2: a run ends. A new scheduler is made without a panic; whatever the tasks answer and whenever timers fire,
  a run has at most three events for each attempt that the tasks allow and one more; while it is not at its end
  some event is possible, and when none is, the channel is closed and nothing is live. The pipeline is well linked
  and its tasks have names that \<open>Vars.Set\<close> takes (\<open>names_ok\<close>), and the rows it resumes from are those of its tasks.\<close>

theorem scheduler_terminates:
  assumes "pipeline_ok p" "sched_env_ok env" "rows_resumable p rows" "distinct (map fst vs)"
  shows "(\<exists>s0. newScheduler env p rows vs = Ret s0)
    \<and> (\<forall>es s. run_reaches env p rows vs es s \<longrightarrow> length es \<le> 3 * total_attempts p + 1
         \<and> ((\<forall>e. sched_step env p e s = None) \<longrightarrow> sc_closed (sched s) \<and> live_list s = []))
    \<and> (\<exists>es s. run_reaches env p rows vs es s \<and> sc_closed (sched s) \<and> live_list s = [])"
proof -
  obtain s0 where s0: "newScheduler env p rows vs = Ret s0"
    "sched_inv env p (resumed p rows) [] \<lparr>sched = s0, executing = []\<rparr>"
    using newScheduler_inv [OF assms] by blast
  have ends: "sc_closed (sched s) \<and> live_list s = []"
    if "run_reaches env p rows vs es s" "\<forall>e. sched_step env p e s = None" for es s
    using progress [OF reached(1) [OF assms that(1)] that(2)] .
  have bound: "length es \<le> 3 * total_attempts p + 1" if "run_reaches env p rows vs es s" for es s
    using reached(2) [OF assms that] by simp
  obtain es s where s: "machine_run (ok_step env p) es \<lparr>sched = s0, executing = []\<rparr> = Some s"
    "\<forall>e. ok_step env p e s = None"
    using scheduling.runs_to_the_end [of p env "resumed p rows" "\<lparr>sched = s0, executing = []\<rparr>"] s0(2) assms(1,2) by blast
  then have r: "run_reaches env p rows vs es s" using s0(1) by (simp add: run_reaches_def sched_run_machine)
  have "sched_step env p e s = None" for e
  proof (cases "sched_step env p e s")
    case (Some x)
    then obtain t where "x = Ret t" using sched_step_inv [OF reached(1) [OF assms r] assms(1,2) Some] by blast
    then show ?thesis using s(2) Some by (auto simp: ok_step_def dest: spec [of _ e])
  qed
  then show ?thesis using s0(1) ends bound r by blast
qed

lemma scheduler_terminates_witness:
  "\<exists>es s. run_reaches ex_sched_env ex_pipe [] [] es s \<and> sc_closed (sched s) \<and> live_list s = []"
  using scheduler_terminates [OF ex_pipe_ok ex_env_ok no_rows(2), of "[]"] by simp

text \<open>C7: a task runs only when all its inputs are done: none of them is live or pending, and each has a result. It
  is given the results of the inputs that the source of the job names, in the order of their indices, and its
  variables hold the result of every input, also of those that it only refers to.\<close>

theorem task_sees_its_inputs:
  assumes "pipeline_ok p" "sched_env_ok env" "rows_resumable p rows" "distinct (map fst vs)" "run_reaches env p rows vs es s"
    and "m \<in> set (executing s)"
  shows "mtr_task m \<in> set (Tasks p)
    \<and> (\<forall>j\<in>set (td_ids (mtr_task m)). j \<notin> set (live_list s)
        \<and> (\<exists>r. map_of (sc_results (sched s)) j = Some r \<and> \<not> ri_IsPending (trr_runInfo r)
             \<and> Vars_Get (mtr_vars m) (task_name p j) = Inr (stored_value (trr_Result r))))
    \<and> (\<exists>xs. mset xs = mset (map (\<lambda>d. (bt_Index (Tasks p ! td_InputTask d), result_at (sc_results (sched s)) (td_InputTask d)))
             (filter td_PropagateResult (bt_inputs (mtr_task m))))
        \<and> sorted (map fst xs) \<and> mtr_inputs m = map snd xs)"
proof -
  note inv = reached(1) [OF assms(1-5)]
  note c = coreD [OF inv_core [OF inv]]
  let ?i = "bt_id (mtr_task m)" and ?rs = "sc_results (sched s)"
  have live: "?i \<in> set (live_list s)" using assms(6) by (auto simp: live_list_def)
  have i: "?i < length (Tasks p)" by (rule c(1) [OF live])
  define tk where "tk = Tasks p ! ?i"
  have g: "mtr_task m = tk" "mtr_inputs m = sorted_inputs env p ?rs tk" "knows p ?rs ?i (mtr_vars m)"
    using goods(2) [OF inv] assms(6) by (auto simp: list_all_iff good_run_def Let_def tk_def)
  have "j \<notin> set (live_list s) \<and> (\<exists>r. map_of ?rs j = Some r \<and> \<not> ri_IsPending (trr_runInfo r)
             \<and> Vars_Get (mtr_vars m) (task_name p j) = Inr (stored_value (trr_Result r)))"
    if j: "j \<in> set (td_ids tk)" for j
  proof -
    have f: "final (set (live_list s)) (map_of ?rs) j" by (rule c(2) [OF live j [unfolded tk_def]])
    then obtain r where r: "map_of ?rs j = Some r" "\<not> is_pending r" by (auto simp: final_def)
    have "map_of (mtr_vars m) (task_name p j) = Some (stored_value (result_at ?rs j))"
      using g(3) j unfolding knows_def tk_def by blast
    moreover have "j < length (Tasks p)" using c(3) [OF r(1)] by blast
    ultimately have "Vars_Get (mtr_vars m) (task_name p j) = Inr (stored_value (trr_Result r))"
      using Vars_Get_name assms(1) r(1) by (simp add: pipeline_ok_def result_at_def)
    then show ?thesis using f r by (auto simp: final_def is_pending_def)
  qed
  moreover have "tk \<in> set (Tasks p)" unfolding tk_def by (rule nth_mem [OF i])
  ultimately show ?thesis using sorted_inputs_spec [OF assms(2), of p ?rs tk] unfolding g(1,2) by blast
qed

lemma task_sees_its_inputs_witness:
  "\<exists>s m. run_reaches ex_sched_env ex_pipe [] [] ex_events s \<and> m \<in> set (executing s) \<and> bt_id (mtr_task m) = 2
    \<and> mtr_task m \<in> set (Tasks ex_pipe)"
proof -
  obtain s where s: "run_reaches ex_sched_env ex_pipe [] [] ex_events s" "length (executing s) = 1"
    "bt_id (mtr_task (executing s ! 0)) = 2"
    using ex_reached by blast
  then have m: "executing s ! 0 \<in> set (executing s)" by simp
  show ?thesis
    using task_sees_its_inputs [OF ex_pipe_ok ex_env_ok no_rows(2) _ s(1) m] s m
    by (intro exI [of _ s] exI [of _ "executing s ! 0"]) simp
qed

text \<open>C8: at the end of a run that was not left early, a task has a result exactly when all its inputs have
  results that are not pending; if no task is pending, every task has one. A task that this run tried has been tried
  at least once and at most as often as it allows, and a failed one as often as it allows; its result, or its
  error, is what the variables hold for it.\<close>

theorem finished_run_is_complete:
  assumes "pipeline_ok p" "sched_env_ok env" "rows_resumable p rows" "distinct (map fst vs)" "run_reaches env p rows vs es s"
    and "sc_closed (sched s)" "\<not> sc_exiting (sched s)"
  shows "(\<forall>i<length (Tasks p). (\<exists>r. map_of (sc_results (sched s)) i = Some r)
        \<longleftrightarrow> (\<forall>j\<in>set (td_ids (Tasks p ! i)). \<exists>r. map_of (sc_results (sched s)) j = Some r \<and> \<not> ri_IsPending (trr_runInfo r)))
    \<and> (\<not> sc_pending (sched s) \<longrightarrow> (\<forall>i<length (Tasks p). \<exists>r. map_of (sc_results (sched s)) i = Some r))
    \<and> (\<forall>i r. map_of (sc_results (sched s)) i = Some r \<and> i \<notin> resumed p rows \<longrightarrow>
        1 \<le> unat (trr_Attempts r) \<and> unat (trr_Attempts r) \<le> max 1 (unat (TaskRetries (Tasks p ! i)))
        \<and> (res_Error (trr_Result r) \<noteq> None \<and> \<not> ri_IsPending (trr_runInfo r)
             \<longrightarrow> unat (trr_Attempts r) = max 1 (unat (TaskRetries (Tasks p ! i)))))
    \<and> (\<forall>i r. map_of (sc_results (sched s)) i = Some r \<and> \<not> ri_IsPending (trr_runInfo r)
        \<longrightarrow> map_of (sc_vars (sched s)) (task_name p i) = Some (stored_value (trr_Result r)))"
proof -
  note inv = reached(1) [OF assms(1-5)]
  have live: "set (live_list s) = {}" using closed_idle [OF inv assms(6)] by simp
  let ?res = "map_of (sc_results (sched s))"
  note core = inv_core [OF inv, unfolded live]
  have going: "going (Tasks p) (resumed p rows) {} ?res (sc_dependencies (sched s))"
    using core assms(7) by (simp add: core_def)
  have fin: "final {} ?res j \<longleftrightarrow> (\<exists>r. ?res j = Some r \<and> \<not> ri_IsPending (trr_runInfo r))" for j
    by (simp add: final_def is_pending_def)
  have iff: "(\<exists>r. ?res i = Some r) \<longleftrightarrow> (\<forall>j\<in>set (td_ids (Tasks p ! i)). final {} ?res j)" if i: "i < length (Tasks p)" for i
  proof
    assume "\<exists>r. ?res i = Some r"
    then show "\<forall>j\<in>set (td_ids (Tasks p ! i)). final {} ?res j" using going i unfolding going_def by blast
  next
    assume "\<forall>j\<in>set (td_ids (Tasks p ! i)). final {} ?res j"
    then have "{j \<in> set (td_ids (Tasks p ! i)). \<not> final {} ?res j} = {}" by blast
    moreover have "unat (sc_dependencies (sched s) i) = card {j \<in> set (td_ids (Tasks p ! i)). \<not> final {} ?res j}"
      using going i unfolding going_def by blast
    ultimately have "unat (sc_dependencies (sched s) i) = 0" by (metis card.empty)
    then have "sc_dependencies (sched s) i = 0" by (simp add: unat_eq_zero)
    then show "\<exists>r. ?res i = Some r" using going i unfolding going_def by auto
  qed
  have all: "\<exists>r. ?res i = Some r" if "\<not> sc_pending (sched s)" "i < length (Tasks p)" for i
    by (rule idle_complete [OF inv assms(1,6) that])
  have atts: "1 \<le> unat (trr_Attempts r) \<and> unat (trr_Attempts r) \<le> max 1 (unat (TaskRetries (Tasks p ! i)))
        \<and> (res_Error (trr_Result r) \<noteq> None \<and> \<not> ri_IsPending (trr_runInfo r)
             \<longrightarrow> unat (trr_Attempts r) = max 1 (unat (TaskRetries (Tasks p ! i))))"
    if r: "?res i = Some r" "i \<notin> resumed p rows" for i r
  proof -
    have "0 < unat (trr_Attempts r)" "failed r \<and> \<not> is_pending r \<longrightarrow> retries_of (Tasks p ! i) \<le> unat (trr_Attempts r)"
      using going r unfolding going_def by blast+
    moreover have "unat (trr_Attempts r) \<le> max_attempts (Tasks p ! i)" using coreD(3) [OF core r(1)] by blast
    ultimately show ?thesis by (auto simp: failed_def is_pending_def retries_of_def max_attempts_def)
  qed
  have "map_of (sc_vars (sched s)) (task_name p i) = Some (stored_value (trr_Result r))"
    if "?res i = Some r" "\<not> ri_IsPending (trr_runInfo r)" for i r
  proof -
    have "final (set (live_list s)) ?res i" using that live by (simp add: final_def is_pending_def)
    then have "map_of (sc_vars (sched s)) (task_name p i) = Some (stored_value (result_at (sc_results (sched s)) i))"
      using inv assms(7) by (simp add: sched_inv_def Let_def)
    then show ?thesis using that by (simp add: result_at_def)
  qed
  then show ?thesis using iff all atts unfolding fin by blast
qed

lemma finished_run_is_complete_witness:
  "\<exists>s r. run_reaches ex_sched_env ex_pipe [] [] (ex_events @ ex_finish) s \<and> map_of (sc_results (sched s)) 2 = Some r
    \<and> sc_closed (sched s) \<and> \<not> sc_exiting (sched s)"
proof -
  obtain s where s: "run_reaches ex_sched_env ex_pipe [] [] (ex_events @ ex_finish) s" "sc_closed (sched s)"
    "\<not> sc_exiting (sched s)" "\<not> sc_pending (sched s)"
    using ex_last by (auto simp: ex_run_reaches [symmetric] split: option.splits)
  have "(2::nat) < length (Tasks ex_pipe)" by (simp add: ex_pipe_def)
  then show ?thesis
    using finished_run_is_complete [OF ex_pipe_ok ex_env_ok no_rows(2) _ s(1-3)] s by auto
qed







end
