(* ===== verification/PipelineRunner.thy ===== *)
theory PipelineRunner
  imports SchedulerTheorems
begin

text \<open>
  The runner around the scheduler (\<open>services/pipeline/runner.go\<close>), the records of a run
  (\<open>models.go\<close>, \<open>common.go\<close>) and the tables they are kept in (\<open>orm.go\<close>).

  \<open>run_tasks\<close> is \<open>runner.run\<close>: a scheduler to its end, for a given sequence of events, and the update of the
  run. The variables of the scheduler are the map in \<open>run.Inputs\<close>, not a copy of it, so what the scheduler
  sets is there afterwards. The tables are lists of rows; each operation of the ORM is one transaction and is
  given the error of the database, if there is one. The order in which a range over the results meets them and
  what \<open>sort.Slice\<close> does with equal indices are arguments.
\<close>

section \<open>Results and runs\<close>

fun error_text :: "perror \<Rightarrow> string" where
  "error_text ErrCancelled = ''task run cancelled (fail early)''"
| "error_text (ErrTooManyErrors s) = s @ ''too many errors''"
| "error_text ErrWrongInputCardinality = ''wrong number of task inputs''"
| "error_text ErrBadInput = ''bad input for task''"
| "error_text ErrParameterEmpty = ''parameter is empty''"
| "error_text ErrIndexOutOfRange = ''index out of range''"
| "error_text (ErrKeypathNotFound k) = ''key '' @ k @ '': keypath not found''"
| "error_text (ErrWrongKeypath i) = ''empty keypath segment at index '' @ string_of_nat i @ '': wrong keypath format''"
| "error_text ErrVarsRoot = ''cannot get/set the root of a pipeline.Vars''"
| "error_text (ErrVarsSetNested s) = s @ '': cannot set a nested key of a pipeline.Vars''"
| "error_text (ErrRunPanicked v) = ''goroutine panicked when executing run: '' @ v"
| "error_text (OtherError s) = s"

definition OutputDB :: "go_result \<Rightarrow> json" where
  "OutputDB r = \<lparr>js_Val = res_Value r, js_Valid = (res_Value r \<noteq> NilV)\<rparr>"

definition ErrorDB :: "go_result \<Rightarrow> string option" where
  "ErrorDB r = map_option error_text (res_Error r)"

datatype run_status = RunStatusUnknown | RunStatusRunning | RunStatusSuspended | RunStatusErrored | RunStatusCompleted

record go_run =
  run_ID :: int
  run_SpecID :: int
  run_AllErrors :: "string option list"
  run_FatalErrors :: "string option list"
  run_Inputs :: json
  run_Outputs :: json
  run_CreatedAt :: "int option"
  run_FinishedAt :: "int option"
  run_TaskRuns :: "task_run list"
  run_State :: run_status
  run_Pending :: bool
  run_FailSilently :: bool

definition NewRun :: "int \<Rightarrow> vars \<Rightarrow> int \<Rightarrow> go_run" where
  "NewRun spec vs now =
     \<lparr>run_ID = 0, run_SpecID = spec, run_AllErrors = [], run_FatalErrors = [],
      run_Inputs = \<lparr>js_Val = MapV vs, js_Valid = True\<rparr>, run_Outputs = \<lparr>js_Val = NilV, js_Valid = False\<rparr>,
      run_CreatedAt = Some now, run_FinishedAt = None, run_TaskRuns = [], run_State = RunStatusRunning,
      run_Pending = False, run_FailSilently = False\<rparr>"

definition HasFatalErrors :: "go_run \<Rightarrow> bool" where
  "HasFatalErrors r \<longleftrightarrow> list_ex (\<lambda>e. \<not> null_zero e) (run_FatalErrors r)"

definition HasErrors :: "go_run \<Rightarrow> bool" where
  "HasErrors r \<longleftrightarrow> list_ex (\<lambda>e. \<not> null_zero e) (run_AllErrors r)"

definition Run_Status :: "go_run \<Rightarrow> run_status" where
  "Run_Status r = (if HasFatalErrors r then RunStatusErrored
     else if run_FinishedAt r \<noteq> None then RunStatusCompleted else RunStatusRunning)"

definition Run_ByDotID :: "task_run list \<Rightarrow> string \<Rightarrow> task_run option" where
  "Run_ByDotID rows dotID = find (\<lambda>r. tr_DotID r = dotID) rows"

record final_result =
  fr_Values :: "pval list"
  fr_AllErrors :: "perror option list"
  fr_FatalErrors :: "perror option list"

definition IsTerminal :: "task_run_result \<Rightarrow> bool" where
  "IsTerminal r \<longleftrightarrow> length (bt_outputs (trr_Task r)) = 0"

definition result_index :: "task_run_result \<Rightarrow> int" where
  "result_index r = bt_Index (trr_Task r)"

definition FinalResult :: "(task_run_result list \<Rightarrow> task_run_result list) \<Rightarrow> task_run_result list \<Rightarrow> final_result run" where
  "FinalResult ties trrs =
     (let sorted = sort_key result_index (ties trrs);
          fr = foldl (\<lambda>(found, fr) trr.
             let fr = fr\<lparr>fr_AllErrors := fr_AllErrors fr @ [res_Error (trr_Result trr)]\<rparr> in
             if IsTerminal trr
             then (True, fr\<lparr>fr_Values := fr_Values fr @ [res_Value (trr_Result trr)],
                            fr_FatalErrors := fr_FatalErrors fr @ [res_Error (trr_Result trr)]\<rparr>)
             else (found, fr)) (False, \<lparr>fr_Values = [], fr_AllErrors = [], fr_FatalErrors = []\<rparr>) sorted
      in if \<not> fst fr then Panic ''Expected at least one task to be final'' else Ret (snd fr))"

definition fr_HasFatalErrors :: "final_result \<Rightarrow> bool" where
  "fr_HasFatalErrors fr \<longleftrightarrow> list_ex (\<lambda>e. e \<noteq> None) (fr_FatalErrors fr)"

definition fr_HasErrors :: "final_result \<Rightarrow> bool" where
  "fr_HasErrors fr \<longleftrightarrow> list_ex (\<lambda>e. e \<noteq> None) (fr_AllErrors fr)"

definition SingularResult :: "final_result \<Rightarrow> perror + go_result" where
  "SingularResult fr =
     (if length (fr_FatalErrors fr) \<noteq> 1 \<or> length (fr_Values fr) \<noteq> 1
      then Inl (OtherError ''cannot cast FinalResult to singular result'')
      else Inr \<lparr>res_Value = fr_Values fr ! 0, res_Error = fr_FatalErrors fr ! 0\<rparr>)"

section \<open>Running\<close>

text \<open>\<open>initializePipeline\<close> after parsing: every task has a new id, or the one its row has.\<close>

definition set_uuid :: "string \<Rightarrow> nat \<Rightarrow> pipeline \<Rightarrow> pipeline option" where
  "set_uuid dotID uuid p =
     (case ByDotID p dotID of None \<Rightarrow> None
      | Some t \<Rightarrow> Some (p\<lparr>Tasks := (Tasks p)[bt_id t := t\<lparr>bt_uuid := uuid\<rparr>]\<rparr>))"

fun retain_uuids :: "task_run list \<Rightarrow> pipeline \<Rightarrow> perror + pipeline" where
  "retain_uuids [] p = Inr p"
| "retain_uuids (r # rs) p =
     (case set_uuid (tr_DotID r) (tr_ID r) p of
        None \<Rightarrow> Inl (OtherError ''failed to match a pipeline task for dot ID'')
      | Some p' \<Rightarrow> retain_uuids rs p')"

definition initializePipeline :: "(nat \<Rightarrow> nat) \<Rightarrow> go_run \<Rightarrow> pipeline \<Rightarrow> perror + pipeline" where
  "initializePipeline uuids run p =
     retain_uuids (run_TaskRuns run) (p\<lparr>Tasks := map (\<lambda>t. t\<lparr>bt_uuid := uuids (bt_id t)\<rparr>) (Tasks p)\<rparr>)"

record run_orders =
  result_order :: "(nat \<times> task_run_result) list \<Rightarrow> (nat \<times> task_run_result) list"
  returned_order :: "(nat \<times> task_run_result) list \<Rightarrow> (nat \<times> task_run_result) list"
  row_ties :: "task_run list \<Rightarrow> task_run list"

definition result_row :: "int \<Rightarrow> task_run_result \<Rightarrow> task_run" where
  "result_row runID r =
     \<lparr>tr_ID = trr_ID r, tr_Type = bt_Type (trr_Task r), tr_PipelineRunID = runID, tr_Output = OutputDB (trr_Result r),
      tr_Error = ErrorDB (trr_Result r), tr_CreatedAt = trr_CreatedAt r, tr_FinishedAt = trr_FinishedAt r,
      tr_Index = bt_Index (trr_Task r), tr_DotID = bt_dotID (trr_Task r), tr_task = Some (trr_Task r)\<rparr>"

text \<open>The rows are appended one by one and sorted by index after each.\<close>

definition result_rows :: "run_orders \<Rightarrow> int \<Rightarrow> (nat \<times> task_run_result) list \<Rightarrow> task_run list" where
  "result_rows ords runID results =
     foldl (\<lambda>rows (i, r). sort_key tr_Index (row_ties ords (rows @ [result_row runID r]))) [] (result_order ords results)"

definition terminal_row :: "task_run \<Rightarrow> bool" where
  "terminal_row r = (case tr_task r of None \<Rightarrow> False | Some t \<Rightarrow> length (bt_outputs t) = 0)"

definition finish_run :: "run_orders \<Rightarrow> scheduler \<Rightarrow> int \<Rightarrow> go_run \<Rightarrow> go_run \<times> task_run_result list" where
  "finish_run ords sc now run =
     (let run1 = run\<lparr>run_Inputs := \<lparr>js_Val = MapV (sc_vars sc), js_Valid = js_Valid (run_Inputs run)\<rparr>,
                     run_Pending := sc_pending sc, run_FailSilently := sc_exiting sc, run_State := RunStatusSuspended\<rparr>;
          run2 = (if \<not> sc_pending sc then run1\<lparr>run_FinishedAt := Some now\<rparr> else run1);
          rows = result_rows ords (run_ID run) (sc_results sc);
          run3 = run2\<lparr>run_TaskRuns := rows\<rparr>;
          run4 = (if run_FinishedAt run3 \<noteq> None then
              (let terminal = filter terminal_row rows;
                   r = run3\<lparr>run_AllErrors := map tr_Error (filter (\<lambda>r. tr_Error r \<noteq> None) rows),
                            run_FatalErrors := map tr_Error terminal,
                            run_Outputs := \<lparr>js_Val = SliceV (map (\<lambda>r. js_Val (tr_Output r)) terminal), js_Valid = True\<rparr>\<rparr>
               in r\<lparr>run_State := if HasFatalErrors r then RunStatusErrored else RunStatusCompleted\<rparr>)
            else run3)
      in (run4, map snd (returned_order ords (sc_results sc))))"

text \<open>\<open>runner.run\<close>; no value if the events do not lead to the end of the scheduler's loop.\<close>

definition run_tasks ::
  "sched_env \<Rightarrow> run_orders \<Rightarrow> pipeline \<Rightarrow> sched_event list \<Rightarrow> int \<Rightarrow> go_run \<Rightarrow> (go_run \<times> task_run_result list) run option" where
  "run_tasks env ords p es now run =
     (case js_Val (run_Inputs run) of
        MapV vs \<Rightarrow> (case newScheduler env p (run_TaskRuns run) vs of
            Panic m \<Rightarrow> Some (Panic m)
          | Ret s0 \<Rightarrow> (case sched_run env p es \<lparr>sched = s0, executing = []\<rparr> of
                None \<Rightarrow> None
              | Some s \<Rightarrow> if sc_closed (sched s) then Some (Ret (finish_run ords (sched s) now run)) else None))
      | _ \<Rightarrow> Some (Panic ''interface conversion''))"

definition ExecuteRun ::
  "sched_env \<Rightarrow> run_orders \<Rightarrow> (nat \<Rightarrow> nat) \<Rightarrow> (perror + pipeline) \<Rightarrow> sched_event list \<Rightarrow> int \<Rightarrow> int \<Rightarrow> vars
    \<Rightarrow> (perror + go_run \<times> task_run_result list) run option" where
  "ExecuteRun env ords uuids parsed es now spec vs =
     (let run = NewRun spec vs now in
      case parsed of
        Inl e \<Rightarrow> Some (Ret (Inl e))
      | Inr p0 \<Rightarrow> (case initializePipeline uuids run p0 of
          Inl e \<Rightarrow> Some (Ret (Inl e))
        | Inr p \<Rightarrow> map_option (run_map (\<lambda>(run, trrs).
              if run_Pending run then Inr (run, []) else Inr (run, trrs))) (run_tasks env ords p es now run)))"

section \<open>The tables\<close>

record pipeline_db =
  pipeline_runs :: "go_run list"
  pipeline_task_runs :: "task_run list"
  last_run_id :: int

type_synonym statement_error = "string option"

definition InsertRun :: "statement_error \<Rightarrow> go_run \<Rightarrow> pipeline_db \<Rightarrow> string + go_run \<times> pipeline_db" where
  "InsertRun fail run d =
     (case fail of Some e \<Rightarrow> Inl e | None \<Rightarrow>
        let n = last_run_id d + 1; row = run\<lparr>run_ID := n\<rparr>
        in Inr (row, d\<lparr>pipeline_runs := pipeline_runs d @ [row\<lparr>run_TaskRuns := []\<rparr>], last_run_id := n\<rparr>))"

definition CreateRun :: "statement_error \<Rightarrow> go_run \<Rightarrow> pipeline_db \<Rightarrow> string + go_run \<times> pipeline_db" where
  "CreateRun fail run d =
     (if run_CreatedAt run = None then Inl ''run.CreatedAt must be set''
      else case InsertRun fail run d of Inl e \<Rightarrow> Inl e | Inr (run1, d1) \<Rightarrow>
        if run_TaskRuns run1 = [] then Inr (run1, d1)
        else let rows = map (\<lambda>r. r\<lparr>tr_PipelineRunID := run_ID run1\<rparr>) (run_TaskRuns run1)
          in Inr (run1\<lparr>run_TaskRuns := rows\<rparr>,
                d1\<lparr>pipeline_task_runs := pipeline_task_runs d1 @ map (\<lambda>r. r\<lparr>tr_FinishedAt := None, tr_task := None\<rparr>) rows\<rparr>))"

text \<open>\<open>ON CONFLICT (pipeline_run_id, dot_id) DO UPDATE\<close> of one row; the row as it is then stored.\<close>

definition same_key :: "task_run \<Rightarrow> task_run \<Rightarrow> bool" where
  "same_key r r' \<longleftrightarrow> tr_PipelineRunID r = tr_PipelineRunID r' \<and> tr_DotID r = tr_DotID r'"

fun upsert_row :: "task_run \<Rightarrow> task_run list \<Rightarrow> task_run \<times> task_run list" where
  "upsert_row r [] = (r\<lparr>tr_task := None\<rparr>, [r\<lparr>tr_task := None\<rparr>])"
| "upsert_row r (r' # rs) =
     (if same_key r r' then
        let r'' = r'\<lparr>tr_Output := tr_Output r, tr_Error := tr_Error r, tr_FinishedAt := tr_FinishedAt r\<rparr>
        in (r'', r'' # rs)
      else let (s, rs') = upsert_row r rs in (s, r' # rs'))"

fun upsert_rows :: "task_run list \<Rightarrow> task_run list \<Rightarrow> task_run list \<times> task_run list" where
  "upsert_rows [] table = ([], table)"
| "upsert_rows (r # rs) table =
     (let (s, table1) = upsert_row r table; (ss, table2) = upsert_rows rs table1 in (s # ss, table2))"

definition rows_of :: "int \<Rightarrow> task_run list \<Rightarrow> task_run list" where
  "rows_of runID table = filter (\<lambda>r. tr_PipelineRunID r = runID) table"

text \<open>The swap of the rows that have new data.\<close>

definition new_data :: "task_run list \<Rightarrow> task_run \<Rightarrow> task_run option" where
  "new_data stored tr =
     (if \<not> TaskRun_IsPending tr then None
      else case Run_ByDotID stored (tr_DotID tr) of
          Some r \<Rightarrow> if \<not> TaskRun_IsPending r then Some r else None
        | None \<Rightarrow> None)"

definition update_run :: "int \<Rightarrow> (go_run \<Rightarrow> go_run) \<Rightarrow> pipeline_db \<Rightarrow> pipeline_db" where
  "update_run runID f d = d\<lparr>pipeline_runs := map (\<lambda>r. if run_ID r = runID then f r else r) (pipeline_runs d)\<rparr>"

definition store_rows :: "go_run \<Rightarrow> pipeline_db \<Rightarrow> string + bool \<times> go_run \<times> pipeline_db" where
  "store_rows run d =
     (if run_TaskRuns run = [] then Inl ''length of array is 0''
      else let (stored, table) = upsert_rows (run_TaskRuns run) (pipeline_task_runs d)
        in Inr (False, run\<lparr>run_TaskRuns := stored\<rparr>, d\<lparr>pipeline_task_runs := table\<rparr>))"

definition StoreRun :: "statement_error \<Rightarrow> go_run \<Rightarrow> pipeline_db \<Rightarrow> string + bool \<times> go_run \<times> pipeline_db" where
  "StoreRun fail run d =
     (case fail of Some e \<Rightarrow> Inl e | None \<Rightarrow>
      if run_FinishedAt run = None then
        let stored = rows_of (run_ID run) (pipeline_task_runs d);
            restart = list_ex (\<lambda>tr. new_data stored tr \<noteq> None) (run_TaskRuns run)
        in if restart then
             Inr (True, run\<lparr>run_TaskRuns := map (\<lambda>tr. case new_data stored tr of Some r \<Rightarrow> r | None \<Rightarrow> tr) (run_TaskRuns run)\<rparr>, d)
           else store_rows (run\<lparr>run_State := RunStatusSuspended\<rparr>)
                  (update_run (run_ID run) (\<lambda>r. r\<lparr>run_State := RunStatusSuspended\<rparr>) d)
      else if js_Val (run_Outputs run) = NilV \<or> length (run_FatalErrors run) + length (run_AllErrors run) = 0
      then Inl ''run must have both Outputs and Errors''
      else store_rows run (update_run (run_ID run)
             (\<lambda>r. r\<lparr>run_State := run_State run, run_FinishedAt := run_FinishedAt run, run_AllErrors := run_AllErrors run,
                    run_FatalErrors := run_FatalErrors run, run_Outputs := run_Outputs run\<rparr>) d))"

definition DeleteRun :: "statement_error \<Rightarrow> int \<Rightarrow> pipeline_db \<Rightarrow> string + pipeline_db" where
  "DeleteRun fail runID d =
     (case fail of Some e \<Rightarrow> Inl e | None \<Rightarrow>
        Inr (d\<lparr>pipeline_runs := filter (\<lambda>r. run_ID r \<noteq> runID) (pipeline_runs d),
               pipeline_task_runs := filter (\<lambda>r. tr_PipelineRunID r \<noteq> runID) (pipeline_task_runs d)\<rparr>))"

text \<open>\<open>UpdateTaskRunResult\<close>: the join picks a run that is running or suspended.\<close>

definition by_created :: "task_run list \<Rightarrow> task_run list" where
  "by_created rows = sort_key tr_CreatedAt (sort_key (\<lambda>r. int (tr_ID r)) rows)"

definition awaited_run :: "nat \<Rightarrow> pipeline_db \<Rightarrow> go_run option" where
  "awaited_run taskID d = find (\<lambda>run. (run_State run = RunStatusRunning \<or> run_State run = RunStatusSuspended)
     \<and> list_ex (\<lambda>r. tr_ID r = taskID \<and> tr_PipelineRunID r = run_ID run) (pipeline_task_runs d)) (pipeline_runs d)"

definition set_task_result :: "nat \<Rightarrow> go_result \<Rightarrow> int \<Rightarrow> task_run \<Rightarrow> task_run" where
  "set_task_result taskID result now r =
     (if tr_ID r = taskID then r\<lparr>tr_Output := OutputDB result, tr_Error := ErrorDB result, tr_FinishedAt := Some now\<rparr> else r)"

definition UpdateTaskRunResult ::
  "statement_error \<Rightarrow> nat \<Rightarrow> go_result \<Rightarrow> int \<Rightarrow> pipeline_db \<Rightarrow> (string + go_run \<times> bool \<times> pipeline_db) run" where
  "UpdateTaskRunResult fail taskID result now d =
     (if js_Valid (OutputDB result) \<and> ErrorDB result \<noteq> None
      then Panic ''run result must specify either output or error, not both''
      else Ret (case fail of Some e \<Rightarrow> Inl e | None \<Rightarrow>
        (case awaited_run taskID d of
           None \<Rightarrow> Inl ''sql: no rows in result set''
         | Some run \<Rightarrow>
             let d1 = d\<lparr>pipeline_task_runs := map (set_task_result taskID result now) (pipeline_task_runs d)\<rparr>;
                 start = (run_State run = RunStatusSuspended);
                 d2 = (if start then update_run (run_ID run) (\<lambda>r. r\<lparr>run_State := RunStatusRunning\<rparr>) d1 else d1)
             in Inr (run\<lparr>run_State := (if start then RunStatusRunning else run_State run),
                         run_TaskRuns := by_created (rows_of (run_ID run) (pipeline_task_runs d2))\<rparr>, start, d2))))"

definition checkFinishedRun :: "go_run \<Rightarrow> bool \<Rightarrow> string option" where
  "checkFinishedRun run saveSuccessful =
     (if run_CreatedAt run = None then Some ''run.CreatedAt must be set''
      else if run_FinishedAt run = None then Some ''run.FinishedAt must be set''
      else if js_Val (run_Outputs run) = NilV \<or> length (run_FatalErrors run) + length (run_AllErrors run) = 0
      then Some ''run must have both Outputs and Errors''
      else if run_TaskRuns run = [] \<and> (saveSuccessful \<or> HasErrors run) then Some ''must provide task run results''
      else None)"

definition InsertFinishedRun :: "statement_error \<Rightarrow> go_run \<Rightarrow> bool \<Rightarrow> pipeline_db \<Rightarrow> string + go_run \<times> pipeline_db" where
  "InsertFinishedRun fail run saveSuccessful d =
     (case checkFinishedRun run saveSuccessful of Some e \<Rightarrow> Inl e | None \<Rightarrow>
      case fail of Some e \<Rightarrow> Inl e | None \<Rightarrow>
        let n = last_run_id d + 1;
            rows = map (\<lambda>r. r\<lparr>tr_PipelineRunID := n\<rparr>) (run_TaskRuns run);
            run1 = run\<lparr>run_ID := n, run_TaskRuns := rows\<rparr>;
            d1 = d\<lparr>pipeline_runs := pipeline_runs d @ [run1\<lparr>run_TaskRuns := []\<rparr>], last_run_id := n\<rparr>
        in if \<not> saveSuccessful \<and> \<not> HasErrors run then Inr (run1, d1)
           else Inr (run1, d1\<lparr>pipeline_task_runs := pipeline_task_runs d1 @ map (\<lambda>r. r\<lparr>tr_task := None\<rparr>) rows\<rparr>))"

section \<open>Runs with tables\<close>

datatype run_pass = Again go_run pipeline_db | Ended bool go_run pipeline_db | Failed string pipeline_db

definition ExecuteAndInsertFinishedRun ::
  "sched_env \<Rightarrow> run_orders \<Rightarrow> (task_run_result list \<Rightarrow> task_run_result list) \<Rightarrow> (nat \<Rightarrow> nat) \<Rightarrow> (perror + pipeline)
    \<Rightarrow> sched_event list \<Rightarrow> int \<Rightarrow> int \<Rightarrow> vars \<Rightarrow> statement_error \<Rightarrow> bool \<Rightarrow> pipeline_db
    \<Rightarrow> (string + int \<times> final_result \<times> pipeline_db) run option" where
  "ExecuteAndInsertFinishedRun env ords ties uuids parsed es now spec vs fail saveSuccessful d =
     map_option (\<lambda>m. run_bind m (\<lambda>res. case res of
         Inl e \<Rightarrow> Ret (Inl (error_text e))
       | Inr (run, trrs) \<Rightarrow> run_bind (FinalResult ties trrs) (\<lambda>fr. Ret (
           if run_FailSilently run then Inr (0, fr, d)
           else case InsertFinishedRun fail run saveSuccessful d of
             Inl e \<Rightarrow> Inl e | Inr (run1, d1) \<Rightarrow> Inr (run_ID run1, fr, d1)))))
       (ExecuteRun env ords uuids parsed es now spec vs)"

text \<open>\<open>Run\<close>: the rows written before an asynchronous run, and one pass of its loop.\<close>

definition eth_tx_rows :: "pipeline \<Rightarrow> int \<Rightarrow> int \<Rightarrow> task_run list" where
  "eth_tx_rows p runID now =
     map (\<lambda>t. \<lparr>tr_ID = bt_uuid t, tr_Type = bt_Type t, tr_PipelineRunID = runID,
          tr_Output = \<lparr>js_Val = NilV, js_Valid = False\<rparr>, tr_Error = None, tr_CreatedAt = now, tr_FinishedAt = None,
          tr_Index = bt_Index t, tr_DotID = bt_dotID t, tr_task = None\<rparr>)
       (filter (\<lambda>t. bt_Type t = ''ethtx'') (Tasks p))"

definition start_Run :: "pipeline \<Rightarrow> statement_error \<Rightarrow> int \<Rightarrow> go_run \<Rightarrow> pipeline_db \<Rightarrow> string + go_run \<times> pipeline_db" where
  "start_Run p fail now run d =
     (if RequiresPreInsert p \<and> run_ID run = 0
      then CreateRun fail (run\<lparr>run_TaskRuns := run_TaskRuns run @ eth_tx_rows p (run_ID run) now\<rparr>) d
      else case fail of Some e \<Rightarrow> Inl e | None \<Rightarrow> Inr (run, d))"

definition after_run :: "pipeline \<Rightarrow> bool \<Rightarrow> statement_error \<Rightarrow> go_run \<Rightarrow> pipeline_db \<Rightarrow> run_pass" where
  "after_run p saveSuccessful fail run d =
     (if RequiresPreInsert p then
        if run_FailSilently run then
          case DeleteRun fail (run_ID run) d of Inl e \<Rightarrow> Failed e d | Inr d1 \<Rightarrow> Ended False run d1
        else case StoreRun fail run d of
            Inl e \<Rightarrow> Failed e d
          | Inr (restart, run1, d1) \<Rightarrow> if restart then Again run1 d1 else Ended (run_Pending run1) run1 d1
      else if run_Pending run then Ended False run d
      else if run_FailSilently run then Ended False run d
      else case InsertFinishedRun fail run saveSuccessful d of
          Inl e \<Rightarrow> Failed e d | Inr (run1, d1) \<Rightarrow> Ended (run_Pending run1) run1 d1)"

text \<open>One element of the script for each pass: the events of the scheduler, what other sessions do to the tables in the
  meantime, and the error of the statement at the end.\<close>

fun Run_loop ::
  "sched_env \<Rightarrow> run_orders \<Rightarrow> pipeline \<Rightarrow> bool \<Rightarrow> int
    \<Rightarrow> (sched_event list \<times> (pipeline_db \<Rightarrow> pipeline_db) \<times> statement_error) list \<Rightarrow> go_run \<Rightarrow> pipeline_db \<Rightarrow> run_pass run option" where
  "Run_loop env ords p saveSuccessful now [] run d = None"
| "Run_loop env ords p saveSuccessful now ((es, others, fail) # script) run d =
     (case run_tasks env ords p es now run of
        None \<Rightarrow> None
      | Some (Panic m) \<Rightarrow> Some (Panic m)
      | Some (Ret (run1, trrs)) \<Rightarrow>
          (case after_run p saveSuccessful fail run1 (others d) of
             Again run2 d2 \<Rightarrow> Run_loop env ords p saveSuccessful now script run2 d2
           | x \<Rightarrow> Some (Ret x)))"

definition Run ::
  "sched_env \<Rightarrow> run_orders \<Rightarrow> (nat \<Rightarrow> nat) \<Rightarrow> (perror + pipeline) \<Rightarrow> bool \<Rightarrow> int \<Rightarrow> statement_error
    \<Rightarrow> (sched_event list \<times> (pipeline_db \<Rightarrow> pipeline_db) \<times> statement_error) list \<Rightarrow> go_run \<Rightarrow> pipeline_db \<Rightarrow> run_pass run option" where
  "Run env ords uuids parsed saveSuccessful now fail script run d =
     (case parsed of
        Inl e \<Rightarrow> Some (Ret (Failed (error_text e) d))
      | Inr p0 \<Rightarrow> (case initializePipeline uuids run p0 of
          Inl e \<Rightarrow> Some (Ret (Failed (error_text e) d))
        | Inr p \<Rightarrow> (case start_Run p fail now run d of
            Inl e \<Rightarrow> Some (Ret (Failed e d))
          | Inr (run1, d1) \<Rightarrow> Run_loop env ords p saveSuccessful now script run1 d1)))"

end
