(* ===== verification/RunnerTheorems.thy ===== *)
theory RunnerTheorems
  imports PipelineRunner
begin

text \<open>
  What a run reports at its end, how it is suspended and resumed, and what happens to a result that
  arrives from outside.
\<close>

section \<open>The rows of a run\<close>

definition orders_ok :: "run_orders \<Rightarrow> bool" where
  "orders_ok ords \<longleftrightarrow> iteration_order (result_order ords) \<and> iteration_order (returned_order ords) \<and> iteration_order (row_ties ords)"

lemma mset_map_split: "mset xs = mset (map f ys) \<Longrightarrow> \<exists>zs. mset zs = mset ys \<and> map f zs = xs"
proof (induction xs arbitrary: ys)
  case (Cons x xs)
  then have "x \<in> f ` set ys" by (metis list.set_intros(1) list.set_map mset_eq_setD)
  then obtain y where y: "y \<in> set ys" "f y = x" by blast
  then obtain as bs where ys: "ys = as @ y # bs" by (meson split_list)
  with Cons.prems y have "mset xs = mset (map f (as @ bs))" by simp
  then obtain zs where "mset zs = mset (as @ bs)" "map f zs = xs" using Cons.IH by blast
  then show ?case using y ys by (intro exI [of _ "y # zs"]) simp
qed simp

lemma result_rows_sorted:
  assumes "orders_ok ords"
  shows "mset (result_rows ords runID results) = mset (map (\<lambda>e. result_row runID (snd e)) results)"
    "sorted (map tr_Index (result_rows ords runID results))"
proof -
  have ties: "mset (row_ties ords xs) = mset xs" for xs using assms by (simp add: orders_ok_def iteration_order_def)
  have step: "mset (foldl (\<lambda>rows (i, r). sort_key tr_Index (row_ties ords (rows @ [result_row runID r]))) rows0 rs)
      = mset rows0 + mset (map (\<lambda>e. result_row runID (snd e)) rs)" for rows0 rs
    by (induction rs arbitrary: rows0) (auto simp: ties split: prod.splits)
  have "mset (result_order ords results) = mset results"
    using assms by (simp only: orders_ok_def iteration_order_def)
  then show "mset (result_rows ords runID results) = mset (map (\<lambda>e. result_row runID (snd e)) results)"
    unfolding result_rows_def step by (simp add: mset_map)
  have "sorted (map tr_Index init) \<Longrightarrow>
    sorted (map tr_Index (foldl (\<lambda>rows (i, r). sort_key tr_Index (row_ties ords (rows @ [result_row runID r]))) init rs))"
    for init rs
    by (induction rs arbitrary: init) (auto split: prod.splits)
  from this [of "[]" "result_order ords results"] show "sorted (map tr_Index (result_rows ords runID results))"
    unfolding result_rows_def by simp
qed

lemma result_rows_results:
  assumes "orders_ok ords"
  shows "\<exists>rs. mset rs = mset (map snd results) \<and> result_rows ords runID results = map (result_row runID) rs
    \<and> sorted (map result_index rs)"
proof -
  have "mset (result_rows ords runID results) = mset (map (result_row runID) (map snd results))"
    using result_rows_sorted(1) [OF assms] by (simp add: comp_def)
  then obtain rs where rs: "mset rs = mset (map snd results)" "map (result_row runID) rs = result_rows ords runID results"
    using mset_map_split by blast
  have "map tr_Index (map (result_row runID) rs) = map result_index rs"
    by (simp add: result_row_def result_index_def)
  then show ?thesis using rs result_rows_sorted(2) [OF assms, of runID results] by metis
qed

lemma results_of_tasks:
  assumes keys: "distinct (map fst results)" "\<forall>i<length ts. map_of results i \<noteq> None"
    and vals: "\<forall>i r. map_of results i = Some r \<longrightarrow> i < length ts \<and> trr_Task r = ts ! i"
  shows "mset (map trr_Task (map snd results)) = mset ts"
proof -
  have "set (map fst results) = {..<length ts}"
  proof (intro set_eqI iffI)
    fix i assume "i \<in> set (map fst results)"
    then have "map_of results i \<noteq> None" by (auto simp: map_of_eq_None_iff)
    then show "i \<in> {..<length ts}" using vals by auto
  next
    fix i assume "i \<in> {..<length ts}"
    then show "i \<in> set (map fst results)" using keys(2) by (auto simp: map_of_eq_None_iff)
  qed
  then have "mset (map fst results) = mset [0..<length ts]"
    by (intro iffD1 [OF set_eq_iff_mset_eq_distinct]) (auto simp: keys(1))
  then have "image_mset (\<lambda>i. ts ! i) (mset (map fst results)) = image_mset (\<lambda>i. ts ! i) (mset [0..<length ts])"
    by (simp only:)
  moreover have "map trr_Task (map snd results) = map (\<lambda>i. ts ! i) (map fst results)"
    using vals keys(1) by (auto simp: map_of_eq_Some_iff)
  then have "mset (map trr_Task (map snd results)) = image_mset (\<lambda>i. ts ! i) (mset (map fst results))"
    by (metis mset_map)
  moreover have "image_mset (\<lambda>i. ts ! i) (mset [0..<length ts]) = mset ts"
    by (metis map_nth mset_map)
  ultimately show ?thesis by simp
qed

section \<open>The final result\<close>

lemma FinalResult_foldl:
  "foldl (\<lambda>(found, fr) trr.
      let fr = fr\<lparr>fr_AllErrors := fr_AllErrors fr @ [res_Error (trr_Result trr)]\<rparr> in
      if IsTerminal trr
      then (True, fr\<lparr>fr_Values := fr_Values fr @ [res_Value (trr_Result trr)],
                     fr_FatalErrors := fr_FatalErrors fr @ [res_Error (trr_Result trr)]\<rparr>)
      else (found, fr)) (found, fr) rs
   = (found \<or> filter IsTerminal rs \<noteq> [],
      fr\<lparr>fr_Values := fr_Values fr @ map (\<lambda>r. res_Value (trr_Result r)) (filter IsTerminal rs),
         fr_AllErrors := fr_AllErrors fr @ map (\<lambda>r. res_Error (trr_Result r)) rs,
         fr_FatalErrors := fr_FatalErrors fr @ map (\<lambda>r. res_Error (trr_Result r)) (filter IsTerminal rs)\<rparr>)"
  by (induction rs arbitrary: found fr) (auto simp: Let_def)

lemma FinalResult_eq:
  "FinalResult ties trrs = (let rs = sort_key result_index (ties trrs); term = filter IsTerminal rs in
     if term = [] then Panic ''Expected at least one task to be final''
     else Ret \<lparr>fr_Values = map (\<lambda>r. res_Value (trr_Result r)) term,
               fr_AllErrors = map (\<lambda>r. res_Error (trr_Result r)) rs,
               fr_FatalErrors = map (\<lambda>r. res_Error (trr_Result r)) term\<rparr>)"
  unfolding FinalResult_def FinalResult_foldl by (simp add: Let_def)

text \<open>The last task has no outputs.\<close>

lemma some_terminal:
  assumes "well_linked ts" "ts \<noteq> []"
  shows "\<exists>t\<in>set ts. bt_outputs t = []"
proof -
  let ?i = "length ts - 1"
  have i: "?i < length ts" using assms(2) by simp
  have "\<not> k \<in> set (bt_outputs (ts ! ?i))" for k
  proof
    assume "k \<in> set (bt_outputs (ts ! ?i))"
    then have "k < length ts" "?i \<in> set (td_ids (ts ! k))" using outputs_iff [OF assms(1) i] by blast+
    then have "?i < k" using assms(1) unfolding well_linked_def by blast
    then show False using \<open>k < length ts\<close> by simp
  qed
  then have "bt_outputs (ts ! ?i) = []" by (metis all_not_in_conv set_empty)
  then show ?thesis using i nth_mem by blast
qed

lemma run_tasks_reaches:
  assumes "run_tasks env ords p es now run = Some (Ret (run', trrs))"
  shows "\<exists>vs s. js_Val (run_Inputs run) = MapV vs \<and> run_reaches env p (run_TaskRuns run) vs es s \<and> sc_closed (sched s)
    \<and> (run', trrs) = finish_run ords (sched s) now run"
  using assms unfolding run_tasks_def run_reaches_def
  by (auto split: pval.splits run.splits option.splits if_splits)

section \<open>What a finished run reports\<close>

lemma finish_run_parts:
  assumes "\<not> sc_pending sc" "finish_run ords sc now run = (run', trrs)"
    and rs: "result_rows ords (run_ID run) (sc_results sc) = map (result_row (run_ID run)) rs"
  shows "run_FinishedAt run' = Some now" "run_TaskRuns run' = map (result_row (run_ID run)) rs"
    "run_FatalErrors run' = map (\<lambda>r. ErrorDB (trr_Result r)) (filter IsTerminal rs)"
    "run_Outputs run' = \<lparr>js_Val = SliceV (map (\<lambda>r. res_Value (trr_Result r)) (filter IsTerminal rs)), js_Valid = True\<rparr>"
    "run_AllErrors run' = filter (\<lambda>e. e \<noteq> None) (map (\<lambda>r. ErrorDB (trr_Result r)) rs)"
    "run_State run' = (if HasFatalErrors run' then RunStatusErrored else RunStatusCompleted)"
    "\<not> run_Pending run'" "trrs = map snd (returned_order ords (sc_results sc))"
    "run_Inputs run' = \<lparr>js_Val = MapV (sc_vars sc), js_Valid = js_Valid (run_Inputs run)\<rparr>"
proof -
  have t: "filter terminal_row (map (result_row (run_ID run)) rs) = map (result_row (run_ID run)) (filter IsTerminal rs)"
    by (simp add: filter_map comp_def terminal_row_def result_row_def IsTerminal_def [abs_def])
  have e: "map tr_Error (filter (\<lambda>r. tr_Error r \<noteq> None) (map (result_row (run_ID run)) rs))
      = filter (\<lambda>e. e \<noteq> None) (map (\<lambda>r. ErrorDB (trr_Result r)) rs)"
    by (simp add: filter_map comp_def result_row_def del: not_None_eq)
  note f = assms(2) [unfolded finish_run_def Let_def rs t e, symmetric]
  show "run_FinishedAt run' = Some now" "run_TaskRuns run' = map (result_row (run_ID run)) rs"
    "run_FatalErrors run' = map (\<lambda>r. ErrorDB (trr_Result r)) (filter IsTerminal rs)"
    "run_Outputs run' = \<lparr>js_Val = SliceV (map (\<lambda>r. res_Value (trr_Result r)) (filter IsTerminal rs)), js_Valid = True\<rparr>"
    "run_AllErrors run' = filter (\<lambda>e. e \<noteq> None) (map (\<lambda>r. ErrorDB (trr_Result r)) rs)"
    "\<not> run_Pending run'" "trrs = map snd (returned_order ords (sc_results sc))"
    "run_Inputs run' = \<lparr>js_Val = MapV (sc_vars sc), js_Valid = js_Valid (run_Inputs run)\<rparr>"
    using f assms(1) by (simp_all add: result_row_def OutputDB_def comp_def)
  show "run_State run' = (if HasFatalErrors run' then RunStatusErrored else RunStatusCompleted)"
    using f assms(1) by (simp add: HasFatalErrors_def)
qed

text \<open>Two sorted lists with the same results of distinct order have the same terminal errors.\<close>

lemma same_fatal:
  "mset xs = mset ys \<Longrightarrow> list_ex P (filter Q xs) = list_ex P (filter Q ys)"
  by (metis (no_types, lifting) list_ex_iff mset_filter set_mset_mset)

lemma finished_report:
  assumes ok: "pipeline_ok p" "sched_env_ok env" "rows_resumable p (run_TaskRuns run)" and ords: "orders_ok ords"
    and ins: "js_Val (run_Inputs run) = MapV vs" "distinct (map fst vs)"
    and run: "run_tasks env ords p es now run = Some (Ret (run', trrs))" "\<not> run_Pending run'"
  shows "\<exists>rs. mset (map trr_Task rs) = mset (Tasks p) \<and> sorted (map result_index rs) \<and> mset rs = mset trrs
    \<and> run_FinishedAt run' = Some now \<and> run_TaskRuns run' = map (result_row (run_ID run)) rs
    \<and> run_FatalErrors run' = map (\<lambda>r. ErrorDB (trr_Result r)) (filter IsTerminal rs)
    \<and> run_Outputs run' = \<lparr>js_Val = SliceV (map (\<lambda>r. res_Value (trr_Result r)) (filter IsTerminal rs)), js_Valid = True\<rparr>
    \<and> run_AllErrors run' = filter (\<lambda>e. e \<noteq> None) (map (\<lambda>r. ErrorDB (trr_Result r)) rs)
    \<and> run_State run' = (if HasFatalErrors run' then RunStatusErrored else RunStatusCompleted)"
proof -
  obtain s where s: "run_reaches env p (run_TaskRuns run) vs es s" "sc_closed (sched s)"
    "(run', trrs) = finish_run ords (sched s) now run"
    using run_tasks_reaches [OF run(1)] ins(1) by auto
  note inv = reached(1) [OF ok ins(2) s(1)]
  have np: "\<not> sc_pending (sched s)"
    using run(2) s(3) by (auto simp: finish_run_def Let_def split: if_splits)
  let ?results = "sc_results (sched s)"
  obtain rs where rs: "mset rs = mset (map snd ?results)" "result_rows ords (run_ID run) ?results = map (result_row (run_ID run)) rs"
    "sorted (map result_index rs)"
    using result_rows_results [OF ords] by blast
  note f = finish_run_parts [OF np s(3) [symmetric] rs(2)]
  have "mset (map trr_Task (map snd ?results)) = mset (Tasks p)"
  proof (rule results_of_tasks)
    show "distinct (map fst ?results)" using sched_inv_parts [OF inv] by blast
    show "\<forall>i<length (Tasks p). map_of ?results i \<noteq> None" using idle_complete [OF inv ok(1) s(2) np] by blast
    show "\<forall>i r. map_of ?results i = Some r \<longrightarrow> i < length (Tasks p) \<and> trr_Task r = Tasks p ! i"
      using coreD(3) [OF inv_core [OF inv]] by blast
  qed
  then have "mset (map trr_Task rs) = mset (Tasks p)" using rs(1) by (metis mset_map)
  moreover have "mset rs = mset trrs"
    using rs(1) ords unfolding f(8) orders_ok_def iteration_order_def by (metis mset_map)
  ultimately show ?thesis using rs(3) f(1-6) by blast
qed

lemma FinalResult_reports:
  assumes "iteration_order ties" "mset rs = mset trrs" "\<exists>r\<in>set rs. IsTerminal r"
  shows "\<exists>fr. FinalResult ties trrs = Ret fr
    \<and> mset (fr_Values fr) = mset (map (\<lambda>r. res_Value (trr_Result r)) (filter IsTerminal rs))
    \<and> (fr_HasFatalErrors fr \<longleftrightarrow> list_ex (\<lambda>r. res_Error (trr_Result r) \<noteq> None) (filter IsTerminal rs))
    \<and> (fr_HasErrors fr \<longleftrightarrow> list_ex (\<lambda>r. res_Error (trr_Result r) \<noteq> None) rs)"
proof -
  define ss where "ss = sort_key result_index (ties trrs)"
  have m: "mset ss = mset rs" using assms(1,2) by (simp add: ss_def iteration_order_def)
  then have "set ss = set rs" by (rule mset_eq_setD)
  then have ne: "filter IsTerminal ss \<noteq> []" using assms(3) by (auto simp: filter_empty_conv)
  have "mset (map (\<lambda>r. res_Value (trr_Result r)) (filter IsTerminal ss))
      = mset (map (\<lambda>r. res_Value (trr_Result r)) (filter IsTerminal rs))"
    using m by (metis mset_filter mset_map)
  moreover have "list_ex P (filter Q ss) = list_ex P (filter Q rs)" for P Q by (rule same_fatal [OF m])
  moreover from this [of _ "\<lambda>r. True"] have "list_ex P ss = list_ex P rs" for P by simp
  ultimately show ?thesis
    using ne by (simp add: FinalResult_eq Let_def ss_def [symmetric] fr_HasFatalErrors_def fr_HasErrors_def
        list_ex_iff)
qed

definition ex_orders :: run_orders where
  "ex_orders = \<lparr>result_order = rev, returned_order = (\<lambda>rs. rs), row_ties = rev\<rparr>"

lemma ex_orders_ok: "orders_ok ex_orders"
  by (simp add: orders_ok_def ex_orders_def iteration_order_rev iteration_order_def)

definition ex_go_run :: go_run where
  "ex_go_run = NewRun 7 [] 0"

definition ex_done :: "(go_run \<times> task_run_result list) run option" where
  "ex_done = run_tasks ex_sched_env ex_orders ex_pipe (ex_events @ ex_finish) 8 ex_go_run"

lemma ex_done_ran: "\<exists>run' trrs. ex_done = Some (Ret (run', trrs)) \<and> \<not> run_Pending run'
    \<and> run_Outputs run' = \<lparr>js_Val = SliceV [StrV ''z''], js_Valid = True\<rparr>"
proof -
  have "case ex_done of Some (Ret (run', trrs)) \<Rightarrow> \<not> run_Pending run'
      \<and> run_Outputs run' = \<lparr>js_Val = SliceV [StrV ''z''], js_Valid = True\<rparr> | _ \<Rightarrow> False" by code_simp
  then show ?thesis by (auto split: option.splits run.splits prod.splits)
qed

lemma ex_go_run_fields: "run_TaskRuns ex_go_run = []" "js_Val (run_Inputs ex_go_run) = MapV []"
  by (simp_all add: ex_go_run_def NewRun_def)

text \<open>C14: a run that ends without a pending task has one result for each task, stored in the order of their indices. The
  fatal errors and the outputs are those of the tasks without outputs of their own, one entry each and in that
  order; the run is errored exactly when one of these failed, and completed otherwise, whatever other tasks
  did. \<open>FinalResult\<close> does not panic and gives the same values and the same verdict.\<close>

theorem finished_run_reports_terminal_tasks:
  assumes "pipeline_ok p" "sched_env_ok env" "rows_resumable p (run_TaskRuns run)" "orders_ok ords" "iteration_order ties"
    and "js_Val (run_Inputs run) = MapV vs" "distinct (map fst vs)" "Tasks p \<noteq> []"
    and "run_tasks env ords p es now run = Some (Ret (run', trrs))" "\<not> run_Pending run'"
  shows "\<exists>rs fr. mset (map trr_Task rs) = mset (Tasks p) \<and> sorted (map result_index rs)
    \<and> run_TaskRuns run' = map (result_row (run_ID run)) rs
    \<and> run_FatalErrors run' = map (\<lambda>r. ErrorDB (trr_Result r)) (filter IsTerminal rs)
    \<and> run_Outputs run' = \<lparr>js_Val = SliceV (map (\<lambda>r. res_Value (trr_Result r)) (filter IsTerminal rs)), js_Valid = True\<rparr>
    \<and> run_FinishedAt run' = Some now
    \<and> run_State run' = (if list_ex (\<lambda>r. res_Error (trr_Result r) \<noteq> None) (filter IsTerminal rs)
         then RunStatusErrored else RunStatusCompleted)
    \<and> FinalResult ties trrs = Ret fr
    \<and> mset (fr_Values fr) = mset (map (\<lambda>r. res_Value (trr_Result r)) (filter IsTerminal rs))
    \<and> (fr_HasFatalErrors fr \<longleftrightarrow> run_State run' = RunStatusErrored)
    \<and> (fr_HasErrors fr \<longleftrightarrow> HasErrors run')"
proof -
  obtain rs where rs: "mset (map trr_Task rs) = mset (Tasks p)" "sorted (map result_index rs)" "mset rs = mset trrs"
    "run_FinishedAt run' = Some now" "run_TaskRuns run' = map (result_row (run_ID run)) rs"
    "run_FatalErrors run' = map (\<lambda>r. ErrorDB (trr_Result r)) (filter IsTerminal rs)"
    "run_Outputs run' = \<lparr>js_Val = SliceV (map (\<lambda>r. res_Value (trr_Result r)) (filter IsTerminal rs)), js_Valid = True\<rparr>"
    "run_AllErrors run' = filter (\<lambda>e. e \<noteq> None) (map (\<lambda>r. ErrorDB (trr_Result r)) rs)"
    "run_State run' = (if HasFatalErrors run' then RunStatusErrored else RunStatusCompleted)"
    using finished_report [OF assms(1-4,6,7,9,10)] by blast
  have fatal: "HasFatalErrors run' \<longleftrightarrow> list_ex (\<lambda>r. res_Error (trr_Result r) \<noteq> None) (filter IsTerminal rs)"
    by (simp add: HasFatalErrors_def rs(6) list_ex_iff null_zero_def ErrorDB_def)
  have errs: "HasErrors run' \<longleftrightarrow> list_ex (\<lambda>r. res_Error (trr_Result r) \<noteq> None) rs"
    by (auto simp: HasErrors_def rs(8) list_ex_iff null_zero_def ErrorDB_def)
  obtain t where t: "t \<in> set (Tasks p)" "bt_outputs t = []"
    using some_terminal [of "Tasks p"] assms(1,8) by (auto simp: pipeline_ok_def)
  have "set (Tasks p) = trr_Task ` set rs" using mset_eq_setD [OF rs(1)] by simp
  with t(1) have "t \<in> trr_Task ` set rs" by simp
  then obtain r where "t = trr_Task r" "r \<in> set rs" by (rule imageE)
  then have "\<exists>r\<in>set rs. IsTerminal r" using t(2) by (auto simp: IsTerminal_def)
  from FinalResult_reports [OF assms(5) rs(3) this] obtain fr where fr: "FinalResult ties trrs = Ret fr"
    "mset (fr_Values fr) = mset (map (\<lambda>r. res_Value (trr_Result r)) (filter IsTerminal rs))"
    "fr_HasFatalErrors fr \<longleftrightarrow> list_ex (\<lambda>r. res_Error (trr_Result r) \<noteq> None) (filter IsTerminal rs)"
    "fr_HasErrors fr \<longleftrightarrow> list_ex (\<lambda>r. res_Error (trr_Result r) \<noteq> None) rs" by blast
  have st: "run_State run' = (if list_ex (\<lambda>r. res_Error (trr_Result r) \<noteq> None) (filter IsTerminal rs)
         then RunStatusErrored else RunStatusCompleted)"
    using rs(9) fatal by (simp only:)
  have "fr_HasFatalErrors fr \<longleftrightarrow> run_State run' = RunStatusErrored" unfolding st fr(3) by simp
  moreover have "fr_HasErrors fr \<longleftrightarrow> HasErrors run'" by (simp only: errs fr(4))
  ultimately show ?thesis using rs(1,2,5,6,7,4) st fr(1,2) by (intro exI conjI)
qed

lemma finished_run_reports_terminal_tasks_witness:
  "\<exists>run' trrs fr. ex_done = Some (Ret (run', trrs)) \<and> FinalResult rev trrs = Ret fr
    \<and> run_State run' = (if fr_HasFatalErrors fr then RunStatusErrored else RunStatusCompleted)"
proof -
  obtain run' trrs where r: "ex_done = Some (Ret (run', trrs))" "\<not> run_Pending run'" using ex_done_ran by blast
  have "Tasks ex_pipe \<noteq> []" by (simp add: ex_pipe_def)
  from finished_run_reports_terminal_tasks [OF ex_pipe_ok ex_env_ok _ ex_orders_ok iteration_order_rev
      ex_go_run_fields(2) _ this r(1) [unfolded ex_done_def] r(2)]
  obtain fr where "FinalResult rev trrs = Ret fr" "fr_HasFatalErrors fr \<longleftrightarrow> run_State run' = RunStatusErrored"
    "run_State run' = RunStatusErrored \<or> run_State run' = RunStatusCompleted"
    by (auto simp: ex_go_run_fields no_rows split: if_splits)
  then show ?thesis using r(1) by auto
qed

section \<open>Suspending and resuming\<close>

definition settled_ok :: "task_run_result \<Rightarrow> bool" where
  "settled_ok r \<longleftrightarrow> (if is_pending r then trr_FinishedAt r = None \<and> trr_Result r = \<lparr>res_Value = NilV, res_Error = None\<rparr>
     else trr_FinishedAt r \<noteq> None)"

text \<open>A task that goes pending answers with an empty result, as the tasks of the package do.\<close>

fun empty_when_pending :: "sched_event \<Rightarrow> bool" where
  "empty_when_pending (TaskDone k (Finished res info) uuid start now)
     \<longleftrightarrow> (ri_IsPending info \<longrightarrow> res = \<lparr>res_Value = NilV, res_Error = None\<rparr>)"
| "empty_when_pending e \<longleftrightarrow> True"

definition all_results :: "(task_run_result \<Rightarrow> bool) \<Rightarrow> scheduler \<Rightarrow> bool" where
  "all_results P sc \<longleftrightarrow> (\<forall>e\<in>set (sc_results sc). P (snd e))"

lemma all_results_put:
  "all_results P sc \<Longrightarrow> P r \<Longrightarrow> all_results P (sc\<lparr>sc_results := assoc_put i r (sc_results sc)\<rparr>)"
  using set_assoc_put_entries [of i r "sc_results sc"] by (auto simp: all_results_def)

lemma all_results_same: "sc_results sc' = sc_results sc \<Longrightarrow> all_results P sc' = all_results P sc"
  by (simp add: all_results_def)

lemma set_result_results: "set_result t r sc = Ret sc' \<Longrightarrow> sc_results sc' = sc_results sc"
  by (auto simp: set_result_def split: sum.splits)

lemma schedule_task_results: "schedule_task env p sc t = Ret sc' \<Longrightarrow> sc_results sc' = sc_results sc"
  by (auto simp: schedule_task_def send_task_def split: if_splits)

lemma schedule_outputs_results: "schedule_outputs env p os sc = Ret sc' \<Longrightarrow> sc_results sc' = sc_results sc"
proof (induction os arbitrary: sc)
  case (Cons i os)
  let ?s = "sc\<lparr>sc_dependencies := (sc_dependencies sc)(i := sc_dependencies sc i - 1)\<rparr>"
  show ?case
  proof (cases "sc_dependencies ?s i = 0")
    case True
    then obtain sc1 where "schedule_task env p ?s (Tasks p ! i) = Ret sc1" "schedule_outputs env p os sc1 = Ret sc'"
      using Cons.prems by (auto simp: Let_def run_simps)
    then show ?thesis using Cons.IH schedule_task_results by fastforce
  next
    case False
    then show ?thesis using Cons.IH [of ?s] Cons.prems by (simp add: Let_def)
  qed
qed simp

lemma mark_settled:
  "all_results settled_ok sc \<Longrightarrow> all_results settled_ok (markRemaining p e now sc)"
proof -
  have "\<forall>x\<in>set (foldl (\<lambda>rs task. if map_of rs (bt_id task) \<noteq> None then rs
        else assoc_put (bt_id task)
          \<lparr>trr_ID = 0, trr_Task = task, trr_Result = \<lparr>res_Value = NilV, res_Error = Some e\<rparr>, trr_Attempts = 0,
           trr_CreatedAt = now, trr_FinishedAt = Some now, trr_runInfo = no_info\<rparr> rs) rs ts). settled_ok (snd x)"
    if "\<forall>x\<in>set rs. settled_ok (snd x)" for rs ts
    using that
  proof (induction ts arbitrary: rs)
    case (Cons t ts)
    let ?m = "\<lparr>trr_ID = 0, trr_Task = t, trr_Result = \<lparr>res_Value = NilV, res_Error = Some e\<rparr>, trr_Attempts = 0,
           trr_CreatedAt = now, trr_FinishedAt = Some now, trr_runInfo = no_info\<rparr> :: task_run_result"
    have "settled_ok ?m" by (simp add: settled_ok_def is_pending_def no_info_def)
    then have "\<forall>x\<in>set (assoc_put (bt_id t) ?m rs). settled_ok (snd x)"
      using Cons.prems set_assoc_put_entries [of "bt_id t" ?m rs] by auto
    then show ?case using Cons.IH Cons.prems by (simp del: not_None_eq)
  qed simp
  then show "all_results settled_ok sc \<Longrightarrow> all_results settled_ok (markRemaining p e now sc)"
    by (simp add: all_results_def markRemaining_def)
qed

lemma after_store_settled:
  assumes "after_store env p now r sc = Ret sc'" "all_results settled_ok sc"
  shows "all_results settled_ok sc'"
proof -
  define early where "early \<longleftrightarrow> res_Error (trr_Result r) \<noteq> None \<and> bt_FailEarly (trr_Task r)"
  define s1 where "s1 = (if early then markRemaining p ErrCancelled now (sc\<lparr>sc_exiting := True, sc_cancelled := True\<rparr>) else sc)"
  have "all_results settled_ok (sc\<lparr>sc_exiting := True, sc_cancelled := True\<rparr>)"
    using assms(2) by (simp add: all_results_def)
  then have s1: "all_results settled_ok s1" using assms(2) mark_settled by (simp add: s1_def)
  have "after_store env p now r sc = (if sc_exiting s1 then Ret s1
         else if trr_Attempts r < ucast (TaskRetries (trr_Task r)) \<and> res_Error (trr_Result r) \<noteq> None then
           Ret (s1\<lparr>sc_waiting := sc_waiting s1 + 1,
                   sc_retrying := sc_retrying s1 @ [\<lparr>rt_task = trr_Task r,
                     rt_vars = Vars_Copy (copy_order env) (sc_vars s1), rt_attempts = trr_Attempts r\<rparr>]\<rparr>)
         else schedule_outputs env p (bt_outputs (trr_Task r)) s1)"
    unfolding after_store_def Let_def s1_def early_def by (simp del: not_None_eq)
  then show ?thesis
    using assms(1) s1 schedule_outputs_results [of env p _ s1 sc']
    by (auto simp: all_results_def split: if_splits simp del: not_None_eq)
qed

lemma receive_settled:
  assumes "receive env p now r sc = Ret sc'" "all_results settled_ok sc" "settled_ok r"
  shows "all_results settled_ok sc'"
proof -
  define r1 where "r1 = r\<lparr>trr_Attempts := (if \<not> sc_exiting sc then attempts_at (sc_results sc) (bt_id (trr_Task r)) + 1
      else attempts_at (sc_results sc) (bt_id (trr_Task r)))\<rparr>"
  define s1 where "s1 = sc\<lparr>sc_waiting := sc_waiting sc - 1, sc_results := assoc_put (bt_id (trr_Task r)) r1 (sc_results sc)\<rparr>"
  have "settled_ok r1" using assms(3) by (simp add: r1_def settled_ok_def is_pending_def)
  from all_results_put [OF assms(2) this, of "bt_id (trr_Task r)"] have s1: "all_results settled_ok s1"
    by (simp add: all_results_def s1_def)
  have eq: "receive env p now r sc = (if ri_IsPending (trr_runInfo r1) then Ret (s1\<lparr>sc_pending := True\<rparr>)
         else run_bind (set_result (trr_Task r1) (trr_Result r1) s1) (after_store env p now r1))"
    by (simp add: receive_def Let_def r1_def s1_def)
  show ?thesis
  proof (cases "ri_IsPending (trr_runInfo r1)")
    case True
    then show ?thesis using assms(1) eq s1 by (auto simp: all_results_def)
  next
    case False
    then obtain s2 where "set_result (trr_Task r1) (trr_Result r1) s1 = Ret s2" "after_store env p now r1 s2 = Ret sc'"
      using assms(1) eq by (auto simp: run_simps)
    then show ?thesis using after_store_settled s1 set_result_results all_results_same by metis
  qed
qed

lemma executeTaskRun_settled:
  "empty_when_pending (TaskDone k outcome uuid start now) \<Longrightarrow> settled_ok (executeTaskRun m outcome uuid start now)"
  by (cases outcome) (auto simp: settled_ok_def is_pending_def no_info_def)

lemma step_settled:
  assumes "sched_step env p e s = Some (Ret t)" "all_results settled_ok (sched s)" "empty_when_pending e"
  shows "all_results settled_ok (sched t)"
proof (cases e)
  case (TaskDone k outcome uuid start now)
  then obtain sc' where "receive env p now (executeTaskRun (executing s ! k) outcome uuid start now) (sched s) = Ret sc'"
      "t = \<lparr>sched = sc', executing = remove_at k (executing s)\<rparr>"
    using assms(1) by (auto simp: run_simps split: if_splits)
  then show ?thesis
    using receive_settled assms(2) executeTaskRun_settled [of k outcome uuid start now] assms(3) TaskDone by simp
next
  case (RetryCancelled k now)
  let ?sc = "(sched s)\<lparr>sc_retrying := remove_at k (sc_retrying (sched s))\<rparr>"
  from RetryCancelled obtain sc' where sc': "receive env p now (cancelled_retry (sc_retrying (sched s) ! k) now) ?sc = Ret sc'"
      "t = s\<lparr>sched := sc'\<rparr>"
    using assms(1) by (auto simp: run_simps split: if_splits)
  have "settled_ok (cancelled_retry (sc_retrying (sched s) ! k) now)"
    by (simp add: settled_ok_def cancelled_retry_def is_pending_def no_info_def)
  then show ?thesis using receive_settled [OF sc'(1)] assms(2) sc'(2) by (simp add: all_results_def)
qed (use assms in \<open>auto simp: all_results_def send_task_def Let_def split: list.splits if_splits\<close>)

lemma sched_run_settled:
  "sched_run env p es s = Some t \<Longrightarrow> all_results settled_ok (sched s) \<Longrightarrow> list_all empty_when_pending es \<Longrightarrow>
   all_results settled_ok (sched t)"
proof (induction es arbitrary: s)
  case (Cons e es)
  then obtain u where "sched_step env p e s = Some (Ret u)" "sched_run env p es u = Some t"
    by (auto split: option.splits run.splits)
  then show ?case using Cons step_settled by (metis list.pred_inject(2))
qed simp

lemma reconstruct_settled:
  "reconstructResults p rows sc = Ret sc' \<Longrightarrow> all_results settled_ok sc \<Longrightarrow>
   \<forall>r\<in>set rows. \<not> TaskRun_IsPending r \<longrightarrow> tr_FinishedAt r \<noteq> None \<Longrightarrow> all_results settled_ok sc'"
proof (induction rows arbitrary: sc)
  case (Cons r rows)
  then obtain sc1 where sc1: "reconstruct_row p sc r = Ret sc1" "reconstructResults p rows sc1 = Ret sc'"
    by (auto simp: run_simps)
  obtain task where t: "ByDotID p (tr_DotID r) = Some task"
    using sc1(1) by (auto simp: reconstruct_row_def split: option.splits)
  have "all_results settled_ok sc1"
  proof (cases "TaskRun_IsPending r")
    case True
    then show ?thesis using sc1(1) t Cons.prems(2) by (simp add: reconstruct_row_def)
  next
    case False
    let ?res = "\<lparr>res_Value = (if js_Valid (tr_Output r) then js_Val (tr_Output r) else NilV),
                  res_Error = map_option OtherError (tr_Error r)\<rparr>"
    let ?tr = "\<lparr>trr_ID = 0, trr_Task = task, trr_Result = ?res, trr_Attempts = 0,
                   trr_CreatedAt = tr_CreatedAt r, trr_FinishedAt = tr_FinishedAt r, trr_runInfo = no_info\<rparr>"
    let ?s = "sc\<lparr>sc_results := assoc_put (bt_id task) ?tr (sc_results sc)\<rparr>"
    have "settled_ok ?tr" using Cons.prems(3) False by (simp add: settled_ok_def is_pending_def no_info_def)
    then have s: "all_results settled_ok ?s" by (rule all_results_put [OF Cons.prems(2)])
    obtain s2 where "set_result task ?res ?s = Ret s2" "sc_results sc1 = sc_results s2"
      using sc1(1) t False by (auto simp: reconstruct_row_def Let_def run_simps)
    then have "sc_results sc1 = sc_results ?s" using set_result_results by metis
    then show ?thesis using s by (simp only: all_results_def)
  qed
  then show ?case using Cons.IH [OF sc1(2)] Cons.prems(3) by simp
qed simp

lemma schedule_doable_results: "schedule_doable env p ts sc = Ret sc' \<Longrightarrow> sc_results sc' = sc_results sc"
proof (induction ts arbitrary: sc)
  case (Cons t ts)
  then show ?case
    by (cases t) (auto simp: run_simps dest: schedule_task_results split: if_splits simp del: not_None_eq)
qed simp

lemma newScheduler_settled:
  assumes "newScheduler env p rows vs = Ret sc" "\<forall>r\<in>set rows. \<not> TaskRun_IsPending r \<longrightarrow> tr_FinishedAt r \<noteq> None"
  shows "all_results settled_ok sc"
proof -
  obtain sc0 where sc0: "reconstructResults p rows (empty_scheduler p vs) = Ret sc0"
    "schedule_doable env p (zip [0..<length (Tasks p)] (Tasks p)) sc0 = Ret sc"
    using assms(1) by (auto simp: newScheduler_def run_simps)
  have "all_results settled_ok (empty_scheduler p vs)" by (simp add: all_results_def empty_scheduler_def)
  from reconstruct_settled [OF sc0(1) this assms(2)] schedule_doable_results [OF sc0(2)]
  show ?thesis by (simp add: all_results_def)
qed

lemma result_row_pending:
  "settled_ok r \<Longrightarrow> TaskRun_IsPending (result_row runID r) \<longleftrightarrow> is_pending r"
  by (auto simp: settled_ok_def TaskRun_IsPending_def result_row_def OutputDB_def ErrorDB_def null_zero_def split: if_splits)

text \<open>The rows after the results of the tasks named \<open>K\<close> have arrived.\<close>

definition answered :: "string set \<Rightarrow> task_run list \<Rightarrow> task_run list \<Rightarrow> bool" where
  "answered K rows rows' \<longleftrightarrow> list_all2 (\<lambda>r r'. tr_DotID r' = tr_DotID r
     \<and> (TaskRun_IsPending r' \<longleftrightarrow> TaskRun_IsPending r \<and> tr_DotID r \<notin> K)) rows rows'"

lemma answered_names: "answered K rows rows' \<Longrightarrow> map tr_DotID rows' = map tr_DotID rows"
  unfolding answered_def by (induction rule: list_all2_induct) auto

lemma answered_finished:
  "answered K rows rows' \<Longrightarrow> tr_DotID ` set (finished_rows rows')
    = {d. \<exists>r\<in>set rows. tr_DotID r = d \<and> (\<not> TaskRun_IsPending r \<or> d \<in> K)}"
  unfolding answered_def finished_rows_def by (induction rule: list_all2_induct) auto

lemma bt_dotID_inj:
  assumes "names_ok p" "i < length (Tasks p)" "j < length (Tasks p)"
  shows "bt_dotID (Tasks p ! i) = bt_dotID (Tasks p ! j) \<longleftrightarrow> i = j"
  using task_name_inj [OF assms] by (auto simp: task_name_def)

text \<open>The rows of a suspended run, in terms of the results.\<close>

lemma suspended_rows:
  assumes inv: "sched_inv env p U [] s" and ok: "pipeline_ok p" and ords: "orders_ok ords"
    and settled: "all_results settled_ok (sched s)"
    and rows: "rows = result_rows ords runID (sc_results (sched s))" and res: "res = map_of (sc_results (sched s))"
  shows "distinct (map tr_DotID rows)"
    and "set rows = {result_row runID r | i r. res i = Some r}"
    and "res i = Some r \<Longrightarrow> tr_DotID (result_row runID r) = bt_dotID (Tasks p ! i) \<and> i < length (Tasks p)
      \<and> (TaskRun_IsPending (result_row runID r) \<longleftrightarrow> is_pending r)"
proof -
  let ?results = "sc_results (sched s)"
  have keys: "distinct (map fst ?results)" using sched_inv_parts [OF inv] by blast
  have vals: "i < length (Tasks p) \<and> trr_Task r = Tasks p ! i" if "(i, r) \<in> set ?results" for i r
    using coreD(3) [OF inv_core [OF inv], of i r] map_of_is_SomeI [OF keys that] by blast
  have nm: "names_ok p" using ok by (simp add: pipeline_ok_def)
  have m: "mset rows = mset (map (\<lambda>e. result_row runID (snd e)) ?results)"
    unfolding rows by (rule result_rows_sorted(1) [OF ords])
  have "distinct (map (\<lambda>e. bt_dotID (Tasks p ! fst e)) ?results)"
  proof -
    have "inj_on (\<lambda>i. bt_dotID (Tasks p ! i)) (set (map fst ?results))"
      using vals bt_dotID_inj [OF nm] by (intro inj_onI) force
    then have "distinct (map (\<lambda>i. bt_dotID (Tasks p ! i)) (map fst ?results))"
      using keys by (subst distinct_map) blast
    then show ?thesis by (simp add: comp_def)
  qed
  moreover have "map (\<lambda>e. bt_dotID (Tasks p ! fst e)) ?results = map tr_DotID (map (\<lambda>e. result_row runID (snd e)) ?results)"
    using vals by (auto simp: result_row_def)
  moreover have "mset (map tr_DotID rows) = mset (map tr_DotID (map (\<lambda>e. result_row runID (snd e)) ?results))"
    using m by (metis mset_map)
  ultimately show "distinct (map tr_DotID rows)" using mset_eq_imp_distinct_iff by metis
  have "set rows = (\<lambda>e. result_row runID (snd e)) ` set ?results" using mset_eq_setD [OF m] by simp
  then show "set rows = {result_row runID r | i r. res i = Some r}"
    unfolding res using keys by (force simp: map_of_eq_Some_iff)
  show "tr_DotID (result_row runID r) = bt_dotID (Tasks p ! i) \<and> i < length (Tasks p)
      \<and> (TaskRun_IsPending (result_row runID r) \<longleftrightarrow> is_pending r)" if "res i = Some r"
  proof -
    have e: "(i, r) \<in> set ?results" using that unfolding res by (rule map_of_SomeD)
    then have "settled_ok r" using settled by (force simp: all_results_def)
    then have "TaskRun_IsPending (result_row runID r) \<longleftrightarrow> is_pending r" by (rule result_row_pending)
    moreover have "tr_DotID (result_row runID r) = bt_dotID (trr_Task r)" by (simp add: result_row_def)
    ultimately show ?thesis using vals [OF e] by simp
  qed
qed

text \<open>Two tasks that wait for an answer from outside, and one that depends on the first.\<close>

definition ex_wait :: pipeline where
  "ex_wait = \<lparr>Tasks = [ex_task 0 ''a'' 0 [] [2] 0 False, ex_task 1 ''b'' 1 [] [] 0 False,
      ex_task 2 ''c'' 2 [\<lparr>td_PropagateResult = True, td_InputTask = 0\<rparr>] [] 0 False], p_Source = ''''\<rparr>"

definition wait_result :: task_outcome where
  "wait_result = Finished \<lparr>res_Value = NilV, res_Error = None\<rparr> pendingRunInfo"

definition ex_wait_events :: "sched_event list" where
  "ex_wait_events = [TakeTask, TakeTask, TaskDone 0 wait_result 0 1 2, TaskDone 0 wait_result 0 1 2, CloseTasks]"

definition ex_suspended :: "(go_run \<times> task_run_result list) run option" where
  "ex_suspended = run_tasks ex_sched_env ex_orders ex_wait ex_wait_events 8 ex_go_run"

lemma ex_wait_ok: "pipeline_ok ex_wait"
proof -
  have "well_linked (Tasks ex_wait)" "names_ok ex_wait" by code_simp+
  moreover have "length (Tasks ex_wait) < 2 ^ 64" by (simp add: ex_wait_def)
  ultimately show ?thesis by (simp add: pipeline_ok_def)
qed

text \<open>The answer of task \<open>a\<close>.\<close>

definition ex_answer :: "task_run list \<Rightarrow> task_run list" where
  "ex_answer rows = map (\<lambda>r. if tr_DotID r = ''a'' then r\<lparr>tr_Output := \<lparr>js_Val = StrV ''x'', js_Valid = True\<rparr>,
     tr_FinishedAt := Some 9\<rparr> else r) rows"

lemma ex_answer_answered: "answered {''a''} rows (ex_answer rows)"
  unfolding answered_def ex_answer_def
  by (induction rows) (auto simp: TaskRun_IsPending_def)

lemma ex_suspended_ran: "\<exists>run' trrs. ex_suspended = Some (Ret (run', trrs)) \<and> run_Pending run' \<and> \<not> run_FailSilently run'
    \<and> map tr_DotID (run_TaskRuns run') = [''a'', ''b''] \<and> map TaskRun_IsPending (run_TaskRuns run') = [True, True]"
proof -
  have "case ex_suspended of Some (Ret (run', trrs)) \<Rightarrow> run_Pending run' \<and> \<not> run_FailSilently run'
      \<and> map tr_DotID (run_TaskRuns run') = [''a'', ''b''] \<and> map TaskRun_IsPending (run_TaskRuns run') = [True, True]
     | _ \<Rightarrow> False" by code_simp
  then show ?thesis by (auto split: option.splits run.splits prod.splits)
qed

lemma ex_wait_empty: "list_all empty_when_pending ex_wait_events"
  by (simp add: ex_wait_events_def wait_result_def)

definition task_done :: "pipeline \<Rightarrow> task_run list \<Rightarrow> nat \<Rightarrow> bool" where
  "task_done p rows i \<longleftrightarrow> list_ex (\<lambda>r. tr_DotID r = bt_dotID (Tasks p ! i) \<and> \<not> TaskRun_IsPending r) rows"

definition task_known :: "pipeline \<Rightarrow> task_run list \<Rightarrow> nat \<Rightarrow> bool" where
  "task_known p rows i \<longleftrightarrow> list_ex (\<lambda>r. tr_DotID r = bt_dotID (Tasks p ! i)) rows"

text \<open>C23: a run that was suspended can be resumed from its rows once the results of some of its pending tasks have
  arrived. The scheduler that is made from them does not panic, and starts exactly the tasks that have not been
  tried and whose inputs are now all done, and, again, every task that is still pending. The rows are taken
  in the order of the suspended run, and the pipeline is well linked with names that \<open>Vars.Set\<close> takes.\<close>

theorem resumed_run_repeats_pending:
  assumes "pipeline_ok p" "sched_env_ok env" "rows_resumable p (run_TaskRuns run)" "orders_ok ords"
    and "js_Val (run_Inputs run) = MapV vs" "distinct (map fst vs)"
    and "\<forall>r\<in>set (run_TaskRuns run). \<not> TaskRun_IsPending r \<longrightarrow> tr_FinishedAt r \<noteq> None"
    and "run_tasks env ords p es now run = Some (Ret (run', trrs))" "list_all empty_when_pending es"
    and "\<not> run_FailSilently run'" "answered K (run_TaskRuns run') rows" "distinct (map fst vs')"
  shows "\<exists>sc. newScheduler env p rows vs' = Ret sc
    \<and> (\<forall>i<length (Tasks p). i \<in> set (map (\<lambda>m. bt_id (mtr_task m)) (sc_taskCh sc)) \<longleftrightarrow>
         (if task_known p (run_TaskRuns run') i then \<not> task_done p rows i
          else \<forall>j\<in>set (td_ids (Tasks p ! i)). task_done p rows j))"
proof -
  obtain s where s: "run_reaches env p (run_TaskRuns run) vs es s" "sc_closed (sched s)"
    "(run', trrs) = finish_run ords (sched s) now run"
    using run_tasks_reaches [OF assms(8)] assms(5) by auto
  note inv = reached(1) [OF assms(1-3,6) s(1)]
  have settled: "all_results settled_ok (sched s)"
    using s(1) newScheduler_settled [OF _ assms(7)] sched_run_settled [OF _ _ assms(9)]
    unfolding run_reaches_def by fastforce
  have run': "run_TaskRuns run' = result_rows ords (run_ID run) (sc_results (sched s))" "\<not> sc_exiting (sched s)"
    using s(3) assms(10) by (auto simp: finish_run_def Let_def split: if_splits)
  define res where "res = map_of (sc_results (sched s))"
  note R = suspended_rows [OF inv assms(1,4) settled run'(1) res_def]
  have nm: "names_ok p" using assms(1) by (simp add: pipeline_ok_def)
  have "set (live_list s) = {}" using closed_idle [OF inv s(2)] by simp
  then have going: "going (Tasks p) (resumed p (run_TaskRuns run)) {} res (sc_dependencies (sched s))"
    using inv_core [OF inv] run'(2) by (simp add: core_def res_def)
  define F where "F = {i. i < length (Tasks p) \<and> (\<exists>r. res i = Some r \<and> (\<not> is_pending r \<or> bt_dotID (Tasks p ! i) \<in> K))}"
  have ex: "(\<exists>x\<in>set (run_TaskRuns run'). P x) \<longleftrightarrow> (\<exists>i r. res i = Some r \<and> P (result_row (run_ID run) r))" for P
    unfolding R(2) by blast
  have samekey: "bt_dotID (Tasks p ! k) = bt_dotID (Tasks p ! i) \<longleftrightarrow> k = i" if "res k = Some r" "i < length (Tasks p)" for i k r
    using R(3) [OF that(1)] bt_dotID_inj [OF nm _ that(2)] by blast
  have known: "task_known p (run_TaskRuns run') i \<longleftrightarrow> (\<exists>r. res i = Some r)" if i: "i < length (Tasks p)" for i
  proof -
    have "res k = Some r \<and> tr_DotID (result_row (run_ID run) r) = bt_dotID (Tasks p ! i) \<longleftrightarrow> res k = Some r \<and> k = i" for k r
      using R(3) [of k r] samekey [OF _ i] by (cases "res k = Some r") simp_all
    then show ?thesis unfolding task_known_def list_ex_iff ex by simp
  qed
  have fin: "tr_DotID ` set (finished_rows rows)
      = {d. \<exists>i r. res i = Some r \<and> d = bt_dotID (Tasks p ! i) \<and> (\<not> is_pending r \<or> d \<in> K)}"
  proof -
    have "res k = Some r \<and> tr_DotID (result_row (run_ID run) r) = d \<and> (\<not> TaskRun_IsPending (result_row (run_ID run) r) \<or> d \<in> K)
      \<longleftrightarrow> res k = Some r \<and> d = bt_dotID (Tasks p ! k) \<and> (\<not> is_pending r \<or> d \<in> K)" for k r d
      using R(3) [of k r] by auto
    then show ?thesis unfolding answered_finished [OF assms(11)] ex by simp
  qed
  have resumed: "resumed p rows = F"
  proof (intro set_eqI)
    fix i
    have "res k = Some r \<and> bt_dotID (Tasks p ! i) = bt_dotID (Tasks p ! k) \<longleftrightarrow> res k = Some r \<and> k = i"
      if "i < length (Tasks p)" for k r
      using samekey [OF _ that] by metis
    then have "(\<exists>k r. res k = Some r \<and> bt_dotID (Tasks p ! i) = bt_dotID (Tasks p ! k) \<and> Q r) \<longleftrightarrow> (\<exists>r. res i = Some r \<and> Q r)"
      if "i < length (Tasks p)" for Q using that by metis
    from this [of "\<lambda>r. \<not> is_pending r \<or> bt_dotID (Tasks p ! i) \<in> K"]
    show "i \<in> resumed p rows \<longleftrightarrow> i \<in> F" unfolding resumed_def fin F_def mem_Collect_eq by (rule conj_cong [OF refl])
  qed
  have fdone: "task_done p rows i \<longleftrightarrow> i \<in> F" if "i < length (Tasks p)" for i
  proof -
    have "task_done p rows i \<longleftrightarrow> bt_dotID (Tasks p ! i) \<in> tr_DotID ` set (finished_rows rows)"
      unfolding task_done_def list_ex_iff finished_rows_def by (simp add: image_iff Bex_def eq_commute [of "bt_dotID (Tasks p ! i)"]) blast
    then show ?thesis using that resumed unfolding resumed_def by blast
  qed
  have inputs: "set (td_ids (Tasks p ! i)) \<subseteq> F" if i: "i < length (Tasks p)" "res i \<noteq> None" for i
  proof
    fix j assume j: "j \<in> set (td_ids (Tasks p ! i))"
    then have "final {} res j" using going i unfolding going_def by blast
    then show "j \<in> F" using R(3) by (auto simp: F_def final_def)
  qed
  have "rows_resumable p rows"
    unfolding rows_resumable_def resumed answered_names [OF assms(11)]
  proof (intro conjI ballI R(1))
    show "set (map tr_DotID (run_TaskRuns run')) \<subseteq> bt_dotID ` set (Tasks p)" using R(2,3) by fastforce
    show "set (td_ids (Tasks p ! i)) \<subseteq> F" if "i \<in> F" for i using that inputs by (auto simp: F_def)
  qed
  from newScheduler_inv [OF assms(1,2) this assms(12)] obtain sc where sc: "newScheduler env p rows vs' = Ret sc"
    "sched_inv env p F [] \<lparr>sched = sc, executing = []\<rparr>" "live_list \<lparr>sched = sc, executing = []\<rparr> = doable p F"
    "dom (map_of (sc_results sc)) = F"
    unfolding resumed by blast
  have new: "sc_retrying sc = []"
  proof (rule ccontr)
    assume "sc_retrying sc \<noteq> []"
    then obtain t where t: "t \<in> set (sc_retrying sc)" by (meson last_in_set)
    then have "map_of (sc_results sc) (bt_id (rt_task t)) \<noteq> None"
      using goods(3) [OF sc(2)] by (auto simp: list_all_iff good_retry_def Let_def)
    moreover have "bt_id (rt_task t) \<in> set (doable p F)" unfolding sc(3) [symmetric] using t by (simp add: live_list_def)
    ultimately show False using sc(4) by (auto simp: doable_def)
  qed
  have ids: "set (map (\<lambda>m. bt_id (mtr_task m)) (sc_taskCh sc)) = set (doable p F)"
    using sc(3) new by (simp add: live_list_def)
  have start: "i \<in> set (doable p F) \<longleftrightarrow> (if task_known p (run_TaskRuns run') i then \<not> task_done p rows i
          else \<forall>j\<in>set (td_ids (Tasks p ! i)). task_done p rows j)" if i: "i < length (Tasks p)" for i
  proof -
    have less: "j < length (Tasks p)" if "j \<in> set (td_ids (Tasks p ! i))" for j
      using assms(1) i that unfolding pipeline_ok_def well_linked_def by fastforce
    have d: "i \<in> set (doable p F) \<longleftrightarrow> i \<notin> F \<and> set (td_ids (Tasks p ! i)) \<subseteq> F" using i by (simp add: doable_def)
    show ?thesis
    proof (cases "task_known p (run_TaskRuns run') i")
      case True
      then have "set (td_ids (Tasks p ! i)) \<subseteq> F" using inputs [OF i] known [OF i] by simp
      then show ?thesis using True fdone [OF i] d by simp
    next
      case False
      then have "i \<notin> F" using known [OF i] by (auto simp: F_def)
      moreover have "(\<forall>j\<in>set (td_ids (Tasks p ! i)). task_done p rows j) \<longleftrightarrow> set (td_ids (Tasks p ! i)) \<subseteq> F"
        unfolding subset_iff Ball_def using fdone [OF less] by simp
      ultimately show ?thesis using False d by simp
    qed
  qed
  show ?thesis by (intro exI conjI, rule sc(1), unfold ids) (intro allI impI, rule start)
qed

lemma resumed_run_repeats_pending_witness:
  "\<exists>run' trrs sc. ex_suspended = Some (Ret (run', trrs))
    \<and> newScheduler ex_sched_env ex_wait (ex_answer (run_TaskRuns run')) [] = Ret sc
    \<and> 1 \<in> set (map (\<lambda>m. bt_id (mtr_task m)) (sc_taskCh sc))"
proof -
  obtain run' trrs where r: "ex_suspended = Some (Ret (run', trrs))" "\<not> run_FailSilently run'"
    "map tr_DotID (run_TaskRuns run') = [''a'', ''b'']" "map TaskRun_IsPending (run_TaskRuns run') = [True, True]"
    using ex_suspended_ran by auto
  have "1 < length (Tasks ex_wait)" "bt_dotID (Tasks ex_wait ! 1) = ''b''"
    by (simp_all add: ex_wait_def ex_task_def NewBaseTask_def)
  moreover have "task_known ex_wait (run_TaskRuns run') 1" "\<not> task_done ex_wait (ex_answer (run_TaskRuns run')) 1"
    using r(3,4) calculation(2) by (auto simp: task_known_def task_done_def ex_answer_def map_eq_Cons_conv)
  ultimately have task: "1 < length (Tasks ex_wait)" "task_known ex_wait (run_TaskRuns run') 1"
    "\<not> task_done ex_wait (ex_answer (run_TaskRuns run')) 1" by blast+
  have "\<exists>sc. newScheduler ex_sched_env ex_wait (ex_answer (run_TaskRuns run')) [] = Ret sc
    \<and> (\<forall>i<length (Tasks ex_wait). i \<in> set (map (\<lambda>m. bt_id (mtr_task m)) (sc_taskCh sc)) \<longleftrightarrow>
         (if task_known ex_wait (run_TaskRuns run') i then \<not> task_done ex_wait (ex_answer (run_TaskRuns run')) i
          else \<forall>j\<in>set (td_ids (Tasks ex_wait ! i)). task_done ex_wait (ex_answer (run_TaskRuns run')) j))"
    by (rule resumed_run_repeats_pending [OF ex_wait_ok ex_env_ok _ ex_orders_ok ex_go_run_fields(2) _ _
        r(1) [unfolded ex_suspended_def] ex_wait_empty r(2) ex_answer_answered]) (simp_all add: ex_go_run_fields no_rows)
  then obtain sc where sc: "newScheduler ex_sched_env ex_wait (ex_answer (run_TaskRuns run')) [] = Ret sc"
    "1 \<in> set (map (\<lambda>m. bt_id (mtr_task m)) (sc_taskCh sc))" using task by fastforce
  show ?thesis by (intro exI conjI) (rule r(1), rule sc(1), rule sc(2))
qed

end
