(* ===== verification/RunStore.thy ===== *)
theory RunStore
  imports RunnerTheorems
begin

text \<open>
  What happens to the tables of runs beside a run itself: the answer of an asynchronous task
  (\<open>ResumeRun\<close>, \<open>UpdateTaskRunResult\<close>), runs that are stored in bulk, the reaper, and the runs that a
  restarted node picks up (\<open>runner.go\<close>, \<open>orm.go\<close>, \<open>services/pg/queries.go\<close> under \<open>services\<close>).

  The theorems follow an answer: once its task has a row the run goes on with it, unless the process that executes the
  run has a result of its own for the task; before that it is refused; and
  say what the reaper deletes and which runs a restart visits.
\<close>

section \<open>Answers, bulk insertion\<close>

text \<open>\<open>ResumeRun\<close>: the run that its goroutine continues, if there is one.\<close>

definition ResumeRun ::
  "statement_error \<Rightarrow> nat \<Rightarrow> pval \<Rightarrow> perror option \<Rightarrow> int \<Rightarrow> pipeline_db
    \<Rightarrow> (string + go_run option \<times> pipeline_db) run" where
  "ResumeRun fail taskID v e now d =
     run_map (\<lambda>r. case r of Inl err \<Rightarrow> Inl err
         | Inr (run, start, d1) \<Rightarrow> Inr (if start then Some run else None, d1))
       (UpdateTaskRunResult fail taskID \<lparr>res_Value = v, res_Error = e\<rparr> now d)"

text \<open>\<open>InsertFinishedRuns\<close>: the rows get the ids in the order of the runs.\<close>

fun number_runs :: "int \<Rightarrow> go_run list \<Rightarrow> go_run list" where
  "number_runs n [] = []"
| "number_runs n (run # runs) =
     run\<lparr>run_TaskRuns := map (\<lambda>r. r\<lparr>tr_PipelineRunID := n + 1\<rparr>) (run_TaskRuns run)\<rparr> # number_runs (n + 1) runs"

fun numbered_rows :: "int \<Rightarrow> go_run list \<Rightarrow> go_run list" where
  "numbered_rows n [] = []"
| "numbered_rows n (run # runs) = run\<lparr>run_ID := n + 1, run_TaskRuns := []\<rparr> # numbered_rows (n + 1) runs"

definition InsertFinishedRuns ::
  "statement_error \<Rightarrow> go_run list \<Rightarrow> bool \<Rightarrow> pipeline_db \<Rightarrow> string + go_run list \<times> pipeline_db" where
  "InsertFinishedRuns fail runs saveSuccessful d =
     (case fail of Some e \<Rightarrow> Inl e | None \<Rightarrow>
      if runs = [] then Inl ''length of array is 0''
      else
        let runs1 = number_runs (last_run_id d) runs;
            rows = concat (map run_TaskRuns (filter (\<lambda>run. saveSuccessful \<or> HasErrors run) runs1));
            d1 = d\<lparr>pipeline_runs := pipeline_runs d @ numbered_rows (last_run_id d) runs,
                   last_run_id := last_run_id d + int (length runs)\<rparr>
        in if rows = [] then Inl ''length of array is 0''
           else Inr (runs1, d1\<lparr>pipeline_task_runs := pipeline_task_runs d1 @ map (\<lambda>r. r\<lparr>tr_task := None\<rparr>) rows\<rparr>))"

section \<open>The reaper and the runs of a restart\<close>

definition BatchSize :: nat where
  "BatchSize = 1000"

definition finished_before :: "int \<Rightarrow> go_run \<Rightarrow> bool" where
  "finished_before t run = (case run_FinishedAt run of None \<Rightarrow> False | Some f \<Rightarrow> f < t)"

text \<open>One statement: a batch of the oldest runs, and by cascade the rows of their tasks.\<close>

definition delete_batch :: "int \<Rightarrow> nat \<Rightarrow> pipeline_db \<Rightarrow> nat \<times> pipeline_db" where
  "delete_batch t limit d =
     (let batch = map run_ID (take limit (sort_key (\<lambda>r. the (run_FinishedAt r)) (filter (finished_before t) (pipeline_runs d))))
      in (length (filter (\<lambda>r. run_ID r \<in> set batch) (pipeline_runs d)),
          d\<lparr>pipeline_runs := filter (\<lambda>r. run_ID r \<notin> set batch) (pipeline_runs d),
            pipeline_task_runs := filter (\<lambda>r. tr_PipelineRunID r \<notin> set batch) (pipeline_task_runs d)\<rparr>))"

lemma delete_batch_shrinks:
  assumes "\<not> fst (delete_batch t limit d) < limit" "0 < limit"
  shows "length (pipeline_runs (snd (delete_batch t limit d))) < length (pipeline_runs d)"
proof -
  obtain P where P: "delete_batch t limit d = (length (filter (\<lambda>r. run_ID r \<in> P) (pipeline_runs d)),
      d\<lparr>pipeline_runs := filter (\<lambda>r. run_ID r \<notin> P) (pipeline_runs d),
        pipeline_task_runs := filter (\<lambda>r. tr_PipelineRunID r \<notin> P) (pipeline_task_runs d)\<rparr>)"
    by (simp add: delete_batch_def Let_def)
  show ?thesis using assms sum_length_filter_compl [of "\<lambda>r. run_ID r \<in> P" "pipeline_runs d"] by (simp add: P)
qed

text \<open>\<open>DeleteRunsOlderThan\<close>: batches, each a statement of its own that can fail, until one is not full.\<close>

function delete_batches :: "(nat \<Rightarrow> statement_error) \<Rightarrow> nat \<Rightarrow> int \<Rightarrow> pipeline_db \<Rightarrow> string option \<times> pipeline_db" where
  "delete_batches fails i t d =
     (case fails i of Some e \<Rightarrow> (Some e, d)
      | None \<Rightarrow> (let (n, d1) = delete_batch t BatchSize d in
          if n < BatchSize then (None, d1) else delete_batches fails (i + 1) t d1))"
  by auto
termination
  by (relation "measure (\<lambda>(fails, i, t, d). length (pipeline_runs d))")
    (simp_all, metis BatchSize_def delete_batch_shrinks fst_conv snd_conv zero_less_numeral)

declare delete_batches.simps [simp del]

definition DeleteRunsOlderThan ::
  "(nat \<Rightarrow> statement_error) \<Rightarrow> int \<Rightarrow> int \<Rightarrow> pipeline_db \<Rightarrow> string option \<times> pipeline_db" where
  "DeleteRunsOlderThan fails start threshold d = delete_batches fails 0 (start - threshold) d"

text \<open>\<open>GetUnfinishedRuns\<close>: pages of the query, found by offset. One element of the script for each page: what
  happens to the tables before it is read. The runs are handed out in order; \<open>None\<close> if the script is too short.\<close>

definition unfinished_query :: "int \<Rightarrow> pipeline_db \<Rightarrow> go_run list" where
  "unfinished_query now d =
     sort_key (\<lambda>r. the (run_CreatedAt r)) (sort_key run_ID
       (filter (\<lambda>r. run_State r = RunStatusRunning \<and> run_CreatedAt r \<noteq> None \<and> the (run_CreatedAt r) < now) (pipeline_runs d)))"

definition loadAssociations :: "pipeline_db \<Rightarrow> go_run list \<Rightarrow> go_run list" where
  "loadAssociations d runs =
     map (\<lambda>r. r\<lparr>run_TaskRuns := by_created (rows_of (run_ID r) (pipeline_task_runs d))\<rparr>) runs"

fun unfinished_pages :: "nat \<Rightarrow> int \<Rightarrow> nat \<Rightarrow> (pipeline_db \<Rightarrow> pipeline_db) list \<Rightarrow> pipeline_db \<Rightarrow> go_run list option" where
  "unfinished_pages limit now offset [] d = None"
| "unfinished_pages limit now offset (others # script) d =
     (let d1 = others d; page = take limit (drop offset (unfinished_query now d1)) in
      if length page < limit then Some (loadAssociations d1 page)
      else map_option (\<lambda>runs. loadAssociations d1 page @ runs) (unfinished_pages limit now (offset + limit) script d1))"

definition GetUnfinishedRuns :: "int \<Rightarrow> (pipeline_db \<Rightarrow> pipeline_db) list \<Rightarrow> pipeline_db \<Rightarrow> go_run list option" where
  "GetUnfinishedRuns now script d = unfinished_pages BatchSize now 0 script d"

section \<open>Answers of asynchronous tasks\<close>

lemma set_task_result_fields [simp]:
  "tr_DotID (set_task_result k res now r) = tr_DotID r" "tr_PipelineRunID (set_task_result k res now r) = tr_PipelineRunID r"
  "tr_ID (set_task_result k res now r) = tr_ID r" "tr_CreatedAt (set_task_result k res now r) = tr_CreatedAt r"
  by (simp_all add: set_task_result_def)

lemma rows_of_set_task_result:
  "rows_of n (map (set_task_result k res now) table) = map (set_task_result k res now) (rows_of n table)"
  by (simp add: rows_of_def filter_map comp_def)

lemma set_by_created [simp]: "set (by_created rows) = set rows"
  by (simp add: by_created_def)

lemma update_run_table [simp]: "pipeline_task_runs (update_run n f d) = pipeline_task_runs d"
  by (simp add: update_run_def)

lemma Run_ByDotID_distinct:
  "distinct (map tr_DotID rows) \<Longrightarrow> r \<in> set rows \<Longrightarrow> tr_DotID r = k \<Longrightarrow> Run_ByDotID rows k = Some r"
  unfolding Run_ByDotID_def by (induction rows) force+

lemma UpdateTaskRunResult_Inr:
  assumes "UpdateTaskRunResult fail taskID result now d = Ret (Inr (stored, start, d1))"
  obtains run where "fail = None" "awaited_run taskID d = Some run" "start \<longleftrightarrow> run_State run = RunStatusSuspended"
    "pipeline_task_runs d1 = map (set_task_result taskID result now) (pipeline_task_runs d)"
    "stored = run\<lparr>run_State := (if start then RunStatusRunning else run_State run),
       run_TaskRuns := by_created (rows_of (run_ID run) (pipeline_task_runs d1))\<rparr>"
    "pipeline_runs d1 = (if start then map (\<lambda>r. if run_ID r = run_ID run then r\<lparr>run_State := RunStatusRunning\<rparr> else r) (pipeline_runs d)
       else pipeline_runs d)"
  using assms that
  by (auto simp: UpdateTaskRunResult_def Let_def update_run_def split: if_splits option.splits)

text \<open>C28: what becomes of an answer that is accepted. It is accepted for a run that is running or suspended, and
  \<open>ResumeRun\<close> continues the run if, and only if, it was suspended: with the run marked as running and the
  answer among its rows, no longer pending. If the run was not suspended, then the process that executes it finds
  the answer when it stores the run with that task still pending: it does not suspend the run but takes the answer
  over and goes on. (A process that stores the run with a result of its own for the task replaces the answer.)\<close>

theorem accepted_answer_continues:
  assumes "UpdateTaskRunResult fail taskID result now d = Ret (Inr (stored, start, d1))"
    and "r \<in> set (rows_of (run_ID stored) (pipeline_task_runs d))" "tr_ID r = taskID"
    and "distinct (map tr_DotID (rows_of (run_ID stored) (pipeline_task_runs d)))"
    and "run_ID run = run_ID stored" "run_FinishedAt run = None"
    and "tr \<in> set (run_TaskRuns run)" "TaskRun_IsPending tr" "tr_DotID tr = tr_DotID r"
  shows "(\<exists>run0. awaited_run taskID d = Some run0 \<and> run_ID run0 = run_ID stored
        \<and> run_State run0 = (if start then RunStatusSuspended else RunStatusRunning))
    \<and> ResumeRun fail taskID (res_Value result) (res_Error result) now d
        = Ret (Inr (if start then Some stored else None, d1))
    \<and> (start \<longrightarrow> (\<forall>run1\<in>set (pipeline_runs d1). run_ID run1 = run_ID stored \<longrightarrow> run_State run1 = RunStatusRunning))
    \<and> run_State stored = RunStatusRunning \<and> set_task_result taskID result now r \<in> set (run_TaskRuns stored)
    \<and> \<not> TaskRun_IsPending (set_task_result taskID result now r)
    \<and> (\<exists>run1. StoreRun None run d1 = Inr (True, run1, d1) \<and> set_task_result taskID result now r \<in> set (run_TaskRuns run1))"
proof -
  let ?r = "set_task_result taskID result now r"
  obtain run0 where "fail = None" and u: "awaited_run taskID d = Some run0" "start \<longleftrightarrow> run_State run0 = RunStatusSuspended"
    "pipeline_task_runs d1 = map (set_task_result taskID result now) (pipeline_task_runs d)"
    "stored = run0\<lparr>run_State := (if start then RunStatusRunning else run_State run0),
       run_TaskRuns := by_created (rows_of (run_ID run0) (pipeline_task_runs d1))\<rparr>"
    "pipeline_runs d1 = (if start then map (\<lambda>r. if run_ID r = run_ID run0 then r\<lparr>run_State := RunStatusRunning\<rparr> else r) (pipeline_runs d)
       else pipeline_runs d)"
    by (rule UpdateTaskRunResult_Inr [OF assms(1)])
  have states: "run_State run0 = RunStatusRunning \<or> run_State run0 = RunStatusSuspended"
    using u(1) by (auto simp: awaited_run_def find_Some_iff)
  then have state: "run_State stored = RunStatusRunning" using u(2,4) by auto
  have id: "run_ID stored = run_ID run0" using u(4) by simp
  have running: "start \<longrightarrow> (\<forall>run1\<in>set (pipeline_runs d1). run_ID run1 = run_ID stored \<longrightarrow> run_State run1 = RunStatusRunning)"
    using u(5) id by auto
  have awaited: "run_State run0 = (if start then RunStatusSuspended else RunStatusRunning)" using states u(2) by auto
  have resume: "ResumeRun fail taskID (res_Value result) (res_Error result) now d
      = Ret (Inr (if start then Some stored else None, d1))" using assms(1) by (cases result) (simp add: ResumeRun_def)
  have pending: "\<not> TaskRun_IsPending ?r" using assms(3) by (simp add: set_task_result_def TaskRun_IsPending_def)
  let ?rows = "rows_of (run_ID run) (pipeline_task_runs d1)"
  have rows: "?rows = map (set_task_result taskID result now) (rows_of (run_ID stored) (pipeline_task_runs d))"
    unfolding u(3) rows_of_set_task_result assms(5) ..
  have mem: "?r \<in> set ?rows" unfolding rows using assms(2) by simp
  have stored: "?r \<in> set (run_TaskRuns stored)" using mem assms(5) id u(4) by simp
  have "map tr_DotID ?rows = map tr_DotID (rows_of (run_ID stored) (pipeline_task_runs d))"
    unfolding rows by simp
  then have "Run_ByDotID ?rows (tr_DotID tr) = Some ?r"
    using Run_ByDotID_distinct [OF _ mem] assms(4,9) by simp
  then have new: "new_data ?rows tr = Some ?r" using assms(8) pending by (simp add: new_data_def)
  then have restart: "list_ex (\<lambda>tr. new_data ?rows tr \<noteq> None) (run_TaskRuns run)"
    using assms(7) unfolding list_ex_iff by (intro bexI [of _ tr]) simp_all
  let ?run1 = "run\<lparr>run_TaskRuns := map (\<lambda>tr. case new_data ?rows tr of Some r \<Rightarrow> r | None \<Rightarrow> tr) (run_TaskRuns run)\<rparr>"
  have "StoreRun None run d1 = Inr (True, ?run1, d1)"
    unfolding StoreRun_def Let_def using restart assms(6) by simp
  moreover have "?r \<in> set (run_TaskRuns ?run1)" using assms(7) new by (force simp: image_iff intro: bexI [of _ tr])
  ultimately show ?thesis using state stored pending u(1) id [symmetric] awaited resume running by (intro conjI exI) assumption+
qed

text \<open>The other side: a process that stores the run finished, or with a result of its own for the task, replaces
  the answer, because the rows are upserted.\<close>

abbreviation row_key' :: "task_run \<Rightarrow> int \<times> string" where
  "row_key' r \<equiv> (tr_PipelineRunID r, tr_DotID r)"

lemma upsert_row_keys:
  "map row_key' (snd (upsert_row r table)) = map row_key' table @ (if row_key' r \<in> set (map row_key' table) then [] else [row_key' r])"
  by (induction r table rule: upsert_row.induct) (auto simp: same_key_def Let_def split: prod.splits)

lemma upsert_row_keeps: "x \<in> set table \<Longrightarrow> \<not> same_key r x \<Longrightarrow> x \<in> set (snd (upsert_row r table))"
  by (induction r table rule: upsert_row.induct) (auto simp: Let_def split: prod.splits)

lemma upsert_row_replaces:
  "x \<in> set table \<Longrightarrow> same_key r x \<Longrightarrow> distinct (map row_key' table) \<Longrightarrow>
     x\<lparr>tr_Output := tr_Output r, tr_Error := tr_Error r, tr_FinishedAt := tr_FinishedAt r\<rparr> \<in> set (snd (upsert_row r table))"
  by (induction r table rule: upsert_row.induct) (auto simp: same_key_def Let_def image_iff split: prod.splits)

lemma upsert_rows_keeps: "x \<in> set table \<Longrightarrow> \<forall>r\<in>set rows. \<not> same_key r x \<Longrightarrow> x \<in> set (snd (upsert_rows rows table))"
proof (induction rows arbitrary: table)
  case (Cons a rows)
  have "x \<in> set (snd (upsert_rows rows (snd (upsert_row a table))))"
    using Cons.prems by (intro Cons.IH upsert_row_keeps) simp_all
  then show ?case by (simp add: case_prod_beta Let_def)
qed simp

lemma upsert_rows_replaces:
  "r \<in> set rows \<Longrightarrow> x \<in> set table \<Longrightarrow> same_key r x \<Longrightarrow> distinct (map row_key' rows) \<Longrightarrow> distinct (map row_key' table) \<Longrightarrow>
     x\<lparr>tr_Output := tr_Output r, tr_Error := tr_Error r, tr_FinishedAt := tr_FinishedAt r\<rparr> \<in> set (snd (upsert_rows rows table))"
proof (induction rows arbitrary: table)
  case (Cons a rows)
  let ?t = "snd (upsert_row a table)"
  have t: "snd (upsert_rows (a # rows) table) = snd (upsert_rows rows ?t)" by (simp add: case_prod_beta Let_def)
  have d: "distinct (map row_key' ?t)" unfolding upsert_row_keys using Cons.prems(5) by simp
  show ?case
  proof (cases "r = a")
    case True
    have "\<forall>r'\<in>set rows. \<not> same_key r' (x\<lparr>tr_Output := tr_Output r, tr_Error := tr_Error r, tr_FinishedAt := tr_FinishedAt r\<rparr>)"
      using Cons.prems(3,4) True by (auto simp: same_key_def image_iff)
    then show ?thesis unfolding t
      using upsert_row_replaces [OF Cons.prems(2,3,5)] True by (intro upsert_rows_keeps) simp_all
  next
    case False
    then have "r \<in> set rows" "\<not> same_key a x" using Cons.prems(1,3,4) by (auto simp: same_key_def image_iff)
    then show ?thesis unfolding t
      using Cons.prems d by (intro Cons.IH upsert_row_keeps) simp_all
  qed
qed simp

lemma finished_run_replaces_answer:
  assumes "UpdateTaskRunResult fail taskID result now d = Ret (Inr (stored, start, d1))"
    and "r \<in> set (pipeline_task_runs d)" "tr_ID r = taskID" "distinct (map row_key' (pipeline_task_runs d))"
    and "run_FinishedAt run \<noteq> None" "tr \<in> set (run_TaskRuns run)" "same_key tr r" "distinct (map row_key' (run_TaskRuns run))"
    and "StoreRun None run d1 = Inr (restart, run1, d2)"
  shows "\<exists>x\<in>set (pipeline_task_runs d2). tr_ID x = taskID \<and> tr_Output x = tr_Output tr \<and> tr_Error x = tr_Error tr"
proof -
  let ?t = "map (set_task_result taskID result now) (pipeline_task_runs d)"
  have "pipeline_task_runs d1 = ?t" by (rule UpdateTaskRunResult_Inr [OF assms(1)])
  then have "pipeline_task_runs d2 = snd (upsert_rows (run_TaskRuns run) ?t)"
    using assms(5,9) by (auto simp: StoreRun_def store_rows_def split: if_splits prod.splits)
  moreover have "(set_task_result taskID result now r)\<lparr>tr_Output := tr_Output tr, tr_Error := tr_Error tr, tr_FinishedAt := tr_FinishedAt tr\<rparr>
      \<in> set (snd (upsert_rows (run_TaskRuns run) ?t))"
    using assms(2,4,6,7,8) by (intro upsert_rows_replaces) (simp_all add: same_key_def comp_def)
  ultimately show ?thesis using assms(3) by (intro bexI) auto
qed

definition ex_row :: "nat \<Rightarrow> string \<Rightarrow> task_run" where
  "ex_row i dotID = \<lparr>tr_ID = i, tr_Type = ''bridge'', tr_PipelineRunID = 1, tr_Output = \<lparr>js_Val = NilV, js_Valid = False\<rparr>,
     tr_Error = None, tr_CreatedAt = 5, tr_FinishedAt = None, tr_Index = 0, tr_DotID = dotID, tr_task = None\<rparr>"

definition ex_stored_run :: go_run where
  "ex_stored_run = (NewRun 1 [] 3)\<lparr>run_ID := 1\<rparr>"

definition ex_tables :: pipeline_db where
  "ex_tables = \<lparr>pipeline_runs = [ex_stored_run], pipeline_task_runs = [ex_row 7 ''a'', ex_row 8 ''b''], last_run_id = 1\<rparr>"

lemma accepted_answer_continues_witness:
  "\<exists>d1 run1. ResumeRun None 7 (StrV ''x'') None 9 ex_tables = Ret (Inr (None, d1))
    \<and> StoreRun None (ex_stored_run\<lparr>run_TaskRuns := [ex_row 7 ''a'']\<rparr>) d1 = Inr (True, run1, d1)"
proof -
  let ?res = "\<lparr>res_Value = StrV ''x'', res_Error = None\<rparr>"
  obtain stored d1 where u: "UpdateTaskRunResult None 7 ?res 9 ex_tables = Ret (Inr (stored, False, d1))" "run_ID stored = 1"
    by (simp add: UpdateTaskRunResult_def ex_tables_def awaited_run_def ex_stored_run_def NewRun_def ex_row_def
        OutputDB_def ErrorDB_def Let_def)
  have "\<exists>run1. StoreRun None (ex_stored_run\<lparr>run_TaskRuns := [ex_row 7 ''a'']\<rparr>) d1 = Inr (True, run1, d1)"
    using accepted_answer_continues [OF u(1), of "ex_row 7 ''a''" "ex_stored_run\<lparr>run_TaskRuns := [ex_row 7 ''a'']\<rparr>" "ex_row 7 ''a''"]
    by (auto simp: u(2) ex_tables_def rows_of_def ex_row_def ex_stored_run_def NewRun_def TaskRun_IsPending_def null_zero_def)
  then show ?thesis using u(1) by (auto simp: ResumeRun_def)
qed

text \<open>The answer of a bridge that is faster than its run: only the rows of transactions are there from the start.\<close>

lemma start_Run_rows:
  assumes "start_Run p fail now run d = Inr (run1, d1)" "RequiresPreInsert p" "run_ID run = 0" "run_TaskRuns run = []"
  shows "run_ID run1 = last_run_id d + 1"
    and "pipeline_task_runs d1 = pipeline_task_runs d
      @ map (\<lambda>r. r\<lparr>tr_PipelineRunID := last_run_id d + 1\<rparr>) (eth_tx_rows p 0 now)"
  using assms
  by (auto simp: start_Run_def CreateRun_def InsertRun_def Let_def eth_tx_rows_def split: if_splits option.splits)

lemma eth_tx_rows_pending: "r \<in> set (eth_tx_rows p n now) \<Longrightarrow> TaskRun_IsPending r"
  by (auto simp: eth_tx_rows_def TaskRun_IsPending_def null_zero_def)

text \<open>C29: an answer that comes before the run of its task has been stored is lost. The rows that exist when an
  asynchronous run starts are those of its transactions; for any other task, an async bridge for one, the answer is
  refused with no rows, and the run is suspended afterwards and waits for an answer that has already come.\<close>

theorem early_answer_lost:
  assumes "start_Run p fail now run d = Inr (run1, d1)" "RequiresPreInsert p" "run_ID run = 0" "run_TaskRuns run = []"
    and "t \<in> set (Tasks p)" "bt_Type t \<noteq> ''ethtx''" "\<forall>t'\<in>set (Tasks p). bt_uuid t' = bt_uuid t \<longrightarrow> t' = t"
    and "\<forall>r\<in>set (pipeline_task_runs d). tr_ID r \<noteq> bt_uuid t \<and> tr_PipelineRunID r \<le> last_run_id d"
    and "res_Value result = NilV \<or> res_Error result = None"
    and "run_ID run2 = run_ID run1" "run_FinishedAt run2 = None" "run_TaskRuns run2 \<noteq> []"
  shows "UpdateTaskRunResult None (bt_uuid t) result later d1 = Ret (Inl ''sql: no rows in result set'')
    \<and> (\<exists>run3 d3. StoreRun None run2 d1 = Inr (False, run3, d3) \<and> run_State run3 = RunStatusSuspended)"
proof -
  note rows = start_Run_rows [OF assms(1-4)]
  have "tr_ID r \<noteq> bt_uuid t" if "r \<in> set (pipeline_task_runs d1)" for r
    using that assms(5-8) unfolding rows(2) by (auto simp: eth_tx_rows_def)
  then have "awaited_run (bt_uuid t) d1 = None"
    by (auto simp: awaited_run_def find_None_iff list_ex_iff)
  then have refused: "UpdateTaskRunResult None (bt_uuid t) result later d1 = Ret (Inl ''sql: no rows in result set'')"
    using assms(9) by (auto simp: UpdateTaskRunResult_def OutputDB_def ErrorDB_def)
  have "TaskRun_IsPending r" if "r \<in> set (rows_of (run_ID run2) (pipeline_task_runs d1))" for r
    using that assms(8) eth_tx_rows_pending unfolding rows(2) assms(10) rows(1) rows_of_def
    by (fastforce simp: TaskRun_IsPending_def)
  then have "new_data (rows_of (run_ID run2) (pipeline_task_runs d1)) tr = None" for tr
    by (auto simp: new_data_def Run_ByDotID_def find_Some_iff split: option.splits)
  then have "\<exists>run3 d3. StoreRun None run2 d1 = Inr (False, run3, d3) \<and> run_State run3 = RunStatusSuspended"
    using assms(11,12) by (simp add: StoreRun_def store_rows_def Let_def list_ex_iff split: prod.split)
  then show ?thesis using refused by blast
qed

definition ex_bridge :: pipeline where
  "ex_bridge = \<lparr>Tasks = [(NewBaseTask 0 ''a'' ''bridge'')\<lparr>bt_Async := ''true'', bt_uuid := 9\<rparr>], p_Source = ''''\<rparr>"

lemma early_answer_lost_witness:
  "\<exists>run1 d1 run3 d3. start_Run ex_bridge None 5 (NewRun 1 [] 3) ex_tables = Inr (run1, d1)
    \<and> UpdateTaskRunResult None 9 \<lparr>res_Value = StrV ''x'', res_Error = None\<rparr> 6 d1 = Ret (Inl ''sql: no rows in result set'')
    \<and> StoreRun None (run1\<lparr>run_TaskRuns := [(ex_row 9 ''a'')\<lparr>tr_PipelineRunID := 2\<rparr>]\<rparr>) d1 = Inr (False, run3, d3)
    \<and> run_State run3 = RunStatusSuspended"
proof -
  obtain run1 d1 where s: "start_Run ex_bridge None 5 (NewRun 1 [] 3) ex_tables = Inr (run1, d1)" "run_FinishedAt run1 = None"
    by (simp add: start_Run_def CreateRun_def InsertRun_def RequiresPreInsert_def ex_bridge_def NewBaseTask_def
        NewRun_def eth_tx_rows_def Let_def)
  have "UpdateTaskRunResult None 9 \<lparr>res_Value = StrV ''x'', res_Error = None\<rparr> 6 d1 = Ret (Inl ''sql: no rows in result set'')
    \<and> (\<exists>run3 d3. StoreRun None (run1\<lparr>run_TaskRuns := [(ex_row 9 ''a'')\<lparr>tr_PipelineRunID := 2\<rparr>]\<rparr>) d1 = Inr (False, run3, d3)
        \<and> run_State run3 = RunStatusSuspended)"
    using early_answer_lost [OF s(1), of "hd (Tasks ex_bridge)" "\<lparr>res_Value = StrV ''x'', res_Error = None\<rparr>"
        "run1\<lparr>run_TaskRuns := [(ex_row 9 ''a'')\<lparr>tr_PipelineRunID := 2\<rparr>]\<rparr>" 6] s(2)
    by (simp add: RequiresPreInsert_def ex_bridge_def NewBaseTask_def NewRun_def ex_tables_def ex_row_def)
  then show ?thesis using s(1) by blast
qed

section \<open>The reaper\<close>

text \<open>What is left when the runs in \<open>ids\<close> are deleted.\<close>

definition without_runs :: "int set \<Rightarrow> pipeline_db \<Rightarrow> pipeline_db" where
  "without_runs ids d = d\<lparr>pipeline_runs := filter (\<lambda>r. run_ID r \<notin> ids) (pipeline_runs d),
     pipeline_task_runs := filter (\<lambda>r. tr_PipelineRunID r \<notin> ids) (pipeline_task_runs d)\<rparr>"

definition old_runs :: "int \<Rightarrow> pipeline_db \<Rightarrow> int set" where
  "old_runs t d = run_ID ` set (filter (finished_before t) (pipeline_runs d))"

lemma without_runs_twice: "without_runs B (without_runs A d) = without_runs (A \<union> B) d"
  by (simp add: without_runs_def conj_commute)

lemma old_runs_without: "old_runs t (without_runs A d) = old_runs t d - A"
  by (auto simp: old_runs_def without_runs_def)

lemma delete_batch_without:
  assumes "delete_batch t limit d = (n, d1)" "distinct (map run_ID (pipeline_runs d))"
  obtains A where "A \<subseteq> old_runs t d" "d1 = without_runs A d" "n < limit \<Longrightarrow> A = old_runs t d"
proof -
  let ?old = "sort_key (\<lambda>r. the (run_FinishedAt r)) (filter (finished_before t) (pipeline_runs d))"
  let ?A = "set (map run_ID (take limit ?old))"
  have old: "set ?old = {r \<in> set (pipeline_runs d). finished_before t r}" by simp
  have sub: "?A \<subseteq> old_runs t d" using set_take_subset [of limit ?old] unfolding old_runs_def set_filter old [symmetric] by auto
  have d1: "d1 = without_runs ?A d"
    and n: "n = length (filter (\<lambda>r. run_ID r \<in> ?A) (pipeline_runs d))"
    using assms(1) by (auto simp: delete_batch_def Let_def without_runs_def)
  have dist: "distinct (pipeline_runs d)" "inj_on run_ID (set (pipeline_runs d))"
    using assms(2) by (simp_all add: distinct_map)
  have do: "distinct ?old" using dist(1) by simp
  have "set (filter (\<lambda>r. run_ID r \<in> ?A) (pipeline_runs d)) = set (take limit ?old)"
  proof -
    have "r \<in> set (take limit ?old)" if r: "r \<in> set (pipeline_runs d)" "run_ID r \<in> ?A" for r
    proof -
      obtain r' where r': "r' \<in> set (take limit ?old)" "run_ID r' = run_ID r" using r(2) by auto
      then have "r' \<in> set (pipeline_runs d)" using set_take_subset [of limit ?old] old by blast
      then show ?thesis using inj_onD [OF dist(2) r'(2)] r(1) r'(1) by simp
    qed
    moreover have "set (take limit ?old) \<subseteq> set (pipeline_runs d)" using set_take_subset [of limit ?old] old by blast
    ultimately show ?thesis by auto
  qed
  then have "n = length (take limit ?old)"
    unfolding n using dist(1) do by (metis distinct_card distinct_filter distinct_take)
  then have "?A = old_runs t d" if "n < limit"
    using that unfolding old_runs_def set_filter old [symmetric] by simp
  then show thesis using that [OF sub d1] by blast
qed

lemma delete_batches_without:
  "distinct (map run_ID (pipeline_runs d)) \<Longrightarrow> delete_batches fails i t d = (err, d') \<Longrightarrow>
   \<exists>A. A \<subseteq> old_runs t d \<and> d' = without_runs A d \<and> (err = None \<longrightarrow> A = old_runs t d)"
proof (induction fails i t d rule: delete_batches.induct)
  case (1 fails i t d)
  show ?case
  proof (cases "fails i")
    case (Some e)
    have "without_runs {} d = d" by (simp add: without_runs_def)
    then show ?thesis using 1(3) Some by (intro exI [of _ "{}"]) (auto simp: delete_batches.simps)
  next
    case None
    obtain n d1 where b: "delete_batch t BatchSize d = (n, d1)" by force
    obtain A where A: "A \<subseteq> old_runs t d" "d1 = without_runs A d" "n < BatchSize \<Longrightarrow> A = old_runs t d"
      using delete_batch_without [OF b 1(2)] by blast
    show ?thesis
    proof (cases "n < BatchSize")
      case True
      then show ?thesis using 1(3) None b A by (auto simp: delete_batches.simps [of fails i])
    next
      case False
      then have rec: "delete_batches fails (i + 1) t d1 = (err, d')"
        using 1(3) None b by (simp add: delete_batches.simps [of fails i])
      have "distinct (map run_ID (pipeline_runs d1))"
        unfolding A(2) without_runs_def using 1(2) by (simp add: distinct_map_filter)
      from 1(1) [OF None b [symmetric] refl False this rec]
      obtain B where "B \<subseteq> old_runs t d1" "d' = without_runs B d1" "err = None \<longrightarrow> B = old_runs t d1" by blast
      then show ?thesis using A(1)
        by (intro exI [of _ "A \<union> B"]) (auto simp: A(2) without_runs_twice old_runs_without)
    qed
  qed
qed

text \<open>C37: the reaper deletes whole runs with their rows, and only runs that finished longer ago than the threshold;
  what it did before a statement failed stands. If none fails its batches end, and every such run is gone.\<close>

theorem reaper_deletes_old_runs:
  assumes "distinct (map run_ID (pipeline_runs d))" "DeleteRunsOlderThan fails start threshold d = (err, d')"
  shows "\<exists>A. A \<subseteq> old_runs (start - threshold) d \<and> d' = without_runs A d
    \<and> (err = None \<longrightarrow> A = old_runs (start - threshold) d)"
  using delete_batches_without [OF assms(1)] assms(2) by (simp add: DeleteRunsOlderThan_def)

definition ex_old_run :: "int \<Rightarrow> int \<Rightarrow> go_run" where
  "ex_old_run n finished = (NewRun 1 [] 0)\<lparr>run_ID := n, run_FinishedAt := Some finished\<rparr>"

lemma reaper_deletes_old_runs_witness:
  "\<exists>d'. DeleteRunsOlderThan (\<lambda>i. None) 100 50
      (ex_tables\<lparr>pipeline_runs := [ex_stored_run, ex_old_run 2 10, ex_old_run 3 60]\<rparr>) = (None, d')
    \<and> map run_ID (pipeline_runs d') = [1, 3]"
proof -
  let ?d = "ex_tables\<lparr>pipeline_runs := [ex_stored_run, ex_old_run 2 10, ex_old_run 3 60]\<rparr>"
  obtain err d' where r: "DeleteRunsOlderThan (\<lambda>i. None) 100 50 ?d = (err, d')" by force
  have err: "err = None"
    using r by (simp add: DeleteRunsOlderThan_def delete_batches.simps [of _ 0] delete_batch_def ex_stored_run_def
        NewRun_def ex_old_run_def finished_before_def BatchSize_def Let_def)
  have "old_runs (100 - 50) ?d = {2}"
    by (simp add: old_runs_def ex_stored_run_def NewRun_def ex_old_run_def finished_before_def)
  then have "d' = without_runs {2} ?d"
    using reaper_deletes_old_runs [OF _ r] err by (simp add: ex_stored_run_def NewRun_def ex_old_run_def)
  then show ?thesis using r err by (simp add: without_runs_def ex_stored_run_def NewRun_def ex_old_run_def)
qed

section \<open>The runs of a restart\<close>

lemma loadAssociations_append: "loadAssociations d (xs @ ys) = loadAssociations d xs @ loadAssociations d ys"
  by (simp add: loadAssociations_def)

lemma full_page:
  "offset + limit \<le> length (unfinished_query now (f d)) \<Longrightarrow>
   unfinished_pages limit now (offset + limit) script (f d) = Some rest \<Longrightarrow>
   unfinished_pages limit now offset (f # script) d
   = Some (loadAssociations (f d) (take limit (drop offset (unfinished_query now (f d)))) @ rest)"
  by (simp add: Let_def)

lemma quiet_page:
  "offset + limit \<le> length (unfinished_query now d) \<Longrightarrow>
   unfinished_pages limit now (offset + limit) script d = Some rest \<Longrightarrow>
   unfinished_pages limit now offset (id # script) d
   = Some (loadAssociations d (take limit (drop offset (unfinished_query now d))) @ rest)"
  by (simp add: Let_def)

lemma last_page:
  "length (unfinished_query now (f d)) < offset + limit \<Longrightarrow> 0 < limit \<Longrightarrow>
   unfinished_pages limit now offset (f # script) d
   = Some (loadAssociations (f d) (drop offset (unfinished_query now (f d))))"
  by (auto simp: Let_def)

lemma unfinished_pages_quiet:
  assumes "0 < limit"
  shows "length (unfinished_query now d) < offset + k * limit \<Longrightarrow> offset \<le> length (unfinished_query now d) \<Longrightarrow>
   unfinished_pages limit now offset (replicate k id) d = Some (loadAssociations d (drop offset (unfinished_query now d)))"
proof (induction k arbitrary: offset)
  case (Suc k)
  let ?q = "unfinished_query now d"
  show ?case
  proof (cases "length ?q < offset + limit")
    case True
    then show ?thesis unfolding replicate_Suc
      using last_page [where f = id and limit = limit and script = "replicate k id" and d = d and now = now] assms
      by (simp only: id_apply simp_thms)
  next
    case False
    then have le: "offset + limit \<le> length ?q" by linarith
    have rest: "unfinished_pages limit now (offset + limit) (replicate k id) d
        = Some (loadAssociations d (drop (offset + limit) ?q))"
      by (rule Suc.IH) (use Suc.prems(1) le in simp_all)
    have "drop offset ?q = take limit (drop offset ?q) @ drop (offset + limit) ?q"
      by (metis append_take_drop_id add.commute drop_drop)
    then show ?thesis unfolding replicate_Suc
      using quiet_page [OF le rest] loadAssociations_append by metis
  qed
qed simp

text \<open>if nothing else changes the tables meanwhile, a restart visits exactly the runs that were running when the
  node stopped, each once, the oldest first, with the rows of its tasks.\<close>

theorem restart_visits_running:
  assumes "length (unfinished_query now d) < k * BatchSize" "distinct (map run_ID (pipeline_runs d))"
  shows "GetUnfinishedRuns now (replicate k id) d = Some (loadAssociations d (unfinished_query now d))
    \<and> distinct (map run_ID (unfinished_query now d))
    \<and> sorted (map (\<lambda>r. the (run_CreatedAt r)) (unfinished_query now d))
    \<and> set (unfinished_query now d) = {r \<in> set (pipeline_runs d). run_State r = RunStatusRunning
         \<and> (\<exists>c. run_CreatedAt r = Some c \<and> c < now)}"
proof (intro conjI)
  show "GetUnfinishedRuns now (replicate k id) d = Some (loadAssociations d (unfinished_query now d))"
    unfolding GetUnfinishedRuns_def using unfinished_pages_quiet [of BatchSize now d 0 k] assms(1) by (simp add: BatchSize_def)
  have "mset (unfinished_query now d) = mset (filter (\<lambda>r. run_State r = RunStatusRunning \<and> run_CreatedAt r \<noteq> None
      \<and> the (run_CreatedAt r) < now) (pipeline_runs d))"
    by (simp add: unfinished_query_def)
  then have "mset (map run_ID (unfinished_query now d)) = mset (map run_ID (filter (\<lambda>r. run_State r = RunStatusRunning
      \<and> run_CreatedAt r \<noteq> None \<and> the (run_CreatedAt r) < now) (pipeline_runs d)))"
    by simp
  then show "distinct (map run_ID (unfinished_query now d))"
    using mset_eq_imp_distinct_iff distinct_map_filter [OF assms(2)] by blast
  show "sorted (map (\<lambda>r. the (run_CreatedAt r)) (unfinished_query now d))" by (simp add: unfinished_query_def)
  show "set (unfinished_query now d) = {r \<in> set (pipeline_runs d). run_State r = RunStatusRunning
         \<and> (\<exists>c. run_CreatedAt r = Some c \<and> c < now)}"
    by (auto simp: unfinished_query_def)
qed

lemma restart_visits_running_witness:
  "GetUnfinishedRuns 4 [id] ex_tables = Some [ex_stored_run\<lparr>run_TaskRuns := [ex_row 7 ''a'', ex_row 8 ''b'']\<rparr>]"
proof -
  have q: "unfinished_query 4 ex_tables = [ex_stored_run]"
    by (simp add: unfinished_query_def ex_tables_def ex_stored_run_def NewRun_def)
  have "GetUnfinishedRuns 4 (replicate 1 id) ex_tables = Some (loadAssociations ex_tables (unfinished_query 4 ex_tables))"
    using restart_visits_running [of 4 ex_tables 1] q by (simp add: ex_tables_def BatchSize_def)
  then show ?thesis
    unfolding q by (simp add: loadAssociations_def ex_tables_def ex_stored_run_def NewRun_def by_created_def rows_of_def ex_row_def)
qed

text \<open>C38: the runs found first go on while the next page is read. If the first page has left the running state by
  then, the offset of the second page skips as many runs as that, which nothing visits before the next restart.\<close>

theorem restart_skips_runs:
  assumes "distinct (map run_ID (unfinished_query now d))" "BatchSize \<le> length (unfinished_query now d)"
    and "unfinished_query now (others d) = drop BatchSize (unfinished_query now d)"
    and "length (unfinished_query now d) < (k + 2) * BatchSize"
    and "BatchSize \<le> i" "i < 2 * BatchSize" "i < length (unfinished_query now d)"
  shows "\<exists>runs. GetUnfinishedRuns now (id # others # replicate k id) d = Some runs
    \<and> run_ID (unfinished_query now d ! i) \<notin> run_ID ` set runs"
proof -
  let ?q = "unfinished_query now d" and ?l = BatchSize and ?d = "others d"
  have l: "0 < ?l" by (simp add: BatchSize_def)
  have rest: "unfinished_pages ?l now ?l (others # replicate k id) d
      = Some (loadAssociations ?d (drop (2 * ?l) ?q))"
  proof (cases "length (unfinished_query now ?d) < ?l + ?l")
    case True
    show ?thesis using last_page [where f = others, OF True l] unfolding assms(3) by (simp add: mult_2)
  next
    case False
    then have le: "?l + ?l \<le> length (unfinished_query now ?d)" by linarith
    have rest: "unfinished_pages ?l now (?l + ?l) (replicate k id) ?d
        = Some (loadAssociations ?d (drop (?l + ?l) (unfinished_query now ?d)))"
      by (rule unfinished_pages_quiet [OF l]) (use le assms(3,4) in simp_all)
    have "take ?l (drop ?l (drop ?l ?q)) @ drop (?l + ?l) (drop ?l ?q) = drop (2 * ?l) ?q"
      by (metis append_take_drop_id drop_drop mult_2)
    then show ?thesis using full_page [where f = others, OF le rest] unfolding assms(3)
      by (simp flip: loadAssociations_append)
  qed
  have visited: "GetUnfinishedRuns now (id # others # replicate k id) d
      = Some (loadAssociations d (take ?l ?q) @ loadAssociations ?d (drop (2 * ?l) ?q))"
    unfolding GetUnfinishedRuns_def
    using quiet_page [of 0 ?l now d] rest assms(2) by simp
  have skipped: "run_ID (?q ! i) \<notin> run_ID ` (set (take ?l ?q) \<union> set (drop (2 * ?l) ?q))"
  proof
    assume "run_ID (?q ! i) \<in> run_ID ` (set (take ?l ?q) \<union> set (drop (2 * ?l) ?q))"
    then obtain x where x: "run_ID x = run_ID (?q ! i)" "x \<in> set (take ?l ?q) \<or> x \<in> set (drop (2 * ?l) ?q)" by auto
    have "\<exists>j<length ?q. x = ?q ! j \<and> (j < ?l \<or> 2 * ?l \<le> j)"
    proof (cases "x \<in> set (take ?l ?q)")
      case True
      then show ?thesis by (auto simp: in_set_conv_nth)
    next
      case False
      then obtain m where "m < length ?q - 2 * ?l" "x = ?q ! (2 * ?l + m)" using x(2) by (auto simp: in_set_conv_nth)
      then show ?thesis by (intro exI [of _ "2 * ?l + m"]) simp
    qed
    then obtain j where j: "j < length ?q" "run_ID (?q ! j) = run_ID (?q ! i)" "j < ?l \<or> 2 * ?l \<le> j" using x(1) by auto
    then have "j = i" using nth_eq_iff_index_eq [OF assms(1), of j i] assms(7) by simp
    then show False using j(3) assms(5,6) by linarith
  qed
  have "run_ID ` set (loadAssociations d' xs) = run_ID ` set xs" for d' xs
    by (simp add: loadAssociations_def image_image)
  then have "run_ID ` set (loadAssociations d (take ?l ?q) @ loadAssociations ?d (drop (2 * ?l) ?q))
      = run_ID ` (set (take ?l ?q) \<union> set (drop (2 * ?l) ?q))"
    by (simp add: image_Un)
  then show ?thesis using visited skipped by blast
qed

definition ex_entry :: "nat \<Rightarrow> go_run" where
  "ex_entry i = (NewRun 1 [] 3)\<lparr>run_ID := int i\<rparr>"

lemma ex_entry_fields: "run_ID (ex_entry i) = int i" "run_State (ex_entry i) = RunStatusRunning" "run_CreatedAt (ex_entry i) = Some 3"
  by (simp_all add: ex_entry_def NewRun_def)

definition ex_crowd :: "nat \<Rightarrow> pipeline_db" where
  "ex_crowd n = ex_tables\<lparr>pipeline_runs := map ex_entry [0..<n]\<rparr>"

definition ex_suspend :: "pipeline_db \<Rightarrow> pipeline_db" where
  "ex_suspend d = d\<lparr>pipeline_runs := map (\<lambda>r. if run_ID r < int BatchSize then r\<lparr>run_State := RunStatusSuspended\<rparr> else r)
     (pipeline_runs d)\<rparr>"

lemma ex_entries_sorted:
  "sort_key (\<lambda>r. the (run_CreatedAt r)) (sort_key run_ID (map ex_entry [m..<n])) = map ex_entry [m..<n]"
proof -
  have "sort_key run_ID (map ex_entry [m..<n]) = map ex_entry [m..<n]"
    by (rule sort_key_id_if_sorted) (simp add: sorted_wrt_iff_nth_less ex_entry_fields)
  moreover have "sort_key (\<lambda>r. the (run_CreatedAt r)) (map ex_entry [m..<n]) = map ex_entry [m..<n]"
    by (rule sort_key_id_if_sorted) (simp add: sorted_wrt_iff_nth_less ex_entry_fields)
  ultimately show ?thesis by simp
qed

lemma ex_entries_kept:
  "filter (\<lambda>r. run_State r = RunStatusRunning \<and> run_CreatedAt r \<noteq> None \<and> the (run_CreatedAt r) < 4) (map ex_entry xs) = map ex_entry xs"
  by (rule filter_True) (simp add: ex_entry_fields)

lemma ex_crowd_runs:
  "pipeline_runs (ex_crowd n) = map ex_entry [0..<n]"
  "pipeline_runs (ex_suspend d) = map (\<lambda>r. if run_ID r < int BatchSize then r\<lparr>run_State := RunStatusSuspended\<rparr> else r) (pipeline_runs d)"
  by (simp_all add: ex_crowd_def ex_suspend_def)

lemma ex_crowd_query: "unfinished_query 4 (ex_crowd n) = map ex_entry [0..<n]"
  by (simp only: unfinished_query_def ex_crowd_runs ex_entries_kept ex_entries_sorted)

lemma ex_suspended_query:
  "unfinished_query 4 (ex_suspend (ex_crowd (BatchSize + n))) = drop BatchSize (unfinished_query 4 (ex_crowd (BatchSize + n)))"
proof -
  let ?s = "\<lambda>r. if run_ID r < int BatchSize then r\<lparr>run_State := RunStatusSuspended\<rparr> else r"
  let ?P = "\<lambda>r. run_State r = RunStatusRunning \<and> run_CreatedAt r \<noteq> None \<and> the (run_CreatedAt r) < (4::int)"
  have split: "[0..<BatchSize + n] = [0..<BatchSize] @ [BatchSize..<BatchSize + n]" by (rule upt_add_eq_append) simp
  have "filter ?P (map ?s (map ex_entry [0..<BatchSize])) = []" by (rule filter_False) (auto simp: ex_entry_fields)
  moreover have "map ?s (map ex_entry [BatchSize..<BatchSize + n]) = map ex_entry [BatchSize..<BatchSize + n]"
    by (auto simp: ex_entry_fields)
  ultimately have "filter ?P (map ?s (map ex_entry [0..<BatchSize + n])) = map ex_entry [BatchSize..<BatchSize + n]"
    by (simp only: split map_append filter_append append_Nil ex_entries_kept)
  then have "unfinished_query 4 (ex_suspend (ex_crowd (BatchSize + n))) = map ex_entry [BatchSize..<BatchSize + n]"
    by (simp only: unfinished_query_def ex_crowd_runs ex_entries_sorted)
  then show ?thesis by (simp add: ex_crowd_query drop_map)
qed

lemma restart_skips_runs_witness:
  "\<exists>runs. GetUnfinishedRuns 4 [id, ex_suspend] (ex_crowd (BatchSize + 1)) = Some runs \<and> 1000 \<notin> run_ID ` set runs
    \<and> 1000 \<in> run_ID ` set (unfinished_query 4 (ex_crowd (BatchSize + 1)))"
proof -
  let ?q = "unfinished_query 4 (ex_crowd (BatchSize + 1))"
  have "map run_ID ?q = map int [0..<BatchSize + 1]" by (simp add: ex_crowd_query ex_entry_fields comp_def)
  then have d: "distinct (map run_ID ?q)" by (simp add: distinct_map del: upt_Suc)
  have len: "length ?q = BatchSize + 1" by (simp add: ex_crowd_query)
  have last: "run_ID (?q ! BatchSize) = int BatchSize" by (simp add: ex_crowd_query ex_entry_fields nth_append)
  have "\<exists>runs. GetUnfinishedRuns 4 (id # ex_suspend # replicate 0 id) (ex_crowd (BatchSize + 1)) = Some runs
      \<and> run_ID (?q ! BatchSize) \<notin> run_ID ` set runs"
    by (rule restart_skips_runs [where others = ex_suspend and k = 0, OF d _ ex_suspended_query [of 1]]) (simp_all only: len, simp_all add: BatchSize_def)
  moreover have "int BatchSize \<in> run_ID ` set ?q" using len last by (metis image_eqI less_add_one nth_mem)
  ultimately show ?thesis unfolding last by (simp add: BatchSize_def)
qed

end
