(* ===== verification/Spec2Isabelle.thy ===== *)
theory Spec2Isabelle
  imports NodeLifecycle Mailbox Pool Gas Heads Estimators SendErrors HeadTracker HeadBroadcaster
    LogBroadcaster TxConfirmerTheorems RunStore
begin

text \<open>
  A model of the core of the Chainlink node, the Go program under \<open>src/lib/chainlink/core\<close>, in
  Isabelle/HOL, with the theorems that make its parts correct. Paths below are relative to that
  directory. The part modelled is the one that connects a node to a chain: the life cycle of
  services, the pool of RPC nodes, the pipeline that carries new heads from the RPC node to the
  subscribers, the estimation of gas prices and the log broadcaster, which are two of those
  subscribers, and the transaction manager, which gives transactions nonces, sends them and watches over
  them until they are final. Apart from these stands the pipeline, which runs the task graph of a job.

  \<^bold>\<open>How the parts interact.\<close> Every service embeds \<open>StartStopOnce\<close>. A \<open>Pool\<close> holds primary and send-only
  nodes; each primary node is a state machine watched by one goroutine at a time, and a selector picks
  the node that answers a call. The head listener subscribes through the pool, hands every head to the
  tracker, which saves it (table and in-memory collection), fetches missing ancestors, and gives the
  head with its chain to the broadcaster through a bounded mailbox. The broadcaster calls its
  subscribers. The block-history estimator is a subscriber: on a head it fetches blocks in batches and
  recomputes a price; senders of transactions ask it for a price and for bumps of a price. The log
  broadcaster receives the logs of a subscription into a pool; a head releases those that have the
  confirmations a listener asked for, and a table remembers which of them each job has consumed.
  Jobs hand transactions to the transaction manager, which keeps them in tables: a broadcaster per key
  gives each the key's next nonce, asks the estimator for a price, signs an attempt through the key store
  and sends it through the pool; its answers are classified by \<open>SendErrors\<close>. Creation, queue pruning,
  nonce synchronization and the reaper work on the same tables beside it, and so does the confirmer, another
  subscriber to heads: it fetches receipts, bumps what waits too long and takes back what a re-organization
  removed; the resender sends again what is old. A job's source is parsed into a graph of tasks; a run hands it to a
  scheduler, which starts each task when its inputs are done, tries failed ones again, and leaves early when it
  has to; a run whose tasks wait for answers from outside is suspended into a table and resumed from its rows.

  \<^bold>\<open>Theories and code.\<close>
    \<^item> \<open>Prelude\<close>: panics as values (\<open>run\<close>), 64-bit wrap-around, Go maps as association lists with an
      unspecified iteration order.
    \<^item> \<open>StartStop\<close>: \<open>utils/utils.go\<close>, \<open>StartStopOnce\<close>, run to completion and interleaved.
    \<^item> \<open>Mailbox\<close>: \<open>utils/mailbox.go\<close>. Its interface is the locale \<open>mailbox_spec\<close>, interpreted as \<open>mb\<close>;
      the tracker's proofs use the facts of \<open>mb\<close>.
    \<^item> \<open>NodeFSM\<close>: \<open>chains/evm/client/node_fsm.go\<close> and \<open>node.go\<close>: states, transitions, dialling,
      verification, subscriptions.
    \<^item> \<open>NodeLifecycle\<close>: \<open>chains/evm/client/node_lifecycle.go\<close>: the four loops, each broken up at the points
      where another goroutine can run (\<open>lc_step\<close>), and the node as a system of loops, spawned goroutines
      and \<open>Close\<close> (\<open>lc_sys_step\<close>).
    \<^item> \<open>Pool\<close>: \<open>chains/evm/client/pool.go\<close>, the two selectors and \<open>services/multi.go\<close>. The contract of a
      selector is the locale \<open>node_selector\<close>, interpreted on both selectors and on the choice between them.
    \<^item> \<open>SendErrors\<close>: \<open>chains/evm/client/errors.go\<close>: the patterns of every client as data with a matcher, and
      the classification built on them; \<open>send_only_node.go\<close>.
    \<^item> \<open>Heads\<close>: \<open>Head\<close> in \<open>chains/evm/types/models.go\<close> and \<open>chains/evm/headtracker/heads.go\<close>. A pointer to a
      head is a generation of copies with a hash, so links of an old generation stay as they were.
    \<^item> \<open>HeadTracker\<close>: \<open>orm.go\<close>, \<open>head_saver.go\<close> and \<open>head_tracker.go\<close> of \<open>chains/evm/headtracker\<close>; the last
      part is the tracker with its goroutines (\<open>tracker_step\<close>).
    \<^item> \<open>HeadBroadcaster\<close>: \<open>head_broadcaster.go\<close> (its turn step by step: waking, fetching the head, copying the
      callbacks under the lock, one goroutine for each call, the wait for them, all interleaved with announcing,
      subscribing and unsubscribing) and
      \<open>head_listener.go\<close> (a state machine over the cases of its \<open>select\<close> statements).
    \<^item> \<open>Gas\<close>: \<open>assets/wei.go\<close> (arithmetic), \<open>chains/evm/gas/models.go\<close> and \<open>fixed_price_estimator.go\<close>, and the
      fee cap of the block-history estimator with its rounding to the precision of a \<open>big.Float\<close>.
    \<^item> \<open>BlockHistory\<close>: \<open>chains/evm/gas/block_history_estimator.go\<close> and \<open>chain_specific.go\<close>.
    \<^item> \<open>Estimators\<close>: \<open>l2_suggested_estimator.go\<close> and \<open>arbitrum_estimator.go\<close>; what a sender relies on is the
      locale \<open>legacy_estimator\<close>, interpreted on the fixed-price, block-history and layer-2 estimators.

    \<^item> \<open>LogPool\<close>, \<open>LogRegistrations\<close>, \<open>LogORM\<close>: \<open>pool.go\<close>, \<open>registrations.go\<close> and \<open>orm.go\<close> of
      \<open>chains/evm/log\<close>. The pairing heap is a package of its own: its contract is the locale \<open>min_heap\<close>.
    \<^item> \<open>LogBroadcaster\<close>: \<open>broadcaster.go\<close> and \<open>eth_subscriber.go\<close> there: the handlers of the event loop, the
      loop with its clients as the step relation \<open>lb_step\<close>, restart and backfill.
    \<^item> \<open>TxTables\<close>: \<open>models.go\<close> of \<open>chains/evm/txmgr\<close>, the tables with the constraints of
      \<open>store/migrate/migrations\<close>, statements and transactions that the database may refuse, or commit without
      an answer, and that run beside others; what a user of the tables can rely on is the locale
      \<open>table_user\<close>, interpreted for the broadcaster (\<open>eb\<close>) and the nonce synchronization (\<open>ns\<close>).
    \<^item> \<open>TxAttempts\<close>: \<open>attempts.go\<close>, \<open>transmitchecker.go\<close>, \<open>sendTransaction\<close>, the nonces of \<open>services/keystore\<close>.
    \<^item> \<open>TxBroadcaster\<close>: \<open>eth_broadcaster.go\<close>; \<open>TxNonces\<close> is its invariant and the proof that a call keeps it.
    \<^item> \<open>TxManager\<close>: \<open>txmgr.go\<close>, \<open>strategies.go\<close>, \<open>nonce_syncer.go\<close>, \<open>reaper.go\<close>, \<open>services/pg/queries.go\<close>.
    \<^item> \<open>TxTheorems\<close>: the theorems about these parts of the transaction manager, with an example.
    \<^item> \<open>TxConfirmer\<close>: \<open>eth_confirmer.go\<close>, \<open>eth_resender.go\<close> and \<open>common.go\<close>; \<open>TxConfirmed\<close> shows what every write of
      theirs leaves alone (locale \<open>confirmer_invariant\<close>), \<open>TxConfirmerTheorems\<close> has the theorems.
    \<^item> \<open>Pipeline\<close>: \<open>graph.go\<close>, \<open>common.go\<close>, \<open>task.base.go\<close>, \<open>variables.go\<close>, \<open>keypath.go\<close>, \<open>getters.go\<close> of
      \<open>services/pipeline\<close>: tasks, variables, the graph, and \<open>Parse\<close>.
    \<^item> \<open>Scheduler\<close>: \<open>scheduler.go\<close> there, one event at a time (\<open>sched_step\<close>). \<open>SchedulerInv\<close>, \<open>SchedulerRuns\<close> and
      \<open>SchedulerStart\<close> are its invariant and the proofs that a new scheduler has it and every event keeps it; that
      it stops is the locale \<open>stopping_machine\<close>, interpreted in \<open>SchedulerTheorems\<close>.
    \<^item> \<open>PipelineRunner\<close>: \<open>runner.go\<close>, \<open>models.go\<close> and the writes of \<open>orm.go\<close>; \<open>RunnerTheorems\<close> what a run reports
      and what a resumed run does; \<open>RunStore\<close> answers from outside, the reaper and the restart.

  \<^bold>\<open>What the lemmas show.\<close>
    \<^item> Services: the start and stop functions run at most once and never at the same time.
    \<^item> Nodes: at most one loop watches a node; without \<open>Close\<close> no transition panics and the loop agrees with
      the state; the thresholds of polling; the last live node is kept; the pool returns a live node if
      there is one, the highest one or each in its turn; every node receives a broadcast transaction.
    \<^item> Heads: the collection keeps the highest heads, its chains end and agree with the queries on them;
      whatever is interleaved, the heads announced have strictly increasing numbers; a backfill completes
      the chain; a subscriber is called once, in order, with every head for which the callbacks were copied while it was
      subscribed, and after unsubscribing at most with a head whose callbacks had been copied before; the newest
      announcement is always run. \<open>subscriber_numbers_increase\<close>, at the end of this theory, joins the tracker and the
      broadcaster: a subscriber is called with strictly increasing block numbers.
    \<^item> Gas: bounds of every estimate and bump, strict growth of successive bumps, the percentile, the
      order of the history, soundness of the connectivity check.
    \<^item> Logs: the pool refines a map of logs, the registrations a set of listeners; a head hands each
      listener exactly what is due, and records it first; a restart begins at or below every log that was
      pending; batches of a backfill are one query; marking as consumed reads back. The handlers of the event loop
      return, except that a chain of parents or a loop of block numbers that never ends stops them; the theorem says
      exactly when.
    \<^item> Transactions: whatever the node and the database answer and whatever else runs, nonces are given out
      in order, at most one transaction of a key is in progress and has the next nonce, what is sent has
      such a nonce and a price within the maximum of the key, no check of the program's own rules fails;
      the loop of bumps ends; creation happens once per task run, unless the queue is full; pruning and reaping remove only what
      they should.
    \<^item> Confirmation: handling a head never disturbs the broadcaster of a key; what still counts as confirmed
      after a search for re-organizations has a receipt on the chain; the list of what is
      bumped or sent again for lack of ether is unconfirmed, in order of nonces, bounded and leaves out only higher nonces; receipts confirm exactly the transactions they are for.
    \<^item> Pipeline: a parsed graph is well linked; its scheduler, if the tasks have names that can be
      set as variables, never panics and always ends, whatever the tasks do;
      a task runs when and only when all its inputs are done and sees their results; a finished run has a result
      for every task and reports the last ones; nothing starts after an early exit; an answer that was accepted
      continues the run; the reaper and the restart handle exactly the runs they should, if nothing interferes.
    \<^item> Where the code does not do what it means to, a theorem states what it does: a close during a redial
      (\<open>close_race\<close>), chain IDs re-checked over a closed connection, leaks of a failed dial, cycles of two
      parents, a head lost by a failed trim, prices and checks taken from the old end of the history, a
      tip cap above its fee cap, limits that wrap around, a transaction in progress of another chain, one
      stranded by the nonce synchronization, transactions that count as unconfirmed although they were not
      sent, one without a receipt that ends the search for re-organizations, tasks that run again when a run is
      resumed, an answer that comes too early, one that a finishing run replaces, runs that a restart skips, a loop over block numbers
      that wraps around, a name of a task that makes the scheduler panic.

  \<^bold>\<open>Conventions.\<close> What the outside does (answers of RPC nodes, outcomes of database statements, the case a
  \<open>select\<close> takes, whether a context is done) is an argument; packages that are not part of the
  repository appear only so. Go's \<open>uint32\<close>, \<open>uint16\<close> are words, \<open>int64\<close> is an integer with \<open>wrap64\<close> where it
  can overflow, \<open>*big.Int\<close> an integer; hashes are numbers with 0 the zero hash. A result \<open>Panic\<close> is a Go
  panic. No fuel is used: loops over lists are structural, \<open>batch_loop\<close> has a measure, the loops that
  follow \<open>Parent\<close> pointers are \<open>partial_function\<close>s whose value is \<open>None\<close> when they never end, with
  theorems for both cases (\<open>chains_finite\<close>, \<open>mutual_parents_diverge\<close>); so are the loops over the log
  pool's heap, which always end, the one that collects the logs up to a block number, which ends below the largest
  \<open>int64\<close> (\<open>send_loop_interval\<close>, \<open>send_loop_forever\<close>), and the one over backfill batches, which does for positive sizes. The
  scheduler is run by a list of events, and \<open>scheduler_terminates\<close> bounds its length; a run with its tables by a
  list of passes, each with what other sessions do.

  \<^bold>\<open>Not modelled.\<close> Logging (except where a line computes the length of a chain), metrics and timers (except
  as events). The text forms of amounts and blocks. What
  each kind of task computes, with the HTTP requests, contract calls and parameters it is made of: the scheduler
  is proved for any outcome of them. The job services that start runs. The log poller, whose logic is in its SQL. Off-chain reporting, key storage, the web API and configuration are adapters
  around other packages, a database or input and output. The contracts are not Go.
\<close>

section \<open>From the chain to a subscriber\<close>

lemma numbers_subseq_sorted:
  "subseq xs ys \<Longrightarrow> sorted_wrt (<) (map f ys) \<Longrightarrow> sorted_wrt (<) (map f xs :: int list)"
proof (induction rule: list_emb.induct)
  case (list_emb_Cons2 x y xs ys)
  then show ?case by (auto dest: list_emb_set)
qed simp_all

text \<open>C1: End to end: whatever heads arrive, in whatever order, however saving, backfilling, announcing
  and calling interleave, and whoever else subscribes and unsubscribes, the heads that one subscriber
  is called with have strictly increasing numbers.\<close>

theorem subscriber_numbers_increase:
  assumes "iteration_order ord" "0 < EvmHeadTrackerHistoryDepth cfg"
    and "list_all (\<lambda>r. row_number r = num (Hash (row_head r))) rows"
    and "LoadFromDB ord cfg True (NewHeadSaver rows) = (r, hs)"
    and "tracker_reachable ord cfg num hs s"
    and "iteration_order cord" "prefix (announced ops) (given s)" "length (filter (\<lambda>x. x = Sub t) ops) \<le> 1"
  shows "sorted_wrt (<) (map (\<lambda>p. Number (deref p))
     (map snd (filter (\<lambda>c. fst c = t) (calls (hb_run cord ops hb_init)))))"
proof (rule numbers_subseq_sorted [rotated])
  have "tracker_inv num s"
    by (rule tracker_inv_reachable [OF assms(5) LoadFromDB_inv [OF assms(1,3,4)] assms(1,2)])
  then show "sorted_wrt (<) (map (\<lambda>p. Number (deref p)) (given s))"
    by (simp add: tracker_inv_def pipeline_def numbers_def sorted_wrt_append)
  have "subseq (map snd (filter (\<lambda>c. fst c = t) (calls (hb_run cord ops hb_init)))) (announced ops)"
    by (rule calls_are_announced [OF assms(6,8)])
  also have "subseq (announced ops) (given s)" by (rule prefix_imp_subseq [OF assms(7)])
  finally show "subseq (map snd (filter (\<lambda>c. fst c = t) (calls (hb_run cord ops hb_init)))) (given s)" .
qed

lemma two_calls:
  "map snd (filter (\<lambda>c. fst c = ''t'')
     (calls (hb_run rev ([Sub ''t'', Announce p] @ example_turn [0] @ [Sub ''u'', Announce q] @ example_turn [1, 0]) hb_init))) = [p, q]"
  by (simp add: hb_eval)

theorem subscriber_numbers_increase_witness:
  "\<exists>p q. map snd (filter (\<lambda>c. fst c = ''t'')
       (calls (hb_run rev ([Sub ''t'', Announce p] @ example_turn [0] @ [Sub ''u'', Announce q] @ example_turn [1, 0]) hb_init))) = [p, q]
     \<and> Number (deref p) < Number (deref q)"
proof -
  obtain s p q where s: "tracker_reachable (\<lambda>m. m) tcfg num56 empty_saver s" "given s = [p, q]"
    using two_heads_reachable by blast
  have "sorted_wrt (<) (map (\<lambda>p. Number (deref p)) (map snd (filter (\<lambda>c. fst c = ''t'')
     (calls (hb_run rev ([Sub ''t'', Announce p] @ example_turn [0] @ [Sub ''u'', Announce q] @ example_turn [1, 0]) hb_init)))))"
    by (rule subscriber_numbers_increase [OF iteration_order_id _ _ LoadFromDB_empty s(1) iteration_order_rev])
      (simp_all add: tcfg_def s(2) example_turn_def)
  then show ?thesis unfolding two_calls using two_calls [of p q] by (intro exI [of _ p] exI [of _ q]) simp
qed

end
